(* ===== verification/Fleet_Prelude.thy ===== *)
theory Fleet_Prelude
  imports Complex_Main "HOL-Library.AList"
begin

text \<open>
  Shared vocabulary of the development: type synonyms for the identifiers the code
  passes around, the few JavaScript idioms the source leans on (\<open>indexOf\<close>, an object used
  as a string-keyed table and its \<open>in\<close> operator, safe integers), lemma collections, and the
  interfaces every state machine of the fleet is verified against: a step function with an
  invariant, and a step function with a preorder it can only climb.
\<close>

named_theorems fleet_simps \<open>unfolding rules of the small definitions\<close>
named_theorems fleet_inv \<open>preservation lemmas of the operations\<close>

type_synonym task_id = string
type_synonym worker_id = string
type_synonym attempt_id = string
type_synonym millis = int

section \<open>JavaScript idioms\<close>

text \<open>\<open>Array.prototype.indexOf\<close>: the first position, or \<open>-1\<close>.\<close>

fun index_of_from :: "int \<Rightarrow> 'a list \<Rightarrow> 'a \<Rightarrow> int" where
  "index_of_from i [] x = - 1"
| "index_of_from i (y # ys) x = (if y = x then i else index_of_from (i + 1) ys x)"

definition index_of :: "'a list \<Rightarrow> 'a \<Rightarrow> int" where
  "index_of xs x = index_of_from 0 xs x"

lemma index_of_from_absent: "x \<notin> set xs \<Longrightarrow> index_of_from i xs x = - 1"
  by (induction xs arbitrary: i) auto

lemma index_of_from_bounds:
  "x \<in> set xs \<Longrightarrow> i \<le> index_of_from i xs x \<and> index_of_from i xs x < i + int (length xs)"
proof (induction xs arbitrary: i)
  case (Cons y ys)
  show ?case
  proof (cases "y = x")
    case False
    with Cons.prems have "x \<in> set ys" by simp
    from Cons.IH [OF this, of "i + 1"] False show ?thesis by simp
  qed simp
qed simp

lemma index_of_from_nth:
  "x \<in> set xs \<Longrightarrow> xs ! nat (index_of_from i xs x - i) = x"
proof (induction xs arbitrary: i)
  case (Cons y ys)
  show ?case
  proof (cases "y = x")
    case False
    with Cons.prems have x: "x \<in> set ys" by simp
    let ?k = "index_of_from (i + 1) ys x"
    have "i + 1 \<le> ?k" using index_of_from_bounds [OF x] by blast
    then have "nat (?k - i) = Suc (nat (?k - (i + 1)))" by arith
    then show ?thesis using Cons.IH [OF x] False by simp
  qed simp
qed simp

lemma index_of_absent [simp]: "x \<notin> set xs \<Longrightarrow> index_of xs x = - 1"
  by (simp add: index_of_def index_of_from_absent)

lemma index_of_bounds: "x \<in> set xs \<Longrightarrow> 0 \<le> index_of xs x \<and> index_of xs x < int (length xs)"
  using index_of_from_bounds [of x xs 0] by (simp add: index_of_def)

lemma index_of_nth: "x \<in> set xs \<Longrightarrow> xs ! nat (index_of xs x) = x"
  using index_of_from_nth [of x xs 0] by (simp add: index_of_def)

lemma index_of_inj: "x \<in> set xs \<Longrightarrow> y \<in> set xs \<Longrightarrow> index_of xs x = index_of xs y \<Longrightarrow> x = y"
  by (metis index_of_nth)

lemma index_of_from_append:
  "index_of_from k (xs @ ys) x =
     (if x \<in> set xs then index_of_from k xs x else index_of_from (k + int (length xs)) ys x)"
  by (induction xs arbitrary: k) (auto simp: algebra_simps)

lemma index_of_before:
  assumes "distinct (xs @ i # ys)" and "d \<in> set xs"
  shows "index_of (xs @ i # ys) d < index_of (xs @ i # ys) i"
  using assms index_of_from_bounds [of d xs 0]
  by (simp add: index_of_def index_of_from_append)

text \<open>
  A JavaScript object used as a table from strings. Its own entries are an association
  list. The operator \<open>k in o\<close> also answers true for the names every object inherits from
  \<open>Object.prototype\<close>, which are not entries; \<open>obj_own\<close> is membership among the own entries.
\<close>

definition object_prototype_keys :: "string list" where
  "object_prototype_keys =
     [''constructor'', ''__defineGetter__'', ''__defineSetter__'', ''hasOwnProperty'',
      ''__lookupGetter__'', ''__lookupSetter__'', ''isPrototypeOf'', ''propertyIsEnumerable'',
      ''toString'', ''valueOf'', ''__proto__'', ''toLocaleString'']"

definition obj_own :: "(string \<times> 'a) list \<Rightarrow> string \<Rightarrow> bool" where
  "obj_own obj k \<longleftrightarrow> k \<in> fst ` set obj"

definition obj_in :: "(string \<times> 'a) list \<Rightarrow> string \<Rightarrow> bool" where
  "obj_in obj k \<longleftrightarrow> obj_own obj k \<or> k \<in> set object_prototype_keys"

definition plain_key :: "string \<Rightarrow> bool" where
  "plain_key k \<longleftrightarrow> k \<notin> set object_prototype_keys"

lemma obj_in_plain: "plain_key k \<Longrightarrow> obj_in obj k = obj_own obj k"
  by (simp add: obj_in_def plain_key_def)

lemma obj_own_map_of: "obj_own obj k \<longleftrightarrow> map_of obj k \<noteq> None"
  by (simp add: obj_own_def map_of_eq_None_iff)

lemma map_of_snoc: "k \<notin> fst ` set xs \<Longrightarrow> map_of (xs @ [(k, v)]) = (map_of xs)(k \<mapsto> v)"
  by (induction xs) (auto simp: fun_eq_iff)

definition obj_total :: "(string \<times> int) list \<Rightarrow> int" where
  "obj_total obj = sum_list (map snd obj)"

lemma obj_total_update_fresh:
  "\<not> obj_own obj k \<Longrightarrow> obj_total (AList.update k v obj) = obj_total obj + v"
  by (induction obj) (auto simp: obj_total_def obj_own_def)

lemma length_update_fresh:
  "\<not> obj_own obj k \<Longrightarrow> length (AList.update k v obj) = Suc (length obj)"
  by (induction obj) (auto simp: obj_own_def)

lemma delete_absent: "\<not> obj_own obj k \<Longrightarrow> AList.delete k obj = obj"
  by (induction obj) (auto simp: obj_own_def)

lemma obj_total_delete:
  "distinct (map fst obj) \<Longrightarrow> map_of obj k = Some v \<Longrightarrow>
   obj_total (AList.delete k obj) = obj_total obj - v"
proof (induction obj)
  case (Cons a obj)
  obtain k' v' where a: "a = (k', v')" by (cases a)
  show ?case
  proof (cases "k' = k")
    case True
    then have "\<not> obj_own obj k" using Cons.prems a by (auto simp: obj_own_def)
    then show ?thesis using Cons.prems a True delete_absent [of obj k] by (simp add: obj_total_def)
  next
    case False
    then show ?thesis using Cons a by (simp add: obj_total_def)
  qed
qed simp

lemma obj_total_nonneg: "(\<And>k v. (k, v) \<in> set obj \<Longrightarrow> 0 \<le> v) \<Longrightarrow> 0 \<le> obj_total obj"
  by (induction obj) (force simp: obj_total_def)+

text \<open>\<open>Number.MAX_SAFE_INTEGER\<close>, up to which JavaScript integers are exact.\<close>

definition max_safe_integer :: int where
  "max_safe_integer = 2 ^ 53 - 1"

text \<open>A JavaScript number: a finite double is a rational; the others are not.\<close>

datatype js_number = Finite rat | Not_a_number | Infinite bool

definition is_safe_integer :: "js_number \<Rightarrow> bool" where
  "is_safe_integer n = (case n of
     Finite q \<Rightarrow> snd (quotient_of q) = 1 \<and> \<bar>q\<bar> \<le> of_int max_safe_integer
   | _ \<Rightarrow> False)"

definition js_int :: "int \<Rightarrow> js_number" where
  "js_int i = Finite (of_int i)"

lemma is_safe_integer_js_int [simp]:
  "is_safe_integer (js_int i) \<longleftrightarrow> \<bar>i\<bar> \<le> max_safe_integer"
proof -
  have "\<bar>of_int i :: rat\<bar> = of_int \<bar>i\<bar>" by simp
  then show ?thesis
    by (simp add: is_safe_integer_def js_int_def quotient_of_int del: of_int_abs)
qed

lemma quotient_of_denom_1: "snd (quotient_of q) = 1 \<Longrightarrow> q = of_int (fst (quotient_of q))"
  using quotient_of_div [OF prod.collapse [symmetric, of "quotient_of q"]] by simp

lemma is_safe_integerE:
  assumes "is_safe_integer n"
  obtains i where "n = js_int i" and "\<bar>i\<bar> \<le> max_safe_integer"
proof (cases n)
  case (Finite q)
  with assms have d: "snd (quotient_of q) = 1" by (simp add: is_safe_integer_def)
  define i where "i = fst (quotient_of q)"
  have "n = js_int i" using quotient_of_denom_1 [OF d] Finite by (simp add: js_int_def i_def)
  moreover from this assms have "\<bar>i\<bar> \<le> max_safe_integer" by simp
  ultimately show thesis by (rule that)
qed (use assms in \<open>simp_all add: is_safe_integer_def\<close>)

section \<open>Interfaces of the state machines\<close>

text \<open>
  A machine is a step function over events together with an invariant its steps keep.
  Every stateful component of the fleet is an interpretation of one of these.
\<close>

locale invariant_machine =
  fixes step :: "'s \<Rightarrow> 'e \<Rightarrow> 's"
    and inv :: "'s \<Rightarrow> bool"
  assumes inv_step: "inv s \<Longrightarrow> inv (step s e)"
begin

lemma inv_run: "inv s \<Longrightarrow> inv (foldl step s es)"
  by (induction es arbitrary: s) (auto intro: inv_step)

end

text \<open>
  A machine that can only climb: \<open>le\<close> is a preorder on states, and under the invariant
  every step goes up in it.
\<close>

locale ratchet_machine = invariant_machine +
  fixes le :: "'a \<Rightarrow> 'a \<Rightarrow> bool"
  assumes le_refl: "le s s"
    and le_trans: "le s t \<Longrightarrow> le t u \<Longrightarrow> le s u"
    and le_step: "inv s \<Longrightarrow> le s (step s e)"
begin

lemma le_run: "inv s \<Longrightarrow> le s (foldl step s es)"
proof (induction es arbitrary: s)
  case Nil
  show ?case by (simp add: le_refl)
next
  case (Cons e es)
  have "le s (step s e)" using Cons.prems by (rule le_step)
  moreover have "le (step s e) (foldl step (step s e) es)"
    using Cons.prems by (intro Cons.IH inv_step)
  ultimately show ?case by (auto intro: le_trans)
qed

lemma le_run_append: "inv s \<Longrightarrow> le (foldl step s es) (foldl step s (es @ fs))"
  by (simp add: le_run inv_run)

end

text \<open>
  A machine whose steps emit messages. A reader who replays the messages over an abstract state
  keeps in step with the machine.
\<close>

fun replay :: "('a \<Rightarrow> 'o \<Rightarrow> 'a option) \<Rightarrow> 'a \<Rightarrow> 'o list \<Rightarrow> 'a option" where
  "replay read a [] = Some a"
| "replay read a (out # outs) = (case read a out of None \<Rightarrow> None | Some b \<Rightarrow> replay read b outs)"

fun run_out :: "('s \<Rightarrow> 'e \<Rightarrow> 's \<times> 'o list) \<Rightarrow> 's \<Rightarrow> 'e list \<Rightarrow> 's \<times> 'o list" where
  "run_out step s [] = (s, [])"
| "run_out step s (e # es) =
     (let (t, outs) = step s e; (u, outs') = run_out step t es in (u, outs @ outs'))"

lemma replay_append:
  "replay read a (xs @ ys) = (case replay read a xs of None \<Rightarrow> None | Some b \<Rightarrow> replay read b ys)"
  by (induction xs arbitrary: a) (auto split: option.splits)

lemma run_out_messages:
  assumes "m \<in> set (snd (run_out step s es))"
  shows "\<exists>t. \<exists>e \<in> set es. m \<in> set (snd (step t e))"
  using assms
proof (induction es arbitrary: s)
  case (Cons e es)
  then have "m \<in> set (snd (step s e)) \<or> m \<in> set (snd (run_out step (fst (step s e)) es))"
    by (simp add: case_prod_beta Let_def)
  then show ?case
  proof
    assume "m \<in> set (snd (run_out step (fst (step s e)) es))"
    from Cons.IH [OF this] show ?thesis by (meson list.set_intros(2))
  qed auto
qed simp

locale observed_machine =
  fixes step :: "'s \<Rightarrow> 'e \<Rightarrow> 's \<times> 'o list"
    and abs :: "'s \<Rightarrow> 'a"
    and read :: "'a \<Rightarrow> 'o \<Rightarrow> 'a option"
  assumes step_read: "replay read (abs s) (snd (step s e)) = Some (abs (fst (step s e)))"
begin

lemma run_read: "replay read (abs s) (snd (run_out step s es)) = Some (abs (fst (run_out step s es)))"
proof (induction es arbitrary: s)
  case (Cons e es)
  have "replay read (abs s) (snd (step s e)) = Some (abs (fst (step s e)))" by (rule step_read)
  then show ?case using Cons.IH [of "fst (step s e)"]
    by (simp add: replay_append case_prod_beta Let_def)
qed simp

end

end
