(* ===== verification/Verdicts.thy ===== *)
theory Verdicts
  imports Fleet_Prelude
begin

text \<open>
  The shared vocabularies of \<open>src/contracts.ts\<close>: the verdict lattice with \<open>rank\<close> and
  \<open>adjudicate\<close> (imported by the harvester under the name \<open>latticeCombine\<close>), and the exit codes
  with the severity ladder \<open>worstExit\<close> folds over. A ladder is a list of levels with the
  strongest first; its laws are stated once in a locale and interpreted for the exit codes.
\<close>

section \<open>Ladders\<close>

text \<open>\<open>for (const c of LADDER) if (codes.includes(c)) return c; return bottom\<close>\<close>

fun first_present :: "'a list \<Rightarrow> 'a \<Rightarrow> 'a list \<Rightarrow> 'a" where
  "first_present [] bottom codes = bottom"
| "first_present (c # cs) bottom codes =
     (if c \<in> set codes then c else first_present cs bottom codes)"

lemma first_present_mem: "first_present ls b codes \<in> insert b (set codes)"
  by (induction ls) auto

lemma first_present_append:
  "first_present ls b (xs @ ys) =
   first_present ls b [first_present ls b xs, first_present ls b ys]"
  if "b = last ls" "ls \<noteq> []" "distinct ls"
  using that
proof (induction ls)
  case (Cons l ls)
  show ?case
  proof (cases "ls = []")
    case True
    then show ?thesis using Cons.prems by simp
  next
    case False
    with Cons.prems have b: "b = last ls" "l \<noteq> b" by auto
    have notin: "first_present ls b zs \<noteq> l" for zs
    proof -
      have "first_present ls b zs \<in> insert b (set ls)" by (induction ls) auto
      then show ?thesis using Cons.prems b by auto
    qed
    show ?thesis using Cons.IH [OF b(1) False] Cons.prems notin [of xs] notin [of ys] by auto
  qed
qed simp

locale ladder =
  fixes levels :: "'a list" and bottom :: 'a
  assumes levels_distinct: "distinct levels"
    and levels_all: "x \<in> set levels"
    and levels_bottom: "bottom = last levels"
begin

definition worst :: "'a list \<Rightarrow> 'a" where
  "worst codes = first_present levels bottom codes"

lemma levels_nonempty: "levels \<noteq> []"
  using levels_all by auto

lemma worst_append: "worst (xs @ ys) = worst [worst xs, worst ys]"
  unfolding worst_def
  by (rule first_present_append [OF levels_bottom levels_nonempty levels_distinct])

lemma worst_mem: "codes \<noteq> [] \<Longrightarrow> worst codes \<in> set codes"
proof -
  assume ne: "codes \<noteq> []"
  have "\<exists>l \<in> set ls. l \<in> set codes \<Longrightarrow> first_present ls b codes \<in> set codes" for ls b
    by (induction ls) auto
  moreover from ne levels_all have "\<exists>l \<in> set levels. l \<in> set codes"
    by (meson last_in_set)
  ultimately show ?thesis unfolding worst_def by blast
qed

lemma worst_dominates:
  assumes "c \<in> set codes"
  shows "index_of levels (worst codes) \<le> index_of levels c"
proof -
  have "c \<in> set codes \<Longrightarrow> c \<in> set ls \<Longrightarrow>
      index_of_from i ls (first_present ls b codes) \<le> index_of_from i ls c" for ls i b
  proof (induction ls arbitrary: i)
    case (Cons l ls)
    show ?case
    proof (cases "l \<in> set codes")
      case True
      then show ?thesis using index_of_from_bounds [OF Cons.prems(2), of i] by simp
    next
      case False
      with Cons.prems have c: "c \<in> set ls" "l \<noteq> c" by auto
      have "first_present ls b codes \<in> set codes"
        using Cons.prems(1) c(1) by (induction ls) auto
      with False have "first_present ls b codes \<noteq> l" by auto
      then show ?thesis using False c Cons.IH [OF Cons.prems(1) c(1), of "i + 1"] by simp
    qed
  qed simp
  then show ?thesis using assms levels_all unfolding worst_def index_of_def by blast
qed

end

section \<open>Verdicts\<close>

datatype verdict = Success | Partial | Blocked | Failed | Aborted | Timed_out | Unknown

definition LATTICE :: "verdict list" where
  "LATTICE = [Failed, Blocked, Partial, Success]"

definition rank :: "verdict \<Rightarrow> int" where
  "rank v = index_of LATTICE v"

lemma rank_simps [simp]:
  "rank Failed = 0" "rank Blocked = 1" "rank Partial = 2" "rank Success = 3"
  "rank Aborted = -1" "rank Timed_out = -1" "rank Unknown = -1"
  by (simp_all add: rank_def LATTICE_def index_of_def)

definition latticeCombine :: "verdict \<Rightarrow> verdict option \<Rightarrow> verdict" where
  "latticeCombine derived claimed =
     (if derived = Aborted \<or> derived = Timed_out then derived
      else case claimed of
        None \<Rightarrow> derived
      | Some cl \<Rightarrow>
          if cl = Unknown then derived
          else if derived = Unknown then cl
          else
            (let d = rank derived; c = rank cl in
             if d < 0 then derived
             else if c < 0 then derived
             else LATTICE ! nat (min d c)))"

lemma latticeCombine_graded:
  "0 \<le> rank d \<Longrightarrow> 0 \<le> rank c \<Longrightarrow> rank (latticeCombine d (Some c)) = min (rank d) (rank c)"
  by (cases d; cases c) (simp_all add: latticeCombine_def LATTICE_def)

lemma latticeCombine_Unknown [simp]:
  "latticeCombine Unknown None = Unknown"
  "latticeCombine Unknown (Some c) = c"
  "latticeCombine d (Some Unknown) = d"
  "latticeCombine d None = d"
  by (auto simp: latticeCombine_def)

lemma latticeCombine_never_upgrades:
  "d \<noteq> Unknown \<Longrightarrow> rank (latticeCombine d c) \<le> rank d"
proof (cases c)
  case (Some cl)
  then show "d \<noteq> Unknown \<Longrightarrow> ?thesis"
    by (cases d; cases cl) (simp_all add: latticeCombine_def LATTICE_def)
qed simp

text \<open>
  The harvester ends with caps: each takes the verdict so far and may lower it on evidence of its
  own. What every cap promises, and what a run of caps therefore keeps, is stated here once; the
  caps of the harvester are its interpretations.
\<close>

locale verdict_cap =
  fixes cap :: "verdict \<Rightarrow> verdict"
  assumes lowers: "rank (cap v) \<le> rank v"
    and unranked_kept: "rank v < 0 \<Longrightarrow> cap v = v"
    and ranked_kept: "0 \<le> rank v \<Longrightarrow> 0 \<le> rank (cap v)"
begin

lemma success_kept: "cap v = Success \<Longrightarrow> v = Success"
  using lowers [of v] by (cases v) auto

lemma failed_stays: "cap Failed = Failed"
  using lowers [of Failed] ranked_kept [of Failed] by (cases "cap Failed") auto

lemma cap_ranked: "0 \<le> rank (cap v) \<longleftrightarrow> 0 \<le> rank v"
  using unranked_kept [of v] ranked_kept [of v] by force

lemma cap_then:
  assumes "verdict_cap g"
  shows "verdict_cap (\<lambda>v. g (cap v))"
proof
  fix v
  note g = verdict_cap.lowers [OF assms] verdict_cap.unranked_kept [OF assms] verdict_cap.ranked_kept [OF assms]
  show "rank (g (cap v)) \<le> rank v" using g(1) lowers order_trans by blast
  show "rank v < 0 \<Longrightarrow> g (cap v) = v" using g(2) unranked_kept by simp
  show "0 \<le> rank v \<Longrightarrow> 0 \<le> rank (g (cap v))" using g(3) ranked_kept by blast
qed

end

section \<open>Exit codes\<close>

datatype exit_code =
  EXIT_SUCCESS | EXIT_USAGE | EXIT_BACKEND_UNAVAILABLE | EXIT_TIMEOUT | EXIT_BUDGET
| EXIT_WORKER_DIED | EXIT_PARTIAL | EXIT_INTERNAL | EXIT_STAGED

fun exit_value :: "exit_code \<Rightarrow> int" where
  "exit_value EXIT_SUCCESS = 0"
| "exit_value EXIT_USAGE = 2"
| "exit_value EXIT_BACKEND_UNAVAILABLE = 3"
| "exit_value EXIT_TIMEOUT = 4"
| "exit_value EXIT_BUDGET = 5"
| "exit_value EXIT_WORKER_DIED = 6"
| "exit_value EXIT_PARTIAL = 7"
| "exit_value EXIT_INTERNAL = 8"
| "exit_value EXIT_STAGED = 9"

definition EXIT_SEVERITY :: "exit_code list" where
  "EXIT_SEVERITY =
     [EXIT_INTERNAL, EXIT_USAGE, EXIT_BACKEND_UNAVAILABLE, EXIT_BUDGET, EXIT_WORKER_DIED,
      EXIT_TIMEOUT, EXIT_STAGED, EXIT_PARTIAL, EXIT_SUCCESS]"

definition worstExit :: "exit_code list \<Rightarrow> exit_code" where
  "worstExit codes = first_present EXIT_SEVERITY EXIT_SUCCESS codes"

interpretation exits: ladder EXIT_SEVERITY EXIT_SUCCESS
  rewrites "ladder.worst EXIT_SEVERITY EXIT_SUCCESS = worstExit"
proof -
  have "x \<in> set EXIT_SEVERITY" for x
    by (cases x) (simp_all add: EXIT_SEVERITY_def)
  then show l: "ladder EXIT_SEVERITY EXIT_SUCCESS"
    by unfold_locales (simp_all add: EXIT_SEVERITY_def)
  show "ladder.worst EXIT_SEVERITY EXIT_SUCCESS = worstExit"
    by (rule ext) (simp add: ladder.worst_def [OF l] worstExit_def)
qed

text \<open>The position of a code in the ladder, strongest first.\<close>

definition severity :: "exit_code \<Rightarrow> int" where
  "severity c = index_of EXIT_SEVERITY c"

lemma severity_inj: "severity c = severity d \<Longrightarrow> c = d"
  unfolding severity_def by (rule index_of_inj) (rule exits.levels_all)+

lemma worstExit_success_iff: "worstExit codes = EXIT_SUCCESS \<longleftrightarrow> set codes \<subseteq> {EXIT_SUCCESS}"
proof
  assume s: "worstExit codes = EXIT_SUCCESS"
  show "set codes \<subseteq> {EXIT_SUCCESS}"
  proof
    fix c assume c: "c \<in> set codes"
    have "severity EXIT_SUCCESS \<le> severity c"
      using exits.worst_dominates [OF c] s by (simp add: severity_def)
    then show "c \<in> {EXIT_SUCCESS}"
      by (cases c) (simp_all add: severity_def EXIT_SEVERITY_def index_of_def)
  qed
next
  assume "set codes \<subseteq> {EXIT_SUCCESS}"
  then show "worstExit codes = EXIT_SUCCESS"
    by (cases "codes = []") (auto simp: worstExit_def EXIT_SEVERITY_def)
qed

text \<open>
  The exit code of several outcomes is the most severe of them on the ladder: with none it is
  success, combining two groups first gives the same code, and for a group that has outcomes it
  is one of them, and none of them is more severe.
\<close>

theorem worstExit_severity_ladder:
  "worstExit [] = EXIT_SUCCESS
   \<and> worstExit (xs @ ys) = worstExit [worstExit xs, worstExit ys]
   \<and> (\<forall>c \<in> set xs. worstExit xs \<in> set xs \<and> severity (worstExit xs) \<le> severity c)"
proof (intro conjI ballI)
  show "worstExit [] = EXIT_SUCCESS" by (simp add: worstExit_def EXIT_SEVERITY_def)
  show "worstExit (xs @ ys) = worstExit [worstExit xs, worstExit ys]" by (rule exits.worst_append)
  fix c assume c: "c \<in> set xs"
  then show "worstExit xs \<in> set xs" using exits.worst_mem [of xs] by (cases xs) simp_all
  show "severity (worstExit xs) \<le> severity c"
    using exits.worst_dominates [OF c] by (simp add: severity_def)
qed

theorem worstExit_severity_ladder_witness:
  "worstExit [EXIT_PARTIAL, EXIT_BUDGET, EXIT_TIMEOUT] \<in> set [EXIT_PARTIAL, EXIT_BUDGET, EXIT_TIMEOUT]
   \<and> severity (worstExit [EXIT_PARTIAL, EXIT_BUDGET, EXIT_TIMEOUT]) \<le> severity EXIT_TIMEOUT"
  using worstExit_severity_ladder [of "[EXIT_PARTIAL, EXIT_BUDGET, EXIT_TIMEOUT]" "[]"]
  by (meson list.set_intros)

end
