(* ===== verification/Epoch.thy ===== *)
theory Epoch
  imports Verdicts "HOL-Library.Sublist"
begin

text \<open>
  Epoch fencing of dispatched turns, \<open>src/rpc/epoch.ts\<close>: the state \<open>FenceSnapshot\<close> and every
  method of \<open>EpochManager\<close>. An epoch names one accepted dispatch; at most one is live, events of
  the worker's stream belong to it only after its acknowledgement, and completed epochs are kept
  for good. Epochs and sequence numbers are integers; an epoch that arrives from a caller is a
  JavaScript number and is checked first.
\<close>

section \<open>State\<close>

record completed_task =
  ct_task_id :: task_id
  ct_attempt_id :: attempt_id
  ct_epoch :: int
  ct_verdict :: verdict
  ct_settled_at :: string

record live_epoch =
  lv_task_id :: task_id
  lv_attempt_id :: attempt_id
  lv_epoch :: int
  lv_started :: bool
  lv_abort_requested :: bool
  lv_timed_out :: bool

record fence =
  f_last_accepted_epoch :: int
  f_ack_seq :: "int option"
  f_last_seq :: int
  f_live :: "live_epoch option"
  f_completed :: "completed_task list"
  f_attempts :: "string \<Rightarrow> int option"

datatype dispatch_decision =
  Dispatch_ok int bool
| Already_completed int verdict
| Busy int
| Stale_epoch js_number int

datatype cancel_decision =
  Cancelled int
| No_live_epoch
| Not_the_live_attempt task_id attempt_id int
| Already_started int

datatype malformed_epoch = Malformed_epoch js_number

datatype attribution = Live | Prior

definition emptyFence :: fence where
  "emptyFence = \<lparr>f_last_accepted_epoch = 0, f_ack_seq = None, f_last_seq = 0, f_live = None,
                 f_completed = [], f_attempts = Map.empty\<rparr>"

definition attemptKey :: "task_id \<Rightarrow> attempt_id \<Rightarrow> string" where
  "attemptKey taskId attemptId = taskId @ [CHR 0x00] @ attemptId"

section \<open>Operations\<close>

definition assertEpochWellFormed :: "js_number \<Rightarrow> malformed_epoch + unit" where
  "assertEpochWellFormed value =
     (if \<not> is_safe_integer value \<or> (case value of Finite q \<Rightarrow> q < 0 | _ \<Rightarrow> False)
      then Inl (Malformed_epoch value) else Inr ())"

definition windowOpen :: "fence \<Rightarrow> bool" where
  "windowOpen s = (case f_live s of None \<Rightarrow> False | Some l \<Rightarrow> lv_started l)"

definition grant :: "fence \<Rightarrow> task_id \<Rightarrow> attempt_id \<Rightarrow> fence" where
  "grant s taskId attemptId =
     (let next = f_last_accepted_epoch s + 1
      in s\<lparr>f_last_accepted_epoch := next,
           f_ack_seq := None,
           f_live := Some \<lparr>lv_task_id = taskId, lv_attempt_id = attemptId, lv_epoch = next,
                           lv_started = False, lv_abort_requested = False, lv_timed_out = False\<rparr>,
           f_attempts := (f_attempts s)(attemptKey taskId attemptId \<mapsto> next)\<rparr>)"

definition allocate_checked ::
  "fence \<Rightarrow> task_id \<Rightarrow> attempt_id \<Rightarrow> js_number option \<Rightarrow> fence \<times> dispatch_decision" where
  "allocate_checked s taskId attemptId requested =
     (case f_attempts s (attemptKey taskId attemptId) of
        Some prior \<Rightarrow> (s, Dispatch_ok prior True)
      | None \<Rightarrow>
     (case find (\<lambda>c. ct_task_id c = taskId) (f_completed s) of
        Some c \<Rightarrow> (s, Already_completed (ct_epoch c) (ct_verdict c))
      | None \<Rightarrow>
     (case f_live s of
        Some l \<Rightarrow> (s, Busy (lv_epoch l))
      | None \<Rightarrow>
          let next = f_last_accepted_epoch s + 1
          in (case requested of
                None \<Rightarrow> (grant s taskId attemptId, Dispatch_ok next False)
              | Some r \<Rightarrow>
                  if r = js_int next then (grant s taskId attemptId, Dispatch_ok next False)
                  else (case find (\<lambda>c. js_int (ct_epoch c) = r) (f_completed s) of
                          Some c \<Rightarrow> (s, Already_completed (ct_epoch c) (ct_verdict c))
                        | None \<Rightarrow> (s, Stale_epoch r next))))))"

definition allocate ::
  "fence \<Rightarrow> task_id \<Rightarrow> attempt_id \<Rightarrow> js_number option \<Rightarrow> malformed_epoch + fence \<times> dispatch_decision" where
  "allocate s taskId attemptId requested =
     (case requested of
        None \<Rightarrow> Inr (allocate_checked s taskId attemptId requested)
      | Some r \<Rightarrow>
          (case assertEpochWellFormed r of
             Inl e \<Rightarrow> Inl e
           | Inr _ \<Rightarrow> Inr (allocate_checked s taskId attemptId requested)))"

definition noteAck :: "fence \<Rightarrow> int \<Rightarrow> fence" where
  "noteAck s seq =
     (if f_live s = None then s
      else
        let s' = s\<lparr>f_last_seq := max (f_last_seq s) seq\<rparr>
        in if f_ack_seq s' \<noteq> None then s' else s'\<lparr>f_ack_seq := Some seq\<rparr>)"

definition attribute :: "fence \<Rightarrow> int \<Rightarrow> fence \<times> attribution" where
  "attribute s seq =
     (s\<lparr>f_last_seq := max (f_last_seq s) seq\<rparr>,
      (case (f_live s, f_ack_seq s) of
         (Some _, Some ack) \<Rightarrow> if seq > ack then Live else Prior
       | _ \<Rightarrow> Prior))"

definition bindStart :: "fence \<Rightarrow> int \<Rightarrow> fence \<times> bool" where
  "bindStart s seq =
     (case f_live s of
        None \<Rightarrow> (s, False)
      | Some l \<Rightarrow>
          if lv_started l then (s, False)
          else
            let (s', a) = attribute s seq
            in if a \<noteq> Live then (s', False)
               else (s'\<lparr>f_live := Some (l\<lparr>lv_started := True\<rparr>)\<rparr>, True))"

definition noteAbortRequested :: "fence \<Rightarrow> fence \<times> bool" where
  "noteAbortRequested s =
     (case f_live s of
        None \<Rightarrow> (s, False)
      | Some l \<Rightarrow> (s\<lparr>f_live := Some (l\<lparr>lv_abort_requested := True\<rparr>)\<rparr>, True))"

definition abortRequested :: "fence \<Rightarrow> bool" where
  "abortRequested s = (case f_live s of None \<Rightarrow> False | Some l \<Rightarrow> lv_abort_requested l)"

definition noteTimedOut :: "fence \<Rightarrow> fence \<times> bool" where
  "noteTimedOut s =
     (case f_live s of
        None \<Rightarrow> (s, False)
      | Some l \<Rightarrow> (s\<lparr>f_live := Some (l\<lparr>lv_timed_out := True\<rparr>)\<rparr>, True))"

definition timedOut :: "fence \<Rightarrow> bool" where
  "timedOut s = (case f_live s of None \<Rightarrow> False | Some l \<Rightarrow> lv_timed_out l)"

definition settle_epoch ::
  "fence \<Rightarrow> verdict \<Rightarrow> string \<Rightarrow> fence \<times> (task_id \<times> attempt_id \<times> int \<times> verdict) option" where
  "settle_epoch s verdict settledAt =
     (case f_live s of
        None \<Rightarrow> (s, None)
      | Some l \<Rightarrow>
          (s\<lparr>f_completed := f_completed s @
               [\<lparr>ct_task_id = lv_task_id l, ct_attempt_id = lv_attempt_id l, ct_epoch = lv_epoch l,
                 ct_verdict = verdict, ct_settled_at = settledAt\<rparr>],
             f_live := None, f_ack_seq := None\<rparr>,
           Some (lv_task_id l, lv_attempt_id l, lv_epoch l, verdict)))"

definition cancel :: "fence \<Rightarrow> task_id \<Rightarrow> attempt_id \<Rightarrow> fence \<times> cancel_decision" where
  "cancel s taskId attemptId =
     (case f_live s of
        None \<Rightarrow> (s, No_live_epoch)
      | Some l \<Rightarrow>
          if lv_task_id l \<noteq> taskId \<or> lv_attempt_id l \<noteq> attemptId
          then (s, Not_the_live_attempt (lv_task_id l) (lv_attempt_id l) (lv_epoch l))
          else if lv_started l then (s, Already_started (lv_epoch l))
          else (s\<lparr>f_live := None, f_ack_seq := None,
                  f_attempts := (f_attempts s)(attemptKey taskId attemptId := None)\<rparr>,
                Cancelled (lv_epoch l)))"

section \<open>The machine\<close>

datatype fence_op =
  Allocate task_id attempt_id "js_number option"
| Note_ack int
| Attribute int
| Bind_start int
| Abort_requested
| Note_timed_out
| Settle_epoch verdict string
| Cancel task_id attempt_id

fun fence_step :: "fence \<Rightarrow> fence_op \<Rightarrow> fence" where
  "fence_step s (Allocate t a r) = (case allocate s t a r of Inl _ \<Rightarrow> s | Inr (s', _) \<Rightarrow> s')"
| "fence_step s (Note_ack q) = noteAck s q"
| "fence_step s (Attribute q) = fst (attribute s q)"
| "fence_step s (Bind_start q) = fst (bindStart s q)"
| "fence_step s Abort_requested = fst (noteAbortRequested s)"
| "fence_step s Note_timed_out = fst (noteTimedOut s)"
| "fence_step s (Settle_epoch v t) = fst (settle_epoch s v t)"
| "fence_step s (Cancel t a) = fst (cancel s t a)"

text \<open>The attempts on record: the completed ones in order, then the live one.\<close>

definition attempt_log :: "fence \<Rightarrow> (string \<times> int) list" where
  "attempt_log s =
     map (\<lambda>c. (attemptKey (ct_task_id c) (ct_attempt_id c), ct_epoch c)) (f_completed s)
     @ (case f_live s of None \<Rightarrow> []
        | Some l \<Rightarrow> [(attemptKey (lv_task_id l) (lv_attempt_id l), lv_epoch l)])"

definition task_log :: "fence \<Rightarrow> task_id list" where
  "task_log s = map ct_task_id (f_completed s)
     @ (case f_live s of None \<Rightarrow> [] | Some l \<Rightarrow> [lv_task_id l])"

definition fence_inv :: "fence \<Rightarrow> bool" where
  "fence_inv s \<longleftrightarrow>
     0 \<le> f_last_accepted_epoch s
     \<and> sorted_wrt (<) (0 # map snd (attempt_log s))
     \<and> (\<forall>e \<in> snd ` set (attempt_log s). e \<le> f_last_accepted_epoch s)
     \<and> distinct (map fst (attempt_log s))
     \<and> distinct (task_log s)
     \<and> f_attempts s = map_of (attempt_log s)
     \<and> (case f_ack_seq s of None \<Rightarrow> \<not> windowOpen s
        | Some a \<Rightarrow> f_live s \<noteq> None \<and> a \<le> f_last_seq s)"

definition fence_le :: "fence \<Rightarrow> fence \<Rightarrow> bool" where
  "fence_le s t \<longleftrightarrow>
     prefix (f_completed s) (f_completed t)
     \<and> f_last_accepted_epoch s \<le> f_last_accepted_epoch t
     \<and> f_last_seq s \<le> f_last_seq t"

lemmas fence_ops = allocate_def allocate_checked_def noteAck_def attribute_def bindStart_def
  noteAbortRequested_def noteTimedOut_def settle_epoch_def cancel_def

lemma emptyFence_inv: "fence_inv emptyFence"
  by (simp add: fence_inv_def emptyFence_def attempt_log_def task_log_def windowOpen_def)

text \<open>\<open>allocate\<close> either leaves the fence alone or grants the next epoch.\<close>

lemma allocate_cases:
  assumes "allocate s t a r = Inr (s', d)"
  obtains (same) "s' = s" and "\<And>e. d \<noteq> Dispatch_ok e False"
  | (granted) "s' = grant s t a" and "d = Dispatch_ok (f_last_accepted_epoch s + 1) False"
      and "f_live s = None" and "f_attempts s (attemptKey t a) = None"
      and "t \<notin> ct_task_id ` set (f_completed s)"
      and "case r of None \<Rightarrow> True | Some q \<Rightarrow> q = js_int (f_last_accepted_epoch s + 1)"
  using assms
  by (auto simp: allocate_def allocate_checked_def find_None_iff Let_def
      split: option.splits sum.splits if_splits)

lemma grant_inv:
  assumes "fence_inv s" and "f_live s = None" and "f_attempts s (attemptKey t a) = None"
    and "t \<notin> ct_task_id ` set (f_completed s)"
  shows "fence_inv (grant s t a)"
proof -
  let ?log = "map (\<lambda>c. (attemptKey (ct_task_id c) (ct_attempt_id c), ct_epoch c)) (f_completed s)"
  have log: "attempt_log s = ?log" using assms(2) by (simp add: attempt_log_def)
  have new: "attempt_log (grant s t a) = ?log @ [(attemptKey t a, f_last_accepted_epoch s + 1)]"
    by (simp add: attempt_log_def grant_def Let_def)
  have fresh: "attemptKey t a \<notin> fst ` set ?log"
    using assms(1,3) log by (simp add: fence_inv_def map_of_eq_None_iff)
  have le: "\<forall>e \<in> snd ` set ?log. e \<le> f_last_accepted_epoch s"
    using assms(1) log by (simp add: fence_inv_def)
  have att: "f_attempts (grant s t a) = map_of (attempt_log (grant s t a))"
    unfolding new map_of_snoc [OF fresh] using assms(1) log
    by (simp add: grant_def Let_def fence_inv_def)
  have "task_log (grant s t a) = task_log s @ [t]" "t \<notin> set (task_log s)"
    using assms(2,4) by (auto simp: task_log_def grant_def Let_def)
  moreover have "f_last_accepted_epoch (grant s t a) = f_last_accepted_epoch s + 1"
    "f_ack_seq (grant s t a) = None" "\<not> windowOpen (grant s t a)"
    by (simp_all add: grant_def Let_def windowOpen_def)
  moreover have "sorted_wrt (<) (0 # map snd ?log)" "distinct (map fst ?log)"
    "0 \<le> f_last_accepted_epoch s" "distinct (task_log s)"
    using assms(1) log by (simp_all add: fence_inv_def)
  ultimately show ?thesis
    unfolding fence_inv_def att unfolding new using fresh le
    by (force simp: sorted_wrt_append)
qed

text \<open>Updates of the live epoch's flags touch neither log.\<close>

lemma live_flags_log:
  "f_live s = Some l \<Longrightarrow> lv_task_id l' = lv_task_id l \<Longrightarrow> lv_attempt_id l' = lv_attempt_id l \<Longrightarrow>
   lv_epoch l' = lv_epoch l \<Longrightarrow>
   attempt_log (s\<lparr>f_live := Some l'\<rparr>) = attempt_log s \<and> task_log (s\<lparr>f_live := Some l'\<rparr>) = task_log s"
  by (simp add: attempt_log_def task_log_def)

lemma log_frame [simp]:
  "attempt_log (s\<lparr>f_last_seq := q\<rparr>) = attempt_log s" "task_log (s\<lparr>f_last_seq := q\<rparr>) = task_log s"
  "attempt_log (s\<lparr>f_ack_seq := k\<rparr>) = attempt_log s" "task_log (s\<lparr>f_ack_seq := k\<rparr>) = task_log s"
  by (simp_all add: attempt_log_def task_log_def)

lemma noteAck_inv: "fence_inv s \<Longrightarrow> fence_inv (noteAck s q)"
  by (auto simp: fence_inv_def noteAck_def Let_def windowOpen_def split: option.splits)

lemma attribute_inv: "fence_inv s \<Longrightarrow> fence_inv (fst (attribute s q))"
  by (auto simp: fence_inv_def attribute_def windowOpen_def split: option.splits)

lemma bindStart_inv:
  assumes "fence_inv s"
  shows "fence_inv (fst (bindStart s q))"
proof (cases "f_live s")
  case (Some l)
  show ?thesis
  proof (cases "\<not> lv_started l \<and> snd (attribute s q) = Live")
    case True
    let ?s = "fst (attribute s q)"
    have "f_live ?s = Some l" "f_ack_seq ?s \<noteq> None" using Some True
      by (auto simp: attribute_def split: option.splits)
    then have "fence_inv (?s\<lparr>f_live := Some (l\<lparr>lv_started := True\<rparr>)\<rparr>)"
      using attribute_inv [OF assms, of q] live_flags_log [of ?s l "l\<lparr>lv_started := True\<rparr>"]
      by (auto simp: fence_inv_def)
    moreover have "bindStart s q = (?s\<lparr>f_live := Some (l\<lparr>lv_started := True\<rparr>)\<rparr>, True)"
      using True Some by (cases "attribute s q") (simp add: bindStart_def)
    ultimately show ?thesis by simp
  next
    case False
    then have "fst (bindStart s q) \<in> {s, fst (attribute s q)}"
      using Some by (auto simp: bindStart_def split: prod.splits)
    then show ?thesis using assms attribute_inv by auto
  qed
qed (use assms in \<open>simp add: bindStart_def\<close>)

lemma flags_inv:
  "fence_inv s \<Longrightarrow> fence_inv (fst (noteAbortRequested s))"
  "fence_inv s \<Longrightarrow> fence_inv (fst (noteTimedOut s))"
  using live_flags_log
  by (auto simp: fence_inv_def noteAbortRequested_def noteTimedOut_def windowOpen_def
      split: option.splits)

lemma settle_epoch_inv:
  assumes "fence_inv s"
  shows "fence_inv (fst (settle_epoch s v t))"
proof (cases "f_live s")
  case (Some l)
  let ?s = "fst (settle_epoch s v t)"
  have "attempt_log ?s = attempt_log s" "task_log ?s = task_log s" "f_live ?s = None"
    "f_ack_seq ?s = None" "f_attempts ?s = f_attempts s"
    "f_last_accepted_epoch ?s = f_last_accepted_epoch s"
    using Some by (simp_all add: settle_epoch_def attempt_log_def task_log_def)
  then show ?thesis using assms by (simp add: fence_inv_def windowOpen_def)
qed (use assms in \<open>simp add: settle_epoch_def\<close>)

lemma cancel_inv:
  assumes "fence_inv s"
  shows "fence_inv (fst (cancel s t a))"
proof (cases "\<exists>l. f_live s = Some l \<and> lv_task_id l = t \<and> lv_attempt_id l = a \<and> \<not> lv_started l")
  case True
  then obtain l where l: "f_live s = Some l" "lv_task_id l = t" "lv_attempt_id l = a"
    "\<not> lv_started l" by blast
  let ?s = "fst (cancel s t a)"
  let ?k = "attemptKey t a"
  have logs: "attempt_log s = attempt_log ?s @ [(?k, lv_epoch l)]" "task_log s = task_log ?s @ [t]"
    "f_live ?s = None" "f_ack_seq ?s = None" "f_attempts ?s = (f_attempts s)(?k := None)"
    "f_last_accepted_epoch ?s = f_last_accepted_epoch s"
    using l by (simp_all add: cancel_def attempt_log_def task_log_def)
  have fresh: "?k \<notin> fst ` set (attempt_log ?s)"
    using assms by (simp add: fence_inv_def logs(1))
  have "f_attempts s = (map_of (attempt_log ?s))(?k \<mapsto> lv_epoch l)"
    using assms map_of_snoc [OF fresh] by (simp add: fence_inv_def logs(1))
  then have "f_attempts ?s = map_of (attempt_log ?s)"
    using fresh by (simp add: logs(5) fun_upd_idem map_of_eq_None_iff)
  then show ?thesis
    using assms logs(3,4,6) by (simp add: fence_inv_def logs(1,2) sorted_wrt_append windowOpen_def)
next
  case False
  then have "fst (cancel s t a) = s" by (auto simp: cancel_def split: option.splits)
  then show ?thesis using assms by simp
qed

lemma fence_step_inv: "fence_inv s \<Longrightarrow> fence_inv (fence_step s e)"
proof (induction s e rule: fence_step.induct)
  case (1 s t a r)
  show ?case
  proof (cases "allocate s t a r")
    case (Inr p)
    then obtain s' d where p: "allocate s t a r = Inr (s', d)" by (cases p) auto
    then show ?thesis using 1 grant_inv by (cases rule: allocate_cases [OF p]) auto
  qed (use 1 in simp)
qed (simp_all add: noteAck_inv attribute_inv bindStart_inv flags_inv settle_epoch_inv cancel_inv)

lemma fence_step_le: "fence_le s (fence_step s e)"
proof (induction s e rule: fence_step.induct)
  case (1 s t a r)
  show ?case
  proof (cases "allocate s t a r")
    case (Inr p)
    then obtain s' d where p: "allocate s t a r = Inr (s', d)" by (cases p) auto
    then show ?thesis
      by (cases rule: allocate_cases [OF p]) (auto simp: fence_le_def grant_def Let_def)
  qed (simp add: fence_le_def)
qed (auto simp: fence_le_def fence_ops Let_def split: option.splits)

interpretation fences: ratchet_machine fence_step fence_inv fence_le
proof unfold_locales
  show "fence_inv s \<Longrightarrow> fence_inv (fence_step s e)" for s e by (rule fence_step_inv)
  show "fence_le s s" for s by (simp add: fence_le_def)
  show "fence_le s t \<Longrightarrow> fence_le t u \<Longrightarrow> fence_le s u" for s t u
    by (auto simp: fence_le_def)
  show "fence_inv s \<Longrightarrow> fence_le s (fence_step s e)" for s e by (rule fence_step_le)
qed

section \<open>What the fence guarantees\<close>

definition reachable_fence :: "fence \<Rightarrow> bool" where
  "reachable_fence s \<longleftrightarrow> (\<exists>ops. s = foldl fence_step emptyFence ops)"

lemma reachable_inv: "reachable_fence s \<Longrightarrow> fence_inv s"
  by (auto simp: reachable_fence_def intro: fences.inv_run emptyFence_inv)

lemma reachable_run: "reachable_fence (foldl fence_step emptyFence ops)"
  by (auto simp: reachable_fence_def)

lemma log_bounds: "fence_inv s \<Longrightarrow> snd ` set (attempt_log s) \<subseteq> {1 .. f_last_accepted_epoch s}"
  by (fastforce simp: fence_inv_def)

text \<open>Only a grant opens an acknowledgement; only an acknowledgement sets one.\<close>

lemma unacked_step:
  "f_ack_seq s = None \<Longrightarrow> \<not> windowOpen s \<Longrightarrow> (\<And>q. e \<noteq> Note_ack q) \<Longrightarrow>
   f_ack_seq (fence_step s e) = None \<and> \<not> windowOpen (fence_step s e)"
  by (induction s e rule: fence_step.induct)
    (auto simp: fence_ops grant_def Let_def windowOpen_def
       split: option.splits sum.splits if_splits prod.splits)

lemma unacked_run:
  "f_ack_seq s = None \<Longrightarrow> \<not> windowOpen s \<Longrightarrow> (\<And>q. Note_ack q \<notin> set ops) \<Longrightarrow>
   f_ack_seq (foldl fence_step s ops) = None \<and> \<not> windowOpen (foldl fence_step s ops)"
proof (induction ops arbitrary: s)
  case (Cons e ops)
  have "f_ack_seq (fence_step s e) = None \<and> \<not> windowOpen (fence_step s e)"
    using Cons.prems by (intro unacked_step) auto
  then show ?case using Cons by simp
qed simp

text \<open>A started epoch stays live, started, until it is among the completed.\<close>

definition accounted :: "live_epoch \<Rightarrow> fence \<Rightarrow> bool" where
  "accounted l s \<longleftrightarrow>
     (\<exists>l'. f_live s = Some l' \<and> lv_started l' \<and> lv_epoch l' = lv_epoch l
        \<and> lv_task_id l' = lv_task_id l \<and> lv_attempt_id l' = lv_attempt_id l)
     \<or> (\<exists>c \<in> set (f_completed s). ct_epoch c = lv_epoch l
        \<and> ct_task_id c = lv_task_id l \<and> ct_attempt_id c = lv_attempt_id l)"

lemma accounted_step:
  assumes "accounted l s"
  shows "accounted l (fence_step s e)"
proof (cases "\<exists>c \<in> set (f_completed s). ct_epoch c = lv_epoch l
        \<and> ct_task_id c = lv_task_id l \<and> ct_attempt_id c = lv_attempt_id l")
  case True
  moreover have "set (f_completed s) \<subseteq> set (f_completed (fence_step s e))"
    using fence_step_le [of s e] by (simp add: fence_le_def set_mono_prefix)
  ultimately show ?thesis unfolding accounted_def by blast
next
  case False
  then obtain l' where l': "f_live s = Some l'" "lv_started l'" "lv_epoch l' = lv_epoch l"
    "lv_task_id l' = lv_task_id l" "lv_attempt_id l' = lv_attempt_id l"
    using assms by (auto simp: accounted_def)
  have "(\<exists>l''. f_live (fence_step s e) = Some l'' \<and> lv_started l'' \<and> lv_epoch l'' = lv_epoch l'
      \<and> lv_task_id l'' = lv_task_id l' \<and> lv_attempt_id l'' = lv_attempt_id l')
    \<or> (\<exists>c \<in> set (f_completed (fence_step s e)). ct_epoch c = lv_epoch l'
        \<and> ct_task_id c = lv_task_id l' \<and> ct_attempt_id c = lv_attempt_id l')"
    using l'(1,2)
  proof (induction s e rule: fence_step.induct)
    case (1 s t a r)
    show ?case
    proof (cases "allocate s t a r")
      case (Inr p)
      then obtain s' d where p: "allocate s t a r = Inr (s', d)" by (cases p) auto
      then show ?thesis using p 1 by (cases rule: allocate_cases) auto
    qed (use 1 in simp)
  qed (auto simp: fence_ops Let_def split: option.splits prod.splits)
  then show ?thesis unfolding accounted_def using l' by auto
qed

lemma accounted_run: "accounted l s \<Longrightarrow> accounted l (foldl fence_step s ops)"
  by (induction ops arbitrary: s) (auto intro: accounted_step)

text \<open>An attempt on record is forgotten by its own cancellation only.\<close>

lemma attempt_kept:
  assumes "f_attempts s k = Some n" and "\<And>t a. e = Cancel t a \<Longrightarrow> attemptKey t a \<noteq> k"
  shows "f_attempts (fence_step s e) k = Some n"
  using assms
proof (induction s e rule: fence_step.induct)
  case (1 s t a r)
  show ?case
  proof (cases "allocate s t a r")
    case (Inr p)
    then obtain s' d where p: "allocate s t a r = Inr (s', d)" by (cases p) auto
    then show ?thesis using p 1(1) by (cases rule: allocate_cases) (auto simp: grant_def Let_def)
  qed (use 1 in simp)
qed (auto simp: fence_ops Let_def split: option.splits prod.splits)

lemma attempt_kept_run:
  "f_attempts s k = Some n \<Longrightarrow> (\<And>t a. Cancel t a \<in> set ops \<Longrightarrow> attemptKey t a \<noteq> k) \<Longrightarrow>
   f_attempts (foldl fence_step s ops) k = Some n"
proof (induction ops arbitrary: s)
  case (Cons e ops)
  have "f_attempts (fence_step s e) k = Some n"
    using Cons.prems by (intro attempt_kept) auto
  then show ?case using Cons by simp
qed simp

text \<open>
  C20: no epoch is ever reused. After any sequence of operations on a new fence, the attempts on
  record have pairwise different keys, different tasks and strictly increasing epochs, all
  between 1 and the last accepted epoch, and the replay table holds exactly these attempts.
\<close>

theorem epochs_never_reused:
  "let s = foldl fence_step emptyFence ops; log = attempt_log s
   in sorted_wrt (<) (map snd log)
      \<and> snd ` set log \<subseteq> {1 .. f_last_accepted_epoch s}
      \<and> distinct (map fst log) \<and> distinct (task_log s)
      \<and> f_attempts s = map_of log"
  using reachable_inv [OF reachable_run, of ops] log_bounds [of "foldl fence_step emptyFence ops"]
  by (simp add: fence_inv_def Let_def)

text \<open>
  A granted dispatch is new. On a reachable fence an accepted \<open>allocate\<close> that is not a replay
  found no live epoch, gets an epoch no attempt on record has, for a task no attempt on record is
  for, and makes it the live epoch, not started; a replay answers the epoch of the attempt on
  record and changes nothing.
\<close>

theorem allocate_fresh:
  assumes "reachable_fence s" and "allocate s t a r = Inr (s', Dispatch_ok e replayed)"
  shows "if replayed then s' = s \<and> (attemptKey t a, e) \<in> set (attempt_log s)
    else f_live s = None \<and> e = f_last_accepted_epoch s + 1 \<and> e \<notin> snd ` set (attempt_log s)
      \<and> t \<notin> set (task_log s) \<and> attempt_log s' = attempt_log s @ [(attemptKey t a, e)]
      \<and> \<not> windowOpen s' \<and> f_ack_seq s' = None"
proof -
  have inv: "fence_inv s" using assms(1) by (rule reachable_inv)
  show ?thesis
  proof (use assms(2) in \<open>cases rule: allocate_cases\<close>)
    case same
    then have r: replayed by (cases replayed) auto
    have "f_attempts s (attemptKey t a) = Some e"
      using assms(2) r
      by (auto simp: allocate_def allocate_checked_def Let_def
          split: option.splits sum.splits if_splits)
    then have "map_of (attempt_log s) (attemptKey t a) = Some e"
      using inv by (simp add: fence_inv_def)
    then show ?thesis using same r by (auto dest: map_of_SomeD)
  next
    case granted
    have "\<forall>e \<in> snd ` set (attempt_log s). e \<le> f_last_accepted_epoch s"
      using inv by (simp add: fence_inv_def)
    then have "f_last_accepted_epoch s + 1 \<notin> snd ` set (attempt_log s)" by fastforce
    then show ?thesis
      using granted by (simp add: task_log_def attempt_log_def windowOpen_def grant_def Let_def)
  qed
qed

text \<open>
  Dispatching is idempotent. Once an attempt was accepted with an epoch, any later \<open>allocate\<close>
  of the same attempt answers a replay of that epoch and changes nothing, whatever happened in
  between, unless the attempt was cancelled.
\<close>

theorem allocate_idempotent:
  assumes "reachable_fence s" and "allocate s t a r = Inr (s', Dispatch_ok e replayed)"
    and "\<And>t' a'. Cancel t' a' \<in> set ops \<Longrightarrow> attemptKey t' a' \<noteq> attemptKey t a"
  shows "allocate (foldl fence_step s' ops) t a None =
    Inr (foldl fence_step s' ops, Dispatch_ok e True)"
proof -
  have "f_attempts s' (attemptKey t a) = Some e"
    using assms(2)
    by (auto simp: allocate_def allocate_checked_def grant_def Let_def
        split: option.splits sum.splits if_splits)
  then have "f_attempts (foldl fence_step s' ops) (attemptKey t a) = Some e"
    using assms(3) by (rule attempt_kept_run)
  then show ?thesis by (simp add: allocate_def allocate_checked_def)
qed

text \<open>
  Events before the acknowledgement are never the new epoch's. After a grant, as long as no
  acknowledgement was noted, every event is attributed to prior work and no start can be bound;
  the first acknowledgement, at sequence number \<open>k\<close>, makes exactly the events after \<open>k\<close> live.
\<close>

theorem attribution_fenced:
  assumes "reachable_fence s" and "allocate s t a r = Inr (s', Dispatch_ok e False)"
    and "\<And>q. Note_ack q \<notin> set ops" and "u = foldl fence_step s' ops"
  shows "snd (attribute u q) = Prior \<and> \<not> snd (bindStart u q) \<and> \<not> windowOpen u
    \<and> (f_live u \<noteq> None \<longrightarrow> (snd (attribute (noteAck u k) q) = Live \<longleftrightarrow> k < q))"
proof -
  have "s' = grant s t a" by (cases rule: allocate_cases [OF assms(2)]) auto
  then have "f_ack_seq s' = None" "\<not> windowOpen s'"
    by (simp_all add: grant_def Let_def windowOpen_def)
  then have u: "f_ack_seq u = None" "\<not> windowOpen u"
    using unacked_run [of s' ops] assms(3,4) by auto
  then have "snd (attribute u q) = Prior" by (auto simp: attribute_def split: option.splits)
  moreover from this have "\<not> snd (bindStart u q)"
    by (auto simp: bindStart_def split: option.splits prod.splits)
  moreover have "f_live u \<noteq> None \<Longrightarrow> snd (attribute (noteAck u k) q) = Live \<longleftrightarrow> k < q"
    using u(1) by (auto simp: attribute_def noteAck_def Let_def split: option.splits)
  ultimately show ?thesis using u(2) by simp
qed

text \<open>
  A started turn is never lost. Once the live epoch has started, after any further operations
  it is still live and started, or it is among the completed tasks with its own task and attempt;
  in particular it can no longer be cancelled.
\<close>

theorem started_epoch_accounted:
  assumes "f_live s = Some l" and "lv_started l"
  shows "accounted l (foldl fence_step s ops) \<and> (\<nexists>n. snd (cancel s t a) = Cancelled n)"
proof
  have "accounted l s" using assms by (auto simp: accounted_def)
  then show "accounted l (foldl fence_step s ops)" by (rule accounted_run)
  show "\<nexists>n. snd (cancel s t a) = Cancelled n" using assms by (simp add: cancel_def)
qed

text \<open>
  Cancelling burns the epoch and forgets the attempt. A successful \<open>cancel\<close> on a reachable
  fence ends the live epoch, keeps the completed tasks, removes the attempt from the record, and
  the same attempt can then be allocated again, with a later epoch.
\<close>

theorem cancel_burns_epoch:
  assumes "reachable_fence s" and "cancel s t a = (s', Cancelled e)"
  shows "f_completed s' = f_completed s \<and> f_live s' = None
    \<and> attempt_log s = attempt_log s' @ [(attemptKey t a, e)]
    \<and> (\<exists>u n. allocate s' t a None = Inr (u, Dispatch_ok n False) \<and> e < n)"
proof -
  have inv: "fence_inv s" using assms(1) by (rule reachable_inv)
  obtain l where l: "f_live s = Some l" "lv_task_id l = t" "lv_attempt_id l = a" "lv_epoch l = e"
    using assms(2) by (auto simp: cancel_def split: option.splits if_splits)
  have log: "attempt_log s = attempt_log s' @ [(attemptKey t a, e)]" "task_log s = task_log s' @ [t]"
    and s': "f_live s' = None" "f_completed s' = f_completed s"
      "f_last_accepted_epoch s' = f_last_accepted_epoch s" "f_attempts s' (attemptKey t a) = None"
    using assms(2) l
    by (auto simp: cancel_def attempt_log_def task_log_def split: if_splits)
  have "e \<le> f_last_accepted_epoch s" using inv log(1) by (simp add: fence_inv_def)
  moreover have "distinct (task_log s' @ [t])" using inv unfolding fence_inv_def log(2) by blast
  then have "t \<notin> ct_task_id ` set (f_completed s')" by (simp add: task_log_def s'(1))
  then have "allocate s' t a None =
      Inr (grant s' t a, Dispatch_ok (f_last_accepted_epoch s' + 1) False)"
    using s'(1,4) by (simp add: allocate_def allocate_checked_def find_None_iff image_iff
        Let_def split: option.splits) blast
  ultimately show ?thesis using log(1) s' by auto
qed

text \<open>
  An epoch a caller asks for is refused as malformed exactly when it is not a whole number
  from 0 to the largest safe integer.
\<close>

theorem allocate_malformed_iff:
  "(\<exists>e. allocate s t a (Some n) = Inl e) \<longleftrightarrow> (\<nexists>i. n = js_int i \<and> 0 \<le> i \<and> i \<le> max_safe_integer)"
proof -
  have "assertEpochWellFormed n = Inr () \<longleftrightarrow> (\<exists>i. n = js_int i \<and> 0 \<le> i \<and> i \<le> max_safe_integer)"
  proof
    assume a: "assertEpochWellFormed n = Inr ()"
    then have "is_safe_integer n" by (auto simp: assertEpochWellFormed_def split: if_splits)
    then obtain i where "n = js_int i" "\<bar>i\<bar> \<le> max_safe_integer" by (rule is_safe_integerE)
    with a show "\<exists>i. n = js_int i \<and> 0 \<le> i \<and> i \<le> max_safe_integer"
      by (auto simp: assertEpochWellFormed_def js_int_def split: if_splits)
  next
    assume "\<exists>i. n = js_int i \<and> 0 \<le> i \<and> i \<le> max_safe_integer"
    then show "assertEpochWellFormed n = Inr ()"
      by (auto simp: assertEpochWellFormed_def) (simp add: js_int_def)
  qed
  then show ?thesis by (auto simp: allocate_def split: sum.splits)
qed

section \<open>A concrete run\<close>

definition sample_ops_fence :: "fence_op list" where
  "sample_ops_fence =
     [Allocate ''t1'' ''a1'' None, Note_ack 4, Bind_start 5, Settle_epoch Success ''now'',
      Allocate ''t2'' ''a1'' (Some (js_int 2))]"

definition sample_fence :: fence where
  "sample_fence = foldl fence_step emptyFence sample_ops_fence"

lemma sample_fence_eq:
  "sample_fence =
   \<lparr>f_last_accepted_epoch = 2, f_ack_seq = None, f_last_seq = 5,
    f_live = Some \<lparr>lv_task_id = ''t2'', lv_attempt_id = ''a1'', lv_epoch = 2, lv_started = False,
       lv_abort_requested = False, lv_timed_out = False\<rparr>,
    f_completed = [\<lparr>ct_task_id = ''t1'', ct_attempt_id = ''a1'', ct_epoch = 1,
       ct_verdict = Success, ct_settled_at = ''now''\<rparr>],
    f_attempts = [attemptKey ''t1'' ''a1'' \<mapsto> 1, attemptKey ''t2'' ''a1'' \<mapsto> 2]\<rparr>"
  by (simp add: sample_fence_def sample_ops_fence_def emptyFence_def fence_ops grant_def
      attemptKey_def assertEpochWellFormed_def max_safe_integer_def js_int_def [symmetric])
    (simp add: js_int_def)

lemma sample_fence_reachable: "reachable_fence sample_fence"
  unfolding sample_fence_def by (rule reachable_run)

theorem allocate_fresh_witness:
  "snd (allocate_checked sample_fence ''t1'' ''a1'' None) = Dispatch_ok 1 True
   \<and> (attemptKey ''t1'' ''a1'', 1) \<in> set (attempt_log sample_fence)"
proof -
  have a: "allocate sample_fence ''t1'' ''a1'' None = Inr (sample_fence, Dispatch_ok 1 True)"
    by (simp add: sample_fence_eq allocate_def allocate_checked_def attemptKey_def)
  then show ?thesis using allocate_fresh [OF sample_fence_reachable a]
    by (simp add: allocate_def)
qed

theorem allocate_idempotent_witness:
  "allocate (foldl fence_step sample_fence [Note_ack 7, Bind_start 8]) ''t1'' ''a1'' None =
   Inr (foldl fence_step sample_fence [Note_ack 7, Bind_start 8], Dispatch_ok 1 True)"
proof -
  have a: "allocate sample_fence ''t1'' ''a1'' None = Inr (sample_fence, Dispatch_ok 1 True)"
    by (simp add: sample_fence_eq allocate_def allocate_checked_def attemptKey_def)
  show ?thesis by (rule allocate_idempotent [OF sample_fence_reachable a]) simp
qed

lemma empty_grant: "allocate emptyFence ''t1'' ''a1'' None =
    Inr (grant emptyFence ''t1'' ''a1'', Dispatch_ok 1 False)"
  by (simp add: emptyFence_def allocate_def allocate_checked_def)

lemma empty_reachable: "reachable_fence emptyFence"
  using reachable_run [of "[]"] by simp

theorem attribution_fenced_witness:
  "snd (attribute (grant emptyFence ''t1'' ''a1'') 9) = Prior
   \<and> snd (attribute (noteAck (grant emptyFence ''t1'' ''a1'') 4) 5) = Live"
proof -
  have "f_live (grant emptyFence ''t1'' ''a1'') \<noteq> None" by (simp add: grant_def Let_def)
  then show ?thesis
    using attribution_fenced [OF empty_reachable empty_grant, of "[]" "grant emptyFence ''t1'' ''a1''" 9]
      attribution_fenced [OF empty_reachable empty_grant, of "[]" "grant emptyFence ''t1'' ''a1''" 5 4]
    by simp
qed

definition started_live :: live_epoch where
  "started_live = \<lparr>lv_task_id = ''t1'', lv_attempt_id = ''a1'', lv_epoch = 1, lv_started = True,
     lv_abort_requested = False, lv_timed_out = False\<rparr>"

theorem started_epoch_accounted_witness:
  "accounted started_live
     (foldl fence_step (foldl fence_step emptyFence [Allocate ''t1'' ''a1'' None, Note_ack 4, Bind_start 5])
        [Cancel ''t1'' ''a1'', Settle_epoch Failed ''now''])"
proof -
  have "f_live (foldl fence_step emptyFence [Allocate ''t1'' ''a1'' None, Note_ack 4, Bind_start 5]) =
      Some started_live"
    by (simp add: emptyFence_def fence_ops grant_def started_live_def)
  then show ?thesis by (rule started_epoch_accounted [THEN conjunct1]) (simp add: started_live_def)
qed

theorem cancel_burns_epoch_witness:
  "\<exists>s' u n. cancel sample_fence ''t2'' ''a1'' = (s', Cancelled 2)
     \<and> allocate s' ''t2'' ''a1'' None = Inr (u, Dispatch_ok n False) \<and> 2 < n"
proof -
  obtain s' where c: "cancel sample_fence ''t2'' ''a1'' = (s', Cancelled 2)"
    by (simp add: sample_fence_eq cancel_def)
  from cancel_burns_epoch [OF sample_fence_reachable c] c show ?thesis by blast
qed

end
