(* ===== verification/Incident.thy ===== *)
theory Incident
  imports Fleet_Prelude "HOL-Library.List_Lexorder" "HOL-Library.Char_ord"
begin

text \<open>
  The incident machine of the triage console, \<open>src/run/triage-incident.ts\<close>: one record per
  subject, advanced by one observation per sweep, and the notifications each advance composes.
  Also the record's location and the census of the stored records, the console-health
  observations of a sweep, and the backlog of undelivered messages. Instants are milliseconds
  since the epoch. A refusal's rendered text is dropped, its code and data are kept.
\<close>

section \<open>Subjects\<close>

datatype console_health_kind =
  Observer_blocked
| Sweep_produced_nothing
| Sweeps_skipped
| Inference_saturated
| Inference_unreachable
| Budget_exhausted
| Reporter_undelivered

definition CONSOLE_HEALTH_KINDS :: "console_health_kind list" where
  "CONSOLE_HEALTH_KINDS =
     [Observer_blocked, Sweep_produced_nothing, Sweeps_skipped, Inference_saturated,
      Inference_unreachable, Budget_exhausted, Reporter_undelivered]"

fun health_name :: "console_health_kind \<Rightarrow> string" where
  "health_name Observer_blocked = ''observer_blocked''"
| "health_name Sweep_produced_nothing = ''sweep_produced_nothing''"
| "health_name Sweeps_skipped = ''sweeps_skipped''"
| "health_name Inference_saturated = ''inference_saturated''"
| "health_name Inference_unreachable = ''inference_unreachable''"
| "health_name Budget_exhausted = ''budget_exhausted''"
| "health_name Reporter_undelivered = ''reporter_undelivered''"

definition CONSOLE_SCOPE :: string where
  "CONSOLE_SCOPE = ''_console''"

datatype incident_subject =
  Service string string
| Console_health string console_health_kind

fun subjectKey :: "incident_subject \<Rightarrow> string" where
  "subjectKey (Service environment service) = ''service:'' @ environment @ ''/'' @ service"
| "subjectKey (Console_health scope health) =
     ''console_health:'' @ scope @ ''/'' @ health_name health"

section \<open>Observations, records, notifications\<close>

datatype observed_issue_reason = Unhealthy | Degraded | Health console_health_kind

datatype issue_reason = Observed observed_issue_reason | Coverage

datatype incident_signal =
  Issue observed_issue_reason "string option"
| Observed_clear string
| Unobserved
| Suppressed

record observation =
  o_subject :: incident_subject
  o_sweepId :: string
  o_at :: millis
  o_signal :: incident_signal

datatype incident_state = Clear | Provisional | Firing | Flapping

record incident =
  i_subject :: incident_subject
  i_state :: incident_state
  i_reason :: "issue_reason option"
  i_since :: "millis option"
  i_last_seen :: "millis option"
  i_sweep_count :: int
  i_consecutive_indeterminate :: int
  i_flap_transitions :: "millis list"
  i_last_notified_at :: "millis option"
  i_undelivered :: "string list"
  i_last_artifact_ref :: "string option"

definition freshIncidentRecord :: "incident_subject \<Rightarrow> incident" where
  "freshIncidentRecord subject =
     \<lparr>i_subject = subject, i_state = Clear, i_reason = None, i_since = None, i_last_seen = None,
      i_sweep_count = 0, i_consecutive_indeterminate = 0, i_flap_transitions = [],
      i_last_notified_at = None, i_undelivered = [], i_last_artifact_ref = None\<rparr>"

record incident_policy =
  flap_threshold :: int
  flap_window_s :: int
  renotify_after_s :: int

definition COVERAGE_THRESHOLD :: int where
  "COVERAGE_THRESHOLD = 3"

datatype notification_kind = Opened | Recovered | Flapping_notice | Reminder

record notification =
  nt_kind :: notification_kind
  nt_subject :: incident_subject
  nt_reason :: issue_reason
  nt_at :: millis
  nt_sweepId :: string
  nt_firingForMs :: int
  nt_sweepCount :: int
  nt_evidenceRef :: "string option"

type_synonym incident_advance = "incident \<times> notification list"

definition reason_or_unhealthy :: "incident \<Rightarrow> issue_reason" where
  "reason_or_unhealthy r = (case i_reason r of None \<Rightarrow> Observed Unhealthy | Some x \<Rightarrow> x)"

definition elapsed_since :: "incident \<Rightarrow> millis \<Rightarrow> int" where
  "elapsed_since r t = (case i_since r of None \<Rightarrow> 0 | Some s \<Rightarrow> t - s)"

definition flap_window_ms :: "incident_policy \<Rightarrow> int" where
  "flap_window_ms p = flap_window_s p * 1000"

section \<open>The machine\<close>

definition withReminder :: "incident \<Rightarrow> observation \<Rightarrow> incident_policy \<Rightarrow> incident_advance" where
  "withReminder r obs p =
     (if i_state r \<noteq> Firing then (r, [])
      else if renotify_after_s p = 0 then (r, [])
      else
        (case i_last_notified_at r of
           None \<Rightarrow> (r, [])
         | Some lastNotified \<Rightarrow>
             if o_at obs - lastNotified < renotify_after_s p * 1000 then (r, [])
             else
               (r\<lparr>i_last_notified_at := Some (o_at obs)\<rparr>,
                [\<lparr>nt_kind = Reminder, nt_subject = i_subject r, nt_reason = reason_or_unhealthy r,
                  nt_at = o_at obs, nt_sweepId = o_sweepId obs,
                  nt_firingForMs = elapsed_since r (o_at obs), nt_sweepCount = i_sweep_count r,
                  nt_evidenceRef = i_last_artifact_ref r\<rparr>])))"

definition settleFlappingIntoFiring ::
  "incident \<Rightarrow> observation \<Rightarrow> string option \<Rightarrow> incident_advance" where
  "settleFlappingIntoFiring base obs evidenceRef =
     (base\<lparr>i_state := Firing, i_reason := Some (reason_or_unhealthy base), i_since := Some (o_at obs),
           i_flap_transitions := [], i_last_notified_at := Some (o_at obs)\<rparr>,
      [\<lparr>nt_kind = Opened, nt_subject = i_subject base, nt_reason = reason_or_unhealthy base,
        nt_at = o_at obs, nt_sweepId = o_sweepId obs, nt_firingForMs = 0,
        nt_sweepCount = i_sweep_count base, nt_evidenceRef = evidenceRef\<rparr>])"

definition onIssue ::
  "incident \<Rightarrow> observation \<Rightarrow> incident_policy \<Rightarrow> millis list \<Rightarrow> observed_issue_reason \<Rightarrow>
   string option \<Rightarrow> incident_advance" where
  "onIssue r obs p transitions reason evidenceRef =
     (let t = o_at obs;
          base = r\<lparr>i_consecutive_indeterminate := 0, i_flap_transitions := transitions,
                   i_last_seen := Some t,
                   i_last_artifact_ref :=
                     (case evidenceRef of None \<Rightarrow> i_last_artifact_ref r | Some e \<Rightarrow> Some e)\<rparr>
      in case i_state r of
           Clear \<Rightarrow>
             (base\<lparr>i_state := Provisional, i_reason := Some (Observed reason), i_since := Some t,
                   i_sweep_count := 1\<rparr>, [])
         | Provisional \<Rightarrow>
             (base\<lparr>i_state := Firing, i_reason := Some (Observed reason), i_since := Some t,
                   i_sweep_count := i_sweep_count r + 1, i_last_notified_at := Some t\<rparr>,
              [\<lparr>nt_kind = Opened, nt_subject = i_subject r, nt_reason = Observed reason, nt_at = t,
                nt_sweepId = o_sweepId obs, nt_firingForMs = 0,
                nt_sweepCount = i_sweep_count r + 1, nt_evidenceRef = evidenceRef\<rparr>])
         | Firing \<Rightarrow> withReminder (base\<lparr>i_sweep_count := i_sweep_count r + 1\<rparr>) obs p
         | Flapping \<Rightarrow>
             (let advanced = base\<lparr>i_sweep_count := i_sweep_count r + 1\<rparr>
              in if transitions = [] then settleFlappingIntoFiring advanced obs evidenceRef
                 else (advanced, [])))"

text \<open>\<open>provisional\<close> and \<open>firing\<close> share the branch of a return to \<open>clear\<close>.\<close>

definition clear_from_issue ::
  "incident \<Rightarrow> incident \<Rightarrow> observation \<Rightarrow> incident_policy \<Rightarrow> millis list \<Rightarrow> string \<Rightarrow> incident_advance" where
  "clear_from_issue r base obs p transitions evidenceRef =
     (let t = o_at obs;
          oscillations = transitions @ [t];
          note = \<lparr>nt_kind = Recovered, nt_subject = i_subject r, nt_reason = reason_or_unhealthy r,
                  nt_at = t, nt_sweepId = o_sweepId obs, nt_firingForMs = elapsed_since r t,
                  nt_sweepCount = i_sweep_count r, nt_evidenceRef = Some evidenceRef\<rparr>
      in if int (length oscillations) > flap_threshold p
         then (base\<lparr>i_state := Flapping, i_reason := Some (reason_or_unhealthy r),
                     i_since := Some t, i_sweep_count := 0, i_flap_transitions := oscillations,
                     i_last_notified_at := Some t\<rparr>,
               [note\<lparr>nt_kind := Flapping_notice\<rparr>])
         else (base\<lparr>i_state := Clear, i_reason := None, i_since := Some t, i_sweep_count := 0,
                     i_flap_transitions := oscillations,
                     i_last_notified_at :=
                       (if i_state r = Firing then Some t else i_last_notified_at r)\<rparr>,
               if i_state r = Firing then [note] else []))"

definition onObservedClear ::
  "incident \<Rightarrow> observation \<Rightarrow> incident_policy \<Rightarrow> millis list \<Rightarrow> string \<Rightarrow> incident_advance" where
  "onObservedClear r obs p transitions evidenceRef =
     (let t = o_at obs;
          base = r\<lparr>i_consecutive_indeterminate := 0, i_last_artifact_ref := Some evidenceRef\<rparr>
      in case i_state r of
           Clear \<Rightarrow> (base\<lparr>i_flap_transitions := transitions\<rparr>, [])
         | Provisional \<Rightarrow> clear_from_issue r base obs p transitions evidenceRef
         | Firing \<Rightarrow> clear_from_issue r base obs p transitions evidenceRef
         | Flapping \<Rightarrow>
             (let lastBad = (case i_last_seen r of None \<Rightarrow> t | Some s \<Rightarrow> s)
              in if t - lastBad < flap_window_ms p
                 then (base\<lparr>i_flap_transitions := transitions @ [t]\<rparr>, [])
                 else
                   (base\<lparr>i_state := Clear, i_reason := None, i_since := Some t, i_sweep_count := 0,
                          i_flap_transitions := [], i_last_notified_at := Some t\<rparr>,
                    [\<lparr>nt_kind = Recovered, nt_subject = i_subject r,
                      nt_reason = reason_or_unhealthy r, nt_at = t, nt_sweepId = o_sweepId obs,
                      nt_firingForMs = elapsed_since r t, nt_sweepCount = i_sweep_count r,
                      nt_evidenceRef = Some evidenceRef\<rparr>])))"

definition onUnobserved ::
  "incident \<Rightarrow> observation \<Rightarrow> incident_policy \<Rightarrow> millis list \<Rightarrow> incident_advance" where
  "onUnobserved r obs p transitions =
     (let t = o_at obs;
          blind = i_consecutive_indeterminate r + 1;
          base = r\<lparr>i_consecutive_indeterminate := blind, i_flap_transitions := transitions\<rparr>
      in if blind \<ge> COVERAGE_THRESHOLD
             \<and> (i_state r = Clear \<or> i_state r = Provisional \<or> i_state r = Flapping)
         then (base\<lparr>i_state := Firing, i_reason := Some Coverage, i_since := Some t,
                     i_sweep_count := 0,
                     i_flap_transitions := (if i_state r = Flapping then [] else transitions),
                     i_last_notified_at := Some t\<rparr>,
               [\<lparr>nt_kind = Opened, nt_subject = i_subject r, nt_reason = Coverage, nt_at = t,
                 nt_sweepId = o_sweepId obs, nt_firingForMs = 0, nt_sweepCount = 0,
                 nt_evidenceRef = None\<rparr>])
         else withReminder base obs p)"

datatype incident_error = Foreign_observation string string

definition advanceIncident ::
  "incident \<Rightarrow> observation \<Rightarrow> incident_policy \<Rightarrow> incident_error + incident_advance" where
  "advanceIncident r obs p =
     (if subjectKey (i_subject r) \<noteq> subjectKey (o_subject obs)
      then Inl (Foreign_observation (subjectKey (i_subject r)) (subjectKey (o_subject obs)))
      else
        let transitions = filter (\<lambda>t. t > o_at obs - flap_window_ms p) (i_flap_transitions r)
        in case o_signal obs of
             Suppressed \<Rightarrow> Inr (r, [])
           | Issue reason evidenceRef \<Rightarrow> Inr (onIssue r obs p transitions reason evidenceRef)
           | Observed_clear evidenceRef \<Rightarrow> Inr (onObservedClear r obs p transitions evidenceRef)
           | Unobserved \<Rightarrow> Inr (onUnobserved r obs p transitions))"

definition MAX_UNDELIVERED :: nat where
  "MAX_UNDELIVERED = 4096"

definition withUndelivered :: "incident \<Rightarrow> string list \<Rightarrow> incident" where
  "withUndelivered r entries =
     (if entries = [] then r
      else
        let merged = i_undelivered r @ entries
        in r\<lparr>i_undelivered :=
               (if length merged \<le> MAX_UNDELIVERED then merged
                else drop (length merged - MAX_UNDELIVERED) merged)\<rparr>)"

section \<open>Records on disk\<close>

definition alphanumeric :: "char \<Rightarrow> bool" where
  "alphanumeric c \<longleftrightarrow>
     (CHR ''A'' \<le> c \<and> c \<le> CHR ''Z'') \<or> (CHR ''a'' \<le> c \<and> c \<le> CHR ''z'')
     \<or> (CHR ''0'' \<le> c \<and> c \<le> CHR ''9'')"

definition SESSION_ID_RE :: "string \<Rightarrow> bool" where
  "SESSION_ID_RE s \<longleftrightarrow>
     s \<noteq> [] \<and> alphanumeric (hd s) \<and> alphanumeric (last s)
     \<and> list_all (\<lambda>c. alphanumeric c \<or> c = CHR ''.'' \<or> c = CHR ''_'' \<or> c = CHR ''-'') s"

definition spellable :: "string \<Rightarrow> bool" where
  "spellable v \<longleftrightarrow> length v > 0 \<and> length v \<le> 64 \<and> SESSION_ID_RE v"

datatype path_error = Unspellable_environment string | Unspellable_service string | Unspellable_scope string

text \<open>A path is the list of its segments under the record root.\<close>

fun incidentRecordPath :: "incident_subject \<Rightarrow> path_error + string list" where
  "incidentRecordPath (Service environment service) =
     (if \<not> spellable environment then Inl (Unspellable_environment environment)
      else if \<not> spellable service then Inl (Unspellable_service service)
      else Inr [environment, service @ ''.json''])"
| "incidentRecordPath (Console_health scope health) =
     (if scope \<noteq> CONSOLE_SCOPE \<and> \<not> spellable scope then Inl (Unspellable_scope scope)
      else Inr [scope, CONSOLE_SCOPE, health_name health @ ''.json''])"

definition strip_json :: "string \<Rightarrow> string option" where
  "strip_json name =
     (if length name \<ge> 5 \<and> drop (length name - 5) name = ''.json''
      then Some (take (length name - 5) name) else None)"

definition subjectForPath :: "string \<Rightarrow> string list \<Rightarrow> incident_subject option" where
  "subjectForPath scope segments =
     (case segments of
        [name] \<Rightarrow> map_option (Service scope) (strip_json name)
      | [dir, name] \<Rightarrow>
          if dir \<noteq> CONSOLE_SCOPE then None
          else (case strip_json name of
                  None \<Rightarrow> None
                | Some health \<Rightarrow>
                    map_option (Console_health scope)
                      (find (\<lambda>k. health_name k = health) CONSOLE_HEALTH_KINDS))
      | _ \<Rightarrow> None)"

definition MAX_FLAP_TRANSITIONS :: nat where
  "MAX_FLAP_TRANSITIONS = 4096"

definition epochMs :: "int \<Rightarrow> bool" where
  "epochMs n \<longleftrightarrow> 0 \<le> n \<and> n \<le> max_safe_integer"

fun SubjectSchema :: "incident_subject \<Rightarrow> bool" where
  "SubjectSchema (Service environment service) \<longleftrightarrow> spellable environment \<and> spellable service"
| "SubjectSchema (Console_health scope health) \<longleftrightarrow> scope = CONSOLE_SCOPE \<or> spellable scope"

definition IncidentRecordSchema :: "incident \<Rightarrow> bool" where
  "IncidentRecordSchema r \<longleftrightarrow>
     SubjectSchema (i_subject r)
     \<and> pred_option epochMs (i_since r) \<and> pred_option epochMs (i_last_seen r)
     \<and> epochMs (i_sweep_count r) \<and> epochMs (i_consecutive_indeterminate r)
     \<and> list_all epochMs (i_flap_transitions r)
     \<and> length (i_flap_transitions r) \<le> MAX_FLAP_TRANSITIONS
     \<and> pred_option epochMs (i_last_notified_at r)
     \<and> list_all (\<lambda>u. length u \<le> 4096) (i_undelivered r)
     \<and> length (i_undelivered r) \<le> MAX_UNDELIVERED
     \<and> pred_option (\<lambda>u. length u \<le> 4096) (i_last_artifact_ref r)"

text \<open>
  What a record's text reads as, before the domains of its fields are checked: the JSON parser
  and the shape of the object are a parameter, \<open>decode\<close>.
\<close>

datatype json_reading = Reads_as_nothing | Reads_as_no_object | Reads_as_other_shape | Reads_as incident

datatype record_refusal = Not_json | Not_an_object | Schema | Subject_mismatch string string

definition parseIncidentRecord ::
  "(string \<Rightarrow> json_reading) \<Rightarrow> string \<Rightarrow> incident_subject \<Rightarrow> record_refusal + incident" where
  "parseIncidentRecord decode text expected =
     (case decode text of
        Reads_as_nothing \<Rightarrow> Inl Not_json
      | Reads_as_no_object \<Rightarrow> Inl Not_an_object
      | Reads_as_other_shape \<Rightarrow> Inl Schema
      | Reads_as r \<Rightarrow>
          if \<not> IncidentRecordSchema r then Inl Schema
          else if subjectKey (i_subject r) \<noteq> subjectKey expected
          then Inl (Subject_mismatch (subjectKey (i_subject r)) (subjectKey expected))
          else Inr r)"

definition loadIncidentRecord ::
  "(string \<Rightarrow> json_reading) \<Rightarrow> (string list \<Rightarrow> string option) \<Rightarrow> incident_subject \<Rightarrow>
   path_error + record_refusal + incident" where
  "loadIncidentRecord decode readText subject =
     (case incidentRecordPath subject of
        Inl e \<Rightarrow> Inl e
      | Inr path \<Rightarrow> Inr
          (case readText path of
             None \<Rightarrow> Inr (freshIncidentRecord subject)
           | Some text \<Rightarrow> parseIncidentRecord decode text subject))"

record census =
  cs_by_state :: "incident_state \<Rightarrow> nat"
  cs_records :: nat
  cs_undelivered :: nat
  cs_refused :: "(string list \<times> record_refusal option) list"

definition empty_census :: census where
  "empty_census = \<lparr>cs_by_state = (\<lambda>_. 0), cs_records = 0, cs_undelivered = 0, cs_refused = []\<rparr>"

definition census_file ::
  "(string \<Rightarrow> json_reading) \<Rightarrow> (string list \<Rightarrow> string option) \<Rightarrow> string \<Rightarrow> census \<Rightarrow> string list \<Rightarrow> census" where
  "census_file decode readText scope c segments =
     (let path = scope # segments
      in case subjectForPath scope segments of
           None \<Rightarrow> c\<lparr>cs_refused := cs_refused c @ [(path, None)]\<rparr>
         | Some subject \<Rightarrow>
             (case readText path of
                None \<Rightarrow> c
              | Some text \<Rightarrow>
                  (case parseIncidentRecord decode text subject of
                     Inl e \<Rightarrow> c\<lparr>cs_refused := cs_refused c @ [(path, Some e)]\<rparr>
                   | Inr r \<Rightarrow>
                       c\<lparr>cs_records := cs_records c + 1,
                         cs_by_state := (cs_by_state c)(i_state r := cs_by_state c (i_state r) + 1),
                         cs_undelivered := cs_undelivered c + length (i_undelivered r)\<rparr>)))"

definition census_files :: "(string list \<Rightarrow> string list option) \<Rightarrow> string \<Rightarrow> string \<Rightarrow> string list list" where
  "census_files dir scope entry =
     (if entry = CONSOLE_SCOPE
      then map (\<lambda>n. [entry, n])
        (sort (case dir [scope, entry] of None \<Rightarrow> [] | Some names \<Rightarrow> names))
      else [[entry]])"

definition census_scope ::
  "(string \<Rightarrow> json_reading) \<Rightarrow> (string list \<Rightarrow> string option) \<Rightarrow> (string list \<Rightarrow> string list option) \<Rightarrow>
   census \<Rightarrow> string \<Rightarrow> census" where
  "census_scope decode readText dir c scope =
     (case dir [scope] of
        None \<Rightarrow> c
      | Some entries \<Rightarrow>
          foldl (census_file decode readText scope) c
            (concat (map (census_files dir scope) (sort entries))))"

definition incidentCensus ::
  "(string \<Rightarrow> json_reading) \<Rightarrow> (string list \<Rightarrow> string option) \<Rightarrow> (string list \<Rightarrow> string list option) \<Rightarrow>
   census" where
  "incidentCensus decode readText dir =
     (case dir [] of
        None \<Rightarrow> empty_census
      | Some scopes \<Rightarrow> foldl (census_scope decode readText dir) empty_census (sort scopes))"

section \<open>The console's own health\<close>

record environment_facts =
  ef_environment :: string
  ef_observerBlocked :: bool
  ef_collated :: bool

record sweep_facts =
  sf_evidenceRef :: string
  sf_environments :: "environment_facts list"
  sf_consecutiveSkips :: int
  sf_maxConsecutiveSkips :: int
  sf_saturated :: "bool option"
  sf_unreachable :: "bool option"
  sf_budgetExhausted :: bool
  sf_reporterUndelivered :: bool

datatype console_facts = Ran sweep_facts | Not_run "string list"

definition raised :: "bool \<Rightarrow> console_health_kind \<Rightarrow> string \<Rightarrow> incident_signal" where
  "raised bad reason evidenceRef =
     (if bad then Issue (Health reason) (Some evidenceRef) else Observed_clear evidenceRef)"

definition environment_signals :: "string \<Rightarrow> environment_facts \<Rightarrow> (incident_subject \<times> incident_signal) list" where
  "environment_signals ref e =
     [(Console_health (ef_environment e) Observer_blocked,
       raised (ef_observerBlocked e) Observer_blocked ref),
      (Console_health (ef_environment e) Sweep_produced_nothing,
       raised (\<not> ef_collated e) Sweep_produced_nothing ref)]"

definition skip_signals :: "sweep_facts \<Rightarrow> (incident_subject \<times> incident_signal) list" where
  "skip_signals f =
     (let subject = Console_health CONSOLE_SCOPE Sweeps_skipped;
          raiseSkipsAt = max 1 (sf_maxConsecutiveSkips f - 1)
      in if sf_consecutiveSkips f \<ge> raiseSkipsAt
         then [(subject, Issue (Health Sweeps_skipped) (Some (sf_evidenceRef f)))]
         else if sf_consecutiveSkips f = 0 then [(subject, Observed_clear (sf_evidenceRef f))]
         else [])"

definition endpoint_signals ::
  "console_health_kind \<Rightarrow> bool option \<Rightarrow> string \<Rightarrow> (incident_subject \<times> incident_signal) list" where
  "endpoint_signals kind known ref =
     (case known of None \<Rightarrow> [] | Some bad \<Rightarrow> [(Console_health CONSOLE_SCOPE kind, raised bad kind ref)])"

definition console_signals :: "console_facts \<Rightarrow> (incident_subject \<times> incident_signal) list" where
  "console_signals facts =
     (case facts of
        Not_run environments \<Rightarrow>
          concat (map (\<lambda>e. [(Console_health e Observer_blocked, Unobserved),
                            (Console_health e Sweep_produced_nothing, Unobserved)]) environments)
          @ map (\<lambda>h. (Console_health CONSOLE_SCOPE h, Unobserved))
              (filter (\<lambda>h. h \<noteq> Observer_blocked \<and> h \<noteq> Sweep_produced_nothing) CONSOLE_HEALTH_KINDS)
      | Ran f \<Rightarrow>
          concat (map (environment_signals (sf_evidenceRef f)) (sf_environments f))
          @ skip_signals f
          @ endpoint_signals Inference_saturated (sf_saturated f) (sf_evidenceRef f)
          @ endpoint_signals Inference_unreachable (sf_unreachable f) (sf_evidenceRef f)
          @ [(Console_health CONSOLE_SCOPE Budget_exhausted,
              raised (sf_budgetExhausted f) Budget_exhausted (sf_evidenceRef f)),
             (Console_health CONSOLE_SCOPE Reporter_undelivered,
              raised (sf_reporterUndelivered f) Reporter_undelivered (sf_evidenceRef f))])"

definition consoleHealthObservations :: "string \<Rightarrow> millis \<Rightarrow> console_facts \<Rightarrow> observation list" where
  "consoleHealthObservations sweepId t facts =
     map (\<lambda>(subject, signal). \<lparr>o_subject = subject, o_sweepId = sweepId, o_at = t, o_signal = signal\<rparr>)
       (console_signals facts)"

section \<open>Runs\<close>

text \<open>
  The sweeps of one subject, in order: a mismatched observation raises, and the caller's record
  stays as it was.
\<close>

definition incident_sweep :: "incident_policy \<Rightarrow> incident \<Rightarrow> observation \<Rightarrow> incident_advance" where
  "incident_sweep p r obs =
     (case advanceIncident r obs p of
        Inl _ \<Rightarrow> (r, [])
      | Inr (r', new) \<Rightarrow> (r', new))"

definition incident_run :: "incident_policy \<Rightarrow> incident \<Rightarrow> observation list \<Rightarrow> incident_advance" where
  "incident_run p r obs = run_out (incident_sweep p) r obs"

lemmas advance_defs = incident_sweep_def advanceIncident_def onIssue_def onObservedClear_def
  onUnobserved_def clear_from_issue_def settleFlappingIntoFiring_def withReminder_def

section \<open>What the operator is told\<close>

text \<open>
  The reader of the notifications knows one of three things about a subject. A kind of
  notification that makes no sense in a state has no successor there.
\<close>

datatype announced = Quiet | Open | Oscillating

fun announce :: "announced \<Rightarrow> notification \<Rightarrow> announced option" where
  "announce a n =
     (case nt_kind n of
        Opened \<Rightarrow> if a = Open then None else Some Open
      | Recovered \<Rightarrow> if a = Quiet then None else Some Quiet
      | Flapping_notice \<Rightarrow> if a = Oscillating then None else Some Oscillating
      | Reminder \<Rightarrow> if a = Open then Some Open else None)"

fun announced_state :: "incident_state \<Rightarrow> announced" where
  "announced_state Clear = Quiet"
| "announced_state Provisional = Quiet"
| "announced_state Firing = Open"
| "announced_state Flapping = Oscillating"

lemma reminder_kind: "n \<in> set (snd (withReminder r obs p)) \<Longrightarrow> nt_kind n = Reminder"
  by (auto simp: withReminder_def split: if_splits option.splits)

lemma incident_sweep_announces:
  "replay announce (announced_state (i_state r)) (snd (incident_sweep p r obs)) =
   Some (announced_state (i_state (fst (incident_sweep p r obs))))"
  by (cases "i_state r"; cases "o_signal obs")
    (simp_all add: advance_defs Let_def split: option.splits)

interpretation incidents: observed_machine "incident_sweep p" "\<lambda>r. announced_state (i_state r)" announce for p
  by unfold_locales (rule incident_sweep_announces)

text \<open>
  C22: the messages tell the whole story. Whatever the sweeps, a reader who replays the
  notifications of a run, each of which must make sense where it comes (an incident opens only
  when it is not open, recovers only when it was announced, is reminded of only while open),
  ends in exactly the state of the record: nothing opens, closes or starts flapping unannounced.
\<close>

theorem announcements_track_state:
  "case incident_run p r obs of (r', ns) \<Rightarrow>
     replay announce (announced_state (i_state r)) ns = Some (announced_state (i_state r'))"
  using incidents.run_read [of r p obs] by (simp add: incident_run_def case_prod_beta)

text \<open>
  A recovery rests on evidence. Every recovery announced in a run was composed by a sweep of
  that run that observed the subject clear, at that instant, and cites that sweep's artifact; a
  sweep that could not see the subject never closes an incident.
\<close>

theorem recovery_needs_evidence:
  assumes "n \<in> set (snd (incident_run p r obs))" and "nt_kind n = Recovered"
  shows "\<exists>ob \<in> set obs. \<exists>ref. o_signal ob = Observed_clear ref
    \<and> nt_evidenceRef n = Some ref \<and> nt_at n = o_at ob \<and> nt_sweepId n = o_sweepId ob"
proof -
  obtain t ob where t: "ob \<in> set obs" "n \<in> set (snd (incident_sweep p t ob))"
    using run_out_messages [OF assms(1) [unfolded incident_run_def]] by blast
  have "\<exists>ref. o_signal ob = Observed_clear ref
    \<and> nt_evidenceRef n = Some ref \<and> nt_at n = o_at ob \<and> nt_sweepId n = o_sweepId ob"
    using t(2) assms(2)
    by (cases "i_state t"; cases "o_signal ob")
      (auto simp: advance_defs Let_def split: if_splits option.splits)
  then show ?thesis using t(1) by blast
qed

section \<open>Reminders\<close>

text \<open>Every notification moves \<open>last_notified_at\<close> to its own instant, and nothing else does.\<close>

lemma sweep_notifies:
  obtains (silent) "snd (incident_sweep p r ob) = []"
      and "i_last_notified_at (fst (incident_sweep p r ob)) = i_last_notified_at r"
  | (speaks) n where "snd (incident_sweep p r ob) = [n]"
      and "i_last_notified_at (fst (incident_sweep p r ob)) = Some (nt_at n)" and "nt_at n = o_at ob"
      and "nt_kind n = Reminder \<Longrightarrow>
        \<exists>l. i_last_notified_at r = Some l \<and> nt_at n - l \<ge> renotify_after_s p * 1000"
      and "nt_kind n = Reminder \<Longrightarrow> renotify_after_s p \<noteq> 0"
proof -
  let ?s = "incident_sweep p r ob"
  have "(snd ?s = [] \<and> i_last_notified_at (fst ?s) = i_last_notified_at r) \<or>
    (\<exists>n. snd ?s = [n] \<and> i_last_notified_at (fst ?s) = Some (nt_at n) \<and> nt_at n = o_at ob
      \<and> (nt_kind n = Reminder \<longrightarrow> renotify_after_s p \<noteq> 0 \<and>
          (\<exists>l. i_last_notified_at r = Some l \<and> nt_at n - l \<ge> renotify_after_s p * 1000)))"
    by (cases "i_state r"; cases "o_signal ob")
      (auto simp: advance_defs Let_def split: option.splits)
  then show thesis using silent speaks by blast
qed

fun reminders_spaced :: "incident_policy \<Rightarrow> millis option \<Rightarrow> notification list \<Rightarrow> bool" where
  "reminders_spaced p l [] \<longleftrightarrow> True"
| "reminders_spaced p l (n # ns) \<longleftrightarrow>
     (nt_kind n \<noteq> Reminder \<or>
        renotify_after_s p \<noteq> 0
        \<and> (case l of None \<Rightarrow> False | Some t \<Rightarrow> nt_at n - t \<ge> renotify_after_s p * 1000))
     \<and> reminders_spaced p (Some (nt_at n)) ns"

lemma incident_run_Cons:
  "incident_run p r (ob # obs) =
     (fst (incident_run p (fst (incident_sweep p r ob)) obs),
      snd (incident_sweep p r ob) @ snd (incident_run p (fst (incident_sweep p r ob)) obs))"
  by (simp add: incident_run_def case_prod_beta Let_def)

lemma incident_run_Nil: "incident_run p r [] = (r, [])"
  by (simp add: incident_run_def)

text \<open>
  Reminders are rationed. In any run of sweeps a reminder comes at least \<open>renotify_after\<close>
  after the notification before it, whatever that one was, and never when \<open>renotify_after\<close> is
  zero or when nothing had been announced.
\<close>

theorem reminders_rationed:
  "reminders_spaced p (i_last_notified_at r) (snd (incident_run p r obs))"
proof (induction obs arbitrary: r)
  case (Cons ob obs)
  show ?case
    by (cases rule: sweep_notifies [of p r ob])
      (use Cons.IH [of "fst (incident_sweep p r ob)"] in \<open>auto simp: incident_run_Cons\<close>)
qed (simp add: incident_run_Nil)

section \<open>Blind sweeps\<close>

definition blind_obs :: "incident \<Rightarrow> observation \<Rightarrow> bool" where
  "blind_obs r ob \<longleftrightarrow> o_subject ob = i_subject r \<and> o_signal ob = Unobserved"

lemma blind_obs_subject: "i_subject r' = i_subject r \<Longrightarrow> blind_obs r' = blind_obs r"
  by (simp add: blind_obs_def fun_eq_iff)

lemma blind_sweep_firing:
  assumes "blind_obs r ob" and "i_state r = Firing"
  shows "i_state (fst (incident_sweep p r ob)) = Firing"
    and "list_all (\<lambda>n. nt_kind n = Reminder) (snd (incident_sweep p r ob))"
    and "i_subject (fst (incident_sweep p r ob)) = i_subject r"
  using assms
  by (auto simp: blind_obs_def incident_sweep_def advanceIncident_def onUnobserved_def
      withReminder_def Let_def split: option.splits)

lemma blind_run_firing:
  "i_state r = Firing \<Longrightarrow> list_all (blind_obs r) obs \<Longrightarrow>
   i_state (fst (incident_run p r obs)) = Firing
   \<and> list_all (\<lambda>n. nt_kind n = Reminder) (snd (incident_run p r obs))"
proof (induction obs arbitrary: r)
  case (Cons ob obs)
  let ?r = "fst (incident_sweep p r ob)"
  note step = blind_sweep_firing [OF _ Cons.prems(1), of ob p]
  have "list_all (blind_obs ?r) obs"
    using Cons.prems(2) blind_obs_subject [OF step(3)] by simp
  then show ?case using Cons step by (simp add: incident_run_Cons)
qed (simp add: incident_run_Nil)

lemma blind_sweep_other:
  assumes "blind_obs r ob" and "i_state r \<noteq> Firing"
  shows "if i_consecutive_indeterminate r + 1 \<ge> 3
    then i_state (fst (incident_sweep p r ob)) = Firing
      \<and> (\<exists>n. snd (incident_sweep p r ob) = [n] \<and> nt_kind n = Opened \<and> nt_reason n = Coverage)
    else i_state (fst (incident_sweep p r ob)) = i_state r \<and> snd (incident_sweep p r ob) = []
      \<and> i_consecutive_indeterminate (fst (incident_sweep p r ob)) = i_consecutive_indeterminate r + 1"
    and "i_subject (fst (incident_sweep p r ob)) = i_subject r"
  using assms
  by (cases "i_state r"; auto simp: blind_obs_def incident_sweep_def advanceIncident_def
      onUnobserved_def withReminder_def COVERAGE_THRESHOLD_def Let_def)+

lemma blind_run:
  "i_state r \<noteq> Firing \<Longrightarrow> list_all (blind_obs r) obs \<Longrightarrow> obs \<noteq> [] \<Longrightarrow>
   i_consecutive_indeterminate r + int (length obs) \<ge> 3 \<Longrightarrow>
   i_state (fst (incident_run p r obs)) = Firing
   \<and> (\<exists>n rest. snd (incident_run p r obs) = n # rest \<and> nt_kind n = Opened \<and> nt_reason n = Coverage
        \<and> list_all (\<lambda>n. nt_kind n = Reminder) rest)"
proof (induction obs arbitrary: r)
  case (Cons ob obs)
  let ?r = "fst (incident_sweep p r ob)"
  have b: "blind_obs r ob" using Cons.prems(2) by simp
  note step = blind_sweep_other [OF b Cons.prems(1), of p]
  have obs: "list_all (blind_obs ?r) obs"
    using Cons.prems(2) blind_obs_subject [OF step(2)] by simp
  show ?case
  proof (cases "i_consecutive_indeterminate r + 1 \<ge> 3")
    case True
    then show ?thesis using step(1) blind_run_firing [OF _ obs, of p]
      by (auto simp: incident_run_Cons)
  next
    case False
    then have s: "i_state ?r = i_state r" "snd (incident_sweep p r ob) = []"
      "i_consecutive_indeterminate ?r = i_consecutive_indeterminate r + 1"
      using step(1) by simp_all
    have "obs \<noteq> []" using False Cons.prems(4) by auto
    moreover have "i_consecutive_indeterminate ?r + int (length obs) \<ge> 3"
      using Cons.prems(4) s(3) by simp
    ultimately show ?thesis
      using Cons.IH [of ?r] Cons.prems(1) s obs by (simp add: incident_run_Cons)
  qed
qed simp

text \<open>
  Blindness is not silent. Whatever state short of firing a subject is in, three sweeps in a
  row that could not see it open exactly one incident, for coverage, and from then on further
  blind sweeps send nothing but reminders and never close it.
\<close>

theorem blind_sweeps_escalate:
  assumes "i_state r \<noteq> Firing" and "0 \<le> i_consecutive_indeterminate r"
    and "list_all (blind_obs r) obs" and "3 \<le> length obs"
  shows "case incident_run p r obs of (r', ns) \<Rightarrow>
    i_state r' = Firing
    \<and> (\<exists>n rest. ns = n # rest \<and> nt_kind n = Opened \<and> nt_reason n = Coverage
        \<and> list_all (\<lambda>n. nt_kind n = Reminder) rest)"
  using blind_run [of r obs p] assms by (cases obs) (auto simp: case_prod_beta)

section \<open>A flapping record that was never observed bad\<close>

definition clear_obs :: "incident \<Rightarrow> observation \<Rightarrow> bool" where
  "clear_obs r ob \<longleftrightarrow> o_subject ob = i_subject r
     \<and> (case o_signal ob of Observed_clear _ \<Rightarrow> True | _ \<Rightarrow> False)"

lemma clear_obs_subject: "i_subject r' = i_subject r \<Longrightarrow> clear_obs r' = clear_obs r"
  by (simp add: clear_obs_def fun_eq_iff)

lemma clear_sweep_unseen:
  assumes "clear_obs r ob" and "i_state r = Flapping" and "i_last_seen r = None"
    and "0 < flap_window_s p"
  shows "snd (incident_sweep p r ob) = []"
    and "i_state (fst (incident_sweep p r ob)) = Flapping"
    and "i_last_seen (fst (incident_sweep p r ob)) = None"
    and "i_subject (fst (incident_sweep p r ob)) = i_subject r"
  using assms
  by (cases "o_signal ob"; simp add: clear_obs_def incident_sweep_def advanceIncident_def
      onObservedClear_def flap_window_ms_def Let_def)+

text \<open>
  A stuck state. A record that reached \<open>flapping\<close> through coverage incidents alone has no
  \<open>last_seen\<close>, and then \<open>record.last_seen ?? at\<close> makes every clear sweep look like the last bad
  one: however long the subject is observed clear, the record stays \<open>flapping\<close> and no recovery
  is ever announced.
\<close>

theorem flapping_unseen_never_recovers:
  assumes "i_state r = Flapping" and "i_last_seen r = None" and "0 < flap_window_s p"
    and "list_all (clear_obs r) obs"
  shows "i_state (fst (incident_run p r obs)) = Flapping \<and> snd (incident_run p r obs) = []"
  using assms
proof (induction obs arbitrary: r)
  case (Cons ob obs)
  have "clear_obs r ob" using Cons.prems(4) by simp
  note step = clear_sweep_unseen [OF this Cons.prems(1-3)]
  have "list_all (clear_obs (fst (incident_sweep p r ob))) obs"
    using Cons.prems(4) clear_obs_subject [OF step(4)] by simp
  then show ?case using Cons.IH step Cons.prems(3) by (simp add: incident_run_Cons)
qed (simp add: incident_run_Nil)

section \<open>The stored form\<close>

definition observation_ok :: "observation \<Rightarrow> bool" where
  "observation_ok ob \<longleftrightarrow> epochMs (o_at ob)
     \<and> (case o_signal ob of
          Issue _ (Some ref) \<Rightarrow> length ref \<le> 4096
        | Observed_clear ref \<Rightarrow> length ref \<le> 4096
        | _ \<Rightarrow> True)"

lemma list_all_filter: "list_all P xs \<Longrightarrow> list_all P (filter Q xs)"
  by (auto simp: list_all_iff)

lemma length_filter_bound: "length xs < n \<Longrightarrow> length (filter Q xs) < n"
  by (rule le_less_trans [OF length_filter_le])

lemma max_safe_integer_pos: "1 \<le> max_safe_integer"
  by (simp add: max_safe_integer_def)

text \<open>
  An advance writes a record its own reader accepts. From a record that satisfies the schema,
  with counters below the largest safe integer and room in its list of transitions, an advance by
  an observation with a valid instant and artifact gives a record that satisfies the schema, for
  the same subject and with the same backlog.
\<close>

theorem advance_keeps_schema:
  assumes "IncidentRecordSchema r" and "observation_ok ob"
    and "i_sweep_count r < max_safe_integer" and "i_consecutive_indeterminate r < max_safe_integer"
    and "length (i_flap_transitions r) < MAX_FLAP_TRANSITIONS"
  shows "IncidentRecordSchema (fst (incident_sweep p r ob))
    \<and> i_subject (fst (incident_sweep p r ob)) = i_subject r
    \<and> i_undelivered (fst (incident_sweep p r ob)) = i_undelivered r"
proof -
  let ?f = "filter (\<lambda>t. o_at ob - flap_window_ms p < t) (i_flap_transitions r)"
  have "list_all epochMs ?f" "length ?f < MAX_FLAP_TRANSITIONS"
    using assms(1,5) by (simp_all add: IncidentRecordSchema_def list_all_filter length_filter_bound)
  moreover have "epochMs 0" "epochMs 1" using max_safe_integer_pos by (simp_all add: epochMs_def)
  ultimately show ?thesis
    using assms(1-4)
    by (cases "i_state r"; cases "o_signal ob")
      (auto simp: IncidentRecordSchema_def observation_ok_def advance_defs Let_def
         epochMs_def [of "i_sweep_count r"] epochMs_def [of "i_sweep_count r + 1"]
         epochMs_def [of "i_consecutive_indeterminate r"]
         epochMs_def [of "i_consecutive_indeterminate r + 1"] split: option.splits)
qed

text \<open>
  An oscillation is forgotten on the way out. An advance that takes a record out of
  \<open>flapping\<close> leaves no transitions behind, so an episode that is over cannot count towards the
  threshold of the next one; and an advance by any observation but a suppressed one keeps only
  transitions inside the flap window.
\<close>

theorem flap_history_pruned:
  assumes "advanceIncident r ob p = Inr (r', ns)" and "o_signal ob \<noteq> Suppressed"
    and "0 < flap_window_s p"
  shows "(i_state r = Flapping \<and> i_state r' \<noteq> Flapping \<longrightarrow> i_flap_transitions r' = [])
    \<and> list_all (\<lambda>t. o_at ob - flap_window_ms p < t) (i_flap_transitions r')"
  using assms
  by (cases "i_state r"; cases "o_signal ob")
    (auto simp: advance_defs Let_def list_all_iff flap_window_ms_def split: if_splits option.splits)

lemma strip_json_append [simp]: "strip_json (s @ ''.json'') = Some s"
  by (simp add: strip_json_def)

lemma health_name_inj: "health_name k = health_name k' \<longleftrightarrow> k = k'"
  by (cases k; cases k') simp_all

lemma find_health: "find (\<lambda>k. health_name k = health_name h) CONSOLE_HEALTH_KINDS = Some h"
  by (cases h) (simp_all add: CONSOLE_HEALTH_KINDS_def)

text \<open>
  A record's location names its subject. The path built for a subject reads back as that
  subject, so two subjects never share a file, a service's record is never a console's, and every
  segment of a path is free of separators.
\<close>

theorem incident_path_roundtrip:
  assumes "incidentRecordPath s = Inr path"
  shows "(\<exists>scope segments. path = scope # segments \<and> subjectForPath scope segments = Some s)
    \<and> (\<forall>seg \<in> set path. CHR ''/'' \<notin> set seg \<and> seg \<noteq> ''..'' \<and> seg \<noteq> ''.'')"
proof -
  have spell: "CHR ''/'' \<notin> set v \<and> v \<noteq> ''..'' \<and> v \<noteq> ''.''" if "spellable v" for v
  proof -
    have "list_all (\<lambda>c. alphanumeric c \<or> c = CHR ''.'' \<or> c = CHR ''_'' \<or> c = CHR ''-'') v"
      and "v \<noteq> []" "alphanumeric (hd v)"
      using that by (simp_all add: spellable_def SESSION_ID_RE_def)
    moreover have "\<not> alphanumeric (CHR ''/'')" "\<not> alphanumeric (CHR ''.'')"
      by (simp_all add: alphanumeric_def less_eq_char_def)
    ultimately show ?thesis by (auto simp: list_all_iff)
  qed
  have json: "CHR ''/'' \<notin> set (v @ ''.json'') \<and> v @ ''.json'' \<noteq> ''..'' \<and> v @ ''.json'' \<noteq> ''.''"
    if "CHR ''/'' \<notin> set v" for v
    using that by (auto simp: append_eq_Cons_conv)
  show ?thesis
  proof (cases s)
    case (Service environment service)
    then show ?thesis using assms spell [of environment] spell [of service] json [of service]
      by (auto simp: subjectForPath_def split: if_splits)
  next
    case (Console_health scope health)
    have "CHR ''/'' \<notin> set (health_name health)" by (cases health) simp_all
    moreover have "CHR ''/'' \<notin> set CONSOLE_SCOPE \<and> CONSOLE_SCOPE \<noteq> ''..'' \<and> CONSOLE_SCOPE \<noteq> ''.''"
      by (simp add: CONSOLE_SCOPE_def)
    ultimately show ?thesis using assms Console_health spell [of scope] json [of "health_name health"]
      by (auto simp: subjectForPath_def find_health split: if_splits)
  qed
qed

text \<open>The census counts every record it read in exactly one state.\<close>

lemma census_file_sum:
  "cs_records c = (\<Sum>s \<in> {Clear, Provisional, Firing, Flapping}. cs_by_state c s) \<Longrightarrow>
   cs_records (census_file decode readText scope c seg) =
     (\<Sum>s \<in> {Clear, Provisional, Firing, Flapping}.
        cs_by_state (census_file decode readText scope c seg) s)"
  by (auto simp: census_file_def Let_def split: option.splits sum.splits)
    (case_tac "i_state x2b"; simp)+

text \<open>
  The backlog keeps the newest. \<open>withUndelivered\<close> never holds more than its bound, what it
  holds is the end of the old backlog followed by the new entries, all of them when they fit, and
  no other field of the record changes.
\<close>

theorem withUndelivered_newest:
  "let r' = withUndelivered r entries; merged = i_undelivered r @ entries
   in (entries = [] \<or> length (i_undelivered r') \<le> MAX_UNDELIVERED)
      \<and> (\<exists>old. merged = old @ i_undelivered r' \<and> (old = [] \<or> length (i_undelivered r') = MAX_UNDELIVERED))
      \<and> r'\<lparr>i_undelivered := i_undelivered r\<rparr> = r"
proof -
  let ?m = "i_undelivered r @ entries"
  let ?d = "drop (length ?m - MAX_UNDELIVERED) ?m"
  have split: "?m = take (length ?m - MAX_UNDELIVERED) ?m @ ?d"
    by (rule append_take_drop_id [symmetric])
  define d where "d = ?d"
  obtain old where old: "?m = old @ d" using split unfolding d_def by blast
  show ?thesis
  proof (cases "entries = [] \<or> length ?m \<le> MAX_UNDELIVERED")
    case True
    then show ?thesis by (cases r) (auto simp: withUndelivered_def Let_def)
  next
    case False
    then have r': "withUndelivered r entries = r\<lparr>i_undelivered := d\<rparr>"
      by (simp add: withUndelivered_def Let_def d_def del: drop_append)
    have "length d = MAX_UNDELIVERED" using False by (simp add: d_def del: drop_append)
    then show ?thesis unfolding r' Let_def using old by (cases r) auto
  qed
qed

definition all_states :: "incident_state set" where
  "all_states = {Clear, Provisional, Firing, Flapping}"

definition census_ok :: "census \<Rightarrow> bool" where
  "census_ok c \<longleftrightarrow> cs_records c = (\<Sum>s \<in> all_states. cs_by_state c s)"

lemma census_file_ok: "census_ok c \<Longrightarrow> census_ok (census_file decode readText scope c seg)"
  using census_file_sum [of c decode readText scope seg] by (simp add: census_ok_def all_states_def)

lemma census_files_ok:
  "census_ok c \<Longrightarrow> census_ok (foldl (census_file decode readText scope) c segs)"
  by (induction segs arbitrary: c) (auto intro: census_file_ok)

lemma census_scope_ok: "census_ok c \<Longrightarrow> census_ok (census_scope decode readText dir c scope)"
  by (auto simp: census_scope_def intro: census_files_ok split: option.splits)

lemma census_scopes_ok:
  "census_ok c \<Longrightarrow> census_ok (foldl (census_scope decode readText dir) c scopes)"
  by (induction scopes arbitrary: c) (auto intro: census_scope_ok)

text \<open>
  The census counts every record it could read once: the counts of the four states add up to
  the number of records, whatever is on disk.
\<close>

theorem census_adds_up:
  "cs_records (incidentCensus decode readText dir) =
   (\<Sum>s \<in> {Clear, Provisional, Firing, Flapping}. cs_by_state (incidentCensus decode readText dir) s)"
proof -
  have "census_ok empty_census" by (simp add: census_ok_def empty_census_def)
  then have "census_ok (incidentCensus decode readText dir)"
    by (auto simp: incidentCensus_def intro: census_scopes_ok split: option.splits)
  then show ?thesis by (simp add: census_ok_def all_states_def)
qed

section \<open>The console's observations\<close>

definition facts_environments :: "console_facts \<Rightarrow> string list" where
  "facts_environments facts =
     (case facts of Ran f \<Rightarrow> map ef_environment (sf_environments f) | Not_run es \<Rightarrow> es)"

lemma environment_subjects_distinct:
  "distinct es \<Longrightarrow>
   distinct (concat (map (\<lambda>e. [Console_health e Observer_blocked, Console_health e Sweep_produced_nothing]) es))"
  by (induction es) auto

text \<open>
  A sweep says at most one thing of each subject. With distinct environments, none of them
  the console's own scope, the subjects of a sweep's console observations are pairwise different,
  so no record is advanced twice by one sweep; and a pass that did not run observes nothing.
\<close>

theorem console_observations_distinct:
  assumes "distinct (facts_environments facts)" and "CONSOLE_SCOPE \<notin> set (facts_environments facts)"
  shows "distinct (map o_subject (consoleHealthObservations sweepId t facts))
    \<and> (case facts of Not_run es \<Rightarrow>
         list_all (\<lambda>ob. o_signal ob = Unobserved) (consoleHealthObservations sweepId t facts)
       | Ran f \<Rightarrow> True)"
proof -
  have subjects: "map o_subject (consoleHealthObservations sweepId t facts) = map fst (console_signals facts)"
    by (simp add: consoleHealthObservations_def case_prod_beta o_def)
  show ?thesis
  proof (cases facts)
    case (Not_run es)
    have "map fst (console_signals facts) =
        concat (map (\<lambda>e. [Console_health e Observer_blocked, Console_health e Sweep_produced_nothing]) es)
        @ map (Console_health CONSOLE_SCOPE)
            [Sweeps_skipped, Inference_saturated, Inference_unreachable, Budget_exhausted, Reporter_undelivered]"
      by (simp add: Not_run console_signals_def CONSOLE_HEALTH_KINDS_def map_concat o_def)
    moreover have "list_all (\<lambda>ob. o_signal ob = Unobserved) (consoleHealthObservations sweepId t facts)"
      by (auto simp: Not_run consoleHealthObservations_def console_signals_def list_all_iff)
    ultimately show ?thesis using assms environment_subjects_distinct [of es] Not_run
      unfolding subjects by (auto simp: facts_environments_def)
  next
    case (Ran f)
    let ?es = "map ef_environment (sf_environments f)"
    have skip: "map fst (skip_signals f) \<in> {[], [Console_health CONSOLE_SCOPE Sweeps_skipped]}"
      by (simp add: skip_signals_def Let_def)
    have endpoint: "map fst (endpoint_signals k known ref) \<in> {[], [Console_health CONSOLE_SCOPE k]}"
      for k known ref
      by (simp add: endpoint_signals_def split: option.splits)
    have envs: "map fst (concat (map (environment_signals (sf_evidenceRef f)) (sf_environments f))) =
        concat (map (\<lambda>e. [Console_health e Observer_blocked, Console_health e Sweep_produced_nothing]) ?es)"
      by (simp add: environment_signals_def map_concat o_def)
    have d: "distinct (concat (map (\<lambda>e. [Console_health e Observer_blocked, Console_health e Sweep_produced_nothing]) ?es))"
      using assms(1) Ran by (intro environment_subjects_distinct) (simp add: facts_environments_def)
    have no: "CONSOLE_SCOPE \<notin> set ?es" using assms(2) Ran by (simp add: facts_environments_def)
    show ?thesis
      unfolding subjects
      using skip endpoint [of Inference_saturated "sf_saturated f" "sf_evidenceRef f"]
        endpoint [of Inference_unreachable "sf_unreachable f" "sf_evidenceRef f"] d no
      by (auto simp: Ran console_signals_def envs simp del: map_map)
  qed
qed

section \<open>Skipped sweeps\<close>

definition skip_observations ::
  "sweep_facts \<Rightarrow> (int \<Rightarrow> string) \<Rightarrow> (int \<Rightarrow> millis) \<Rightarrow> int list \<Rightarrow> observation list" where
  "skip_observations f sweepId t ks =
     concat (map (\<lambda>k. filter (\<lambda>ob. o_subject ob = Console_health CONSOLE_SCOPE Sweeps_skipped)
       (consoleHealthObservations (sweepId k) (t k) (Ran (f\<lparr>sf_consecutiveSkips := k\<rparr>)))) ks)"

lemma skip_observations_one:
  "skip_observations f sweepId t [k] =
   map (\<lambda>(s, g). \<lparr>o_subject = s, o_sweepId = sweepId k, o_at = t k, o_signal = g\<rparr>)
     (skip_signals (f\<lparr>sf_consecutiveSkips := k\<rparr>))"
proof -
  let ?S = "Console_health CONSOLE_SCOPE Sweeps_skipped"
  let ?o = "\<lambda>(s, g). \<lparr>o_subject = s, o_sweepId = sweepId k, o_at = t k, o_signal = g\<rparr>"
  have keep: "filter (\<lambda>ob. o_subject ob = ?S) (map ?o xs) = map ?o (filter (\<lambda>x. fst x = ?S) xs)" for xs
    by (induction xs) auto
  have envs: "filter (\<lambda>x. fst x = ?S) (concat (map (environment_signals ref) es)) = []" for ref es
    by (induction es) (auto simp: environment_signals_def)
  have skip: "filter (\<lambda>x. fst x = ?S) (skip_signals g) = skip_signals g" for g
    by (simp add: skip_signals_def Let_def)
  have "h \<noteq> Sweeps_skipped \<Longrightarrow> filter (\<lambda>x. fst x = ?S) (endpoint_signals h known ref) = []" for h known ref
    by (simp add: endpoint_signals_def split: option.splits)
  then show ?thesis
    by (simp add: skip_observations_def consoleHealthObservations_def console_signals_def keep envs skip)
qed

lemma skip_observations_append:
  "skip_observations f sweepId t (ks @ ls) = skip_observations f sweepId t ks @ skip_observations f sweepId t ls"
  by (simp add: skip_observations_def)

lemma skip_observations_quiet:
  "(\<And>k. k \<in> set ks \<Longrightarrow> 0 < k \<and> k < sf_maxConsecutiveSkips f - 1) \<Longrightarrow> skip_observations f sweepId t ks = []"
proof (induction ks)
  case (Cons k ks)
  have "skip_observations f sweepId t [k] = []"
    using Cons.prems [of k] by (simp add: skip_observations_one skip_signals_def Let_def)
  moreover have "skip_observations f sweepId t ks = []" using Cons.prems by (intro Cons.IH) auto
  ultimately show ?case using skip_observations_append [of f sweepId t "[k]" ks] by simp
qed (simp add: skip_observations_def)

text \<open>
  Skipped sweeps are announced on time. The observations of \<open>max_consecutive_skips\<close> skips in
  a row (at least two), fed to a new record, compose exactly one notification: it opens the
  incident, at the last of these skips and not before, because the skip is raised one early and
  the machine asks for a confirmation.
\<close>

theorem skips_announced_at_threshold:
  assumes "sf_maxConsecutiveSkips f = m" and "2 \<le> m"
  shows "case incident_run p (freshIncidentRecord (Console_health CONSOLE_SCOPE Sweeps_skipped))
      (skip_observations f sweepId t [1..m]) of (r', ns) \<Rightarrow>
    i_state r' = Firing
    \<and> (\<exists>n. ns = [n] \<and> nt_kind n = Opened \<and> nt_at n = t m \<and> nt_sweepId n = sweepId m
          \<and> nt_reason n = Observed (Health Sweeps_skipped))"
proof -
  have "[1..m] = [1..m - 2] @ [m - 1, m]"
    using assms(2) upto_split1 [of 1 "m - 1" m] upto_split1 [of "m - 1" "m - 1" m]
    by (simp add: upto_rec1 [of "m - 1" m] upto_rec1 [of m m])
  moreover have "skip_observations f sweepId t [1..m - 2] = []"
    using assms(1) by (intro skip_observations_quiet) auto
  ultimately have obs: "skip_observations f sweepId t [1..m] =
      skip_observations f sweepId t [m - 1] @ skip_observations f sweepId t [m]"
    using skip_observations_append [of f sweepId t "[m - 1]" "[m]"]
    by (simp add: skip_observations_append)
  have one: "skip_observations f sweepId t [k] =
      [\<lparr>o_subject = Console_health CONSOLE_SCOPE Sweeps_skipped, o_sweepId = sweepId k, o_at = t k,
        o_signal = Issue (Health Sweeps_skipped) (Some (sf_evidenceRef f))\<rparr>]"
    if "k = m - 1 \<or> k = m" for k
    using that assms by (auto simp: skip_observations_one skip_signals_def Let_def)
  show ?thesis
    unfolding obs one [OF disjI1 [OF refl]] one [OF disjI2 [OF refl]]
    by (simp add: incident_run_Cons incident_run_Nil incident_sweep_def advanceIncident_def
        onIssue_def freshIncidentRecord_def Let_def)
qed

section \<open>Concrete runs\<close>

definition sample_policy :: incident_policy where
  "sample_policy = \<lparr>flap_threshold = 2, flap_window_s = 3600, renotify_after_s = 21600\<rparr>"

definition api :: incident_subject where
  "api = Service ''prod'' ''api''"

definition sweep_at :: "int \<Rightarrow> incident_signal \<Rightarrow> observation" where
  "sweep_at k s = \<lparr>o_subject = api, o_sweepId = ''sweep'', o_at = k * 300000, o_signal = s\<rparr>"

definition blind_cycles :: "observation list" where
  "blind_cycles =
     concat (map (\<lambda>k. [sweep_at (4 * k + 1) Unobserved, sweep_at (4 * k + 2) Unobserved,
       sweep_at (4 * k + 3) Unobserved, sweep_at (4 * k + 4) (Observed_clear ''ref'')]) [0, 1, 2])"

definition stuck_record :: incident where
  "stuck_record = fst (incident_run sample_policy (freshIncidentRecord api) blind_cycles)"

lemma stuck_record_eq:
  "stuck_record =
   \<lparr>i_subject = api, i_state = Flapping, i_reason = Some Coverage, i_since = Some 3600000,
    i_last_seen = None, i_sweep_count = 0, i_consecutive_indeterminate = 0,
    i_flap_transitions = [1200000, 2400000, 3600000], i_last_notified_at = Some 3600000,
    i_undelivered = [], i_last_artifact_ref = Some ''ref''\<rparr>"
  by code_simp

lemma stuck_clear_obs:
  "list_all (clear_obs stuck_record) (map (\<lambda>k. sweep_at k (Observed_clear ''ref'')) ks)"
  by (simp add: list_all_iff clear_obs_def sweep_at_def stuck_record_eq)

theorem flapping_unseen_never_recovers_witness:
  "snd (incident_run sample_policy stuck_record
     (map (\<lambda>k. sweep_at k (Observed_clear ''ref'')) [13..300])) = []"
  by (rule flapping_unseen_never_recovers [THEN conjunct2, OF _ _ _ stuck_clear_obs])
    (simp_all add: stuck_record_eq sample_policy_def)

definition issue_sweeps :: "observation list" where
  "issue_sweeps = [sweep_at 1 (Issue Unhealthy (Some ''a'')), sweep_at 2 (Issue Unhealthy (Some ''b'')),
     sweep_at 3 (Observed_clear ''c'')]"

theorem recovery_needs_evidence_witness:
  "\<exists>n. n \<in> set (snd (incident_run sample_policy (freshIncidentRecord api) issue_sweeps))
     \<and> nt_kind n = Recovered \<and> (\<exists>ob \<in> set issue_sweeps. nt_at n = o_at ob)"
proof -
  let ?ns = "snd (incident_run sample_policy (freshIncidentRecord api) issue_sweeps)"
  have "map nt_kind ?ns = [Opened, Recovered]" by code_simp
  then have n: "?ns ! 1 \<in> set ?ns" "nt_kind (?ns ! 1) = Recovered"
    by (auto simp: list_eq_iff_nth_eq [of _ "[Opened, Recovered]"] nth_Cons' dest: spec [of _ 1])
  from recovery_needs_evidence [OF n] n show ?thesis by blast
qed

theorem blind_sweeps_escalate_witness:
  "i_state (fst (incident_run sample_policy (freshIncidentRecord api)
     (map (\<lambda>k. sweep_at k Unobserved) [1, 2, 3, 4]))) = Firing"
  using blind_sweeps_escalate [of "freshIncidentRecord api" "map (\<lambda>k. sweep_at k Unobserved) [1, 2, 3, 4]"
      sample_policy]
  by (simp add: freshIncidentRecord_def blind_obs_def sweep_at_def case_prod_beta)

lemma api_spellable: "spellable ''prod'' \<and> spellable ''api''"
  by code_simp

lemma api_record_ok: "IncidentRecordSchema (freshIncidentRecord api)"
  using api_spellable
  by (simp add: IncidentRecordSchema_def freshIncidentRecord_def api_def epochMs_def
      max_safe_integer_def)

theorem advance_keeps_schema_witness:
  "IncidentRecordSchema (fst (incident_sweep sample_policy (freshIncidentRecord api)
     (sweep_at 1 (Issue Unhealthy (Some ''a'')))))"
  using advance_keeps_schema [OF api_record_ok, of "sweep_at 1 (Issue Unhealthy (Some ''a''))"]
  by (simp add: observation_ok_def sweep_at_def epochMs_def max_safe_integer_def
      freshIncidentRecord_def MAX_FLAP_TRANSITIONS_def)

theorem flap_history_pruned_witness:
  "\<exists>r' ns. advanceIncident (stuck_record\<lparr>i_last_seen := Some 0\<rparr>) (sweep_at 13 (Observed_clear ''c'')) sample_policy
     = Inr (r', ns) \<and> i_state r' = Clear \<and> i_flap_transitions r' = []"
proof -
  let ?r = "stuck_record\<lparr>i_last_seen := Some 0\<rparr>"
  let ?o = "sweep_at 13 (Observed_clear ''c'')"
  obtain r' ns where a: "advanceIncident ?r ?o sample_policy = Inr (r', ns)"
    by (simp add: advanceIncident_def stuck_record_eq sweep_at_def)
      (metis surj_pair)
  have "i_state r' = Clear"
    using a by (auto simp: stuck_record_eq sweep_at_def advance_defs sample_policy_def
        flap_window_ms_def Let_def)
  then show ?thesis
    using a flap_history_pruned [OF a]
    by (auto simp: stuck_record_eq sweep_at_def sample_policy_def)
qed

theorem incident_path_roundtrip_witness:
  "\<exists>path. incidentRecordPath api = Inr path
     \<and> (\<exists>scope segments. path = scope # segments \<and> subjectForPath scope segments = Some api)"
proof -
  have p: "incidentRecordPath api = Inr [''prod'', ''api.json'']" by code_simp
  from incident_path_roundtrip [OF p] p show ?thesis by blast
qed

theorem console_observations_distinct_witness:
  "distinct (map o_subject (consoleHealthObservations ''s'' 0 (Not_run [''dev'', ''prod''])))"
  using console_observations_distinct [of "Not_run [''dev'', ''prod'']" "''s''" 0]
  by (simp add: facts_environments_def CONSOLE_SCOPE_def)

definition sample_facts :: sweep_facts where
  "sample_facts = \<lparr>sf_evidenceRef = ''ref'', sf_environments = [], sf_consecutiveSkips = 0,
     sf_maxConsecutiveSkips = 3, sf_saturated = None, sf_unreachable = None,
     sf_budgetExhausted = False, sf_reporterUndelivered = False\<rparr>"

theorem skips_announced_at_threshold_witness:
  "i_state (fst (incident_run sample_policy (freshIncidentRecord (Console_health CONSOLE_SCOPE Sweeps_skipped))
     (skip_observations sample_facts (\<lambda>_. ''s'') (\<lambda>k. k * 300000) [1..3]))) = Firing"
  using skips_announced_at_threshold [of sample_facts 3, where p = sample_policy
      and sweepId = "\<lambda>_. ''s''" and t = "\<lambda>k. k * 300000"]
  by (simp add: sample_facts_def case_prod_beta)

end
