(* ===== verification/Kill_Ladder.thy ===== *)
theory Kill_Ladder
  imports Fleet_Prelude "HOL-Library.Sublist"
begin

text \<open>
  The kill ladder, \<open>src/safety/kill.ts\<close>: identity and group checks, the guarded signal, and the
  climb abort, SIGTERM, SIGKILL with a grace period after each. The operating system is a
  parameter: a world of any type and functions on it that read a process's start time, read its
  group, deliver a signal, sleep, and read the clock. A call that may throw answers a sum. The
  wait for a death is a partial function, so that not returning is \<open>None\<close>; it is proved to return
  when the clock moves. The properties speak of the calls made, through a world that carries a
  log of them.
\<close>

section \<open>The operating system\<close>

datatype kill_signal = SIGTERM | SIGKILL

datatype delivery = Delivered | No_such_process | Not_permitted | Other_failure

record proc_id =
  p_pid :: int
  p_started :: string

record 'w process_ops =
  po_startTime :: "int \<Rightarrow> 'w \<Rightarrow> 'w \<times> (unit + string option)"
  po_groupId :: "int \<Rightarrow> 'w \<Rightarrow> 'w \<times> (unit + int option)"
  po_signal :: "int \<Rightarrow> kill_signal \<Rightarrow> 'w \<Rightarrow> 'w \<times> delivery"

record 'w clock =
  ck_now :: "'w \<Rightarrow> rat"
  ck_sleep :: "rat \<Rightarrow> 'w \<Rightarrow> 'w"

datatype group_refusal = Unrecorded | Mismatch | Not_led | Gone | Read_failed

datatype signal_outcome =
  Signalled
| Target_gone
| Group_unconfirmed
| Identity_unconfirmed
| Signal_refused

datatype kill_outcome =
  Kill_aborted
| Kill_terminated
| Kill_killed
| Kill_already_gone
| Kill_unconfirmed
| Kill_group_unconfirmed
| Kill_identity_unconfirmed
| Kill_signal_refused

datatype kill_error = Signal_threw

section \<open>Checks\<close>

definition sameIdentity :: "'w process_ops \<Rightarrow> proc_id \<Rightarrow> 'w \<Rightarrow> 'w \<times> (unit + bool)" where
  "sameIdentity ops target w =
     (case po_startTime ops (p_pid target) w of
        (w', Inl e) \<Rightarrow> (w', Inl e)
      | (w', Inr started) \<Rightarrow> (w', Inr (started = Some (p_started target))))"

definition confirmGroup ::
  "'w process_ops \<Rightarrow> proc_id \<Rightarrow> int option \<Rightarrow> 'w \<Rightarrow> 'w \<times> (group_refusal + int)" where
  "confirmGroup ops target recorded w =
     (case recorded of
        None \<Rightarrow> (w, Inl Unrecorded)
      | Some g \<Rightarrow>
          if g \<le> 0 then (w, Inl Unrecorded)
          else
            (case po_groupId ops (p_pid target) w of
               (w', Inl _) \<Rightarrow> (w', Inl Read_failed)
             | (w', Inr None) \<Rightarrow>
                 (case sameIdentity ops target w' of
                    (w'', Inl _) \<Rightarrow> (w'', Inl Read_failed)
                  | (w'', Inr stillThere) \<Rightarrow> (w'', Inl (if stillThere then Read_failed else Gone)))
             | (w', Inr (Some live)) \<Rightarrow>
                 (w', if live \<noteq> g then Inl Mismatch
                      else if live \<noteq> p_pid target then Inl Not_led
                      else Inr live)))"

definition deliver ::
  "'w process_ops \<Rightarrow> int \<Rightarrow> kill_signal \<Rightarrow> 'w \<Rightarrow> 'w \<times> (kill_error + signal_outcome)" where
  "deliver ops addr sig w =
     (case po_signal ops addr sig w of
        (w', Delivered) \<Rightarrow> (w', Inr Signalled)
      | (w', No_such_process) \<Rightarrow> (w', Inr Target_gone)
      | (w', Not_permitted) \<Rightarrow> (w', Inr Signal_refused)
      | (w', Other_failure) \<Rightarrow> (w', Inl Signal_threw))"

definition signalIfSame ::
  "'w process_ops \<Rightarrow> proc_id \<Rightarrow> kill_signal \<Rightarrow> int option \<Rightarrow> 'w \<Rightarrow> 'w \<times> (kill_error + signal_outcome)" where
  "signalIfSame ops target sig pgid w =
     (case sameIdentity ops target w of
        (w1, Inl _) \<Rightarrow> (w1, Inr Identity_unconfirmed)
      | (w1, Inr False) \<Rightarrow> (w1, Inr Target_gone)
      | (w1, Inr True) \<Rightarrow>
          (case pgid of
             None \<Rightarrow> deliver ops (p_pid target) sig w1
           | Some g \<Rightarrow>
               (case confirmGroup ops target (Some g) w1 of
                  (w2, Inl why) \<Rightarrow>
                    (w2, Inr (if why = Gone then Target_gone else Group_unconfirmed))
                | (w2, Inr led) \<Rightarrow>
                    (case sameIdentity ops target w2 of
                       (w3, Inl _) \<Rightarrow> (w3, Inr Identity_unconfirmed)
                     | (w3, Inr False) \<Rightarrow> (w3, Inr Target_gone)
                     | (w3, Inr True) \<Rightarrow> deliver ops (- led) sig w3))))"

definition identityHolds :: "'w process_ops \<Rightarrow> proc_id \<Rightarrow> 'w \<Rightarrow> 'w \<times> bool option" where
  "identityHolds ops target w =
     (case sameIdentity ops target w of
        (w', Inl _) \<Rightarrow> (w', None)
      | (w', Inr b) \<Rightarrow> (w', Some b))"

section \<open>Waiting\<close>

definition remainingMs :: "'w clock \<Rightarrow> rat \<Rightarrow> 'w \<Rightarrow> rat" where
  "remainingMs ck expiresAt w = max 0 (expiresAt - ck_now ck w)"

partial_function (option) await_until ::
  "('w \<Rightarrow> 'w \<times> bool) \<Rightarrow> 'w clock \<Rightarrow> rat \<Rightarrow> rat \<Rightarrow> 'w \<Rightarrow> ('w \<times> bool) option" where
  "await_until dead ck pollMs expiresAt w =
     (if snd (dead w) then Some (fst (dead w), True)
      else if remainingMs ck expiresAt (fst (dead w)) = 0 then Some (fst (dead w), False)
      else await_until dead ck pollMs expiresAt
             (ck_sleep ck (min pollMs (remainingMs ck expiresAt (fst (dead w)))) (fst (dead w))))"

definition awaitDead ::
  "('w \<Rightarrow> 'w \<times> bool) \<Rightarrow> rat \<Rightarrow> rat \<Rightarrow> 'w clock \<Rightarrow> 'w \<Rightarrow> ('w \<times> bool) option" where
  "awaitDead dead graceMs pollMs ck w = await_until dead ck pollMs (ck_now ck w + graceMs) w"

section \<open>The climb\<close>

record 'w kill_opts =
  ko_target :: proc_id
  ko_pgid :: "int option"
  ko_abort :: "('w \<Rightarrow> 'w) option"
  ko_dead :: "('w \<Rightarrow> 'w \<times> bool) option"
  ko_abortGraceMs :: "rat option"
  ko_termGraceMs :: "rat option"
  ko_killGraceMs :: "rat option"
  ko_pollMs :: "rat option"

definition grace :: "rat \<Rightarrow> rat option \<Rightarrow> rat" where
  "grace fallback given = (case given of None \<Rightarrow> fallback | Some ms \<Rightarrow> ms)"

definition death_test :: "'w process_ops \<Rightarrow> 'w kill_opts \<Rightarrow> 'w \<Rightarrow> 'w \<times> bool" where
  "death_test ops opts =
     (case ko_dead opts of
        Some dead \<Rightarrow> dead
      | None \<Rightarrow> (\<lambda>w. let (w', h) = identityHolds ops (ko_target opts) w in (w', h = Some False)))"

text \<open>
  The refusals a guarded signal can answer end the climb; \<open>None\<close> when it goes on.
\<close>

definition refusal :: "signal_outcome \<Rightarrow> kill_outcome \<Rightarrow> kill_outcome option" where
  "refusal out if_gone =
     (case out of
        Group_unconfirmed \<Rightarrow> Some Kill_group_unconfirmed
      | Identity_unconfirmed \<Rightarrow> Some Kill_identity_unconfirmed
      | Signal_refused \<Rightarrow> Some Kill_signal_refused
      | Target_gone \<Rightarrow> Some if_gone
      | Signalled \<Rightarrow> None)"

text \<open>Rung 3: SIGKILL.\<close>

definition kill_rung ::
  "'w process_ops \<Rightarrow> 'w clock \<Rightarrow> 'w kill_opts \<Rightarrow> 'w \<Rightarrow> ('w \<times> (kill_error + kill_outcome)) option" where
  "kill_rung ops ck opts w =
     (case signalIfSame ops (ko_target opts) SIGKILL (ko_pgid opts) w of
        (w1, Inl e) \<Rightarrow> Some (w1, Inl e)
      | (w1, Inr out) \<Rightarrow>
          (case refusal out Kill_terminated of
             Some r \<Rightarrow> Some (w1, Inr r)
           | None \<Rightarrow>
               (case awaitDead (death_test ops opts) (grace 2000 (ko_killGraceMs opts))
                       (grace 100 (ko_pollMs opts)) ck w1 of
                  None \<Rightarrow> None
                | Some (w2, True) \<Rightarrow> Some (w2, Inr Kill_killed)
                | Some (w2, False) \<Rightarrow>
                    (case identityHolds ops (ko_target opts) w2 of
                       (w3, None) \<Rightarrow> Some (w3, Inr Kill_identity_unconfirmed)
                     | (w3, Some True) \<Rightarrow> Some (w3, Inr Kill_unconfirmed)
                     | (w3, Some False) \<Rightarrow> Some (w3, Inr Kill_killed)))))"

text \<open>Rung 2: SIGTERM.\<close>

definition term_rung ::
  "'w process_ops \<Rightarrow> 'w clock \<Rightarrow> 'w kill_opts \<Rightarrow> 'w \<Rightarrow> ('w \<times> (kill_error + kill_outcome)) option" where
  "term_rung ops ck opts w =
     (case signalIfSame ops (ko_target opts) SIGTERM (ko_pgid opts) w of
        (w1, Inl e) \<Rightarrow> Some (w1, Inl e)
      | (w1, Inr out) \<Rightarrow>
          (case refusal out (if ko_abort opts \<noteq> None then Kill_aborted else Kill_already_gone) of
             Some r \<Rightarrow> Some (w1, Inr r)
           | None \<Rightarrow>
               (case awaitDead (death_test ops opts) (grace 5000 (ko_termGraceMs opts))
                       (grace 100 (ko_pollMs opts)) ck w1 of
                  None \<Rightarrow> None
                | Some (w2, True) \<Rightarrow> Some (w2, Inr Kill_terminated)
                | Some (w2, False) \<Rightarrow>
                    (case identityHolds ops (ko_target opts) w2 of
                       (w3, None) \<Rightarrow> Some (w3, Inr Kill_identity_unconfirmed)
                     | (w3, Some False) \<Rightarrow> Some (w3, Inr Kill_terminated)
                     | (w3, Some True) \<Rightarrow> kill_rung ops ck opts w3))))"

definition runKillLadder ::
  "'w process_ops \<Rightarrow> 'w clock \<Rightarrow> 'w kill_opts \<Rightarrow> 'w \<Rightarrow> ('w \<times> (kill_error + kill_outcome)) option" where
  "runKillLadder ops ck opts w =
     (case identityHolds ops (ko_target opts) w of
        (w1, None) \<Rightarrow> Some (w1, Inr Kill_identity_unconfirmed)
      | (w1, Some False) \<Rightarrow> Some (w1, Inr Kill_already_gone)
      | (w1, Some True) \<Rightarrow>
          (case ko_abort opts of
             None \<Rightarrow> term_rung ops ck opts w1
           | Some abort \<Rightarrow>
               (case awaitDead (death_test ops opts) (grace 5000 (ko_abortGraceMs opts))
                       (grace 100 (ko_pollMs opts)) ck (abort w1) of
                  None \<Rightarrow> None
                | Some (w2, True) \<Rightarrow> Some (w2, Inr Kill_aborted)
                | Some (w2, False) \<Rightarrow> term_rung ops ck opts w2)))"

section \<open>Termination\<close>

text \<open>A clock that moves: sleeping advances it by at least the time asked, nothing turns it back.\<close>

definition moving_clock :: "'w process_ops \<Rightarrow> 'w clock \<Rightarrow> 'w kill_opts \<Rightarrow> bool" where
  "moving_clock ops ck opts \<longleftrightarrow>
     (\<forall>d w. ck_now ck w + d \<le> ck_now ck (ck_sleep ck d w))
     \<and> (\<forall>w. ck_now ck w \<le> ck_now ck (fst (death_test ops opts w)))"

lemma await_until_returns:
  assumes clock: "\<And>d w. ck_now ck w + d \<le> ck_now ck (ck_sleep ck d w)"
    and dead: "\<And>w. ck_now ck w \<le> ck_now ck (fst (dead w))"
    and poll: "0 < pollMs"
  shows "expiresAt - ck_now ck w \<le> of_nat n * pollMs \<Longrightarrow>
    \<exists>r. await_until dead ck pollMs expiresAt w = Some r"
proof (induction n arbitrary: w)
  case 0
  have "remainingMs ck expiresAt (fst (dead w)) = 0"
    using 0 dead [of w] by (simp add: remainingMs_def)
  then show ?case by (auto simp: await_until.simps [of dead ck pollMs expiresAt w])
next
  case (Suc n)
  let ?w = "fst (dead w)"
  let ?d = "min pollMs (remainingMs ck expiresAt ?w)"
  let ?w' = "ck_sleep ck ?d ?w"
  have le: "expiresAt - ck_now ck ?w \<le> of_nat n * pollMs + pollMs"
    using Suc.prems dead [of w] by (simp add: algebra_simps)
  have nonneg: "0 \<le> of_nat n * pollMs" using poll by simp
  have "expiresAt - ck_now ck ?w' \<le> expiresAt - ck_now ck ?w - ?d"
    using clock [of ?w ?d] by simp
  also have "\<dots> \<le> of_nat n * pollMs"
  proof -
    have "?d = pollMs \<or> expiresAt - ck_now ck ?w \<le> ?d" by (auto simp: remainingMs_def min_def)
    then show ?thesis using le nonneg by linarith
  qed
  finally have "\<exists>r. await_until dead ck pollMs expiresAt ?w' = Some r" by (rule Suc.IH)
  then show ?case by (auto simp: await_until.simps [of dead ck pollMs expiresAt w])
qed

lemma awaitDead_returns:
  assumes "moving_clock ops ck opts" and "0 < pollMs"
  obtains w' b where "awaitDead (death_test ops opts) graceMs pollMs ck w = Some (w', b)"
proof -
  obtain n where "graceMs / pollMs \<le> of_nat n"
    using real_arch_simple [of "graceMs / pollMs"] by blast
  then have "ck_now ck w + graceMs - ck_now ck w \<le> of_nat n * pollMs"
    using assms(2) by (simp add: field_simps)
  then obtain r where "awaitDead (death_test ops opts) graceMs pollMs ck w = Some r"
    using await_until_returns [of ck "death_test ops opts" pollMs "ck_now ck w + graceMs" w n] assms
    by (auto simp: moving_clock_def awaitDead_def)
  then show thesis by (cases r) (auto intro: that)
qed

text \<open>
  The climb ends. With a clock that moves while the ladder sleeps and a positive polling
  interval, \<open>runKillLadder\<close> returns an outcome, whatever the reads and the signals answer and
  however long the target refuses to die.
\<close>

theorem runKillLadder_returns:
  assumes "moving_clock ops ck opts" and "0 < grace 100 (ko_pollMs opts)"
  shows "\<exists>r. runKillLadder ops ck opts w = Some r"
proof -
  have wait: "awaitDead (death_test ops opts) g (grace 100 (ko_pollMs opts)) ck u \<noteq> None" for g u
    using awaitDead_returns [OF assms] by (metis option.discI)
  have kill: "kill_rung ops ck opts u \<noteq> None" for u
    by (simp add: kill_rung_def wait del: not_None_eq split: prod.splits sum.splits option.splits bool.splits)
  have "term_rung ops ck opts u \<noteq> None" for u
    by (simp add: term_rung_def wait kill del: not_None_eq split: prod.splits sum.splits option.splits bool.splits)
  then have "runKillLadder ops ck opts w \<noteq> None"
    by (simp add: runKillLadder_def wait del: not_None_eq split: prod.splits option.splits bool.splits)
  then show ?thesis by blast
qed

section \<open>A world with a log\<close>

text \<open>The newest call is at the head.\<close>

datatype call =
  Read_start int "unit + string option"
| Read_group int "unit + int option"
| Signal_sent int kill_signal delivery

definition logged_ops :: "'w process_ops \<Rightarrow> ('w \<times> call list) process_ops" where
  "logged_ops ops =
     \<lparr>po_startTime = (\<lambda>pid (w, l). case po_startTime ops pid w of (w', r) \<Rightarrow> ((w', Read_start pid r # l), r)),
      po_groupId = (\<lambda>pid (w, l). case po_groupId ops pid w of (w', r) \<Rightarrow> ((w', Read_group pid r # l), r)),
      po_signal = (\<lambda>a s (w, l). case po_signal ops a s w of (w', r) \<Rightarrow> ((w', Signal_sent a s r # l), r))\<rparr>"

definition logged_clock :: "'w clock \<Rightarrow> ('w \<times> call list) clock" where
  "logged_clock ck = \<lparr>ck_now = ck_now ck \<circ> fst, ck_sleep = (\<lambda>d (w, l). (ck_sleep ck d w, l))\<rparr>"

definition logged_opts :: "'w kill_opts \<Rightarrow> ('w \<times> call list) kill_opts" where
  "logged_opts k =
     \<lparr>ko_target = ko_target k, ko_pgid = ko_pgid k,
      ko_abort = map_option (\<lambda>f (w, l). (f w, l)) (ko_abort k),
      ko_dead = map_option (\<lambda>f (w, l). case f w of (w', b) \<Rightarrow> ((w', l), b)) (ko_dead k),
      ko_abortGraceMs = ko_abortGraceMs k, ko_termGraceMs = ko_termGraceMs k,
      ko_killGraceMs = ko_killGraceMs k, ko_pollMs = ko_pollMs k\<rparr>"

definition ladder_log ::
  "'w process_ops \<Rightarrow> 'w clock \<Rightarrow> 'w kill_opts \<Rightarrow> 'w \<Rightarrow> (call list \<times> (kill_error + kill_outcome)) option" where
  "ladder_log ops ck opts w =
     (case runKillLadder (logged_ops ops) (logged_clock ck) (logged_opts opts) (w, []) of
        None \<Rightarrow> None
      | Some ((w', l), r) \<Rightarrow> Some (l, r))"

fun is_signal :: "call \<Rightarrow> bool" where
  "is_signal (Signal_sent a s r) \<longleftrightarrow> True"
| "is_signal _ \<longleftrightarrow> False"

text \<open>What must stand directly below a signal in the log.\<close>

fun guarded :: "proc_id \<Rightarrow> int option \<Rightarrow> call list \<Rightarrow> int \<Rightarrow> bool" where
  "guarded t None (Read_start p r # l) a \<longleftrightarrow>
     a = p_pid t \<and> p = p_pid t \<and> r = Inr (Some (p_started t))"
| "guarded t (Some g) (Read_start p r # Read_group p' r' # Read_start p'' r'' # l) a \<longleftrightarrow>
     0 < g \<and> g = p_pid t \<and> a = - g
     \<and> p = p_pid t \<and> r = Inr (Some (p_started t))
     \<and> p' = p_pid t \<and> r' = Inr (Some g)
     \<and> p'' = p_pid t \<and> r'' = Inr (Some (p_started t))"
| "guarded t _ _ a \<longleftrightarrow> False"

fun well_guarded :: "proc_id \<Rightarrow> int option \<Rightarrow> call list \<Rightarrow> bool" where
  "well_guarded t g [] \<longleftrightarrow> True"
| "well_guarded t g (Signal_sent a s r # l) \<longleftrightarrow> guarded t g l a \<and> well_guarded t g l"
| "well_guarded t g (_ # l) \<longleftrightarrow> well_guarded t g l"

text \<open>Calls that read only.\<close>

definition reads_only :: "call list \<Rightarrow> call list \<Rightarrow> bool" where
  "reads_only l l' \<longleftrightarrow> (\<exists>new. l' = new @ l \<and> \<not> list_ex is_signal new)"

lemma reads_only_refl [simp]: "reads_only l l"
  by (auto simp: reads_only_def)

lemma reads_only_trans: "reads_only l l' \<Longrightarrow> reads_only l' l'' \<Longrightarrow> reads_only l l''"
  by (auto simp: reads_only_def)

lemma reads_only_guarded: "reads_only l l' \<Longrightarrow> well_guarded t g l \<Longrightarrow> well_guarded t g l'"
proof -
  have "\<not> list_ex is_signal new \<Longrightarrow> well_guarded t g l \<Longrightarrow> well_guarded t g (new @ l)" for new
  proof (induction new)
    case (Cons c new)
    then show ?case by (cases c) auto
  qed simp
  then show "reads_only l l' \<Longrightarrow> well_guarded t g l \<Longrightarrow> well_guarded t g l'"
    by (auto simp: reads_only_def)
qed

fun signals_of :: "call list \<Rightarrow> kill_signal list" where
  "signals_of [] = []"
| "signals_of (Signal_sent a s r # l) = signals_of l @ [s]"
| "signals_of (_ # l) = signals_of l"

lemma reads_only_signals: "reads_only l l' \<Longrightarrow> signals_of l' = signals_of l"
proof -
  have "\<not> list_ex is_signal new \<Longrightarrow> signals_of (new @ l) = signals_of l" for new
  proof (induction new)
    case (Cons c new)
    then show ?case by (cases c) auto
  qed simp
  then show "reads_only l l' \<Longrightarrow> signals_of l' = signals_of l" by (auto simp: reads_only_def)
qed

text \<open>A call that shows the recorded process is not there.\<close>

fun shows_gone :: "proc_id \<Rightarrow> call \<Rightarrow> bool" where
  "shows_gone t (Read_start p (Inr s)) \<longleftrightarrow> p = p_pid t \<and> s \<noteq> Some (p_started t)"
| "shows_gone t (Signal_sent a s No_such_process) \<longleftrightarrow> True"
| "shows_gone t _ \<longleftrightarrow> False"

definition gone_evidence :: "proc_id \<Rightarrow> call list \<Rightarrow> bool" where
  "gone_evidence t l \<longleftrightarrow> list_ex (shows_gone t) l"

lemma same_logged:
  assumes "sameIdentity (logged_ops ops) t (w, l) = ((w', l'), r)"
  obtains x where "l' = Read_start (p_pid t) x # l"
    and "r = (case x of Inl e \<Rightarrow> Inl e | Inr s \<Rightarrow> Inr (s = Some (p_started t)))"
  using assms by (auto simp: sameIdentity_def logged_ops_def split: prod.splits sum.splits)

lemma same_logged_reads:
  "sameIdentity (logged_ops ops) t (w, l) = ((w', l'), r) \<Longrightarrow> reads_only l l'"
  by (erule same_logged) (auto simp: reads_only_def)

lemma same_logged_False:
  "sameIdentity (logged_ops ops) t (w, l) = ((w', l'), Inr False) \<Longrightarrow> gone_evidence t l'"
  by (erule same_logged) (auto simp: gone_evidence_def split: sum.splits)

lemma same_logged_True:
  "sameIdentity (logged_ops ops) t (w, l) = ((w', l'), Inr True) \<Longrightarrow>
   l' = Read_start (p_pid t) (Inr (Some (p_started t))) # l"
  by (erule same_logged) (auto split: sum.splits)

lemma confirm_logged:
  assumes "confirmGroup (logged_ops ops) t (Some g) (w, l) = ((w', l'), r)"
  shows "reads_only l l'"
    and "r = Inr k \<Longrightarrow> 0 < g \<and> k = g \<and> g = p_pid t \<and> l' = Read_group (p_pid t) (Inr (Some g)) # l"
    and "r = Inl Gone \<Longrightarrow> gone_evidence t l'"
proof -
  show "reads_only l l'"
    using assms
    by (auto simp: confirmGroup_def logged_ops_def sameIdentity_def reads_only_def
        split: if_splits prod.splits sum.splits option.splits)
  show "r = Inr k \<Longrightarrow> 0 < g \<and> k = g \<and> g = p_pid t \<and> l' = Read_group (p_pid t) (Inr (Some g)) # l"
    using assms
    by (auto simp: confirmGroup_def logged_ops_def sameIdentity_def
        split: if_splits prod.splits sum.splits option.splits)
  show "r = Inl Gone \<Longrightarrow> gone_evidence t l'"
    using assms
    by (auto simp: confirmGroup_def logged_ops_def sameIdentity_def gone_evidence_def
        split: if_splits prod.splits sum.splits option.splits)
qed

lemma deliver_logged:
  assumes "deliver (logged_ops ops) a s (w, l) = ((w', l'), r)"
  obtains d where "l' = Signal_sent a s d # l" and "r = Inr Target_gone \<Longrightarrow> d = No_such_process"
    and "r = Inr Signalled \<Longrightarrow> d = Delivered"
  using assms by (auto simp: deliver_def logged_ops_def split: prod.splits delivery.splits)

text \<open>What one guarded signal does to the log.\<close>

lemma signal_logged:
  assumes "signalIfSame (logged_ops ops) t sig pgid (w, l) = ((w', l'), r)"
  shows "well_guarded t pgid l \<Longrightarrow> well_guarded t pgid l'"
    and "signals_of l' = signals_of l \<or> signals_of l' = signals_of l @ [sig]"
    and "r = Inr Signalled \<Longrightarrow> signals_of l' = signals_of l @ [sig]"
    and "r = Inr Target_gone \<Longrightarrow> gone_evidence t l'"
proof -
  obtain w1 l1 s where s: "sameIdentity (logged_ops ops) t (w, l) = ((w1, l1), s)"
    by (metis surj_pair)
  note ro1 = same_logged_reads [OF s]
  have "(well_guarded t pgid l \<longrightarrow> well_guarded t pgid l')
    \<and> (signals_of l' = signals_of l \<or> signals_of l' = signals_of l @ [sig])
    \<and> (r = Inr Signalled \<longrightarrow> signals_of l' = signals_of l @ [sig])
    \<and> (r = Inr Target_gone \<longrightarrow> gone_evidence t l')"
  proof (cases "s = Inr True")
    case False
    then have "l' = l1" "r = Inr Target_gone \<longrightarrow> s = Inr False" "r \<noteq> Inr Signalled"
      using assms s by (auto simp: signalIfSame_def split: sum.splits bool.splits)
    then show ?thesis
      using ro1 reads_only_guarded [OF ro1] reads_only_signals [OF ro1]
        same_logged_False [of ops t w l w1 l1] s by auto
  next
    case True
    then have l1: "l1 = Read_start (p_pid t) (Inr (Some (p_started t))) # l"
      using same_logged_True [of ops t w l w1 l1] s True by simp
    show ?thesis
    proof (cases pgid)
      case None
      then have "deliver (logged_ops ops) (p_pid t) sig (w1, l1) = ((w', l'), r)"
        using assms s True by (simp add: signalIfSame_def)
      then show ?thesis
        by (rule deliver_logged) (auto simp: l1 None gone_evidence_def)
    next
      case (Some g)
      obtain w2 l2 c where c: "confirmGroup (logged_ops ops) t (Some g) (w1, l1) = ((w2, l2), c)"
        by (metis surj_pair)
      note ro2 = reads_only_trans [OF ro1 confirm_logged(1) [OF c]]
      show ?thesis
      proof (cases c)
        case (Inl why)
        then have "l' = l2" "r = Inr Target_gone \<longrightarrow> why = Gone" "r \<noteq> Inr Signalled"
          using assms s True Some c by (auto simp: signalIfSame_def split: if_splits)
        then show ?thesis
          using reads_only_guarded [OF ro2] reads_only_signals [OF ro2] confirm_logged(3) [OF c] Inl
          by auto
      next
        case (Inr k)
        have k: "0 < g" "k = g" "g = p_pid t" "l2 = Read_group (p_pid t) (Inr (Some g)) # l1"
          using confirm_logged(2) [OF c Inr] by simp_all
        obtain w3 l3 s' where s': "sameIdentity (logged_ops ops) t (w2, l2) = ((w3, l3), s')"
          by (metis surj_pair)
        note ro3 = reads_only_trans [OF ro2 same_logged_reads [OF s']]
        show ?thesis
        proof (cases "s' = Inr True")
          case False
          then have "l' = l3" "r = Inr Target_gone \<longrightarrow> s' = Inr False" "r \<noteq> Inr Signalled"
            using assms s True Some c Inr s'
            by (auto simp: signalIfSame_def split: sum.splits bool.splits)
          then show ?thesis
            using reads_only_guarded [OF ro3] reads_only_signals [OF ro3]
              same_logged_False [of ops t w2 l2 w3 l3] s' by auto
        next
          case True
          then have l3: "l3 = Read_start (p_pid t) (Inr (Some (p_started t))) # l2"
            using same_logged_True [of ops t w2 l2 w3 l3] s' True by simp
          have "deliver (logged_ops ops) (- k) sig (w3, l3) = ((w', l'), r)"
            using assms s \<open>s = Inr True\<close> Some c Inr s' True by (simp add: signalIfSame_def)
          then show ?thesis
            by (rule deliver_logged)
              (use k(1-3) in \<open>auto simp: l3 l1 k(4) Some gone_evidence_def\<close>)
        qed
      qed
    qed
  qed
  then show "well_guarded t pgid l \<Longrightarrow> well_guarded t pgid l'"
    and "signals_of l' = signals_of l \<or> signals_of l' = signals_of l @ [sig]"
    and "r = Inr Signalled \<Longrightarrow> signals_of l' = signals_of l @ [sig]"
    and "r = Inr Target_gone \<Longrightarrow> gone_evidence t l'" by blast+
qed

section \<open>The log of a climb\<close>

lemma gone_evidence_append: "gone_evidence t l \<Longrightarrow> gone_evidence t (new @ l)"
  by (simp add: gone_evidence_def)

lemma holds_logged:
  assumes "identityHolds (logged_ops ops) t (w, l) = ((w', l'), h)"
  shows "reads_only l l'" and "h = Some False \<Longrightarrow> gone_evidence t l'"
proof -
  obtain s where s: "sameIdentity (logged_ops ops) t (w, l) = ((w', l'), s)"
    and h: "h = (case s of Inl _ \<Rightarrow> None | Inr b \<Rightarrow> Some b)"
    using assms by (auto simp: identityHolds_def split: prod.splits sum.splits)
  show "reads_only l l'" by (rule same_logged_reads [OF s])
  show "h = Some False \<Longrightarrow> gone_evidence t l'"
    using s h same_logged_False [of ops t w l w' l'] by (auto split: sum.splits)
qed

lemma death_logged:
  assumes "death_test (logged_ops ops) (logged_opts opts) (w, l) = ((w', l'), b)"
  shows "reads_only l l'" and "b \<Longrightarrow> ko_dead opts = None \<Longrightarrow> gone_evidence (ko_target opts) l'"
proof -
  have "reads_only l l' \<and> (b \<longrightarrow> ko_dead opts = None \<longrightarrow> gone_evidence (ko_target opts) l')"
  proof (cases "ko_dead opts")
    case None
    obtain h where "identityHolds (logged_ops ops) (ko_target opts) (w, l) = ((w', l'), h)" "b = (h = Some False)"
      using assms None
      by (auto simp: death_test_def logged_opts_def Let_def split: prod.splits)
    then show ?thesis using holds_logged [of ops "ko_target opts" w l w' l' h] by simp
  next
    case (Some dead)
    then show ?thesis
      using assms by (auto simp: death_test_def logged_opts_def split: prod.splits)
  qed
  then show "reads_only l l'" "b \<Longrightarrow> ko_dead opts = None \<Longrightarrow> gone_evidence (ko_target opts) l'" by auto
qed

lemma await_until_inv:
  assumes run: "await_until dead ck pollMs e w = Some r" and "I w"
    and dead: "\<And>w. I w \<Longrightarrow> I (fst (dead w)) \<and> (snd (dead w) \<longrightarrow> Q (fst (dead w)))"
    and sleep: "\<And>d w. I w \<Longrightarrow> I (ck_sleep ck d w)"
  shows "I (fst r) \<and> (snd r \<longrightarrow> Q (fst r))"
proof -
  define P where "P dead' ck' (pollMs' :: rat) (e' :: rat) w r \<longleftrightarrow>
      (dead' = dead \<longrightarrow> ck' = ck \<longrightarrow> I w \<longrightarrow> I (fst r) \<and> (snd r \<longrightarrow> Q (fst r)))"
    for dead' :: "'a \<Rightarrow> 'a \<times> bool" and ck' :: "'a clock" and pollMs' e' w r
  have "P dead ck pollMs e w r"
  proof (rule await_until.raw_induct [where P = P, OF _ run], goal_cases)
    case (1 rec dead' ck' pollMs' e' w' r')
    show ?case
      unfolding P_def
    proof (intro impI)
      assume eq: "dead' = dead" "ck' = ck" and "I w'"
      have d: "I (fst (dead w'))" "snd (dead w') \<longrightarrow> Q (fst (dead w'))"
        using dead [OF \<open>I w'\<close>] by auto
      show "I (fst r') \<and> (snd r' \<longrightarrow> Q (fst r'))"
      proof (cases "snd (dead w') \<or> remainingMs ck e' (fst (dead w')) = 0")
        case True
        then show ?thesis using 1(2) d by (auto simp: eq split: if_splits)
      next
        case False
        let ?w = "ck_sleep ck (min pollMs' (remainingMs ck e' (fst (dead w')))) (fst (dead w'))"
        have "rec dead ck pollMs' e' ?w = Some r'" using 1(2) False by (simp add: eq)
        from 1(1) [OF this] show ?thesis using sleep d(1) by (auto simp: P_def)
      qed
    qed
  qed
  then show ?thesis using \<open>I w\<close> by (simp add: P_def)
qed

lemma await_logged:
  assumes "await_until (death_test (logged_ops ops) (logged_opts opts)) (logged_clock ck) pollMs e (w, l) =
      Some ((w', l'), b)"
  shows "reads_only l l' \<and> (b \<longrightarrow> ko_dead opts = None \<longrightarrow> gone_evidence (ko_target opts) l')"
proof -
  let ?d = "death_test (logged_ops ops) (logged_opts opts)"
  have step: "reads_only l (snd (fst (?d x))) \<and>
      (snd (?d x) \<longrightarrow> ko_dead opts = None \<longrightarrow> gone_evidence (ko_target opts) (snd (fst (?d x))))"
    if "reads_only l (snd x)" for x
  proof -
    obtain v k u m c where x: "x = (v, k)" "?d (v, k) = ((u, m), c)" by (metis prod.collapse)
    show ?thesis using death_logged [OF x(2)] that x reads_only_trans [of l k m] by auto
  qed
  from await_until_inv [where I = "\<lambda>x. reads_only l (snd x)"
      and Q = "\<lambda>x. ko_dead opts = None \<longrightarrow> gone_evidence (ko_target opts) (snd x)", OF assms]
  show ?thesis using step by (auto simp: logged_clock_def)
qed

lemma awaitDead_logged:
  assumes "awaitDead (death_test (logged_ops ops) (logged_opts opts)) g p (logged_clock ck) (w, l) =
      Some ((w', l'), b)"
  shows "reads_only l l'" and "b \<Longrightarrow> ko_dead opts = None \<Longrightarrow> gone_evidence (ko_target opts) l'"
  using await_logged [OF assms [unfolded awaitDead_def]] by auto

text \<open>What a log and an outcome of a whole climb satisfy.\<close>

definition claims_gone :: "kill_error + kill_outcome \<Rightarrow> bool" where
  "claims_gone r \<longleftrightarrow>
     r \<in> {Inr Kill_aborted, Inr Kill_terminated, Inr Kill_killed, Inr Kill_already_gone}"

definition climb_ok :: "'w kill_opts \<Rightarrow> call list \<Rightarrow> kill_error + kill_outcome \<Rightarrow> bool" where
  "climb_ok opts l r \<longleftrightarrow>
     well_guarded (ko_target opts) (ko_pgid opts) l
     \<and> prefix (signals_of l) [SIGTERM, SIGKILL]
     \<and> (r = Inr Kill_killed \<longrightarrow> signals_of l = [SIGTERM, SIGKILL])
     \<and> (claims_gone r \<longrightarrow> ko_dead opts = None \<longrightarrow> gone_evidence (ko_target opts) l)"

lemma logged_opts_fields [simp]:
  "ko_target (logged_opts opts) = ko_target opts" "ko_pgid (logged_opts opts) = ko_pgid opts"
  "ko_killGraceMs (logged_opts opts) = ko_killGraceMs opts"
  "ko_termGraceMs (logged_opts opts) = ko_termGraceMs opts"
  "ko_abortGraceMs (logged_opts opts) = ko_abortGraceMs opts"
  "ko_pollMs (logged_opts opts) = ko_pollMs opts"
  by (simp_all add: logged_opts_def)

lemma climb_ok_reads:
  assumes "well_guarded (ko_target opts) (ko_pgid opts) l" and "reads_only l l'"
    and "prefix (signals_of l) [SIGTERM, SIGKILL]"
    and "r = Inr Kill_killed \<Longrightarrow> signals_of l = [SIGTERM, SIGKILL]"
    and "claims_gone r \<Longrightarrow> ko_dead opts = None \<Longrightarrow> gone_evidence (ko_target opts) l'"
  shows "climb_ok opts l' r"
  using assms reads_only_guarded [OF assms(2)] reads_only_signals [OF assms(2)]
  by (auto simp: climb_ok_def)

lemma refusal_cases:
  "refusal out g = Some r \<Longrightarrow>
   (out = Target_gone \<and> r = g) \<or> (out \<noteq> Target_gone \<and> \<not> claims_gone (Inr r) \<and> r \<noteq> Kill_killed)"
  by (cases out) (auto simp: refusal_def claims_gone_def)

lemma refusal_None: "refusal out g = None \<longleftrightarrow> out = Signalled"
  by (cases out) (auto simp: refusal_def)

lemma kill_rung_ok:
  assumes run: "kill_rung (logged_ops ops) (logged_clock ck) (logged_opts opts) (w, l) = Some ((w', l'), r)"
    and l: "well_guarded (ko_target opts) (ko_pgid opts) l" "signals_of l = [SIGTERM]"
  shows "climb_ok opts l' r"
proof -
  obtain w1 l1 s where s: "signalIfSame (logged_ops ops) (ko_target opts) SIGKILL (ko_pgid opts) (w, l) = ((w1, l1), s)"
    by (metis surj_pair)
  note sig = signal_logged [OF s]
  have g1: "well_guarded (ko_target opts) (ko_pgid opts) l1" using sig(1) l(1) .
  have p1: "prefix (signals_of l1) [SIGTERM, SIGKILL]" using sig(2) l(2) by auto
  show ?thesis
  proof (cases "\<exists>out. s = Inr out \<and> refusal out Kill_terminated = None")
    case False
    then have "l' = l1"
      and r: "(\<exists>e. r = Inl e) \<or> (\<exists>out k. s = Inr out \<and> r = Inr k \<and> refusal out Kill_terminated = Some k)"
      using run s by (auto simp: kill_rung_def split: sum.splits option.splits)
    have "claims_gone r \<Longrightarrow> gone_evidence (ko_target opts) l1" and "r \<noteq> Inr Kill_killed"
      using r sig(4) refusal_cases by (force simp: claims_gone_def)+
    then show ?thesis using g1 p1 \<open>l' = l1\<close> by (intro climb_ok_reads [of _ l1]) auto
  next
    case True
    then have "s = Inr Signalled" by (auto simp: refusal_None)
    then have p: "signals_of l1 = [SIGTERM, SIGKILL]" using sig(3) l(2) by simp
    obtain w2 l2 b where a: "awaitDead (death_test (logged_ops ops) (logged_opts opts))
        (grace 2000 (ko_killGraceMs opts)) (grace 100 (ko_pollMs opts)) (logged_clock ck) (w1, l1) =
        Some ((w2, l2), b)"
      using run s \<open>s = Inr Signalled\<close>
      by (auto simp: kill_rung_def refusal_def split: option.splits)
    note wait = awaitDead_logged [OF a]
    obtain w3 l3 h where h: "identityHolds (logged_ops ops) (ko_target opts) (w2, l2) = ((w3, l3), h)"
      by (metis surj_pair)
    show ?thesis
    proof (cases b)
      case True
      then have "l' = l2" "r = Inr Kill_killed"
        using run s a \<open>s = Inr Signalled\<close> by (auto simp: kill_rung_def refusal_def)
      then show ?thesis using g1 p wait True by (intro climb_ok_reads [of _ l1]) auto
    next
      case False
      then have "l' = l3" "r = Inr Kill_killed \<or> claims_gone r \<longrightarrow> h = Some False"
        using run s a h \<open>s = Inr Signalled\<close>
        by (auto simp: kill_rung_def refusal_def claims_gone_def split: option.splits bool.splits)
      then show ?thesis
        using g1 p reads_only_trans [OF wait(1) holds_logged(1) [OF h]] holds_logged(2) [OF h]
        by (intro climb_ok_reads [of _ l1]) auto
    qed
  qed
qed

lemma term_rung_ok:
  assumes run: "term_rung (logged_ops ops) (logged_clock ck) (logged_opts opts) (w, l) = Some ((w', l'), r)"
    and l: "well_guarded (ko_target opts) (ko_pgid opts) l" "signals_of l = []"
  shows "climb_ok opts l' r"
proof -
  define gone where "gone = (if ko_abort (logged_opts opts) \<noteq> None then Kill_aborted else Kill_already_gone)"
  obtain w1 l1 s where s: "signalIfSame (logged_ops ops) (ko_target opts) SIGTERM (ko_pgid opts) (w, l) = ((w1, l1), s)"
    by (metis surj_pair)
  note sig = signal_logged [OF s]
  have g1: "well_guarded (ko_target opts) (ko_pgid opts) l1" using sig(1) l(1) .
  have p1: "prefix (signals_of l1) [SIGTERM, SIGKILL]" using sig(2) l(2) by auto
  show ?thesis
  proof (cases "\<exists>out. s = Inr out \<and> refusal out gone = None")
    case False
    then have "l' = l1"
      and r: "(\<exists>e. r = Inl e) \<or> (\<exists>out k. s = Inr out \<and> r = Inr k \<and> refusal out gone = Some k)"
      using run s unfolding term_rung_def gone_def [symmetric]
      by (auto split: sum.splits option.splits)
    have "claims_gone r \<Longrightarrow> gone_evidence (ko_target opts) l1"
      using r sig(4) refusal_cases by (force simp: claims_gone_def)
    moreover have "r \<noteq> Inr Kill_killed"
      using r refusal_cases by (force simp: gone_def split: if_splits)
    ultimately show ?thesis using g1 p1 \<open>l' = l1\<close> by (intro climb_ok_reads [of _ l1]) auto
  next
    case True
    then have sg: "s = Inr Signalled" by (auto simp: refusal_None)
    then have p: "signals_of l1 = [SIGTERM]" using sig(3) l(2) by simp
    obtain w2 l2 b where a: "awaitDead (death_test (logged_ops ops) (logged_opts opts))
        (grace 5000 (ko_termGraceMs opts)) (grace 100 (ko_pollMs opts)) (logged_clock ck) (w1, l1) =
        Some ((w2, l2), b)"
      using run s sg by (auto simp: term_rung_def refusal_def split: option.splits)
    note wait = awaitDead_logged [OF a]
    obtain w3 l3 h where h: "identityHolds (logged_ops ops) (ko_target opts) (w2, l2) = ((w3, l3), h)"
      by (metis surj_pair)
    note reads = reads_only_trans [OF wait(1) holds_logged(1) [OF h]]
    show ?thesis
    proof (cases "\<not> b \<and> h = Some True")
      case True
      then have "kill_rung (logged_ops ops) (logged_clock ck) (logged_opts opts) (w3, l3) = Some ((w', l'), r)"
        using run s a h sg by (simp add: term_rung_def refusal_def)
      then show ?thesis
        using reads_only_guarded [OF reads g1] reads_only_signals [OF reads] p
        by (intro kill_rung_ok) auto
    next
      case False
      then have "(b \<and> l' = l2 \<or> l' = l3 \<and> (claims_gone r \<longrightarrow> h = Some False)) \<and> r \<noteq> Inr Kill_killed"
        using run s a h sg
        by (auto simp: term_rung_def refusal_def claims_gone_def split: option.splits bool.splits)
      then show ?thesis
        using g1 p wait reads holds_logged(2) [OF h]
        by (elim conjE disjE) (intro climb_ok_reads [of _ l1]; auto)+
    qed
  qed
qed

lemma ladder_ok:
  assumes "ladder_log ops ck opts w = Some (l, r)"
  shows "climb_ok opts l r"
proof -
  obtain w' where run: "runKillLadder (logged_ops ops) (logged_clock ck) (logged_opts opts) (w, []) = Some ((w', l), r)"
    using assms by (auto simp: ladder_log_def split: option.splits)
  obtain w1 l1 h where h: "identityHolds (logged_ops ops) (ko_target opts) (w, []) = ((w1, l1), h)"
    by (metis surj_pair)
  note reads = holds_logged [OF h]
  have start: "well_guarded (ko_target opts) (ko_pgid opts) l1" "signals_of l1 = []"
    using reads_only_guarded [OF reads(1)] reads_only_signals [OF reads(1)] by simp_all
  show ?thesis
  proof (cases "h = Some True")
    case False
    then have "l = l1" "r \<noteq> Inr Kill_killed" "claims_gone r \<longrightarrow> h = Some False"
      using run h by (auto simp: runKillLadder_def claims_gone_def split: option.splits bool.splits)
    then show ?thesis using start reads by (intro climb_ok_reads [of _ l1]) auto
  next
    case True
    show ?thesis
    proof (cases "ko_abort opts")
      case None
      then have "term_rung (logged_ops ops) (logged_clock ck) (logged_opts opts) (w1, l1) = Some ((w', l), r)"
        using run h True by (simp add: runKillLadder_def logged_opts_def)
      then show ?thesis using start by (intro term_rung_ok) auto
    next
      case (Some f)
      then obtain w2 l2 b where a: "awaitDead (death_test (logged_ops ops) (logged_opts opts))
          (grace 5000 (ko_abortGraceMs opts)) (grace 100 (ko_pollMs opts)) (logged_clock ck) (f w1, l1) =
          Some ((w2, l2), b)"
        using run h True by (auto simp: runKillLadder_def logged_opts_def split: option.splits)
      note wait = awaitDead_logged [OF a]
      show ?thesis
      proof (cases b)
        case True
        then have "l = l2" "r = Inr Kill_aborted"
          using run h a Some \<open>h = Some True\<close> by (auto simp: runKillLadder_def logged_opts_def)
        then show ?thesis using start wait True by (intro climb_ok_reads [of _ l1]) auto
      next
        case False
        then have "term_rung (logged_ops ops) (logged_clock ck) (logged_opts opts) (w2, l2) = Some ((w', l), r)"
          using run h a Some True by (simp add: runKillLadder_def logged_opts_def)
        then show ?thesis
          using reads_only_guarded [OF wait(1)] reads_only_signals [OF wait(1)] start
          by (intro term_rung_ok) auto
      qed
    qed
  qed
qed

section \<open>What a climb guarantees\<close>

text \<open>
  C5: no signal goes astray. In the log of a climb, whatever the operating system answers, every
  signal is sent right after a read of the start time that matched the recorded process; without
  a recorded group it goes to that process; with one it goes to the negative of the group, which
  is positive, is led by the process itself, and was read from the system between two matching
  reads of the start time.
\<close>

theorem signals_guarded:
  assumes "ladder_log ops ck opts w = Some (l, r)"
  shows "well_guarded (ko_target opts) (ko_pgid opts) l"
  using ladder_ok [OF assms] by (simp add: climb_ok_def)

text \<open>
  The climb has an order. It tries at most two signals, SIGTERM and then SIGKILL, and the
  outcome \<open>killed\<close> is answered only when both were sent.
\<close>

theorem signals_escalate:
  assumes "ladder_log ops ck opts w = Some (l, r)"
  shows "prefix (signals_of l) [SIGTERM, SIGKILL]
    \<and> (r = Inr Kill_killed \<longrightarrow> signals_of l = [SIGTERM, SIGKILL])"
  using ladder_ok [OF assms] by (simp add: climb_ok_def)

text \<open>
  Death is never assumed. When the caller brings no test of its own, an outcome that means
  the target is gone (aborted, terminated, killed, already gone) rests on a call of the log that
  showed it: a start time that was read and was not the recorded one, or a signal that found no
  process. A read that failed never counts.
\<close>

theorem gone_needs_evidence:
  assumes "ladder_log ops ck opts w = Some (l, r)" and "ko_dead opts = None" and "claims_gone r"
  shows "\<exists>c \<in> set l. shows_gone (ko_target opts) c"
  using ladder_ok [OF assms(1)] assms(2,3) by (auto simp: climb_ok_def gone_evidence_def list_ex_iff)

section \<open>A concrete world\<close>

text \<open>The world is a clock and whether the process, 42, is alive; it heeds SIGKILL only.\<close>

definition stubborn_ops :: "(rat \<times> bool) process_ops" where
  "stubborn_ops =
     \<lparr>po_startTime = (\<lambda>pid (t, alive). ((t, alive), Inr (if alive \<and> pid = 42 then Some ''boot'' else None))),
      po_groupId = (\<lambda>pid (t, alive). ((t, alive), Inr (if alive \<and> pid = 42 then Some 42 else None))),
      po_signal = (\<lambda>a s (t, alive). ((t, alive \<and> s \<noteq> SIGKILL), if alive then Delivered else No_such_process))\<rparr>"

definition ticking_clock :: "(rat \<times> bool) clock" where
  "ticking_clock = \<lparr>ck_now = fst, ck_sleep = (\<lambda>d (t, alive). (t + d, alive))\<rparr>"

definition stubborn_opts :: "(rat \<times> bool) kill_opts" where
  "stubborn_opts = \<lparr>ko_target = \<lparr>p_pid = 42, p_started = ''boot''\<rparr>, ko_pgid = Some 42, ko_abort = None,
     ko_dead = None, ko_abortGraceMs = None, ko_termGraceMs = Some 2, ko_killGraceMs = None,
     ko_pollMs = Some 1\<rparr>"

lemma stubborn_moving: "moving_clock stubborn_ops ticking_clock stubborn_opts"
  by (auto simp: moving_clock_def ticking_clock_def death_test_def stubborn_opts_def stubborn_ops_def
      identityHolds_def sameIdentity_def)

theorem runKillLadder_returns_witness:
  "\<exists>r. runKillLadder stubborn_ops ticking_clock stubborn_opts (0, True) = Some r"
  by (rule runKillLadder_returns [OF stubborn_moving]) (simp add: stubborn_opts_def grace_def)

lemma stubborn_log:
  obtains l where "ladder_log stubborn_ops ticking_clock stubborn_opts (0, True) = Some (l, Inr Kill_killed)"
    and "signals_of l = [SIGTERM, SIGKILL]"
  by (simp add: ladder_log_def runKillLadder_def term_rung_def kill_rung_def signalIfSame_def
      confirmGroup_def deliver_def identityHolds_def sameIdentity_def awaitDead_def
      await_until.simps death_test_def remainingMs_def refusal_def grace_def
      logged_ops_def logged_clock_def logged_opts_def stubborn_ops_def stubborn_opts_def
      ticking_clock_def Let_def)

theorem signals_guarded_witness:
  "\<exists>l. ladder_log stubborn_ops ticking_clock stubborn_opts (0, True) = Some (l, Inr Kill_killed)
     \<and> well_guarded (ko_target stubborn_opts) (ko_pgid stubborn_opts) l"
  using stubborn_log signals_guarded by metis

theorem signals_escalate_witness:
  "\<exists>l. ladder_log stubborn_ops ticking_clock stubborn_opts (0, True) = Some (l, Inr Kill_killed)
     \<and> signals_of l = [SIGTERM, SIGKILL]"
proof -
  obtain l where l: "ladder_log stubborn_ops ticking_clock stubborn_opts (0, True) = Some (l, Inr Kill_killed)"
    by (rule stubborn_log)
  from signals_escalate [OF l] l show ?thesis by blast
qed

theorem gone_needs_evidence_witness:
  "\<exists>l. ladder_log stubborn_ops ticking_clock stubborn_opts (0, True) = Some (l, Inr Kill_killed)
     \<and> (\<exists>c \<in> set l. shows_gone (ko_target stubborn_opts) c)"
proof -
  obtain l where l: "ladder_log stubborn_ops ticking_clock stubborn_opts (0, True) = Some (l, Inr Kill_killed)"
    by (rule stubborn_log)
  have "ko_dead stubborn_opts = None" by (simp add: stubborn_opts_def)
  from gone_needs_evidence [OF l this] l show ?thesis by (auto simp: claims_gone_def)
qed

end
