(* ===== verification/Adjudicate.thy ===== *)
theory Adjudicate
  imports Verdicts
begin

text \<open>
  The adjudicator of a harvest, \<open>src/harvest/adjudicate.ts\<close>, with the ceilings it consults from
  \<open>collation-census.ts\<close> and \<open>resolution-surface.ts\<close>: derived facts and a worker's claim in, a
  verdict, its reasons and the discrepancies out. A reason is a value carrying what the text
  quotes. The digest of the facts (SHA-256 of a canonical JSON text) is a parameter.
\<close>

section \<open>Facts and claims\<close>

datatype acceptance_outcome = Passed | Acc_failed | Acc_timed_out | Not_run

record acceptance_run =
  ar_cmd :: string
  ar_outcome :: acceptance_outcome
  ar_exit_code :: "int option"

datatype surface_tier = Dependency | Toolchain | Executes

record graded_hit =
  gh_file :: string
  gh_tier :: surface_tier
  gh_why :: string

record harness_surface =
  hs_patterns :: "string list"
  hs_touched :: "string list"
  hs_defaults_missed :: "string list"
  hs_graded :: "graded_hit list"
  hs_graded_runners :: "string list"
  hs_graded_unresolved :: "string list"

record collation_census =
  cc_readable :: bool
  cc_counted :: int
  cc_located :: int
  cc_defects :: "string list"

record derived_facts =
  df_repository :: bool
  df_base_is_ancestor :: bool
  df_commits :: "string list"
  df_files_changed :: "string list"
  df_diff_bytes :: int
  df_acceptance :: "acceptance_run list"
  df_harness :: harness_surface
  df_collation :: "collation_census option"
  df_tree_hash_quiesce :: "string option"
  df_tree_hash_harvest :: "string option"

record result_envelope =
  re_status :: verdict
  re_files_changed :: "string list"
  re_commits :: "string list"

datatype reason =
  Tree_moved string string
| Base_rewritten
| No_acceptance
| Acceptance_failed "(string \<times> int option) list"
| Acceptance_inconclusive "(string \<times> acceptance_outcome) list"
| Acceptance_passed nat
| No_envelope
| Files_disagree
| Empty_but_accepted
| Empty_success
| Claim_adopted verdict
| Claim_downgraded verdict verdict
| Census_capped int int "string list"
| Harness_touched "string list"
| Graded_capped surface_tier "string list" "(string \<times> string) list" verdict
| Acceptance_unfinished "(string \<times> acceptance_outcome) list"

datatype discrepancy =
  Claimed_not_touched string
| Touched_not_claimed string
| Claimed_commit_missing string
| Surface_unresolved "string list"
| Defaults_missed "string list" "string list"

record adjudication =
  ad_verdict :: verdict
  ad_reasons :: "reason list"
  ad_discrepancies :: "discrepancy list"
  ad_facts_hash :: string

section \<open>Evidence and ceilings\<close>

definition with_outcome :: "acceptance_outcome set \<Rightarrow> acceptance_run list \<Rightarrow> acceptance_run list" where
  "with_outcome outs runs = filter (\<lambda>r. ar_outcome r \<in> outs) runs"

definition acceptanceEvidence :: "acceptance_run list \<Rightarrow> verdict \<times> reason list" where
  "acceptanceEvidence runs =
     (if runs = [] then (Unknown, [No_acceptance])
      else
        let failed = with_outcome {Acc_failed} runs;
            inconclusive = with_outcome {Acc_timed_out, Not_run} runs
        in if failed \<noteq> []
           then (Failed, [Acceptance_failed (map (\<lambda>r. (ar_cmd r, ar_exit_code r)) failed)])
           else if inconclusive \<noteq> []
           then (Unknown, [Acceptance_inconclusive (map (\<lambda>r. (ar_cmd r, ar_outcome r)) inconclusive)])
           else (Success, [Acceptance_passed (length runs)]))"

definition TIER_ORDER :: "surface_tier list" where
  "TIER_ORDER = [Dependency, Toolchain, Executes]"

definition tierRank :: "surface_tier \<Rightarrow> int" where
  "tierRank t = index_of TIER_ORDER t"

definition strictestTier :: "surface_tier \<Rightarrow> surface_tier \<Rightarrow> surface_tier" where
  "strictestTier a b = (if tierRank a \<ge> tierRank b then a else b)"

definition capFor :: "surface_tier \<Rightarrow> verdict" where
  "capFor t = (if t = Dependency then Partial else Unknown)"

definition peakTier :: "graded_hit list \<Rightarrow> surface_tier option" where
  "peakTier hits =
     foldl (\<lambda>peak h. case peak of None \<Rightarrow> Some (gh_tier h)
                     | Some p \<Rightarrow> Some (strictestTier p (gh_tier h))) None hits"

definition censusCeiling :: "collation_census option \<Rightarrow> verdict option \<Rightarrow> (verdict \<times> reason) option" where
  "censusCeiling census claimedStatus =
     (case census of
        None \<Rightarrow> None
      | Some c \<Rightarrow>
          if \<not> cc_readable c then None
          else if claimedStatus \<noteq> Some Success then None
          else if cc_counted c = 0 \<or> cc_located c = cc_counted c then None
          else Some (Partial, Census_capped (cc_counted c - cc_located c) (cc_counted c) (cc_defects c)))"

section \<open>The steps of \<open>adjudicate\<close>\<close>

text \<open>A \<open>Set\<close> keeps the first occurrence of each element.\<close>

definition first_occurrences :: "'a list \<Rightarrow> 'a list" where
  "first_occurrences xs = rev (remdups (rev xs))"

definition emptyDiff :: "derived_facts \<Rightarrow> bool" where
  "emptyDiff f \<longleftrightarrow> df_files_changed f = [] \<and> df_commits f = [] \<and> df_diff_bytes f = 0"

text \<open>The verdict so far, the reasons and the discrepancies.\<close>

type_synonym grading = "verdict \<times> reason list \<times> discrepancy list"

text \<open>The two refusals to grade, before any evidence is weighed.\<close>

definition untrusted :: "derived_facts \<Rightarrow> reason option" where
  "untrusted f =
     (case (df_tree_hash_quiesce f, df_tree_hash_harvest f) of
        (Some q, Some h) \<Rightarrow>
          if q \<noteq> h then Some (Tree_moved q h)
          else if df_repository f \<and> \<not> df_base_is_ancestor f then Some Base_rewritten else None
      | _ \<Rightarrow> if df_repository f \<and> \<not> df_base_is_ancestor f then Some Base_rewritten else None)"

definition file_discrepancies :: "derived_facts \<Rightarrow> result_envelope \<Rightarrow> discrepancy list" where
  "file_discrepancies f c =
     map Claimed_not_touched
       (filter (\<lambda>p. p \<notin> set (df_files_changed f)) (first_occurrences (re_files_changed c)))
     @ map Touched_not_claimed
       (filter (\<lambda>p. p \<notin> set (re_files_changed c)) (first_occurrences (df_files_changed f)))"

definition weigh_claim :: "derived_facts \<Rightarrow> result_envelope option \<Rightarrow> grading \<Rightarrow> grading" where
  "weigh_claim f claimed = (\<lambda>(derived, reasons, discrepancies).
     (case claimed of
        None \<Rightarrow> (derived, reasons @ [No_envelope], discrepancies)
      | Some c \<Rightarrow>
          let files = file_discrepancies f c;
              commits = map Claimed_commit_missing
                (filter (\<lambda>x. x \<notin> set (df_commits f)) (re_commits c));
              derived1 = (if files \<noteq> [] then Failed else derived);
              reasons1 = reasons @ (if files \<noteq> [] then [Files_disagree] else []);
              discrepancies1 = discrepancies @ files @ commits
          in if df_repository f \<and> re_status c = Success \<and> emptyDiff f
             then if fst (acceptanceEvidence (df_acceptance f)) = Success
                  then (derived1, reasons1 @ [Empty_but_accepted], discrepancies1)
                  else (Failed, reasons1 @ [Empty_success], discrepancies1)
             else (derived1, reasons1, discrepancies1)))"

definition combine_claim :: "result_envelope option \<Rightarrow> grading \<Rightarrow> grading" where
  "combine_claim claimed = (\<lambda>(derived, reasons, discrepancies).
     (let v = latticeCombine derived (map_option re_status claimed)
      in (v,
          reasons @
            (case claimed of
               None \<Rightarrow> []
             | Some c \<Rightarrow>
                 if v = derived then []
                 else if derived = Unknown then [Claim_adopted (re_status c)]
                 else [Claim_downgraded (re_status c) derived]),
          discrepancies)))"

definition lower_to :: "verdict \<Rightarrow> verdict \<Rightarrow> verdict" where
  "lower_to ceil v = (if rank v > rank ceil then ceil else v)"

definition refuse_above_blocked :: "verdict \<Rightarrow> verdict" where
  "refuse_above_blocked v = (if rank v > rank Blocked then Unknown else v)"

definition census_cap :: "derived_facts \<Rightarrow> result_envelope option \<Rightarrow> grading \<Rightarrow> grading" where
  "census_cap f claimed = (\<lambda>(v, reasons, discrepancies).
     (case censusCeiling (df_collation f) (map_option re_status claimed) of
        None \<Rightarrow> (v, reasons, discrepancies)
      | Some (ceil, why) \<Rightarrow> (lower_to ceil v, reasons @ [why], discrepancies)))"

definition harness_cap :: "derived_facts \<Rightarrow> grading \<Rightarrow> grading" where
  "harness_cap f = (\<lambda>(v, reasons, discrepancies).
     (let touched = hs_touched (df_harness f)
      in if touched = [] then (v, reasons, discrepancies)
         else (refuse_above_blocked v, reasons @ [Harness_touched touched], discrepancies)))"

definition graded_cap :: "derived_facts \<Rightarrow> grading \<Rightarrow> grading" where
  "graded_cap f = (\<lambda>(v, reasons, discrepancies).
     (let h = df_harness f
      in case peakTier (hs_graded h) of
           None \<Rightarrow> (v, reasons, discrepancies)
         | Some peak \<Rightarrow>
             (if capFor peak = Unknown then refuse_above_blocked v else lower_to (capFor peak) v,
              reasons @ [Graded_capped peak (hs_graded_runners h)
                (map (\<lambda>g. (gh_file g, gh_why g)) (filter (\<lambda>g. gh_tier g = peak) (hs_graded h)))
                (capFor peak)],
              discrepancies)))"

definition surface_notes :: "derived_facts \<Rightarrow> grading \<Rightarrow> grading" where
  "surface_notes f = (\<lambda>(v, reasons, discrepancies).
     (let h = df_harness f
      in (v, reasons,
          discrepancies
          @ (if hs_graded_unresolved h \<noteq> [] \<and> rank v > rank Blocked
             then [Surface_unresolved (hs_graded_unresolved h)] else [])
          @ (if hs_defaults_missed h \<noteq> []
             then [Defaults_missed (hs_patterns h) (hs_defaults_missed h)] else []))))"

definition unfinished_cap :: "derived_facts \<Rightarrow> grading \<Rightarrow> grading" where
  "unfinished_cap f = (\<lambda>(v, reasons, discrepancies).
     (let inconclusive = with_outcome {Acc_timed_out, Not_run} (df_acceptance f)
      in if inconclusive \<noteq> [] \<and> rank v > rank Blocked
         then (Unknown,
               reasons @ [Acceptance_unfinished (map (\<lambda>r. (ar_cmd r, ar_outcome r)) inconclusive)],
               discrepancies)
         else (v, reasons, discrepancies)))"

definition adjudicate ::
  "(derived_facts \<Rightarrow> string) \<Rightarrow> derived_facts \<Rightarrow> result_envelope option \<Rightarrow> adjudication" where
  "adjudicate factsHash f claimed =
     (case untrusted f of
        Some why \<Rightarrow>
          \<lparr>ad_verdict = Unknown, ad_reasons = [why], ad_discrepancies = [], ad_facts_hash = factsHash f\<rparr>
      | None \<Rightarrow>
          (let (derived, reasons) = acceptanceEvidence (df_acceptance f);
               (v, reasons', discrepancies) =
                 unfinished_cap f (surface_notes f (graded_cap f (harness_cap f (census_cap f claimed
                   (combine_claim claimed (weigh_claim f claimed (derived, reasons, [])))))))
           in \<lparr>ad_verdict = v, ad_reasons = reasons', ad_discrepancies = discrepancies,
               ad_facts_hash = factsHash f\<rparr>))"

section \<open>Lemmas\<close>

lemma with_outcome_empty: "with_outcome outs runs = [] \<longleftrightarrow> (\<forall>r \<in> set runs. ar_outcome r \<notin> outs)"
  by (simp add: with_outcome_def filter_empty_conv)

lemma acceptance_verdict:
  "fst (acceptanceEvidence runs) =
     (if \<exists>r \<in> set runs. ar_outcome r = Acc_failed then Failed
      else if runs \<noteq> [] \<and> (\<forall>r \<in> set runs. ar_outcome r = Passed) then Success
      else Unknown)"
proof -
  have "ar_outcome r \<notin> {Acc_failed} \<and> ar_outcome r \<notin> {Acc_timed_out, Not_run} \<longleftrightarrow> ar_outcome r = Passed" for r
    by (cases "ar_outcome r") auto
  then show ?thesis
    unfolding acceptanceEvidence_def Let_def
    by (auto simp: with_outcome_empty)
qed

lemma peakTier_None: "peakTier hits = None \<longleftrightarrow> hits = []"
proof -
  have "foldl (\<lambda>peak h. case peak of None \<Rightarrow> Some (gh_tier h)
      | Some p \<Rightarrow> Some (strictestTier p (gh_tier h))) (Some t) hs \<noteq> None" for t hs
    by (induction hs arbitrary: t) auto
  then show ?thesis by (cases hits) (auto simp: peakTier_def)
qed

lemma files_agree:
  "file_discrepancies f c = [] \<longleftrightarrow> set (df_files_changed f) = set (re_files_changed c)"
  by (auto simp: file_discrepancies_def first_occurrences_def filter_empty_conv)

lemma caps_verdict:
  "fst (census_cap f claimed g) =
     (case censusCeiling (df_collation f) (map_option re_status claimed) of
        None \<Rightarrow> fst g | Some (ceil, _) \<Rightarrow> lower_to ceil (fst g))"
  "fst (harness_cap f g) = (if hs_touched (df_harness f) = [] then fst g else refuse_above_blocked (fst g))"
  "fst (graded_cap f g) =
     (case peakTier (hs_graded (df_harness f)) of
        None \<Rightarrow> fst g
      | Some t \<Rightarrow> if capFor t = Unknown then refuse_above_blocked (fst g) else lower_to (capFor t) (fst g))"
  "fst (surface_notes f g) = fst g"
  "fst (unfinished_cap f g) =
     (if with_outcome {Acc_timed_out, Not_run} (df_acceptance f) \<noteq> [] then refuse_above_blocked (fst g)
      else fst g)"
  "fst (combine_claim claimed g) = latticeCombine (fst g) (map_option re_status claimed)"
  by (cases g; auto simp: census_cap_def harness_cap_def graded_cap_def surface_notes_def
      unfinished_cap_def combine_claim_def refuse_above_blocked_def Let_def split: option.splits)+

definition weighed :: "derived_facts \<Rightarrow> result_envelope option \<Rightarrow> verdict" where
  "weighed f claimed =
     (let derived = fst (acceptanceEvidence (df_acceptance f))
      in case claimed of
           None \<Rightarrow> derived
         | Some c \<Rightarrow>
             if df_repository f \<and> re_status c = Success \<and> emptyDiff f \<and> derived \<noteq> Success then Failed
             else if set (df_files_changed f) \<noteq> set (re_files_changed c) then Failed
             else derived)"

lemma weigh_claim_verdict:
  "fst (weigh_claim f claimed (fst (acceptanceEvidence (df_acceptance f)), rs, ds)) = weighed f claimed"
  by (auto simp: weigh_claim_def weighed_def files_agree Let_def split: option.splits)

definition graded_verdict :: "derived_facts \<Rightarrow> result_envelope option \<Rightarrow> verdict" where
  "graded_verdict f claimed = latticeCombine (weighed f claimed) (map_option re_status claimed)"

text \<open>The verdict is the combined one under the four caps.\<close>

lemma adjudicate_verdict:
  "ad_verdict (adjudicate h f claimed) =
     (if untrusted f \<noteq> None then Unknown
      else fst (unfinished_cap f (graded_cap f (harness_cap f (census_cap f claimed
             (graded_verdict f claimed, [], []))))))"
proof (cases "untrusted f")
  case None
  obtain derived reasons where a: "acceptanceEvidence (df_acceptance f) = (derived, reasons)" by fastforce
  have eq: "fst (combine_claim claimed (weigh_claim f claimed (derived, reasons, []))) = graded_verdict f claimed"
    using weigh_claim_verdict [of f claimed reasons "[]"] a
    by (simp add: caps_verdict graded_verdict_def)
  have "fst (unfinished_cap f (surface_notes f (graded_cap f (harness_cap f (census_cap f claimed
      (combine_claim claimed (weigh_claim f claimed (derived, reasons, []))))))))
    = fst (unfinished_cap f (graded_cap f (harness_cap f (census_cap f claimed
        (graded_verdict f claimed, [], [])))))"
    unfolding caps_verdict(1-5) eq fst_conv by (rule refl)
  then show ?thesis by (simp add: None adjudicate_def a case_prod_beta)
qed (simp add: adjudicate_def)

definition claim_ok :: "result_envelope option \<Rightarrow> bool" where
  "claim_ok claimed \<longleftrightarrow> (case claimed of None \<Rightarrow> True | Some c \<Rightarrow> re_status c \<in> set LATTICE)"

lemma combine_Success:
  "c \<in> set LATTICE \<Longrightarrow>
   latticeCombine d (Some c) = Success \<longleftrightarrow> c = Success \<and> (d = Success \<or> d = Unknown)"
  by (cases d; cases c) (simp_all add: latticeCombine_def LATTICE_def)

lemma caps_Success:
  "lower_to Partial v = Success \<longleftrightarrow> False" "refuse_above_blocked v = Success \<longleftrightarrow> False"
  by (cases v; simp add: lower_to_def refuse_above_blocked_def)+

lemma censusCeiling_Partial: "censusCeiling c s = Some (ceil, why) \<Longrightarrow> ceil = Partial \<and> s = Some Success"
  by (auto simp: censusCeiling_def split: option.splits if_splits)

lemma capFor_cases: "capFor t \<noteq> Unknown \<Longrightarrow> capFor t = Partial"
  by (simp add: capFor_def split: if_splits)

lemma caps_closed:
  assumes "\<And>v. P v \<Longrightarrow> P (lower_to Partial v)" and "\<And>v. P v \<Longrightarrow> P (refuse_above_blocked v)" and "P (fst g)"
  shows "P (fst (census_cap f claimed g))" and "P (fst (harness_cap f g))"
    and "P (fst (graded_cap f g))" and "P (fst (unfinished_cap f g))"
  using assms
  by (auto simp: caps_verdict dest!: censusCeiling_Partial capFor_cases split: option.split)

section \<open>What a verdict means\<close>

text \<open>
  C10: what success takes. The verdict is \<open>success\<close> exactly when the tree did not move and its base
  was not rewritten, the diff touches neither the test harness nor any graded surface, no
  acceptance command failed or was left unfinished, and either there is no envelope and the
  acceptance commands ran and all passed, or the envelope claims success, names exactly the files
  of the diff, is not a repository task that changed nothing without passing acceptance commands,
  and meets no census of findings without a location.
\<close>

theorem adjudicate_success_iff:
  assumes "claim_ok claimed"
  shows "ad_verdict (adjudicate h f claimed) = Success \<longleftrightarrow>
    untrusted f = None
    \<and> hs_touched (df_harness f) = [] \<and> hs_graded (df_harness f) = []
    \<and> list_all (\<lambda>r. ar_outcome r = Passed) (df_acceptance f)
    \<and> (case claimed of
         None \<Rightarrow> df_acceptance f \<noteq> []
       | Some c \<Rightarrow>
           re_status c = Success
           \<and> set (df_files_changed f) = set (re_files_changed c)
           \<and> \<not> (df_repository f \<and> emptyDiff f \<and> df_acceptance f = [])
           \<and> censusCeiling (df_collation f) (Some Success) = None)"
proof -
  have passed: "list_all (\<lambda>r. ar_outcome r = Passed) (df_acceptance f) \<longleftrightarrow>
      with_outcome {Acc_timed_out, Not_run} (df_acceptance f) = []
      \<and> (\<forall>r \<in> set (df_acceptance f). ar_outcome r \<noteq> Acc_failed)"
    by (auto simp: with_outcome_empty list_all_iff) (metis acceptance_outcome.exhaust)
  have "ad_verdict (adjudicate h f claimed) = Success \<longleftrightarrow>
      untrusted f = None \<and> hs_touched (df_harness f) = [] \<and> hs_graded (df_harness f) = []
      \<and> with_outcome {Acc_timed_out, Not_run} (df_acceptance f) = []
      \<and> censusCeiling (df_collation f) (map_option re_status claimed) = None
      \<and> graded_verdict f claimed = Success"
    by (auto simp: adjudicate_verdict caps_verdict caps_Success peakTier_None [symmetric]
        dest: censusCeiling_Partial capFor_cases split: option.splits if_splits)
  moreover have "graded_verdict f claimed = Success \<longleftrightarrow>
      (case claimed of
         None \<Rightarrow> df_acceptance f \<noteq> [] \<and> list_all (\<lambda>r. ar_outcome r = Passed) (df_acceptance f)
       | Some c \<Rightarrow> re_status c = Success \<and> set (df_files_changed f) = set (re_files_changed c)
           \<and> \<not> (df_repository f \<and> emptyDiff f \<and> df_acceptance f = [])
           \<and> list_all (\<lambda>r. ar_outcome r = Passed) (df_acceptance f))"
    if "with_outcome {Acc_timed_out, Not_run} (df_acceptance f) = []"
  proof -
    have all: "list_all (\<lambda>r. ar_outcome r = Passed) (df_acceptance f) \<longleftrightarrow>
        \<not> (\<exists>r \<in> set (df_acceptance f). ar_outcome r = Acc_failed)"
      using that passed by auto
    then have "fst (acceptanceEvidence (df_acceptance f)) =
        (if \<not> list_all (\<lambda>r. ar_outcome r = Passed) (df_acceptance f) then Failed
         else if df_acceptance f \<noteq> [] then Success else Unknown)"
      by (auto simp: acceptance_verdict list_all_iff)
    then show ?thesis
      using assms
      by (cases claimed)
        (auto simp: graded_verdict_def claim_ok_def combine_Success weighed_def Let_def)
  qed
  ultimately show ?thesis
    by (cases claimed) (auto simp: passed censusCeiling_def split: option.splits)
qed

definition contradicted :: "derived_facts \<Rightarrow> result_envelope option \<Rightarrow> bool" where
  "contradicted f claimed \<longleftrightarrow>
     list_ex (\<lambda>r. ar_outcome r = Acc_failed) (df_acceptance f)
     \<or> (case claimed of
          None \<Rightarrow> False
        | Some c \<Rightarrow> set (df_files_changed f) \<noteq> set (re_files_changed c)
            \<or> (df_repository f \<and> re_status c = Success \<and> emptyDiff f
               \<and> \<not> (df_acceptance f \<noteq> [] \<and> list_all (\<lambda>r. ar_outcome r = Passed) (df_acceptance f))))"

lemma caps_Failed:
  "lower_to c Failed = (if rank c < 0 then c else Failed)" "refuse_above_blocked Failed = Failed"
  by (simp_all add: lower_to_def refuse_above_blocked_def)

lemma latticeCombine_Failed: "c \<in> set LATTICE \<Longrightarrow> latticeCombine Failed (Some c) = Failed"
  by (cases c) (simp_all add: latticeCombine_def LATTICE_def)

lemma weighed_contradicted: "contradicted f claimed \<Longrightarrow> weighed f claimed = Failed"
  by (cases claimed) (auto simp: contradicted_def weighed_def acceptance_verdict list_ex_iff list_all_iff Let_def)

text \<open>
  Contradicted claims fail. When the facts can be trusted, a failed acceptance command, an
  envelope whose files are not those of the diff, or a success claimed by a repository task that
  changed nothing and passed no acceptance commands gives the verdict \<open>failed\<close>: no claim, no cap
  and no census makes it anything else.
\<close>

theorem contradiction_fails:
  assumes "claim_ok claimed" and "untrusted f = None" and "contradicted f claimed"
  shows "ad_verdict (adjudicate h f claimed) = Failed"
proof -
  have "graded_verdict f claimed = Failed"
    using assms(1) weighed_contradicted [OF assms(3)]
    by (cases claimed) (simp_all add: graded_verdict_def claim_ok_def latticeCombine_Failed)
  then show ?thesis
    by (auto simp: adjudicate_verdict assms(2) caps_verdict caps_Failed
        dest!: censusCeiling_Partial capFor_cases split: option.split)
qed

text \<open>
  Caps only lower, so their order does not matter. The census, the harness denylist and the
  graded surface each cap a verdict, and applying any two of them in either order gives the same
  verdict.
\<close>

theorem caps_commute:
  "fst (census_cap f claimed (harness_cap f g)) = fst (harness_cap f (census_cap f claimed g))
   \<and> fst (graded_cap f (harness_cap f g)) = fst (harness_cap f (graded_cap f g))
   \<and> fst (graded_cap f (census_cap f claimed g)) = fst (census_cap f claimed (graded_cap f g))
   \<and> fst (unfinished_cap f (graded_cap f g)) = fst (graded_cap f (unfinished_cap f g))"
proof -
  have swap: "lower_to Partial (refuse_above_blocked v) = refuse_above_blocked (lower_to Partial v)" for v
    by (cases v) (simp_all add: lower_to_def refuse_above_blocked_def)
  have ceil: "ceil = Partial" if "censusCeiling (df_collation f) s = Some (ceil, why)" for s ceil why
    using censusCeiling_Partial [OF that] by simp
  show ?thesis
    unfolding caps_verdict
    by (auto simp: swap capFor_def dest!: ceil split: option.split)
qed

text \<open>
  The range of a verdict. The adjudicator never answers the supervisor's own verdicts
  \<open>aborted\<close> and \<open>timed_out\<close>; it answers \<open>unknown\<close> with a single reason and no discrepancies
  whenever the tree moved after quiesce or the base was rewritten, whatever was claimed; and a diff
  that touches the harness is never graded above \<open>blocked\<close>. The digest is that of the facts alone.
\<close>

theorem adjudicate_range:
  assumes "claim_ok claimed"
  shows "let a = adjudicate h f claimed in
    ad_verdict a \<noteq> Aborted \<and> ad_verdict a \<noteq> Timed_out
    \<and> ad_facts_hash a = h f
    \<and> (untrusted f \<noteq> None \<longrightarrow> ad_verdict a = Unknown \<and> length (ad_reasons a) = 1 \<and> ad_discrepancies a = [])
    \<and> (hs_touched (df_harness f) \<noteq> [] \<longrightarrow> ad_verdict a \<in> {Failed, Blocked, Unknown})"
proof -
  let ?R = "{Failed, Blocked, Partial, Success, Unknown}"
  have ev: "weighed f claimed \<in> ?R"
    by (cases claimed) (auto simp: weighed_def acceptance_verdict Let_def)
  have "latticeCombine d (map_option re_status claimed) \<in> ?R" if "d \<in> ?R" for d
    using that assms
    by (cases claimed) (auto simp: claim_ok_def LATTICE_def latticeCombine_def)
  then have start: "graded_verdict f claimed \<in> ?R" using ev by (simp add: graded_verdict_def)
  define R where "R v \<longleftrightarrow> v \<in> ?R" for v
  define B where "B v \<longleftrightarrow> v \<in> {Failed, Blocked, Unknown}" for v
  have R: "R v \<Longrightarrow> R (lower_to Partial v)" "R v \<Longrightarrow> R (refuse_above_blocked v)" for v
    unfolding R_def by (auto simp: lower_to_def refuse_above_blocked_def)
  have B: "B v \<Longrightarrow> B (lower_to Partial v)" "B v \<Longrightarrow> B (refuse_above_blocked v)" for v
    unfolding B_def by (auto simp: lower_to_def refuse_above_blocked_def)
  have RB: "R v \<Longrightarrow> B (refuse_above_blocked v)" for v
    unfolding R_def B_def by (auto simp: refuse_above_blocked_def)
  note R_closed = caps_closed [where P = R, OF R]
  note B_closed = caps_closed [where P = B, OF B]
  let ?g1 = "census_cap f claimed (graded_verdict f claimed, [], [])"
  let ?g2 = "harness_cap f ?g1"
  let ?v4 = "fst (unfinished_cap f (graded_cap f ?g2))"
  have "R (fst (graded_verdict f claimed, [] :: reason list, [] :: discrepancy list))"
    unfolding R_def fst_conv by (rule start)
  then have g1: "R (fst ?g1)" by (intro R_closed(1))
  then have v4: "R ?v4" by (intro R_closed(2-4))
  have "B ?v4" if "hs_touched (df_harness f) \<noteq> []"
  proof -
    have "fst ?g2 = refuse_above_blocked (fst ?g1)" using that by (simp add: caps_verdict(2))
    then have "B (fst ?g2)" using RB [OF g1] by simp
    then show ?thesis by (intro B_closed(3,4))
  qed
  note touched = this
  define v where "v = ?v4"
  have v: "v \<in> ?R" "hs_touched (df_harness f) \<noteq> [] \<Longrightarrow> v \<in> {Failed, Blocked, Unknown}"
    using v4 touched unfolding v_def R_def B_def by blast+
  have verdict: "ad_verdict (adjudicate h f claimed) = (if untrusted f \<noteq> None then Unknown else v)"
    by (simp only: adjudicate_verdict v_def)
  have "ad_facts_hash (adjudicate h f claimed) = h f"
    by (simp add: adjudicate_def case_prod_beta split: option.split)
  moreover have "untrusted f \<noteq> None \<Longrightarrow>
      length (ad_reasons (adjudicate h f claimed)) = 1 \<and> ad_discrepancies (adjudicate h f claimed) = []"
    by (auto simp: adjudicate_def)
  ultimately show ?thesis using v by (auto simp: Let_def verdict)
qed

section \<open>Concrete harvests\<close>

definition clean_harness :: harness_surface where
  "clean_harness = \<lparr>hs_patterns = [], hs_touched = [], hs_defaults_missed = [], hs_graded = [],
     hs_graded_runners = [], hs_graded_unresolved = []\<rparr>"

definition good_facts :: derived_facts where
  "good_facts = \<lparr>df_repository = True, df_base_is_ancestor = True, df_commits = [''c1''],
     df_files_changed = [''src/a.ts''], df_diff_bytes = 120,
     df_acceptance = [\<lparr>ar_cmd = ''bun test'', ar_outcome = Passed, ar_exit_code = Some 0\<rparr>],
     df_harness = clean_harness, df_collation = None,
     df_tree_hash_quiesce = Some ''t'', df_tree_hash_harvest = Some ''t''\<rparr>"

definition good_claim :: result_envelope where
  "good_claim = \<lparr>re_status = Success, re_files_changed = [''src/a.ts''], re_commits = [''c1'']\<rparr>"

definition idle_facts :: derived_facts where
  "idle_facts = good_facts\<lparr>df_commits := [], df_files_changed := [], df_diff_bytes := 0, df_acceptance := []\<rparr>"

lemma good_claim_ok: "claim_ok (Some good_claim)" "claim_ok None"
  by (simp_all add: claim_ok_def good_claim_def LATTICE_def)

theorem adjudicate_success_iff_witness:
  "ad_verdict (adjudicate (\<lambda>_. ''h'') good_facts (Some good_claim)) = Success
   \<and> ad_verdict (adjudicate (\<lambda>_. ''h'') idle_facts None) \<noteq> Success"
  using adjudicate_success_iff [OF good_claim_ok(1), of "\<lambda>_. ''h''" good_facts]
    adjudicate_success_iff [OF good_claim_ok(2), of "\<lambda>_. ''h''" idle_facts]
  by (simp add: good_facts_def idle_facts_def good_claim_def clean_harness_def untrusted_def
      emptyDiff_def censusCeiling_def)

theorem contradiction_fails_witness:
  "ad_verdict (adjudicate (\<lambda>_. ''h'') idle_facts (Some (good_claim\<lparr>re_files_changed := []\<rparr>))) = Failed"
  by (rule contradiction_fails)
    (simp_all add: claim_ok_def good_claim_def LATTICE_def idle_facts_def good_facts_def untrusted_def
      contradicted_def emptyDiff_def)

theorem adjudicate_range_witness:
  "ad_verdict (adjudicate (\<lambda>_. ''h'')
     (good_facts\<lparr>df_harness := clean_harness\<lparr>hs_touched := [''bunfig.toml'']\<rparr>\<rparr>) (Some good_claim))
   \<in> {Failed, Blocked, Unknown}"
  using adjudicate_range [OF good_claim_ok(1), of "\<lambda>_. ''h''"
      "good_facts\<lparr>df_harness := clean_harness\<lparr>hs_touched := [''bunfig.toml'']\<rparr>\<rparr>"]
  by (simp add: Let_def)

end
