(* ===== verification/Budget.thy ===== *)
theory Budget
  imports Verdicts
begin

text \<open>
  Budget accounting and admission control, \<open>src/safety/budget.ts\<close>, and the stall policy of
  \<open>src/safety/stall.ts\<close>. The state is the code's \<open>BudgetState\<close>; every method of
  \<open>BudgetManager\<close> is a function from the state to the new state and its answer. Token counts
  are integers (the schema admits safe integers only); amounts of money and the token counts
  a caller reports are rationals, the values a finite double can have. Reasons, which the
  code renders as text, are values that carry the numbers the text quotes. The wall-clock
  label \<open>isoNow()\<close> is an argument.
\<close>

section \<open>State\<close>

datatype halt_reason =
  Tokens_ceiling_spent int int
| Tokens_ceiling_resumed int int
| Usd_ceiling_spent rat rat
| Persisted_reason string

definition MAX_SHORT :: nat where
  "MAX_SHORT = 4096"

record budget =
  b_run_id :: string
  b_tokens_ceiling :: "int option"
  b_usd_ceiling :: "rat option"
  b_tokens_spent :: int
  b_usd_spent :: rat
  b_reserved :: "(task_id \<times> int) list"
  b_halted_at :: "string option"
  b_halted_reason :: "halt_reason option"

text \<open>What \<open>BudgetStateSchema\<close> accepts, and that an object has each key once.\<close>

definition BudgetStateSchema :: "budget \<Rightarrow> bool" where
  "BudgetStateSchema b \<longleftrightarrow>
     length (b_run_id b) \<le> MAX_SHORT
     \<and> (case b_tokens_ceiling b of None \<Rightarrow> True | Some c \<Rightarrow> 0 \<le> c)
     \<and> (case b_usd_ceiling b of None \<Rightarrow> True | Some c \<Rightarrow> 0 \<le> c)
     \<and> 0 \<le> b_tokens_spent b
     \<and> 0 \<le> b_usd_spent b
     \<and> list_all (\<lambda>(k, v). 0 \<le> v) (b_reserved b)
     \<and> distinct (map fst (b_reserved b))
     \<and> (case b_halted_reason b of Some (Persisted_reason t) \<Rightarrow> length t \<le> MAX_SHORT | _ \<Rightarrow> True)"

datatype budget_error = Foreign_budget string string | Budget_schema_error

datatype admission =
  Admitted "int option"
| Refused_halted "halt_reason option"
| Refused_max_concurrent nat int
| Refused_would_exceed int int

definition emptyBudget :: "string \<Rightarrow> int option \<Rightarrow> rat option \<Rightarrow> budget_error + budget" where
  "emptyBudget runId tokensCeiling usdCeiling =
     (let b = \<lparr>b_run_id = runId, b_tokens_ceiling = tokensCeiling, b_usd_ceiling = usdCeiling,
               b_tokens_spent = 0, b_usd_spent = 0, b_reserved = [],
               b_halted_at = None, b_halted_reason = None\<rparr>
      in if BudgetStateSchema b then Inr b else Inl Budget_schema_error)"

text \<open>
  The restart decision: another run's file is refused, spend is what the caller observed, a
  halt is carried over, holds are dropped, and an observation past the ceiling halts here.
\<close>

definition persisted_halt :: "budget option \<Rightarrow> (string \<times> halt_reason option) option" where
  "persisted_halt persisted =
     (case persisted of
        None \<Rightarrow> None
      | Some p \<Rightarrow> (case b_halted_at p of None \<Rightarrow> None | Some t \<Rightarrow> Some (t, b_halted_reason p)))"

definition resume_halt :: "string \<Rightarrow> int option \<Rightarrow> budget option \<Rightarrow> budget \<Rightarrow> budget" where
  "resume_halt now tokensCeiling persisted s =
     (case persisted_halt persisted of
        Some (t, why) \<Rightarrow> s\<lparr>b_halted_at := Some t, b_halted_reason := why\<rparr>
      | None \<Rightarrow>
          (case tokensCeiling of
             Some c \<Rightarrow>
               if b_tokens_spent s > c
               then s\<lparr>b_halted_at := Some now,
                      b_halted_reason := Some (Tokens_ceiling_resumed (b_tokens_spent s) c)\<rparr>
               else s
           | None \<Rightarrow> s))"

definition foreign_budget :: "string \<Rightarrow> budget option \<Rightarrow> budget_error option" where
  "foreign_budget runId persisted =
     (case persisted of
        Some p \<Rightarrow> if b_run_id p \<noteq> runId then Some (Foreign_budget runId (b_run_id p)) else None
      | None \<Rightarrow> None)"

definition resumeBudget ::
  "string \<Rightarrow> string \<Rightarrow> int option \<Rightarrow> rat \<Rightarrow> budget option \<Rightarrow> budget_error + budget" where
  "resumeBudget now runId tokensCeiling openingTokens persisted =
     (case foreign_budget runId persisted of
        Some e \<Rightarrow> Inl e
      | None \<Rightarrow>
          (case emptyBudget runId tokensCeiling None of
             Inl e \<Rightarrow> Inl e
           | Inr fresh \<Rightarrow>
               let s = resume_halt now tokensCeiling persisted
                         (fresh\<lparr>b_tokens_spent := max 0 \<lfloor>openingTokens\<rfloor>\<rparr>)
               in if BudgetStateSchema s then Inr s else Inl Budget_schema_error))"

section \<open>\<open>BudgetManager\<close>\<close>

definition budget_manager :: "budget \<Rightarrow> budget_error + budget" where
  "budget_manager restored =
     (if BudgetStateSchema restored then Inr restored else Inl Budget_schema_error)"

definition budgetExitCode :: "budget \<Rightarrow> exit_code" where
  "budgetExitCode b = (if b_halted_at b \<noteq> None then EXIT_BUDGET else EXIT_SUCCESS)"

definition halted :: "budget \<Rightarrow> bool" where
  "halted b \<longleftrightarrow> b_halted_at b \<noteq> None"

definition inFlight :: "budget \<Rightarrow> task_id list" where
  "inFlight b = map fst (b_reserved b)"

definition holdsSlot :: "budget \<Rightarrow> task_id \<Rightarrow> bool" where
  "holdsSlot b taskId = obj_in (b_reserved b) taskId"

definition reservedTotal :: "budget \<Rightarrow> int" where
  "reservedTotal b = obj_total (b_reserved b)"

text \<open>
  The membership test of the code is the operator \<open>in\<close>, which also sees inherited names; the
  value the code then reads for such a name is not a number, which is \<open>Admitted None\<close>.
\<close>

definition admit :: "budget \<Rightarrow> task_id \<Rightarrow> int \<Rightarrow> int \<Rightarrow> budget \<times> admission" where
  "admit b taskId reserveTokens maxConcurrent =
     (if b_halted_at b \<noteq> None then (b, Refused_halted (b_halted_reason b))
      else if obj_in (b_reserved b) taskId then (b, Admitted (map_of (b_reserved b) taskId))
      else if int (length (inFlight b)) \<ge> maxConcurrent
        then (b, Refused_max_concurrent (length (inFlight b)) maxConcurrent)
      else
        let grant = (b\<lparr>b_reserved := AList.update taskId reserveTokens (b_reserved b)\<rparr>,
                     Admitted (Some reserveTokens))
        in case b_tokens_ceiling b of
             None \<Rightarrow> grant
           | Some c \<Rightarrow>
               let projected = b_tokens_spent b + reservedTotal b + reserveTokens
               in if projected > c then (b, Refused_would_exceed projected c)
                  else grant)"

definition release :: "budget \<Rightarrow> task_id \<Rightarrow> budget \<times> bool" where
  "release b taskId =
     (if \<not> obj_in (b_reserved b) taskId then (b, False)
      else (b\<lparr>b_reserved := AList.delete taskId (b_reserved b)\<rparr>, True))"

definition halt :: "string \<Rightarrow> halt_reason \<Rightarrow> budget \<Rightarrow> budget" where
  "halt now reason b = b\<lparr>b_halted_at := Some now, b_halted_reason := Some reason\<rparr>"

definition halt_on_tokens :: "string \<Rightarrow> budget \<Rightarrow> budget" where
  "halt_on_tokens now b =
     (case b_tokens_ceiling b of
        Some c \<Rightarrow> if b_halted_at b = None \<and> b_tokens_spent b > c
                  then halt now (Tokens_ceiling_spent (b_tokens_spent b) c) b else b
      | None \<Rightarrow> b)"

definition halt_on_usd :: "string \<Rightarrow> budget \<Rightarrow> budget" where
  "halt_on_usd now b =
     (case b_usd_ceiling b of
        Some c \<Rightarrow> if b_halted_at b = None \<and> b_usd_spent b > c
                  then halt now (Usd_ceiling_spent (b_usd_spent b) c) b else b
      | None \<Rightarrow> b)"

definition settle :: "string \<Rightarrow> budget \<Rightarrow> task_id \<Rightarrow> rat \<Rightarrow> rat option \<Rightarrow> budget \<times> bool" where
  "settle now b taskId tokens usd =
     (let b1 = (if obj_in (b_reserved b) taskId
                then b\<lparr>b_reserved := AList.delete taskId (b_reserved b)\<rparr> else b);
          b2 = b1\<lparr>b_tokens_spent := b_tokens_spent b1 + max 0 \<lfloor>tokens\<rfloor>,
                  b_usd_spent := b_usd_spent b1 + max 0 (case usd of None \<Rightarrow> 0 | Some u \<Rightarrow> u)\<rparr>;
          b3 = halt_on_usd now (halt_on_tokens now b2)
      in (b3, halted b3))"

section \<open>Runs of the manager\<close>

datatype budget_op =
  Op_admit task_id nat int
| Op_release task_id
| Op_settle string task_id rat "rat option"

fun budget_step :: "budget \<Rightarrow> budget_op \<Rightarrow> budget" where
  "budget_step b (Op_admit t r m) = fst (admit b t (int r) m)"
| "budget_step b (Op_release t) = fst (release b t)"
| "budget_step b (Op_settle now t tokens usd) = fst (settle now b t tokens usd)"

text \<open>The manager's invariant: the schema, and that a run past a ceiling has been halted.\<close>

definition budget_inv :: "budget \<Rightarrow> bool" where
  "budget_inv b \<longleftrightarrow>
     BudgetStateSchema b
     \<and> (halted b \<or>
        ((\<forall>c. b_tokens_ceiling b = Some c \<longrightarrow> b_tokens_spent b \<le> c)
         \<and> (\<forall>c. b_usd_ceiling b = Some c \<longrightarrow> b_usd_spent b \<le> c)))"

text \<open>What no operation may undo: identity and ceilings stay, spend grows, a halt is final.\<close>

definition budget_le :: "budget \<Rightarrow> budget \<Rightarrow> bool" where
  "budget_le b b' \<longleftrightarrow>
     b_run_id b' = b_run_id b
     \<and> b_tokens_ceiling b' = b_tokens_ceiling b
     \<and> b_usd_ceiling b' = b_usd_ceiling b
     \<and> b_tokens_spent b \<le> b_tokens_spent b'
     \<and> b_usd_spent b \<le> b_usd_spent b'
     \<and> (halted b \<longrightarrow> b_halted_at b' = b_halted_at b \<and> b_halted_reason b' = b_halted_reason b)"

lemma list_all_update:
  "list_all (\<lambda>(k, v). P v) xs \<Longrightarrow> P w \<Longrightarrow> list_all (\<lambda>(k, v). P v) (AList.update k w xs)"
  by (induction xs) auto

lemma list_all_delete:
  "list_all P xs \<Longrightarrow> list_all P (AList.delete k xs)"
  by (induction xs) auto

lemmas budget_state_defs = BudgetStateSchema_def budget_inv_def halted_def

lemma admit_inv: "budget_inv b \<Longrightarrow> budget_inv (fst (admit b t (int r) m))"
  by (auto simp: admit_def budget_state_defs Let_def list_all_update distinct_update
           split: option.splits)

lemma release_inv: "budget_inv b \<Longrightarrow> budget_inv (fst (release b t))"
  by (auto simp: release_def budget_state_defs list_all_delete distinct_delete
           split: option.splits)

lemma halt_on_tokens_fields [simp]:
  "b_run_id (halt_on_tokens now b) = b_run_id b"
  "b_tokens_ceiling (halt_on_tokens now b) = b_tokens_ceiling b"
  "b_usd_ceiling (halt_on_tokens now b) = b_usd_ceiling b"
  "b_tokens_spent (halt_on_tokens now b) = b_tokens_spent b"
  "b_usd_spent (halt_on_tokens now b) = b_usd_spent b"
  "b_reserved (halt_on_tokens now b) = b_reserved b"
  by (simp_all add: halt_on_tokens_def halt_def split: option.splits)

lemma halt_on_usd_fields [simp]:
  "b_run_id (halt_on_usd now b) = b_run_id b"
  "b_tokens_ceiling (halt_on_usd now b) = b_tokens_ceiling b"
  "b_usd_ceiling (halt_on_usd now b) = b_usd_ceiling b"
  "b_tokens_spent (halt_on_usd now b) = b_tokens_spent b"
  "b_usd_spent (halt_on_usd now b) = b_usd_spent b"
  "b_reserved (halt_on_usd now b) = b_reserved b"
  by (simp_all add: halt_on_usd_def halt_def split: option.splits)

lemma halt_on_keeps:
  "b_halted_at b \<noteq> None \<Longrightarrow> halt_on_tokens now b = b"
  "b_halted_at b \<noteq> None \<Longrightarrow> halt_on_usd now b = b"
  by (auto simp: halt_on_tokens_def halt_on_usd_def split: option.splits)

lemma halt_on_schema:
  "BudgetStateSchema b \<Longrightarrow> BudgetStateSchema (halt_on_tokens now b)"
  "BudgetStateSchema b \<Longrightarrow> BudgetStateSchema (halt_on_usd now b)"
  by (auto simp: halt_on_tokens_def halt_on_usd_def halt_def BudgetStateSchema_def
           split: option.splits)

lemma halt_on_tokens_trips:
  "\<not> halted (halt_on_tokens now b) \<longleftrightarrow>
   \<not> halted b \<and> (\<forall>c. b_tokens_ceiling b = Some c \<longrightarrow> b_tokens_spent b \<le> c)"
  by (auto simp: halt_on_tokens_def halt_def halted_def split: option.splits)

lemma halt_on_usd_trips:
  "\<not> halted (halt_on_usd now b) \<longleftrightarrow>
   \<not> halted b \<and> (\<forall>c. b_usd_ceiling b = Some c \<longrightarrow> b_usd_spent b \<le> c)"
  by (auto simp: halt_on_usd_def halt_def halted_def split: option.splits)

text \<open>The booked state between the two halves of \<open>settle\<close>.\<close>

definition book :: "budget \<Rightarrow> task_id \<Rightarrow> rat \<Rightarrow> rat option \<Rightarrow> budget" where
  "book b t tokens usd =
     b\<lparr>b_reserved := AList.delete t (b_reserved b),
       b_tokens_spent := b_tokens_spent b + max 0 \<lfloor>tokens\<rfloor>,
       b_usd_spent := b_usd_spent b + max 0 (case usd of None \<Rightarrow> 0 | Some u \<Rightarrow> u)\<rparr>"

lemma settle_book:
  "settle now b t tokens usd =
     (let b' = halt_on_usd now (halt_on_tokens now (book b t tokens usd)) in (b', halted b'))"
proof (cases "obj_in (b_reserved b) t")
  case False
  then have "AList.delete t (b_reserved b) = b_reserved b"
    by (simp add: obj_in_def delete_absent)
  then show ?thesis using False by (simp add: settle_def book_def Let_def)
qed (simp add: settle_def book_def Let_def)

lemma book_schema: "BudgetStateSchema b \<Longrightarrow> BudgetStateSchema (book b t tokens usd)"
  by (auto simp: book_def BudgetStateSchema_def list_all_delete distinct_delete split: option.splits)

lemma settle_inv: "budget_inv b \<Longrightarrow> budget_inv (fst (settle now b t tokens usd))"
proof -
  assume inv: "budget_inv b"
  let ?b = "halt_on_usd now (halt_on_tokens now (book b t tokens usd))"
  have "BudgetStateSchema ?b"
    using inv by (simp add: budget_inv_def book_schema halt_on_schema)
  moreover have "\<not> halted ?b \<Longrightarrow>
      (\<forall>c. b_tokens_ceiling ?b = Some c \<longrightarrow> b_tokens_spent ?b \<le> c)
      \<and> (\<forall>c. b_usd_ceiling ?b = Some c \<longrightarrow> b_usd_spent ?b \<le> c)"
    by (simp add: halt_on_usd_trips halt_on_tokens_trips)
  ultimately show ?thesis by (auto simp: budget_inv_def settle_book Let_def)
qed

lemma budget_step_inv: "budget_inv b \<Longrightarrow> budget_inv (budget_step b e)"
  by (cases e) (simp_all add: admit_inv release_inv settle_inv)

lemma admit_le: "budget_le b (fst (admit b t r m))"
  by (auto simp: admit_def budget_le_def halted_def Let_def split: option.splits)

lemma release_le: "budget_le b (fst (release b t))"
  by (auto simp: release_def budget_le_def halted_def)

lemma settle_le: "budget_le b (fst (settle now b t tokens usd))"
proof -
  have "b_halted_at (book b t tokens usd) = b_halted_at b"
    "b_halted_reason (book b t tokens usd) = b_halted_reason b" by (simp_all add: book_def)
  then have "halted b \<Longrightarrow> halt_on_usd now (halt_on_tokens now (book b t tokens usd)) = book b t tokens usd"
    by (simp add: halt_on_keeps halted_def)
  then show ?thesis by (auto simp: settle_book Let_def budget_le_def book_def)
qed

lemma budget_le_refl: "budget_le b b"
  by (simp add: budget_le_def)

lemma budget_le_trans: "budget_le a b \<Longrightarrow> budget_le b c \<Longrightarrow> budget_le a c"
  by (auto simp: budget_le_def halted_def)

lemma budget_step_le: "budget_le b (budget_step b e)"
  by (cases e) (simp_all add: admit_le release_le settle_le)

interpretation budgets: ratchet_machine budget_step budget_inv budget_le
  by unfold_locales (auto intro: budget_step_inv budget_le_refl budget_le_trans budget_step_le)

section \<open>The stall policy\<close>

datatype stall_verdict = Healthy | Warn | Kill

definition classifyStall :: "int \<Rightarrow> bool \<Rightarrow> int \<Rightarrow> int \<Rightarrow> stall_verdict" where
  "classifyStall sinceLastEventMs slot warnMs killMs =
     (if slot \<and> sinceLastEventMs \<ge> killMs then Kill
      else if sinceLastEventMs \<ge> warnMs then Warn
      else Healthy)"

section \<open>Admission control\<close>

text \<open>The projection admission guards: spent plus every outstanding hold.\<close>

definition committed :: "budget \<Rightarrow> int" where
  "committed b = b_tokens_spent b + reservedTotal b"

definition covered :: "budget \<Rightarrow> bool" where
  "covered b \<longleftrightarrow> (case b_tokens_ceiling b of None \<Rightarrow> True | Some c \<Rightarrow> committed b \<le> c)"

text \<open>An operation is covered when a settled task books at most the hold it took.\<close>

fun covered_op :: "budget \<Rightarrow> budget_op \<Rightarrow> bool" where
  "covered_op b (Op_settle now t tokens usd) =
     (case map_of (b_reserved b) t of
        None \<Rightarrow> \<lfloor>tokens\<rfloor> \<le> 0
      | Some h \<Rightarrow> \<lfloor>tokens\<rfloor> \<le> h)"
| "covered_op b e = True"

fun covered_run :: "budget \<Rightarrow> budget_op list \<Rightarrow> bool" where
  "covered_run b [] = True"
| "covered_run b (e # es) = (covered_op b e \<and> covered_run (budget_step b e) es)"

lemma schema_hold_nonneg:
  "BudgetStateSchema b \<Longrightarrow> map_of (b_reserved b) t = Some h \<Longrightarrow> 0 \<le> h"
  by (auto simp: BudgetStateSchema_def list_all_iff dest!: map_of_SomeD)

lemma schema_distinct: "BudgetStateSchema b \<Longrightarrow> distinct (map fst (b_reserved b))"
  by (simp add: BudgetStateSchema_def)

lemma obj_total_delete_cases:
  "distinct (map fst obj) \<Longrightarrow>
   obj_total (AList.delete k obj) = obj_total obj - (case map_of obj k of None \<Rightarrow> 0 | Some v \<Rightarrow> v)"
  by (cases "map_of obj k")
    (auto simp: obj_total_delete obj_own_map_of delete_absent)

lemma committed_admit:
  "committed (fst (admit b t r m)) \<le> committed b \<or> covered (fst (admit b t r m))"
  by (auto simp: admit_def committed_def reservedTotal_def covered_def Let_def obj_in_def
      obj_total_update_fresh split: option.splits)

lemma committed_release:
  "BudgetStateSchema b \<Longrightarrow> committed (fst (release b t)) \<le> committed b"
  using schema_hold_nonneg [of b t]
  by (auto simp: release_def committed_def reservedTotal_def obj_total_delete_cases schema_distinct
      split: option.splits)

lemma committed_book:
  assumes "BudgetStateSchema b" and "covered_op b (Op_settle now t tokens usd)"
  shows "committed (book b t tokens usd) \<le> committed b"
proof (cases "map_of (b_reserved b) t")
  case None
  then show ?thesis using assms
    by (simp add: book_def committed_def reservedTotal_def obj_total_delete_cases schema_distinct)
next
  case (Some h)
  then show ?thesis using assms schema_hold_nonneg [OF assms(1) Some]
    by (simp add: book_def committed_def reservedTotal_def obj_total_delete_cases schema_distinct)
qed

lemma covered_spent:
  assumes "BudgetStateSchema b" and "covered b" and "b_tokens_ceiling b = Some c"
  shows "b_tokens_spent b \<le> c"
proof -
  have "0 \<le> reservedTotal b"
    using assms(1) unfolding reservedTotal_def BudgetStateSchema_def
    by (intro obj_total_nonneg) (auto simp: list_all_iff)
  then show ?thesis using assms by (simp add: covered_def committed_def)
qed

lemma covered_mono:
  "covered b \<Longrightarrow> b_tokens_ceiling b' = b_tokens_ceiling b \<Longrightarrow> committed b' \<le> committed b \<Longrightarrow> covered b'"
  by (auto simp: covered_def split: option.splits)

lemma not_halted_op:
  "\<not> halted b \<Longrightarrow> \<not> halted (fst (admit b t r m))"
  "\<not> halted b \<Longrightarrow> \<not> halted (fst (release b t))"
  by (auto simp: admit_def release_def halted_def Let_def split: option.splits)

lemma covered_step:
  assumes "budget_inv b" and "\<not> halted b" and "b_usd_ceiling b = None"
    and "covered b" and "covered_op b e"
  shows "\<not> halted (budget_step b e) \<and> covered (budget_step b e)"
proof (cases e)
  case (Op_admit t r m)
  let ?b = "fst (admit b t (int r) m)"
  have "b_tokens_ceiling ?b = b_tokens_ceiling b"
    using admit_le [of b t "int r" m] by (simp add: budget_le_def)
  then have "committed ?b \<le> committed b \<Longrightarrow> covered ?b"
    by (rule covered_mono [OF assms(4)])
  then have "covered ?b" using committed_admit [of b t "int r" m] by blast
  then show ?thesis using not_halted_op(1) [OF assms(2)] Op_admit by simp
next
  case (Op_release t)
  have "b_tokens_ceiling (fst (release b t)) = b_tokens_ceiling b"
    using release_le [of b t] by (simp add: budget_le_def)
  moreover have "committed (fst (release b t)) \<le> committed b"
    using assms(1) by (intro committed_release) (simp add: budget_inv_def)
  ultimately have "covered (fst (release b t))"
    by (rule covered_mono [OF assms(4)])
  then show ?thesis using assms(2) Op_release by (simp add: not_halted_op)
next
  case (Op_settle now t tokens usd)
  let ?k = "book b t tokens usd" and ?b = "budget_step b e"
  have sch: "BudgetStateSchema b" using assms(1) by (simp add: budget_inv_def)
  have "committed ?k \<le> committed b"
    using committed_book [OF sch] assms(5) Op_settle by blast
  then have cov: "covered ?k"
    using assms(4) by (rule covered_mono [rotated 2]) (simp add: book_def)
  have "\<not> halted ?k" using assms(2) by (simp add: book_def halted_def)
  then have nh: "\<not> halted ?b"
    using covered_spent [OF book_schema [OF sch] cov] assms(3) Op_settle
    by (simp add: settle_book Let_def halt_on_usd_trips halt_on_tokens_trips book_def)
  have eq: "?b = halt_on_usd now (halt_on_tokens now ?k)"
    using Op_settle by (simp add: settle_book Let_def)
  have "committed ?b = committed ?k" "b_tokens_ceiling ?b = b_tokens_ceiling ?k"
    by (simp_all add: eq committed_def reservedTotal_def)
  then have "covered ?b" by (intro covered_mono [OF cov]) simp_all
  with nh show ?thesis by simp
qed

text \<open>
  C4: no overshoot between admission and accounting. From any un-halted state whose spend plus
  outstanding holds is within the token ceiling, a run of admissions, releases and settlements in
  which each task books at most the hold it took keeps spend plus holds within the ceiling, and
  never halts the run.
\<close>

theorem budget_no_overshoot:
  assumes "budget_inv b" and "\<not> halted b" and "b_usd_ceiling b = None"
    and "covered b" and "covered_run b es"
  shows "\<not> halted (foldl budget_step b es) \<and> covered (foldl budget_step b es)"
  using assms
proof (induction es arbitrary: b)
  case (Cons e es)
  let ?b = "budget_step b e"
  have "\<not> halted ?b \<and> covered ?b"
    using Cons.prems by (intro covered_step) auto
  moreover have "b_usd_ceiling ?b = None"
    using budget_step_le [of b e] Cons.prems(3) by (simp add: budget_le_def)
  moreover have "budget_inv ?b" using Cons.prems(1) by (rule budget_step_inv)
  ultimately show ?case using Cons.IH [of ?b] Cons.prems(5) by simp
qed simp

definition sample_budget :: budget where
  "sample_budget =
     \<lparr>b_run_id = ''r1'', b_tokens_ceiling = Some 100, b_usd_ceiling = None, b_tokens_spent = 10,
      b_usd_spent = 0, b_reserved = [], b_halted_at = None, b_halted_reason = None\<rparr>"

definition sample_ops :: "budget_op list" where
  "sample_ops = [Op_admit ''a'' 60 2, Op_admit ''b'' 40 2, Op_settle ''t'' ''a'' 55 None]"

lemma sample_budget_ok:
  "budget_inv sample_budget" "\<not> halted sample_budget" "b_usd_ceiling sample_budget = None"
  "covered sample_budget"
  by (simp_all add: sample_budget_def budget_inv_def BudgetStateSchema_def MAX_SHORT_def
      halted_def covered_def committed_def reservedTotal_def obj_total_def)

lemma sample_ops_covered: "covered_run sample_budget sample_ops"
  by (simp add: sample_ops_def sample_budget_def admit_def obj_in_def obj_own_def
      object_prototype_keys_def inFlight_def reservedTotal_def obj_total_def Let_def)

theorem budget_no_overshoot_witness:
  "\<not> halted (foldl budget_step sample_budget sample_ops)
   \<and> covered (foldl budget_step sample_budget sample_ops)"
  by (rule budget_no_overshoot [OF sample_budget_ok sample_ops_covered])

text \<open>
  Admission, exactly. For a task that holds no slot, \<open>admit\<close> grants exactly when the run is
  not halted, a slot is free and the projection fits; a grant records the hold and changes
  nothing else, a refusal changes nothing, and the refusal names the first failing reason in the
  order halt, concurrency, ceiling.
\<close>

theorem admit_correct:
  assumes "plain_key t" and "\<not> holdsSlot b t"
  shows "admit b t r m =
    (if halted b then (b, Refused_halted (b_halted_reason b))
     else if m \<le> int (length (inFlight b)) then (b, Refused_max_concurrent (length (inFlight b)) m)
     else if covered (b\<lparr>b_reserved := (t, r) # b_reserved b\<rparr>)
       then (b\<lparr>b_reserved := b_reserved b @ [(t, r)]\<rparr>, Admitted (Some r))
     else (b, Refused_would_exceed (committed b + r) (the (b_tokens_ceiling b))))"
proof -
  have fresh: "\<not> obj_in (b_reserved b) t" using assms(2) by (simp add: holdsSlot_def)
  have "\<not> obj_own xs t \<Longrightarrow> AList.update t r xs = xs @ [(t, r)]" for xs
    by (induction xs) (auto simp: obj_own_def)
  then have "AList.update t r (b_reserved b) = b_reserved b @ [(t, r)]"
    using fresh by (simp add: obj_in_def)
  then show ?thesis using fresh
    by (simp add: admit_def halted_def Let_def covered_def committed_def reservedTotal_def
        obj_total_def algebra_simps split: option.splits)
qed

theorem admit_correct_witness:
  "admit sample_budget ''a'' 95 2 = (sample_budget, Refused_would_exceed 105 100)"
proof -
  have k: "plain_key ''a''" by (simp add: plain_key_def object_prototype_keys_def)
  have h: "\<not> holdsSlot sample_budget ''a''"
    by (simp add: holdsSlot_def sample_budget_def obj_in_def obj_own_def object_prototype_keys_def)
  show ?thesis
    using admit_correct [OF k h, of 95 2]
    by (simp add: sample_budget_def halted_def inFlight_def covered_def committed_def
        reservedTotal_def obj_total_def)
qed

text \<open>
  A halt is final. Once a run is halted, no sequence of operations lifts the halt or changes
  its recorded time and reason, every later admission is refused with that reason, and spend
  never decreases.
\<close>

theorem budget_halt_final:
  assumes "budget_inv b" and "halted b"
  shows "b_halted_at (foldl budget_step b es) = b_halted_at b
    \<and> b_halted_reason (foldl budget_step b es) = b_halted_reason b
    \<and> b_tokens_spent b \<le> b_tokens_spent (foldl budget_step b es)
    \<and> admit (foldl budget_step b es) t r m =
        (foldl budget_step b es, Refused_halted (b_halted_reason b))"
proof -
  have le: "budget_le b (foldl budget_step b es)" using assms(1) by (rule budgets.le_run)
  then show ?thesis using assms(2) by (auto simp: budget_le_def admit_def halted_def)
qed

theorem budget_halt_final_witness:
  "b_halted_at (foldl budget_step
     (sample_budget\<lparr>b_halted_at := Some ''t0'', b_tokens_spent := 120\<rparr>)
     [Op_settle ''t1'' ''a'' 500 None]) = Some ''t0''"
proof -
  let ?b = "sample_budget\<lparr>b_halted_at := Some ''t0'', b_tokens_spent := 120\<rparr>"
  have i: "budget_inv ?b"
    by (simp add: sample_budget_def budget_inv_def BudgetStateSchema_def MAX_SHORT_def halted_def)
  have h: "halted ?b" by (simp add: halted_def)
  show ?thesis
    using budget_halt_final [OF i h, of "[Op_settle ''t1'' ''a'' 500 None]" "[]" 0 0] by simp
qed

lemma emptyBudget_fields:
  "emptyBudget r c u = Inr b \<Longrightarrow>
   b = \<lparr>b_run_id = r, b_tokens_ceiling = c, b_usd_ceiling = u, b_tokens_spent = 0,
        b_usd_spent = 0, b_reserved = [], b_halted_at = None, b_halted_reason = None\<rparr>"
  by (simp add: emptyBudget_def Let_def split: if_splits)

lemma resumeBudget_unfold:
  assumes "resumeBudget now runId tc opening persisted = Inr b"
  obtains e where "emptyBudget runId tc None = Inr e"
    and "b = resume_halt now tc persisted (e\<lparr>b_tokens_spent := max 0 \<lfloor>opening\<rfloor>\<rparr>)"
    and "BudgetStateSchema b" and "foreign_budget runId persisted = None"
  using assms by (auto simp: resumeBudget_def Let_def split: option.splits sum.splits if_splits)

lemma resumeBudget_inv:
  assumes "resumeBudget now runId tc opening persisted = Inr b"
  shows "budget_inv b"
proof -
  obtain e where e: "emptyBudget runId tc None = Inr e"
    and b: "b = resume_halt now tc persisted (e\<lparr>b_tokens_spent := max 0 \<lfloor>opening\<rfloor>\<rparr>)"
    and sch: "BudgetStateSchema b"
    using assms by (rule resumeBudget_unfold)
  show ?thesis
    using sch by (auto simp: b emptyBudget_fields [OF e] resume_halt_def budget_inv_def halted_def
        split: option.splits)
qed

text \<open>
  Restart. A resumed budget never adopts another run's file; otherwise it drops every hold,
  takes exactly the observed spend (rounded down, never negative), carries a persisted halt, and
  an observation past the ceiling is halted at once.
\<close>

theorem resumeBudget_correct:
  assumes "resumeBudget now runId tc opening persisted = Inr b"
  shows "(\<forall>p. persisted = Some p \<longrightarrow> b_run_id p = runId)
    \<and> b_reserved b = []
    \<and> b_tokens_spent b = max 0 \<lfloor>opening\<rfloor>
    \<and> b_tokens_ceiling b = tc
    \<and> (\<forall>p. persisted = Some p \<and> halted p \<longrightarrow>
          b_halted_at b = b_halted_at p \<and> b_halted_reason b = b_halted_reason p)
    \<and> (\<forall>c. tc = Some c \<and> c < \<lfloor>opening\<rfloor> \<longrightarrow> halted b)"
proof -
  obtain e where e: "emptyBudget runId tc None = Inr e"
    and b: "b = resume_halt now tc persisted (e\<lparr>b_tokens_spent := max 0 \<lfloor>opening\<rfloor>\<rparr>)"
    and f: "foreign_budget runId persisted = None"
    using assms by (rule resumeBudget_unfold)
  have own: "\<forall>p. persisted = Some p \<longrightarrow> b_run_id p = runId"
    using f by (simp add: foreign_budget_def split: option.splits if_splits)
  then show ?thesis
    by (auto simp: b emptyBudget_fields [OF e] resume_halt_def persisted_halt_def halted_def
        split: option.splits)
qed

theorem resumeBudget_correct_witness:
  "\<exists>b. resumeBudget ''now'' ''r1'' (Some 100) (1207 / 10)
          (Some (sample_budget\<lparr>b_reserved := [(''a'', 5)]\<rparr>)) = Inr b
       \<and> b_tokens_spent b = 120 \<and> b_reserved b = [] \<and> halted b"
proof -
  let ?p = "sample_budget\<lparr>b_reserved := [(''a'', 5)]\<rparr>"
  have fl: "\<lfloor>1207 / 10 :: rat\<rfloor> = 120" by (simp add: floor_eq_iff)
  obtain b where b: "resumeBudget ''now'' ''r1'' (Some 100) (1207 / 10) (Some ?p) = Inr b"
    by (simp add: resumeBudget_def foreign_budget_def sample_budget_def emptyBudget_def
        BudgetStateSchema_def MAX_SHORT_def Let_def resume_halt_def persisted_halt_def fl)
  then show ?thesis using resumeBudget_correct [OF b] fl by auto
qed

text \<open>
  The ceiling trips on actual spend. Every state a run can reach from a resumed budget is
  halted or has spent no more than its token ceiling, so the run's exit code is the budget code
  whenever the ceiling was crossed.
\<close>

theorem budget_ceiling_trips:
  assumes "resumeBudget now runId tc opening persisted = Inr b"
    and "b_tokens_ceiling (foldl budget_step b es) = Some c"
    and "c < b_tokens_spent (foldl budget_step b es)"
  shows "budgetExitCode (foldl budget_step b es) = EXIT_BUDGET"
proof -
  have "budget_inv b" using assms(1) by (rule resumeBudget_inv)
  then have "budget_inv (foldl budget_step b es)" by (rule budgets.inv_run)
  then show ?thesis using assms(2,3) by (auto simp: budget_inv_def halted_def budgetExitCode_def)
qed

theorem budget_ceiling_trips_witness:
  "\<exists>b. resumeBudget ''now'' ''r1'' (Some 100) 10 None = Inr b
       \<and> budgetExitCode (foldl budget_step b [Op_settle ''t1'' ''a'' 500 None]) = EXIT_BUDGET"
proof -
  let ?es = "[Op_settle ''t1'' ''a'' 500 None]"
  obtain b where b: "resumeBudget ''now'' ''r1'' (Some 100) 10 None = Inr b"
    and c: "b_tokens_ceiling b = Some 100" "b_tokens_spent b = 10" "b_reserved b = []"
    by (simp add: resumeBudget_def foreign_budget_def emptyBudget_def
        BudgetStateSchema_def MAX_SHORT_def Let_def resume_halt_def persisted_halt_def)
  have "b_tokens_ceiling (foldl budget_step b ?es) = Some 100"
    "100 < b_tokens_spent (foldl budget_step b ?es)"
    by (simp_all add: settle_book Let_def book_def c)
  then show ?thesis using b budget_ceiling_trips [OF b] by blast
qed

text \<open>
  An inherited name bypasses admission control. For a task whose id is one of the names every
  JavaScript object inherits (\<open>constructor\<close>, \<open>toString\<close>, \dots), \<open>admit\<close> on an un-halted run
  answers ok whatever the ceiling, the spend and the number of tasks in flight, and records no
  hold, so nothing ever refuses it.
\<close>

theorem admit_inherited_name_bypasses:
  assumes "\<not> plain_key t" and "\<not> halted b" and "\<not> obj_own (b_reserved b) t"
  shows "admit b t r m = (b, Admitted None)"
  using assms by (simp add: admit_def halted_def obj_in_def plain_key_def obj_own_map_of)

theorem admit_inherited_name_bypasses_witness:
  "admit (sample_budget\<lparr>b_tokens_spent := 100\<rparr>) ''constructor'' 60 0 =
     (sample_budget\<lparr>b_tokens_spent := 100\<rparr>, Admitted None)"
proof (rule admit_inherited_name_bypasses)
  show "\<not> plain_key ''constructor''" by (simp add: plain_key_def object_prototype_keys_def)
qed (simp_all add: sample_budget_def halted_def obj_own_def)

end
