(* ===== verification/Task_Graph.thy ===== *)
theory Task_Graph
  imports Verdicts
begin

text \<open>
  The dependency DAG behind \<open>dispatch --auto\<close>, \<open>src/orchestrate/graph.ts\<close>: the class
  \<open>TaskGraph\<close> with its constructor, Kahn's algorithm with a list-ordered frontier, and the
  operations the scheduler calls. A thrown error is the left side of a sum. The graph keeps the
  task list's order, a map from ids to nodes and, for each id, the tasks that name it in
  \<open>depends_on\<close>. Of a task's fields the graph and the scheduler read the ones kept here.
\<close>

section \<open>Tasks, nodes, graphs\<close>

record task_spec =
  ts_id :: task_id
  ts_depends_on :: "task_id list"
  ts_worker :: "worker_id option"
  ts_deadline_s :: int

datatype sched_state = S_waiting | S_ready | S_dispatched | S_staged | S_done | S_blocked

record graph_node =
  n_spec :: task_spec
  n_state :: sched_state
  n_worker :: "worker_id option"
  n_taskId :: "task_id option"
  n_blockedBy :: "task_id option"
  n_verdict :: "verdict option"

record task_graph =
  g_order :: "task_id list"
  g_nodes :: "task_id \<Rightarrow> graph_node option"
  g_dependents :: "task_id \<Rightarrow> task_id list"

record scheduled_task =
  st_id :: task_id
  st_state :: sched_state
  st_worker :: "worker_id option"
  st_task_id :: "task_id option"
  st_depends_on :: "task_id list"
  st_blocked_by :: "task_id option"
  st_verdict :: "verdict option"

record tui_edge =
  te_dependent :: task_id
  te_dependency :: task_id
  te_worker :: worker_id

datatype graph_error =
  Tui_dependency "tui_edge list"
| Graph_cycle
| Unknown_task task_id
| Dispatched_while task_id sched_state
| Settled_twice task_id

section \<open>Construction\<close>

definition pinned_workers :: "task_spec list \<Rightarrow> task_id \<Rightarrow> worker_id option" where
  "pinned_workers tasks =
     fold (\<lambda>t m. case ts_worker t of None \<Rightarrow> m | Some w \<Rightarrow> m(ts_id t \<mapsto> w)) tasks Map.empty"

definition tuiDependencyEdges :: "task_spec list \<Rightarrow> worker_id set \<Rightarrow> tui_edge list" where
  "tuiDependencyEdges tasks tuiWorkers =
     (if tuiWorkers = {} then []
      else
        let pinned = pinned_workers tasks
        in concat (map (\<lambda>t. concat (map (\<lambda>dep.
             (case pinned dep of
                Some w \<Rightarrow> if w \<in> tuiWorkers
                          then [\<lparr>te_dependent = ts_id t, te_dependency = dep, te_worker = w\<rparr>]
                          else []
              | None \<Rightarrow> [])) (ts_depends_on t))) tasks))"

definition dependencySatisfied :: "verdict \<Rightarrow> bool" where
  "dependencySatisfied v \<longleftrightarrow> v = Success \<or> v = Partial"

definition initial_node :: "task_spec \<Rightarrow> graph_node" where
  "initial_node t =
     \<lparr>n_spec = t, n_state = (if ts_depends_on t = [] then S_ready else S_waiting),
      n_worker = None, n_taskId = None, n_blockedBy = None, n_verdict = None\<rparr>"

definition add_task :: "task_graph \<Rightarrow> task_spec \<Rightarrow> task_graph" where
  "add_task g t =
     g\<lparr>g_nodes := (g_nodes g)(ts_id t \<mapsto> initial_node t),
       g_dependents :=
         foldl (\<lambda>m dep. m(dep := m dep @ [ts_id t])) (g_dependents g) (ts_depends_on t)\<rparr>"

definition new_graph :: "task_spec list \<Rightarrow> worker_id set \<Rightarrow> graph_error + task_graph" where
  "new_graph tasks tuiWorkers =
     (let bad = tuiDependencyEdges tasks tuiWorkers
      in if bad \<noteq> [] then Inl (Tui_dependency bad)
         else Inr (foldl add_task
                     \<lparr>g_order = map ts_id tasks, g_nodes = Map.empty, g_dependents = (\<lambda>_. [])\<rparr>
                     tasks))"

section \<open>Kahn's algorithm\<close>

text \<open>
  One pass over the list order. The code keeps the emitted ids in a list and in a set of the
  same elements; the list is enough here.
\<close>

type_synonym indegrees = "task_id \<Rightarrow> int"

definition decrement :: "task_id list \<Rightarrow> indegrees \<Rightarrow> indegrees" where
  "decrement deps ind = foldl (\<lambda>m d. m(d := m d - 1)) ind deps"

fun topo_visit ::
  "task_graph \<Rightarrow> indegrees \<times> task_id list \<times> bool \<Rightarrow> task_id \<Rightarrow> indegrees \<times> task_id list \<times> bool" where
  "topo_visit g (ind, out, progressed) i =
     (if i \<in> set out \<or> ind i > 0 then (ind, out, progressed)
      else (decrement (g_dependents g i) ind, out @ [i], True))"

definition topo_round ::
  "task_graph \<Rightarrow> indegrees \<Rightarrow> task_id list \<Rightarrow> indegrees \<times> task_id list \<times> bool" where
  "topo_round g ind out = foldl (topo_visit g) (ind, out, False) (g_order g)"

lemma topo_visits_length:
  "foldl (topo_visit g) (ind, out, p) is = (ind', out', p') \<Longrightarrow>
   length out \<le> length out' \<and> (p' \<longrightarrow> p \<or> length out < length out')"
proof (induction "is" arbitrary: ind out p)
  case (Cons i "is")
  obtain ind1 out1 p1 where v: "topo_visit g (ind, out, p) i = (ind1, out1, p1)"
    using prod_cases3 by blast
  have "length out \<le> length out1 \<and> (p1 \<longrightarrow> p \<or> length out < length out1)"
    using v by (auto split: if_splits)
  moreover have "length out1 \<le> length out' \<and> (p' \<longrightarrow> p1 \<or> length out1 < length out')"
    using Cons.prems v by (intro Cons.IH) simp
  ultimately show ?case by auto
qed simp

lemma topo_round_progress: "(ind', out', True) = topo_round g ind out \<Longrightarrow> length out < length out'"
  using topo_visits_length [of g ind out False "g_order g" ind' out' True]
  by (simp add: topo_round_def)

function topo_loop :: "task_graph \<Rightarrow> indegrees \<Rightarrow> task_id list \<Rightarrow> graph_error + task_id list" where
  "topo_loop g ind out =
     (if length out < length (g_order g)
      then (case topo_round g ind out of
              (ind', out', progressed) \<Rightarrow>
                if \<not> progressed then Inl Graph_cycle else topo_loop g ind' out')
      else Inr out)"
  by pat_completeness auto
termination
  by (relation "measure (\<lambda>(g, ind, out). length (g_order g) - length out)")
    (auto dest: topo_round_progress)

declare topo_loop.simps [simp del]

definition node_deps :: "task_graph \<Rightarrow> task_id \<Rightarrow> task_id list" where
  "node_deps g i = (case g_nodes g i of None \<Rightarrow> [] | Some n \<Rightarrow> ts_depends_on (n_spec n))"

definition topologicalOrder :: "task_graph \<Rightarrow> graph_error + task_id list" where
  "topologicalOrder g = topo_loop g (\<lambda>i. int (length (node_deps g i))) []"

section \<open>The operations the scheduler calls\<close>

definition ready :: "task_graph \<Rightarrow> task_spec list" where
  "ready g = concat (map (\<lambda>i. case g_nodes g i of
       Some n \<Rightarrow> if n_state n = S_ready then [n_spec n] else []
     | None \<Rightarrow> []) (g_order g))"

definition markDispatched ::
  "task_graph \<Rightarrow> task_id \<Rightarrow> worker_id \<Rightarrow> task_id \<Rightarrow> graph_error + task_graph" where
  "markDispatched g i worker taskId =
     (case g_nodes g i of
        None \<Rightarrow> Inl (Unknown_task i)
      | Some n \<Rightarrow>
          if n_state n \<noteq> S_ready then Inl (Dispatched_while i (n_state n))
          else Inr (g\<lparr>g_nodes := (g_nodes g)(i \<mapsto>
                 n\<lparr>n_state := S_dispatched, n_worker := Some worker, n_taskId := Some taskId\<rparr>)\<rparr>))"

text \<open>
  The inner loop of \<open>#sweep\<close>: the first failing dependency in \<open>depends_on\<close> order decides the
  cause. A dependency without a node cannot be met here (\<open>topologicalOrder\<close>, which runs first,
  reports a cycle then); it counts as unsatisfied.
\<close>

fun scan_deps :: "task_graph \<Rightarrow> task_id list \<Rightarrow> task_id option \<times> bool \<Rightarrow> task_id option \<times> bool" where
  "scan_deps g [] acc = acc"
| "scan_deps g (dep # deps) (blockedBy, allSatisfied) =
     (case g_nodes g dep of
        None \<Rightarrow> scan_deps g deps (blockedBy, False)
      | Some d \<Rightarrow>
          if n_state d = S_blocked
          then scan_deps g deps (if blockedBy = None then n_blockedBy d else blockedBy, False)
          else if n_state d = S_done \<and> \<not> dependencySatisfied (the (n_verdict d))
          then scan_deps g deps (if blockedBy = None then Some dep else blockedBy, False)
          else if n_state d \<noteq> S_done
          then scan_deps g deps (blockedBy, False)
          else scan_deps g deps (blockedBy, allSatisfied))"

definition sweep_node :: "task_graph \<Rightarrow> task_id \<Rightarrow> task_graph" where
  "sweep_node g i =
     (case g_nodes g i of
        None \<Rightarrow> g
      | Some n \<Rightarrow>
          if n_state n = S_done \<or> n_state n = S_dispatched then g
          else (case scan_deps g (ts_depends_on (n_spec n)) (None, True) of
                  (Some c, _) \<Rightarrow>
                    g\<lparr>g_nodes := (g_nodes g)(i \<mapsto> n\<lparr>n_state := S_blocked, n_blockedBy := Some c\<rparr>)\<rparr>
                | (None, allSatisfied) \<Rightarrow>
                    if n_state n \<noteq> S_blocked \<and> allSatisfied
                    then g\<lparr>g_nodes := (g_nodes g)(i \<mapsto> n\<lparr>n_state := S_ready\<rparr>)\<rparr>
                    else g))"

definition sweep :: "task_graph \<Rightarrow> graph_error + task_graph" where
  "sweep g =
     (case topologicalOrder g of
        Inl e \<Rightarrow> Inl e
      | Inr ids \<Rightarrow> Inr (foldl sweep_node g ids))"

definition settle_node :: "verdict \<Rightarrow> (worker_id \<times> task_id) option \<Rightarrow> graph_node \<Rightarrow> graph_node" where
  "settle_node verdict origin n =
     (let n' = n\<lparr>n_state := S_done, n_verdict := Some verdict\<rparr>
      in case origin of
           None \<Rightarrow> n'
         | Some (w, t) \<Rightarrow> n'\<lparr>n_worker := Some w, n_taskId := Some t\<rparr>)"

definition markSettled ::
  "task_graph \<Rightarrow> task_id \<Rightarrow> verdict \<Rightarrow> (worker_id \<times> task_id) option \<Rightarrow> graph_error + task_graph" where
  "markSettled g i verdict origin =
     (case g_nodes g i of
        None \<Rightarrow> Inl (Unknown_task i)
      | Some n \<Rightarrow>
          if n_state n = S_done \<or> n_state n = S_blocked then Inl (Settled_twice i)
          else sweep (g\<lparr>g_nodes := (g_nodes g)(i \<mapsto> settle_node verdict origin n)\<rparr>))"

definition allTerminal :: "task_graph \<Rightarrow> bool" where
  "allTerminal g = list_all (\<lambda>i. case g_nodes g i of
       Some n \<Rightarrow> n_state n = S_done \<or> n_state n = S_blocked
     | None \<Rightarrow> True) (g_order g)"

definition snapshot :: "task_graph \<Rightarrow> scheduled_task list" where
  "snapshot g = concat (map (\<lambda>i. case g_nodes g i of
       Some n \<Rightarrow> [\<lparr>st_id = i, st_state = n_state n, st_worker = n_worker n,
                   st_task_id = n_taskId n, st_depends_on = ts_depends_on (n_spec n),
                   st_blocked_by = n_blockedBy n, st_verdict = n_verdict n\<rparr>]
     | None \<Rightarrow> []) (g_order g))"

section \<open>Well-formed graphs\<close>

text \<open>The edges of a task list, from a dependency to the task that waits for it.\<close>

definition dep_edges :: "task_spec list \<Rightarrow> (task_id \<times> task_id) set" where
  "dep_edges tasks = {(d, ts_id t) | d t. t \<in> set tasks \<and> d \<in> set (ts_depends_on t)}"

text \<open>What \<open>tasklist.ts\<close> checks before a graph is built, short of acyclicity.\<close>

definition ids_ok :: "task_spec list \<Rightarrow> bool" where
  "ids_ok tasks \<longleftrightarrow>
     distinct (map ts_id tasks)
     \<and> (\<forall>t \<in> set tasks. set (ts_depends_on t) \<subseteq> ts_id ` set tasks)"

definition graph_wf :: "task_spec list \<Rightarrow> task_graph \<Rightarrow> bool" where
  "graph_wf tasks g \<longleftrightarrow>
     ids_ok tasks
     \<and> g_order g = map ts_id tasks
     \<and> dom (g_nodes g) = ts_id ` set tasks
     \<and> (\<forall>t \<in> set tasks. \<forall>n. g_nodes g (ts_id t) = Some n \<longrightarrow> n_spec n = t)
     \<and> (\<forall>t \<in> set tasks. \<forall>d. count_list (g_dependents g d) (ts_id t) = count_list (ts_depends_on t) d)
     \<and> (\<forall>d. set (g_dependents g d) \<subseteq> ts_id ` set tasks)"

lemma graph_wf_node:
  assumes "graph_wf tasks g" and "t \<in> set tasks"
  obtains n where "g_nodes g (ts_id t) = Some n" and "n_spec n = t"
  using assms by (fastforce simp: graph_wf_def dom_def)

lemma graph_wf_deps: "graph_wf tasks g \<Longrightarrow> t \<in> set tasks \<Longrightarrow> node_deps g (ts_id t) = ts_depends_on t"
  by (erule (1) graph_wf_node) (simp add: node_deps_def)

lemma graph_wf_order: "graph_wf tasks g \<Longrightarrow> set (g_order g) = ts_id ` set tasks"
  by (simp add: graph_wf_def)

lemma dep_edges_iff:
  assumes "graph_wf tasks g"
  shows "(d, i) \<in> dep_edges tasks \<longleftrightarrow> i \<in> set (g_order g) \<and> d \<in> set (node_deps g i)"
proof
  assume "(d, i) \<in> dep_edges tasks"
  then obtain t where "t \<in> set tasks" "i = ts_id t" "d \<in> set (ts_depends_on t)"
    by (auto simp: dep_edges_def)
  with assms show "i \<in> set (g_order g) \<and> d \<in> set (node_deps g i)"
    by (simp add: graph_wf_deps graph_wf_order)
next
  assume a: "i \<in> set (g_order g) \<and> d \<in> set (node_deps g i)"
  then obtain t where "t \<in> set tasks" "i = ts_id t" using assms by (auto simp: graph_wf_order)
  with a assms show "(d, i) \<in> dep_edges tasks" by (auto simp: dep_edges_def graph_wf_deps)
qed

lemma node_deps_closed:
  assumes "graph_wf tasks g"
  shows "set (node_deps g i) \<subseteq> set (g_order g)"
proof (cases "g_nodes g i")
  case (Some n)
  then obtain t where "t \<in> set tasks" "i = ts_id t" using assms
    by (force simp: graph_wf_def dom_def)
  then show ?thesis using assms
    by (simp add: graph_wf_deps graph_wf_order) (simp add: graph_wf_def ids_ok_def)
qed (simp add: node_deps_def)

text \<open>The constructor builds a well-formed graph.\<close>

lemma add_dependents:
  "foldl (\<lambda>m dep. m(dep := m dep @ [i])) m deps d = m d @ replicate (count_list deps d) i"
  by (induction deps arbitrary: m) (auto simp: replicate_append_same [symmetric])

lemma add_tasks_fields:
  "g_order (foldl add_task g ts) = g_order g"
  "distinct (map ts_id ts) \<Longrightarrow> g_nodes (foldl add_task g ts) =
     (\<lambda>i. case find (\<lambda>t. ts_id t = i) ts of Some t \<Rightarrow> Some (initial_node t) | None \<Rightarrow> g_nodes g i)"
  "g_dependents (foldl add_task g ts) d =
     g_dependents g d @ concat (map (\<lambda>t. replicate (count_list (ts_depends_on t) d) (ts_id t)) ts)"
proof (induction ts arbitrary: g)
  case (Cons t ts)
  { case 1 show ?case using Cons.IH(1) by (simp add: add_task_def) }
  { case 2
    then have "find (\<lambda>t'. ts_id t' = ts_id t) ts = None" by (auto simp: find_None_iff) (metis image_eqI)
    then show ?case using 2 Cons.IH(2) [of "add_task g t"]
      by (auto simp: add_task_def fun_eq_iff split: option.splits) }
  { case 3 show ?case using Cons.IH(3) [of "add_task g t"]
      by (simp add: add_task_def add_dependents) }
qed simp_all

lemma count_list_replicates:
  "distinct (map ts_id ts) \<Longrightarrow> t \<in> set ts \<Longrightarrow>
   count_list (concat (map (\<lambda>t. replicate (f t) (ts_id t)) ts)) (ts_id t) = f t"
proof (induction ts)
  case (Cons s ts)
  have rep: "count_list (replicate n x) y = (if x = y then n else 0)" for n and x y :: task_id
    by (induction n) auto
  show ?case
  proof (cases "s = t")
    case True
    then have "ts_id t \<notin> ts_id ` set ts" using Cons.prems by auto
    then have "count_list (concat (map (\<lambda>t. replicate (f t) (ts_id t)) ts)) (ts_id t) = 0"
      by (auto simp: count_list_0_iff)
    then show ?thesis using True by (simp add: rep)
  next
    case False
    then have "ts_id s \<noteq> ts_id t" using Cons.prems by force
    then show ?thesis using Cons False by (simp add: rep)
  qed
qed simp

lemma new_graph_wf:
  assumes "ids_ok tasks" and "new_graph tasks tui = Inr g"
  shows "graph_wf tasks g"
    and "\<And>t. t \<in> set tasks \<Longrightarrow> g_nodes g (ts_id t) = Some (initial_node t)"
proof -
  let ?g0 = "\<lparr>g_order = map ts_id tasks, g_nodes = Map.empty, g_dependents = (\<lambda>_. [])\<rparr>"
  have g: "g = foldl add_task ?g0 tasks"
    using assms(2) by (simp add: new_graph_def Let_def split: if_splits)
  have d: "distinct (map ts_id tasks)" using assms(1) by (simp add: ids_ok_def)
  have found: "find (\<lambda>t'. ts_id t' = ts_id t) tasks = Some t" if "t \<in> set tasks" for t
    using that d by (induction tasks) auto
  show nodes: "g_nodes g (ts_id t) = Some (initial_node t)" if "t \<in> set tasks" for t
    using found [OF that] by (simp add: g add_tasks_fields(2) [OF d])
  have "dom (g_nodes g) = ts_id ` set tasks"
  proof
    show "dom (g_nodes g) \<subseteq> ts_id ` set tasks"
      by (auto simp: g add_tasks_fields(2) [OF d] find_Some_iff split: option.splits)
    show "ts_id ` set tasks \<subseteq> dom (g_nodes g)" using nodes by auto
  qed
  then show "graph_wf tasks g"
    using assms(1) nodes d
    by (auto simp: graph_wf_def g add_tasks_fields(1,3) count_list_replicates initial_node_def)
qed

end
