(* ===== verification/Topo_Order.thy ===== *)
theory Topo_Order
  imports Task_Graph
begin

text \<open>
  Correctness of \<open>topologicalOrder\<close>: on a well-formed graph it succeeds exactly when the
  dependency relation is acyclic, and then it lists every task once, each after all of its
  dependencies.
\<close>

section \<open>The invariant of a pass\<close>

definition pending :: "task_graph \<Rightarrow> task_id list \<Rightarrow> task_id \<Rightarrow> nat" where
  "pending g out i = length (filter (\<lambda>d. d \<notin> set out) (node_deps g i))"

definition deps_before :: "task_graph \<Rightarrow> task_id list \<Rightarrow> bool" where
  "deps_before g out \<longleftrightarrow>
     (\<forall>xs i ys. out = xs @ i # ys \<longrightarrow> set (node_deps g i) \<subseteq> set xs)"

definition topo_inv :: "task_graph \<Rightarrow> indegrees \<Rightarrow> task_id list \<Rightarrow> bool" where
  "topo_inv g ind out \<longleftrightarrow>
     distinct out \<and> set out \<subseteq> set (g_order g) \<and> deps_before g out
     \<and> (\<forall>i \<in> set (g_order g). ind i = int (pending g out i))"

lemma deps_before_snoc:
  "deps_before g (out @ [i]) \<longleftrightarrow> deps_before g out \<and> set (node_deps g i) \<subseteq> set out"
proof
  assume l: "deps_before g (out @ [i])"
  have "deps_before g out"
    unfolding deps_before_def
  proof (intro allI impI)
    fix xs j ys assume "out = xs @ j # ys"
    then have "out @ [i] = xs @ j # (ys @ [i])" by simp
    then show "set (node_deps g j) \<subseteq> set xs" using l unfolding deps_before_def by blast
  qed
  moreover have "set (node_deps g i) \<subseteq> set out" using l by (simp add: deps_before_def)
  ultimately show "deps_before g out \<and> set (node_deps g i) \<subseteq> set out" ..
next
  assume r: "deps_before g out \<and> set (node_deps g i) \<subseteq> set out"
  show "deps_before g (out @ [i])"
    unfolding deps_before_def
  proof (intro allI impI)
    fix xs j ys assume eq: "out @ [i] = xs @ j # ys"
    show "set (node_deps g j) \<subseteq> set xs"
    proof (cases ys rule: rev_cases)
      case Nil
      then show ?thesis using eq r by simp
    next
      case (snoc zs z)
      then have "out = xs @ j # zs" using eq by simp
      then show ?thesis using r unfolding deps_before_def by blast
    qed
  qed
qed

lemma decrement_count: "decrement ds ind i = ind i - int (count_list ds i)"
proof (induction ds arbitrary: ind)
  case (Cons d ds)
  then show ?case using Cons.IH [of "ind(d := ind d - 1)"] by (simp add: decrement_def)
qed (simp add: decrement_def)

lemma filter_drop_one:
  "i \<notin> S \<Longrightarrow> int (length (filter (\<lambda>d. d \<notin> insert i S) ds)) =
     int (length (filter (\<lambda>d. d \<notin> S) ds)) - int (count_list ds i)"
  by (induction ds) auto

lemma pending_snoc:
  "i \<notin> set out \<Longrightarrow>
   int (pending g (out @ [i]) j) = int (pending g out j) - int (count_list (node_deps g j) i)"
  using filter_drop_one [of i "set out" "node_deps g j"] by (simp add: pending_def)

lemma topo_visit_inv:
  assumes wf: "graph_wf tasks g" and inv: "topo_inv g ind out" and i: "i \<in> set (g_order g)"
    and v: "topo_visit g (ind, out, p) i = (ind', out', p')"
  shows "topo_inv g ind' out'"
proof (cases "i \<in> set out \<or> ind i > 0")
  case True
  then show ?thesis using v inv by simp
next
  case False
  then have eq: "ind' = decrement (g_dependents g i) ind" "out' = out @ [i]"
    using v by auto
  have "pending g out i = 0" using False inv i by (simp add: topo_inv_def)
  then have deps: "set (node_deps g i) \<subseteq> set out" by (auto simp: pending_def filter_empty_conv)
  have "ind' j = int (pending g out' j)" if j: "j \<in> set (g_order g)" for j
  proof -
    obtain t where t: "t \<in> set tasks" "j = ts_id t" using wf j by (auto simp: graph_wf_order)
    have "count_list (g_dependents g i) j = count_list (node_deps g j) i"
      using wf t by (simp add: graph_wf_deps) (simp add: graph_wf_def)
    then show ?thesis
      using False inv j by (simp add: eq decrement_count pending_snoc topo_inv_def)
  qed
  then show ?thesis using inv False i deps
    by (auto simp: topo_inv_def eq deps_before_snoc)
qed

lemma topo_visits_inv:
  assumes wf: "graph_wf tasks g"
  shows "topo_inv g ind out \<Longrightarrow> set is \<subseteq> set (g_order g) \<Longrightarrow>
    foldl (topo_visit g) (ind, out, p) is = (ind', out', p') \<Longrightarrow> topo_inv g ind' out'"
proof (induction "is" arbitrary: ind out p)
  case (Cons i "is")
  obtain ind1 out1 p1 where v: "topo_visit g (ind, out, p) i = (ind1, out1, p1)"
    using prod_cases3 by blast
  have "topo_inv g ind1 out1"
    using topo_visit_inv [OF wf Cons.prems(1) _ v] Cons.prems(2) by simp
  moreover have "foldl (topo_visit g) (ind1, out1, p1) is = (ind', out', p')"
    using Cons.prems(3) v by simp
  ultimately show ?case using Cons.IH Cons.prems(2) by simp
qed simp

lemma topo_round_inv:
  "graph_wf tasks g \<Longrightarrow> topo_inv g ind out \<Longrightarrow> topo_round g ind out = (ind', out', p') \<Longrightarrow>
   topo_inv g ind' out'"
  unfolding topo_round_def by (rule topo_visits_inv [where p = False]) auto

text \<open>A pass without progress visited only tasks that still wait for something.\<close>

lemma topo_visits_stuck:
  "foldl (topo_visit g) (ind, out, p) is = (ind', out', False) \<Longrightarrow>
   \<not> p \<and> (\<forall>i \<in> set is. i \<in> set out \<or> ind i > 0)"
proof (induction "is" arbitrary: ind out p)
  case (Cons i "is")
  show ?case
  proof (cases "i \<in> set out \<or> ind i > 0")
    case True
    then show ?thesis using Cons by auto
  next
    case False
    then have "foldl (topo_visit g) (decrement (g_dependents g i) ind, out @ [i], True) is =
        (ind', out', False)"
      using Cons.prems by simp
    then show ?thesis using Cons.IH by blast
  qed
qed simp

section \<open>The loop\<close>

lemma topo_loop_sound:
  "graph_wf tasks g \<Longrightarrow> topo_inv g ind out \<Longrightarrow> topo_loop g ind out = Inr res \<Longrightarrow>
   distinct res \<and> set res = set (g_order g) \<and> deps_before g res"
proof (induction g ind out rule: topo_loop.induct)
  case (1 g ind out)
  show ?case
  proof (cases "length out < length (g_order g)")
    case True
    obtain ind' out' p' where r: "topo_round g ind out = (ind', out', p')"
      using prod_cases3 by blast
    have p': "p'" and res: "topo_loop g ind' out' = Inr res"
      using 1(4) True r by (simp_all add: topo_loop.simps [of g ind out] split: if_splits)
    have "topo_inv g ind' out'" using 1(2,3) r by (rule topo_round_inv)
    then show ?thesis using 1(1) [OF True r [symmetric] refl] p' 1(2) res by simp
  next
    case False
    have d: "distinct out" "set out \<subseteq> set (g_order g)" "deps_before g out"
      using 1(3) by (simp_all add: topo_inv_def)
    have "card (set (g_order g)) \<le> card (set out)"
      using False d(1) distinct_card [of out] card_length [of "g_order g"] by simp
    then have "set out = set (g_order g)"
      using d(2) by (intro card_seteq) auto
    then show ?thesis using False d 1(4) by (simp add: topo_loop.simps [of g ind out])
  qed
qed

lemma finite_dep_edges: "finite (dep_edges tasks)"
proof -
  have "dep_edges tasks = (\<Union>t \<in> set tasks. (\<lambda>d. (d, ts_id t)) ` set (ts_depends_on t))"
    by (auto simp: dep_edges_def)
  then show ?thesis by simp
qed

text \<open>Tasks that each wait for another of them are on a cycle.\<close>

lemma waiting_set_cyclic:
  assumes "R \<noteq> {}" and "\<And>i. i \<in> R \<Longrightarrow> \<exists>d \<in> R. (d, i) \<in> dep_edges tasks"
  shows "\<not> acyclic (dep_edges tasks)"
proof
  assume "acyclic (dep_edges tasks)"
  then have "wf (dep_edges tasks)" by (rule finite_acyclic_wf [OF finite_dep_edges])
  moreover obtain x where "x \<in> R" using assms(1) by blast
  ultimately obtain z where "z \<in> R" "\<And>y. (y, z) \<in> dep_edges tasks \<Longrightarrow> y \<notin> R"
    by (rule wfE_min) blast
  then show False using assms(2) by blast
qed

lemma topo_loop_cycle:
  "graph_wf tasks g \<Longrightarrow> topo_inv g ind out \<Longrightarrow> topo_loop g ind out = Inl e \<Longrightarrow>
   e = Graph_cycle \<and> \<not> acyclic (dep_edges tasks)"
proof (induction g ind out rule: topo_loop.induct)
  case (1 g ind out)
  then have lt: "length out < length (g_order g)"
    by (simp add: topo_loop.simps [of g ind out] split: if_splits)
  obtain ind' out' p' where r: "topo_round g ind out = (ind', out', p')"
    using prod_cases3 by blast
  show ?case
  proof (cases p')
    case True
    then have "topo_loop g ind' out' = Inl e"
      using 1(4) lt r by (simp add: topo_loop.simps [of g ind out])
    moreover have "topo_inv g ind' out'" using 1(2,3) r by (rule topo_round_inv)
    ultimately show ?thesis using 1(1) [OF lt r [symmetric] refl] True 1(2) by simp
  next
    case False
    let ?R = "set (g_order g) - set out"
    have inv: "distinct out" "\<forall>i \<in> set (g_order g). ind i = int (pending g out i)"
      using 1(3) by (simp_all add: topo_inv_def)
    have stuck: "\<forall>i \<in> set (g_order g). i \<in> set out \<or> ind i > 0"
      using topo_visits_stuck [of g ind out False "g_order g" ind' out'] r False
      by (simp add: topo_round_def)
    have "\<exists>d \<in> ?R. (d, i) \<in> dep_edges tasks" if "i \<in> ?R" for i
    proof -
      have "pending g out i > 0" using that inv(2) stuck by auto
      then obtain d where "d \<in> set (node_deps g i)" "d \<notin> set out"
        by (auto simp: pending_def filter_empty_conv)
      then show ?thesis using that 1(2) node_deps_closed [OF 1(2), of i]
        by (auto simp: dep_edges_iff)
    qed
    moreover have "?R \<noteq> {}"
    proof
      assume "?R = {}"
      then have "card (set (g_order g)) \<le> card (set out)" by (intro card_mono) auto
      moreover have "distinct (g_order g)" using 1(2) by (simp add: graph_wf_def ids_ok_def)
      ultimately show False using lt inv(1) by (simp add: distinct_card)
    qed
    ultimately have "\<not> acyclic (dep_edges tasks)" by (intro waiting_set_cyclic [of ?R])
    then show ?thesis using 1(4) lt r False by (simp add: topo_loop.simps [of g ind out])
  qed
qed

lemma deps_before_acyclic:
  assumes wf: "graph_wf tasks g" and d: "distinct out" "deps_before g out"
    and s: "set out = set (g_order g)"
  shows "acyclic (dep_edges tasks)"
proof -
  have "dep_edges tasks \<subseteq> measure (\<lambda>i. nat (index_of out i))"
  proof (rule subrelI)
    fix x i assume "(x, i) \<in> dep_edges tasks"
    then have i: "i \<in> set out" "x \<in> set (node_deps g i)"
      using wf s by (simp_all add: dep_edges_iff)
    then obtain xs ys where out: "out = xs @ i # ys" by (meson split_list)
    then have "x \<in> set xs" using d(2) i(2) unfolding deps_before_def by blast
    then have "index_of out x < index_of out i" using d(1) index_of_before [of xs i ys x] by (simp add: out)
    moreover have "0 \<le> index_of out x"
      using \<open>x \<in> set xs\<close> out index_of_bounds [of x out] by simp
    ultimately show "(x, i) \<in> measure (\<lambda>i. nat (index_of out i))" by simp
  qed
  then have "wf (dep_edges tasks)" using wf_measure by (rule wf_subset [rotated])
  then show ?thesis by (rule wf_acyclic)
qed

lemma topo_inv_start: "graph_wf tasks g \<Longrightarrow> topo_inv g (\<lambda>i. int (length (node_deps g i))) []"
  by (simp add: topo_inv_def deps_before_def pending_def)

lemma topologicalOrder_Inr:
  assumes "graph_wf tasks g" and "topologicalOrder g = Inr out"
  shows "distinct out" and "set out = set (g_order g)" and "deps_before g out"
  using topo_loop_sound [OF assms(1) topo_inv_start [OF assms(1)]] assms(2)
  by (simp_all add: topologicalOrder_def)

lemma topologicalOrder_total:
  assumes "graph_wf tasks g" and "acyclic (dep_edges tasks)"
  obtains out where "topologicalOrder g = Inr out"
  using topo_loop_cycle [OF assms(1) topo_inv_start [OF assms(1)]] assms(2)
  by (cases "topologicalOrder g") (auto simp: topologicalOrder_def)

text \<open>
  C40: Kahn's algorithm is correct and complete. On a well-formed graph \<open>topologicalOrder\<close> returns,
  exactly when the dependencies are acyclic, an order that lists every task once and each task
  after all its dependencies; otherwise it raises the cycle error.
\<close>

theorem topologicalOrder_correct:
  assumes "graph_wf tasks g"
  shows "case topologicalOrder g of
      Inr out \<Rightarrow> acyclic (dep_edges tasks) \<and> distinct out \<and> set out = ts_id ` set tasks
        \<and> deps_before g out
    | Inl e \<Rightarrow> e = Graph_cycle \<and> \<not> acyclic (dep_edges tasks)"
proof (cases "topologicalOrder g")
  case (Inl e)
  then show ?thesis
    using topo_loop_cycle [OF assms topo_inv_start [OF assms]] by (simp add: topologicalOrder_def)
next
  case (Inr out)
  then show ?thesis
    using topologicalOrder_Inr [OF assms Inr] deps_before_acyclic [OF assms]
    by (simp add: graph_wf_order [OF assms])
qed

end
