(* ===== verification/Graph_Sweep.thy ===== *)
theory Graph_Sweep
  imports Topo_Order
begin

text \<open>
  The meaning of a schedule graph: in every state the scheduler can reach, a task that is
  neither done nor dispatched is exactly what its dependencies make it (blocked with a root
  cause, ready, or waiting). \<open>consistent\<close> says so node by node; the constructor establishes it
  and every operation keeps it. Root causes, the absence of deadlock and independence of the
  settle order follow.
\<close>

section \<open>What the dependencies make of a task\<close>

definition dep_cause :: "task_graph \<Rightarrow> task_id \<Rightarrow> task_id option" where
  "dep_cause g d =
     (case g_nodes g d of
        None \<Rightarrow> None
      | Some n \<Rightarrow>
          if n_state n = S_blocked then n_blockedBy n
          else if n_state n = S_done \<and> \<not> dependencySatisfied (the (n_verdict n)) then Some d
          else None)"

definition dep_ok :: "task_graph \<Rightarrow> task_id \<Rightarrow> bool" where
  "dep_ok g d =
     (case g_nodes g d of
        None \<Rightarrow> False
      | Some n \<Rightarrow> n_state n = S_done \<and> dependencySatisfied (the (n_verdict n)))"

fun first_cause :: "task_graph \<Rightarrow> task_id list \<Rightarrow> task_id option" where
  "first_cause g [] = None"
| "first_cause g (d # ds) = (case dep_cause g d of Some c \<Rightarrow> Some c | None \<Rightarrow> first_cause g ds)"

lemma scan_deps_spec:
  "scan_deps g ds (b, sat) =
     ((case b of Some c \<Rightarrow> Some c | None \<Rightarrow> first_cause g ds), sat \<and> list_all (dep_ok g) ds)"
  by (induction ds arbitrary: b sat)
    (auto simp: dep_cause_def dep_ok_def split: option.splits)

lemma first_cause_None: "first_cause g ds = None \<longleftrightarrow> (\<forall>d \<in> set ds. dep_cause g d = None)"
  by (induction ds) (auto split: option.splits)

lemma first_cause_Some:
  "first_cause g ds = Some c \<Longrightarrow> \<exists>d \<in> set ds. dep_cause g d = Some c"
  by (induction ds) (auto split: option.splits)

lemma first_cause_cong:
  "(\<And>d. d \<in> set ds \<Longrightarrow> dep_cause g d = dep_cause h d) \<Longrightarrow> first_cause g ds = first_cause h ds"
  by (induction ds) (auto split: option.splits)

lemma list_all_ok_cong:
  "(\<And>d. d \<in> set ds \<Longrightarrow> dep_ok g d = dep_ok h d) \<Longrightarrow> list_all (dep_ok g) ds = list_all (dep_ok h) ds"
  by (auto simp: list_all_iff)

text \<open>The state and cause the dependencies of a task call for.\<close>

definition due :: "task_graph \<Rightarrow> task_id list \<Rightarrow> sched_state \<times> task_id option" where
  "due g ds =
     (case first_cause g ds of
        Some c \<Rightarrow> (S_blocked, Some c)
      | None \<Rightarrow> (if list_all (dep_ok g) ds then S_ready else S_waiting, None))"

definition node_ok :: "task_graph \<Rightarrow> graph_node \<Rightarrow> bool" where
  "node_ok g n \<longleftrightarrow>
     (if n_state n = S_done then n_verdict n \<noteq> None \<and> n_blockedBy n = None
      else n_verdict n = None
        \<and> (if n_state n = S_dispatched then n_blockedBy n = None
           else (n_state n, n_blockedBy n) = due g (ts_depends_on (n_spec n))))"

definition consistent :: "task_graph \<Rightarrow> bool" where
  "consistent g \<longleftrightarrow> (\<forall>i n. g_nodes g i = Some n \<longrightarrow> node_ok g n)"

definition graph_inv :: "task_spec list \<Rightarrow> task_graph \<Rightarrow> bool" where
  "graph_inv tasks g \<longleftrightarrow> graph_wf tasks g \<and> acyclic (dep_edges tasks) \<and> consistent g"

lemma due_cong:
  "(\<And>d. d \<in> set ds \<Longrightarrow> dep_cause g d = dep_cause h d \<and> dep_ok g d = dep_ok h d) \<Longrightarrow>
   due g ds = due h ds"
  using first_cause_cong [of ds g h] list_all_ok_cong [of ds g h] by (simp add: due_def)

lemma due_state: "fst (due g ds) \<in> {S_blocked, S_ready, S_waiting}"
  by (simp add: due_def split: option.splits)

lemma consistent_node: "consistent g \<Longrightarrow> g_nodes g i = Some n \<Longrightarrow> node_ok g n"
  by (simp add: consistent_def)

lemma node_ok_blocked: "node_ok g n \<Longrightarrow> n_state n = S_blocked \<Longrightarrow> n_blockedBy n \<noteq> None"
  by (auto simp: node_ok_def due_def split: option.splits if_splits)

section \<open>Construction\<close>

lemma new_graph_consistent:
  assumes ids: "ids_ok tasks" and g: "new_graph tasks tui = Inr g"
  shows "consistent g"
  unfolding consistent_def
proof (intro allI impI)
  fix i n assume n: "g_nodes g i = Some n"
  note wf = new_graph_wf [OF ids g]
  have init: "\<exists>t \<in> set tasks. m = initial_node t" if "g_nodes g j = Some m" for j m
  proof -
    have "j \<in> ts_id ` set tasks" using that wf(1) by (auto simp: graph_wf_def)
    then show ?thesis using that wf(2) by auto
  qed
  have st: "n_state m = S_ready \<or> n_state m = S_waiting" if "g_nodes g j = Some m" for j m
    using init [OF that] by (auto simp: initial_node_def split: if_splits)
  have none: "dep_cause g d = None" "\<not> dep_ok g d" for d
    using st [of d] by (auto simp: dep_cause_def dep_ok_def split: option.splits)
  have "first_cause g ds = None" for ds using none by (simp add: first_cause_None)
  then have "due g ds = (if ds = [] then S_ready else S_waiting, None)" for ds
    using none by (cases ds) (simp_all add: due_def)
  then show "node_ok g n" using init [OF n] by (auto simp: node_ok_def initial_node_def)
qed

section \<open>Updating one node\<close>

lemma graph_wf_update:
  assumes "graph_wf tasks g" and "g_nodes g i = Some n" and "n_spec n' = n_spec n"
  shows "graph_wf tasks (g\<lparr>g_nodes := (g_nodes g)(i \<mapsto> n')\<rparr>)"
proof -
  let ?m = "(g_nodes g)(i \<mapsto> n')"
  have d: "dom ?m = dom (g_nodes g)" using assms(2) by auto
  have s: "\<forall>t \<in> set tasks. \<forall>k. ?m (ts_id t) = Some k \<longrightarrow> n_spec k = t"
  proof (intro ballI allI impI)
    fix t k assume t: "t \<in> set tasks" and k: "?m (ts_id t) = Some k"
    obtain n0 where "g_nodes g (ts_id t) = Some n0" "n_spec n0 = t"
      using assms(1) t by (rule graph_wf_node)
    then show "n_spec k = t" using k assms(2,3) by (cases "ts_id t = i") auto
  qed
  let ?g = "g\<lparr>g_nodes := ?m\<rparr>"
  have "g_order ?g = g_order g" "g_dependents ?g = g_dependents g" "g_nodes ?g = ?m"
    by simp_all
  with assms(1) d s show ?thesis unfolding graph_wf_def by metis
qed

lemma markDispatched_inv:
  assumes inv: "graph_inv tasks g" and d: "markDispatched g i w t = Inr g'"
  shows "graph_inv tasks g'"
proof -
  obtain n where n: "g_nodes g i = Some n" "n_state n = S_ready"
    and g': "g' = g\<lparr>g_nodes := (g_nodes g)(i \<mapsto>
       n\<lparr>n_state := S_dispatched, n_worker := Some w, n_taskId := Some t\<rparr>)\<rparr>"
    using d by (auto simp: markDispatched_def split: option.splits if_splits)
  have same: "dep_cause g' d = dep_cause g d" "dep_ok g' d = dep_ok g d" for d
    using n by (auto simp: g' dep_cause_def dep_ok_def)
  have due: "due g' ds = due g ds" for ds by (rule due_cong) (simp add: same)
  have con: "consistent g" using inv by (simp add: graph_inv_def)
  have "consistent g'"
    unfolding consistent_def
  proof (intro allI impI)
    fix j m assume m: "g_nodes g' j = Some m"
    show "node_ok g' m"
    proof (cases "j = i")
      case True
      then show ?thesis using m consistent_node [OF con n(1)] n(2)
        by (auto simp: g' node_ok_def due_def split: option.splits if_splits)
    next
      case False
      then have "g_nodes g j = Some m" using m by (simp add: g')
      then show ?thesis using consistent_node [OF con] by (fastforce simp: node_ok_def due)
    qed
  qed
  moreover have "graph_wf tasks g'"
    unfolding g' using inv n by (intro graph_wf_update) (simp_all add: graph_inv_def)
  ultimately show ?thesis using inv by (simp add: graph_inv_def)
qed

section \<open>The sweep\<close>

text \<open>
  Between the moment a task is settled and the end of the sweep, the graph is \<open>stale\<close>: every
  node was consistent with an earlier graph \<open>g0\<close> whose done and blocked tasks are still done
  and blocked.
\<close>

definition open_state :: "sched_state \<Rightarrow> bool" where
  "open_state s \<longleftrightarrow> s \<noteq> S_done \<and> s \<noteq> S_dispatched"

definition grown :: "task_graph \<Rightarrow> task_graph \<Rightarrow> bool" where
  "grown g0 g \<longleftrightarrow>
     (\<forall>d. (dep_cause g0 d \<noteq> None \<longrightarrow> dep_cause g d \<noteq> None) \<and> (dep_ok g0 d \<longrightarrow> dep_ok g d))"

definition swept :: "task_graph \<Rightarrow> task_id set \<Rightarrow> bool" where
  "swept g S \<longleftrightarrow> (\<forall>i n. i \<in> S \<longrightarrow> g_nodes g i = Some n \<longrightarrow> node_ok g n)"

definition stale :: "task_graph \<Rightarrow> task_graph \<Rightarrow> task_id set \<Rightarrow> bool" where
  "stale g0 g S \<longleftrightarrow>
     (\<forall>i n. i \<notin> S \<longrightarrow> g_nodes g i = Some n \<longrightarrow>
        (if open_state (n_state n) then g_nodes g0 i = Some n \<and> node_ok g0 n else node_ok g n))"

lemma sweep_node_open:
  assumes n: "g_nodes g i = Some n" and o: "open_state (n_state n)"
    and n0: "node_ok g0 n" and gr: "grown g0 g"
  shows "sweep_node g i = g\<lparr>g_nodes := (g_nodes g)(i \<mapsto>
     n\<lparr>n_state := fst (due g (ts_depends_on (n_spec n))),
       n_blockedBy := snd (due g (ts_depends_on (n_spec n)))\<rparr>)\<rparr>"
    and "n_state n = S_blocked \<Longrightarrow> fst (due g (ts_depends_on (n_spec n))) = S_blocked"
proof -
  let ?ds = "ts_depends_on (n_spec n)"
  have ok0: "(n_state n, n_blockedBy n) = due g0 ?ds"
    using n0 o by (simp add: node_ok_def open_state_def split: if_splits)
  have blocked: "first_cause g ?ds \<noteq> None" if "n_state n = S_blocked"
  proof -
    have "first_cause g0 ?ds \<noteq> None"
      using that ok0 by (auto simp: due_def split: option.splits if_splits)
    then obtain d where "d \<in> set ?ds" "dep_cause g0 d \<noteq> None"
      by (auto simp: first_cause_None)
    then show ?thesis using gr unfolding first_cause_None grown_def by blast
  qed
  then show "n_state n = S_blocked \<Longrightarrow> fst (due g ?ds) = S_blocked"
    by (auto simp: due_def)
  have kept: "n_state n = S_ready \<Longrightarrow> list_all (dep_ok g) ?ds"
    using ok0 gr by (auto simp: due_def list_all_iff grown_def split: option.splits if_splits)
  have wr: "n_state n = S_waiting \<or> n_state n = S_ready" "n_blockedBy n = None"
    if "first_cause g ?ds = None"
    using that blocked ok0 by (auto simp: due_def split: option.splits if_splits)
  have upd: "g_nodes g = (g_nodes g)(i \<mapsto> n)" using n by auto
  have id: "n = n\<lparr>n_state := n_state n, n_blockedBy := n_blockedBy n\<rparr>" by simp
  show "sweep_node g i = g\<lparr>g_nodes := (g_nodes g)(i \<mapsto>
     n\<lparr>n_state := fst (due g ?ds), n_blockedBy := snd (due g ?ds)\<rparr>)\<rparr>"
  proof (cases "first_cause g ?ds")
    case (Some c)
    then show ?thesis using n o
      by (simp add: sweep_node_def scan_deps_spec due_def open_state_def)
  next
    case None
    show ?thesis
    proof (cases "list_all (dep_ok g) ?ds")
      case True
      then show ?thesis using True n o None wr [OF None]
        by (cases n) (auto simp: sweep_node_def scan_deps_spec due_def open_state_def)
    next
      case False
      then have w: "n_state n = S_waiting" using kept wr [OF None] by auto
      then have "n\<lparr>n_state := S_waiting, n_blockedBy := None\<rparr> = n"
        using wr(2) [OF None] by (cases n) simp
      then show ?thesis using n o None False w upd
        by (simp add: sweep_node_def scan_deps_spec due_def)
    qed
  qed
qed

lemma sweep_node_closed:
  "g_nodes g i = Some n \<Longrightarrow> \<not> open_state (n_state n) \<Longrightarrow> sweep_node g i = g"
  by (simp add: sweep_node_def open_state_def)


text \<open>The loop invariant of the sweep, with \<open>S\<close> the tasks already examined.\<close>

definition sweep_inv :: "task_spec list \<Rightarrow> task_graph \<Rightarrow> task_graph \<Rightarrow> task_id set \<Rightarrow> bool" where
  "sweep_inv tasks g0 g S \<longleftrightarrow>
     graph_wf tasks g \<and> swept g S \<and> stale g0 g S \<and> grown g0 g
     \<and> (\<forall>j \<in> S. set (node_deps g j) \<subseteq> S)"

lemma node_deps_update:
  "g_nodes g i = Some n \<Longrightarrow> n_spec n' = n_spec n \<Longrightarrow>
   node_deps (g\<lparr>g_nodes := (g_nodes g)(i \<mapsto> n')\<rparr>) j = node_deps g j"
  by (simp add: node_deps_def)

lemma due_update:
  "i \<notin> set ds \<Longrightarrow> due (g\<lparr>g_nodes := (g_nodes g)(i \<mapsto> n')\<rparr>) ds = due g ds"
  by (rule due_cong) (auto simp: dep_cause_def dep_ok_def)

lemma node_ok_update:
  assumes "node_ok g m" and "i \<notin> set (ts_depends_on (n_spec m))"
  shows "node_ok (g\<lparr>g_nodes := (g_nodes g)(i \<mapsto> n')\<rparr>) m"
  using assms by (simp add: node_ok_def due_update)

lemma node_ok_closed: "\<not> open_state (n_state m) \<Longrightarrow> node_ok g m \<longleftrightarrow> node_ok h m"
  by (auto simp: node_ok_def open_state_def)

lemma sweep_inv_step_open:
  assumes inv: "sweep_inv tasks g0 g S" and i: "i \<notin> S" and deps: "set (node_deps g i) \<subseteq> S"
    and n: "g_nodes g i = Some n" and o: "open_state (n_state n)"
  shows "sweep_inv tasks g0 (sweep_node g i) (insert i S)"
proof -
  let ?ds = "ts_depends_on (n_spec n)"
  let ?n = "n\<lparr>n_state := fst (due g ?ds), n_blockedBy := snd (due g ?ds)\<rparr>"
  let ?g = "g\<lparr>g_nodes := (g_nodes g)(i \<mapsto> ?n)\<rparr>"
  have wf: "graph_wf tasks g" and sw: "swept g S" and st: "stale g0 g S" and gr: "grown g0 g"
    and cl: "\<forall>j \<in> S. set (node_deps g j) \<subseteq> S"
    using inv by (simp_all add: sweep_inv_def)
  have n0: "g_nodes g0 i = Some n" "node_ok g0 n"
    using st i n o by (auto simp: stale_def)
  have eq: "sweep_node g i = ?g" by (rule sweep_node_open(1) [OF n o n0(2) gr])
  have ids: "i \<notin> set ?ds" using deps i n by (auto simp: node_deps_def)
  have verdict: "n_verdict n = None"
    using n0(2) o by (simp add: node_ok_def open_state_def split: if_splits)
  have stn: "fst (due g ?ds) \<noteq> S_done" "fst (due g ?ds) \<noteq> S_dispatched"
    using due_state [of g ?ds] by auto
  have new: "node_ok ?g ?n"
    using stn verdict by (simp add: node_ok_def due_update [OF ids])
  have "swept ?g (insert i S)"
    unfolding swept_def
  proof (intro allI impI)
    fix j m assume j: "j \<in> insert i S" and m: "g_nodes ?g j = Some m"
    show "node_ok ?g m"
    proof (cases "j = i")
      case True
      then show ?thesis using m new by simp
    next
      case False
      then have gj: "g_nodes g j = Some m" "j \<in> S" using j m by auto
      then have "node_ok g m" using sw by (simp add: swept_def)
      moreover have "node_deps g j = ts_depends_on (n_spec m)"
        using gj by (simp add: node_deps_def)
      then have "set (ts_depends_on (n_spec m)) \<subseteq> S" using cl gj(2) by force
      ultimately show ?thesis using i by (intro node_ok_update) auto
    qed
  qed
  moreover have "stale g0 ?g (insert i S)"
    unfolding stale_def
  proof (intro allI impI)
    fix j m assume j: "j \<notin> insert i S" and m: "g_nodes ?g j = Some m"
    then have "j \<notin> S" "g_nodes g j = Some m" by auto
    then have "if open_state (n_state m) then g_nodes g0 j = Some m \<and> node_ok g0 m else node_ok g m"
      using st unfolding stale_def by blast
    then show "if open_state (n_state m) then g_nodes g0 j = Some m \<and> node_ok g0 m else node_ok ?g m"
      using node_ok_closed [of m g ?g] by auto
  qed
  moreover have "grown g0 ?g"
    unfolding grown_def
  proof (intro allI conjI impI)
    fix d
    show "dep_cause ?g d \<noteq> None" if c: "dep_cause g0 d \<noteq> None"
    proof (cases "d = i")
      case True
      then have "n_state n = S_blocked"
        using c n0 o by (auto simp: dep_cause_def open_state_def split: if_splits)
      then have b: "fst (due g ?ds) = S_blocked" by (rule sweep_node_open(2) [OF n o n0(2) gr])
      then have "snd (due g ?ds) \<noteq> None" by (auto simp: due_def split: option.splits if_splits)
      then show ?thesis using b True by (simp add: dep_cause_def)
    next
      case False
      then show ?thesis using c gr by (auto simp: grown_def dep_cause_def)
    qed
    show "dep_ok ?g d" if c: "dep_ok g0 d"
    proof (cases "d = i")
      case True
      then show ?thesis using c n0 o by (simp add: dep_ok_def open_state_def)
    next
      case False
      have "dep_ok g d" using c gr by (simp add: grown_def)
      then show ?thesis using False by (simp add: dep_ok_def)
    qed
  qed
  moreover have "graph_wf tasks ?g" using wf n by (rule graph_wf_update) simp
  moreover have "\<forall>j \<in> insert i S. set (node_deps ?g j) \<subseteq> insert i S"
    using cl deps node_deps_update [OF n, of ?n] by auto
  ultimately show ?thesis by (simp add: sweep_inv_def eq)
qed

lemma sweep_inv_step:
  assumes inv: "sweep_inv tasks g0 g S" and i: "i \<notin> S" and deps: "set (node_deps g i) \<subseteq> S"
  shows "sweep_inv tasks g0 (sweep_node g i) (insert i S)"
proof (cases "g_nodes g i")
  case None
  then have "sweep_node g i = g" by (simp add: sweep_node_def)
  then show ?thesis using inv None deps by (auto simp: sweep_inv_def swept_def stale_def)
next
  case (Some n)
  show ?thesis
  proof (cases "open_state (n_state n)")
    case True
    with assms Some show ?thesis by (intro sweep_inv_step_open)
  next
    case False
    then have "sweep_node g i = g" by (rule sweep_node_closed [OF Some])
    moreover have "node_ok g n" using inv i Some False by (auto simp: sweep_inv_def stale_def)
    ultimately show ?thesis using inv Some deps
      by (auto simp: sweep_inv_def swept_def stale_def)
  qed
qed

lemma sweep_node_deps: "node_deps (sweep_node g i) j = node_deps g j"
  by (auto simp: sweep_node_def node_deps_def split: option.splits prod.splits)

lemma sweep_fold_inv:
  assumes "sweep_inv tasks g0 g S" and "distinct is" and "set is \<inter> S = {}"
    and "\<And>xs i ys. is = xs @ i # ys \<Longrightarrow> set (node_deps g i) \<subseteq> S \<union> set xs"
  shows "sweep_inv tasks g0 (foldl sweep_node g is) (S \<union> set is)"
  using assms
proof (induction "is" arbitrary: g S)
  case (Cons i "is")
  have "set (node_deps g i) \<subseteq> S" using Cons.prems(4) [of "[]" i "is"] by simp
  then have "sweep_inv tasks g0 (sweep_node g i) (insert i S)"
    using Cons.prems by (intro sweep_inv_step) auto
  moreover have "set (node_deps (sweep_node g i) j) \<subseteq> insert i S \<union> set xs" if "is = xs @ j # ys" for xs j ys
    using Cons.prems(4) [of "i # xs" j ys] that by (auto simp: sweep_node_deps)
  ultimately show ?case
    using Cons.IH [of "sweep_node g i" "insert i S"] Cons.prems(2,3) by auto
qed simp


section \<open>Settling a task\<close>

lemma settle_start:
  assumes inv: "graph_inv tasks g" and n: "g_nodes g i = Some n"
    and st: "n_state n \<noteq> S_done" "n_state n \<noteq> S_blocked"
  shows "sweep_inv tasks g (g\<lparr>g_nodes := (g_nodes g)(i \<mapsto> settle_node v f n)\<rparr>) {}"
proof -
  let ?n = "settle_node v f n"
  let ?g = "g\<lparr>g_nodes := (g_nodes g)(i \<mapsto> ?n)\<rparr>"
  have con: "consistent g" and wf: "graph_wf tasks g" using inv by (simp_all add: graph_inv_def)
  have ok: "node_ok g n" using con n by (rule consistent_node)
  then have b: "n_blockedBy n = None"
    using st by (auto simp: node_ok_def due_def split: if_splits option.splits)
  have fields: "n_state ?n = S_done" "n_verdict ?n = Some v" "n_blockedBy ?n = None" "n_spec ?n = n_spec n"
    using b by (simp_all add: settle_node_def Let_def split: option.splits)
  have "stale g ?g {}"
    unfolding stale_def
  proof (intro allI impI)
    fix j m assume m: "g_nodes ?g j = Some m"
    show "if open_state (n_state m) then g_nodes g j = Some m \<and> node_ok g m else node_ok ?g m"
    proof (cases "j = i")
      case True
      then show ?thesis using m fields by (auto simp: open_state_def node_ok_def)
    next
      case False
      then have gj: "g_nodes g j = Some m" using m by simp
      then show ?thesis using consistent_node [OF con gj] node_ok_closed [of m g ?g] by auto
    qed
  qed
  moreover have "grown g ?g"
    using n st by (auto simp: grown_def dep_cause_def dep_ok_def)
  moreover have "graph_wf tasks ?g" using wf n fields(4) by (rule graph_wf_update)
  ultimately show ?thesis by (simp add: sweep_inv_def swept_def)
qed

lemma wf_topological:
  assumes "graph_wf tasks g" and "acyclic (dep_edges tasks)"
  obtains out where "topologicalOrder g = Inr out" and "distinct out"
    and "set out = dom (g_nodes g)" and "deps_before g out"
proof -
  obtain out where out: "topologicalOrder g = Inr out" by (rule topologicalOrder_total [OF assms])
  show thesis
    using topologicalOrder_Inr [OF assms(1) out] assms(1)
    by (intro that [OF out]) (auto simp: graph_wf_def)
qed

lemma markSettled_sweep:
  assumes inv: "graph_inv tasks g" and n: "g_nodes g i = Some n"
    and st: "n_state n \<noteq> S_done" "n_state n \<noteq> S_blocked"
  obtains g' where "markSettled g i v f = Inr g'" and "sweep_inv tasks g g' (dom (g_nodes g))"
    and "graph_inv tasks g'"
proof -
  let ?g = "g\<lparr>g_nodes := (g_nodes g)(i \<mapsto> settle_node v f n)\<rparr>"
  have s0: "sweep_inv tasks g ?g {}" by (rule settle_start [OF inv n st])
  have ac: "acyclic (dep_edges tasks)" using inv by (simp add: graph_inv_def)
  have wf: "graph_wf tasks ?g" using s0 by (simp add: sweep_inv_def)
  obtain out where out: "topologicalOrder ?g = Inr out" "distinct out"
    "set out = dom (g_nodes ?g)" "deps_before ?g out"
    by (rule wf_topological [OF wf ac])
  have "sweep_inv tasks g (foldl sweep_node ?g out) ({} \<union> set out)"
  proof (rule sweep_fold_inv [OF s0 out(2)])
    show "set out \<inter> {} = {}" by simp
    show "set (node_deps ?g j) \<subseteq> {} \<union> set xs" if "out = xs @ j # ys" for xs j ys
      using out(4) that unfolding deps_before_def by simp
  qed
  moreover have "set out = dom (g_nodes g)" using out(3) n by auto
  ultimately have fin: "sweep_inv tasks g (foldl sweep_node ?g out) (dom (g_nodes g))" by simp
  have "dom (g_nodes (foldl sweep_node ?g out)) = dom (g_nodes g)"
    using fin inv by (simp add: sweep_inv_def graph_inv_def graph_wf_def)
  then have "consistent (foldl sweep_node ?g out)"
    using fin by (auto simp: sweep_inv_def swept_def consistent_def)
  then have "graph_inv tasks (foldl sweep_node ?g out)"
    using fin ac by (simp add: graph_inv_def sweep_inv_def)
  moreover have "markSettled g i v f = Inr (foldl sweep_node ?g out)"
    using n st out(1) by (simp add: markSettled_def sweep_def)
  ultimately show thesis using fin that by blast
qed

text \<open>What a sweep leaves alone.\<close>

lemma sweep_node_other: "j \<noteq> i \<Longrightarrow> g_nodes (sweep_node g i) j = g_nodes g j"
  by (auto simp: sweep_node_def split: option.splits prod.splits)

lemma sweep_node_self:
  "g_nodes g i = Some n \<Longrightarrow> \<exists>m. g_nodes (sweep_node g i) i = Some m \<and> n_spec m = n_spec n
     \<and> n_worker m = n_worker n \<and> n_taskId m = n_taskId n
     \<and> (\<not> open_state (n_state n) \<longrightarrow> m = n) \<and> (open_state (n_state n) \<longrightarrow> open_state (n_state m))"
  by (auto simp: sweep_node_def open_state_def split: option.splits prod.splits)

lemma sweep_fold_node:
  "g_nodes g j = Some n \<Longrightarrow> \<exists>m. g_nodes (foldl sweep_node g is) j = Some m \<and> n_spec m = n_spec n
     \<and> n_worker m = n_worker n \<and> n_taskId m = n_taskId n
     \<and> (\<not> open_state (n_state n) \<longrightarrow> m = n) \<and> (open_state (n_state n) \<longrightarrow> open_state (n_state m))"
proof (induction "is" arbitrary: g n)
  case (Cons i "is")
  show ?case
  proof (cases "j = i")
    case True
    obtain k where k: "g_nodes (sweep_node g i) j = Some k" "n_spec k = n_spec n"
      "n_worker k = n_worker n" "n_taskId k = n_taskId n"
      "\<not> open_state (n_state n) \<longrightarrow> k = n" "open_state (n_state n) \<longrightarrow> open_state (n_state k)"
      using sweep_node_self Cons.prems True by blast
    show ?thesis using Cons.IH [OF k(1)] k(2-) by fastforce
  next
    case False
    then have "g_nodes (sweep_node g i) j = Some n" using Cons.prems by (simp add: sweep_node_other)
    from Cons.IH [OF this] show ?thesis by simp
  qed
qed simp

lemma markSettled_nodes:
  assumes "markSettled g i v f = Inr g'" and "g_nodes g j = Some n"
  shows "\<exists>m. g_nodes g' j = Some m \<and> n_spec m = n_spec n
    \<and> (j = i \<longrightarrow> m = settle_node v f n)
    \<and> (j \<noteq> i \<and> \<not> open_state (n_state n) \<longrightarrow> m = n)
    \<and> (j \<noteq> i \<and> open_state (n_state n) \<longrightarrow> open_state (n_state m)
         \<and> n_worker m = n_worker n \<and> n_taskId m = n_taskId n)"
proof -
  obtain n0 ids where n0: "g_nodes g i = Some n0"
    and g': "g' = foldl sweep_node (g\<lparr>g_nodes := (g_nodes g)(i \<mapsto> settle_node v f n0)\<rparr>) ids"
    using assms(1) by (auto simp: markSettled_def sweep_def split: option.splits if_splits sum.splits)
  let ?g = "g\<lparr>g_nodes := (g_nodes g)(i \<mapsto> settle_node v f n0)\<rparr>"
  have sn: "\<not> open_state (n_state (settle_node v f n0))" "n_spec (settle_node v f n0) = n_spec n0"
    by (simp_all add: settle_node_def open_state_def Let_def split: option.splits)
  show ?thesis
  proof (cases "j = i")
    case True
    then have "g_nodes ?g j = Some (settle_node v f n0)" by simp
    from sweep_fold_node [OF this, of ids] show ?thesis
      using True n0 assms(2) sn g' by auto
  next
    case False
    then have "g_nodes ?g j = Some n" using assms(2) by simp
    from sweep_fold_node [OF this, of ids] show ?thesis using False g' by auto
  qed
qed


section \<open>The properties of the schedule\<close>

definition failed_task :: "task_graph \<Rightarrow> task_id \<Rightarrow> bool" where
  "failed_task g c \<longleftrightarrow>
     (\<exists>n. g_nodes g c = Some n \<and> n_state n = S_done \<and> \<not> dependencySatisfied (the (n_verdict n)))"

lemma graph_inv_wf: "graph_inv tasks g \<Longrightarrow> wf (dep_edges tasks)"
  unfolding graph_inv_def by (intro finite_acyclic_wf finite_dep_edges) simp

lemma graph_inv_edge:
  assumes "graph_inv tasks g" and "g_nodes g i = Some n" and "d \<in> set (ts_depends_on (n_spec n))"
  shows "(d, i) \<in> dep_edges tasks"
proof -
  have wf: "graph_wf tasks g" using assms(1) by (simp add: graph_inv_def)
  have "i \<in> set (g_order g)" using assms(2) wf by (auto simp: graph_wf_def dom_def)
  then show ?thesis using assms(2,3) by (simp add: dep_edges_iff [OF wf] node_deps_def)
qed

lemma graph_inv_dep_node:
  assumes "graph_inv tasks g" and "g_nodes g i = Some n" and "d \<in> set (ts_depends_on (n_spec n))"
  obtains m where "g_nodes g d = Some m"
proof -
  have wf: "graph_wf tasks g" using assms(1) by (simp add: graph_inv_def)
  have "d \<in> set (node_deps g i)" using assms by (simp add: node_deps_def)
  then have "d \<in> dom (g_nodes g)"
    using node_deps_closed [OF wf, of i] wf by (auto simp: graph_wf_def)
  then show thesis using that by auto
qed

lemma graph_inv_node: "graph_inv tasks g \<Longrightarrow> g_nodes g i = Some n \<Longrightarrow> node_ok g n"
  by (simp add: graph_inv_def consistent_node)

lemma new_graph_inv:
  assumes "ids_ok tasks" and "acyclic (dep_edges tasks)" and "new_graph tasks tui = Inr g"
  shows "graph_inv tasks g"
  using assms new_graph_wf(1) new_graph_consistent by (simp add: graph_inv_def)

text \<open>
  Settling never fails and keeps the schedule right. In a graph whose tasks are each what
  their dependencies make them, settling a task that is not yet terminal returns normally, and
  afterwards every task again is what its dependencies make it: blocked with a cause, ready, or
  waiting.
\<close>

theorem markSettled_correct:
  assumes "graph_inv tasks g" and "g_nodes g i = Some n"
    and "n_state n \<noteq> S_done" and "n_state n \<noteq> S_blocked"
  shows "\<exists>g'. markSettled g i v f = Inr g' \<and> graph_inv tasks g'
    \<and> (\<forall>j m. g_nodes g' j = Some m \<and> n_state m \<noteq> S_done \<and> n_state m \<noteq> S_dispatched \<longrightarrow>
          (n_state m, n_blockedBy m) = due g' (ts_depends_on (n_spec m)))"
proof -
  obtain g' where g': "markSettled g i v f = Inr g'" "graph_inv tasks g'"
    by (rule markSettled_sweep [OF assms])
  have "(n_state m, n_blockedBy m) = due g' (ts_depends_on (n_spec m))"
    if "g_nodes g' j = Some m" "n_state m \<noteq> S_done" "n_state m \<noteq> S_dispatched" for j m
    using graph_inv_node [OF g'(2) that(1)] that(2,3) by (simp add: node_ok_def)
  with g' show ?thesis by blast
qed

text \<open>
  Cause, not cascade. A blocked task names a task that really failed (done, with a verdict
  that does not open the gate) and that it depends on, directly or through others; never a
  blocked neighbour.
\<close>

theorem blocked_by_root_cause:
  assumes "graph_inv tasks g" and "g_nodes g i = Some n" and "n_state n = S_blocked"
  shows "\<exists>c. n_blockedBy n = Some c \<and> failed_task g c \<and> (c, i) \<in> (dep_edges tasks)\<^sup>+"
  using graph_inv_wf [OF assms(1)] assms(2,3)
proof (induction i arbitrary: n rule: wf_induct_rule)
  case (less i)
  have "(S_blocked, n_blockedBy n) = due g (ts_depends_on (n_spec n))"
    using graph_inv_node [OF assms(1) less.prems(1)] less.prems(2) by (simp add: node_ok_def)
  then obtain c where c: "n_blockedBy n = Some c" "first_cause g (ts_depends_on (n_spec n)) = Some c"
    by (auto simp: due_def split: option.splits if_splits)
  then obtain d where d: "d \<in> set (ts_depends_on (n_spec n))" "dep_cause g d = Some c"
    using first_cause_Some by blast
  have e: "(d, i) \<in> dep_edges tasks" using assms(1) less.prems(1) d(1) by (rule graph_inv_edge)
  from d(2) obtain m where m: "g_nodes g d = Some m"
    by (auto simp: dep_cause_def split: option.splits)
  show ?case
  proof (cases "n_state m = S_blocked")
    case True
    then have "n_blockedBy m = Some c" using d(2) m by (simp add: dep_cause_def)
    then show ?thesis using less.IH [OF e m True] c(1) e by (auto intro: trancl_into_trancl)
  next
    case False
    then show ?thesis using d(2) m c(1) e
      by (auto simp: dep_cause_def failed_task_def split: if_splits)
  qed
qed

text \<open>
  No deadlock. Whenever some task is not terminal, some task is ready to be dispatched or
  is dispatched: the graph never waits for nothing.
\<close>

theorem graph_no_deadlock:
  assumes inv: "graph_inv tasks g" and "\<not> allTerminal g"
  shows "\<exists>i n. g_nodes g i = Some n \<and> (n_state n = S_ready \<or> n_state n = S_dispatched)"
proof -
  define R where "R = {i. \<exists>n. g_nodes g i = Some n \<and> n_state n \<noteq> S_done \<and> n_state n \<noteq> S_blocked}"
  obtain i0 where "i0 \<in> R" using assms(2)
    by (auto simp: allTerminal_def R_def list_all_iff split: option.splits)
  with graph_inv_wf [OF inv] obtain i where i: "i \<in> R"
    and min: "\<And>d. (d, i) \<in> dep_edges tasks \<Longrightarrow> d \<notin> R"
    by (rule wfE_min) blast
  then obtain n where n: "g_nodes g i = Some n" "n_state n \<noteq> S_done" "n_state n \<noteq> S_blocked"
    by (auto simp: R_def)
  let ?ds = "ts_depends_on (n_spec n)"
  have ok: "node_ok g n" using inv n(1) by (rule graph_inv_node)
  have "n_state n = S_ready \<or> n_state n = S_dispatched"
  proof (rule ccontr)
    assume "\<not> ?thesis"
    then have due: "(n_state n, n_blockedBy n) = due g ?ds" "n_state n \<noteq> S_ready"
      using ok n by (simp_all add: node_ok_def split: if_splits)
    then have none: "first_cause g ?ds = None" and "\<not> list_all (dep_ok g) ?ds"
      using n(3) by (auto simp: due_def split: option.splits if_splits)
    then obtain d where d: "d \<in> set ?ds" "\<not> dep_ok g d" by (auto simp: list_all_iff)
    obtain m where m: "g_nodes g d = Some m" using inv n(1) d(1) by (rule graph_inv_dep_node)
    have "d \<notin> R" using min graph_inv_edge [OF inv n(1) d(1)] by blast
    then have "n_state m = S_done \<or> n_state m = S_blocked" using m by (auto simp: R_def)
    then have "dep_cause g d \<noteq> None"
      using d(2) m node_ok_blocked [OF graph_inv_node [OF inv m]]
      by (auto simp: dep_cause_def dep_ok_def)
    then show False using none d(1) by (auto simp: first_cause_None)
  qed
  then show ?thesis using n(1) by blast
qed

text \<open>The facts a schedule is computed from: which tasks were dispatched or settled, and how.\<close>

definition facts_agree :: "task_graph \<Rightarrow> task_graph \<Rightarrow> bool" where
  "facts_agree g h \<longleftrightarrow>
     (\<forall>i n m. g_nodes g i = Some n \<longrightarrow> g_nodes h i = Some m \<longrightarrow>
        (n_state n = S_done \<longleftrightarrow> n_state m = S_done)
        \<and> (n_state n = S_dispatched \<longleftrightarrow> n_state m = S_dispatched)
        \<and> n_verdict n = n_verdict m)"

lemma graph_inv_same_dom:
  "graph_inv tasks g \<Longrightarrow> graph_inv tasks h \<Longrightarrow> g_nodes g i = Some n \<Longrightarrow>
   \<exists>m. g_nodes h i = Some m \<and> n_spec m = n_spec n"
proof -
  assume g: "graph_inv tasks g" and h: "graph_inv tasks h" and n: "g_nodes g i = Some n"
  have "i \<in> ts_id ` set tasks" using g n by (auto simp: graph_inv_def graph_wf_def dom_def)
  then obtain t where t: "t \<in> set tasks" "i = ts_id t" by auto
  obtain m where "g_nodes h (ts_id t) = Some m" "n_spec m = t"
    using h t(1) by (auto simp: graph_inv_def elim: graph_wf_node)
  moreover have "n_spec n = t" using g n t by (auto simp: graph_inv_def graph_wf_def)
  ultimately show ?thesis using t by auto
qed

text \<open>
  Determinism. Two schedules of one task list that agree on which tasks were dispatched and
  settled, and with which verdicts, agree on every task's state and on every blocked task's
  cause, whatever order those facts arrived in.
\<close>

theorem schedule_determined_by_facts:
  assumes g: "graph_inv tasks g" and h: "graph_inv tasks h" and f: "facts_agree g h"
    and "g_nodes g i = Some n" and "g_nodes h i = Some m"
  shows "n_state n = n_state m \<and> n_blockedBy n = n_blockedBy m"
  using graph_inv_wf [OF g] assms(4,5)
proof (induction i arbitrary: n m rule: wf_induct_rule)
  case (less i)
  have spec: "n_spec m = n_spec n" using graph_inv_same_dom [OF g h less.prems(1)] less.prems(2) by simp
  have agree: "n_state n = S_done \<longleftrightarrow> n_state m = S_done"
    "n_state n = S_dispatched \<longleftrightarrow> n_state m = S_dispatched"
    using f less.prems unfolding facts_agree_def by blast+
  have "dep_cause g d = dep_cause h d \<and> dep_ok g d = dep_ok h d"
    if d: "d \<in> set (ts_depends_on (n_spec n))" for d
  proof -
    obtain a where a: "g_nodes g d = Some a" using g less.prems(1) d by (rule graph_inv_dep_node)
    then obtain b where b: "g_nodes h d = Some b" using graph_inv_same_dom [OF g h] by blast
    have "n_state a = n_state b \<and> n_blockedBy a = n_blockedBy b"
      using less.IH [OF graph_inv_edge [OF g less.prems(1) d] a b] .
    moreover have "n_verdict a = n_verdict b" using f a b unfolding facts_agree_def by blast
    ultimately show ?thesis using a b by (simp add: dep_cause_def dep_ok_def)
  qed
  then have "due g (ts_depends_on (n_spec n)) = due h (ts_depends_on (n_spec n))" by (rule due_cong)
  then show ?case
    using graph_inv_node [OF g less.prems(1)] graph_inv_node [OF h less.prems(2)] spec agree
    by (auto simp: node_ok_def split: if_splits) (metis Pair_inject)+
qed

section \<open>A three-task schedule\<close>

definition chain_tasks :: "task_spec list" where
  "chain_tasks =
     [\<lparr>ts_id = ''a'', ts_depends_on = [], ts_worker = None, ts_deadline_s = 60\<rparr>,
      \<lparr>ts_id = ''b'', ts_depends_on = [''a''], ts_worker = None, ts_deadline_s = 60\<rparr>,
      \<lparr>ts_id = ''c'', ts_depends_on = [''b''], ts_worker = None, ts_deadline_s = 60\<rparr>]"

definition chain_graph :: task_graph where
  "chain_graph = projr (new_graph chain_tasks {})"

definition chain_failed :: task_graph where
  "chain_failed = projr (markSettled chain_graph ''a'' Failed None)"

lemma chain_new: "new_graph chain_tasks {} = Inr chain_graph"
  by (simp add: chain_graph_def new_graph_def tuiDependencyEdges_def)

lemma chain_wf: "graph_wf chain_tasks chain_graph"
  by (rule new_graph_wf(1) [OF _ chain_new]) (simp add: ids_ok_def chain_tasks_def)

lemma chain_topological: "topologicalOrder chain_graph = Inr [''a'', ''b'', ''c'']"
  by code_simp

lemma chain_acyclic: "acyclic (dep_edges chain_tasks)"
  using deps_before_acyclic [OF chain_wf] topologicalOrder_Inr [OF chain_wf chain_topological] by blast

lemma chain_inv: "graph_inv chain_tasks chain_graph"
  by (rule new_graph_inv [OF _ chain_acyclic chain_new]) (simp add: ids_ok_def chain_tasks_def)

lemma chain_ready: "map_option n_state (g_nodes chain_graph ''a'') = Some S_ready"
  by code_simp

lemma chain_node_a: obtains n where "g_nodes chain_graph ''a'' = Some n" "n_state n = S_ready"
  using chain_ready by auto

lemma chain_failed_inv: "graph_inv chain_tasks chain_failed"
proof -
  obtain n where n: "g_nodes chain_graph ''a'' = Some n" "n_state n = S_ready"
    by (rule chain_node_a)
  obtain g' where "markSettled chain_graph ''a'' Failed None = Inr g'" "graph_inv chain_tasks g'"
    by (rule markSettled_sweep [OF chain_inv n(1)]) (simp_all add: n(2))
  then show ?thesis by (simp add: chain_failed_def)
qed

lemma chain_failed_c:
  "map_option n_state (g_nodes chain_failed ''c'') = Some S_blocked"
  "map_option n_blockedBy (g_nodes chain_failed ''c'') = Some (Some ''a'')"
  by code_simp+

theorem topologicalOrder_correct_witness:
  "acyclic (dep_edges chain_tasks) \<and> deps_before chain_graph [''a'', ''b'', ''c'']"
  using topologicalOrder_correct [OF chain_wf] by (simp add: chain_topological)

theorem markSettled_correct_witness:
  "\<exists>g'. markSettled chain_graph ''a'' Success None = Inr g' \<and> graph_inv chain_tasks g'"
proof -
  obtain n where n: "g_nodes chain_graph ''a'' = Some n" "n_state n = S_ready"
    by (rule chain_node_a)
  show ?thesis
    using markSettled_correct [OF chain_inv n(1), of Success None] n(2) by auto
qed

theorem blocked_by_root_cause_witness:
  "failed_task chain_failed ''a'' \<and> (''a'', ''c'') \<in> (dep_edges chain_tasks)\<^sup>+"
proof -
  obtain n where n: "g_nodes chain_failed ''c'' = Some n" "n_state n = S_blocked"
    "n_blockedBy n = Some ''a''"
    using chain_failed_c by auto
  then show ?thesis using blocked_by_root_cause [OF chain_failed_inv n(1,2)] by auto
qed

theorem graph_no_deadlock_witness:
  "\<exists>i n. g_nodes chain_graph i = Some n \<and> (n_state n = S_ready \<or> n_state n = S_dispatched)"
proof (rule graph_no_deadlock [OF chain_inv])
  show "\<not> allTerminal chain_graph" by code_simp
qed

theorem schedule_determined_by_facts_witness:
  "\<exists>n. g_nodes chain_failed ''c'' = Some n \<and> n_state n = S_blocked"
proof -
  obtain n where n: "g_nodes chain_failed ''c'' = Some n" "n_state n = S_blocked"
    using chain_failed_c by auto
  have f: "facts_agree chain_failed chain_failed" by (auto simp: facts_agree_def)
  show ?thesis
    using schedule_determined_by_facts [OF chain_failed_inv chain_failed_inv f n(1) n(1)] n by simp
qed

end
