(* ===== verification/Task_List.thy ===== *)
theory Task_List
  imports Graph_Sweep
begin

text \<open>
  Validation of a task list, \<open>src/orchestrate/tasklist.ts\<close>: the refusals of \<open>parseTaskList\<close>
  after the JSON and schema layer (a parameter, \<open>decode\<close>), and \<open>findCycle\<close>, an iterative
  depth-first search with an explicit stack and a colour map. The walk that reads the cycle off
  the parent map is a partial function: where it would not return it is \<open>None\<close>, and
  \<open>findCycle\<close> is proved to return always.
\<close>

section \<open>The search\<close>

definition task_deps :: "task_spec list \<Rightarrow> task_id \<Rightarrow> task_id list" where
  "task_deps tasks i =
     (case map_of (rev (map (\<lambda>t. (ts_id t, ts_depends_on t)) tasks)) i of None \<Rightarrow> [] | Some ds \<Rightarrow> ds)"

datatype colour = White | Gray | Black

type_synonym frame = "task_id \<times> nat"

record dfs =
  d_color :: "task_id \<Rightarrow> colour"
  d_parent :: "task_id \<Rightarrow> task_id option"
  d_stack :: "frame list"

datatype dfs_outcome = Dfs_done dfs | Dfs_back_edge dfs task_id task_id

text \<open>Every id a search can meet.\<close>

definition known_ids :: "task_spec list \<Rightarrow> task_id set" where
  "known_ids tasks = set (concat (map (\<lambda>t. ts_id t # ts_depends_on t) tasks))"

definition white_count :: "task_spec list \<Rightarrow> (task_id \<Rightarrow> colour) \<Rightarrow> nat" where
  "white_count tasks color = card {u \<in> known_ids tasks. color u = White}"

definition edges_left :: "task_spec list \<Rightarrow> frame list \<Rightarrow> nat" where
  "edges_left tasks stack =
     sum_list (map (\<lambda>(i, next). Suc (length (task_deps tasks i) - next)) stack)"

lemma task_deps_known: "d \<in> set (task_deps tasks i) \<Longrightarrow> d \<in> known_ids tasks"
  unfolding task_deps_def known_ids_def
  by (fastforce dest: map_of_SomeD [OF sym] map_of_SomeD split: option.splits)

lemma finite_known_ids [simp]: "finite (known_ids tasks)"
  by (simp add: known_ids_def)

lemma white_count_gray:
  "d \<in> known_ids tasks \<Longrightarrow> color d = White \<Longrightarrow> c \<noteq> White \<Longrightarrow>
   white_count tasks (color(d := c)) < white_count tasks color"
  unfolding white_count_def by (rule psubset_card_mono) auto

lemma white_count_other:
  "c \<noteq> White \<Longrightarrow> white_count tasks (color(d := c)) \<le> white_count tasks color"
  unfolding white_count_def by (rule card_mono) auto

text \<open>The inner loop: one frame is resumed at a time until the stack is empty.\<close>

function dfs_loop :: "task_spec list \<Rightarrow> dfs \<Rightarrow> dfs_outcome" where
  "dfs_loop tasks s =
     (case d_stack s of
        [] \<Rightarrow> Dfs_done s
      | (i, next) # rest \<Rightarrow>
          (let edges = task_deps tasks i
           in if next \<ge> length edges
              then dfs_loop tasks (s\<lparr>d_color := (d_color s)(i := Black), d_stack := rest\<rparr>)
              else
                let dep = edges ! next;
                    s1 = s\<lparr>d_stack := (i, Suc next) # rest\<rparr>
                in (case d_color s dep of
                      Gray \<Rightarrow> Dfs_back_edge s1 i dep
                    | White \<Rightarrow>
                        dfs_loop tasks
                          (s1\<lparr>d_color := (d_color s)(dep := Gray),
                              d_parent := (d_parent s)(dep \<mapsto> i),
                              d_stack := (dep, 0) # (i, Suc next) # rest\<rparr>)
                    | Black \<Rightarrow> dfs_loop tasks s1)))"
  by pat_completeness auto
termination
proof (relation "measures [\<lambda>(tasks, s). white_count tasks (d_color s),
                           \<lambda>(tasks, s). edges_left tasks (d_stack s)]", goal_cases)
  case 1
  show ?case by simp
next
  case (2 tasks s f rest i nxt edges)
  then show ?case
    using white_count_other [of Black tasks "d_color s" i] by (auto simp: edges_left_def)
next
  case (3 tasks s f rest i nxt edges dep s1)
  then show ?case
    using white_count_gray [of dep tasks "d_color s" Gray] task_deps_known [of dep tasks i] by simp
next
  case (4 tasks s f rest i nxt edges dep s1)
  then show ?case by (auto simp: edges_left_def)
qed

declare dfs_loop.simps [simp del]

section \<open>The cycle\<close>

text \<open>\<open>for (let at = frame.id; at !== dep; at = parent.get(at)!) cycle.push(at)\<close>\<close>

partial_function (option) walk_parents ::
  "(task_id \<Rightarrow> task_id option) \<Rightarrow> task_id \<Rightarrow> task_id \<Rightarrow> task_id list \<Rightarrow> task_id list option" where
  "walk_parents parent dep cur cycle =
     (if cur = dep then Some cycle
      else (case parent cur of
              None \<Rightarrow> None
            | Some p \<Rightarrow> walk_parents parent dep p (cycle @ [cur])))"

definition read_cycle :: "dfs \<Rightarrow> task_id \<Rightarrow> task_id \<Rightarrow> task_id list option" where
  "read_cycle s i dep =
     map_option (\<lambda>cycle. rev (cycle @ [dep])) (walk_parents (d_parent s) dep i [dep])"

text \<open>The outer loop over the roots; the outer \<open>None\<close> is a search that does not return.\<close>

fun find_from :: "task_spec list \<Rightarrow> dfs \<Rightarrow> task_spec list \<Rightarrow> task_id list option option" where
  "find_from tasks s [] = Some None"
| "find_from tasks s (t # ts) =
     (if d_color s (ts_id t) \<noteq> White then find_from tasks s ts
      else
        case dfs_loop tasks (s\<lparr>d_stack := [(ts_id t, 0)],
                               d_color := (d_color s)(ts_id t := Gray)\<rparr>) of
          Dfs_done s' \<Rightarrow> find_from tasks s' ts
        | Dfs_back_edge s' i dep \<Rightarrow> map_option Some (read_cycle s' i dep))"

definition findCycle :: "task_spec list \<Rightarrow> task_id list option option" where
  "findCycle tasks =
     find_from tasks \<lparr>d_color = (\<lambda>_. White), d_parent = Map.empty, d_stack = []\<rparr> tasks"

section \<open>\<open>parseTaskList\<close>\<close>

datatype task_list_error =
  Unreadable string
| Undecodable string
| Duplicate_id task_id
| Unknown_dependency task_id task_id
| Self_dependency task_id
| Dependency_cycle "task_id list"

fun check_duplicates :: "task_id list \<Rightarrow> task_spec list \<Rightarrow> task_list_error option" where
  "check_duplicates seen [] = None"
| "check_duplicates seen (t # ts) =
     (if ts_id t \<in> set seen then Some (Duplicate_id (ts_id t))
      else check_duplicates (ts_id t # seen) ts)"

fun check_edges :: "task_id list \<Rightarrow> task_id \<Rightarrow> task_id list \<Rightarrow> task_list_error option" where
  "check_edges seen i [] = None"
| "check_edges seen i (dep # deps) =
     (if dep \<notin> set seen then Some (Unknown_dependency i dep)
      else if dep = i then Some (Self_dependency i)
      else check_edges seen i deps)"

fun check_dependencies :: "task_id list \<Rightarrow> task_spec list \<Rightarrow> task_list_error option" where
  "check_dependencies seen [] = None"
| "check_dependencies seen (t # ts) =
     (case check_edges seen (ts_id t) (ts_depends_on t) of
        Some e \<Rightarrow> Some e
      | None \<Rightarrow> check_dependencies seen ts)"

text \<open>The outer \<open>None\<close> is a validation that does not return.\<close>

definition parseTaskList ::
  "(string \<Rightarrow> string + task_spec list) \<Rightarrow> string \<Rightarrow> (task_list_error + task_spec list) option" where
  "parseTaskList decode raw =
     (case decode raw of
        Inl message \<Rightarrow> Some (Inl (Undecodable message))
      | Inr tasks \<Rightarrow>
          (case check_duplicates [] tasks of
             Some e \<Rightarrow> Some (Inl e)
           | None \<Rightarrow>
               (case check_dependencies (map ts_id tasks) tasks of
                  Some e \<Rightarrow> Some (Inl e)
                | None \<Rightarrow>
                    (case findCycle tasks of
                       None \<Rightarrow> None
                     | Some (Some cycle) \<Rightarrow> Some (Inl (Dependency_cycle cycle))
                     | Some None \<Rightarrow> Some (Inr tasks)))))"

section \<open>The search invariant\<close>

definition dep_rel :: "task_spec list \<Rightarrow> (task_id \<times> task_id) set" where
  "dep_rel tasks = {(x, d). d \<in> set (task_deps tasks x)}"

text \<open>Each frame is a dependency of the one below it, taken at the index before its own.\<close>

fun linked :: "task_spec list \<Rightarrow> (task_id \<Rightarrow> task_id option) \<Rightarrow> frame list \<Rightarrow> bool" where
  "linked tasks parent ((j, m) # (i, n) # fs) \<longleftrightarrow>
     parent j = Some i \<and> 0 < n \<and> n \<le> length (task_deps tasks i) \<and> task_deps tasks i ! (n - 1) = j
     \<and> linked tasks parent ((i, n) # fs)"
| "linked tasks parent fs \<longleftrightarrow> True"

text \<open>The dependencies a frame has left behind are black, save the one being explored.\<close>

definition frame_done :: "task_spec list \<Rightarrow> (task_id \<Rightarrow> colour) \<Rightarrow> task_id \<Rightarrow> nat \<Rightarrow> bool" where
  "frame_done tasks color i n \<longleftrightarrow>
     (\<forall>k. k < n \<longrightarrow> k < length (task_deps tasks i) \<longrightarrow> color (task_deps tasks i ! k) = Black)"

fun frames_done :: "task_spec list \<Rightarrow> (task_id \<Rightarrow> colour) \<Rightarrow> frame list \<Rightarrow> bool" where
  "frames_done tasks color [] \<longleftrightarrow> True"
| "frames_done tasks color ((i, n) # fs) \<longleftrightarrow>
     frame_done tasks color i n \<and> list_all (\<lambda>(j, m). frame_done tasks color j (m - 1)) fs"

definition dfs_inv :: "task_spec list \<Rightarrow> dfs \<Rightarrow> bool" where
  "dfs_inv tasks s \<longleftrightarrow>
     distinct (map fst (d_stack s))
     \<and> (\<forall>x. d_color s x = Gray \<longleftrightarrow> x \<in> fst ` set (d_stack s))
     \<and> linked tasks (d_parent s) (d_stack s)
     \<and> frames_done tasks (d_color s) (d_stack s)
     \<and> (\<forall>x d. d_color s x = Black \<longrightarrow> (x, d) \<in> dep_rel tasks \<longrightarrow> d_color s d = Black)
     \<and> (\<forall>x. d_color s x = Black \<longrightarrow> (x, x) \<notin> (dep_rel tasks)\<^sup>+)"

lemma linked_parent_upd:
  "d \<notin> fst ` set fs \<Longrightarrow> linked tasks (parent(d := p)) fs = linked tasks parent fs"
  by (induction tasks parent fs rule: linked.induct) auto

lemma linked_tl: "linked tasks parent (f # fs) \<Longrightarrow> linked tasks parent fs"
  by (cases "(tasks, parent, f # fs)" rule: linked.cases) auto

lemma linked_cons_Suc: "linked tasks parent ((i, n) # fs) = linked tasks parent ((i, m) # fs)"
  by (cases fs) auto

lemma frame_done_mono:
  "frame_done tasks c i n \<Longrightarrow> (\<And>x. c x = Black \<Longrightarrow> c' x = Black) \<Longrightarrow> m \<le> n \<Longrightarrow> frame_done tasks c' i m"
  unfolding frame_done_def by (meson less_le_trans)

lemma frames_done_tail:
  "list_all (\<lambda>(j, m). frame_done tasks c j (m - 1)) fs \<Longrightarrow> (\<And>x. c x = Black \<Longrightarrow> c' x = Black) \<Longrightarrow>
   list_all (\<lambda>(j, m). frame_done tasks c' j (m - 1)) fs"
  by (auto simp: list_all_iff intro: frame_done_mono)

lemma black_trancl:
  "(x, y) \<in> (dep_rel tasks)\<^sup>+ \<Longrightarrow>
   (\<And>x d. color x = Black \<Longrightarrow> (x, d) \<in> dep_rel tasks \<Longrightarrow> color d = Black) \<Longrightarrow>
   color x = Black \<Longrightarrow> color y = Black"
  by (induction rule: trancl_induct) blast+

text \<open>Retiring a frame whose dependencies are all black.\<close>

lemma dfs_inv_pop:
  assumes inv: "dfs_inv tasks s" and st: "d_stack s = (i, n) # fs"
    and n: "length (task_deps tasks i) \<le> n"
  shows "dfs_inv tasks (s\<lparr>d_color := (d_color s)(i := Black), d_stack := fs\<rparr>)"
proof -
  let ?c = "(d_color s)(i := Black)"
  have i: "d_color s i = Gray" "i \<notin> fst ` set fs"
    using inv st by (auto simp: dfs_inv_def)
  have deps: "d_color s d = Black" if "(i, d) \<in> dep_rel tasks" for d
    using inv st n that by (auto simp: dfs_inv_def frame_done_def dep_rel_def in_set_conv_nth)
  have closed: "d_color s x = Black \<Longrightarrow> (x, d) \<in> dep_rel tasks \<Longrightarrow> d_color s d = Black" for x d
    using inv by (auto simp: dfs_inv_def)
  have "(i, i) \<notin> (dep_rel tasks)\<^sup>+"
  proof
    assume "(i, i) \<in> (dep_rel tasks)\<^sup>+"
    then obtain d where d: "(i, d) \<in> dep_rel tasks" "(d, i) \<in> (dep_rel tasks)\<^sup>*"
      by (meson tranclD)
    from d(2) have "d_color s i = Black"
      by (induction rule: rtrancl_induct) (use deps d(1) closed in blast)+
    with i(1) show False by simp
  qed
  moreover have "frames_done tasks ?c fs"
  proof (cases fs)
    case (Cons f fs')
    obtain j m where f: "f = (j, m)" by (cases f)
    have l: "0 < m" "task_deps tasks j ! (m - 1) = i"
      using inv by (auto simp: dfs_inv_def st Cons f)
    have fd: "frame_done tasks (d_color s) j (m - 1)"
      using inv by (auto simp: dfs_inv_def st Cons f)
    have "?c (task_deps tasks j ! k) = Black" if "k < m" "k < length (task_deps tasks j)" for k
      using that fd l by (cases "k = m - 1") (auto simp: frame_done_def)
    then have "frame_done tasks ?c j m" by (simp add: frame_done_def)
    moreover have "list_all (\<lambda>(j, m). frame_done tasks (d_color s) j (m - 1)) fs'"
      using inv by (simp add: dfs_inv_def st Cons f)
    then have "list_all (\<lambda>(j, m). frame_done tasks ?c j (m - 1)) fs'"
      by (rule frames_done_tail) simp
    ultimately show ?thesis by (simp add: Cons f)
  qed simp
  moreover have "linked tasks (d_parent s) fs"
    using inv st linked_tl by (auto simp: dfs_inv_def)
  moreover have "(d_color s x = Black \<longrightarrow> (x, x) \<notin> (dep_rel tasks)\<^sup>+)" for x
    using inv by (simp add: dfs_inv_def)
  moreover have "distinct (map fst fs)" using inv st by (simp add: dfs_inv_def)
  moreover have "?c x = Gray \<longleftrightarrow> x \<in> fst ` set fs" for x
    using inv i st by (simp add: dfs_inv_def)
  ultimately show ?thesis
    using deps closed by (simp add: dfs_inv_def)
qed

text \<open>Stepping over a dependency that is already black.\<close>

lemma dfs_inv_skip:
  assumes inv: "dfs_inv tasks s" and st: "d_stack s = (i, n) # fs"
    and black: "d_color s (task_deps tasks i ! n) = Black"
  shows "dfs_inv tasks (s\<lparr>d_stack := (i, Suc n) # fs\<rparr>)"
proof -
  have "linked tasks (d_parent s) ((i, Suc n) # fs)"
    using inv st linked_cons_Suc [of tasks "d_parent s" i n fs "Suc n"] by (simp add: dfs_inv_def)
  moreover have "frame_done tasks (d_color s) i n" using inv st by (simp add: dfs_inv_def)
  then have "frame_done tasks (d_color s) i (Suc n)"
    using black by (simp add: frame_done_def less_Suc_eq)
  ultimately show ?thesis using inv st by (simp add: dfs_inv_def)
qed

text \<open>Descending into a white one.\<close>

lemma dfs_inv_push:
  assumes inv: "dfs_inv tasks s" and st: "d_stack s = (i, n) # fs"
    and n: "n < length (task_deps tasks i)"
    and dep: "dep = task_deps tasks i ! n" and white: "d_color s dep = White"
  shows "dfs_inv tasks (s\<lparr>d_color := (d_color s)(dep := Gray), d_parent := (d_parent s)(dep \<mapsto> i),
           d_stack := (dep, 0) # (i, Suc n) # fs\<rparr>)"
proof -
  have new: "dep \<notin> fst ` set ((i, n) # fs)"
    using inv white by (metis colour.distinct(1) dfs_inv_def st)
  have "linked tasks ((d_parent s)(dep \<mapsto> i)) ((i, n) # fs)"
    using inv new st linked_parent_upd [of dep "(i, n) # fs" tasks "d_parent s" "Some i"]
    by (simp add: dfs_inv_def)
  then have l: "linked tasks ((d_parent s)(dep \<mapsto> i)) ((dep, 0) # (i, Suc n) # fs)"
    using n dep linked_cons_Suc [of tasks "(d_parent s)(dep \<mapsto> i)" i n fs "Suc n"] by simp
  have f: "frames_done tasks (d_color s) ((i, n) # fs)" using inv st by (simp add: dfs_inv_def)
  have "frames_done tasks ((d_color s)(dep := Gray)) ((dep, 0) # (i, Suc n) # fs)"
    using f white frame_done_mono [of tasks "d_color s" _ _ "(d_color s)(dep := Gray)"]
    by (fastforce simp: list_all_iff frame_done_def [of tasks _ dep])
  then show ?thesis
    using inv l new white st by (auto simp: dfs_inv_def)
qed

text \<open>
  What a search returns: a finished one keeps the invariant, empties the stack and whitens
  nothing; one that meets a gray dependency has it on its stack.
\<close>

lemma dfs_loop_spec:
  "dfs_inv tasks s \<Longrightarrow>
   (case dfs_loop tasks s of
      Dfs_done s' \<Rightarrow> dfs_inv tasks s' \<and> d_stack s' = []
        \<and> (\<forall>x. d_color s x \<noteq> White \<longrightarrow> d_color s' x \<noteq> White)
    | Dfs_back_edge s' i dep \<Rightarrow> dep \<in> set (task_deps tasks i) \<and> dep \<in> fst ` set (d_stack s')
        \<and> distinct (map fst (d_stack s'))
        \<and> linked tasks (d_parent s') (d_stack s') \<and> (\<exists>n fs. d_stack s' = (i, n) # fs))"
proof (induction tasks s rule: dfs_loop.induct)
  case (1 tasks s)
  show ?case
  proof (cases "d_stack s")
    case Nil
    then show ?thesis using 1(4) by (simp add: dfs_loop.simps)
  next
    case (Cons f fs)
    obtain i n where f: "f = (i, n)" by (cases f)
    note st = Cons [unfolded f]
    let ?e = "task_deps tasks i"
    show ?thesis
    proof (cases "length ?e \<le> n")
      case True
      let ?s = "s\<lparr>d_color := (d_color s)(i := Black), d_stack := fs\<rparr>"
      have "dfs_inv tasks ?s" using dfs_inv_pop [OF 1(4) st True] .
      then show ?thesis
        using 1(1) [OF st refl refl True] True st
        by (simp add: dfs_loop.simps [of tasks s] split: dfs_outcome.splits)
    next
      case False
      let ?s1 = "s\<lparr>d_stack := (i, Suc n) # fs\<rparr>"
      have n: "n < length ?e" using False by simp
      show ?thesis
      proof (cases "d_color s (?e ! n)")
        case White
        let ?s = "s\<lparr>d_color := (d_color s)(?e ! n := Gray), d_parent := (d_parent s)(?e ! n \<mapsto> i),
                    d_stack := (?e ! n, 0) # (i, Suc n) # fs\<rparr>"
        have "dfs_inv tasks ?s" using dfs_inv_push [OF 1(4) st n refl White] .
        then show ?thesis
          using 1(2) [OF st refl refl False refl refl White] White st False
          by (simp add: dfs_loop.simps [of tasks s] Let_def split: dfs_outcome.splits)
      next
        case Gray
        then have "?e ! n \<in> fst ` set (d_stack s)" using 1(4) by (auto simp: dfs_inv_def)
        moreover have "linked tasks (d_parent s) ((i, Suc n) # fs)"
          using 1(4) st linked_cons_Suc [of tasks "d_parent s" i n fs "Suc n"]
          by (simp add: dfs_inv_def)
        moreover have "distinct (map fst (d_stack s))" using 1(4) by (simp add: dfs_inv_def)
        moreover have "dfs_loop tasks s = Dfs_back_edge ?s1 i (?e ! n)"
          using Gray st False by (simp add: dfs_loop.simps [of tasks s] Let_def)
        ultimately show ?thesis using n st by simp
      next
        case Black
        have "dfs_inv tasks ?s1" using dfs_inv_skip [OF 1(4) st Black] .
        then show ?thesis
          using 1(3) [OF st refl refl False refl refl Black] Black st False
          by (simp add: dfs_loop.simps [of tasks s] Let_def split: dfs_outcome.splits)
      qed
    qed
  qed
qed

section \<open>Reading a cycle off the parents\<close>

definition is_cycle :: "task_spec list \<Rightarrow> task_id list \<Rightarrow> bool" where
  "is_cycle tasks c \<longleftrightarrow>
     2 \<le> length c \<and> hd c = last c \<and> distinct (tl c)
     \<and> successively (\<lambda>x d. (x, d) \<in> dep_rel tasks) c"

lemma walk_parents_linked:
  assumes "linked tasks parent ((i, n) # fs)" and "dep \<in> fst ` set ((i, n) # fs)"
  shows "walk_parents parent dep i acc =
    Some (acc @ takeWhile (\<lambda>x. x \<noteq> dep) (map fst ((i, n) # fs)))"
  using assms
proof (induction fs arbitrary: i n acc)
  case Nil
  then show ?case by (simp add: walk_parents.simps)
next
  case (Cons f fs)
  obtain j m where f: "f = (j, m)" by (cases f)
  show ?case
  proof (cases "i = dep")
    case False
    have l: "parent i = Some j" "linked tasks parent ((j, m) # fs)"
      using Cons.prems(1) by (simp_all add: f)
    have "dep \<in> fst ` set ((j, m) # fs)" using Cons.prems(2) False by (auto simp: f)
    from Cons.IH [OF l(2) this] show ?thesis
      using l(1) False by (simp add: walk_parents.simps [of parent dep i] f)
  qed (simp add: walk_parents.simps)
qed

lemma linked_successively:
  "linked tasks parent fs \<Longrightarrow> successively (\<lambda>d x. (x, d) \<in> dep_rel tasks) (map fst fs)"
proof (induction tasks parent fs rule: linked.induct)
  case (1 tasks parent j m i n fs)
  then have "n - 1 < length (task_deps tasks i)" by auto
  then have "(i, j) \<in> dep_rel tasks" using 1 by (auto simp: dep_rel_def in_set_conv_nth)
  then show ?case using 1 by simp
qed simp_all

lemma read_cycle_spec:
  assumes l: "linked tasks (d_parent s) (d_stack s)" and st: "d_stack s = (i, n) # fs"
    and d: "distinct (map fst (d_stack s))" and dep: "dep \<in> fst ` set (d_stack s)"
    and e: "dep \<in> set (task_deps tasks i)"
  obtains c where "read_cycle s i dep = Some c" and "is_cycle tasks c"
proof -
  let ?ids = "map fst (d_stack s)"
  let ?w = "takeWhile (\<lambda>x. x \<noteq> dep) ?ids"
  let ?E = "\<lambda>x d. (x, d) \<in> dep_rel tasks"
  have w: "walk_parents (d_parent s) dep i [dep] = Some ([dep] @ ?w)"
    using walk_parents_linked [of tasks "d_parent s" i n fs dep "[dep]"] l dep
    unfolding st [symmetric] by simp
  define rs where "rs = dropWhile (\<lambda>x. x \<noteq> dep) ?ids"
  have rs: "rs \<noteq> []" "hd rs = dep"
    using dep hd_dropWhile [of "\<lambda>x. x \<noteq> dep" ?ids] by (auto simp: rs_def dropWhile_eq_Nil_conv)
  have ids: "?ids = ?w @ dep # tl rs"
    using takeWhile_dropWhile_id [of "\<lambda>x. x \<noteq> dep" ?ids] rs by (metis list.collapse rs_def)
  have "successively (\<lambda>d x. (x, d) \<in> dep_rel tasks) (?w @ dep # tl rs)"
    using linked_successively [OF l] ids by simp
  then have "successively (\<lambda>d x. (x, d) \<in> dep_rel tasks) (?w @ [dep])"
    by (auto simp: successively_append_iff)
  then have path: "successively ?E (dep # rev ?w)"
    using successively_rev [of ?E "?w @ [dep]"] by simp
  have last: "last (dep # rev ?w) = i"
  proof (cases "?w = []")
    case True
    then have "dep = i" using ids st by (metis append_Nil fst_conv list.sel(1) list.simps(9))
    then show ?thesis using True by simp
  next
    case False
    then have "hd ?w = i" using st by (auto split: if_splits)
    then show ?thesis using False by (simp add: last_rev)
  qed
  have "successively ?E ((dep # rev ?w) @ [dep])"
    unfolding successively_append_iff using path last e by (simp add: dep_rel_def)
  moreover have "distinct (?w @ dep # tl rs)" using d ids by metis
  then have "distinct (rev ?w @ [dep])" by simp
  ultimately have "is_cycle tasks ((dep # rev ?w) @ [dep])" by (simp add: is_cycle_def)
  moreover have "read_cycle s i dep = Some ((dep # rev ?w) @ [dep])"
    using w by (simp add: read_cycle_def)
  ultimately show thesis by (rule that [rotated])
qed

lemma is_cycle_trancl: "is_cycle tasks c \<Longrightarrow> (hd c, hd c) \<in> (dep_rel tasks)\<^sup>+"
proof -
  have step: "successively (\<lambda>x d. (x, d) \<in> dep_rel tasks) (x # y # zs) \<Longrightarrow>
      (x, last (x # y # zs)) \<in> (dep_rel tasks)\<^sup>+" for x y zs
  proof (induction zs arbitrary: x y)
    case (Cons z zs)
    then have "(y, last (y # z # zs)) \<in> (dep_rel tasks)\<^sup>+" "(x, y) \<in> dep_rel tasks" by auto
    then show ?case by (auto intro: trancl_into_trancl2)
  qed auto
  assume "is_cycle tasks c"
  then obtain x y zs where "c = x # y # zs" "last c = x"
    "successively (\<lambda>x d. (x, d) \<in> dep_rel tasks) c"
    by (cases c; cases "tl c") (auto simp: is_cycle_def)
  then show ?thesis using step [of x y zs] by simp
qed

section \<open>The outer loop\<close>

definition dfs_rest :: "task_spec list \<Rightarrow> dfs \<Rightarrow> bool" where
  "dfs_rest tasks s \<longleftrightarrow> dfs_inv tasks s \<and> d_stack s = []"

lemma dfs_rest_black: "dfs_rest tasks s \<Longrightarrow> d_color s x \<noteq> White \<Longrightarrow> d_color s x = Black"
  by (cases "d_color s x") (auto simp: dfs_rest_def dfs_inv_def)

lemma dfs_inv_root:
  assumes "dfs_rest tasks s" and "d_color s r = White"
  shows "dfs_inv tasks (s\<lparr>d_stack := [(r, 0)], d_color := (d_color s)(r := Gray)\<rparr>)"
  using assms by (auto simp: dfs_rest_def dfs_inv_def frame_done_def)

lemma find_from_spec:
  "dfs_rest tasks s \<Longrightarrow>
   \<exists>r. find_from tasks s ts = Some r \<and>
     (case r of
        Some c \<Rightarrow> is_cycle tasks c
      | None \<Rightarrow> (\<forall>x. d_color s x = Black \<or> x \<in> ts_id ` set ts \<longrightarrow> (x, x) \<notin> (dep_rel tasks)\<^sup>+))"
proof (induction ts arbitrary: s)
  case Nil
  then show ?case by (auto simp: dfs_rest_def dfs_inv_def)
next
  case (Cons t ts)
  show ?case
  proof (cases "d_color s (ts_id t) = White")
    case False
    then have "d_color s (ts_id t) = Black" using Cons.prems dfs_rest_black by blast
    then show ?thesis using Cons.IH [OF Cons.prems] False by (auto split: option.splits)
  next
    case True
    let ?s = "s\<lparr>d_stack := [(ts_id t, 0)], d_color := (d_color s)(ts_id t := Gray)\<rparr>"
    note spec = dfs_loop_spec [OF dfs_inv_root [OF Cons.prems True]]
    show ?thesis
    proof (cases "dfs_loop tasks ?s")
      case (Dfs_done s')
      then have rest: "dfs_rest tasks s'" and keep: "\<And>x. d_color ?s x \<noteq> White \<Longrightarrow> d_color s' x \<noteq> White"
        using spec by (auto simp: dfs_rest_def)
      have "d_color s' (ts_id t) = Black"
        using keep [of "ts_id t"] dfs_rest_black [OF rest] by simp
      moreover have "d_color s x = Black \<Longrightarrow> d_color s' x = Black" for x
        using keep [of x] dfs_rest_black [OF rest] True by (cases "x = ts_id t") auto
      ultimately show ?thesis using Cons.IH [OF rest] Dfs_done True by (auto split: option.splits)
    next
      case (Dfs_back_edge s' i dep)
      then have b: "dep \<in> set (task_deps tasks i)" "dep \<in> fst ` set (d_stack s')"
        "distinct (map fst (d_stack s'))" "linked tasks (d_parent s') (d_stack s')"
        and "\<exists>n fs. d_stack s' = (i, n) # fs"
        using spec by simp_all
      then obtain n fs where st: "d_stack s' = (i, n) # fs" by blast
      obtain c where "read_cycle s' i dep = Some c" "is_cycle tasks c"
        using read_cycle_spec [OF b(4) st b(3,2,1)] .
      then show ?thesis using Dfs_back_edge True by simp
    qed
  qed
qed

lemma findCycle_spec:
  obtains (cycle) c where "findCycle tasks = Some (Some c)" and "is_cycle tasks c"
        | (none) "findCycle tasks = Some None" and "\<And>x. (x, x) \<notin> (dep_rel tasks)\<^sup>+"
proof -
  let ?s = "\<lparr>d_color = (\<lambda>_. White), d_parent = Map.empty, d_stack = []\<rparr>"
  have "dfs_rest tasks ?s" by (auto simp: dfs_rest_def dfs_inv_def)
  from find_from_spec [OF this, of tasks] obtain r where r: "findCycle tasks = Some r"
    "case r of Some c \<Rightarrow> is_cycle tasks c
     | None \<Rightarrow> (\<forall>x. d_color ?s x = Black \<or> x \<in> ts_id ` set tasks \<longrightarrow> (x, x) \<notin> (dep_rel tasks)\<^sup>+)"
    unfolding findCycle_def by blast
  have dom: "x \<in> ts_id ` set tasks" if xx: "(x, x) \<in> (dep_rel tasks)\<^sup>+" for x
  proof -
    obtain d where "(x, d) \<in> dep_rel tasks" using tranclD [OF xx] by blast
    then show ?thesis
      unfolding dep_rel_def task_deps_def
      by (auto dest!: map_of_SomeD [OF sym] map_of_SomeD split: option.splits)
  qed
  show thesis
  proof (cases r)
    case None
    show thesis
    proof (rule none)
      show "findCycle tasks = Some None" using r(1) None by simp
      show "(x, x) \<notin> (dep_rel tasks)\<^sup>+" for x using r(2) None dom [of x] by auto
    qed
  next
    case (Some c)
    then show thesis using r by (intro cycle) auto
  qed
qed

section \<open>What is accepted\<close>

lemma dep_rel_edges:
  assumes "distinct (map ts_id tasks)"
  shows "dep_rel tasks = (dep_edges tasks)\<inverse>"
proof -
  let ?m = "rev (map (\<lambda>t. (ts_id t, ts_depends_on t)) tasks)"
  have d: "distinct (map fst ?m)" using assms by (simp add: distinct_map rev_map o_def)
  have deps: "task_deps tasks (ts_id t) = ts_depends_on t" if "t \<in> set tasks" for t
  proof -
    have "map_of ?m (ts_id t) = Some (ts_depends_on t)"
      using that by (intro map_of_is_SomeI [OF d]) simp
    then show ?thesis by (simp add: task_deps_def)
  qed
  have key: "\<exists>t \<in> set tasks. x = ts_id t" if "y \<in> set (task_deps tasks x)" for x y
  proof -
    have "map_of ?m x \<noteq> None" using that by (cases "map_of ?m x") (simp_all add: task_deps_def)
    then show ?thesis unfolding map_of_eq_None_iff by auto
  qed
  show ?thesis
  proof (intro set_eqI iffI; clarify)
    fix x y assume "(x, y) \<in> dep_rel tasks"
    then have y: "y \<in> set (task_deps tasks x)" by (simp add: dep_rel_def)
    obtain t where "t \<in> set tasks" "x = ts_id t" using key [OF y] by blast
    then show "(y, x) \<in> dep_edges tasks" using y deps by (auto simp: dep_edges_def)
  next
    fix x y assume "(y, x) \<in> dep_edges tasks"
    then show "(x, y) \<in> dep_rel tasks" using deps by (auto simp: dep_rel_def dep_edges_def)
  qed
qed

lemma dep_rel_acyclic:
  "distinct (map ts_id tasks) \<Longrightarrow> acyclic (dep_edges tasks) \<longleftrightarrow> (\<forall>x. (x, x) \<notin> (dep_rel tasks)\<^sup>+)"
  by (simp add: dep_rel_edges acyclic_def trancl_converse)

lemma check_duplicates_None:
  "check_duplicates seen ts = None \<longleftrightarrow> distinct (map ts_id ts) \<and> set seen \<inter> ts_id ` set ts = {}"
  by (induction ts arbitrary: seen) auto

lemma check_duplicates_Some:
  "check_duplicates seen ts = Some e \<Longrightarrow>
   \<exists>i. e = Duplicate_id i \<and> (i \<in> set seen \<and> i \<in> ts_id ` set ts \<or> 2 \<le> count_list (map ts_id ts) i)"
proof (induction ts arbitrary: seen)
  case (Cons t ts)
  show ?case
  proof (cases "ts_id t \<in> set seen")
    case False
    then obtain i where "e = Duplicate_id i"
      "i \<in> set (ts_id t # seen) \<and> i \<in> ts_id ` set ts \<or> 2 \<le> count_list (map ts_id ts) i"
      using Cons.IH [of "ts_id t # seen"] Cons.prems by auto
    moreover have "i \<in> ts_id ` set ts \<Longrightarrow> count_list (map ts_id ts) i > 0"
      using count_list_0_iff [of "map ts_id ts" i] by auto
    ultimately show ?thesis by (cases "i = ts_id t") (auto simp: Suc_le_eq)
  qed (use Cons.prems in auto)
qed simp

lemma check_edges_None:
  "check_edges seen i deps = None \<longleftrightarrow> set deps \<subseteq> set seen \<and> i \<notin> set deps"
  by (induction deps) auto

lemma check_edges_Some:
  "check_edges seen i deps = Some e \<Longrightarrow>
   (\<exists>d \<in> set deps. d \<notin> set seen \<and> e = Unknown_dependency i d) \<or> (i \<in> set deps \<and> e = Self_dependency i)"
  by (induction deps) (auto split: if_splits)

lemma check_dependencies_None:
  "check_dependencies seen ts = None \<longleftrightarrow>
   (\<forall>t \<in> set ts. set (ts_depends_on t) \<subseteq> set seen \<and> ts_id t \<notin> set (ts_depends_on t))"
  unfolding check_edges_None [symmetric] by (induction ts) (auto split: option.splits)

lemma check_dependencies_Some:
  "check_dependencies seen ts = Some e \<Longrightarrow>
   \<exists>t \<in> set ts. check_edges seen (ts_id t) (ts_depends_on t) = Some e"
  by (induction ts) (auto split: option.splits)

lemma acyclic_no_self: "acyclic (dep_edges tasks) \<Longrightarrow> t \<in> set tasks \<Longrightarrow> ts_id t \<notin> set (ts_depends_on t)"
  unfolding acyclic_def dep_edges_def by blast

lemma parseTaskList_Inr:
  "parseTaskList decode raw \<noteq> None
   \<and> (parseTaskList decode raw = Some (Inr tasks) \<longleftrightarrow>
        decode raw = Inr tasks \<and> ids_ok tasks \<and> acyclic (dep_edges tasks))"
proof (cases "decode raw")
  case (Inr ts)
  show ?thesis
  proof (cases "check_duplicates [] ts")
    case None
    then have d: "distinct (map ts_id ts)" by (simp add: check_duplicates_None)
    show ?thesis
    proof (cases "check_dependencies (map ts_id ts) ts")
      case deps: None
      then have ok: "ids_ok ts" using d by (simp add: ids_ok_def check_dependencies_None)
      show ?thesis
      proof (cases rule: findCycle_spec [of ts])
        case (cycle c)
        then have "\<not> acyclic (dep_edges ts)"
          using is_cycle_trancl dep_rel_acyclic [OF d] by blast
        then show ?thesis using cycle deps None Inr by (auto simp: parseTaskList_def)
      next
        case none
        then have "acyclic (dep_edges ts)" using dep_rel_acyclic [OF d] by blast
        then show ?thesis using none deps None Inr ok by (auto simp: parseTaskList_def)
      qed
    next
      case (Some e)
      then have "\<not> (ids_ok ts \<and> acyclic (dep_edges ts))"
        using check_dependencies_None [of "map ts_id ts" ts] acyclic_no_self [of ts]
        by (auto simp: ids_ok_def)
      then show ?thesis using Some None Inr by (auto simp: parseTaskList_def)
    qed
  next
    case (Some e)
    then have "\<not> ids_ok ts" using check_duplicates_None [of "[]" ts] by (auto simp: ids_ok_def)
    then show ?thesis using Some Inr by (auto simp: parseTaskList_def)
  qed
qed (simp add: parseTaskList_def)

text \<open>
  An accepted list always yields a graph in order, unless a dependency is pinned to a
  hand-driven worker, which the graph's constructor refuses.
\<close>

lemma accepted_graph_inv:
  assumes "parseTaskList decode raw = Some (Inr tasks)" and "new_graph tasks tui = Inr g"
  shows "graph_inv tasks g"
proof -
  have "ids_ok tasks" "acyclic (dep_edges tasks)"
    using assms(1) parseTaskList_Inr [of decode raw tasks] by blast+
  then show ?thesis using assms(2) by (rule new_graph_inv)
qed

text \<open>
  The cycle search returns on every task list, even one with repeated or undeclared ids. A
  list it returns is a dependency path from a task back to itself through distinct tasks, each
  element depending on the next; when it returns nothing no task depends on itself, directly or
  through others.
\<close>

theorem findCycle_correct:
  "case findCycle tasks of
     None \<Rightarrow> False
   | Some (Some c) \<Rightarrow> is_cycle tasks c
   | Some None \<Rightarrow> acyclic (dep_rel tasks)"
  by (cases rule: findCycle_spec [of tasks]) (auto simp: acyclic_def)

text \<open>
  C27: \<open>parseTaskList\<close> always returns, and accepts exactly the decoded lists whose ids are
  distinct, whose dependencies all name tasks of the list, and whose dependencies are acyclic:
  what the schedule graph needs.
\<close>

theorem parseTaskList_accepts:
  "parseTaskList decode raw \<noteq> None
   \<and> (parseTaskList decode raw = Some (Inr tasks) \<longleftrightarrow>
        decode raw = Inr tasks \<and> ids_ok tasks \<and> acyclic (dep_edges tasks))"
  by (rule parseTaskList_Inr)

text \<open>
  Every refusal of a decoded task list is true of it: a duplicated id occurs twice, an
  unknown dependency is named by the task and declared by none, a self dependency is one, and a
  reported cycle is a cycle of a list that is otherwise in order.
\<close>

theorem parseTaskList_refusals:
  assumes "decode raw = Inr tasks" and "parseTaskList decode raw = Some (Inl e)"
  shows "case e of
      Unreadable _ \<Rightarrow> False
    | Undecodable _ \<Rightarrow> False
    | Duplicate_id i \<Rightarrow> 2 \<le> count_list (map ts_id tasks) i
    | Unknown_dependency i d \<Rightarrow>
        (\<exists>t \<in> set tasks. ts_id t = i \<and> d \<in> set (ts_depends_on t)) \<and> d \<notin> ts_id ` set tasks
    | Self_dependency i \<Rightarrow> \<exists>t \<in> set tasks. ts_id t = i \<and> i \<in> set (ts_depends_on t)
    | Dependency_cycle c \<Rightarrow> ids_ok tasks \<and> is_cycle tasks c"
proof (cases "check_duplicates [] tasks")
  case None
  show ?thesis
  proof (cases "check_dependencies (map ts_id tasks) tasks")
    case deps: None
    then have "ids_ok tasks"
      using None by (simp add: ids_ok_def check_dependencies_None check_duplicates_None)
    then show ?thesis using assms None deps
      by (cases rule: findCycle_spec [of tasks]) (auto simp: parseTaskList_def)
  next
    case (Some e')
    then have "e' = e" using assms None by (simp add: parseTaskList_def)
    then show ?thesis
      using check_dependencies_Some [OF Some] check_edges_Some by fastforce
  qed
next
  case (Some e')
  then have "e' = e" using assms by (simp add: parseTaskList_def)
  then show ?thesis using check_duplicates_Some [OF Some] by auto
qed

text \<open>The file layer: what the reader and the JSON and schema parsers answer are parameters.\<close>

definition loadTaskList ::
  "(string \<Rightarrow> string + string) \<Rightarrow> (string \<Rightarrow> string + task_spec list) \<Rightarrow> string \<Rightarrow>
   (task_list_error + task_spec list) option" where
  "loadTaskList read decode path =
     (case read path of
        Inl message \<Rightarrow> Some (Inl (Unreadable message))
      | Inr raw \<Rightarrow> parseTaskList decode raw)"

definition loop_tasks :: "task_spec list" where
  "loop_tasks =
     [\<lparr>ts_id = ''a'', ts_depends_on = [''c''], ts_worker = None, ts_deadline_s = 60\<rparr>,
      \<lparr>ts_id = ''b'', ts_depends_on = [''a''], ts_worker = None, ts_deadline_s = 60\<rparr>,
      \<lparr>ts_id = ''c'', ts_depends_on = [''b''], ts_worker = None, ts_deadline_s = 60\<rparr>]"

theorem parseTaskList_refusals_witness:
  "is_cycle loop_tasks [''a'', ''c'', ''b'', ''a'']"
proof -
  have "parseTaskList (\<lambda>_. Inr loop_tasks) '''' =
      Some (Inl (Dependency_cycle [''a'', ''c'', ''b'', ''a'']))"
    by code_simp (simp add: walk_parents.simps)
  from parseTaskList_refusals [OF _ this] show ?thesis by simp
qed

end
