(* ===== verification/Scheduler.thy ===== *)
theory Scheduler
  imports Budget Task_List "HOL-Library.List_Lexorder" "HOL-Library.Char_ord"
begin

text \<open>
  The scheduler of \<open>dispatch --auto\<close>, \<open>src/orchestrate/scheduler.ts\<close>: \<open>runSchedule\<close> as a loop over
  a state with the task graph, the tasks in flight, the dead workers, the reasons and the budget.
  Everything outside the loop's memory is the record \<open>scheduler_io\<close>, functions on a world of any
  type; \<open>dispatch\<close> may throw, the other calls answer. The callbacks of the options (\<open>onChange\<close>,
  the budget's persistence, \<open>onStallWarn\<close>) are functions from worlds to worlds. A thrown error
  carries the state it was thrown in. The loop is a partial function, so that not returning is
  \<open>None\<close>. Instants are rational numbers of milliseconds.
\<close>

section \<open>The world\<close>

datatype worker_health = Worker_idle | Worker_busy | Worker_dead

datatype dispatch_answer =
  Accepted
| Completed_already verdict
| Rejected string
| Unreachable string
| In_doubt string

datatype pane_mode = Pane_rpc | Pane_tui | Pane_unknown

record 'w scheduler_io =
  io_listWorkers :: "'w \<Rightarrow> 'w \<times> worker_id list"
  io_workerHealth :: "worker_id \<Rightarrow> 'w \<Rightarrow> 'w \<times> worker_health"
  io_dispatch :: "task_spec \<Rightarrow> worker_id \<Rightarrow> task_id \<Rightarrow> 'w \<Rightarrow> 'w \<times> (string + dispatch_answer)"
  io_readSettled :: "worker_id \<Rightarrow> task_id \<Rightarrow> 'w \<Rightarrow> 'w \<times> (verdict \<times> string) option"
  io_taskTokens :: "(worker_id \<Rightarrow> task_id \<Rightarrow> 'w \<Rightarrow> 'w \<times> rat) option"
  io_eventSilenceMs :: "(worker_id \<Rightarrow> 'w \<Rightarrow> 'w \<times> int option) option"
  io_killWedged :: "(worker_id \<Rightarrow> task_id \<Rightarrow> 'w \<Rightarrow> 'w) option"
  io_paneMode :: "(worker_id \<Rightarrow> 'w \<Rightarrow> 'w \<times> pane_mode) option"
  io_sleep :: "rat \<Rightarrow> 'w \<Rightarrow> 'w"
  io_now :: "'w \<Rightarrow> rat"
  io_isoNow :: "'w \<Rightarrow> string"

record 'w schedule_opts =
  so_pollMs :: "rat option"
  so_onChange :: "scheduled_task list \<Rightarrow> 'w \<Rightarrow> 'w"
  so_stallTimeoutMs :: "js_number option"
  so_budget :: "budget option"
  so_maxConcurrent :: int
  so_reserveTokens :: int
  so_persist :: "budget \<Rightarrow> 'w \<Rightarrow> 'w"
  so_stall :: "(int \<times> int) option"
  so_onStallWarn :: "worker_id \<Rightarrow> task_id \<Rightarrow> int \<Rightarrow> 'w \<Rightarrow> 'w"

datatype scheduler_error =
  Bad_stall_timeout js_number
| No_workers
| Pinned_to_stranger task_id worker_id
| Graph_refused graph_error
| Pinned_worker_died task_id worker_id
| Every_worker_died "task_id list"
| No_progress "(task_id \<times> worker_id) list"
| Dispatch_threw string

fun error_exit :: "scheduler_error \<Rightarrow> exit_code option" where
  "error_exit (Bad_stall_timeout _) = Some EXIT_USAGE"
| "error_exit No_workers = Some EXIT_USAGE"
| "error_exit (Pinned_to_stranger _ _) = Some EXIT_USAGE"
| "error_exit (Graph_refused (Tui_dependency _)) = Some EXIT_USAGE"
| "error_exit (Graph_refused _) = None"
| "error_exit (Pinned_worker_died _ _) = Some EXIT_WORKER_DIED"
| "error_exit (Every_worker_died _) = Some EXIT_WORKER_DIED"
| "error_exit (No_progress _) = Some EXIT_TIMEOUT"
| "error_exit (Dispatch_threw _) = None"

record 'w sched =
  s_world :: 'w
  s_graph :: task_graph
  s_inflight :: "(task_id \<times> worker_id) list"
  s_dead :: "worker_id list"
  s_reasons :: "task_id \<Rightarrow> string option"
  s_warned :: "(worker_id \<times> task_id) list"
  s_budget :: "budget option"
  s_lastProgress :: rat

type_synonym 'w thrown = "'w sched \<times> scheduler_error"

record schedule_outcome =
  out_schedule :: "scheduled_task list"
  out_exit :: exit_code
  out_budgetRefusal :: "admission option"

section \<open>Ceilings derived from the list\<close>

definition STALL_GRACE_MS :: int where
  "STALL_GRACE_MS = 600000"

definition stallCeilingFor :: "task_spec list \<Rightarrow> int" where
  "stallCeilingFor tasks =
     foldl (\<lambda>longest t. if ts_deadline_s t > 0 then max longest (ts_deadline_s t * 1000) else longest) 0 tasks
     + STALL_GRACE_MS"

text \<open>
  \<open>Math.floor(shortestMs * 0.2)\<close> and \<open>* 0.5\<close> are exact for whole seconds; \<open>None\<close> stands for the
  initial \<open>Infinity\<close>.
\<close>

definition shortest_deadline :: "task_spec list \<Rightarrow> int option" where
  "shortest_deadline tasks =
     foldl (\<lambda>shortest t. if ts_deadline_s t > 0
              then Some (case shortest of None \<Rightarrow> ts_deadline_s t * 1000
                         | Some s \<Rightarrow> min s (ts_deadline_s t * 1000))
              else shortest) None tasks"

definition stallWindowFor :: "task_spec list \<Rightarrow> int \<times> int \<Rightarrow> int \<times> int" where
  "stallWindowFor tasks configured =
     (case shortest_deadline tasks of
        None \<Rightarrow> configured
      | Some s \<Rightarrow> (min (fst configured) (s div 5), min (snd configured) (s div 2)))"

section \<open>The helpers of \<open>runSchedule\<close>\<close>

definition persistBudget :: "'w schedule_opts \<Rightarrow> 'w sched \<Rightarrow> 'w sched" where
  "persistBudget opts st =
     (case s_budget st of None \<Rightarrow> st | Some b \<Rightarrow> st\<lparr>s_world := so_persist opts b (s_world st)\<rparr>)"

definition announce_change :: "'w schedule_opts \<Rightarrow> 'w sched \<Rightarrow> 'w sched" where
  "announce_change opts st = st\<lparr>s_world := so_onChange opts (snapshot (s_graph st)) (s_world st)\<rparr>"

definition releaseHold :: "'w schedule_opts \<Rightarrow> task_id \<Rightarrow> 'w sched \<Rightarrow> 'w sched" where
  "releaseHold opts taskId st =
     (case s_budget st of
        None \<Rightarrow> st
      | Some b \<Rightarrow>
          (case release b taskId of
             (b', True) \<Rightarrow> persistBudget opts (st\<lparr>s_budget := Some b'\<rparr>)
           | (b', False) \<Rightarrow> st\<lparr>s_budget := Some b'\<rparr>))"

definition settleBudget ::
  "'w scheduler_io \<Rightarrow> 'w schedule_opts \<Rightarrow> task_id \<Rightarrow> worker_id \<Rightarrow> 'w sched \<Rightarrow> 'w sched" where
  "settleBudget io opts taskId worker st =
     (case s_budget st of
        None \<Rightarrow> st
      | Some b \<Rightarrow>
          (let (w, tokens) = (case io_taskTokens io of None \<Rightarrow> (s_world st, 0)
                              | Some f \<Rightarrow> f worker taskId (s_world st))
           in persistBudget opts
                (st\<lparr>s_world := w, s_budget := Some (fst (settle (io_isoNow io w) b taskId tokens None))\<rparr>)))"

definition classifyWorkerStall ::
  "'w scheduler_io \<Rightarrow> 'w schedule_opts \<Rightarrow> (int \<times> int) option \<Rightarrow> worker_id \<Rightarrow> task_id \<Rightarrow> 'w sched \<Rightarrow>
   'w sched \<times> stall_verdict" where
  "classifyWorkerStall io opts stallWindow worker taskId st =
     (case (stallWindow, io_eventSilenceMs io, s_budget st) of
        (Some (warnMs, killMs), Some silence, Some b) \<Rightarrow>
          (case silence worker (s_world st) of
             (w, None) \<Rightarrow> (st\<lparr>s_world := w\<rparr>, Healthy)
           | (w, Some silentMs) \<Rightarrow>
               (let verdict = classifyStall silentMs (holdsSlot b taskId) warnMs killMs
                in if verdict = Warn \<and> (worker, taskId) \<notin> set (s_warned st)
                   then (st\<lparr>s_world := so_onStallWarn opts worker taskId silentMs w,
                            s_warned := (worker, taskId) # s_warned st\<rparr>, verdict)
                   else (st\<lparr>s_world := w\<rparr>, verdict)))
      | _ \<Rightarrow> (st, Healthy))"

text \<open>A task reaches a terminal state: the graph, the reason and the tasks in flight.\<close>

definition conclude ::
  "task_id \<Rightarrow> verdict \<Rightarrow> (worker_id \<times> task_id) option \<Rightarrow> string \<Rightarrow> 'w sched \<Rightarrow> 'w thrown + 'w sched" where
  "conclude taskId verdict origin reason st =
     (case markSettled (s_graph st) taskId verdict origin of
        Inl e \<Rightarrow> Inl (st, Graph_refused e)
      | Inr g \<Rightarrow> Inr (st\<lparr>s_graph := g, s_reasons := (s_reasons st)(taskId \<mapsto> reason),
                        s_inflight := AList.delete taskId (s_inflight st)\<rparr>))"

definition bury :: "worker_id \<Rightarrow> 'w sched \<Rightarrow> 'w sched" where
  "bury worker st = (if worker \<in> set (s_dead st) then st else st\<lparr>s_dead := s_dead st @ [worker]\<rparr>)"

section \<open>The settle phase\<close>

definition poll_task ::
  "'w scheduler_io \<Rightarrow> 'w schedule_opts \<Rightarrow> (int \<times> int) option \<Rightarrow> task_id \<times> worker_id \<Rightarrow> 'w sched \<Rightarrow>
   'w thrown + 'w sched \<times> bool" where
  "poll_task io opts stallWindow entry st =
     (let (taskId, worker) = entry;
          (w1, record) = io_readSettled io worker taskId (s_world st);
          st1 = st\<lparr>s_world := w1\<rparr>
      in case record of
           Some (verdict, reason) \<Rightarrow>
             (case conclude taskId verdict None reason st1 of
                Inl e \<Rightarrow> Inl e
              | Inr st2 \<Rightarrow> Inr (settleBudget io opts taskId worker st2, True))
         | None \<Rightarrow>
             (let (w2, health) = io_workerHealth io worker w1;
                  st2 = st1\<lparr>s_world := w2\<rparr>
              in if health = Worker_dead
                 then (case conclude taskId Unknown None ''worker_died'' st2 of
                         Inl e \<Rightarrow> Inl e
                       | Inr st3 \<Rightarrow> Inr (settleBudget io opts taskId worker (bury worker st3), True))
                 else
                   (let (st3, stall) = classifyWorkerStall io opts stallWindow worker taskId st2
                    in if stall \<noteq> Kill then Inr (st3, False)
                       else
                         let st4 = (case io_killWedged io of None \<Rightarrow> st3
                                    | Some f \<Rightarrow> st3\<lparr>s_world := f worker taskId (s_world st3)\<rparr>)
                         in (case conclude taskId Unknown None ''event_stall_kill'' st4 of
                               Inl e \<Rightarrow> Inl e
                             | Inr st5 \<Rightarrow>
                                 Inr (settleBudget io opts taskId worker (bury worker st5), True)))))"

fun settle_phase ::
  "'w scheduler_io \<Rightarrow> 'w schedule_opts \<Rightarrow> (int \<times> int) option \<Rightarrow> (task_id \<times> worker_id) list \<Rightarrow>
   'w sched \<times> bool \<Rightarrow> 'w thrown + 'w sched \<times> bool" where
  "settle_phase io opts stallWindow [] acc = Inr acc"
| "settle_phase io opts stallWindow (entry # entries) (st, progressed) =
     (case poll_task io opts stallWindow entry st of
        Inl e \<Rightarrow> Inl e
      | Inr (st', p) \<Rightarrow> settle_phase io opts stallWindow entries (st', progressed \<or> p))"

section \<open>The dispatch phase\<close>

fun probe_workers ::
  "'w scheduler_io \<Rightarrow> worker_id list \<Rightarrow> worker_id list \<Rightarrow> 'w sched \<times> worker_id list \<Rightarrow> 'w sched \<times> worker_id list" where
  "probe_workers io busy [] acc = acc"
| "probe_workers io busy (v # vs) (st, available) =
     (if v \<in> set (s_dead st) \<or> v \<in> set busy then probe_workers io busy vs (st, available)
      else
        let (w, health) = io_workerHealth io v (s_world st);
            st1 = st\<lparr>s_world := w\<rparr>
        in if health = Worker_dead then probe_workers io busy vs (bury v st1, available)
           else if health = Worker_idle then probe_workers io busy vs (st1, available @ [v])
           else probe_workers io busy vs (st1, available))"

record 'w pass =
  ps_state :: "'w sched"
  ps_available :: "worker_id list"
  ps_refused :: "admission option"
  ps_dispatched :: bool
  ps_progressed :: bool

definition choose_target ::
  "task_spec \<Rightarrow> worker_id list \<Rightarrow> worker_id option" where
  "choose_target spec available =
     (case ts_worker spec of
        Some pin \<Rightarrow> if pin \<in> set available then Some pin else None
      | None \<Rightarrow> (case available of [] \<Rightarrow> None | v # _ \<Rightarrow> Some v))"

definition admitted :: "admission \<Rightarrow> bool" where
  "admitted a \<longleftrightarrow> (case a of Admitted _ \<Rightarrow> True | _ \<Rightarrow> False)"

text \<open>Admission: no budget admits everything; a grant is persisted before the dispatch.\<close>

definition admit_task :: "'w schedule_opts \<Rightarrow> task_id \<Rightarrow> 'w sched \<Rightarrow> 'w sched \<times> admission option" where
  "admit_task opts taskId st =
     (case s_budget st of
        None \<Rightarrow> (st, None)
      | Some b \<Rightarrow>
          (let (b', decision) = admit b taskId (so_reserveTokens opts) (so_maxConcurrent opts);
               st' = st\<lparr>s_budget := Some b'\<rparr>
           in if admitted decision then (persistBudget opts st', None) else (st', Some decision)))"

definition take_answer ::
  "'w scheduler_io \<Rightarrow> 'w schedule_opts \<Rightarrow> task_spec \<Rightarrow> worker_id \<Rightarrow> dispatch_answer \<Rightarrow> 'w pass \<Rightarrow>
   'w thrown + 'w pass" where
  "take_answer io opts spec target answer ps =
     (let i = ts_id spec; st = ps_state ps; gone = remove1 target (ps_available ps)
      in case answer of
           Accepted \<Rightarrow>
             (case markDispatched (s_graph st) i target i of
                Inl e \<Rightarrow> Inl (st, Graph_refused e)
              | Inr g \<Rightarrow>
                  Inr (ps\<lparr>ps_state := st\<lparr>s_graph := g,
                                        s_inflight := AList.update i target (s_inflight st)\<rparr>,
                         ps_available := gone\<rparr>))
         | Completed_already verdict \<Rightarrow>
             (case conclude i verdict (Some (target, i)) ''already_completed'' st of
                Inl e \<Rightarrow> Inl e
              | Inr st' \<Rightarrow> Inr (ps\<lparr>ps_state := settleBudget io opts i target st'\<rparr>))
         | Rejected reason \<Rightarrow>
             (case conclude i Failed (Some (target, i)) reason st of
                Inl e \<Rightarrow> Inl e
              | Inr st' \<Rightarrow> Inr (ps\<lparr>ps_state := settleBudget io opts i target st'\<rparr>))
         | In_doubt detail \<Rightarrow>
             (case conclude i Unknown (Some (target, i)) (''dispatch outcome unknown: '' @ detail) st of
                Inl e \<Rightarrow> Inl e
              | Inr st' \<Rightarrow> Inr (ps\<lparr>ps_state := settleBudget io opts i target st', ps_available := gone\<rparr>))
         | Unreachable detail \<Rightarrow>
             Inr (ps\<lparr>ps_state := releaseHold opts i (bury target st), ps_available := gone\<rparr>))"

definition offer_task ::
  "'w scheduler_io \<Rightarrow> 'w schedule_opts \<Rightarrow> task_spec \<Rightarrow> 'w pass \<Rightarrow> 'w thrown + 'w pass" where
  "offer_task io opts spec ps =
     (let i = ts_id spec; st = ps_state ps
      in if (case ts_worker spec of Some pin \<Rightarrow> pin \<in> set (s_dead st) | None \<Rightarrow> False)
         then Inl (if ps_dispatched ps then announce_change opts st else st,
                   Pinned_worker_died i (the (ts_worker spec)))
         else
           case choose_target spec (ps_available ps) of
             None \<Rightarrow> Inr ps
           | Some target \<Rightarrow>
               (case admit_task opts i st of
                  (st1, Some refusal) \<Rightarrow> Inr (ps\<lparr>ps_state := st1, ps_refused := Some refusal\<rparr>)
                | (st1, None) \<Rightarrow>
                    (case io_dispatch io spec target i (s_world st1) of
                       (w, Inl err) \<Rightarrow> Inl (releaseHold opts i (st1\<lparr>s_world := w\<rparr>), Dispatch_threw err)
                     | (w, Inr answer) \<Rightarrow>
                         take_answer io opts spec target answer
                           (ps\<lparr>ps_state := st1\<lparr>s_world := w\<rparr>, ps_dispatched := True,
                              ps_progressed := True\<rparr>))))"

fun dispatch_phase ::
  "'w scheduler_io \<Rightarrow> 'w schedule_opts \<Rightarrow> task_spec list \<Rightarrow> 'w pass \<Rightarrow> 'w thrown + 'w pass" where
  "dispatch_phase io opts [] ps = Inr ps"
| "dispatch_phase io opts (spec # specs) ps =
     (case offer_task io opts spec ps of
        Inl e \<Rightarrow> Inl e
      | Inr ps' \<Rightarrow> dispatch_phase io opts specs ps')"

section \<open>The loop\<close>

datatype 'w turn = Again "'w sched" | Stop "'w sched" "admission option"

definition budget_halted :: "'w sched \<Rightarrow> bool" where
  "budget_halted st \<longleftrightarrow> (case s_budget st of None \<Rightarrow> False | Some b \<Rightarrow> halted b)"

definition poll_interval :: "'w schedule_opts \<Rightarrow> rat" where
  "poll_interval opts = (case so_pollMs opts of None \<Rightarrow> 100 | Some ms \<Rightarrow> ms)"

text \<open>The end of an iteration: the refusals to wait, the stall timeout, the sleep.\<close>

definition end_turn ::
  "'w scheduler_io \<Rightarrow> 'w schedule_opts \<Rightarrow> worker_id list \<Rightarrow> rat \<Rightarrow> 'w pass \<Rightarrow> 'w thrown + 'w turn" where
  "end_turn io opts workers stallTimeoutMs ps =
     (let st = ps_state ps
      in if ps_refused ps \<noteq> None \<and> \<not> ps_dispatched ps \<and> s_inflight st = []
         then Inr (Stop st (ps_refused ps))
         else if \<not> allTerminal (s_graph st) \<and> s_inflight st = [] \<and> \<not> ps_progressed ps
                 \<and> set workers \<subseteq> set (s_dead st)
         then Inl (st, Every_worker_died (map ts_id (ready (s_graph st))))
         else if ps_progressed ps then Inr (Again (st\<lparr>s_lastProgress := io_now io (s_world st)\<rparr>))
         else if io_now io (s_world st) - s_lastProgress st > stallTimeoutMs
         then Inl (if ps_dispatched ps then announce_change opts st else st, No_progress (s_inflight st))
         else Inr (Again (st\<lparr>s_world := io_sleep io (poll_interval opts) (s_world st)\<rparr>)))"

definition dispatch_turn ::
  "'w scheduler_io \<Rightarrow> 'w schedule_opts \<Rightarrow> worker_id list \<Rightarrow> rat \<Rightarrow> 'w sched \<Rightarrow> bool \<Rightarrow> 'w thrown + 'w turn" where
  "dispatch_turn io opts workers stallTimeoutMs st progressed =
     (let (st1, available) = probe_workers io (map snd (s_inflight st)) workers (st, [])
      in case dispatch_phase io opts (ready (s_graph st1))
                \<lparr>ps_state = st1, ps_available = available, ps_refused = None,
                 ps_dispatched = False, ps_progressed = progressed\<rparr> of
           Inl e \<Rightarrow> Inl e
         | Inr ps \<Rightarrow>
             end_turn io opts workers stallTimeoutMs
               (if ps_dispatched ps then ps\<lparr>ps_state := announce_change opts (ps_state ps)\<rparr> else ps))"

definition turn_once ::
  "'w scheduler_io \<Rightarrow> 'w schedule_opts \<Rightarrow> (int \<times> int) option \<Rightarrow> worker_id list \<Rightarrow> rat \<Rightarrow> 'w sched \<Rightarrow>
   'w thrown + 'w turn" where
  "turn_once io opts stallWindow workers stallTimeoutMs st =
     (if allTerminal (s_graph st) then Inr (Stop st None)
      else
        case settle_phase io opts stallWindow (s_inflight st) (st, False) of
          Inl e \<Rightarrow> Inl e
        | Inr (st1, progressed) \<Rightarrow>
            (let st2 = (if progressed then announce_change opts st1 else st1)
             in if allTerminal (s_graph st2) then Inr (Stop st2 None)
                else if budget_halted st2 \<and> s_inflight st2 = [] then Inr (Stop st2 None)
                else dispatch_turn io opts workers stallTimeoutMs st2 progressed))"

partial_function (option) sched_loop ::
  "'w scheduler_io \<Rightarrow> 'w schedule_opts \<Rightarrow> (int \<times> int) option \<Rightarrow> worker_id list \<Rightarrow> rat \<Rightarrow> 'w sched \<Rightarrow>
   ('w thrown + 'w sched \<times> admission option) option" where
  "sched_loop io opts stallWindow workers stallTimeoutMs st =
     (case turn_once io opts stallWindow workers stallTimeoutMs st of
        Inl e \<Rightarrow> Some (Inl e)
      | Inr (Stop st' refusal) \<Rightarrow> Some (Inr (st', refusal))
      | Inr (Again st') \<Rightarrow> sched_loop io opts stallWindow workers stallTimeoutMs st')"

section \<open>\<open>runSchedule\<close>\<close>

definition exitFor :: "scheduled_task \<Rightarrow> string \<Rightarrow> exit_code" where
  "exitFor t reason =
     (if st_state t = S_blocked then EXIT_PARTIAL
      else if reason = ''worker_died'' then EXIT_WORKER_DIED
      else (case st_verdict t of
              Some Success \<Rightarrow> EXIT_SUCCESS
            | Some Timed_out \<Rightarrow> EXIT_TIMEOUT
            | _ \<Rightarrow> EXIT_PARTIAL))"

definition conclude_schedule :: "'w sched \<Rightarrow> admission option \<Rightarrow> schedule_outcome" where
  "conclude_schedule st refusal =
     (let schedule = snapshot (s_graph st);
          codes = map (\<lambda>t. exitFor t (case s_reasons st (st_id t) of None \<Rightarrow> [] | Some r \<Rightarrow> r)) schedule
            @ (case s_budget st of None \<Rightarrow> [] | Some b \<Rightarrow> [budgetExitCode b])
            @ (if refusal \<noteq> None then [EXIT_BUDGET] else [])
      in \<lparr>out_schedule = schedule, out_exit = worstExit codes, out_budgetRefusal = refusal\<rparr>)"

definition stall_timeout :: "task_spec list \<Rightarrow> 'w schedule_opts \<Rightarrow> js_number" where
  "stall_timeout tasks opts =
     (case so_stallTimeoutMs opts of None \<Rightarrow> js_int (stallCeilingFor tasks) | Some n \<Rightarrow> n)"

definition find_stranger :: "task_spec list \<Rightarrow> worker_id list \<Rightarrow> (task_id \<times> worker_id) option" where
  "find_stranger tasks workers =
     map_option (\<lambda>t. (ts_id t, the (ts_worker t)))
       (find (\<lambda>t. case ts_worker t of None \<Rightarrow> False | Some pin \<Rightarrow> pin \<notin> set workers) tasks)"

fun probe_modes ::
  "(worker_id \<Rightarrow> 'w \<Rightarrow> 'w \<times> pane_mode) \<Rightarrow> worker_id list \<Rightarrow> 'w \<times> worker_id set \<Rightarrow> 'w \<times> worker_id set" where
  "probe_modes mode [] acc = acc"
| "probe_modes mode (v # vs) (w, tui) =
     (let (w', m) = mode v w in probe_modes mode vs (w', if m = Pane_tui then insert v tui else tui))"

definition tui_workers :: "'w scheduler_io \<Rightarrow> task_spec list \<Rightarrow> 'w \<Rightarrow> 'w \<times> worker_id set" where
  "tui_workers io tasks w =
     (case io_paneMode io of
        None \<Rightarrow> (w, {})
      | Some mode \<Rightarrow>
          probe_modes mode
            (sort (remdups (concat (map (\<lambda>t. case ts_worker t of None \<Rightarrow> [] | Some pin \<Rightarrow> [pin]) tasks))))
            (w, {}))"

definition initial_sched ::
  "'w scheduler_io \<Rightarrow> 'w schedule_opts \<Rightarrow> task_graph \<Rightarrow> rat \<Rightarrow> 'w \<Rightarrow> 'w sched" where
  "initial_sched io opts g started w =
     persistBudget opts (announce_change opts
       \<lparr>s_world = w, s_graph = g, s_inflight = [], s_dead = [], s_reasons = Map.empty,
        s_warned = [], s_budget = so_budget opts, s_lastProgress = started\<rparr>)"

definition runSchedule ::
  "task_spec list \<Rightarrow> 'w scheduler_io \<Rightarrow> 'w schedule_opts \<Rightarrow> 'w \<Rightarrow>
   (scheduler_error + schedule_outcome) option" where
  "runSchedule tasks io opts w =
     (case stall_timeout tasks opts of
        Finite stallTimeoutMs \<Rightarrow>
          if stallTimeoutMs \<le> 0 then Some (Inl (Bad_stall_timeout (Finite stallTimeoutMs)))
          else
            (let stallWindow = map_option (stallWindowFor tasks) (so_stall opts);
                 started = io_now io w;
                 (w1, listed) = io_listWorkers io w;
                 workers = sort listed
             in if workers = [] then Some (Inl No_workers)
                else
                  case find_stranger tasks workers of
                    Some (i, pin) \<Rightarrow> Some (Inl (Pinned_to_stranger i pin))
                  | None \<Rightarrow>
                      (let (w2, tui) = tui_workers io tasks w1
                       in case new_graph tasks tui of
                            Inl e \<Rightarrow> Some (Inl (Graph_refused e))
                          | Inr g \<Rightarrow>
                              (case sched_loop io opts stallWindow workers stallTimeoutMs
                                      (initial_sched io opts g started w2) of
                                 None \<Rightarrow> None
                               | Some (Inl (st, e)) \<Rightarrow> Some (Inl e)
                               | Some (Inr (st, refusal)) \<Rightarrow> Some (Inr (conclude_schedule st refusal)))))
      | n \<Rightarrow> Some (Inl (Bad_stall_timeout n)))"

end
