(* ===== verification/Task_Board.thy ===== *)
theory Task_Board
  imports Graph_Sweep
begin

text \<open>
  What a scheduler may rely on of its task graph, as an interface: dispatching a ready task and
  settling a ready or dispatched one succeed, change that task's state as named, and leave every
  task alone that is not waiting. The laws give a measure of the work left, which every dispatch
  and every settlement decreases. The graph of \<open>orchestrate/graph.ts\<close> provides the interface.
\<close>

section \<open>The interface\<close>

definition live_state :: "sched_state option \<Rightarrow> bool" where
  "live_state s \<longleftrightarrow> s = Some S_ready \<or> s = Some S_dispatched"

fun state_work :: "sched_state option \<Rightarrow> nat" where
  "state_work None = 0"
| "state_work (Some S_done) = 0"
| "state_work (Some S_blocked) = 0"
| "state_work (Some S_dispatched) = 1"
| "state_work (Some _) = 2"

locale task_board =
  fixes inv :: "'g \<Rightarrow> bool"
    and ids :: "task_id set"
    and state :: "'g \<Rightarrow> task_id \<Rightarrow> sched_state option"
    and dispatch :: "'g \<Rightarrow> task_id \<Rightarrow> worker_id \<Rightarrow> task_id \<Rightarrow> graph_error + 'g"
    and settle :: "'g \<Rightarrow> task_id \<Rightarrow> verdict \<Rightarrow> (worker_id \<times> task_id) option \<Rightarrow> graph_error + 'g"
  assumes finite_ids: "finite ids"
    and state_ids: "inv g \<Longrightarrow> state g i \<noteq> None \<Longrightarrow> i \<in> ids"
    and dispatch_ready: "inv g \<Longrightarrow> state g i = Some S_ready \<Longrightarrow>
      \<exists>g'. dispatch g i w t = Inr g' \<and> inv g' \<and> state g' = (state g)(i \<mapsto> S_dispatched)"
    and settle_live: "inv g \<Longrightarrow> live_state (state g i) \<Longrightarrow>
      \<exists>g'. settle g i v f = Inr g' \<and> inv g' \<and> state g' i = Some S_done
        \<and> (\<forall>j. j \<noteq> i \<longrightarrow> state g j \<noteq> Some S_waiting \<longrightarrow> state g' j = state g j)
        \<and> (\<forall>j. j \<noteq> i \<longrightarrow> state g j = Some S_waiting \<longrightarrow>
              state g' j \<in> {Some S_waiting, Some S_ready, Some S_blocked})"
begin

text \<open>The work left: two for a task not yet dispatched, one for a dispatched one.\<close>

definition work :: "'g \<Rightarrow> nat" where
  "work g = (\<Sum>i \<in> ids. state_work (state g i))"

lemma work_less:
  assumes "inv g" and "state g i \<noteq> None" and "state_work (state g' i) < state_work (state g i)"
    and "\<And>j. j \<noteq> i \<Longrightarrow> state_work (state g' j) \<le> state_work (state g j)"
  shows "work g' < work g"
  unfolding work_def
proof (rule sum_strict_mono_ex1 [OF finite_ids])
  show "\<forall>j \<in> ids. state_work (state g' j) \<le> state_work (state g j)"
    using assms(3,4) by (metis less_imp_le)
  show "\<exists>j \<in> ids. state_work (state g' j) < state_work (state g j)"
    using assms(3) state_ids [OF assms(1,2)] by blast
qed

lemma dispatch_work:
  assumes "inv g" and "state g i = Some S_ready" and "dispatch g i w t = Inr g'"
  shows "work g' < work g"
proof -
  have s: "state g' = (state g)(i \<mapsto> S_dispatched)"
    using dispatch_ready [OF assms(1,2), of w t] assms(3) by auto
  show ?thesis using assms(1,2) by (intro work_less [of g i]) (auto simp: s)
qed

lemma settle_work:
  assumes "inv g" and "live_state (state g i)" and "settle g i v f = Inr g'"
  shows "work g' < work g"
proof (rule work_less [OF assms(1)])
  have s: "state g' i = Some S_done"
    "\<And>j. j \<noteq> i \<Longrightarrow> state g j \<noteq> Some S_waiting \<Longrightarrow> state g' j = state g j"
    "\<And>j. j \<noteq> i \<Longrightarrow> state g j = Some S_waiting \<Longrightarrow>
       state g' j \<in> {Some S_waiting, Some S_ready, Some S_blocked}"
    using settle_live [OF assms(1,2), of v f] assms(3) by auto
  show "state g i \<noteq> None" "state_work (state g' i) < state_work (state g i)"
    using assms(2) s(1) by (auto simp: live_state_def)
  fix j assume "j \<noteq> i"
  then show "state_work (state g' j) \<le> state_work (state g j)"
    using s(2,3) [of j] by (cases "state g j = Some S_waiting") auto
qed

text \<open>Ready tasks stay ready while other tasks are dispatched and settled.\<close>

lemma dispatch_keeps_ready:
  assumes "inv g" and "state g i = Some S_ready" and "dispatch g i w t = Inr g'"
    and "state g j = Some S_ready" and "j \<noteq> i"
  shows "state g' j = Some S_ready"
  using dispatch_ready [OF assms(1,2), of w t] assms(3-5) by auto

lemma settle_keeps_live:
  assumes "inv g" and "live_state (state g i)" and "settle g i v f = Inr g'"
    and "live_state (state g j)" and "j \<noteq> i"
  shows "state g' j = state g j"
  using settle_live [OF assms(1,2), of v f] assms(3-5) by (auto simp: live_state_def)

text \<open>No operation makes a task dispatched but the dispatch of it.\<close>

lemma settle_dispatched:
  assumes "inv g" and "live_state (state g i)" and "settle g i v f = Inr g'"
  shows "state g' j = Some S_dispatched \<longleftrightarrow> j \<noteq> i \<and> state g j = Some S_dispatched"
  using settle_live [OF assms(1,2), of v f] assms(3)
  by (cases "j = i"; cases "state g j = Some S_waiting") fastforce+

end

section \<open>The graph provides it\<close>

definition task_state :: "task_graph \<Rightarrow> task_id \<Rightarrow> sched_state option" where
  "task_state g i = map_option n_state (g_nodes g i)"

lemma markDispatched_board:
  assumes inv: "graph_inv tasks g" and r: "task_state g i = Some S_ready"
  shows "\<exists>g'. markDispatched g i w t = Inr g' \<and> graph_inv tasks g'
    \<and> task_state g' = (task_state g)(i \<mapsto> S_dispatched)"
proof -
  obtain n where n: "g_nodes g i = Some n" "n_state n = S_ready"
    using r by (auto simp: task_state_def)
  let ?g = "g\<lparr>g_nodes := (g_nodes g)(i \<mapsto>
    n\<lparr>n_state := S_dispatched, n_worker := Some w, n_taskId := Some t\<rparr>)\<rparr>"
  have m: "markDispatched g i w t = Inr ?g" using n by (simp add: markDispatched_def)
  have "task_state ?g = (task_state g)(i \<mapsto> S_dispatched)" by (simp add: task_state_def fun_eq_iff)
  then show ?thesis using m markDispatched_inv [OF inv m] by blast
qed

text \<open>A task settled: the other tasks are as before, unless they were waiting.\<close>

lemma settled_node_ready:
  assumes inv: "graph_inv tasks g" and inv': "graph_inv tasks g'"
    and m: "markSettled g i v f = Inr g'" and j: "j \<noteq> i"
    and n: "g_nodes g j = Some n" "n_state n = S_ready" and n': "g_nodes g' j = Some n'"
  shows "n_state n' = S_ready"
proof -
  let ?ds = "ts_depends_on (n_spec n)"
  have spec: "n_spec n' = n_spec n" and op: "open_state (n_state n')"
    using markSettled_nodes [OF m n(1)] n' j n(2) by (auto simp: open_state_def)
  have "(S_ready, n_blockedBy n) = due g ?ds"
    using graph_inv_node [OF inv n(1)] n(2) by (simp add: node_ok_def)
  then have ok: "list_all (dep_ok g) ?ds" by (auto simp: due_def split: option.splits if_splits)
  have "dep_ok g' d \<and> dep_cause g' d = None" if "d \<in> set ?ds" for d
  proof -
    have "dep_ok g d" using ok that by (simp add: list_all_iff)
    then obtain k where k: "g_nodes g d = Some k" "n_state k = S_done"
      "dependencySatisfied (the (n_verdict k))" by (auto simp: dep_ok_def split: option.splits)
    have "d \<noteq> i" using m k by (auto simp: markSettled_def)
    then have "g_nodes g' d = Some k"
      using markSettled_nodes [OF m k(1)] k(2) by (auto simp: open_state_def)
    then show ?thesis using k by (simp add: dep_ok_def dep_cause_def)
  qed
  then have "due g' ?ds = (S_ready, None)"
    by (simp add: due_def first_cause_None list_all_iff) (metis first_cause_None option.simps(4))
  then show ?thesis using graph_inv_node [OF inv' n'] op spec
    by (simp add: node_ok_def open_state_def split: if_splits)
qed

lemma open_node_state:
  "graph_inv tasks g \<Longrightarrow> g_nodes g i = Some n \<Longrightarrow> open_state (n_state n) \<Longrightarrow>
   n_state n \<in> {S_blocked, S_ready, S_waiting}"
  using graph_inv_node [of tasks g i n] due_state [of g "ts_depends_on (n_spec n)"]
  by (auto simp: node_ok_def open_state_def split: if_splits dest: arg_cong [where f = fst])

lemma markSettled_board:
  assumes inv: "graph_inv tasks g" and live: "live_state (task_state g i)"
  shows "\<exists>g'. markSettled g i v f = Inr g' \<and> graph_inv tasks g' \<and> task_state g' i = Some S_done
    \<and> (\<forall>j. j \<noteq> i \<longrightarrow> task_state g j \<noteq> Some S_waiting \<longrightarrow> task_state g' j = task_state g j)
    \<and> (\<forall>j. j \<noteq> i \<longrightarrow> task_state g j = Some S_waiting \<longrightarrow>
          task_state g' j \<in> {Some S_waiting, Some S_ready, Some S_blocked})"
proof -
  obtain n where n: "g_nodes g i = Some n" "n_state n \<noteq> S_done" "n_state n \<noteq> S_blocked"
    using live by (auto simp: task_state_def live_state_def)
  obtain g' where m: "markSettled g i v f = Inr g'" and sw: "sweep_inv tasks g g' (dom (g_nodes g))"
    and inv': "graph_inv tasks g'"
    by (rule markSettled_sweep [OF inv n])
  have gr: "grown g g'" using sw by (simp add: sweep_inv_def)
  have settled: "task_state g' i = Some S_done"
    using markSettled_nodes [OF m n(1)]
    by (auto simp: task_state_def settle_node_def Let_def split: option.splits)
  have other: "(task_state g j \<noteq> Some S_waiting \<longrightarrow> task_state g' j = task_state g j)
      \<and> (task_state g j = Some S_waiting \<longrightarrow>
          task_state g' j \<in> {Some S_waiting, Some S_ready, Some S_blocked})" if j: "j \<noteq> i" for j
  proof (cases "g_nodes g j")
    case None
    then have "g_nodes g' j = None"
      using inv inv' by (auto simp: graph_inv_def graph_wf_def)
    then show ?thesis using None by (simp add: task_state_def)
  next
    case (Some k)
    obtain k' where k': "g_nodes g' j = Some k'"
      and closed: "\<not> open_state (n_state k) \<Longrightarrow> k' = k"
      and opened: "open_state (n_state k) \<Longrightarrow> open_state (n_state k')"
      using markSettled_nodes [OF m Some] j by auto
    show ?thesis
    proof (cases "open_state (n_state k)")
      case False
      then show ?thesis using Some k' closed by (auto simp: task_state_def open_state_def)
    next
      case True
      have in': "n_state k' \<in> {S_blocked, S_ready, S_waiting}"
        using open_node_state [OF inv' k' opened [OF True]] .
      have "n_state k' = S_blocked" if b: "n_state k = S_blocked"
      proof -
        have "dep_cause g j \<noteq> None"
          using b Some node_ok_blocked [OF graph_inv_node [OF inv Some]] by (simp add: dep_cause_def)
        then have "dep_cause g' j \<noteq> None" using gr by (simp add: grown_def)
        then show ?thesis using k' opened [OF True]
          by (simp add: dep_cause_def open_state_def split: if_splits)
      qed
      moreover have "n_state k' = S_ready" if "n_state k = S_ready"
        using settled_node_ready [OF inv inv' m j Some that k'] .
      ultimately show ?thesis using open_node_state [OF inv Some True] in' Some k'
        by (auto simp: task_state_def)
    qed
  qed
  then show ?thesis using m inv' settled by blast
qed

interpretation board: task_board "graph_inv tasks" "ts_id ` set tasks" task_state markDispatched markSettled
  for tasks
proof unfold_locales
  show "finite (ts_id ` set tasks)" by simp
  show "i \<in> ts_id ` set tasks" if "graph_inv tasks g" "task_state g i \<noteq> None" for g i
    using that by (auto simp: graph_inv_def graph_wf_def task_state_def)
  show "\<exists>g'. markDispatched g i w t = Inr g' \<and> graph_inv tasks g'
      \<and> task_state g' = (task_state g)(i \<mapsto> S_dispatched)"
    if "graph_inv tasks g" "task_state g i = Some S_ready" for g i w t
    using that by (rule markDispatched_board)
  show "\<exists>g'. markSettled g i v f = Inr g' \<and> graph_inv tasks g' \<and> task_state g' i = Some S_done
      \<and> (\<forall>j. j \<noteq> i \<longrightarrow> task_state g j \<noteq> Some S_waiting \<longrightarrow> task_state g' j = task_state g j)
      \<and> (\<forall>j. j \<noteq> i \<longrightarrow> task_state g j = Some S_waiting \<longrightarrow>
            task_state g' j \<in> {Some S_waiting, Some S_ready, Some S_blocked})"
    if "graph_inv tasks g" "live_state (task_state g i)" for g i v f
    using that by (rule markSettled_board)
qed

text \<open>What the tasks the graph hands out look like.\<close>

lemma ready_specs:
  assumes "graph_inv tasks g" and "spec \<in> set (ready g)"
  shows "spec \<in> set tasks" and "task_state g (ts_id spec) = Some S_ready"
proof -
  have "\<exists>i n. i \<in> set (g_order g) \<and> g_nodes g i = Some n \<and> n_state n = S_ready \<and> n_spec n = spec"
    using assms(2) by (auto simp: ready_def split: option.splits if_splits) metis
  then obtain i n where n: "i \<in> set (g_order g)" "g_nodes g i = Some n" "n_state n = S_ready" "n_spec n = spec"
    by blast
  then obtain t where t: "t \<in> set tasks" "i = ts_id t"
    using assms(1) by (auto simp: graph_inv_def graph_wf_def)
  then have "spec = t" using assms(1) n by (auto simp: graph_inv_def graph_wf_def)
  then show "spec \<in> set tasks" "task_state g (ts_id spec) = Some S_ready"
    using n t by (simp_all add: task_state_def)
qed

lemma distinct_ready:
  assumes "graph_inv tasks g"
  shows "distinct (map ts_id (ready g))"
proof -
  have wf: "graph_wf tasks g" using assms by (simp add: graph_inv_def)
  have "map ts_id (ready g) = filter (\<lambda>i. task_state g i = Some S_ready) (g_order g)"
  proof -
    have "map ts_id (concat (map (\<lambda>i. case g_nodes g i of
        Some n \<Rightarrow> if n_state n = S_ready then [n_spec n] else [] | None \<Rightarrow> []) is))
      = filter (\<lambda>i. task_state g i = Some S_ready) is" if "set is \<subseteq> set (g_order g)" for "is"
      using that
    proof (induction "is")
      case (Cons i "is")
      then obtain t where t: "t \<in> set tasks" "i = ts_id t" using wf by (auto simp: graph_wf_def)
      obtain n where "g_nodes g i = Some n" "n_spec n = t"
        using wf t by (auto elim: graph_wf_node)
      then show ?case using Cons t by (simp add: task_state_def)
    qed simp
    then show ?thesis by (simp add: ready_def)
  qed
  moreover have "distinct (g_order g)" using wf by (simp add: graph_wf_def ids_ok_def)
  ultimately show ?thesis by simp
qed

lemma ready_deps_ok:
  assumes "graph_inv tasks g" and "task_state g (ts_id t) = Some S_ready" and "t \<in> set tasks"
    and "d \<in> set (ts_depends_on t)"
  shows "dep_ok g d"
proof -
  obtain n where n: "g_nodes g (ts_id t) = Some n" "n_spec n = t"
    using assms(1,3) by (auto simp: graph_inv_def elim: graph_wf_node)
  then have "(S_ready, n_blockedBy n) = due g (ts_depends_on t)"
    using graph_inv_node [OF assms(1) n(1)] assms(2) by (simp add: node_ok_def task_state_def)
  then show ?thesis using assms(4)
    by (auto simp: due_def list_all_iff split: option.splits if_splits)
qed

lemma allTerminal_states:
  assumes "graph_inv tasks g" and "allTerminal g" and "t \<in> set tasks"
  shows "task_state g (ts_id t) = Some S_done \<or> task_state g (ts_id t) = Some S_blocked"
proof -
  have wf: "graph_wf tasks g" using assms(1) by (simp add: graph_inv_def)
  obtain n where "g_nodes g (ts_id t) = Some n" using graph_wf_node [OF wf assms(3)] by blast
  then show ?thesis using assms(2) graph_wf_order [OF wf] assms(3)
    by (force simp: allTerminal_def list_all_iff task_state_def)
qed

end
