(* ===== verification/Schedule_Steps.thy ===== *)
theory Schedule_Steps
  imports Scheduler Task_Board
begin

text \<open>
  The scheduler as a step relation, and the loop of \<open>Scheduler\<close> as a refinement of it. A step is
  one thing the scheduler does: a call that only observes, a worker written off, a task in flight
  that settles or is lost, a dispatch with its answer. The invariant \<open>sched_inv\<close> is proved for the
  steps, and every phase of the loop, hence every iteration, is a sequence of steps. The
  properties of whole runs are then inductions over steps.
\<close>

section \<open>What the small operations leave alone\<close>

lemma persistBudget_frame [simp]:
  "s_graph (persistBudget opts st) = s_graph st" "s_inflight (persistBudget opts st) = s_inflight st"
  "s_dead (persistBudget opts st) = s_dead st" "s_reasons (persistBudget opts st) = s_reasons st"
  "s_budget (persistBudget opts st) = s_budget st"
  "s_lastProgress (persistBudget opts st) = s_lastProgress st"
  by (simp_all add: persistBudget_def split: option.splits)

lemma announce_change_frame [simp]:
  "s_graph (announce_change opts st) = s_graph st" "s_inflight (announce_change opts st) = s_inflight st"
  "s_dead (announce_change opts st) = s_dead st" "s_reasons (announce_change opts st) = s_reasons st"
  "s_budget (announce_change opts st) = s_budget st"
  "s_lastProgress (announce_change opts st) = s_lastProgress st"
  by (simp_all add: announce_change_def)

lemma releaseHold_frame [simp]:
  "s_graph (releaseHold opts i st) = s_graph st" "s_inflight (releaseHold opts i st) = s_inflight st"
  "s_dead (releaseHold opts i st) = s_dead st" "s_reasons (releaseHold opts i st) = s_reasons st"
  "s_lastProgress (releaseHold opts i st) = s_lastProgress st"
  by (simp_all add: releaseHold_def split: option.splits prod.splits bool.splits)

lemma settleBudget_frame [simp]:
  "s_graph (settleBudget io opts i v st) = s_graph st"
  "s_inflight (settleBudget io opts i v st) = s_inflight st"
  "s_dead (settleBudget io opts i v st) = s_dead st"
  "s_reasons (settleBudget io opts i v st) = s_reasons st"
  "s_lastProgress (settleBudget io opts i v st) = s_lastProgress st"
  by (simp_all add: settleBudget_def Let_def split: option.splits prod.splits)

lemma bury_frame [simp]:
  "s_graph (bury v st) = s_graph st" "s_inflight (bury v st) = s_inflight st"
  "s_reasons (bury v st) = s_reasons st" "s_budget (bury v st) = s_budget st"
  "s_world (bury v st) = s_world st" "s_lastProgress (bury v st) = s_lastProgress st"
  "set (s_dead (bury v st)) = insert v (set (s_dead st))"
  by (auto simp: bury_def)

lemma admit_task_frame:
  assumes "admit_task opts i st = (st', r)"
  shows "s_graph st' = s_graph st" "s_inflight st' = s_inflight st" "s_dead st' = s_dead st"
    "s_reasons st' = s_reasons st" "s_lastProgress st' = s_lastProgress st"
  using assms by (auto simp: admit_task_def Let_def split: option.splits prod.splits if_splits)

lemma admit_refused: "admit_task opts i st = (st', Some r) \<Longrightarrow> st' = st"
  by (auto simp: admit_task_def admit_def admitted_def Let_def
      split: option.splits prod.splits if_splits)

section \<open>Steps\<close>

text \<open>The calls that only move the world.\<close>

inductive quiet :: "'w scheduler_io \<Rightarrow> 'w schedule_opts \<Rightarrow> 'w \<Rightarrow> 'w \<Rightarrow> bool"
  for io :: "'w scheduler_io" and opts :: "'w schedule_opts" where
  quiet_unsettled: "io_readSettled io v i w = (w', None) \<Longrightarrow> quiet io opts w w'"
| quiet_health: "io_workerHealth io v w = (w', h) \<Longrightarrow> quiet io opts w w'"
| quiet_silence: "io_eventSilenceMs io = Some f \<Longrightarrow> f v w = (w', ms) \<Longrightarrow> quiet io opts w w'"
| quiet_tokens: "io_taskTokens io = Some f \<Longrightarrow> f v i w = (w', n) \<Longrightarrow> quiet io opts w w'"
| quiet_kill: "io_killWedged io = Some f \<Longrightarrow> quiet io opts w (f v i w)"
| quiet_sleep: "quiet io opts w (io_sleep io (poll_interval opts) w)"
| quiet_change: "quiet io opts w (so_onChange opts s w)"
| quiet_warn: "quiet io opts w (so_onStallWarn opts v i ms w)"
| quiet_persist: "quiet io opts w (so_persist opts b w)"

abbreviation "quiets io opts \<equiv> (quiet io opts)\<^sup>*\<^sup>*"

inductive sched_step ::
  "task_spec list \<Rightarrow> 'w scheduler_io \<Rightarrow> 'w schedule_opts \<Rightarrow> worker_id list \<Rightarrow> 'w sched \<Rightarrow> 'w sched \<Rightarrow> bool"
  for tasks :: "task_spec list" and io :: "'w scheduler_io" and opts :: "'w schedule_opts"
    and workers :: "worker_id list" where
  step_quiet: "quiets io opts (s_world st) w \<Longrightarrow> sched_step tasks io opts workers st (st\<lparr>s_world := w\<rparr>)"
| step_warned: "sched_step tasks io opts workers st (st\<lparr>s_warned := x # s_warned st\<rparr>)"
| step_bury:
    "v \<in> set workers \<Longrightarrow> v \<notin> snd ` set (s_inflight st) \<Longrightarrow> sched_step tasks io opts workers st (bury v st)"
| step_settled:
    "(i, v) \<in> set (s_inflight st) \<Longrightarrow> io_readSettled io v i (s_world st) = (w, Some (x, r)) \<Longrightarrow>
     conclude i x None r (st\<lparr>s_world := w\<rparr>) = Inr st' \<Longrightarrow>
     sched_step tasks io opts workers st (settleBudget io opts i v st')"
| step_lost:
    "(i, v) \<in> set (s_inflight st) \<Longrightarrow> r \<in> {''worker_died'', ''event_stall_kill''} \<Longrightarrow>
     conclude i Unknown None r st = Inr st' \<Longrightarrow>
     sched_step tasks io opts workers st (settleBudget io opts i v (bury v st'))"
| step_offer:
    "spec \<in> set tasks \<Longrightarrow> task_state (s_graph st) (ts_id spec) = Some S_ready \<Longrightarrow>
     v \<in> set workers \<Longrightarrow> v \<notin> set (s_dead st) \<Longrightarrow> v \<notin> snd ` set (s_inflight st) \<Longrightarrow>
     (\<forall>pin. ts_worker spec = Some pin \<longrightarrow> v = pin) \<Longrightarrow>
     admit_task opts (ts_id spec) st = (st1, None) \<Longrightarrow>
     io_dispatch io spec v (ts_id spec) (s_world st1) = (w, Inr answer) \<Longrightarrow>
     ps_state ps = st1\<lparr>s_world := w\<rparr> \<Longrightarrow> take_answer io opts spec v answer ps = Inr ps' \<Longrightarrow>
     sched_step tasks io opts workers st (ps_state ps')"
| step_threw:
    "spec \<in> set tasks \<Longrightarrow> task_state (s_graph st) (ts_id spec) = Some S_ready \<Longrightarrow>
     v \<in> set workers \<Longrightarrow> v \<notin> set (s_dead st) \<Longrightarrow> v \<notin> snd ` set (s_inflight st) \<Longrightarrow>
     (\<forall>pin. ts_worker spec = Some pin \<longrightarrow> v = pin) \<Longrightarrow>
     admit_task opts (ts_id spec) st = (st1, None) \<Longrightarrow>
     io_dispatch io spec v (ts_id spec) (s_world st1) = (w, Inl err) \<Longrightarrow>
     sched_step tasks io opts workers st (releaseHold opts (ts_id spec) (st1\<lparr>s_world := w\<rparr>))"

section \<open>The invariant of the loop's memory\<close>

definition sched_inv :: "task_spec list \<Rightarrow> worker_id list \<Rightarrow> 'w sched \<Rightarrow> bool" where
  "sched_inv tasks workers st \<longleftrightarrow>
     graph_inv tasks (s_graph st)
     \<and> distinct (map fst (s_inflight st))
     \<and> (\<forall>i. task_state (s_graph st) i = Some S_dispatched \<longleftrightarrow> i \<in> fst ` set (s_inflight st))
     \<and> distinct (map snd (s_inflight st))
     \<and> snd ` set (s_inflight st) \<subseteq> set workers - set (s_dead st)"

text \<open>What is left to do: the graph's work, and the workers that can still be lost.\<close>

definition effort :: "task_spec list \<Rightarrow> worker_id list \<Rightarrow> 'w sched \<Rightarrow> nat" where
  "effort tasks workers st =
     board.work tasks (s_graph st) + card (set workers - set (s_dead st))"

lemma sched_inv_cong:
  "sched_inv tasks workers st \<Longrightarrow> s_graph st' = s_graph st \<Longrightarrow> s_inflight st' = s_inflight st \<Longrightarrow>
   set (s_dead st') = set (s_dead st) \<Longrightarrow> sched_inv tasks workers st'"
  by (simp add: sched_inv_def)

lemma effort_cong:
  "s_graph st' = s_graph st \<Longrightarrow> set (s_dead st') = set (s_dead st) \<Longrightarrow>
   effort tasks workers st' = effort tasks workers st"
  by (simp add: effort_def)

lemma sched_inv_bury:
  assumes "sched_inv tasks workers st" and "v \<notin> snd ` set (s_inflight st)"
  shows "sched_inv tasks workers (bury v st)"
  using assms by (auto simp: sched_inv_def)

lemma effort_bury: "effort tasks workers (bury v st) \<le> effort tasks workers st"
  unfolding effort_def by (simp add: card_mono subset_insertI Diff_mono)

lemma effort_bury_alive:
  assumes "v \<in> set workers" and "v \<notin> set (s_dead st)"
  shows "effort tasks workers (bury v st) < effort tasks workers st"
proof -
  have "set workers - insert v (set (s_dead st)) \<subset> set workers - set (s_dead st)"
    using assms by auto
  then have "card (set workers - insert v (set (s_dead st))) < card (set workers - set (s_dead st))"
    by (simp add: psubset_card_mono)
  then show ?thesis by (simp add: effort_def)
qed

lemma inflight_live:
  "sched_inv tasks workers st \<Longrightarrow> (i, v) \<in> set (s_inflight st) \<Longrightarrow>
   live_state (task_state (s_graph st) i)"
  by (force simp: sched_inv_def live_state_def)

lemma snd_delete: "snd ` set (AList.delete k xs) \<subseteq> snd ` set xs"
  by (induction xs) auto

lemma set_delete: "set (AList.delete k xs) = {p \<in> set xs. fst p \<noteq> k}"
  by (induction xs) auto

lemma distinct_snd_delete: "distinct (map snd xs) \<Longrightarrow> distinct (map snd (AList.delete k xs))"
proof (induction xs)
  case (Cons p xs)
  then show ?case using snd_delete [of k xs] by (cases p) auto
qed simp

lemma update_fresh: "k \<notin> fst ` set xs \<Longrightarrow> AList.update k v xs = xs @ [(k, v)]"
  by (induction xs) auto

text \<open>A live task concludes: never an error, and the invariant survives.\<close>

lemma conclude_live:
  assumes inv: "sched_inv tasks workers st" and live: "live_state (task_state (s_graph st) i)"
  obtains g where "conclude i x f r st = Inr (st\<lparr>s_graph := g, s_reasons := (s_reasons st)(i \<mapsto> r),
      s_inflight := AList.delete i (s_inflight st)\<rparr>)"
    and "markSettled (s_graph st) i x f = Inr g"
    and "sched_inv tasks workers (st\<lparr>s_graph := g, s_reasons := (s_reasons st)(i \<mapsto> r),
      s_inflight := AList.delete i (s_inflight st)\<rparr>)"
    and "board.work tasks g < board.work tasks (s_graph st)"
    and "\<And>j. j \<noteq> i \<Longrightarrow> live_state (task_state (s_graph st) j) \<Longrightarrow>
           task_state g j = task_state (s_graph st) j"
proof -
  have gi: "graph_inv tasks (s_graph st)" using inv by (simp add: sched_inv_def)
  obtain g where g: "markSettled (s_graph st) i x f = Inr g" "graph_inv tasks g"
    using board.settle_live [OF gi live] by blast
  let ?st = "st\<lparr>s_graph := g, s_reasons := (s_reasons st)(i \<mapsto> r),
      s_inflight := AList.delete i (s_inflight st)\<rparr>"
  have "\<forall>j. task_state g j = Some S_dispatched \<longleftrightarrow> j \<in> fst ` set (AList.delete i (s_inflight st))"
    using board.settle_dispatched [OF gi live g(1)] inv by (force simp: sched_inv_def set_delete)
  moreover have "snd ` set (AList.delete i (s_inflight st)) \<subseteq> set workers - set (s_dead st)"
    using snd_delete [of i "s_inflight st"] inv unfolding sched_inv_def by (meson subset_trans)
  ultimately have "sched_inv tasks workers ?st"
    using inv g(2) by (simp add: sched_inv_def distinct_delete distinct_snd_delete)
  moreover have "conclude i x f r st = Inr ?st" using g(1) by (simp add: conclude_def)
  ultimately show thesis
    using that g(1) board.settle_work [OF gi live g(1)] board.settle_keeps_live [OF gi live g(1)]
    by blast
qed

lemma conclude_inv:
  assumes "sched_inv tasks workers st" and "live_state (task_state (s_graph st) i)"
    and "conclude i x f r st = Inr st'"
  shows "sched_inv tasks workers st'" and "effort tasks workers st' < effort tasks workers st"
    and "s_inflight st' = AList.delete i (s_inflight st)" and "s_dead st' = s_dead st"
    and "s_world st' = s_world st" and "s_budget st' = s_budget st"
    and "\<And>j. j \<noteq> i \<Longrightarrow> live_state (task_state (s_graph st) j) \<Longrightarrow>
           task_state (s_graph st') j = task_state (s_graph st) j"
proof -
  obtain g where g: "conclude i x f r st = Inr (st\<lparr>s_graph := g, s_reasons := (s_reasons st)(i \<mapsto> r),
      s_inflight := AList.delete i (s_inflight st)\<rparr>)"
    "sched_inv tasks workers (st\<lparr>s_graph := g, s_reasons := (s_reasons st)(i \<mapsto> r),
      s_inflight := AList.delete i (s_inflight st)\<rparr>)"
    "board.work tasks g < board.work tasks (s_graph st)"
    "\<And>j. j \<noteq> i \<Longrightarrow> live_state (task_state (s_graph st) j) \<Longrightarrow>
           task_state g j = task_state (s_graph st) j"
    using conclude_live [OF assms(1,2)] by blast
  have st': "st' = st\<lparr>s_graph := g, s_reasons := (s_reasons st)(i \<mapsto> r),
      s_inflight := AList.delete i (s_inflight st)\<rparr>"
    using g(1) assms(3) by simp
  show "sched_inv tasks workers st'" "effort tasks workers st' < effort tasks workers st"
    "s_inflight st' = AList.delete i (s_inflight st)" "s_dead st' = s_dead st"
    "s_world st' = s_world st" "s_budget st' = s_budget st"
    using g(2,3) by (simp_all add: st' effort_def)
  show "task_state (s_graph st') j = task_state (s_graph st) j"
    if "j \<noteq> i" "live_state (task_state (s_graph st) j)" for j
    using g(4) [OF that] by (simp add: st')
qed

section \<open>A dispatch and its answer\<close>

definition pass_inv :: "task_spec list \<Rightarrow> worker_id list \<Rightarrow> 'w pass \<Rightarrow> bool" where
  "pass_inv tasks workers ps \<longleftrightarrow>
     sched_inv tasks workers (ps_state ps)
     \<and> distinct (ps_available ps)
     \<and> set (ps_available ps) \<subseteq>
         set workers - set (s_dead (ps_state ps)) - snd ` set (s_inflight (ps_state ps))"

lemma sched_inv_accept:
  assumes inv: "sched_inv tasks workers st" and r: "task_state (s_graph st) i = Some S_ready"
    and v: "v \<in> set workers" "v \<notin> set (s_dead st)" "v \<notin> snd ` set (s_inflight st)"
    and g: "markDispatched (s_graph st) i v t = Inr g"
  shows "sched_inv tasks workers (st\<lparr>s_graph := g, s_inflight := AList.update i v (s_inflight st)\<rparr>)"
    and "AList.update i v (s_inflight st) = s_inflight st @ [(i, v)]"
proof -
  have gi: "graph_inv tasks (s_graph st)" using inv by (simp add: sched_inv_def)
  have g': "graph_inv tasks g" "task_state g = (task_state (s_graph st))(i \<mapsto> S_dispatched)"
    using board.dispatch_ready [OF gi r, of v t] g by auto
  have fresh: "i \<notin> fst ` set (s_inflight st)"
  proof
    assume "i \<in> fst ` set (s_inflight st)"
    then have "task_state (s_graph st) i = Some S_dispatched" using inv by (simp add: sched_inv_def)
    then show False using r by simp
  qed
  then show u: "AList.update i v (s_inflight st) = s_inflight st @ [(i, v)]" by (rule update_fresh)
  have "\<forall>j. task_state g j = Some S_dispatched \<longleftrightarrow> j \<in> fst ` set (s_inflight st @ [(i, v)])"
    using inv by (simp add: g'(2) sched_inv_def)
  then show "sched_inv tasks workers (st\<lparr>s_graph := g, s_inflight := AList.update i v (s_inflight st)\<rparr>)"
    using inv g'(1) fresh v by (simp add: sched_inv_def u)
qed

lemma take_answer_concludes:
  assumes p: "pass_inv tasks workers ps" and r: "task_state (s_graph (ps_state ps)) i = Some S_ready"
    and c: "conclude i x f reason (ps_state ps) = Inr st"
  shows "pass_inv tasks workers (ps\<lparr>ps_state := settleBudget io opts i v st\<rparr>)"
    and "effort tasks workers (settleBudget io opts i v st) < effort tasks workers (ps_state ps)"
    and "\<And>j. j \<noteq> i \<Longrightarrow> live_state (task_state (s_graph (ps_state ps)) j) \<Longrightarrow>
           task_state (s_graph st) j = task_state (s_graph (ps_state ps)) j"
proof -
  have inv: "sched_inv tasks workers (ps_state ps)" using p by (simp add: pass_inv_def)
  have live: "live_state (task_state (s_graph (ps_state ps)) i)" using r by (simp add: live_state_def)
  note st = conclude_inv [OF inv live c]
  show "effort tasks workers (settleBudget io opts i v st) < effort tasks workers (ps_state ps)"
    using st(2) effort_cong [of "settleBudget io opts i v st" st tasks workers] by simp
  have "sched_inv tasks workers (settleBudget io opts i v st)"
    by (rule sched_inv_cong [OF st(1)]) simp_all
  then show "pass_inv tasks workers (ps\<lparr>ps_state := settleBudget io opts i v st\<rparr>)"
    using p snd_delete [of i "s_inflight (ps_state ps)"] by (auto simp: pass_inv_def st(3,4))
  show "task_state (s_graph st) j = task_state (s_graph (ps_state ps)) j"
    if "j \<noteq> i" "live_state (task_state (s_graph (ps_state ps)) j)" for j
    using that by (rule st(7))
qed

lemma pass_inv_gone:
  "pass_inv tasks workers ps \<Longrightarrow> pass_inv tasks workers (ps\<lparr>ps_available := remove1 v (ps_available ps)\<rparr>)"
  using set_remove1_subset [of v "ps_available ps"] by (auto simp: pass_inv_def)

text \<open>
  Whatever the answer, the dispatch loop goes on: no error, the invariant kept, strictly less
  left to do, and every other live task as it was.
\<close>

lemma take_answer_step:
  assumes p: "pass_inv tasks workers ps" and v: "v \<in> set (ps_available ps)"
    and r: "task_state (s_graph (ps_state ps)) (ts_id spec) = Some S_ready"
  obtains ps' where "take_answer io opts spec v answer ps = Inr ps'"
    and "pass_inv tasks workers ps'"
    and "effort tasks workers (ps_state ps') < effort tasks workers (ps_state ps)"
    and "\<And>j. j \<noteq> ts_id spec \<Longrightarrow> live_state (task_state (s_graph (ps_state ps)) j) \<Longrightarrow>
           task_state (s_graph (ps_state ps')) j = task_state (s_graph (ps_state ps)) j"
    and "ps_dispatched ps' = ps_dispatched ps" and "ps_progressed ps' = ps_progressed ps"
    and "ps_refused ps' = ps_refused ps"
proof -
  let ?i = "ts_id spec" and ?st = "ps_state ps"
  have inv: "sched_inv tasks workers ?st" using p by (simp add: pass_inv_def)
  have gi: "graph_inv tasks (s_graph ?st)" using inv by (simp add: sched_inv_def)
  have live: "live_state (task_state (s_graph ?st) ?i)" using r by (simp add: live_state_def)
  have free: "v \<in> set workers" "v \<notin> set (s_dead ?st)" "v \<notin> snd ` set (s_inflight ?st)"
    using p v by (auto simp: pass_inv_def)
  have ends: "\<exists>st. conclude ?i x f reason ?st = Inr st" for x f reason
    using conclude_live [OF inv live] by metis
  show thesis
  proof (cases answer)
    case Accepted
    obtain g where g: "markDispatched (s_graph ?st) ?i v ?i = Inr g"
      "task_state g = (task_state (s_graph ?st))(?i \<mapsto> S_dispatched)"
      using board.dispatch_ready [OF gi r] by metis
    let ?ps = "ps\<lparr>ps_state := ?st\<lparr>s_graph := g, s_inflight := AList.update ?i v (s_inflight ?st)\<rparr>,
                  ps_available := remove1 v (ps_available ps)\<rparr>"
    note acc = sched_inv_accept [OF inv r free g(1)]
    have "pass_inv tasks workers ?ps"
      using p acc by (auto simp: pass_inv_def)
    moreover have "effort tasks workers (ps_state ?ps) < effort tasks workers ?st"
      using board.dispatch_work [OF gi r g(1)] by (simp add: effort_def)
    ultimately show thesis
      using g Accepted by (intro that [of ?ps]) (simp_all add: take_answer_def Let_def)
  next
    case (Completed_already x)
    obtain st where st: "conclude ?i x (Some (v, ?i)) ''already_completed'' ?st = Inr st"
      using ends by blast
    note c = take_answer_concludes [OF p r st]
    show thesis using Completed_already st c
      by (intro that [of "ps\<lparr>ps_state := settleBudget io opts ?i v st\<rparr>"])
        (simp_all add: take_answer_def Let_def)
  next
    case (Rejected reason)
    obtain st where st: "conclude ?i Failed (Some (v, ?i)) reason ?st = Inr st" using ends by blast
    note c = take_answer_concludes [OF p r st]
    show thesis using Rejected st c
      by (intro that [of "ps\<lparr>ps_state := settleBudget io opts ?i v st\<rparr>"])
        (simp_all add: take_answer_def Let_def)
  next
    case (In_doubt detail)
    obtain st where st: "conclude ?i Unknown (Some (v, ?i)) (''dispatch outcome unknown: '' @ detail) ?st
        = Inr st" using ends by blast
    note c = take_answer_concludes [OF p r st]
    show thesis using In_doubt st c pass_inv_gone [OF c(1) [where io = io and opts = opts and v = v], of v]
      by (intro that [of "ps\<lparr>ps_state := settleBudget io opts ?i v st,
            ps_available := remove1 v (ps_available ps)\<rparr>"])
        (simp_all add: take_answer_def Let_def)
  next
    case (Unreachable detail)
    let ?st' = "releaseHold opts ?i (bury v ?st)"
    let ?ps = "ps\<lparr>ps_state := ?st', ps_available := remove1 v (ps_available ps)\<rparr>"
    have "sched_inv tasks workers ?st'"
      by (rule sched_inv_cong [OF sched_inv_bury [OF inv free(3)]]) simp_all
    then have "pass_inv tasks workers ?ps" using p by (auto simp: pass_inv_def)
    moreover have "effort tasks workers ?st' < effort tasks workers ?st"
      using effort_bury_alive [OF free(1,2)] effort_cong [of ?st' "bury v ?st" tasks workers] by simp
    ultimately show thesis
      using Unreachable by (intro that [of ?ps]) (simp_all add: take_answer_def Let_def)
  qed
qed

lemma take_answer_state:
  "take_answer io opts spec v answer ps = Inr ps' \<Longrightarrow> ps_state q = ps_state ps \<Longrightarrow>
   \<exists>q'. take_answer io opts spec v answer q = Inr q' \<and> ps_state q' = ps_state ps'"
  by (cases answer) (auto simp: take_answer_def Let_def split: sum.splits)

section \<open>The invariant holds along the steps\<close>

lemma offer_step_inv:
  assumes inv: "sched_inv tasks workers st" and r: "task_state (s_graph st) (ts_id spec) = Some S_ready"
    and v: "v \<in> set workers" "v \<notin> set (s_dead st)" "v \<notin> snd ` set (s_inflight st)"
    and a: "admit_task opts (ts_id spec) st = (st1, None)"
    and ps: "ps_state ps = st1\<lparr>s_world := w\<rparr>"
    and t: "take_answer io opts spec v answer ps = Inr ps'"
  shows "sched_inv tasks workers (ps_state ps') \<and>
    effort tasks workers (ps_state ps') < effort tasks workers st"
proof -
  let ?q = "ps\<lparr>ps_available := [v]\<rparr>"
  note fr = admit_task_frame [OF a]
  obtain q' where q': "take_answer io opts spec v answer ?q = Inr q'" "ps_state q' = ps_state ps'"
    using take_answer_state [OF t, of ?q] by auto
  have s: "s_graph (ps_state ?q) = s_graph st" "s_inflight (ps_state ?q) = s_inflight st"
    "s_dead (ps_state ?q) = s_dead st"
    by (simp_all add: ps fr)
  have "sched_inv tasks workers (ps_state ?q)" by (rule sched_inv_cong [OF inv]) (simp_all add: ps fr)
  then have p: "pass_inv tasks workers ?q" using v s by (simp add: pass_inv_def)
  have vq: "v \<in> set (ps_available ?q)" by simp
  have rq: "task_state (s_graph (ps_state ?q)) (ts_id spec) = Some S_ready" using r s by simp
  obtain q'' where q'': "take_answer io opts spec v answer ?q = Inr q''"
    "pass_inv tasks workers q''"
    "effort tasks workers (ps_state q'') < effort tasks workers (ps_state ?q)"
    using take_answer_step [OF p vq rq] by metis
  have "q'' = q'" using q'(1) q''(1) by simp
  moreover have "effort tasks workers (ps_state ?q) = effort tasks workers st"
    by (rule effort_cong) (simp_all add: ps fr)
  ultimately show ?thesis using q'' q' by (simp add: pass_inv_def)
qed

lemma delete_frees:
  "distinct (map snd xs) \<Longrightarrow> (i, v) \<in> set xs \<Longrightarrow> v \<notin> snd ` set (AList.delete i xs)"
proof
  assume d: "distinct (map snd xs)" and m: "(i, v) \<in> set xs" and "v \<in> snd ` set (AList.delete i xs)"
  then obtain a where "(a, v) \<in> set xs" "a \<noteq> i" by (auto simp: set_delete)
  then show False using d m inj_onD [of snd "set xs" "(a, v)" "(i, v)"] by (simp add: distinct_map)
qed

lemma sched_step_inv:
  assumes "sched_step tasks io opts workers st st'" and "sched_inv tasks workers st"
  shows "sched_inv tasks workers st' \<and> effort tasks workers st' \<le> effort tasks workers st"
  using assms
proof (cases rule: sched_step.cases)
  case (step_bury v)
  show ?thesis
    unfolding step_bury(1) using sched_inv_bury [OF assms(2) step_bury(3)] effort_bury by blast
next
  case (step_settled i v w x r st1)
  have inv: "sched_inv tasks workers (st\<lparr>s_world := w\<rparr>)"
    by (rule sched_inv_cong [OF assms(2)]) simp_all
  have live: "live_state (task_state (s_graph (st\<lparr>s_world := w\<rparr>)) i)"
    using inflight_live [OF assms(2) step_settled(2)] by simp
  note c = conclude_inv [OF inv live step_settled(4)]
  have "sched_inv tasks workers st'"
    unfolding step_settled(1) by (rule sched_inv_cong [OF c(1)]) simp_all
  moreover have "effort tasks workers st' = effort tasks workers st1"
    "effort tasks workers (st\<lparr>s_world := w\<rparr>) = effort tasks workers st"
    unfolding step_settled(1) by (simp_all add: effort_def)
  ultimately show ?thesis using c(2) by simp
next
  case (step_lost i v r st1)
  note c = conclude_inv [OF assms(2) inflight_live [OF assms(2) step_lost(2)] step_lost(4)]
  have "v \<notin> snd ` set (s_inflight st1)"
    unfolding c(3) using assms(2) step_lost(2) by (intro delete_frees) (simp_all add: sched_inv_def)
  then have "sched_inv tasks workers (bury v st1)" using c(1) by (intro sched_inv_bury)
  then have "sched_inv tasks workers st'"
    unfolding step_lost(1) by (rule sched_inv_cong) simp_all
  moreover have "effort tasks workers st' = effort tasks workers (bury v st1)"
    unfolding step_lost(1) by (simp add: effort_def)
  ultimately show ?thesis using c(2) effort_bury [of tasks workers v st1] by simp
next
  case (step_offer spec v st1 w answer ps ps')
  then show ?thesis
    using offer_step_inv [OF assms(2) step_offer(3-6,8) step_offer(10,11)] by simp
next
  case (step_threw spec v st1 w err)
  note fr = admit_task_frame [OF step_threw(8)]
  have "sched_inv tasks workers st'"
    unfolding step_threw(1) by (rule sched_inv_cong [OF assms(2)]) (simp_all add: fr)
  moreover have "effort tasks workers st' = effort tasks workers st"
    unfolding step_threw(1) by (rule effort_cong) (simp_all add: fr)
  ultimately show ?thesis by simp
qed (use assms(2) in \<open>auto simp: effort_def sched_inv_def\<close>)

abbreviation "sched_steps tasks io opts workers \<equiv> (sched_step tasks io opts workers)\<^sup>*\<^sup>*"

lemma sched_steps_inv:
  assumes "sched_steps tasks io opts workers st st'" and "sched_inv tasks workers st"
  shows "sched_inv tasks workers st' \<and> effort tasks workers st' \<le> effort tasks workers st"
  using assms
proof (induction rule: rtranclp_induct)
  case (step a b)
  then show ?case using sched_step_inv [of tasks io opts workers a b] by fastforce
qed simp

section \<open>Each phase of the loop is made of steps\<close>

lemma steps_quiet:
  "quiet io opts (s_world st) w \<Longrightarrow> sched_steps tasks io opts workers st (st\<lparr>s_world := w\<rparr>)"
  by (intro r_into_rtranclp step_quiet)

lemma steps_announce: "sched_steps tasks io opts workers st (announce_change opts st)"
  unfolding announce_change_def by (intro steps_quiet quiet_change)

lemma steps_announce_if:
  "sched_steps tasks io opts workers st (if c then announce_change opts st else st)"
  by (simp add: steps_announce)

lemma classifyWorkerStall_steps:
  assumes "classifyWorkerStall io opts win v i st = (st', x)"
  shows "sched_steps tasks io opts workers st st'" and "s_inflight st' = s_inflight st"
proof -
  have q: "sched_steps tasks io opts workers st (st\<lparr>s_world := w\<rparr>)"
    if "io_eventSilenceMs io = Some f" "f v (s_world st) = (w, ms)" for f w ms
    using that by (intro steps_quiet quiet_silence)
  have warn: "sched_steps tasks io opts workers st
      (st\<lparr>s_world := so_onStallWarn opts v i ms w, s_warned := (v, i) # s_warned st\<rparr>)"
    if "io_eventSilenceMs io = Some f" "f v (s_world st) = (w, ms')" for f w ms ms'
  proof -
    let ?st1 = "st\<lparr>s_world := w\<rparr>"
    let ?st2 = "?st1\<lparr>s_world := so_onStallWarn opts v i ms w\<rparr>"
    have "sched_steps tasks io opts workers ?st1 ?st2"
      by (intro steps_quiet) (simp add: quiet_warn)
    moreover have "sched_steps tasks io opts workers ?st2 (?st2\<lparr>s_warned := (v, i) # s_warned ?st2\<rparr>)"
      by (intro r_into_rtranclp step_warned)
    ultimately show ?thesis using q [OF that] by simp
  qed
  show "sched_steps tasks io opts workers st st'" "s_inflight st' = s_inflight st"
    using assms q warn
    by (auto simp: classifyWorkerStall_def Let_def split: option.splits prod.splits if_splits)
qed

lemma steps_lost:
  assumes inv: "sched_inv tasks workers st" and m: "(i, v) \<in> set (s_inflight st)"
    and r: "r \<in> {''worker_died'', ''event_stall_kill''}"
  obtains st' where "conclude i Unknown None r st = Inr st'"
    and "sched_steps tasks io opts workers st (settleBudget io opts i v (bury v st'))"
    and "s_inflight (settleBudget io opts i v (bury v st')) = AList.delete i (s_inflight st)"
    and "effort tasks workers (settleBudget io opts i v (bury v st')) < effort tasks workers st"
proof -
  obtain st' where c: "conclude i Unknown None r st = Inr st'"
    using conclude_live [OF inv inflight_live [OF inv m]] by metis
  note d = conclude_inv [OF inv inflight_live [OF inv m] c]
  have "effort tasks workers (settleBudget io opts i v (bury v st')) = effort tasks workers (bury v st')"
    by (simp add: effort_def)
  then have "effort tasks workers (settleBudget io opts i v (bury v st')) < effort tasks workers st"
    using d(2) effort_bury [of tasks workers v st'] by simp
  then show thesis
    using c m r d(3) by (intro that [OF c]) (auto intro: step_lost)
qed

lemma poll_task_steps:
  assumes inv: "sched_inv tasks workers st" and m: "(i, v) \<in> set (s_inflight st)"
  obtains st' p where "poll_task io opts win (i, v) st = Inr (st', p)"
    and "sched_steps tasks io opts workers st st'"
    and "s_inflight st' = (if p then AList.delete i (s_inflight st) else s_inflight st)"
    and "p \<Longrightarrow> effort tasks workers st' < effort tasks workers st"
proof -
  obtain w1 rec where rs: "io_readSettled io v i (s_world st) = (w1, rec)" by fastforce
  let ?st1 = "st\<lparr>s_world := w1\<rparr>"
  show thesis
  proof (cases rec)
    case (Some xr)
    obtain x r where xr: "xr = (x, r)" by fastforce
    have inv1: "sched_inv tasks workers ?st1" by (rule sched_inv_cong [OF inv]) simp_all
    have live1: "live_state (task_state (s_graph ?st1) i)" using inflight_live [OF inv m] by simp
    obtain st' where c: "conclude i x None r ?st1 = Inr st'"
      using conclude_live [OF inv1 live1] by metis
    note d = conclude_inv [OF inv1 live1 c]
    have "sched_steps tasks io opts workers st (settleBudget io opts i v st')"
      using m rs Some xr c by (intro r_into_rtranclp step_settled) auto
    moreover have "effort tasks workers (settleBudget io opts i v st') < effort tasks workers st"
      using d(2) by (simp add: effort_def)
    ultimately show thesis using d(3) rs Some xr c
      by (intro that [of "settleBudget io opts i v st'" True]) (simp_all add: poll_task_def)
  next
    case None
    obtain w2 h where wh: "io_workerHealth io v w1 = (w2, h)" by fastforce
    let ?st2 = "st\<lparr>s_world := w2\<rparr>"
    have s1: "sched_steps tasks io opts workers st ?st1"
      using rs None by (intro steps_quiet quiet_unsettled) simp
    have "sched_steps tasks io opts workers ?st1 (?st1\<lparr>s_world := w2\<rparr>)"
      using wh by (intro steps_quiet) (simp add: quiet_health)
    then have s2: "sched_steps tasks io opts workers st ?st2" using s1 by simp
    have inv2: "sched_inv tasks workers ?st2" by (rule sched_inv_cong [OF inv]) simp_all
    have e2: "effort tasks workers ?st2 = effort tasks workers st" by (simp add: effort_def)
    obtain st3 x where cl: "classifyWorkerStall io opts win v i ?st2 = (st3, x)" by fastforce
    note s3 = classifyWorkerStall_steps [OF cl]
    let ?st4 = "case io_killWedged io of None \<Rightarrow> st3 | Some f \<Rightarrow> st3\<lparr>s_world := f v i (s_world st3)\<rparr>"
    have s4: "sched_steps tasks io opts workers st3 ?st4"
      by (auto split: option.split intro: steps_quiet quiet_kill)
    consider (died) "h = Worker_dead" | (live) "h \<noteq> Worker_dead" "x \<noteq> Kill"
      | (wedged) "h \<noteq> Worker_dead" "x = Kill" by blast
    then show thesis
    proof cases
      case died
      have m2: "(i, v) \<in> set (s_inflight ?st2)" using m by simp
      obtain st' where st': "conclude i Unknown None ''worker_died'' ?st2 = Inr st'"
        "sched_steps tasks io opts workers ?st2 (settleBudget io opts i v (bury v st'))"
        "s_inflight (settleBudget io opts i v (bury v st')) = AList.delete i (s_inflight ?st2)"
        "effort tasks workers (settleBudget io opts i v (bury v st')) < effort tasks workers ?st2"
        using steps_lost [OF inv2 m2] by (metis insertCI)
      show thesis using st' s2 rs None wh died e2
        by (intro that [of "settleBudget io opts i v (bury v st')" True])
          (simp_all add: poll_task_def Let_def)
    next
      case live
      have "sched_steps tasks io opts workers st st3" using s2 s3(1) by (rule rtranclp_trans)
      then show thesis using rs None wh live cl s3(2)
        by (intro that [of st3 False]) (simp_all add: poll_task_def Let_def)
    next
      case wedged
      have to4: "sched_steps tasks io opts workers ?st2 ?st4" using s3(1) s4 by (rule rtranclp_trans)
      have inv4: "sched_inv tasks workers ?st4" and e4: "effort tasks workers ?st4 \<le> effort tasks workers st"
        using sched_steps_inv [OF to4 inv2] e2 by simp_all
      have i4: "s_inflight ?st4 = s_inflight st" using s3(2) by (simp split: option.split)
      then have m4: "(i, v) \<in> set (s_inflight ?st4)" using m by simp
      obtain st' where st': "conclude i Unknown None ''event_stall_kill'' ?st4 = Inr st'"
        "sched_steps tasks io opts workers ?st4 (settleBudget io opts i v (bury v st'))"
        "s_inflight (settleBudget io opts i v (bury v st')) = AList.delete i (s_inflight ?st4)"
        "effort tasks workers (settleBudget io opts i v (bury v st')) < effort tasks workers ?st4"
        using steps_lost [OF inv4 m4] by (metis insertCI)
      have "sched_steps tasks io opts workers st (settleBudget io opts i v (bury v st'))"
        using s2 to4 st'(2) by (meson rtranclp_trans)
      then show thesis using st' rs None wh wedged cl e4 i4
        by (intro that [of "settleBudget io opts i v (bury v st')" True])
          (simp_all add: poll_task_def Let_def)
    qed
  qed
qed

lemma settle_phase_steps:
  assumes "sched_inv tasks workers st" and "set entries \<subseteq> set (s_inflight st)"
    and "distinct (map fst entries)"
  shows "\<exists>st' p'. settle_phase io opts win entries (st, p) = Inr (st', p')
    \<and> sched_steps tasks io opts workers st st'
    \<and> (p' \<longrightarrow> p \<or> effort tasks workers st' < effort tasks workers st)"
  using assms
proof (induction entries arbitrary: st p)
  case (Cons e entries)
  obtain i v where e: "e = (i, v)" by (cases e)
  have m: "(i, v) \<in> set (s_inflight st)" using Cons.prems(2) e by simp
  obtain st1 q where poll: "poll_task io opts win (i, v) st = Inr (st1, q)"
    and steps: "sched_steps tasks io opts workers st st1"
    and infl: "s_inflight st1 = (if q then AList.delete i (s_inflight st) else s_inflight st)"
    and eff: "q \<Longrightarrow> effort tasks workers st1 < effort tasks workers st"
    using poll_task_steps [OF Cons.prems(1) m] by metis
  note inv1 = sched_steps_inv [OF steps Cons.prems(1)]
  have sub: "set entries \<subseteq> set (s_inflight st1)"
    using Cons.prems(2,3) e by (auto simp: infl set_delete)
  have distinct_entries: "distinct (map fst entries)" using Cons.prems(3) by simp
  obtain st' p' where rest: "settle_phase io opts win entries (st1, p \<or> q) = Inr (st', p')"
    "sched_steps tasks io opts workers st1 st'"
    "p' \<longrightarrow> (p \<or> q) \<or> effort tasks workers st' < effort tasks workers st1"
    using Cons.IH [OF conjunct1 [OF inv1] sub distinct_entries, of "p \<or> q"] by blast
  have le: "effort tasks workers st' \<le> effort tasks workers st1"
    using sched_steps_inv [OF rest(2) conjunct1 [OF inv1]] by simp
  have "p' \<longrightarrow> p \<or> effort tasks workers st' < effort tasks workers st"
    using rest(3) eff le inv1 by fastforce
  then show ?case using e poll rest(1) rtranclp_trans [OF steps rest(2)] by auto
qed simp

lemma probe_workers_steps:
  assumes "sched_inv tasks workers st" and "set vs \<subseteq> set workers" and "distinct (vs @ av)"
    and "set av \<subseteq> set workers - set (s_dead st) - snd ` set (s_inflight st)"
    and "busy = map snd (s_inflight st)"
  shows "\<exists>st' av'. probe_workers io busy vs (st, av) = (st', av')
    \<and> sched_steps tasks io opts workers st st'
    \<and> s_inflight st' = s_inflight st \<and> s_graph st' = s_graph st
    \<and> distinct av' \<and> set av' \<subseteq> set workers - set (s_dead st') - snd ` set (s_inflight st')"
  using assms
proof (induction vs arbitrary: st av)
  case (Cons v vs)
  show ?case
  proof (cases "v \<in> set (s_dead st) \<or> v \<in> set busy")
    case True
    then show ?thesis using Cons.IH [of st av] Cons.prems by simp
  next
    case False
    obtain w h where wh: "io_workerHealth io v (s_world st) = (w, h)" by fastforce
    let ?st1 = "st\<lparr>s_world := w\<rparr>"
    have s1: "sched_steps tasks io opts workers st ?st1"
      using wh by (intro steps_quiet quiet_health)
    have inv1: "sched_inv tasks workers ?st1" by (rule sched_inv_cong [OF Cons.prems(1)]) simp_all
    have b1: "busy = map snd (s_inflight ?st1)" using Cons.prems(5) by simp
    have free: "v \<in> set workers" "v \<notin> snd ` set (s_inflight ?st1)"
      using Cons.prems(2,5) False by auto
    show ?thesis
    proof (cases "h = Worker_dead")
      case True
      let ?st2 = "bury v ?st1"
      have s2: "sched_steps tasks io opts workers st ?st2"
        using s1 step_bury [OF free] by (rule rtranclp.rtrancl_into_rtrancl)
      have "sched_inv tasks workers ?st2" by (rule sched_inv_bury [OF inv1 free(2)])
      moreover have "set av \<subseteq> set workers - set (s_dead ?st2) - snd ` set (s_inflight ?st2)"
        using Cons.prems(3,4) by auto
      ultimately obtain st' av' where r: "probe_workers io busy vs (?st2, av) = (st', av')"
        "sched_steps tasks io opts workers ?st2 st'"
        "s_inflight st' = s_inflight ?st2" "s_graph st' = s_graph ?st2" "distinct av'"
        "set av' \<subseteq> set workers - set (s_dead st') - snd ` set (s_inflight st')"
        using Cons.IH [of ?st2 av] Cons.prems(2,3,5) by auto
      show ?thesis using r wh False True rtranclp_trans [OF s2 r(2)] by simp
    next
      case False
      note alive = this
      let ?av = "if h = Worker_idle then av @ [v] else av"
      have "set ?av \<subseteq> set workers - set (s_dead ?st1) - snd ` set (s_inflight ?st1)"
        using Cons.prems(4,5) free \<open>\<not> (v \<in> set (s_dead st) \<or> v \<in> set busy)\<close> by auto
      moreover have "distinct (vs @ ?av)" using Cons.prems(3) by simp
      ultimately obtain st' av' where r: "probe_workers io busy vs (?st1, ?av) = (st', av')"
        "sched_steps tasks io opts workers ?st1 st'"
        "s_inflight st' = s_inflight ?st1" "s_graph st' = s_graph ?st1" "distinct av'"
        "set av' \<subseteq> set workers - set (s_dead st') - snd ` set (s_inflight st')"
        using Cons.IH [OF inv1 _ _ _ b1, of ?av] Cons.prems(2) by auto
      show ?thesis
        using r wh alive \<open>\<not> (v \<in> set (s_dead st) \<or> v \<in> set busy)\<close> rtranclp_trans [OF s1 r(2)]
        by (auto split: if_splits)
    qed
  qed
qed auto

lemma choose_target_Some:
  "choose_target spec av = Some v \<Longrightarrow> v \<in> set av \<and> (\<forall>pin. ts_worker spec = Some pin \<longrightarrow> v = pin)"
  by (auto simp: choose_target_def split: option.splits if_splits list.splits)

text \<open>The outcome of offering tasks: an error of one of two kinds, or a pass that went on.\<close>

definition offered ::
  "task_spec list \<Rightarrow> 'w scheduler_io \<Rightarrow> 'w schedule_opts \<Rightarrow> worker_id list \<Rightarrow> 'w pass \<Rightarrow>
   'w thrown + 'w pass \<Rightarrow> bool" where
  "offered tasks io opts workers ps result \<longleftrightarrow>
     (case result of
        Inl (st', e) \<Rightarrow>
          sched_steps tasks io opts workers (ps_state ps) st'
          \<and> ((\<exists>i v. e = Pinned_worker_died i v \<and> v \<in> set (s_dead st')) \<or> (\<exists>err. e = Dispatch_threw err))
      | Inr ps' \<Rightarrow>
          pass_inv tasks workers ps'
          \<and> sched_steps tasks io opts workers (ps_state ps) (ps_state ps')
          \<and> (ps_progressed ps' \<longrightarrow>
               ps_progressed ps \<or> effort tasks workers (ps_state ps') < effort tasks workers (ps_state ps))
          \<and> (ps_progressed ps \<longrightarrow> ps_progressed ps')
          \<and> (ps_dispatched ps' \<longrightarrow> ps_dispatched ps \<or> ps_progressed ps'))"

lemma offer_task_steps:
  assumes p: "pass_inv tasks workers ps" and t: "spec \<in> set tasks"
    and r: "task_state (s_graph (ps_state ps)) (ts_id spec) = Some S_ready"
  shows "offered tasks io opts workers ps (offer_task io opts spec ps)"
    and "offer_task io opts spec ps = Inr ps' \<Longrightarrow> j \<noteq> ts_id spec \<Longrightarrow>
         task_state (s_graph (ps_state ps)) j = Some S_ready \<Longrightarrow>
         task_state (s_graph (ps_state ps')) j = Some S_ready"
proof -
  let ?i = "ts_id spec" and ?st = "ps_state ps"
  have inv: "sched_inv tasks workers ?st" using p by (simp add: pass_inv_def)
  have goal: "offered tasks io opts workers ps (offer_task io opts spec ps) \<and>
    (\<forall>ps' j. offer_task io opts spec ps = Inr ps' \<longrightarrow> j \<noteq> ?i \<longrightarrow>
       task_state (s_graph ?st) j = Some S_ready \<longrightarrow> task_state (s_graph (ps_state ps')) j = Some S_ready)"
  proof (cases "case ts_worker spec of Some pin \<Rightarrow> pin \<in> set (s_dead ?st) | None \<Rightarrow> False")
    case True
    then show ?thesis
      by (auto simp: offer_task_def Let_def offered_def steps_announce split: option.splits)
  next
    case False
    note unpinned = this
    show ?thesis
    proof (cases "choose_target spec (ps_available ps)")
      case None
      then show ?thesis using unpinned p by (simp add: offer_task_def Let_def offered_def)
    next
      case (Some v)
      note v = choose_target_Some [OF Some]
      have free: "v \<in> set workers" "v \<notin> set (s_dead ?st)" "v \<notin> snd ` set (s_inflight ?st)"
        using p v by (auto simp: pass_inv_def)
      obtain st1 refusal where a: "admit_task opts ?i ?st = (st1, refusal)" by fastforce
      note fr = admit_task_frame [OF a]
      show ?thesis
      proof (cases refusal)
        case (Some no)
        then have "st1 = ?st" using a admit_refused by blast
        then show ?thesis using p a Some \<open>choose_target spec (ps_available ps) = Some v\<close> unpinned
          by (simp add: offer_task_def Let_def offered_def pass_inv_def)
      next
        case None
        note granted = a [unfolded None]
        obtain w res where d: "io_dispatch io spec v ?i (s_world st1) = (w, res)" by fastforce
        show ?thesis
        proof (cases res)
          case (Inl err)
          have "sched_step tasks io opts workers ?st (releaseHold opts ?i (st1\<lparr>s_world := w\<rparr>))"
            using t r free v granted d Inl by (intro step_threw) auto
          then show ?thesis
            using unpinned \<open>choose_target spec (ps_available ps) = Some v\<close> granted d Inl
            by (auto simp: offer_task_def Let_def offered_def)
        next
          case (Inr answer)
          let ?ps = "ps\<lparr>ps_state := st1\<lparr>s_world := w\<rparr>, ps_dispatched := True, ps_progressed := True\<rparr>"
          have "sched_inv tasks workers (st1\<lparr>s_world := w\<rparr>)"
            by (rule sched_inv_cong [OF inv]) (simp_all add: fr)
          then have p1: "pass_inv tasks workers ?ps" using p by (simp add: pass_inv_def fr)
          have r1: "task_state (s_graph (ps_state ?ps)) ?i = Some S_ready" using r by (simp add: fr)
          have v1: "v \<in> set (ps_available ?ps)" using v by simp
          obtain ps' where ps': "take_answer io opts spec v answer ?ps = Inr ps'"
            "pass_inv tasks workers ps'"
            "effort tasks workers (ps_state ps') < effort tasks workers (ps_state ?ps)"
            "\<And>j. j \<noteq> ?i \<Longrightarrow> live_state (task_state (s_graph (ps_state ?ps)) j) \<Longrightarrow>
               task_state (s_graph (ps_state ps')) j = task_state (s_graph (ps_state ?ps)) j"
            "ps_dispatched ps' = ps_dispatched ?ps" "ps_progressed ps' = ps_progressed ?ps"
            using take_answer_step [OF p1 v1 r1] by metis
          have run: "offer_task io opts spec ps = Inr ps'"
            using unpinned \<open>choose_target spec (ps_available ps) = Some v\<close> granted d Inr ps'(1)
            by (simp add: offer_task_def Let_def)
          have "sched_step tasks io opts workers ?st (ps_state ps')"
            using t r free v granted d Inr ps'(1) by (intro step_offer [where ps = ?ps]) auto
          moreover have "effort tasks workers (ps_state ?ps) = effort tasks workers ?st"
            by (simp add: effort_def fr)
          ultimately have "offered tasks io opts workers ps (Inr ps')"
            using ps'(2,3,5,6) by (simp add: offered_def)
          moreover have "task_state (s_graph (ps_state ps')) j = Some S_ready"
            if "j \<noteq> ?i" "task_state (s_graph ?st) j = Some S_ready" for j
            using ps'(4) [of j] that by (simp add: live_state_def fr)
          ultimately show ?thesis by (simp add: run)
        qed
      qed
    qed
  qed
  then show "offered tasks io opts workers ps (offer_task io opts spec ps)" by blast
  show "task_state (s_graph (ps_state ps')) j = Some S_ready"
    if "offer_task io opts spec ps = Inr ps'" "j \<noteq> ?i" "task_state (s_graph ?st) j = Some S_ready"
    using goal that by blast
qed

lemma offered_trans:
  assumes p: "pass_inv tasks workers ps"
    and a: "offered tasks io opts workers ps (Inr ps1)" and b: "offered tasks io opts workers ps1 res"
  shows "offered tasks io opts workers ps res"
proof -
  have inv: "sched_inv tasks workers (ps_state ps1)"
    and s: "sched_steps tasks io opts workers (ps_state ps) (ps_state ps1)"
    using a by (simp_all add: offered_def pass_inv_def)
  show ?thesis
  proof (cases res)
    case (Inl e)
    obtain st' err where e: "e = (st', err)" by fastforce
    have "sched_steps tasks io opts workers (ps_state ps1) st'" using b Inl e by (simp add: offered_def)
    then have "sched_steps tasks io opts workers (ps_state ps) st'" by (rule rtranclp_trans [OF s])
    then show ?thesis using b Inl e by (simp add: offered_def)
  next
    case (Inr ps')
    have s': "sched_steps tasks io opts workers (ps_state ps1) (ps_state ps')"
      using b Inr by (simp add: offered_def)
    have "effort tasks workers (ps_state ps') \<le> effort tasks workers (ps_state ps1)"
      using sched_steps_inv [OF s' inv] by simp
    moreover have "effort tasks workers (ps_state ps1) \<le> effort tasks workers (ps_state ps)"
      using sched_steps_inv [OF s] p by (simp add: pass_inv_def)
    ultimately show ?thesis using a b Inr rtranclp_trans [OF s s'] by (auto simp: offered_def)
  qed
qed

lemma dispatch_phase_steps:
  assumes "pass_inv tasks workers ps" and "set specs \<subseteq> set tasks" and "distinct (map ts_id specs)"
    and "\<forall>spec \<in> set specs. task_state (s_graph (ps_state ps)) (ts_id spec) = Some S_ready"
  shows "offered tasks io opts workers ps (dispatch_phase io opts specs ps)"
  using assms
proof (induction specs arbitrary: ps)
  case Nil
  then show ?case by (simp add: offered_def)
next
  case (Cons spec specs)
  have t: "spec \<in> set tasks" and r: "task_state (s_graph (ps_state ps)) (ts_id spec) = Some S_ready"
    using Cons.prems(2,4) by auto
  note one = offer_task_steps [OF Cons.prems(1) t r]
  show ?case
  proof (cases "offer_task io opts spec ps")
    case (Inl e)
    then show ?thesis using one(1) [of io opts] by simp
  next
    case (Inr ps1)
    have o1: "offered tasks io opts workers ps (Inr ps1)" using one(1) [of io opts] Inr by simp
    have ready1: "\<forall>spec' \<in> set specs.
        task_state (s_graph (ps_state ps1)) (ts_id spec') = Some S_ready"
    proof
    fix spec' assume s: "spec' \<in> set specs"
    then have "ts_id spec' \<noteq> ts_id spec" using Cons.prems(3) by (metis distinct.simps(2) image_eqI list.simps(9) list.set_map)
    then show "task_state (s_graph (ps_state ps1)) (ts_id spec') = Some S_ready"
      using one(2) [OF Inr] Cons.prems(4) s by simp
  qed
    have p1: "pass_inv tasks workers ps1" using o1 by (simp add: offered_def)
    have "offered tasks io opts workers ps1 (dispatch_phase io opts specs ps1)"
      using Cons.IH [OF p1 _ _ ready1] Cons.prems(2,3) by simp
    then have "offered tasks io opts workers ps (dispatch_phase io opts specs ps1)"
      by (rule offered_trans [OF Cons.prems(1) o1])
    then show ?thesis using Inr by simp
  qed
qed

lemma conclude_lastProgress: "conclude i x f r st = Inr st' \<Longrightarrow> s_lastProgress st' = s_lastProgress st"
  by (auto simp: conclude_def split: sum.splits)

lemma take_answer_lastProgress:
  "take_answer io opts spec v answer ps = Inr ps' \<Longrightarrow>
   s_lastProgress (ps_state ps') = s_lastProgress (ps_state ps)"
  by (cases answer)
    (auto simp: take_answer_def Let_def conclude_lastProgress split: sum.splits)

lemma sched_steps_lastProgress:
  "sched_steps tasks io opts workers st st' \<Longrightarrow> s_lastProgress st' = s_lastProgress st"
proof (induction rule: rtranclp_induct)
  case (step a b)
  have "s_lastProgress b = s_lastProgress a"
    using step.hyps(2)
    by (cases rule: sched_step.cases)
      (auto simp: conclude_lastProgress take_answer_lastProgress admit_task_frame)
  then show ?case using step.IH by simp
qed simp

section \<open>An iteration\<close>

definition turned ::
  "task_spec list \<Rightarrow> 'w scheduler_io \<Rightarrow> 'w schedule_opts \<Rightarrow> worker_id list \<Rightarrow> rat \<Rightarrow> 'w sched \<Rightarrow>
   'w thrown + 'w turn \<Rightarrow> bool" where
  "turned tasks io opts workers timeout st result \<longleftrightarrow>
     (case result of
        Inl (st', e) \<Rightarrow>
          sched_steps tasks io opts workers st st'
          \<and> (case e of
                Pinned_worker_died i v \<Rightarrow> v \<in> set (s_dead st')
              | Dispatch_threw err \<Rightarrow> True
              | Every_worker_died is \<Rightarrow> s_inflight st' = [] \<and> set workers \<subseteq> set (s_dead st')
              | No_progress stuck \<Rightarrow>
                  stuck = s_inflight st' \<and> timeout < io_now io (s_world st') - s_lastProgress st'
              | _ \<Rightarrow> False)
      | Inr (Stop st' refusal) \<Rightarrow>
          sched_steps tasks io opts workers st st'
          \<and> (if refusal \<noteq> None then s_inflight st' = []
             else allTerminal (s_graph st') \<or> budget_halted st' \<and> s_inflight st' = [])
      | Inr (Again st') \<Rightarrow>
          (\<exists>st1. sched_steps tasks io opts workers st st1
            \<and> (effort tasks workers st1 < effort tasks workers st
                 \<and> st' = st1\<lparr>s_lastProgress := io_now io (s_world st1)\<rparr>
               \<or> io_now io (s_world st1) - s_lastProgress st1 \<le> timeout
                 \<and> st' = st1\<lparr>s_world := io_sleep io (poll_interval opts) (s_world st1)\<rparr>)))"

lemma end_turn_steps:
  assumes "pass_inv tasks workers ps" and "ps_dispatched ps \<longrightarrow> ps_progressed ps"
    and "sched_steps tasks io opts workers st (ps_state ps)"
    and "ps_progressed ps \<longrightarrow> effort tasks workers (ps_state ps) < effort tasks workers st"
  shows "turned tasks io opts workers timeout st (end_turn io opts workers timeout ps)"
  using assms by (auto simp: end_turn_def Let_def turned_def)

lemma turn_once_steps:
  assumes inv: "sched_inv tasks workers st" and d: "distinct workers"
  shows "turned tasks io opts workers timeout st (turn_once io opts win workers timeout st)"
proof (cases "allTerminal (s_graph st)")
  case True
  then show ?thesis by (simp add: turn_once_def turned_def)
next
  case False
  obtain st1 p where settle: "settle_phase io opts win (s_inflight st) (st, False) = Inr (st1, p)"
    and s1: "sched_steps tasks io opts workers st st1"
    and e1: "p \<longrightarrow> effort tasks workers st1 < effort tasks workers st"
    using settle_phase_steps [OF inv, of "s_inflight st" io opts win False] inv
    by (auto simp: sched_inv_def)
  let ?st2 = "if p then announce_change opts st1 else st1"
  have s2: "sched_steps tasks io opts workers st ?st2"
    using s1 steps_announce_if by (rule rtranclp_trans)
  note inv2 = conjunct1 [OF sched_steps_inv [OF s2 inv]]
  have e2: "p \<longrightarrow> effort tasks workers ?st2 < effort tasks workers st"
    using e1 by (simp add: effort_def)
  show ?thesis
  proof (cases "allTerminal (s_graph ?st2) \<or> budget_halted ?st2 \<and> s_inflight ?st2 = []")
    case True
    then have "turn_once io opts win workers timeout st = Inr (Stop ?st2 None)"
      using False settle by (auto simp: turn_once_def Let_def)
    then show ?thesis using True s2 by (simp add: turned_def)
  next
    case False
    then have run: "turn_once io opts win workers timeout st = dispatch_turn io opts workers timeout ?st2 p"
      using \<open>\<not> allTerminal (s_graph st)\<close> settle by (auto simp: turn_once_def Let_def)
    obtain st3 av where probe: "probe_workers io (map snd (s_inflight ?st2)) workers (?st2, []) = (st3, av)"
      and s3: "sched_steps tasks io opts workers ?st2 st3"
      and av: "distinct av" "set av \<subseteq> set workers - set (s_dead st3) - snd ` set (s_inflight st3)"
      using probe_workers_steps [OF inv2, of workers "[]" "map snd (s_inflight ?st2)" io opts] d by auto
    note inv3 = sched_steps_inv [OF s3 inv2]
    let ?ps = "\<lparr>ps_state = st3, ps_available = av, ps_refused = None,
        ps_dispatched = False, ps_progressed = p\<rparr>"
    have p3: "pass_inv tasks workers ?ps" using av inv3 by (simp add: pass_inv_def)
    have g3: "graph_inv tasks (s_graph st3)" using inv3 by (simp add: sched_inv_def)
    have off: "offered tasks io opts workers ?ps (dispatch_phase io opts (ready (s_graph st3)) ?ps)"
      using ready_specs [OF g3] distinct_ready [OF g3]
      by (intro dispatch_phase_steps [OF p3]) auto
    have s03: "sched_steps tasks io opts workers st st3" using s2 s3 by (rule rtranclp_trans)
    show ?thesis
    proof (cases "dispatch_phase io opts (ready (s_graph st3)) ?ps")
      case (Inl e)
      obtain st' err where e: "e = (st', err)" by fastforce
      have "sched_steps tasks io opts workers st3 st'" using off Inl e by (simp add: offered_def)
      then have "sched_steps tasks io opts workers st st'" by (rule rtranclp_trans [OF s03])
      moreover have "(\<exists>i v. err = Pinned_worker_died i v \<and> v \<in> set (s_dead st'))
          \<or> (\<exists>x. err = Dispatch_threw x)"
        using off Inl e by (simp add: offered_def)
      ultimately show ?thesis using Inl e probe
        by (auto simp: run dispatch_turn_def turned_def)
    next
      case (Inr ps)
      let ?fin = "if ps_dispatched ps then ps\<lparr>ps_state := announce_change opts (ps_state ps)\<rparr> else ps"
      have o: "pass_inv tasks workers ps" "sched_steps tasks io opts workers st3 (ps_state ps)"
        "ps_progressed ps \<longrightarrow> p \<or> effort tasks workers (ps_state ps) < effort tasks workers st3"
        "p \<longrightarrow> ps_progressed ps" "ps_dispatched ps \<longrightarrow> ps_progressed ps"
        using off Inr by (simp_all add: offered_def)
      have "pass_inv tasks workers ?fin"
        using o(1) sched_inv_cong [of tasks workers "ps_state ps" "announce_change opts (ps_state ps)"]
        by (simp add: pass_inv_def)
      moreover have "ps_dispatched ?fin \<longrightarrow> ps_progressed ?fin" using o(5) by simp
      moreover have "sched_steps tasks io opts workers st (ps_state ?fin)"
        using rtranclp_trans [OF s03 o(2)]
          rtranclp_trans [OF _ steps_announce, of tasks io opts workers st "ps_state ps"] by simp
      moreover have "ps_progressed ?fin \<longrightarrow> effort tasks workers (ps_state ?fin) < effort tasks workers st"
      proof
        assume "ps_progressed ?fin"
        then have pr: "ps_progressed ps" by (simp split: if_splits)
        have "effort tasks workers (ps_state ps) \<le> effort tasks workers st3"
          using sched_steps_inv [OF o(2)] inv3 by simp
        moreover have "effort tasks workers st3 \<le> effort tasks workers ?st2" using inv3 by simp
        moreover have "effort tasks workers ?st2 \<le> effort tasks workers st"
          using sched_steps_inv [OF s2 inv] by simp
        ultimately have "effort tasks workers (ps_state ps) < effort tasks workers st"
          using pr o(3) e2 by linarith
        then show "effort tasks workers (ps_state ?fin) < effort tasks workers st"
          by (simp add: effort_def)
      qed
      ultimately have "turned tasks io opts workers timeout st (end_turn io opts workers timeout ?fin)"
        by (rule end_turn_steps)
      then show ?thesis using Inr probe by (simp add: run dispatch_turn_def)
    qed
  qed
qed

end
