(* ===== verification/Schedule_Runs.thy ===== *)
theory Schedule_Runs
  imports Schedule_Steps
begin

text \<open>
  Whole runs of \<open>runSchedule\<close>. A run is a sequence of steps and of stamps of the progress clock,
  so the invariant holds at its end, no internal error of the graph can surface, and what it
  reports is what the graph came to. With a clock that goes on, the loop returns: each iteration
  either leaves less to do or brings the stall timeout nearer.
\<close>

section \<open>Runs are moves\<close>

inductive sched_move ::
  "task_spec list \<Rightarrow> 'w scheduler_io \<Rightarrow> 'w schedule_opts \<Rightarrow> worker_id list \<Rightarrow> 'w sched \<Rightarrow> 'w sched \<Rightarrow> bool"
  for tasks :: "task_spec list" and io :: "'w scheduler_io" and opts :: "'w schedule_opts"
    and workers :: "worker_id list" where
  move_step: "sched_step tasks io opts workers st st' \<Longrightarrow> sched_move tasks io opts workers st st'"
| move_stamp: "sched_move tasks io opts workers st (st\<lparr>s_lastProgress := io_now io (s_world st)\<rparr>)"

abbreviation "sched_moves tasks io opts workers \<equiv> (sched_move tasks io opts workers)\<^sup>*\<^sup>*"

lemma steps_moves: "sched_steps tasks io opts workers st st' \<Longrightarrow> sched_moves tasks io opts workers st st'"
  by (rule rtranclp_mono [THEN predicate2D]) (auto intro: move_step)

lemma sched_moves_inv:
  "sched_moves tasks io opts workers st st' \<Longrightarrow> sched_inv tasks workers st \<Longrightarrow> sched_inv tasks workers st'"
proof (induction rule: rtranclp_induct)
  case (step a b)
  from step.hyps(2) step.IH [OF step.prems] show ?case
    by (cases rule: sched_move.cases) (auto simp: sched_inv_def dest: sched_step_inv [unfolded sched_inv_def])
qed simp

lemma turned_again_moves:
  assumes "turned tasks io opts workers timeout st (Inr (Again st'))"
  shows "sched_moves tasks io opts workers st st'"
proof -
  obtain st1 where s: "sched_steps tasks io opts workers st st1"
    and "st' = st1\<lparr>s_lastProgress := io_now io (s_world st1)\<rparr>
       \<or> st' = st1\<lparr>s_world := io_sleep io (poll_interval opts) (s_world st1)\<rparr>"
    using assms by (auto simp: turned_def)
  then have "sched_move tasks io opts workers st1 st'"
    by (auto intro: move_stamp move_step step_quiet quiet_sleep)
  then show ?thesis using steps_moves [OF s] by (rule rtranclp.rtrancl_into_rtrancl [rotated])
qed

text \<open>The result of the loop, as the end of an iteration.\<close>

fun as_turn :: "'w thrown + 'w sched \<times> admission option \<Rightarrow> 'w thrown + 'w turn" where
  "as_turn (Inl e) = Inl e"
| "as_turn (Inr (st, refusal)) = Inr (Stop st refusal)"

lemma sched_loop_turned:
  assumes "sched_loop io opts win workers timeout st = Some res"
    and "sched_inv tasks workers st" and "distinct workers"
  shows "\<exists>st1. sched_moves tasks io opts workers st st1 \<and>
    turned tasks io opts workers timeout st1 (as_turn res)"
proof -
  define P where "P = (\<lambda>(io :: 'a scheduler_io) opts (win :: (int \<times> int) option) workers timeout st res.
    sched_inv tasks workers st \<longrightarrow> distinct workers \<longrightarrow>
      (\<exists>st1. sched_moves tasks io opts workers st st1 \<and>
        turned tasks io opts workers timeout st1 (as_turn res)))"
  have "P io opts win workers timeout st res"
  proof (rule sched_loop.raw_induct [where P = P, OF _ assms(1)], goal_cases)
    case (1 loop io opts win workers timeout st res)
    show ?case
      unfolding P_def
    proof (intro impI)
      assume inv: "sched_inv tasks workers st" and d: "distinct workers"
      note t = turn_once_steps [OF inv d, of io opts timeout win]
      show "\<exists>st1. sched_moves tasks io opts workers st st1 \<and>
        turned tasks io opts workers timeout st1 (as_turn res)"
      proof (cases "\<exists>st'. turn_once io opts win workers timeout st = Inr (Again st')")
        case True
        then obtain st' where a: "turn_once io opts win workers timeout st = Inr (Again st')" by blast
        then have m: "sched_moves tasks io opts workers st st'" using t turned_again_moves by metis
        have "P io opts win workers timeout st' res" using 1 a by auto
        then show ?thesis
          using m sched_moves_inv [OF m inv] d unfolding P_def by (meson rtranclp_trans)
      next
        case False
        then have "turn_once io opts win workers timeout st = as_turn res"
          using 1(2) by (auto split: sum.splits turn.splits)
        then show ?thesis using t by auto
      qed
    qed
  qed
  then show ?thesis using assms by (simp add: P_def)
qed

text \<open>The state a run of the loop ends in, also when it ends in an error.\<close>

fun end_state :: "'w thrown + 'w sched \<times> admission option \<Rightarrow> 'w sched" where
  "end_state (Inl (st, _)) = st"
| "end_state (Inr (st, _)) = st"

lemma turned_end_steps:
  "turned tasks io opts workers timeout st (as_turn res) \<Longrightarrow>
   sched_steps tasks io opts workers st (end_state res)"
  by (cases res) (auto simp: turned_def)

lemma sched_loop_moves:
  assumes "sched_loop io opts win workers timeout st = Some res"
    and "sched_inv tasks workers st" and "distinct workers"
  shows "sched_moves tasks io opts workers st (end_state res)"
  using sched_loop_turned [OF assms]
  by (meson rtranclp_trans steps_moves turned_end_steps)

lemma initial_sched_inv:
  assumes "graph_inv tasks g" and "\<And>i. task_state g i \<noteq> Some S_dispatched"
  shows "sched_inv tasks workers (initial_sched io opts g started w)"
  using assms by (simp add: sched_inv_def initial_sched_def)

lemma new_graph_fresh:
  assumes "ids_ok tasks" and "new_graph tasks tui = Inr g"
  shows "task_state g i \<noteq> Some S_dispatched" and "task_state g i \<noteq> Some S_done"
proof -
  have "i \<in> ts_id ` set tasks" if "task_state g i \<noteq> None"
    using that new_graph_wf(1) [OF assms] by (auto simp: graph_wf_def task_state_def)
  then show "task_state g i \<noteq> Some S_dispatched" "task_state g i \<noteq> Some S_done"
    using new_graph_wf(2) [OF assms]
    by (auto simp: task_state_def initial_node_def split: if_splits)
qed

text \<open>
  A run of \<open>runSchedule\<close> that gets past its checks is a run of the loop from a state with the
  invariant.
\<close>

lemma runSchedule_cases:
  assumes ids: "ids_ok tasks" and ac: "acyclic (dep_edges tasks)"
    and d: "distinct (snd (io_listWorkers io w))"
  obtains (refused) e where "runSchedule tasks io opts w = Some (Inl e)"
      and "error_exit e = Some EXIT_USAGE"
  | (looped) win workers timeout g w2 where "0 < timeout" and "graph_inv tasks g"
      and "distinct workers"
      and "sched_inv tasks workers (initial_sched io opts g (io_now io w) w2)"
      and "runSchedule tasks io opts w =
        (case sched_loop io opts win workers timeout (initial_sched io opts g (io_now io w) w2) of
           None \<Rightarrow> None
         | Some (Inl (st, e)) \<Rightarrow> Some (Inl e)
         | Some (Inr (st, refusal)) \<Rightarrow> Some (Inr (conclude_schedule st refusal)))"
proof -
  obtain w1 listed where l: "io_listWorkers io w = (w1, listed)" by fastforce
  obtain w2 tui where t: "tui_workers io tasks w1 = (w2, tui)" by fastforce
  show thesis
  proof (cases "stall_timeout tasks opts")
    case (Finite q)
    show thesis
    proof (cases "q \<le> 0 \<or> sort listed = [] \<or> find_stranger tasks (sort listed) \<noteq> None")
      case True
      have "\<exists>e. runSchedule tasks io opts w = Some (Inl e) \<and> error_exit e = Some EXIT_USAGE"
        using True Finite l by (auto simp: runSchedule_def Let_def)
      then show thesis using refused by blast
    next
      case False
      then have checks: "\<not> q \<le> 0" "sort listed \<noteq> []" "find_stranger tasks (sort listed) = None" by blast+
      show thesis
      proof (cases "new_graph tasks tui")
        case (Inl e)
        then have "error_exit (Graph_refused e) = Some EXIT_USAGE"
          by (auto simp: new_graph_def Let_def split: if_splits)
        moreover have "runSchedule tasks io opts w = Some (Inl (Graph_refused e))"
          using Inl checks Finite l t by (simp add: runSchedule_def Let_def)
        ultimately show thesis by (rule refused [rotated])
      next
        case (Inr g)
        have gi: "graph_inv tasks g" by (rule new_graph_inv [OF ids ac Inr])
        show thesis
        proof (rule looped [of q g "sort listed" w2])
          show "sched_inv tasks (sort listed) (initial_sched io opts g (io_now io w) w2)"
            using gi new_graph_fresh(1) [OF ids Inr] by (rule initial_sched_inv)
          show "distinct (sort listed)" using d l by simp
          show "runSchedule tasks io opts w =
            (case sched_loop io opts (map_option (stallWindowFor tasks) (so_stall opts)) (sort listed) q
                    (initial_sched io opts g (io_now io w) w2) of
               None \<Rightarrow> None
             | Some (Inl (st, e)) \<Rightarrow> Some (Inl e)
             | Some (Inr (st, refusal)) \<Rightarrow> Some (Inr (conclude_schedule st refusal)))"
            using Inr checks Finite l t by (simp add: runSchedule_def Let_def)
        qed (use checks gi in auto)
      qed
    qed
  next
    case Not_a_number
    then show thesis by (intro refused [of "Bad_stall_timeout Not_a_number"]) (simp_all add: runSchedule_def)
  next
    case (Infinite b)
    then show thesis by (intro refused [of "Bad_stall_timeout (Infinite b)"]) (simp_all add: runSchedule_def)
  qed
qed

section \<open>What a run reports\<close>

lemma snapshot_map:
  assumes "graph_wf tasks g"
  shows "snapshot g = map (\<lambda>t. case g_nodes g (ts_id t) of
    Some n \<Rightarrow> \<lparr>st_id = ts_id t, st_state = n_state n, st_worker = n_worker n,
      st_task_id = n_taskId n, st_depends_on = ts_depends_on t,
      st_blocked_by = n_blockedBy n, st_verdict = n_verdict n\<rparr>) tasks"
proof -
  have "concat (map (\<lambda>i. case g_nodes g i of
       Some n \<Rightarrow> [\<lparr>st_id = i, st_state = n_state n, st_worker = n_worker n,
                   st_task_id = n_taskId n, st_depends_on = ts_depends_on (n_spec n),
                   st_blocked_by = n_blockedBy n, st_verdict = n_verdict n\<rparr>]
     | None \<Rightarrow> []) (map ts_id ts)) = map (\<lambda>t. case g_nodes g (ts_id t) of
    Some n \<Rightarrow> \<lparr>st_id = ts_id t, st_state = n_state n, st_worker = n_worker n,
      st_task_id = n_taskId n, st_depends_on = ts_depends_on t,
      st_blocked_by = n_blockedBy n, st_verdict = n_verdict n\<rparr>) ts" if "set ts \<subseteq> set tasks" for ts
    using that
  proof (induction ts)
    case (Cons t ts)
    then obtain n where "g_nodes g (ts_id t) = Some n" "n_spec n = t"
      using assms by (auto elim: graph_wf_node)
    then show ?case using Cons by simp
  qed simp
  then show ?thesis using assms by (simp add: snapshot_def graph_wf_def)
qed

lemma snapshot_facts:
  assumes inv: "graph_inv tasks g"
  shows "map st_id (snapshot g) = map ts_id tasks"
    and "s \<in> set (snapshot g) \<Longrightarrow> task_state g (st_id s) = Some (st_state s)"
    and "s \<in> set (snapshot g) \<Longrightarrow> st_id s \<in> ts_id ` set tasks"
    and "s \<in> set (snapshot g) \<Longrightarrow> st_state s = S_done \<longleftrightarrow> st_verdict s \<noteq> None"
proof -
  have wf: "graph_wf tasks g" using inv by (simp add: graph_inv_def)
  note m = snapshot_map [OF wf]
  have node: "\<exists>n. g_nodes g (ts_id t) = Some n" if "t \<in> set tasks" for t
    using graph_wf_node [OF wf that] by blast
  have "map st_id (snapshot g) = map (st_id \<circ> (\<lambda>t. case g_nodes g (ts_id t) of
    Some n \<Rightarrow> \<lparr>st_id = ts_id t, st_state = n_state n, st_worker = n_worker n,
      st_task_id = n_taskId n, st_depends_on = ts_depends_on t,
      st_blocked_by = n_blockedBy n, st_verdict = n_verdict n\<rparr>)) tasks" by (simp add: m)
  also have "\<dots> = map ts_id tasks" using node by (intro map_cong) fastforce+
  finally show "map st_id (snapshot g) = map ts_id tasks" .
  { assume "s \<in> set (snapshot g)"
    then obtain t where t: "t \<in> set tasks" and s: "s = (case g_nodes g (ts_id t) of
      Some n \<Rightarrow> \<lparr>st_id = ts_id t, st_state = n_state n, st_worker = n_worker n,
        st_task_id = n_taskId n, st_depends_on = ts_depends_on t,
        st_blocked_by = n_blockedBy n, st_verdict = n_verdict n\<rparr>)" by (auto simp: m)
    obtain n where n: "g_nodes g (ts_id t) = Some n" using node [OF t] by blast
    show "task_state g (st_id s) = Some (st_state s)" "st_id s \<in> ts_id ` set tasks"
      "st_state s = S_done \<longleftrightarrow> st_verdict s \<noteq> None"
      using n t graph_inv_node [OF inv n]
      by (auto simp: s task_state_def node_ok_def split: if_splits) }
qed

lemma exitFor_success:
  "exitFor t r = EXIT_SUCCESS \<longleftrightarrow> st_state t \<noteq> S_blocked \<and> r \<noteq> ''worker_died'' \<and> st_verdict t = Some Success"
  by (auto simp: exitFor_def split: option.splits verdict.splits)

lemma conclude_success:
  "out_exit (conclude_schedule st refusal) = EXIT_SUCCESS \<longleftrightarrow>
     (\<forall>t \<in> set (snapshot (s_graph st)). st_state t \<noteq> S_blocked \<and> st_verdict t = Some Success
        \<and> s_reasons st (st_id t) \<noteq> Some ''worker_died'')
     \<and> \<not> budget_halted st \<and> refusal = None"
  by (cases "s_budget st"; cases refusal)
    (auto simp: conclude_schedule_def Let_def worstExit_success_iff image_subset_iff exitFor_success
      budget_halted_def budgetExitCode_def halted_def split: option.splits)

lemma conclude_budget:
  assumes "refusal \<noteq> None \<or> budget_halted st"
  shows "severity (out_exit (conclude_schedule st refusal)) \<le> severity EXIT_BUDGET"
proof -
  define codes where "codes = map (\<lambda>t. exitFor t (case s_reasons st (st_id t) of None \<Rightarrow> [] | Some r \<Rightarrow> r))
      (snapshot (s_graph st))
    @ (case s_budget st of None \<Rightarrow> [] | Some b \<Rightarrow> [budgetExitCode b])
    @ (if refusal \<noteq> None then [EXIT_BUDGET] else [])"
  have "EXIT_BUDGET \<in> set codes"
    using assms by (auto simp: codes_def budget_halted_def budgetExitCode_def halted_def split: option.splits)
  then have "severity (worstExit codes) \<le> severity EXIT_BUDGET"
    unfolding severity_def by (rule exits.worst_dominates)
  then show ?thesis by (simp add: conclude_schedule_def codes_def Let_def)
qed

text \<open>A run that returns ends in a state with the invariant, for one of the three reasons.\<close>

lemma runSchedule_end:
  fixes io :: "'w scheduler_io"
  assumes "ids_ok tasks" and "acyclic (dep_edges tasks)"
    and "distinct (snd (io_listWorkers io w))"
    and run: "runSchedule tasks io opts w = Some (Inr out)"
  obtains st :: "'w sched" and refusal workers where "out = conclude_schedule st refusal" and "sched_inv tasks workers st"
    and "refusal \<noteq> None \<and> s_inflight st = [] \<or> allTerminal (s_graph st)
         \<or> budget_halted st \<and> s_inflight st = []"
proof (cases rule: runSchedule_cases
    [OF assms(1-3), where opts = opts, case_names refused looped])
  case (looped win workers timeout g w2)
  let ?s0 = "initial_sched io opts g (io_now io w) w2"
  obtain st refusal where l: "sched_loop io opts win workers timeout ?s0 = Some (Inr (st, refusal))"
    "out = conclude_schedule st refusal"
    using run looped(5) by (auto split: option.splits sum.splits)
  obtain st1 where st1: "sched_moves tasks io opts workers ?s0 st1"
    "turned tasks io opts workers timeout st1 (Inr (Stop st refusal))"
    using sched_loop_turned [OF l(1) looped(4,3)] by auto
  have "sched_steps tasks io opts workers st1 st" using st1(2) by (simp add: turned_def)
  then have "sched_inv tasks workers st"
    using sched_steps_inv sched_moves_inv [OF st1(1) looped(4)] by blast
  then show thesis using that [OF l(2)] st1(2) by (auto simp: turned_def split: if_splits)
qed (use run in simp)

section \<open>A run with two workers\<close>

declare sched_loop.simps [code]

definition demo_io :: "rat scheduler_io" where
  "demo_io =
     \<lparr>io_listWorkers = (\<lambda>w. (w, [''w2'', ''w1''])),
      io_workerHealth = (\<lambda>v w. (w, Worker_idle)),
      io_dispatch = (\<lambda>spec v i w. (w, Inr Accepted)),
      io_readSettled = (\<lambda>v i w. (w, Some (Success, ''agent_end''))),
      io_taskTokens = None, io_eventSilenceMs = None, io_killWedged = None, io_paneMode = None,
      io_sleep = (\<lambda>ms w. w + ms), io_now = (\<lambda>w. w), io_isoNow = (\<lambda>w. ''t'')\<rparr>"

definition demo_opts :: "rat schedule_opts" where
  "demo_opts =
     \<lparr>so_pollMs = None, so_onChange = (\<lambda>_ w. w), so_stallTimeoutMs = None, so_budget = None,
      so_maxConcurrent = 1, so_reserveTokens = 0, so_persist = (\<lambda>_ w. w), so_stall = None,
      so_onStallWarn = (\<lambda>_ _ _ w. w)\<rparr>"

lemma chain_ids: "ids_ok chain_tasks"
  by (simp add: ids_ok_def chain_tasks_def)

lemma demo_workers: "distinct (snd (io_listWorkers demo_io w))"
  by (simp add: demo_io_def)

lemma demo_run:
  obtains out where "runSchedule chain_tasks demo_io demo_opts 0 = Some (Inr out)"
    and "out_exit out = EXIT_SUCCESS"
proof -
  have "case runSchedule chain_tasks demo_io demo_opts 0 of
      Some (Inr out) \<Rightarrow> out_exit out = EXIT_SUCCESS | _ \<Rightarrow> False"
    by code_simp
  then show thesis using that by (auto split: option.splits sum.splits)
qed

text \<open>The same fleet, with every worker dead at the first probe.\<close>

definition dead_io :: "rat scheduler_io" where
  "dead_io = demo_io\<lparr>io_workerHealth := (\<lambda>v w. (w, Worker_dead))\<rparr>"

lemma dead_run: "runSchedule chain_tasks dead_io demo_opts 0 = Some (Inl (Every_worker_died [''a'']))"
  by code_simp

section \<open>Properties of the run\<close>

text \<open>
  A schedule's errors are the named ones. For a task list that passed validation, every error
  \<open>runSchedule\<close> throws of its own carries an exit code: the graph's internal errors (a cycle, an
  unknown task, a task dispatched while not ready, a task settled twice) never surface. The only
  other error is one the dispatch call itself threw.
\<close>

theorem runSchedule_errors:
  assumes "ids_ok tasks" and "acyclic (dep_edges tasks)"
    and "distinct (snd (io_listWorkers io w))"
    and "runSchedule tasks io opts w = Some (Inl e)"
  shows "error_exit e \<noteq> None \<or> (\<exists>err. e = Dispatch_threw err)"
proof (cases rule: runSchedule_cases [OF assms(1-3), where opts = opts, case_names refused looped])
  case (refused e')
  then show ?thesis using assms(4) by simp
next
  case (looped win workers timeout g w2)
  obtain st where "sched_loop io opts win workers timeout (initial_sched io opts g (io_now io w) w2)
      = Some (Inl (st, e))"
    using assms(4) looped(5) by (auto split: option.splits sum.splits)
  from sched_loop_turned [OF this looped(4,3)] show ?thesis
    by (cases e) (auto simp: turned_def)
qed

theorem runSchedule_errors_witness: "error_exit (Every_worker_died [''a'']) \<noteq> None"
  using runSchedule_errors [OF chain_ids chain_acyclic _ dead_run]
  by (simp add: dead_io_def demo_io_def)

text \<open>
  A schedule that returns has accounted for every task. The report lists the tasks in list
  order, none of them is still dispatched, and each is done or blocked, unless the budget ended
  the run, and then the exit code is the budget's or a worse one.
\<close>

theorem runSchedule_complete:
  fixes io :: "'w scheduler_io"
  assumes "ids_ok tasks" and "acyclic (dep_edges tasks)"
    and "distinct (snd (io_listWorkers io w))"
    and "runSchedule tasks io opts w = Some (Inr out)"
  shows "map st_id (out_schedule out) = map ts_id tasks
    \<and> S_dispatched \<notin> st_state ` set (out_schedule out)
    \<and> (st_state ` set (out_schedule out) \<subseteq> {S_done, S_blocked}
       \<or> severity (out_exit out) \<le> severity EXIT_BUDGET)"
proof -
  obtain st :: "'w sched" and refusal workers where out: "out = conclude_schedule st refusal"
    and inv: "sched_inv tasks workers st"
    and ends: "refusal \<noteq> None \<and> s_inflight st = [] \<or> allTerminal (s_graph st)
       \<or> budget_halted st \<and> s_inflight st = []"
    by (rule runSchedule_end [OF assms])
  have gi: "graph_inv tasks (s_graph st)" using inv by (simp add: sched_inv_def)
  note f = snapshot_facts [OF gi]
  have s: "out_schedule out = snapshot (s_graph st)" by (simp add: out conclude_schedule_def Let_def)
  have terminal: "st_state t \<in> {S_done, S_blocked}"
    if "allTerminal (s_graph st)" "t \<in> set (snapshot (s_graph st))" for t
    using allTerminal_states [OF gi that(1)] f(2,3) [OF that(2)] by fastforce
  have "st_state t \<noteq> S_dispatched" if "t \<in> set (snapshot (s_graph st))" for t
  proof (cases "allTerminal (s_graph st)")
    case False
    then have "task_state (s_graph st) (st_id t) \<noteq> Some S_dispatched"
      using ends inv by (auto simp: sched_inv_def)
    then show ?thesis using f(2) [OF that] by auto
  qed (use terminal that in force)
  moreover have "st_state ` set (snapshot (s_graph st)) \<subseteq> {S_done, S_blocked}
      \<or> severity (out_exit out) \<le> severity EXIT_BUDGET"
    using terminal conclude_budget ends unfolding out by blast
  ultimately show ?thesis using f(1) unfolding s by (metis imageE)
qed

theorem runSchedule_complete_witness:
  "\<exists>out. runSchedule chain_tasks demo_io demo_opts 0 = Some (Inr out)
     \<and> map st_id (out_schedule out) = [''a'', ''b'', ''c'']"
proof -
  obtain out where out: "runSchedule chain_tasks demo_io demo_opts 0 = Some (Inr out)" by (rule demo_run)
  show ?thesis
    using runSchedule_complete [OF chain_ids chain_acyclic demo_workers out] out
    by (simp add: chain_tasks_def)
qed

text \<open>
  Exit 0 is never optimistic. When a schedule exits with success, every task of the list is
  done with the verdict success, and the budget refused nothing.
\<close>

theorem runSchedule_success:
  fixes io :: "'w scheduler_io"
  assumes "ids_ok tasks" and "acyclic (dep_edges tasks)"
    and "distinct (snd (io_listWorkers io w))"
    and "runSchedule tasks io opts w = Some (Inr out)" and "out_exit out = EXIT_SUCCESS"
  shows "map st_id (out_schedule out) = map ts_id tasks
    \<and> (\<lambda>s. (st_state s, st_verdict s)) ` set (out_schedule out) \<subseteq> {(S_done, Some Success)}
    \<and> out_budgetRefusal out = None"
proof -
  obtain st :: "'w sched" and refusal workers where out: "out = conclude_schedule st refusal"
    and inv: "sched_inv tasks workers st"
    by (rule runSchedule_end [OF assms(1-4)])
  have gi: "graph_inv tasks (s_graph st)" using inv by (simp add: sched_inv_def)
  have s: "out_schedule out = snapshot (s_graph st)" "out_budgetRefusal out = refusal"
    by (simp_all add: out conclude_schedule_def Let_def)
  have c: "\<forall>t \<in> set (snapshot (s_graph st)). st_verdict t = Some Success" "refusal = None"
    using assms(5) by (simp_all add: out conclude_success)
  then show ?thesis using snapshot_facts(1,4) [OF gi] by (auto simp: s)
qed

theorem runSchedule_success_witness:
  "\<exists>out. runSchedule chain_tasks demo_io demo_opts 0 = Some (Inr out) \<and> out_budgetRefusal out = None"
proof -
  obtain out where out: "runSchedule chain_tasks demo_io demo_opts 0 = Some (Inr out)"
    "out_exit out = EXIT_SUCCESS" by (rule demo_run)
  show ?thesis using runSchedule_success [OF chain_ids chain_acyclic demo_workers out] out by blast
qed

section \<open>Termination\<close>

text \<open>
  The clock the loop relies on: no call turns it back, and the sleep between two iterations takes
  at least its interval.
\<close>

definition steady_clock :: "'w scheduler_io \<Rightarrow> 'w schedule_opts \<Rightarrow> bool" where
  "steady_clock io opts \<longleftrightarrow>
     0 < poll_interval opts
     \<and> (\<forall>w w'. quiet io opts w w' \<longrightarrow> io_now io w \<le> io_now io w')
     \<and> (\<forall>v i w. io_now io w \<le> io_now io (fst (io_readSettled io v i w)))
     \<and> (\<forall>spec v i w. io_now io w \<le> io_now io (fst (io_dispatch io spec v i w)))
     \<and> (\<forall>w. io_now io w + poll_interval opts \<le> io_now io (io_sleep io (poll_interval opts) w))"

abbreviation "clock io st \<equiv> io_now io (s_world st)"

lemma quiets_clock:
  assumes "steady_clock io opts" and "quiets io opts w w'"
  shows "io_now io w \<le> io_now io w'"
  using assms(2)
proof (induction rule: rtranclp_induct)
  case (step a b)
  then show ?case using assms(1) by (meson order_trans steady_clock_def)
qed simp

lemma world_quiets:
  "quiets io opts (s_world st) (s_world (persistBudget opts st))"
  "quiets io opts (s_world st) (s_world (releaseHold opts i st))"
  "quiets io opts (s_world st) (s_world (settleBudget io opts i v st))"
proof -
  show p: "quiets io opts (s_world st) (s_world (persistBudget opts st))" for st :: "'a sched"
    by (auto simp: persistBudget_def intro: quiet_persist split: option.split)
  show "quiets io opts (s_world st) (s_world (releaseHold opts i st))"
    using p [of "st\<lparr>s_budget := Some b\<rparr>" for b]
    by (auto simp: releaseHold_def split: option.split prod.split bool.split)
  show "quiets io opts (s_world st) (s_world (settleBudget io opts i v st))"
  proof (cases "s_budget st")
    case (Some b)
    obtain w n where w: "(case io_taskTokens io of None \<Rightarrow> (s_world st, 0) | Some f \<Rightarrow> f v i (s_world st)) = (w, n)"
      by fastforce
    then have "quiets io opts (s_world st) w" by (auto split: option.splits intro: quiet_tokens)
    moreover have "quiets io opts w (s_world (settleBudget io opts i v st))"
      using p [of "st\<lparr>s_world := w, s_budget := Some (fst (settle (io_isoNow io w) b i n None))\<rparr>"]
      by (simp add: settleBudget_def Some w)
    ultimately show ?thesis by (rule rtranclp_trans)
  qed (simp add: settleBudget_def)
qed

lemma admit_task_quiets:
  "admit_task opts i st = (st', r) \<Longrightarrow> quiets io opts (s_world st) (s_world st')"
  using world_quiets(1) [of io opts "st\<lparr>s_budget := Some b\<rparr>" for b]
  by (auto simp: admit_task_def Let_def split: option.splits prod.splits if_splits)

lemma conclude_world: "conclude i x f r st = Inr st' \<Longrightarrow> s_world st' = s_world st"
  by (auto simp: conclude_def split: sum.splits)

lemma take_answer_quiets:
  "take_answer io opts spec v answer ps = Inr ps' \<Longrightarrow>
   quiets io opts (s_world (ps_state ps)) (s_world (ps_state ps'))"
proof (cases answer)
  case (Unreachable detail)
  then show "take_answer io opts spec v answer ps = Inr ps' \<Longrightarrow> ?thesis"
    using world_quiets(2) [of io opts "bury v (ps_state ps)" "ts_id spec"]
    by (auto simp: take_answer_def Let_def)
qed (auto simp: take_answer_def Let_def split: sum.splits dest!: conclude_world
       intro: world_quiets(3) [THEN subst [where P = "\<lambda>w. quiets io opts w _", rotated]])

lemma sched_step_clock:
  assumes sc: "steady_clock io opts" and s: "sched_step tasks io opts workers st st'"
  shows "clock io st \<le> clock io st'"
  using s
proof (cases rule: sched_step.cases)
  case (step_quiet w)
  then show ?thesis using quiets_clock [OF sc] by simp
next
  case (step_settled i v w x r st1)
  have "io_now io (s_world st) \<le> io_now io w"
    using sc step_settled(3) by (metis fst_conv steady_clock_def)
  also have "w = s_world st1" using conclude_world [OF step_settled(4)] by simp
  also have "io_now io (s_world st1) \<le> clock io st'"
    unfolding step_settled(1) by (rule quiets_clock [OF sc world_quiets(3)])
  finally show ?thesis .
next
  case (step_lost i v r st1)
  have "s_world st = s_world (bury v st1)" using conclude_world [OF step_lost(4)] by simp
  then show ?thesis
    using quiets_clock [OF sc world_quiets(3), of "bury v st1" i v] unfolding step_lost(1) by simp
next
  case (step_offer spec v st1 w answer ps ps')
  have "clock io st \<le> clock io st1" by (rule quiets_clock [OF sc admit_task_quiets [OF step_offer(8)]])
  also have "clock io st1 \<le> io_now io w"
    using sc step_offer(9) by (metis fst_conv steady_clock_def)
  also have "w = s_world (ps_state ps)" using step_offer(10) by simp
  also have "clock io (ps_state ps) \<le> clock io (ps_state ps')"
    by (rule quiets_clock [OF sc take_answer_quiets [OF step_offer(11)]])
  finally show ?thesis using step_offer(1) by simp
next
  case (step_threw spec v st1 w err)
  have "clock io st \<le> clock io st1" by (rule quiets_clock [OF sc admit_task_quiets [OF step_threw(8)]])
  also have "clock io st1 \<le> io_now io w"
    using sc step_threw(9) by (metis fst_conv steady_clock_def)
  also have "io_now io w \<le> clock io st'"
    using quiets_clock [OF sc world_quiets(2), of "st1\<lparr>s_world := w\<rparr>"] unfolding step_threw(1) by simp
  finally show ?thesis .
qed simp_all

lemma sched_steps_clock:
  assumes "steady_clock io opts" and "sched_steps tasks io opts workers st st'"
  shows "clock io st \<le> clock io st'"
  using assms(2)
proof (induction rule: rtranclp_induct)
  case (step a b)
  then show ?case using sched_step_clock [OF assms(1)] by (meson order_trans)
qed simp

text \<open>The iterations left before the stall timeout can no longer be waited out.\<close>

definition ticks :: "'w scheduler_io \<Rightarrow> 'w schedule_opts \<Rightarrow> rat \<Rightarrow> 'w sched \<Rightarrow> nat" where
  "ticks io opts timeout st =
     nat (\<lfloor>(timeout - (clock io st - s_lastProgress st)) / poll_interval opts\<rfloor> + 1)"

lemma ticks_mono:
  assumes "0 < poll_interval opts" and "clock io st \<le> clock io st'"
    and "s_lastProgress st' = s_lastProgress st"
  shows "ticks io opts timeout st' \<le> ticks io opts timeout st"
proof -
  have "(timeout - (clock io st' - s_lastProgress st')) / poll_interval opts
      \<le> (timeout - (clock io st - s_lastProgress st)) / poll_interval opts"
    using assms by (intro divide_right_mono) simp_all
  then show ?thesis unfolding ticks_def by (intro nat_mono add_right_mono floor_mono)
qed

lemma ticks_sleep:
  assumes sc: "steady_clock io opts" and t: "clock io st - s_lastProgress st \<le> timeout"
  shows "ticks io opts timeout (st\<lparr>s_world := io_sleep io (poll_interval opts) (s_world st)\<rparr>)
    < ticks io opts timeout st"
proof -
  let ?p = "poll_interval opts"
  let ?q = "(timeout - (clock io st - s_lastProgress st)) / ?p"
  have p: "0 < ?p" using sc by (simp add: steady_clock_def)
  have "clock io st + ?p \<le> io_now io (io_sleep io ?p (s_world st))"
    using sc by (simp add: steady_clock_def)
  then have "timeout - (io_now io (io_sleep io ?p (s_world st)) - s_lastProgress st)
      \<le> (timeout - (clock io st - s_lastProgress st)) - ?p" by simp
  then have "(timeout - (io_now io (io_sleep io ?p (s_world st)) - s_lastProgress st)) / ?p
      \<le> ((timeout - (clock io st - s_lastProgress st)) - ?p) / ?p"
    using p by (intro divide_right_mono) simp_all
  also have "\<dots> = ?q - 1" using p by (simp add: diff_divide_distrib)
  finally have "(timeout - (io_now io (io_sleep io ?p (s_world st)) - s_lastProgress st)) / ?p \<le> ?q - 1" .
  then have "\<lfloor>(timeout - (io_now io (io_sleep io ?p (s_world st)) - s_lastProgress st)) / ?p\<rfloor> \<le> \<lfloor>?q\<rfloor> - 1"
    by linarith
  moreover have "0 \<le> \<lfloor>?q\<rfloor>" using t p by simp
  ultimately show ?thesis by (simp add: ticks_def)
qed

lemma turned_again_decreases:
  assumes sc: "steady_clock io opts" and inv: "sched_inv tasks workers st"
    and t: "turned tasks io opts workers timeout st (Inr (Again st'))"
  shows "effort tasks workers st' < effort tasks workers st
    \<or> effort tasks workers st' = effort tasks workers st
      \<and> ticks io opts timeout st' < ticks io opts timeout st"
proof -
  obtain st1 where s: "sched_steps tasks io opts workers st st1"
    and c: "effort tasks workers st1 < effort tasks workers st
         \<and> st' = st1\<lparr>s_lastProgress := clock io st1\<rparr>
       \<or> clock io st1 - s_lastProgress st1 \<le> timeout
         \<and> st' = st1\<lparr>s_world := io_sleep io (poll_interval opts) (s_world st1)\<rparr>"
    using t by (auto simp: turned_def)
  have e: "effort tasks workers st' = effort tasks workers st1" using c by (auto simp: effort_def)
  have le: "effort tasks workers st1 \<le> effort tasks workers st" using sched_steps_inv [OF s inv] by simp
  from c show ?thesis
  proof
    assume "clock io st1 - s_lastProgress st1 \<le> timeout
      \<and> st' = st1\<lparr>s_world := io_sleep io (poll_interval opts) (s_world st1)\<rparr>"
    then have "ticks io opts timeout st' < ticks io opts timeout st1" using ticks_sleep [OF sc] by blast
    moreover have "ticks io opts timeout st1 \<le> ticks io opts timeout st"
      using sc sched_steps_clock [OF sc s] sched_steps_lastProgress [OF s]
      by (intro ticks_mono) (simp_all add: steady_clock_def)
    ultimately show ?thesis using e le by linarith
  qed (use e in simp)
qed

lemma sched_loop_returns:
  assumes sc: "steady_clock io opts" and d: "distinct workers" and "sched_inv tasks workers st"
  shows "sched_loop io opts win workers timeout st \<noteq> None"
  using assms(3)
proof (induction st rule: wf_induct_rule
    [OF wf_measures [of "[effort tasks workers, ticks io opts timeout]"]])
  case (1 st)
  note t = turn_once_steps [OF 1(2) d, of io opts timeout win]
  show ?case
  proof (cases "\<exists>st'. turn_once io opts win workers timeout st = Inr (Again st')")
    case True
    then obtain st' where a: "turn_once io opts win workers timeout st = Inr (Again st')" by blast
    have t': "turned tasks io opts workers timeout st (Inr (Again st'))" using t a by simp
    have "sched_loop io opts win workers timeout st' \<noteq> None"
    proof (rule 1(1))
      show "(st', st) \<in> measures [effort tasks workers, ticks io opts timeout]"
        using turned_again_decreases [OF sc 1(2) t'] by auto
      show "sched_inv tasks workers st'"
        by (rule sched_moves_inv [OF turned_again_moves [OF t'] 1(2)])
    qed
    then show ?thesis by (subst sched_loop.simps) (simp add: a)
  next
    case False
    then show ?thesis
      by (subst sched_loop.simps) (auto split: sum.splits turn.splits)
  qed
qed

text \<open>
  C3: the scheduler returns. For a task list that passed validation and a clock that goes on (no
  call turns it back, a sleep takes its interval), \<open>runSchedule\<close> always ends, with a report or an
  error, whatever the workers, the supervisors and the dispatch calls answer.
\<close>

theorem runSchedule_returns:
  assumes "ids_ok tasks" and "acyclic (dep_edges tasks)"
    and "distinct (snd (io_listWorkers io w))" and "steady_clock io opts"
  shows "\<exists>res. runSchedule tasks io opts w = Some res"
proof (cases rule: runSchedule_cases [OF assms(1-3), where opts = opts, case_names refused looped])
  case (looped win workers timeout g w2)
  have "sched_loop io opts win workers timeout (initial_sched io opts g (io_now io w) w2) \<noteq> None"
    by (rule sched_loop_returns [OF assms(4) looped(3,4)])
  then show ?thesis unfolding looped(5) by (auto split: sum.splits)
qed auto

text \<open>A fleet that accepts the first task and never reports on it.\<close>

definition silent_io :: "rat scheduler_io" where
  "silent_io = demo_io\<lparr>io_readSettled := (\<lambda>v i w. (w, None))\<rparr>"

lemma silent_steady: "steady_clock silent_io demo_opts"
proof -
  have "io_now silent_io w \<le> io_now silent_io w'" if "quiet silent_io demo_opts w w'" for w w'
    using that by (cases rule: quiet.cases)
      (auto simp: silent_io_def demo_io_def demo_opts_def poll_interval_def)
  then show ?thesis
    by (simp add: steady_clock_def) (simp add: silent_io_def demo_io_def demo_opts_def poll_interval_def)
qed

theorem runSchedule_returns_witness: "\<exists>res. runSchedule chain_tasks silent_io demo_opts 0 = Some res"
  by (rule runSchedule_returns [OF chain_ids chain_acyclic _ silent_steady])
    (simp add: silent_io_def demo_io_def)

end
