(* ===== verification/Schedule_Calls.thy ===== *)
theory Schedule_Calls
  imports Schedule_Runs
begin

text \<open>
  What the outside sees of a schedule: the sequence of dispatch calls with their answers and of
  settlement records read. A log of these calls is lawful when every dispatch came after all its
  task's dependencies were reported with a satisfying verdict, was not a repeat of a task some
  worker had already taken, and went to a worker free to take it. The interface \<open>witnessed_io\<close> is
  a world that keeps such a log; wrapping any world in a log provides it.
\<close>

section \<open>The log and its law\<close>

datatype call =
  Offered task_spec worker_id "string + dispatch_answer"
| Reported task_id worker_id verdict string

text \<open>The verdicts the log holds for a task: records read, and answers that it had completed.\<close>

fun call_verdict :: "task_id \<Rightarrow> call \<Rightarrow> verdict option" where
  "call_verdict i (Reported j _ x _) = (if j = i then Some x else None)"
| "call_verdict i (Offered spec _ (Inr (Completed_already x))) = (if ts_id spec = i then Some x else None)"
| "call_verdict i (Offered _ _ _) = None"

definition verdicts_of :: "call list \<Rightarrow> task_id \<Rightarrow> verdict list" where
  "verdicts_of hist i = List.map_filter (call_verdict i) hist"

fun may_retry :: "string + dispatch_answer \<Rightarrow> bool" where
  "may_retry (Inl _) = True"
| "may_retry (Inr (Unreachable _)) = True"
| "may_retry (Inr _) = False"

definition reported_on :: "call list \<Rightarrow> task_id \<Rightarrow> worker_id \<Rightarrow> bool" where
  "reported_on hist i v \<longleftrightarrow>
     list_ex (\<lambda>c. case c of Reported j u _ _ \<Rightarrow> j = i \<and> u = v | _ \<Rightarrow> False) hist"

text \<open>Whether an earlier call leaves this task to be offered, and this worker free.\<close>

fun call_allows :: "call list \<Rightarrow> task_id \<Rightarrow> worker_id \<Rightarrow> call \<Rightarrow> bool" where
  "call_allows hist i v (Offered spec u a) \<longleftrightarrow>
     (ts_id spec = i \<longrightarrow> may_retry a)
     \<and> (u = v \<longrightarrow>
          (case a of
             Inr (Unreachable _) \<Rightarrow> False
           | Inr Accepted \<Rightarrow> reported_on hist (ts_id spec) v
           | _ \<Rightarrow> True))"
| "call_allows hist i v (Reported _ _ _ _) \<longleftrightarrow> True"

definition offer_ok :: "task_spec \<Rightarrow> worker_id \<Rightarrow> call list \<Rightarrow> bool" where
  "offer_ok spec v hist \<longleftrightarrow>
     list_all (\<lambda>d. list_ex dependencySatisfied (verdicts_of hist d)) (ts_depends_on spec)
     \<and> (\<forall>pin. ts_worker spec = Some pin \<longrightarrow> v = pin)
     \<and> list_all (call_allows hist (ts_id spec) v) hist"

text \<open>The law of a log, newest call first.\<close>

fun lawful :: "call list \<Rightarrow> bool" where
  "lawful [] \<longleftrightarrow> True"
| "lawful (Offered spec v _ # hist) \<longleftrightarrow> offer_ok spec v hist \<and> lawful hist"
| "lawful (Reported _ _ _ _ # hist) \<longleftrightarrow> lawful hist"

lemma verdicts_of_Cons [simp]:
  "x \<in> set (verdicts_of (c # hist) i) \<longleftrightarrow> call_verdict i c = Some x \<or> x \<in> set (verdicts_of hist i)"
  by (cases "call_verdict i c") (auto simp: verdicts_of_def map_filter_simps)

lemma reported_on_Cons [simp]:
  "reported_on (c # hist) i v \<longleftrightarrow>
     (case c of Reported j u _ _ \<Rightarrow> j = i \<and> u = v | _ \<Rightarrow> False) \<or> reported_on hist i v"
  by (simp add: reported_on_def)

section \<open>How the memory answers for the log\<close>

definition settled_facts :: "task_graph \<Rightarrow> (task_id \<times> verdict) set" where
  "settled_facts g = {(i, x). \<exists>n. g_nodes g i = Some n \<and> n_state n = S_done \<and> n_verdict n = Some x}"

definition taken :: "task_graph \<Rightarrow> task_id \<Rightarrow> bool" where
  "taken g i \<longleftrightarrow> task_state g i = Some S_dispatched \<or> task_state g i = Some S_done"

fun call_answered :: "'w sched \<Rightarrow> call list \<Rightarrow> call \<Rightarrow> bool" where
  "call_answered st hist (Offered spec v a) \<longleftrightarrow>
     (may_retry a \<or> taken (s_graph st) (ts_id spec))
     \<and> (case a of
          Inr (Unreachable _) \<Rightarrow> v \<in> set (s_dead st)
        | Inr Accepted \<Rightarrow> (ts_id spec, v) \<in> set (s_inflight st) \<or> v \<in> set (s_dead st)
            \<or> reported_on hist (ts_id spec) v
        | _ \<Rightarrow> True)"
| "call_answered st hist (Reported _ _ _ _) \<longleftrightarrow> True"

definition facts_reported :: "'w sched \<Rightarrow> call list \<Rightarrow> bool" where
  "facts_reported st hist \<longleftrightarrow>
     (\<forall>(i, x) \<in> settled_facts (s_graph st). dependencySatisfied x \<longrightarrow> x \<in> set (verdicts_of hist i))"

definition log_inv :: "'w sched \<Rightarrow> call list \<Rightarrow> bool" where
  "log_inv st hist \<longleftrightarrow> lawful hist \<and> facts_reported st hist \<and> (\<forall>c \<in> set hist. call_answered st hist c)"

lemma facts_mono:
  "facts_reported st hist \<Longrightarrow> settled_facts (s_graph st') \<subseteq> settled_facts (s_graph st) \<Longrightarrow>
   facts_reported st' (cs @ hist)"
  by (induction cs) (force simp: facts_reported_def)+

text \<open>A memory that has grown still answers for the calls of the log.\<close>

lemma call_answered_mono:
  assumes "call_answered st hist c"
    and "\<And>i. taken (s_graph st) i \<Longrightarrow> taken (s_graph st') i"
    and "set (s_dead st) \<subseteq> set (s_dead st')"
    and "\<And>i v. (i, v) \<in> set (s_inflight st) \<Longrightarrow>
           (i, v) \<in> set (s_inflight st') \<or> v \<in> set (s_dead st') \<or> reported_on hist' i v"
    and "\<And>i v. reported_on hist i v \<Longrightarrow> reported_on hist' i v"
  shows "call_answered st' hist' c"
proof (cases c)
  case (Offered spec v a)
  show ?thesis
    using assms(1,3) assms(2) [of "ts_id spec"] assms(4,5) [of "ts_id spec" v]
    by (auto simp: Offered split: sum.splits dispatch_answer.splits)
qed simp

text \<open>A dispatch the scheduler makes is one the log allows.\<close>

lemma offer_lawful:
  assumes inv: "sched_inv tasks workers st" and hist: "log_inv st hist"
    and t: "spec \<in> set tasks" and r: "task_state (s_graph st) (ts_id spec) = Some S_ready"
    and v: "v \<notin> set (s_dead st)" "v \<notin> snd ` set (s_inflight st)"
    and pin: "\<forall>pin. ts_worker spec = Some pin \<longrightarrow> v = pin"
  shows "offer_ok spec v hist"
proof -
  have gi: "graph_inv tasks (s_graph st)" using inv by (simp add: sched_inv_def)
  have "list_ex dependencySatisfied (verdicts_of hist d)" if d: "d \<in> set (ts_depends_on spec)" for d
  proof -
    obtain n where n: "g_nodes (s_graph st) d = Some n" "n_state n = S_done"
      "dependencySatisfied (the (n_verdict n))"
      using ready_deps_ok [OF gi r t d] by (auto simp: dep_ok_def split: option.splits)
    moreover obtain x where "n_verdict n = Some x"
      using graph_inv_node [OF gi n(1)] n(2) by (auto simp: node_ok_def)
    ultimately have "(d, x) \<in> settled_facts (s_graph st)" "dependencySatisfied x"
      by (auto simp: settled_facts_def)
    then show ?thesis using hist by (fastforce simp: log_inv_def facts_reported_def list_ex_iff)
  qed
  moreover have "call_allows hist (ts_id spec) v c" if c: "c \<in> set hist" for c
  proof (cases c)
    case (Offered s u a)
    have "call_answered st hist c" using hist c by (simp add: log_inv_def)
    then show ?thesis using r v
      by (auto simp: Offered taken_def image_iff split: sum.splits dispatch_answer.splits)
  qed simp
  ultimately show ?thesis using pin by (simp add: offer_ok_def list_all_iff)
qed

lemma conclude_facts:
  assumes inv: "sched_inv tasks workers st" and live: "live_state (task_state (s_graph st) i)"
    and c: "conclude i x f r st = Inr st'"
  shows "settled_facts (s_graph st') \<subseteq> insert (i, x) (settled_facts (s_graph st))"
    and "taken (s_graph st') i" and "taken (s_graph st) j \<Longrightarrow> taken (s_graph st') j"
proof -
  have gi: "graph_inv tasks (s_graph st)" using inv by (simp add: sched_inv_def)
  have m: "markSettled (s_graph st) i x f = Inr (s_graph st')"
    using c by (auto simp: conclude_def split: sum.splits)
  have gi': "graph_inv tasks (s_graph st')"
    using conclude_inv(1) [OF inv live c] by (simp add: sched_inv_def)
  show "settled_facts (s_graph st') \<subseteq> insert (i, x) (settled_facts (s_graph st))"
  proof
    fix p assume "p \<in> settled_facts (s_graph st')"
    then obtain j y k where p: "p = (j, y)"
      and k: "g_nodes (s_graph st') j = Some k" "n_state k = S_done" "n_verdict k = Some y"
      by (auto simp: settled_facts_def)
    obtain n where n: "g_nodes (s_graph st) j = Some n" using graph_inv_same_dom [OF gi' gi k(1)] by blast
    show "p \<in> insert (i, x) (settled_facts (s_graph st))"
    proof (cases "j = i")
      case True
      then have "k = settle_node x f n" using markSettled_nodes [OF m n] k(1) by simp
      then show ?thesis using k(3) p True by (auto simp: settle_node_def Let_def split: option.splits prod.splits)
    next
      case False
      have "\<not> open_state (n_state k)" using k(2) by (simp add: open_state_def)
      then have "k = n" using markSettled_nodes [OF m n] k(1) False by auto
      then show ?thesis using k n p by (auto simp: settled_facts_def)
    qed
  qed
  have s: "task_state (s_graph st') i = Some S_done"
    "\<And>j. j \<noteq> i \<Longrightarrow> task_state (s_graph st) j \<noteq> Some S_waiting \<Longrightarrow>
       task_state (s_graph st') j = task_state (s_graph st) j"
    using board.settle_live [OF gi live, of x f] m by auto
  show "taken (s_graph st') i" using s(1) by (simp add: taken_def)
  show "taken (s_graph st') j" if "taken (s_graph st) j"
    using that s(1) s(2) [of j] by (cases "j = i") (auto simp: taken_def)
qed

lemma dispatch_facts:
  assumes "markDispatched g i v t = Inr g'"
  shows "settled_facts g' \<subseteq> settled_facts g" and "taken g' i" and "taken g j \<Longrightarrow> taken g' j"
  using assms
  by (auto simp: markDispatched_def settled_facts_def taken_def task_state_def
      split: option.splits if_splits)

lemma log_inv_cong:
  assumes "log_inv st hist" and "s_graph st' = s_graph st" and "s_inflight st' = s_inflight st"
    and "set (s_dead st) \<subseteq> set (s_dead st')"
  shows "log_inv st' hist"
proof -
  have "call_answered st' hist c" if "call_answered st hist c" for c
    by (rule call_answered_mono [OF that]) (use assms in auto)
  then show ?thesis using assms by (simp add: log_inv_def facts_reported_def)
qed

lemma log_inv_verdict:
  "log_inv st hist \<Longrightarrow> (i, x) \<in> settled_facts (s_graph st) \<Longrightarrow> dependencySatisfied x \<Longrightarrow>
   x \<in> set (verdicts_of hist i)"
  by (auto simp: log_inv_def facts_reported_def)

text \<open>A task settled with the verdict of a record just read, or lost with its worker.\<close>

lemma log_inv_conclude:
  assumes inv: "sched_inv tasks workers st" and m: "(i, v) \<in> set (s_inflight st)"
    and h: "log_inv st hist" and c: "conclude i x f r st = Inr st'"
  shows "log_inv st' (Reported i v x r # hist)"
    and "x = Unknown \<Longrightarrow> log_inv (bury v st') hist"
proof -
  note live = inflight_live [OF inv m]
  note cf = conclude_facts [OF inv live c] and ci = conclude_inv [OF inv live c]
  have one: "u = v" if "(i, u) \<in> set (s_inflight st)" for u
    using that m inv by (metis map_of_eq_Some_iff option.inject sched_inv_def)
  have keep: "(j, u) \<in> set (s_inflight st') \<or> (j, u) = (i, v)" if "(j, u) \<in> set (s_inflight st)" for j u
    using that one [of u] by (cases "j = i") (simp_all add: ci(3) set_delete)
  have "call_answered st' (Reported i v x r # hist) c" if "call_answered st hist c" for c
  proof (rule call_answered_mono [OF that cf(3)])
    show "(j, u) \<in> set (s_inflight st') \<or> u \<in> set (s_dead st') \<or> reported_on (Reported i v x r # hist) j u"
      if "(j, u) \<in> set (s_inflight st)" for j u
      using keep [OF that] by (elim disjE) simp_all
  qed (simp_all add: ci(4))
  moreover have "facts_reported st' (Reported i v x r # hist)"
    unfolding facts_reported_def
  proof (intro ballI, clarify)
    fix j y assume "(j, y) \<in> settled_facts (s_graph st')" and y: "dependencySatisfied y"
    then have "(j, y) = (i, x) \<or> (j, y) \<in> settled_facts (s_graph st)" using cf(1) by blast
    then show "y \<in> set (verdicts_of (Reported i v x r # hist) j)"
    proof
      assume "(j, y) \<in> settled_facts (s_graph st)"
      then show ?thesis using log_inv_verdict [OF h _ y] by simp
    qed simp
  qed
  ultimately show "log_inv st' (Reported i v x r # hist)"
    using h by (simp add: log_inv_def)
  show "log_inv (bury v st') hist" if "x = Unknown"
  proof -
    have "call_answered (bury v st') hist c" if "call_answered st hist c" for c
    proof (rule call_answered_mono [OF that])
      show "(j, u) \<in> set (s_inflight (bury v st')) \<or> u \<in> set (s_dead (bury v st')) \<or> reported_on hist j u"
        if "(j, u) \<in> set (s_inflight st)" for j u
        using keep [OF that] by (elim disjE) simp_all
    qed (auto simp: ci(4) intro: cf(3))
    moreover have "facts_reported (bury v st') hist"
      using h cf(1) that by (force simp: log_inv_def facts_reported_def dependencySatisfied_def)
    ultimately show ?thesis using h by (simp add: log_inv_def)
  qed
qed

text \<open>A dispatch answered.\<close>

lemma log_inv_answer:
  assumes inv: "sched_inv tasks workers st" and r: "task_state (s_graph st) (ts_id spec) = Some S_ready"
    and v: "v \<in> set workers" "v \<notin> set (s_dead st)" "v \<notin> snd ` set (s_inflight st)"
    and h: "log_inv st hist" and ok: "offer_ok spec v hist" and ps: "ps_state ps = st"
    and t: "take_answer io opts spec v answer ps = Inr ps'"
  shows "log_inv (ps_state ps') (Offered spec v (Inr answer) # hist)"
proof -
  let ?i = "ts_id spec"
  have live: "live_state (task_state (s_graph st) ?i)" using r by (simp add: live_state_def)
  have undispatched: "(?i, u) \<notin> set (s_inflight st)" for u
  proof
    assume "(?i, u) \<in> set (s_inflight st)"
    then have "task_state (s_graph st) ?i = Some S_dispatched"
      using inv by (force simp: sched_inv_def)
    then show False using r by simp
  qed
  let ?h = "Offered spec v (Inr answer) # hist"
  have law: "lawful ?h" using h ok by (simp add: log_inv_def)
  have concluded: "log_inv (settleBudget io opts ?i v st') ?h"
    if c: "conclude ?i x f reason st = Inr st'"
      and x: "dependencySatisfied x \<Longrightarrow> answer = Completed_already x"
      and a: "answer \<noteq> Accepted" "\<not> may_retry (Inr answer)" for x f reason st'
  proof -
    note cf = conclude_facts [OF inv live c] and ci = conclude_inv [OF inv live c]
    have "call_answered st' ?h c" if "call_answered st hist c" for c
      by (rule call_answered_mono [OF that cf(3)])
        (use ci(3,4) undispatched in \<open>auto simp: set_delete\<close>)
    moreover have "call_answered st' ?h (Offered spec v (Inr answer))"
      using a cf(2) by (cases answer) auto
    moreover have "facts_reported st' ?h"
      using h cf(1) x by (fastforce simp: log_inv_def facts_reported_def)
    ultimately have "log_inv st' ?h" using h law by (simp add: log_inv_def)
    then show ?thesis by (rule log_inv_cong) simp_all
  qed
  show ?thesis
  proof (cases answer)
    case Accepted
    obtain g where g: "markDispatched (s_graph st) ?i v ?i = Inr g"
      and s: "ps_state ps' = st\<lparr>s_graph := g, s_inflight := AList.update ?i v (s_inflight st)\<rparr>"
      using t ps Accepted by (auto simp: take_answer_def Let_def split: sum.splits)
    note df = dispatch_facts [OF g] and acc = sched_inv_accept(2) [OF inv r v g]
    have "call_answered (ps_state ps') ?h c" if "call_answered st hist c" for c
      by (rule call_answered_mono [OF that]) (use df(3) acc in \<open>auto simp: s\<close>)
    moreover have "call_answered (ps_state ps') ?h (Offered spec v (Inr answer))"
      using df(2) acc by (simp add: s Accepted)
    moreover have "facts_reported (ps_state ps') ?h"
      using h df(1) by (force simp: log_inv_def facts_reported_def s)
    ultimately show ?thesis using h law by (simp add: log_inv_def)
  next
    case (Unreachable d)
    have s: "ps_state ps' = releaseHold opts ?i (bury v st)"
      using t ps Unreachable by (auto simp: take_answer_def Let_def)
    have "call_answered (ps_state ps') ?h c" if "call_answered st hist c" for c
      by (rule call_answered_mono [OF that]) (auto simp: s)
    moreover have "call_answered (ps_state ps') ?h (Offered spec v (Inr answer))"
      by (simp add: s Unreachable)
    moreover have "facts_reported (ps_state ps') ?h"
      using h by (force simp: log_inv_def facts_reported_def s)
    ultimately show ?thesis using h law by (simp add: log_inv_def)
  next
    case (Completed_already x)
    obtain st' where c: "conclude ?i x (Some (v, ?i)) ''already_completed'' st = Inr st'"
      and s: "ps_state ps' = settleBudget io opts ?i v st'"
      using t ps Completed_already by (auto simp: take_answer_def Let_def split: sum.splits)
    show ?thesis unfolding s by (rule concluded [OF c]) (simp_all add: Completed_already)
  next
    case (Rejected reason)
    obtain st' where c: "conclude ?i Failed (Some (v, ?i)) reason st = Inr st'"
      and s: "ps_state ps' = settleBudget io opts ?i v st'"
      using t ps Rejected by (auto simp: take_answer_def Let_def split: sum.splits)
    show ?thesis unfolding s
      by (rule concluded [OF c]) (simp_all add: Rejected dependencySatisfied_def)
  next
    case (In_doubt detail)
    obtain st' where c: "conclude ?i Unknown (Some (v, ?i)) (''dispatch outcome unknown: '' @ detail) st
        = Inr st'" and s: "ps_state ps' = settleBudget io opts ?i v st'"
      using t ps In_doubt by (auto simp: take_answer_def Let_def split: sum.splits)
    show ?thesis unfolding s
      by (rule concluded [OF c]) (simp_all add: In_doubt dependencySatisfied_def)
  qed
qed

section \<open>A world that keeps the log\<close>

locale witnessed_io =
  fixes io :: "'w scheduler_io" and opts :: "'w schedule_opts" and seen :: "'w \<Rightarrow> call list"
  assumes seen_quiet: "quiet io opts w w' \<Longrightarrow> seen w' = seen w"
    and seen_settled: "io_readSettled io v i w = (w', Some (x, r)) \<Longrightarrow> seen w' = Reported i v x r # seen w"
    and seen_dispatch: "io_dispatch io spec v i w = (w', a) \<Longrightarrow> seen w' = Offered spec v a # seen w"
begin

lemma seen_quiets: "quiets io opts w w' \<Longrightarrow> seen w' = seen w"
  by (induction rule: rtranclp_induct) (auto dest: seen_quiet)

lemma seen_step:
  assumes s: "sched_step tasks io opts workers st st'" and inv: "sched_inv tasks workers st"
    and h: "log_inv st (seen (s_world st))"
  shows "log_inv st' (seen (s_world st'))"
  using s
proof (cases rule: sched_step.cases)
  case (step_quiet w)
  then show ?thesis using h seen_quiets [OF step_quiet(2)] by (simp add: log_inv_cong [OF h])
next
  case (step_warned x)
  then show ?thesis by (simp add: log_inv_cong [OF h])
next
  case (step_bury v)
  then show ?thesis by (simp add: log_inv_cong [OF h] subset_insertI)
next
  case (step_settled i v w x r st1)
  have inv1: "sched_inv tasks workers (st\<lparr>s_world := w\<rparr>)"
    by (rule sched_inv_cong [OF inv]) simp_all
  have h1: "log_inv (st\<lparr>s_world := w\<rparr>) (seen (s_world st))" by (rule log_inv_cong [OF h]) simp_all
  have m: "(i, v) \<in> set (s_inflight (st\<lparr>s_world := w\<rparr>))" using step_settled(2) by simp
  have "log_inv st1 (Reported i v x r # seen (s_world st))"
    by (rule log_inv_conclude(1) [OF inv1 m h1 step_settled(4)])
  moreover have "seen (s_world st') = Reported i v x r # seen (s_world st)"
    using seen_quiets [OF world_quiets(3) [where st = st1 and i = i and v = v]] conclude_world [OF step_settled(4)]
      seen_settled [OF step_settled(3)] step_settled(1) by simp
  ultimately have "log_inv st1 (seen (s_world st'))" by simp
  then show ?thesis unfolding step_settled(1) by (rule log_inv_cong) simp_all
next
  case (step_lost i v r st1)
  have "log_inv (bury v st1) (seen (s_world st))"
    by (rule log_inv_conclude(2) [OF inv step_lost(2) h step_lost(4)]) simp
  moreover have "seen (s_world st') = seen (s_world st)"
    using seen_quiets [OF world_quiets(3) [where st = "bury v st1" and i = i and v = v]] conclude_world [OF step_lost(4)]
      step_lost(1) by simp
  ultimately have "log_inv (bury v st1) (seen (s_world st'))" by simp
  then show ?thesis unfolding step_lost(1) by (rule log_inv_cong) simp_all
next
  case (step_offer spec v st1 w answer ps ps')
  note fr = admit_task_frame [OF step_offer(8)]
  let ?st = "st1\<lparr>s_world := w\<rparr>"
  have inv1: "sched_inv tasks workers ?st" by (rule sched_inv_cong [OF inv]) (simp_all add: fr)
  have h1: "log_inv ?st (seen (s_world st))" by (rule log_inv_cong [OF h]) (simp_all add: fr)
  have ok: "offer_ok spec v (seen (s_world st))"
    by (rule offer_lawful [OF inv h step_offer(2,3,5,6,7)])
  have "seen (s_world (ps_state ps')) = Offered spec v (Inr answer) # seen (s_world st)"
    using seen_quiets [OF take_answer_quiets [OF step_offer(11)]] seen_dispatch [OF step_offer(9)]
      seen_quiets [OF admit_task_quiets [OF step_offer(8)]] step_offer(10) by simp
  moreover have "log_inv (ps_state ps') (Offered spec v (Inr answer) # seen (s_world st))"
    by (rule log_inv_answer [OF inv1 _ step_offer(4) _ _ h1 ok step_offer(10,11)])
      (use step_offer(3,5,6) in \<open>simp_all add: fr\<close>)
  ultimately show ?thesis using step_offer(1) by simp
next
  case (step_threw spec v st1 w err)
  note fr = admit_task_frame [OF step_threw(8)]
  have ok: "offer_ok spec v (seen (s_world st))"
    by (rule offer_lawful [OF inv h step_threw(2,3,5,6,7)])
  have "seen (s_world st') = Offered spec v (Inl err) # seen (s_world st)"
    using seen_quiets [OF world_quiets(2) [where st = "st1\<lparr>s_world := w\<rparr>"]] seen_dispatch [OF step_threw(9)]
      seen_quiets [OF admit_task_quiets [OF step_threw(8)]] step_threw(1) by simp
  moreover have "log_inv st (Offered spec v (Inl err) # seen (s_world st))"
  proof -
    have "call_answered st (Offered spec v (Inl err) # seen (s_world st)) c"
      if "call_answered st (seen (s_world st)) c" for c
      by (rule call_answered_mono [OF that]) auto
    then show ?thesis using h ok by (auto simp: log_inv_def facts_reported_def)
  qed
  ultimately have "log_inv st (seen (s_world st'))" by simp
  then show ?thesis unfolding step_threw(1) by (rule log_inv_cong) (simp_all add: fr)
qed

lemma seen_moves:
  assumes "sched_moves tasks io opts workers st st'" and "sched_inv tasks workers st"
    and "log_inv st (seen (s_world st))"
  shows "log_inv st' (seen (s_world st'))"
  using assms
proof (induction rule: rtranclp_induct)
  case (step a b)
  note inv = sched_moves_inv [OF step.hyps(1) step.prems(1)]
  from step.hyps(2) step.IH [OF step.prems] show ?case
  proof (cases rule: sched_move.cases)
    case move_step
    then show ?thesis using seen_step [OF _ inv step.IH [OF step.prems]] by blast
  next
    case move_stamp
    then show ?thesis using step.IH [OF step.prems] by (auto intro: log_inv_cong)
  qed
qed simp

end

text \<open>Any world, with a log beside it.\<close>

fun beside :: "call list \<Rightarrow> 'w \<times> 'a \<Rightarrow> ('w \<times> call list) \<times> 'a" where
  "beside hist (w, a) = ((w, hist), a)"

definition logged :: "'w scheduler_io \<Rightarrow> ('w \<times> call list) scheduler_io" where
  "logged io =
     \<lparr>io_listWorkers = (\<lambda>(w, h). beside h (io_listWorkers io w)),
      io_workerHealth = (\<lambda>v (w, h). beside h (io_workerHealth io v w)),
      io_dispatch = (\<lambda>spec v i (w, h).
        let (w', a) = io_dispatch io spec v i w in ((w', Offered spec v a # h), a)),
      io_readSettled = (\<lambda>v i (w, h).
        case io_readSettled io v i w of
          (w', Some (x, r)) \<Rightarrow> ((w', Reported i v x r # h), Some (x, r))
        | (w', None) \<Rightarrow> ((w', h), None)),
      io_taskTokens = map_option (\<lambda>f v i (w, h). beside h (f v i w)) (io_taskTokens io),
      io_eventSilenceMs = map_option (\<lambda>f v (w, h). beside h (f v w)) (io_eventSilenceMs io),
      io_killWedged = map_option (\<lambda>f v i (w, h). (f v i w, h)) (io_killWedged io),
      io_paneMode = map_option (\<lambda>f v (w, h). beside h (f v w)) (io_paneMode io),
      io_sleep = (\<lambda>ms (w, h). (io_sleep io ms w, h)),
      io_now = (\<lambda>(w, h). io_now io w), io_isoNow = (\<lambda>(w, h). io_isoNow io w)\<rparr>"

definition logged_opts :: "'w schedule_opts \<Rightarrow> ('w \<times> call list) schedule_opts" where
  "logged_opts opts =
     \<lparr>so_pollMs = so_pollMs opts, so_onChange = (\<lambda>s (w, h). (so_onChange opts s w, h)),
      so_stallTimeoutMs = so_stallTimeoutMs opts, so_budget = so_budget opts,
      so_maxConcurrent = so_maxConcurrent opts, so_reserveTokens = so_reserveTokens opts,
      so_persist = (\<lambda>b (w, h). (so_persist opts b w, h)), so_stall = so_stall opts,
      so_onStallWarn = (\<lambda>v i ms (w, h). (so_onStallWarn opts v i ms w, h))\<rparr>"

lemma snd_beside [simp]: "beside h p = ((w', h'), a) \<longleftrightarrow> h' = h \<and> p = (w', a)"
  by (cases p) auto

interpretation witnessed: witnessed_io "logged io" "logged_opts opts" snd for io opts
proof unfold_locales
  fix w w' :: "'a \<times> call list"
  show "snd w' = snd w" if "quiet (logged io) (logged_opts opts) w w'"
    using that by (cases rule: quiet.cases; cases w; cases w')
      (auto simp: logged_def logged_opts_def split: prod.splits option.splits)
qed (auto simp: logged_def split: prod.splits option.splits)

section \<open>The calls of a schedule are lawful\<close>

lemma initial_log_inv:
  assumes "\<And>i. task_state g i \<noteq> Some S_done"
  shows "log_inv (initial_sched io opts g started w) []"
proof -
  have "settled_facts g = {}"
    using assms by (auto simp: settled_facts_def task_state_def)
  then show ?thesis by (simp add: log_inv_def facts_reported_def initial_sched_def)
qed

text \<open>
  C2: the calls of a schedule are lawful. However the workers answer, and also when the schedule
  ends in an error, every dispatch call it made came after a satisfying verdict had been read for
  each of the task's dependencies, went to the worker the task is pinned to if it is pinned, did
  not repeat a task that some worker had taken (only one answered unreachable), and went to a
  worker that had not been found unreachable and had been seen to finish every task it accepted.
\<close>

theorem schedule_calls_lawful:
  fixes io :: "'w scheduler_io"
  assumes "ids_ok tasks" and "acyclic (dep_edges tasks)" and "new_graph tasks tui = Inr g"
    and "distinct workers"
    and "sched_loop (logged io) (logged_opts opts) win workers timeout
           (initial_sched (logged io) (logged_opts opts) g started (w, [])) = Some res"
  shows "lawful (snd (s_world (end_state res)))"
proof -
  let ?st = "initial_sched (logged io) (logged_opts opts) g started (w, [])"
  note inv = initial_sched_inv [OF new_graph_inv [OF assms(1-3)] new_graph_fresh(1) [OF assms(1,3)]]
  have undone: "task_state g i \<noteq> Some S_done" for i by (rule new_graph_fresh(2) [OF assms(1,3)])
  have "snd (s_world ?st) = []"
    by (simp add: initial_sched_def persistBudget_def announce_change_def logged_opts_def split: option.split)
  then have "log_inv ?st (snd (s_world ?st))" using initial_log_inv [OF undone] by simp
  then have "log_inv (end_state res) (snd (s_world (end_state res)))"
    by (rule witnessed.seen_moves [OF sched_loop_moves [OF assms(5) inv assms(4)] inv])
  then show ?thesis by (simp add: log_inv_def)
qed

definition demo_calls :: "call list" where
  "demo_calls =
     (case sched_loop (logged demo_io) (logged_opts demo_opts) None [''w1'', ''w2''] 5000
             (initial_sched (logged demo_io) (logged_opts demo_opts) chain_graph 0 (0, [])) of
        Some res \<Rightarrow> snd (s_world (end_state res)) | None \<Rightarrow> [])"

lemma demo_calls_value: "length demo_calls = 6" "hd demo_calls = Reported ''c'' ''w1'' Success ''agent_end''"
  by code_simp+

theorem schedule_calls_lawful_witness: "lawful demo_calls \<and> length demo_calls = 6"
proof -
  obtain res where r: "sched_loop (logged demo_io) (logged_opts demo_opts) None [''w1'', ''w2''] 5000
      (initial_sched (logged demo_io) (logged_opts demo_opts) chain_graph 0 (0, [])) = Some res"
    using demo_calls_value(1) by (auto simp: demo_calls_def split: option.splits)
  have "lawful (snd (s_world (end_state res)))"
    by (rule schedule_calls_lawful [OF chain_ids chain_acyclic chain_new _ r]) simp
  then show ?thesis using demo_calls_value(1) by (simp add: demo_calls_def r)
qed

end
