(* ===== verification/Schedule_Budget.thy ===== *)
theory Schedule_Budget
  imports Schedule_Runs
begin

text \<open>
  The scheduler as a client of the budget manager. The holds of the manager are exactly the tasks
  in flight (those whose ids are not names every JavaScript object inherits), so no hold leaks and
  the concurrency limit bounds the tasks in flight; the manager is only ever moved by its own
  operations, so its laws carry over to whole schedules.
\<close>

section \<open>The states between iterations\<close>

inductive loop_state ::
  "'w scheduler_io \<Rightarrow> 'w schedule_opts \<Rightarrow> (int \<times> int) option \<Rightarrow> worker_id list \<Rightarrow> rat \<Rightarrow>
   'w sched \<Rightarrow> 'w sched \<Rightarrow> bool"
  for io :: "'w scheduler_io" and opts :: "'w schedule_opts" and win :: "(int \<times> int) option"
    and workers :: "worker_id list" and timeout :: rat and st0 :: "'w sched" where
  loop_start: "loop_state io opts win workers timeout st0 st0"
| loop_again: "loop_state io opts win workers timeout st0 st \<Longrightarrow>
    turn_once io opts win workers timeout st = Inr (Again st') \<Longrightarrow>
    loop_state io opts win workers timeout st0 st'"

lemma loop_state_moves:
  assumes "loop_state io opts win workers timeout st0 st" and "sched_inv tasks workers st0"
    and "distinct workers"
  shows "sched_moves tasks io opts workers st0 st \<and> sched_inv tasks workers st"
  using assms
proof (induction rule: loop_state.induct)
  case (loop_again st st')
  then have ih: "sched_moves tasks io opts workers st0 st" "sched_inv tasks workers st" by auto
  have "turned tasks io opts workers timeout st (Inr (Again st'))"
    using turn_once_steps [OF ih(2) loop_again.prems(2), of io opts timeout win] loop_again.hyps(2) by simp
  from turned_again_moves [OF this] show ?case
    using ih by (meson rtranclp_trans sched_moves_inv)
qed simp

section \<open>The manager moves by its operations\<close>

definition budget_ops :: "budget option \<Rightarrow> budget option \<Rightarrow> bool" where
  "budget_ops ob ob' \<longleftrightarrow>
     (case ob of None \<Rightarrow> ob' = None | Some b \<Rightarrow> \<exists>es. ob' = Some (foldl budget_step b es))"

lemma budget_ops_refl [simp]: "budget_ops ob ob"
  by (cases ob) (auto simp: budget_ops_def intro: exI [of _ "[]"])

lemma budget_ops_trans:
  assumes "budget_ops a b" and "budget_ops b c"
  shows "budget_ops a c"
proof (cases a)
  case None
  then show ?thesis using assms by (simp add: budget_ops_def)
next
  case (Some x)
  then obtain es where b: "b = Some (foldl budget_step x es)" using assms(1) by (auto simp: budget_ops_def)
  then obtain fs where "c = Some (foldl budget_step (foldl budget_step x es) fs)"
    using assms(2) by (auto simp: budget_ops_def)
  then have "c = Some (foldl budget_step x (es @ fs))" by simp
  then show ?thesis using Some unfolding budget_ops_def by (auto simp del: foldl_append)
qed

lemma budget_ops_one: "budget_ops (Some b) (Some (budget_step b e))"
  by (auto simp: budget_ops_def intro: exI [of _ "[e]"])

lemma releaseHold_budget:
  "s_budget (releaseHold opts i st) = map_option (\<lambda>b. fst (release b i)) (s_budget st)"
  by (auto simp: releaseHold_def split: option.split prod.split bool.split)

lemma settleBudget_budget:
  obtains now tokens where "s_budget (settleBudget io opts i v st) =
    map_option (\<lambda>b. fst (settle now b i tokens None)) (s_budget st)"
proof -
  obtain w n where "(case io_taskTokens io of None \<Rightarrow> (s_world st, 0) | Some f \<Rightarrow> f v i (s_world st)) = (w, n)"
    by fastforce
  then show thesis
    by (intro that [of "io_isoNow io w" n]) (simp add: settleBudget_def split: option.split)
qed

lemma admit_task_budget:
  assumes "admit_task opts i st = (st', None)"
  shows "s_budget st' = map_option (\<lambda>b. fst (admit b i (so_reserveTokens opts) (so_maxConcurrent opts))) (s_budget st)"
    and "\<And>b. s_budget st = Some b \<Longrightarrow>
      admitted (snd (admit b i (so_reserveTokens opts) (so_maxConcurrent opts)))"
  using assms by (auto simp: admit_task_def Let_def split: option.splits prod.splits if_splits)

section \<open>Holds are the tasks in flight\<close>

text \<open>\<open>extra\<close> are the tasks admitted and not yet answered for.\<close>

definition holds_for :: "'w schedule_opts \<Rightarrow> task_id set \<Rightarrow> 'w sched \<Rightarrow> bool" where
  "holds_for opts extra st \<longleftrightarrow>
     (case s_budget st of None \<Rightarrow> True
      | Some b \<Rightarrow>
          fst ` set (b_reserved b) = {i \<in> extra \<union> fst ` set (s_inflight st). plain_key i}
          \<and> distinct (map fst (b_reserved b))
          \<and> int (length (b_reserved b)) \<le> max 0 (so_maxConcurrent opts))"

abbreviation "hold_inv opts \<equiv> holds_for opts {}"

lemma holds_for_cong:
  "holds_for opts e st \<Longrightarrow> s_budget st' = s_budget st \<Longrightarrow> s_inflight st' = s_inflight st \<Longrightarrow>
   holds_for opts e st'"
  by (cases "s_budget st") (simp_all add: holds_for_def)

lemma settle_reserved: "b_reserved (fst (settle now b i tokens usd)) = AList.delete i (b_reserved b)"
  by (simp add: settle_book Let_def book_def)

lemma release_reserved: "b_reserved (fst (release b i)) = AList.delete i (b_reserved b)"
  by (auto simp: release_def obj_in_def delete_absent)

lemma length_delete: "length (AList.delete k xs) \<le> length xs"
  by (induction xs) auto

lemma fst_delete: "fst ` set (AList.delete k xs) = fst ` set xs - {k}"
  by (force simp: set_delete)

text \<open>Settling or releasing one task takes its hold and its place in flight together.\<close>

lemma holds_for_drop:
  assumes "holds_for opts e st" and "s_inflight st' = AList.delete i (s_inflight st)"
    and "s_budget st' = map_option f (s_budget st)"
    and "\<And>b. b_reserved (f b) = AList.delete i (b_reserved b)"
  shows "holds_for opts (e - {i}) st'"
proof (cases "s_budget st")
  case (Some b)
  then show ?thesis
    using assms length_delete [of i "b_reserved b"] by (auto simp: holds_for_def fst_delete distinct_delete)
qed (use assms in \<open>simp add: holds_for_def\<close>)

lemma holds_for_admit:
  assumes h: "hold_inv opts st" and i: "i \<notin> fst ` set (s_inflight st)"
    and a: "admit_task opts i st = (st', None)"
  shows "holds_for opts {i} st'"
proof (cases "s_budget st")
  case None
  then show ?thesis using admit_task_budget(1) [OF a] by (simp add: holds_for_def)
next
  case (Some b)
  let ?b = "fst (admit b i (so_reserveTokens opts) (so_maxConcurrent opts))"
  have b': "s_budget st' = Some ?b" and ok: "admitted (snd (admit b i (so_reserveTokens opts) (so_maxConcurrent opts)))"
    using admit_task_budget [OF a] Some by simp_all
  have f: "s_inflight st' = s_inflight st" by (rule admit_task_frame(2) [OF a])
  have fresh: "\<not> obj_own (b_reserved b) i"
    using h Some i by (simp add: holds_for_def obj_own_def)
  have "?b = (if plain_key i then b\<lparr>b_reserved := b_reserved b @ [(i, so_reserveTokens opts)]\<rparr> else b)
      \<and> (plain_key i \<longrightarrow> int (length (b_reserved b)) < so_maxConcurrent opts)"
    using ok fresh update_fresh [of i "b_reserved b"]
    by (auto simp: admit_def admitted_def obj_in_def plain_key_def inFlight_def Let_def obj_own_def
        split: option.splits if_splits)
  then show ?thesis using h Some b' f fresh i
    by (auto simp: holds_for_def obj_own_def)
qed

lemma holds_settled:
  assumes "holds_for opts e st" and "s_inflight st' = AList.delete i (s_inflight st)"
    and "s_budget st' = s_budget st"
  shows "holds_for opts (e - {i}) (settleBudget io opts i v st')"
proof -
  obtain now tokens where b: "s_budget (settleBudget io opts i v st') =
      map_option (\<lambda>b. fst (settle now b i tokens None)) (s_budget st')"
    by (rule settleBudget_budget)
  show ?thesis
    by (rule holds_for_drop [OF assms(1), where f = "\<lambda>b. fst (settle now b i tokens None)"])
      (simp_all add: assms(2,3) b settle_reserved)
qed

lemma holds_released:
  assumes "holds_for opts e st" and "i \<notin> fst ` set (s_inflight st)"
  shows "holds_for opts (e - {i}) (releaseHold opts i st)"
proof -
  have "AList.delete i (s_inflight st) = s_inflight st"
    using assms(2) by (simp add: delete_absent obj_own_def)
  then show ?thesis
    by (intro holds_for_drop [OF assms(1), where f = "\<lambda>b. fst (release b i)"])
      (simp_all add: releaseHold_budget release_reserved)
qed

lemma offer_holds:
  assumes inv: "sched_inv tasks workers st" and h: "hold_inv opts st"
    and r: "task_state (s_graph st) (ts_id spec) = Some S_ready"
    and v: "v \<in> set workers" "v \<notin> set (s_dead st)" "v \<notin> snd ` set (s_inflight st)"
    and a: "admit_task opts (ts_id spec) st = (st1, None)"
    and ps: "ps_state ps = st1\<lparr>s_world := w\<rparr>"
    and t: "take_answer io opts spec v answer ps = Inr ps'"
  shows "hold_inv opts (ps_state ps')"
proof -
  let ?i = "ts_id spec" and ?st = "st1\<lparr>s_world := w\<rparr>"
  note fr = admit_task_frame [OF a]
  have fresh: "?i \<notin> fst ` set (s_inflight st)"
  proof
    assume "?i \<in> fst ` set (s_inflight st)"
    then have "task_state (s_graph st) ?i = Some S_dispatched" using inv by (simp add: sched_inv_def)
    then show False using r by simp
  qed
  have h1: "holds_for opts {?i} ?st"
    by (rule holds_for_cong [OF holds_for_admit [OF h fresh a]]) simp_all
  have inv1: "sched_inv tasks workers ?st" by (rule sched_inv_cong [OF inv]) (simp_all add: fr)
  have live: "live_state (task_state (s_graph ?st) ?i)" using r by (simp add: live_state_def fr)
  have ended: "hold_inv opts (settleBudget io opts ?i v st')"
    if "conclude ?i x f reason ?st = Inr st'" for x f reason st'
    using holds_settled [OF h1 conclude_inv(3,6) [OF inv1 live that]] by simp
  show ?thesis
  proof (cases answer)
    case Accepted
    then obtain g where g: "markDispatched (s_graph ?st) ?i v ?i = Inr g"
      and s: "ps_state ps' = ?st\<lparr>s_graph := g, s_inflight := AList.update ?i v (s_inflight ?st)\<rparr>"
      using t ps by (auto simp: take_answer_def Let_def split: sum.splits)
    have "AList.update ?i v (s_inflight ?st) = s_inflight ?st @ [(?i, v)]"
      using sched_inv_accept(2) [OF inv1 _ v(1) _ _ g] r v by (simp add: fr)
    then show ?thesis using h1 by (cases "s_budget st1") (auto simp: holds_for_def s)
  next
    case (Unreachable d)
    have "holds_for opts {?i} (bury v ?st)" by (rule holds_for_cong [OF h1]) simp_all
    then show ?thesis using t ps Unreachable holds_released [of opts "{?i}" "bury v ?st" ?i] fresh
      by (auto simp: take_answer_def Let_def fr)
  qed (use t ps ended in \<open>auto simp: take_answer_def Let_def split: sum.splits\<close>)
qed

lemma sched_step_holds:
  assumes s: "sched_step tasks io opts workers st st'" and inv: "sched_inv tasks workers st"
    and h: "hold_inv opts st"
  shows "hold_inv opts st'"
  using s
proof (cases rule: sched_step.cases)
  case (step_settled i v w x r st1)
  have inv1: "sched_inv tasks workers (st\<lparr>s_world := w\<rparr>)" by (rule sched_inv_cong [OF inv]) simp_all
  have live: "live_state (task_state (s_graph (st\<lparr>s_world := w\<rparr>)) i)"
    using inflight_live [OF inv step_settled(2)] by simp
  note c = conclude_inv [OF inv1 live step_settled(4)]
  show ?thesis unfolding step_settled(1) using holds_settled [OF h, of st1 i io v] c by simp
next
  case (step_lost i v r st1)
  note c = conclude_inv [OF inv inflight_live [OF inv step_lost(2)] step_lost(4)]
  show ?thesis unfolding step_lost(1) using holds_settled [OF h, of "bury v st1" i io v] c by simp
next
  case (step_offer spec v st1 w answer ps ps')
  show ?thesis unfolding step_offer(1)
    by (rule offer_holds [OF inv h step_offer(3-6,8,10,11)])
next
  case (step_threw spec v st1 w err)
  have fresh: "ts_id spec \<notin> fst ` set (s_inflight st)"
  proof
    assume "ts_id spec \<in> fst ` set (s_inflight st)"
    then have "task_state (s_graph st) (ts_id spec) = Some S_dispatched" using inv by (simp add: sched_inv_def)
    then show False using step_threw(3) by simp
  qed
  have "holds_for opts {ts_id spec} (st1\<lparr>s_world := w\<rparr>)"
    by (rule holds_for_cong [OF holds_for_admit [OF h fresh step_threw(8)]]) simp_all
  then show ?thesis unfolding step_threw(1)
    using holds_released [of opts "{ts_id spec}" "st1\<lparr>s_world := w\<rparr>" "ts_id spec"] fresh
      admit_task_frame(2) [OF step_threw(8)] by simp
qed (auto intro: holds_for_cong [OF h])

lemma sched_moves_holds:
  assumes "sched_moves tasks io opts workers st st'" and "sched_inv tasks workers st" and "hold_inv opts st"
  shows "hold_inv opts st'"
  using assms
proof (induction rule: rtranclp_induct)
  case (step a b)
  note inv = sched_moves_inv [OF step.hyps(1) step.prems(1)]
  from step.hyps(2) show ?case
  proof (cases rule: sched_move.cases)
    case move_step
    then show ?thesis using sched_step_holds [OF _ inv step.IH [OF step.prems]] by blast
  next
    case move_stamp
    then show ?thesis using holds_for_cong [OF step.IH [OF step.prems]] by simp
  qed
qed simp

lemma conclude_budget_same: "conclude i x f r st = Inr st' \<Longrightarrow> s_budget st' = s_budget st"
  by (auto simp: conclude_def split: sum.splits)

lemma settleBudget_ops: "budget_ops (s_budget st) (s_budget (settleBudget io opts i v st))"
proof -
  obtain now tokens where "s_budget (settleBudget io opts i v st) =
      map_option (\<lambda>b. fst (settle now b i tokens None)) (s_budget st)"
    by (rule settleBudget_budget)
  then show ?thesis
    using budget_ops_one [of _ "Op_settle now i tokens None"] by (cases "s_budget st") simp_all
qed

lemma releaseHold_ops: "budget_ops (s_budget st) (s_budget (releaseHold opts i st))"
  using budget_ops_one [of _ "Op_release i"] by (cases "s_budget st") (simp_all add: releaseHold_budget)

lemma admit_task_ops:
  assumes "0 \<le> so_reserveTokens opts" and "admit_task opts i st = (st', None)"
  shows "budget_ops (s_budget st) (s_budget st')"
  using assms admit_task_budget(1) [OF assms(2)]
    budget_ops_one [of _ "Op_admit i (nat (so_reserveTokens opts)) (so_maxConcurrent opts)"]
  by (cases "s_budget st") simp_all

lemma take_answer_ops:
  "take_answer io opts spec v answer ps = Inr ps' \<Longrightarrow>
   budget_ops (s_budget (ps_state ps)) (s_budget (ps_state ps'))"
  using settleBudget_ops [of _ io opts "ts_id spec" v] releaseHold_ops [of "bury v (ps_state ps)" opts "ts_id spec"]
  by (cases answer)
    (auto simp: take_answer_def Let_def split: sum.splits dest!: conclude_budget_same, metis+)

lemma sched_step_ops:
  assumes "0 \<le> so_reserveTokens opts" and "sched_step tasks io opts workers st st'"
  shows "budget_ops (s_budget st) (s_budget st')"
  using assms(2)
proof (cases rule: sched_step.cases)
  case (step_settled i v w x r st1)
  then show ?thesis
    using settleBudget_ops [of st1 io opts i v] conclude_budget_same [OF step_settled(4)] by simp
next
  case (step_lost i v r st1)
  then show ?thesis
    using settleBudget_ops [of "bury v st1" io opts i v] conclude_budget_same [OF step_lost(4)] by simp
next
  case (step_offer spec v st1 w answer ps ps')
  have "budget_ops (s_budget st) (s_budget st1)" by (rule admit_task_ops [OF assms(1) step_offer(8)])
  moreover have "budget_ops (s_budget st1) (s_budget st')"
    using take_answer_ops [OF step_offer(11)] step_offer(1,10) by simp
  ultimately show ?thesis by (rule budget_ops_trans)
next
  case (step_threw spec v st1 w err)
  have "budget_ops (s_budget st) (s_budget st1)" by (rule admit_task_ops [OF assms(1) step_threw(8)])
  moreover have "budget_ops (s_budget st1) (s_budget st')"
    using releaseHold_ops [of "st1\<lparr>s_world := w\<rparr>"] step_threw(1) by simp
  ultimately show ?thesis by (rule budget_ops_trans)
qed simp_all

lemma sched_moves_ops:
  assumes "0 \<le> so_reserveTokens opts" and "sched_moves tasks io opts workers st st'"
  shows "budget_ops (s_budget st) (s_budget st')"
  using assms(2)
proof (induction rule: rtranclp_induct)
  case (step a b)
  from step.hyps(2) have "budget_ops (s_budget a) (s_budget b)"
    by (cases rule: sched_move.cases) (auto intro: sched_step_ops [OF assms(1)])
  with step.IH show ?case by (rule budget_ops_trans)
qed simp

lemma settleBudget_None: "s_budget (settleBudget io opts i v st) = None \<longleftrightarrow> s_budget st = None"
  by (cases "s_budget st") (simp_all add: settleBudget_def Let_def split: prod.splits)

lemma sched_step_budget:
  assumes "sched_step tasks io opts workers st st'"
  shows "s_budget st' = None \<longleftrightarrow> s_budget st = None"
  using assms
proof (cases rule: sched_step.cases)
  case (step_offer spec v st1 w answer ps ps')
  have "s_budget st1 = None \<longleftrightarrow> s_budget st = None"
    using admit_task_budget(1) [OF step_offer(8)] by simp
  moreover have "s_budget (ps_state ps') = None \<longleftrightarrow> s_budget (ps_state ps) = None"
    using take_answer_ops [OF step_offer(11)]
    by (auto simp: budget_ops_def split: option.splits)
  ultimately show ?thesis using step_offer(1,10) by simp
qed (auto simp: settleBudget_None releaseHold_budget admit_task_budget(1) conclude_budget_same)

section \<open>Properties\<close>

text \<open>
  The loop's memory. Between any two iterations, the tasks in flight are exactly those the
  graph calls dispatched, each listed once, no worker runs two tasks, and none of their workers is
  outside the run or already written off as dead.
\<close>

theorem loop_memory_consistent:
  assumes "ids_ok tasks" and "acyclic (dep_edges tasks)" and "new_graph tasks tui = Inr g"
    and "distinct workers"
    and "loop_state io opts win workers timeout (initial_sched io opts g started w) st"
  shows "graph_inv tasks (s_graph st)
    \<and> {i. task_state (s_graph st) i = Some S_dispatched} = fst ` set (s_inflight st)
    \<and> distinct (map fst (s_inflight st)) \<and> distinct (map snd (s_inflight st))
    \<and> snd ` set (s_inflight st) \<subseteq> set workers - set (s_dead st)"
proof -
  have "sched_inv tasks workers (initial_sched io opts g started w)"
    using new_graph_inv [OF assms(1-3)] new_graph_fresh(1) [OF assms(1,3)] by (rule initial_sched_inv)
  then have "sched_inv tasks workers st" using loop_state_moves [OF assms(5) _ assms(4)] by blast
  then show ?thesis by (auto simp: sched_inv_def)
qed

text \<open>
  C37: the concurrency limit holds and no hold leaks. With a budget that starts without holds and
  task ids that are not inherited names, between any two iterations the manager's holds are
  exactly the tasks in flight, so there are never more of these than \<open>maxConcurrent\<close>.
\<close>

theorem schedule_within_concurrency:
  assumes "ids_ok tasks" and "acyclic (dep_edges tasks)" and "new_graph tasks tui = Inr g"
    and "distinct workers" and "list_all (\<lambda>t. plain_key (ts_id t)) tasks"
    and "so_budget opts = Some b0" and "b_reserved b0 = []"
    and "loop_state io opts win workers timeout (initial_sched io opts g started w) st"
  shows "\<exists>b. s_budget st = Some b \<and> set (inFlight b) = fst ` set (s_inflight st)
    \<and> int (length (s_inflight st)) \<le> max 0 (so_maxConcurrent opts)"
proof -
  let ?st0 = "initial_sched io opts g started w"
  have inv0: "sched_inv tasks workers ?st0"
    using new_graph_inv [OF assms(1-3)] new_graph_fresh(1) [OF assms(1,3)] by (rule initial_sched_inv)
  note m = loop_state_moves [OF assms(8) inv0 assms(4)]
  have "hold_inv opts ?st0" using assms(6,7) by (simp add: holds_for_def initial_sched_def)
  then have h: "hold_inv opts st" using sched_moves_holds m inv0 by blast
  have inv: "sched_inv tasks workers st" using m by simp
  have plain: "plain_key i" if "i \<in> fst ` set (s_inflight st)" for i
  proof -
    have "task_state (s_graph st) i \<noteq> None" "graph_inv tasks (s_graph st)"
      using that inv by (auto simp: sched_inv_def)
    then have "i \<in> ts_id ` set tasks" using board.state_ids by blast
    then show ?thesis using assms(5) by (auto simp: list_all_iff)
  qed
  have "s_budget st \<noteq> None"
  proof
    assume "s_budget st = None"
    have "s_budget st' \<noteq> None" if "sched_moves tasks io opts workers ?st0 st'" for st'
      using that
    proof (induction rule: rtranclp_induct)
      case (step a b)
      from step.hyps(2) step.IH show ?case
        by (cases rule: sched_move.cases) (auto dest: sched_step_budget)
    qed (simp add: initial_sched_def assms(6))
    then show False using m \<open>s_budget st = None\<close> by blast
  qed
  then obtain b where b: "s_budget st = Some b" by blast
  have holds: "fst ` set (b_reserved b) = fst ` set (s_inflight st)"
    "distinct (map fst (b_reserved b))"
    "int (length (b_reserved b)) \<le> max 0 (so_maxConcurrent opts)"
    using h plain by (auto simp: holds_for_def b)
  have "length (b_reserved b) = length (s_inflight st)"
    using holds(1,2) inv distinct_card [of "map fst (b_reserved b)"] distinct_card [of "map fst (s_inflight st)"]
    by (simp add: sched_inv_def)
  then show ?thesis using b holds by (simp add: inFlight_def)
qed

text \<open>
  A crossed ceiling is reported. When a schedule that ran under a well-formed budget returns
  and the spend it booked is past the token ceiling, its exit code is the budget's or a more severe
  one. The manager is only moved by its own operations along the way.
\<close>

theorem schedule_reports_budget:
  assumes "ids_ok tasks" and "acyclic (dep_edges tasks)" and "new_graph tasks tui = Inr g"
    and "distinct workers" and "0 \<le> so_reserveTokens opts"
    and "so_budget opts = Some b0" and "budget_inv b0"
    and "sched_loop io opts win workers timeout (initial_sched io opts g started w) = Some (Inr (st, refusal))"
  shows "\<exists>es. s_budget st = Some (foldl budget_step b0 es)
    \<and> (b_tokens_ceiling b0 = Some c \<and> c < b_tokens_spent (foldl budget_step b0 es) \<longrightarrow>
         severity (out_exit (conclude_schedule st refusal)) \<le> severity EXIT_BUDGET)"
proof -
  let ?st0 = "initial_sched io opts g started w"
  have inv0: "sched_inv tasks workers ?st0"
    using new_graph_inv [OF assms(1-3)] new_graph_fresh(1) [OF assms(1,3)] by (rule initial_sched_inv)
  have "sched_moves tasks io opts workers ?st0 st"
    using sched_loop_moves [OF assms(8) inv0 assms(4)] by simp
  then have "budget_ops (s_budget ?st0) (s_budget st)" by (rule sched_moves_ops [OF assms(5)])
  then obtain es where es: "s_budget st = Some (foldl budget_step b0 es)"
    using assms(6) by (auto simp: budget_ops_def initial_sched_def)
  let ?b = "foldl budget_step b0 es"
  have inv: "budget_inv ?b" and le: "budget_le b0 ?b"
    using budgets.inv_run budgets.le_run assms(7) by blast+
  have "budget_halted st" if "b_tokens_ceiling b0 = Some c" "c < b_tokens_spent ?b"
    using that inv le es by (auto simp: budget_halted_def budget_inv_def budget_le_def)
  then show ?thesis using es conclude_budget by blast
qed

text \<open>The three-task schedule under a budget, each task spending 70 of 100 tokens.\<close>

definition spend_io :: "rat scheduler_io" where
  "spend_io = demo_io\<lparr>io_taskTokens := Some (\<lambda>v i w. (w, 70))\<rparr>"

definition spend_opts :: "rat schedule_opts" where
  "spend_opts = demo_opts\<lparr>so_budget := Some sample_budget, so_reserveTokens := 5\<rparr>"

definition spend_start :: "rat sched" where
  "spend_start = initial_sched spend_io spend_opts chain_graph 0 0"

lemma chain_plain: "list_all (\<lambda>t. plain_key (ts_id t)) chain_tasks"
  by (simp add: chain_tasks_def plain_key_def object_prototype_keys_def)

lemma spend_budget: "so_budget spend_opts = Some sample_budget" "b_reserved sample_budget = []"
  "0 \<le> so_reserveTokens spend_opts"
  by (simp_all add: spend_opts_def demo_opts_def sample_budget_def)

definition spend_next :: "rat sched" where
  "spend_next =
     (case turn_once spend_io spend_opts None [''w1'', ''w2''] 5000 spend_start of
        Inr (Again st) \<Rightarrow> st | _ \<Rightarrow> spend_start)"

lemma spend_next_inflight: "s_inflight spend_next = [(''a'', ''w1'')]"
  by code_simp

lemma spend_next_reached: "loop_state spend_io spend_opts None [''w1'', ''w2''] 5000 spend_start spend_next"
proof -
  have "s_inflight spend_next \<noteq> s_inflight spend_start"
    unfolding spend_next_inflight by (simp add: spend_start_def initial_sched_def)
  then have "spend_next \<noteq> spend_start" by metis
  then have "turn_once spend_io spend_opts None [''w1'', ''w2''] 5000 spend_start = Inr (Again spend_next)"
    by (auto simp: spend_next_def split: sum.splits turn.splits)
  then show ?thesis using loop_again [OF loop_start] by blast
qed

theorem loop_memory_consistent_witness:
  "{i. task_state (s_graph spend_next) i = Some S_dispatched} = {''a''}"
  using loop_memory_consistent [OF chain_ids chain_acyclic chain_new _
      spend_next_reached [unfolded spend_start_def]]
  by (simp add: spend_next_inflight)

theorem schedule_within_concurrency_witness:
  "\<exists>b. s_budget spend_next = Some b \<and> set (inFlight b) = {''a''}"
  using schedule_within_concurrency [OF chain_ids chain_acyclic chain_new _ chain_plain
      spend_budget(1,2) spend_next_reached [unfolded spend_start_def]]
  by (auto simp: spend_next_inflight)

definition spend_end :: "rat sched" where
  "spend_end =
     (case sched_loop spend_io spend_opts None [''w1'', ''w2''] 5000 spend_start of
        Some (Inr (st, None)) \<Rightarrow> st | _ \<Rightarrow> spend_start)"

lemma spend_end_facts:
  "map_option b_tokens_spent (s_budget spend_end) = Some 150"
  "(case sched_loop spend_io spend_opts None [''w1'', ''w2''] 5000 spend_start of
      Some (Inr (st, None)) \<Rightarrow> True | _ \<Rightarrow> False)"
  by code_simp+

theorem schedule_reports_budget_witness:
  "severity (out_exit (conclude_schedule spend_end None)) \<le> severity EXIT_BUDGET"
proof -
  have run: "sched_loop spend_io spend_opts None [''w1'', ''w2''] 5000
      (initial_sched spend_io spend_opts chain_graph 0 0) = Some (Inr (spend_end, None))"
    using spend_end_facts(2)
    by (auto simp: spend_end_def spend_start_def split: option.splits sum.splits)
  obtain es where "s_budget spend_end = Some (foldl budget_step sample_budget es)"
    and c: "b_tokens_ceiling sample_budget = Some 100
        \<and> 100 < b_tokens_spent (foldl budget_step sample_budget es) \<longrightarrow>
         severity (out_exit (conclude_schedule spend_end None)) \<le> severity EXIT_BUDGET"
    using schedule_reports_budget [OF chain_ids chain_acyclic chain_new _ spend_budget(3,1)
      sample_budget_ok(1) run, of 100] by auto
  moreover have "b_tokens_ceiling sample_budget = Some 100" by (simp add: sample_budget_def)
  ultimately show ?thesis using spend_end_facts(1) by simp
qed

end
