(* ===== verification/Wire.thy ===== *)
theory Wire
  imports Fleet_Prelude
begin

text \<open>
  Values that come in over a wire or from a file: what \<open>JSON.parse\<close> returns, how the code reads
  a property of a value it knows nothing about, and the \<open>typeof\<close> tests it narrows them with. A
  property that is absent reads as \<open>undefined\<close>, here \<open>None\<close>.
\<close>

datatype json =
    JNull | JBool bool | JNum js_number | JStr string | JArr "json list"
  | JObj "(string \<times> json) list"

text \<open>
  \<open>(v as { k?: unknown }).k\<close>: an object answers with its property, every other value the code
  reads a property of (an array, a string, a number) has none of that name.
\<close>

fun jprop :: "json \<Rightarrow> string \<Rightarrow> json option" where
  "jprop (JObj ps) k = map_of ps k"
| "jprop _ k = None"

text \<open>\<open>v?.k\<close>\<close>

definition jprop_of :: "json option \<Rightarrow> string \<Rightarrow> json option" where
  "jprop_of v k = (case v of None \<Rightarrow> None | Some v \<Rightarrow> jprop v k)"

fun as_string :: "json option \<Rightarrow> string option" where
  "as_string (Some (JStr s)) = Some s"
| "as_string _ = None"

fun as_number :: "json option \<Rightarrow> js_number option" where
  "as_number (Some (JNum n)) = Some n"
| "as_number _ = None"

fun as_array :: "json option \<Rightarrow> json list option" where
  "as_array (Some (JArr vs)) = Some vs"
| "as_array _ = None"

text \<open>\<open>Array.isArray(v) ? v : []\<close>\<close>

definition items :: "json option \<Rightarrow> json list" where
  "items v = (case as_array v of None \<Rightarrow> [] | Some vs \<Rightarrow> vs)"

text \<open>\<open>typeof v === "object" && v !== null\<close>\<close>

fun is_object :: "json \<Rightarrow> bool" where
  "is_object (JObj _) = True"
| "is_object (JArr _) = True"
| "is_object _ = False"

lemma jprop_no_object: "\<not> is_object v \<Longrightarrow> jprop v k = None"
  by (cases v) auto

lemma as_string_Some [simp]: "as_string v = Some s \<longleftrightarrow> v = Some (JStr s)"
  by (cases v rule: as_string.cases) auto

text \<open>\<open>new Map(pairs)\<close>: a key keeps the place of its first pair and takes the value of its last.\<close>

definition js_map :: "('k \<times> 'v) list \<Rightarrow> ('k \<times> 'v) list" where
  "js_map ps = foldl (\<lambda>m (k, v). AList.update k v m) [] ps"

lemma js_map_snoc: "js_map (ps @ [(k, v)]) = AList.update k v (js_map ps)"
  by (simp add: js_map_def)

lemma js_map_lookup [simp]: "map_of (js_map ps) = map_of (rev ps)"
  by (induction ps rule: rev_induct) (auto simp: js_map_snoc update_conv' js_map_def split: prod.splits)

lemma js_map_keys [simp]: "fst ` set (js_map ps) = fst ` set ps"
  using js_map_lookup [of ps] by (metis dom_map_of_conv_image_fst set_rev)

lemma js_map_distinct [simp]: "distinct (map fst (js_map ps))"
  by (induction ps rule: rev_induct) (auto simp: js_map_snoc distinct_update js_map_def)

lemma js_map_id: "distinct (map fst ps) \<Longrightarrow> js_map ps = ps"
proof (induction ps rule: rev_induct)
  case (snoc p ps)
  have "k \<notin> fst ` set m \<Longrightarrow> AList.update k v m = m @ [(k, v)]" for k v and m :: "('a \<times> 'b) list"
    by (induction m) auto
  with snoc show ?case by (cases p) (auto simp: js_map_snoc)
qed (simp add: js_map_def)

section \<open>Strings\<close>

text \<open>White space, of the characters a string of HOL has, and \<open>String.prototype.trim\<close>.\<close>

definition space_char :: "char \<Rightarrow> bool" where
  "space_char c \<longleftrightarrow> c \<in> {CHR 0x09, CHR 0x0A, CHR 0x0B, CHR 0x0C, CHR 0x0D, CHR 0x20, CHR 0xA0}"

definition trim_string :: "string \<Rightarrow> string" where
  "trim_string t = rev (dropWhile space_char (rev (dropWhile space_char t)))"

definition starts_with :: "string \<Rightarrow> string \<Rightarrow> bool" where
  "starts_with s t \<longleftrightarrow> take (length t) s = t"

definition ends_with :: "string \<Rightarrow> string \<Rightarrow> bool" where
  "ends_with s t \<longleftrightarrow> length t \<le> length s \<and> drop (length s - length t) s = t"

lemma starts_with_append: "starts_with s t \<longleftrightarrow> (\<exists>r. s = t @ r)"
proof
  assume "starts_with s t"
  then show "\<exists>r. s = t @ r" unfolding starts_with_def by (metis append_take_drop_id)
qed (auto simp: starts_with_def)

lemma ends_with_append: "ends_with s t \<longleftrightarrow> (\<exists>r. s = r @ t)"
proof
  assume "ends_with s t"
  then show "\<exists>r. s = r @ t" unfolding ends_with_def by (metis append_take_drop_id)
qed (auto simp: ends_with_def)

text \<open>\<open>split\<close> at a character, and the \<open>join\<close> that undoes it.\<close>

fun split_on :: "char \<Rightarrow> string \<Rightarrow> string list" where
  "split_on d [] = [[]]"
| "split_on d (c # cs) =
    (if c = d then [] # split_on d cs
     else (case split_on d cs of [] \<Rightarrow> [[c]] | s # ss \<Rightarrow> (c # s) # ss))"

fun join_with :: "string \<Rightarrow> string list \<Rightarrow> string" where
  "join_with sep [] = []"
| "join_with sep [s] = s"
| "join_with sep (s # t # ss) = s @ sep @ join_with sep (t # ss)"

lemma split_on_clean: "\<forall>s \<in> set (split_on d f). d \<notin> set s"
  by (induction f) (auto split: list.splits)

lemma split_join:
  "ss \<noteq> [] \<Longrightarrow> \<forall>s \<in> set ss. d \<notin> set s \<Longrightarrow> split_on d (join_with [d] ss) = ss"
proof (induction "[d]" ss rule: join_with.induct)
  case (2 s)
  have "split_on d s = [s]" using 2 by (induction s) auto
  then show ?case by simp
next
  case (3 s t ss)
  have "split_on d (s @ d # u) = s # split_on d u" for u
    using 3(3) by (induction s) auto
  with 3 show ?case by simp
qed simp

end
