(* ===== verification/Jsonl.thy ===== *)
theory Jsonl
  imports Fleet_Prelude "HOL-Library.Word" "HOL-Library.Sublist"
begin

text \<open>
  The line reader every stream of the fleet goes through (\<open>src/util/jsonl.ts\<close>): the UTF-8
  decoder it feeds, \<open>LineSplitter\<close> with its cap on the length of a line, and \<open>TailReader\<close>, which
  follows a file that others append to, rotate and rewrite. JavaScript strings are lists of
  UTF-16 code units, bytes are \<open>8 word\<close>. The lemmas say which lines come out: for every way a
  stream is cut into chunks, exactly its complete lines that are not over the cap.
\<close>

type_synonym code_unit = "16 word"
type_synonym text16 = "code_unit list"
type_synonym bytes = "8 word list"

section \<open>The decoder\<close>

text \<open>
  \<open>TextDecoder("utf-8")\<close> with \<open>stream: true\<close>, a byte at a time: the bytes a sequence still needs,
  the range its next byte must be in, the code point so far, and whether the start of the stream,
  where a byte order mark is dropped, has been passed.
\<close>

record utf8 =
  needed :: nat
  lower :: nat
  upper :: nat
  code_point :: nat
  bom_seen :: bool

definition utf8_start :: utf8 where
  "utf8_start = \<lparr>needed = 0, lower = 128, upper = 191, code_point = 0, bom_seen = False\<rparr>"

definition utf8_idle :: "utf8 \<Rightarrow> utf8" where
  "utf8_idle d = d\<lparr>needed := 0, lower := 128, upper := 191, code_point := 0\<rparr>"

definition utf16 :: "nat \<Rightarrow> text16" where
  "utf16 p = (if p < 65536 then [of_nat p]
              else [of_nat (55296 + (p - 65536) div 1024), of_nat (56320 + (p - 65536) mod 1024)])"

definition utf8_emit :: "utf8 \<Rightarrow> nat \<Rightarrow> utf8 \<times> text16" where
  "utf8_emit d p = ((utf8_idle d)\<lparr>bom_seen := True\<rparr>,
     if p = 65279 \<and> \<not> bom_seen d then [] else utf16 p)"

definition utf8_lead :: "utf8 \<Rightarrow> nat \<Rightarrow> utf8 \<times> text16" where
  "utf8_lead d b =
    (if b \<le> 127 then utf8_emit d b
     else if 194 \<le> b \<and> b \<le> 223 then (d\<lparr>needed := 1, code_point := b - 192\<rparr>, [])
     else if 224 \<le> b \<and> b \<le> 239 then
       (d\<lparr>needed := 2, code_point := b - 224,
          lower := (if b = 224 then 160 else 128), upper := (if b = 237 then 159 else 191)\<rparr>, [])
     else if 240 \<le> b \<and> b \<le> 244 then
       (d\<lparr>needed := 3, code_point := b - 240,
          lower := (if b = 240 then 144 else 128), upper := (if b = 244 then 143 else 191)\<rparr>, [])
     else utf8_emit d 65533)"

definition utf8_step :: "utf8 \<Rightarrow> nat \<Rightarrow> utf8 \<times> text16" where
  "utf8_step d b =
    (if needed d = 0 then utf8_lead d b
     else if b < lower d \<or> upper d < b then
       (let (d', bad) = utf8_emit d 65533; (d'', us) = utf8_lead d' b in (d'', bad @ us))
     else
       let p = code_point d * 64 + (b - 128) in
       if needed d = 1 then utf8_emit d p
       else (d\<lparr>needed := needed d - 1, code_point := p, lower := 128, upper := 191\<rparr>, []))"

fun utf8_decode :: "utf8 \<Rightarrow> bytes \<Rightarrow> utf8 \<times> text16" where
  "utf8_decode d [] = (d, [])"
| "utf8_decode d (b # bs) =
    (let (d', us) = utf8_step d (unat b); (d'', vs) = utf8_decode d' bs in (d'', us @ vs))"

definition utf8_finish :: "utf8 \<Rightarrow> text16" where
  "utf8_finish d = (if needed d = 0 then [] else [65533])"

lemma utf8_decode_append:
  "utf8_decode d (as @ bs) =
    (let (d', us) = utf8_decode d as; (d'', vs) = utf8_decode d' bs in (d'', us @ vs))"
  by (induction as arbitrary: d) (simp_all add: Let_def split: prod.splits)

abbreviation decoded :: "bytes \<Rightarrow> text16" where
  "decoded bs \<equiv> snd (utf8_decode utf8_start bs)"

lemma utf8_step_ascii:
  assumes "needed d = 0" and "b \<le> 127"
  shows "snd (utf8_step d b) = [of_nat b] \<and> needed (fst (utf8_step d b)) = 0"
  using assms by (simp add: utf8_step_def utf8_lead_def utf8_emit_def utf8_idle_def utf16_def)

lemma utf8_decode_ascii:
  "needed d = 0 \<Longrightarrow> \<forall>b \<in> set bs. unat b \<le> 127 \<Longrightarrow>
   snd (utf8_decode d bs) = map (\<lambda>b. of_nat (unat b)) bs"
proof (induction bs arbitrary: d)
  case (Cons b bs)
  from Cons.prems utf8_step_ascii [of d "unat b"]
  obtain d' where "utf8_step d (unat b) = (d', [of_nat (unat b)])" and "needed d' = 0"
    by (cases "utf8_step d (unat b)") auto
  with Cons show ?case by (simp add: split: prod.splits) (metis snd_conv)
qed simp

lemma utf8_decode_idle:
  "needed d = 0 \<Longrightarrow> \<forall>b \<in> set bs. unat b \<le> 127 \<Longrightarrow> needed (fst (utf8_decode d bs)) = 0"
proof (induction bs arbitrary: d)
  case (Cons b bs)
  with utf8_step_ascii [of d "unat b"] show ?case by (auto simp: split: prod.splits) (metis fst_conv)
qed simp

section \<open>\<open>LineSplitter\<close>\<close>

abbreviation NL :: code_unit where "NL \<equiv> 10"
abbreviation CR :: code_unit where "CR \<equiv> 13"

definition MAX_LINE_UNITS :: nat where
  "MAX_LINE_UNITS = 8 * 1024 * 1024"

text \<open>\<open>LineTooLongError\<close>: the length seen, and the lines the same push had already completed.\<close>

datatype line_too_long = LineTooLong (units: nat) (completed: "text16 list")

record splitter =
  decoder :: utf8
  buffer :: text16
  resyncing :: bool

definition new_splitter :: splitter where
  "new_splitter = \<lparr>decoder = utf8_start, buffer = [], resyncing = False\<rparr>"

text \<open>\<open>indexOf\<close> of a newline.\<close>

fun newline_at :: "text16 \<Rightarrow> nat option" where
  "newline_at [] = None"
| "newline_at (c # cs) = (if c = NL then Some 0 else map_option Suc (newline_at cs))"

definition stripCr :: "text16 \<Rightarrow> text16" where
  "stripCr line = (if line \<noteq> [] \<and> last line = CR then butlast line else line)"

lemma newline_at_None: "newline_at t = None \<longleftrightarrow> NL \<notin> set t"
  by (induction t) auto

lemma newline_at_Some:
  "newline_at t = Some n \<Longrightarrow>
   n < length t \<and> t = take n t @ NL # drop (Suc n) t \<and> NL \<notin> set (take n t)"
  by (induction t arbitrary: n) (auto split: if_splits)

lemma newline_at_append:
  "NL \<notin> set a \<Longrightarrow> newline_at (a @ NL # b) = Some (length a)"
  by (induction a) auto

text \<open>
  \<open>#drain\<close>: \<open>rest\<close> is the buffer from \<open>start\<close> on. What it leaves is the new buffer and whether
  the splitter has to resynchronise.
\<close>

function drain_loop :: "text16 \<Rightarrow> text16 list \<Rightarrow> (line_too_long + text16 list) \<times> text16 \<times> bool" where
  "drain_loop rest out =
    (case newline_at rest of
       None \<Rightarrow>
         if length rest > MAX_LINE_UNITS then (Inl (LineTooLong (length rest) out), [], True)
         else (Inr out, rest, False)
     | Some nl \<Rightarrow>
         if nl > MAX_LINE_UNITS then (Inl (LineTooLong nl out), drop (Suc nl) rest, False)
         else drain_loop (drop (Suc nl) rest) (out @ [stripCr (take nl rest)]))"
  by pat_completeness auto
termination
  by (relation "measure (length \<circ> fst)") (auto dest: newline_at_Some)

declare drain_loop.simps [simp del]

definition drain :: "splitter \<Rightarrow> (line_too_long + text16 list) \<times> splitter" where
  "drain s = (case drain_loop (buffer s) [] of
     (r, rest, lost) \<Rightarrow> (r, s\<lparr>buffer := rest, resyncing := (lost \<or> resyncing s)\<rparr>))"

definition push :: "splitter \<Rightarrow> bytes \<Rightarrow> (line_too_long + text16 list) \<times> splitter" where
  "push s chunk =
    (let (d, us) = utf8_decode (decoder s) chunk;
         s = s\<lparr>decoder := d, buffer := buffer s @ us\<rparr>
     in if resyncing s then
          (case newline_at (buffer s) of
             None \<Rightarrow> (Inr [], s\<lparr>buffer := []\<rparr>)
           | Some nl \<Rightarrow> drain (s\<lparr>buffer := drop (Suc nl) (buffer s), resyncing := False\<rparr>))
        else drain s)"

definition pushText :: "splitter \<Rightarrow> text16 \<Rightarrow> (line_too_long + text16 list) \<times> splitter" where
  "pushText s chunk = drain (s\<lparr>buffer := buffer s @ chunk\<rparr>)"

definition flush :: "splitter \<Rightarrow> text16 list \<times> splitter" where
  "flush s =
    (let s = s\<lparr>buffer := buffer s @ utf8_finish (decoder s), decoder := utf8_start\<rparr> in
     if buffer s = [] then ([], s)
     else let l = stripCr (buffer s) in (if l \<noteq> [] then [l] else [], s\<lparr>buffer := []\<rparr>))"

definition pending :: "splitter \<Rightarrow> nat" where
  "pending s = length (buffer s)"

text \<open>What a push hands to its caller: the lines returned, or those the error carries.\<close>

fun handed_over :: "line_too_long + text16 list \<Rightarrow> text16 list" where
  "handed_over (Inr out) = out"
| "handed_over (Inl e) = completed e"

text \<open>A stream read chunk by chunk, by a caller that keeps the lines an error carries and goes on.\<close>

fun push_all :: "splitter \<Rightarrow> bytes list \<Rightarrow> text16 list \<times> splitter" where
  "push_all s [] = ([], s)"
| "push_all s (c # cs) =
    (let (r, s') = push s c; (out, s'') = push_all s' cs in (handed_over r @ out, s''))"

lemma push_all_append:
  "push_all s (as @ bs) =
    (let (out, s') = push_all s as; (out', s'') = push_all s' bs in (out @ out', s''))"
  by (induction as arbitrary: s) (simp_all add: Let_def split: prod.splits)

section \<open>The lines of a text\<close>

text \<open>The specification: the lines a text completes, and what follows its last newline.\<close>

function lines_and_residue :: "text16 \<Rightarrow> text16 list \<times> text16" where
  "lines_and_residue t =
    (case newline_at t of
       None \<Rightarrow> ([], t)
     | Some n \<Rightarrow> (case lines_and_residue (drop (Suc n) t) of (ls, r) \<Rightarrow> (take n t # ls, r)))"
  by pat_completeness auto
termination
  by (relation "measure length") (auto dest: newline_at_Some)

declare lines_and_residue.simps [simp del]

definition complete_lines :: "text16 \<Rightarrow> text16 list" where
  "complete_lines t = fst (lines_and_residue t)"

definition residue :: "text16 \<Rightarrow> text16" where
  "residue t = snd (lines_and_residue t)"

lemma lines_unterminated [simp]:
  "NL \<notin> set t \<Longrightarrow> complete_lines t = [] \<and> residue t = t"
  by (simp add: complete_lines_def residue_def lines_and_residue.simps [of t]
      newline_at_None [symmetric])

lemma lines_terminated [simp]:
  "NL \<notin> set a \<Longrightarrow> complete_lines (a @ NL # b) = a # complete_lines b"
  "NL \<notin> set a \<Longrightarrow> residue (a @ NL # b) = residue b"
  by (simp_all add: complete_lines_def residue_def lines_and_residue.simps [of "a @ NL # b"]
      newline_at_append split: prod.splits)

lemma lines_newline [simp]:
  "complete_lines (NL # b) = [] # complete_lines b" "residue (NL # b) = residue b"
  using lines_terminated [of "[]" b] by simp_all

lemma text_cases [case_names unterminated terminated]:
  assumes "NL \<notin> set t \<Longrightarrow> P" and "\<And>a b. t = a @ NL # b \<Longrightarrow> NL \<notin> set a \<Longrightarrow> P"
  shows P
  using assms split_list_first [of NL t] by blast

lemma text_induct [case_names unterminated terminated]:
  assumes "\<And>t. NL \<notin> set t \<Longrightarrow> P t" and "\<And>a b. NL \<notin> set a \<Longrightarrow> P b \<Longrightarrow> P (a @ NL # b)"
  shows "P t"
proof (induction t rule: length_induct)
  case (1 t)
  then show ?case by (cases t rule: text_cases) (auto intro: assms)
qed

text \<open>The two parts make the text up again, which determines them.\<close>

lemma lines_framing:
  "concat (map (\<lambda>l. l @ [NL]) (complete_lines t)) @ residue t = t"
  by (induction t rule: text_induct) auto

lemma lines_clean: "NL \<notin> set (residue t) \<and> (\<forall>l \<in> set (complete_lines t). NL \<notin> set l)"
  by (induction t rule: text_induct) auto

lemma lines_append:
  "complete_lines (s @ t) = complete_lines s @ complete_lines (residue s @ t)"
  "residue (s @ t) = residue (residue s @ t)"
  by (induction s rule: text_induct) auto

lemma lines_append_framed:
  assumes "residue s = []"
  shows "complete_lines (s @ t) = complete_lines s @ complete_lines t" and "residue (s @ t) = residue t"
  using assms lines_append [of s t] by simp_all

text \<open>The lines a reader is owed: the complete ones within the cap, without their carriage return.\<close>

definition owed :: "text16 \<Rightarrow> text16 list" where
  "owed t = map stripCr (filter (\<lambda>l. length l \<le> MAX_LINE_UNITS) (complete_lines t))"

lemma owed_append_framed: "residue s = [] \<Longrightarrow> owed (s @ t) = owed s @ owed t"
  by (simp add: owed_def lines_append_framed)

lemma owed_unterminated [simp]: "NL \<notin> set t \<Longrightarrow> owed t = []"
  by (simp add: owed_def)

lemma owed_terminated:
  "NL \<notin> set a \<Longrightarrow> owed (a @ NL # b) = (if length a \<le> MAX_LINE_UNITS then [stripCr a] else []) @ owed b"
  by (simp add: owed_def)

section \<open>Which lines come out\<close>

text \<open>
  What holds of a splitter that has decoded \<open>t\<close> and handed over \<open>e\<close>: either the text not yet
  handed over is its buffer, which starts a line, or it is inside a line over the cap.
\<close>

definition owes :: "text16 \<Rightarrow> text16 list \<Rightarrow> splitter \<Rightarrow> bool" where
  "owes t e s \<longleftrightarrow>
    (if resyncing s then buffer s = [] \<and> e = owed t \<and> MAX_LINE_UNITS < length (residue t)
     else \<exists>p. t = p @ buffer s \<and> residue p = [] \<and> e = owed p)"

lemma drain_loop_owes:
  assumes "drain_loop rest out = (r, b, lost)" and "residue p = []" and "e @ out = owed p"
  shows "owes (p @ rest) (e @ handed_over r) (s\<lparr>buffer := b, resyncing := lost\<rparr>) \<and>
         (\<forall>ls. r = Inr ls \<longrightarrow> NL \<notin> set b)"
  using assms
proof (induction rest out arbitrary: p rule: drain_loop.induct)
  case (1 rest out)
  show ?case
  proof (cases "newline_at rest")
    case None
    then have clean: "NL \<notin> set rest" by (simp add: newline_at_None)
    then have "owed (p @ rest) = owed p" and "residue (p @ rest) = rest"
      using 1 by (simp_all add: owed_append_framed lines_append_framed)
    with None clean 1(2,3,4) show ?thesis
      by (auto simp: drain_loop.simps [of rest] owes_def split: if_splits)
  next
    case (Some nl)
    let ?l = "take nl rest" let ?b = "drop (Suc nl) rest" let ?p = "p @ ?l @ [NL]"
    from newline_at_Some [OF Some] have rest: "rest = ?l @ NL # ?b" and clean: "NL \<notin> set ?l"
      and len: "length ?l = nl" by auto
    from clean 1(3) have framed: "residue ?p = []"
      and owed: "owed ?p = owed p @ (if nl \<le> MAX_LINE_UNITS then [stripCr ?l] else [])"
      using len by (simp_all add: lines_append_framed owed_append_framed owed_terminated)
    have whole: "p @ rest = ?p @ ?b" using rest by simp
    show ?thesis
    proof (cases "nl > MAX_LINE_UNITS")
      case True
      with Some 1(2) have "r = Inl (LineTooLong nl out)" "b = ?b" "\<not> lost"
        by (simp_all add: drain_loop.simps [of rest])
      with True framed owed 1(4) show ?thesis
        by (auto simp: owes_def whole simp del: append_assoc intro!: exI [of _ ?p])
    next
      case False
      with Some 1(2) have "drain_loop ?b (out @ [stripCr ?l]) = (r, b, lost)"
        by (simp add: drain_loop.simps [of rest])
      from 1(1) [OF Some False this framed] False owed 1(4) show ?thesis by (simp add: whole)
    qed
  qed
qed

lemma drain_owes:
  assumes "drain s = (r, s')" and "\<not> resyncing s" and "residue p = []" and "e = owed p"
  shows "owes (p @ buffer s) (e @ handed_over r) s'" and "\<forall>ls. r = Inr ls \<longrightarrow> NL \<notin> set (buffer s')"
    and "decoder s' = decoder s"
proof -
  obtain b lost where d: "drain_loop (buffer s) [] = (r, b, lost)"
    and s': "s' = s\<lparr>buffer := b, resyncing := lost\<rparr>"
    using assms(1,2) by (auto simp: drain_def split: prod.splits)
  from drain_loop_owes [OF d assms(3), of e s] assms(4)
  show "owes (p @ buffer s) (e @ handed_over r) s'" "\<forall>ls. r = Inr ls \<longrightarrow> NL \<notin> set (buffer s')"
    "decoder s' = decoder s"
    by (simp_all add: s')
qed

lemma push_owes:
  assumes "owes t e s" and "utf8_decode (decoder s) chunk = (d, us)" and "push s chunk = (r, s')"
  shows "owes (t @ us) (e @ handed_over r) s'" and "\<forall>ls. r = Inr ls \<longrightarrow> NL \<notin> set (buffer s')"
    and "decoder s' = d"
proof -
  let ?s = "s\<lparr>decoder := d, buffer := buffer s @ us\<rparr>"
  have "owes (t @ us) (e @ handed_over r) s' \<and> (\<forall>ls. r = Inr ls \<longrightarrow> NL \<notin> set (buffer s')) \<and> decoder s' = d"
  proof (cases "resyncing s")
    case False
    with assms(1) obtain p where p: "t = p @ buffer s" "residue p = []" "e = owed p"
      by (auto simp: owes_def)
    from False assms(2,3) have "drain ?s = (r, s')" by (simp add: push_def)
    from drain_owes [OF this _ p(2,3)] False p(1) show ?thesis by simp
  next
    case True
    with assms(1) have t: "buffer s = []" "e = owed t" "MAX_LINE_UNITS < length (residue t)"
      by (simp_all add: owes_def)
    have clean: "NL \<notin> set (residue t)" using lines_clean by blast
    show ?thesis
    proof (cases "newline_at us")
      case None
      with True assms(2,3) t(1) have "r = Inr []" "s' = ?s\<lparr>buffer := []\<rparr>" by (simp_all add: push_def)
      moreover have "NL \<notin> set (residue t @ us)" using None clean by (simp add: newline_at_None)
      ultimately show ?thesis using True t(2,3)
        by (simp add: owes_def lines_append [of t us] owed_def)
    next
      case (Some nl)
      let ?l = "take nl us" let ?b = "drop (Suc nl) us" let ?p = "t @ ?l @ [NL]"
      from newline_at_Some [OF Some] have us: "us = ?l @ NL # ?b" and "NL \<notin> set ?l" by auto
      then have long: "NL \<notin> set (residue t @ ?l)" using clean by simp
      have "residue ?p = []" "owed ?p = owed t"
        using lines_terminated [OF long, of "[]"] t(3)
        by (simp_all add: lines_append [of t "?l @ [NL]"] owed_def)
      moreover from True Some assms(2,3) t(1)
      have "drain (?s\<lparr>buffer := ?b, resyncing := False\<rparr>) = (r, s')" by (simp add: push_def)
      ultimately show ?thesis
        using drain_owes [of "?s\<lparr>buffer := ?b, resyncing := False\<rparr>" r s' ?p e] t(2)
          arg_cong [OF us, of "\<lambda>u. t @ u"]
        by simp
    qed
  qed
  then show "owes (t @ us) (e @ handed_over r) s'" "\<forall>ls. r = Inr ls \<longrightarrow> NL \<notin> set (buffer s')"
    "decoder s' = d" by blast+
qed

lemma owes_new: "owes [] [] new_splitter"
  by (simp add: owes_def new_splitter_def)

lemma push_all_owes:
  assumes "owes t e s" and "utf8_decode (decoder s) (concat chunks) = (d, us)"
    and "push_all s chunks = (out, s')"
  shows "owes (t @ us) (e @ out) s' \<and> decoder s' = d"
  using assms
proof (induction chunks arbitrary: t e s us out)
  case (Cons c cs)
  obtain d1 us1 where d1: "utf8_decode (decoder s) c = (d1, us1)" by fastforce
  obtain r s1 where r: "push s c = (r, s1)" by fastforce
  obtain us2 where d2: "utf8_decode d1 (concat cs) = (d, us2)" and us: "us = us1 @ us2"
    using Cons.prems(2) d1 by (auto simp: utf8_decode_append split: prod.splits)
  obtain out2 where o2: "push_all s1 cs = (out2, s')" and out: "out = handed_over r @ out2"
    using Cons.prems(3) r by (auto split: prod.splits)
  note step = push_owes [OF Cons.prems(1) d1 r]
  from Cons.IH [OF step(1) _ o2, of us2] d2 step(3) us out show ?case by simp
qed simp

text \<open>At every moment: what has come out and what the buffer still holds are the lines owed.\<close>

lemma push_all_accounted:
  assumes "push_all new_splitter chunks = (out, s)"
  shows "out @ owed (buffer s) = owed (decoded (concat chunks))"
proof -
  obtain d us where d: "utf8_decode utf8_start (concat chunks) = (d, us)" by fastforce
  then have "owes us out s" using push_all_owes [OF owes_new _ assms, of d us]
    by (simp add: new_splitter_def)
  with d show ?thesis
    by (auto simp: owes_def owed_append_framed split: if_splits)
qed

text \<open>
  C24: however a stream is cut into chunks, a caller that keeps the lines an error carries loses
  none and is handed no fragment: what it has been handed, in order, with the complete lines the
  buffer still holds, is exactly the lines of the decoded stream that are not over the cap. After a
  push that returns normally the buffer holds no complete line, so it has been handed all of them.
\<close>

theorem splitter_lines_exact:
  assumes "push_all new_splitter chunks = (out, s)" and "push s c = (r, s')"
  shows "out @ handed_over r @ owed (buffer s') = owed (decoded (concat chunks @ c)) \<and>
    (\<forall>ls. r = Inr ls \<longrightarrow> NL \<notin> set (buffer s') \<and> out @ ls = owed (decoded (concat chunks @ c)))"
proof (intro conjI allI impI)
  have all: "push_all new_splitter (chunks @ [c]) = (out @ handed_over r, s')"
    using assms by (simp add: push_all_append)
  from push_all_accounted [OF this]
  show acc: "out @ handed_over r @ owed (buffer s') = owed (decoded (concat chunks @ c))" by simp
  fix ls assume "r = Inr ls"
  moreover obtain d us where d: "utf8_decode utf8_start (concat chunks) = (d, us)" by fastforce
  have "owes us out s" using push_all_owes [OF owes_new _ assms(1), of d us] d
    by (simp add: new_splitter_def)
  obtain d' us' where "utf8_decode (decoder s) c = (d', us')" by fastforce
  from push_owes(2) [OF \<open>owes us out s\<close> this assms(2)] \<open>r = Inr ls\<close>
  show "NL \<notin> set (buffer s')" by simp
  ultimately show "out @ ls = owed (decoded (concat chunks @ c))" using acc by simp
qed

lemma splitter_lines_exact_witness:
  "[] @ [[123, 125]] = owed (decoded (concat [[123]] @ [125, 13, 10, 195]))"
proof -
  obtain s where s: "push_all new_splitter [[123]] = ([], s)"
    and p: "\<exists>s'. push s [125, 13, 10, 195] = (Inr [[123, 125]], s')"
    by (simp add: new_splitter_def push_def utf8_start_def utf8_step_def utf8_lead_def utf8_emit_def
        utf8_idle_def utf16_def drain_def drain_loop.simps MAX_LINE_UNITS_def stripCr_def)
  from p obtain s' where "push s [125, 13, 10, 195] = (Inr [[123, 125]], s')" by blast
  from splitter_lines_exact [OF s this] show ?thesis by simp
qed

text \<open>
  The other side of the cap. A push that meets a complete line over the cap leaves what follows
  it in the buffer, whole lines included, until the next push; if there is none, \<open>flush\<close> glues
  them together.
\<close>

abbreviation ascii :: "bytes \<Rightarrow> text16" where
  "ascii bs \<equiv> map (\<lambda>b. of_nat (unat b)) bs"

lemma ascii_no_newline: "10 \<notin> set bs \<Longrightarrow> NL \<notin> set (ascii bs)"
proof
  assume "10 \<notin> set bs" and "NL \<in> set (ascii bs)"
  then obtain b :: "8 word" where b: "b \<in> set bs" "(of_nat (unat b) :: 16 word) = 10" by auto
  have "unat b < 2 ^ LENGTH(8)" by (rule unsigned_less)
  then have "unat b < 256" by simp
  then have "unat (of_nat (unat b) :: 16 word) = unat b" by (simp only: unat_of_nat) simp
  with b(2) have "unat b = 10" by simp
  then have "b = 10" by (simp add: word_unat_eq_iff)
  with b(1) \<open>10 \<notin> set bs\<close> show False by simp
qed

lemma push_over_cap:
  assumes "\<forall>b \<in> set (as @ bs). unat b \<le> 127" and "10 \<notin> set as" and "length as > MAX_LINE_UNITS"
  shows "\<exists>d. needed d = 0 \<and> push new_splitter (as @ 10 # bs) =
    (Inl (LineTooLong (length as) []), \<lparr>decoder = d, buffer = ascii bs, resyncing = False\<rparr>)"
proof -
  obtain d us where d: "utf8_decode utf8_start (as @ 10 # bs) = (d, us)" by fastforce
  have ok: "\<forall>b \<in> set (as @ 10 # bs). unat b \<le> 127" using assms(1) by auto
  have us: "us = ascii as @ NL # ascii bs"
    using utf8_decode_ascii [OF _ ok, of utf8_start] d by (simp add: utf8_start_def)
  have idle: "needed d = 0"
    using utf8_decode_idle [OF _ ok, of utf8_start] d by (simp add: utf8_start_def)
  have "newline_at us = Some (length as)"
    using newline_at_append [OF ascii_no_newline [OF assms(2)], of "ascii bs"] us by simp
  then have "drain_loop us [] = (Inl (LineTooLong (length as) []), ascii bs, False)"
    using assms(3) by (subst drain_loop.simps) (simp add: us)
  then show ?thesis
    using d idle by (intro exI [of _ d]) (simp add: push_def new_splitter_def drain_def)
qed

text \<open>
  A complete line over the cap hides the lines after it. When no further chunk comes, the
  flush at the end of the stream returns all that followed as one "line" with newlines in it.
\<close>

theorem flush_glues_lines:
  assumes "\<forall>b \<in> set (as @ bs). unat b \<le> 127" and "10 \<notin> set as" and "length as > MAX_LINE_UNITS"
    and "bs \<noteq> []" and "last bs = 10"
  shows "\<exists>s. push new_splitter (as @ 10 # bs) = (Inl (LineTooLong (length as) []), s) \<and>
    fst (flush s) = [ascii bs]"
proof -
  from push_over_cap [OF assms(1-3)] obtain d where "needed d = 0" and
    "push new_splitter (as @ 10 # bs) = (Inl (LineTooLong (length as) []), \<lparr>decoder = d, buffer = ascii bs, resyncing = False\<rparr>)"
    by blast
  with assms(4,5) show ?thesis
    by (auto simp: flush_def utf8_finish_def stripCr_def last_map Let_def)
qed

lemma flush_glues_lines_witness:
  "\<exists>s. push new_splitter (replicate (Suc MAX_LINE_UNITS) 120 @ 10 # [97, 10, 98, 10]) =
      (Inl (LineTooLong (Suc MAX_LINE_UNITS) []), s) \<and> fst (flush s) = [[97, 10, 98, 10]]"
  using flush_glues_lines [of "replicate (Suc MAX_LINE_UNITS) 120" "[97, 10, 98, 10]"] by simp

end
