(* ===== verification/Tail_Reader.thy ===== *)
theory Tail_Reader
  imports Jsonl
begin

text \<open>
  \<open>TailReader\<close> of \<open>src/util/jsonl.ts\<close>: a file followed by offset, with a fingerprint of its head
  and of the bytes before the offset, so that a file that shrank, was replaced or was rewritten
  in place is read again from its start. The file system is a parameter: one poll looks at the
  file six times, and each look may find another file. The lemmas show that over a file that is
  only appended to the reader never restarts, whatever looks fail but that for the anchor at the
  end, and that what it handed over and its buffer still holds are the lines it passed; and that a
  restart makes it a new reader.
\<close>

section \<open>The reader\<close>

text \<open>
  A look at the file returns the bytes of a range, as \<open>slice(start, end)\<close> does (fewer when the file
  ends before), or fails. The digest of the fingerprints is a parameter.
\<close>

type_synonym look = "nat \<Rightarrow> nat \<Rightarrow> bytes option"

definition HEAD_FINGERPRINT_BYTES :: nat where "HEAD_FINGERPRINT_BYTES = 64"
definition TAIL_FINGERPRINT_BYTES :: nat where "TAIL_FINGERPRINT_BYTES = 64"

definition rangeHash :: "(bytes \<Rightarrow> 'h) \<Rightarrow> look \<Rightarrow> nat \<Rightarrow> nat \<Rightarrow> 'h option" where
  "rangeHash digest look start stop =
    (if stop \<le> start then None
     else case look start stop of
       None \<Rightarrow> None
     | Some bs \<Rightarrow> if length bs < stop - start then None else Some (digest bs))"

definition headHash :: "(bytes \<Rightarrow> 'h) \<Rightarrow> look \<Rightarrow> nat \<Rightarrow> 'h option" where
  "headHash digest look n =
    (if n = 0 then None
     else case look 0 n of
       None \<Rightarrow> None
     | Some bs \<Rightarrow> if length bs < n then None else Some (digest bs))"

datatype restart_reason = Shrank | Replaced | Head_rewritten | Tail_rewritten

record tail_restart =
  reasons :: "restart_reason list"
  abandonedOffset :: nat
  sizeAtDetection :: nat

record ('i, 'h) tail =
  offset :: nat
  identity :: "'i option"
  headLen :: nat
  headHashed :: "'h option"
  tailLen :: nat
  tailHashed :: "'h option"
  splitting :: splitter
  restarts :: nat
  lastRestart :: "tail_restart option"

definition new_tail :: "('i, 'h) tail" where
  "new_tail = \<lparr>offset = 0, identity = None, headLen = 0, headHashed = None, tailLen = 0,
     tailHashed = None, splitting = new_splitter, restarts = 0, lastRestart = None\<rparr>"

text \<open>
  What one poll finds: the size and identity of the file (device, inode and birth time), if it is
  there; the looks that check the head and the tail; the one that reads what was appended; and
  the looks that take the fingerprints anew.
\<close>

record 'i sight =
  sees_stat :: "(nat \<times> 'i) option"
  sees_head :: look
  sees_tail :: look
  sees_slice :: look
  anchors_head :: look
  anchors_tail :: look

datatype poll_error = Read_failed | Too_long line_too_long

definition changed :: "nat \<Rightarrow> 'h option \<Rightarrow> 'h option \<Rightarrow> bool" where
  "changed len stored fresh \<longleftrightarrow> len > 0 \<and> stored \<noteq> None \<and> fresh \<noteq> None \<and> fresh \<noteq> stored"

definition headChanged :: "(bytes \<Rightarrow> 'h) \<Rightarrow> ('i, 'h) tail \<Rightarrow> 'i sight \<Rightarrow> bool" where
  "headChanged digest r v =
    changed (headLen r) (headHashed r) (headHash digest (sees_head v) (headLen r))"

definition tailChanged :: "(bytes \<Rightarrow> 'h) \<Rightarrow> ('i, 'h) tail \<Rightarrow> 'i sight \<Rightarrow> bool" where
  "tailChanged digest r v =
    changed (tailLen r) (tailHashed r)
      (rangeHash digest (sees_tail v) (offset r - tailLen r) (offset r))"

definition restart_reasons ::
  "(bytes \<Rightarrow> 'h) \<Rightarrow> ('i, 'h) tail \<Rightarrow> 'i sight \<Rightarrow> nat \<Rightarrow> 'i \<Rightarrow> restart_reason list" where
  "restart_reasons digest r v sz ident =
    (case identity r of
       None \<Rightarrow> []
     | Some was \<Rightarrow>
         (if sz < offset r then [Shrank] else []) @
         (if ident \<noteq> was then [Replaced] else []) @
         (if headChanged digest r v then [Head_rewritten] else []) @
         (if tailChanged digest r v then [Tail_rewritten] else []))"

definition restart :: "('i, 'h) tail \<Rightarrow> restart_reason list \<Rightarrow> nat \<Rightarrow> ('i, 'h) tail" where
  "restart r why sz =
    r\<lparr>restarts := restarts r + 1,
      lastRestart := Some \<lparr>reasons = why, abandonedOffset = offset r, sizeAtDetection = sz\<rparr>,
      offset := 0, headLen := 0, headHashed := None, tailLen := 0, tailHashed := None,
      splitting := new_splitter\<rparr>"

definition anchor_head :: "(bytes \<Rightarrow> 'h) \<Rightarrow> look \<Rightarrow> ('i, 'h) tail \<Rightarrow> ('i, 'h) tail" where
  "anchor_head digest look r =
    (if headHashed r = None \<and> offset r > 0 then
       let n = min (offset r) HEAD_FINGERPRINT_BYTES in
       case headHash digest look n of
         None \<Rightarrow> r
       | Some h \<Rightarrow> r\<lparr>headLen := n, headHashed := Some h\<rparr>
     else r)"

definition anchor_tail :: "(bytes \<Rightarrow> 'h) \<Rightarrow> look \<Rightarrow> ('i, 'h) tail \<Rightarrow> ('i, 'h) tail" where
  "anchor_tail digest look r =
    (if offset r > 0 then
       let n = min (offset r) TAIL_FINGERPRINT_BYTES in
       case rangeHash digest look (offset r - n) (offset r) of
         None \<Rightarrow> r
       | Some h \<Rightarrow> r\<lparr>tailLen := n, tailHashed := Some h\<rparr>
     else r)"

definition read_on ::
  "(bytes \<Rightarrow> 'h) \<Rightarrow> ('i, 'h) tail \<Rightarrow> 'i sight \<Rightarrow> nat \<Rightarrow> (poll_error + text16 list) \<times> ('i, 'h) tail" where
  "read_on digest r v sz =
    (if sz \<le> offset r then (Inr [], r)
     else case sees_slice v (offset r) sz of
       None \<Rightarrow> (Inl Read_failed, r)
     | Some bs \<Rightarrow>
         let r = r\<lparr>offset := offset r + length bs\<rparr>;
             r = anchor_tail digest (anchors_tail v) (anchor_head digest (anchors_head v) r)
         in case push (splitting r) bs of
              (Inr out, s) \<Rightarrow> (Inr out, r\<lparr>splitting := s\<rparr>)
            | (Inl e, s) \<Rightarrow> (Inl (Too_long e), r\<lparr>splitting := s\<rparr>))"

definition poll ::
  "(bytes \<Rightarrow> 'h) \<Rightarrow> ('i, 'h) tail \<Rightarrow> 'i sight \<Rightarrow> (poll_error + text16 list) \<times> ('i, 'h) tail" where
  "poll digest r v =
    (case sees_stat v of
       None \<Rightarrow> (Inr [], r)
     | Some (sz, ident) \<Rightarrow>
         let why = restart_reasons digest r v sz ident;
             r = (if why \<noteq> [] then restart r why sz else r)
         in read_on digest (r\<lparr>identity := Some ident\<rparr>) v sz)"

fun polled :: "poll_error + text16 list \<Rightarrow> text16 list" where
  "polled (Inr out) = out"
| "polled (Inl (Too_long e)) = completed e"
| "polled (Inl Read_failed) = []"

fun poll_all ::
  "(bytes \<Rightarrow> 'h) \<Rightarrow> ('i, 'h) tail \<Rightarrow> 'i sight list \<Rightarrow> text16 list \<times> ('i, 'h) tail" where
  "poll_all digest r [] = ([], r)"
| "poll_all digest r (v # vs) =
    (let (l, r') = poll digest r v; (out, r'') = poll_all digest r' vs in (polled l @ out, r''))"

lemma poll_all_append:
  "poll_all digest r (vs @ ws) =
    (let (out, r') = poll_all digest r vs; (out', r'') = poll_all digest r' ws in (out @ out', r''))"
  by (induction vs arbitrary: r) (simp_all add: Let_def split: prod.splits)

section \<open>A file that is appended to\<close>

text \<open>
  \<open>glimpse f lo hi look\<close>: the look fails, or finds the file at some moment at which it held a
  prefix of \<open>f\<close> at least \<open>lo\<close> and at most \<open>hi\<close> long.
\<close>

definition glimpse :: "bytes \<Rightarrow> nat \<Rightarrow> nat \<Rightarrow> look \<Rightarrow> bool" where
  "glimpse f lo hi look \<longleftrightarrow>
    (\<forall>a b. look a b = None \<or>
      (\<exists>n. lo \<le> n \<and> n \<le> hi \<and> look a b = Some (take (b - a) (drop a (take n f)))))"

text \<open>
  One poll of such a file, which holds \<open>lo\<close> bytes before it, \<open>mid\<close> when the appended bytes are read
  and \<open>hi\<close> after it, and which keeps its identity. Every look may fail but the last, which anchors
  the frontier.
\<close>

definition appending :: "bytes \<Rightarrow> 'i \<Rightarrow> nat \<Rightarrow> nat \<Rightarrow> nat \<Rightarrow> 'i sight \<Rightarrow> bool" where
  "appending f ident lo mid hi v \<longleftrightarrow>
    lo \<le> mid \<and> mid \<le> hi \<and> hi \<le> length f \<and>
    (\<forall>sz i. sees_stat v = Some (sz, i) \<longrightarrow> i = ident \<and> lo \<le> sz \<and> sz \<le> mid) \<and>
    glimpse f lo mid (sees_head v) \<and> glimpse f lo mid (sees_tail v) \<and>
    glimpse f mid mid (sees_slice v) \<and>
    glimpse f mid hi (anchors_head v) \<and> glimpse f mid hi (anchors_tail v) \<and>
    (\<forall>a b. anchors_tail v a b \<noteq> None)"

fun appended :: "bytes \<Rightarrow> 'i \<Rightarrow> nat \<Rightarrow> 'i sight list \<Rightarrow> bool" where
  "appended f ident lo [] \<longleftrightarrow> True"
| "appended f ident lo (v # vs) \<longleftrightarrow>
    (\<exists>mid hi. appending f ident lo mid hi v \<and> appended f ident hi vs)"

text \<open>What holds of the reader between polls of such a file that has handed over \<open>e\<close>.\<close>

definition head_ok :: "(bytes \<Rightarrow> 'h) \<Rightarrow> bytes \<Rightarrow> ('i, 'h) tail \<Rightarrow> bool" where
  "head_ok digest f r \<longleftrightarrow> headLen r \<le> offset r \<and>
    (\<forall>h. headHashed r = Some h \<longrightarrow> h = digest (take (headLen r) f))"

definition tail_ok :: "(bytes \<Rightarrow> 'h) \<Rightarrow> bytes \<Rightarrow> ('i, 'h) tail \<Rightarrow> bool" where
  "tail_ok digest f r \<longleftrightarrow> tailLen r \<le> offset r \<and>
    (\<forall>h. tailHashed r = Some h \<longrightarrow> h = digest (take (tailLen r) (drop (offset r - tailLen r) f)))"

definition lines_ok :: "bytes \<Rightarrow> text16 list \<Rightarrow> splitter \<Rightarrow> bool" where
  "lines_ok b e s \<longleftrightarrow> (\<exists>t. utf8_decode utf8_start b = (decoder s, t) \<and> owes t e s)"

definition in_step :: "(bytes \<Rightarrow> 'h) \<Rightarrow> bytes \<Rightarrow> 'i \<Rightarrow> nat \<Rightarrow> text16 list \<Rightarrow> ('i, 'h) tail \<Rightarrow> bool" where
  "in_step digest f ident lo e r \<longleftrightarrow>
    offset r \<le> lo \<and> lo \<le> length f \<and> restarts r = 0 \<and>
    (identity r = None \<or> identity r = Some ident) \<and>
    head_ok digest f r \<and> tail_ok digest f r \<and> lines_ok (take (offset r) f) e (splitting r)"

lemma in_step_new: "in_step digest f ident 0 [] new_tail"
  by (simp add: in_step_def new_tail_def head_ok_def tail_ok_def lines_ok_def owes_new)
    (simp add: new_splitter_def)

lemma glimpse_rangeHash:
  assumes "glimpse f lo hi look" and "stop \<le> lo" and "hi \<le> length f" and "rangeHash digest look start stop = Some h"
  shows "h = digest (take (stop - start) (drop start f))"
proof -
  from assms(4) obtain bs where bs: "look start stop = Some bs" "h = digest bs"
    by (auto simp: rangeHash_def split: if_splits option.splits)
  from assms(1) bs(1) obtain n where "lo \<le> n" "n \<le> hi" "bs = take (stop - start) (drop start (take n f))"
    unfolding glimpse_def by (metis option.discI option.sel)
  then have "bs = take (stop - start) (drop start f)" using assms(2,3)
    by (simp add: drop_take min_def)
  with bs(2) show ?thesis by simp
qed

lemma glimpse_headHash:
  assumes "glimpse f lo hi look" and "n \<le> lo" and "hi \<le> length f" and "headHash digest look n = Some h"
  shows "h = digest (take n f)"
proof -
  have "rangeHash digest look 0 n = Some h"
    using assms(4) by (auto simp: headHash_def rangeHash_def split: if_splits option.splits)
  from glimpse_rangeHash [OF assms(1,2,3) this] show ?thesis by simp
qed

lemma glimpse_rangeHash_reads:
  assumes "glimpse f lo hi look" and "stop \<le> lo" and "hi \<le> length f" and "start < stop"
    and "look start stop \<noteq> None"
  shows "rangeHash digest look start stop \<noteq> None"
proof -
  from assms(1,5) obtain n where n: "lo \<le> n" "n \<le> hi"
    "look start stop = Some (take (stop - start) (drop start (take n f)))"
    unfolding glimpse_def by metis
  then show ?thesis using assms(2-4) by (auto simp: rangeHash_def)
qed

text \<open>No reason to restart arises, so the poll reads on.\<close>

lemma appending_no_restart:
  assumes "in_step digest f ident lo e r" and "appending f ident lo mid hi v"
    and "sees_stat v = Some (sz, i)"
  shows "restart_reasons digest r v sz i = []" and "i = ident" and "sz \<le> mid"
proof -
  note st = assms(1) [unfolded in_step_def head_ok_def tail_ok_def] and ap = assms(2) [unfolded appending_def]
  show i: "i = ident" and "sz \<le> mid" using ap assms(3) by blast+
  have "lo \<le> sz" using ap assms(3) by blast
  moreover have "\<not> headChanged digest r v"
  proof
    assume "headChanged digest r v"
    then obtain h h' where "headHashed r = Some h" "headHash digest (sees_head v) (headLen r) = Some h'" "h' \<noteq> h"
      by (auto simp: headChanged_def changed_def)
    with st ap glimpse_headHash [of f lo mid "sees_head v" "headLen r" digest h'] show False by auto
  qed
  moreover have "\<not> tailChanged digest r v"
  proof
    assume "tailChanged digest r v"
    then obtain h h' where "tailHashed r = Some h" "h' \<noteq> h"
      and h': "rangeHash digest (sees_tail v) (offset r - tailLen r) (offset r) = Some h'"
      by (auto simp: tailChanged_def changed_def)
    moreover have "h' = digest (take (tailLen r) (drop (offset r - tailLen r) f))"
      using glimpse_rangeHash [of f lo mid "sees_tail v" "offset r" digest _ h'] h' st ap by fastforce
    ultimately show False using st by blast
  qed
  ultimately show "restart_reasons digest r v sz i = []"
    using st i by (auto simp: restart_reasons_def split: option.splits)
qed

lemma anchor_head_fields [simp]:
  "offset (anchor_head digest look r) = offset r" "restarts (anchor_head digest look r) = restarts r"
  "identity (anchor_head digest look r) = identity r"
  "splitting (anchor_head digest look r) = splitting r"
  by (simp_all add: anchor_head_def Let_def split: option.splits)

lemma anchor_tail_fields [simp]:
  "offset (anchor_tail digest look r) = offset r" "restarts (anchor_tail digest look r) = restarts r"
  "identity (anchor_tail digest look r) = identity r"
  "splitting (anchor_tail digest look r) = splitting r"
  "head_ok digest f (anchor_tail digest look r) = head_ok digest f r"
  by (simp_all add: anchor_tail_def head_ok_def Let_def split: option.splits)

lemma ok_splitting [simp]:
  "head_ok digest f (r\<lparr>splitting := s\<rparr>) = head_ok digest f r"
  "tail_ok digest f (r\<lparr>splitting := s\<rparr>) = tail_ok digest f r"
  by (simp_all add: head_ok_def tail_ok_def)

lemma head_ok_forward: "head_ok digest f r \<Longrightarrow> head_ok digest f (r\<lparr>offset := offset r + n\<rparr>)"
  by (simp add: head_ok_def trans_le_add1)

lemma anchor_head_ok:
  assumes "head_ok digest f r" and "glimpse f lo hi look" and "offset r \<le> lo" and "hi \<le> length f"
  shows "head_ok digest f (anchor_head digest look r)"
proof (cases "headHash digest look (min (offset r) HEAD_FINGERPRINT_BYTES)")
  case (Some h)
  from glimpse_headHash [OF assms(2) _ assms(4) Some] assms(3)
  have "h = digest (take (min (offset r) HEAD_FINGERPRINT_BYTES) f)" by simp
  with assms(1) Some show ?thesis by (simp add: anchor_head_def head_ok_def Let_def)
qed (use assms(1) in \<open>simp add: anchor_head_def Let_def\<close>)

lemma anchor_tail_ok:
  assumes "glimpse f lo hi look" and "offset r \<le> lo" and "hi \<le> length f" and "0 < offset r"
    and "\<forall>a b. look a b \<noteq> None"
  shows "tail_ok digest f (anchor_tail digest look r)"
proof -
  let ?n = "min (offset r) TAIL_FINGERPRINT_BYTES"
  have "offset r - ?n < offset r" using assms(4) by (simp add: TAIL_FINGERPRINT_BYTES_def)
  from glimpse_rangeHash_reads [OF assms(1,2,3) this] assms(5)
  obtain h where h: "rangeHash digest look (offset r - ?n) (offset r) = Some h" by fast
  from glimpse_rangeHash [OF assms(1,2,3) h] h assms(4) show ?thesis
    by (simp add: anchor_tail_def tail_ok_def Let_def)
qed

lemma push_lines_ok:
  assumes "lines_ok b e s" and "push s c = (r, s')"
  shows "lines_ok (b @ c) (e @ handed_over r) s'"
proof -
  obtain t where t: "utf8_decode utf8_start b = (decoder s, t)" "owes t e s"
    using assms(1) by (auto simp: lines_ok_def)
  obtain d us where d: "utf8_decode (decoder s) c = (d, us)" by fastforce
  from push_owes [OF t(2) d assms(2)] t(1) d show ?thesis
    by (simp add: lines_ok_def utf8_decode_append)
qed

lemma polled_push:
  "polled (case push s bs of (Inr out, s') \<Rightarrow> Inr out | (Inl e, s') \<Rightarrow> Inl (Too_long e)) =
   handed_over (fst (push s bs))"
  by (cases "push s bs") (auto split: sum.splits)

lemma read_on_in_step:
  assumes "in_step digest f ident lo e r" and "appending f ident lo mid hi v" and "sz \<le> mid"
    and "read_on digest r v sz = (out, r')"
  shows "in_step digest f ident hi (e @ polled out) r'"
proof -
  note st = assms(1) [unfolded in_step_def] and ap = assms(2) [unfolded appending_def]
  consider (none) "sz \<le> offset r" | (failed) "offset r < sz" "sees_slice v (offset r) sz = None"
    | (bs) bs where "offset r < sz" "sees_slice v (offset r) sz = Some bs" by fastforce
  then show ?thesis
  proof cases
    case (bs bs)
    have read: "bs = take (sz - offset r) (drop (offset r) (take mid f))"
      using ap bs(2) unfolding glimpse_def by (metis le_antisym option.discI option.sel)
    have len: "length bs = sz - offset r" using read st ap assms(3) by simp
    have whole: "take (offset r) f @ bs = take sz f"
      using read bs(1) assms(3) by (simp add: drop_take min_def)
        (metis add.commute le_add_diff_inverse2 less_imp_le_nat take_add)
    let ?r = "r\<lparr>offset := offset r + length bs\<rparr>"
    let ?a = "anchor_tail digest (anchors_tail v) (anchor_head digest (anchors_head v) ?r)"
    obtain q s where p: "push (splitting r) bs = (q, s)" by fastforce
    have off: "offset ?r = sz" using bs(1) len by simp
    have "head_ok digest f ?a"
      using anchor_head_ok [OF head_ok_forward, of digest f r mid hi "anchors_head v" "length bs"]
        st ap assms(3) off by simp
    moreover have "tail_ok digest f ?a"
      using anchor_tail_ok [of f mid hi "anchors_tail v" "anchor_head digest (anchors_head v) ?r" digest]
        ap assms(3) off bs(1) by simp
    moreover have "lines_ok (take sz f) (e @ handed_over q) s"
      using push_lines_ok [OF _ p, of "take (offset r) f" e] st whole by simp
    moreover have "r' = ?a\<lparr>splitting := s\<rparr>" and "polled out = handed_over q"
      using assms(4) bs p by (auto simp: read_on_def Let_def split: sum.splits)
    ultimately show ?thesis
      using st ap assms(3) off by (simp add: in_step_def)
  qed (use assms in \<open>auto simp: read_on_def in_step_def appending_def\<close>)
qed

lemma poll_in_step:
  assumes "in_step digest f ident lo e r" and "appending f ident lo mid hi v"
    and "poll digest r v = (out, r')"
  shows "in_step digest f ident hi (e @ polled out) r'"
proof (cases "sees_stat v")
  case None
  with assms show ?thesis by (auto simp: poll_def in_step_def appending_def)
next
  case (Some si)
  obtain sz i where si: "si = (sz, i)" by fastforce
  note none = appending_no_restart [OF assms(1,2) Some [unfolded si]]
  have "in_step digest f ident lo e (r\<lparr>identity := Some ident\<rparr>)"
    using assms(1) by (simp add: in_step_def head_ok_def tail_ok_def)
  from read_on_in_step [OF this assms(2) none(3)] assms(3) none(1,2) Some si
  show ?thesis by (simp add: poll_def)
qed

lemma poll_all_in_step:
  assumes "in_step digest f ident lo e r" and "appended f ident lo vs"
    and "poll_all digest r vs = (out, r')"
  shows "\<exists>hi. in_step digest f ident hi (e @ out) r'"
  using assms
proof (induction vs arbitrary: lo e r out)
  case (Cons v vs)
  from Cons.prems(2) obtain mid hi where v: "appending f ident lo mid hi v" "appended f ident hi vs"
    by auto
  obtain q r1 where q: "poll digest r v = (q, r1)" by fastforce
  with Cons.prems(3) obtain out1 where "poll_all digest r1 vs = (out1, r')" "out = polled q @ out1"
    by (auto split: prod.splits)
  with Cons.IH [OF poll_in_step [OF Cons.prems(1) v(1) q] v(2)] show ?case by simp
qed auto

text \<open>
  C23: a reader that follows a file others only append to, and that keeps its identity, never
  restarts, whichever looks fail but one: the look that takes the anchor at the end of what was
  read, after a poll, must succeed, since without it the old anchor stays and no longer fits. What
  it has handed over, with the complete lines its buffer still holds, is exactly the lines of the
  bytes it has passed that are not over the cap.
\<close>

theorem tail_follows_appends:
  assumes "appended f ident 0 vs" and "poll_all digest new_tail vs = (out, r)"
  shows "restarts r = 0 \<and> offset r \<le> length f \<and>
    out @ owed (buffer (splitting r)) = owed (decoded (take (offset r) f))"
proof -
  from poll_all_in_step [OF in_step_new assms] obtain hi where st: "in_step digest f ident hi out r"
    by auto
  then obtain t where t: "utf8_decode utf8_start (take (offset r) f) = (decoder (splitting r), t)"
    "owes t out (splitting r)" by (auto simp: in_step_def lines_ok_def)
  from t(2) have "out @ owed (buffer (splitting r)) = owed t"
    by (auto simp: owes_def owed_append_framed split: if_splits)
  with st t(1) show ?thesis by (simp add: in_step_def)
qed

text \<open>An unchanged file, seen without failures.\<close>

definition plain_look :: "bytes \<Rightarrow> look" where
  "plain_look f a b = Some (take (b - a) (drop a f))"

definition plain_sight :: "bytes \<Rightarrow> 'i \<Rightarrow> 'i sight" where
  "plain_sight f ident = \<lparr>sees_stat = Some (length f, ident), sees_head = plain_look f,
     sees_tail = plain_look f, sees_slice = plain_look f, anchors_head = plain_look f,
     anchors_tail = plain_look f\<rparr>"

lemma glimpse_plain: "n \<le> length f \<Longrightarrow> glimpse f n n (plain_look (take n f))"
  by (auto simp: glimpse_def plain_look_def)

lemma appending_plain: "lo \<le> n \<Longrightarrow> n \<le> length f \<Longrightarrow> appending f ident lo n n (plain_sight (take n f) ident)"
  using glimpse_plain [of n f]
  by (auto simp: appending_def plain_sight_def glimpse_def plain_look_def)

lemma tail_follows_appends_witness:
  "let f = [123, 125, 10, 91, 93, 10];
       (out, r) = poll_all length new_tail [plain_sight (take 4 f) CHR ''a'', plain_sight (take 6 f) CHR ''a'']
   in restarts r = 0 \<and> offset r \<le> length f \<and>
      out @ owed (buffer (splitting r)) = owed (decoded (take (offset r) f))"
proof -
  let ?f = "[123, 125, 10, 91, 93, 10] :: bytes"
  have "appended ?f CHR ''a'' 0 [plain_sight (take 4 ?f) CHR ''a'', plain_sight (take 6 ?f) CHR ''a'']"
    using appending_plain [of 0 4 ?f] appending_plain [of 4 6 ?f] by (auto simp only: appended.simps) force
  from tail_follows_appends [OF this, of length]
  show ?thesis by (simp only: Let_def split: prod.splits) blast
qed

text \<open>Once a reason to restart is found the reader goes on as a new one would.\<close>

definition marked :: "nat \<Rightarrow> tail_restart option \<Rightarrow> ('i, 'h) tail \<Rightarrow> ('i, 'h) tail" where
  "marked n l r = r\<lparr>restarts := n, lastRestart := l\<rparr>"

lemma anchors_marked [simp]:
  "anchor_head digest look (marked n l r) = marked n l (anchor_head digest look r)"
  "anchor_tail digest look (marked n l r) = marked n l (anchor_tail digest look r)"
  by (simp_all add: marked_def anchor_head_def anchor_tail_def Let_def split: option.splits)

lemma marked_update [simp]:
  "(marked n l r)\<lparr>splitting := s\<rparr> = marked n l (r\<lparr>splitting := s\<rparr>)"
  "(marked n l r)\<lparr>offset := k\<rparr> = marked n l (r\<lparr>offset := k\<rparr>)"
  "splitting (marked n l r) = splitting r" "offset (marked n l r) = offset r"
  by (simp_all add: marked_def)

lemma read_on_marked:
  "read_on digest (marked n l r) v sz = apsnd (marked n l) (read_on digest r v sz)"
  by (simp add: read_on_def Let_def split: option.splits prod.splits sum.splits)

lemma poll_restarted:
  assumes "sees_stat v = Some (sz, i)" and "restart_reasons digest r v sz i = why" and "why \<noteq> []"
  shows "poll digest r v =
    apsnd (marked (restarts r + 1) (Some \<lparr>reasons = why, abandonedOffset = offset r, sizeAtDetection = sz\<rparr>))
      (poll digest new_tail v)"
proof -
  let ?l = "Some \<lparr>reasons = why, abandonedOffset = offset r, sizeAtDetection = sz\<rparr>"
  have "(restart r why sz)\<lparr>identity := Some i\<rparr> = marked (restarts r + 1) ?l (new_tail\<lparr>identity := Some i\<rparr>)"
    by (simp add: restart_def marked_def new_tail_def)
  moreover have "restart_reasons digest new_tail v sz i = []"
    by (simp add: restart_reasons_def new_tail_def)
  ultimately show ?thesis using assms by (simp add: poll_def read_on_marked)
qed

section \<open>What an oversized line costs\<close>

lemma poll_all_exhausted:
  assumes "in_step digest f ident (length f) e r" and "offset r = length f"
  shows "fst (poll_all digest r (replicate n (plain_sight f ident))) = []"
  using assms
proof (induction n arbitrary: r)
  case (Suc n)
  have ap: "appending f ident (length f) (length f) (length f) (plain_sight f ident)"
    using appending_plain [of "length f" "length f" f ident] by simp
  obtain out r' where p: "poll digest r (plain_sight f ident) = (out, r')" by fastforce
  have "restart_reasons digest r (plain_sight f ident) (length f) ident = []"
    using appending_no_restart(1) [OF Suc.prems(1) ap] by (simp add: plain_sight_def)
  then have "out = Inr []" and "offset r' = length f"
    using p Suc.prems(2) by (auto simp: poll_def plain_sight_def read_on_def)
  with Suc.IH poll_in_step [OF Suc.prems(1) ap p] p show ?case by (simp split: prod.splits)
qed simp

text \<open>
  A file with a complete line over the cap, read without failures however often, never
  yields the lines that follow it, although they are complete and within the cap: the first read
  leaves them in the splitter, and later polls find nothing new to push.
\<close>

theorem oversized_line_hides_rest:
  assumes "\<forall>b \<in> set (as @ bs). unat b \<le> 127" and "10 \<notin> set as" and "length as > MAX_LINE_UNITS"
  shows "fst (poll_all digest new_tail (replicate n (plain_sight (as @ 10 # bs) ident))) = [] \<and>
    owed (decoded (as @ 10 # bs)) = owed (ascii bs)"
proof
  let ?f = "as @ 10 # bs" let ?v = "plain_sight ?f ident"
  from push_over_cap [OF assms] obtain s where
    s: "push new_splitter ?f = (Inl (LineTooLong (length as) []), s)" "buffer s = ascii bs" by auto
  show "owed (decoded ?f) = owed (ascii bs)"
    using push_all_accounted [of "[?f]" "[]" s] s by simp
  obtain out r where p: "poll digest new_tail ?v = (out, r)" by fastforce
  have ap: "appending ?f ident 0 (length ?f) (length ?f) ?v"
    using appending_plain [of 0 "length ?f" ?f ident] by simp
  have "restart_reasons digest new_tail ?v (length ?f) ident = []"
    by (simp add: restart_reasons_def new_tail_def)
  moreover have "sees_stat ?v = Some (length ?f, ident)" "sees_slice ?v 0 (length ?f) = Some ?f"
    by (simp_all add: plain_sight_def plain_look_def)
  ultimately have "polled out = []" and "offset r = length ?f"
    using p s(1) by (auto simp: poll_def read_on_def Let_def new_tail_def)
  moreover have "in_step digest ?f ident (length ?f) (polled out) r"
    using poll_in_step [OF in_step_new ap p] by simp
  ultimately show "fst (poll_all digest new_tail (replicate n ?v)) = []"
    using poll_all_exhausted [of digest ?f ident "[]" r] p by (cases n) (simp_all split: prod.splits)
qed

lemma oversized_line_hides_rest_witness:
  "fst (poll_all length new_tail
      (replicate 2 (plain_sight (replicate (Suc MAX_LINE_UNITS) 120 @ 10 # [123, 125, 10]) CHR ''a''))) = [] \<and>
   owed (decoded (replicate (Suc MAX_LINE_UNITS) 120 @ 10 # [123, 125, 10])) = [[123, 125]]"
proof -
  have "owed (ascii [123, 125, 10]) = [[123, 125]]"
    using owed_terminated [of "[123, 125]" "[]"] by (simp add: MAX_LINE_UNITS_def stripCr_def)
  with oversized_line_hides_rest [of "replicate (Suc MAX_LINE_UNITS) 120" "[123, 125, 10]" length 2 "CHR ''a''"]
  show ?thesis by simp
qed

end
