(* ===== verification/Transcript.thy ===== *)
theory Transcript
  imports Wire Tail_Reader Verdicts
begin

text \<open>
  The transcript a worker's session leaves behind, and what the harvester reads out of it:
  \<open>src/harvest/transcript.ts\<close> (the entry tree and its reader, the active path, the
  reconstruction of a verdict) and \<open>src/harvest/usage.ts\<close> (tokens and cost). The lemmas show
  that the reader's index and list agree, that the active path is a chain of parents from the
  last entry, and that a transcript alone never speaks for success.
\<close>

section \<open>Entries\<close>

record tree_entry =
  e_type :: string
  e_id :: string
  e_parentId :: "string option"
  e_value :: json

definition isSessionHeader :: "json \<Rightarrow> bool" where
  "isSessionHeader v \<longleftrightarrow> is_object v \<and> jprop v ''type'' = Some (JStr ''session'')"

text \<open>\<open>isTreeEntry\<close> narrows: its answer is the entry it narrows to.\<close>

definition isTreeEntry :: "json \<Rightarrow> tree_entry option" where
  "isTreeEntry v =
    (case (jprop v ''type'', jprop v ''id'', jprop v ''parentId'') of
       (Some (JStr t), Some (JStr i), Some p) \<Rightarrow>
         if t = ''session'' then None
         else (case p of
             JNull \<Rightarrow> Some \<lparr>e_type = t, e_id = i, e_parentId = None, e_value = v\<rparr>
           | JStr q \<Rightarrow> Some \<lparr>e_type = t, e_id = i, e_parentId = Some q, e_value = v\<rparr>
           | _ \<Rightarrow> None)
     | _ \<Rightarrow> None)"

definition message :: "tree_entry \<Rightarrow> json option" where
  "message e = jprop (e_value e) ''message''"

definition message_role :: "tree_entry \<Rightarrow> string option" where
  "message_role e = as_string (jprop_of (message e) ''role'')"

definition isMessageEntry :: "tree_entry \<Rightarrow> bool" where
  "isMessageEntry e \<longleftrightarrow> e_type e = ''message'' \<and>
    (case message e of None \<Rightarrow> False | Some m \<Rightarrow> is_object m) \<and> message_role e \<noteq> None"

definition isAssistantEntry :: "tree_entry \<Rightarrow> bool" where
  "isAssistantEntry e \<longleftrightarrow> isMessageEntry e \<and> message_role e = Some ''assistant''"

definition isCompactionEntry :: "tree_entry \<Rightarrow> bool" where
  "isCompactionEntry e \<longleftrightarrow> e_type e = ''compaction'' \<and>
    as_string (jprop (e_value e) ''summary'') \<noteq> None \<and>
    as_string (jprop (e_value e) ''firstKeptEntryId'') \<noteq> None"

definition firstKeptEntryId :: "tree_entry \<Rightarrow> string option" where
  "firstKeptEntryId e = as_string (jprop (e_value e) ''firstKeptEntryId'')"

section \<open>The reader\<close>

text \<open>\<open>String.prototype.trim\<close> and \<open>parseLine\<close>; \<open>JSON.parse\<close> is a parameter that answers or throws.\<close>

definition js_space :: "code_unit \<Rightarrow> bool" where
  "js_space c \<longleftrightarrow> 9 \<le> c \<and> c \<le> 13 \<or> c = 32 \<or> c = 160 \<or> c = 5760 \<or> 8192 \<le> c \<and> c \<le> 8202 \<or>
    c \<in> {8232, 8233, 8239, 8287, 12288, 65279}"

definition trim :: "text16 \<Rightarrow> text16" where
  "trim t = rev (dropWhile js_space (rev (dropWhile js_space t)))"

datatype parsed = Blank | Thrown | Value json

definition parseLine :: "(text16 \<Rightarrow> json option) \<Rightarrow> text16 \<Rightarrow> parsed" where
  "parseLine parse line =
    (let t = trim line in
     if t = [] then Blank
     else case parse t of None \<Rightarrow> Thrown | Some v \<Rightarrow> Value v)"

record ('i, 'h) transcript =
  tail :: "('i, 'h) tail"
  header :: "json option"
  entries :: "tree_entry list"
  byId :: "(string \<times> tree_entry) list"
  malformed :: nat
  truncated :: nat

definition new_transcript :: "('i, 'h) transcript" where
  "new_transcript = \<lparr>tail = new_tail, header = None, entries = [], byId = [], malformed = 0,
     truncated = 0\<rparr>"

text \<open>One parsed record; the answer is the entry it appends, if it does.\<close>

definition add_entry :: "('i, 'h) transcript \<Rightarrow> tree_entry \<Rightarrow> ('i, 'h) transcript \<times> tree_entry list" where
  "add_entry r e =
    (case map_of (byId r) (e_id e) of
       Some known \<Rightarrow>
         (let idx = index_of (entries r) known in
          r\<lparr>entries := (if idx \<ge> 0 then (entries r)[nat idx := e] else entries r),
            byId := AList.update (e_id e) e (byId r)\<rparr>, [])
     | None \<Rightarrow> (r\<lparr>entries := entries r @ [e], byId := AList.update (e_id e) e (byId r)\<rparr>, [e]))"

definition take_record :: "('i, 'h) transcript \<Rightarrow> json \<Rightarrow> ('i, 'h) transcript \<times> tree_entry list" where
  "take_record r v =
    (if isSessionHeader v then
       (let r = (if header r \<noteq> None \<or> entries r \<noteq> [] then r\<lparr>entries := [], byId := []\<rparr> else r)
        in (r\<lparr>header := Some v\<rparr>, []))
     else case isTreeEntry v of
       None \<Rightarrow> (r\<lparr>malformed := malformed r + 1\<rparr>, [])
     | Some e \<Rightarrow> add_entry r e)"

definition take_line ::
  "(text16 \<Rightarrow> json option) \<Rightarrow> ('i, 'h) transcript \<Rightarrow> text16 \<Rightarrow> ('i, 'h) transcript \<times> tree_entry list" where
  "take_line parse r line =
    (case parseLine parse line of
       Blank \<Rightarrow> (r, [])
     | Thrown \<Rightarrow> (r\<lparr>malformed := malformed r + 1\<rparr>, [])
     | Value v \<Rightarrow> take_record r v)"

fun take_lines ::
  "(text16 \<Rightarrow> json option) \<Rightarrow> ('i, 'h) transcript \<Rightarrow> text16 list \<Rightarrow> ('i, 'h) transcript \<times> tree_entry list" where
  "take_lines parse r [] = (r, [])"
| "take_lines parse r (l # ls) =
    (let (r', es) = take_line parse r l; (r'', fs) = take_lines parse r' ls in (r'', es @ fs))"

text \<open>\<open>TranscriptReader.poll\<close>: an oversized line is counted, any other failure is thrown on.\<close>

definition poll_transcript ::
  "(bytes \<Rightarrow> 'h) \<Rightarrow> (text16 \<Rightarrow> json option) \<Rightarrow> ('i, 'h) transcript \<Rightarrow> 'i sight \<Rightarrow>
   tree_entry list option \<times> ('i, 'h) transcript" where
  "poll_transcript digest parse r v =
    (case poll digest (tail r) v of
       (Inl Read_failed, t) \<Rightarrow> (None, r\<lparr>tail := t\<rparr>)
     | (Inl (Too_long e), t) \<Rightarrow>
         (let (r', es) = take_lines parse (r\<lparr>tail := t, truncated := truncated r + 1\<rparr>) (completed e)
          in (Some es, r'))
     | (Inr lines, t) \<Rightarrow>
         (let (r', es) = take_lines parse (r\<lparr>tail := t\<rparr>) lines in (Some es, r')))"

definition readTranscript ::
  "(bytes \<Rightarrow> 'h) \<Rightarrow> (text16 \<Rightarrow> json option) \<Rightarrow> 'i sight \<Rightarrow> ('i, 'h) transcript option" where
  "readTranscript digest parse v =
    (case poll_transcript digest parse new_transcript v of
       (None, _) \<Rightarrow> None
     | (Some _, r) \<Rightarrow> Some r)"

text \<open>The list and the index hold the same entries, one for each id.\<close>

definition indexed :: "tree_entry list \<Rightarrow> (string \<times> tree_entry) list \<Rightarrow> bool" where
  "indexed es ix \<longleftrightarrow> distinct (map e_id es) \<and>
    (\<forall>k e. map_of ix k = Some e \<longleftrightarrow> e \<in> set es \<and> e_id e = k)"

lemma indexed_empty [simp]: "indexed [] []"
  by (simp add: indexed_def)

lemma list_update_index_of:
  assumes "distinct (map e_id es)" and "known \<in> set es" and "e_id known = e_id e"
  shows "es[nat (index_of es known) := e] = map (\<lambda>x. if e_id x = e_id e then e else x) es"
proof (rule nth_equalityI)
  let ?i = "nat (index_of es known)"
  have i: "?i < length es" "es ! ?i = known"
    using index_of_bounds [OF assms(2)] index_of_nth [OF assms(2)] by auto
  fix j assume "j < length (es[?i := e])"
  then have j: "j < length es" by simp
  have "e_id (es ! j) = e_id e \<longleftrightarrow> j = ?i"
    using nth_eq_iff_index_eq [OF assms(1), of j ?i] i j assms(3) by auto
  with j show "es[?i := e] ! j = map (\<lambda>x. if e_id x = e_id e then e else x) es ! j"
    by (auto simp: nth_list_update)
qed simp

lemma add_entry_indexed:
  assumes "indexed (entries r) (byId r)"
  shows "indexed (entries (fst (add_entry r e))) (byId (fst (add_entry r e)))"
proof (cases "map_of (byId r) (e_id e)")
  case None
  then have "\<forall>x \<in> set (entries r). e_id x \<noteq> e_id e"
    using assms unfolding indexed_def by (metis option.discI)
  with assms None show ?thesis
    by (auto simp: add_entry_def indexed_def update_conv')
next
  case (Some known)
  with assms have known: "known \<in> set (entries r)" "e_id known = e_id e" "distinct (map e_id (entries r))"
    by (auto simp: indexed_def)
  have "index_of (entries r) known \<ge> 0" using index_of_bounds [OF known(1)] by simp
  then have upd: "entries (fst (add_entry r e)) = map (\<lambda>x. if e_id x = e_id e then e else x) (entries r)"
    using Some list_update_index_of [OF known(3,1,2)] by (simp add: add_entry_def Let_def)
  have ids: "map e_id (map (\<lambda>x. if e_id x = e_id e then e else x) (entries r)) = map e_id (entries r)"
    by simp
  have ix: "byId (fst (add_entry r e)) = AList.update (e_id e) e (byId r)"
    using Some by (simp add: add_entry_def Let_def)
  show ?thesis
    unfolding indexed_def upd ix ids using known assms
    by (auto simp: update_conv' indexed_def split: if_splits)
qed

definition well_indexed :: "('i, 'h) transcript \<Rightarrow> bool" where
  "well_indexed r \<longleftrightarrow> indexed (entries r) (byId r)"

lemma well_indexed_new [simp]: "well_indexed new_transcript"
  by (simp add: well_indexed_def new_transcript_def)

lemma well_indexed_update [simp]:
  "well_indexed (r\<lparr>tail := t\<rparr>) = well_indexed r" "well_indexed (r\<lparr>malformed := m\<rparr>) = well_indexed r"
  "well_indexed (r\<lparr>truncated := n\<rparr>) = well_indexed r" "well_indexed (r\<lparr>header := h\<rparr>) = well_indexed r"
  "well_indexed (r\<lparr>entries := [], byId := []\<rparr>)"
  by (simp_all add: well_indexed_def)

lemma take_record_indexed: "well_indexed r \<Longrightarrow> well_indexed (fst (take_record r v))"
  using add_entry_indexed [of r]
  by (auto simp: take_record_def Let_def well_indexed_def split: option.splits)

lemma take_line_indexed: "well_indexed r \<Longrightarrow> well_indexed (fst (take_line parse r l))"
  by (simp add: take_line_def take_record_indexed split: parsed.splits)

lemma take_lines_indexed: "well_indexed r \<Longrightarrow> well_indexed (fst (take_lines parse r ls))"
  by (induction ls arbitrary: r) (simp_all add: take_line_indexed split_beta)

lemma poll_transcript_indexed:
  "well_indexed r \<Longrightarrow> well_indexed (snd (poll_transcript digest parse r v))"
  by (simp add: poll_transcript_def take_lines_indexed split_beta split: sum.splits poll_error.splits)

section \<open>The active path\<close>

record active_path =
  path_entries :: "tree_entry list"
  path_complete :: bool

text \<open>The entries a walk has still to see; they all come from the index, and every step takes one.\<close>

definition unseen :: "(string \<times> tree_entry) list \<Rightarrow> string list \<Rightarrow> tree_entry \<Rightarrow> string set" where
  "unseen ix seen cur = insert (e_id cur) (e_id ` snd ` set ix) - set seen"

text \<open>
  The walk up from the leaf: the entries so far, leaf first, and whether every link resolved.
\<close>

function climb ::
  "(string \<times> tree_entry) list \<Rightarrow> string list \<Rightarrow> tree_entry list \<Rightarrow> tree_entry \<Rightarrow> tree_entry list \<times> bool" where
  "climb ix seen up cur =
    (if e_id cur \<in> set seen then (up, False)
     else
       let up' = up @ [cur] in
       case e_parentId cur of
         None \<Rightarrow> (up', True)
       | Some p \<Rightarrow>
           (case map_of ix p of
              None \<Rightarrow> (up', False)
            | Some parent \<Rightarrow> climb ix (e_id cur # seen) up' parent))"
  by pat_completeness auto

termination
proof (relation "measure (\<lambda>(ix, seen, up, cur). card (unseen ix seen cur))", goal_cases)
  case (2 ix seen up cur _ p parent)
  then have "parent \<in> snd ` set ix" by (force dest: map_of_SomeD)
  then have "unseen ix (e_id cur # seen) parent \<subseteq> unseen ix seen cur - {e_id cur}"
    by (auto simp: unseen_def)
  moreover have "e_id cur \<in> unseen ix seen cur" and "finite (unseen ix seen cur)"
    using 2 by (auto simp: unseen_def)
  ultimately have "card (unseen ix (e_id cur # seen) parent) < card (unseen ix seen cur)"
    by (meson card_Diff1_less card_mono finite_Diff le_less_trans)
  then show ?case by simp
qed simp

declare climb.simps [simp del]

definition find_index :: "('a \<Rightarrow> bool) \<Rightarrow> 'a list \<Rightarrow> int" where
  "find_index P xs = (let n = length (takeWhile (\<lambda>x. \<not> P x) xs) in if n < length xs then int n else - 1)"

text \<open>What a compaction on the way drops: everything above the entry it kept first.\<close>

definition truncate_at_compaction :: "tree_entry list \<times> bool \<Rightarrow> tree_entry list \<times> bool" where
  "truncate_at_compaction w =
    (case w of (up, ok) \<Rightarrow>
       let coIdx = find_index isCompactionEntry up in
       if coIdx \<ge> 0 then
         let co = up ! nat coIdx;
             keptIdx = find_index (\<lambda>e. Some (e_id e) = firstKeptEntryId co) up
         in if keptIdx > coIdx then (take (nat keptIdx + 1) up, ok)
            else if keptIdx = - 1 then (up, False)
            else (up, ok)
       else (up, ok))"

definition activePath :: "tree_entry list \<Rightarrow> (string \<times> tree_entry) list \<Rightarrow> active_path" where
  "activePath es ix =
    (if es = [] then \<lparr>path_entries = [], path_complete = True\<rparr>
     else case truncate_at_compaction (climb ix [] [] (last es)) of
       (up, ok) \<Rightarrow> \<lparr>path_entries = rev up, path_complete = ok\<rparr>)"

text \<open>Each entry is the parent of the one before it, leaf first.\<close>

fun chained :: "tree_entry list \<Rightarrow> bool" where
  "chained (x # y # zs) \<longleftrightarrow> e_parentId x = Some (e_id y) \<and> chained (y # zs)"
| "chained _ \<longleftrightarrow> True"

lemma chained_snoc: "chained (xs @ [x]) \<Longrightarrow> e_parentId x = Some (e_id y) \<Longrightarrow> chained (xs @ [x, y])"
  by (induction xs rule: chained.induct) auto

lemma chained_take: "chained xs \<Longrightarrow> chained (take n xs)"
proof (induction xs arbitrary: n rule: chained.induct)
  case (1 x y zs)
  from "1.IH" [of "n - 1"] "1.prems" show ?case by (auto simp: take_Cons split: nat.splits)
qed (auto simp: take_Cons split: nat.splits)

text \<open>What the walk returns, from a walk that has come to \<open>cur\<close>.\<close>

lemma climb_chain:
  assumes "indexed es ix" and "cur \<in> set es" and "set up \<subseteq> set es"
    and "chained (up @ [cur])" and "distinct (map e_id up)" and "set seen = e_id ` set up"
    and "climb ix seen up cur = (path, ok)"
  shows "chained path \<and> distinct (map e_id path) \<and> set path \<subseteq> set es \<and>
    path \<noteq> [] \<and> hd path = hd (up @ [cur]) \<and> (ok \<longrightarrow> e_parentId (last path) = None)"
  using assms
proof (induction ix seen up cur rule: climb.induct)
  case (1 ix seen up cur)
  note climb = 1(8) [unfolded climb.simps [of ix seen up cur]]
  have up: "chained up" using chained_take [OF 1(5), of "length up"] by simp
  show ?case
  proof (cases "e_id cur \<in> set seen")
    case True
    with climb 1(4,6,7) up show ?thesis by (cases up) auto
  next
    case False
    with 1(6,7) have new: "distinct (map e_id (up @ [cur]))" by auto
    consider (root) "e_parentId cur = None" | (lost) q where "e_parentId cur = Some q" "map_of ix q = None"
      | (parent) q p where "e_parentId cur = Some q" "map_of ix q = Some p"
      by (cases "e_parentId cur"; cases "map_of ix (the (e_parentId cur))") auto
    then show ?thesis
    proof cases
      case (parent q p)
      with climb False have step: "climb ix (e_id cur # seen) (up @ [cur]) p = (path, ok)"
        by simp
      have p: "p \<in> set es" "e_id p = q" using parent 1(2) by (auto simp: indexed_def)
      have "chained ((up @ [cur]) @ [p])" using chained_snoc [OF 1(5)] parent p by simp
      from 1(1) [OF False _ parent 1(2) _ _ this new _ step] p(1) 1(3,4,7) show ?thesis
        by (simp add: hd_append split: if_splits)
    qed (use climb False new 1(3,4,5) in \<open>auto simp: hd_append\<close>)
  qed
qed

lemma find_index_nth:
  assumes "find_index P xs \<ge> 0"
  shows "nat (find_index P xs) < length xs \<and> P (xs ! nat (find_index P xs))"
  using assms nth_length_takeWhile [of "\<lambda>x. \<not> P x" xs]
  by (auto simp: find_index_def Let_def split: if_splits)

text \<open>Cutting at a compaction leaves a walk from the same leaf, down to the entry it kept.\<close>

lemma truncate_cases:
  assumes "truncate_at_compaction (up, ok) = (up', ok')"
  obtains (same) "up' = up" "ok' \<longrightarrow> ok"
    | (cut) n co where "n < length up" "up' = take (Suc n) up" "ok' = ok" "co \<in> set up'"
        "isCompactionEntry co" "firstKeptEntryId co = Some (e_id (up ! n))"
proof (cases "up' = up \<and> (ok' \<longrightarrow> ok)")
  case False
  let ?c = "find_index isCompactionEntry up"
  let ?k = "find_index (\<lambda>e. Some (e_id e) = firstKeptEntryId (up ! nat ?c)) up"
  from assms False have c: "0 \<le> ?c" and k: "?c < ?k" and up': "up' = take (nat ?k + 1) up" "ok' = ok"
    by (auto simp: truncate_at_compaction_def Let_def split: if_splits)
  note co = find_index_nth [OF c]
  have "0 \<le> ?k" using c k by simp
  note kept = find_index_nth [OF this]
  have less: "nat ?c < nat ?k + 1" using c k by simp
  then have "up ! nat ?c = up' ! nat ?c" using up' by simp
  moreover have "nat ?c < length up'" using less co up' by simp
  ultimately have "up ! nat ?c \<in> set up'" by simp
  with cut [of "nat ?k" "up ! nat ?c"] co kept up' show thesis by simp
qed (use same in blast)

lemma active_path_facts:
  assumes "indexed es ix" and "activePath es ix = \<lparr>path_entries = path, path_complete = ok\<rparr>" and "es \<noteq> []"
  shows "chained (rev path)" and "distinct (map e_id path)" and "set path \<subseteq> set es"
    and "path \<noteq> []" and "last path = last es"
    and "ok \<Longrightarrow> e_parentId (hd path) = None \<or>
      (\<exists>co \<in> set path. isCompactionEntry co \<and> firstKeptEntryId co = Some (e_id (hd path)))"
proof -
  obtain up ok0 where w: "climb ix [] [] (last es) = (up, ok0)" by fastforce
  from climb_chain [OF assms(1) _ _ _ _ _ w] assms(3)
  have up: "chained up" "distinct (map e_id up)" "set up \<subseteq> set es" "up \<noteq> []" "hd up = last es"
    "ok0 \<longrightarrow> e_parentId (last up) = None" by simp_all
  obtain up' where t: "truncate_at_compaction (up, ok0) = (up', ok)" and path: "path = rev up'"
    using assms(2,3) w by (auto simp: activePath_def split: prod.splits)
  have "chained up' \<and> distinct (map e_id up') \<and> set up' \<subseteq> set es \<and> up' \<noteq> [] \<and> hd up' = last es \<and>
    (ok \<longrightarrow> e_parentId (last up') = None \<or>
      (\<exists>co \<in> set up'. isCompactionEntry co \<and> firstKeptEntryId co = Some (e_id (last up'))))"
    using t
  proof (cases rule: truncate_cases)
    case (cut n co)
    then have "last up' = up ! n" "up' \<noteq> []" using up(4) by (auto simp: last_conv_nth)
    moreover have "hd up' = hd up" "set up' \<subseteq> set up" "distinct (map e_id up')"
      using cut(2) up(2,4) by (auto simp: take_map [symmetric] hd_take dest: in_set_takeD)
    ultimately show ?thesis using cut(2,4,5,6) up chained_take [OF up(1)] by auto
  qed (use up in auto)
  then show "chained (rev path)" "distinct (map e_id path)" "set path \<subseteq> set es" "path \<noteq> []"
    "last path = last es"
    "ok \<Longrightarrow> e_parentId (hd path) = None \<or>
      (\<exists>co \<in> set path. isCompactionEntry co \<and> firstKeptEntryId co = Some (e_id (hd path)))"
    by (auto simp: path rev_map [symmetric] last_rev hd_rev)
qed

text \<open>A reader that has polled any number of times, whatever it found.\<close>

definition read_by ::
  "(bytes \<Rightarrow> 'h) \<Rightarrow> (text16 \<Rightarrow> json option) \<Rightarrow> 'i sight list \<Rightarrow> ('i, 'h) transcript" where
  "read_by digest parse vs = foldl (\<lambda>r v. snd (poll_transcript digest parse r v)) new_transcript vs"

lemma read_by_indexed:
  fixes digest :: "bytes \<Rightarrow> 'h" and vs :: "'i sight list"
  shows "well_indexed (read_by digest parse vs)"
proof -
  have "well_indexed r \<Longrightarrow> well_indexed (foldl (\<lambda>r v. snd (poll_transcript digest parse r v)) r vs)"
    for r :: "('i, 'h) transcript"
    by (induction vs arbitrary: r) (simp_all add: poll_transcript_indexed)
  then show ?thesis by (simp add: read_by_def)
qed

section \<open>When the path is whole\<close>

text \<open>The ancestors of the last entry, leaf first, up to one without a parent.\<close>

definition chain_to_root :: "tree_entry list \<Rightarrow> tree_entry list \<Rightarrow> bool" where
  "chain_to_root es up \<longleftrightarrow> up \<noteq> [] \<and> hd up = last es \<and> set up \<subseteq> set es \<and> chained up \<and> e_parentId (last up) = None"

text \<open>Links determine a chain, so no entry comes twice in one that ends.\<close>

lemma rooted_unique:
  assumes "distinct (map e_id es)" and "set (x # xs) \<subseteq> set es" and "set (x # ys) \<subseteq> set es"
    and "chained (x # xs)" and "chained (x # ys)"
    and "e_parentId (last (x # xs)) = None" and "e_parentId (last (x # ys)) = None"
  shows "xs = ys"
  using assms(2-)
proof (induction xs arbitrary: x ys)
  case Nil
  then show ?case by (cases ys) auto
next
  case (Cons p xs)
  then obtain q zs where ys: "ys = q # zs" by (cases ys) auto
  have "e_id p = e_id q" using Cons.prems(3,4) ys by simp
  then have "p = q" using assms(1) Cons.prems(1,2) ys by (auto dest: inj_onD [OF distinct_map [THEN iffD1, THEN conjunct2]])
  then show ?case using Cons.IH [of p zs] Cons.prems ys by simp
qed

lemma rooted_distinct:
  assumes "distinct (map e_id es)"
  shows "xs \<noteq> [] \<Longrightarrow> set xs \<subseteq> set es \<Longrightarrow> chained xs \<Longrightarrow> e_parentId (last xs) = None \<Longrightarrow> distinct (map e_id xs)"
proof (induction xs)
  case (Cons x xs)
  show ?case
  proof (cases "xs = []")
    case False
    then have tail: "chained xs" "e_parentId (last xs) = None" using Cons.prems(3,4) by (cases xs; simp)+
    have "e_id x \<notin> e_id ` set xs"
    proof
      assume "e_id x \<in> e_id ` set xs"
      then have "x \<in> set xs"
        using assms Cons.prems(2) by (auto dest: inj_onD [OF distinct_map [THEN iffD1, THEN conjunct2]])
      then obtain us vs where xs: "xs = us @ x # vs" by (meson split_list)
      have "chained (x # vs)" using tail(1) unfolding xs by (induction us rule: chained.induct) (auto elim: chained.elims)
      then have "vs = xs"
        using rooted_unique [OF assms, of x vs xs] Cons.prems tail xs False by auto
      then show False using xs by (metis append_Cons length_append length_Cons less_add_Suc2 less_irrefl self_append_conv2)
    qed
    then show ?thesis using Cons.IH [OF False] Cons.prems(2) tail by simp
  qed simp
qed simp

lemma climb_whole:
  assumes "indexed es ix"
  shows "set (cur # xs) \<subseteq> set es \<Longrightarrow> chained (cur # xs) \<Longrightarrow> e_parentId (last (cur # xs)) = None
    \<Longrightarrow> distinct (map e_id (cur # xs)) \<Longrightarrow> set seen \<inter> e_id ` set (cur # xs) = {}
    \<Longrightarrow> climb ix seen up cur = (up @ cur # xs, True)"
proof (induction xs arbitrary: cur seen up)
  case Nil
  then show ?case by (simp add: climb.simps [of ix seen up cur])
next
  case (Cons p xs)
  then have "e_parentId cur = Some (e_id p)" "map_of ix (e_id p) = Some p" "e_id cur \<notin> set seen"
    using assms by (auto simp: indexed_def)
  moreover have "climb ix (e_id cur # seen) (up @ [cur]) p = ((up @ [cur]) @ p # xs, True)"
    using Cons.prems by (intro Cons.IH) auto
  ultimately show ?case by (simp add: climb.simps [of ix seen up cur])
qed

lemma find_index_absent: "find_index P xs = - 1 \<longleftrightarrow> (\<forall>x \<in> set xs. \<not> P x)"
proof -
  have "length (takeWhile (\<lambda>x. \<not> P x) xs) < length xs \<longleftrightarrow> (\<exists>x \<in> set xs. P x)"
    by (induction xs) auto
  then show ?thesis by (auto simp: find_index_def Let_def)
qed

lemma find_index_find:
  "find P xs = (if find_index P xs \<ge> 0 then Some (xs ! nat (find_index P xs)) else None)"
  by (induction xs) (auto simp: find_index_def Let_def nat_add_distrib)

lemma truncate_whole:
  "snd (truncate_at_compaction (up, ok)) \<longleftrightarrow>
    ok \<and> (\<forall>co. find isCompactionEntry up = Some co \<longrightarrow> firstKeptEntryId co \<in> Some ` e_id ` set up)"
proof (cases "find_index isCompactionEntry up \<ge> 0")
  case True
  let ?co = "up ! nat (find_index isCompactionEntry up)"
  have "find_index (\<lambda>e. Some (e_id e) = firstKeptEntryId ?co) up = - 1 \<longleftrightarrow> firstKeptEntryId ?co \<notin> Some ` e_id ` set up"
    unfolding find_index_absent by (auto simp: image_iff eq_commute)
  moreover have "find_index P xs \<ge> - 1" for P and xs :: "tree_entry list" by (simp add: find_index_def Let_def)
  ultimately show ?thesis using True
    by (auto simp: truncate_at_compaction_def Let_def find_index_find)
qed (simp add: truncate_at_compaction_def Let_def find_index_find)

lemma active_path_whole:
  assumes "indexed es ix" and "activePath es ix = \<lparr>path_entries = path, path_complete = ok\<rparr>" and "es \<noteq> []"
  shows "ok \<longleftrightarrow> (\<exists>up. chain_to_root es up
    \<and> (\<forall>co. find isCompactionEntry up = Some co \<longrightarrow> firstKeptEntryId co \<in> Some ` e_id ` set up))"
proof -
  obtain up ok0 where w: "climb ix [] [] (last es) = (up, ok0)" by fastforce
  have ok: "ok \<longleftrightarrow> snd (truncate_at_compaction (up, ok0))"
    using assms(2,3) w by (auto simp: activePath_def split: prod.splits)
  have "chain_to_root es up" if ok0
    using climb_chain [OF assms(1) _ _ _ _ _ w] assms(3) that by (simp add: chain_to_root_def)
  moreover have "ok0 \<and> up' = up" if c: "chain_to_root es up'" for up'
  proof -
    obtain xs where xs: "up' = last es # xs" using c by (cases up') (auto simp: chain_to_root_def)
    have "distinct (map e_id up')"
      using rooted_distinct [of es up'] c assms(1) by (simp add: chain_to_root_def indexed_def)
    then have "climb ix [] [] (last es) = ([] @ last es # xs, True)"
      using c by (intro climb_whole [OF assms(1)]) (simp_all add: chain_to_root_def xs)
    then show ?thesis using w xs by simp
  qed
  ultimately show ?thesis unfolding ok truncate_whole by metis
qed

text \<open>
  C39: after any polls, whatever was read, the active path ends in the last entry of the
  transcript, each of its entries is the parent of the next, and none comes twice. It counts as
  whole exactly when the parents of the last entry lead to a root and the compaction next to that
  entry, if there is one on the way, kept an entry of that chain first; then it starts at the root
  or at the entry a compaction on it kept first.
\<close>

theorem active_path_correct:
  assumes "activePath (entries (read_by digest parse vs)) (byId (read_by digest parse vs)) =
      \<lparr>path_entries = path, path_complete = ok\<rparr>"
    and "entries (read_by digest parse vs) \<noteq> []"
  shows "chained (rev path) \<and> distinct (map e_id path) \<and> set path \<subseteq> set (entries (read_by digest parse vs)) \<and>
    path \<noteq> [] \<and> last path = last (entries (read_by digest parse vs)) \<and>
    (ok \<longleftrightarrow> (\<exists>up. chain_to_root (entries (read_by digest parse vs)) up
      \<and> (\<forall>co. find isCompactionEntry up = Some co \<longrightarrow> firstKeptEntryId co \<in> Some ` e_id ` set up))) \<and>
    (ok \<longrightarrow> e_parentId (hd path) = None \<or>
      (\<exists>co \<in> set path. isCompactionEntry co \<and> firstKeptEntryId co = Some (e_id (hd path))))"
  using active_path_facts [OF read_by_indexed [unfolded well_indexed_def] assms]
    active_path_whole [OF read_by_indexed [unfolded well_indexed_def] assms] by blast

text \<open>A transcript of two entries, the second a child of the first.\<close>

definition demo_parse :: "text16 \<Rightarrow> json option" where
  "demo_parse l = Some (JObj
     [(''type'', JStr ''message''), (''id'', JStr (if l = [97] then ''a'' else ''b'')),
      (''parentId'', if l = [97] then JNull else JStr ''a'')])"

lemma active_path_correct_witness:
  "let r = read_by length demo_parse [plain_sight [97, 10, 98, 10] CHR ''i''];
       p = activePath (entries r) (byId r)
   in map e_id (path_entries p) = [''a'', ''b''] \<and> path_complete p \<and>
      chained (rev (path_entries p)) \<and> last (path_entries p) = last (entries r)"
proof -
  define r where "r = read_by length demo_parse [plain_sight [97, 10, 98, 10] CHR ''i'']"
  obtain t where "poll length new_tail (plain_sight [97, 10, 98, 10] CHR ''i'') = (Inr [[97], [98]], t)"
    by (simp add: poll_def plain_sight_def plain_look_def new_tail_def restart_reasons_def read_on_def
        Let_def push_def new_splitter_def utf8_start_def utf8_step_def utf8_lead_def utf8_emit_def
        utf8_idle_def utf16_def drain_def drain_loop.simps MAX_LINE_UNITS_def stripCr_def)
  then obtain e f where r: "entries r = [e, f]" "byId r = [(''a'', e), (''b'', f)]"
    and ids: "e_id e = ''a''" "e_id f = ''b''" "e_parentId e = None" "e_parentId f = Some ''a''"
    and kind: "\<not> isCompactionEntry e" "\<not> isCompactionEntry f"
    by (simp add: r_def read_by_def poll_transcript_def new_transcript_def take_line_def parseLine_def
        trim_def js_space_def demo_parse_def take_record_def isSessionHeader_def isTreeEntry_def
        add_entry_def isCompactionEntry_def Let_def)
  then have p: "activePath (entries r) (byId r) = \<lparr>path_entries = [e, f], path_complete = True\<rparr>"
    by (simp add: activePath_def climb.simps truncate_at_compaction_def find_index_def Let_def)
  from active_path_correct [OF p [unfolded r_def]] r ids p show ?thesis
    by (simp add: r_def [symmetric] Let_def)
qed

section \<open>Usage\<close>

record usage_totals =
  input_tokens :: int
  output_tokens :: int
  usd :: rat
  priced :: bool

definition ZERO_USAGE :: usage_totals where
  "ZERO_USAGE = \<lparr>input_tokens = 0, output_tokens = 0, usd = 0, priced = False\<rparr>"

definition tokensTotal :: "usage_totals \<Rightarrow> int" where
  "tokensTotal u = input_tokens u + output_tokens u"

definition nonNegNumber :: "json option \<Rightarrow> rat option" where
  "nonNegNumber v = (case as_number v of Some (Finite q) \<Rightarrow> if q \<ge> 0 then Some q else None | _ \<Rightarrow> None)"

text \<open>\<open>Math.round\<close>\<close>

definition js_round :: "rat \<Rightarrow> int" where
  "js_round q = \<lfloor>q + 1 / 2\<rfloor>"

definition usageFromSessionStats :: "json option \<Rightarrow> usage_totals option" where
  "usageFromSessionStats data =
    (case jprop_of data ''tokens'' of
       None \<Rightarrow> None
     | Some t \<Rightarrow>
         (case (nonNegNumber (jprop t ''input''), nonNegNumber (jprop t ''output'')) of
            (Some i, Some out) \<Rightarrow>
              (let cost = (case nonNegNumber (jprop_of data ''cost'') of None \<Rightarrow> 0 | Some c \<Rightarrow> c) in
               Some \<lparr>input_tokens = js_round i, output_tokens = js_round out, usd = cost, priced = cost > 0\<rparr>)
          | _ \<Rightarrow> None))"

definition usageFromAssistantMessage :: "json option \<Rightarrow> usage_totals option" where
  "usageFromAssistantMessage usage =
    (case (nonNegNumber (jprop_of usage ''input''), nonNegNumber (jprop_of usage ''output'')) of
       (Some i, Some out) \<Rightarrow>
         (let cost = (case nonNegNumber (jprop_of (jprop_of usage ''cost'') ''total'') of
                        None \<Rightarrow> 0 | Some c \<Rightarrow> c) in
          Some \<lparr>input_tokens = js_round i, output_tokens = js_round out, usd = cost, priced = cost > 0\<rparr>)
     | _ \<Rightarrow> None)"

fun combineUsage :: "usage_totals option \<Rightarrow> usage_totals option \<Rightarrow> usage_totals" where
  "combineUsage None b = (case b of None \<Rightarrow> ZERO_USAGE | Some u \<Rightarrow> u)"
| "combineUsage (Some a) None = a"
| "combineUsage (Some a) (Some b) =
    \<lparr>input_tokens = max (input_tokens a) (input_tokens b),
     output_tokens = max (output_tokens a) (output_tokens b),
     usd = max (usd a) (usd b), priced = (priced a \<or> priced b)\<rparr>"

definition combineUsageAdd :: "usage_totals \<Rightarrow> json option \<Rightarrow> usage_totals" where
  "combineUsageAdd acc usage =
    (case usageFromAssistantMessage usage of
       None \<Rightarrow> acc
     | Some one \<Rightarrow> \<lparr>input_tokens = input_tokens acc + input_tokens one,
         output_tokens = output_tokens acc + output_tokens one,
         usd = usd acc + usd one, priced = (priced acc \<or> priced one)\<rparr>)"

section \<open>The reconstruction\<close>

record last_assistant =
  stop_reason :: "string option"
  error_message :: "string option"
  model :: "string option"
  text_excerpt :: string

datatype reconstruction_reason =
    Path_incomplete | No_assistant | Last_aborted | Last_errored "string option"
  | Mid_tool_call | Length_truncated | No_envelope

record reconstruction =
  r_verdict :: verdict
  r_reasons :: "reconstruction_reason list"
  r_turns :: nat
  r_tool_calls :: nat
  r_tool_errors :: nat
  r_compactions :: nat
  r_last :: "last_assistant option"
  r_usage :: usage_totals
  r_entries_total :: nat
  r_path_complete :: bool

definition EXCERPT_CHARS :: nat where "EXCERPT_CHARS = 2000"

definition text_block :: "json \<Rightarrow> string option" where
  "text_block b = (if is_object b \<and> jprop b ''type'' = Some (JStr ''text'') then as_string (jprop b ''text'') else None)"

definition textOf :: "json option \<Rightarrow> string" where
  "textOf content =
    (case content of
       Some (JStr s) \<Rightarrow> s
     | _ \<Rightarrow> (let ts = List.map_filter text_block (items content) in
         if ts = [] then [] else foldl (\<lambda>acc t. acc @ CHR 0x0A # t) (hd ts) (tl ts)))"

definition toolCallsOf :: "json option \<Rightarrow> nat" where
  "toolCallsOf content =
    length (filter (\<lambda>b. is_object b \<and> jprop b ''type'' = Some (JStr ''toolCall'')) (items content))"

definition message_field :: "tree_entry \<Rightarrow> string \<Rightarrow> json option" where
  "message_field e k = jprop_of (message e) k"

definition tool_failed :: "tree_entry \<Rightarrow> bool" where
  "tool_failed e \<longleftrightarrow> isMessageEntry e \<and> message_role e = Some ''toolResult'' \<and>
    message_field e ''isError'' = Some (JBool True)"

definition read_last :: "tree_entry \<Rightarrow> last_assistant" where
  "read_last e = \<lparr>stop_reason = as_string (message_field e ''stopReason''),
     error_message = as_string (message_field e ''errorMessage''),
     model = as_string (message_field e ''model''),
     text_excerpt = take EXCERPT_CHARS (textOf (message_field e ''content''))\<rparr>"

definition last_verdict :: "last_assistant \<Rightarrow> verdict \<times> reconstruction_reason" where
  "last_verdict l =
    (if stop_reason l = Some ''aborted'' then (Aborted, Last_aborted)
     else if stop_reason l = Some ''error'' then (Failed, Last_errored (error_message l))
     else if stop_reason l = Some ''toolUse'' then (Unknown, Mid_tool_call)
     else if stop_reason l = Some ''length'' then (Unknown, Length_truncated)
     else (Unknown, No_envelope))"

definition reconstruct :: "tree_entry list \<Rightarrow> (string \<times> tree_entry) list \<Rightarrow> reconstruction" where
  "reconstruct es ix =
    (let p = activePath es ix;
         said = filter isAssistantEntry (path_entries p);
         final = (if said = [] then None else Some (read_last (last said)));
         (v, why) = (case final of None \<Rightarrow> (Unknown, No_assistant) | Some l \<Rightarrow> last_verdict l)
     in \<lparr>r_verdict = v,
         r_reasons = (if path_complete p then [] else [Path_incomplete]) @ [why],
         r_turns = length said,
         r_tool_calls = sum_list (map (\<lambda>e. toolCallsOf (message_field e ''content'')) said),
         r_tool_errors = length (filter (\<lambda>e. \<not> isAssistantEntry e \<and> tool_failed e) (path_entries p)),
         r_compactions = length (filter isCompactionEntry es),
         r_last = final,
         r_usage = foldl (\<lambda>u e. if isAssistantEntry e then combineUsageAdd u (message_field e ''usage'') else u)
             ZERO_USAGE es,
         r_entries_total = length es,
         r_path_complete = path_complete p\<rparr>)"

end
