(* ===== verification/Detectors.thy ===== *)
theory Detectors
  imports Transcript
begin

text \<open>
  How the supervisor reads a running turn: \<open>src/supervisor/tool-loop.ts\<close> (one tool call repeated
  over and over), \<open>src/supervisor/prose-loop.ts\<close> (one sentence coming back), \<open>src/supervisor/
  prose-detector.ts\<close> (turn after turn without a tool call) and the turn reading of
  \<open>src/supervisor/tui.ts\<close>. Each detector is a fold over a transcript or a stream of events; the
  lemmas say what it detects without the fold.
\<close>

section \<open>Tool loops\<close>

text \<open>The calls of an entry, by name and arguments; \<open>JSON.stringify\<close> is a parameter.\<close>

definition toolCall :: "(json \<Rightarrow> string) \<Rightarrow> json \<Rightarrow> string option" where
  "toolCall stringify b =
    (if \<not> is_object b then None
     else if jprop b ''type'' \<noteq> Some (JStr ''toolCall'') then None
     else case as_string (jprop b ''name'') of
       None \<Rightarrow> None
     | Some name \<Rightarrow> Some (name @ '' '' @ stringify
         (case jprop b ''arguments'' of None \<Rightarrow> JNull | Some a \<Rightarrow> a)))"

definition toolCalls :: "(json \<Rightarrow> string) \<Rightarrow> tree_entry \<Rightarrow> string list" where
  "toolCalls stringify e = List.map_filter (toolCall stringify) (items (message_field e ''content''))"

record tool_loop_reading =
  streak :: nat
  call :: "string option"

record loop_scan =
  now :: nat
  best :: nat
  bestCall :: "string option"
  prev :: "string option"

definition loop_start :: loop_scan where
  "loop_start = \<lparr>now = 0, best = 0, bestCall = None, prev = None\<rparr>"

definition loop_step :: "loop_scan \<Rightarrow> string \<Rightarrow> loop_scan" where
  "loop_step s c =
    (let n = (if Some c = prev s then now s + 1 else 1);
         s = s\<lparr>now := n, prev := Some c\<rparr>
     in if n > best s then s\<lparr>best := n, bestCall := Some c\<rparr> else s)"

definition loop_entry :: "(json \<Rightarrow> string) \<Rightarrow> loop_scan \<Rightarrow> tree_entry \<Rightarrow> loop_scan" where
  "loop_entry stringify s e = (if isAssistantEntry e then foldl loop_step s (toolCalls stringify e) else s)"

definition readToolLoop :: "(json \<Rightarrow> string) \<Rightarrow> tree_entry list \<Rightarrow> tool_loop_reading" where
  "readToolLoop stringify es =
    (let s = foldl (loop_entry stringify) loop_start es in
     \<lparr>streak = best s, call = (if best s > 1 then bestCall s else None)\<rparr>)"

definition TOOL_LOOP_THRESHOLD :: nat where "TOOL_LOOP_THRESHOLD = 20"

definition isToolLoop :: "tool_loop_reading \<Rightarrow> bool" where
  "isToolLoop r \<longleftrightarrow> streak r \<ge> TOOL_LOOP_THRESHOLD"

text \<open>All calls in order, and a run of equal calls.\<close>

definition all_calls :: "(json \<Rightarrow> string) \<Rightarrow> tree_entry list \<Rightarrow> string list" where
  "all_calls stringify es = concat (map (toolCalls stringify) (filter isAssistantEntry es))"

definition has_run :: "nat \<Rightarrow> 'a \<Rightarrow> 'a list \<Rightarrow> bool" where
  "has_run n c cs \<longleftrightarrow> (\<exists>xs ys. cs = xs @ replicate n c @ ys)"

lemma loop_fold: "foldl (loop_entry stringify) s es = foldl loop_step s (all_calls stringify es)"
  by (induction es arbitrary: s) (simp_all add: loop_entry_def all_calls_def)

text \<open>The length of the run a list ends in.\<close>

definition ending_run :: "'a list \<Rightarrow> nat" where
  "ending_run cs = (if cs = [] then 0 else length (takeWhile (\<lambda>x. x = last cs) (rev cs)))"

lemma ending_run_snoc [simp]:
  "ending_run (cs @ [c]) = (if cs \<noteq> [] \<and> last cs = c then Suc (ending_run cs) else 1)"
proof (cases cs rule: rev_cases)
  case (snoc ds d)
  then show ?thesis by (auto simp: ending_run_def)
qed (simp add: ending_run_def)

lemma ending_run_ge:
  assumes "cs \<noteq> []" and "last cs = c"
  shows "n \<le> ending_run cs \<longleftrightarrow> (\<exists>xs. cs = xs @ replicate n c)"
proof
  let ?t = "takeWhile (\<lambda>x. x = c) (rev cs)"
  assume "n \<le> ending_run cs"
  then have n: "n \<le> length ?t" using assms by (simp add: ending_run_def)
  have t: "replicate (length ?t) c = ?t"
    by (rule replicate_length_same) (auto dest: set_takeWhileD)
  have "take n ?t = replicate n c" using n take_replicate [of n "length ?t" c] unfolding t by simp
  then have "?t = replicate n c @ drop n ?t" by (metis append_take_drop_id)
  then have "rev cs = replicate n c @ drop n ?t @ dropWhile (\<lambda>x. x = c) (rev cs)"
    by (metis append.assoc takeWhile_dropWhile_id)
  then have "cs = rev (replicate n c @ drop n ?t @ dropWhile (\<lambda>x. x = c) (rev cs))"
    by (metis rev_rev_ident)
  then have "cs = rev (drop n ?t @ dropWhile (\<lambda>x. x = c) (rev cs)) @ replicate n c"
    by (simp only: rev_append rev_replicate append.assoc)
  then show "\<exists>xs. cs = xs @ replicate n c" ..
next
  assume "\<exists>xs. cs = xs @ replicate n c"
  then obtain xs where xs: "cs = xs @ replicate n c" ..
  have "takeWhile (\<lambda>x. x = c) (replicate n c @ ys) = replicate n c @ takeWhile (\<lambda>x. x = c) ys" for ys
    by (induction n) auto
  moreover have "rev cs = replicate n c @ rev xs" using xs by simp
  ultimately show "n \<le> ending_run cs" using assms by (simp add: ending_run_def)
qed

lemma has_run_snoc:
  assumes "0 < n"
  shows "(\<exists>d. has_run n d (cs @ [c])) \<longleftrightarrow> (\<exists>d. has_run n d cs) \<or> n \<le> ending_run (cs @ [c])"
proof
  assume "\<exists>d. has_run n d (cs @ [c])"
  then obtain d xs ys where d: "cs @ [c] = xs @ replicate n d @ ys" by (auto simp: has_run_def)
  show "(\<exists>d. has_run n d cs) \<or> n \<le> ending_run (cs @ [c])"
  proof (cases ys rule: rev_cases)
    case Nil
    then have "last (cs @ [c]) = d" using d assms by (metis append_Nil2 append_is_Nil_conv last_appendR
          last_replicate length_greater_0_conv length_replicate not_gr0)
    moreover have "\<exists>xs. cs @ [c] = xs @ replicate n d" using d Nil by simp
    ultimately show ?thesis using ending_run_ge [of "cs @ [c]" d n] by (metis snoc_eq_iff_butlast)
  next
    case (snoc zs z)
    then have "cs = xs @ replicate n d @ zs" using d by simp
    then show ?thesis by (auto simp: has_run_def)
  qed
next
  assume "(\<exists>d. has_run n d cs) \<or> n \<le> ending_run (cs @ [c])"
  then show "\<exists>d. has_run n d (cs @ [c])"
  proof
    assume "\<exists>d. has_run n d cs"
    then obtain d xs ys where "cs = xs @ replicate n d @ ys" by (auto simp: has_run_def)
    then have "cs @ [c] = xs @ replicate n d @ (ys @ [c])" by simp
    then show ?thesis unfolding has_run_def by blast
  next
    assume "n \<le> ending_run (cs @ [c])"
    then obtain xs where "cs @ [c] = xs @ replicate n c @ []"
      using ending_run_ge [of "cs @ [c]" c n] by auto
    then show ?thesis unfolding has_run_def by blast
  qed
qed

lemma loop_step_sel [simp]:
  "now (loop_step s c) = (if Some c = prev s then now s + 1 else 1)"
  "prev (loop_step s c) = Some c"
  "best (loop_step s c) = max (best s) (now (loop_step s c))"
  "bestCall (loop_step s c) = (if best s < now (loop_step s c) then Some c else bestCall s)"
  by (simp_all add: loop_step_def Let_def)

lemma loop_scan_reads:
  "let s = foldl loop_step loop_start cs in
     now s = ending_run cs \<and> prev s = (if cs = [] then None else Some (last cs)) \<and>
     (\<forall>n > 0. n \<le> best s \<longleftrightarrow> (\<exists>d. has_run n d cs)) \<and>
     (0 < best s \<longrightarrow> (\<exists>d. bestCall s = Some d \<and> has_run (best s) d cs))"
proof (induction cs rule: rev_induct)
  case Nil
  then show ?case by (simp add: loop_start_def ending_run_def has_run_def)
next
  case (snoc c cs)
  define s where "s = foldl loop_step loop_start cs"
  note IH = snoc [folded s_def, unfolded Let_def]
  have now: "now (loop_step s c) = ending_run (cs @ [c])"
    using IH by auto
  have "\<exists>d. bestCall (loop_step s c) = Some d \<and> has_run (best (loop_step s c)) d (cs @ [c])"
  proof (cases "best s < ending_run (cs @ [c])")
    case True
    have "has_run (ending_run (cs @ [c])) c (cs @ [c])"
      using ending_run_ge [of "cs @ [c]" c "ending_run (cs @ [c])"] unfolding has_run_def
      by (metis append_Nil2 last_snoc le_refl snoc_eq_iff_butlast)
    with True now show ?thesis by (simp del: loop_step_sel(1) ending_run_snoc)
  next
    case False
    then have "0 < best s" by (auto split: if_splits)
    then obtain d xs ys where d: "bestCall s = Some d" "cs = xs @ replicate (best s) d @ ys"
      using IH by (auto simp: has_run_def)
    have "has_run (best s) d (cs @ [c])" unfolding has_run_def using d(2) by (metis append.assoc)
    with False d(1) now show ?thesis by (simp add: max_def del: loop_step_sel(1) ending_run_snoc)
  qed
  moreover have "n \<le> best (loop_step s c) \<longleftrightarrow> (\<exists>d. has_run n d (cs @ [c]))" if "0 < n" for n
    using IH that has_run_snoc [OF that, of cs c] now
    by (simp add: le_max_iff_disj del: loop_step_sel(1) ending_run_snoc)
  ultimately show ?case using now by (simp add: Let_def s_def)
qed

text \<open>
  A tool loop is reported exactly when the assistant's calls since the dispatch contain the
  same call twenty times in a row, whatever lies between the calls; the call named is one that
  repeats as often as the streak says.
\<close>

theorem tool_loop_exact:
  "(isToolLoop (readToolLoop stringify es) \<longleftrightarrow>
     (\<exists>c. has_run TOOL_LOOP_THRESHOLD c (all_calls stringify es))) \<and>
   (case call (readToolLoop stringify es) of
      None \<Rightarrow> streak (readToolLoop stringify es) \<le> 1
    | Some c \<Rightarrow> has_run (streak (readToolLoop stringify es)) c (all_calls stringify es))"
proof -
  let ?s = "foldl loop_step loop_start (all_calls stringify es)"
  have r: "readToolLoop stringify es = \<lparr>streak = best ?s, call = (if best ?s > 1 then bestCall ?s else None)\<rparr>"
    by (simp add: readToolLoop_def loop_fold Let_def)
  have "isToolLoop (readToolLoop stringify es) \<longleftrightarrow> (\<exists>c. has_run TOOL_LOOP_THRESHOLD c (all_calls stringify es))"
    using loop_scan_reads [of "all_calls stringify es"]
    by (simp add: r isToolLoop_def TOOL_LOOP_THRESHOLD_def Let_def)
  moreover have "1 < best ?s \<Longrightarrow> \<exists>d. bestCall ?s = Some d \<and> has_run (best ?s) d (all_calls stringify es)"
    using loop_scan_reads [of "all_calls stringify es"] by (simp add: Let_def)
  ultimately show ?thesis by (auto simp: r split: option.splits)
qed

section \<open>Prose loops\<close>

definition PROSE_LOOP_THRESHOLD :: nat where "PROSE_LOOP_THRESHOLD = 96"
definition PROSE_UNIT_MIN_CHARS :: nat where "PROSE_UNIT_MIN_CHARS = 12"
definition LINE_MAX_CHARS :: nat where "LINE_MAX_CHARS = 120"

definition ends_sentence :: "char \<Rightarrow> bool" where
  "ends_sentence c \<longleftrightarrow> c \<in> {CHR ''.'', CHR ''!'', CHR ''?''}"

text \<open>
  The split at white space after the end of a sentence, or at newlines: the character before, the
  piece so far, the text to come.
\<close>

function split_prose :: "char option \<Rightarrow> string \<Rightarrow> string \<Rightarrow> string list" where
  "split_prose before piece [] = [piece]"
| "split_prose before piece (c # cs) =
    (if (case before of None \<Rightarrow> False | Some b \<Rightarrow> ends_sentence b) \<and> space_char c then
       piece # split_prose (Some c) [] (dropWhile space_char cs)
     else if c = CHR 0x0A then
       piece # split_prose (Some c) [] (dropWhile (\<lambda>d. d = CHR 0x0A) cs)
     else split_prose (Some c) (piece @ [c]) cs)"
  by pat_completeness auto
termination
  by (relation "measure (\<lambda>(_, _, cs). length cs)") (auto simp: le_imp_less_Suc length_dropWhile_le)

definition prose_unit :: "string \<Rightarrow> string option" where
  "prose_unit part =
    (let u = trim_string part in
     if length u < PROSE_UNIT_MIN_CHARS then None
     else if \<not> ends_sentence (last u) then None
     else Some u)"

definition prose_units :: "string \<Rightarrow> string list" where
  "prose_units t = List.map_filter prose_unit (split_prose None [] t)"

definition prose_block :: "json \<Rightarrow> string option" where
  "prose_block b =
    (if \<not> is_object b then None
     else if jprop b ''type'' = Some (JStr ''text'') \<and> as_string (jprop b ''text'') \<noteq> None
       then as_string (jprop b ''text'')
     else if jprop b ''type'' = Some (JStr ''thinking'') then as_string (jprop b ''thinking'')
     else None)"

definition proseBlocks :: "tree_entry \<Rightarrow> string list" where
  "proseBlocks e = List.map_filter prose_block (items (message_field e ''content''))"

record prose_scan =
  counts :: "(string \<times> nat) list"
  previous :: "string option"
  most :: nat
  mostLine :: "string option"

definition count_of :: "(string \<times> nat) list \<Rightarrow> string \<Rightarrow> nat" where
  "count_of cs u = (case map_of cs u of None \<Rightarrow> 0 | Some n \<Rightarrow> n)"

definition prose_step :: "prose_scan \<Rightarrow> string \<Rightarrow> prose_scan" where
  "prose_step s u =
    (if Some u = previous s then s
     else
       let n = count_of (counts s) u + 1;
           s = s\<lparr>previous := Some u, counts := AList.update u n (counts s)\<rparr>
       in if n > most s then s\<lparr>most := n, mostLine := Some u\<rparr> else s)"

definition prose_text :: "prose_scan \<Rightarrow> string \<Rightarrow> prose_scan" where
  "prose_text s t = foldl prose_step (s\<lparr>counts := [], previous := None\<rparr>) (prose_units t)"

definition prose_entry :: "prose_scan \<Rightarrow> tree_entry \<Rightarrow> prose_scan" where
  "prose_entry s e = (if isAssistantEntry e then foldl prose_text s (proseBlocks e) else s)"

record prose_loop_reading =
  repeats :: nat
  line :: "string option"

definition readProseLoop :: "tree_entry list \<Rightarrow> prose_loop_reading" where
  "readProseLoop es =
    (let s = foldl prose_entry \<lparr>counts = [], previous = None, most = 0, mostLine = None\<rparr> es in
     \<lparr>repeats = most s, line = (if most s > 1 then map_option (take LINE_MAX_CHARS) (mostLine s) else None)\<rparr>)"

definition isProseLoop :: "prose_loop_reading \<Rightarrow> bool" where
  "isProseLoop r \<longleftrightarrow> repeats r \<ge> PROSE_LOOP_THRESHOLD"

text \<open>Every block of the assistant's prose, and how often a sentence comes back in one.\<close>

definition all_prose :: "tree_entry list \<Rightarrow> string list" where
  "all_prose es = concat (map proseBlocks (filter isAssistantEntry es))"

definition returns :: "string \<Rightarrow> string \<Rightarrow> nat" where
  "returns t u = count_list (remdups_adj (prose_units t)) u"

lemma prose_fold: "foldl prose_entry s es = foldl prose_text s (all_prose es)"
  by (induction es arbitrary: s) (simp_all add: prose_entry_def all_prose_def)

lemma remdups_adj_snoc:
  "remdups_adj (xs @ [x]) = (if xs \<noteq> [] \<and> last xs = x then remdups_adj xs else remdups_adj xs @ [x])"
  by (induction xs rule: remdups_adj.induct) auto

lemma count_of_update [simp]:
  "count_of (AList.update u n cs) v = (if v = u then n else count_of cs v)"
  by (simp add: count_of_def update_conv')

lemma prose_step_sel:
  "previous (prose_step s u) = Some u"
  "count_of (counts (prose_step s u)) v =
    (if v = u \<and> Some u \<noteq> previous s then count_of (counts s) u + 1 else count_of (counts s) v)"
  "most (prose_step s u) =
    (if Some u = previous s then most s else max (most s) (count_of (counts s) u + 1))"
  by (simp_all add: prose_step_def Let_def)

lemma some_bumped:
  fixes c :: "string \<Rightarrow> nat"
  shows "(\<exists>v. n \<le> c v + (if v = u then 1 else 0)) \<longleftrightarrow> (\<exists>v. n \<le> c v) \<or> n \<le> c u + 1"
proof
  assume "\<exists>v. n \<le> c v + (if v = u then 1 else 0)"
  then obtain v where "n \<le> c v + (if v = u then 1 else 0)" ..
  then show "(\<exists>v. n \<le> c v) \<or> n \<le> c u + 1" by (cases "v = u") auto
next
  assume "(\<exists>v. n \<le> c v) \<or> n \<le> c u + 1"
  then show "\<exists>v. n \<le> c v + (if v = u then 1 else 0)"
    by (elim disjE exE) (rule exI, erule trans_le_add1, rule exI [of _ u], simp)
qed

lemma prose_scan_reads:
  assumes "counts s = []" and "previous s = None"
  shows "previous (foldl prose_step s us) = (if us = [] then None else Some (last us)) \<and>
    (\<forall>v. count_of (counts (foldl prose_step s us)) v = count_list (remdups_adj us) v) \<and>
    (\<forall>n. n \<le> most (foldl prose_step s us) \<longleftrightarrow>
      n \<le> most s \<or> (\<exists>v. n \<le> count_list (remdups_adj us) v))"
proof (induction us rule: rev_induct)
  case Nil
  with assms show ?case by (auto simp: count_of_def)
next
  case (snoc u us)
  define r where "r = foldl prose_step s us"
  note IH = snoc [folded r_def]
  show ?case
  proof (cases "Some u = previous r")
    case True
    with IH have "us \<noteq> []" "last us = u" by (auto split: if_splits)
    moreover have "prose_step r u = r" using True by (simp add: prose_step_def)
    ultimately show ?thesis using IH by (simp add: remdups_adj_snoc r_def [symmetric])
  next
    case False
    with IH have new: "remdups_adj (us @ [u]) = remdups_adj us @ [u]"
      by (auto simp: remdups_adj_snoc split: if_splits)
    let ?c = "count_list (remdups_adj us)"
    have "n \<le> most (prose_step r u) \<longleftrightarrow> n \<le> most s \<or> (\<exists>v. n \<le> ?c v + (if v = u then 1 else 0))" for n
    proof -
      have "n \<le> most (prose_step r u) \<longleftrightarrow> n \<le> most s \<or> (\<exists>v. n \<le> ?c v) \<or> n \<le> ?c u + 1"
        using False IH by (simp add: prose_step_sel le_max_iff_disj)
      also have "\<dots> \<longleftrightarrow> n \<le> most s \<or> (\<exists>v. n \<le> ?c v + (if v = u then 1 else 0))"
        by (simp add: some_bumped)
      finally show ?thesis .
    qed
    then show ?thesis using False IH new
      by (simp add: prose_step_sel r_def [symmetric] eq_commute [of u])
  qed
qed

lemma prose_texts_read:
  "0 < n \<Longrightarrow> n \<le> most (foldl prose_text s ts) \<longleftrightarrow> n \<le> most s \<or> (\<exists>t \<in> set ts. \<exists>u. n \<le> returns t u)"
proof (induction ts arbitrary: s)
  case (Cons t ts)
  have "n \<le> most (prose_text s t) \<longleftrightarrow> n \<le> most s \<or> (\<exists>u. n \<le> returns t u)"
    using prose_scan_reads [of "s\<lparr>counts := [], previous := None\<rparr>" "prose_units t"]
    by (simp add: prose_text_def returns_def)
  with Cons show ?case by simp
qed simp

text \<open>
  A prose loop is reported exactly when in a single block of the assistant's text or thinking
  one sentence comes back ninety-six times, not counting immediate repetitions; counts are never
  carried from one block to the next.
\<close>

theorem prose_loop_exact:
  "isProseLoop (readProseLoop es) \<longleftrightarrow>
    (\<exists>t \<in> set (all_prose es). \<exists>u. PROSE_LOOP_THRESHOLD \<le> returns t u)"
  using prose_texts_read [of PROSE_LOOP_THRESHOLD "\<lparr>counts = [], previous = None, most = 0, mostLine = None\<rparr>"
      "all_prose es"]
  by (simp add: isProseLoop_def readProseLoop_def prose_fold Let_def PROSE_LOOP_THRESHOLD_def)

section \<open>Turns without a tool call\<close>

record prose_turns =
  threshold :: int
  toolCallsThisTurn :: nat
  turn_streak :: int
  tripped :: bool

definition new_prose_turns :: "js_number \<Rightarrow> prose_turns" where
  "new_prose_turns n =
    \<lparr>threshold = (case n of Finite q \<Rightarrow> if is_safe_integer n \<and> q \<ge> 0 then \<lfloor>q\<rfloor> else 0 | _ \<Rightarrow> 0),
     toolCallsThisTurn = 0, turn_streak = 0, tripped = False\<rparr>"

definition turns_enabled :: "prose_turns \<Rightarrow> bool" where
  "turns_enabled d \<longleftrightarrow> threshold d > 0"

definition reset_turns :: "prose_turns \<Rightarrow> prose_turns" where
  "reset_turns d = d\<lparr>toolCallsThisTurn := 0, turn_streak := 0, tripped := False\<rparr>"

record turn_event =
  event_type :: string
  interrupted :: bool

definition observe_turn :: "prose_turns \<Rightarrow> turn_event \<Rightarrow> bool \<times> prose_turns" where
  "observe_turn d e =
    (if \<not> turns_enabled d \<or> tripped d then (False, d)
     else if event_type e = ''tool_execution_end'' then
       (False, d\<lparr>toolCallsThisTurn := toolCallsThisTurn d + 1, turn_streak := 0\<rparr>)
     else if event_type e \<noteq> ''turn_end'' then (False, d)
     else
       let hadToolCall = toolCallsThisTurn d > 0;
           d = d\<lparr>toolCallsThisTurn := 0\<rparr>
       in if interrupted e then (False, d)
          else if hadToolCall then (False, d\<lparr>turn_streak := 0\<rparr>)
          else let d = d\<lparr>turn_streak := turn_streak d + 1\<rparr> in
            if turn_streak d < threshold d then (False, d)
            else (True, d\<lparr>tripped := True\<rparr>))"

text \<open>
  The idle turns a history ends in: the uninterrupted turn ends after the last tool call, less
  the turn that tool call was part of. The history is given newest first.
\<close>

definition is_tool_end :: "turn_event \<Rightarrow> bool" where
  "is_tool_end e \<longleftrightarrow> event_type e = ''tool_execution_end''"

definition is_turn_end :: "turn_event \<Rightarrow> bool" where
  "is_turn_end e \<longleftrightarrow> event_type e = ''turn_end''"

definition since_tool :: "turn_event list \<Rightarrow> turn_event list" where
  "since_tool evs =
    (let ends = rev (filter is_turn_end (takeWhile (\<lambda>e. \<not> is_tool_end e) (rev evs))) in
     if (\<exists>e \<in> set evs. is_tool_end e) then drop 1 ends else ends)"

definition idle_turns :: "turn_event list \<Rightarrow> nat" where
  "idle_turns evs = length (filter (\<lambda>e. \<not> interrupted e) (since_tool evs))"

definition tool_open :: "turn_event list \<Rightarrow> bool" where
  "tool_open evs \<longleftrightarrow> (\<exists>e \<in> set evs. is_tool_end e) \<and>
    filter is_turn_end (takeWhile (\<lambda>e. \<not> is_tool_end e) (rev evs)) = []"

definition after_events :: "prose_turns \<Rightarrow> turn_event list \<Rightarrow> prose_turns" where
  "after_events d evs = foldl (\<lambda>d e. snd (observe_turn d e)) d evs"

lemma idle_turns_snoc:
  "idle_turns (evs @ [e]) =
    (if is_tool_end e then 0
     else if is_turn_end e \<and> \<not> tool_open evs \<and> \<not> interrupted e then Suc (idle_turns evs)
     else idle_turns evs)"
  and tool_open_snoc: "tool_open (evs @ [e]) \<longleftrightarrow> is_tool_end e \<or> (tool_open evs \<and> \<not> is_turn_end e)"
proof -
  show "idle_turns (evs @ [e]) =
    (if is_tool_end e then 0
     else if is_turn_end e \<and> \<not> tool_open evs \<and> \<not> interrupted e then Suc (idle_turns evs)
     else idle_turns evs)"
    by (cases "filter is_turn_end (takeWhile (\<lambda>e. \<not> is_tool_end e) (rev evs))" rule: rev_cases)
      (auto simp: idle_turns_def since_tool_def tool_open_def Let_def)
  show "tool_open (evs @ [e]) \<longleftrightarrow> is_tool_end e \<or> (tool_open evs \<and> \<not> is_turn_end e)"
    by (auto simp: tool_open_def)
qed

lemma idle_turns_open: "tool_open evs \<Longrightarrow> idle_turns evs = 0"
  by (simp add: idle_turns_def since_tool_def tool_open_def)

lemma turn_kinds: "\<not> (is_tool_end e \<and> is_turn_end e)"
  by (simp add: is_tool_end_def is_turn_end_def)

lemma after_events_reads:
  fixes n :: int
  assumes "0 < n" and "d = \<lparr>threshold = n, toolCallsThisTurn = 0, turn_streak = 0, tripped = False\<rparr>"
  shows "threshold (after_events d evs) = n \<and>
    (tripped (after_events d evs) \<longleftrightarrow> (\<exists>k \<le> length evs. n \<le> idle_turns (take k evs))) \<and>
    (\<not> tripped (after_events d evs) \<longrightarrow>
      turn_streak (after_events d evs) = idle_turns evs \<and>
      (toolCallsThisTurn (after_events d evs) > 0 \<longleftrightarrow> tool_open evs))"
proof (induction evs rule: rev_induct)
  case Nil
  with assms show ?case
    by (auto simp: after_events_def idle_turns_def since_tool_def tool_open_def)
next
  case (snoc e evs)
  define r where "r = after_events d evs"
  note IH = snoc [folded r_def]
  have step: "after_events d (evs @ [e]) = snd (observe_turn r e)"
    by (simp add: after_events_def r_def)
  have ex: "(\<exists>k \<le> length (evs @ [e]). n \<le> idle_turns (take k (evs @ [e]))) \<longleftrightarrow>
      (\<exists>k \<le> length evs. n \<le> idle_turns (take k evs)) \<or> n \<le> idle_turns (evs @ [e])"
    by (auto simp: le_Suc_eq intro: exI [of _ "Suc (length evs)"])
  show ?case
  proof (cases "tripped r")
    case True
    with IH show ?thesis unfolding step ex by (auto simp: observe_turn_def)
  next
    case False
    then have "\<not> n \<le> idle_turns evs" using IH by auto
    with False IH show ?thesis
      unfolding step ex observe_turn_def
      using turn_kinds [of e] assms(1) idle_turns_open [of evs]
      by (auto simp: turns_enabled_def Let_def idle_turns_snoc tool_open_snoc
          is_tool_end_def [symmetric] is_turn_end_def [symmetric] split: if_splits)
  qed
qed

lemma new_prose_turns_int:
  "0 < n \<Longrightarrow> n \<le> max_safe_integer \<Longrightarrow> new_prose_turns (js_int n) =
    \<lparr>threshold = n, toolCallsThisTurn = 0, turn_streak = 0, tripped = False\<rparr>"
  using is_safe_integer_js_int [of n] by (simp add: new_prose_turns_def js_int_def)

text \<open>
  The detector of turns without a tool call fires at the first event that completes as many
  idle turns as its threshold, and at no other: interrupted turns neither count nor break a
  streak, and a tool call clears it together with the turn it was part of.
\<close>

theorem prose_turns_fire:
  fixes n :: int
  assumes "0 < n" and "n \<le> max_safe_integer"
  shows "fst (observe_turn (after_events (new_prose_turns (js_int n)) evs) e) \<longleftrightarrow>
    n \<le> idle_turns (evs @ [e]) \<and> (\<forall>k \<le> length evs. idle_turns (take k evs) < n)"
proof -
  define r where "r = after_events (new_prose_turns (js_int n)) evs"
  note IH = after_events_reads [OF assms(1) new_prose_turns_int [OF assms], of evs, folded r_def]
  have below: "(\<forall>k \<le> length evs. idle_turns (take k evs) < n) \<longleftrightarrow> \<not> tripped r"
    using IH by (meson not_le)
  show ?thesis
  proof (cases "tripped r")
    case True
    then show ?thesis unfolding below r_def [symmetric] by (simp add: observe_turn_def)
  next
    case False
    with below have "idle_turns evs < n" by auto
    with False IH show ?thesis
      unfolding below r_def [symmetric] observe_turn_def
      using turn_kinds [of e] assms(1) idle_turns_open [of evs]
      by (auto simp: turns_enabled_def Let_def idle_turns_snoc
          is_tool_end_def [symmetric] is_turn_end_def [symmetric] split: if_splits)
  qed
qed

lemma prose_turns_fire_witness:
  "let ev = (\<lambda>t. \<lparr>event_type = t, interrupted = False\<rparr>);
       evs = [ev ''tool_execution_end'', ev ''turn_end'', ev ''turn_end'']
   in fst (observe_turn (after_events (new_prose_turns (js_int 2)) evs) (ev ''turn_end''))"
  using prose_turns_fire [of 2 "[\<lparr>event_type = ''tool_execution_end'', interrupted = False\<rparr>,
      \<lparr>event_type = ''turn_end'', interrupted = False\<rparr>, \<lparr>event_type = ''turn_end'', interrupted = False\<rparr>]"
      "\<lparr>event_type = ''turn_end'', interrupted = False\<rparr>"]
  by (simp add: Let_def max_safe_integer_def idle_turns_def since_tool_def is_tool_end_def is_turn_end_def
      le_Suc_eq numeral_eq_Suc all_conj_distrib imp_disjL)

section \<open>Reading a turn off the transcript\<close>

datatype tui_turn_phase = Awaiting_start | In_flight | Ended

definition CONTINUING_STOP_REASONS :: "string list" where
  "CONTINUING_STOP_REASONS = [''toolUse'']"

definition SUBMIT_ENTRY_TYPE :: string where
  "SUBMIT_ENTRY_TYPE = ''pifleet.submit/v1''"

definition TUI_QUIET_MS :: int where "TUI_QUIET_MS = 2000"
definition TUI_ERROR_GRACE_MS :: int where "TUI_ERROR_GRACE_MS = 30000"

definition quietWindowMsFor :: "string option \<Rightarrow> int" where
  "quietWindowMsFor stopReason = (if stopReason = Some ''error'' then TUI_ERROR_GRACE_MS else TUI_QUIET_MS)"

definition toolCallId :: "json \<Rightarrow> string option" where
  "toolCallId b =
    (if is_object b \<and> jprop b ''type'' = Some (JStr ''toolCall'') then as_string (jprop b ''id'') else None)"

definition toolCallIds :: "tree_entry \<Rightarrow> string list" where
  "toolCallIds e = List.map_filter toolCallId (items (message_field e ''content''))"

definition is_submit :: "tree_entry \<Rightarrow> bool" where
  "is_submit e \<longleftrightarrow> e_type e = ''custom'' \<and> jprop (e_value e) ''customType'' = Some (JStr SUBMIT_ENTRY_TYPE)"

definition answers :: "tree_entry \<Rightarrow> string option" where
  "answers e = (if message_role e = Some ''toolResult'' then as_string (message_field e ''toolCallId'') else None)"

definition terminatedBySubmit :: "tree_entry list \<Rightarrow> tree_entry \<Rightarrow> bool" where
  "terminatedBySubmit es lastAssistant =
    (let after = drop (nat (index_of es lastAssistant + 1)) es;
         answered = List.map_filter answers after
     in list_ex is_submit after \<and> list_all (\<lambda>i. i \<in> set answered) (toolCallIds lastAssistant))"

definition classifyTuiTurn :: "tree_entry list \<Rightarrow> tui_turn_phase \<times> string option" where
  "classifyTuiTurn es =
    (let said = filter isAssistantEntry es in
     if said = [] then (Awaiting_start, None)
     else
       let l = last said in
       if list_ex (\<lambda>e. message_role e = Some ''user'') (takeWhile (\<lambda>e. e \<noteq> l) (rev es)) then (In_flight, None)
       else
         let stopReason = as_string (message_field l ''stopReason'') in
         if (case stopReason of None \<Rightarrow> False | Some r \<Rightarrow> r \<in> set CONTINUING_STOP_REASONS) then
           (if terminatedBySubmit es l then (Ended, stopReason) else (In_flight, stopReason))
         else (Ended, stopReason))"

datatype stop_verdict_reason =
    Stop_aborted | Stop_error | Stop_length | Terminating_report | Quiesced

definition verdictForStopReason :: "string option \<Rightarrow> verdict \<times> stop_verdict_reason" where
  "verdictForStopReason stopReason =
    (if stopReason = Some ''aborted'' then (Aborted, Stop_aborted)
     else if stopReason = Some ''error'' then (Failed, Stop_error)
     else if stopReason = Some ''length'' then (Unknown, Stop_length)
     else if stopReason = Some ''toolUse'' then (Success, Terminating_report)
     else (Success, Quiesced))"

lemma index_of_middle: "x \<notin> set as \<Longrightarrow> index_of (as @ x # bs) x = int (length as)"
proof -
  have "index_of_from i (as @ x # bs) x = i + int (length as)" if "x \<notin> set as" for i
    using that by (induction as arbitrary: i) auto
  then show "x \<notin> set as \<Longrightarrow> ?thesis" by (simp add: index_of_def)
qed

lemma mem_map_filter: "x \<in> set (List.map_filter f xs) \<longleftrightarrow> (\<exists>y \<in> set xs. f y = Some x)"
  by (induction xs) (auto simp: List.map_filter_simps split: option.splits)

text \<open>
  A transcript whose entries have distinct ids reads as a turn that ended exactly when its
  last assistant message is followed by no user message and either did not stop to call tools or
  was followed by a submitted report and an answer to every call it made.
\<close>

theorem turn_ended_iff:
  assumes "distinct (map e_id (as @ l # bs))" and "isAssistantEntry l" and "\<forall>e \<in> set bs. \<not> isAssistantEntry e"
  shows "fst (classifyTuiTurn (as @ l # bs)) = Ended \<longleftrightarrow>
    (\<forall>e \<in> set bs. message_role e \<noteq> Some ''user'') \<and>
    (message_field l ''stopReason'' = Some (JStr ''toolUse'') \<longrightarrow>
      (\<exists>e \<in> set bs. is_submit e) \<and> (\<forall>i \<in> set (toolCallIds l). \<exists>e \<in> set bs. answers e = Some i))"
proof -
  have "filter isAssistantEntry bs = []" using assms(3) by (simp add: filter_empty_conv)
  then have l: "last (filter isAssistantEntry (as @ l # bs)) = l" "filter isAssistantEntry (as @ l # bs) \<noteq> []"
    using assms(2) by simp_all
  from assms(1) have notin: "l \<notin> set as" "l \<notin> set bs" by auto
  have "takeWhile (\<lambda>e. e \<noteq> l) (rev bs @ l # rev as) = rev bs"
    using notin(2) by (subst takeWhile_append2) auto
  then have behind: "takeWhile (\<lambda>e. e \<noteq> l) (rev (as @ l # bs)) = rev bs" by simp
  have after: "drop (nat (index_of (as @ l # bs) l + 1)) (as @ l # bs) = bs"
    using notin by (simp add: index_of_middle nat_add_distrib)
  have cont: "(case as_string (message_field l ''stopReason'') of None \<Rightarrow> False
      | Some r \<Rightarrow> r \<in> set CONTINUING_STOP_REASONS) \<longleftrightarrow> message_field l ''stopReason'' = Some (JStr ''toolUse'')"
    by (auto simp: CONTINUING_STOP_REASONS_def split: option.splits)
  have sub: "terminatedBySubmit (as @ l # bs) l \<longleftrightarrow> (\<exists>e \<in> set bs. is_submit e) \<and>
      (\<forall>i \<in> set (toolCallIds l). \<exists>e \<in> set bs. answers e = Some i)"
    unfolding terminatedBySubmit_def Let_def after
    by (simp add: list_ex_iff list_all_iff mem_map_filter)
  show ?thesis
    unfolding classifyTuiTurn_def Let_def l(1) behind cont sub using l(2)
    by (auto simp: list_ex_iff)
qed

lemma turn_ended_iff_witness:
  "fst (classifyTuiTurn [\<lparr>e_type = ''message'', e_id = ''a'', e_parentId = None, e_value = JObj
      [(''message'', JObj [(''role'', JStr ''assistant''), (''stopReason'', JStr ''toolUse'')])]\<rparr>]) \<noteq> Ended"
  using turn_ended_iff [of "[]" "\<lparr>e_type = ''message'', e_id = ''a'', e_parentId = None, e_value = JObj
      [(''message'', JObj [(''role'', JStr ''assistant''), (''stopReason'', JStr ''toolUse'')])]\<rparr>" "[]"]
  by (simp add: isAssistantEntry_def isMessageEntry_def message_role_def message_def jprop_of_def message_field_def)

end
