(* ===== verification/Completion.thy ===== *)
theory Completion
  imports Wire "HOL-Library.Sublist"
begin

text \<open>
  When a worker's turn is over (\<open>src/rpc/completion.ts\<close>): the tracker that watches the events of
  an agent, the generation token a probe is taken under, and the confirmation by two reads of
  the session's state. The lemmas characterise a confirmed completion by the history alone. The
  answer to a blocking dialog (\<open>src/supervisor/ui-requests.ts\<close>) is modelled here too, since both
  decide whether a turn may go on.
\<close>

section \<open>The tracker\<close>

text \<open>
  An event, with the properties the tracker reads: \<open>willRetry\<close> when it is a boolean, and the two
  queues of a \<open>queue_update\<close>, which read as empty when they are absent or null.
\<close>

record rpc_event =
  rpc_type :: string
  willRetry :: "bool option"
  steering :: "json list option"
  followUp :: "json list option"

definition ACTIVITY_EVENTS :: "string list" where
  "ACTIVITY_EVENTS =
    [''agent_start'', ''agent_end'', ''turn_start'', ''turn_end'', ''message_start'', ''message_update'',
     ''message_end'', ''tool_execution_start'', ''tool_execution_update'', ''tool_execution_end'',
     ''auto_retry_start'', ''auto_retry_end'', ''summarization_retry_scheduled'',
     ''summarization_retry_attempt_start'', ''summarization_retry_finished'', ''compaction_start'',
     ''compaction_end'']"

record tracker =
  endedClean :: bool
  retriesOutstanding :: int
  summarizationsOutstanding :: int
  queueEmpty :: bool
  generation :: int

definition new_tracker :: tracker where
  "new_tracker = \<lparr>endedClean = False, retriesOutstanding = 0, summarizationsOutstanding = 0,
     queueEmpty = True, generation = 0\<rparr>"

definition reset_tracker :: "tracker \<Rightarrow> tracker" where
  "reset_tracker t = t\<lparr>endedClean := False, retriesOutstanding := 0, summarizationsOutstanding := 0,
     queueEmpty := True, generation := generation t + 1\<rparr>"

definition queues_empty :: "rpc_event \<Rightarrow> bool" where
  "queues_empty e \<longleftrightarrow>
    (case steering e of None \<Rightarrow> [] | Some q \<Rightarrow> q) = [] \<and> (case followUp e of None \<Rightarrow> [] | Some q \<Rightarrow> q) = []"

definition note_event :: "tracker \<Rightarrow> rpc_event \<Rightarrow> tracker" where
  "note_event t e =
    (if rpc_type e = ''agent_start'' then t\<lparr>endedClean := False\<rparr>
     else if rpc_type e = ''agent_end'' then t\<lparr>endedClean := (willRetry e = Some False)\<rparr>
     else if rpc_type e = ''auto_retry_start'' then
       t\<lparr>retriesOutstanding := retriesOutstanding t + 1, endedClean := False\<rparr>
     else if rpc_type e = ''auto_retry_end'' then
       t\<lparr>retriesOutstanding := max 0 (retriesOutstanding t - 1)\<rparr>
     else if rpc_type e = ''summarization_retry_scheduled'' then
       t\<lparr>summarizationsOutstanding := summarizationsOutstanding t + 1\<rparr>
     else if rpc_type e = ''summarization_retry_finished'' then
       t\<lparr>summarizationsOutstanding := max 0 (summarizationsOutstanding t - 1)\<rparr>
     else if rpc_type e = ''queue_update'' then t\<lparr>queueEmpty := queues_empty e\<rparr>
     else t)"

definition observe :: "tracker \<Rightarrow> rpc_event \<Rightarrow> tracker" where
  "observe t e =
    (let t = note_event t e in
     if rpc_type e = ''queue_update'' then
       (if \<not> queueEmpty t then t\<lparr>generation := generation t + 1\<rparr> else t)
     else if rpc_type e \<in> set ACTIVITY_EVENTS then t\<lparr>generation := generation t + 1\<rparr>
     else t)"

definition eligible :: "tracker \<Rightarrow> bool" where
  "eligible t \<longleftrightarrow> endedClean t \<and> retriesOutstanding t = 0 \<and> summarizationsOutstanding t = 0 \<and> queueEmpty t"

definition beginProbe :: "tracker \<Rightarrow> int" where
  "beginProbe t = generation t"

text \<open>
  The state a probe reads: the two fields completion needs, when they hold a boolean and a
  number, and the counters of the session by name.
\<close>

record session_state =
  isStreaming :: "bool option"
  pendingMessageCount :: "js_number option"
  counters :: "string \<Rightarrow> js_number option"

definition MONOTONIC_FIELDS :: "string list" where
  "MONOTONIC_FIELDS = [''turnsStarted'', ''messagesConsumed'', ''eventCount'']"

definition countersEqual :: "session_state \<Rightarrow> session_state \<Rightarrow> bool" where
  "countersEqual a b \<longleftrightarrow>
    list_all (\<lambda>f. case (counters a f, counters b f) of
      (Some av, Some bv) \<Rightarrow> av \<noteq> Not_a_number \<and> av = bv
    | _ \<Rightarrow> True) MONOTONIC_FIELDS"

definition confirm :: "tracker \<Rightarrow> int \<Rightarrow> session_state \<Rightarrow> session_state \<Rightarrow> bool" where
  "confirm t token a b \<longleftrightarrow>
    (if token \<noteq> generation t then False
     else if \<not> eligible t then False
     else if isStreaming a \<noteq> Some False \<or> isStreaming b \<noteq> Some False then False
     else if pendingMessageCount a \<noteq> Some (js_int 0) \<or> pendingMessageCount b \<noteq> Some (js_int 0) then False
     else countersEqual a b)"

section \<open>What the history of an epoch says\<close>

definition of_type :: "string \<Rightarrow> rpc_event \<Rightarrow> bool" where
  "of_type k e \<longleftrightarrow> rpc_type e = k"

definition latest :: "string list \<Rightarrow> rpc_event list \<Rightarrow> rpc_event option" where
  "latest ks evs = find (\<lambda>e. rpc_type e \<in> set ks) (rev evs)"

text \<open>
  The last word on the agent is that it ended and will not retry; no suffix of the history opens
  more of something than it closes; the last word on the queues is that they are empty.
\<close>

definition ended_clean :: "rpc_event list \<Rightarrow> bool" where
  "ended_clean evs \<longleftrightarrow>
    (case latest [''agent_start'', ''agent_end'', ''auto_retry_start''] evs of
       None \<Rightarrow> False | Some e \<Rightarrow> rpc_type e = ''agent_end'' \<and> willRetry e = Some False)"

definition occurs :: "string \<Rightarrow> rpc_event list \<Rightarrow> nat" where
  "occurs k evs = length (filter (of_type k) evs)"

definition drained :: "string \<Rightarrow> string \<Rightarrow> rpc_event list \<Rightarrow> bool" where
  "drained opens closes evs \<longleftrightarrow> (\<forall>s \<in> set (suffixes evs). occurs opens s \<le> occurs closes s)"

definition queue_drained :: "rpc_event list \<Rightarrow> bool" where
  "queue_drained evs \<longleftrightarrow> (case latest [''queue_update''] evs of None \<Rightarrow> True | Some e \<Rightarrow> queues_empty e)"

text \<open>An event that does not disturb a probe.\<close>

definition harmless :: "rpc_event \<Rightarrow> bool" where
  "harmless e \<longleftrightarrow> rpc_type e \<notin> set ACTIVITY_EVENTS \<and> (rpc_type e = ''queue_update'' \<longrightarrow> queues_empty e)"

definition finished :: "rpc_event list \<Rightarrow> bool" where
  "finished evs \<longleftrightarrow> ended_clean evs \<and> drained ''auto_retry_start'' ''auto_retry_end'' evs \<and>
    drained ''summarization_retry_scheduled'' ''summarization_retry_finished'' evs \<and> queue_drained evs"

definition quiet_reads :: "session_state \<Rightarrow> session_state \<Rightarrow> bool" where
  "quiet_reads a b \<longleftrightarrow> isStreaming a = Some False \<and> isStreaming b = Some False \<and>
    pendingMessageCount a = Some (js_int 0) \<and> pendingMessageCount b = Some (js_int 0) \<and> countersEqual a b"

lemma latest_snoc [simp]:
  "latest ks (evs @ [e]) = (if rpc_type e \<in> set ks then Some e else latest ks evs)"
  by (simp add: latest_def)

lemma latest_Nil [simp]: "latest ks [] = None"
  by (simp add: latest_def)

lemma occurs_snoc [simp]: "occurs k (evs @ [e]) = occurs k evs + (if rpc_type e = k then 1 else 0)"
  by (simp add: occurs_def of_type_def)

text \<open>A counter that is bumped, and lowered but not below zero, is the largest excess of a suffix.\<close>

definition excess_within :: "string \<Rightarrow> string \<Rightarrow> rpc_event list \<Rightarrow> nat \<Rightarrow> bool" where
  "excess_within opens closes evs m \<longleftrightarrow> (\<forall>s. suffix s evs \<longrightarrow> occurs opens s \<le> occurs closes s + m)"

lemma drained_excess: "drained opens closes evs \<longleftrightarrow> excess_within opens closes evs 0"
  by (auto simp: drained_def excess_within_def)

lemma excess_within_Nil: "excess_within opens closes [] m"
  by (simp add: excess_within_def occurs_def)

lemma excess_within_snoc:
  assumes "opens \<noteq> closes"
  shows "excess_within opens closes (evs @ [e]) m \<longleftrightarrow>
    (if rpc_type e = opens then (case m of 0 \<Rightarrow> False | Suc k \<Rightarrow> excess_within opens closes evs k)
     else if rpc_type e = closes then excess_within opens closes evs (Suc m)
     else excess_within opens closes evs m)"
proof -
  have all: "(\<forall>s. suffix s (evs @ [e]) \<longrightarrow> P s) \<longleftrightarrow> P [] \<and> (\<forall>s. suffix s evs \<longrightarrow> P (s @ [e]))" for P
    by (auto simp: suffix_snoc)
  have zero: "occurs k [] = 0" for k by (simp add: occurs_def)
  show ?thesis
    using assms unfolding excess_within_def all zero
    by (auto split: nat.splits simp: zero intro!: exI [of _ "[]"])
qed

lemma counter_drained:
  fixes c :: "rpc_event list \<Rightarrow> int"
  assumes "opens \<noteq> closes" and "c [] = 0"
    and "\<And>evs e. c (evs @ [e]) =
      (if rpc_type e = opens then c evs + 1
       else if rpc_type e = closes then max 0 (c evs - 1) else c evs)"
  shows "c evs = 0 \<longleftrightarrow> drained opens closes evs"
proof -
  have "0 \<le> c evs \<and> (\<forall>m. c evs \<le> int m \<longleftrightarrow> excess_within opens closes evs m)"
  proof (induction evs rule: rev_induct)
    case Nil
    with assms(2) show ?case by (simp add: excess_within_Nil)
  next
    case (snoc e evs)
    have bump: "c evs + 1 \<le> int m \<longleftrightarrow> (case m of 0 \<Rightarrow> False | Suc k \<Rightarrow> excess_within opens closes evs k)" for m
      using snoc by (cases m) auto
    have drop: "c evs - 1 \<le> int m \<longleftrightarrow> excess_within opens closes evs (Suc m)" for m
      using snoc [THEN conjunct2, THEN spec, of "Suc m"] by auto
    from snoc show ?case
      unfolding excess_within_snoc [OF assms(1)] assms(3) using bump drop by auto
  qed
  then have "0 \<le> c evs" and "c evs \<le> int 0 \<longleftrightarrow> excess_within opens closes evs 0" by blast+
  then show ?thesis by (simp add: drained_excess)
qed

definition track :: "tracker \<Rightarrow> rpc_event list \<Rightarrow> tracker" where
  "track t evs = foldl observe t evs"

lemma track_simps [simp]:
  "track t [] = t" "track t (evs @ [e]) = observe (track t evs) e"
  by (simp_all add: track_def)

lemma track_append: "track t (xs @ ys) = track (track t xs) ys"
  by (simp add: track_def)

lemma observe_sel:
  "endedClean (observe t e) =
    (if rpc_type e \<in> {''agent_start'', ''auto_retry_start''} then False
     else if rpc_type e = ''agent_end'' then willRetry e = Some False else endedClean t)"
  "retriesOutstanding (observe t e) =
    (if rpc_type e = ''auto_retry_start'' then retriesOutstanding t + 1
     else if rpc_type e = ''auto_retry_end'' then max 0 (retriesOutstanding t - 1)
     else retriesOutstanding t)"
  "summarizationsOutstanding (observe t e) =
    (if rpc_type e = ''summarization_retry_scheduled'' then summarizationsOutstanding t + 1
     else if rpc_type e = ''summarization_retry_finished'' then max 0 (summarizationsOutstanding t - 1)
     else summarizationsOutstanding t)"
  "queueEmpty (observe t e) = (if rpc_type e = ''queue_update'' then queues_empty e else queueEmpty t)"
  by (simp_all add: observe_def note_event_def Let_def)

lemma observe_generation:
  "generation (observe t e) = generation t + (if harmless e then 0 else 1)"
  by (simp add: observe_def note_event_def Let_def harmless_def ACTIVITY_EVENTS_def)

lemma track_eligible: "eligible (track (reset_tracker t) evs) \<longleftrightarrow> finished evs"
proof -
  let ?s = "\<lambda>evs. track (reset_tracker t) evs"
  have "endedClean (?s evs) \<longleftrightarrow> ended_clean evs"
    by (induction evs rule: rev_induct) (auto simp: reset_tracker_def ended_clean_def observe_sel)
  moreover have "queueEmpty (?s evs) \<longleftrightarrow> queue_drained evs"
    by (induction evs rule: rev_induct) (auto simp: reset_tracker_def queue_drained_def observe_sel)
  moreover have "retriesOutstanding (?s evs) = 0 \<longleftrightarrow> drained ''auto_retry_start'' ''auto_retry_end'' evs"
    by (rule counter_drained) (simp_all add: observe_sel reset_tracker_def)
  moreover have "summarizationsOutstanding (?s evs) = 0 \<longleftrightarrow>
      drained ''summarization_retry_scheduled'' ''summarization_retry_finished'' evs"
    by (rule counter_drained) (simp_all add: observe_sel reset_tracker_def)
  ultimately show ?thesis by (simp add: eligible_def finished_def)
qed

section \<open>A confirmed completion\<close>

text \<open>What can happen to a tracker while a probe is out.\<close>

datatype tracker_op = Observed rpc_event | Was_reset

fun track_op :: "tracker \<Rightarrow> tracker_op \<Rightarrow> tracker" where
  "track_op t (Observed e) = observe t e"
| "track_op t Was_reset = reset_tracker t"

definition undisturbed :: "tracker_op list \<Rightarrow> rpc_event list option" where
  "undisturbed ops =
    (if list_all (\<lambda>p. case p of Observed e \<Rightarrow> harmless e | Was_reset \<Rightarrow> False) ops
     then Some (List.map_filter (\<lambda>p. case p of Observed e \<Rightarrow> Some e | Was_reset \<Rightarrow> None) ops)
     else None)"

lemma undisturbed_Cons:
  "undisturbed (Observed e # ops) = (if harmless e then map_option (Cons e) (undisturbed ops) else None)"
  "undisturbed (Was_reset # ops) = None" "undisturbed [] = Some []"
  by (simp_all add: undisturbed_def List.map_filter_simps)

lemma generation_climbs: "generation t \<le> generation (foldl track_op t ops)"
proof (induction ops arbitrary: t)
  case (Cons p ops)
  have "generation t \<le> generation (track_op t p)"
    by (cases p) (simp_all add: observe_generation reset_tracker_def)
  with Cons [of "track_op t p"] show ?case by simp
qed simp

lemma undisturbed_generation:
  "generation (foldl track_op t ops) = generation t \<longleftrightarrow> undisturbed ops \<noteq> None"
  "undisturbed ops = Some evs \<Longrightarrow> foldl track_op t ops = track t evs"
proof (induction ops arbitrary: t evs)
  case Nil
  {
    case 1 show ?case by (simp add: undisturbed_Cons)
  next
    case 2 then show ?case by (simp add: undisturbed_Cons)
  }
next
  case (Cons p ops)
  {
    case 1
    show ?case
    proof (cases "generation (track_op t p) = generation t")
      case True
      then obtain e where "p = Observed e" "harmless e"
        by (cases p) (auto simp: observe_generation reset_tracker_def split: if_splits)
      with True Cons.IH(1) [of "track_op t p"] show ?thesis by (simp add: undisturbed_Cons)
    next
      case False
      then have "generation t < generation (track_op t p)"
        by (cases p) (auto simp: observe_generation reset_tracker_def split: if_splits)
      then have "generation t < generation (foldl track_op t (p # ops))"
        using generation_climbs [of "track_op t p" ops] by simp
      moreover have "undisturbed (p # ops) = None"
        using False by (cases p) (auto simp: undisturbed_Cons observe_generation split: if_splits)
      ultimately show ?thesis by simp
    qed
  next
    case 2
    then obtain e evs' where "p = Observed e" "undisturbed ops = Some evs'" "evs = e # evs'"
      by (cases p) (auto simp: undisturbed_Cons split: if_splits)
    with Cons.IH(2) [of evs' "observe t e"] show ?case by (simp add: track_def)
  }
qed

text \<open>
  C21: a probe confirms completion exactly when nothing that arrived since it began was activity,
  a filled queue or a new epoch, the history of the epoch ended cleanly with nothing retried,
  summarised or queued, and both reads found the session idle with equal counters.
\<close>

theorem completion_confirmed_iff:
  "confirm (foldl track_op (track (reset_tracker t) evs) ops)
     (beginProbe (track (reset_tracker t) evs)) a b \<longleftrightarrow>
   (\<exists>later. undisturbed ops = Some later \<and> finished (evs @ later) \<and> quiet_reads a b)"
proof (cases "undisturbed ops")
  case None
  then have "generation (foldl track_op (track (reset_tracker t) evs) ops) \<noteq>
      generation (track (reset_tracker t) evs)"
    using undisturbed_generation(1) by blast
  with None show ?thesis by (auto simp: confirm_def beginProbe_def)
next
  case (Some later)
  then have "generation (foldl track_op (track (reset_tracker t) evs) ops) =
      generation (track (reset_tracker t) evs)"
    using undisturbed_generation(1) by blast
  moreover have "foldl track_op (track (reset_tracker t) evs) ops = track (reset_tracker t) (evs @ later)"
    using undisturbed_generation(2) [OF Some] by (simp add: track_append)
  ultimately show ?thesis
    using Some track_eligible [of t "evs @ later"]
    by (auto simp: confirm_def beginProbe_def quiet_reads_def)
qed

section \<open>Blocking dialogs\<close>

datatype dialog_unblocker = Agent_timeout_if_set | Supervisor_only

definition DIALOG_METHODS :: "(string \<times> dialog_unblocker) list" where
  "DIALOG_METHODS =
    [(''select'', Agent_timeout_if_set), (''confirm'', Agent_timeout_if_set),
     (''input'', Agent_timeout_if_set), (''editor'', Supervisor_only)]"

definition FIRE_AND_FORGET_METHODS :: "string list" where
  "FIRE_AND_FORGET_METHODS = [''notify'', ''setStatus'', ''setWidget'', ''setTitle'', ''set_editor_text'']"

datatype ui_request_plan =
    Answer_ui (ui_id: string) (ui_method: string) (unblocker: "dialog_unblocker option") (unrecognised: bool)
  | Ignore_ui string
  | Unanswerable_ui "string option"

definition nonempty_string :: "json option \<Rightarrow> string option" where
  "nonempty_string v = (case as_string v of Some s \<Rightarrow> if s = [] then None else Some s | None \<Rightarrow> None)"

definition classifyUiRequest :: "json \<Rightarrow> ui_request_plan" where
  "classifyUiRequest event =
    (let m = nonempty_string (jprop event ''method'') in
     if (case m of None \<Rightarrow> False | Some k \<Rightarrow> k \<in> set FIRE_AND_FORGET_METHODS) then Ignore_ui (the m)
     else case nonempty_string (jprop event ''id'') of
       None \<Rightarrow> Unanswerable_ui m
     | Some i \<Rightarrow>
         (case m of
            None \<Rightarrow> Answer_ui i ''<absent>'' None True
          | Some k \<Rightarrow>
              (case map_of DIALOG_METHODS k of
                 Some u \<Rightarrow> Answer_ui i k (Some u) False
               | None \<Rightarrow> Answer_ui i k None True)))"

definition cancelledResponse :: "string \<Rightarrow> json" where
  "cancelledResponse i = JObj [(''type'', JStr ''extension_ui_response''), (''id'', JStr i), (''cancelled'', JBool True)]"

text \<open>
  Every request that can be answered and is not known to expect no answer gets one, unknown
  methods included, so that no dialog holds the turn.
\<close>

lemma ui_request_answered:
  assumes "nonempty_string (jprop event ''id'') = Some i"
    and "\<And>k. nonempty_string (jprop event ''method'') = Some k \<Longrightarrow> k \<notin> set FIRE_AND_FORGET_METHODS"
  shows "\<exists>k u new. classifyUiRequest event = Answer_ui i k u new"
  using assms by (auto simp: classifyUiRequest_def Let_def split: option.splits)

end
