(* ===== verification/Reaper.thy ===== *)
theory Reaper
  imports Kill_Ladder
begin

text \<open>
  The unattended clean-up of \<open>src/safety/reaper.ts\<close>: the heartbeat monitor with the stopwatch of
  \<open>src/util/clock.ts\<close>, the reaping of one supervisor by the kill ladder, and the cycle over the
  registered workers. The operating system is the world of the kill ladder with a container
  runtime added. The lemmas show that a container is removed only on evidence that its supervisor
  is gone, and that only a silent heartbeat makes a worker a target.
\<close>

section \<open>The heartbeat monitor\<close>

definition STALE_HEARTBEAT_MULTIPLIER :: rat where "STALE_HEARTBEAT_MULTIPLIER = 3"

text \<open>A stopwatch is the time it was started; its clock is read by the caller.\<close>

type_synonym stopwatch = rat

definition elapsedMs :: "stopwatch \<Rightarrow> rat \<Rightarrow> rat" where
  "elapsedMs start now = now - start"

type_synonym monitor = "(worker_id \<times> string option \<times> stopwatch) list"

definition observe_beat :: "monitor \<Rightarrow> worker_id \<Rightarrow> string option \<Rightarrow> rat \<Rightarrow> monitor" where
  "observe_beat m worker label now =
    (case map_of m worker of
       None \<Rightarrow> AList.update worker (label, now) m
     | Some (l, start) \<Rightarrow> if l \<noteq> label then AList.update worker (label, now) m else m)"

definition sinceChangeMs :: "monitor \<Rightarrow> worker_id \<Rightarrow> rat \<Rightarrow> rat" where
  "sinceChangeMs m worker now =
    (case map_of m worker of None \<Rightarrow> 0 | Some (l, start) \<Rightarrow> elapsedMs start now)"

definition forget :: "monitor \<Rightarrow> worker_id \<Rightarrow> monitor" where
  "forget m worker = AList.delete worker m"

definition isStale :: "rat \<Rightarrow> rat \<Rightarrow> bool" where
  "isStale since interval \<longleftrightarrow> since > interval * STALE_HEARTBEAT_MULTIPLIER"

text \<open>Observations of any workers, in the order they were made.\<close>

record beat =
  b_worker :: worker_id
  b_label :: "string option"
  b_time :: rat

definition watch :: "monitor \<Rightarrow> beat list \<Rightarrow> monitor" where
  "watch m bs = foldl (\<lambda>m b. observe_beat m (b_worker b) (b_label b) (b_time b)) m bs"

text \<open>The final stretch of observations of a worker that all found the same label.\<close>

definition final_run :: "beat list \<Rightarrow> beat list" where
  "final_run own = rev (takeWhile (\<lambda>b. b_label b = b_label (last own)) (rev own))"

definition steady :: "worker_id \<Rightarrow> beat list \<Rightarrow> beat list" where
  "steady w bs = final_run (filter (\<lambda>b. b_worker b = w) bs)"

lemma final_run_Nil [simp]: "final_run [] = []"
  by (simp add: final_run_def)

lemma final_run_last: "own \<noteq> [] \<Longrightarrow> final_run own \<noteq> [] \<and> last (final_run own) = last own"
  by (cases own rule: rev_cases) (simp_all add: final_run_def)

lemma final_run_snoc:
  "final_run (own @ [b]) =
    (if final_run own \<noteq> [] \<and> b_label (last (final_run own)) = b_label b then final_run own @ [b] else [b])"
proof (cases "own = []")
  case False
  note last = final_run_last [OF False]
  have "final_run (own @ [b]) = rev (takeWhile (\<lambda>x. b_label x = b_label b) (rev own)) @ [b]"
    by (simp add: final_run_def)
  moreover have "rev (takeWhile (\<lambda>x. b_label x = b_label b) (rev own)) =
      (if b_label (last own) = b_label b then final_run own else [])"
    using False by (cases own rule: rev_cases) (auto simp: final_run_def)
  ultimately show ?thesis using last by auto
qed (simp add: final_run_def)

lemma steady_snoc:
  "steady w (bs @ [b]) =
    (if b_worker b \<noteq> w then steady w bs
     else if steady w bs \<noteq> [] \<and> b_label (last (steady w bs)) = b_label b then steady w bs @ [b]
     else [b])"
  by (simp add: steady_def final_run_snoc)

lemma watch_reads:
  "map_of (watch [] bs) w =
    (if steady w bs = [] then None
     else Some (b_label (last (steady w bs)), b_time (hd (steady w bs))))"
proof (induction bs arbitrary: w rule: rev_induct)
  case Nil
  then show ?case by (simp add: watch_def steady_def final_run_def)
next
  case (snoc b bs)
  have "watch [] (bs @ [b]) = observe_beat (watch [] bs) (b_worker b) (b_label b) (b_time b)"
    by (simp add: watch_def)
  then show ?case
    using snoc [of w] snoc [of "b_worker b"]
    by (auto simp: steady_snoc observe_beat_def update_conv' split: if_splits option.splits)
qed

lemma steady_last: "\<forall>b \<in> set (steady w bs). b_label b = b_label (last (steady w bs))"
proof (induction bs rule: rev_induct)
  case (snoc b bs)
  then show ?case by (auto simp: steady_snoc)
qed (simp add: steady_def)

lemma steady_suffix: "suffix (steady w bs) (filter (\<lambda>b. b_worker b = w) bs)"
  by (simp add: steady_def final_run_def suffix_to_prefix takeWhile_is_prefix)

section \<open>Reaping one supervisor\<close>

datatype removal = Removed | Absent | Removal_failed

record 'w reaper_ops =
  ro_process :: "'w process_ops"
  ro_remove :: "string \<Rightarrow> 'w \<Rightarrow> 'w \<times> removal"

record reap_target =
  rt_worker :: worker_id
  rt_proc :: proc_id
  rt_pgid :: "int option"
  rt_container :: "string option"

record reap_times =
  rx_termGraceMs :: "rat option"
  rx_killGraceMs :: "rat option"
  rx_pollMs :: "rat option"

datatype container_fate = Answered removal | No_container | Spared

datatype group_use = Addressed | Narrowed_to_leader | No_group

record reap_report =
  rr_worker :: worker_id
  rr_supervisor :: kill_outcome
  rr_container :: container_fate
  rr_group :: group_use

fun supervisorStopped :: "kill_outcome \<Rightarrow> bool" where
  "supervisorStopped Kill_aborted = True"
| "supervisorStopped Kill_terminated = True"
| "supervisorStopped Kill_killed = True"
| "supervisorStopped Kill_already_gone = True"
| "supervisorStopped Kill_unconfirmed = False"
| "supervisorStopped Kill_group_unconfirmed = False"
| "supervisorStopped Kill_identity_unconfirmed = False"
| "supervisorStopped Kill_signal_refused = False"

definition narrowed :: "reap_target \<Rightarrow> bool" where
  "narrowed t \<longleftrightarrow> (case rt_pgid t of None \<Rightarrow> False | Some g \<Rightarrow> g \<le> 0)"

definition group_of :: "reap_target \<Rightarrow> group_use" where
  "group_of t = (if rt_pgid t = None then No_group else if narrowed t then Narrowed_to_leader else Addressed)"

definition reap_opts :: "reap_target \<Rightarrow> reap_times \<Rightarrow> 'w kill_opts" where
  "reap_opts t x = \<lparr>ko_target = rt_proc t, ko_pgid = (if narrowed t then None else rt_pgid t),
     ko_abort = None, ko_dead = None, ko_abortGraceMs = None, ko_termGraceMs = rx_termGraceMs x,
     ko_killGraceMs = rx_killGraceMs x, ko_pollMs = rx_pollMs x\<rparr>"

definition dispose :: "'w reaper_ops \<Rightarrow> reap_target \<Rightarrow> kill_outcome \<Rightarrow> 'w \<Rightarrow> 'w \<times> container_fate" where
  "dispose ops t outcome w =
    (case rt_container t of
       None \<Rightarrow> (w, No_container)
     | Some c \<Rightarrow>
         if supervisorStopped outcome then (case ro_remove ops c w of (w', r) \<Rightarrow> (w', Answered r))
         else (w, Spared))"

definition reapSupervisor ::
  "'w reaper_ops \<Rightarrow> 'w clock \<Rightarrow> reap_times \<Rightarrow> reap_target \<Rightarrow> 'w \<Rightarrow> ('w \<times> (kill_error + reap_report)) option" where
  "reapSupervisor ops ck x t w =
    (case runKillLadder (ro_process ops) ck (reap_opts t x) w of
       None \<Rightarrow> None
     | Some (w1, Inl e) \<Rightarrow> Some (w1, Inl e)
     | Some (w1, Inr outcome) \<Rightarrow>
         (case dispose ops t outcome w1 of (w2, fate) \<Rightarrow>
            Some (w2, Inr \<lparr>rr_worker = rt_worker t, rr_supervisor = outcome, rr_container = fate,
              rr_group = group_of t\<rparr>)))"

section \<open>The cycle\<close>

record registry_entry =
  g_pid :: int
  g_started :: string
  g_pgid :: "int option"

record worker_reading =
  heartbeat_at :: "string option"
  container_name :: "string option"

record 'w reap_cycle =
  rc_ops :: "'w reaper_ops"
  rc_clock :: "'w clock"
  rc_times :: reap_times
  rc_readState :: "worker_id \<Rightarrow> 'w \<Rightarrow> 'w \<times> worker_reading option"
  rc_interval :: rat

definition target_of :: "worker_id \<Rightarrow> registry_entry \<Rightarrow> worker_reading option \<Rightarrow> reap_target" where
  "target_of name g st = \<lparr>rt_worker = name, rt_proc = \<lparr>p_pid = g_pid g, p_started = g_started g\<rparr>,
     rt_pgid = g_pgid g, rt_container = Option.bind st container_name\<rparr>"

text \<open>
  \<open>reapStale\<close>: a throw of the ladder ends the cycle; otherwise the world, the monitor and the
  reports in the order of the registry. The monitor reads the clock when it observes and when it
  is asked.
\<close>

fun reapStale ::
  "'w reap_cycle \<Rightarrow> (worker_id \<times> registry_entry) list \<Rightarrow> monitor \<Rightarrow> 'w \<Rightarrow>
   ('w \<times> monitor \<times> (kill_error + reap_report list)) option" where
  "reapStale c [] m w = Some (w, m, Inr [])"
| "reapStale c ((name, g) # rest) m w =
    (case rc_readState c name w of
       (w1, st) \<Rightarrow>
         let m1 = observe_beat m name (Option.bind st heartbeat_at) (ck_now (rc_clock c) w1) in
         if \<not> isStale (sinceChangeMs m1 name (ck_now (rc_clock c) w1)) (rc_interval c) then reapStale c rest m1 w1
         else case reapSupervisor (rc_ops c) (rc_clock c) (rc_times c) (target_of name g st) w1 of
           None \<Rightarrow> None
         | Some (w2, Inl e) \<Rightarrow> Some (w2, m1, Inl e)
         | Some (w2, Inr report) \<Rightarrow>
             let m2 = (if supervisorStopped (rr_supervisor report) then forget m1 name else m1) in
             (case reapStale c rest m2 w2 of
                None \<Rightarrow> None
              | Some (w3, m3, Inl e) \<Rightarrow> Some (w3, m3, Inl e)
              | Some (w3, m3, Inr reports) \<Rightarrow> Some (w3, m3, Inr (report # reports))))"

section \<open>What the reaper may touch\<close>

text \<open>
  A heartbeat is called stale only when, for longer than three intervals, every look at the
  worker found the same label: the last looks, from one that is older than that on, agree.
\<close>

theorem stale_means_silent:
  assumes "isStale (sinceChangeMs (watch [] bs) w now) interval" and "0 \<le> interval"
  shows "\<exists>early looks. filter (\<lambda>b. b_worker b = w) bs = early @ looks \<and> looks \<noteq> [] \<and>
    b_time (hd looks) + 3 * interval < now \<and> (\<forall>b \<in> set looks. b_label b = b_label (last looks))"
proof -
  let ?s = "steady w bs"
  have ne: "?s \<noteq> []"
    using assms by (auto simp: isStale_def sinceChangeMs_def watch_reads STALE_HEARTBEAT_MULTIPLIER_def)
  then have "b_time (hd ?s) + 3 * interval < now"
    using assms by (simp add: isStale_def sinceChangeMs_def watch_reads elapsedMs_def
        STALE_HEARTBEAT_MULTIPLIER_def algebra_simps)
  moreover obtain early where "filter (\<lambda>b. b_worker b = w) bs = early @ ?s"
    using steady_suffix [of w bs] by (auto simp: suffix_def)
  ultimately show ?thesis using ne steady_last [of w bs] by blast
qed

lemma stale_means_silent_witness:
  "let bs = [\<lparr>b_worker = ''w'', b_label = Some ''t0'', b_time = 0\<rparr>, \<lparr>b_worker = ''w'', b_label = Some ''t1'', b_time = 10\<rparr>,
             \<lparr>b_worker = ''w'', b_label = Some ''t1'', b_time = 20\<rparr>]
   in \<exists>early looks. filter (\<lambda>b. b_worker b = ''w'') bs = early @ looks \<and> looks \<noteq> [] \<and>
        b_time (hd looks) + 3 * 5 < 26 \<and> (\<forall>b \<in> set looks. b_label b = b_label (last looks))"
proof -
  let ?bs = "[\<lparr>b_worker = ''w'', b_label = Some ''t0'', b_time = 0\<rparr>, \<lparr>b_worker = ''w'', b_label = Some ''t1'', b_time = 10\<rparr>,
             \<lparr>b_worker = ''w'', b_label = Some ''t1'', b_time = 20\<rparr>]"
  have "isStale (sinceChangeMs (watch [] ?bs) ''w'' 26) 5"
    by (simp add: isStale_def sinceChangeMs_def watch_def observe_beat_def elapsedMs_def
        STALE_HEARTBEAT_MULTIPLIER_def)
  from stale_means_silent [OF this] show ?thesis by (simp add: Let_def)
qed

text \<open>The reaper in a world with a log of the calls to the operating system.\<close>

definition logged_reaper :: "'w reaper_ops \<Rightarrow> ('w \<times> call list) reaper_ops" where
  "logged_reaper ops = \<lparr>ro_process = logged_ops (ro_process ops),
     ro_remove = (\<lambda>c (w, l). case ro_remove ops c w of (w', r) \<Rightarrow> ((w', l), r))\<rparr>"

lemma logged_reap_opts: "reap_opts t x = logged_opts (reap_opts t x)"
  by (simp add: reap_opts_def logged_opts_def)

text \<open>
  C25: the reaper takes a container away only from a dead supervisor. Whatever the operating
  system answers, when a container was removed, or its removal tried, some call of the climb
  before it showed that the recorded supervisor is not there: a start time read that is not the
  recorded one, or a signal that found no process.
\<close>

theorem container_removed_only_when_gone:
  assumes "reapSupervisor (logged_reaper ops) (logged_clock ck) x t (w, []) = Some ((w', l), Inr report)"
    and "rr_container report = Answered r"
  shows "\<exists>c \<in> set l. shows_gone (rt_proc t) c"
proof -
  from assms(1) obtain w1 l1 outcome where
    climb: "runKillLadder (logged_ops (ro_process ops)) (logged_clock ck) (logged_opts (reap_opts t x)) (w, []) =
      Some ((w1, l1), Inr outcome)"
    and rest: "dispose (logged_reaper ops) t outcome (w1, l1) = ((w', l), rr_container report)"
    by (auto simp: reapSupervisor_def logged_reaper_def logged_reap_opts [symmetric]
        split: option.splits sum.splits prod.splits)
  have stopped: "supervisorStopped outcome" and "l = l1"
    using rest assms(2) by (auto simp: dispose_def logged_reaper_def split: option.splits if_splits prod.splits)
  have log: "ladder_log (ro_process ops) ck (reap_opts t x) w = Some (l1, Inr outcome)"
    using climb by (simp add: ladder_log_def)
  have "claims_gone (Inr outcome)" using stopped by (cases outcome) (auto simp: claims_gone_def)
  from gone_needs_evidence [OF log _ this] \<open>l = l1\<close> show ?thesis by (simp add: reap_opts_def)
qed

lemma container_removed_only_when_gone_witness:
  "let t = \<lparr>rt_worker = ''w'', rt_proc = \<lparr>p_pid = 42, p_started = ''boot''\<rparr>, rt_pgid = Some 42,
            rt_container = Some ''c''\<rparr>;
       x = \<lparr>rx_termGraceMs = Some 2, rx_killGraceMs = None, rx_pollMs = Some 1\<rparr>;
       ops = \<lparr>ro_process = stubborn_ops, ro_remove = (\<lambda>c w. (w, Removed))\<rparr>
   in \<exists>w' l report. reapSupervisor (logged_reaper ops) (logged_clock ticking_clock) x t ((0, True), []) =
          Some ((w', l), Inr report) \<and> rr_supervisor report = Kill_killed \<and>
        (\<exists>c \<in> set l. shows_gone (rt_proc t) c)"
proof -
  let ?t = "\<lparr>rt_worker = ''w'', rt_proc = \<lparr>p_pid = 42, p_started = ''boot''\<rparr>, rt_pgid = Some 42,
            rt_container = Some ''c''\<rparr>"
  let ?x = "\<lparr>rx_termGraceMs = Some 2, rx_killGraceMs = None, rx_pollMs = Some 1\<rparr>"
  let ?ops = "\<lparr>ro_process = stubborn_ops, ro_remove = (\<lambda>c w. (w, Removed))\<rparr>"
  have opts: "reap_opts ?t ?x = stubborn_opts"
    by (simp add: reap_opts_def stubborn_opts_def narrowed_def)
  obtain w' l where "runKillLadder (logged_ops stubborn_ops) (logged_clock ticking_clock)
      (logged_opts stubborn_opts) ((0, True), []) = Some ((w', l), Inr Kill_killed)"
    by (rule stubborn_log) (auto simp: ladder_log_def split: option.splits)
  then have "reapSupervisor (logged_reaper ?ops) (logged_clock ticking_clock) ?x ?t ((0, True), []) =
      Some ((w', l), Inr \<lparr>rr_worker = ''w'', rr_supervisor = Kill_killed, rr_container = Answered Removed,
        rr_group = Addressed\<rparr>)"
    by (simp add: reapSupervisor_def logged_reaper_def logged_reap_opts opts dispose_def group_of_def narrowed_def)
  from this container_removed_only_when_gone [OF this] show ?thesis by (auto simp: Let_def)
qed

end
