(* ===== verification/Task_Ids.thy ===== *)
theory Task_Ids
  imports Incident Wire
begin

text \<open>
  The names the consoles give to tasks (\<open>src/run/task-ids.ts\<close>) and the kinds of their seats
  (\<open>src/run/triage-seat-kinds.ts\<close>). Every name becomes a path segment, so the lemmas show that
  derived names stay within the grammar, that the number of a sweep reads back, and that no two
  children of a fan-out share a name.
\<close>

definition MAX_RELAY_TASK_ID_CHARS :: nat where "MAX_RELAY_TASK_ID_CHARS = 64"
definition COLLATION_ASPECT :: string where "COLLATION_ASPECT = ''collate''"
definition SWEEP_TASK_PREFIX :: string where "SWEEP_TASK_PREFIX = ''T-sweep''"

record aspect_seat =
  seat_worker :: worker_id
  seat_aspect :: string

definition REVIEW_CONSOLE_ASPECTS :: "aspect_seat list" where
  "REVIEW_CONSOLE_ASPECTS =
    [\<lparr>seat_worker = ''rev-arch-1'', seat_aspect = ''arch''\<rparr>,
     \<lparr>seat_worker = ''rev-ctx-1'', seat_aspect = ''context''\<rparr>,
     \<lparr>seat_worker = ''rev-lang-1'', seat_aspect = ''lang''\<rparr>]"

definition TRIAGE_CONSOLE_ASPECTS :: "aspect_seat list" where
  "TRIAGE_CONSOLE_ASPECTS =
    [\<lparr>seat_worker = ''obs-t1'', seat_aspect = ''slice1''\<rparr>,
     \<lparr>seat_worker = ''obs-t2'', seat_aspect = ''slice2''\<rparr>,
     \<lparr>seat_worker = ''obs-t3'', seat_aspect = ''slice3''\<rparr>,
     \<lparr>seat_worker = ''obs-td1'', seat_aspect = ''docker1''\<rparr>,
     \<lparr>seat_worker = ''obs-td2'', seat_aspect = ''docker2''\<rparr>,
     \<lparr>seat_worker = ''obs-tv1'', seat_aspect = ''vm1''\<rparr>]"

section \<open>Sweeps\<close>

text \<open>The decimal numeral of a number, and the number of one.\<close>

fun decimal :: "nat \<Rightarrow> string" where
  "decimal n = (if n < 10 then [char_of (48 + n)] else decimal (n div 10) @ [char_of (48 + n mod 10)])"

declare decimal.simps [simp del]

definition digit :: "char \<Rightarrow> bool" where
  "digit c \<longleftrightarrow> 48 \<le> (of_char c :: nat) \<and> (of_char c :: nat) \<le> 57"

definition numeral_of :: "string \<Rightarrow> nat" where
  "numeral_of s = foldl (\<lambda>v c. v * 10 + (of_char c - 48)) 0 s"

datatype sweep_error = Sweep_counter_error js_number

definition sweepTaskId :: "js_number \<Rightarrow> sweep_error + string" where
  "sweepTaskId n =
    (case n of
       Finite q \<Rightarrow>
         if is_safe_integer n \<and> q \<ge> 1 then Inr (SWEEP_TASK_PREFIX @ ''-'' @ decimal (nat \<lfloor>q\<rfloor>))
         else Inl (Sweep_counter_error n)
     | _ \<Rightarrow> Inl (Sweep_counter_error n))"

text \<open>The regular expression \<open>^[1-9][0-9]*$\<close>\<close>

definition positive_numeral :: "string \<Rightarrow> bool" where
  "positive_numeral s \<longleftrightarrow> s \<noteq> [] \<and> list_all digit s \<and> hd s \<noteq> CHR ''0''"

definition sweepNumber :: "string \<Rightarrow> js_number option" where
  "sweepNumber taskId =
    (let front = SWEEP_TASK_PREFIX @ ''-'' in
     if take (length front) taskId \<noteq> front then None
     else let digits = drop (length front) taskId in
       if \<not> positive_numeral digits then None
       else let n = int (numeral_of digits) in
         if n \<le> max_safe_integer then Some (js_int n) else None)"

lemma digit_char: "n < 10 \<Longrightarrow> digit (char_of (48 + n)) \<and> (of_char (char_of (48 + n)) :: nat) = 48 + n"
  by (simp add: digit_def)

lemma numeral_of_snoc [simp]: "numeral_of (s @ [c]) = numeral_of s * 10 + (of_char c - 48)"
  by (simp add: numeral_of_def)

lemma numeral_of_decimal: "numeral_of (decimal n) = n"
proof (induction n rule: decimal.induct)
  case (1 n)
  show ?case
  proof (cases "n < 10")
    case True
    then show ?thesis by (simp add: decimal.simps [of n] numeral_of_def)
  next
    case False
    then show ?thesis using 1 by (subst decimal.simps) simp
  qed
qed

lemma decimal_digits: "list_all digit (decimal n) \<and> decimal n \<noteq> []"
proof (induction n rule: decimal.induct)
  case (1 n)
  have "digit (char_of (48 + n mod 10))" "n < 10 \<Longrightarrow> digit (char_of (48 + n))"
    using digit_char [of "n mod 10"] digit_char [of n] by auto
  with 1 show ?case by (cases "n < 10") (simp_all add: decimal.simps [of n])
qed

lemma decimal_leading: "0 < n \<Longrightarrow> hd (decimal n) \<noteq> CHR ''0''"
proof (induction n rule: decimal.induct)
  case (1 n)
  show ?case
  proof (cases "n < 10")
    case True
    have "char_of (48 + n) \<noteq> CHR ''0''"
    proof
      assume "char_of (48 + n) = CHR ''0''"
      then have "(of_char (char_of (48 + n)) :: nat) = of_char CHR ''0''" by simp
      with True 1 show False by simp
    qed
    with True show ?thesis by (simp add: decimal.simps [of n])
  next
    case False
    with 1 have "hd (decimal (n div 10)) \<noteq> CHR ''0''" by simp
    with False show ?thesis using decimal_digits [of "n div 10"] by (subst decimal.simps) simp
  qed
qed

text \<open>A numeral without leading zeros is the decimal of its number.\<close>

lemma decimal_numeral_of:
  "list_all digit s \<Longrightarrow> s \<noteq> [] \<Longrightarrow> hd s \<noteq> CHR ''0'' \<Longrightarrow> decimal (numeral_of s) = s \<and> 0 < numeral_of s"
proof (induction s rule: rev_induct)
  case (snoc c s)
  have c: "digit c" using snoc.prems by simp
  then have d: "of_char c - 48 < (10 :: nat)" "char_of (48 + (of_char c - 48) :: nat) = c"
    by (auto simp: digit_def)
  show ?case
  proof (cases "s = []")
    case True
    have "(of_char c :: nat) \<noteq> 48"
    proof
      assume "(of_char c :: nat) = 48"
      then have "(of_char c :: nat) = of_char CHR ''0''" by simp
      then have "c = CHR ''0''" by (simp only: of_char_eq_iff)
      with True snoc.prems show False by simp
    qed
    with True c d show ?thesis by (auto simp: decimal.simps digit_def numeral_of_def)
  next
    case False
    with snoc have IH: "decimal (numeral_of s) = s" "0 < numeral_of s" by auto
    let ?n = "numeral_of s * 10 + (of_char c - 48)"
    have "\<not> ?n < 10" "?n div 10 = numeral_of s" "?n mod 10 = of_char c - 48" using IH(2) d(1) by auto
    with IH d(2) show ?thesis by (subst numeral_of_snoc, subst decimal.simps) simp
  qed
qed simp

text \<open>
  The id of a sweep and its number determine each other: an id is read back as the number it
  was made from, and an id that reads as a number is the one made from it; numbers that are no
  sweep counter, and only they, are refused.
\<close>

theorem sweep_id_roundtrip:
  "sweepNumber s = Some n \<longleftrightarrow> sweepTaskId n = Inr s"
proof
  let ?front = "SWEEP_TASK_PREFIX @ ''-''"
  assume "sweepNumber s = Some n"
  then have s: "take (length ?front) s = ?front" and pos: "positive_numeral (drop (length ?front) s)"
    and small: "int (numeral_of (drop (length ?front) s)) \<le> max_safe_integer"
    and n: "n = js_int (int (numeral_of (drop (length ?front) s)))"
    by (auto simp: sweepNumber_def Let_def split: if_splits)
  from pos have num: "decimal (numeral_of (drop (length ?front) s)) = drop (length ?front) s"
    "0 < numeral_of (drop (length ?front) s)"
    using decimal_numeral_of [of "drop (length ?front) s"] by (auto simp: positive_numeral_def)
  have "is_safe_integer n" using n small by (simp add: is_safe_integer_js_int)
  then have "sweepTaskId n = Inr (?front @ drop (length ?front) s)"
    using n num by (simp add: sweepTaskId_def js_int_def)
  then show "sweepTaskId n = Inr s" using s append_take_drop_id [of "length ?front" s] by simp
next
  assume id: "sweepTaskId n = Inr s"
  then obtain q where q: "n = Finite q" "is_safe_integer n" "q \<ge> 1"
    and s: "s = SWEEP_TASK_PREFIX @ ''-'' @ decimal (nat \<lfloor>q\<rfloor>)"
    by (auto simp: sweepTaskId_def split: js_number.splits if_splits)
  from q(2) obtain i where i: "n = js_int i" "\<bar>i\<bar> \<le> max_safe_integer" by (rule is_safe_integerE)
  with q have "q = of_int i" "1 \<le> i" by (auto simp: js_int_def)
  moreover have "positive_numeral (decimal (nat i))"
    using decimal_digits decimal_leading [of "nat i"] \<open>1 \<le> i\<close> by (auto simp: positive_numeral_def)
  ultimately show "sweepNumber s = Some n"
    using s i by (simp add: sweepNumber_def numeral_of_decimal)
qed

section \<open>Children of a fan-out\<close>

datatype aspect_error = Illegal_parent string | Illegal_suffix string | Too_long_id string

definition derive :: "task_id \<Rightarrow> string \<Rightarrow> aspect_error + task_id" where
  "derive parent suffix =
    (if \<not> spellable parent then Inl (Illegal_parent parent)
     else if \<not> spellable suffix then Inl (Illegal_suffix suffix)
     else let i = parent @ ''-'' @ suffix in
       if length i > MAX_RELAY_TASK_ID_CHARS then Inl (Too_long_id i) else Inr i)"

definition childTaskId :: "task_id \<Rightarrow> string \<Rightarrow> aspect_error + task_id" where
  "childTaskId parent aspect = derive parent aspect"

definition collationTaskId :: "task_id \<Rightarrow> aspect_error + task_id" where
  "collationTaskId parent = derive parent COLLATION_ASPECT"

definition isCollationTaskId :: "task_id \<Rightarrow> bool" where
  "isCollationTaskId i = ends_with i (''-'' @ COLLATION_ASPECT)"

lemma derive_Inr:
  "derive parent suffix = Inr i \<longleftrightarrow> spellable parent \<and> spellable suffix \<and>
    i = parent @ ''-'' @ suffix \<and> length i \<le> 64"
  by (auto simp: derive_def Let_def MAX_RELAY_TASK_ID_CHARS_def)

lemma derive_spellable: "derive parent suffix = Inr i \<Longrightarrow> spellable i"
  by (auto simp: derive_Inr spellable_def SESSION_ID_RE_def)

text \<open>A dash-free aspect is what follows the last dash of the id.\<close>

lemma dash_split:
  assumes "p @ CHR ''-'' # a = q @ CHR ''-'' # b" and "CHR ''-'' \<notin> set a" and "CHR ''-'' \<notin> set b"
  shows "p = q \<and> a = b"
proof -
  have before: "takeWhile (\<lambda>c. c \<noteq> CHR ''-'') (rev a @ CHR ''-'' # rev p) = rev a"
    if "CHR ''-'' \<notin> set a" for a p
    using that by (subst takeWhile_append2) auto
  have eq: "rev a @ CHR ''-'' # rev p = rev b @ CHR ''-'' # rev q"
    using arg_cong [OF assms(1), of rev] by simp
  then have "rev a = rev b" using before [OF assms(2), of p] before [OF assms(3), of q] by simp
  with eq show ?thesis by simp
qed

lemma isCollationTaskId_derived:
  assumes "CHR ''-'' \<notin> set a"
  shows "isCollationTaskId (p @ ''-'' @ a) \<longleftrightarrow> a = COLLATION_ASPECT"
proof
  assume "isCollationTaskId (p @ ''-'' @ a)"
  then obtain r where "p @ CHR ''-'' # a = r @ CHR ''-'' # COLLATION_ASPECT"
    by (auto simp: isCollationTaskId_def ends_with_append)
  with assms show "a = COLLATION_ASPECT"
    using dash_split [of p a r COLLATION_ASPECT] by (simp add: COLLATION_ASPECT_def)
qed (auto simp: isCollationTaskId_def ends_with_append)

definition console_seats :: "aspect_seat list" where
  "console_seats = REVIEW_CONSOLE_ASPECTS @ TRIAGE_CONSOLE_ASPECTS"

lemma console_aspects:
  "list_all (\<lambda>s. CHR ''-'' \<notin> set (seat_aspect s) \<and> seat_aspect s \<noteq> COLLATION_ASPECT) console_seats"
  "distinct (map seat_aspect console_seats)"
  by (simp_all add: console_seats_def REVIEW_CONSOLE_ASPECTS_def TRIAGE_CONSOLE_ASPECTS_def
      COLLATION_ASPECT_def)

text \<open>
  The ids a console derives for its children keep to the grammar of ids, none of them looks
  like the id of a collation, every collation's does, and two of them are equal only for the same
  parent and the same seat.
\<close>

theorem console_ids_distinct:
  assumes "s \<in> set console_seats" and "childTaskId parent (seat_aspect s) = Inr i"
  shows "spellable i \<and> \<not> isCollationTaskId i \<and>
    (\<forall>t \<in> set console_seats. \<forall>parent'. childTaskId parent' (seat_aspect t) = Inr i \<longrightarrow>
      parent' = parent \<and> t = s) \<and>
    (\<forall>parent' j. collationTaskId parent' = Inr j \<longrightarrow> spellable j \<and> isCollationTaskId j \<and> j \<noteq> i)"
proof -
  have dash: "CHR ''-'' \<notin> set (seat_aspect t)" "seat_aspect t \<noteq> COLLATION_ASPECT"
    if "t \<in> set console_seats" for t
    using console_aspects(1) that by (auto simp: list_all_iff)
  have i: "i = parent @ ''-'' @ seat_aspect s" "spellable i"
    using assms(2) derive_spellable [OF assms(2) [unfolded childTaskId_def]]
    by (simp_all add: childTaskId_def derive_Inr)
  have not: "\<not> isCollationTaskId i" using isCollationTaskId_derived [OF dash(1) [OF assms(1)]] dash(2) [OF assms(1)] i by simp
  have same: "parent' = parent \<and> t = s"
    if "t \<in> set console_seats" "childTaskId parent' (seat_aspect t) = Inr i" for t parent'
  proof -
    have "parent' @ CHR ''-'' # seat_aspect t = parent @ CHR ''-'' # seat_aspect s"
      using that(2) i(1) by (simp add: childTaskId_def derive_Inr)
    from dash_split [OF this dash(1) [OF that(1)] dash(1) [OF assms(1)]]
    have "parent' = parent" "seat_aspect t = seat_aspect s" by auto
    then show ?thesis using console_aspects(2) that(1) assms(1) by (auto simp: distinct_map dest: inj_onD)
  qed
  have "isCollationTaskId j" "spellable j" if "collationTaskId parent' = Inr j" for parent' j
    using that derive_spellable [OF that [unfolded collationTaskId_def]]
    by (simp_all add: collationTaskId_def derive_Inr isCollationTaskId_def ends_with_append)
  with i not same show ?thesis by blast
qed


lemma console_ids_distinct_witness:
  "spellable ''T1-arch'' \<and> \<not> isCollationTaskId ''T1-arch''"
proof -
  have "childTaskId ''T1'' (seat_aspect \<lparr>seat_worker = ''rev-arch-1'', seat_aspect = ''arch''\<rparr>) = Inr ''T1-arch''"
    by code_simp
  from console_ids_distinct [OF _ this] show ?thesis
    by (simp add: console_seats_def REVIEW_CONSOLE_ASPECTS_def)
qed

section \<open>Kinds of seats\<close>

datatype environment_kind = K8s | Docker | Vm

definition TRIAGE_ENVIRONMENT_KINDS :: "environment_kind list" where
  "TRIAGE_ENVIRONMENT_KINDS = [K8s, Docker, Vm]"

definition TRIAGE_SEAT_KINDS :: "(worker_id \<times> environment_kind) list" where
  "TRIAGE_SEAT_KINDS =
    [(''obs-t1'', K8s), (''obs-t2'', K8s), (''obs-t3'', K8s), (''obs-td1'', Docker), (''obs-td2'', Docker),
     (''obs-tv1'', Vm)]"

definition seatKind :: "worker_id \<Rightarrow> environment_kind option" where
  "seatKind worker = map_of TRIAGE_SEAT_KINDS worker"

definition seatsOfKind :: "environment_kind \<Rightarrow> aspect_seat list \<Rightarrow> aspect_seat list" where
  "seatsOfKind kind seats = filter (\<lambda>s. seatKind (seat_worker s) = Some kind) seats"

definition workersOfKind :: "environment_kind \<Rightarrow> worker_id list \<Rightarrow> worker_id list" where
  "workersOfKind kind workers = filter (\<lambda>w. seatKind w = Some kind) workers"

text \<open>Every seat of the triage console has a kind.\<close>

lemma triage_seats_have_kinds: "list_all (\<lambda>s. seatKind (seat_worker s) \<noteq> None) TRIAGE_CONSOLE_ASPECTS"
  by (simp add: TRIAGE_CONSOLE_ASPECTS_def seatKind_def TRIAGE_SEAT_KINDS_def)

end
