(* ===== verification/Triage_Partition.thy ===== *)
theory Triage_Partition
  imports Task_Ids
begin

text \<open>
  How a triage sweep is shared out (\<open>src/run/triage-partition.ts\<close>): the even slicing of a list, the
  check that the slices cover the declared services exactly, and the dispatch that goes out whole
  or not at all. A refusal carries its code and its three lists; the sentences built from them
  are left out. The dispatch of one assignment is a parameter that changes a world and answers or
  throws.
\<close>

section \<open>Even slices\<close>

datatype slices_error = No_parts int

fun slices_from :: "nat \<Rightarrow> nat \<Rightarrow> 'a list \<Rightarrow> nat \<Rightarrow> nat \<Rightarrow> 'a list list" where
  "slices_from base extra whole i 0 = []"
| "slices_from base extra whole i (Suc n) =
    (let size' = base + (if i < extra then 1 else 0) in
     take size' whole # slices_from base extra (drop size' whole) (Suc i) n)"

definition evenSlices :: "'a list \<Rightarrow> int \<Rightarrow> slices_error + 'a list list" where
  "evenSlices whole parts =
    (if parts < 1 then Inl (No_parts parts)
     else Inr (slices_from (length whole div nat parts) (length whole mod nat parts) whole 0 (nat parts)))"

lemma slices_from_facts:
  assumes "length whole = n * base + (extra - i)" and "extra - i \<le> n"
  shows "concat (slices_from base extra whole i n) = whole \<and>
    length (slices_from base extra whole i n) = n \<and>
    (\<forall>s \<in> set (slices_from base extra whole i n). length s = base \<or> length s = base + 1)"
  using assms
proof (induction n arbitrary: whole i)
  case (Suc n)
  let ?k = "base + (if i < extra then 1 else 0)"
  have len: "?k \<le> length whole" using Suc.prems by (auto split: if_splits)
  have "length (drop ?k whole) = n * base + (extra - Suc i)" "extra - Suc i \<le> n"
    using Suc.prems by auto
  from Suc.IH [OF this] len show ?case by (auto simp: Let_def)
qed simp

text \<open>
  Even slices lose and repeat nothing: put together in order they are the list, there are as
  many as asked for, and their lengths differ by at most one.
\<close>

theorem evenSlices_correct:
  assumes "evenSlices whole parts = Inr slices"
  shows "concat slices = whole \<and> int (length slices) = parts \<and>
    (\<forall>s \<in> set slices. \<forall>t \<in> set slices. length s \<le> length t + 1)"
proof -
  from assms have parts: "1 \<le> parts" and s: "slices = slices_from (length whole div nat parts)
      (length whole mod nat parts) whole 0 (nat parts)"
    by (auto simp: evenSlices_def split: if_splits)
  have "length whole = nat parts * (length whole div nat parts) + (length whole mod nat parts - 0)"
    by simp
  moreover have "length whole mod nat parts - 0 \<le> nat parts" using parts by (simp add: less_imp_le)
  ultimately have facts: "concat slices = whole" "length slices = nat parts"
    "\<forall>s \<in> set slices. length s = length whole div nat parts \<or> length s = length whole div nat parts + 1"
    using slices_from_facts [of whole "nat parts"] unfolding s by blast+
  have "length s \<le> length t + 1" if "s \<in> set slices" "t \<in> set slices" for s t
    using bspec [OF facts(3) that(1)] bspec [OF facts(3) that(2)] by auto
  with facts(1,2) parts show ?thesis by simp
qed

lemma evenSlices_correct_witness:
  "concat [[1, 2], [3, 4], [5::nat]] = [1, 2, 3, 4, 5] \<and> int (length [[1, 2], [3, 4], [5::nat]]) = 3"
proof -
  have "evenSlices [1, 2, 3, 4, 5::nat] 3 = Inr [[1, 2], [3, 4], [5]]" by code_simp
  from evenSlices_correct [OF this] show ?thesis by blast
qed

section \<open>The check of a partition\<close>

record assignment =
  a_worker :: worker_id
  a_services :: "string list"

record dispatch_item =
  d_worker :: worker_id
  d_services :: "string list option"

definition partitionFromRequests :: "dispatch_item list \<Rightarrow> assignment list" where
  "partitionFromRequests rs =
    map (\<lambda>r. \<lparr>a_worker = d_worker r, a_services = (case d_services r of None \<Rightarrow> [] | Some s \<Rightarrow> s)\<rparr>) rs"

datatype partition_code = Partition_incomplete | Partition_duplicate

record partition_fault =
  pf_code :: partition_code
  pf_missing :: "string list"
  pf_duplicated :: "string list"
  pf_undeclared :: "string list"

datatype partition_check = Partition_complete | Partition_refused partition_fault

definition claim :: "(string \<times> nat) list \<Rightarrow> string \<Rightarrow> (string \<times> nat) list" where
  "claim claims s = AList.update s ((case map_of claims s of None \<Rightarrow> 0 | Some n \<Rightarrow> n) + 1) claims"

definition claimed :: "assignment list \<Rightarrow> (string \<times> nat) list" where
  "claimed as = foldl claim [] (concat (map a_services as))"

definition checkTriagePartition :: "string list \<Rightarrow> assignment list \<Rightarrow> partition_check" where
  "checkTriagePartition declared as =
    (let claims = claimed as;
         missing = filter (\<lambda>s. map_of claims s = None) declared;
         duplicated = map fst (filter (\<lambda>(s, n). n > 1) claims);
         undeclared = filter (\<lambda>s. s \<notin> set declared) (map fst claims)
     in if duplicated \<noteq> [] then
          Partition_refused \<lparr>pf_code = Partition_duplicate, pf_missing = missing,
            pf_duplicated = duplicated, pf_undeclared = undeclared\<rparr>
        else if missing \<noteq> [] \<or> undeclared \<noteq> [] then
          Partition_refused \<lparr>pf_code = Partition_incomplete, pf_missing = missing,
            pf_duplicated = duplicated, pf_undeclared = undeclared\<rparr>
        else Partition_complete)"

text \<open>The services of an assignment list, in order.\<close>

definition services_of :: "assignment list \<Rightarrow> string list" where
  "services_of as = concat (map a_services as)"

definition exact :: "string list \<Rightarrow> assignment list \<Rightarrow> bool" where
  "exact declared as \<longleftrightarrow> distinct (services_of as) \<and> set (services_of as) = set declared"

lemma claimed_count:
  "map_of (foldl claim [] ss) s = (if s \<in> set ss then Some (count_list ss s) else None) \<and>
   distinct (map fst (foldl claim [] ss))"
proof (induction ss arbitrary: s rule: rev_induct)
  case (snoc t ss)
  define m where "m = foldl claim [] ss"
  have IH: "map_of m u = (if u \<in> set ss then Some (count_list ss u) else None)" for u
    using snoc [of u] by (simp add: m_def)
  have "map_of (claim m t) s = (if s \<in> set (ss @ [t]) then Some (count_list (ss @ [t]) s) else None)"
    using count_list_0_iff [of ss t] by (simp add: claim_def update_conv' IH)
  moreover have "distinct (map fst m)" using snoc [of t] by (simp add: m_def)
  then have "distinct (map fst (claim m t))" by (simp add: claim_def distinct_update)
  ultimately show ?case by (simp add: m_def)
qed simp

lemma distinct_count_list: "distinct ss \<longleftrightarrow> (\<forall>s. count_list ss s \<le> 1)"
proof (induction ss)
  case (Cons t ss)
  have "(\<forall>s. count_list (t # ss) s \<le> 1) \<longleftrightarrow> count_list ss t = 0 \<and> (\<forall>s. count_list ss s \<le> 1)"
  proof (intro iffI conjI allI)
    assume all: "\<forall>s. count_list (t # ss) s \<le> 1"
    show "count_list ss t = 0" using spec [OF all, of t] by simp
    show "count_list ss s \<le> 1" for s using spec [OF all, of s] by (simp split: if_splits)
  qed auto
  then show ?case using Cons by (simp add: count_list_0_iff)
qed simp

lemma claimed_facts:
  shows "map_of (claimed as) s = None \<longleftrightarrow> s \<notin> set (services_of as)"
    and "s \<in> set (map fst (claimed as)) \<longleftrightarrow> s \<in> set (services_of as)"
    and "(s, n) \<in> set (claimed as) \<longleftrightarrow> s \<in> set (services_of as) \<and> n = count_list (services_of as) s"
proof -
  note c = claimed_count [of "services_of as", folded claimed_def services_of_def]
  have c': "map_of (claimed as) s = (if s \<in> set (services_of as) then Some (count_list (services_of as) s) else None)"
    "distinct (map fst (claimed as))" for s
    using claimed_count [of "services_of as" s] by (simp_all add: claimed_def services_of_def)
  show "map_of (claimed as) s = None \<longleftrightarrow> s \<notin> set (services_of as)" using c'(1) by simp
  show "(s, n) \<in> set (claimed as) \<longleftrightarrow> s \<in> set (services_of as) \<and> n = count_list (services_of as) s"
    using c'(1) [of s] map_of_eq_Some_iff [OF c'(2), of s n] by (auto split: if_splits)
  show "s \<in> set (map fst (claimed as)) \<longleftrightarrow> s \<in> set (services_of as)"
    using c'(1) [of s] map_of_eq_None_iff [of "claimed as" s] by (auto split: if_splits)
qed

lemma check_complete_iff: "checkTriagePartition declared as = Partition_complete \<longleftrightarrow> exact declared as"
proof -
  have dup: "filter (\<lambda>(s, n). n > 1) (claimed as) = [] \<longleftrightarrow> distinct (services_of as)"
  proof -
    have "filter (\<lambda>(s, n). n > 1) (claimed as) = [] \<longleftrightarrow> (\<forall>s \<in> set (services_of as). count_list (services_of as) s \<le> 1)"
      unfolding filter_empty_conv Ball_def using claimed_facts(3) by (auto simp: not_less)
    also have "\<dots> \<longleftrightarrow> (\<forall>s. count_list (services_of as) s \<le> 1)"
      by (metis count_list_0_iff zero_le_one)
    finally show ?thesis by (simp add: distinct_count_list)
  qed
  have undeclared: "filter (\<lambda>s. s \<notin> set declared) (map fst (claimed as)) = [] \<longleftrightarrow> set (services_of as) \<subseteq> set declared"
    unfolding filter_empty_conv Ball_def claimed_facts(2) by blast
  have missing: "filter (\<lambda>s. map_of (claimed as) s = None) declared = [] \<longleftrightarrow> set declared \<subseteq> set (services_of as)"
    unfolding filter_empty_conv Ball_def claimed_facts(1) by blast
  show ?thesis
    unfolding checkTriagePartition_def Let_def map_is_Nil_conv dup undeclared missing exact_def by auto
qed

section \<open>The dispatch\<close>

record kind_group =
  kg_kind :: environment_kind
  kg_services :: "string list"

datatype ('t, 'x) partition_outcome = Dispatched_all "'t list" | Partition_fault partition_fault | Dispatch_threw 'x

text \<open>\<open>new Map(declared)\<close>: the last group of a kind is the one that counts.\<close>

definition declared_of :: "kind_group list \<Rightarrow> environment_kind \<Rightarrow> string list option" where
  "declared_of declared kind = map_of (rev (map (\<lambda>g. (kg_kind g, kg_services g)) declared)) kind"

definition orphan :: "kind_group list \<Rightarrow> assignment \<Rightarrow> bool" where
  "orphan declared a \<longleftrightarrow>
    (case seatKind (a_worker a) of None \<Rightarrow> True | Some k \<Rightarrow> declared_of declared k = None)"

definition of_kind :: "environment_kind \<Rightarrow> assignment list \<Rightarrow> assignment list" where
  "of_kind kind as = filter (\<lambda>a. seatKind (a_worker a) = Some kind) as"

definition refusals :: "partition_check list \<Rightarrow> partition_fault list" where
  "refusals checks = List.map_filter (\<lambda>c. case c of Partition_refused f \<Rightarrow> Some f | _ \<Rightarrow> None) checks"

definition note_service :: "string list \<Rightarrow> string \<Rightarrow> string list" where
  "note_service noted s = (if s \<in> set noted then noted else noted @ [s])"

definition refuseOrphanedAssignments :: "assignment list \<Rightarrow> partition_check list \<Rightarrow> partition_fault" where
  "refuseOrphanedAssignments orphaned perKind =
    (let rs = refusals perKind in
     \<lparr>pf_code = Partition_incomplete, pf_missing = concat (map pf_missing rs),
      pf_duplicated = concat (map pf_duplicated rs),
      pf_undeclared = foldl note_service [] (services_of orphaned @ concat (map pf_undeclared rs))\<rparr>)"

fun check_kinds :: "kind_group list \<Rightarrow> assignment list \<Rightarrow> environment_kind list \<Rightarrow> partition_fault option" where
  "check_kinds declared as [] = None"
| "check_kinds declared as (k # ks) =
    (let forKind = (case declared_of declared k of None \<Rightarrow> [] | Some s \<Rightarrow> s);
         mine = of_kind k as
     in if forKind = [] \<and> mine = [] then check_kinds declared as ks
        else case checkTriagePartition forKind mine of
          Partition_refused f \<Rightarrow> Some f
        | Partition_complete \<Rightarrow> check_kinds declared as ks)"

text \<open>\<open>Promise.all\<close> starts every dispatch, in order; the first that threw is what it rejects with.\<close>

fun dispatch_all :: "(assignment \<Rightarrow> 'w \<Rightarrow> 'w \<times> ('x + 't)) \<Rightarrow> assignment list \<Rightarrow> 'w \<Rightarrow> 'w \<times> ('x + 't list)" where
  "dispatch_all dispatch [] w = (w, Inr [])"
| "dispatch_all dispatch (a # as) w =
    (let (w1, r) = dispatch a w; (w2, rs) = dispatch_all dispatch as w1
     in (w2, case r of Inl e \<Rightarrow> Inl e | Inr t \<Rightarrow> (case rs of Inl e \<Rightarrow> Inl e | Inr ts \<Rightarrow> Inr (t # ts))))"

definition dispatchPartition ::
  "kind_group list \<Rightarrow> assignment list \<Rightarrow> (assignment \<Rightarrow> 'w \<Rightarrow> 'w \<times> ('x + 't)) \<Rightarrow> 'w \<Rightarrow>
   'w \<times> ('t, 'x) partition_outcome" where
  "dispatchPartition declared as dispatch w =
    (let orphaned = filter (orphan declared) as in
     if orphaned \<noteq> [] then
       let legitimate = filter (\<lambda>a. a \<notin> set orphaned) as;
           perKind = map (\<lambda>g. checkTriagePartition (kg_services g) (of_kind (kg_kind g) legitimate)) declared
       in (w, Partition_fault (refuseOrphanedAssignments orphaned perKind))
     else case check_kinds declared as TRIAGE_ENVIRONMENT_KINDS of
       Some f \<Rightarrow> (w, Partition_fault f)
     | None \<Rightarrow>
         (case dispatch_all dispatch as w of
            (w', Inl e) \<Rightarrow> (w', Dispatch_threw e)
          | (w', Inr ts) \<Rightarrow> (w', Dispatched_all ts)))"

text \<open>
  The partition the fan-out asks for: every assignment goes to a seat of a kind that is declared,
  and the services of the seats of a kind are those declared for it, each once.
\<close>

definition partition_ok :: "kind_group list \<Rightarrow> assignment list \<Rightarrow> bool" where
  "partition_ok declared as \<longleftrightarrow>
    (\<forall>a \<in> set as. \<exists>k. seatKind (a_worker a) = Some k \<and> declared_of declared k \<noteq> None) \<and>
    (\<forall>k. exact (case declared_of declared k of None \<Rightarrow> [] | Some s \<Rightarrow> s) (of_kind k as))"

lemma check_kinds_None:
  "check_kinds declared as ks = None \<longleftrightarrow>
    (\<forall>k \<in> set ks. exact (case declared_of declared k of None \<Rightarrow> [] | Some s \<Rightarrow> s) (of_kind k as))"
proof (induction ks)
  case (Cons k ks)
  have "exact [] []" by (simp add: exact_def services_of_def)
  then show ?case using Cons
    by (auto simp: Let_def check_complete_iff [symmetric] split: partition_check.splits)
qed simp

lemma no_orphans:
  "filter (orphan declared) as = [] \<longleftrightarrow>
    (\<forall>a \<in> set as. \<exists>k. seatKind (a_worker a) = Some k \<and> declared_of declared k \<noteq> None)"
  by (auto simp: filter_empty_conv orphan_def split: option.splits)

lemma all_kinds: "k \<in> set TRIAGE_ENVIRONMENT_KINDS"
  by (cases k) (simp_all add: TRIAGE_ENVIRONMENT_KINDS_def)



end
