(* ===== verification/Paths.thy ===== *)
theory Paths
  imports Wire
begin

text \<open>
  The operations of \<open>node:path\<close> the code decides containment with, on absolute paths as lists of
  segments: \<open>resolve\<close>, \<open>join\<close>, \<open>relative\<close>, \<open>basename\<close>, \<open>dirname\<close> of a POSIX host, and
  \<open>resolvedWithin\<close> of \<open>src/harvest/outbox.ts\<close>. The lemmas show that a path that passes the
  containment test is the root followed by plain segments.
\<close>

type_synonym host_path = "string list"

abbreviation split_slash :: "string \<Rightarrow> string list" where
  "split_slash \<equiv> split_on CHR ''/''"

abbreviation join_slash :: "string list \<Rightarrow> string" where
  "join_slash \<equiv> join_with ''/''"

definition is_absolute :: "string \<Rightarrow> bool" where
  "is_absolute f \<longleftrightarrow> f \<noteq> [] \<and> hd f = CHR ''/''"

definition enter_segment :: "host_path \<Rightarrow> string \<Rightarrow> host_path" where
  "enter_segment dir s =
    (if s = '''' \<or> s = ''.'' then dir
     else if s = ''..'' then butlast dir
     else dir @ [s])"

definition resolve_from :: "host_path \<Rightarrow> string list \<Rightarrow> host_path" where
  "resolve_from dir ss = foldl enter_segment dir ss"

text \<open>\<open>join(dir, f)\<close>, and \<open>resolve(dir, f)\<close>, which an absolute \<open>f\<close> takes to the root.\<close>

definition join_path :: "host_path \<Rightarrow> string \<Rightarrow> host_path" where
  "join_path dir f = resolve_from dir (split_slash f)"

definition resolve_path :: "host_path \<Rightarrow> string \<Rightarrow> host_path" where
  "resolve_path dir f = join_path (if is_absolute f then [] else dir) f"

fun relative_path :: "host_path \<Rightarrow> host_path \<Rightarrow> string list" where
  "relative_path (r # rs) (t # ts) =
    (if r = t then relative_path rs ts else map (\<lambda>_. ''..'') (r # rs) @ t # ts)"
| "relative_path [] ts = ts"
| "relative_path rs [] = map (\<lambda>_. ''..'') rs"

definition resolvedWithin :: "host_path \<Rightarrow> host_path \<Rightarrow> bool" where
  "resolvedWithin base candidate =
    (let rel = relative_path base candidate in rel = [] \<or> hd rel \<noteq> ''..'')"

definition path_string :: "host_path \<Rightarrow> string" where
  "path_string p = concat (map (\<lambda>s. CHR ''/'' # s) p)"

text \<open>A resolved path holds no empty segment, no \<open>.\<close>, no \<open>..\<close> and no slash.\<close>

definition plain_segment :: "string \<Rightarrow> bool" where
  "plain_segment s \<longleftrightarrow> s \<noteq> '''' \<and> s \<noteq> ''.'' \<and> s \<noteq> ''..'' \<and> CHR ''/'' \<notin> set s"

definition plain_path :: "host_path \<Rightarrow> bool" where
  "plain_path p \<longleftrightarrow> list_all plain_segment p"

lemma plain_path_simps [simp]:
  "plain_path []" "plain_path (s # p) \<longleftrightarrow> plain_segment s \<and> plain_path p"
  "plain_path (p @ q) \<longleftrightarrow> plain_path p \<and> plain_path q"
  by (simp_all add: plain_path_def)

lemma plain_path_butlast: "plain_path p \<Longrightarrow> plain_path (butlast p)"
  by (cases p rule: rev_cases) auto

lemma resolve_plain:
  "plain_path dir \<Longrightarrow> \<forall>s \<in> set ss. CHR ''/'' \<notin> set s \<Longrightarrow> plain_path (resolve_from dir ss)"
proof (induction ss arbitrary: dir)
  case (Cons s ss)
  have "plain_path (enter_segment dir s)"
    using Cons.prems by (auto simp: enter_segment_def plain_segment_def plain_path_butlast)
  with Cons show ?case by (simp add: resolve_from_def)
qed (simp add: resolve_from_def)

lemma join_path_plain [simp]: "plain_path dir \<Longrightarrow> plain_path (join_path dir f)"
  unfolding join_path_def by (rule resolve_plain) (use split_on_clean in auto)

lemma resolve_path_plain [simp]: "plain_path dir \<Longrightarrow> plain_path (resolve_path dir f)"
  by (simp add: resolve_path_def)

lemma resolve_plain_appends: "plain_path ss \<Longrightarrow> resolve_from dir ss = dir @ ss"
  by (induction ss arbitrary: dir) (auto simp: resolve_from_def enter_segment_def plain_segment_def)

lemma plain_segments_clean: "plain_path ss \<Longrightarrow> \<forall>s \<in> set ss. CHR ''/'' \<notin> set s"
  by (auto simp: plain_path_def list_all_iff plain_segment_def)

lemma joined_plain_relative:
  assumes "plain_path ss" and "ss \<noteq> []"
  shows "\<not> is_absolute (join_slash ss)" and "join_path dir (join_slash ss) = dir @ ss"
proof -
  obtain s rest where ss: "ss = s # rest" using assms(2) by (cases ss) auto
  with assms obtain c cs where s: "s = c # cs" "c \<noteq> CHR ''/''"
    by (cases s) (auto simp: plain_segment_def)
  show "\<not> is_absolute (join_slash ss)"
    unfolding ss s(1) using s(2) by (cases rest) (simp_all add: is_absolute_def)
  show "join_path dir (join_slash ss) = dir @ ss"
    using split_join [OF assms(2) plain_segments_clean [OF assms(1)]] resolve_plain_appends [OF assms(1)]
    by (simp add: join_path_def)
qed

text \<open>Containment: the candidate is the root and what lies below it.\<close>

lemma relative_prefix: "relative_path base (base @ ss) = ss"
  by (induction base) (cases ss, auto)

lemma relative_not_up:
  "plain_path candidate \<Longrightarrow> relative_path base candidate = [] \<or> hd (relative_path base candidate) \<noteq> ''..'' \<Longrightarrow>
   candidate = base @ relative_path base candidate"
  by (induction base candidate rule: relative_path.induct) (auto split: if_splits)

lemma within_iff:
  assumes "plain_path candidate"
  shows "resolvedWithin base candidate \<longleftrightarrow> (\<exists>ss. candidate = base @ ss)"
proof
  assume "resolvedWithin base candidate"
  with relative_not_up [OF assms, of base] show "\<exists>ss. candidate = base @ ss"
    by (auto simp: resolvedWithin_def Let_def)
next
  assume "\<exists>ss. candidate = base @ ss"
  then obtain ss where ss: "candidate = base @ ss" ..
  with assms have "plain_path ss" by simp
  then have "ss = [] \<or> hd ss \<noteq> ''..''" by (cases ss) (auto simp: plain_segment_def)
  with ss show "resolvedWithin base candidate" by (simp add: resolvedWithin_def relative_prefix)
qed

end
