(* ===== verification/Schema.thy ===== *)
theory Schema
  imports Wire Task_Ids "HOL-Library.Monad_Syntax" "HOL-Library.Char_ord"
begin

text \<open>
  The vocabulary of the schemas (\<open>src/contracts.ts\<close> and the modules that declare schemas with the
  same library): a schema reads a value into a record or refuses it, field by field. The bounds
  are those of \<open>contracts.ts\<close>.
\<close>

definition MAX_TEXT :: nat where "MAX_TEXT = 65536"
definition MAX_SHORT :: nat where "MAX_SHORT = 4096"
definition MAX_ITEMS :: nat where "MAX_ITEMS = 1000"

text \<open>Validators of single fields; a number that is a whole one is a safe integer.\<close>

fun string_where :: "(string \<Rightarrow> bool) \<Rightarrow> json \<Rightarrow> string option" where
  "string_where P (JStr s) = (if P s then Some s else None)"
| "string_where P _ = None"

fun boolean_of :: "json \<Rightarrow> bool option" where
  "boolean_of (JBool b) = Some b"
| "boolean_of _ = None"

fun whole_number :: "json \<Rightarrow> int option" where
  "whole_number (JNum (Finite q)) = (if is_safe_integer (Finite q) then Some \<lfloor>q\<rfloor> else None)"
| "whole_number _ = None"

fun array_of :: "nat \<Rightarrow> nat \<Rightarrow> (json \<Rightarrow> 'a option) \<Rightarrow> json \<Rightarrow> 'a list option" where
  "array_of least most f (JArr vs) =
    (if least \<le> length vs \<and> length vs \<le> most then those (map f vs) else None)"
| "array_of least most f _ = None"

fun strict_keys :: "string list \<Rightarrow> json \<Rightarrow> bool" where
  "strict_keys allowed (JObj ps) \<longleftrightarrow> list_all (\<lambda>(k, v). k \<in> set allowed) ps"
| "strict_keys allowed _ \<longleftrightarrow> False"

definition field :: "json \<Rightarrow> string \<Rightarrow> (json \<Rightarrow> 'a option) \<Rightarrow> 'a option" where
  "field v k f = Option.bind (jprop v k) f"

definition optional_field :: "json \<Rightarrow> string \<Rightarrow> (json \<Rightarrow> 'a option) \<Rightarrow> 'a option option" where
  "optional_field v k f = (case jprop v k of None \<Rightarrow> Some None | Some w \<Rightarrow> map_option Some (f w))"

definition default_field :: "json \<Rightarrow> string \<Rightarrow> 'a \<Rightarrow> (json \<Rightarrow> 'a option) \<Rightarrow> 'a option" where
  "default_field v k d f = (case jprop v k of None \<Rightarrow> Some d | Some w \<Rightarrow> f w)"

text \<open>Numbers and names of a closed list.\<close>

definition natural_number :: "json \<Rightarrow> int option" where
  "natural_number v = Option.bind (whole_number v) (\<lambda>n. if 0 \<le> n then Some n else None)"

definition positive_number :: "json \<Rightarrow> int option" where
  "positive_number v = Option.bind (whole_number v) (\<lambda>n. if 0 < n then Some n else None)"

definition enum_of :: "(string \<times> 'a) list \<Rightarrow> json \<Rightarrow> 'a option" where
  "enum_of names v = Option.bind (as_string (Some v)) (map_of names)"

definition shortStr :: "json \<Rightarrow> string option" where
  "shortStr = string_where (\<lambda>s. length s \<le> MAX_SHORT)"

definition longText :: "json \<Rightarrow> string option" where
  "longText = string_where (\<lambda>s. length s \<le> MAX_TEXT)"

definition workerId :: "string \<Rightarrow> bool" where
  "workerId s \<longleftrightarrow> length s \<le> 64 \<and> SESSION_ID_RE s"

definition hex_digit :: "char \<Rightarrow> bool" where
  "hex_digit c \<longleftrightarrow> (CHR ''0'' \<le> c \<and> c \<le> CHR ''9'') \<or> (CHR ''a'' \<le> c \<and> c \<le> CHR ''f'')"

definition sha40 :: "json \<Rightarrow> string option" where
  "sha40 = string_where (\<lambda>s. length s = 40 \<and> list_all hex_digit s)"

definition control_char :: "char \<Rightarrow> bool" where
  "control_char c \<longleftrightarrow> (of_char c :: nat) \<le> 31 \<or> (of_char c :: nat) = 127"

lemma whole_number_js_int [simp]:
  "whole_number (JNum (js_int i)) = (if \<bar>i\<bar> \<le> max_safe_integer then Some i else None)"
  using is_safe_integer_js_int [of i] by (simp add: js_int_def)

lemma string_where_Some: "string_where P v = Some s \<longleftrightarrow> v = JStr s \<and> P s"
  by (cases v) auto

lemma array_of_Some:
  "array_of least most f v = Some xs \<Longrightarrow>
   least \<le> length xs \<and> length xs \<le> most \<and> (\<forall>x \<in> set xs. \<exists>w. f w = Some x)"
proof (cases v)
  case (JArr vs)
  moreover have "those (map f vs) = Some xs \<Longrightarrow> length xs = length vs \<and> (\<forall>x \<in> set xs. \<exists>w. f w = Some x)"
  proof (induction vs arbitrary: xs)
    case (Cons w vs)
    then show ?case by (auto split: option.splits)
  qed simp
  ultimately show "array_of least most f v = Some xs \<Longrightarrow> ?thesis" by (auto split: if_splits)
qed auto

end
