(* ===== verification/Collation.thy ===== *)
theory Collation
  imports Task_Ids Paths Schema Verdicts "HOL-Library.Multiset"
begin

text \<open>
  The collation a review leaves behind (\<open>src/run/collation.ts\<close>): the schema of the document with
  its rules of attribution, the reader that ties it to the task it was found under and to the
  seats of the console, the coverage it reports, and the cap it puts on a claim of success. A
  collation is the worker's own document; the lemmas show what an accepted one cannot say.
\<close>

section \<open>The document\<close>

definition COLLATION_ARTIFACT_NAME :: string where "COLLATION_ARTIFACT_NAME = ''collation.json''"
definition COLLATION_REPORT_NAME :: string where "COLLATION_REPORT_NAME = ''review.md''"
definition MAX_COLLATION_STATEMENT :: nat where "MAX_COLLATION_STATEMENT = 4 * 1024"
definition MAX_COLLATION_PATH_CHARS :: nat where "MAX_COLLATION_PATH_CHARS = 1024"
definition MAX_COLLATION_FINDINGS :: nat where "MAX_COLLATION_FINDINGS = 200"
definition MAX_COLLATION_LENSES :: nat where "MAX_COLLATION_LENSES = 8"
definition MAX_COLLATION_BYTES :: nat where "MAX_COLLATION_BYTES = 4 * 1024 * 1024"
definition COLLATION_SCHEMA :: string where "COLLATION_SCHEMA = ''pifleet.collation/v1''"

record collation_lens =
  cl_aspect :: string
  cl_worker :: worker_id
  cl_reported :: bool
  cl_note :: "string option"

record collation_finding =
  cf_statement :: string
  cf_file :: string
  cf_line :: int
  cf_raised_by :: "worker_id list"
  cf_disputed_by :: "worker_id list"

record collation =
  c_task_id :: task_id
  c_parent_task_id :: task_id
  c_lenses :: "collation_lens list"
  c_finding_count :: int
  c_findings :: "collation_finding list"

text \<open>Where the two artifacts of a collation lie in the container.\<close>

definition collationArtifactPath :: "task_id \<Rightarrow> string option" where
  "collationArtifactPath taskId =
    (if \<not> spellable taskId then None
     else Some (''/outbox/'' @ taskId @ ''/files/'' @ COLLATION_ARTIFACT_NAME))"

definition collationReportPath :: "task_id \<Rightarrow> string option" where
  "collationReportPath taskId =
    (if \<not> spellable taskId then None
     else Some (''/outbox/'' @ taskId @ ''/files/'' @ COLLATION_REPORT_NAME))"

section \<open>The shape\<close>

definition idField :: "string \<Rightarrow> bool" where
  "idField s \<longleftrightarrow> length s \<le> MAX_RELAY_TASK_ID_CHARS \<and> SESSION_ID_RE s"

definition findingPath :: "string \<Rightarrow> bool" where
  "findingPath p \<longleftrightarrow> length p \<le> MAX_COLLATION_PATH_CHARS \<and> \<not> list_ex control_char p"

definition CollationLensSchema :: "json \<Rightarrow> collation_lens option" where
  "CollationLensSchema v =
    (if \<not> strict_keys [''aspect'', ''worker'', ''reported'', ''note''] v then None
     else do {
       aspect \<leftarrow> field v ''aspect'' (string_where idField);
       worker \<leftarrow> field v ''worker'' (string_where workerId);
       reported \<leftarrow> field v ''reported'' boolean_of;
       note' \<leftarrow> optional_field v ''note'' (string_where (\<lambda>s. length s \<le> MAX_COLLATION_STATEMENT));
       Some \<lparr>cl_aspect = aspect, cl_worker = worker, cl_reported = reported, cl_note = note'\<rparr>
     })"

definition CollationFindingSchema :: "json \<Rightarrow> collation_finding option" where
  "CollationFindingSchema v =
    (if \<not> strict_keys [''statement'', ''file'', ''line'', ''raised_by'', ''disputed_by''] v then None
     else do {
       statement \<leftarrow> field v ''statement''
         (string_where (\<lambda>s. 1 \<le> length s \<and> length s \<le> MAX_COLLATION_STATEMENT));
       file \<leftarrow> field v ''file'' (string_where findingPath);
       line \<leftarrow> field v ''line'' whole_number;
       raised \<leftarrow> field v ''raised_by'' (\<lambda>w. array_of 1 (length (items (Some w))) (string_where workerId) w);
       disputed \<leftarrow> default_field v ''disputed_by'' [] (array_of 0 MAX_COLLATION_LENSES (string_where workerId));
       Some \<lparr>cf_statement = statement, cf_file = file, cf_line = line, cf_raised_by = raised,
         cf_disputed_by = disputed\<rparr>
     })"

text \<open>The document without the rules that relate its parts.\<close>

definition collation_shape :: "json \<Rightarrow> collation option" where
  "collation_shape v =
    (if \<not> strict_keys [''schema'', ''task_id'', ''parent_task_id'', ''lenses'', ''finding_count'', ''findings''] v
     then None
     else do {
       _ \<leftarrow> field v ''schema'' (string_where (\<lambda>s. s = COLLATION_SCHEMA));
       task_id \<leftarrow> field v ''task_id'' (string_where idField);
       parent \<leftarrow> field v ''parent_task_id'' (string_where idField);
       lenses \<leftarrow> field v ''lenses'' (array_of 1 MAX_COLLATION_LENSES CollationLensSchema);
       count \<leftarrow> Option.bind (field v ''finding_count'' whole_number)
         (\<lambda>n. if 0 \<le> n \<and> n \<le> int MAX_ITEMS then Some n else None);
       findings \<leftarrow> field v ''findings'' (array_of 0 MAX_COLLATION_FINDINGS CollationFindingSchema);
       Some \<lparr>c_task_id = task_id, c_parent_task_id = parent, c_lenses = lenses, c_finding_count = count,
         c_findings = findings\<rparr>
     })"

section \<open>The rules of attribution\<close>

datatype collation_issue =
    Lens_worker_twice worker_id
  | Lens_aspect_twice string
  | No_lens_reported
  | Raised_twice nat worker_id
  | Raised_by_stranger nat worker_id
  | Raised_by_unreported nat worker_id
  | Disputed_by_raiser nat worker_id
  | Disputed_by_stranger nat worker_id
  | Disputed_by_unreported nat worker_id

fun lens_issues :: "worker_id list \<Rightarrow> string list \<Rightarrow> collation_lens list \<Rightarrow> collation_issue list" where
  "lens_issues seenWorkers seenAspects [] = []"
| "lens_issues seenWorkers seenAspects (l # ls) =
    (if cl_worker l \<in> set seenWorkers then [Lens_worker_twice (cl_worker l)] else []) @
    (if cl_aspect l \<in> set seenAspects then [Lens_aspect_twice (cl_aspect l)] else []) @
    lens_issues (cl_worker l # seenWorkers) (cl_aspect l # seenAspects) ls"

definition lens_workers :: "collation \<Rightarrow> worker_id list" where
  "lens_workers c = map cl_worker (c_lenses c)"

definition reportedReviewers :: "collation \<Rightarrow> worker_id list" where
  "reportedReviewers c = map cl_worker (filter cl_reported (c_lenses c))"

fun raiser_issues ::
  "worker_id list \<Rightarrow> worker_id list \<Rightarrow> nat \<Rightarrow> worker_id list \<Rightarrow> worker_id list \<Rightarrow> collation_issue list" where
  "raiser_issues lenses reported i claimed [] = []"
| "raiser_issues lenses reported i claimed (w # ws) =
    (if w \<in> set claimed then [Raised_twice i w] else []) @
    (if w \<notin> set lenses then [Raised_by_stranger i w]
     else if w \<notin> set reported then [Raised_by_unreported i w] else []) @
    raiser_issues lenses reported i (w # claimed) ws"

definition disputer_issues ::
  "worker_id list \<Rightarrow> worker_id list \<Rightarrow> nat \<Rightarrow> worker_id list \<Rightarrow> worker_id \<Rightarrow> collation_issue list" where
  "disputer_issues lenses reported i claimed w =
    (if w \<in> set claimed then [Disputed_by_raiser i w] else []) @
    (if w \<notin> set lenses then [Disputed_by_stranger i w]
     else if w \<notin> set reported then [Disputed_by_unreported i w] else [])"

definition finding_issues :: "collation \<Rightarrow> nat \<times> collation_finding \<Rightarrow> collation_issue list" where
  "finding_issues c = (\<lambda>(i, f).
    raiser_issues (lens_workers c) (reportedReviewers c) i [] (cf_raised_by f) @
    concat (map (disputer_issues (lens_workers c) (reportedReviewers c) i (cf_raised_by f)) (cf_disputed_by f)))"

definition collation_issues :: "collation \<Rightarrow> collation_issue list" where
  "collation_issues c =
    lens_issues [] [] (c_lenses c) @
    (if reportedReviewers c = [] then [No_lens_reported] else []) @
    concat (map (finding_issues c) (enumerate 0 (c_findings c)))"

definition CollationSchema :: "json \<Rightarrow> collation option" where
  "CollationSchema v =
    Option.bind (collation_shape v) (\<lambda>c. if collation_issues c = [] then Some c else None)"

text \<open>
  What the rules amount to: a lens per reader, somebody reported, and a finding is raised by
  distinct readers who reported and disputed by others who reported.
\<close>

definition well_attributed :: "collation \<Rightarrow> bool" where
  "well_attributed c \<longleftrightarrow>
    distinct (lens_workers c) \<and> distinct (map cl_aspect (c_lenses c)) \<and> reportedReviewers c \<noteq> [] \<and>
    (\<forall>f \<in> set (c_findings c).
      distinct (cf_raised_by f) \<and> set (cf_raised_by f) \<subseteq> set (reportedReviewers c) \<and>
      set (cf_disputed_by f) \<subseteq> set (reportedReviewers c) \<and>
      set (cf_raised_by f) \<inter> set (cf_disputed_by f) = {})"

lemma reported_are_lenses: "set (reportedReviewers c) \<subseteq> set (lens_workers c)"
  by (auto simp: reportedReviewers_def lens_workers_def)

lemma lens_issues_Nil:
  "lens_issues ws as ls = [] \<longleftrightarrow>
    distinct (map cl_worker ls) \<and> distinct (map cl_aspect ls) \<and>
    set (map cl_worker ls) \<inter> set ws = {} \<and> set (map cl_aspect ls) \<inter> set as = {}"
  by (induction ls arbitrary: ws as) auto

lemma raiser_issues_Nil:
  "set reported \<subseteq> set lenses \<Longrightarrow> raiser_issues lenses reported i claimed ws = [] \<longleftrightarrow>
    distinct ws \<and> set ws \<subseteq> set reported \<and> set ws \<inter> set claimed = {}"
  by (induction ws arbitrary: claimed) auto

lemma finding_issues_Nil:
  "finding_issues c (i, f) = [] \<longleftrightarrow>
    distinct (cf_raised_by f) \<and> set (cf_raised_by f) \<subseteq> set (reportedReviewers c) \<and>
    set (cf_disputed_by f) \<subseteq> set (reportedReviewers c) \<and> set (cf_raised_by f) \<inter> set (cf_disputed_by f) = {}"
  using reported_are_lenses [of c]
  by (auto simp: finding_issues_def raiser_issues_Nil disputer_issues_def)

text \<open>
  The rules of the schema find nothing to object to exactly in a collation that is well
  attributed.
\<close>

theorem collation_issues_iff: "collation_issues c = [] \<longleftrightarrow> well_attributed c"
proof -
  let ?ok = "\<lambda>f. distinct (cf_raised_by f) \<and> set (cf_raised_by f) \<subseteq> set (reportedReviewers c) \<and>
    set (cf_disputed_by f) \<subseteq> set (reportedReviewers c) \<and> set (cf_raised_by f) \<inter> set (cf_disputed_by f) = {}"
  have "finding_issues c p = [] \<longleftrightarrow> ?ok (snd p)" for p
    using finding_issues_Nil [of c "fst p" "snd p"] by simp
  then have "concat (map (finding_issues c) (enumerate 0 (c_findings c))) = [] \<longleftrightarrow>
      (\<forall>p \<in> set (enumerate 0 (c_findings c)). ?ok (snd p))"
    by simp
  also have "\<dots> \<longleftrightarrow> (\<forall>f \<in> set (map snd (enumerate 0 (c_findings c))). ?ok f)"
    unfolding set_map by blast
  finally have "concat (map (finding_issues c) (enumerate 0 (c_findings c))) = [] \<longleftrightarrow>
      (\<forall>f \<in> set (c_findings c). ?ok f)" by (simp only: map_snd_enumerate)
  then show ?thesis
    by (simp add: collation_issues_def well_attributed_def lens_issues_Nil lens_workers_def)
qed

section \<open>Reading a collation\<close>

text \<open>\<open>Buffer.byteLength\<close> of a text, of the characters a string of HOL has.\<close>

definition byteLength :: "string \<Rightarrow> nat" where
  "byteLength s = sum_list (map (\<lambda>c. if (of_char c :: nat) < 128 then 1 else 2) s)"

datatype lens_table_problem =
    Lens_omitted worker_id string
  | Lens_renamed worker_id string string
  | Lens_extra worker_id

datatype collation_refusal =
    Collation_too_large
  | Not_json
  | Bad_schema
  | Filed_under_wrong_task task_id task_id
  | Derived_id_mismatch task_id task_id task_id
  | Lens_table_wrong lens_table_problem
  | Not_read

datatype collation_read = Collation_missing | Collation_refused collation_refusal | Collation_ok collation

definition lensTableProblem :: "collation \<Rightarrow> aspect_seat list \<Rightarrow> lens_table_problem option" where
  "lensTableProblem c seats =
    (let expected = js_map (map (\<lambda>s. (seat_worker s, seat_aspect s)) seats);
         declared = js_map (map (\<lambda>l. (cl_worker l, cl_aspect l)) (c_lenses c))
     in case find (\<lambda>(w, a). map_of declared w \<noteq> Some a) expected of
          Some (w, a) \<Rightarrow>
            Some (case map_of declared w of None \<Rightarrow> Lens_omitted w a | Some got \<Rightarrow> Lens_renamed w got a)
        | None \<Rightarrow>
            map_option Lens_extra (find (\<lambda>w. w \<notin> set (map fst expected)) (map fst declared)))"

text \<open>
  \<open>readCollation\<close>: the left of the sum is the error that \<open>collationTaskId\<close> throws on the parent id
  the document gives.
\<close>

definition readCollation ::
  "(string \<Rightarrow> json option) \<Rightarrow> aspect_seat list option \<Rightarrow> task_id \<Rightarrow> string option \<Rightarrow> aspect_error + collation_read" where
  "readCollation parse aspects taskId bytes =
    (case bytes of
       None \<Rightarrow> Inr Collation_missing
     | Some text \<Rightarrow>
         if byteLength text > MAX_COLLATION_BYTES then Inr (Collation_refused Collation_too_large)
         else case parse text of
           None \<Rightarrow> Inr (Collation_refused Not_json)
         | Some parsed \<Rightarrow>
             (case CollationSchema parsed of
                None \<Rightarrow> Inr (Collation_refused Bad_schema)
              | Some c \<Rightarrow>
                  if c_task_id c \<noteq> taskId
                    then Inr (Collation_refused (Filed_under_wrong_task (c_task_id c) taskId))
                  else case collationTaskId (c_parent_task_id c) of
                    Inl e \<Rightarrow> Inl e
                  | Inr expected \<Rightarrow>
                      if c_task_id c \<noteq> expected
                        then Inr (Collation_refused (Derived_id_mismatch (c_task_id c) (c_parent_task_id c) expected))
                      else (case lensTableProblem c
                          (case aspects of None \<Rightarrow> REVIEW_CONSOLE_ASPECTS | Some seats \<Rightarrow> seats) of
                        Some wrong \<Rightarrow> Inr (Collation_refused (Lens_table_wrong wrong))
                      | None \<Rightarrow> Inr (Collation_ok c))))"

record lens_coverage =
  lc_total :: nat
  lc_reported :: nat
  lc_missing :: "string list"

definition lensCoverage :: "collation \<Rightarrow> lens_coverage" where
  "lensCoverage c =
    \<lparr>lc_total = length (c_lenses c), lc_reported = length (filter cl_reported (c_lenses c)),
     lc_missing = map cl_aspect (filter (\<lambda>l. \<not> cl_reported l) (c_lenses c))\<rparr>"

lemma same_table:
  assumes "distinct (map fst ds)" and "\<forall>(k, v) \<in> set es. map_of ds k = Some v" and "fst ` set ds \<subseteq> fst ` set es"
  shows "set ds = set es"
proof
  show "set es \<subseteq> set ds" using assms(2) by (auto dest: map_of_SomeD)
  show "set ds \<subseteq> set es"
  proof
    fix p assume p: "p \<in> set ds"
    with assms(3) obtain v where v: "(fst p, v) \<in> set es" by force
    with assms(2) have "map_of ds (fst p) = Some v" by auto
    moreover have "map_of ds (fst p) = Some (snd p)" using p assms(1) by (cases p) auto
    ultimately show "p \<in> set es" using v by (cases p) simp
  qed
qed

lemma lens_table_exact:
  assumes "lensTableProblem c seats = None" and "distinct (map seat_worker seats)" and "distinct (lens_workers c)"
  shows "set (map (\<lambda>l. (cl_worker l, cl_aspect l)) (c_lenses c)) = set (map (\<lambda>s. (seat_worker s, seat_aspect s)) seats)"
    and "length (c_lenses c) = length seats"
proof -
  let ?D = "map (\<lambda>l. (cl_worker l, cl_aspect l)) (c_lenses c)" and ?E = "map (\<lambda>s. (seat_worker s, seat_aspect s)) seats"
  have d: "distinct (map fst ?D)" "distinct (map fst ?E)"
    using assms(2,3) by (simp_all add: lens_workers_def comp_def)
  from assms(1) have all: "\<forall>(w, a) \<in> set ?E. map_of ?D w = Some a" and extra: "set (map fst ?D) \<subseteq> set (map fst ?E)"
    unfolding lensTableProblem_def Let_def js_map_id [OF d(1)] js_map_id [OF d(2)]
    by (auto split: option.splits simp: find_None_iff)
  show eq: "set ?D = set ?E"
    by (rule same_table [OF d(1) all]) (use extra in \<open>simp add: image_image\<close>)
  have "distinct ?D" "distinct ?E"
    by (rule distinct_map [THEN iffD1, THEN conjunct1, OF d(1)], rule distinct_map [THEN iffD1, THEN conjunct1, OF d(2)])
  from distinct_card [OF this(1)] distinct_card [OF this(2)] have "card (set ?D) = length ?D" "card (set ?E) = length ?E" by simp_all
  with eq show "length (c_lenses c) = length seats" by simp
qed

lemma review_seats_distinct: "distinct (map seat_worker REVIEW_CONSOLE_ASPECTS)"
  by (simp add: REVIEW_CONSOLE_ASPECTS_def)

lemma readCollation_ok:
  "readCollation parse aspects taskId bytes = Inr (Collation_ok c) \<longleftrightarrow>
    (\<exists>text v. bytes = Some text \<and> byteLength text \<le> MAX_COLLATION_BYTES \<and> parse text = Some v \<and>
      collation_shape v = Some c \<and> well_attributed c \<and> c_task_id c = taskId \<and>
      collationTaskId (c_parent_task_id c) = Inr taskId \<and>
      lensTableProblem c (case aspects of None \<Rightarrow> REVIEW_CONSOLE_ASPECTS | Some seats \<Rightarrow> seats) = None)"
  by (auto simp: readCollation_def CollationSchema_def collation_issues_iff bind_eq_Some_conv
      split: option.splits sum.splits if_splits)

text \<open>
  C32: a collation that is read is bound to its review. Its id is that of the task it was found
  under, derived from the parent it names; its lenses are exactly the seats of the console, each
  once; and every finding is credited to distinct seats that reported, so that no count of
  agreement exceeds the readers there were.
\<close>

theorem accepted_collation_bound:
  assumes "readCollation parse aspects taskId bytes = Inr (Collation_ok c)"
    and "seats = (case aspects of None \<Rightarrow> REVIEW_CONSOLE_ASPECTS | Some s \<Rightarrow> s)" and "distinct (map seat_worker seats)"
  shows "isCollationTaskId taskId \<and> collationTaskId (c_parent_task_id c) = Inr taskId \<and> c_task_id c = taskId \<and>
    set (map (\<lambda>l. (cl_worker l, cl_aspect l)) (c_lenses c)) = set (map (\<lambda>s. (seat_worker s, seat_aspect s)) seats) \<and>
    length (c_lenses c) = length seats \<and>
    (\<forall>f \<in> set (c_findings c). length (cf_raised_by f) \<le> lc_reported (lensCoverage c) \<and>
      length (cf_raised_by f) \<le> length seats)"
proof -
  from assms(1) have wa: "well_attributed c" and ids: "c_task_id c = taskId" "collationTaskId (c_parent_task_id c) = Inr taskId"
    and table: "lensTableProblem c seats = None"
    unfolding readCollation_ok assms(2) by blast+
  from wa have dw: "distinct (lens_workers c)" by (simp add: well_attributed_def)
  note exact = lens_table_exact [OF table assms(3) dw]
  have id: "isCollationTaskId taskId"
    using ids(2) by (auto simp: collationTaskId_def derive_Inr isCollationTaskId_def ends_with_append)
  have bound: "length (cf_raised_by f) \<le> lc_reported (lensCoverage c)" if f: "f \<in> set (c_findings c)" for f
  proof -
    from wa f have "distinct (cf_raised_by f)" "set (cf_raised_by f) \<subseteq> set (reportedReviewers c)"
      by (auto simp: well_attributed_def)
    then have "length (cf_raised_by f) \<le> card (set (reportedReviewers c))"
      by (metis List.finite_set card_mono distinct_card)
    also have "\<dots> \<le> length (reportedReviewers c)" by (rule card_length)
    finally show ?thesis by (simp add: reportedReviewers_def lensCoverage_def)
  qed
  have "lc_reported (lensCoverage c) \<le> length seats" using exact(2) length_filter_le [of cl_reported "c_lenses c"] by (simp add: lensCoverage_def)
  with bound have "length (cf_raised_by f) \<le> length seats" if "f \<in> set (c_findings c)" for f
    using that order_trans by blast
  with bound id ids exact show ?thesis by simp
qed

text \<open>
  A collation can make its reader throw. The parent id is checked for the length of an id
  only, and the id derived from it is longer: a document filed under the right task whose parent
  has more than 56 characters is neither read nor refused, the derivation throws.
\<close>

theorem long_parent_throws:
  assumes "byteLength text \<le> MAX_COLLATION_BYTES" and "parse text = Some v" and "CollationSchema v = Some c"
    and "c_task_id c = taskId" and "56 < length (c_parent_task_id c)"
  shows "\<exists>e. readCollation parse aspects taskId (Some text) = Inl e"
proof -
  have "collationTaskId (c_parent_task_id c) \<noteq> Inr i" for i
    using assms(5) by (auto simp: collationTaskId_def derive_Inr COLLATION_ASPECT_def)
  then obtain e where "collationTaskId (c_parent_task_id c) = Inl e" by (cases "collationTaskId (c_parent_task_id c)") auto
  with assms show ?thesis by (simp add: readCollation_def)
qed

definition sample_document :: "task_id \<Rightarrow> task_id \<Rightarrow> json" where
  "sample_document i parent = JObj
    [(''schema'', JStr ''pifleet.collation/v1''), (''task_id'', JStr i), (''parent_task_id'', JStr parent),
     (''lenses'', JArr
       [JObj [(''aspect'', JStr ''arch''), (''worker'', JStr ''rev-arch-1''), (''reported'', JBool True)],
        JObj [(''aspect'', JStr ''context''), (''worker'', JStr ''rev-ctx-1''), (''reported'', JBool True)],
        JObj [(''aspect'', JStr ''lang''), (''worker'', JStr ''rev-lang-1''), (''reported'', JBool False)]]),
     (''finding_count'', JNum (js_int 1)),
     (''findings'', JArr
       [JObj [(''statement'', JStr ''unchecked''), (''file'', JStr ''src/a.ts''), (''line'', JNum (js_int 3)),
          (''raised_by'', JArr [JStr ''rev-arch-1'', JStr ''rev-ctx-1''])]])]"

definition sample_parsed :: "task_id \<Rightarrow> task_id \<Rightarrow> collation" where
  "sample_parsed i parent =
    \<lparr>c_task_id = i, c_parent_task_id = parent,
     c_lenses =
       [\<lparr>cl_aspect = ''arch'', cl_worker = ''rev-arch-1'', cl_reported = True, cl_note = None\<rparr>,
        \<lparr>cl_aspect = ''context'', cl_worker = ''rev-ctx-1'', cl_reported = True, cl_note = None\<rparr>,
        \<lparr>cl_aspect = ''lang'', cl_worker = ''rev-lang-1'', cl_reported = False, cl_note = None\<rparr>],
     c_finding_count = 1,
     c_findings = [\<lparr>cf_statement = ''unchecked'', cf_file = ''src/a.ts'', cf_line = 3,
       cf_raised_by = [''rev-arch-1'', ''rev-ctx-1''], cf_disputed_by = []\<rparr>]\<rparr>"

lemma sample_document_parsed:
  assumes "idField i" and "idField parent"
  shows "CollationSchema (sample_document i parent) = Some (sample_parsed i parent)"
proof -
  have ids: "idField ''arch''" "idField ''context''" "idField ''lang''" "workerId ''rev-arch-1''"
    "workerId ''rev-ctx-1''" "workerId ''rev-lang-1''" "findingPath ''src/a.ts''" by code_simp+
  have lens: "CollationLensSchema (JObj [(''aspect'', JStr a), (''worker'', JStr w), (''reported'', JBool b)]) =
      (if idField a \<and> workerId w then Some \<lparr>cl_aspect = a, cl_worker = w, cl_reported = b, cl_note = None\<rparr> else None)"
    for a w b by (simp add: CollationLensSchema_def field_def optional_field_def)
  have shape: "collation_shape (sample_document i parent) = Some (sample_parsed i parent)"
    by (simp add: collation_shape_def sample_document_def sample_parsed_def field_def default_field_def lens ids assms
        CollationFindingSchema_def max_safe_integer_def COLLATION_SCHEMA_def MAX_COLLATION_LENSES_def
        MAX_COLLATION_FINDINGS_def MAX_COLLATION_STATEMENT_def MAX_ITEMS_def items_def)
  have "well_attributed (sample_parsed i parent)"
    by (simp add: well_attributed_def lens_workers_def reportedReviewers_def sample_parsed_def)
  with shape show ?thesis by (simp add: CollationSchema_def collation_issues_iff)
qed

lemma long_parent_throws_witness:
  "\<exists>e. readCollation (\<lambda>t. Some (sample_document ''T9-collate'' (replicate 57 CHR ''p''))) None ''T9-collate''
    (Some ''{}'') = Inl e"
proof -
  have "idField ''T9-collate''" "idField (replicate 57 CHR ''p'')" by code_simp+
  from long_parent_throws [OF _ _ sample_document_parsed [OF this], of "''{}''"
      "\<lambda>t. Some (sample_document ''T9-collate'' (replicate 57 CHR ''p''))" "''T9-collate''" None]
  show ?thesis by (simp add: sample_parsed_def byteLength_def MAX_COLLATION_BYTES_def)
qed

section \<open>The cap on a claim of success\<close>

datatype collation_cap_reason =
    Wrote_no_collation
  | Collation_was_refused collation_refusal
  | Zero_findings nat

definition collationCeiling :: "task_id \<Rightarrow> verdict \<Rightarrow> collation_read \<Rightarrow> verdict \<times> collation_cap_reason option" where
  "collationCeiling taskId claimed read =
    (if \<not> isCollationTaskId taskId then (claimed, None)
     else if claimed \<noteq> Success then (claimed, None)
     else case read of
       Collation_missing \<Rightarrow> (Partial, Some Wrote_no_collation)
     | Collation_refused why \<Rightarrow> (Partial, Some (Collation_was_refused why))
     | Collation_ok c \<Rightarrow>
         if c_findings c = [] then (Partial, Some (Zero_findings (length (c_lenses c)))) else (Success, None))"

definition capCollationVerdict ::
  "verdict \<Rightarrow> task_id \<Rightarrow> verdict \<Rightarrow> collation_read \<Rightarrow> verdict \<times> collation_cap_reason option" where
  "capCollationVerdict current taskId claimed read =
    (case collationCeiling taskId claimed read of
       (status, None) \<Rightarrow> (current, None)
     | (status, Some why) \<Rightarrow>
         if rank current < 0 \<or> rank status < 0 then (current, None)
         else if rank status \<ge> rank current then (current, None)
         else (status, Some why))"

interpretation collation_caps: verdict_cap "\<lambda>v. fst (capCollationVerdict v taskId claimed read)" for taskId claimed read
  by unfold_locales (auto simp: capCollationVerdict_def split: prod.splits option.splits)

text \<open>The ceiling binds a claim of success alone, and is always partial.\<close>

lemma collationCeiling_capped:
  "collationCeiling taskId claimed read = (status, Some why) \<Longrightarrow>
   status = Partial \<and> claimed = Success \<and> isCollationTaskId taskId"
  by (auto simp: collationCeiling_def split: if_splits collation_read.splits)

text \<open>
  A review that claims success keeps it only with a collation that was read and lists a
  finding. For every other task, and every other claim, the verdict passes unchanged.
\<close>

theorem capped_review_success_iff:
  "fst (capCollationVerdict current taskId claimed read) = Success \<longleftrightarrow>
    current = Success \<and> (isCollationTaskId taskId \<and> claimed = Success \<longrightarrow>
      (\<exists>c. read = Collation_ok c \<and> c_findings c \<noteq> []))"
proof (cases "isCollationTaskId taskId \<and> claimed = Success")
  case True
  then show ?thesis
    by (cases read; cases current) (auto simp: capCollationVerdict_def collationCeiling_def)
qed (auto simp: capCollationVerdict_def collationCeiling_def)

lemma capped_review_success_iff_witness:
  "fst (capCollationVerdict Success ''T1-collate'' Success (Collation_refused Not_json)) \<noteq> Success"
proof -
  have "isCollationTaskId ''T1-collate''" by code_simp
  then show ?thesis unfolding capped_review_success_iff by simp
qed

lemma accepted_collation_bound_witness:
  "readCollation (\<lambda>t. Some (sample_document ''T9-collate'' ''T9'')) None ''T9-collate'' (Some ''{}'') =
     Inr (Collation_ok (sample_parsed ''T9-collate'' ''T9'')) \<and>
   isCollationTaskId ''T9-collate'' \<and> length (c_lenses (sample_parsed ''T9-collate'' ''T9'')) = 3"
proof -
  have ids: "idField ''T9-collate''" "idField ''T9''" by code_simp+
  have derived: "collationTaskId ''T9'' = Inr ''T9-collate''" by code_simp
  have table: "lensTableProblem (sample_parsed i parent) REVIEW_CONSOLE_ASPECTS = None" for i parent
    by (simp add: lensTableProblem_def sample_parsed_def REVIEW_CONSOLE_ASPECTS_def js_map_def)
  have read: "readCollation (\<lambda>t. Some (sample_document ''T9-collate'' ''T9'')) None ''T9-collate'' (Some ''{}'') =
      Inr (Collation_ok (sample_parsed ''T9-collate'' ''T9''))"
    using sample_document_parsed [OF ids] derived table
    by (simp add: readCollation_def byteLength_def MAX_COLLATION_BYTES_def) (simp add: sample_parsed_def)
  from accepted_collation_bound [OF read refl] read show ?thesis
    by (simp add: review_seats_distinct) (simp add: REVIEW_CONSOLE_ASPECTS_def)
qed

end
