(* ===== verification/Pm_Review.thy ===== *)
theory Pm_Review
  imports Collation
begin

text \<open>
  What a project manager makes of a review (\<open>src/run/pm-verdict.ts\<close>): the coverage the host
  knows from its journal, the disagreements between the collation and that journal, the path of a
  finding inside the repository, the verdict and the count of review iterations. A collation is
  the worker's own document; the lemmas show what no collation can bring about by itself.
\<close>

section \<open>What the host knows\<close>

datatype reply_coverage = Reported | Missing_reply | Unreadable string "string option"

record journal_coverage =
  jc_children :: "task_id list"
  jc_replies :: "(task_id \<times> reply_coverage) list"

datatype host_coverage = No_journal_entry | Journal journal_coverage

datatype missing_reason = Is_missing | Is_unreadable string "string option"

record missing_lens =
  ml_child :: task_id
  ml_reason :: missing_reason

definition has_report :: "journal_coverage \<Rightarrow> task_id \<Rightarrow> bool" where
  "has_report c child \<longleftrightarrow> map_of (jc_replies c) child = Some Reported"

definition computeCoverageCounts :: "journal_coverage \<Rightarrow> nat \<times> nat" where
  "computeCoverageCounts c = (length (jc_children c), length (filter (has_report c) (jc_children c)))"

definition missing_lens_of :: "journal_coverage \<Rightarrow> task_id \<Rightarrow> missing_lens option" where
  "missing_lens_of c child =
    (case map_of (jc_replies c) child of
       None \<Rightarrow> Some \<lparr>ml_child = child, ml_reason = Is_missing\<rparr>
     | Some Missing_reply \<Rightarrow> Some \<lparr>ml_child = child, ml_reason = Is_missing\<rparr>
     | Some (Unreadable path detail) \<Rightarrow> Some \<lparr>ml_child = child, ml_reason = Is_unreadable path detail\<rparr>
     | Some Reported \<Rightarrow> None)"

definition computeMissingLenses :: "journal_coverage \<Rightarrow> missing_lens list" where
  "computeMissingLenses c = List.map_filter (missing_lens_of c) (jc_children c)"

section \<open>What the collator wrote\<close>

datatype lens_disagreement =
    Row_missing_for_dispatched_child task_id string
  | Row_for_undispatched_lens string worker_id
  | Reported_true_without_reply string worker_id task_id

definition tryChildTaskId :: "task_id \<Rightarrow> string \<Rightarrow> task_id option" where
  "tryChildTaskId parent aspect = (case childTaskId parent aspect of Inl e \<Rightarrow> None | Inr i \<Rightarrow> Some i)"

definition seat_disagreement :: "collation \<Rightarrow> journal_coverage \<Rightarrow> aspect_seat \<Rightarrow> lens_disagreement option" where
  "seat_disagreement c j seat =
    (case tryChildTaskId (c_parent_task_id c) (seat_aspect seat) of
       None \<Rightarrow> None
     | Some expected \<Rightarrow>
         if expected \<notin> set (jc_children j) then None
         else if seat_aspect seat \<notin> set (map cl_aspect (c_lenses c)) then
           Some (Row_missing_for_dispatched_child expected (seat_aspect seat))
         else None)"

definition lens_row_disagreement :: "collation \<Rightarrow> journal_coverage \<Rightarrow> collation_lens \<Rightarrow> lens_disagreement option" where
  "lens_row_disagreement c j l =
    (let expected = tryChildTaskId (c_parent_task_id c) (cl_aspect l) in
     if (case expected of None \<Rightarrow> True | Some i \<Rightarrow> i \<notin> set (jc_children j)) then
       Some (Row_for_undispatched_lens (cl_aspect l) (cl_worker l))
     else if cl_reported l \<and> \<not> has_report j (the expected) then
       Some (Reported_true_without_reply (cl_aspect l) (cl_worker l) (the expected))
     else None)"

definition computeLensDisagreements :: "collation \<Rightarrow> journal_coverage \<Rightarrow> lens_disagreement list" where
  "computeLensDisagreements c j =
    List.map_filter (seat_disagreement c j) REVIEW_CONSOLE_ASPECTS @
    List.map_filter (lens_row_disagreement c j) (c_lenses c)"

section \<open>Paths of findings\<close>

definition DEFAULT_CONTAINER_WORKDIR :: "string list" where
  "DEFAULT_CONTAINER_WORKDIR = [''workspace'']"

definition container_target :: "string \<Rightarrow> string list" where
  "container_target f =
    resolve_path DEFAULT_CONTAINER_WORKDIR f"

definition toRepoRelativePath :: "string \<Rightarrow> string" where
  "toRepoRelativePath f =
    (let rel = relative_path DEFAULT_CONTAINER_WORKDIR (container_target f) in
     if rel = [] \<or> hd rel = ''..'' then f else join_slash rel)"

lemma container_target_plain: "plain_path (container_target f)"
  by (simp add: container_target_def DEFAULT_CONTAINER_WORKDIR_def plain_segment_def)

text \<open>
  The path of a finding is passed on unchanged, or it is a path of plain segments that never
  leaves the repository and names, below the container's work directory, the very file the
  finding named.
\<close>

theorem repo_relative_path_safe:
  assumes "toRepoRelativePath f \<noteq> f"
  shows "\<exists>ss. toRepoRelativePath f = join_slash ss \<and> ss \<noteq> [] \<and> (\<forall>s \<in> set ss. plain_segment s) \<and>
    container_target f = DEFAULT_CONTAINER_WORKDIR @ ss \<and> container_target (join_slash ss) = container_target f"
proof -
  let ?rel = "relative_path DEFAULT_CONTAINER_WORKDIR (container_target f)"
  from assms have rel: "toRepoRelativePath f = join_slash ?rel" "?rel \<noteq> []" "hd ?rel \<noteq> ''..''"
    by (auto simp: toRepoRelativePath_def Let_def split: if_splits)
  then have target: "container_target f = DEFAULT_CONTAINER_WORKDIR @ ?rel"
    by (cases "container_target f") (auto simp: DEFAULT_CONTAINER_WORKDIR_def split: if_splits)
  with container_target_plain [of f] have plain: "plain_path ?rel" by (metis plain_path_simps(3))
  have "container_target (join_slash ?rel) = DEFAULT_CONTAINER_WORKDIR @ ?rel"
    using joined_plain_relative [OF plain rel(2)] by (simp add: container_target_def resolve_path_def)
  with target rel plain show ?thesis by (auto simp: plain_path_def list_all_iff)
qed

section \<open>The verdict\<close>

record fix_brief_finding =
  ff_statement :: string
  ff_file :: string
  ff_line :: int
  ff_raisedBy :: "worker_id list"
  ff_disputedBy :: "worker_id list"

definition toFixBriefFinding :: "collation_finding \<Rightarrow> fix_brief_finding" where
  "toFixBriefFinding f = \<lparr>ff_statement = cf_statement f, ff_file = toRepoRelativePath (cf_file f),
     ff_line = cf_line f, ff_raisedBy = cf_raised_by f, ff_disputedBy = cf_disputed_by f\<rparr>"

definition isDisputedSingleRaiser :: "collation_finding \<Rightarrow> bool" where
  "isDisputedSingleRaiser f \<longleftrightarrow> length (cf_raised_by f) = 1 \<and> length (cf_disputed_by f) \<ge> 1"

record count_mismatch =
  cm_declared :: int
  cm_actual :: nat

definition computeFindingCountMismatch :: "collation \<Rightarrow> count_mismatch option" where
  "computeFindingCountMismatch c =
    (if c_finding_count c = int (length (c_findings c)) then None
     else Some \<lparr>cm_declared = c_finding_count c, cm_actual = length (c_findings c)\<rparr>)"

datatype no_collation_reason = Refused_or_none_landed | Not_collated | Missing_collation

datatype review_verdict =
    Void string string
  | No_collation no_collation_reason
  | Review_incomplete nat nat "missing_lens list" "lens_disagreement list"
  | Approved "lens_disagreement list" "count_mismatch option"
  | Approved_with_dissent "fix_brief_finding list" "lens_disagreement list" "count_mismatch option"
  | Changes_requested "fix_brief_finding list" "lens_disagreement list" "count_mismatch option"

fun countsAgainstIterationBudget :: "review_verdict \<Rightarrow> bool" where
  "countsAgainstIterationBudget (Changes_requested fs ds m) = True"
| "countsAgainstIterationBudget _ = False"

record verdict_input =
  vi_collation :: "collation option"
  vi_coverage :: host_coverage
  vi_recordedSha :: string
  vi_currentSha :: string

definition grade_findings :: "collation \<Rightarrow> lens_disagreement list \<Rightarrow> review_verdict" where
  "grade_findings c ds =
    (let mismatch = computeFindingCountMismatch c; fs = c_findings c in
     if fs = [] then Approved ds mismatch
     else if list_all isDisputedSingleRaiser fs then
       Approved_with_dissent (map toFixBriefFinding fs) ds mismatch
     else
       let consensus = filter (\<lambda>f. length (cf_raised_by f) \<ge> 2) fs;
           others = filter (\<lambda>f. length (cf_raised_by f) < 2) fs
       in Changes_requested (map toFixBriefFinding (consensus @ others)) ds mismatch)"

definition deriveReviewVerdict :: "verdict_input \<Rightarrow> review_verdict" where
  "deriveReviewVerdict v =
    (if vi_recordedSha v \<noteq> vi_currentSha v then Void (vi_recordedSha v) (vi_currentSha v)
     else case vi_coverage v of
       No_journal_entry \<Rightarrow> No_collation Refused_or_none_landed
     | Journal j \<Rightarrow>
         (let (dispatched, reported) = computeCoverageCounts j;
              ds = (case vi_collation v of None \<Rightarrow> [] | Some c \<Rightarrow> computeLensDisagreements c j)
          in if reported = 0 then No_collation Not_collated
             else if reported < dispatched then
               Review_incomplete reported dispatched (computeMissingLenses j) ds
             else case vi_collation v of
               None \<Rightarrow> No_collation Missing_collation
             | Some c \<Rightarrow> grade_findings c ds))"

definition nextReviewIterationCount :: "int \<Rightarrow> review_verdict \<Rightarrow> int" where
  "nextReviewIterationCount current v = (if countsAgainstIterationBudget v then current + 1 else current)"

text \<open>A review that was carried out on the commit at hand: a report of every child is on the host.\<close>

definition fully_reviewed :: "verdict_input \<Rightarrow> journal_coverage \<Rightarrow> collation \<Rightarrow> bool" where
  "fully_reviewed v j c \<longleftrightarrow> vi_recordedSha v = vi_currentSha v \<and> vi_coverage v = Journal j \<and>
    vi_collation v = Some c \<and> jc_children j \<noteq> [] \<and> (\<forall>i \<in> set (jc_children j). has_report j i)"

fun is_approval :: "review_verdict \<Rightarrow> bool" where
  "is_approval (Approved ds m) = True"
| "is_approval (Approved_with_dissent fs ds m) = True"
| "is_approval _ = False"

lemma counts_full:
  "computeCoverageCounts j = (d, r) \<Longrightarrow> r \<noteq> 0 \<and> \<not> r < d \<longleftrightarrow>
    jc_children j \<noteq> [] \<and> (\<forall>i \<in> set (jc_children j). has_report j i)"
proof -
  assume "computeCoverageCounts j = (d, r)"
  then have dr: "d = length (jc_children j)" "r = length (filter (has_report j) (jc_children j))"
    by (auto simp: computeCoverageCounts_def)
  have "\<not> r < d \<longleftrightarrow> (\<forall>i \<in> set (jc_children j). has_report j i)"
  proof
    assume "\<not> r < d"
    then have "\<not> length (filter (has_report j) (jc_children j)) < length (jc_children j)" using dr by simp
    then show "\<forall>i \<in> set (jc_children j). has_report j i"
      using List.length_filter_less [where P = "has_report j" and xs = "jc_children j"] by blast
  qed (simp add: dr)
  then show ?thesis using dr by (cases "jc_children j") (auto simp: filter_empty_conv)
qed

lemma graded_iff:
  "is_approval (deriveReviewVerdict v) \<or> countsAgainstIterationBudget (deriveReviewVerdict v) \<longleftrightarrow>
    (\<exists>j c. fully_reviewed v j c)" (is "?graded \<longleftrightarrow> ?full")
  and fully_reviewed_graded: "fully_reviewed v j c \<Longrightarrow> \<exists>ds. deriveReviewVerdict v = grade_findings c ds"
proof -
  show graded: "\<exists>ds. deriveReviewVerdict v = grade_findings c ds" if "fully_reviewed v j c" for j c
  proof -
    obtain d r where dr: "computeCoverageCounts j = (d, r)" by fastforce
    with that counts_full [OF dr] show ?thesis
      by (auto simp: fully_reviewed_def deriveReviewVerdict_def)
  qed
  have "is_approval (grade_findings c ds) \<or> countsAgainstIterationBudget (grade_findings c ds)" for c ds
    by (simp add: grade_findings_def Let_def)
  with graded have "?full \<Longrightarrow> ?graded" by metis
  moreover have "?full" if ?graded
  proof (cases "vi_coverage v")
    case (Journal j)
    obtain d r where dr: "computeCoverageCounts j = (d, r)" by fastforce
    from that Journal dr have "vi_recordedSha v = vi_currentSha v" "r \<noteq> 0 \<and> \<not> r < d" "vi_collation v \<noteq> None"
      by (auto simp: deriveReviewVerdict_def Let_def split: if_splits option.splits)
    with Journal counts_full [OF dr] show ?thesis by (auto simp: fully_reviewed_def)
  qed (use that in \<open>auto simp: deriveReviewVerdict_def split: if_splits\<close>)
  ultimately show "?graded \<longleftrightarrow> ?full" by blast
qed

text \<open>
  C31: a review approves only what was reviewed: an approval, with or without dissent, is given
  exactly when the commit is the one recorded, every dispatched child has a readable report on
  the host, a collation exists, and each of its findings, if there are any, was raised by one
  reviewer and disputed by another. What the collation says of its own coverage plays no part.
\<close>

theorem approval_iff:
  "is_approval (deriveReviewVerdict v) \<longleftrightarrow>
    (\<exists>j c. fully_reviewed v j c \<and> (\<forall>f \<in> set (c_findings c). isDisputedSingleRaiser f))"
proof -
  have "is_approval (grade_findings c ds) \<longleftrightarrow> (\<forall>f \<in> set (c_findings c). isDisputedSingleRaiser f)" for c ds
    by (auto simp: grade_findings_def Let_def list_all_iff)
  with fully_reviewed_graded graded_iff show ?thesis by metis
qed

text \<open>
  An iteration of the review budget is spent exactly on a completed review that asks for
  changes; the findings passed on are then all those of the collation, none lost and none
  repeated, those more than one reviewer raised first.
\<close>

theorem changes_requested_complete:
  assumes "deriveReviewVerdict v = Changes_requested fs ds m"
  shows "(\<exists>j c. fully_reviewed v j c \<and> (\<exists>f \<in> set (c_findings c). \<not> isDisputedSingleRaiser f) \<and>
      mset fs = mset (map toFixBriefFinding (c_findings c))) \<and>
    (\<exists>some others. fs = some @ others \<and> (\<forall>f \<in> set some. length (ff_raisedBy f) \<ge> 2) \<and>
      (\<forall>f \<in> set others. length (ff_raisedBy f) < 2)) \<and>
    nextReviewIterationCount n (deriveReviewVerdict v) = n + 1"
proof -
  from graded_iff [of v] assms obtain j c where full: "fully_reviewed v j c" by auto
  from fully_reviewed_graded [OF full] assms obtain ds' where g: "grade_findings c ds' = Changes_requested fs ds m"
    by auto
  let ?two = "filter (\<lambda>f. length (cf_raised_by f) \<ge> 2) (c_findings c)"
  let ?one = "filter (\<lambda>f. length (cf_raised_by f) < 2) (c_findings c)"
  from g have some: "\<exists>f \<in> set (c_findings c). \<not> isDisputedSingleRaiser f"
    and fs: "fs = map toFixBriefFinding ?two @ map toFixBriefFinding ?one"
    by (auto simp: grade_findings_def Let_def list_all_iff split: if_splits)
  have "mset fs = mset (map toFixBriefFinding (c_findings c))"
    using multiset_partition [of "mset (c_findings c)" "\<lambda>f. length (cf_raised_by f) \<ge> 2"]
    by (simp add: fs not_le) (metis image_mset_union)
  moreover have "\<forall>f \<in> set (map toFixBriefFinding ?two). length (ff_raisedBy f) \<ge> 2"
    "\<forall>f \<in> set (map toFixBriefFinding ?one). length (ff_raisedBy f) < 2"
    by (auto simp: toFixBriefFinding_def)
  then have "\<exists>some others. fs = some @ others \<and> (\<forall>f \<in> set some. length (ff_raisedBy f) \<ge> 2) \<and>
      (\<forall>f \<in> set others. length (ff_raisedBy f) < 2)"
    using fs by blast
  moreover have "nextReviewIterationCount n (deriveReviewVerdict v) = n + 1"
    using assms by (simp add: nextReviewIterationCount_def)
  ultimately show ?thesis using full some by blast
qed

section \<open>A review\<close>

definition sample_finding :: collation_finding where
  "sample_finding = \<lparr>cf_statement = ''unchecked'', cf_file = ''/workspace/src/a.ts'', cf_line = 3,
     cf_raised_by = [''rev-arch-1''], cf_disputed_by = []\<rparr>"

definition sample_review :: verdict_input where
  "sample_review =
    \<lparr>vi_collation = Some \<lparr>c_task_id = ''T1-collate'', c_parent_task_id = ''T1'',
        c_lenses = [\<lparr>cl_aspect = ''arch'', cl_worker = ''rev-arch-1'', cl_reported = True, cl_note = None\<rparr>],
        c_finding_count = 1, c_findings = [sample_finding]\<rparr>,
     vi_coverage = Journal \<lparr>jc_children = [''T1-arch''], jc_replies = [(''T1-arch'', Reported)]\<rparr>,
     vi_recordedSha = ''a'', vi_currentSha = ''a''\<rparr>"

lemma repo_relative_path_safe_witness:
  "\<exists>ss. ''src/a.ts'' = join_slash ss \<and> ss \<noteq> [] \<and> (\<forall>s \<in> set ss. plain_segment s)"
proof -
  have path: "toRepoRelativePath ''/workspace/src/a.ts'' = ''src/a.ts''" by code_simp
  then have "toRepoRelativePath ''/workspace/src/a.ts'' \<noteq> ''/workspace/src/a.ts''" by simp
  from repo_relative_path_safe [OF this] obtain ss where
    "toRepoRelativePath ''/workspace/src/a.ts'' = join_slash ss" "ss \<noteq> []" "\<forall>s \<in> set ss. plain_segment s" by blast
  then show ?thesis unfolding path by (intro exI [of _ ss]) simp
qed

lemma changes_requested_complete_witness:
  "\<exists>fs ds m. deriveReviewVerdict sample_review = Changes_requested fs ds m \<and>
    nextReviewIterationCount 2 (deriveReviewVerdict sample_review) = 3"
proof -
  have "countsAgainstIterationBudget (deriveReviewVerdict sample_review)" by code_simp
  then obtain fs ds m where v: "deriveReviewVerdict sample_review = Changes_requested fs ds m"
    by (cases "deriveReviewVerdict sample_review") auto
  from changes_requested_complete [OF v, of 2] v show ?thesis by auto
qed

text \<open>A review whose only finding one reviewer raised and another disputes.\<close>

definition sample_collation :: collation where
  "sample_collation = \<lparr>c_task_id = ''T1-collate'', c_parent_task_id = ''T1'',
     c_lenses = [\<lparr>cl_aspect = ''arch'', cl_worker = ''rev-arch-1'', cl_reported = True, cl_note = None\<rparr>],
     c_finding_count = 1, c_findings = [sample_finding\<lparr>cf_disputed_by := [''rev-ctx-1'']\<rparr>]\<rparr>"

definition sample_coverage :: journal_coverage where
  "sample_coverage = \<lparr>jc_children = [''T1-arch''], jc_replies = [(''T1-arch'', Reported)]\<rparr>"

lemma approval_iff_witness:
  "is_approval (deriveReviewVerdict \<lparr>vi_collation = Some sample_collation, vi_coverage = Journal sample_coverage,
     vi_recordedSha = ''a'', vi_currentSha = ''a''\<rparr>)"
  by (rule approval_iff [THEN iffD2], rule exI [of _ sample_coverage], rule exI [of _ sample_collation])
    (simp add: fully_reviewed_def has_report_def sample_coverage_def sample_collation_def sample_finding_def
      isDisputedSingleRaiser_def)

end
