(* ===== verification/Pm_Integration.thy ===== *)
theory Pm_Integration
  imports Task_Ids
begin

text \<open>
  How a worker's branch reaches the integration branch (\<open>src/run/pm-integration.ts\<close>): the hazard
  gate over the paths a branch touches, the preconditions of a merge, the fetch into a ref of the
  module's own, the merge of the head that was read from it, the clean-up of what did not land,
  and the row that records the outcome. Git and the hazard scanner are functions on a world of any
  type. The lemmas speak of the git commands issued, through a world that carries their log.
\<close>

section \<open>The hazard gate\<close>

datatype hazard_class =
    Agents_md | Claude_md | Pi_tree | Agents_skills | Agents_entry | Gitattributes | Workflows | Mcp_json

definition HAZARD_PATH_RULES :: "(hazard_class \<times> (string \<Rightarrow> bool)) list" where
  "HAZARD_PATH_RULES =
    [(Agents_md, \<lambda>p. p = ''AGENTS.md''),
     (Claude_md, \<lambda>p. p = ''CLAUDE.md''),
     (Pi_tree, \<lambda>p. p = ''.pi'' \<or> starts_with p ''.pi/''),
     (Agents_skills, \<lambda>p. p = ''.agents/skills'' \<or> starts_with p ''.agents/skills/''),
     (Agents_entry, \<lambda>p. p = ''.agents''),
     (Gitattributes, \<lambda>p. p = ''.gitattributes'' \<or> ends_with p ''/.gitattributes''),
     (Workflows, \<lambda>p. p = ''.github/workflows'' \<or> starts_with p ''.github/workflows/''),
     (Mcp_json, \<lambda>p. p = ''.mcp.json'')]"

definition classifyHazardPath :: "string \<Rightarrow> hazard_class option" where
  "classifyHazardPath p = map_option fst (find (\<lambda>(c, matches). matches p) HAZARD_PATH_RULES)"

record hazard_touch =
  ht_path :: string
  ht_class :: hazard_class
  ht_commit :: string

definition hazard_touch_of :: "string \<Rightarrow> string \<Rightarrow> hazard_touch option" where
  "hazard_touch_of commit p =
    map_option (\<lambda>c. \<lparr>ht_path = p, ht_class = c, ht_commit = commit\<rparr>) (classifyHazardPath p)"

definition findHazardTouches :: "string list \<Rightarrow> string \<Rightarrow> hazard_touch list" where
  "findHazardTouches paths commit = List.map_filter (hazard_touch_of commit) paths"

lemma no_hazard_touches: "findHazardTouches ps c = [] \<longleftrightarrow> (\<forall>p \<in> set ps. classifyHazardPath p = None)"
  by (induction ps) (auto simp: findHazardTouches_def hazard_touch_of_def List.map_filter_simps split: option.splits)

text \<open>
  A \<open>.gitattributes\<close> is caught in every directory; the trees of \<open>.pi\<close> and \<open>.agents/skills\<close> only
  at the root of the repository, whatever lies below them.
\<close>

lemma gitattributes_anywhere: "classifyHazardPath (d @ ''/.gitattributes'') \<noteq> None"
  by (auto simp: classifyHazardPath_def HAZARD_PATH_RULES_def ends_with_append)

lemma nested_trees_pass:
  "classifyHazardPath ''sub/.pi/settings.json'' = None \<and> classifyHazardPath ''sub/.agents/skills/x.md'' = None"
  by code_simp

section \<open>Git\<close>

record git_result =
  g_code :: int
  g_stdout :: string
  g_stderr :: string

record ('w, 'z) merge_env =
  me_git :: "string list \<Rightarrow> 'w \<Rightarrow> 'w \<times> git_result"
  me_isDirectory :: "string \<Rightarrow> 'w \<Rightarrow> bool"
  me_detectRepoHazards :: "string \<Rightarrow> 'w \<Rightarrow> 'w \<times> 'z list"
  me_neutralizeRepoHazards :: "'w \<Rightarrow> 'w \<times> (string + 'z list)"

datatype integration_error =
    Git_failed "string list" git_result
  | Detached_head
  | Uncommitted_changes "string list"
  | Leftover_merge "string list" "leftover_evidence list"
  | Unusable_worker string
  | Neutralize_threw string
  and leftover_evidence = Prior_unrestored "worker_id list" | Mid_merge | Unmerged_paths "string list"

definition nonblank_lines :: "string \<Rightarrow> string list" where
  "nonblank_lines s = filter (\<lambda>l. trim_string l \<noteq> []) (split_on CHR 0x0A s)"

definition unmerged_line :: "string \<Rightarrow> bool" where
  "unmerged_line l \<longleftrightarrow> CHR ''U'' \<in> set (take 2 l) \<or> take 2 l = ''AA'' \<or> take 2 l = ''DD''"

definition status_args :: "string list" where
  "status_args = [''status'', ''--porcelain'', ''--untracked-files=no'']"

definition merge_head_args :: "string list" where
  "merge_head_args = [''rev-parse'', ''--verify'', ''--quiet'', ''MERGE_HEAD'']"

definition assertMergePreconditions ::
  "('w, 'z) merge_env \<Rightarrow> worker_id list \<Rightarrow> 'w \<Rightarrow> 'w \<times> integration_error option" where
  "assertMergePreconditions env prior w =
    (let (w1, symref) = me_git env [''symbolic-ref'', ''--quiet'', ''HEAD''] w in
     if g_code symref \<noteq> 0 then (w1, Some Detached_head)
     else
       let (w2, dirty) = me_git env status_args w1 in
       if g_code dirty \<noteq> 0 then (w2, Some (Git_failed status_args dirty))
       else
         let changed = nonblank_lines (g_stdout dirty) in
         if changed = [] then (w2, None)
         else
           let (w3, midMerge) = me_git env merge_head_args w2;
               unmerged = filter unmerged_line changed;
               evidence = (if prior \<noteq> [] then [Prior_unrestored prior] else []) @
                 (if g_code midMerge = 0 then [Mid_merge] else []) @
                 (if unmerged \<noteq> [] then [Unmerged_paths unmerged] else [])
           in (w3, Some (if evidence = [] then Uncommitted_changes changed else Leftover_merge changed evidence)))"

definition incomingRefFor :: "worker_id \<Rightarrow> integration_error + string" where
  "incomingRefFor worker =
    (if \<not> SESSION_ID_RE worker \<or> length worker > 64 then Inl (Unusable_worker worker)
     else Inr (''refs/pifleet/incoming/'' @ worker))"

definition letter :: "char \<Rightarrow> bool" where
  "letter c \<longleftrightarrow> (CHR ''A'' \<le> c \<and> c \<le> CHR ''Z'') \<or> (CHR ''a'' \<le> c \<and> c \<le> CHR ''z'')"

definition scheme_char :: "char \<Rightarrow> bool" where
  "scheme_char c \<longleftrightarrow> letter c \<or> (CHR ''0'' \<le> c \<and> c \<le> CHR ''9'') \<or> c \<in> {CHR ''+'', CHR ''.'', CHR ''-''}"

definition has_scheme :: "string \<Rightarrow> bool" where
  "has_scheme url \<longleftrightarrow> url \<noteq> [] \<and> letter (hd url) \<and> starts_with (dropWhile scheme_char url) ''://''"

definition scp_style :: "string \<Rightarrow> bool" where
  "scp_style url \<longleftrightarrow> CHR '':'' \<in> set (drop 1 (takeWhile (\<lambda>c. c \<noteq> CHR ''/'') url))"

definition workerCloneLocalPath :: "('w, 'z) merge_env \<Rightarrow> string \<Rightarrow> 'w \<Rightarrow> 'w \<times> string option" where
  "workerCloneLocalPath env remote w =
    (let (w', res) = me_git env [''remote'', ''get-url'', remote] w;
         url = trim_string (g_stdout res)
     in (w', if g_code res \<noteq> 0 then None
             else if url = [] then None
             else if has_scheme url then None
             else if scp_style url then None
             else Some url))"

definition scanWorkerCloneBeforeFetch :: "('w, 'z) merge_env \<Rightarrow> string \<Rightarrow> 'w \<Rightarrow> 'w \<times> 'z list" where
  "scanWorkerCloneBeforeFetch env remote w =
    (case workerCloneLocalPath env remote w of
       (w', None) \<Rightarrow> (w', [])
     | (w', Some path) \<Rightarrow> if \<not> me_isDirectory env path w' then (w', []) else me_detectRepoHazards env path w')"

definition diff_args :: "string \<Rightarrow> string \<Rightarrow> string list" where
  "diff_args base head = [''diff'', ''--name-only'', ''-z'', base @ ''...'' @ head]"

definition changed_paths :: "git_result \<Rightarrow> string list" where
  "changed_paths res = filter (\<lambda>p. p \<noteq> []) (split_on CHR 0x00 (g_stdout res))"

definition incomingTreeChanges ::
  "('w, 'z) merge_env \<Rightarrow> string \<Rightarrow> string \<Rightarrow> 'w \<Rightarrow> 'w \<times> (integration_error + string list)" where
  "incomingTreeChanges env base head w =
    (let (w', res) = me_git env (diff_args base head) w in
     (w', if g_code res \<noteq> 0 then Inl (Git_failed (diff_args base head) res) else Inr (changed_paths res)))"

definition delete_args :: "string \<Rightarrow> string \<Rightarrow> string list" where
  "delete_args ref head = [''update-ref'', ''-d'', ref, head]"

definition deleteIncomingRef :: "('w, 'z) merge_env \<Rightarrow> string \<Rightarrow> string \<Rightarrow> 'w \<Rightarrow> 'w" where
  "deleteIncomingRef env ref head w = fst (me_git env (delete_args ref head) w)"

datatype restore_problem = Still_mid_merge | Status_unreadable git_result | Paths_modified "string list"

definition restoreAfterFailedMerge ::
  "('w, 'z) merge_env \<Rightarrow> 'w \<Rightarrow> 'w \<times> bool \<times> git_result \<times> restore_problem list" where
  "restoreAfterFailedMerge env w =
    (let (w1, abort) = me_git env [''merge'', ''--abort''] w;
         (w2, midMerge) = me_git env merge_head_args w1;
         (w3, status) = me_git env status_args w2;
         dirty = nonblank_lines (g_stdout status);
         problems = (if g_code midMerge = 0 then [Still_mid_merge] else []) @
           (if g_code status \<noteq> 0 then [Status_unreadable status]
            else if dirty \<noteq> [] then [Paths_modified dirty] else [])
     in (w3, problems = [], abort, problems))"

section \<open>The merge\<close>

record merge_input =
  mi_worker :: worker_id
  mi_remote :: string
  mi_branch :: string
  mi_taskId :: task_id
  mi_baseRef :: "string option"
  mi_unrestoredPriorWorkers :: "worker_id list"

datatype 'z merge_outcome =
    Refused_hazard "hazard_touch list"
  | Merge_failed string bool "restore_problem list"
  | Merged string "'z list"

record 'z merge_result =
  mr_worker :: worker_id
  mr_remote :: string
  mr_branch :: string
  mr_taskId :: task_id
  mr_head :: string
  mr_commitsAhead :: "int option"
  mr_preFetchHazards :: "'z list"
  mr_outcome :: "'z merge_outcome"

definition or_else :: "string \<Rightarrow> string \<Rightarrow> string" where
  "or_else s t = (if s \<noteq> [] then s else t)"

text \<open>\<open>Number.parseInt(s, 10)\<close>: an optional sign and the digits that follow, or no number.\<close>

definition parse_int :: "string \<Rightarrow> int option" where
  "parse_int s =
    (let s = dropWhile space_char s;
         neg = starts_with s ''-'';
         ds = takeWhile digit (if neg \<or> starts_with s ''+'' then drop 1 s else s)
     in if ds = [] then None else Some (if neg then - int (numeral_of ds) else int (numeral_of ds)))"

definition merge_args :: "string \<Rightarrow> string \<Rightarrow> string list" where
  "merge_args message head =
    [''-c'', ''core.hooksPath=/dev/null'', ''-c'', ''core.attributesFile=/dev/null'', ''merge'', ''--no-ff'',
     ''--no-edit'', ''-m'', message, head]"

definition merge_message :: "merge_input \<Rightarrow> string \<Rightarrow> string" where
  "merge_message input head = ''Merge worker '' @ mi_worker input @ '' ('' @ mi_remote input @ ''/'' @ mi_branch input @
     '' @ '' @ take 12 head @ '') into the integration branch''"

text \<open>What is tried once the head is known; an error of it drops the ref before it is thrown on.\<close>

definition attempt_merge ::
  "('w, 'z) merge_env \<Rightarrow> merge_input \<Rightarrow> string \<Rightarrow> string \<Rightarrow> string \<Rightarrow> 'w \<Rightarrow>
   'w \<times> (integration_error + 'z merge_outcome)" where
  "attempt_merge env input base ref head w =
    (case incomingTreeChanges env base head w of
       (w1, Inl e) \<Rightarrow> (w1, Inl e)
     | (w1, Inr changed) \<Rightarrow>
         let hazards = findHazardTouches changed head in
         if hazards \<noteq> [] then (deleteIncomingRef env ref head w1, Inr (Refused_hazard hazards))
         else
           let (w2, mergeRes) = me_git env (merge_args (merge_message input head) head) w1 in
           if g_code mergeRes \<noteq> 0 then
             let (w3, restored, abort, problems) = restoreAfterFailedMerge env w2 in
             (deleteIncomingRef env ref head w3,
              Inr (Merge_failed (or_else (trim_string (g_stderr mergeRes)) (trim_string (g_stdout mergeRes)))
                restored problems))
           else
             let (w3, commitRes) = me_git env [''rev-parse'', ''HEAD''] w2 in
             if g_code commitRes \<noteq> 0 then (w3, Inl (Git_failed [''rev-parse'', ''HEAD''] commitRes))
             else (case me_neutralizeRepoHazards env w3 of
                 (w4, Inl e) \<Rightarrow> (w4, Inl (Neutralize_threw e))
               | (w4, Inr hz) \<Rightarrow> (w4, Inr (Merged (trim_string (g_stdout commitRes)) hz))))"

definition fetch_args :: "merge_input \<Rightarrow> string \<Rightarrow> string list" where
  "fetch_args input ref =
    [''fetch'', ''--refmap='', mi_remote input, ''+'' @ mi_branch input @ '':'' @ ref]"

definition base_ref :: "merge_input \<Rightarrow> string" where
  "base_ref input = (case mi_baseRef input of None \<Rightarrow> ''HEAD'' | Some b \<Rightarrow> b)"

definition count_args :: "string \<Rightarrow> string \<Rightarrow> string list" where
  "count_args base head = [''rev-list'', ''--count'', base @ ''..'' @ head]"

text \<open>From the fetch on.\<close>

definition fetch_and_merge ::
  "('w, 'z) merge_env \<Rightarrow> merge_input \<Rightarrow> string \<Rightarrow> 'z list \<Rightarrow> 'w \<Rightarrow> 'w \<times> (integration_error + 'z merge_result)" where
  "fetch_and_merge env input ref pre w =
    (let (w1, fetchRes) = me_git env (fetch_args input ref) w in
     if g_code fetchRes \<noteq> 0 then (w1, Inl (Git_failed (fetch_args input ref) fetchRes))
     else
       let (w2, headRes) = me_git env [''rev-parse'', ref] w1 in
       if g_code headRes \<noteq> 0 then (w2, Inl (Git_failed [''rev-parse'', ref] headRes))
       else
         let head = trim_string (g_stdout headRes);
             (w3, countRes) = me_git env (count_args (base_ref input) head) w2;
             ahead = (if g_code countRes = 0 then parse_int (trim_string (g_stdout countRes)) else None)
         in (case attempt_merge env input (base_ref input) ref head w3 of
               (w4, Inl e) \<Rightarrow> (deleteIncomingRef env ref head w4, Inl e)
             | (w4, Inr outcome) \<Rightarrow>
                 (w4, Inr \<lparr>mr_worker = mi_worker input, mr_remote = mi_remote input, mr_branch = mi_branch input,
                    mr_taskId = mi_taskId input, mr_head = head, mr_commitsAhead = ahead,
                    mr_preFetchHazards = pre, mr_outcome = outcome\<rparr>)))"

definition mergeWorkerBranch ::
  "('w, 'z) merge_env \<Rightarrow> merge_input \<Rightarrow> 'w \<Rightarrow> 'w \<times> (integration_error + 'z merge_result)" where
  "mergeWorkerBranch env input w =
    (case assertMergePreconditions env (mi_unrestoredPriorWorkers input) w of
       (w1, Some e) \<Rightarrow> (w1, Inl e)
     | (w1, None) \<Rightarrow>
         (case scanWorkerCloneBeforeFetch env (mi_remote input) w1 of
            (w2, pre) \<Rightarrow>
              (case incomingRefFor (mi_worker input) of
                 Inl e \<Rightarrow> (w2, Inl e)
               | Inr ref \<Rightarrow> fetch_and_merge env input ref pre w2)))"

section \<open>A world with a log\<close>

text \<open>The git commands issued and their results, newest first.\<close>

type_synonym git_log = "(string list \<times> git_result) list"

definition logged_env :: "('w, 'z) merge_env \<Rightarrow> ('w \<times> git_log, 'z) merge_env" where
  "logged_env env =
    \<lparr>me_git = (\<lambda>args (w, l). case me_git env args w of (w', r) \<Rightarrow> ((w', (args, r) # l), r)),
     me_isDirectory = (\<lambda>p (w, l). me_isDirectory env p w),
     me_detectRepoHazards = (\<lambda>p (w, l). case me_detectRepoHazards env p w of (w', z) \<Rightarrow> ((w', l), z)),
     me_neutralizeRepoHazards = (\<lambda>(w, l). case me_neutralizeRepoHazards env w of (w', z) \<Rightarrow> ((w', l), z))\<rparr>"

definition is_merge :: "string list \<Rightarrow> bool" where
  "is_merge args \<longleftrightarrow> length args > 4 \<and> args ! 4 = ''merge''"

definition is_update_ref :: "string list \<Rightarrow> bool" where
  "is_update_ref args \<longleftrightarrow> args \<noteq> [] \<and> hd args = ''update-ref''"

text \<open>A stretch of the log that only looks.\<close>

definition looks_only :: "git_log \<Rightarrow> bool" where
  "looks_only l \<longleftrightarrow> list_all (\<lambda>(args, r). args = merge_head_args \<or>
     args \<noteq> [] \<and> hd args \<in> {''symbolic-ref'', ''status'', ''remote''} \<and> \<not> is_merge args) l"

lemma looks_only_kinds:
  "looks_only l \<Longrightarrow> (args, r) \<in> set l \<Longrightarrow>
   \<not> is_merge args \<and> \<not> is_update_ref args \<and> args \<noteq> [''rev-parse'', x]"
  by (auto simp: looks_only_def list_all_iff is_update_ref_def is_merge_def merge_head_args_def)

lemma preconditions_look:
  assumes "assertMergePreconditions (logged_env env) prior (w, l) = ((w', l'), r)"
  obtains new where "l' = new @ l" and "looks_only new"
proof -
  have "\<exists>new. l' = new @ l \<and> looks_only new"
    using assms
    by (auto simp: assertMergePreconditions_def logged_env_def looks_only_def is_merge_def
        status_args_def merge_head_args_def Let_def split: prod.splits if_splits)
  with that show thesis by blast
qed

lemma scan_looks:
  assumes "scanWorkerCloneBeforeFetch (logged_env env) remote (w, l) = ((w', l'), r)"
  obtains new where "l' = new @ l" and "looks_only new"
proof -
  have "\<exists>new. l' = new @ l \<and> looks_only new"
    using assms
    by (auto simp: scanWorkerCloneBeforeFetch_def workerCloneLocalPath_def logged_env_def looks_only_def
        is_merge_def Let_def split: prod.splits if_splits option.splits)
  with that show thesis by blast
qed

text \<open>
  A log in which every merge follows at once a diff of the very head it merges, read from the ref
  of this worker, that lists no hazardous path.
\<close>

fun inspected :: "string \<Rightarrow> string \<Rightarrow> string list \<Rightarrow> git_log \<Rightarrow> bool" where
  "inspected ref base args ((dargs, dres) # l) \<longleftrightarrow>
    (\<exists>head. last args = head \<and> dargs = diff_args base head \<and> g_code dres = 0 \<and>
      (\<forall>p \<in> set (changed_paths dres). classifyHazardPath p = None) \<and>
      (\<exists>hres. ([''rev-parse'', ref], hres) \<in> set l \<and> g_code hres = 0 \<and> trim_string (g_stdout hres) = head))"
| "inspected ref base args [] \<longleftrightarrow> False"

fun merges_inspected :: "string \<Rightarrow> string \<Rightarrow> git_log \<Rightarrow> bool" where
  "merges_inspected ref base [] \<longleftrightarrow> True"
| "merges_inspected ref base ((args, r) # l) \<longleftrightarrow>
    (is_merge args \<longrightarrow> inspected ref base args l) \<and> merges_inspected ref base l"

lemma merges_inspected_none:
  "list_all (\<lambda>(args, r). \<not> is_merge args) new \<Longrightarrow> merges_inspected ref base (new @ l) = merges_inspected ref base l"
  by (induction new) auto

text \<open>What the attempt adds to the log, by its result.\<close>

lemma attempt_cases:
  assumes "attempt_merge (logged_env env) input base ref head (w, l) = ((w', l'), r)"
  obtains
    (failed) e dres where "r = Inl e" "l' = (diff_args base head, dres) # l"
  | (refused) hz dres ures where "r = Inr (Refused_hazard hz)"
      "l' = (delete_args ref head, ures) # (diff_args base head, dres) # l"
  | (unmerged) why ok ps dres mres ares hres sres ures where "r = Inr (Merge_failed why ok ps)"
      "l' = [(delete_args ref head, ures), (status_args, sres), (merge_head_args, hres),
         ([''merge'', ''--abort''], ares), (merge_args (merge_message input head) head, mres),
         (diff_args base head, dres)] @ l"
      "g_code dres = 0" "findHazardTouches (changed_paths dres) head = []"
  | (after) dres mres cres where "(\<exists>e. r = Inl e) \<or> (\<exists>c hz. r = Inr (Merged c hz))"
      "l' = [([''rev-parse'', ''HEAD''], cres), (merge_args (merge_message input head) head, mres),
         (diff_args base head, dres)] @ l"
      "g_code dres = 0" "findHazardTouches (changed_paths dres) head = []" "g_code mres = 0"
proof -
  obtain w1 dres where d: "me_git env (diff_args base head) w = (w1, dres)" by fastforce
  consider "g_code dres \<noteq> 0"
    | "g_code dres = 0" "findHazardTouches (changed_paths dres) head \<noteq> []"
    | "g_code dres = 0" "findHazardTouches (changed_paths dres) head = []" by blast
  then show thesis
  proof cases
    case 1
    with assms d show thesis
      by (intro failed) (auto simp: attempt_merge_def incomingTreeChanges_def logged_env_def Let_def)
  next
    case 2
    with assms d show thesis
      by (intro refused [of "findHazardTouches (changed_paths dres) head" "snd (me_git env (delete_args ref head) w1)" dres])
        (auto simp: attempt_merge_def incomingTreeChanges_def logged_env_def deleteIncomingRef_def Let_def
          split: prod.splits)
  next
    case 3
    obtain w2 mres where m: "me_git env (merge_args (merge_message input head) head) w1 = (w2, mres)" by fastforce
    show thesis
    proof (cases "g_code mres = 0")
      case True
      obtain w3 cres where c: "me_git env [''rev-parse'', ''HEAD''] w2 = (w3, cres)" by fastforce
      obtain w4 n where n: "me_neutralizeRepoHazards env w3 = (w4, n)" by fastforce
      from assms d m c n 3 True show thesis
        by (intro after [of cres mres dres])
          (auto simp: attempt_merge_def incomingTreeChanges_def logged_env_def Let_def split: if_splits sum.splits)
    next
      case False
      obtain w3 ares where a: "me_git env [''merge'', ''--abort''] w2 = (w3, ares)" by fastforce
      obtain w4 hres where h: "me_git env merge_head_args w3 = (w4, hres)" by fastforce
      obtain w5 sres where s: "me_git env status_args w4 = (w5, sres)" by fastforce
      obtain w6 ures where u: "me_git env (delete_args ref head) w5 = (w6, ures)" by fastforce
      from assms d m a h s u 3 False obtain why ok ps where
        "r = Inr (Merge_failed why ok ps)"
        "l' = [(delete_args ref head, ures), (status_args, sres), (merge_head_args, hres),
         ([''merge'', ''--abort''], ares), (merge_args (merge_message input head) head, mres),
         (diff_args base head, dres)] @ l"
        by (auto simp: attempt_merge_def incomingTreeChanges_def logged_env_def restoreAfterFailedMerge_def
            deleteIncomingRef_def Let_def)
      with 3 show thesis by (intro unmerged)
    qed
  qed
qed

lemma command_kinds [simp]:
  "is_merge (merge_args m h)" "\<not> is_merge (diff_args b h)" "\<not> is_merge (delete_args ref h)"
  "\<not> is_merge status_args" "\<not> is_merge merge_head_args" "\<not> is_merge [''merge'', ''--abort'']"
  "\<not> is_merge [''rev-parse'', x]" "\<not> is_merge (count_args b h)" "\<not> is_merge (fetch_args input ref)"
  "is_update_ref (delete_args ref h)" "\<not> is_update_ref (diff_args b h)" "\<not> is_update_ref status_args"
  "\<not> is_update_ref merge_head_args" "\<not> is_update_ref [''merge'', ''--abort'']" "\<not> is_update_ref (merge_args m h)"
  "\<not> is_update_ref [''rev-parse'', x]" "\<not> is_update_ref (count_args b h)" "\<not> is_update_ref (fetch_args input ref)"
  "last (merge_args m h) = h"
  by (simp_all add: is_merge_def is_update_ref_def merge_args_def diff_args_def delete_args_def status_args_def
      merge_head_args_def count_args_def fetch_args_def)

text \<open>The runs of the merge, by how far they came.\<close>

lemma fetch_and_merge_cases:
  assumes "fetch_and_merge (logged_env env) input ref pre (w, l) = ((w', l'), r)"
  obtains
    (fetch) e fres where "r = Inl e" "l' = (fetch_args input ref, fres) # l" "g_code fres \<noteq> 0"
  | (head) e fres hres where "r = Inl e" "l' = ([''rev-parse'', ref], hres) # (fetch_args input ref, fres) # l"
      "g_code fres = 0" "g_code hres \<noteq> 0"
  | (failed) e a ures fres hres cres w3 w4 l4 where "r = Inl e"
      "attempt_merge (logged_env env) input (base_ref input) ref (trim_string (g_stdout hres))
        (w3, (count_args (base_ref input) (trim_string (g_stdout hres)), cres) # ([''rev-parse'', ref], hres) #
          (fetch_args input ref, fres) # l) = ((w4, l4), Inl a)"
      "l' = (delete_args ref (trim_string (g_stdout hres)), ures) # l4"
      "g_code fres = 0" "g_code hres = 0"
  | (done') res fres hres cres w3 w4 where "r = Inr res"
      "attempt_merge (logged_env env) input (base_ref input) ref (trim_string (g_stdout hres))
        (w3, (count_args (base_ref input) (trim_string (g_stdout hres)), cres) # ([''rev-parse'', ref], hres) #
          (fetch_args input ref, fres) # l) = ((w4, l'), Inr (mr_outcome res))"
      "mr_head res = trim_string (g_stdout hres)" "g_code fres = 0" "g_code hres = 0"
proof -
  obtain w1 fres where f: "me_git env (fetch_args input ref) w = (w1, fres)" by fastforce
  obtain w2 hres where h: "me_git env [''rev-parse'', ref] w1 = (w2, hres)" by fastforce
  let ?head = "trim_string (g_stdout hres)"
  obtain w3 cres where c: "me_git env (count_args (base_ref input) ?head) w2 = (w3, cres)" by fastforce
  let ?l = "(count_args (base_ref input) ?head, cres) # ([''rev-parse'', ref], hres) # (fetch_args input ref, fres) # l"
  obtain w4 l4 a where a: "attempt_merge (logged_env env) input (base_ref input) ref ?head (w3, ?l) = ((w4, l4), a)"
    by (metis prod.exhaust)
  have git: "me_git (logged_env env) args (v, k) = ((fst (me_git env args v), (args, snd (me_git env args v)) # k), snd (me_git env args v))"
    for args v k by (simp add: logged_env_def split: prod.splits)
  consider "g_code fres \<noteq> 0" | "g_code fres = 0" "g_code hres \<noteq> 0" | "g_code fres = 0" "g_code hres = 0" by blast
  then show thesis
  proof cases
    case 1
    with assms f show thesis by (intro fetch) (auto simp: fetch_and_merge_def git)
  next
    case 2
    with assms f h show thesis by (intro head) (auto simp: fetch_and_merge_def git)
  next
    case 3
    show thesis
    proof (cases a)
      case (Inl e)
      have "r = Inl e" "l' = (delete_args ref ?head, snd (me_git env (delete_args ref ?head) w4)) # l4"
        using assms f h c a 3 Inl by (auto simp: fetch_and_merge_def git deleteIncomingRef_def Let_def)
      from failed [OF this(1) a [unfolded Inl] this(2) 3] show thesis .
    next
      case (Inr out)
      obtain res where "r = Inr res" "mr_outcome res = out" "mr_head res = ?head" "l' = l4"
        using assms f h c a 3 Inr by (auto simp: fetch_and_merge_def git Let_def)
      then show thesis using done' [where res = res and hres = hres and fres = fres and cres = cres and ?w3.0 = w3 and ?w4.0 = w4] a [unfolded Inr] 3 by simp
    qed
  qed
qed

lemma merges_inspected_looks: "looks_only l \<Longrightarrow> merges_inspected ref base l"
  by (induction l) (auto simp: looks_only_def)

lemma looks_only_append: "looks_only k \<Longrightarrow> looks_only l \<Longrightarrow> looks_only (k @ l)"
  by (simp add: looks_only_def)

lemma attempt_inspected:
  assumes "attempt_merge (logged_env env) input base ref head (w, l) = ((w', l'), r)"
    and "merges_inspected ref base l"
    and "([''rev-parse'', ref], hres) \<in> set l" "g_code hres = 0" "trim_string (g_stdout hres) = head"
  shows "merges_inspected ref base l'"
  using assms(1)
proof (cases rule: attempt_cases)
  case (unmerged why ok ps dres mres ares hres' sres ures)
  with assms(2-) show ?thesis by (auto simp: no_hazard_touches)
next
  case (after dres mres cres)
  with assms(2-) show ?thesis by (auto simp: no_hazard_touches)
qed (use assms in auto)

lemma fetch_and_merge_inspected:
  assumes "fetch_and_merge (logged_env env) input ref pre (w, l) = ((w', l'), r)" and "looks_only l"
  shows "merges_inspected ref (base_ref input) l'"
  using assms(1)
proof (cases rule: fetch_and_merge_cases)
  case (failed e a ures fres hres cres w3 w4 l4)
  from attempt_inspected [OF failed(2), of hres] merges_inspected_looks [OF assms(2)] failed(3,5)
  show ?thesis by simp
next
  case (done' res fres hres cres w3 w4)
  from attempt_inspected [OF done'(2), of hres] merges_inspected_looks [OF assms(2)] done'(5)
  show ?thesis by simp
qed (use merges_inspected_looks [OF assms(2)] in auto)

text \<open>The ref of a worker, and a whole run after the looks that open it.\<close>

definition incoming_ref :: "merge_input \<Rightarrow> string" where
  "incoming_ref input = ''refs/pifleet/incoming/'' @ mi_worker input"

lemma incoming_ref_not_head [simp]: "incoming_ref input \<noteq> ''HEAD''"
  by (simp add: incoming_ref_def)

lemma logged_result:
  obtains w l r where "x = ((w, l), r)"
  by (cases x; cases "fst x") auto

lemma mergeWorkerBranch_cases:
  assumes "mergeWorkerBranch (logged_env env) input (w, []) = ((w', l), r)"
  obtains (refused) e where "r = Inl e" and "looks_only l"
  | (fetched) w0 l0 pre where "looks_only l0"
      "\<forall>hres. ([''rev-parse'', incoming_ref input], hres) \<notin> set l0"
      "fetch_and_merge (logged_env env) input (incoming_ref input) pre (w0, l0) = ((w', l), r)"
proof -
  obtain w1 l1 e where p: "assertMergePreconditions (logged_env env) (mi_unrestoredPriorWorkers input) (w, []) = ((w1, l1), e)"
    by (rule logged_result)
  from p obtain new1 where "l1 = new1 @ []" "looks_only new1" by (rule preconditions_look)
  then have l1: "looks_only l1" by simp
  obtain w2 l2 pre where s: "scanWorkerCloneBeforeFetch (logged_env env) (mi_remote input) (w1, l1) = ((w2, l2), pre)"
    by (rule logged_result)
  from s obtain new2 where "l2 = new2 @ l1" "looks_only new2" by (rule scan_looks)
  with l1 have l2: "looks_only l2" by (simp add: looks_only_append)
  show thesis
  proof (cases e)
    case (Some x)
    with assms p l1 show thesis by (intro refused [of x]) (auto simp: mergeWorkerBranch_def)
  next
    case None
    show thesis
    proof (cases "incomingRefFor (mi_worker input)")
      case (Inl x)
      with None assms p s l2 show thesis by (intro refused [of x]) (auto simp: mergeWorkerBranch_def)
    next
      case (Inr ref)
      then have "ref = incoming_ref input" by (auto simp: incomingRefFor_def incoming_ref_def split: if_splits)
      with Inr None assms p s have "fetch_and_merge (logged_env env) input (incoming_ref input) pre (w2, l2) = ((w', l), r)"
        by (simp add: mergeWorkerBranch_def)
      moreover have "\<forall>hres. ([''rev-parse'', incoming_ref input], hres) \<notin> set l2"
        using looks_only_kinds [OF l2] by blast
      ultimately show thesis using l2 by (intro fetched)
    qed
  qed
qed

text \<open>A git that answers every command, with the given listing of the incoming changes.\<close>

definition sample_git :: "string \<Rightarrow> int \<Rightarrow> string list \<Rightarrow> git_result" where
  "sample_git listing resolve args =
    (if args = [''rev-parse'', ''refs/pifleet/incoming/w1'']
     then \<lparr>g_code = resolve, g_stdout = ''abc'', g_stderr = []\<rparr>
     else if hd args = ''diff'' then \<lparr>g_code = 0, g_stdout = listing, g_stderr = []\<rparr>
     else \<lparr>g_code = 0, g_stdout = [], g_stderr = []\<rparr>)"

definition sample_merge_env :: "string \<Rightarrow> int \<Rightarrow> (unit, unit) merge_env" where
  "sample_merge_env listing resolve =
    \<lparr>me_git = (\<lambda>args w. (w, sample_git listing resolve args)), me_isDirectory = (\<lambda>p w. False),
     me_detectRepoHazards = (\<lambda>p w. (w, [])), me_neutralizeRepoHazards = (\<lambda>w. (w, Inr []))\<rparr>"

definition sample_merge_input :: merge_input where
  "sample_merge_input =
    \<lparr>mi_worker = ''w1'', mi_remote = ''worker-w1'', mi_branch = ''task'', mi_taskId = ''t-1'', mi_baseRef = None,
     mi_unrestoredPriorWorkers = []\<rparr>"

definition sample_merge :: "string \<Rightarrow> int \<Rightarrow> (unit \<times> git_log) \<times> (integration_error + unit merge_result)" where
  "sample_merge listing resolve =
    mergeWorkerBranch (logged_env (sample_merge_env listing resolve)) sample_merge_input ((), [])"

lemma sample_merge_run:
  "mergeWorkerBranch (logged_env (sample_merge_env listing resolve)) sample_merge_input ((), []) =
    (((), snd (fst (sample_merge listing resolve))), snd (sample_merge listing resolve))"
  by (simp add: sample_merge_def prod_eq_iff)

text \<open>
  C8: nothing is merged that was not inspected. Whatever git answers, every merge command follows
  at once a successful diff of the head it names against the base, in which no path is of a
  hazardous class, and that head is what the ref fetched for this very worker resolved to.
\<close>

theorem only_inspected_heads_merge:
  assumes "mergeWorkerBranch (logged_env env) input (w, []) = ((w', l), r)"
  shows "merges_inspected (incoming_ref input) (base_ref input) l"
  using assms
proof (cases rule: mergeWorkerBranch_cases)
  case (refused e)
  then show ?thesis by (simp add: merges_inspected_looks)
next
  case (fetched w0 l0 pre)
  from fetch_and_merge_inspected [OF fetched(3,1)] show ?thesis .
qed

theorem only_inspected_heads_merge_witness:
  "list_ex (\<lambda>(args, r). is_merge args) (snd (fst (sample_merge ''src/a.ts'' 0))) \<and>
   merges_inspected (incoming_ref sample_merge_input) (base_ref sample_merge_input)
     (snd (fst (sample_merge ''src/a.ts'' 0)))"
proof
  show "list_ex (\<lambda>(args, r). is_merge args) (snd (fst (sample_merge ''src/a.ts'' 0)))" by code_simp
qed (rule only_inspected_heads_merge [OF sample_merge_run])

definition landed :: "integration_error + 'z merge_result \<Rightarrow> bool" where
  "landed r \<longleftrightarrow>
    (case r of Inr res \<Rightarrow> (case mr_outcome res of Merged c hz \<Rightarrow> True | _ \<Rightarrow> False) | Inl e \<Rightarrow> False)"

definition drops_ref :: "git_log \<Rightarrow> bool" where
  "drops_ref l \<longleftrightarrow> list_ex (\<lambda>(args, r). is_update_ref args) l"

lemma drops_ref_simps [simp]:
  "drops_ref [] = False" "drops_ref ((args, r) # l) = (is_update_ref args \<or> drops_ref l)"
  by (simp_all add: drops_ref_def)

lemma drops_ref_looks: "looks_only l \<Longrightarrow> \<not> drops_ref l"
  by (induction l) (auto simp: looks_only_def is_update_ref_def merge_head_args_def)

lemma command_not_ref [simp]:
  "diff_args b h \<noteq> [''rev-parse'', x]" "delete_args y h \<noteq> [''rev-parse'', x]" "status_args \<noteq> [''rev-parse'', x]"
  "merge_head_args \<noteq> [''rev-parse'', x]" "merge_args m h \<noteq> [''rev-parse'', x]" "count_args b h \<noteq> [''rev-parse'', x]"
  "fetch_args input y \<noteq> [''rev-parse'', x]"
  by (simp_all add: diff_args_def delete_args_def status_args_def merge_head_args_def merge_args_def count_args_def
      fetch_args_def)

lemmas command_not_ref' [simp] = command_not_ref [symmetric]

lemma attempt_adds:
  assumes "attempt_merge (logged_env env) input base ref head (w, l) = ((w', l'), r)" and "ref \<noteq> ''HEAD''"
  shows "(([''rev-parse'', ref], x) \<in> set l' \<longleftrightarrow> ([''rev-parse'', ref], x) \<in> set l) \<and>
    (case r of Inr (Refused_hazard hz) \<Rightarrow> fst (hd l') = delete_args ref head
      | Inr (Merge_failed why ok ps) \<Rightarrow> fst (hd l') = delete_args ref head
      | _ \<Rightarrow> drops_ref l' = drops_ref l)"
  using assms(1)
proof (cases rule: attempt_cases)
  case (after dres mres cres)
  with assms(2) show ?thesis by auto
qed (use assms(2) in auto)

text \<open>
  A branch that was fetched and did not land leaves no ref. Once the fetched ref was resolved
  to a head, either the merge landed and the ref is kept, or the last command of the run deletes
  the ref, on the condition that it still is that head.
\<close>

theorem unlanded_ref_dropped:
  assumes "mergeWorkerBranch (logged_env env) input (w, []) = ((w', l), r)"
    and "([''rev-parse'', incoming_ref input], hres) \<in> set l" and "g_code hres = 0"
  shows "if landed r then \<not> drops_ref l
    else fst (hd l) = delete_args (incoming_ref input) (trim_string (g_stdout hres))"
  using assms(1)
proof (cases rule: mergeWorkerBranch_cases)
  case (refused e)
  with looks_only_kinds assms(2) show ?thesis by blast
next
  case (fetched w0 l0 pre)
  note none = fetched(2) and clean = drops_ref_looks [OF fetched(1)]
  from fetched(3) show ?thesis
  proof (cases rule: fetch_and_merge_cases)
    case (failed e a ures fres hres' cres w3 w4 l4)
    from attempt_adds [OF failed(2), of hres] failed(3) none assms(2) have "hres = hres'" by simp
    with failed show ?thesis by (simp add: landed_def)
  next
    case (done' res fres hres' cres w3 w4)
    note adds = attempt_adds [OF done'(2), of hres]
    from adds none assms(2) have "hres = hres'" by simp
    with adds done'(1) clean show ?thesis
      by (cases "mr_outcome res") (auto simp: landed_def)
  qed (use none clean assms(2,3) in \<open>auto simp: landed_def\<close>)
qed

theorem unlanded_ref_dropped_witness:
  "\<not> landed (snd (sample_merge ''AGENTS.md'' 0)) \<and>
   fst (hd (snd (fst (sample_merge ''AGENTS.md'' 0)))) = delete_args ''refs/pifleet/incoming/w1'' ''abc''"
proof -
  have hyp: "([''rev-parse'', incoming_ref sample_merge_input], sample_git ''AGENTS.md'' 0 [''rev-parse'', ''refs/pifleet/incoming/w1''])
      \<in> set (snd (fst (sample_merge ''AGENTS.md'' 0)))"
    and code: "g_code (sample_git ''AGENTS.md'' 0 [''rev-parse'', ''refs/pifleet/incoming/w1'']) = 0"
    and out: "\<not> landed (snd (sample_merge ''AGENTS.md'' 0))"
    and head: "trim_string (g_stdout (sample_git ''AGENTS.md'' 0 [''rev-parse'', ''refs/pifleet/incoming/w1''])) = ''abc''"
    and ref: "incoming_ref sample_merge_input = ''refs/pifleet/incoming/w1''"
    by code_simp+
  from unlanded_ref_dropped [OF sample_merge_run hyp code] out show ?thesis by (simp add: head ref)
qed

text \<open>
  One way out keeps a ref without a merge. When the fetch succeeded and its ref then fails to
  resolve, the run ends in an error and no command ever deletes the ref.
\<close>

theorem unresolved_ref_stays:
  assumes "mergeWorkerBranch (logged_env env) input (w, []) = ((w', l), r)"
    and "([''rev-parse'', incoming_ref input], hres) \<in> set l" and "g_code hres \<noteq> 0"
  shows "\<not> landed r \<and> \<not> drops_ref l \<and>
    (\<exists>fres. (fetch_args input (incoming_ref input), fres) \<in> set l \<and> g_code fres = 0)"
  using assms(1)
proof (cases rule: mergeWorkerBranch_cases)
  case (refused e)
  with looks_only_kinds assms(2) show ?thesis by blast
next
  case (fetched w0 l0 pre)
  note none = fetched(2) and clean = drops_ref_looks [OF fetched(1)]
  from fetched(3) show ?thesis
  proof (cases rule: fetch_and_merge_cases)
    case (failed e a ures fres hres' cres w3 w4 l4)
    from attempt_adds [OF failed(2), of hres] failed(3,5) none assms(2,3) show ?thesis by auto
  next
    case (done' res fres hres' cres w3 w4)
    from attempt_adds [OF done'(2), of hres] done'(5) none assms(2,3) show ?thesis by auto
  qed (use none clean assms(2,3) in \<open>auto simp: landed_def\<close>)
qed

theorem unresolved_ref_stays_witness: "\<not> drops_ref (snd (fst (sample_merge ''src/a.ts'' 1)))"
proof -
  have hyp: "([''rev-parse'', incoming_ref sample_merge_input], sample_git ''src/a.ts'' 1 [''rev-parse'', ''refs/pifleet/incoming/w1''])
      \<in> set (snd (fst (sample_merge ''src/a.ts'' 1)))"
    and code: "g_code (sample_git ''src/a.ts'' 1 [''rev-parse'', ''refs/pifleet/incoming/w1'']) \<noteq> 0"
    by code_simp+
  from unresolved_ref_stays [OF sample_merge_run hyp code] show ?thesis by blast
qed

end
