(* ===== verification/Outbox.thy ===== *)
theory Outbox
  imports Collation Jsonl "HOL-Library.Multiset"
begin

text \<open>
  A task's outbox on the host (\<open>src/harvest/outbox.ts\<close>, with the result envelope of
  \<open>src/contracts.ts\<close>): how a path a worker wrote maps to the host and what is refused of it, how the
  result envelope is read, and the scan that opens the files the harvest may read. The file system
  is a parameter. The lemmas show that whatever a worker wrote, a path that passes lies below the
  task's outbox or its worktree, and the scan holds only regular files below the outbox, at most
  as many as the cap.
\<close>

section \<open>Paths a worker wrote\<close>

definition OUTBOX_FILES_DIR :: string where "OUTBOX_FILES_DIR = ''files''"
definition RESULT_ENVELOPE_NAME :: string where "RESULT_ENVELOPE_NAME = ''result.json''"

record outbox_location =
  workerOutboxDir :: host_path
  ol_taskId :: task_id
  ol_epoch :: int
  containerWorkdir :: string
  hostWorkdir :: "host_path option"

definition task_outbox :: "outbox_location \<Rightarrow> host_path" where
  "task_outbox loc = join_path (workerOutboxDir loc) (ol_taskId loc)"

definition mounts :: "outbox_location \<Rightarrow> (string \<times> host_path) list" where
  "mounts loc = (''/outbox'', workerOutboxDir loc) #
    (case hostWorkdir loc of None \<Rightarrow> [] | Some host \<Rightarrow> [(containerWorkdir loc, host)])"

fun through_mounts :: "(string \<times> host_path) list \<Rightarrow> string \<Rightarrow> host_path option" where
  "through_mounts [] p = None"
| "through_mounts ((container, host) # ms) p =
    (if p = container then Some host
     else if starts_with p (container @ ''/'') then Some (join_path host (drop (length container + 1) p))
     else through_mounts ms p)"

definition containerPathToHost :: "string \<Rightarrow> outbox_location \<Rightarrow> host_path option" where
  "containerPathToHost p loc = through_mounts (mounts loc) p"

definition artifactClaimToHost :: "string \<Rightarrow> outbox_location \<Rightarrow> host_path option" where
  "artifactClaimToHost p loc =
    (if is_absolute p then containerPathToHost p loc else Some (join_path (task_outbox loc) p))"

datatype path_problem = Path_control | Path_backslash | Path_unmounted | Path_escapes | Path_absolute

definition controlCharProblem :: "string \<Rightarrow> path_problem option" where
  "controlCharProblem p = (if list_ex control_char p then Some Path_control else None)"

definition backslashProblem :: "string \<Rightarrow> path_problem option" where
  "backslashProblem p = (if CHR 0x5C \<in> set p then Some Path_backslash else None)"

definition artifactPathProblem :: "string \<Rightarrow> outbox_location \<Rightarrow> path_problem option" where
  "artifactPathProblem p loc =
    (case controlCharProblem p of Some e \<Rightarrow> Some e
     | None \<Rightarrow> (case backslashProblem p of Some e \<Rightarrow> Some e
     | None \<Rightarrow> (case artifactClaimToHost p loc of None \<Rightarrow> Some Path_unmounted
     | Some host \<Rightarrow>
         let inOutbox = resolvedWithin (task_outbox loc) host;
             inWorktree = (case hostWorkdir loc of None \<Rightarrow> False | Some w \<Rightarrow> resolvedWithin w host)
         in if \<not> inOutbox \<and> \<not> inWorktree then Some Path_escapes else None)))"

definition changedPathProblem :: "string \<Rightarrow> outbox_location \<Rightarrow> path_problem option" where
  "changedPathProblem p loc =
    (case controlCharProblem p of Some e \<Rightarrow> Some e
     | None \<Rightarrow> (case backslashProblem p of Some e \<Rightarrow> Some e
     | None \<Rightarrow>
         if is_absolute p then Some Path_absolute
         else case hostWorkdir loc of None \<Rightarrow> None
         | Some w \<Rightarrow> if \<not> resolvedWithin w (join_path w p) then Some Path_escapes else None))"

text \<open>A location as the harvest builds it: host paths are resolved.\<close>

definition resolved_location :: "outbox_location \<Rightarrow> bool" where
  "resolved_location loc \<longleftrightarrow> plain_path (workerOutboxDir loc) \<and>
    (case hostWorkdir loc of None \<Rightarrow> True | Some w \<Rightarrow> plain_path w)"

lemma task_outbox_plain [simp]: "resolved_location loc \<Longrightarrow> plain_path (task_outbox loc)"
  by (simp add: resolved_location_def task_outbox_def)

lemma hostWorkdir_plain: "resolved_location loc \<Longrightarrow> hostWorkdir loc = Some w \<Longrightarrow> plain_path w"
  by (simp add: resolved_location_def)

lemma through_mounts_plain:
  "through_mounts ms p = Some h \<Longrightarrow> \<forall>(c, host) \<in> set ms. plain_path host \<Longrightarrow> plain_path h"
  by (induction ms p rule: through_mounts.induct) (auto split: if_splits)

lemma artifactClaimToHost_plain:
  assumes "resolved_location loc" and "artifactClaimToHost p loc = Some h"
  shows "plain_path h"
proof -
  have "\<forall>(c, host) \<in> set (mounts loc). plain_path host"
    using assms(1) by (auto simp: mounts_def resolved_location_def split: option.splits)
  then have "through_mounts (mounts loc) p = Some h \<Longrightarrow> plain_path h"
    by (rule through_mounts_plain [rotated])
  with assms(2) task_outbox_plain [OF assms(1)] show ?thesis
    by (auto simp: artifactClaimToHost_def containerPathToHost_def split: if_splits)
qed

definition below :: "host_path \<Rightarrow> host_path \<Rightarrow> bool" where
  "below base p \<longleftrightarrow> (\<exists>ss. p = base @ ss)"

lemma within_below: "plain_path p \<Longrightarrow> resolvedWithin base p \<longleftrightarrow> below base p"
  by (simp add: within_iff below_def)

definition confined_artifact :: "outbox_location \<Rightarrow> string \<Rightarrow> bool" where
  "confined_artifact loc p \<longleftrightarrow> \<not> list_ex control_char p \<and> CHR 0x5C \<notin> set p \<and>
    (\<exists>h. artifactClaimToHost p loc = Some h \<and>
      (below (task_outbox loc) h \<or> (\<exists>w. hostWorkdir loc = Some w \<and> below w h)))"

definition confined_change :: "outbox_location \<Rightarrow> string \<Rightarrow> bool" where
  "confined_change loc p \<longleftrightarrow> \<not> list_ex control_char p \<and> CHR 0x5C \<notin> set p \<and> \<not> is_absolute p \<and>
    (\<forall>w. hostWorkdir loc = Some w \<longrightarrow> below w (join_path w p))"

lemma artifactPathProblem_iff:
  assumes "resolved_location loc"
  shows "artifactPathProblem p loc = None \<longleftrightarrow> confined_artifact loc p"
  using artifactClaimToHost_plain [OF assms, of p]
  by (auto simp: artifactPathProblem_def controlCharProblem_def backslashProblem_def confined_artifact_def
      within_below Let_def split: option.splits if_splits)

lemma changedPathProblem_iff:
  assumes "resolved_location loc"
  shows "changedPathProblem p loc = None \<longleftrightarrow> confined_change loc p"
  using hostWorkdir_plain [OF assms]
  by (auto simp: changedPathProblem_def controlCharProblem_def backslashProblem_def confined_change_def
      within_below split: option.splits if_splits)

section \<open>The result envelope\<close>

datatype change_kind = Change_added | Change_modified | Change_deleted | Change_renamed
datatype artifact_kind = Artifact_file | Artifact_diff | Artifact_log | Artifact_note

record file_change =
  fc_path :: string
  fc_change :: change_kind
  fc_lines_added :: "int option"
  fc_lines_removed :: "int option"

record command_run =
  cr_cmd :: string
  cr_exit_code :: int
  cr_excerpt :: "string option"

record acceptance_claim =
  ac_criterion :: string
  ac_met :: bool
  ac_evidence :: "string option"

record artifact_ref =
  af_kind :: artifact_kind
  af_path :: string

record envelope =
  en_task_id :: task_id
  en_epoch :: int
  en_worker :: worker_id
  en_status :: verdict
  en_summary :: string
  en_files_changed :: "file_change list"
  en_commits :: "string list"
  en_branch :: "string option"
  en_commands_run :: "command_run list"
  en_acceptance :: "acceptance_claim list"
  en_artifacts :: "artifact_ref list"
  en_blockers :: "string list"
  en_notes :: string

definition StatusSchema :: "(string \<times> verdict) list" where
  "StatusSchema = [(''success'', Success), (''partial'', Partial), (''blocked'', Blocked), (''failed'', Failed)]"

definition FileChangeSchema :: "json \<Rightarrow> file_change option" where
  "FileChangeSchema v = do {
     path \<leftarrow> field v ''path'' shortStr;
     change \<leftarrow> field v ''change'' (enum_of [(''added'', Change_added), (''modified'', Change_modified),
       (''deleted'', Change_deleted), (''renamed'', Change_renamed)]);
     plus \<leftarrow> optional_field v ''lines_added'' natural_number;
     minus \<leftarrow> optional_field v ''lines_removed'' natural_number;
     Some \<lparr>fc_path = path, fc_change = change, fc_lines_added = plus, fc_lines_removed = minus\<rparr>
   }"

definition CommandRunSchema :: "json \<Rightarrow> command_run option" where
  "CommandRunSchema v = do {
     cmd \<leftarrow> field v ''cmd'' longText;
     code \<leftarrow> field v ''exit_code'' whole_number;
     excerpt \<leftarrow> optional_field v ''excerpt'' longText;
     Some \<lparr>cr_cmd = cmd, cr_exit_code = code, cr_excerpt = excerpt\<rparr>
   }"

definition AcceptanceClaimSchema :: "json \<Rightarrow> acceptance_claim option" where
  "AcceptanceClaimSchema v = do {
     criterion \<leftarrow> field v ''criterion'' longText;
     met \<leftarrow> field v ''met'' boolean_of;
     evidence \<leftarrow> optional_field v ''evidence'' longText;
     Some \<lparr>ac_criterion = criterion, ac_met = met, ac_evidence = evidence\<rparr>
   }"

definition ArtifactRefSchema :: "json \<Rightarrow> artifact_ref option" where
  "ArtifactRefSchema v = do {
     kind \<leftarrow> field v ''kind'' (enum_of [(''file'', Artifact_file), (''diff'', Artifact_diff),
       (''log'', Artifact_log), (''note'', Artifact_note)]);
     path \<leftarrow> field v ''path'' shortStr;
     Some \<lparr>af_kind = kind, af_path = path\<rparr>
   }"

definition ResultEnvelopeSchema :: "json \<Rightarrow> envelope option" where
  "ResultEnvelopeSchema v = do {
     _ \<leftarrow> field v ''schema'' (string_where (\<lambda>s. s = ''pifleet.result/v1''));
     task_id \<leftarrow> field v ''task_id'' shortStr;
     epoch \<leftarrow> field v ''epoch'' natural_number;
     worker \<leftarrow> field v ''worker'' (string_where workerId);
     status \<leftarrow> field v ''status'' (enum_of StatusSchema);
     summary \<leftarrow> default_field v ''summary'' [] longText;
     files \<leftarrow> default_field v ''files_changed'' [] (array_of 0 MAX_ITEMS FileChangeSchema);
     commits \<leftarrow> default_field v ''commits'' [] (array_of 0 MAX_ITEMS sha40);
     branch \<leftarrow> optional_field v ''branch'' shortStr;
     commands \<leftarrow> default_field v ''commands_run'' [] (array_of 0 MAX_ITEMS CommandRunSchema);
     acceptance \<leftarrow> default_field v ''acceptance'' [] (array_of 0 MAX_ITEMS AcceptanceClaimSchema);
     artifacts \<leftarrow> default_field v ''artifacts'' [] (array_of 0 MAX_ITEMS ArtifactRefSchema);
     blockers \<leftarrow> default_field v ''blockers'' [] (array_of 0 MAX_ITEMS longText);
     notes \<leftarrow> default_field v ''notes'' [] longText;
     Some \<lparr>en_task_id = task_id, en_epoch = epoch, en_worker = worker, en_status = status, en_summary = summary,
       en_files_changed = files, en_commits = commits, en_branch = branch, en_commands_run = commands,
       en_acceptance = acceptance, en_artifacts = artifacts, en_blockers = blockers, en_notes = notes\<rparr>
   }"

section \<open>Reading the envelope\<close>

text \<open>
  What the reader finds: what \<open>lstat\<close> says of the file, whether it opens, and the bytes one read
  returns, which are at most those asked for.
\<close>

datatype node = Node_symlink | Node_directory | Node_file nat | Node_special

record envelope_sight =
  es_lstat :: "node option"
  es_opens :: bool
  es_reads :: "bytes option"

datatype unreadable_code = Envelope_not_json | Envelope_schema

record unreadable_envelope =
  ue_bytes :: nat
  ue_code :: unreadable_code

datatype envelope_refusal =
    Envelope_symlink | Envelope_not_regular | Envelope_oversized nat | Envelope_unopened
  | Envelope_grew | Envelope_unread | Envelope_wrong_task task_id | Envelope_stale_epoch int
  | Envelope_path path_problem

datatype outbox_read =
    Outbox_missing
  | Outbox_unreadable unreadable_envelope
  | Outbox_refused envelope_refusal
  | Outbox_ok envelope

definition MAX_ENVELOPE_BYTES :: nat where "MAX_ENVELOPE_BYTES = 4 * 1024 * 1024"

text \<open>An array of more than \<open>MAX_ITEMS\<close> among the values of the document.\<close>

fun has_long_array :: "json \<Rightarrow> bool" where
  "has_long_array (JObj ps) = list_ex (\<lambda>(k, v). length (items (Some v)) > MAX_ITEMS) ps"
| "has_long_array (JArr vs) = list_ex (\<lambda>v. length (items (Some v)) > MAX_ITEMS) vs"
| "has_long_array _ = False"

definition first_problem :: "('a \<Rightarrow> path_problem option) \<Rightarrow> 'a list \<Rightarrow> path_problem option" where
  "first_problem f xs = (case find (\<lambda>x. f x \<noteq> None) xs of None \<Rightarrow> None | Some x \<Rightarrow> f x)"

definition check_envelope :: "outbox_location \<Rightarrow> envelope \<Rightarrow> outbox_read" where
  "check_envelope loc env =
    (if en_task_id env \<noteq> ol_taskId loc then Outbox_refused (Envelope_wrong_task (en_task_id env))
     else if en_epoch env \<noteq> ol_epoch loc then Outbox_refused (Envelope_stale_epoch (en_epoch env))
     else case first_problem (\<lambda>a. artifactPathProblem (af_path a) loc) (en_artifacts env) of
       Some problem \<Rightarrow> Outbox_refused (Envelope_path problem)
     | None \<Rightarrow> (case first_problem (\<lambda>f. changedPathProblem (fc_path f) loc) (en_files_changed env) of
       Some problem \<Rightarrow> Outbox_refused (Envelope_path problem)
     | None \<Rightarrow> Outbox_ok env))"

definition parse_envelope :: "(bytes \<Rightarrow> json option) \<Rightarrow> outbox_location \<Rightarrow> bytes \<Rightarrow> outbox_read" where
  "parse_envelope parse loc bs =
    (case parse bs of
       None \<Rightarrow> Outbox_unreadable \<lparr>ue_bytes = length bs, ue_code = Envelope_not_json\<rparr>
     | Some raw \<Rightarrow>
         if has_long_array raw then Outbox_unreadable \<lparr>ue_bytes = length bs, ue_code = Envelope_schema\<rparr>
         else case ResultEnvelopeSchema raw of
           None \<Rightarrow> Outbox_unreadable \<lparr>ue_bytes = length bs, ue_code = Envelope_schema\<rparr>
         | Some env \<Rightarrow> check_envelope loc env)"

definition readResultEnvelope ::
  "(bytes \<Rightarrow> json option) \<Rightarrow> outbox_location \<Rightarrow> envelope_sight \<Rightarrow> outbox_read" where
  "readResultEnvelope parse loc v =
    (case es_lstat v of
       None \<Rightarrow> Outbox_missing
     | Some Node_symlink \<Rightarrow> Outbox_refused Envelope_symlink
     | Some Node_directory \<Rightarrow> Outbox_refused Envelope_not_regular
     | Some Node_special \<Rightarrow> Outbox_refused Envelope_not_regular
     | Some (Node_file n) \<Rightarrow>
         if n > MAX_ENVELOPE_BYTES then Outbox_refused (Envelope_oversized n)
         else if \<not> es_opens v then Outbox_refused Envelope_unopened
         else case es_reads v of
           None \<Rightarrow> Outbox_refused Envelope_unread
         | Some bs \<Rightarrow>
             if length bs > MAX_ENVELOPE_BYTES then Outbox_refused Envelope_grew
             else parse_envelope parse loc bs)"

lemma first_problem_None: "first_problem f xs = None \<longleftrightarrow> (\<forall>x \<in> set xs. f x = None)"
proof (cases "find (\<lambda>x. f x \<noteq> None) xs")
  case None
  then have "\<forall>x \<in> set xs. f x = None" by (auto simp: find_None_iff)
  with None show ?thesis by (simp add: first_problem_def)
next
  case (Some x)
  then have "x \<in> set xs \<and> f x \<noteq> None" by (auto simp: find_Some_iff)
  with Some show ?thesis by (auto simp: first_problem_def)
qed

lemma check_envelope_ok:
  "check_envelope loc env = Outbox_ok e \<longleftrightarrow> e = env \<and> en_task_id env = ol_taskId loc \<and> en_epoch env = ol_epoch loc \<and>
    (\<forall>a \<in> set (en_artifacts env). artifactPathProblem (af_path a) loc = None) \<and>
    (\<forall>f \<in> set (en_files_changed env). changedPathProblem (fc_path f) loc = None)"
  by (auto simp: check_envelope_def first_problem_None [symmetric] split: option.splits)

lemma readResultEnvelope_ok:
  "readResultEnvelope parse loc v = Outbox_ok e \<longleftrightarrow>
    (\<exists>n bs raw. es_lstat v = Some (Node_file n) \<and> n \<le> MAX_ENVELOPE_BYTES \<and> es_opens v \<and>
      es_reads v = Some bs \<and> length bs \<le> MAX_ENVELOPE_BYTES \<and> parse bs = Some raw \<and> \<not> has_long_array raw \<and>
      ResultEnvelopeSchema raw = Some e \<and> check_envelope loc e = Outbox_ok e)"
  by (auto simp: readResultEnvelope_def parse_envelope_def check_envelope_ok
      split: option.splits node.splits if_splits)

text \<open>
  C13: what is read as an envelope is about this attempt and its artifacts lie nowhere else. It comes
  from a regular file within the cap and names the task and the epoch at hand. Every artifact it
  lists resolves, after all the dots and mounts, to a path below the task's outbox or its worktree.
  Every changed file is a relative path, and where the location gives a worktree of the host it
  resolves below that; without one there is nothing to hold it against.
\<close>

theorem envelope_confined:
  assumes "readResultEnvelope parse loc v = Outbox_ok e" and "resolved_location loc"
  shows "en_task_id e = ol_taskId loc \<and> en_epoch e = ol_epoch loc \<and>
    (\<exists>n. es_lstat v = Some (Node_file n) \<and> n \<le> MAX_ENVELOPE_BYTES) \<and>
    (\<forall>a \<in> set (en_artifacts e). confined_artifact loc (af_path a)) \<and>
    (\<forall>f \<in> set (en_files_changed e). confined_change loc (fc_path f))"
  using assms
  by (auto simp: readResultEnvelope_ok check_envelope_ok artifactPathProblem_iff changedPathProblem_iff)


text \<open>A sample: an attempt of task \<open>t1\<close> and an envelope that lists one artifact and one change.\<close>

definition sample_location :: outbox_location where
  "sample_location = \<lparr>workerOutboxDir = [''outbox'', ''w1''], ol_taskId = ''t1'', ol_epoch = 2,
     containerWorkdir = ''/work'', hostWorkdir = Some [''home'', ''tree'']\<rparr>"

definition sample_envelope_json :: json where
  "sample_envelope_json = JObj [(''schema'', JStr ''pifleet.result/v1''), (''task_id'', JStr ''t1''),
     (''epoch'', JNum (js_int 2)), (''worker'', JStr ''w1''), (''status'', JStr ''success''),
     (''files_changed'', JArr [JObj [(''path'', JStr ''src/a.ts''), (''change'', JStr ''modified'')]]),
     (''artifacts'', JArr [JObj [(''kind'', JStr ''file''), (''path'', JStr ''/work/x/../b.txt'')]])]"

definition sample_envelope :: envelope where
  "sample_envelope = \<lparr>en_task_id = ''t1'', en_epoch = 2, en_worker = ''w1'', en_status = Success, en_summary = [],
     en_files_changed = [\<lparr>fc_path = ''src/a.ts'', fc_change = Change_modified, fc_lines_added = None, fc_lines_removed = None\<rparr>],
     en_commits = [], en_branch = None, en_commands_run = [], en_acceptance = [],
     en_artifacts = [\<lparr>af_kind = Artifact_file, af_path = ''/work/x/../b.txt''\<rparr>], en_blockers = [], en_notes = []\<rparr>"

definition sample_sight :: envelope_sight where
  "sample_sight = \<lparr>es_lstat = Some (Node_file 3), es_opens = True, es_reads = Some [123, 46, 125]\<rparr>"

lemma sample_envelope_reads: "ResultEnvelopeSchema sample_envelope_json = Some sample_envelope"
proof -
  have "workerId ''w1''" by code_simp
  then show ?thesis
    by (simp add: ResultEnvelopeSchema_def sample_envelope_json_def sample_envelope_def field_def default_field_def
        optional_field_def shortStr_def MAX_SHORT_def MAX_ITEMS_def natural_number_def max_safe_integer_def enum_of_def
        StatusSchema_def FileChangeSchema_def ArtifactRefSchema_def)
qed

lemma sample_envelope_checks: "check_envelope sample_location sample_envelope = Outbox_ok sample_envelope"
  by code_simp

lemma sample_location_resolved: "resolved_location sample_location"
  by code_simp

text \<open>The theorem at the sample: the envelope is read, and its two paths are where it says.\<close>

theorem envelope_confined_witness:
  "confined_artifact sample_location ''/work/x/../b.txt'' \<and> confined_change sample_location ''src/a.ts''"
proof -
  have "readResultEnvelope (\<lambda>_. Some sample_envelope_json) sample_location sample_sight = Outbox_ok sample_envelope"
    using sample_envelope_reads sample_envelope_checks
    by (simp add: readResultEnvelope_ok sample_sight_def MAX_ENVELOPE_BYTES_def sample_envelope_json_def
        items_def MAX_ITEMS_def)
  from envelope_confined [OF this sample_location_resolved] show ?thesis
    by (simp add: sample_envelope_def)
qed

section \<open>The scan of the outbox files\<close>

text \<open>
  The directory as \<open>readdir\<close> lists it, a directory that cannot be listed having no children, and
  what the file system answers about a path: where it resolves to, and what opening it without
  following a link yields.
\<close>

datatype entry =
    Entry_link string
  | Entry_dir string "entry list option"
  | Entry_file string
  | Entry_other string

datatype opened = Open_fails string | Stat_fails | Opened_regular nat | Opened_special

record world =
  realpath :: "host_path \<Rightarrow> host_path option"
  open_nofollow :: "host_path \<Rightarrow> opened"

datatype scan_refusal =
    Dir_symlink | Dir_not_directory | Scan_full | Scan_too_many | Not_opened string | Not_regular
  | Hard_link nat | Vanished | Link_unresolved | Link_escapes host_path | Path_unresolved | File_escapes host_path

record outbox_file =
  of_path :: host_path
  of_handle :: host_path

record scan =
  safe :: "outbox_file list"
  refused :: "(host_path \<times> scan_refusal) list"
  seen :: nat
  budgetSpent :: bool

definition MAX_HELD_DESCRIPTORS :: nat where "MAX_HELD_DESCRIPTORS = 128"
definition MAX_OUTBOX_ENTRIES :: nat where "MAX_OUTBOX_ENTRIES = 10000"

definition empty_scan :: scan where
  "empty_scan = \<lparr>safe = [], refused = [], seen = 0, budgetSpent = False\<rparr>"

definition refuse :: "host_path \<Rightarrow> scan_refusal \<Rightarrow> scan \<Rightarrow> scan" where
  "refuse p r s = s\<lparr>refused := refused s @ [(p, r)]\<rparr>"

definition holdIfSafe :: "world \<Rightarrow> host_path \<Rightarrow> host_path \<Rightarrow> scan \<Rightarrow> scan" where
  "holdIfSafe w reportAs target s =
    (if length (safe s) \<ge> MAX_HELD_DESCRIPTORS then (refuse reportAs Scan_full s)\<lparr>budgetSpent := True\<rparr>
     else case open_nofollow w target of
       Open_fails code \<Rightarrow> refuse reportAs (Not_opened code) s
     | Stat_fails \<Rightarrow> refuse reportAs Vanished s
     | Opened_special \<Rightarrow> refuse reportAs Not_regular s
     | Opened_regular nlink \<Rightarrow>
         if nlink > 1 then refuse reportAs (Hard_link nlink) s
         else s\<lparr>safe := safe s @ [\<lparr>of_path = reportAs, of_handle = target\<rparr>]\<rparr>)"

definition visit_link :: "world \<Rightarrow> host_path \<Rightarrow> host_path \<Rightarrow> scan \<Rightarrow> scan" where
  "visit_link w root_dir p s =
    (case realpath w p of
       None \<Rightarrow> refuse p Link_unresolved s
     | Some target \<Rightarrow>
         if \<not> resolvedWithin root_dir target then refuse p (Link_escapes target) s
         else holdIfSafe w p target s)"

definition visit_file :: "world \<Rightarrow> host_path \<Rightarrow> host_path \<Rightarrow> scan \<Rightarrow> scan" where
  "visit_file w root_dir p s =
    (case realpath w p of
       None \<Rightarrow> refuse p Path_unresolved s
     | Some target \<Rightarrow>
         if \<not> resolvedWithin root_dir target then refuse p (File_escapes target) s
         else holdIfSafe w p p s)"

fun walk :: "world \<Rightarrow> host_path \<Rightarrow> host_path \<Rightarrow> entry list \<Rightarrow> scan \<Rightarrow> scan" where
  "walk w root_dir dir [] s = s"
| "walk w root_dir dir (e # es) s =
    (if budgetSpent s then s
     else let s = s\<lparr>seen := seen s + 1\<rparr> in
       if seen s > MAX_OUTBOX_ENTRIES then refuse dir Scan_too_many s
       else case e of
         Entry_link name \<Rightarrow> walk w root_dir dir es (visit_link w root_dir (join_path dir name) s)
       | Entry_dir name None \<Rightarrow> walk w root_dir dir es s
       | Entry_dir name (Some es2) \<Rightarrow>
           walk w root_dir dir es (walk w root_dir (join_path dir name) es2 s)
       | Entry_file name \<Rightarrow> walk w root_dir dir es (visit_file w root_dir (join_path dir name) s)
       | Entry_other name \<Rightarrow> walk w root_dir dir es (refuse (join_path dir name) Not_regular s))"

text \<open>The two directories the scan starts from, checked in order, and then the walk.\<close>

record outbox_sight =
  os_task :: "node option"
  os_files :: "node option"
  os_listing :: "entry list option"

definition root_problem :: "node option \<Rightarrow> scan_refusal option option" where
  "root_problem n = (case n of
     None \<Rightarrow> Some None
   | Some Node_symlink \<Rightarrow> Some (Some Dir_symlink)
   | Some Node_directory \<Rightarrow> None
   | Some _ \<Rightarrow> Some (Some Dir_not_directory))"

fun check_roots :: "(host_path \<times> node option) list \<Rightarrow> scan + unit" where
  "check_roots [] = Inr ()"
| "check_roots ((dir, n) # ds) =
    (case root_problem n of
       None \<Rightarrow> check_roots ds
     | Some None \<Rightarrow> Inl empty_scan
     | Some (Some r) \<Rightarrow> Inl (refuse dir r empty_scan))"

definition scanOutboxFiles :: "world \<Rightarrow> outbox_sight \<Rightarrow> outbox_location \<Rightarrow> scan" where
  "scanOutboxFiles w sight loc =
    (let taskOutbox = task_outbox loc; filesRoot = join_path taskOutbox OUTBOX_FILES_DIR in
     case check_roots [(taskOutbox, os_task sight), (filesRoot, os_files sight)] of
       Inl s \<Rightarrow> s
     | Inr _ \<Rightarrow> (case realpath w taskOutbox of
         None \<Rightarrow> empty_scan
       | Some root_dir \<Rightarrow> (case os_listing sight of
           None \<Rightarrow> empty_scan
         | Some es \<Rightarrow> walk w root_dir filesRoot es empty_scan)))"


text \<open>
  A property of the scan that refusing, visiting and counting keep is kept by the walk; this is the
  induction the two theorems below rest on.
\<close>

lemma walk_keeps:
  assumes "P s"
    and counted: "\<And>n s. P s \<Longrightarrow> P (s\<lparr>seen := n\<rparr>)"
    and refuse: "\<And>p r s. P s \<Longrightarrow> P (refuse p r s)"
    and link: "\<And>p s. P s \<Longrightarrow> P (visit_link w root_dir p s)"
    and regular: "\<And>p s. P s \<Longrightarrow> P (visit_file w root_dir p s)"
  shows "P (walk w root_dir dir es s)"
  using assms(1) link regular
proof (induction w root_dir dir es s rule: walk.induct)
  case (2 w root_dir dir e es s)
  note keep = counted refuse "2.prems"(2,3)
  show ?case
  proof (cases "budgetSpent s \<or> seen s + 1 > MAX_OUTBOX_ENTRIES")
    case True
    then show ?thesis using "2.prems"(1) by (auto simp: Let_def intro: counted refuse)
  next
    case False
    show ?thesis
    proof (cases e)
      case (Entry_link name)
      then show ?thesis using False "2.prems"(1) by (simp add: Let_def "2.IH"(1) keep)
    next
      case (Entry_dir name sub)
      then show ?thesis using False "2.prems"(1) by (cases sub) (simp_all add: Let_def "2.IH"(2-4) keep)
    next
      case (Entry_file name)
      then show ?thesis using False "2.prems"(1) by (simp add: Let_def "2.IH"(5) keep)
    next
      case (Entry_other name)
      then show ?thesis using False "2.prems"(1) by (simp add: Let_def "2.IH"(6) keep)
    qed
  qed
qed simp


text \<open>
  What holding a file requires: it resolved to a path below the scanned directory, and the very
  handle that is kept was seen to be a regular file with a single link.
\<close>

definition held_safely :: "world \<Rightarrow> host_path \<Rightarrow> outbox_file \<Rightarrow> bool" where
  "held_safely w root_dir f \<longleftrightarrow>
    (case realpath w (of_path f) of None \<Rightarrow> False
     | Some target \<Rightarrow> below root_dir target \<and> (of_handle f = of_path f \<or> of_handle f = target)) \<and>
    (case open_nofollow w (of_handle f) of Opened_regular nlink \<Rightarrow> nlink \<le> 1 | _ \<Rightarrow> False)"

definition sound_scan :: "world \<Rightarrow> host_path \<Rightarrow> scan \<Rightarrow> bool" where
  "sound_scan w root_dir s \<longleftrightarrow>
    length (safe s) \<le> MAX_HELD_DESCRIPTORS \<and> list_all (held_safely w root_dir) (safe s)"

lemma sound_scan_simps [simp]:
  "sound_scan w root_dir (s\<lparr>seen := n\<rparr>) = sound_scan w root_dir s"
  "sound_scan w root_dir (s\<lparr>budgetSpent := b\<rparr>) = sound_scan w root_dir s"
  "sound_scan w root_dir (refuse p r s) = sound_scan w root_dir s"
  "sound_scan w root_dir empty_scan"
  by (simp_all add: sound_scan_def refuse_def empty_scan_def)

lemma sound_holdIfSafe:
  assumes "sound_scan w root_dir s" and "realpath w p = Some target" and "below root_dir target"
    and "h = p \<or> h = target"
  shows "sound_scan w root_dir (holdIfSafe w p h s)"
proof -
  have "sound_scan w root_dir (s\<lparr>safe := safe s @ [\<lparr>of_path = p, of_handle = h\<rparr>]\<rparr>)"
    if "length (safe s) < MAX_HELD_DESCRIPTORS" "open_nofollow w h = Opened_regular n" "n \<le> 1" for n
    using assms that by (auto simp: sound_scan_def held_safely_def)
  then show ?thesis using assms(1) by (auto simp: holdIfSafe_def split: opened.splits)
qed

lemma sound_walk:
  assumes "\<And>p q. realpath w p = Some q \<Longrightarrow> plain_path q" and "sound_scan w root_dir s"
  shows "sound_scan w root_dir (walk w root_dir dir es s)"
proof (rule walk_keeps)
  show "sound_scan w root_dir (visit_link w root_dir p s)" if "sound_scan w root_dir s" for p s
    using that assms(1) by (auto simp: visit_link_def within_below intro: sound_holdIfSafe split: option.splits)
  show "sound_scan w root_dir (visit_file w root_dir p s)" if "sound_scan w root_dir s" for p s
    using that assms(1) by (auto simp: visit_file_def within_below intro: sound_holdIfSafe split: option.splits)
qed (simp_all add: assms)

text \<open>
  C15: the scan never holds anything it should not. With a file system whose \<open>realpath\<close> returns
  resolved paths, at most 128 files are held open, and the handle of each is a regular file with a
  single link whose path resolves below the task's own outbox; so neither a symbolic link, nor a
  hard link, nor a device reaches the harvest from outside.
\<close>

theorem scan_holds_only_safe:
  assumes "\<And>p q. realpath w p = Some q \<Longrightarrow> plain_path q"
  shows "length (safe (scanOutboxFiles w sight loc)) \<le> 128 \<and>
    list_all (\<lambda>f. case realpath w (task_outbox loc) of None \<Rightarrow> False | Some base \<Rightarrow> held_safely w base f)
      (safe (scanOutboxFiles w sight loc))"
proof -
  have sound: "sound_scan w base (walk w base d es empty_scan)" for base d es
    by (rule sound_walk) (simp_all add: assms)
  have none: "safe (refuse p r empty_scan) = []" "safe empty_scan = []" for p r
    by (simp_all add: refuse_def empty_scan_def)
  show ?thesis
    using sound by (auto simp: scanOutboxFiles_def Let_def sound_scan_def MAX_HELD_DESCRIPTORS_def none
        split: option.splits)
qed

text \<open>The leaves of the tree the scan visits, and how many entries it counts.\<close>

fun leaves :: "host_path \<Rightarrow> entry list \<Rightarrow> host_path list" where
  "leaves dir [] = []"
| "leaves dir (Entry_dir name None # es) = leaves dir es"
| "leaves dir (Entry_dir name (Some es2) # es) = leaves (join_path dir name) es2 @ leaves dir es"
| "leaves dir (Entry_link name # es) = join_path dir name # leaves dir es"
| "leaves dir (Entry_file name # es) = join_path dir name # leaves dir es"
| "leaves dir (Entry_other name # es) = join_path dir name # leaves dir es"

fun entries :: "entry list \<Rightarrow> nat" where
  "entries [] = 0"
| "entries (Entry_dir name (Some es2) # es) = 1 + entries es2 + entries es"
| "entries (e # es) = 1 + entries es"

definition reported :: "scan \<Rightarrow> host_path multiset" where
  "reported s = image_mset of_path (mset (safe s)) + image_mset fst (mset (refused s))"

lemma reported_seen [simp]: "reported (s\<lparr>seen := n\<rparr>) = reported s"
  by (simp add: reported_def)

lemma holdIfSafe_reports:
  "length (safe s) < MAX_HELD_DESCRIPTORS \<Longrightarrow>
    reported (holdIfSafe w p h s) = add_mset p (reported s) \<and> length (safe (holdIfSafe w p h s)) \<le> Suc (length (safe s)) \<and>
    seen (holdIfSafe w p h s) = seen s \<and> budgetSpent (holdIfSafe w p h s) = budgetSpent s"
  by (auto simp: holdIfSafe_def reported_def refuse_def split: opened.splits)

lemma visit_reports:
  assumes "length (safe s) < MAX_HELD_DESCRIPTORS" and "t = visit_link w base p s \<or> t = visit_file w base p s \<or> t = refuse p r s"
  shows "reported t = add_mset p (reported s) \<and> length (safe t) \<le> Suc (length (safe s)) \<and>
    seen t = seen s \<and> budgetSpent t = budgetSpent s"
proof -
  note held = holdIfSafe_reports [OF assms(1), of w p]
  have refused: "reported (refuse p r s) = add_mset p (reported s) \<and> length (safe (refuse p r s)) \<le> Suc (length (safe s)) \<and>
    seen (refuse p r s) = seen s \<and> budgetSpent (refuse p r s) = budgetSpent s" for r
    by (simp add: reported_def refuse_def)
  from assms(2) show ?thesis
    using held refused by (auto simp: visit_link_def visit_file_def split: option.splits if_splits)
qed


lemma walk_reports:
  assumes "\<not> budgetSpent s" and "seen s + entries es \<le> MAX_OUTBOX_ENTRIES"
    and "length (safe s) + length (leaves dir es) \<le> MAX_HELD_DESCRIPTORS"
  shows "reported (walk w base dir es s) = reported s + mset (leaves dir es) \<and>
    seen (walk w base dir es s) = seen s + entries es \<and> \<not> budgetSpent (walk w base dir es s) \<and>
    length (safe (walk w base dir es s)) \<le> length (safe s) + length (leaves dir es)"
  using assms
proof (induction w base dir es s rule: walk.induct)
  case (2 w base dir e es s)
  let ?s = "s\<lparr>seen := seen s + 1\<rparr>"
  have leaf: "reported (walk w base dir es t) = reported s + mset (join_path dir name # leaves dir es) \<and>
      seen (walk w base dir es t) = seen s + (1 + entries es) \<and> \<not> budgetSpent (walk w base dir es t) \<and>
      length (safe (walk w base dir es t)) \<le> length (safe s) + length (join_path dir name # leaves dir es)"
    if t: "t = visit_link w base (join_path dir name) ?s \<or> t = visit_file w base (join_path dir name) ?s \<or>
        t = refuse (join_path dir name) Not_regular ?s"
      and IH: "\<not> budgetSpent t \<Longrightarrow> seen t + entries es \<le> MAX_OUTBOX_ENTRIES \<Longrightarrow>
        length (safe t) + length (leaves dir es) \<le> MAX_HELD_DESCRIPTORS \<Longrightarrow>
        reported (walk w base dir es t) = reported t + mset (leaves dir es) \<and>
        seen (walk w base dir es t) = seen t + entries es \<and> \<not> budgetSpent (walk w base dir es t) \<and>
        length (safe (walk w base dir es t)) \<le> length (safe t) + length (leaves dir es)"
      and room: "seen s + (1 + entries es) \<le> MAX_OUTBOX_ENTRIES"
        "length (safe s) + length (join_path dir name # leaves dir es) \<le> MAX_HELD_DESCRIPTORS" for t name
  proof -
    have "length (safe ?s) < MAX_HELD_DESCRIPTORS" using room(2) by simp
    from visit_reports [OF this t] IH room "2.prems"(1) show ?thesis by simp
  qed
  show ?case
  proof (cases e)
    case (Entry_link name)
    then show ?thesis using "2.prems" "2.IH"(1) leaf [of "visit_link w base (join_path dir name) ?s" name]
      by (simp add: Let_def)
  next
    case (Entry_dir name sub)
    show ?thesis
    proof (cases sub)
      case None
      with Entry_dir show ?thesis using "2.prems" "2.IH"(2) by (simp add: Let_def)
    next
      case (Some es2)
      let ?t = "walk w base (join_path dir name) es2 ?s"
      note parts = Entry_dir Some
      have below: "reported ?t = reported s + mset (leaves (join_path dir name) es2) \<and>
          seen ?t = seen s + 1 + entries es2 \<and> \<not> budgetSpent ?t \<and>
          length (safe ?t) \<le> length (safe s) + length (leaves (join_path dir name) es2)"
        using "2.prems" "2.IH"(3) parts by simp
      then have "reported (walk w base dir es ?t) = reported ?t + mset (leaves dir es) \<and>
          seen (walk w base dir es ?t) = seen ?t + entries es \<and> \<not> budgetSpent (walk w base dir es ?t) \<and>
          length (safe (walk w base dir es ?t)) \<le> length (safe ?t) + length (leaves dir es)"
        using "2.prems" "2.IH"(4) parts by simp
      with below show ?thesis using "2.prems" parts by (simp add: Let_def)
    qed
  next
    case (Entry_file name)
    then show ?thesis using "2.prems" "2.IH"(5) leaf [of "visit_file w base (join_path dir name) ?s" name]
      by (simp add: Let_def)
  next
    case (Entry_other name)
    then show ?thesis using "2.prems" "2.IH"(6) leaf [of "refuse (join_path dir name) Not_regular ?s" name]
      by (simp add: Let_def)
  qed
qed simp


text \<open>
  Within its limits the scan loses nothing. When the two directories are there and listed, and
  the tree has no more entries and no more files than the caps, every file, link and special file
  of it is reported exactly once, either among the held files or among the refused ones.
\<close>

theorem scan_accounts_for_all:
  assumes "os_task sight = Some Node_directory" and "os_files sight = Some Node_directory"
    and "realpath w (task_outbox loc) = Some base" and "os_listing sight = Some es"
    and "entries es \<le> MAX_OUTBOX_ENTRIES"
    and "length (leaves (join_path (task_outbox loc) ''files'') es) \<le> MAX_HELD_DESCRIPTORS"
  shows "mset (map of_path (safe (scanOutboxFiles w sight loc))) + mset (map fst (refused (scanOutboxFiles w sight loc)))
    = mset (leaves (join_path (task_outbox loc) ''files'') es)"
  using walk_reports [of empty_scan es "join_path (task_outbox loc) ''files''" w base] assms
  by (simp add: scanOutboxFiles_def root_problem_def OUTBOX_FILES_DIR_def empty_scan_def reported_def)

text \<open>A tree with a plain file, a link out of the outbox, a hard link and a device.\<close>

definition sample_world :: world where
  "sample_world = \<lparr>
     realpath = (\<lambda>p. if p = [''outbox'', ''w1'', ''t1'', ''files'', ''out''] then Some [''etc'', ''passwd'']
       else Some [s \<leftarrow> p. plain_segment s]),
     open_nofollow = (\<lambda>p. if p = [''outbox'', ''w1'', ''t1'', ''files'', ''d'', ''hard''] then Opened_regular 2 else Opened_regular 1)\<rparr>"

definition sample_tree :: "entry list" where
  "sample_tree = [Entry_file ''a'', Entry_link ''out'', Entry_dir ''d'' (Some [Entry_file ''hard'']), Entry_other ''fifo'']"

definition sample_outbox :: outbox_sight where
  "sample_outbox = \<lparr>os_task = Some Node_directory, os_files = Some Node_directory, os_listing = Some sample_tree\<rparr>"

theorem scan_holds_only_safe_witness:
  "length (safe (scanOutboxFiles sample_world sample_outbox sample_location)) \<le> 128"
proof -
  have "plain_path q" if "realpath sample_world p = Some q" for p q
  proof -
    have "plain_path [''etc'', ''passwd'']" "plain_path [s \<leftarrow> p. plain_segment s]"
      by (code_simp, simp add: plain_path_def list_all_iff)
    with that show ?thesis by (auto simp: sample_world_def split: if_splits)
  qed
  from scan_holds_only_safe [of sample_world sample_outbox sample_location, OF this] show ?thesis by simp
qed

theorem scan_accounts_for_all_witness:
  "length (safe (scanOutboxFiles sample_world sample_outbox sample_location)) +
    length (refused (scanOutboxFiles sample_world sample_outbox sample_location)) = 4"
proof -
  have sample: "realpath sample_world (task_outbox sample_location) = Some (task_outbox sample_location)"
    "size (mset (leaves (join_path (task_outbox sample_location) ''files'') sample_tree)) = 4" "entries sample_tree = 5"
    by code_simp+
  with scan_accounts_for_all [of sample_outbox sample_world sample_location "task_outbox sample_location" sample_tree]
  have "mset (map of_path (safe (scanOutboxFiles sample_world sample_outbox sample_location))) +
      mset (map fst (refused (scanOutboxFiles sample_world sample_outbox sample_location))) =
      mset (leaves (join_path (task_outbox sample_location) ''files'') sample_tree)"
    by (simp add: sample_outbox_def MAX_OUTBOX_ENTRIES_def MAX_HELD_DESCRIPTORS_def)
  from arg_cong [OF this, of size] sample(2) show ?thesis by simp
qed

end
