(* ===== verification/Secret_Sweep.thy ===== *)
theory Secret_Sweep
  imports Schema Task_Ids "HOL-Library.Sublist"
begin

text \<open>
  The sweep for known secrets over a document a worker wrote
  (\<open>src/harvest/observer-target-artifacts.ts\<close>): hiding every occurrence of every secret in a text,
  the two iterative walks over a raw document, and the schemas of the two observer documents. The
  lemmas show that the text is hidden exactly where a secret occurs, that both walks end, and that
  they find a secret exactly when the document holds one.
\<close>

section \<open>Hiding secrets in a text\<close>

definition occurs_at :: "string \<Rightarrow> string \<Rightarrow> nat \<Rightarrow> bool" where
  "occurs_at text n i \<longleftrightarrow> i + length n \<le> length text \<and> take (length n) (drop i text) = n"

text \<open>\<open>text.indexOf(n, i)\<close>, and \<open>text.includes(n)\<close>.\<close>

definition index_from :: "string \<Rightarrow> string \<Rightarrow> nat \<Rightarrow> nat option" where
  "index_from t n i = find (occurs_at t n) [i..<Suc (length t)]"

definition js_includes :: "string \<Rightarrow> string \<Rightarrow> bool" where
  "js_includes t n \<longleftrightarrow> index_from t n 0 \<noteq> None"

lemma find_upt:
  "find P [a..<b] = Some j \<longleftrightarrow> a \<le> j \<and> j < b \<and> P j \<and> (\<forall>k. a \<le> k \<and> k < j \<longrightarrow> \<not> P k)"
proof (induction "b - a" arbitrary: a)
  case 0
  then show ?case by simp
next
  case (Suc d)
  then have unfold: "[a..<b] = a # [Suc a..<b]" by (simp add: upt_conv_Cons)
  show ?case
  proof (cases "P a")
    case True
    have "j = a" if "a \<le> j" "\<forall>k. a \<le> k \<and> k < j \<longrightarrow> \<not> P k" using that True by (metis le_neq_implies_less le_refl)
    with True Suc.hyps show ?thesis by (auto simp: unfold)
  next
    case False
    have "find P [Suc a..<b] = Some j \<longleftrightarrow>
        Suc a \<le> j \<and> j < b \<and> P j \<and> (\<forall>k. Suc a \<le> k \<and> k < j \<longrightarrow> \<not> P k)"
      using Suc by simp
    also have "\<dots> \<longleftrightarrow> a \<le> j \<and> j < b \<and> P j \<and> (\<forall>k. a \<le> k \<and> k < j \<longrightarrow> \<not> P k)"
      using False by (metis Suc_leI Suc_le_lessD le_neq_implies_less le_refl less_imp_le)
    finally show ?thesis using False by (simp add: unfold)
  qed
qed

lemma index_from_Some:
  "index_from t n i = Some j \<longleftrightarrow> i \<le> j \<and> occurs_at t n j \<and> (\<forall>k. i \<le> k \<and> k < j \<longrightarrow> \<not> occurs_at t n k)"
proof -
  have "occurs_at t n j \<Longrightarrow> j < Suc (length t)" by (simp add: occurs_at_def)
  then show ?thesis unfolding index_from_def find_upt by blast
qed

lemma index_from_None: "index_from t n i = None \<longleftrightarrow> (\<forall>k. i \<le> k \<longrightarrow> \<not> occurs_at t n k)"
proof -
  have "index_from t n i = None \<longleftrightarrow> (\<forall>k \<in> {i..<Suc (length t)}. \<not> occurs_at t n k)"
    by (auto simp: index_from_def find_None_iff simp del: upt_Suc)
  also have "\<dots> \<longleftrightarrow> (\<forall>k. i \<le> k \<longrightarrow> \<not> occurs_at t n k)"
    by (auto simp: occurs_at_def)
  finally show ?thesis .
qed

lemma includes_iff: "js_includes t n \<longleftrightarrow> (\<exists>i. occurs_at t n i)"
  by (simp add: js_includes_def index_from_None)

lemma includes_sublist: "js_includes t n \<longleftrightarrow> sublist n t"
proof
  assume "js_includes t n"
  then obtain i where "take (length n) (drop i t) = n" by (auto simp: includes_iff occurs_at_def)
  then have "drop i t = n @ drop (length n) (drop i t)" by (metis append_take_drop_id)
  then have "t = take i t @ n @ drop (length n) (drop i t)" by (metis append_take_drop_id)
  then show "sublist n t" by (metis sublist_def)
next
  assume "sublist n t"
  then obtain ps ss where "t = ps @ n @ ss" by (auto simp: sublist_def)
  then have "occurs_at t n (length ps)" by (simp add: occurs_at_def)
  then show "js_includes t n" by (auto simp: includes_iff)
qed

text \<open>
  The matches of one needle, overlapping ones folded into one span as they are found. \<open>None\<close>
  stands for the \<open>-1\<close> of both the search and the open span.
\<close>

function span_loop :: "string \<Rightarrow> string \<Rightarrow> nat option \<Rightarrow> (nat \<times> nat) option \<Rightarrow> (nat \<times> nat) list \<Rightarrow> (nat \<times> nat) list" where
  "span_loop t n None open_span spans = (case open_span of None \<Rightarrow> spans | Some sp \<Rightarrow> spans @ [sp])"
| "span_loop t n (Some i) None spans =
    span_loop t n (index_from t n (i + 1)) (Some (i, i + length n)) spans"
| "span_loop t n (Some i) (Some (start, stop)) spans =
    (if i \<ge> stop then span_loop t n (index_from t n (i + 1)) (Some (i, i + length n)) (spans @ [(start, stop)])
     else span_loop t n (index_from t n (i + 1)) (Some (start, i + length n)) spans)"
  by pat_completeness auto
termination
proof (relation "measure (\<lambda>(t, n, i, _). case i of None \<Rightarrow> 0 | Some i \<Rightarrow> Suc (Suc (Suc (length t)) - i))")
qed (auto simp: index_from_Some occurs_at_def split: option.splits)

definition blank :: "string \<Rightarrow> bool" where
  "blank s \<longleftrightarrow> trim_string s = []"

definition needle_spans :: "string \<Rightarrow> string \<Rightarrow> (nat \<times> nat) list" where
  "needle_spans t n = (if blank n then [] else span_loop t n (index_from t n 0) None [])"

definition slice :: "string \<Rightarrow> nat \<Rightarrow> nat \<Rightarrow> string" where
  "slice t a b = take (b - a) (drop a t)"

definition redacted_mark :: string where "redacted_mark = ''<redacted>''"

fun redact_loop :: "string \<Rightarrow> string \<Rightarrow> nat \<Rightarrow> nat \<Rightarrow> nat \<Rightarrow> (nat \<times> nat) list \<Rightarrow> string" where
  "redact_loop t out emitted start stop [] = out @ slice t emitted start @ redacted_mark @ drop stop t"
| "redact_loop t out emitted start stop ((s, e) # spans) =
    (if s < stop then redact_loop t out emitted start (max stop e) spans
     else redact_loop t (out @ slice t emitted start @ redacted_mark) stop s e spans)"

definition redactSecrets :: "string \<Rightarrow> string list \<Rightarrow> string" where
  "redactSecrets t secrets =
    (case sort_key fst (concat (map (needle_spans t) secrets)) of
       [] \<Rightarrow> t
     | (start, stop) # spans \<Rightarrow> redact_loop t [] 0 start stop ((start, stop) # spans))"


text \<open>
  What the result should be: the text with some blocks cut out and a mark in the place of each. The
  blocks are in order, apart or touching, none is empty, and together they are what has to be hidden.
\<close>

fun render :: "string \<Rightarrow> nat \<Rightarrow> (nat \<times> nat) list \<Rightarrow> string" where
  "render t a [] = drop a t"
| "render t a ((s, e) # blocks) = slice t a s @ redacted_mark @ render t e blocks"

fun apart :: "nat \<Rightarrow> (nat \<times> nat) list \<Rightarrow> bool" where
  "apart a [] \<longleftrightarrow> True"
| "apart a ((s, e) # blocks) \<longleftrightarrow> a \<le> s \<and> s < e \<and> apart e blocks"

definition positions :: "(nat \<times> nat) list \<Rightarrow> nat set" where
  "positions spans = (\<Union>(s, e) \<in> set spans. {s..<e})"

definition secret_positions :: "string \<Rightarrow> string list \<Rightarrow> nat set" where
  "secret_positions t secrets =
    {p. \<exists>n \<in> set secrets. \<not> blank n \<and> (\<exists>i. occurs_at t n i \<and> i \<le> p \<and> p < i + length n)}"

lemma positions_simps [simp]:
  "positions [] = {}"
  "positions ((s, e) # spans) = {s..<e} \<union> positions spans"
  "positions (xs @ ys) = positions xs \<union> positions ys"
  by (auto simp: positions_def)

lemma positions_set: "set xs = set ys \<Longrightarrow> positions xs = positions ys"
  by (simp add: positions_def)

lemma nonblank_nonempty: "\<not> blank n \<Longrightarrow> n \<noteq> []"
  by (auto simp: blank_def trim_string_def)

text \<open>The loop over one needle: the open span ends behind everything found so far.\<close>

definition span_of :: "(nat \<times> nat) option \<Rightarrow> (nat \<times> nat) list" where
  "span_of sp = (case sp of None \<Rightarrow> [] | Some se \<Rightarrow> [se])"

lemma span_of_simps [simp]: "span_of None = []" "span_of (Some se) = [se]"
  by (simp_all add: span_of_def)

text \<open>What is still to be found from a match on: this match, and what the next search finds.\<close>

definition hidden_from :: "string \<Rightarrow> string \<Rightarrow> nat option \<Rightarrow> nat set" where
  "hidden_from t n found =
    {p. \<exists>i k. found = Some i \<and> i \<le> k \<and> occurs_at t n k \<and> k \<le> p \<and> p < k + length n}"

lemma hidden_from_simps [simp]:
  "hidden_from t n None = {}"
  "hidden_from t n (Some i) = (\<Union>k \<in> {k. i \<le> k \<and> occurs_at t n k}. {k..<k + length n})"
  by (auto simp: hidden_from_def)

lemma hidden_from_step:
  assumes "occurs_at t n i"
  shows "hidden_from t n (Some i) = {i..<i + length n} \<union> hidden_from t n (index_from t n (Suc i))"
proof (cases "index_from t n (Suc i)")
  case None
  then have "{k. i \<le> k \<and> occurs_at t n k} = {i}"
    using assms by (auto simp: index_from_None Suc_le_eq dest: le_neq_implies_less)
  then show ?thesis using None by simp
next
  case (Some j)
  then have j: "Suc i \<le> j" "\<And>k. Suc i \<le> k \<Longrightarrow> k < j \<Longrightarrow> \<not> occurs_at t n k"
    by (auto simp: index_from_Some)
  have "{k. i \<le> k \<and> occurs_at t n k} = insert i {k. j \<le> k \<and> occurs_at t n k}"
    using assms j by (auto simp: Suc_le_eq) (metis le_neq_implies_less not_less)
  then show ?thesis using Some by (simp del: UN_simps)
qed

lemma span_loop_positions:
  assumes "n \<noteq> []" and "\<And>i. found = Some i \<Longrightarrow> occurs_at t n i"
    and "\<And>s e i. open_span = Some (s, e) \<Longrightarrow> s < e \<and> (found = Some i \<longrightarrow> s < i \<and> e < i + length n)"
    and "\<forall>(s, e) \<in> set spans. s < e"
  shows "positions (span_loop t n found open_span spans) =
      positions spans \<union> positions (span_of open_span) \<union> hidden_from t n found \<and>
    (\<forall>(s, e) \<in> set (span_loop t n found open_span spans). s < e)"
  using assms
proof (induction t n found open_span spans rule: span_loop.induct)
  case (1 t n open_span spans)
  then show ?case by (auto split: option.splits)
next
  case (2 t n i spans)
  have IH: "positions (span_loop t n (index_from t n (i + 1)) (Some (i, i + length n)) spans) =
      positions spans \<union> positions (span_of (Some (i, i + length n))) \<union> hidden_from t n (index_from t n (i + 1)) \<and>
      (\<forall>(s, e) \<in> set (span_loop t n (index_from t n (i + 1)) (Some (i, i + length n)) spans). s < e)"
    using "2.prems" by (intro "2.IH") (auto simp: index_from_Some)
  then show ?case using "2.prems"(2) by (simp add: hidden_from_step Un_assoc del: hidden_from_simps(2))
next
  case (3 t n i start stop spans)
  note step = hidden_from_step [OF "3.prems"(2) [OF refl]]
  have bounds: "start < stop" "start < i" "stop < i + length n" using "3.prems"(3) [of start stop i] by simp_all
  show ?case
  proof (cases "stop \<le> i")
    case True
    have "positions (span_loop t n (index_from t n (i + 1)) (Some (i, i + length n)) (spans @ [(start, stop)])) =
      positions (spans @ [(start, stop)]) \<union> positions (span_of (Some (i, i + length n))) \<union> hidden_from t n (index_from t n (i + 1)) \<and>
      (\<forall>(s, e) \<in> set (span_loop t n (index_from t n (i + 1)) (Some (i, i + length n)) (spans @ [(start, stop)])). s < e)"
      using "3.prems" bounds True by (intro "3.IH"(1)) (auto simp: index_from_Some)
    then show ?thesis using True by (simp add: step Un_assoc del: hidden_from_simps(2))
  next
    case False
    have "positions (span_loop t n (index_from t n (i + 1)) (Some (start, i + length n)) spans) =
      positions spans \<union> positions (span_of (Some (start, i + length n))) \<union> hidden_from t n (index_from t n (i + 1)) \<and>
      (\<forall>(s, e) \<in> set (span_loop t n (index_from t n (i + 1)) (Some (start, i + length n)) spans). s < e)"
      using "3.prems" bounds False by (intro "3.IH"(2)) (auto simp: index_from_Some)
    moreover have "{start..<i + length n} = {start..<stop} \<union> {i..<i + length n}" using False bounds by auto
    ultimately show ?thesis using False by (simp add: step Un_assoc del: hidden_from_simps(2))
  qed
qed


lemma needle_spans_positions:
  "positions (needle_spans t n) = (if blank n then {} else {p. \<exists>i. occurs_at t n i \<and> i \<le> p \<and> p < i + length n})"
  "\<forall>(s, e) \<in> set (needle_spans t n). s < e"
proof -
  have "positions (needle_spans t n) = (if blank n then {} else {p. \<exists>i. occurs_at t n i \<and> i \<le> p \<and> p < i + length n}) \<and>
      (\<forall>(s, e) \<in> set (needle_spans t n). s < e)"
  proof (cases "blank n")
    case False
    then have "positions (span_loop t n (index_from t n 0) None []) =
        positions [] \<union> positions (span_of None) \<union> hidden_from t n (index_from t n 0) \<and>
        (\<forall>(s, e) \<in> set (span_loop t n (index_from t n 0) None []). s < e)"
      by (intro span_loop_positions) (auto simp: nonblank_nonempty index_from_Some)
    moreover have "hidden_from t n (index_from t n 0) = {p. \<exists>i. occurs_at t n i \<and> i \<le> p \<and> p < i + length n}"
    proof (cases "index_from t n 0")
      case None
      moreover from None have "\<forall>k. \<not> occurs_at t n k" by (simp add: index_from_None)
      ultimately show ?thesis by simp
    next
      case (Some j)
      then have "occurs_at t n k \<Longrightarrow> j \<le> k" for k by (auto simp: index_from_Some not_less [symmetric])
      then have "{k. j \<le> k \<and> occurs_at t n k} = {k. occurs_at t n k}" by blast
      with Some show ?thesis by auto
    qed
    ultimately show ?thesis using False by (simp add: needle_spans_def)
  qed (simp add: needle_spans_def)
  then show "positions (needle_spans t n) = (if blank n then {} else {p. \<exists>i. occurs_at t n i \<and> i \<le> p \<and> p < i + length n})"
    and "\<forall>(s, e) \<in> set (needle_spans t n). s < e" by blast+
qed

lemma redact_loop_blocks:
  assumes "emitted \<le> start" and "start < stop" and "sorted (map fst spans)"
    and "\<forall>(s, e) \<in> set spans. start \<le> s \<and> s < e"
  shows "\<exists>blocks. redact_loop t out emitted start stop spans = out @ render t emitted blocks \<and>
    apart emitted blocks \<and> positions blocks = {start..<stop} \<union> positions spans"
  using assms
proof (induction t out emitted start stop spans rule: redact_loop.induct)
  case (1 t out emitted start stop)
  then show ?case by (intro exI [of _ "[(start, stop)]"]) simp
next
  case (2 t out emitted start stop s e spans)
  have s: "start \<le> s" "s < e" "sorted (map fst spans)" "\<forall>(s', e') \<in> set spans. s \<le> s' \<and> s' < e'"
    using "2.prems" by auto
  show ?case
  proof (cases "s < stop")
    case True
    have "\<exists>blocks. redact_loop t out emitted start (max stop e) spans = out @ render t emitted blocks \<and>
        apart emitted blocks \<and> positions blocks = {start..<max stop e} \<union> positions spans"
      using "2.prems" s by (intro "2.IH"(1) True) auto
    moreover have "{start..<max stop e} = {start..<stop} \<union> {s..<e}" using True s "2.prems"(2) by auto
    ultimately show ?thesis using True by (simp add: Un_assoc)
  next
    case False
    have "\<exists>blocks. redact_loop t (out @ slice t emitted start @ redacted_mark) stop s e spans =
        (out @ slice t emitted start @ redacted_mark) @ render t stop blocks \<and>
        apart stop blocks \<and> positions blocks = {s..<e} \<union> positions spans"
      using "2.prems" s False by (intro "2.IH"(2)) auto
    then obtain blocks where "redact_loop t (out @ slice t emitted start @ redacted_mark) stop s e spans =
        (out @ slice t emitted start @ redacted_mark) @ render t stop blocks"
      "apart stop blocks" "positions blocks = {s..<e} \<union> positions spans" by blast
    then show ?thesis using False "2.prems" by (intro exI [of _ "(start, stop) # blocks"]) simp
  qed
qed

text \<open>
  C12: redaction hides exactly the secrets. The result is the text with a list of disjoint blocks cut
  out and \<open><redacted>\<close> in the place of each, and the positions in the blocks are exactly those some
  occurrence of some secret covers, overlapping occurrences included: nothing of a secret stays
  visible, whatever the order of the secrets, and nothing else is hidden. Blank secrets count for
  nothing.
\<close>

theorem redaction_exact:
  "\<exists>blocks. redactSecrets t secrets = render t 0 blocks \<and> apart 0 blocks \<and>
    positions blocks = secret_positions t secrets"
proof -
  let ?spans = "concat (map (needle_spans t) secrets)"
  have pos: "positions (sort_key fst ?spans) = secret_positions t secrets"
  proof -
    have "positions (sort_key fst ?spans) = positions ?spans" by (rule positions_set) simp
    also have "\<dots> = (\<Union>n \<in> set secrets. positions (needle_spans t n))" by (simp add: positions_def)
    also have "\<dots> = secret_positions t secrets"
      by (auto simp: needle_spans_positions(1) secret_positions_def)
    finally show ?thesis .
  qed
  have spans: "\<forall>(s, e) \<in> set (sort_key fst ?spans). s < e" "sorted (map fst (sort_key fst ?spans))"
    using needle_spans_positions(2) by fastforce+
  show ?thesis
  proof (cases "sort_key fst ?spans")
    case Nil
    then show ?thesis using pos by (intro exI [of _ "[]"]) (simp add: redactSecrets_def)
  next
    case (Cons sp spans')
    then obtain start stop where sp: "sort_key fst ?spans = (start, stop) # spans'" by (cases sp) auto
    have "\<exists>blocks. redact_loop t [] 0 start stop ((start, stop) # spans') = [] @ render t 0 blocks \<and>
        apart 0 blocks \<and> positions blocks = {start..<stop} \<union> positions ((start, stop) # spans')"
      using spans by (intro redact_loop_blocks) (auto simp: sp)
    then show ?thesis using pos sp by (simp add: redactSecrets_def)
  qed
qed


section \<open>The two walks over a raw document\<close>

datatype seg = Key string | Index nat

text \<open>What a cursor steps over: the values of an array, the entries of an object.\<close>

fun children :: "json \<Rightarrow> (seg \<times> json) list" where
  "children (JArr vs) = zip (map Index [0..<length vs]) vs"
| "children (JObj ps) = map (\<lambda>(k, v). (Key k, v)) ps"
| "children _ = []"

text \<open>
  A frame of the walk's own stack: the segment it was entered by and what its cursor has still to
  visit. The stack has its top first.
\<close>

record frame =
  f_seg :: "seg option"
  f_rest :: "(seg \<times> json) list"

definition MAX_SWEEP_DEPTH :: nat where "MAX_SWEEP_DEPTH = 32768"
definition MAX_NAMED_LEAKS :: nat where "MAX_NAMED_LEAKS = 5"

datatype sweep_error = Too_deep

definition enter :: "frame list \<Rightarrow> (seg \<times> json) list \<Rightarrow> seg option \<Rightarrow> sweep_error + frame list" where
  "enter stack rest sg =
    (if length stack \<ge> MAX_SWEEP_DEPTH then Inl Too_deep
     else Inr (\<lparr>f_seg = sg, f_rest = rest\<rparr> # stack))"

fun add_seg :: "string \<times> bool \<Rightarrow> seg option \<Rightarrow> string \<times> bool" where
  "add_seg (parts, blank_yet) None = (parts, blank_yet)"
| "add_seg (parts, blank_yet) (Some (Index i)) = (parts @ ''['' @ decimal i @ '']'', False)"
| "add_seg (parts, blank_yet) (Some (Key k)) = (if blank_yet then (parts @ k, k = []) else (parts @ ''.'' @ k, False))"

definition spellPath :: "frame list \<Rightarrow> seg option \<Rightarrow> string" where
  "spellPath stack final = fst (foldl add_seg ([], True) (map f_seg (rev stack) @ [final]))"

record leaks =
  named :: "string list"
  unnamed :: nat

definition no_leaks :: leaks where "no_leaks = \<lparr>named = [], unnamed = 0\<rparr>"

definition recorder :: "string \<Rightarrow> leaks \<Rightarrow> leaks" where
  "recorder path lk =
    (if length (named lk) \<ge> MAX_NAMED_LEAKS then lk\<lparr>unnamed := unnamed lk + 1\<rparr>
     else if path \<in> set (named lk) then lk
     else lk\<lparr>named := named lk @ [path]\<rparr>)"

definition or_root :: "string \<Rightarrow> string" where
  "or_root path = (if path = [] then ''<root>'' else path)"

lemma recorder_named [simp]: "named (recorder path lk) \<noteq> []"
  by (cases "named lk") (auto simp: recorder_def MAX_NAMED_LEAKS_def)

lemma children_smaller: "(sg, w) \<in> set (children v) \<Longrightarrow> size w < size v"
proof (cases v)
  case (JArr vs)
  assume "(sg, w) \<in> set (children v)"
  with JArr have "w \<in> set vs" by (auto dest: set_zip_rightD)
  with JArr show ?thesis by (simp add: size_list_estimation' less_Suc_eq_le)
next
  case (JObj ps)
  assume "(sg, w) \<in> set (children v)"
  with JObj obtain k where "(k, w) \<in> set ps" by auto
  then have "size w \<le> size_list (size_prod (\<lambda>_. 0) size) ps"
    by (rule size_list_estimation') simp
  with JObj show ?thesis by simp
qed auto

function weight :: "json \<Rightarrow> nat" where
  "weight v = 2 + sum_list (map (\<lambda>(sg, w). weight w) (children v))"
  by auto
termination by (relation "measure size") (auto simp: children_smaller)

declare weight.simps [simp del]

definition rest_weight :: "(seg \<times> json) list \<Rightarrow> nat" where
  "rest_weight vs = sum_list (map (\<lambda>(sg, w). weight w) vs)"

definition stack_weight :: "frame list \<Rightarrow> nat" where
  "stack_weight stack = sum_list (map (\<lambda>f. 1 + rest_weight (f_rest f)) stack)"

lemma stack_weight_simps [simp]:
  "stack_weight [] = 0"
  "stack_weight (f # stack) = 1 + rest_weight (f_rest f) + stack_weight stack"
  "rest_weight ((sg, v) # vs) = weight v + rest_weight vs"
  by (simp_all add: stack_weight_def rest_weight_def)

lemma weight_children: "rest_weight (children v) + 2 = weight v" "rest_weight (rev (children v)) + 2 = weight v"
  by (subst weight.simps, simp add: rest_weight_def rev_map [symmetric])+

function value_loop :: "(string \<Rightarrow> bool) \<Rightarrow> frame list \<Rightarrow> leaks \<Rightarrow> sweep_error + leaks" where
  "value_loop holds [] lk = Inr lk"
| "value_loop holds (frm # stack) lk =
    (case f_rest frm of
       [] \<Rightarrow> value_loop holds stack lk
     | (sg, v) # vs \<Rightarrow>
         (let frames = frm\<lparr>f_rest := vs\<rparr> # stack in
          case v of
            JStr s \<Rightarrow> value_loop holds frames
              (if holds s then recorder (or_root (spellPath frames (Some sg))) lk else lk)
          | _ \<Rightarrow>
              if is_object v then
                case enter frames (children v) (Some sg) of
                  Inl e \<Rightarrow> Inl e
                | Inr frames \<Rightarrow> value_loop holds frames lk
              else value_loop holds frames lk))"
  by pat_completeness auto
termination
  by (relation "measure (\<lambda>(holds, stack, lk). stack_weight stack)")
    (auto simp: enter_def weight_children [symmetric] split: if_splits)


definition own_keys :: "json \<Rightarrow> string list" where
  "own_keys v = (case v of JObj ps \<Rightarrow> map fst ps | _ \<Rightarrow> [])"

text \<open>
  The walk over the keys visits an object before its children and the children from the last one
  to the first; entering a node records the node when one of its keys holds a secret.
\<close>

definition visit_keys ::
  "(string \<Rightarrow> bool) \<Rightarrow> frame list \<Rightarrow> leaks \<Rightarrow> json \<Rightarrow> seg option \<Rightarrow> sweep_error + frame list \<times> leaks" where
  "visit_keys holds stack lk v sg =
    (case enter stack (rev (children v)) sg of
       Inl e \<Rightarrow> Inl e
     | Inr frames \<Rightarrow> Inr (frames,
         if list_ex holds (own_keys v) then recorder (''a key under '' @ or_root (spellPath frames None)) lk else lk))"

function key_loop :: "(string \<Rightarrow> bool) \<Rightarrow> frame list \<Rightarrow> leaks \<Rightarrow> sweep_error + leaks" where
  "key_loop holds [] lk = Inr lk"
| "key_loop holds (frm # stack) lk =
    (case f_rest frm of
       [] \<Rightarrow> key_loop holds stack lk
     | (sg, v) # vs \<Rightarrow>
         (let frames = frm\<lparr>f_rest := vs\<rparr> # stack in
          if is_object v then
            case visit_keys holds frames lk v (Some sg) of
              Inl e \<Rightarrow> Inl e
            | Inr (frames, lk) \<Rightarrow> key_loop holds frames lk
          else key_loop holds frames lk))"
  by pat_completeness auto
termination
  by (relation "measure (\<lambda>(holds, stack, lk). stack_weight stack)")
    (auto simp: enter_def visit_keys_def weight_children(2) [symmetric] weight.simps split: if_splits)

definition findSecretValues :: "json \<Rightarrow> string list \<Rightarrow> leaks \<Rightarrow> sweep_error + leaks" where
  "findSecretValues raw needles lk =
    (let holds = (\<lambda>s. list_ex (js_includes s) needles) in
     case raw of
       JStr s \<Rightarrow> Inr (if holds s then recorder ''<root>'' lk else lk)
     | _ \<Rightarrow>
         if \<not> is_object raw then Inr lk
         else case enter [] (children raw) None of
           Inl e \<Rightarrow> Inl e
         | Inr frames \<Rightarrow> value_loop holds frames lk)"

definition findSecretKeys :: "json \<Rightarrow> string list \<Rightarrow> leaks \<Rightarrow> sweep_error + leaks" where
  "findSecretKeys raw needles lk =
    (let holds = (\<lambda>s. list_ex (js_includes s) needles) in
     if \<not> is_object raw then Inr lk
     else case visit_keys holds [] lk raw None of
       Inl e \<Rightarrow> Inl e
     | Inr (frames, lk) \<Rightarrow> key_loop holds frames lk)"

datatype refusal_cause = Sweep_depth | Credential leaks | Schema_fails

definition sweepThenParse :: "(json \<Rightarrow> 'a option) \<Rightarrow> json \<Rightarrow> string list \<Rightarrow> refusal_cause + 'a" where
  "sweepThenParse schema raw secrets =
    (let needles = [s \<leftarrow> secrets. \<not> blank s];
         parsed = (case schema raw of None \<Rightarrow> Inl Schema_fails | Some d \<Rightarrow> Inr d)
     in if needles = [] then parsed
        else case findSecretValues raw needles no_leaks of
          Inl _ \<Rightarrow> Inl Sweep_depth
        | Inr lk \<Rightarrow> (case findSecretKeys raw needles lk of
            Inl _ \<Rightarrow> Inl Sweep_depth
          | Inr lk \<Rightarrow> if named lk \<noteq> [] then Inl (Credential lk) else parsed))"


text \<open>What a document holds, written without a stack: its string values, its keys and its depth.\<close>

function strings_in :: "json \<Rightarrow> string set" where
  "strings_in v = (case v of JStr s \<Rightarrow> {s} | _ \<Rightarrow> {}) \<union> (\<Union>(sg, w) \<in> set (children v). strings_in w)"
  by auto
termination by (relation "measure size") (auto simp: children_smaller)

function keys_in :: "json \<Rightarrow> string set" where
  "keys_in v = set (own_keys v) \<union> (\<Union>(sg, w) \<in> set (children v). keys_in w)"
  by auto
termination by (relation "measure size") (auto simp: children_smaller)

function jdepth :: "json \<Rightarrow> nat" where
  "jdepth v = (if is_object v then Suc (Max (insert 0 ((\<lambda>(sg, w). jdepth w) ` set (children v)))) else 0)"
  by auto
termination by (relation "measure size") (auto simp: children_smaller)

declare strings_in.simps [simp del] keys_in.simps [simp del] jdepth.simps [simp del]

lemma children_scalar: "\<not> is_object v \<Longrightarrow> children v = []"
  by (cases v) auto

lemma strings_in_object: "is_object v \<Longrightarrow> strings_in v = (\<Union>(sg, w) \<in> set (children v). strings_in w)"
  by (subst strings_in.simps) (cases v; simp)

lemma strings_in_scalar: "\<not> is_object v \<Longrightarrow> strings_in v = (case v of JStr s \<Rightarrow> {s} | _ \<Rightarrow> {})"
  by (subst strings_in.simps) (cases v; simp)

lemma keys_in_scalar: "\<not> is_object v \<Longrightarrow> keys_in v = {}"
  by (subst keys_in.simps) (cases v; simp add: own_keys_def)

lemma children_array: "(\<Union>(sg, w) \<in> set (children (JArr vs)). g w) = (\<Union>w \<in> set vs. g w)" for g :: "json \<Rightarrow> 'a set"
proof -
  have "snd ` set (children (JArr vs)) = set vs" by (simp add: set_map [symmetric] del: set_map)
  then show ?thesis by (simp add: case_prod_beta) (metis image_image)
qed

lemma strings_in_cases:
  "strings_in (JObj ps) = (\<Union>(k, w) \<in> set ps. strings_in w)"
  "strings_in (JArr vs) = (\<Union>w \<in> set vs. strings_in w)"
  "strings_in (JStr s) = {s}" "strings_in JNull = {}" "strings_in (JBool b) = {}" "strings_in (JNum n) = {}"
  using children_array [of strings_in vs] by (auto simp: strings_in_object strings_in_scalar)

lemma keys_in_cases:
  "keys_in (JObj ps) = fst ` set ps \<union> (\<Union>(k, w) \<in> set ps. keys_in w)"
  "keys_in (JArr vs) = (\<Union>w \<in> set vs. keys_in w)"
  "keys_in (JStr s) = {}" "keys_in JNull = {}" "keys_in (JBool b) = {}" "keys_in (JNum n) = {}"
  using children_array [of keys_in vs]
  by (auto simp: keys_in.simps [of "JObj ps"] keys_in.simps [of "JArr vs"] keys_in_scalar own_keys_def)

lemma js_includes_chars: "js_includes s n \<Longrightarrow> set n \<subseteq> set s"
  by (auto simp: includes_sublist dest: set_mono_sublist)

lemma jdepth_scalar [simp]: "\<not> is_object v \<Longrightarrow> jdepth v = 0"
  by (simp add: jdepth.simps)

lemma jdepth_object:
  assumes "is_object v"
  shows "a + jdepth v \<le> m \<longleftrightarrow> a < m \<and> (\<forall>(sg, w) \<in> set (children v). is_object w \<longrightarrow> Suc a + jdepth w \<le> m)"
proof -
  have "jdepth v \<le> d \<longleftrightarrow> 0 < d \<and> (\<forall>(sg, w) \<in> set (children v). Suc (jdepth w) \<le> d)" for d
    using assms by (cases d) (auto simp: jdepth.simps [of v])
  from this [of "m - a"] have "a + jdepth v \<le> m \<longleftrightarrow> a < m \<and> (\<forall>(sg, w) \<in> set (children v). Suc a + jdepth w \<le> m)"
    by fastforce
  also have "\<dots> \<longleftrightarrow> a < m \<and> (\<forall>(sg, w) \<in> set (children v). is_object w \<longrightarrow> Suc a + jdepth w \<le> m)"
    by (fastforce intro: jdepth_scalar)
  finally show ?thesis .
qed

lemma jdepth_object_Suc:
  "is_object v \<Longrightarrow> Suc (a + jdepth v) \<le> m \<longleftrightarrow>
    Suc a < m \<and> (\<forall>(sg, w) \<in> set (children v). is_object w \<longrightarrow> Suc (Suc (a + jdepth w)) \<le> m)"
  using jdepth_object [of v "Suc a" m] by simp

text \<open>A stack is within the bound when everything its cursors have still to visit is.\<close>

fun fits :: "frame list \<Rightarrow> bool" where
  "fits [] \<longleftrightarrow> True"
| "fits (f # stack) \<longleftrightarrow> (\<forall>(sg, w) \<in> set (f_rest f). is_object w \<longrightarrow> Suc (length stack) + jdepth w \<le> MAX_SWEEP_DEPTH) \<and> fits stack"

definition pending :: "(json \<Rightarrow> string set) \<Rightarrow> frame list \<Rightarrow> string set" where
  "pending g stack = (\<Union>f \<in> set stack. \<Union>(sg, w) \<in> set (f_rest f). g w)"

lemma pending_simps [simp]:
  "pending g [] = {}"
  "pending g (f # stack) = (\<Union>(sg, w) \<in> set (f_rest f). g w) \<union> pending g stack"
  by (simp_all add: pending_def)

declare value_loop.simps(2) [simp del] key_loop.simps(2) [simp del]

lemma value_loop_pop: "f_rest frm = [] \<Longrightarrow> value_loop holds (frm # stack) lk = value_loop holds stack lk"
  by (simp add: value_loop.simps)

lemma value_loop_enter:
  assumes "f_rest frm = (sg, v) # vs" and "is_object v"
  shows "value_loop holds (frm # stack) lk =
    (if Suc (length stack) < MAX_SWEEP_DEPTH
     then value_loop holds (\<lparr>f_seg = Some sg, f_rest = children v\<rparr> # frm\<lparr>f_rest := vs\<rparr> # stack) lk else Inl Too_deep)"
  using assms by (cases v) (simp_all add: value_loop.simps(2) Let_def enter_def)

lemma value_loop_scalar:
  assumes "f_rest frm = (sg, v) # vs" and "\<not> is_object v"
  shows "\<exists>lk'. value_loop holds (frm # stack) lk = value_loop holds (frm\<lparr>f_rest := vs\<rparr> # stack) lk' \<and>
    (named lk' = [] \<longleftrightarrow> named lk = [] \<and> (\<forall>s \<in> strings_in v. \<not> holds s))"
  using assms by (cases v) (auto simp: value_loop.simps(2) Let_def strings_in_scalar intro!: exI)

lemma value_loop_spec:
  "case value_loop holds stack lk of
     Inl _ \<Rightarrow> \<not> fits stack
   | Inr lk' \<Rightarrow> fits stack \<and> (named lk' = [] \<longleftrightarrow> named lk = [] \<and> (\<forall>s \<in> pending strings_in stack. \<not> holds s))"
proof (induction "stack_weight stack" arbitrary: stack lk rule: less_induct)
  case less
  show ?case
  proof (cases stack)
    case (Cons frm rest)
    show ?thesis
    proof (cases "f_rest frm")
      case Nil
      then show ?thesis using less [of rest lk] by (auto simp: Cons value_loop_pop split: sum.splits)
    next
      case child: (Cons c vs)
      obtain sg v where c: "f_rest frm = (sg, v) # vs" using child by (cases c) auto
      let ?frames = "frm\<lparr>f_rest := vs\<rparr> # rest"
      show ?thesis
      proof (cases "is_object v")
        case obj: True
        let ?new = "\<lparr>f_seg = Some sg, f_rest = children v\<rparr> # ?frames"
        have "stack_weight ?new < stack_weight stack" by (simp add: Cons c weight_children(1) [of v, symmetric])
        note IH = less [OF this, of lk]
        have "Suc (length rest) < MAX_SWEEP_DEPTH \<and> fits ?new \<longleftrightarrow> fits (frm # rest)"
          using obj by (auto simp: c jdepth_object_Suc)
        moreover have "pending strings_in (frm # rest) = pending strings_in ?new"
          using obj by (auto simp: c strings_in_object)
        ultimately show ?thesis
          using IH unfolding Cons value_loop_enter [OF c obj]
          by (auto split: sum.splits if_splits simp del: fits.simps pending_simps)
      next
        case scalar: False
        obtain lk' where lk': "value_loop holds (frm # rest) lk = value_loop holds ?frames lk'"
          "named lk' = [] \<longleftrightarrow> named lk = [] \<and> (\<forall>s \<in> strings_in v. \<not> holds s)"
          using value_loop_scalar [OF c scalar] by blast
        have "stack_weight ?frames < stack_weight stack" by (simp add: Cons c weight_children(1) [of v, symmetric])
        from less [OF this, of lk'] show ?thesis
          using scalar lk'(2) by (auto simp: Cons lk'(1) c split: sum.splits)
      qed
    qed
  qed simp
qed


lemma key_loop_pop: "f_rest frm = [] \<Longrightarrow> key_loop holds (frm # stack) lk = key_loop holds stack lk"
  by (simp add: key_loop.simps(2))

lemma key_loop_scalar:
  "f_rest frm = (sg, v) # vs \<Longrightarrow> \<not> is_object v \<Longrightarrow>
    key_loop holds (frm # stack) lk = key_loop holds (frm\<lparr>f_rest := vs\<rparr> # stack) lk"
  by (simp add: key_loop.simps(2))

lemma key_loop_enter:
  assumes "f_rest frm = (sg, v) # vs" and "is_object v"
  shows "\<exists>lk'. key_loop holds (frm # stack) lk =
    (if Suc (length stack) < MAX_SWEEP_DEPTH
     then key_loop holds (\<lparr>f_seg = Some sg, f_rest = rev (children v)\<rparr> # frm\<lparr>f_rest := vs\<rparr> # stack) lk' else Inl Too_deep) \<and>
    (named lk' = [] \<longleftrightarrow> named lk = [] \<and> (\<forall>k \<in> set (own_keys v). \<not> holds k))"
  using assms
  by (intro exI [of _ "if list_ex holds (own_keys v)
        then recorder (''a key under '' @ or_root (spellPath
          (\<lparr>f_seg = Some sg, f_rest = rev (children v)\<rparr> # frm\<lparr>f_rest := vs\<rparr> # stack) None)) lk else lk"])
    (simp add: key_loop.simps(2) visit_keys_def enter_def list_ex_iff)

lemma keys_in_object: "keys_in v = set (own_keys v) \<union> (\<Union>(sg, w) \<in> set (children v). keys_in w)"
  by (rule keys_in.simps)

lemma key_loop_spec:
  "case key_loop holds stack lk of
     Inl _ \<Rightarrow> \<not> fits stack
   | Inr lk' \<Rightarrow> fits stack \<and> (named lk' = [] \<longleftrightarrow> named lk = [] \<and> (\<forall>k \<in> pending keys_in stack. \<not> holds k))"
proof (induction "stack_weight stack" arbitrary: stack lk rule: less_induct)
  case less
  show ?case
  proof (cases stack)
    case (Cons frm rest)
    show ?thesis
    proof (cases "f_rest frm")
      case Nil
      then show ?thesis using less [of rest lk] by (auto simp: Cons key_loop_pop split: sum.splits)
    next
      case child: (Cons c vs)
      obtain sg v where c: "f_rest frm = (sg, v) # vs" using child by (cases c) auto
      let ?frames = "frm\<lparr>f_rest := vs\<rparr> # rest"
      show ?thesis
      proof (cases "is_object v")
        case obj: True
        let ?new = "\<lparr>f_seg = Some sg, f_rest = rev (children v)\<rparr> # ?frames"
        obtain lk' where lk': "key_loop holds (frm # rest) lk =
            (if Suc (length rest) < MAX_SWEEP_DEPTH then key_loop holds ?new lk' else Inl Too_deep)"
          "named lk' = [] \<longleftrightarrow> named lk = [] \<and> (\<forall>k \<in> set (own_keys v). \<not> holds k)"
          using key_loop_enter [OF c obj, of holds rest lk] by blast
        have "stack_weight ?new < stack_weight stack" by (simp add: Cons c weight_children(2) [of v, symmetric])
        note IH = less [OF this, of lk']
        have "Suc (length rest) < MAX_SWEEP_DEPTH \<and> fits ?new \<longleftrightarrow> fits (frm # rest)"
          using obj by (auto simp: c jdepth_object_Suc)
        moreover have "pending keys_in (frm # rest) = set (own_keys v) \<union> pending keys_in ?new"
          by (auto simp: c keys_in_object [of v])
        ultimately show ?thesis
          using IH lk'(2) unfolding Cons lk'(1) by (auto split: sum.splits if_splits simp del: fits.simps pending_simps)
      next
        case scalar: False
        have "stack_weight ?frames < stack_weight stack" by (simp add: Cons c weight_children(1) [of v, symmetric])
        from less [OF this, of lk] show ?thesis
          using scalar by (auto simp: Cons key_loop_scalar [OF c scalar] c keys_in_scalar split: sum.splits)
      qed
    qed
  qed simp
qed

lemma findSecretValues_spec:
  "case findSecretValues raw needles lk of
     Inl _ \<Rightarrow> MAX_SWEEP_DEPTH < jdepth raw
   | Inr lk' \<Rightarrow> jdepth raw \<le> MAX_SWEEP_DEPTH \<and>
       (named lk' = [] \<longleftrightarrow> named lk = [] \<and> (\<forall>s \<in> strings_in raw. \<forall>n \<in> set needles. \<not> js_includes s n))"
proof (cases "is_object raw")
  case True
  have "0 < MAX_SWEEP_DEPTH" by (simp add: MAX_SWEEP_DEPTH_def)
  then have run: "findSecretValues raw needles lk =
      value_loop (\<lambda>s. list_ex (js_includes s) needles) [\<lparr>f_seg = None, f_rest = children raw\<rparr>] lk"
    using True by (cases raw) (simp_all add: findSecretValues_def enter_def)
  show ?thesis
    using value_loop_spec [where holds = "\<lambda>s. list_ex (js_includes s) needles"
        and stack = "[\<lparr>f_seg = None, f_rest = children raw\<rparr>]" and lk = lk]
      True jdepth_object [OF True, of 0 MAX_SWEEP_DEPTH] \<open>0 < MAX_SWEEP_DEPTH\<close>
    by (auto simp: run strings_in_object list_ex_iff split: sum.splits)
next
  case False
  then show ?thesis
    by (cases raw) (auto simp: findSecretValues_def strings_in_scalar list_ex_iff)
qed

lemma findSecretKeys_spec:
  "case findSecretKeys raw needles lk of
     Inl _ \<Rightarrow> MAX_SWEEP_DEPTH < jdepth raw
   | Inr lk' \<Rightarrow> jdepth raw \<le> MAX_SWEEP_DEPTH \<and>
       (named lk' = [] \<longleftrightarrow> named lk = [] \<and> (\<forall>k \<in> keys_in raw. \<forall>n \<in> set needles. \<not> js_includes k n))"
proof (cases "is_object raw")
  case True
  let ?holds = "\<lambda>s. list_ex (js_includes s) needles"
  have "0 < MAX_SWEEP_DEPTH" by (simp add: MAX_SWEEP_DEPTH_def)
  define lk' where "lk' = (if list_ex ?holds (own_keys raw) then recorder
    (''a key under '' @ or_root (spellPath [\<lparr>f_seg = None, f_rest = rev (children raw)\<rparr>] None)) lk else lk)"
  then have lk': "findSecretKeys raw needles lk =
      key_loop ?holds [\<lparr>f_seg = None, f_rest = rev (children raw)\<rparr>] lk'"
    "named lk' = [] \<longleftrightarrow> named lk = [] \<and> (\<forall>k \<in> set (own_keys raw). \<not> ?holds k)"
    using True \<open>0 < MAX_SWEEP_DEPTH\<close>
    by (simp_all add: findSecretKeys_def visit_keys_def enter_def list_ex_iff)
  show ?thesis
    using key_loop_spec [where holds = "?holds" and stack = "[\<lparr>f_seg = None, f_rest = rev (children raw)\<rparr>]" and lk = lk']
      True jdepth_object [OF True, of 0 MAX_SWEEP_DEPTH] \<open>0 < MAX_SWEEP_DEPTH\<close> lk'(2)
    by (auto simp: lk'(1) keys_in_object [of raw] list_ex_iff split: sum.splits)
next
  case False
  then show ?thesis by (simp add: findSecretKeys_def keys_in_scalar)
qed

lemma sweep_accepts:
  "sweepThenParse schema raw secrets = Inr d \<longleftrightarrow>
    schema raw = Some d \<and>
    ([s \<leftarrow> secrets. \<not> blank s] = [] \<or>
     jdepth raw \<le> 32768 \<and>
     {n \<in> set secrets. \<not> blank n \<and> (\<exists>s \<in> strings_in raw \<union> keys_in raw. js_includes s n)} = {})"
proof (cases "[s \<leftarrow> secrets. \<not> blank s] = []")
  case True
  then show ?thesis by (auto simp: sweepThenParse_def split: option.splits)
next
  case False
  let ?needles = "[s \<leftarrow> secrets. \<not> blank s]"
  show ?thesis
  proof (cases "findSecretValues raw ?needles no_leaks")
    case (Inl e)
    then show ?thesis using False findSecretValues_spec [where raw = raw and needles = "?needles" and lk = no_leaks]
      by (simp add: sweepThenParse_def MAX_SWEEP_DEPTH_def)
  next
    case vals: (Inr lk)
    note vals_spec = findSecretValues_spec [where raw = raw and needles = "?needles" and lk = no_leaks, unfolded vals, simplified]
    show ?thesis
    proof (cases "findSecretKeys raw ?needles lk")
      case (Inl e)
      then show ?thesis using False vals findSecretKeys_spec [where raw = raw and needles = "?needles" and lk = lk]
        by (simp add: sweepThenParse_def MAX_SWEEP_DEPTH_def)
    next
      case (Inr lk')
      note keys = findSecretKeys_spec [where raw = raw and needles = "?needles" and lk = lk, unfolded Inr, simplified]
      have "named lk' = [] \<longleftrightarrow>
          {n \<in> set secrets. \<not> blank n \<and> (\<exists>s \<in> strings_in raw \<union> keys_in raw. js_includes s n)} = {}"
        using vals_spec keys by (fastforce simp: no_leaks_def)
      then show ?thesis using False vals Inr keys
        by (auto simp: sweepThenParse_def MAX_SWEEP_DEPTH_def split: option.splits)
    qed
  qed
qed


text \<open>
  C11: a document passes the sweep exactly when it is clean. It is accepted exactly when its schema
  accepts it and, if there is any secret that is not blank, it is nested at most 32768 levels deep
  and no string value and no key of the raw document, known to the schema or not, contains a secret.
  The two iterative walks agree with the recursive reading of the document.
\<close>

theorem sweep_accepts_iff:
  "sweepThenParse schema raw secrets = Inr d \<longleftrightarrow>
    schema raw = Some d \<and>
    ([s \<leftarrow> secrets. \<not> blank s] = [] \<or>
     jdepth raw \<le> 32768 \<and>
     {n \<in> set secrets. \<not> blank n \<and> (\<exists>s \<in> strings_in raw \<union> keys_in raw. js_includes s n)} = {})"
  by (rule sweep_accepts)

section \<open>The two observer documents\<close>

datatype assessment = Healthy | Degraded | Unhealthy | Indeterminate
datatype coverage_result = Answered | Unreachable | Forbidden | Not_attempted
datatype docker_channel = Docker_state | Docker_health | Docker_logs | Docker_stats | Docker_events
datatype vm_channel = Vm_reachability | Vm_system | Vm_units | Vm_logs | Vm_resources | Vm_cloud

definition ObserverAssessmentSchema :: "json \<Rightarrow> assessment option" where
  "ObserverAssessmentSchema = enum_of [(''healthy'', Healthy), (''degraded'', Degraded),
     (''unhealthy'', Unhealthy), (''indeterminate'', Indeterminate)]"

definition ObserverCoverageResultSchema :: "json \<Rightarrow> coverage_result option" where
  "ObserverCoverageResultSchema = enum_of [(''answered'', Answered), (''unreachable'', Unreachable),
     (''forbidden'', Forbidden), (''not_attempted'', Not_attempted)]"

definition ObserverDockerChannelSchema :: "json \<Rightarrow> docker_channel option" where
  "ObserverDockerChannelSchema = enum_of [(''state'', Docker_state), (''health'', Docker_health),
     (''logs'', Docker_logs), (''stats'', Docker_stats), (''events'', Docker_events)]"

definition ObserverVmChannelSchema :: "json \<Rightarrow> vm_channel option" where
  "ObserverVmChannelSchema = enum_of [(''reachability'', Vm_reachability), (''system'', Vm_system),
     (''units'', Vm_units), (''logs'', Vm_logs), (''resources'', Vm_resources), (''cloud'', Vm_cloud)]"

record shared_row =
  sr_name :: string
  sr_namespace :: string
  sr_assessment :: assessment
  sr_selector :: string
  sr_window :: string
  sr_evidence_ref :: "string list"

record 'c docker_row =
  dr_shared :: shared_row
  dr_coverage :: "('c \<times> coverage_result) list"
  dr_container_id :: "string option"
  dr_image :: "string option"
  dr_restart_count :: "int option"

record 'c vm_row =
  vr_shared :: shared_row
  vr_coverage :: "('c \<times> coverage_result) list"
  vr_uptime_s :: "rat option"
  vr_system_state :: "string option"
  vr_failed_units :: "string list option"

record 'r observer_document =
  od_worker :: worker_id
  od_sweep_id :: "string option"
  od_window_opened_at :: "string option"
  od_services :: "'r list"

definition nullable :: "(json \<Rightarrow> 'a option) \<Rightarrow> json \<Rightarrow> 'a option option" where
  "nullable f v = (if v = JNull then Some None else map_option Some (f v))"

fun nonnegative :: "json \<Rightarrow> rat option" where
  "nonnegative (JNum (Finite q)) = (if 0 \<le> q then Some q else None)"
| "nonnegative _ = None"

definition sharedRowFields :: "json \<Rightarrow> shared_row option" where
  "sharedRowFields v = do {
     name \<leftarrow> field v ''name'' shortStr;
     namespace \<leftarrow> field v ''namespace'' shortStr;
     assess \<leftarrow> field v ''assessment'' ObserverAssessmentSchema;
     selector \<leftarrow> field v ''selector'' shortStr;
     window \<leftarrow> field v ''window'' shortStr;
     evidence \<leftarrow> field v ''evidence_ref'' (array_of 0 MAX_ITEMS shortStr);
     Some \<lparr>sr_name = name, sr_namespace = namespace, sr_assessment = assess, sr_selector = selector,
       sr_window = window, sr_evidence_ref = evidence\<rparr>
   }"

definition coverage_entry :: "(json \<Rightarrow> 'c option) \<Rightarrow> json \<Rightarrow> ('c \<times> coverage_result) option" where
  "coverage_entry channel v = do {
     c \<leftarrow> field v ''channel'' channel;
     r \<leftarrow> field v ''result'' ObserverCoverageResultSchema;
     Some (c, r)
   }"

definition docker_service :: "json \<Rightarrow> docker_channel docker_row option" where
  "docker_service v = do {
     shared \<leftarrow> sharedRowFields v;
     coverage \<leftarrow> field v ''coverage'' (array_of 0 MAX_ITEMS (coverage_entry ObserverDockerChannelSchema));
     container \<leftarrow> optional_field v ''container_id'' shortStr;
     image \<leftarrow> optional_field v ''image'' shortStr;
     restarts \<leftarrow> optional_field v ''restart_count'' natural_number;
     Some \<lparr>dr_shared = shared, dr_coverage = coverage, dr_container_id = container, dr_image = image,
       dr_restart_count = restarts\<rparr>
   }"

definition vm_service :: "json \<Rightarrow> vm_channel vm_row option" where
  "vm_service v = do {
     shared \<leftarrow> sharedRowFields v;
     coverage \<leftarrow> field v ''coverage'' (array_of 0 MAX_ITEMS (coverage_entry ObserverVmChannelSchema));
     uptime \<leftarrow> optional_field v ''uptime_s'' nonnegative;
     state \<leftarrow> optional_field v ''system_state'' shortStr;
     units \<leftarrow> optional_field v ''failed_units'' (array_of 0 MAX_ITEMS shortStr);
     Some \<lparr>vr_shared = shared, vr_coverage = coverage, vr_uptime_s = uptime, vr_system_state = state,
       vr_failed_units = units\<rparr>
   }"

definition observer_schema :: "string \<Rightarrow> (json \<Rightarrow> 'r option) \<Rightarrow> json \<Rightarrow> 'r observer_document option" where
  "observer_schema name service v = do {
     _ \<leftarrow> field v ''schema'' (string_where (\<lambda>s. s = name));
     worker \<leftarrow> field v ''worker'' (string_where workerId);
     sweep \<leftarrow> field v ''sweep_id'' (nullable shortStr);
     opened_at \<leftarrow> field v ''window_opened_at'' (nullable shortStr);
     services \<leftarrow> field v ''services'' (array_of 0 MAX_ITEMS service);
     Some \<lparr>od_worker = worker, od_sweep_id = sweep, od_window_opened_at = opened_at, od_services = services\<rparr>
   }"

definition ObserverDockerOpsArtifactSchema :: "json \<Rightarrow> docker_channel docker_row observer_document option" where
  "ObserverDockerOpsArtifactSchema = observer_schema ''pifleet.observer-docker-ops/v1'' docker_service"

definition ObserverVmOpsArtifactSchema :: "json \<Rightarrow> vm_channel vm_row observer_document option" where
  "ObserverVmOpsArtifactSchema = observer_schema ''pifleet.observer-vm-ops/v1'' vm_service"

definition OBSERVER_DOCKER_OPS_ARTIFACT_NAME :: string where
  "OBSERVER_DOCKER_OPS_ARTIFACT_NAME = ''observer-docker-ops.json''"
definition OBSERVER_VM_OPS_ARTIFACT_NAME :: string where
  "OBSERVER_VM_OPS_ARTIFACT_NAME = ''observer-vm-ops.json''"

definition parseObserverDockerOpsArtifact ::
  "json \<Rightarrow> string list \<Rightarrow> refusal_cause + docker_channel docker_row observer_document" where
  "parseObserverDockerOpsArtifact = sweepThenParse ObserverDockerOpsArtifactSchema"

definition parseObserverVmOpsArtifact :: "json \<Rightarrow> string list \<Rightarrow> refusal_cause + vm_channel vm_row observer_document" where
  "parseObserverVmOpsArtifact = sweepThenParse ObserverVmOpsArtifactSchema"

end
