(* ===== verification/Ticket_Ops.thy ===== *)
theory Ticket_Ops
  imports Outbox Secret_Sweep
begin

text \<open>
  The document the ticketing role leaves in its outbox (\<open>src/contracts.ts\<close>): its schema with the
  rules that tie a verdict to what was read back, the patterns for credentials in recorded commands,
  and the sweep for known secrets over the parsed value. The lemmas show that an accepted document
  cannot claim more than its own read-backs support.
\<close>

datatype field_mode = Mode_replace | Mode_append
datatype ticket_match = Match_exact | Match_sanitized | Match_mismatch | Match_unverified
datatype ticket_operation = Op_query | Op_update

record field_write =
  fw_field :: string
  fw_mode :: field_mode
  fw_sent :: string
  fw_read_back :: "string option"
  fw_match :: ticket_match
  fw_detail :: string

record ticket_update =
  tu_ticket :: string
  tu_requested :: string
  tu_fields :: "field_write list"
  tu_verdict :: verdict

record ticket_query =
  tq_ticket :: string
  tq_fields :: "(string \<times> string option) list"

record ticket_ops =
  to_task_id :: task_id
  to_worker :: worker_id
  to_epoch :: int
  to_operation :: ticket_operation
  to_ticket_host :: string
  to_generated_at :: string
  to_no_change_needed :: bool
  to_queried :: "ticket_query list"
  to_updates :: "ticket_update list"
  to_commands :: "string list"
  to_verdict :: verdict
  to_notes :: string

definition TicketFieldModeSchema :: "json \<Rightarrow> field_mode option" where
  "TicketFieldModeSchema = enum_of [(''replace'', Mode_replace), (''append'', Mode_append)]"

definition TicketMatchSchema :: "json \<Rightarrow> ticket_match option" where
  "TicketMatchSchema = enum_of [(''exact'', Match_exact), (''sanitized'', Match_sanitized),
     (''mismatch'', Match_mismatch), (''unverified'', Match_unverified)]"

datatype ticket_issue =
    Read_back_disagrees | Exact_differs | Inexact_equals | Detail_missing | Update_outranks
  | Query_updates | No_change_updates | Silent_update | Artifact_outranks
  | Auth_header string | Cred_query string

text \<open>What is wrong with one field: the first test returns early, the others add up.\<close>

definition field_issues :: "field_write \<Rightarrow> ticket_issue list" where
  "field_issues v =
    (if (fw_read_back v = None) \<noteq> (fw_match v = Match_unverified) then [Read_back_disagrees]
     else (if fw_match v = Match_exact \<and> fw_read_back v \<noteq> Some (fw_sent v) then [Exact_differs] else []) @
       (if (fw_match v = Match_sanitized \<or> fw_match v = Match_mismatch) \<and> fw_read_back v = Some (fw_sent v)
        then [Inexact_equals] else []) @
       (if fw_match v \<noteq> Match_exact \<and> trim_string (fw_detail v) = [] then [Detail_missing] else []))"

fun STATUS_RANK :: "verdict \<Rightarrow> nat" where
  "STATUS_RANK Success = 0"
| "STATUS_RANK Partial = 1"
| "STATUS_RANK Blocked = 2"
| "STATUS_RANK _ = 3"

fun MATCH_FLOOR :: "ticket_match \<Rightarrow> verdict" where
  "MATCH_FLOOR Match_exact = Success"
| "MATCH_FLOOR Match_sanitized = Partial"
| "MATCH_FLOOR Match_mismatch = Partial"
| "MATCH_FLOOR Match_unverified = Failed"

definition worst_status :: "verdict list \<Rightarrow> verdict" where
  "worst_status vs = foldl (\<lambda>worst v. if STATUS_RANK v > STATUS_RANK worst then v else worst) Success vs"

definition update_issues :: "ticket_update \<Rightarrow> ticket_issue list" where
  "update_issues v =
    (if STATUS_RANK (tu_verdict v) < STATUS_RANK (worst_status (map (MATCH_FLOOR \<circ> fw_match) (tu_fields v)))
     then [Update_outranks] else [])"

section \<open>Credentials in recorded text\<close>

definition lower_char :: "char \<Rightarrow> char" where
  "lower_char c = (if CHR ''A'' \<le> c \<and> c \<le> CHR ''Z'' then char_of (of_char c + (32 :: nat)) else c)"

definition strip_ci :: "string \<Rightarrow> string \<Rightarrow> string option" where
  "strip_ci w s = (if map lower_char (take (length w) s) = w then Some (drop (length w) s) else None)"

text \<open>\<open>/authorization\s*:\s*(?:token|bearer|basic)\s+(?!<redacted>)\S/i\<close> at a position.\<close>

definition auth_value_at :: "string \<Rightarrow> bool" where
  "auth_value_at r =
    list_ex (\<lambda>w. case strip_ci w r of
        None \<Rightarrow> False
      | Some s \<Rightarrow> s \<noteq> [] \<and> space_char (hd s) \<and>
          (let value = dropWhile space_char s in value \<noteq> [] \<and> strip_ci ''<redacted>'' value = None))
      [''token'', ''bearer'', ''basic'']"

definition auth_header_at :: "string \<Rightarrow> bool" where
  "auth_header_at s =
    (case strip_ci ''authorization'' s of
       None \<Rightarrow> False
     | Some r \<Rightarrow> (case dropWhile space_char r of
         [] \<Rightarrow> False
       | c # r \<Rightarrow> c = CHR '':'' \<and> auth_value_at (dropWhile space_char r)))"

text \<open>\<open>/[?&](?:token|api_?key|access_token|auth|password)=[^&\s]/i\<close> at a position.\<close>

fun cred_query_at :: "string \<Rightarrow> bool" where
  "cred_query_at [] = False"
| "cred_query_at (c # s) =
    ((c = CHR ''?'' \<or> c = CHR ''&'') \<and>
     list_ex (\<lambda>w. case strip_ci (w @ ''='') s of
         None \<Rightarrow> False
       | Some r \<Rightarrow> r \<noteq> [] \<and> hd r \<noteq> CHR ''&'' \<and> \<not> space_char (hd r))
       [''token'', ''apikey'', ''api_key'', ''access_token'', ''auth'', ''password''])"

definition AUTH_HEADER_RE :: "string \<Rightarrow> bool" where
  "AUTH_HEADER_RE s = list_ex auth_header_at (suffixes s)"

definition CRED_QUERY_RE :: "string \<Rightarrow> bool" where
  "CRED_QUERY_RE s = list_ex cred_query_at (suffixes s)"


section \<open>The document\<close>

text \<open>The value the schema returns, as the walks over it see it: every declared field, nothing else.\<close>

definition mode_name :: "field_mode \<Rightarrow> string" where
  "mode_name m = (case m of Mode_replace \<Rightarrow> ''replace'' | Mode_append \<Rightarrow> ''append'')"

definition match_name :: "ticket_match \<Rightarrow> string" where
  "match_name m = (case m of Match_exact \<Rightarrow> ''exact'' | Match_sanitized \<Rightarrow> ''sanitized''
     | Match_mismatch \<Rightarrow> ''mismatch'' | Match_unverified \<Rightarrow> ''unverified'')"

definition status_name :: "verdict \<Rightarrow> string" where
  "status_name v = (case v of Success \<Rightarrow> ''success'' | Partial \<Rightarrow> ''partial'' | Blocked \<Rightarrow> ''blocked'' | _ \<Rightarrow> ''failed'')"

definition string_or_null :: "string option \<Rightarrow> json" where
  "string_or_null s = (case s of None \<Rightarrow> JNull | Some s \<Rightarrow> JStr s)"

definition field_json :: "field_write \<Rightarrow> json" where
  "field_json f = JObj [(''field'', JStr (fw_field f)), (''mode'', JStr (mode_name (fw_mode f))),
     (''sent'', JStr (fw_sent f)), (''read_back'', string_or_null (fw_read_back f)),
     (''match'', JStr (match_name (fw_match f))), (''detail'', JStr (fw_detail f))]"

definition update_json :: "ticket_update \<Rightarrow> json" where
  "update_json u = JObj [(''ticket'', JStr (tu_ticket u)), (''requested'', JStr (tu_requested u)),
     (''fields'', JArr (map field_json (tu_fields u))), (''verdict'', JStr (status_name (tu_verdict u)))]"

definition query_json :: "ticket_query \<Rightarrow> json" where
  "query_json q = JObj [(''ticket'', JStr (tq_ticket q)),
     (''fields'', JArr (map (\<lambda>(f, v). JObj [(''field'', JStr f), (''value'', string_or_null v)]) (tq_fields q)))]"

definition parsed_value :: "ticket_ops \<Rightarrow> json" where
  "parsed_value a = JObj [(''schema'', JStr ''pifleet.ticket-ops/v1''), (''task_id'', JStr (to_task_id a)),
     (''worker'', JStr (to_worker a)), (''epoch'', JNum (js_int (to_epoch a))),
     (''operation'', JStr (case to_operation a of Op_query \<Rightarrow> ''query'' | Op_update \<Rightarrow> ''update'')),
     (''ticket_host'', JStr (to_ticket_host a)), (''generated_at'', JStr (to_generated_at a)),
     (''no_change_needed'', JBool (to_no_change_needed a)),
     (''queried'', JArr (map query_json (to_queried a))), (''updates'', JArr (map update_json (to_updates a))),
     (''commands'', JArr (map JStr (to_commands a))), (''verdict'', JStr (status_name (to_verdict a))),
     (''notes'', JStr (to_notes a))]"

definition join_seg :: "string \<Rightarrow> seg \<Rightarrow> string" where
  "join_seg path sg = (case sg of
     Index i \<Rightarrow> path @ ''['' @ decimal i @ '']''
   | Key k \<Rightarrow> if path = [] then k else path @ ''.'' @ k)"

function walkStrings :: "json \<Rightarrow> string \<Rightarrow> (string \<times> string) list" where
  "walkStrings node path = (case node of JStr s \<Rightarrow> [(path, s)] | _ \<Rightarrow> []) @
    concat (map (\<lambda>(sg, v). walkStrings v (join_seg path sg)) (children node))"
  by auto
termination by (relation "measure (\<lambda>(v, _). size v)") (auto simp: children_smaller)

declare walkStrings.simps [simp del]

definition string_issues :: "string \<times> string \<Rightarrow> ticket_issue list" where
  "string_issues s =
    (if AUTH_HEADER_RE (snd s) then [Auth_header (fst s)] else []) @
    (if CRED_QUERY_RE (snd s) then [Cred_query (fst s)] else [])"

definition artifact_issues :: "ticket_ops \<Rightarrow> ticket_issue list" where
  "artifact_issues v =
    (if to_operation v = Op_query \<and> to_updates v \<noteq> [] then [Query_updates] else []) @
    (if to_operation v = Op_update \<and> to_no_change_needed v \<and> to_updates v \<noteq> [] then [No_change_updates] else []) @
    (if to_operation v = Op_update \<and> \<not> to_no_change_needed v \<and> to_updates v = [] then [Silent_update] else []) @
    (if STATUS_RANK (to_verdict v) < STATUS_RANK (worst_status (map tu_verdict (to_updates v)))
     then [Artifact_outranks] else []) @
    concat (map string_issues (walkStrings (parsed_value v) []))"

definition without_issues :: "('a \<Rightarrow> ticket_issue list) \<Rightarrow> 'a \<Rightarrow> 'a option" where
  "without_issues issues v = (if issues v = [] then Some v else None)"

definition TicketFieldWriteSchema :: "json \<Rightarrow> field_write option" where
  "TicketFieldWriteSchema v = do {
     name \<leftarrow> field v ''field'' shortStr;
     mode \<leftarrow> field v ''mode'' TicketFieldModeSchema;
     sent \<leftarrow> field v ''sent'' longText;
     back \<leftarrow> field v ''read_back'' (nullable longText);
     matched \<leftarrow> field v ''match'' TicketMatchSchema;
     detail \<leftarrow> default_field v ''detail'' [] longText;
     without_issues field_issues \<lparr>fw_field = name, fw_mode = mode, fw_sent = sent, fw_read_back = back,
       fw_match = matched, fw_detail = detail\<rparr>
   }"

definition TicketUpdateSchema :: "json \<Rightarrow> ticket_update option" where
  "TicketUpdateSchema v = do {
     ticket \<leftarrow> field v ''ticket'' shortStr;
     requested \<leftarrow> field v ''requested'' longText;
     fields \<leftarrow> default_field v ''fields'' [] (array_of 0 MAX_ITEMS TicketFieldWriteSchema);
     verdict \<leftarrow> field v ''verdict'' (enum_of StatusSchema);
     without_issues update_issues \<lparr>tu_ticket = ticket, tu_requested = requested, tu_fields = fields,
       tu_verdict = verdict\<rparr>
   }"

definition TicketFieldReadSchema :: "json \<Rightarrow> (string \<times> string option) option" where
  "TicketFieldReadSchema v = do {
     name \<leftarrow> field v ''field'' shortStr;
     val \<leftarrow> field v ''value'' (nullable longText);
     Some (name, val)
   }"

definition TicketQuerySchema :: "json \<Rightarrow> ticket_query option" where
  "TicketQuerySchema v = do {
     ticket \<leftarrow> field v ''ticket'' shortStr;
     fields \<leftarrow> default_field v ''fields'' [] (array_of 0 MAX_ITEMS TicketFieldReadSchema);
     Some \<lparr>tq_ticket = ticket, tq_fields = fields\<rparr>
   }"

text \<open>The timestamp format is the schema library's, a parameter here.\<close>

definition TicketOpsArtifactSchema :: "(string \<Rightarrow> bool) \<Rightarrow> json \<Rightarrow> ticket_ops option" where
  "TicketOpsArtifactSchema datetime v = do {
     _ \<leftarrow> field v ''schema'' (string_where (\<lambda>s. s = ''pifleet.ticket-ops/v1''));
     task_id \<leftarrow> field v ''task_id'' shortStr;
     worker \<leftarrow> field v ''worker'' (string_where workerId);
     epoch \<leftarrow> field v ''epoch'' natural_number;
     operation \<leftarrow> field v ''operation'' (enum_of [(''query'', Op_query), (''update'', Op_update)]);
     host \<leftarrow> field v ''ticket_host'' shortStr;
     generated \<leftarrow> field v ''generated_at'' (string_where datetime);
     no_change \<leftarrow> default_field v ''no_change_needed'' False boolean_of;
     queried \<leftarrow> default_field v ''queried'' [] (array_of 0 MAX_ITEMS TicketQuerySchema);
     updates \<leftarrow> default_field v ''updates'' [] (array_of 0 MAX_ITEMS TicketUpdateSchema);
     commands \<leftarrow> default_field v ''commands'' [] (array_of 0 MAX_ITEMS shortStr);
     verdict \<leftarrow> field v ''verdict'' (enum_of StatusSchema);
     notes \<leftarrow> default_field v ''notes'' [] longText;
     without_issues artifact_issues \<lparr>to_task_id = task_id, to_worker = worker, to_epoch = epoch,
       to_operation = operation, to_ticket_host = host, to_generated_at = generated,
       to_no_change_needed = no_change, to_queried = queried, to_updates = updates, to_commands = commands,
       to_verdict = verdict, to_notes = notes\<rparr>
   }"

text \<open>\<open>[...new Set(hits)]\<close>: the first of equal hits stays.\<close>

definition distinct_hits :: "'a list \<Rightarrow> 'a list" where
  "distinct_hits xs = rev (remdups (rev xs))"

definition findCredentialLeaks :: "json \<Rightarrow> string list \<Rightarrow> string list" where
  "findCredentialLeaks artifact secrets =
    (let needles = [s \<leftarrow> secrets. \<not> blank s] in
     if needles = [] then []
     else distinct_hits (concat (map (\<lambda>(path, s). map (\<lambda>n. or_root path) [n \<leftarrow> needles. js_includes s n])
            (walkStrings artifact []))))"

datatype ticket_refusal = Ticket_schema | Ticket_leaks "string list"

definition parseTicketOpsArtifact ::
  "(string \<Rightarrow> bool) \<Rightarrow> json \<Rightarrow> string list \<Rightarrow> ticket_refusal + ticket_ops" where
  "parseTicketOpsArtifact datetime raw secrets =
    (case TicketOpsArtifactSchema datetime raw of
       None \<Rightarrow> Inl Ticket_schema
     | Some parsed \<Rightarrow>
         let leaks = findCredentialLeaks (parsed_value parsed) secrets in
         if leaks \<noteq> [] then Inl (Ticket_leaks leaks) else Inr parsed)"


section \<open>What an accepted document means\<close>

text \<open>A field entry that says of itself what its read-back shows.\<close>

definition honest_field :: "field_write \<Rightarrow> bool" where
  "honest_field f \<longleftrightarrow>
    (case fw_match f of
       Match_exact \<Rightarrow> fw_read_back f = Some (fw_sent f)
     | Match_unverified \<Rightarrow> fw_read_back f = None \<and> trim_string (fw_detail f) \<noteq> []
     | _ \<Rightarrow> fw_read_back f \<noteq> None \<and> fw_read_back f \<noteq> Some (fw_sent f) \<and> trim_string (fw_detail f) \<noteq> [])"

lemma field_issues_iff: "field_issues f = [] \<longleftrightarrow> honest_field f"
  by (cases "fw_match f") (auto simp: field_issues_def honest_field_def)

lemma worst_status_rank:
  "STATUS_RANK (worst_status vs) \<le> r \<longleftrightarrow> (\<forall>v \<in> set vs. STATUS_RANK v \<le> r)"
proof -
  have "STATUS_RANK (foldl (\<lambda>worst v. if STATUS_RANK v > STATUS_RANK worst then v else worst) w vs) \<le> r \<longleftrightarrow>
      STATUS_RANK w \<le> r \<and> (\<forall>v \<in> set vs. STATUS_RANK v \<le> r)" for w
    by (induction vs arbitrary: w) auto
  then show ?thesis by (simp add: worst_status_def)
qed

lemma STATUS_RANK_0 [simp]: "STATUS_RANK v = 0 \<longleftrightarrow> v = Success"
  by (cases v) auto

lemma MATCH_FLOOR_success [simp]: "MATCH_FLOOR m = Success \<longleftrightarrow> m = Match_exact"
  by (cases m) auto

definition honest_update :: "ticket_update \<Rightarrow> bool" where
  "honest_update u \<longleftrightarrow> (\<forall>f \<in> set (tu_fields u). honest_field f \<and> STATUS_RANK (MATCH_FLOOR (fw_match f)) \<le> STATUS_RANK (tu_verdict u))"

lemma without_issues_Some: "without_issues issues v = Some w \<longleftrightarrow> w = v \<and> issues v = []"
  by (auto simp: without_issues_def)

lemma default_field_Some: "default_field v k d f = Some x \<Longrightarrow> x = d \<or> (\<exists>w. f w = Some x)"
  by (auto simp: default_field_def split: option.splits)

lemma accepted_field: "TicketFieldWriteSchema v = Some f \<Longrightarrow> honest_field f"
  by (auto simp: TicketFieldWriteSchema_def bind_eq_Some_conv without_issues_Some field_issues_iff)

lemma accepted_update:
  assumes "TicketUpdateSchema v = Some u"
  shows "honest_update u"
proof -
  from assms have "honest_field f" if "f \<in> set (tu_fields u)" for f
    using that by (auto simp: TicketUpdateSchema_def bind_eq_Some_conv without_issues_Some
        dest!: default_field_Some array_of_Some accepted_field)
  moreover from assms have "update_issues u = []"
    by (auto simp: TicketUpdateSchema_def bind_eq_Some_conv without_issues_Some)
  then have "STATUS_RANK (worst_status (map (MATCH_FLOOR \<circ> fw_match) (tu_fields u))) \<le> STATUS_RANK (tu_verdict u)"
    by (simp add: update_issues_def not_less split: if_splits)
  ultimately show ?thesis by (auto simp: honest_update_def worst_status_rank)
qed

lemma accepted_artifact:
  assumes "TicketOpsArtifactSchema datetime v = Some a"
  shows "\<forall>u \<in> set (to_updates a). honest_update u" and "artifact_issues a = []"
proof -
  from assms show "artifact_issues a = []"
    by (auto simp: TicketOpsArtifactSchema_def bind_eq_Some_conv without_issues_Some)
  from assms show "\<forall>u \<in> set (to_updates a). honest_update u"
    by (auto simp: TicketOpsArtifactSchema_def bind_eq_Some_conv without_issues_Some
        dest!: default_field_Some array_of_Some intro: accepted_update)
qed

lemma artifact_verdict:
  assumes "artifact_issues a = []" and "u \<in> set (to_updates a)"
  shows "STATUS_RANK (tu_verdict u) \<le> STATUS_RANK (to_verdict a)"
proof -
  from assms(1) have "STATUS_RANK (worst_status (map tu_verdict (to_updates a))) \<le> STATUS_RANK (to_verdict a)"
    by (simp add: artifact_issues_def not_less split: if_splits)
  with assms(2) show ?thesis by (simp add: worst_status_rank)
qed

lemma parsed_ticket_ops:
  "parseTicketOpsArtifact datetime raw secrets = Inr a \<longleftrightarrow>
    TicketOpsArtifactSchema datetime raw = Some a \<and> findCredentialLeaks (parsed_value a) secrets = []"
  by (auto simp: parseTicketOpsArtifact_def Let_def split: option.splits)

text \<open>
  C33: a ticket-ops document cannot claim more than its read-backs support. Of an accepted document,
  the verdict is no better than that of any ticket, each ticket's verdict no better than what the
  match of any of its fields allows, and every match says what the read-back shows; so a document
  that claims success has every field read back exactly as it was sent.
\<close>

theorem ticket_verdict_supported:
  assumes "parseTicketOpsArtifact datetime raw secrets = Inr a"
  shows "(\<forall>u \<in> set (to_updates a). STATUS_RANK (tu_verdict u) \<le> STATUS_RANK (to_verdict a) \<and> honest_update u) \<and>
    (to_verdict a = Success \<longrightarrow>
      (\<forall>u \<in> set (to_updates a). \<forall>f \<in> set (tu_fields u). fw_read_back f = Some (fw_sent f)))"
proof -
  have supported: "\<forall>u \<in> set (to_updates a). STATUS_RANK (tu_verdict u) \<le> STATUS_RANK (to_verdict a) \<and> honest_update u"
    using assms accepted_artifact [of datetime raw a] artifact_verdict by (auto simp: parsed_ticket_ops)
  moreover have "fw_read_back f = Some (fw_sent f)"
    if "to_verdict a = Success" "u \<in> set (to_updates a)" "f \<in> set (tu_fields u)" for u f
    using supported that by (fastforce simp: honest_update_def honest_field_def)
  ultimately show ?thesis by blast
qed

text \<open>The sweep sees the string values of what the schema returned.\<close>

lemma walkStrings_values: "snd ` set (walkStrings v path) = strings_in v"
proof (induction v path rule: walkStrings.induct)
  case (1 v path)
  have "snd ` set (walkStrings v path) = snd ` set (case v of JStr s \<Rightarrow> [(path, s)] | _ \<Rightarrow> []) \<union>
      (\<Union>(sg, w) \<in> set (children v). snd ` set (walkStrings w (join_seg path sg)))"
    by (subst walkStrings.simps) auto
  also have "\<dots> = (case v of JStr s \<Rightarrow> {s} | _ \<Rightarrow> {}) \<union> (\<Union>(sg, w) \<in> set (children v). strings_in w)"
  proof (intro arg_cong2 [where f = "(\<union>)"] SUP_cong refl)
    fix x assume "x \<in> set (children v)"
    then show "(case x of (sg, w) \<Rightarrow> snd ` set (walkStrings w (join_seg path sg))) = (case x of (sg, w) \<Rightarrow> strings_in w)"
      using 1 [of x "fst x" "snd x"] by (simp add: case_prod_beta)
  qed (simp split: json.splits)
  also have "\<dots> = strings_in v" by (subst (2) strings_in.simps) simp
  finally show ?case .
qed

lemma findCredentialLeaks_iff:
  "findCredentialLeaks v secrets = [] \<longleftrightarrow> {n \<in> set secrets. \<not> blank n \<and> (\<exists>s \<in> strings_in v. js_includes s n)} = {}"
proof -
  have "findCredentialLeaks v secrets = [] \<longleftrightarrow>
      [s \<leftarrow> secrets. \<not> blank s] = [] \<or>
      (\<forall>x \<in> set (walkStrings v []). [n \<leftarrow> secrets. \<not> blank n \<and> js_includes (snd x) n] = [])"
    by (simp add: findCredentialLeaks_def distinct_hits_def Let_def concat_eq_Nil_conv case_prod_beta)
  also have "\<dots> \<longleftrightarrow>
      (\<forall>x \<in> set (walkStrings v []). \<forall>n \<in> set secrets. \<not> blank n \<longrightarrow> \<not> js_includes (snd x) n)"
    unfolding filter_empty_conv by blast
  also have "\<dots> \<longleftrightarrow> (\<forall>s \<in> strings_in v. \<forall>n \<in> set secrets. \<not> blank n \<longrightarrow> \<not> js_includes s n)"
    by (simp add: walkStrings_values [of v "[]", symmetric])
  also have "\<dots> \<longleftrightarrow> {n \<in> set secrets. \<not> blank n \<and> (\<exists>s \<in> strings_in v. js_includes s n)} = {}" by blast
  finally show ?thesis .
qed

text \<open>The fields the schema declares; it drops every other one before the sweep looks.\<close>

definition declared_fields :: "string list" where
  "declared_fields = [''schema'', ''task_id'', ''worker'', ''epoch'', ''operation'', ''ticket_host'', ''generated_at'',
     ''no_change_needed'', ''queried'', ''updates'', ''commands'', ''verdict'', ''notes'']"

lemma undeclared_field_dropped:
  assumes "k \<notin> set declared_fields"
  shows "TicketOpsArtifactSchema datetime (JObj (ps @ [(k, w)])) = TicketOpsArtifactSchema datetime (JObj ps)"
proof -
  have "map_of (ps @ [(k, w)]) j = map_of ps j" if "j \<in> set declared_fields" for j
    using that assms by (auto simp: map_add_def split: option.splits)
  then show ?thesis
    by (simp add: TicketOpsArtifactSchema_def field_def default_field_def declared_fields_def)
qed

text \<open>
  The ticket-ops sweep refuses a secret only where the schema looks. A document is accepted
  exactly when its schema accepts it and no string value of a declared field contains a secret; so
  adding a field the schema does not declare, whatever secret its text spells, leaves an accepted
  document accepted, although the file that is published still holds it.
\<close>

theorem ticket_sweep_misses_undeclared:
  assumes "k \<notin> set declared_fields"
  shows "parseTicketOpsArtifact datetime (JObj (ps @ [(k, JStr secret)])) secrets = Inr a \<longleftrightarrow>
    TicketOpsArtifactSchema datetime (JObj ps) = Some a \<and>
    {n \<in> set secrets. \<not> blank n \<and> (\<exists>s \<in> strings_in (parsed_value a). js_includes s n)} = {}"
  using undeclared_field_dropped [OF assms] by (simp add: parsed_ticket_ops findCredentialLeaks_iff)


section \<open>A sample document\<close>

definition sample_ticket_fields :: "(string \<times> json) list" where
  "sample_ticket_fields = [(''schema'', JStr ''pifleet.ticket-ops/v1''), (''task_id'', JStr ''t1''),
     (''worker'', JStr ''w1''), (''epoch'', JNum (js_int 1)), (''operation'', JStr ''update''),
     (''ticket_host'', JStr ''tix''), (''generated_at'', JStr ''now''),
     (''updates'', JArr [JObj [(''ticket'', JStr ''T-7''), (''requested'', JStr ''close''),
        (''fields'', JArr [JObj [(''field'', JStr ''state''), (''mode'', JStr ''replace''), (''sent'', JStr ''done''),
           (''read_back'', JStr ''done''), (''match'', JStr ''exact'')]]), (''verdict'', JStr ''success'')]]),
     (''verdict'', JStr ''success'')]"

definition sample_ticket_ops :: ticket_ops where
  "sample_ticket_ops = \<lparr>to_task_id = ''t1'', to_worker = ''w1'', to_epoch = 1, to_operation = Op_update,
     to_ticket_host = ''tix'', to_generated_at = ''now'', to_no_change_needed = False, to_queried = [],
     to_updates = [\<lparr>tu_ticket = ''T-7'', tu_requested = ''close'', tu_fields =
        [\<lparr>fw_field = ''state'', fw_mode = Mode_replace, fw_sent = ''done'', fw_read_back = Some ''done'',
          fw_match = Match_exact, fw_detail = []\<rparr>], tu_verdict = Success\<rparr>],
     to_commands = [], to_verdict = Success, to_notes = []\<rparr>"

text \<open>The patterns need a colon, a question mark or an ampersand; the sample has none of them.\<close>

lemma strip_ci_rest: "strip_ci w s = Some r \<Longrightarrow> set r \<subseteq> set s"
  by (auto simp: strip_ci_def split: if_splits dest: in_set_dropD)

lemma auth_header_colon: "AUTH_HEADER_RE s \<Longrightarrow> CHR '':'' \<in> set s"
proof -
  assume "AUTH_HEADER_RE s"
  then obtain t where t: "suffix t s" "auth_header_at t" by (auto simp: AUTH_HEADER_RE_def list_ex_iff)
  then obtain r u where "strip_ci ''authorization'' t = Some r" "dropWhile space_char r = CHR '':'' # u"
    by (auto simp: auth_header_at_def split: option.splits list.splits)
  then have "CHR '':'' \<in> set t" by (metis list.set_intros(1) set_dropWhileD strip_ci_rest subsetD)
  with t(1) show ?thesis using set_mono_suffix by blast
qed

lemma cred_query_mark: "CRED_QUERY_RE s \<Longrightarrow> CHR ''?'' \<in> set s \<or> CHR ''&'' \<in> set s"
proof -
  assume "CRED_QUERY_RE s"
  then obtain t where t: "suffix t s" "cred_query_at t" by (auto simp: CRED_QUERY_RE_def list_ex_iff)
  then have "CHR ''?'' \<in> set t \<or> CHR ''&'' \<in> set t" by (cases t) auto
  with t(1) show ?thesis using set_mono_suffix by blast
qed

lemma sample_strings:
  "\<forall>s \<in> strings_in (parsed_value sample_ticket_ops). CHR ''2'' \<notin> set s \<and> CHR '':'' \<notin> set s \<and>
    CHR ''?'' \<notin> set s \<and> CHR ''&'' \<notin> set s"
  by (simp add: parsed_value_def sample_ticket_ops_def strings_in_cases update_json_def field_json_def mode_name_def
      match_name_def status_name_def string_or_null_def)

lemma sample_ticket_schema: "TicketOpsArtifactSchema (\<lambda>_. True) (JObj sample_ticket_fields) = Some sample_ticket_ops"
proof -
  have "workerId ''w1''" by code_simp
  moreover have "string_issues x = []" if "x \<in> set (walkStrings (parsed_value sample_ticket_ops) [])" for x
  proof -
    from that have "snd x \<in> strings_in (parsed_value sample_ticket_ops)"
      using walkStrings_values [of "parsed_value sample_ticket_ops" "[]"] by blast
    with sample_strings have "\<not> AUTH_HEADER_RE (snd x)" "\<not> CRED_QUERY_RE (snd x)"
      using auth_header_colon cred_query_mark by blast+
    then show ?thesis by (simp add: string_issues_def)
  qed
  then have "concat (map string_issues (walkStrings (parsed_value sample_ticket_ops) [])) = []" by simp
  then have "artifact_issues sample_ticket_ops = []"
    by (simp add: artifact_issues_def) (simp add: sample_ticket_ops_def worst_status_def)
  ultimately show ?thesis
    by (simp add: TicketOpsArtifactSchema_def sample_ticket_fields_def sample_ticket_ops_def field_def default_field_def
        shortStr_def longText_def MAX_SHORT_def MAX_TEXT_def MAX_ITEMS_def natural_number_def max_safe_integer_def enum_of_def
        StatusSchema_def TicketUpdateSchema_def TicketFieldWriteSchema_def TicketFieldModeSchema_def TicketMatchSchema_def
        nullable_def without_issues_def field_issues_def update_issues_def worst_status_def)
qed

lemma sample_ticket_clean: "findCredentialLeaks (parsed_value sample_ticket_ops) [''hunter2''] = []"
  using sample_strings js_includes_chars [of _ "''hunter2''"] by (auto simp: findCredentialLeaks_iff)

theorem ticket_verdict_supported_witness:
  "list_all (\<lambda>u. list_all (\<lambda>f. fw_read_back f = Some (fw_sent f)) (tu_fields u)) (to_updates sample_ticket_ops)"
proof -
  have "parseTicketOpsArtifact (\<lambda>_. True) (JObj sample_ticket_fields) [''hunter2''] = Inr sample_ticket_ops"
    using sample_ticket_schema sample_ticket_clean by (simp add: parsed_ticket_ops)
  from ticket_verdict_supported [OF this] show ?thesis
    by (simp add: sample_ticket_ops_def list_all_iff)
qed

theorem ticket_sweep_misses_undeclared_witness:
  "parseTicketOpsArtifact (\<lambda>_. True) (JObj (sample_ticket_fields @ [(''token'', JStr ''hunter2'')])) [''hunter2'']
    = Inr sample_ticket_ops"
proof -
  have "''token'' \<notin> set declared_fields" by (simp add: declared_fields_def)
  from ticket_sweep_misses_undeclared [OF this] sample_ticket_schema sample_ticket_clean show ?thesis
    by (simp add: findCredentialLeaks_iff)
qed

end
