(* ===== verification/Js_Text.thy ===== *)
theory Js_Text
  imports Task_Ids
begin

text \<open>
  Texts as JavaScript has them: the list of the UTF-16 code units of a string. The operations of
  \<open>String.prototype\<close> the code uses on text it did not write itself, the length in bytes that
  \<open>Buffer.byteLength\<close> gives, and \<open>Date.prototype.toISOString\<close>.
\<close>

type_synonym units = "nat list"

definition units :: "string \<Rightarrow> units" where "units s = map of_char s"

lemma units_append [simp]: "units (s @ t) = units s @ units t"
  by (simp add: units_def)

lemma length_units [simp]: "length (units s) = length s"
  by (simp add: units_def)

text \<open>A unit a regular expression matches with \<open>\s\<close>.\<close>

definition js_space :: "nat \<Rightarrow> bool" where
  "js_space c \<longleftrightarrow> (9 \<le> c \<and> c \<le> 13) \<or> c = 0x20 \<or> c = 0xA0 \<or> c = 0x1680 \<or> (0x2000 \<le> c \<and> c \<le> 0x200A)
     \<or> c = 0x2028 \<or> c = 0x2029 \<or> c = 0x202F \<or> c = 0x205F \<or> c = 0x3000 \<or> c = 0xFEFF"

definition js_trim :: "units \<Rightarrow> units" where
  "js_trim t = rev (dropWhile js_space (rev (dropWhile js_space t)))"

text \<open>\<open>replace(/\s+/g, " ")\<close>\<close>

function squeeze :: "units \<Rightarrow> units" where
  "squeeze [] = []"
| "squeeze (c # s) = (if js_space c then 0x20 # squeeze (dropWhile js_space s) else c # squeeze s)"
  by pat_completeness auto
termination by (relation "measure length") (auto simp: le_imp_less_Suc length_dropWhile_le)

text \<open>The bytes of a text in UTF-8. A surrogate with no partner is written as U+FFFD.\<close>

definition high_surrogate :: "nat \<Rightarrow> bool" where "high_surrogate c \<longleftrightarrow> 0xD800 \<le> c \<and> c \<le> 0xDBFF"
definition low_surrogate :: "nat \<Rightarrow> bool" where "low_surrogate c \<longleftrightarrow> 0xDC00 \<le> c \<and> c \<le> 0xDFFF"

definition unit_bytes :: "nat \<Rightarrow> nat" where
  "unit_bytes c = (if c < 0x80 then 1 else if c < 0x800 then 2 else 3)"

fun utf8_length :: "units \<Rightarrow> nat" where
  "utf8_length [] = 0"
| "utf8_length [c] = unit_bytes c"
| "utf8_length (c # d # s) =
    (if high_surrogate c \<and> low_surrogate d then 4 + utf8_length s else unit_bytes c + utf8_length (d # s))"

definition printable :: "nat \<Rightarrow> bool" where "printable c \<longleftrightarrow> 0x20 \<le> c \<and> c \<le> 0x7E"

lemma utf8_length_ascii: "list_all (\<lambda>c. c < 0x80) t \<Longrightarrow> utf8_length t = length t"
  by (induction t rule: utf8_length.induct) (auto simp: unit_bytes_def high_surrogate_def)

lemma utf8_length_printable: "list_all printable t \<Longrightarrow> utf8_length t = length t"
  by (rule utf8_length_ascii) (auto simp: list_all_iff printable_def)

lemma utf8_length_ge: "length t \<le> utf8_length t"
  by (induction t rule: utf8_length.induct) (auto simp: unit_bytes_def)

text \<open>\<open>split\<close> at a unit, and \<open>join\<close>.\<close>

fun split_units :: "nat \<Rightarrow> units \<Rightarrow> units list" where
  "split_units d [] = [[]]"
| "split_units d (c # cs) =
    (if c = d then [] # split_units d cs
     else (case split_units d cs of [] \<Rightarrow> [[c]] | s # ss \<Rightarrow> (c # s) # ss))"

fun join_units :: "units \<Rightarrow> units list \<Rightarrow> units" where
  "join_units sep [] = []"
| "join_units sep [s] = s"
| "join_units sep (s # t # ss) = s @ sep @ join_units sep (t # ss)"

lemma split_units_nonempty [simp]: "split_units d t \<noteq> []"
  by (induction t) (auto split: list.splits)

lemma split_units_clean: "s \<in> set (split_units d t) \<Longrightarrow> d \<notin> set s"
  by (induction t arbitrary: s) (auto split: list.splits if_splits)

lemma split_units_in: "s \<in> set (split_units d t) \<Longrightarrow> set s \<subseteq> set t"
  by (induction t arbitrary: s) (fastforce split: list.splits if_splits)+

lemma split_units_append:
  "d \<notin> set s \<Longrightarrow> split_units d (s @ d # t) = s # split_units d t"
  by (induction s) auto

lemma split_units_none: "d \<notin> set s \<Longrightarrow> split_units d s = [s]"
  by (induction s) auto

lemma split_join_units:
  "ss \<noteq> [] \<Longrightarrow> (\<And>s. s \<in> set ss \<Longrightarrow> d \<notin> set s) \<Longrightarrow> split_units d (join_units [d] ss) = ss"
  by (induction "[d]" ss rule: join_units.induct) (auto simp: split_units_append split_units_none)

lemma join_units_set: "set (join_units sep ss) \<subseteq> set sep \<union> \<Union> (set (map set ss))"
  by (induction sep ss rule: join_units.induct) auto

section \<open>Numbers\<close>

definition nat_text :: "nat \<Rightarrow> units" where "nat_text n = units (decimal n)"

definition int_text :: "int \<Rightarrow> units" where
  "int_text i = (if i < 0 then units ''-'' else []) @ nat_text (nat \<bar>i\<bar>)"

lemma nat_text_digits: "c \<in> set (nat_text n) \<Longrightarrow> 48 \<le> c \<and> c \<le> 57"
  using decimal_digits [of n] by (auto simp: nat_text_def units_def list_all_iff digit_def)

lemma int_text_printable: "c \<in> set (int_text n) \<Longrightarrow> printable c"
  using nat_text_digits [of c "nat \<bar>n\<bar>"] by (auto simp: int_text_def printable_def units_def split: if_splits)

section \<open>Instants\<close>

text \<open>
  \<open>new Date(ms).toISOString()\<close>. A year starts with the day \<open>day_from_year\<close>, and the year of a
  day is the last one that has started. The code throws a \<open>RangeError\<close>, here \<open>None\<close>, where the
  instant is more than \<open>8.64e15\<close> milliseconds away from 1970.
\<close>

definition ms_per_day :: int where "ms_per_day = 86400000"
definition max_instant :: int where "max_instant = 8640000000000000"

definition day_from_year :: "int \<Rightarrow> int" where
  "day_from_year y = 365 * (y - 1970) + (y - 1969) div 4 - (y - 1901) div 100 + (y - 1601) div 400"

definition year_of_day :: "int \<Rightarrow> int" where
  "year_of_day d =
    (let y = 1970 + (400 * d) div 146097 in
     if d < day_from_year y then y - 1 else if day_from_year (y + 1) \<le> d then y + 1 else y)"

definition leap_year :: "int \<Rightarrow> bool" where
  "leap_year y \<longleftrightarrow> y mod 4 = 0 \<and> (y mod 100 \<noteq> 0 \<or> y mod 400 = 0)"

definition month_days :: "int \<Rightarrow> int list" where
  "month_days y = [31, if leap_year y then 29 else 28, 31, 30, 31, 30, 31, 31, 30, 31, 30, 31]"

fun month_and_day :: "int list \<Rightarrow> int \<Rightarrow> int \<Rightarrow> int \<times> int" where
  "month_and_day (n # ns) m d = (if d < n \<or> ns = [] then (m, d + 1) else month_and_day ns (m + 1) (d - n))"
| "month_and_day [] m d = (m, d + 1)"

definition padded :: "nat \<Rightarrow> int \<Rightarrow> units" where
  "padded w i = (let t = nat_text (nat i) in replicate (w - length t) 48 @ t)"

definition year_text :: "int \<Rightarrow> units" where
  "year_text y = (if 0 \<le> y \<and> y \<le> 9999 then padded 4 y
    else units (if y < 0 then ''-'' else ''+'') @ padded 6 \<bar>y\<bar>)"

definition toISOString :: "int \<Rightarrow> units option" where
  "toISOString ms =
    (if \<bar>ms\<bar> > max_instant then None
     else let d = ms div ms_per_day; t = ms mod ms_per_day; y = year_of_day d;
              (m, day) = month_and_day (month_days y) 1 (d - day_from_year y) in
       Some (year_text y @ units ''-'' @ padded 2 m @ units ''-'' @ padded 2 day @ units ''T''
         @ padded 2 (t div 3600000) @ units '':'' @ padded 2 (t div 60000 mod 60) @ units '':''
         @ padded 2 (t div 1000 mod 60) @ units ''.'' @ padded 3 (t mod 1000) @ units ''Z''))"

lemma toISOString_epoch: "toISOString 0 = Some (units ''1970-01-01T00:00:00.000Z'')"
  "toISOString 1709208000123 = Some (units ''2024-02-29T12:00:00.123Z'')"
  by code_simp+

definition printable_text :: "units \<Rightarrow> bool" where "printable_text t \<longleftrightarrow> list_all printable t"

lemma printable_append [simp]: "printable_text (s @ t) \<longleftrightarrow> printable_text s \<and> printable_text t"
  by (simp add: printable_text_def)

lemma printable_units: "list_all (\<lambda>c. printable (of_char c)) s \<Longrightarrow> printable_text (units s)"
  by (simp add: printable_text_def units_def list_all_iff)

lemma printable_nat_text [simp]: "printable_text (nat_text n)"
  by (auto simp: printable_text_def list_all_iff printable_def dest!: nat_text_digits)

lemma printable_int_text [simp]: "printable_text (int_text i)"
  by (auto simp: printable_text_def list_all_iff int_text_printable)

lemma printable_padded [simp]: "printable_text (padded w i)"
  using printable_nat_text by (auto simp: padded_def Let_def printable_text_def list_all_iff printable_def)

lemma printable_year_text [simp]: "printable_text (year_text y)"
  by (simp add: year_text_def printable_units printable_def)

lemma toISOString_printable: "toISOString ms = Some t \<Longrightarrow> printable_text t"
  by (auto simp: toISOString_def Let_def printable_units printable_def split: if_splits prod.splits)

lemma toISOString_Some: "\<bar>ms\<bar> \<le> max_instant \<Longrightarrow> \<exists>t. toISOString ms = Some t"
  by (simp add: toISOString_def Let_def split: prod.splits)

end
