(* ===== verification/Body_Scan.thy ===== *)
theory Body_Scan
  imports Secret_Sweep Js_Text
begin

text \<open>
  The search of a document's body for a credential (\<open>credentialInBody\<close> of
  \<open>src/harvest/reconcile.ts\<close>): one pass over the text that finds the string literals, and decodes
  those that hold an escape. A text is the list of its UTF-16 code units. The lemmas show that no
  literal is handed to the decoder that the decoder refuses, and that in a text made of literals
  and of units outside them every literal that decodes to a text with a credential is found.
\<close>

definition QUOTE :: nat where "QUOTE = 0x22"
definition BACKSLASH :: nat where "BACKSLASH = 0x5C"

text \<open>\<open>" \ / b f n r t\<close>, each with the unit it stands for.\<close>

definition short_escapes :: "(nat \<times> nat) list" where
  "short_escapes = [(0x22, 0x22), (0x5C, 0x5C), (0x2F, 0x2F), (0x62, 8), (0x66, 12), (0x6E, 10), (0x72, 13), (0x74, 9)]"

definition isHexDigit :: "nat \<Rightarrow> bool" where
  "isHexDigit c \<longleftrightarrow> (0x30 \<le> c \<and> c \<le> 0x39) \<or> (0x41 \<le> c \<and> c \<le> 0x46) \<or> (0x61 \<le> c \<and> c \<le> 0x66)"

definition hex_value :: "nat \<Rightarrow> nat" where
  "hex_value c = (if c \<le> 0x39 then c - 0x30 else if c \<le> 0x46 then c - 0x37 else c - 0x57)"

text \<open>\<open>decodeJsonLiteral\<close>: \<open>JSON.parse\<close> of a span that starts with a quote, read after that quote.\<close>

fun literal_rest :: "units \<Rightarrow> units option" where
  "literal_rest [] = None"
| "literal_rest [c] = (if c = QUOTE then Some [] else None)"
| "literal_rest (c # e # s) =
    (if c = QUOTE then None
     else if c = BACKSLASH then
       (case map_of short_escapes e of
          Some v \<Rightarrow> map_option ((#) v) (literal_rest s)
        | None \<Rightarrow>
            (case s of
               w # x # y # z # s' \<Rightarrow>
                 if e = 0x75 \<and> list_all isHexDigit [w, x, y, z]
                 then map_option ((#) (((hex_value w * 16 + hex_value x) * 16 + hex_value y) * 16 + hex_value z)) (literal_rest s')
                 else None
             | _ \<Rightarrow> None))
     else if c < 0x20 then None
     else map_option ((#) c) (literal_rest (e # s)))"

definition decodeJsonLiteral :: "units \<Rightarrow> units option" where
  "decodeJsonLiteral lit = (case lit of [] \<Rightarrow> None | c # s \<Rightarrow> if c = QUOTE then literal_rest s else None)"

datatype escape = Decodes | Refused | Cut

fun hex_at :: "units \<Rightarrow> nat list \<Rightarrow> escape" where
  "hex_at t [] = Decodes"
| "hex_at t (j # js) =
    (if j \<ge> length t then Cut else if \<not> isHexDigit (t ! j) then Refused else hex_at t js)"

definition escapeAt :: "units \<Rightarrow> nat \<Rightarrow> escape" where
  "escapeAt t i =
    (if i + 1 \<ge> length t then Cut
     else let e = t ! (i + 1) in
       if e \<in> fst ` set short_escapes then Decodes
       else if e \<noteq> 0x75 then Refused
       else hex_at t [i + 2..<i + 6])"

definition span_units :: "units \<Rightarrow> nat \<Rightarrow> nat \<Rightarrow> units" where
  "span_units t a b = take (b - a) (drop a t)"

text \<open>The literal still open where the text, or what can be read of it, ends.\<close>

definition open_literal :: "(units \<Rightarrow> bool) \<Rightarrow> units \<Rightarrow> nat \<Rightarrow> nat option \<Rightarrow> bool \<Rightarrow> bool \<Rightarrow> bool" where
  "open_literal holds t stop start hasEscape decodable =
    (case start of None \<Rightarrow> False
     | Some st \<Rightarrow> hasEscape \<and> decodable \<and> holds (span_units t st stop @ [QUOTE]))"

function literal_scan :: "(units \<Rightarrow> bool) \<Rightarrow> units \<Rightarrow> nat \<Rightarrow> nat option \<Rightarrow> bool \<Rightarrow> bool \<Rightarrow> bool" where
  "literal_scan holds t i start hasEscape decodable =
    (if i \<ge> length t then open_literal holds t (length t) start hasEscape decodable
     else let c = t ! i in
       case start of
         None \<Rightarrow>
           if c = QUOTE then literal_scan holds t (i + 1) (Some i) False True
           else literal_scan holds t (i + 1) None hasEscape decodable
       | Some st \<Rightarrow>
           if c = BACKSLASH then
             (case escapeAt t i of
                Cut \<Rightarrow> open_literal holds t i start hasEscape decodable
              | Decodes \<Rightarrow> literal_scan holds t (i + 2) start True decodable
              | Refused \<Rightarrow> literal_scan holds t (i + 2) start True False)
           else if c = QUOTE then
             if hasEscape \<and> decodable \<and> holds (span_units t st (i + 1)) then True
             else literal_scan holds t (i + 1) None hasEscape decodable
           else if c < 0x20 then literal_scan holds t (i + 1) start hasEscape False
           else literal_scan holds t (i + 1) start hasEscape decodable)"
  by auto
termination by (relation "measure (\<lambda>(holds, t, i, _). length t - i)") auto

declare literal_scan.simps [simp del]

datatype body_credential = In_bytes | In_decoded

text \<open>
  \<open>spelled\<close> is the search of the body's bytes for a needle; a needle in a decoded literal is
  searched for in its code units.
\<close>

definition holds_needle :: "units list \<Rightarrow> units \<Rightarrow> bool" where
  "holds_needle needles lit =
    (case decodeJsonLiteral lit of None \<Rightarrow> False | Some d \<Rightarrow> list_ex (\<lambda>n. sublist n d) needles)"

definition credentialInBody :: "(string \<Rightarrow> bool) \<Rightarrow> units \<Rightarrow> string list \<Rightarrow> body_credential option" where
  "credentialInBody spelled t secrets =
    (let needles = [s \<leftarrow> secrets. \<not> blank s] in
     if needles = [] then None
     else if list_ex spelled needles then Some In_bytes
     else if literal_scan (holds_needle (map units needles)) t 0 None False True then Some In_decoded
     else None)"

section \<open>Literals\<close>

text \<open>The parts of a string literal of JSON, how each is written and what it stands for.\<close>

datatype literal_part = Plain nat | Short nat | Hex nat nat nat nat

fun part_ok :: "literal_part \<Rightarrow> bool" where
  "part_ok (Plain c) \<longleftrightarrow> c \<noteq> QUOTE \<and> c \<noteq> BACKSLASH \<and> 0x20 \<le> c"
| "part_ok (Short e) \<longleftrightarrow> e \<in> fst ` set short_escapes"
| "part_ok (Hex w x y z) \<longleftrightarrow> list_all isHexDigit [w, x, y, z]"

fun part_units :: "literal_part \<Rightarrow> units" where
  "part_units (Plain c) = [c]"
| "part_units (Short e) = [BACKSLASH, e]"
| "part_units (Hex w x y z) = [BACKSLASH, 0x75, w, x, y, z]"

fun part_value :: "literal_part \<Rightarrow> nat" where
  "part_value (Plain c) = c"
| "part_value (Short e) = the (map_of short_escapes e)"
| "part_value (Hex w x y z) = ((hex_value w * 16 + hex_value x) * 16 + hex_value y) * 16 + hex_value z"

fun is_escape :: "literal_part \<Rightarrow> bool" where
  "is_escape (Plain c) \<longleftrightarrow> False"
| "is_escape _ \<longleftrightarrow> True"

definition parts_units :: "literal_part list \<Rightarrow> units" where
  "parts_units ps = concat (map part_units ps)"

definition literal_units :: "literal_part list \<Rightarrow> units" where
  "literal_units ps = QUOTE # parts_units ps @ [QUOTE]"

lemma parts_units_simps [simp]:
  "parts_units [] = []" "parts_units (p # ps) = part_units p @ parts_units ps"
  "parts_units (ps @ qs) = parts_units ps @ parts_units qs"
  by (simp_all add: parts_units_def)

lemma u_no_short: "map_of short_escapes 0x75 = None"
  by (simp add: short_escapes_def)

lemma literal_rest_parts:
  "list_all part_ok ps \<Longrightarrow> literal_rest (parts_units ps @ [QUOTE]) = Some (map part_value ps)"
proof (induction ps)
  case (Cons p ps)
  obtain d s where tl: "parts_units ps @ [QUOTE] = d # s" by (cases "parts_units ps @ [QUOTE]") auto
  show ?case
  proof (cases p)
    case (Short e)
    with Cons.prems obtain v where "map_of short_escapes e = Some v"
      by (metis list.pred_inject(2) part_ok.simps(2) map_of_eq_None_iff not_None_eq)
    with Cons Short tl show ?thesis by (simp add: QUOTE_def BACKSLASH_def)
  next
    case (Plain c)
    with Cons tl show ?thesis by simp
  next
    case (Hex w x y z)
    with Cons tl show ?thesis by (simp add: u_no_short QUOTE_def BACKSLASH_def)
  qed
qed simp

lemma decode_literal: "list_all part_ok ps \<Longrightarrow> decodeJsonLiteral (literal_units ps) = Some (map part_value ps)"
  by (simp add: decodeJsonLiteral_def literal_units_def literal_rest_parts)


section \<open>What is handed to the decoder\<close>

lemma span_units_Suc:
  "st \<le> j \<Longrightarrow> j < length t \<Longrightarrow> span_units t st (Suc j) = span_units t st j @ [t ! j]"
  by (simp add: span_units_def Suc_diff_le take_Suc_conv_app_nth)

text \<open>
  Inside a literal that is still decodable, the units from its quote on are whole parts; the scan is
  \<open>k\<close> units before the end of the last of them, which are hexadecimal digits.
\<close>

definition parsed_to :: "units \<Rightarrow> nat \<Rightarrow> nat \<Rightarrow> nat \<Rightarrow> literal_part list \<Rightarrow> bool" where
  "parsed_to t st i k ps \<longleftrightarrow> st < i \<and> i + k \<le> length t \<and> list_all part_ok ps \<and>
    span_units t st (i + k) = QUOTE # parts_units ps \<and> (\<forall>j < k. isHexDigit (t ! (i + j)))"

lemma parsed_to_digit: "parsed_to t st i (Suc k) ps \<Longrightarrow> parsed_to t st (Suc i) k ps \<and> isHexDigit (t ! i)"
  by (auto simp: parsed_to_def All_less_Suc2)

lemma parsed_to_part:
  assumes "parsed_to t st i 0 ps" and "part_ok p"
    and "i + length (part_units p) \<le> length t" and "take (length (part_units p)) (drop i t) = part_units p"
    and "k \<le> length (part_units p)" and "\<forall>j < k. isHexDigit (t ! (i + length (part_units p) - k + j))"
    and "k < length (part_units p)"
  shows "parsed_to t st (i + length (part_units p) - k) k (ps @ [p])"
proof -
  let ?n = "length (part_units p)"
  have "st \<le> i" "i \<le> length t" using assms(1) by (auto simp: parsed_to_def)
  then have "i + ?n - st = (i - st) + ?n" "drop (i - st) (drop st t) = drop i t" by simp_all
  then have "span_units t st (i + ?n) = span_units t st i @ take ?n (drop i t)"
    by (simp only: span_units_def take_add)
  with assms show ?thesis by (auto simp: parsed_to_def)
qed

lemma hex_at_Decodes: "hex_at t js = Decodes \<longleftrightarrow> (\<forall>j \<in> set js. j < length t \<and> isHexDigit (t ! j))"
  by (induction js) auto

lemma hex_not_special: "isHexDigit c \<Longrightarrow> c \<noteq> QUOTE \<and> c \<noteq> BACKSLASH \<and> \<not> c < 0x20"
  by (auto simp: isHexDigit_def QUOTE_def BACKSLASH_def)

lemma upt_4: "[i + 2..<i + 6] = [i + 2, i + 3, i + 4, i + (5 :: nat)]"
  by (simp add: upt_rec)

lemma escape_Decodes:
  assumes "escapeAt t i = Decodes" and "t ! i = BACKSLASH" and "parsed_to t st i 0 ps"
  shows "\<exists>k qs. parsed_to t st (i + 2) k qs"
proof -
  let ?e = "t ! (i + 1)"
  from assms have i: "i + 1 < length t" by (auto simp: escapeAt_def split: if_splits)
  then have two: "take 2 (drop i t) = [BACKSLASH, ?e]"
    using assms(2) by (simp add: numeral_2_eq_2 take_Suc_conv_app_nth)
  show ?thesis
  proof (cases "?e \<in> fst ` set short_escapes")
    case True
    from parsed_to_part [OF assms(3), of "Short ?e" 0] True i two show ?thesis by (auto simp: numeral_2_eq_2)
  next
    case False
    then have u: "?e = 0x75" "hex_at t [i + 2..<i + 6] = Decodes"
      using assms(1) i by (auto simp: escapeAt_def Let_def split: if_splits)
    then have digits: "i + 5 < length t" "isHexDigit (t ! (i + 2))" "isHexDigit (t ! (i + 3))"
      "isHexDigit (t ! (i + 4))" "isHexDigit (t ! (i + 5))"
      unfolding hex_at_Decodes upt_4 by simp_all
    let ?p = "Hex (t ! (i + 2)) (t ! (i + 3)) (t ! (i + 4)) (t ! (i + 5))"
    have "take 6 (drop i t) = part_units ?p"
      using digits(1) assms(2) u(1)
      by (simp add: eval_nat_numeral take_Suc_conv_app_nth add.commute)
    moreover have "\<forall>j < 4. isHexDigit (t ! (i + 2 + j))"
      using digits by (auto simp: less_Suc_eq eval_nat_numeral)
    ultimately have "parsed_to t st (i + length (part_units ?p) - 4) 4 (ps @ [?p])"
      using digits by (intro parsed_to_part [OF assms(3)]) (simp_all add: eval_nat_numeral)
    then show ?thesis by (auto intro!: exI)
  qed
qed


lemma parsed_to_special:
  assumes "parsed_to t st i k ps" and "i < length t" and "t ! i = QUOTE \<or> t ! i = BACKSLASH \<or> t ! i < 0x20"
  shows "k = 0"
proof (cases k)
  case (Suc j)
  with assms parsed_to_digit hex_not_special show ?thesis by blast
qed

lemma parsed_to_step:
  assumes "parsed_to t st i k ps" and "i < length t" and "t ! i \<noteq> QUOTE" "t ! i \<noteq> BACKSLASH" "0x20 \<le> t ! i"
  shows "\<exists>k qs. parsed_to t st (i + 1) k qs"
proof (cases k)
  case (Suc j)
  with assms(1) parsed_to_digit [of t st i j ps] show ?thesis by auto
next
  case 0
  have "take 1 (drop i t) = [t ! i]" using assms(2) by (simp add: take_Suc_conv_app_nth)
  with parsed_to_part [of t st i ps "Plain (t ! i)" 0] assms 0 show ?thesis by auto
qed

lemma parsed_to_closes:
  assumes "parsed_to t st i 0 ps"
  shows "span_units t st i @ [QUOTE] = literal_units ps" and "list_all part_ok ps"
  using assms by (auto simp: parsed_to_def literal_units_def)

text \<open>The scan with a decoder that refuses nothing it is handed.\<close>

lemma literal_scan_guarded:
  assumes "\<And>st. start = Some st \<Longrightarrow> decodable \<Longrightarrow> \<exists>k ps. parsed_to t st i k ps"
  shows "literal_scan holds t i start hasEscape decodable =
    literal_scan (\<lambda>s. decodeJsonLiteral s \<noteq> None \<and> holds s) t i start hasEscape decodable"
  using assms
proof (induction holds t i start hasEscape decodable rule: literal_scan.induct)
  case (1 holds t i start hasEscape decodable)
  let ?g = "\<lambda>s. decodeJsonLiteral s \<noteq> None \<and> holds s"
  have closes: "holds (span_units t st i @ [QUOTE]) \<longleftrightarrow> ?g (span_units t st i @ [QUOTE])"
    if st: "start = Some st" "decodable" and here: "i \<ge> length t \<or> t ! i = QUOTE \<or> t ! i = BACKSLASH" for st
  proof -
    obtain k ps where p: "parsed_to t st i k ps" using "1.prems" [OF st] by blast
    then have "k = 0" using parsed_to_special [OF p] here by (cases "i < length t") (auto simp: parsed_to_def)
    with p show ?thesis using parsed_to_closes decode_literal by fastforce
  qed
  show ?case
  proof (cases "i \<ge> length t")
    case True
    then have "start = Some st \<Longrightarrow> decodable \<Longrightarrow> i = length t" for st using "1.prems" by (fastforce simp: parsed_to_def)
    with True closes show ?thesis
      by (subst (1 2) literal_scan.simps) (cases start; auto simp: open_literal_def)
  next
    case False
    show ?thesis
    proof (cases start)
      case None
      have "\<exists>k ps. parsed_to t i (Suc i) k ps" if "t ! i = QUOTE"
        using False that by (intro exI [of _ 0] exI [of _ "[]"]) (simp add: parsed_to_def span_units_def take_Suc_conv_app_nth)
      with None False "1.IH"(1,2) show ?thesis
        by (subst (1 2) literal_scan.simps) (auto simp: Let_def)
    next
      case (Some st)
      have step: "\<exists>k qs. parsed_to t st (i + 1) k qs"
        if "decodable" "t ! i \<noteq> QUOTE" "t ! i \<noteq> BACKSLASH" "0x20 \<le> t ! i"
        using "1.prems" [OF Some that(1)] parsed_to_step that(2-4) False by (meson not_le)
      have escaped: "\<exists>k qs. parsed_to t st (i + 2) k qs"
        if dec: "decodable" and at: "t ! i = BACKSLASH" "escapeAt t i = Decodes"
      proof -
        obtain k ps where p: "parsed_to t st i k ps" using "1.prems" [OF Some dec] by blast
        then have "k = 0" using parsed_to_special [OF p] at(1) False by simp
        with p show ?thesis using escape_Decodes [OF at(2,1)] by blast
      qed
      have close: "holds (span_units t st (i + 1)) \<longleftrightarrow> ?g (span_units t st (i + 1))" if "decodable" "t ! i = QUOTE"
      proof -
        have "st \<le> i" using "1.prems" [OF Some that(1)] by (auto simp: parsed_to_def)
        then have "span_units t st (i + 1) = span_units t st i @ [QUOTE]"
          using span_units_Suc [of st i t] False that(2) by simp
        then show ?thesis using closes [OF Some that(1)] that(2) by simp
      qed
      show ?thesis
      proof (cases "t ! i = BACKSLASH")
        case True
        show ?thesis
        proof (cases "escapeAt t i")
          case Decodes
          then show ?thesis using True Some False "1.IH"(3) escaped
            by (subst (1 2) literal_scan.simps) (simp add: Let_def)
        next
          case Refused
          then show ?thesis using True Some False "1.IH"(4)
            by (subst (1 2) literal_scan.simps) (simp add: Let_def)
        next
          case Cut
          then show ?thesis using True Some False closes
            by (subst (1 2) literal_scan.simps) (auto simp: Let_def open_literal_def)
        qed
      next
        case other: False
        show ?thesis
        proof (cases "t ! i = QUOTE")
          case True
          then show ?thesis using other Some False "1.IH"(5) close
            by (subst (1 2) literal_scan.simps) (auto simp: Let_def)
        next
          case nq: False
          then show ?thesis using other Some False "1.IH"(6,7) step
            by (subst (1 2) literal_scan.simps) (auto simp: Let_def not_less)
        qed
      qed
    qed
  qed
qed


section \<open>What is found\<close>

lemma scan_plain:
  assumes "t = pre @ c # rest" and "c \<noteq> QUOTE" "c \<noteq> BACKSLASH" "0x20 \<le> c"
  shows "literal_scan holds t (length pre) (Some st) esc True = literal_scan holds t (length pre + 1) (Some st) esc True"
  using assms by (subst literal_scan.simps) (simp add: Let_def)

lemma scan_hex_digits:
  assumes "list_all isHexDigit ds" and "t = pre @ ds @ rest"
  shows "literal_scan holds t (length pre) (Some st) esc True = literal_scan holds t (length pre + length ds) (Some st) esc True"
  using assms
proof (induction ds arbitrary: pre)
  case (Cons d ds)
  then have "literal_scan holds t (length pre) (Some st) esc True = literal_scan holds t (length (pre @ [d])) (Some st) esc True"
    using scan_plain [of t pre d "ds @ rest"] hex_not_special [of d] by simp
  also have "\<dots> = literal_scan holds t (length (pre @ [d]) + length ds) (Some st) esc True"
    by (rule Cons.IH) (use Cons.prems in auto)
  finally show ?case by simp
qed simp

lemma scan_part:
  assumes "part_ok p" and t: "t = pre @ part_units p @ rest"
  shows "literal_scan holds t (length pre) (Some st) esc True =
    literal_scan holds t (length pre + length (part_units p)) (Some st) (esc \<or> is_escape p) True"
proof (cases p)
  case (Plain c)
  with assms scan_plain [of t pre c rest] show ?thesis by simp
next
  case (Short e)
  with assms have "escapeAt t (length pre) = Decodes"
    by (simp add: escapeAt_def nth_append)
  with Short t show ?thesis
    by (subst literal_scan.simps) (simp add: Let_def nth_append)
next
  case (Hex w x y z)
  let ?n = "length pre"
  from assms Hex have digits: "isHexDigit w" "isHexDigit x" "isHexDigit y" "isHexDigit z" by simp_all
  have at: "t ! (?n + 1) = 0x75" "t ! (?n + 2) = w" "t ! (?n + 3) = x" "t ! (?n + 4) = y" "t ! (?n + 5) = z"
    "?n + 5 < length t" "t ! ?n = BACKSLASH"
    using t Hex by (simp_all add: nth_append)
  have "0x75 \<notin> fst ` set short_escapes" by (simp add: short_escapes_def)
  then have "escapeAt t ?n = Decodes"
    using at digits unfolding escapeAt_def upt_4 by (simp add: Let_def)
  then have "literal_scan holds t ?n (Some st) esc True = literal_scan holds t (?n + 2) (Some st) True True"
    using at by (subst literal_scan.simps) (simp add: Let_def)
  also have "\<dots> = literal_scan holds t (?n + 6) (Some st) True True"
    using scan_hex_digits [of "[w, x, y, z]" t "pre @ [BACKSLASH, 0x75]" rest holds st True] digits t Hex
    by (simp add: eval_nat_numeral)
  finally show ?thesis using Hex by (simp add: eval_nat_numeral)
qed

lemma scan_parts:
  assumes "list_all part_ok ps" and "t = pre @ parts_units ps @ rest"
  shows "literal_scan holds t (length pre) (Some st) esc True =
    literal_scan holds t (length pre + length (parts_units ps)) (Some st) (esc \<or> list_ex is_escape ps) True"
  using assms
proof (induction ps arbitrary: pre esc)
  case (Cons p ps)
  then have "literal_scan holds t (length pre) (Some st) esc True =
      literal_scan holds t (length (pre @ part_units p)) (Some st) (esc \<or> is_escape p) True"
    using scan_part [of p t pre "parts_units ps @ rest"] by simp
  also have "\<dots> = literal_scan holds t (length (pre @ part_units p) + length (parts_units ps)) (Some st)
      ((esc \<or> is_escape p) \<or> list_ex is_escape ps) True"
    by (rule Cons.IH) (use Cons.prems in auto)
  finally show ?case by (simp add: add.assoc disj_assoc)
qed simp

lemma scan_outside:
  assumes "t = pre @ c # rest" and "c \<noteq> QUOTE"
  shows "literal_scan holds t (length pre) None esc dec = literal_scan holds t (length pre + 1) None esc dec"
  using assms by (subst literal_scan.simps) simp

lemma scan_literal:
  assumes "list_all part_ok ps" and t: "t = pre @ literal_units ps @ rest"
  shows "literal_scan holds t (length pre) None esc dec =
    (list_ex is_escape ps \<and> holds (literal_units ps) \<or>
     literal_scan holds t (length pre + length (literal_units ps)) None (list_ex is_escape ps) True)"
proof -
  let ?n = "length pre" and ?m = "length (parts_units ps)"
  have "literal_scan holds t ?n None esc dec = literal_scan holds t (?n + 1) (Some ?n) False True"
    using t by (subst literal_scan.simps) (simp add: literal_units_def)
  also have "\<dots> = literal_scan holds t (?n + 1 + ?m) (Some ?n) (list_ex is_escape ps) True"
    using scan_parts [OF assms(1), of t "pre @ [QUOTE]" "QUOTE # rest" holds ?n False] t
    by (simp add: literal_units_def)
  also have "\<dots> = (list_ex is_escape ps \<and> holds (span_units t ?n (?n + 1 + ?m + 1)) \<or>
      literal_scan holds t (?n + 1 + ?m + 1) None (list_ex is_escape ps) True)"
    using t by (subst literal_scan.simps) (auto simp: literal_units_def Let_def nth_append QUOTE_def BACKSLASH_def)
  also have "span_units t ?n (?n + 1 + ?m + 1) = literal_units ps"
    using t by (simp add: span_units_def literal_units_def)
  finally show ?thesis by (simp add: literal_units_def)
qed

datatype piece = Outside nat | Literal "literal_part list"

fun piece_ok :: "piece \<Rightarrow> bool" where
  "piece_ok (Outside c) \<longleftrightarrow> c \<noteq> QUOTE"
| "piece_ok (Literal ps) \<longleftrightarrow> list_all part_ok ps"

fun piece_units :: "piece \<Rightarrow> units" where
  "piece_units (Outside c) = [c]"
| "piece_units (Literal ps) = literal_units ps"

definition text_units :: "piece list \<Rightarrow> units" where
  "text_units ps = concat (map piece_units ps)"

lemma scan_pieces:
  assumes "list_all piece_ok pieces" and "t = pre @ text_units pieces @ rest"
    and "Literal ps \<in> set pieces" and "list_ex is_escape ps" and "holds (literal_units ps)"
  shows "literal_scan holds t (length pre) None esc dec"
  using assms
proof (induction pieces arbitrary: pre esc dec)
  case (Cons p pieces pre esc dec)
  show ?case
  proof (cases p)
    case (Outside c)
    then have "literal_scan holds t (length pre) None esc dec = literal_scan holds t (length (pre @ [c])) None esc dec"
      using Cons.prems scan_outside [of t pre c "text_units pieces @ rest"] by (simp add: text_units_def)
    also have "literal_scan holds t (length (pre @ [c])) None esc dec"
      by (rule Cons.IH) (use Cons.prems Outside in \<open>auto simp: text_units_def\<close>)
    finally show ?thesis by simp
  next
    case (Literal qs)
    have t: "t = pre @ literal_units qs @ (text_units pieces @ rest)"
      using Literal Cons.prems by (simp add: text_units_def)
    have "literal_scan holds t (length (pre @ literal_units qs)) None (list_ex is_escape qs) True"
      if "Literal ps \<in> set pieces"
      by (rule Cons.IH) (use Cons.prems Literal that in \<open>auto simp: text_units_def\<close>)
    with scan_literal [OF _ t, of holds esc dec] Cons.prems Literal show ?thesis by auto
  qed
qed simp


lemma escape_free_decodes: "\<not> list_ex is_escape ps \<Longrightarrow> parts_units ps = map part_value ps"
proof (induction ps)
  case (Cons p ps)
  then show ?case by (cases p) auto
qed simp

text \<open>
  The search of a body finds every credential a string literal stands for, and wastes no decode.
  A text that starts with any pieces, whole literals and units outside them, is searched as JSON
  reads it: when some literal among them decodes to a text with a secret in it, a credential is
  reported, provided that the byte search finds the secrets the text spells out. And every span the
  scan hands to the decoder is a literal the decoder accepts, in any text.
\<close>

theorem credential_in_literal_found:
  assumes "list_all piece_ok pieces" and "Literal ps \<in> set pieces"
    and "s \<in> set secrets" and "\<not> blank s" and "sublist (units s) (map part_value ps)"
    and spelled: "\<And>n. sublist (units n) (text_units pieces @ rest) \<Longrightarrow> spelled n"
  shows "credentialInBody spelled (text_units pieces @ rest) secrets \<noteq> None"
proof (cases "list_ex is_escape ps")
  case True
  have ps: "list_all part_ok ps" using assms(1,2) by (auto simp: list_all_iff)
  have "holds_needle (map units [s \<leftarrow> secrets. \<not> blank s]) (literal_units ps)"
    using assms(3-5) by (auto simp: holds_needle_def decode_literal [OF ps] list_ex_iff)
  then have "literal_scan (holds_needle (map units [s \<leftarrow> secrets. \<not> blank s])) (text_units pieces @ rest) 0 None False True"
    using scan_pieces [of pieces "text_units pieces @ rest" "[]" rest ps _ False True] assms(1,2) True by simp
  moreover have "[s \<leftarrow> secrets. \<not> blank s] \<noteq> []" using assms(3,4) by (auto simp: filter_empty_conv)
  ultimately show ?thesis by (simp add: credentialInBody_def Let_def)
next
  case False
  have "sublist (parts_units ps) (text_units pieces @ rest)"
  proof -
    from assms(2) obtain xs ys where "pieces = xs @ Literal ps # ys" by (meson split_list)
    then have "text_units pieces @ rest =
        (text_units xs @ [QUOTE]) @ parts_units ps @ (QUOTE # text_units ys @ rest)"
      by (simp add: text_units_def literal_units_def)
    then show ?thesis by (metis sublist_appendI)
  qed
  then have "spelled s"
    using assms(5) spelled [of s] by (simp add: escape_free_decodes [OF False])
  with assms(3,4) have "[s \<leftarrow> secrets. \<not> blank s] \<noteq> []" "list_ex spelled [s \<leftarrow> secrets. \<not> blank s]"
    by (auto simp: filter_empty_conv list_ex_iff)
  then show ?thesis by (simp add: credentialInBody_def Let_def)
qed

text \<open>
  The scan decodes only what decodes. Its result is the same for a search that first checks that
  the span is a string literal JSON accepts, so no span it hands over is refused.
\<close>

theorem scan_hands_over_literals:
  "literal_scan holds t 0 None False True =
    literal_scan (\<lambda>s. decodeJsonLiteral s \<noteq> None \<and> holds s) t 0 None False True"
  by (rule literal_scan_guarded) simp

text \<open>The theorem on a body whose literal spells \<open>ghp\<close> with an escape for its first character.\<close>

definition sample_body :: "piece list" where
  "sample_body = [Outside 0x7B, Literal [Hex 0x30 0x30 0x36 0x37, Plain 0x68, Plain 0x70], Outside 0x7D]"

theorem credential_in_literal_found_witness:
  "credentialInBody (\<lambda>n. sublist (units n) (text_units sample_body @ [])) (text_units sample_body @ []) [''ghp''] \<noteq> None"
proof (rule credential_in_literal_found [where ps = "[Hex 0x30 0x30 0x36 0x37, Plain 0x68, Plain 0x70]" and s = "''ghp''"])
  show "list_all piece_ok sample_body" by code_simp
  show "\<not> blank ''ghp''" by code_simp
  show "sublist (units ''ghp'') (map part_value [Hex 0x30 0x30 0x36 0x37, Plain 0x68, Plain 0x70])" by code_simp
qed (simp_all add: sample_body_def)

end
