(* ===== verification/Collation_Census.thy ===== *)
theory Collation_Census
  imports Collation Adjudicate
begin

text \<open>
  The structural census of a collation (\<open>src/harvest/collation-census.ts\<close>): where each finding
  points, how many findings how many readers agree on, and what of it reaches the adjudicator.
  The weighing of the census, \<open>censusCeiling\<close>, is in theory Adjudicate; the lemmas here join the
  two.
\<close>

section \<open>Where a finding points\<close>

definition workdirRelative :: "host_path \<Rightarrow> string \<Rightarrow> string list option" where
  "workdirRelative workdir candidate =
    (let rel = relative_path workdir (resolve_path workdir candidate) in
     if rel = [] then None else if hd rel = ''..'' then None else Some rel)"

text \<open>\<open>/\.[^.\s]+$/\<close>\<close>

definition has_extension :: "string \<Rightarrow> bool" where
  "has_extension s \<longleftrightarrow>
    (let ext = takeWhile (\<lambda>c. c \<noteq> CHR ''.'' \<and> \<not> space_char c) (rev s);
         front = drop (length ext) (rev s)
     in ext \<noteq> [] \<and> front \<noteq> [] \<and> hd front = CHR ''.'')"

definition looksLikePhrase :: "string list \<Rightarrow> bool" where
  "looksLikePhrase rel \<longleftrightarrow>
    (if \<not> list_ex (list_ex space_char) rel then False
     else if length rel > 1 then False
     else \<not> has_extension (join_slash rel))"

datatype location_problem =
    Control_character | Backslash | Empty_path | Outside_workdir | Is_a_phrase "string list" | Bad_line int

definition findingLocationProblem :: "string \<Rightarrow> int \<Rightarrow> host_path \<Rightarrow> location_problem option" where
  "findingLocationProblem file line workdir =
    (if list_ex control_char file then Some Control_character
     else if CHR 0x5C \<in> set file then Some Backslash
     else if file = [] then Some Empty_path
     else case workdirRelative workdir file of
       None \<Rightarrow> Some Outside_workdir
     | Some rel \<Rightarrow>
         if looksLikePhrase rel then Some (Is_a_phrase rel)
         else if line < 1 then Some (Bad_line line)
         else None)"

lemma located_below_workdir:
  assumes "findingLocationProblem file line workdir = None" and "plain_path workdir"
  shows "\<exists>ss. resolve_path workdir file = workdir @ ss \<and> ss \<noteq> [] \<and> 1 \<le> line"
proof -
  from assms(1) obtain rel where "workdirRelative workdir file = Some rel" and line: "1 \<le> line"
    by (auto simp: findingLocationProblem_def split: if_splits option.splits)
  then have rel: "rel = relative_path workdir (resolve_path workdir file)" "rel \<noteq> []" "hd rel \<noteq> ''..''"
    by (auto simp: workdirRelative_def Let_def split: if_splits)
  then have "resolvedWithin workdir (resolve_path workdir file)" by (simp add: resolvedWithin_def Let_def)
  with within_iff assms(2) obtain ss where ss: "resolve_path workdir file = workdir @ ss" by auto
  with rel(1,2) have "ss \<noteq> []" by (simp add: relative_prefix)
  with ss line show ?thesis by blast
qed

section \<open>The census\<close>

datatype census_defect = Finding_defect nat location_problem | Refusal_defect collation_refusal

record census =
  ce_readable :: bool
  ce_refusal :: "collation_refusal option"
  ce_declared :: "int option"
  ce_counted :: nat
  ce_located :: nat
  ce_lenses_total :: nat
  ce_lenses_reported :: nat
  ce_lenses_missing :: "string list"
  ce_agreement :: "(nat \<times> nat) list"
  ce_defects :: "census_defect list"

definition finding_defect :: "host_path \<Rightarrow> nat \<times> collation_finding \<Rightarrow> census_defect option" where
  "finding_defect workdir = (\<lambda>(i, f).
    map_option (Finding_defect (i + 1)) (findingLocationProblem (cf_file f) (cf_line f) workdir))"

definition count_band :: "(nat \<times> nat) list \<Rightarrow> collation_finding \<Rightarrow> (nat \<times> nat) list" where
  "count_band bands f =
    (let n = length (cf_raised_by f) in
     AList.update n ((case map_of bands n of None \<Rightarrow> 0 | Some k \<Rightarrow> k) + 1) bands)"

definition censusCollation :: "collation \<Rightarrow> host_path \<Rightarrow> census" where
  "censusCollation c workdir =
    (let coverage = lensCoverage c;
         defects = List.map_filter (finding_defect workdir) (enumerate 0 (c_findings c))
     in \<lparr>ce_readable = True, ce_refusal = None, ce_declared = Some (c_finding_count c),
          ce_counted = length (c_findings c),
          ce_located = length (filter (\<lambda>p. finding_defect workdir p = None) (enumerate 0 (c_findings c))),
          ce_lenses_total = lc_total coverage, ce_lenses_reported = lc_reported coverage,
          ce_lenses_missing = lc_missing coverage,
          ce_agreement = sort_key fst (foldl count_band [] (c_findings c)), ce_defects = defects\<rparr>)"

definition censusRefused :: "collation_refusal \<Rightarrow> census" where
  "censusRefused why =
    \<lparr>ce_readable = False, ce_refusal = Some why, ce_declared = None, ce_counted = 0, ce_located = 0,
     ce_lenses_total = 0, ce_lenses_reported = 0, ce_lenses_missing = [], ce_agreement = [],
     ce_defects = [Refusal_defect why]\<rparr>"

definition censusFromRead :: "collation_read \<Rightarrow> host_path \<Rightarrow> census option" where
  "censusFromRead read workdir =
    (case read of
       Collation_missing \<Rightarrow> None
     | Collation_refused why \<Rightarrow> Some (censusRefused why)
     | Collation_ok c \<Rightarrow> Some (censusCollation c workdir))"

definition collationCeilingFor ::
  "task_id \<Rightarrow> verdict option \<Rightarrow> collation_read \<Rightarrow> (verdict \<times> collation_cap_reason) option" where
  "collationCeilingFor taskId claimed read =
    (case claimed of
       None \<Rightarrow> None
     | Some status \<Rightarrow>
         (case collationCeiling taskId status read of (v, None) \<Rightarrow> None | (v, Some why) \<Rightarrow> Some (v, why)))"

text \<open>What of a census is a fact of the adjudicator; a defect is a sentence there.\<close>

definition census_facts :: "(census_defect \<Rightarrow> string) \<Rightarrow> census \<Rightarrow> collation_census" where
  "census_facts say c =
    \<lparr>cc_readable = ce_readable c, cc_counted = int (ce_counted c), cc_located = int (ce_located c),
     cc_defects = map say (ce_defects c)\<rparr>"

section \<open>What the census counts\<close>

definition band :: "nat \<Rightarrow> collation_finding list \<Rightarrow> nat" where
  "band n fs = length (filter (\<lambda>f. length (cf_raised_by f) = n) fs)"

lemma count_band_fold:
  "distinct (map fst (foldl count_band [] fs)) \<and>
   map_of (foldl count_band [] fs) n = (if band n fs = 0 then None else Some (band n fs))"
proof (induction fs arbitrary: n rule: rev_induct)
  case (snoc f fs)
  then show ?case
    by (auto simp: count_band_def band_def Let_def distinct_update update_conv' split: option.splits)
qed (simp add: band_def)

lemma map_filter_length:
  "length (List.map_filter f xs) = length (filter (\<lambda>x. f x \<noteq> None) xs)"
  by (induction xs) (auto simp: List.map_filter_simps)

lemma sum_bands:
  assumes "distinct (map fst m)" and "\<And>n. map_of m n = (if band n fs = 0 then None else Some (band n fs))"
  shows "sum_list (map snd m) = length fs"
proof -
  have "sum_list (map snd m) = (\<Sum>p \<in> set m. snd p)"
    using assms(1) by (simp add: distinct_map sum_list_distinct_conv_sum_set)
  also have "\<dots> = (\<Sum>p \<in> set m. band (fst p) fs)"
  proof (rule sum.cong)
    fix p assume "p \<in> set m"
    then have "map_of m (fst p) = Some (snd p)" using assms(1) by (cases p) auto
    with assms(2) [of "fst p"] show "snd p = band (fst p) fs" by (auto split: if_splits)
  qed simp
  also have "\<dots> = (\<Sum>n \<in> fst ` set m. band n fs)"
    using assms(1) by (simp add: distinct_map sum.reindex)
  also have "fst ` set m = {n. band n fs \<noteq> 0}"
    using assms(2) by (auto simp: dom_map_of_conv_image_fst [symmetric] split: if_splits)
  also have "{n. band n fs \<noteq> 0} = (\<lambda>f. length (cf_raised_by f)) ` set fs"
    by (auto simp: band_def filter_empty_conv)
  also have "(\<Sum>n \<in> (\<lambda>f. length (cf_raised_by f)) ` set fs. band n fs) = length fs"
  proof (induction fs)
    case (Cons f fs)
    let ?L = "\<lambda>f. length (cf_raised_by f)"
    have fin: "finite (?L ` set (f # fs))" by simp
    have "(\<Sum>n \<in> ?L ` set (f # fs). band n (f # fs)) =
        (\<Sum>n \<in> ?L ` set (f # fs). (if n = ?L f then 1 else 0) + band n fs)"
      by (rule sum.cong) (auto simp: band_def)
    also have "\<dots> = 1 + (\<Sum>n \<in> ?L ` set (f # fs). band n fs)"
      unfolding sum.distrib by (simp add: sum.delta)
    also have "(\<Sum>n \<in> ?L ` set (f # fs). band n fs) = (\<Sum>n \<in> ?L ` set fs. band n fs)"
      by (rule sum.mono_neutral_right) (auto simp: band_def filter_empty_conv)
    finally show ?case using Cons by simp
  qed simp
  finally show ?thesis .
qed

text \<open>
  The census of a collation that was read accounts for every finding. Those located and those
  with a defect are all of them; the bands of agreement are listed in strictly rising order, count
  every finding in exactly one band, and no band is wider than the lenses that reported.
\<close>

theorem census_accounts:
  assumes "well_attributed c" and "ce = censusCollation c workdir"
  shows "ce_located ce + length (ce_defects ce) = ce_counted ce \<and>
    sorted (map fst (ce_agreement ce)) \<and> distinct (map fst (ce_agreement ce)) \<and>
    sum_list (map snd (ce_agreement ce)) = ce_counted ce \<and>
    (\<forall>(n, k) \<in> set (ce_agreement ce). k = band n (c_findings c) \<and> n \<le> ce_lenses_reported ce)"
proof -
  let ?m = "foldl count_band [] (c_findings c)"
  have m: "distinct (map fst ?m)" "map_of ?m n = (if band n (c_findings c) = 0 then None else Some (band n (c_findings c)))"
    for n using count_band_fold by blast+
  have ce: "ce_agreement ce = sort_key fst ?m" "ce_counted ce = length (c_findings c)"
    "ce_lenses_reported ce = length (reportedReviewers c)"
    using assms(2) by (simp_all add: censusCollation_def Let_def lensCoverage_def reportedReviewers_def)
  have perm: "mset (sort_key fst ?m) = mset ?m" by simp
  have "mset (map fst (sort_key fst ?m)) = mset (map fst ?m)" by simp
  then have d: "distinct (map fst (sort_key fst ?m))" using m(1) by (metis mset_eq_imp_distinct_iff)
  have "sum_list (map snd (sort_key fst ?m)) = sum_list (map snd ?m)"
    using perm by (metis mset_map sum_mset_sum_list)
  then have s: "sum_list (map snd (sort_key fst ?m)) = length (c_findings c)" using sum_bands [OF m] by simp
  have b: "k = band n (c_findings c) \<and> n \<le> length (reportedReviewers c)" if "(n, k) \<in> set ?m" for n k
  proof -
    from that m(1) have "map_of ?m n = Some k" by simp
    with m(2) [of n] have k: "k = band n (c_findings c)" and "band n (c_findings c) \<noteq> 0" by (auto split: if_splits)
    then obtain f where f: "f \<in> set (c_findings c)" "length (cf_raised_by f) = n"
      by (auto simp: band_def filter_empty_conv)
    with assms(1) have "distinct (cf_raised_by f)" "set (cf_raised_by f) \<subseteq> set (reportedReviewers c)"
      by (auto simp: well_attributed_def)
    then have "length (cf_raised_by f) \<le> length (reportedReviewers c)"
      by (metis List.finite_set card_length card_mono distinct_card le_trans)
    with k f(2) show ?thesis by simp
  qed
  have "ce_located ce + length (ce_defects ce) = ce_counted ce"
    using sum_length_filter_compl [of "\<lambda>p. finding_defect workdir p = None" "enumerate 0 (c_findings c)"]
    by (simp add: assms(2) censusCollation_def Let_def map_filter_length)
  with d s b show ?thesis unfolding ce by auto
qed

lemma census_accounts_witness:
  "ce_agreement (censusCollation (sample_parsed ''T9-collate'' ''T9'') [''workspace'']) = [(2, 1)] \<and>
   ce_located (censusCollation (sample_parsed ''T9-collate'' ''T9'') [''workspace'']) +
     length (ce_defects (censusCollation (sample_parsed ''T9-collate'' ''T9'') [''workspace''])) = 1"
proof -
  let ?c = "sample_parsed ''T9-collate'' ''T9''"
  have wa: "well_attributed ?c"
    by (simp add: well_attributed_def lens_workers_def reportedReviewers_def sample_parsed_def)
  have "ce_agreement (censusCollation ?c [''workspace'']) = [(2, 1)]" "ce_counted (censusCollation ?c [''workspace'']) = 1"
    by (simp_all add: censusCollation_def sample_parsed_def Let_def count_band_def)
  with census_accounts [OF wa refl, of "[''workspace'']"] show ?thesis by simp
qed

text \<open>
  From document to verdict: a claim of success is capped by the census exactly when the collation
  was read and one of its findings points nowhere in the reviewed tree.
\<close>

theorem census_caps_unlocated:
  "censusCeiling (map_option (census_facts say) (censusFromRead read workdir)) (Some Success) \<noteq> None \<longleftrightarrow>
    (\<exists>c f. read = Collation_ok c \<and> f \<in> set (c_findings c) \<and>
      findingLocationProblem (cf_file f) (cf_line f) workdir \<noteq> None)"
proof (cases read)
  case (Collation_ok c)
  let ?es = "enumerate 0 (c_findings c)"
  have "censusCeiling (map_option (census_facts say) (censusFromRead read workdir)) (Some Success) \<noteq> None \<longleftrightarrow>
      length (filter (\<lambda>p. finding_defect workdir p = None) ?es) \<noteq> length ?es"
    by (auto simp: Collation_ok censusFromRead_def censusCeiling_def census_facts_def censusCollation_def Let_def)
  also have "\<dots> \<longleftrightarrow> (\<exists>p \<in> set ?es. finding_defect workdir p \<noteq> None)"
    by (metis (mono_tags, lifting) filter_True length_filter_less nless_le)
  also have "\<dots> \<longleftrightarrow> (\<exists>f \<in> set (map snd ?es). findingLocationProblem (cf_file f) (cf_line f) workdir \<noteq> None)"
  proof -
    have "finding_defect workdir p \<noteq> None \<longleftrightarrow>
        findingLocationProblem (cf_file (snd p)) (cf_line (snd p)) workdir \<noteq> None" for p
      by (cases p) (simp add: finding_defect_def)
    then show ?thesis unfolding set_map by blast
  qed
  finally show ?thesis by (auto simp: Collation_ok map_snd_enumerate simp del: set_map map_map)
qed (simp_all add: censusFromRead_def censusCeiling_def census_facts_def censusRefused_def)

end
