(* ===== verification/Reconcile.thy ===== *)
theory Reconcile
  imports Ticket_Ops Body_Scan Collation_Census "HOL-Library.List_Lexorder"
begin

text \<open>
  The reconciliation of what a worker claims with what its outbox holds
  (\<open>src/harvest/reconcile.ts\<close>): reading a held artifact through its descriptor within a budget,
  matching the claims against the held files, validating the documents whose names ask for it, and
  the ceiling this puts on the task's verdict. The held files, the codec of a body and the digest
  are parameters.
\<close>

definition MAX_ARTIFACT_BYTES :: nat where "MAX_ARTIFACT_BYTES = 8 * 1024 * 1024"
definition MAX_RECONCILED_BYTES :: nat where "MAX_RECONCILED_BYTES = 64 * 1024 * 1024"
definition READ_CHUNK_BYTES :: nat where "READ_CHUNK_BYTES = 64 * 1024"

definition TICKET_OPS_ARTIFACT_NAME :: string where "TICKET_OPS_ARTIFACT_NAME = ''ticket-ops.json''"
definition TICKET_OPS_FAILURE_CEILING :: verdict where "TICKET_OPS_FAILURE_CEILING = Failed"
definition OBSERVER_TARGET_FAILURE_CEILING :: verdict where "OBSERVER_TARGET_FAILURE_CEILING = Failed"

text \<open>\<open>basename(name, ".json")\<close> with \<open>.md\<close> for its extension.\<close>

definition document_name :: "string \<Rightarrow> string" where
  "document_name name =
    (if ends_with name ''.json'' \<and> name \<noteq> ''.json'' then take (length name - 5) name else name) @ ''.md''"

definition TICKET_OPS_DOCUMENT_NAME :: string where
  "TICKET_OPS_DOCUMENT_NAME = document_name TICKET_OPS_ARTIFACT_NAME"

section \<open>Reading a held artifact\<close>

text \<open>A held descriptor: what \<open>stat\<close> and a read at a position answer, on the left an error code.\<close>

record held =
  h_stat :: "string + nat"
  h_read :: "nat \<Rightarrow> nat \<Rightarrow> string + bytes"

datatype digest_outcome =
    Digest_ok nat string "bytes option"
  | Too_large nat
  | Over_budget
  | Unreadable string

datatype read_end = Read_all bytes | Read_past nat | Read_error string

function read_loop :: "(nat \<Rightarrow> nat \<Rightarrow> string + bytes) \<Rightarrow> nat \<Rightarrow> bytes \<Rightarrow> read_end" where
  "read_loop rd cap got =
    (let want = min READ_CHUNK_BYTES (cap + 1 - length got) in
     if want = 0 then Read_all got
     else case rd (length got) want of
       Inl code \<Rightarrow> Read_error code
     | Inr bs \<Rightarrow>
         (case take want bs of
            [] \<Rightarrow> Read_all got
          | b # more_bs \<Rightarrow>
              if length got + length (b # more_bs) > cap then Read_past (length got + length (b # more_bs))
              else read_loop rd cap (got @ b # more_bs)))"
  by auto
termination by (relation "measure (\<lambda>(rd, cap, got). Suc cap - length got)") auto

declare read_loop.simps [simp del]

definition digestHeldArtifact :: "(bytes \<Rightarrow> string) \<Rightarrow> held \<Rightarrow> nat \<Rightarrow> bool \<Rightarrow> digest_outcome" where
  "digestHeldArtifact sha f cap retain =
    (case h_stat f of
       Inl code \<Rightarrow> Unreadable code
     | Inr n \<Rightarrow>
         if n > MAX_ARTIFACT_BYTES then Too_large n
         else if n > cap then Over_budget
         else case read_loop (h_read f) cap [] of
           Read_error code \<Rightarrow> Unreadable code
         | Read_past n2 \<Rightarrow> if n2 > MAX_ARTIFACT_BYTES then Too_large n2 else Over_budget
         | Read_all body \<Rightarrow> Digest_ok (length body) (sha body) (if retain then Some body else None))"

lemma read_loop_bounded: "length got \<le> cap \<Longrightarrow> read_loop rd cap got = Read_all body \<Longrightarrow> length body \<le> cap"
proof (induction rd cap got rule: read_loop.induct)
  case (1 rd cap got)
  let ?want = "min READ_CHUNK_BYTES (cap + 1 - length got)"
  from "1.prems"(2) have "body = got \<or> (\<exists>bs b more_bs. rd (length got) ?want = Inr bs \<and> take ?want bs = b # more_bs \<and>
      length got + length (b # more_bs) \<le> cap \<and> read_loop rd cap (got @ b # more_bs) = Read_all body \<and> ?want \<noteq> 0)"
    unfolding read_loop.simps [of rd cap got] Let_def
    by (simp split: if_splits sum.splits list.splits)
  then show ?case using "1.prems"(1) "1.IH" by fastforce
qed

lemma digest_bounded: "digestHeldArtifact sha f cap retain = Digest_ok n d kept \<Longrightarrow> n \<le> cap"
  by (auto simp: digestHeldArtifact_def split: sum.splits if_splits read_end.splits dest: read_loop_bounded [rotated])

lemma digest_kept: "digestHeldArtifact sha f cap retain = Digest_ok n d kept \<Longrightarrow>
    (kept = None \<longleftrightarrow> \<not> retain) \<and> (\<forall>body. kept = Some body \<longrightarrow> length body = n \<and> d = sha body)"
  by (auto simp: digestHeldArtifact_def split: sum.splits if_splits read_end.splits)

section \<open>Validating a document\<close>

record codec =
  body_text :: "bytes \<Rightarrow> string"
  json_parse :: "string \<Rightarrow> json option"
  body_spells :: "bytes \<Rightarrow> string \<Rightarrow> bool"
  sha256 :: "bytes \<Rightarrow> string"
  iso_datetime :: "string \<Rightarrow> bool"

datatype document_problem =
    Not_parseable "body_credential option"
  | Ticket_refused ticket_refusal
  | Observer_refused refusal_cause
  | Body_credential body_credential
  | Body_credential_unswept body_credential

definition validateTicketOps :: "codec \<Rightarrow> bytes \<Rightarrow> string list \<Rightarrow> document_problem option" where
  "validateTicketOps cd body secrets =
    (case json_parse cd (body_text cd body) of
       None \<Rightarrow> Some (Not_parseable None)
     | Some raw \<Rightarrow> (case parseTicketOpsArtifact (iso_datetime cd) raw secrets of
         Inl e \<Rightarrow> Some (Ticket_refused e)
       | Inr _ \<Rightarrow> None))"

datatype observer_target = Docker_target | Vm_target

definition OBSERVER_TARGET_ARTIFACTS :: "(string \<times> observer_target) list" where
  "OBSERVER_TARGET_ARTIFACTS =
    [(OBSERVER_DOCKER_OPS_ARTIFACT_NAME, Docker_target), (OBSERVER_VM_OPS_ARTIFACT_NAME, Vm_target)]"

definition target_name :: "observer_target \<Rightarrow> string" where
  "target_name a = (case a of Docker_target \<Rightarrow> OBSERVER_DOCKER_OPS_ARTIFACT_NAME | Vm_target \<Rightarrow> OBSERVER_VM_OPS_ARTIFACT_NAME)"

definition basename :: "host_path \<Rightarrow> string" where
  "basename p = (if p = [] then [] else last p)"

definition observerTargetFor :: "host_path \<Rightarrow> observer_target option" where
  "observerTargetFor p = map_of OBSERVER_TARGET_ARTIFACTS (basename p)"

text \<open>The parse of a target, of which only the refusal matters here.\<close>

definition target_refusal :: "observer_target \<Rightarrow> json \<Rightarrow> string list \<Rightarrow> refusal_cause option" where
  "target_refusal a raw secrets =
    (case a of
       Docker_target \<Rightarrow> (case parseObserverDockerOpsArtifact raw secrets of Inl e \<Rightarrow> Some e | Inr _ \<Rightarrow> None)
     | Vm_target \<Rightarrow> (case parseObserverVmOpsArtifact raw secrets of Inl e \<Rightarrow> Some e | Inr _ \<Rightarrow> None))"

fun sweep_refusal :: "refusal_cause \<Rightarrow> bool" where
  "sweep_refusal (Credential lk) \<longleftrightarrow> True"
| "sweep_refusal _ \<longleftrightarrow> False"

definition validateObserverTarget :: "codec \<Rightarrow> bytes \<Rightarrow> observer_target \<Rightarrow> string list \<Rightarrow> document_problem option" where
  "validateObserverTarget cd body a secrets =
    (let t = body_text cd body;
         found = credentialInBody (body_spells cd body) (units t) secrets
     in case json_parse cd t of
          None \<Rightarrow> Some (Not_parseable found)
        | Some raw \<Rightarrow> (case target_refusal a raw secrets of
            Some e \<Rightarrow> (case found of
                Some c \<Rightarrow> if sweep_refusal e then Some (Observer_refused e) else Some (Body_credential c)
              | None \<Rightarrow> Some (Observer_refused e))
          | None \<Rightarrow> map_option Body_credential_unswept found))"


section \<open>The reconciliation\<close>

datatype unread_kind = Kind_too_large | Kind_over_budget | Kind_unreadable

fun unread_kind_of :: "digest_outcome \<Rightarrow> unread_kind option" where
  "unread_kind_of (Digest_ok _ _ _) = None"
| "unread_kind_of (Too_large _) = Some Kind_too_large"
| "unread_kind_of Over_budget = Some Kind_over_budget"
| "unread_kind_of (Unreadable _) = Some Kind_unreadable"

datatype discrepancy_line =
    Claim_unmounted artifact_ref | Claim_outside artifact_ref | Claim_not_held artifact_ref
  | Unclaimed host_path
  | Orphan_document string host_path
  | Observer_not_read observer_target host_path unread_kind
  | Observer_invalid observer_target host_path document_problem
  | Collation_not_read host_path unread_kind
  | Collation_was_refused host_path collation_refusal
  | Second_collation host_path
  | Ticket_not_read host_path unread_kind
  | Ticket_invalid host_path document_problem
  | Claimed_empty host_path
  | Artifact_too_large host_path nat
  | Stopped_after nat
  | Artifact_unreadable host_path string

datatype ceiling_reason =
    Orphan_reason string | Ticket_reason | Observer_unread_reason observer_target | Observer_failed_reason observer_target

record reconciled_artifact =
  ra_path :: host_path
  ra_bytes :: nat
  ra_sha256 :: string

record reconciliation =
  discrepancies :: "discrepancy_line list"
  artifacts :: "reconciled_artifact list"
  verdictCeiling :: "verdict option"
  verdictCeilingReason :: "ceiling_reason option"
  collationRead :: collation_read
  collationSeen :: bool
  spent :: nat

definition report_line :: "discrepancy_line \<Rightarrow> reconciliation \<Rightarrow> reconciliation" where
  "report_line d s = s\<lparr>discrepancies := discrepancies s @ [d]\<rparr>"

definition clampTo :: "verdict \<Rightarrow> ceiling_reason \<Rightarrow> reconciliation \<Rightarrow> reconciliation" where
  "clampTo v why s =
    s\<lparr>verdictCeiling := Some v,
      verdictCeilingReason := (case verdictCeilingReason s of None \<Rightarrow> Some why | Some r \<Rightarrow> Some r)\<rparr>"

definition observerNotRead :: "host_path \<Rightarrow> observer_target \<Rightarrow> unread_kind \<Rightarrow> reconciliation \<Rightarrow> reconciliation" where
  "observerNotRead p a why s =
    clampTo OBSERVER_TARGET_FAILURE_CEILING (Observer_unread_reason a) (report_line (Observer_not_read a p why) s)"

text \<open>What becomes of one claim: the held path it matches, or the line that says why it has none.\<close>

definition claim_target :: "outbox_location \<Rightarrow> host_path set \<Rightarrow> artifact_ref \<Rightarrow> discrepancy_line + host_path" where
  "claim_target loc accepted ref =
    (case artifactClaimToHost (af_path ref) loc of
       None \<Rightarrow> Inl (Claim_unmounted ref)
     | Some target \<Rightarrow>
         if \<not> resolvedWithin (join_path (task_outbox loc) OUTBOX_FILES_DIR) target then Inl (Claim_outside ref)
         else if target \<notin> accepted then Inl (Claim_not_held ref)
         else Inr target)"

fun claim_lines :: "(discrepancy_line + host_path) list \<Rightarrow> discrepancy_line list" where
  "claim_lines [] = []"
| "claim_lines (Inl d # rs) = d # claim_lines rs"
| "claim_lines (Inr p # rs) = claim_lines rs"

fun claim_matches :: "(discrepancy_line + host_path) list \<Rightarrow> host_path list" where
  "claim_matches [] = []"
| "claim_matches (Inl d # rs) = claim_matches rs"
| "claim_matches (Inr p # rs) = p # claim_matches rs"

definition ordered :: "outbox_file list \<Rightarrow> outbox_file list" where
  "ordered fs = sort_key (\<lambda>f. path_string (of_path f)) fs"

definition unclaimed_lines :: "artifact_ref list option \<Rightarrow> host_path list \<Rightarrow> outbox_file list \<Rightarrow> discrepancy_line list" where
  "unclaimed_lines claimed matched fs =
    (case claimed of None \<Rightarrow> []
     | Some _ \<Rightarrow> map (Unclaimed \<circ> of_path) [f \<leftarrow> fs. of_path f \<notin> set matched])"

text \<open>The pairs of a checked artifact and the document that has to lie beside it.\<close>

definition document_pairs :: "(string \<times> verdict) list" where
  "document_pairs = (TICKET_OPS_ARTIFACT_NAME, TICKET_OPS_FAILURE_CEILING) #
     map (\<lambda>(name, _). (name, OBSERVER_TARGET_FAILURE_CEILING)) OBSERVER_TARGET_ARTIFACTS"

definition orphanedDocs :: "outbox_file list \<Rightarrow> string \<Rightarrow> outbox_file list" where
  "orphanedDocs fs artifact =
    (let jsonDirs = map (butlast \<circ> of_path) [f \<leftarrow> fs. basename (of_path f) = artifact]
     in [f \<leftarrow> fs. basename (of_path f) = document_name artifact \<and> butlast (of_path f) \<notin> set jsonDirs])"

definition orphan_step :: "outbox_file list \<Rightarrow> string \<times> verdict \<Rightarrow> reconciliation \<Rightarrow> reconciliation" where
  "orphan_step fs = (\<lambda>(artifact, ceiling) s.
    (let docs = orphanedDocs fs artifact;
         s = s\<lparr>discrepancies := discrepancies s @ map (\<lambda>f. Orphan_document (document_name artifact) (of_path f)) docs\<rparr>
     in if docs = [] then s else clampTo ceiling (Orphan_reason (document_name artifact)) s))"

definition isTicketOps :: "host_path \<Rightarrow> bool" where
  "isTicketOps p \<longleftrightarrow> basename p = TICKET_OPS_ARTIFACT_NAME"

definition isCollation :: "host_path \<Rightarrow> bool" where
  "isCollation p \<longleftrightarrow> basename p = COLLATION_ARTIFACT_NAME"

text \<open>The three remarks on an artifact that was not read, before the switch on the outcome.\<close>

definition note_unread :: "host_path \<Rightarrow> unread_kind \<Rightarrow> reconciliation \<Rightarrow> reconciliation" where
  "note_unread p why s =
    (let s = (case observerTargetFor p of None \<Rightarrow> s | Some a \<Rightarrow> observerNotRead p a why s);
         s = (if isCollation p \<and> \<not> collationSeen s
              then (report_line (Collation_not_read p why) s)
                \<lparr>collationSeen := True, collationRead := Collation_refused Collation_too_large\<rparr>
              else s)
     in if isTicketOps p
        then clampTo TICKET_OPS_FAILURE_CEILING Ticket_reason (report_line (Ticket_not_read p why) s)
        else s)"

text \<open>The parts of the \<open>ok\<close> branch; only the first can throw.\<close>

definition read_collation_artifact ::
  "codec \<Rightarrow> outbox_location \<Rightarrow> host_path \<Rightarrow> bytes \<Rightarrow> reconciliation \<Rightarrow> aspect_error + reconciliation" where
  "read_collation_artifact cd loc p body s =
    (if collationSeen s then Inr (report_line (Second_collation p) s)
     else case readCollation (json_parse cd) None (ol_taskId loc) (Some (body_text cd body)) of
       Inl e \<Rightarrow> Inl e
     | Inr r \<Rightarrow>
         let s = s\<lparr>collationSeen := True, collationRead := r\<rparr>
         in Inr (case r of Collation_refused why \<Rightarrow> report_line (Collation_was_refused p why) s | _ \<Rightarrow> s))"

definition check_ticket_ops :: "codec \<Rightarrow> string list \<Rightarrow> host_path \<Rightarrow> bytes \<Rightarrow> reconciliation \<Rightarrow> reconciliation" where
  "check_ticket_ops cd secrets p body s =
    (case validateTicketOps cd body secrets of
       None \<Rightarrow> s
     | Some problem \<Rightarrow> clampTo TICKET_OPS_FAILURE_CEILING Ticket_reason (report_line (Ticket_invalid p problem) s))"

definition check_observer ::
  "codec \<Rightarrow> string list \<Rightarrow> observer_target \<Rightarrow> host_path \<Rightarrow> bytes \<Rightarrow> reconciliation \<Rightarrow> reconciliation" where
  "check_observer cd secrets a p body s =
    (case validateObserverTarget cd body a secrets of
       None \<Rightarrow> s
     | Some problem \<Rightarrow>
         clampTo OBSERVER_TARGET_FAILURE_CEILING (Observer_failed_reason a) (report_line (Observer_invalid a p problem) s))"

definition record_artifact :: "host_path list \<Rightarrow> host_path \<Rightarrow> nat \<Rightarrow> string \<Rightarrow> reconciliation \<Rightarrow> reconciliation" where
  "record_artifact matched p n d s =
    (let s = s\<lparr>artifacts := artifacts s @ [\<lparr>ra_path = p, ra_bytes = n, ra_sha256 = d\<rparr>]\<rparr>
     in if n = 0 \<and> p \<in> set matched then report_line (Claimed_empty p) s else s)"

definition on_digest ::
  "codec \<Rightarrow> outbox_location \<Rightarrow> string list \<Rightarrow> host_path list \<Rightarrow> host_path \<Rightarrow> nat \<Rightarrow> string \<Rightarrow> bytes option
    \<Rightarrow> reconciliation \<Rightarrow> aspect_error + reconciliation" where
  "on_digest cd loc secrets matched p n d kept s =
    (let s = s\<lparr>spent := spent s + n\<rparr> in
     case (case kept of
             Some body \<Rightarrow> if isCollation p then read_collation_artifact cd loc p body s else Inr s
           | None \<Rightarrow> Inr s) of
       Inl e \<Rightarrow> Inl e
     | Inr s \<Rightarrow>
         let s = (case kept of
               Some body \<Rightarrow> if isTicketOps p then check_ticket_ops cd secrets p body s else s | None \<Rightarrow> s);
             s = (case (kept, observerTargetFor p) of
               (Some body, Some a) \<Rightarrow> check_observer cd secrets a p body s | _ \<Rightarrow> s)
         in Inr (record_artifact matched p n d s))"

definition unreached :: "outbox_file list \<Rightarrow> reconciliation \<Rightarrow> reconciliation" where
  "unreached fs s =
    foldl (\<lambda>s f. case observerTargetFor (of_path f) of
      None \<Rightarrow> s | Some a \<Rightarrow> observerNotRead (of_path f) a Kind_over_budget s) s fs"

definition digest_next :: "(host_path \<Rightarrow> held) \<Rightarrow> codec \<Rightarrow> outbox_file \<Rightarrow> reconciliation \<Rightarrow> digest_outcome" where
  "digest_next files cd f s =
    digestHeldArtifact (sha256 cd) (files (of_handle f))
      (min MAX_ARTIFACT_BYTES (MAX_RECONCILED_BYTES - spent s))
      (isTicketOps (of_path f) \<or> isCollation (of_path f) \<or> observerTargetFor (of_path f) \<noteq> None)"

fun reconcile_files ::
  "(host_path \<Rightarrow> held) \<Rightarrow> codec \<Rightarrow> outbox_location \<Rightarrow> string list \<Rightarrow> host_path list \<Rightarrow> outbox_file list
    \<Rightarrow> reconciliation \<Rightarrow> aspect_error + reconciliation" where
  "reconcile_files files cd loc secrets matched [] s = Inr s"
| "reconcile_files files cd loc secrets matched (f # fs) s =
    (let p = of_path f;
         outcome = digest_next files cd f s;
         s = (case unread_kind_of outcome of None \<Rightarrow> s | Some why \<Rightarrow> note_unread p why s)
     in case outcome of
          Digest_ok n d kept \<Rightarrow>
            (case on_digest cd loc secrets matched p n d kept s of
               Inl e \<Rightarrow> Inl e
             | Inr s \<Rightarrow> reconcile_files files cd loc secrets matched fs s)
        | Too_large n \<Rightarrow>
            reconcile_files files cd loc secrets matched fs (report_line (Artifact_too_large p n) s)
        | Over_budget \<Rightarrow> Inr (unreached fs (report_line (Stopped_after (spent s)) s))
        | Unreadable code \<Rightarrow>
            reconcile_files files cd loc secrets matched fs (report_line (Artifact_unreadable p code) s))"

text \<open>One file, by its outcome.\<close>

lemma reconcile_step:
  "reconcile_files files cd loc secrets matched (f # fs) s =
    (case digest_next files cd f s of
       Digest_ok n d kept \<Rightarrow>
         (case on_digest cd loc secrets matched (of_path f) n d kept s of
            Inl e \<Rightarrow> Inl e
          | Inr s \<Rightarrow> reconcile_files files cd loc secrets matched fs s)
     | Too_large n \<Rightarrow> reconcile_files files cd loc secrets matched fs
         (report_line (Artifact_too_large (of_path f) n) (note_unread (of_path f) Kind_too_large s))
     | Over_budget \<Rightarrow> Inr (unreached fs
         (report_line (Stopped_after (spent (note_unread (of_path f) Kind_over_budget s))) (note_unread (of_path f) Kind_over_budget s)))
     | Unreadable code \<Rightarrow> reconcile_files files cd loc secrets matched fs
         (report_line (Artifact_unreadable (of_path f) code) (note_unread (of_path f) Kind_unreadable s)))"
  by (cases "digest_next files cd f s") (simp_all add: Let_def)

declare reconcile_files.simps(2) [simp del]

definition reconcile_start :: reconciliation where
  "reconcile_start = \<lparr>discrepancies = [], artifacts = [], verdictCeiling = None, verdictCeilingReason = None,
     collationRead = Collation_missing, collationSeen = False, spent = 0\<rparr>"

definition claim_results :: "outbox_location \<Rightarrow> outbox_file list \<Rightarrow> artifact_ref list option \<Rightarrow> (discrepancy_line + host_path) list" where
  "claim_results loc held_files claimed =
    map (claim_target loc (of_path ` set held_files)) (case claimed of None \<Rightarrow> [] | Some refs \<Rightarrow> refs)"

definition before_reading :: "outbox_location \<Rightarrow> outbox_file list \<Rightarrow> artifact_ref list option \<Rightarrow> reconciliation" where
  "before_reading loc held_files claimed =
    (let results = claim_results loc held_files claimed;
         fs = ordered held_files
     in fold (orphan_step fs) document_pairs
          (reconcile_start\<lparr>discrepancies := claim_lines results @ unclaimed_lines claimed (claim_matches results) fs\<rparr>))"

definition reconcileArtifactClaims ::
  "(host_path \<Rightarrow> held) \<Rightarrow> codec \<Rightarrow> outbox_file list \<Rightarrow> artifact_ref list option \<Rightarrow> outbox_location \<Rightarrow> string list
    \<Rightarrow> aspect_error + reconciliation" where
  "reconcileArtifactClaims files cd held_files claimed loc secrets =
    reconcile_files files cd loc secrets (claim_matches (claim_results loc held_files claimed)) (ordered held_files)
      (before_reading loc held_files claimed)"


section \<open>The budget\<close>

definition within_budget :: "reconciliation \<Rightarrow> bool" where
  "within_budget s \<longleftrightarrow> spent s \<le> MAX_RECONCILED_BYTES \<and> sum_list (map ra_bytes (artifacts s)) = spent s \<and>
    list_all (\<lambda>a. ra_bytes a \<le> MAX_ARTIFACT_BYTES) (artifacts s)"

lemma report_line_fields [simp]:
  "artifacts (report_line d s) = artifacts s" "spent (report_line d s) = spent s"
  "verdictCeiling (report_line d s) = verdictCeiling s" "verdictCeilingReason (report_line d s) = verdictCeilingReason s"
  "discrepancies (report_line d s) = discrepancies s @ [d]" "collationSeen (report_line d s) = collationSeen s"
  by (simp_all add: report_line_def)

lemma clampTo_fields [simp]:
  "artifacts (clampTo v why s) = artifacts s" "spent (clampTo v why s) = spent s"
  "verdictCeiling (clampTo v why s) = Some v" "discrepancies (clampTo v why s) = discrepancies s"
  by (simp_all add: clampTo_def)

lemma observerNotRead_fields [simp]:
  "artifacts (observerNotRead p a why s) = artifacts s" "spent (observerNotRead p a why s) = spent s"
  "verdictCeiling (observerNotRead p a why s) = Some Failed"
  by (simp_all add: observerNotRead_def OBSERVER_TARGET_FAILURE_CEILING_def)

lemma note_unread_fields [simp]:
  "artifacts (note_unread p why s) = artifacts s" "spent (note_unread p why s) = spent s"
  by (simp_all add: note_unread_def Let_def split: option.splits)

lemma check_fields [simp]:
  "artifacts (check_ticket_ops cd secrets p body s) = artifacts s" "spent (check_ticket_ops cd secrets p body s) = spent s"
  "artifacts (check_observer cd secrets a p body s) = artifacts s" "spent (check_observer cd secrets a p body s) = spent s"
  by (simp_all add: check_ticket_ops_def check_observer_def split: option.splits)

lemma unreached_fields [simp]:
  "artifacts (unreached fs s) = artifacts s" "spent (unreached fs s) = spent s"
  unfolding unreached_def by (induction fs arbitrary: s) (auto split: option.splits)

lemma read_collation_fields:
  "read_collation_artifact cd loc p body s = Inr s' \<Longrightarrow> artifacts s' = artifacts s \<and> spent s' = spent s \<and>
    verdictCeiling s' = verdictCeiling s"
  by (auto simp: read_collation_artifact_def Let_def split: if_splits sum.splits collation_read.splits)

lemma record_artifact_fields [simp]:
  "artifacts (record_artifact matched p n d s) = artifacts s @ [\<lparr>ra_path = p, ra_bytes = n, ra_sha256 = d\<rparr>]"
  "spent (record_artifact matched p n d s) = spent s"
  "verdictCeiling (record_artifact matched p n d s) = verdictCeiling s"
  by (simp_all add: record_artifact_def Let_def)

lemma on_digest_fields:
  "on_digest cd loc secrets matched p n d kept s = Inr s' \<Longrightarrow>
    artifacts s' = artifacts s @ [\<lparr>ra_path = p, ra_bytes = n, ra_sha256 = d\<rparr>] \<and> spent s' = spent s + n"
  by (auto simp: on_digest_def Let_def split: option.splits if_splits sum.splits dest!: read_collation_fields)

lemma reconcile_files_within:
  assumes "within_budget s" and "reconcile_files files cd loc secrets matched fs s = Inr r"
  shows "within_budget r"
  using assms
proof (induction fs arbitrary: s)
  case (Cons f fs)
  have keep: "within_budget t" if "artifacts t = artifacts s" "spent t = spent s" for t
    using Cons.prems(1) that by (simp add: within_budget_def)
  show ?case
  proof (cases "digest_next files cd f s")
    case (Digest_ok n d kept)
    then obtain s' where s': "on_digest cd loc secrets matched (of_path f) n d kept s = Inr s'"
      and run: "reconcile_files files cd loc secrets matched fs s' = Inr r"
      using Cons.prems(2) by (auto simp: reconcile_step split: sum.splits)
    from Digest_ok have "n \<le> min MAX_ARTIFACT_BYTES (MAX_RECONCILED_BYTES - spent s)"
      unfolding digest_next_def by (rule digest_bounded)
    with on_digest_fields [OF s'] Cons.prems(1) have "within_budget s'"
      by (auto simp: within_budget_def)
    from Cons.IH [OF this run] show ?thesis .
  next
    case (Too_large n)
    with Cons.prems(2) Cons.IH [OF keep, of "report_line (Artifact_too_large (of_path f) n) (note_unread (of_path f) Kind_too_large s)"]
    show ?thesis by (simp add: reconcile_step)
  next
    case Over_budget
    with Cons.prems show ?thesis by (auto simp: reconcile_step intro!: keep)
  next
    case (Unreadable code)
    with Cons.prems(2) Cons.IH [OF keep, of "report_line (Artifact_unreadable (of_path f) code) (note_unread (of_path f) Kind_unreadable s)"]
    show ?thesis by (simp add: reconcile_step)
  qed
qed simp

lemma before_reading_fields [simp]:
  "artifacts (before_reading loc held_files claimed) = []" "spent (before_reading loc held_files claimed) = 0"
proof -
  have "artifacts (fold (orphan_step fs) ps s) = artifacts s \<and> spent (fold (orphan_step fs) ps s) = spent s" for fs ps s
    by (induction ps arbitrary: s) (auto simp: orphan_step_def Let_def)
  then show "artifacts (before_reading loc held_files claimed) = []" "spent (before_reading loc held_files claimed) = 0"
    by (simp_all add: before_reading_def reconcile_start_def Let_def)
qed

text \<open>Held files that cannot be told apart by their status and their first 8 MiB and one byte.\<close>

definition same_beginning :: "held \<Rightarrow> held \<Rightarrow> bool" where
  "same_beginning h h' \<longleftrightarrow> h_stat h = h_stat h'
    \<and> (\<forall>p n. p + n \<le> MAX_ARTIFACT_BYTES + 1 \<longrightarrow> h_read h p n = h_read h' p n)"

lemma read_loop_cong:
  "(\<And>p n. p + n \<le> cap + 1 \<Longrightarrow> rd p n = rd' p n) \<Longrightarrow> length got \<le> cap \<Longrightarrow> read_loop rd cap got = read_loop rd' cap got"
proof (induction rd cap got rule: read_loop.induct)
  case (1 rd cap got)
  let ?want = "min READ_CHUNK_BYTES (cap + 1 - length got)"
  have eq: "rd (length got) ?want = rd' (length got) ?want" using "1.prems"(2) by (intro "1.prems"(1)) simp
  have IH: "read_loop rd cap (got @ b # more_bs) = read_loop rd' cap (got @ b # more_bs)"
    if "?want \<noteq> 0" "rd (length got) ?want = Inr bs" "take ?want bs = b # more_bs" "\<not> length got + length (b # more_bs) > cap"
    for bs b more_bs
    using that(4) by (intro "1.IH" [OF refl that] "1.prems"(1)) simp_all
  show ?case
    unfolding read_loop.simps [of rd cap got] read_loop.simps [of rd' cap got] Let_def eq [symmetric]
    using IH by (auto split: sum.splits list.splits)
qed

lemma digest_cong:
  assumes "same_beginning h h'" and "cap \<le> MAX_ARTIFACT_BYTES"
  shows "digestHeldArtifact sha h cap retain = digestHeldArtifact sha h' cap retain"
proof -
  have "read_loop (h_read h) cap [] = read_loop (h_read h') cap []"
    using assms by (intro read_loop_cong) (simp_all add: same_beginning_def)
  moreover have "h_stat h = h_stat h'" using assms(1) by (simp add: same_beginning_def)
  ultimately show ?thesis by (simp only: digestHeldArtifact_def)
qed

lemma reconcile_files_cong:
  assumes "\<And>x. same_beginning (files x) (files' x)"
  shows "reconcile_files files cd loc secrets matched fs s = reconcile_files files' cd loc secrets matched fs s"
proof (induction fs arbitrary: s)
  case (Cons f fs)
  have "digest_next files cd f s = digest_next files' cd f s"
    unfolding digest_next_def by (intro digest_cong assms) simp
  then show ?case unfolding reconcile_step by (simp add: Cons split: digest_outcome.split sum.split)
qed simp

text \<open>
  C34: the artifacts a reconciliation records come to at most 64 MiB for the task and 8 MiB each,
  counting the bytes that were read and not the size the file claimed to have. And whatever the
  descriptors answer, no file is read further than one byte past 8 MiB: what lies beyond that in any
  of them makes no difference.
\<close>

theorem reconciliation_within_budget:
  assumes "reconcileArtifactClaims files cd held_files claimed loc secrets = Inr r"
    and "\<And>x. same_beginning (files x) (files' x)"
  shows "sum_list (map ra_bytes (artifacts r)) \<le> 64 * 1024 * 1024 \<and>
    list_all (\<lambda>a. ra_bytes a \<le> 8 * 1024 * 1024) (artifacts r) \<and>
    reconcileArtifactClaims files' cd held_files claimed loc secrets = Inr r"
proof -
  have "within_budget (before_reading loc held_files claimed)" by (simp add: within_budget_def)
  from reconcile_files_within [OF this] assms(1) have "within_budget r" by (simp add: reconcileArtifactClaims_def)
  moreover have "reconcileArtifactClaims files' cd held_files claimed loc secrets = Inr r"
    using assms(1) reconcile_files_cong [OF assms(2)] by (simp add: reconcileArtifactClaims_def)
  ultimately show ?thesis by (simp add: within_budget_def MAX_RECONCILED_BYTES_def MAX_ARTIFACT_BYTES_def)
qed

text \<open>
  The cap of the task does not bound what is read: a file that fails in the middle is not counted,
  however much of it was hashed, and the next one is read with all of the budget that was left.
\<close>

lemma failed_reads_uncounted:
  assumes "\<And>f s. f \<in> set fs \<Longrightarrow> \<exists>code. digest_next files cd f s = Unreadable code"
  shows "\<exists>r. reconcile_files files cd loc secrets matched fs s = Inr r \<and> spent r = spent s"
  using assms
proof (induction fs arbitrary: s)
  case (Cons f fs)
  obtain code where d: "digest_next files cd f s = Unreadable code" using Cons.prems [of f s] by auto
  obtain r where "reconcile_files files cd loc secrets matched fs
      (report_line (Artifact_unreadable (of_path f) code) (note_unread (of_path f) Kind_unreadable s)) = Inr r"
    "spent r = spent s"
    using Cons.IH [of "report_line (Artifact_unreadable (of_path f) code) (note_unread (of_path f) Kind_unreadable s)"] Cons.prems
    by auto
  then show ?case by (simp add: reconcile_step d)
qed simp


section \<open>What the absence of a ceiling means\<close>

lemma ceiling_note_unread [simp]:
  "verdictCeiling (note_unread p why s) = None \<longleftrightarrow>
    verdictCeiling s = None \<and> observerTargetFor p = None \<and> \<not> isTicketOps p"
  by (simp add: note_unread_def Let_def split: option.splits)

lemma ceiling_check_ticket [simp]:
  "verdictCeiling (check_ticket_ops cd secrets p body s) = None \<longleftrightarrow>
    verdictCeiling s = None \<and> validateTicketOps cd body secrets = None"
  by (simp add: check_ticket_ops_def split: option.splits)

lemma ceiling_check_observer [simp]:
  "verdictCeiling (check_observer cd secrets a p body s) = None \<longleftrightarrow>
    verdictCeiling s = None \<and> validateObserverTarget cd body a secrets = None"
  by (simp add: check_observer_def split: option.splits)

lemma ceiling_unreached:
  "verdictCeiling (unreached fs s) = None \<longleftrightarrow>
    verdictCeiling s = None \<and> (\<forall>f \<in> set fs. observerTargetFor (of_path f) = None)"
  unfolding unreached_def by (induction fs arbitrary: s) (auto split: option.splits)

lemma discrepancies_unreached: "set (discrepancies s) \<subseteq> set (discrepancies (unreached fs s))"
proof -
  have "set (discrepancies s) \<subseteq> set (discrepancies (observerNotRead p a why s))" for p a why s
    by (auto simp: observerNotRead_def)
  then show ?thesis unfolding unreached_def
    by (induction fs arbitrary: s) (auto split: option.splits, blast)
qed

lemma ceiling_on_digest:
  assumes "on_digest cd loc secrets matched p n d kept s = Inr s'"
  shows "verdictCeiling s' = None \<longleftrightarrow> verdictCeiling s = None \<and>
    (\<forall>body. kept = Some body \<longrightarrow> (isTicketOps p \<longrightarrow> validateTicketOps cd body secrets = None) \<and>
      (\<forall>a. observerTargetFor p = Some a \<longrightarrow> validateObserverTarget cd body a secrets = None))"
  using assms
  by (auto simp: on_digest_def Let_def split: option.splits if_splits sum.splits dest!: read_collation_fields)

text \<open>A held document that was read whole and that its validator accepted.\<close>

definition read_clean :: "(host_path \<Rightarrow> held) \<Rightarrow> codec \<Rightarrow> outbox_file \<Rightarrow> (bytes \<Rightarrow> document_problem option) \<Rightarrow> bool" where
  "read_clean files cd f validate \<longleftrightarrow>
    (\<exists>cap n d body. digestHeldArtifact (sha256 cd) (files (of_handle f)) cap True = Digest_ok n d (Some body) \<and>
      validate body = None)"

definition stopped :: "reconciliation \<Rightarrow> bool" where
  "stopped r \<longleftrightarrow> (\<exists>k. Stopped_after k \<in> set (discrepancies r))"

lemma digest_next_kept:
  assumes "digest_next files cd f s = Digest_ok n d kept"
    and "isTicketOps (of_path f) \<or> observerTargetFor (of_path f) \<noteq> None"
  obtains body cap where "kept = Some body"
    "digestHeldArtifact (sha256 cd) (files (of_handle f)) cap True = Digest_ok n d (Some body)"
proof -
  have "isTicketOps (of_path f) \<or> isCollation (of_path f) \<or> observerTargetFor (of_path f) \<noteq> None" using assms(2) by blast
  then have run: "digestHeldArtifact (sha256 cd) (files (of_handle f))
      (min MAX_ARTIFACT_BYTES (MAX_RECONCILED_BYTES - spent s)) True = Digest_ok n d kept"
    using assms(1) unfolding digest_next_def by simp
  from digest_kept [OF this] obtain body where "kept = Some body" by auto
  with run show thesis using that by blast
qed

lemma no_ceiling:
  assumes "reconcile_files files cd loc secrets matched fs s = Inr r" and "verdictCeiling r = None"
  shows "verdictCeiling s = None \<and>
    (\<forall>f \<in> set fs. \<forall>a. observerTargetFor (of_path f) = Some a \<longrightarrow>
      read_clean files cd f (\<lambda>body. validateObserverTarget cd body a secrets)) \<and>
    (stopped r \<or> (\<forall>f \<in> set fs. isTicketOps (of_path f) \<longrightarrow>
      read_clean files cd f (\<lambda>body. validateTicketOps cd body secrets)))"
  using assms
proof (induction fs arbitrary: s)
  case (Cons f fs)
  show ?case
  proof (cases "digest_next files cd f s")
    case (Digest_ok n d kept)
    then obtain s' where s': "on_digest cd loc secrets matched (of_path f) n d kept s = Inr s'"
      and run: "reconcile_files files cd loc secrets matched fs s' = Inr r"
      using Cons.prems(1) by (auto simp: reconcile_step split: sum.splits)
    note tail = Cons.IH [OF run Cons.prems(2)]
    note here = ceiling_on_digest [OF s']
    have observer: "read_clean files cd f (\<lambda>body. validateObserverTarget cd body a secrets)"
      if a: "observerTargetFor (of_path f) = Some a" for a
    proof -
      have "isTicketOps (of_path f) \<or> observerTargetFor (of_path f) \<noteq> None" using a by simp
      from digest_next_kept [OF Digest_ok this] obtain body cap where "kept = Some body"
        "digestHeldArtifact (sha256 cd) (files (of_handle f)) cap True = Digest_ok n d (Some body)" .
      with tail here a show ?thesis by (auto simp: read_clean_def)
    qed
    have ticket: "read_clean files cd f (\<lambda>body. validateTicketOps cd body secrets)"
      if t: "isTicketOps (of_path f)"
    proof -
      have "isTicketOps (of_path f) \<or> observerTargetFor (of_path f) \<noteq> None" using t by simp
      from digest_next_kept [OF Digest_ok this] obtain body cap where "kept = Some body"
        "digestHeldArtifact (sha256 cd) (files (of_handle f)) cap True = Digest_ok n d (Some body)" .
      with tail here t show ?thesis by (auto simp: read_clean_def)
    qed
    from tail here observer ticket show ?thesis by auto
  next
    case (Too_large n)
    with Cons.prems(1) Cons.IH [of "report_line (Artifact_too_large (of_path f) n) (note_unread (of_path f) Kind_too_large s)"]
      Cons.prems(2) show ?thesis by (simp add: reconcile_step)
  next
    case Over_budget
    let ?t = "report_line (Stopped_after (spent s)) (note_unread (of_path f) Kind_over_budget s)"
    from Over_budget Cons.prems(1) have r: "r = unreached fs ?t" by (simp add: reconcile_step)
    have "stopped r" using discrepancies_unreached [of ?t fs] unfolding stopped_def r by auto
    moreover from Cons.prems(2) have "verdictCeiling s = None" "observerTargetFor (of_path f) = None"
      "\<forall>f \<in> set fs. observerTargetFor (of_path f) = None"
      unfolding r ceiling_unreached by simp_all
    ultimately show ?thesis by simp
  next
    case (Unreadable code)
    with Cons.prems(1) Cons.IH [of "report_line (Artifact_unreadable (of_path f) code) (note_unread (of_path f) Kind_unreadable s)"]
      Cons.prems(2) show ?thesis by (simp add: reconcile_step)
  qed
qed simp


lemma ceiling_orphan_step:
  "verdictCeiling (orphan_step fs p s) = None \<longleftrightarrow> verdictCeiling s = None \<and> orphanedDocs fs (fst p) = []"
  by (cases p) (simp add: orphan_step_def Let_def)

lemma before_reading_ceiling:
  "verdictCeiling (before_reading loc held_files claimed) = None \<longleftrightarrow>
    (\<forall>(artifact, v) \<in> set document_pairs. orphanedDocs (ordered held_files) artifact = [])"
proof -
  have "verdictCeiling (fold (orphan_step fs) ps s) = None \<longleftrightarrow>
      verdictCeiling s = None \<and> (\<forall>(artifact, v) \<in> set ps. orphanedDocs fs artifact = [])" for fs ps s
    by (induction ps arbitrary: s) (auto simp: ceiling_orphan_step)
  then show ?thesis by (simp add: before_reading_def reconcile_start_def Let_def)
qed

lemma validated_observer:
  assumes "validateObserverTarget cd body a secrets = None" and "n \<in> set secrets" and "\<not> blank n"
  shows "\<exists>raw. json_parse cd (body_text cd body) = Some raw \<and> \<not> body_spells cd body n \<and>
    (\<forall>s \<in> strings_in raw \<union> keys_in raw. \<not> js_includes s n)"
proof -
  let ?needles = "[s \<leftarrow> secrets. \<not> blank s]"
  from assms(1) obtain raw where raw: "json_parse cd (body_text cd body) = Some raw" "target_refusal a raw secrets = None"
    and body: "credentialInBody (body_spells cd body) (units (body_text cd body)) secrets = None"
    by (auto simp: validateObserverTarget_def Let_def split: option.splits if_splits)
  from assms(2,3) have n: "n \<in> set ?needles" by simp
  then have "?needles \<noteq> []" by (metis empty_iff empty_set)
  with body n have "\<not> body_spells cd body n"
    by (auto simp: credentialInBody_def Let_def list_ex_iff split: if_splits)
  moreover from raw(2) \<open>?needles \<noteq> []\<close> have
    "{n \<in> set secrets. \<not> blank n \<and> (\<exists>s \<in> strings_in raw \<union> keys_in raw. js_includes s n)} = {}"
    by (cases a) (auto simp: target_refusal_def parseObserverDockerOpsArtifact_def parseObserverVmOpsArtifact_def
        sweep_accepts split: sum.splits)
  with assms(2,3) have "\<forall>s \<in> strings_in raw \<union> keys_in raw. \<not> js_includes s n" by blast
  ultimately show ?thesis using raw(1) by blast
qed

text \<open>
  A harvest without a ceiling has cleared the observer documents. When the reconciliation puts no
  ceiling on the verdict, every observer document the outbox holds was read whole through its
  descriptor, parses, and spells no secret: not in its bytes, not in a string value and not in a key
  of the parsed document, at any depth; and no such document was left without the file that is checked.
\<close>

theorem no_ceiling_no_secret:
  assumes "reconcileArtifactClaims files cd held_files claimed loc secrets = Inr r" and "verdictCeiling r = None"
    and "f \<in> set held_files" and "n \<in> set secrets" and "\<not> blank n"
  shows "(observerTargetFor (of_path f) \<noteq> None \<longrightarrow>
      (\<exists>cap m d body raw. digestHeldArtifact (sha256 cd) (files (of_handle f)) cap True = Digest_ok m d (Some body) \<and>
        json_parse cd (body_text cd body) = Some raw \<and> \<not> body_spells cd body n \<and>
        (\<forall>s \<in> strings_in raw \<union> keys_in raw. \<not> js_includes s n))) \<and>
    (\<forall>(artifact, v) \<in> set document_pairs. orphanedDocs (ordered held_files) artifact = [])"
proof -
  from assms(1) have run: "reconcile_files files cd loc secrets (claim_matches (claim_results loc held_files claimed))
      (ordered held_files) (before_reading loc held_files claimed) = Inr r"
    by (simp add: reconcileArtifactClaims_def)
  from no_ceiling [OF this assms(2)] have "verdictCeiling (before_reading loc held_files claimed) = None"
    and clean: "\<And>a. observerTargetFor (of_path f) = Some a \<Longrightarrow>
      read_clean files cd f (\<lambda>body. validateObserverTarget cd body a secrets)"
    using assms(3) by (auto simp: ordered_def)
  moreover have "\<exists>cap m d body raw. digestHeldArtifact (sha256 cd) (files (of_handle f)) cap True = Digest_ok m d (Some body) \<and>
        json_parse cd (body_text cd body) = Some raw \<and> \<not> body_spells cd body n \<and>
        (\<forall>s \<in> strings_in raw \<union> keys_in raw. \<not> js_includes s n)" if "observerTargetFor (of_path f) = Some a" for a
    using clean [OF that] validated_observer [OF _ assms(4,5)] unfolding read_clean_def by blast
  ultimately show ?thesis by (auto simp: before_reading_ceiling)
qed


section \<open>What is accounted for\<close>

lemma lines_note_unread: "set (discrepancies s) \<subseteq> set (discrepancies (note_unread p why s))"
  by (auto simp: note_unread_def Let_def observerNotRead_def split: option.splits)

lemma lines_record_artifact: "set (discrepancies s) \<subseteq> set (discrepancies (record_artifact matched p n d s))"
  by (auto simp: record_artifact_def Let_def)

lemma lines_check:
  "set (discrepancies s) \<subseteq> set (discrepancies (check_ticket_ops cd secrets p body s))"
  "set (discrepancies s) \<subseteq> set (discrepancies (check_observer cd secrets a p body s))"
  by (auto simp: check_ticket_ops_def check_observer_def split: option.splits)

lemma lines_read_collation:
  "read_collation_artifact cd loc p body s = Inr s' \<Longrightarrow> set (discrepancies s) \<subseteq> set (discrepancies s')"
  by (auto simp: read_collation_artifact_def Let_def split: if_splits sum.splits collation_read.splits)

lemma lines_on_digest:
  assumes "on_digest cd loc secrets matched p n d kept s = Inr s'"
  shows "set (discrepancies s) \<subseteq> set (discrepancies s')"
proof -
  let ?s = "s\<lparr>spent := spent s + n\<rparr>"
  let ?t = "\<lambda>s. case kept of Some body \<Rightarrow> if isTicketOps p then check_ticket_ops cd secrets p body s else s | None \<Rightarrow> s"
  let ?o = "\<lambda>s. case (kept, observerTargetFor p) of (Some body, Some a) \<Rightarrow> check_observer cd secrets a p body s | _ \<Rightarrow> s"
  obtain s1 where s1: "(case kept of Some body \<Rightarrow> if isCollation p then read_collation_artifact cd loc p body ?s else Inr ?s
      | None \<Rightarrow> Inr ?s) = Inr s1" and s': "s' = record_artifact matched p n d (?o (?t s1))"
    using assms by (auto simp: on_digest_def Let_def split: sum.splits)
  have "set (discrepancies s) \<subseteq> set (discrepancies s1)"
    using s1 lines_read_collation [of cd loc p _ ?s s1] by (auto split: option.splits if_splits)
  also have "\<dots> \<subseteq> set (discrepancies (?t s1))" using lines_check(1) by (auto split: option.splits)
  also have "\<dots> \<subseteq> set (discrepancies (?o (?t s1)))"
    using lines_check(2) [of "?t s1"] by (cases kept; cases "observerTargetFor p") simp_all
  also have "\<dots> \<subseteq> set (discrepancies s')" unfolding s' by (rule lines_record_artifact)
  finally show ?thesis .
qed

lemma lines_kept:
  "reconcile_files files cd loc secrets matched fs s = Inr r \<Longrightarrow> set (discrepancies s) \<subseteq> set (discrepancies r)"
proof (induction fs arbitrary: s)
  case (Cons f fs)
  show ?case
  proof (cases "digest_next files cd f s")
    case (Digest_ok n d kept)
    with Cons.prems obtain s' where "on_digest cd loc secrets matched (of_path f) n d kept s = Inr s'"
      "reconcile_files files cd loc secrets matched fs s' = Inr r" by (auto simp: reconcile_step split: sum.splits)
    then show ?thesis using Cons.IH lines_on_digest by blast
  next
    case (Too_large n)
    with Cons.prems Cons.IH show ?thesis using lines_note_unread by (fastforce simp: reconcile_step)
  next
    case Over_budget
    with Cons.prems have "r = unreached fs (report_line (Stopped_after (spent s)) (note_unread (of_path f) Kind_over_budget s))"
      by (simp add: reconcile_step)
    then show ?thesis using discrepancies_unreached lines_note_unread by fastforce
  next
    case (Unreadable code)
    with Cons.prems Cons.IH show ?thesis using lines_note_unread by (fastforce simp: reconcile_step)
  qed
qed simp

text \<open>What the report says of a held file that is not in the inventory.\<close>

definition accounted :: "reconciliation \<Rightarrow> host_path \<Rightarrow> bool" where
  "accounted r p \<longleftrightarrow> p \<in> ra_path ` set (artifacts r) \<or>
    (\<exists>n. Artifact_too_large p n \<in> set (discrepancies r)) \<or> (\<exists>code. Artifact_unreadable p code \<in> set (discrepancies r))"

lemma artifacts_kept:
  "reconcile_files files cd loc secrets matched fs s = Inr r \<Longrightarrow> set (artifacts s) \<subseteq> set (artifacts r)"
proof (induction fs arbitrary: s)
  case (Cons f fs)
  then show ?case
    by (cases "digest_next files cd f s") (fastforce simp: reconcile_step split: sum.splits dest: on_digest_fields)+
qed simp

lemma files_accounted:
  assumes "reconcile_files files cd loc secrets matched fs s = Inr r"
  shows "stopped r \<or> (\<forall>f \<in> set fs. accounted r (of_path f))"
  using assms
proof (induction fs arbitrary: s)
  case (Cons f fs)
  show ?case
  proof (cases "digest_next files cd f s")
    case (Digest_ok n d kept)
    with Cons.prems obtain s' where s': "on_digest cd loc secrets matched (of_path f) n d kept s = Inr s'"
      and run: "reconcile_files files cd loc secrets matched fs s' = Inr r" by (auto simp: reconcile_step split: sum.splits)
    have "of_path f \<in> ra_path ` set (artifacts s')" using on_digest_fields [OF s'] by simp
    with artifacts_kept [OF run] have "accounted r (of_path f)" by (auto simp: accounted_def)
    with Cons.IH [OF run] show ?thesis by simp
  next
    case (Too_large n)
    with Cons.prems have run: "reconcile_files files cd loc secrets matched fs
        (report_line (Artifact_too_large (of_path f) n) (note_unread (of_path f) Kind_too_large s)) = Inr r"
      by (simp add: reconcile_step)
    from lines_kept [OF this] have "accounted r (of_path f)" by (auto simp: accounted_def)
    with Cons.IH [OF run] show ?thesis by simp
  next
    case Over_budget
    with Cons.prems have "r = unreached fs (report_line (Stopped_after (spent s)) (note_unread (of_path f) Kind_over_budget s))"
      by (simp add: reconcile_step)
    then have "stopped r"
      using discrepancies_unreached [of "report_line (Stopped_after (spent s)) (note_unread (of_path f) Kind_over_budget s)" fs]
      unfolding stopped_def by auto
    then show ?thesis ..
  next
    case (Unreadable code)
    with Cons.prems have run: "reconcile_files files cd loc secrets matched fs
        (report_line (Artifact_unreadable (of_path f) code) (note_unread (of_path f) Kind_unreadable s)) = Inr r"
      by (simp add: reconcile_step)
    from lines_kept [OF this] have "accounted r (of_path f)" by (auto simp: accounted_def)
    with Cons.IH [OF run] show ?thesis by simp
  qed
qed simp

lemma set_claim_lines: "set (claim_lines rs) = {d. Inl d \<in> set rs}" and set_claim_matches: "set (claim_matches rs) = {p. Inr p \<in> set rs}"
  by (induction rs rule: claim_lines.induct) auto

lemma before_reading_lines:
  "set (claim_lines (claim_results loc held_files claimed)) \<union>
   set (unclaimed_lines claimed (claim_matches (claim_results loc held_files claimed)) (ordered held_files))
    \<subseteq> set (discrepancies (before_reading loc held_files claimed))"
proof -
  have "set (discrepancies s) \<subseteq> set (discrepancies (fold (orphan_step fs) ps s))" for fs ps s
  proof (induction ps arbitrary: s)
    case (Cons p ps)
    have "set (discrepancies s) \<subseteq> set (discrepancies (orphan_step fs p s))"
      by (cases p) (auto simp: orphan_step_def Let_def)
    with Cons.IH [of "orphan_step fs p s"] show ?case by auto
  qed simp
  from this [of "reconcile_start\<lparr>discrepancies := claim_lines (claim_results loc held_files claimed) @
      unclaimed_lines claimed (claim_matches (claim_results loc held_files claimed)) (ordered held_files)\<rparr>"]
  show ?thesis by (simp add: before_reading_def Let_def)
qed


text \<open>
  Nothing of the claims and of the outbox goes unmentioned. Every claim of the envelope resolves to
  a held file or is reported; every held file is claimed or reported as unclaimed; and unless the
  report says the budget stopped the reading, every held file is in the inventory or reported as too
  large or unreadable.
\<close>

theorem reconciliation_accounts:
  assumes "reconcileArtifactClaims files cd held_files (Some refs) loc secrets = Inr r"
  shows "(\<forall>ref \<in> set refs. artifactClaimToHost (af_path ref) loc \<in> Some ` of_path ` set held_files \<or>
      {Claim_unmounted ref, Claim_outside ref, Claim_not_held ref} \<inter> set (discrepancies r) \<noteq> {}) \<and>
    (\<forall>f \<in> set held_files. Some (of_path f) \<in> (\<lambda>ref. artifactClaimToHost (af_path ref) loc) ` set refs \<or>
      Unclaimed (of_path f) \<in> set (discrepancies r)) \<and>
    (stopped r \<or> (\<forall>f \<in> set held_files. accounted r (of_path f)))"
proof -
  let ?results = "claim_results loc held_files (Some refs)"
  from assms have run: "reconcile_files files cd loc secrets (claim_matches ?results) (ordered held_files)
      (before_reading loc held_files (Some refs)) = Inr r"
    by (simp add: reconcileArtifactClaims_def)
  from lines_kept [OF run] before_reading_lines [of loc held_files "Some refs"]
  have lines: "set (claim_lines ?results) \<subseteq> set (discrepancies r)"
    "set (unclaimed_lines (Some refs) (claim_matches ?results) (ordered held_files)) \<subseteq> set (discrepancies r)" by blast+
  have "artifactClaimToHost (af_path ref) loc \<in> Some ` of_path ` set held_files \<or>
      {Claim_unmounted ref, Claim_outside ref, Claim_not_held ref} \<inter> set (discrepancies r) \<noteq> {}" if "ref \<in> set refs" for ref
  proof (cases "claim_target loc (of_path ` set held_files) ref")
    case (Inl d)
    with that have "Inl d \<in> set ?results" by (force simp: claim_results_def)
    then have "d \<in> set (discrepancies r)" using lines(1) by (auto simp: set_claim_lines)
    moreover from Inl have "d \<in> {Claim_unmounted ref, Claim_outside ref, Claim_not_held ref}"
      by (auto simp: claim_target_def split: option.splits if_splits)
    ultimately show ?thesis by blast
  next
    case (Inr p)
    then show ?thesis by (auto simp: claim_target_def split: option.splits if_splits)
  qed
  moreover have "Some (of_path f) \<in> (\<lambda>ref. artifactClaimToHost (af_path ref) loc) ` set refs \<or>
      Unclaimed (of_path f) \<in> set (discrepancies r)" if f: "f \<in> set held_files" for f
  proof (cases "of_path f \<in> set (claim_matches ?results)")
    case True
    then obtain ref where "ref \<in> set refs" "claim_target loc (of_path ` set held_files) ref = Inr (of_path f)"
      by (auto simp: set_claim_matches claim_results_def)
    then have "artifactClaimToHost (af_path ref) loc = Some (of_path f)"
      by (auto simp: claim_target_def split: option.splits if_splits)
    with \<open>ref \<in> set refs\<close> show ?thesis by force
  next
    case False
    then have "Unclaimed (of_path f) \<in> set (unclaimed_lines (Some refs) (claim_matches ?results) (ordered held_files))"
      using f by (auto simp: unclaimed_lines_def ordered_def)
    with lines(2) show ?thesis by blast
  qed
  moreover have "stopped r \<or> (\<forall>f \<in> set held_files. accounted r (of_path f))"
    using files_accounted [OF run] by (simp add: ordered_def)
  ultimately show ?thesis by blast
qed

section \<open>A sample outbox\<close>

definition sample_observer_json :: json where
  "sample_observer_json = JObj [(''schema'', JStr ''pifleet.observer-vm-ops/v1''), (''worker'', JStr ''w1''),
     (''sweep_id'', JNull), (''window_opened_at'', JNull), (''services'', JArr [])]"

definition sample_codec :: codec where
  "sample_codec = \<lparr>body_text = (\<lambda>_. ''{}''), json_parse = (\<lambda>_. Some sample_observer_json),
     body_spells = (\<lambda>_ _. False), sha256 = (\<lambda>_. ''00''), iso_datetime = (\<lambda>_. True)\<rparr>"

definition sample_held_file :: outbox_file where
  "sample_held_file = \<lparr>of_path = [''outbox'', ''w1'', ''t1'', ''files'', ''observer-vm-ops.json''],
     of_handle = [''outbox'', ''w1'', ''t1'', ''files'', ''observer-vm-ops.json'']\<rparr>"

definition sample_held :: held where
  "sample_held = \<lparr>h_stat = Inr 2, h_read = (\<lambda>i n. Inr (drop i [123, 125]))\<rparr>"

definition sample_ref :: artifact_ref where
  "sample_ref = \<lparr>af_kind = Artifact_file, af_path = ''files/observer-vm-ops.json''\<rparr>"

definition sample_reconciled :: reconciliation where
  "sample_reconciled = reconcile_start\<lparr>
     artifacts := [\<lparr>ra_path = of_path sample_held_file, ra_bytes = 2, ra_sha256 = ''00''\<rparr>], spent := 2\<rparr>"

lemma sample_digest:
  "digestHeldArtifact sha sample_held (8 * 1024 * 1024) True = Digest_ok 2 (sha [123, 125]) (Some [123, 125])"
  by (simp add: digestHeldArtifact_def sample_held_def MAX_ARTIFACT_BYTES_def READ_CHUNK_BYTES_def read_loop.simps)

lemma sample_observer_valid: "validateObserverTarget sample_codec body Vm_target [''ghp''] = None"
proof -
  have worker: "workerId ''w1''" and nonblank: "\<not> blank ''ghp''" by code_simp+
  then have schema: "ObserverVmOpsArtifactSchema sample_observer_json =
      Some \<lparr>od_worker = ''w1'', od_sweep_id = None, od_window_opened_at = None, od_services = []\<rparr>"
    by (simp add: ObserverVmOpsArtifactSchema_def observer_schema_def sample_observer_json_def field_def nullable_def)
  have "literal_scan holds (units ''{}'') i None esc dec = False" for holds i esc dec
  proof (induction "2 - i" arbitrary: i esc dec)
    case 0
    then show ?case by (subst literal_scan.simps) (simp add: units_def open_literal_def)
  next
    case (Suc n)
    then have "i = 0 \<or> i = 1" by arith
    with Suc show ?case
      by (subst literal_scan.simps) (auto simp: units_def QUOTE_def)
  qed
  then have body: "credentialInBody (\<lambda>_. False) (units ''{}'') [''ghp''] = None"
    by (simp add: credentialInBody_def nonblank)
  have "\<forall>s \<in> strings_in sample_observer_json \<union> keys_in sample_observer_json. CHR ''g'' \<notin> set s"
    by (simp add: sample_observer_json_def strings_in_cases keys_in_cases)
  then have "\<not> (\<exists>s \<in> strings_in sample_observer_json \<union> keys_in sample_observer_json. js_includes s ''ghp'')"
    using js_includes_chars [of _ "''ghp''"] by fastforce
  moreover have "jdepth sample_observer_json \<le> 32768"
    by (simp add: sample_observer_json_def jdepth.simps)
  ultimately have "sweepThenParse ObserverVmOpsArtifactSchema sample_observer_json [''ghp''] =
      Inr \<lparr>od_worker = ''w1'', od_sweep_id = None, od_window_opened_at = None, od_services = []\<rparr>"
    using schema by (simp add: sweep_accepts)
  then show ?thesis
    using body by (simp add: validateObserverTarget_def sample_codec_def target_refusal_def parseObserverVmOpsArtifact_def)
qed

lemma sample_reconcile_files:
  "reconcile_files (\<lambda>_. sample_held) sample_codec loc [''ghp''] matched [sample_held_file] reconcile_start = Inr sample_reconciled"
proof -
  have kinds: "observerTargetFor (of_path sample_held_file) = Some Vm_target" "\<not> isTicketOps (of_path sample_held_file)"
    "\<not> isCollation (of_path sample_held_file)" by code_simp+
  have "min MAX_ARTIFACT_BYTES (MAX_RECONCILED_BYTES - 0) = 8 * 1024 * 1024"
    by (simp add: MAX_ARTIFACT_BYTES_def MAX_RECONCILED_BYTES_def)
  then have digest: "digest_next (\<lambda>_. sample_held) sample_codec sample_held_file reconcile_start =
      Digest_ok 2 ''00'' (Some [123, 125])"
    using sample_digest [of "sha256 sample_codec"]
    by (simp add: digest_next_def kinds reconcile_start_def) (simp add: sample_codec_def)
  have "on_digest sample_codec loc [''ghp''] matched (of_path sample_held_file) 2 ''00''
      (Some [123, 125]) reconcile_start = Inr sample_reconciled"
    by (simp add: on_digest_def kinds check_observer_def sample_observer_valid record_artifact_def sample_reconciled_def
        reconcile_start_def)
  then show ?thesis by (simp add: reconcile_step digest)
qed

lemma sample_before_reading:
  "claimed = None \<or> claimed = Some [sample_ref] \<Longrightarrow>
    before_reading sample_location [sample_held_file] claimed = reconcile_start"
proof -
  have claim: "claim_target sample_location {of_path sample_held_file} sample_ref = Inr (of_path sample_held_file)"
    by code_simp
  have docs: "fold (orphan_step [sample_held_file]) document_pairs reconcile_start = reconcile_start" by code_simp
  have none: "reconcile_start\<lparr>discrepancies := []\<rparr> = reconcile_start" by (simp add: reconcile_start_def)
  show "claimed = None \<or> claimed = Some [sample_ref] \<Longrightarrow> ?thesis"
    by (auto simp: before_reading_def claim_results_def claim unclaimed_lines_def ordered_def docs none)
qed

lemma sample_reconciles_as:
  "claimed = None \<or> claimed = Some [sample_ref] \<Longrightarrow>
    reconcileArtifactClaims (\<lambda>_. sample_held) sample_codec [sample_held_file] claimed sample_location [''ghp''] = Inr sample_reconciled"
  by (simp add: reconcileArtifactClaims_def sample_before_reading sample_reconcile_files ordered_def)

lemmas sample_reconciles = sample_reconciles_as [of "Some [sample_ref]", simplified]

theorem reconciliation_within_budget_witness:
  "sum_list (map ra_bytes (artifacts sample_reconciled)) \<le> 64 * 1024 * 1024"
  using reconciliation_within_budget [OF sample_reconciles, of "\<lambda>x. sample_held"] by (simp add: same_beginning_def)

theorem reconciliation_accounts_witness: "accounted sample_reconciled (of_path sample_held_file) \<or> stopped sample_reconciled"
  using reconciliation_accounts [OF sample_reconciles] by auto

theorem no_ceiling_no_secret_witness:
  "\<exists>cap m d body. digestHeldArtifact (sha256 sample_codec) sample_held cap True = Digest_ok m d (Some body) \<and>
    \<not> body_spells sample_codec body ''ghp''"
proof -
  have "verdictCeiling sample_reconciled = None" by (simp add: sample_reconciled_def reconcile_start_def)
  moreover have "\<not> blank ''ghp''" "observerTargetFor (of_path sample_held_file) = Some Vm_target" by code_simp+
  ultimately show ?thesis
    using no_ceiling_no_secret [OF sample_reconciles, of sample_held_file "''ghp''"] by auto
qed

end
