(* ===== verification/Harvest.thy ===== *)
theory Harvest
  imports Reconcile
begin

text \<open>
  The harvest of one task and of a run (\<open>harvestTask\<close> and \<open>harvestAll\<close> of
  \<open>src/harvest/index.ts\<close>): the envelope is read, the outbox scanned, the claims reconciled, the facts
  adjudicated, and the ceilings of the reconciliation and of the collation applied before the
  supervisor's own verdict overrides. It composes the theories Outbox, Reconcile, Collation_Census and
  Adjudicate. What git, the acceptance commands and the two scans for the test harness find is given.
\<close>

record git_facts =
  gf_ok :: bool
  gf_base_ref :: "string option"
  gf_branch :: "string option"
  gf_head_ref :: "string option"
  gf_facts :: derived_facts

record task_record =
  tr_epoch :: int
  tr_verdict :: verdict
  tr_tree_hash :: "string option"

record dispatch =
  dp_task_id :: task_id
  dp_worker_outbox :: host_path
  dp_epoch :: int
  dp_container_workdir :: string
  dp_host_workdir :: "host_path option"

text \<open>
  Everything a harvest looks at: the dispatch record, the worktree, the outbox, the held descriptors,
  the supervisor's record, and what the acceptance commands yield if they are run.
\<close>

record harvest_sight =
  hv_dispatch :: "dispatch option"
  hv_git :: git_facts
  hv_envelope :: envelope_sight
  hv_world :: world
  hv_outbox :: outbox_sight
  hv_files :: "host_path \<Rightarrow> held"
  hv_record :: "task_record option"
  hv_acceptance :: "acceptance_run list option"
  hv_tree_hash :: "string option"

record harvest_env =
  he_codec :: codec
  he_secrets :: "string list"
  he_run_acceptance :: bool
  he_harness :: "string list \<Rightarrow> acceptance_run list \<Rightarrow> harness_surface"
  he_facts_hash :: "derived_facts \<Rightarrow> string"
  he_defect_text :: "census_defect \<Rightarrow> string"

datatype harvest_status = Complete | Partly | Unavailable

record task_harvest =
  th_task_id :: task_id
  th_verdict :: verdict
  th_status :: harvest_status
  th_claimed :: "envelope option"
  th_artifacts :: "reconciled_artifact list"
  th_facts :: derived_facts

section \<open>The verdict\<close>

definition deriveRepoVerdict :: "git_facts \<Rightarrow> verdict" where
  "deriveRepoVerdict git =
    (if \<not> gf_ok git then Unknown
     else if gf_base_ref git = None then Unknown
     else if \<not> df_base_is_ancestor (gf_facts git) then Unknown
     else if df_commits (gf_facts git) = [] \<and> df_files_changed (gf_facts git) = [] then Failed
     else Unknown)"

definition derivedVerdict :: "git_facts \<Rightarrow> task_record option \<Rightarrow> int \<Rightarrow> verdict" where
  "derivedVerdict git rec epoch =
    (case rec of
       Some r \<Rightarrow> if tr_epoch r = epoch \<and> tr_verdict r \<in> {Aborted, Timed_out} then tr_verdict r else deriveRepoVerdict git
     | None \<Rightarrow> deriveRepoVerdict git)"

definition under_ceiling :: "verdict option \<Rightarrow> verdict \<Rightarrow> verdict" where
  "under_ceiling limit v =
    (case limit of Some c \<Rightarrow> if rank v > rank c then c else v | None \<Rightarrow> v)"

definition under_collation_cap :: "(verdict \<times> collation_cap_reason) option \<Rightarrow> verdict \<Rightarrow> verdict" where
  "under_collation_cap cap v =
    (case cap of Some (c, why) \<Rightarrow> if rank v > rank c then c else v | None \<Rightarrow> v)"

definition supervisor_override :: "verdict \<Rightarrow> verdict \<Rightarrow> verdict" where
  "supervisor_override derived v = (if derived = Aborted \<or> derived = Timed_out then derived else v)"

definition final_verdict ::
  "verdict \<Rightarrow> verdict option \<Rightarrow> (verdict \<times> collation_cap_reason) option \<Rightarrow> verdict \<Rightarrow> verdict" where
  "final_verdict adjudicated limit cap derived =
    supervisor_override derived (under_collation_cap cap (under_ceiling limit adjudicated))"

definition harvestStatus :: "bool \<Rightarrow> outbox_read \<Rightarrow> scan \<Rightarrow> harvest_status" where
  "harvestStatus git_ok outbox sc =
    (let degraded = (case outbox of Outbox_refused _ \<Rightarrow> True | Outbox_unreadable _ \<Rightarrow> True | _ \<Rightarrow> refused sc \<noteq> []);
         ok = (case outbox of Outbox_ok _ \<Rightarrow> True | _ \<Rightarrow> False)
     in if \<not> git_ok \<and> \<not> ok then Unavailable
        else if git_ok \<and> \<not> degraded then Complete
        else Partly)"

section \<open>The harvest of a task\<close>

text \<open>The facts of a task that is not repository work, and of one that could not be harvested.\<close>

definition no_harness :: harness_surface where
  "no_harness = \<lparr>hs_patterns = [], hs_touched = [], hs_defaults_missed = [], hs_graded = [], hs_graded_runners = [],
     hs_graded_unresolved = []\<rparr>"

definition no_facts :: "bool \<Rightarrow> derived_facts" where
  "no_facts repository =
    \<lparr>df_repository = repository, df_base_is_ancestor = False, df_commits = [], df_files_changed = [],
     df_diff_bytes = 0, df_acceptance = [], df_harness = no_harness, df_collation = None,
     df_tree_hash_quiesce = None, df_tree_hash_harvest = None\<rparr>"

definition unavailableHarvest :: "task_id \<Rightarrow> task_harvest" where
  "unavailableHarvest taskId =
    \<lparr>th_task_id = taskId, th_verdict = Unknown, th_status = Unavailable, th_claimed = None, th_artifacts = [],
     th_facts = no_facts True\<rparr>"

definition location_of :: "dispatch \<Rightarrow> task_id \<Rightarrow> outbox_location" where
  "location_of d taskId = \<lparr>workerOutboxDir = dp_worker_outbox d, ol_taskId = taskId, ol_epoch = dp_epoch d,
     containerWorkdir = dp_container_workdir d, hostWorkdir = dp_host_workdir d\<rparr>"

definition git_of :: "harvest_sight \<Rightarrow> dispatch \<Rightarrow> git_facts" where
  "git_of sight d =
    (if dp_host_workdir d \<noteq> None then hv_git sight
     else \<lparr>gf_ok = False, gf_base_ref = None, gf_branch = None, gf_head_ref = None, gf_facts = no_facts False\<rparr>)"

definition claimed_of :: "outbox_read \<Rightarrow> envelope option" where
  "claimed_of outbox = (case outbox of Outbox_ok e \<Rightarrow> Some e | _ \<Rightarrow> None)"

text \<open>What the adjudicator reads of an envelope.\<close>

definition claim_facts :: "envelope \<Rightarrow> result_envelope" where
  "claim_facts e = \<lparr>re_status = en_status e, re_files_changed = map fc_path (en_files_changed e), re_commits = en_commits e\<rparr>"

definition graded_facts :: "harvest_env \<Rightarrow> harvest_sight \<Rightarrow> dispatch \<Rightarrow> census option \<Rightarrow> derived_facts" where
  "graded_facts env sight d census =
    (let git = git_of sight d;
         facts = gf_facts git;
         runs = (if he_run_acceptance env \<and> gf_ok git \<and> gf_head_ref git \<noteq> None \<and> dp_host_workdir d \<noteq> None
                 then (case hv_acceptance sight of None \<Rightarrow> df_acceptance facts | Some runs \<Rightarrow> runs)
                 else df_acceptance facts)
     in facts\<lparr>df_acceptance := runs,
          df_harness := he_harness env (df_files_changed facts) runs,
          df_collation := map_option (census_facts (he_defect_text env)) census,
          df_tree_hash_quiesce := (case hv_record sight of
             Some r \<Rightarrow> if tr_epoch r = dp_epoch d then tr_tree_hash r else None | None \<Rightarrow> None),
          df_tree_hash_harvest := (if dp_host_workdir d \<noteq> None then hv_tree_hash sight else None)\<rparr>)"

definition graded_harvest ::
  "harvest_env \<Rightarrow> harvest_sight \<Rightarrow> dispatch \<Rightarrow> task_id \<Rightarrow> outbox_read \<Rightarrow> scan \<Rightarrow> reconciliation \<Rightarrow> task_harvest" where
  "graded_harvest env sight d taskId outbox sc reconciled =
    (let git = git_of sight d;
         claimed = claimed_of outbox;
         census = censusFromRead (collationRead reconciled) (resolve_path [] (dp_container_workdir d));
         facts = graded_facts env sight d census;
         adj = adjudicate (he_facts_hash env) facts (map_option claim_facts claimed);
         cap = collationCeilingFor taskId (map_option en_status claimed) (collationRead reconciled)
     in \<lparr>th_task_id = taskId,
         th_verdict = final_verdict (ad_verdict adj) (verdictCeiling reconciled) cap
           (derivedVerdict git (hv_record sight) (dp_epoch d)),
         th_status = harvestStatus (gf_ok git) outbox sc,
         th_claimed = claimed,
         th_artifacts = artifacts reconciled,
         th_facts = facts\<rparr>)"

definition harvestTask :: "harvest_env \<Rightarrow> harvest_sight \<Rightarrow> task_id \<Rightarrow> aspect_error + task_harvest" where
  "harvestTask env sight taskId =
    (case hv_dispatch sight of
       None \<Rightarrow> Inr (unavailableHarvest taskId)
     | Some d \<Rightarrow>
         (let loc = location_of d taskId;
              cd = he_codec env;
              outbox = readResultEnvelope (json_parse cd \<circ> body_text cd) loc (hv_envelope sight);
              sc = scanOutboxFiles (hv_world sight) (hv_outbox sight) loc
          in case reconcileArtifactClaims (hv_files sight) cd (safe sc) (map_option en_artifacts (claimed_of outbox)) loc
                (he_secrets env) of
            Inl e \<Rightarrow> Inl e
          | Inr reconciled \<Rightarrow> Inr (graded_harvest env sight d taskId outbox sc reconciled)))"

definition harvestAll :: "harvest_env \<Rightarrow> (task_id \<Rightarrow> harvest_sight) \<Rightarrow> task_id list \<Rightarrow> task_harvest list" where
  "harvestAll env sights taskIds =
    map (\<lambda>t. case harvestTask env (sights t) t of Inl e \<Rightarrow> unavailableHarvest t | Inr h \<Rightarrow> h) taskIds"


section \<open>The ceilings of the chain\<close>

definition failed_or_none :: "reconciliation \<Rightarrow> bool" where
  "failed_or_none s \<longleftrightarrow> verdictCeiling s = None \<or> verdictCeiling s = Some Failed"

lemma failed_or_none_ops [simp]:
  "failed_or_none (report_line d s) = failed_or_none s"
  "failed_or_none (clampTo TICKET_OPS_FAILURE_CEILING why s)"
  "failed_or_none (clampTo OBSERVER_TARGET_FAILURE_CEILING why s)"
  "failed_or_none (observerNotRead p a kind s)"
  "failed_or_none (s\<lparr>spent := n\<rparr>) = failed_or_none s"
  "failed_or_none (s\<lparr>discrepancies := ds\<rparr>) = failed_or_none s"
  "failed_or_none (s\<lparr>collationSeen := b, collationRead := r\<rparr>) = failed_or_none s"
  "failed_or_none (record_artifact matched p k h s) = failed_or_none s"
  by (simp_all add: failed_or_none_def TICKET_OPS_FAILURE_CEILING_def OBSERVER_TARGET_FAILURE_CEILING_def)

lemma failed_or_none_steps:
  assumes "failed_or_none s"
  shows "failed_or_none (note_unread p why s)" and "failed_or_none (unreached fs s)"
    and "failed_or_none (check_ticket_ops cd secrets p body s)" and "failed_or_none (check_observer cd secrets a p body s)"
    and "v = Failed \<Longrightarrow> failed_or_none (orphan_step fs (name, v) s)"
proof -
  show "failed_or_none (note_unread p why s)"
    using assms by (simp add: note_unread_def Let_def split: option.splits)
  show "failed_or_none (unreached fs s)"
    using assms unfolding unreached_def by (induction fs arbitrary: s) (simp_all split: option.splits)
  show "failed_or_none (check_ticket_ops cd secrets p body s)" "failed_or_none (check_observer cd secrets a p body s)"
    using assms by (simp_all add: check_ticket_ops_def check_observer_def split: option.splits)
  show "v = Failed \<Longrightarrow> failed_or_none (orphan_step fs (name, v) s)"
    using assms by (simp add: orphan_step_def Let_def) (simp add: failed_or_none_def)
qed

lemma failed_or_none_digest:
  assumes "on_digest cd loc secrets matched p n d kept s = Inr s'" and "failed_or_none s"
  shows "failed_or_none s'"
proof -
  have "failed_or_none t" if "read_collation_artifact cd loc p body u = Inr t" "failed_or_none u" for body t u
    using read_collation_fields [OF that(1)] that(2) by (simp add: failed_or_none_def)
  then show ?thesis using assms
    by (auto simp: on_digest_def Let_def failed_or_none_steps split: option.splits if_splits sum.splits)
qed

lemma failed_or_none_files:
  "reconcile_files files cd loc secrets matched fs s = Inr r \<Longrightarrow> failed_or_none s \<Longrightarrow> failed_or_none r"
proof (induction fs arbitrary: s)
  case (Cons f fs)
  show ?case
  proof (cases "digest_next files cd f s")
    case (Digest_ok n d kept)
    with Cons show ?thesis by (auto simp: reconcile_step split: sum.splits dest: failed_or_none_digest)
  next
    case (Too_large n)
    with Cons.prems Cons.IH [of "report_line (Artifact_too_large (of_path f) n) (note_unread (of_path f) Kind_too_large s)"]
    show ?thesis by (simp add: reconcile_step failed_or_none_steps)
  next
    case Over_budget
    with Cons.prems show ?thesis by (auto simp: reconcile_step failed_or_none_steps)
  next
    case (Unreadable code)
    with Cons.prems Cons.IH [of "report_line (Artifact_unreadable (of_path f) code) (note_unread (of_path f) Kind_unreadable s)"]
    show ?thesis by (simp add: reconcile_step failed_or_none_steps)
  qed
qed simp

lemma ceiling_cases:
  assumes "reconcileArtifactClaims files cd held_files claimed loc secrets = Inr r"
  shows "verdictCeiling r = None \<or> verdictCeiling r = Some Failed"
proof -
  have orphans: "failed_or_none (fold (orphan_step fs) ps s)"
    if "failed_or_none s" "\<forall>(a, v) \<in> set ps. v = Failed" for fs ps s
    using that by (induction ps arbitrary: s) (auto simp: failed_or_none_steps)
  have "failed_or_none reconcile_start" by (simp add: failed_or_none_def reconcile_start_def)
  then have "failed_or_none (before_reading loc held_files claimed)"
    unfolding before_reading_def Let_def
    by (intro orphans) (auto simp: document_pairs_def TICKET_OPS_FAILURE_CEILING_def OBSERVER_TARGET_FAILURE_CEILING_def)
  with failed_or_none_files assms have "failed_or_none r" by (auto simp: reconcileArtifactClaims_def)
  then show ?thesis by (simp add: failed_or_none_def)
qed

lemma collationCeilingFor_capped:
  "collationCeilingFor taskId claimed read = Some (status, why) \<Longrightarrow>
    status = Partial \<and> claimed = Some Success \<and> isCollationTaskId taskId"
  by (auto simp: collationCeilingFor_def dest: collationCeiling_capped split: option.splits prod.splits)

text \<open>Each of the two ceilings only lowers a verdict, and leaves one outside the lattice alone.\<close>

interpretation reconcile_caps: verdict_cap "under_ceiling (if clamped then Some Failed else None)" for clamped
  by unfold_locales (auto simp: under_ceiling_def)

interpretation collation_limit: verdict_cap "under_collation_cap (collationCeilingFor taskId claimed read)"
  for taskId claimed read
  by unfold_locales
    (auto simp: under_collation_cap_def dest: collationCeilingFor_capped split: option.splits)

lemma under_ceiling_clamped:
  "verdictCeiling r = None \<or> verdictCeiling r = Some Failed \<Longrightarrow>
    under_ceiling (verdictCeiling r) = under_ceiling (if verdictCeiling r = Some Failed then Some Failed else None)"
  by auto

lemma harvested:
  assumes "harvestTask env sight taskId = Inr h" and "hv_dispatch sight = Some d"
  obtains outbox sc r where
    "outbox = readResultEnvelope (json_parse (he_codec env) \<circ> body_text (he_codec env)) (location_of d taskId) (hv_envelope sight)"
    "sc = scanOutboxFiles (hv_world sight) (hv_outbox sight) (location_of d taskId)"
    "reconcileArtifactClaims (hv_files sight) (he_codec env) (safe sc) (map_option en_artifacts (claimed_of outbox))
      (location_of d taskId) (he_secrets env) = Inr r"
    "h = graded_harvest env sight d taskId outbox sc r"
  using assms by (auto simp: harvestTask_def Let_def split: sum.splits)

definition supervisor_settled :: "harvest_sight \<Rightarrow> dispatch \<Rightarrow> verdict option" where
  "supervisor_settled sight d =
    (case hv_record sight of
       Some r \<Rightarrow> if tr_epoch r = dp_epoch d \<and> tr_verdict r \<in> {Aborted, Timed_out} then Some (tr_verdict r) else None
     | None \<Rightarrow> None)"

lemma deriveRepoVerdict_range: "deriveRepoVerdict git \<noteq> Aborted" "deriveRepoVerdict git \<noteq> Timed_out"
  by (simp_all add: deriveRepoVerdict_def)

lemma override_settled:
  "supervisor_override (derivedVerdict git (hv_record sight) (dp_epoch d)) v =
    (case supervisor_settled sight d of Some s \<Rightarrow> s | None \<Rightarrow> v)"
  using deriveRepoVerdict_range [of git]
  by (auto simp: supervisor_override_def derivedVerdict_def supervisor_settled_def split: option.splits)

text \<open>The verdict the adjudicator reaches on the facts of a harvest.\<close>

definition adjudicated :: "harvest_env \<Rightarrow> task_harvest \<Rightarrow> verdict" where
  "adjudicated env h = ad_verdict (adjudicate (he_facts_hash env) (th_facts h) (map_option claim_facts (th_claimed h)))"

lemma graded_harvest_fields [simp]:
  "th_claimed (graded_harvest env sight d taskId outbox sc r) = claimed_of outbox"
  "th_artifacts (graded_harvest env sight d taskId outbox sc r) = artifacts r"
  "th_status (graded_harvest env sight d taskId outbox sc r) = harvestStatus (gf_ok (git_of sight d)) outbox sc"
  by (simp_all add: graded_harvest_def Let_def)

lemma graded_verdict:
  "th_verdict (graded_harvest env sight d taskId outbox sc r) =
    (case supervisor_settled sight d of
       Some s \<Rightarrow> s
     | None \<Rightarrow> under_collation_cap
         (collationCeilingFor taskId (map_option en_status (claimed_of outbox)) (collationRead r))
         (under_ceiling (verdictCeiling r) (adjudicated env (graded_harvest env sight d taskId outbox sc r))))"
  by (cases "supervisor_settled sight d")
    (simp_all add: graded_harvest_def adjudicated_def Let_def final_verdict_def override_settled)

text \<open>
  A harvest never says more than its evidence. A verdict inside the lattice is no better than the
  one the adjudicator reached, and it is within the lattice only if that one was: no ceiling of the
  chain raises a verdict, whatever the worker wrote. Only the supervisor's own record, when it
  settled this very epoch as aborted or timed out, replaces the verdict, and then it always does.
\<close>

theorem harvest_verdict_bounded:
  assumes "harvestTask env sight taskId = Inr h" and "hv_dispatch sight = Some d"
  shows "case supervisor_settled sight d of
      Some s \<Rightarrow> th_verdict h = s
    | None \<Rightarrow> rank (th_verdict h) \<le> rank (adjudicated env h) \<and>
        (0 \<le> rank (th_verdict h) \<longleftrightarrow> 0 \<le> rank (adjudicated env h))"
proof -
  from assms obtain outbox sc r where
    r: "reconcileArtifactClaims (hv_files sight) (he_codec env) (safe sc) (map_option en_artifacts (claimed_of outbox))
      (location_of d taskId) (he_secrets env) = Inr r" and h: "h = graded_harvest env sight d taskId outbox sc r"
    by (rule harvested)
  note under = under_ceiling_clamped [OF ceiling_cases [OF r]]
  show ?thesis
  proof (cases "supervisor_settled sight d")
    case None
    let ?cap = "under_collation_cap (collationCeilingFor taskId (map_option en_status (claimed_of outbox)) (collationRead r))"
    let ?limit = "under_ceiling (verdictCeiling r)"
    have "rank (?cap (?limit v)) \<le> rank v" for v
      unfolding under by (rule order_trans [OF collation_limit.lowers reconcile_caps.lowers])
    moreover have "0 \<le> rank (?cap (?limit v)) \<longleftrightarrow> 0 \<le> rank v" for v
      unfolding under by (simp only: collation_limit.cap_ranked reconcile_caps.cap_ranked)
    ultimately show ?thesis by (simp add: None h graded_verdict)
  next
    case (Some s)
    then show ?thesis by (simp add: h graded_verdict)
  qed
qed


text \<open>The reconciliation a harvest goes through.\<close>

definition reconciled_of :: "harvest_env \<Rightarrow> harvest_sight \<Rightarrow> dispatch \<Rightarrow> task_id \<Rightarrow> aspect_error + reconciliation" where
  "reconciled_of env sight d taskId =
    (let loc = location_of d taskId;
         outbox = readResultEnvelope (json_parse (he_codec env) \<circ> body_text (he_codec env)) loc (hv_envelope sight)
     in reconcileArtifactClaims (hv_files sight) (he_codec env) (safe (scanOutboxFiles (hv_world sight) (hv_outbox sight) loc))
          (map_option en_artifacts (claimed_of outbox)) loc (he_secrets env))"

definition collation_backed :: "task_id \<Rightarrow> envelope option \<Rightarrow> collation_read \<Rightarrow> bool" where
  "collation_backed taskId claimed read \<longleftrightarrow>
    (if isCollationTaskId taskId \<and> map_option en_status claimed = Some Success
     then (case read of Collation_ok c \<Rightarrow> c_findings c \<noteq> [] | _ \<Rightarrow> False) else True)"

lemma collationCeilingFor_None:
  "collationCeilingFor taskId (map_option en_status claimed) read = None \<longleftrightarrow> collation_backed taskId claimed read"
  by (cases claimed; cases read)
    (auto simp: collationCeilingFor_def collationCeiling_def collation_backed_def split: option.splits prod.splits if_splits)

lemma capped_success:
  "under_collation_cap (collationCeilingFor taskId claimed read) v = Success \<longleftrightarrow>
    v = Success \<and> collationCeilingFor taskId claimed read = None"
  using collationCeilingFor_capped [of taskId claimed read]
  by (cases v) (auto simp: under_collation_cap_def split: option.splits prod.splits)

lemma clamped_success:
  "limit = None \<or> limit = Some Failed \<Longrightarrow> under_ceiling limit v = Success \<longleftrightarrow> v = Success \<and> limit = None"
  by (cases v) (auto simp: under_ceiling_def)

text \<open>
  C6: what a harvest's success takes. A dispatched task is harvested as a success exactly when the
  supervisor did not settle this epoch as aborted or timed out, the adjudicator found success on the
  facts, the reconciliation of the outbox put no ceiling on it, and, for a review that claims success,
  its collation was read and lists a finding.
\<close>

theorem harvest_success_iff:
  assumes "harvestTask env sight taskId = Inr h" and "hv_dispatch sight = Some d"
  shows "th_verdict h = Success \<longleftrightarrow>
    supervisor_settled sight d = None \<and> adjudicated env h = Success \<and>
    (case reconciled_of env sight d taskId of
       Inr r \<Rightarrow> verdictCeiling r = None \<and> collation_backed taskId (th_claimed h) (collationRead r)
     | Inl _ \<Rightarrow> False)"
proof -
  from assms obtain outbox sc r where
    outbox: "outbox = readResultEnvelope (json_parse (he_codec env) \<circ> body_text (he_codec env)) (location_of d taskId) (hv_envelope sight)"
    and sc: "sc = scanOutboxFiles (hv_world sight) (hv_outbox sight) (location_of d taskId)"
    and r: "reconcileArtifactClaims (hv_files sight) (he_codec env) (safe sc) (map_option en_artifacts (claimed_of outbox))
      (location_of d taskId) (he_secrets env) = Inr r"
    and h: "h = graded_harvest env sight d taskId outbox sc r"
    by (rule harvested)
  have reconciled: "reconciled_of env sight d taskId = Inr r"
    using r unfolding reconciled_of_def Let_def outbox sc .
  have settled: "s \<noteq> Success" if "supervisor_settled sight d = Some s" for s
    using that by (auto simp: supervisor_settled_def split: option.splits if_splits)
  show ?thesis
  proof (cases "supervisor_settled sight d")
    case None
    then show ?thesis
      by (simp add: h graded_verdict reconciled capped_success collationCeilingFor_None
          clamped_success [OF ceiling_cases [OF r]] conj_assoc conj_commute conj_left_commute)
  next
    case (Some s)
    with settled show ?thesis by (simp add: h graded_verdict)
  qed
qed

lemma sound_scan_of:
  assumes "\<And>p q. realpath w p = Some q \<Longrightarrow> plain_path q" and "f \<in> set (safe (scanOutboxFiles w sight loc))"
  shows "\<exists>base. realpath w (task_outbox loc) = Some base \<and> held_safely w base f"
proof -
  have sound: "sound_scan w base (walk w base dir es empty_scan)" for base dir es
    by (rule sound_walk) (simp_all add: assms(1))
  have none: "safe (refuse p r empty_scan) = []" "safe empty_scan = []" for p r
    by (simp_all add: refuse_def empty_scan_def)
  from assms(2) sound show ?thesis
    by (auto simp: scanOutboxFiles_def Let_def sound_scan_def list_all_iff none split: option.splits)
qed



section \<open>The harvest of a run\<close>

text \<open>
  One task cannot take the run's harvest down. The harvest of a run has one entry per dispatched
  task, in order; an entry is the task's own harvest, or, when that throws, the unavailable one, which
  grades nothing; and what one task's outbox holds has no effect on another's entry.
\<close>

theorem harvest_isolates_tasks:
  "map th_task_id (harvestAll env sights taskIds) = taskIds \<and>
    length (harvestAll env sights taskIds) = length taskIds \<and>
    harvestAll env sights taskIds = map (\<lambda>t. case harvestTask env (sights t) t of
      Inr h \<Rightarrow> h | Inl e \<Rightarrow> unavailableHarvest t) taskIds \<and>
    harvestAll env (sights(other := sight)) [t \<leftarrow> taskIds. t \<noteq> other] = harvestAll env sights [t \<leftarrow> taskIds. t \<noteq> other]"
proof -
  have own: "th_task_id (case harvestTask env (sights t) t of Inl e \<Rightarrow> unavailableHarvest t | Inr h \<Rightarrow> h) = t" for t
    by (auto simp: harvestTask_def unavailableHarvest_def graded_harvest_def Let_def split: sum.splits option.splits)
  have "map th_task_id (harvestAll env sights taskIds) = taskIds"
    by (simp add: harvestAll_def own cong: map_cong)
  moreover have "harvestAll env (sights(other := sight)) [t \<leftarrow> taskIds. t \<noteq> other] = harvestAll env sights [t \<leftarrow> taskIds. t \<noteq> other]"
    by (simp add: harvestAll_def)
  ultimately show ?thesis by (simp add: harvestAll_def)
qed

section \<open>A sample harvest\<close>

definition sample_dispatch :: dispatch where
  "sample_dispatch = \<lparr>dp_task_id = ''t1'', dp_worker_outbox = [''outbox'', ''w1''], dp_epoch = 2,
     dp_container_workdir = ''/work'', dp_host_workdir = Some [''home'', ''tree'']\<rparr>"

definition plain_world :: world where
  "plain_world = \<lparr>realpath = (\<lambda>p. Some [s \<leftarrow> p. plain_segment s]), open_nofollow = (\<lambda>_. Opened_regular 1)\<rparr>"

definition sample_harvest_sight :: harvest_sight where
  "sample_harvest_sight = \<lparr>hv_dispatch = Some sample_dispatch,
     hv_git = \<lparr>gf_ok = True, gf_base_ref = Some ''main'', gf_branch = None, gf_head_ref = Some ''c1'',
       gf_facts = (no_facts True)\<lparr>df_base_is_ancestor := True, df_commits := [''c1''], df_files_changed := [''src/a.ts'']\<rparr>\<rparr>,
     hv_envelope = \<lparr>es_lstat = None, es_opens = True, es_reads = None\<rparr>,
     hv_world = plain_world,
     hv_outbox = \<lparr>os_task = Some Node_directory, os_files = Some Node_directory,
       os_listing = Some [Entry_file ''observer-vm-ops.json'']\<rparr>,
     hv_files = (\<lambda>_. sample_held), hv_record = None,
     hv_acceptance = Some [\<lparr>ar_cmd = ''make test'', ar_outcome = Passed, ar_exit_code = Some 0\<rparr>],
     hv_tree_hash = Some ''h1''\<rparr>"

definition sample_env :: harvest_env where
  "sample_env = \<lparr>he_codec = sample_codec, he_secrets = [''ghp''], he_run_acceptance = True,
     he_harness = (\<lambda>_ _. no_harness), he_facts_hash = (\<lambda>_. ''00''), he_defect_text = (\<lambda>_. [])\<rparr>"

lemma sample_scan: "safe (scanOutboxFiles (hv_world sample_harvest_sight) (hv_outbox sample_harvest_sight) sample_location) =
    [sample_held_file]"
proof -
  have paths: "task_outbox sample_location = [''outbox'', ''w1'', ''t1'']"
    "join_path [''outbox'', ''w1'', ''t1''] ''files'' = [''outbox'', ''w1'', ''t1'', ''files'']"
    "join_path [''outbox'', ''w1'', ''t1'', ''files''] ''observer-vm-ops.json'' = of_path sample_held_file"
    "realpath plain_world [''outbox'', ''w1'', ''t1''] = Some [''outbox'', ''w1'', ''t1'']"
    "realpath plain_world (of_path sample_held_file) = Some (of_path sample_held_file)"
    "resolvedWithin [''outbox'', ''w1'', ''t1''] (of_path sample_held_file)"
    "sample_held_file = \<lparr>of_path = of_path sample_held_file, of_handle = of_path sample_held_file\<rparr>" by code_simp+
  have "open_nofollow plain_world p = Opened_regular 1" for p by (simp add: plain_world_def)
  then show ?thesis
    using paths(7)
    by (simp add: scanOutboxFiles_def sample_harvest_sight_def root_problem_def OUTBOX_FILES_DIR_def paths(1-6) Let_def
        empty_scan_def MAX_OUTBOX_ENTRIES_def visit_file_def holdIfSafe_def MAX_HELD_DESCRIPTORS_def)
qed

lemma sample_location_of: "location_of sample_dispatch ''t1'' = sample_location"
  by (simp add: location_of_def sample_dispatch_def sample_location_def)

lemma sample_plain: "realpath (hv_world sample_harvest_sight) p = Some q \<Longrightarrow> plain_path q"
  by (auto simp: sample_harvest_sight_def plain_world_def plain_path_def list_all_iff)

definition sample_harvest :: task_harvest where
  "sample_harvest = graded_harvest sample_env sample_harvest_sight sample_dispatch ''t1'' Outbox_missing
    (scanOutboxFiles (hv_world sample_harvest_sight) (hv_outbox sample_harvest_sight) sample_location) sample_reconciled"

lemma sample_dispatched: "hv_dispatch sample_harvest_sight = Some sample_dispatch"
  by (simp add: sample_harvest_sight_def)

lemma sample_harvested: "harvestTask sample_env sample_harvest_sight ''t1'' = Inr sample_harvest"
proof -
  have "readResultEnvelope parse loc (hv_envelope sample_harvest_sight) = Outbox_missing" for parse loc
    by (simp add: readResultEnvelope_def sample_harvest_sight_def)
  moreover have "he_codec sample_env = sample_codec" "he_secrets sample_env = [''ghp'']"
    "hv_files sample_harvest_sight = (\<lambda>_. sample_held)"
    by (simp_all add: sample_env_def sample_harvest_sight_def)
  ultimately show ?thesis
    by (simp add: harvestTask_def sample_dispatched sample_location_of sample_scan claimed_of_def sample_reconciles_as
        sample_harvest_def Let_def)
qed

lemma sample_harvest_success: "th_verdict sample_harvest = Success"
proof -
  have "verdictCeiling sample_reconciled = None" "collationRead sample_reconciled = Collation_missing"
    by (simp_all add: sample_reconciled_def reconcile_start_def)
  moreover have "supervisor_settled sample_harvest_sight sample_dispatch = None"
    by (simp add: supervisor_settled_def sample_harvest_sight_def)
  moreover have "adjudicated sample_env sample_harvest = Success"
  proof -
    have "th_claimed sample_harvest = None" by (simp add: sample_harvest_def claimed_of_def)
    moreover have "th_facts sample_harvest = (no_facts True)
        \<lparr>df_base_is_ancestor := True, df_commits := [''c1''], df_files_changed := [''src/a.ts''],
         df_acceptance := [\<lparr>ar_cmd = ''make test'', ar_outcome = Passed, ar_exit_code = Some 0\<rparr>],
         df_tree_hash_harvest := Some ''h1''\<rparr>"
      using \<open>collationRead sample_reconciled = Collation_missing\<close>
      by (simp add: sample_harvest_def graded_harvest_def graded_facts_def Let_def git_of_def sample_dispatch_def
          sample_harvest_sight_def sample_env_def no_facts_def censusFromRead_def)
    ultimately show ?thesis
      by (simp add: adjudicated_def) code_simp
  qed
  ultimately show ?thesis
    unfolding sample_harvest_def graded_verdict
    by (simp add: claimed_of_def collationCeilingFor_def under_ceiling_def under_collation_cap_def)
qed

theorem harvest_verdict_bounded_witness: "rank (th_verdict sample_harvest) \<le> rank (adjudicated sample_env sample_harvest)"
  using harvest_verdict_bounded [OF sample_harvested sample_dispatched]
  by (simp add: supervisor_settled_def sample_harvest_sight_def)

theorem harvest_success_iff_witness: "adjudicated sample_env sample_harvest = Success"
  using harvest_success_iff [OF sample_harvested sample_dispatched] sample_harvest_success by simp



text \<open>
  What the repository alone derives does not reach the verdict. The final verdict is the same for
  any two states of the worktree once the adjudicator, the ceilings and the supervisor's record agree,
  although for an attempt that left no commit and no changed file \<open>deriveRepoVerdict\<close> says failed.
\<close>

theorem repo_verdict_unused:
  "final_verdict v limit cap (derivedVerdict git rec epoch) = final_verdict v limit cap (derivedVerdict git' rec epoch) \<and>
    deriveRepoVerdict \<lparr>gf_ok = True, gf_base_ref = Some base, gf_branch = b, gf_head_ref = head,
      gf_facts = (no_facts True)\<lparr>df_base_is_ancestor := True\<rparr>\<rparr> = Failed"
  using deriveRepoVerdict_range [of git] deriveRepoVerdict_range [of git']
  by (auto simp: final_verdict_def supervisor_override_def derivedVerdict_def deriveRepoVerdict_def no_facts_def
      split: option.splits)

end
