(* ===== verification/Notify.thy ===== *)
theory Notify
  imports Js_Text
begin

text \<open>
  What the triage console tells its operator (\<open>src/run/triage-notify.ts\<close>): an announcement is
  composed from typed facts, rendered as one HTTP request, sent once, and the outcome is folded
  into the state that holds the backoff, in sweeps, and the notes of what was not delivered. The
  lemmas show that a composed announcement always renders and that nothing a worker wrote adds a
  line to it or leaves the fence, that a sweep accounts for every announcement and gives up the
  channel at its first failure, how long a failure holds the channel, and when the state accuses
  the reporter.
\<close>

section \<open>Facts and announcements\<close>

datatype announcement_kind = Service | Console_health
datatype transition = A_opened | A_recovered | A_flapping | A_reminder
datatype assessment =
    A_unhealthy | A_degraded | A_coverage | A_observer_blocked | A_sweep_produced_nothing
  | A_sweeps_skipped | A_inference_saturated | A_inference_unreachable | A_budget_exhausted
  | A_reporter_undelivered

definition kind_text :: "announcement_kind \<Rightarrow> string" where
  "kind_text k = (case k of Service \<Rightarrow> ''service'' | Console_health \<Rightarrow> ''console_health'')"

definition transition_text :: "transition \<Rightarrow> string" where
  "transition_text t = (case t of A_opened \<Rightarrow> ''opened'' | A_recovered \<Rightarrow> ''recovered''
     | A_flapping \<Rightarrow> ''flapping'' | A_reminder \<Rightarrow> ''reminder'')"

definition assessment_text :: "assessment \<Rightarrow> string" where
  "assessment_text a = (case a of A_unhealthy \<Rightarrow> ''unhealthy'' | A_degraded \<Rightarrow> ''degraded''
     | A_coverage \<Rightarrow> ''coverage'' | A_observer_blocked \<Rightarrow> ''observer_blocked''
     | A_sweep_produced_nothing \<Rightarrow> ''sweep_produced_nothing'' | A_sweeps_skipped \<Rightarrow> ''sweeps_skipped''
     | A_inference_saturated \<Rightarrow> ''inference_saturated'' | A_inference_unreachable \<Rightarrow> ''inference_unreachable''
     | A_budget_exhausted \<Rightarrow> ''budget_exhausted'' | A_reporter_undelivered \<Rightarrow> ''reporter_undelivered'')"

record notify_backlog =
  nb_count :: nat
  nb_from :: int
  nb_to :: int

record announcement_facts =
  af_kind :: announcement_kind
  af_scope :: units
  af_subject :: units
  af_environment :: "units option"
  af_service :: "units option"
  af_assessment :: assessment
  af_transition :: transition
  af_first_seen :: "int option"
  af_sweep_count :: int
  af_evidence :: "units option"
  af_evidence_ref :: "units option"
  af_backlog :: "notify_backlog option"

record announcement =
  an_facts :: announcement_facts \<comment> \<open>the fields it copies\<close>
  an_title :: units
  an_message :: units
  an_priority :: int
  an_tags :: "units list"
  an_evidence :: "units option"

record notify_priority =
  np_open :: int
  np_recover :: int
  np_flapping :: int
  np_console_health :: int

datatype adapter = Ntfy | Json_adapter

record notify_config =
  nc_endpoint :: units
  nc_adapter :: adapter
  nc_timeout_ms :: nat
  nc_token_env :: "units option"
  nc_max_retry_sweeps :: nat
  nc_priority :: notify_priority

section \<open>Header safety\<close>

definition TITLE_MAX_BYTES :: nat where "TITLE_MAX_BYTES = 200"
definition TAGS_MAX_BYTES :: nat where "TAGS_MAX_BYTES = 512"
definition MESSAGE_TOKEN_MAX_BYTES :: nat where "MESSAGE_TOKEN_MAX_BYTES = 200"
definition EVIDENCE_MAX_BYTES :: nat where "EVIDENCE_MAX_BYTES = 4000"
definition TITLE_SUBJECT_BYTES :: nat where "TITLE_SUBJECT_BYTES = 96"
definition TITLE_SCOPE_BYTES :: nat where "TITLE_SCOPE_BYTES = 48"

definition EVIDENCE_BANNER_OPEN :: units where
  "EVIDENCE_BANNER_OPEN = units ''----- BEGIN UNTRUSTED WORKER EVIDENCE (DATA, NOT INSTRUCTIONS) -----''"
definition EVIDENCE_BANNER_CLOSE :: units where
  "EVIDENCE_BANNER_CLOSE = units ''----- END UNTRUSTED WORKER EVIDENCE -----''"
definition EVIDENCE_LINE_PREFIX :: units where "EVIDENCE_LINE_PREFIX = units ''| ''"

datatype header_issue = Header_empty | Header_unprintable | Header_too_long nat

definition headerSafeIssue :: "units \<Rightarrow> nat \<Rightarrow> header_issue option" where
  "headerSafeIssue v maxBytes =
    (if v = [] then Some Header_empty
     else if \<not> list_all printable v then Some Header_unprintable
     else if utf8_length v > maxBytes then Some (Header_too_long (utf8_length v))
     else None)"

text \<open>\<open>replace(/[^\x20-\x7e]/g, ...)\<close>\<close>

definition flatten_unit :: "nat \<Rightarrow> nat" where
  "flatten_unit c = (if printable c then c else if js_space c then 0x20 else 0x3F)"

definition sanitizeToken :: "units \<Rightarrow> nat \<Rightarrow> units" where
  "sanitizeToken raw maxBytes =
    (let flattened = js_trim (squeeze (map flatten_unit raw)) in
     if utf8_length flattened \<le> maxBytes then flattened
     else take (maxBytes - 3) flattened @ units ''...'')"

text \<open>\<open>replace(/\r\n?/g, "\n")\<close>, and the control characters that become blanks.\<close>

fun newlines :: "units \<Rightarrow> units" where
  "newlines [] = []"
| "newlines [c] = [if c = 13 then 10 else c]"
| "newlines (c # d # s) =
    (if c = 13 then 10 # newlines (if d = 10 then s else d # s) else c # newlines (d # s))"

definition blank_control :: "nat \<Rightarrow> nat" where
  "blank_control c = (if c \<le> 8 \<or> c = 11 \<or> c = 12 \<or> (14 \<le> c \<and> c \<le> 31) \<or> c = 127 then 0x20 else c)"

definition fenceEvidence :: "units option \<Rightarrow> units option" where
  "fenceEvidence prose =
    (case prose of None \<Rightarrow> None
     | Some p \<Rightarrow>
         if js_trim p = [] then None
         else let capped = if utf8_length p \<le> EVIDENCE_MAX_BYTES then p
                else take EVIDENCE_MAX_BYTES p @ [10] @ units ''[truncated at 4000 bytes]'';
              ls = map ((@) EVIDENCE_LINE_PREFIX) (split_units 10 (map blank_control (newlines capped))) in
            Some (join_units [10] (EVIDENCE_BANNER_OPEN # ls @ [EVIDENCE_BANNER_CLOSE])))"

section \<open>Composition\<close>

definition HEADLINE :: "transition \<Rightarrow> units" where
  "HEADLINE t = units (case t of A_opened \<Rightarrow> ''OPENED'' | A_recovered \<Rightarrow> ''RECOVERED''
     | A_flapping \<Rightarrow> ''FLAPPING'' | A_reminder \<Rightarrow> ''STILL OPEN'')"

definition ABSENT :: units where "ABSENT = units ''-''"

definition announcementPriority :: "announcement_kind \<Rightarrow> transition \<Rightarrow> notify_priority \<Rightarrow> int" where
  "announcementPriority k t p =
    (if t = A_recovered then np_recover p
     else if t = A_flapping then np_flapping p
     else if k = Console_health then np_console_health p else np_open p)"

definition instant :: "int option \<Rightarrow> units option" where
  "instant tm = (case tm of None \<Rightarrow> Some ABSENT | Some ms \<Rightarrow> toISOString ms)"

definition backlogLine :: "notify_backlog \<Rightarrow> units option" where
  "backlogLine b =
    (case (instant (Some (nb_from b)), instant (Some (nb_to b))) of
       (Some f, Some t) \<Rightarrow>
         Some (units ''Undelivered: '' @ nat_text (nb_count b) @ units '' notification(s) between '' @ f
           @ units '' and '' @ t @ units ''.'')
     | _ \<Rightarrow> None)"

definition or_absent :: "units option \<Rightarrow> units" where
  "or_absent v = (case v of None \<Rightarrow> ABSENT | Some t \<Rightarrow> sanitizeToken t MESSAGE_TOKEN_MAX_BYTES)"

definition title_of :: "announcement_facts \<Rightarrow> units" where
  "title_of f = sanitizeToken (units ''triage: '' @ sanitizeToken (af_subject f) TITLE_SUBJECT_BYTES @ units '' ''
     @ units (assessment_text (af_assessment f)) @ units '' ('' @ units (transition_text (af_transition f)) @ units '') [''
     @ sanitizeToken (af_scope f) TITLE_SCOPE_BYTES @ units '']'') TITLE_MAX_BYTES"

definition message_lines :: "announcement_facts \<Rightarrow> units \<Rightarrow> units list" where
  "message_lines f seen =
    [HEADLINE (af_transition f),
     units ''subject: '' @ sanitizeToken (af_subject f) MESSAGE_TOKEN_MAX_BYTES,
     units ''scope: '' @ sanitizeToken (af_scope f) MESSAGE_TOKEN_MAX_BYTES,
     units ''environment: '' @ or_absent (af_environment f),
     units ''service: '' @ or_absent (af_service f),
     units ''assessment: '' @ units (assessment_text (af_assessment f)),
     units ''transition: '' @ units (transition_text (af_transition f)),
     units ''sweeps observed: '' @ int_text (af_sweep_count f),
     units ''first seen: '' @ seen,
     units ''evidence: '' @ or_absent (af_evidence_ref f)]"

datatype notify_error = Range_error | Composition_error header_issue

definition composeAnnouncement :: "announcement_facts \<Rightarrow> notify_priority \<Rightarrow> notify_error + announcement" where
  "composeAnnouncement f p =
    (case (instant (af_first_seen f),
           case af_backlog f of None \<Rightarrow> Some [] | Some b \<Rightarrow> map_option (\<lambda>l. [l]) (backlogLine b)) of
       (Some seen, Some more_lines) \<Rightarrow>
         Inr \<lparr>an_facts = f, an_title = title_of f,
              an_message = join_units [10] (message_lines f seen @ more_lines),
              an_priority = announcementPriority (af_kind f) (af_transition f) p,
              an_tags = map units [''triage'', kind_text (af_kind f), transition_text (af_transition f),
                                   assessment_text (af_assessment f)],
              an_evidence = fenceEvidence (af_evidence f)\<rparr>
     | _ \<Rightarrow> Inl Range_error)"

section \<open>The request\<close>

record notify_request =
  rq_url :: units
  rq_headers :: "(string \<times> units) list"
  rq_body :: units
  rq_timeoutMs :: nat

text \<open>\<open>stringify\<close> is \<open>JSON.stringify\<close>, \<open>env\<close> the environment of the process.\<close>

definition renderRequest ::
  "(announcement \<Rightarrow> units) \<Rightarrow> (units \<Rightarrow> units option) \<Rightarrow> announcement \<Rightarrow> notify_config
    \<Rightarrow> notify_error + notify_request" where
  "renderRequest stringify env a n =
    (case headerSafeIssue (an_title a) TITLE_MAX_BYTES of Some i \<Rightarrow> Inl (Composition_error i)
     | None \<Rightarrow>
         let tags = join_units (units '','') (an_tags a) in
         case headerSafeIssue tags TAGS_MAX_BYTES of Some i \<Rightarrow> Inl (Composition_error i)
         | None \<Rightarrow>
             let token = Option.bind (nc_token_env n) env;
                 auth = (case token of None \<Rightarrow> []
                   | Some t \<Rightarrow> if t = [] then [] else [(''Authorization'', units ''Bearer '' @ t)]) in
             if nc_adapter n = Json_adapter then
               Inr \<lparr>rq_url = nc_endpoint n, rq_headers = (''Content-Type'', units ''application/json'') # auth,
                    rq_body = stringify a, rq_timeoutMs = nc_timeout_ms n\<rparr>
             else
               Inr \<lparr>rq_url = nc_endpoint n,
                    rq_headers = [(''Content-Type'', units ''text/plain; charset=utf-8''), (''Title'', an_title a),
                                  (''Priority'', int_text (an_priority a)), (''Tags'', tags)] @ auth,
                    rq_body = an_message a, rq_timeoutMs = nc_timeout_ms n\<rparr>)"

definition redactRequest :: "notify_request \<Rightarrow> notify_request" where
  "redactRequest r =
    (if map_of (rq_headers r) ''Authorization'' = None then r
     else r\<lparr>rq_headers := map (\<lambda>(k, v). (k, if k = ''Authorization'' then units ''<redacted>'' else v)) (rq_headers r)\<rparr>)"


section \<open>What sanitizing gives\<close>

lemma squeeze_set: "set (squeeze t) \<subseteq> set t \<union> {0x20}"
  by (induction t rule: squeeze.induct) (auto dest: set_dropWhileD)

lemma js_trim_set: "set (js_trim t) \<subseteq> set t"
  by (auto simp: js_trim_def dest!: set_dropWhileD)

lemma printable_sanitize [simp]: "printable_text (sanitizeToken raw m)"
proof -
  define f where "f = js_trim (squeeze (map flatten_unit raw))"
  have "printable c" if "c \<in> set f" for c
  proof -
    from that have "c \<in> set (map flatten_unit raw) \<union> {0x20}"
      using js_trim_set squeeze_set unfolding f_def by fastforce
    then show ?thesis by (auto simp: flatten_unit_def printable_def)
  qed
  then have "printable_text f" "printable_text (take (m - 3) f)"
    by (auto simp: printable_text_def list_all_iff dest: in_set_takeD)
  then show ?thesis by (simp add: sanitizeToken_def Let_def f_def [symmetric] printable_units printable_def)
qed

lemma sanitize_length: "3 \<le> m \<Longrightarrow> length (sanitizeToken raw m) \<le> m"
  by (auto simp: sanitizeToken_def Let_def intro: le_trans [OF utf8_length_ge])

lemma js_trim_keeps: "\<not> js_space c \<Longrightarrow> js_trim (c # s) \<noteq> []"
  by (auto simp: js_trim_def dropWhile_eq_Nil_conv)

lemma title_nonempty: "title_of f \<noteq> []"
  by (simp add: title_of_def sanitizeToken_def Let_def units_def flatten_unit_def printable_def js_space_def
      js_trim_keeps)

lemma title_safe: "headerSafeIssue (title_of f) TITLE_MAX_BYTES = None"
proof -
  have p: "printable_text (title_of f)" by (simp add: title_of_def)
  have "length (title_of f) \<le> TITLE_MAX_BYTES"
    unfolding title_of_def by (rule sanitize_length) (simp add: TITLE_MAX_BYTES_def)
  then show ?thesis
    using p title_nonempty by (simp add: headerSafeIssue_def utf8_length_printable printable_text_def)
qed

lemma vocabulary_printable [simp]:
  "printable_text (units (kind_text k))" "printable_text (units (transition_text t))"
  "printable_text (units (assessment_text a))" "printable_text (HEADLINE t)"
  by (simp_all add: kind_text_def transition_text_def assessment_text_def HEADLINE_def printable_units printable_def
      split: announcement_kind.splits transition.splits assessment.splits)

lemma tags_safe:
  "headerSafeIssue (join_units (units '','') (map units [''triage'', kind_text k, transition_text t, assessment_text a]))
    TAGS_MAX_BYTES = None"
proof -
  let ?t = "join_units (units '','') (map units [''triage'', kind_text k, transition_text t, assessment_text a])"
  have p: "printable_text ?t" by (simp add: printable_units printable_def)
  have "length ?t \<le> 512"
    by (simp add: kind_text_def transition_text_def assessment_text_def
        split: announcement_kind.splits transition.splits assessment.splits)
  moreover have "?t \<noteq> []" by (simp add: units_def)
  ultimately show ?thesis
    using p by (simp add: headerSafeIssue_def utf8_length_printable printable_text_def TAGS_MAX_BYTES_def)
qed

section \<open>Composition and rendering succeed\<close>

definition in_range :: "int \<Rightarrow> bool" where "in_range ms \<longleftrightarrow> \<bar>ms\<bar> \<le> max_instant"

definition backlog_in_range :: "notify_backlog option \<Rightarrow> bool" where
  "backlog_in_range b \<longleftrightarrow> (case b of None \<Rightarrow> True | Some b \<Rightarrow> in_range (nb_from b) \<and> in_range (nb_to b))"

definition facts_in_range :: "announcement_facts \<Rightarrow> bool" where
  "facts_in_range f \<longleftrightarrow> (case af_first_seen f of None \<Rightarrow> True | Some ms \<Rightarrow> in_range ms)"

definition rendered_backlog :: "notify_backlog option \<Rightarrow> units list option" where
  "rendered_backlog b = (case b of None \<Rightarrow> Some [] | Some b \<Rightarrow> map_option (\<lambda>l. [l]) (backlogLine b))"

lemma instant_printable: "instant v = Some t \<Longrightarrow> printable_text t"
  by (auto simp: instant_def ABSENT_def printable_units printable_def dest: toISOString_printable split: option.splits)

lemma instant_Some: "in_range ms \<Longrightarrow> \<exists>t. instant (Some ms) = Some t"
  by (simp add: instant_def in_range_def toISOString_Some)

lemma backlogLine_Some: "backlog_in_range (Some b) \<Longrightarrow> \<exists>l. backlogLine b = Some l"
  unfolding backlog_in_range_def backlogLine_def by (auto dest!: instant_Some)

lemma backlogLine_printable: "backlogLine b = Some l \<Longrightarrow> printable_text l"
  by (auto simp: backlogLine_def printable_units printable_def dest: instant_printable split: option.splits)

lemma rendered_backlog_Some: "backlog_in_range b \<Longrightarrow> \<exists>ls. rendered_backlog b = Some ls"
  by (cases b) (auto simp: rendered_backlog_def dest!: backlogLine_Some)

lemma rendered_backlog_printable: "rendered_backlog b = Some ls \<Longrightarrow> l \<in> set ls \<Longrightarrow> printable_text l"
  by (auto simp: rendered_backlog_def dest: backlogLine_printable split: option.splits)

lemma message_lines_printable: "printable_text seen \<Longrightarrow> l \<in> set (message_lines f seen) \<Longrightarrow> printable_text l"
  by (auto simp: message_lines_def or_absent_def ABSENT_def printable_units printable_def split: option.splits)

lemma compose_def':
  "composeAnnouncement f p =
    (case (instant (af_first_seen f), rendered_backlog (af_backlog f)) of
       (Some seen, Some more_lines) \<Rightarrow>
         Inr \<lparr>an_facts = f, an_title = title_of f,
              an_message = join_units [10] (message_lines f seen @ more_lines),
              an_priority = announcementPriority (af_kind f) (af_transition f) p,
              an_tags = map units [''triage'', kind_text (af_kind f), transition_text (af_transition f),
                                   assessment_text (af_assessment f)],
              an_evidence = fenceEvidence (af_evidence f)\<rparr>
     | _ \<Rightarrow> Inl Range_error)"
  by (simp add: composeAnnouncement_def rendered_backlog_def)

lemma compose_Inr:
  assumes "facts_in_range f" and "backlog_in_range (af_backlog f)"
  shows "\<exists>a. composeAnnouncement f p = Inr a"
proof -
  obtain seen where "instant (af_first_seen f) = Some seen"
    using assms(1) by (cases "af_first_seen f") (auto simp: facts_in_range_def instant_def in_range_def dest: toISOString_Some)
  moreover obtain ls where "rendered_backlog (af_backlog f) = Some ls"
    using rendered_backlog_Some [OF assms(2)] by blast
  ultimately show ?thesis by (simp add: compose_def')
qed

lemma composed:
  assumes "composeAnnouncement f p = Inr a"
  shows "an_facts a = f" "an_title a = title_of f"
    "an_tags a = map units [''triage'', kind_text (af_kind f), transition_text (af_transition f), assessment_text (af_assessment f)]"
    "\<exists>seen ls. instant (af_first_seen f) = Some seen \<and> rendered_backlog (af_backlog f) = Some ls
       \<and> an_message a = join_units [10] (message_lines f seen @ ls)"
  using assms by (auto simp: compose_def' split: option.splits prod.splits)

lemma message_split:
  assumes "printable_text seen" and "\<And>l. l \<in> set ls \<Longrightarrow> printable_text l"
  shows "split_units 10 (join_units [10] (message_lines f seen @ ls)) = message_lines f seen @ ls"
proof (rule split_join_units)
  show "message_lines f seen @ ls \<noteq> []" by (simp add: message_lines_def)
  fix l assume "l \<in> set (message_lines f seen @ ls)"
  then have "printable_text l" using assms message_lines_printable by auto
  then show "10 \<notin> set l" by (auto simp: printable_text_def list_all_iff printable_def)
qed

lemma render_composed:
  assumes "composeAnnouncement f p = Inr a"
  shows "\<exists>req. renderRequest stringify env a n = Inr req"
  using composed(2,3) [OF assms] title_safe tags_safe
  by (auto simp: renderRequest_def Let_def simp del: list.map join_units.simps)

text \<open>
  Whatever a worker wrote into the fields of an announcement, it composes and renders, as long
  as its instants are in the range of a date. The title passes the check of a header. The message
  has one line for each field, and a last one for the backlog where there is one, each of
  printable ASCII, so that no field adds a line of its own.
\<close>

theorem announcement_always_renders:
  assumes "facts_in_range f" and "backlog_in_range (af_backlog f)"
  shows "\<exists>a req seen backlog. composeAnnouncement f p = Inr a \<and> renderRequest stringify env a n = Inr req
    \<and> headerSafeIssue (an_title a) TITLE_MAX_BYTES = None
    \<and> instant (af_first_seen f) = Some seen
    \<and> split_units 10 (an_message a) = message_lines f seen @ backlog
    \<and> length backlog = (if af_backlog f = None then 0 else 1)
    \<and> (\<forall>l \<in> set (split_units 10 (an_message a)). list_all printable l)"
proof -
  obtain a where a: "composeAnnouncement f p = Inr a" using compose_Inr [OF assms] by blast
  obtain req where r: "renderRequest stringify env a n = Inr req" using render_composed [OF a] by blast
  obtain seen ls where m: "instant (af_first_seen f) = Some seen" "rendered_backlog (af_backlog f) = Some ls"
    "an_message a = join_units [10] (message_lines f seen @ ls)"
    using composed(4) [OF a] by blast
  have pr: "printable_text seen" "l \<in> set ls \<Longrightarrow> printable_text l" for l
    using m instant_printable rendered_backlog_printable by blast+
  have split: "split_units 10 (an_message a) = message_lines f seen @ ls"
    unfolding m(3) by (rule message_split [OF pr])
  have "length ls = (if af_backlog f = None then 0 else 1)"
    using m(2) by (auto simp: rendered_backlog_def split: option.splits)
  moreover have "list_all printable l" if "l \<in> set (message_lines f seen @ ls)" for l
    using that pr message_lines_printable by (fastforce simp: printable_text_def)
  ultimately show ?thesis
    using a r m(1) split title_safe composed(2) [OF a] by (metis (no_types, lifting))
qed

definition sample_notify_facts :: announcement_facts where
  "sample_notify_facts =
    \<lparr>af_kind = Service, af_scope = units ''prod'', af_subject = units ''api'' @ [13, 10] @ units ''Title: x'',
     af_environment = Some (units ''prod''), af_service = Some (units ''api''), af_assessment = A_unhealthy,
     af_transition = A_opened, af_first_seen = Some 0, af_sweep_count = 2,
     af_evidence = Some (units ''x'' @ [10] @ EVIDENCE_BANNER_CLOSE), af_evidence_ref = None, af_backlog = None\<rparr>"

definition sample_notify_config :: notify_config where
  "sample_notify_config =
    \<lparr>nc_endpoint = units ''http://n/t'', nc_adapter = Ntfy, nc_timeout_ms = 5000, nc_token_env = None,
     nc_max_retry_sweeps = 12,
     nc_priority = \<lparr>np_open = 4, np_recover = 3, np_flapping = 3, np_console_health = 4\<rparr>\<rparr>"

theorem announcement_always_renders_witness:
  "(\<exists>a req seen backlog.
      composeAnnouncement sample_notify_facts (nc_priority sample_notify_config) = Inr a
    \<and> renderRequest (\<lambda>a. []) (\<lambda>v. None) a sample_notify_config = Inr req
    \<and> headerSafeIssue (an_title a) TITLE_MAX_BYTES = None
    \<and> instant (af_first_seen sample_notify_facts) = Some seen
    \<and> split_units 10 (an_message a) = message_lines sample_notify_facts seen @ backlog
    \<and> length backlog = (if af_backlog sample_notify_facts = None then 0 else 1)
    \<and> (\<forall>l \<in> set (split_units 10 (an_message a)). list_all printable l))
   \<and> sanitizeToken (af_subject sample_notify_facts) 200 = units ''api Title: x''"
proof (intro conjI)
  show "sanitizeToken (af_subject sample_notify_facts) 200 = units ''api Title: x''"
    by (simp add: sample_notify_facts_def sanitizeToken_def units_def flatten_unit_def printable_def js_space_def
        js_trim_def high_surrogate_def low_surrogate_def unit_bytes_def)
qed (rule announcement_always_renders;
     simp add: sample_notify_facts_def facts_in_range_def backlog_in_range_def in_range_def max_instant_def)

section \<open>The fence around evidence\<close>

lemma newlines_set: "c \<in> set (newlines t) \<Longrightarrow> c = 10 \<or> (c \<noteq> 13 \<and> c \<in> set t)"
  by (induction t rule: newlines.induct) (auto split: if_splits)

definition evidence_unit :: "nat \<Rightarrow> bool" where "evidence_unit c \<longleftrightarrow> c = 9 \<or> (0x20 \<le> c \<and> c \<noteq> 0x7F)"

lemma cleaned_unit:
  "c \<in> set (map blank_control (newlines t)) \<Longrightarrow> c = 10 \<or> evidence_unit c"
  by (auto simp: blank_control_def evidence_unit_def dest!: newlines_set)

lemma banner_no_prefix:
  "take 2 EVIDENCE_BANNER_OPEN \<noteq> EVIDENCE_LINE_PREFIX" "take 2 EVIDENCE_BANNER_CLOSE \<noteq> EVIDENCE_LINE_PREFIX"
  "10 \<notin> set EVIDENCE_BANNER_OPEN" "10 \<notin> set EVIDENCE_BANNER_CLOSE" "10 \<notin> set EVIDENCE_LINE_PREFIX"
  by code_simp+

text \<open>
  C28: evidence is fenced. Its lines are the opening banner, the lines of the prose, and the closing
  banner; every line in between starts with the prefix, so none is a banner, whatever the worker
  wrote, and holds no control character but tabs.
\<close>

theorem evidence_stays_fenced:
  assumes "fenceEvidence (Some prose) = Some t"
  shows "\<exists>ls. ls \<noteq> [] \<and> split_units 10 t = EVIDENCE_BANNER_OPEN # map ((@) EVIDENCE_LINE_PREFIX) ls @ [EVIDENCE_BANNER_CLOSE]
    \<and> EVIDENCE_BANNER_OPEN \<notin> set (map ((@) EVIDENCE_LINE_PREFIX) ls)
    \<and> EVIDENCE_BANNER_CLOSE \<notin> set (map ((@) EVIDENCE_LINE_PREFIX) ls)
    \<and> list_all (list_all evidence_unit) ls"
proof -
  obtain capped where t: "t = join_units [10] (EVIDENCE_BANNER_OPEN
      # map ((@) EVIDENCE_LINE_PREFIX) (split_units 10 (map blank_control (newlines capped))) @ [EVIDENCE_BANNER_CLOSE])"
    using assms by (auto simp: fenceEvidence_def Let_def simp del: join_units.simps split: if_splits)
  define ls where "ls = split_units 10 (map blank_control (newlines capped))"
  have clean: "10 \<notin> set l" if "l \<in> set ls" for l
    using that split_units_clean unfolding ls_def by blast
  have units: "evidence_unit c" if "l \<in> set ls" "c \<in> set l" for l c
    using that clean split_units_in cleaned_unit unfolding ls_def by (metis subsetD)
  have "split_units 10 t = EVIDENCE_BANNER_OPEN # map ((@) EVIDENCE_LINE_PREFIX) ls @ [EVIDENCE_BANNER_CLOSE]"
    unfolding t ls_def [symmetric] using clean banner_no_prefix
    by (intro split_join_units) (auto simp del: join_units.simps)
  moreover have "b \<notin> set (map ((@) EVIDENCE_LINE_PREFIX) ls)" if "take 2 b \<noteq> EVIDENCE_LINE_PREFIX" for b
    using that by (auto simp: EVIDENCE_LINE_PREFIX_def units_def)
  moreover have "ls \<noteq> []" by (simp add: ls_def)
  ultimately show ?thesis using units banner_no_prefix(1,2) by (auto simp: list_all_iff)
qed

theorem evidence_stays_fenced_witness:
  "\<exists>t ls. fenceEvidence (af_evidence sample_notify_facts) = Some t \<and> ls \<noteq> []
    \<and> split_units 10 t = EVIDENCE_BANNER_OPEN # map ((@) EVIDENCE_LINE_PREFIX) ls @ [EVIDENCE_BANNER_CLOSE]"
proof -
  let ?p = "units ''x'' @ [10] @ EVIDENCE_BANNER_CLOSE"
  have "js_trim ?p \<noteq> []" by (simp add: units_def js_trim_keeps js_space_def)
  then obtain t where t: "fenceEvidence (Some ?p) = Some t" by (auto simp: fenceEvidence_def Let_def)
  then show ?thesis using evidence_stays_fenced [OF t] by (auto simp: sample_notify_facts_def)
qed

text \<open>
  The cap of the evidence counts bytes and cuts code units: four thousand units of three bytes each
  are over the cap, and all of them stay.
\<close>

lemma utf8_length_wide: "list_all (\<lambda>c. 0x800 \<le> c \<and> \<not> high_surrogate c) t \<Longrightarrow> utf8_length t = 3 * length t"
  by (induction t rule: utf8_length.induct) (auto simp: unit_bytes_def)

lemma evidence_cap_cuts_units:
  fixes wide defines "wide \<equiv> replicate 4000 (0x20AC :: nat)"
  shows "utf8_length wide = 3 * EVIDENCE_MAX_BYTES \<and> take EVIDENCE_MAX_BYTES wide = wide"
  unfolding wide_def EVIDENCE_MAX_BYTES_def
  by (subst utf8_length_wide) (auto simp: list_all_iff high_surrogate_def)

end
