(* ===== verification/Notify_Delivery.thy ===== *)
theory Notify_Delivery
  imports Notify "HOL-Library.Multiset"
begin

text \<open>
  The delivery of announcements (\<open>src/run/triage-notify.ts\<close>, from \<open>statusOutcome\<close> on): one attempt
  at most for each announcement, the state between sweeps, and the pass over the announcements of
  one sweep (\<open>reportSweep\<close>). The clock, the transport, the environment and \<open>JSON.stringify\<close> are
  the fields of \<open>notify_io\<close>.
\<close>

section \<open>One attempt\<close>

datatype outcome_status = Delivered | Retryable | Rejected

record notify_outcome =
  no_status :: outcome_status
  no_at :: int
  no_httpStatus :: "int option"
  no_reason :: "units option"

definition statusOutcome :: "int \<Rightarrow> int \<Rightarrow> notify_outcome" where
  "statusOutcome status tm =
    (if status \<ge> 200 \<and> status \<le> 299
     then \<lparr>no_status = Delivered, no_at = tm, no_httpStatus = Some status, no_reason = None\<rparr>
     else let retryable = status = 429 \<or> (status \<ge> 500 \<and> status \<le> 599) in
       \<lparr>no_status = (if retryable then Retryable else Rejected), no_at = tm, no_httpStatus = Some status,
        no_reason = Some (units ''HTTP '' @ int_text status)\<rparr>)"

text \<open>The name of an error and its message, \<open>Error\<close> and its text for what is no error.\<close>

definition errorOutcome :: "units \<times> units \<Rightarrow> int \<Rightarrow> notify_outcome" where
  "errorOutcome err tm =
    \<lparr>no_status = Retryable, no_at = tm, no_httpStatus = None, no_reason = Some (fst err @ units '': '' @ snd err)\<rparr>"

datatype fetched = Responded int | Fetch_threw "units \<times> units"

definition fetchNotifyTransport :: "fetched \<Rightarrow> int \<Rightarrow> notify_outcome" where
  "fetchNotifyTransport r tm =
    (case r of Responded status \<Rightarrow> statusOutcome status tm | Fetch_threw err \<Rightarrow> errorOutcome err tm)"

text \<open>What wins the race of a transport with its deadline.\<close>

datatype race = Answered notify_outcome | Threw "units \<times> units" | Timed_out

record 'w notify_io =
  io_now :: "'w \<Rightarrow> int \<times> 'w"
  io_send :: "notify_request \<Rightarrow> 'w \<Rightarrow> race \<times> 'w"
  io_env :: "units \<Rightarrow> units option"
  io_stringify :: "announcement \<Rightarrow> units"

definition timeout_outcome :: "nat \<Rightarrow> int \<Rightarrow> notify_outcome" where
  "timeout_outcome ms tm =
    \<lparr>no_status = Retryable, no_at = tm, no_httpStatus = None,
     no_reason = Some (units ''timeout after '' @ nat_text ms @ units ''ms'')\<rparr>"

text \<open>Every outcome is stamped with the clock of the process, whatever the transport wrote into it.\<close>

definition deliverAnnouncement ::
  "announcement \<Rightarrow> notify_config \<Rightarrow> 'w notify_io \<Rightarrow> 'w \<Rightarrow> notify_error + (notify_outcome \<times> 'w)" where
  "deliverAnnouncement a n io w =
    (case renderRequest (io_stringify io) (io_env io) a n of
       Inl e \<Rightarrow> Inl e
     | Inr req \<Rightarrow>
         let (won, w1) = io_send io req w; (t, w2) = io_now io w1;
             outcome = (case won of Answered ans \<Rightarrow> ans | Threw err \<Rightarrow> errorOutcome err t
               | Timed_out \<Rightarrow> timeout_outcome (nc_timeout_ms n) t) in
         Inr (outcome\<lparr>no_at := t\<rparr>, w2))"

section \<open>The state between sweeps\<close>

record undelivered_note =
  un_at :: int
  un_title :: units
  un_reason :: units
  un_httpStatus :: "int option"

record delivery_state =
  ds_consecutive_retryable :: nat
  ds_sweeps_until_retry :: nat
  ds_undelivered :: "undelivered_note list"
  ds_last_rejected_at :: "int option"

definition freshDeliveryState :: delivery_state where
  "freshDeliveryState =
    \<lparr>ds_consecutive_retryable = 0, ds_sweeps_until_retry = 0, ds_undelivered = [], ds_last_rejected_at = None\<rparr>"

definition backoffSweeps :: "nat \<Rightarrow> nat \<Rightarrow> nat" where
  "backoffSweeps n maxRetrySweeps = (if n = 0 then 0 else min (2 ^ (n - 1)) maxRetrySweeps)"

definition backlogWindow :: "delivery_state \<Rightarrow> notify_backlog option" where
  "backlogWindow s =
    (case map un_at (ds_undelivered s) of [] \<Rightarrow> None
     | a # ats \<Rightarrow> Some \<lparr>nb_count = length (a # ats), nb_from = foldl min a ats, nb_to = foldl max a ats\<rparr>)"

definition reporterUndelivered :: "delivery_state \<Rightarrow> bool" where
  "reporterUndelivered s \<longleftrightarrow> ds_last_rejected_at s \<noteq> None \<or> ds_consecutive_retryable s \<ge> 2"

definition note_of :: "notify_outcome \<Rightarrow> announcement \<Rightarrow> undelivered_note" where
  "note_of ans a = \<lparr>un_at = no_at ans, un_title = an_title a,
     un_reason = (case no_reason ans of None \<Rightarrow> units ''unknown'' | Some r \<Rightarrow> r), un_httpStatus = no_httpStatus ans\<rparr>"

definition recordOutcome ::
  "delivery_state \<Rightarrow> notify_outcome \<Rightarrow> announcement \<Rightarrow> nat \<Rightarrow> bool \<Rightarrow> delivery_state" where
  "recordOutcome s ans a maxRetrySweeps reporterOpen =
    (case no_status ans of
       Delivered \<Rightarrow>
         \<lparr>ds_consecutive_retryable = 0, ds_sweeps_until_retry = 0,
          ds_undelivered = (if reporterOpen then ds_undelivered s else []), ds_last_rejected_at = None\<rparr>
     | Rejected \<Rightarrow>
         \<lparr>ds_consecutive_retryable = 0, ds_sweeps_until_retry = 0,
          ds_undelivered = ds_undelivered s @ [note_of ans a], ds_last_rejected_at = Some (no_at ans)\<rparr>
     | Retryable \<Rightarrow>
         let n = ds_consecutive_retryable s + 1 in
         \<lparr>ds_consecutive_retryable = n, ds_sweeps_until_retry = backoffSweeps n maxRetrySweeps,
          ds_undelivered = ds_undelivered s @ [note_of ans a], ds_last_rejected_at = ds_last_rejected_at s\<rparr>)"

definition isReporterRecovery :: "announcement_facts \<Rightarrow> bool" where
  "isReporterRecovery f \<longleftrightarrow> af_assessment f = A_reporter_undelivered \<and> af_transition f = A_recovered"

definition orderForDelivery :: "announcement_facts list \<Rightarrow> announcement_facts list" where
  "orderForDelivery fs =
    (let recovery = filter isReporterRecovery fs in
     if recovery = [] then fs else recovery @ [f \<leftarrow> fs. \<not> isReporterRecovery f])"

section \<open>One announcement of a sweep\<close>

record pass_options =
  po_tick :: "bool option"
  po_reporterOpen :: "bool option"
  po_attempt :: "bool option"

datatype disposition = Attempted | Held | Disabled | Nothing_to_send

record delivery_result =
  dr_disposition :: disposition
  dr_state :: delivery_state
  dr_outcome :: "notify_outcome option"
  dr_announcement :: "announcement option"
  dr_request :: "notify_request option"

definition silent :: "disposition \<Rightarrow> delivery_state \<Rightarrow> delivery_result" where
  "silent d s = \<lparr>dr_disposition = d, dr_state = s, dr_outcome = None, dr_announcement = None, dr_request = None\<rparr>"

definition or_else :: "'a option \<Rightarrow> 'a \<Rightarrow> 'a" where
  "or_else v d = (case v of None \<Rightarrow> d | Some x \<Rightarrow> x)"

definition hold_reason :: "bool \<Rightarrow> nat \<Rightarrow> units" where
  "hold_reason waiting n =
    (if waiting then units ''held by backoff ('' @ nat_text n @ units '' sweep(s) remaining)''
     else units ''held: the channel already failed in this sweep'')"

definition hold_announcement ::
  "announcement_facts \<Rightarrow> notify_config \<Rightarrow> delivery_state \<Rightarrow> bool \<Rightarrow> delivery_state \<Rightarrow> 'w notify_io \<Rightarrow> 'w
    \<Rightarrow> notify_error + (delivery_result \<times> 'w)" where
  "hold_announcement f n s waiting ticked io w =
    (case composeAnnouncement (f\<lparr>af_backlog := None\<rparr>) (nc_priority n) of
       Inl e \<Rightarrow> Inl e
     | Inr held \<Rightarrow>
         let (t, w1) = io_now io w;
             note = \<lparr>un_at = t, un_title = an_title held,
               un_reason = hold_reason waiting (ds_sweeps_until_retry s), un_httpStatus = None\<rparr> in
         Inr (\<lparr>dr_disposition = Held, dr_state = ticked\<lparr>ds_undelivered := ds_undelivered ticked @ [note]\<rparr>,
               dr_outcome = None, dr_announcement = Some held, dr_request = None\<rparr>, w1))"

definition attempt_announcement ::
  "announcement_facts \<Rightarrow> notify_config \<Rightarrow> delivery_state \<Rightarrow> bool \<Rightarrow> 'w notify_io \<Rightarrow> 'w
    \<Rightarrow> notify_error + (delivery_result \<times> 'w)" where
  "attempt_announcement f n s reporterOpen io w =
    (case composeAnnouncement (f\<lparr>af_backlog := backlogWindow s\<rparr>) (nc_priority n) of
       Inl e \<Rightarrow> Inl e
     | Inr a \<Rightarrow>
         case renderRequest (io_stringify io) (io_env io) a n of Inl e \<Rightarrow> Inl e
         | Inr request \<Rightarrow>
             case deliverAnnouncement a n io w of Inl e \<Rightarrow> Inl e
             | Inr (ans, w1) \<Rightarrow>
                 Inr (\<lparr>dr_disposition = Attempted,
                       dr_state = recordOutcome s ans a (nc_max_retry_sweeps n) reporterOpen,
                       dr_outcome = Some ans, dr_announcement = Some a, dr_request = Some request\<rparr>, w1))"

definition deliverySweep ::
  "announcement_facts option \<Rightarrow> notify_config option \<Rightarrow> delivery_state \<Rightarrow> 'w notify_io \<Rightarrow> pass_options \<Rightarrow> 'w
    \<Rightarrow> notify_error + (delivery_result \<times> 'w)" where
  "deliverySweep facts notify s io pass w =
    (case notify of None \<Rightarrow> Inr (silent Disabled s, w)
     | Some n \<Rightarrow>
         let tick = or_else (po_tick pass) True;
             reporterOpen = or_else (po_reporterOpen pass) (reporterUndelivered s);
             waiting = ds_sweeps_until_retry s > 0;
             holding = (case po_attempt pass of None \<Rightarrow> waiting | Some attempt \<Rightarrow> \<not> attempt) in
         if holding then
           let ticked = (if tick \<and> waiting then s\<lparr>ds_sweeps_until_retry := ds_sweeps_until_retry s - 1\<rparr> else s) in
           (case facts of None \<Rightarrow> Inr (silent Nothing_to_send ticked, w)
            | Some f \<Rightarrow> hold_announcement f n s waiting ticked io w)
         else
           (case facts of None \<Rightarrow> Inr (silent Nothing_to_send s, w)
            | Some f \<Rightarrow> attempt_announcement f n s reporterOpen io w))"

section \<open>A sweep\<close>

record sweep_report =
  sr_state :: delivery_state
  sr_deliveries :: "delivery_result list"
  sr_reporterUndelivered :: bool
  sr_lost :: "units list"

definition failed :: "delivery_result \<Rightarrow> bool" where
  "failed r \<longleftrightarrow> dr_disposition r = Attempted \<and> map_option no_status (dr_outcome r) \<noteq> Some Delivered"

definition lost_titles :: "delivery_state \<Rightarrow> delivery_state \<Rightarrow> units list" where
  "lost_titles before after = map un_title (drop (length (ds_undelivered before)) (ds_undelivered after))"

text \<open>The loop over the announcements: the index, whether the channel may be tried, and what has been collected.\<close>

fun report_loop ::
  "announcement_facts list \<Rightarrow> nat \<Rightarrow> notify_config option \<Rightarrow> bool \<Rightarrow> bool \<Rightarrow> delivery_state \<Rightarrow> 'w notify_io \<Rightarrow> 'w
    \<Rightarrow> notify_error + (delivery_state \<times> delivery_result list \<times> units list \<times> 'w)" where
  "report_loop [] i notify reporterOpen mayAttempt s io w = Inr (s, [], [], w)"
| "report_loop (f # fs) i notify reporterOpen mayAttempt s io w =
    (case deliverySweep (Some f) notify s io
            \<lparr>po_tick = Some (i = 0), po_reporterOpen = Some reporterOpen, po_attempt = Some mayAttempt\<rparr> w of
       Inl e \<Rightarrow> Inl e
     | Inr (r, w1) \<Rightarrow>
         case report_loop fs (i + 1) notify reporterOpen (mayAttempt \<and> \<not> failed r) (dr_state r) io w1 of
           Inl e \<Rightarrow> Inl e
         | Inr (s', rs, lost, w2) \<Rightarrow> Inr (s', r # rs, lost_titles s (dr_state r) @ lost, w2))"

definition reportSweep ::
  "announcement_facts list \<Rightarrow> notify_config option \<Rightarrow> delivery_state \<Rightarrow> 'w notify_io \<Rightarrow> 'w
    \<Rightarrow> notify_error + (sweep_report \<times> 'w)" where
  "reportSweep facts notify s io w =
    (let ordered = orderForDelivery facts;
         reporterOpen = reporterUndelivered s;
         pass = (if ordered = [] then
            (case deliverySweep None notify s io
                    \<lparr>po_tick = Some True, po_reporterOpen = Some reporterOpen, po_attempt = None\<rparr> w of
               Inl e \<Rightarrow> Inl e
             | Inr (quiet, w1) \<Rightarrow> Inr (dr_state quiet, [quiet], [], w1))
          else report_loop ordered 0 notify reporterOpen (ds_sweeps_until_retry s = 0) s io w) in
     case pass of Inl e \<Rightarrow> Inl e
     | Inr (s', rs, lost, w1) \<Rightarrow>
         Inr (\<lparr>sr_state = s', sr_deliveries = rs, sr_reporterUndelivered = reporterUndelivered s', sr_lost = lost\<rparr>, w1))"


section \<open>No exception, with a clock in the range of a date\<close>

definition clock_in_range :: "'w notify_io \<Rightarrow> bool" where
  "clock_in_range io \<longleftrightarrow> (\<forall>w. in_range (fst (io_now io w)))"

definition notes_in_range :: "delivery_state \<Rightarrow> bool" where
  "notes_in_range s \<longleftrightarrow> (\<forall>n \<in> set (ds_undelivered s). in_range (un_at n))"

lemma foldl_min_max_range:
  fixes a :: int assumes "in_range a" and "\<And>b. b \<in> set bs \<Longrightarrow> in_range b"
  shows "in_range (foldl min a bs)" "in_range (foldl max a bs)"
  using assms by (induction bs arbitrary: a) (auto simp: in_range_def min_def max_def)

lemma backlog_of_notes: "notes_in_range s \<Longrightarrow> backlog_in_range (backlogWindow s)"
  by (auto simp: backlogWindow_def backlog_in_range_def notes_in_range_def intro!: foldl_min_max_range
      split: option.splits list.splits)

lemma facts_in_range_backlog [simp]: "facts_in_range (f\<lparr>af_backlog := b\<rparr>) = facts_in_range f"
  by (simp add: facts_in_range_def)

lemma clock_read: "clock_in_range io \<Longrightarrow> io_now io w = (t, w') \<Longrightarrow> in_range t"
  unfolding clock_in_range_def by (metis fst_conv)

lemma deliver_Inr:
  assumes "composeAnnouncement f p = Inr a"
  shows "\<exists>ans w'. deliverAnnouncement a n io w = Inr (ans, w')"
proof -
  obtain req where "renderRequest (io_stringify io) (io_env io) a n = Inr req"
    using render_composed [OF assms] by blast
  then show ?thesis by (auto simp: deliverAnnouncement_def split: prod.splits)
qed

lemma deliver_stamped:
  "clock_in_range io \<Longrightarrow> deliverAnnouncement a n io w = Inr (ans, w') \<Longrightarrow> in_range (no_at ans)"
  unfolding deliverAnnouncement_def by (auto split: sum.splits prod.splits dest: clock_read)

lemma recordOutcome_notes:
  "notes_in_range s \<Longrightarrow> in_range (no_at ans) \<Longrightarrow> notes_in_range (recordOutcome s ans a m ro)"
  by (auto simp: recordOutcome_def notes_in_range_def note_of_def Let_def split: outcome_status.splits)

definition attempted_to :: "delivery_result \<Rightarrow> bool" where
  "attempted_to r \<longleftrightarrow> dr_disposition r = Attempted"

definition delivered :: "delivery_result \<Rightarrow> bool" where
  "delivered r \<longleftrightarrow> attempted_to r \<and> map_option no_status (dr_outcome r) = Some Delivered"

definition title_said :: "delivery_result \<Rightarrow> units" where
  "title_said r = (case dr_announcement r of None \<Rightarrow> [] | Some a \<Rightarrow> an_title a)"

text \<open>What one step of the loop does, in one place: it holds or it attempts.\<close>

definition loop_pass :: "bool \<Rightarrow> bool \<Rightarrow> bool \<Rightarrow> pass_options" where
  "loop_pass tick ro may = \<lparr>po_tick = Some tick, po_reporterOpen = Some ro, po_attempt = Some may\<rparr>"

definition ticked_down :: "bool \<Rightarrow> delivery_state \<Rightarrow> delivery_state" where
  "ticked_down tick s = (if tick \<and> ds_sweeps_until_retry s > 0
     then s\<lparr>ds_sweeps_until_retry := ds_sweeps_until_retry s - 1\<rparr> else s)"

lemma sweep_step:
  "deliverySweep (Some f) (Some n) s io (loop_pass tick ro may) w =
    (if may then attempt_announcement f n s ro io w
     else hold_announcement f n s (ds_sweeps_until_retry s > 0) (ticked_down tick s) io w)"
  by (simp add: deliverySweep_def loop_pass_def or_else_def ticked_down_def Let_def)

lemma hold_Inr:
  assumes "facts_in_range f"
  shows "\<exists>r w'. hold_announcement f n s waiting ticked io w = Inr (r, w')"
proof -
  obtain a where "composeAnnouncement (f\<lparr>af_backlog := None\<rparr>) (nc_priority n) = Inr a"
    using compose_Inr [of "f\<lparr>af_backlog := None\<rparr>" "nc_priority n"] assms by (auto simp: backlog_in_range_def)
  then show ?thesis by (auto simp: hold_announcement_def split: prod.splits)
qed

lemma attempt_Inr:
  assumes "facts_in_range f" and "notes_in_range s"
  shows "\<exists>r w'. attempt_announcement f n s ro io w = Inr (r, w')"
proof -
  obtain a where a: "composeAnnouncement (f\<lparr>af_backlog := backlogWindow s\<rparr>) (nc_priority n) = Inr a"
    using compose_Inr [of "f\<lparr>af_backlog := backlogWindow s\<rparr>" "nc_priority n"] assms backlog_of_notes by auto
  obtain req where "renderRequest (io_stringify io) (io_env io) a n = Inr req" using render_composed [OF a] by blast
  moreover have "\<exists>ans w'. deliverAnnouncement a n io w = Inr (ans, w')" by (rule deliver_Inr [OF a])
  ultimately show ?thesis using a by (auto simp: attempt_announcement_def)
qed

lemma step_Inr:
  assumes "facts_in_range f" and "notes_in_range s"
  shows "\<exists>r w'. deliverySweep (Some f) (Some n) s io (loop_pass tick ro may) w = Inr (r, w')"
  using attempt_Inr [OF assms] hold_Inr [OF assms(1)] by (cases may) (simp_all add: sweep_step)

lemma held_facts:
  assumes "hold_announcement f n s waiting ticked io w = Inr (r, w')"
  shows "dr_disposition r = Held" "dr_outcome r = None"
    "\<exists>note. dr_state r = ticked\<lparr>ds_undelivered := ds_undelivered ticked @ [note]\<rparr> \<and> un_title note = title_said r
       \<and> (clock_in_range io \<longrightarrow> in_range (un_at note))"
    "\<exists>a. dr_announcement r = Some a \<and> an_facts a = f\<lparr>af_backlog := None\<rparr>"
proof -
  obtain a t where a: "composeAnnouncement (f\<lparr>af_backlog := None\<rparr>) (nc_priority n) = Inr a" "io_now io w = (t, w')"
    and r: "r = \<lparr>dr_disposition = Held, dr_state = ticked\<lparr>ds_undelivered := ds_undelivered ticked @
        [\<lparr>un_at = t, un_title = an_title a, un_reason = hold_reason waiting (ds_sweeps_until_retry s), un_httpStatus = None\<rparr>]\<rparr>,
      dr_outcome = None, dr_announcement = Some a, dr_request = None\<rparr>"
    using assms by (auto simp: hold_announcement_def split: sum.splits prod.splits)
  show "dr_disposition r = Held" "dr_outcome r = None"
    "\<exists>a. dr_announcement r = Some a \<and> an_facts a = f\<lparr>af_backlog := None\<rparr>"
    using composed(1) [OF a(1)] by (simp_all add: r)
  show "\<exists>note. dr_state r = ticked\<lparr>ds_undelivered := ds_undelivered ticked @ [note]\<rparr> \<and> un_title note = title_said r
       \<and> (clock_in_range io \<longrightarrow> in_range (un_at note))"
    unfolding r by (rule exI, intro conjI) (auto simp: title_said_def clock_read [OF _ a(2)])
qed

lemma attempted_facts:
  assumes "attempt_announcement f n s ro io w = Inr (r, w')"
  shows "dr_disposition r = Attempted"
    "\<exists>a ans. dr_announcement r = Some a \<and> an_facts a = f\<lparr>af_backlog := backlogWindow s\<rparr> \<and> dr_outcome r = Some ans
       \<and> dr_state r = recordOutcome s ans a (nc_max_retry_sweeps n) ro \<and> (clock_in_range io \<longrightarrow> in_range (no_at ans))"
  using assms composed(1)
  by (auto simp: attempt_announcement_def split: sum.splits prod.splits dest: deliver_stamped)

lemma failed_iff: "attempted_to r \<Longrightarrow> failed r \<longleftrightarrow> \<not> delivered r"
  by (simp add: failed_def delivered_def attempted_to_def)

lemma not_attempted_simps: "\<not> attempted_to r \<Longrightarrow> \<not> failed r \<and> \<not> delivered r"
  by (simp add: failed_def delivered_def attempted_to_def)

lemma step_all:
  assumes "deliverySweep (Some f) (Some n) s io (loop_pass tick ro may) w = Inr (r, w')"
  shows "lost_titles s (dr_state r) = (if delivered r then [] else [title_said r]) \<and> attempted_to r = may
    \<and> (\<exists>a b. dr_announcement r = Some a \<and> an_facts a = f\<lparr>af_backlog := b\<rparr>)
    \<and> (ro \<longrightarrow> map un_title (ds_undelivered (dr_state r)) = map un_title (ds_undelivered s) @ lost_titles s (dr_state r))
    \<and> (notes_in_range s \<longrightarrow> clock_in_range io \<longrightarrow> notes_in_range (dr_state r))"
proof (cases may)
  case True
  with assms have at: "attempt_announcement f n s ro io w = Inr (r, w')" by (simp add: sweep_step)
  obtain a ans where f: "dr_disposition r = Attempted" "dr_announcement r = Some a" "an_facts a = f\<lparr>af_backlog := backlogWindow s\<rparr>"
    "dr_outcome r = Some ans" "dr_state r = recordOutcome s ans a (nc_max_retry_sweeps n) ro"
    "clock_in_range io \<longrightarrow> in_range (no_at ans)"
    using attempted_facts [OF at] by blast
  show ?thesis
    using f True by (cases "no_status ans") (auto simp: delivered_def attempted_to_def lost_titles_def title_said_def
        recordOutcome_def note_of_def Let_def notes_in_range_def)
next
  case False
  with assms have h: "hold_announcement f n s (ds_sweeps_until_retry s > 0) (ticked_down tick s) io w = Inr (r, w')"
    by (simp add: sweep_step)
  have u: "ds_undelivered (ticked_down tick s) = ds_undelivered s" by (simp add: ticked_down_def)
  from held_facts [OF h] False
  show ?thesis
    by (auto simp: delivered_def attempted_to_def lost_titles_def notes_in_range_def u)
qed

lemma step_lost:
  assumes "deliverySweep (Some f) (Some n) s io (loop_pass tick ro may) w = Inr (r, w')"
  shows "lost_titles s (dr_state r) = (if delivered r then [] else [title_said r])"
    "attempted_to r = may"
    "\<exists>a b. dr_announcement r = Some a \<and> an_facts a = f\<lparr>af_backlog := b\<rparr>"
    "ro \<Longrightarrow> map un_title (ds_undelivered (dr_state r)) = map un_title (ds_undelivered s) @ lost_titles s (dr_state r)"
    "notes_in_range s \<Longrightarrow> clock_in_range io \<Longrightarrow> notes_in_range (dr_state r)"
  using step_all [OF assms] by blast+

section \<open>A sweep accounts for its announcements\<close>

lemma report_loop_step:
  "report_loop (f # fs) i notify ro may s io w =
    (case deliverySweep (Some f) notify s io (loop_pass (i = 0) ro may) w of Inl e \<Rightarrow> Inl e
     | Inr (r, w1) \<Rightarrow>
         case report_loop fs (i + 1) notify ro (may \<and> \<not> failed r) (dr_state r) io w1 of Inl e \<Rightarrow> Inl e
         | Inr (s', rs, lost, w2) \<Rightarrow> Inr (s', r # rs, lost_titles s (dr_state r) @ lost, w2))"
  by (simp add: loop_pass_def)

declare report_loop.simps(2) [simp del]

lemma report_loop_Inr:
  assumes "clock_in_range io" and "notes_in_range s" and "list_all facts_in_range fs"
  shows "\<exists>res. report_loop fs i (Some n) ro may s io w = Inr res"
  using assms(2,3)
proof (induction fs arbitrary: i may s w)
  case (Cons f fs)
  obtain r w1 where r: "deliverySweep (Some f) (Some n) s io (loop_pass (i = 0) ro may) w = Inr (r, w1)"
    using step_Inr [of f s] Cons.prems by (metis list.pred_inject(2))
  have "notes_in_range (dr_state r)" by (rule step_lost(5) [OF r Cons.prems(1) assms(1)])
  with Cons obtain res where "report_loop fs (i + 1) (Some n) ro (may \<and> \<not> failed r) (dr_state r) io w1 = Inr res"
    by (metis list.pred_inject(2))
  with r show ?case by (cases res) (auto simp: report_loop_step)
qed simp

text \<open>The channel is tried only as long as everything before has been delivered.\<close>

definition gives_up :: "delivery_result list \<Rightarrow> bool" where
  "gives_up = sorted_wrt (\<lambda>r r'. attempted_to r' \<longrightarrow> delivered r)"

lemma gives_up_Cons: "gives_up (r # rs) \<longleftrightarrow> gives_up rs \<and> (delivered r \<or> (\<forall>r' \<in> set rs. \<not> attempted_to r'))"
  by (auto simp: gives_up_def)

lemma report_loop_accounts:
  assumes "report_loop fs i (Some n) ro may s io w = Inr (s', rs, lost, w')"
  shows "list_all2 (\<lambda>f r. \<exists>a b. dr_announcement r = Some a \<and> an_facts a = f\<lparr>af_backlog := b\<rparr>) fs rs
    \<and> lost = map title_said [r \<leftarrow> rs. \<not> delivered r]
    \<and> gives_up rs \<and> (\<not> may \<longrightarrow> (\<forall>r \<in> set rs. \<not> attempted_to r)) \<and> (may \<longrightarrow> fs \<noteq> [] \<longrightarrow> attempted_to (hd rs))
    \<and> (ro \<longrightarrow> map un_title (ds_undelivered s') = map un_title (ds_undelivered s) @ lost)
    \<and> (clock_in_range io \<longrightarrow> notes_in_range s \<longrightarrow> notes_in_range s')"
  using assms
proof (induction fs arbitrary: i may s w s' rs lost w')
  case Nil
  then show ?case by (simp add: gives_up_def)
next
  case (Cons f fs)
  from Cons.prems obtain r w1 rs1 lost1 where
    r: "deliverySweep (Some f) (Some n) s io (loop_pass (i = 0) ro may) w = Inr (r, w1)" and
    l: "report_loop fs (i + 1) (Some n) ro (may \<and> \<not> failed r) (dr_state r) io w1 = Inr (s', rs1, lost1, w')" and
    eq: "rs = r # rs1" "lost = lost_titles s (dr_state r) @ lost1"
    by (auto simp: report_loop_step split: sum.splits prod.splits)
  note st = step_lost [OF r] and IH = Cons.IH [OF l]
  have "delivered r \<or> (\<forall>r' \<in> set rs1. \<not> attempted_to r')"
    using IH st(2) failed_iff [of r] by blast
  then show ?case
    using IH st failed_iff [of r] not_attempted_simps [of r] by (auto simp: eq gives_up_Cons)
qed

lemma reportSweep_loop:
  "fs \<noteq> [] \<Longrightarrow> reportSweep fs notify s io w =
    (case report_loop (orderForDelivery fs) 0 notify (reporterUndelivered s) (ds_sweeps_until_retry s = 0) s io w of
       Inl e \<Rightarrow> Inl e
     | Inr (s', rs, lost, w1) \<Rightarrow>
         Inr (\<lparr>sr_state = s', sr_deliveries = rs, sr_reporterUndelivered = reporterUndelivered s', sr_lost = lost\<rparr>, w1))"
  by (auto simp: reportSweep_def orderForDelivery_def Let_def filter_empty_conv)

lemma reportSweep_quiet:
  "reportSweep [] (Some n) s io w =
    Inr (let s' = ticked_down True s; r = silent Nothing_to_send s' in
      (\<lparr>sr_state = s', sr_deliveries = [r], sr_reporterUndelivered = reporterUndelivered s', sr_lost = []\<rparr>, w))"
  by (simp add: reportSweep_def orderForDelivery_def deliverySweep_def or_else_def ticked_down_def silent_def Let_def)

lemma order_mset: "mset (orderForDelivery fs) = mset fs"
  by (auto simp: orderForDelivery_def Let_def mset_filter multiset_eq_iff)

lemma order_range: "list_all facts_in_range (orderForDelivery fs) = list_all facts_in_range fs"
  by (simp add: list_all_iff orderForDelivery_def Let_def) auto



definition sample_notify_io :: "nat notify_io" where
  "sample_notify_io =
    \<lparr>io_now = (\<lambda>w. (int (min w 100), w)),
     io_send = (\<lambda>req w. (Answered (statusOutcome (if w = 0 then 503 else 200) 7), Suc w)),
     io_env = (\<lambda>v. None), io_stringify = (\<lambda>a. [])\<rparr>"

lemma sample_notify_clock: "clock_in_range sample_notify_io"
  by (simp add: clock_in_range_def sample_notify_io_def in_range_def max_instant_def min_def)

lemma sample_notify_range: "facts_in_range sample_notify_facts"
  by (simp add: sample_notify_facts_def facts_in_range_def in_range_def max_instant_def)

lemma fresh_in_range [simp]: "notes_in_range freshDeliveryState"
  by (simp add: notes_in_range_def freshDeliveryState_def)


section \<open>The backoff\<close>

text \<open>Sweeps one after another, each with its announcements.\<close>

fun sweeps ::
  "announcement_facts list list \<Rightarrow> notify_config \<Rightarrow> delivery_state \<Rightarrow> 'w notify_io \<Rightarrow> 'w
    \<Rightarrow> notify_error + (delivery_state \<times> delivery_result list \<times> 'w)" where
  "sweeps [] n s io w = Inr (s, [], w)"
| "sweeps (fs # fss) n s io w =
    (case reportSweep fs (Some n) s io w of Inl e \<Rightarrow> Inl e
     | Inr (rep, w1) \<Rightarrow>
         case sweeps fss n (sr_state rep) io w1 of Inl e \<Rightarrow> Inl e
         | Inr (s', rs, w2) \<Rightarrow> Inr (s', sr_deliveries rep @ rs, w2))"

text \<open>A pass that may not try the channel counts down by one, and touches nothing else of the backoff.\<close>

lemma held_step_counts:
  assumes "deliverySweep (Some f) (Some n) s io (loop_pass tick ro False) w = Inr (r, w')"
  shows "ds_sweeps_until_retry (dr_state r) = ds_sweeps_until_retry s - (if tick then 1 else 0)"
proof -
  have h: "hold_announcement f n s (ds_sweeps_until_retry s > 0) (ticked_down tick s) io w = Inr (r, w')"
    using assms by (simp add: sweep_step)
  from held_facts(3) [OF h] show ?thesis by (auto simp: ticked_down_def)
qed

lemma held_loop_counts:
  assumes "report_loop fs i (Some n) ro False s io w = Inr (s', rs, lost, w')"
  shows "ds_sweeps_until_retry s' = ds_sweeps_until_retry s - (if i = 0 \<and> fs \<noteq> [] then 1 else 0)"
  using assms
proof (induction fs arbitrary: i s w rs lost)
  case (Cons f fs)
  from Cons.prems obtain r w1 rs1 lost1 where
    r: "deliverySweep (Some f) (Some n) s io (loop_pass (i = 0) ro False) w = Inr (r, w1)" and
    l: "report_loop fs (i + 1) (Some n) ro False (dr_state r) io w1 = Inr (s', rs1, lost1, w')"
    by (auto simp: report_loop_step split: sum.splits prod.splits)
  show ?case using Cons.IH [OF l] held_step_counts [OF r] by simp
qed simp

lemma waiting_sweep:
  assumes "clock_in_range io" and "notes_in_range s" and "list_all facts_in_range fs"
    and "ds_sweeps_until_retry s = Suc k"
  shows "\<exists>rep w'. reportSweep fs (Some n) s io w = Inr (rep, w') \<and> ds_sweeps_until_retry (sr_state rep) = k
    \<and> (\<forall>r \<in> set (sr_deliveries rep). \<not> attempted_to r) \<and> notes_in_range (sr_state rep)"
proof (cases "fs = []")
  case True
  then show ?thesis
    using assms(2,4) by (simp add: reportSweep_quiet Let_def ticked_down_def silent_def attempted_to_def notes_in_range_def)
next
  case False
  have "list_all facts_in_range (orderForDelivery fs)" using assms(3) order_range by blast
  with report_loop_Inr [OF assms(1,2)] obtain s' rs lost w' where
    l: "report_loop (orderForDelivery fs) 0 (Some n) (reporterUndelivered s) False s io w = Inr (s', rs, lost, w')"
    by (metis prod.exhaust)
  have "orderForDelivery fs \<noteq> []" using False order_mset by (metis mset.simps(1) mset_zero_iff_right)
  then have "ds_sweeps_until_retry s' = k" using held_loop_counts [OF l] assms(4) by simp
  then show ?thesis
    using report_loop_accounts [OF l] l False assms by (simp add: reportSweep_loop)
qed

lemma waiting_sweeps:
  assumes "clock_in_range io" and "notes_in_range s" and "list_all (list_all facts_in_range) fss"
    and "ds_sweeps_until_retry s = length fss"
  shows "\<exists>s' rs w'. sweeps fss n s io w = Inr (s', rs, w') \<and> ds_sweeps_until_retry s' = 0
    \<and> (\<forall>r \<in> set rs. \<not> attempted_to r) \<and> notes_in_range s'"
  using assms(2-4)
proof (induction fss arbitrary: s w)
  case (Cons fs fss)
  from Cons.prems obtain rep w1 where rep: "reportSweep fs (Some n) s io w = Inr (rep, w1)"
    "ds_sweeps_until_retry (sr_state rep) = length fss" "\<forall>r \<in> set (sr_deliveries rep). \<not> attempted_to r"
    "notes_in_range (sr_state rep)"
    using waiting_sweep [OF assms(1), of s fs "length fss" n w] by auto
  then obtain s' rs w2 where "sweeps fss n (sr_state rep) io w1 = Inr (s', rs, w2)" "ds_sweeps_until_retry s' = 0"
    "\<forall>r \<in> set rs. \<not> attempted_to r" "notes_in_range s'"
    using Cons.IH [of "sr_state rep" w1] Cons.prems by auto
  with rep show ?case by auto
qed simp

text \<open>
  An attempt that failed in a way that may pass fixes the backoff: the number of such failures in a
  row doubles it, up to the configured cap, and the passes held after it leave it as it is.
\<close>

lemma held_loop_state:
  assumes "report_loop fs (Suc i) (Some n) ro False s io w = Inr (s', rs, lost, w')"
  shows "ds_consecutive_retryable s' = ds_consecutive_retryable s \<and> ds_sweeps_until_retry s' = ds_sweeps_until_retry s
    \<and> (\<forall>r \<in> set rs. dr_outcome r = None)"
  using assms
proof (induction fs arbitrary: i s w rs lost)
  case (Cons f fs)
  from Cons.prems obtain r w1 rs1 lost1 where
    r: "deliverySweep (Some f) (Some n) s io (loop_pass False ro False) w = Inr (r, w1)" and
    l: "report_loop fs (Suc (Suc i)) (Some n) ro False (dr_state r) io w1 = Inr (s', rs1, lost1, w')" and
    eq: "rs = r # rs1"
    by (auto simp: report_loop_step split: sum.splits prod.splits)
  have h: "hold_announcement f n s (ds_sweeps_until_retry s > 0) (ticked_down False s) io w = Inr (r, w1)"
    using r by (simp add: sweep_step)
  from held_facts(2,3) [OF h] Cons.IH [OF l] show ?case by (auto simp: eq ticked_down_def)
qed simp

lemma held_outcomes:
  "report_loop fs i (Some n) ro False s io w = Inr (s', rs, lost, w') \<Longrightarrow> \<forall>r \<in> set rs. dr_outcome r = None"
proof (induction fs arbitrary: i s w rs lost)
  case (Cons f fs)
  from Cons.prems obtain r w1 rs1 lost1 where
    r: "deliverySweep (Some f) (Some n) s io (loop_pass (i = 0) ro False) w = Inr (r, w1)" and
    l: "report_loop fs (i + 1) (Some n) ro False (dr_state r) io w1 = Inr (s', rs1, lost1, w')" and
    eq: "rs = r # rs1"
    by (auto simp: report_loop_step split: sum.splits prod.splits)
  have h: "hold_announcement f n s (ds_sweeps_until_retry s > 0) (ticked_down (i = 0) s) io w = Inr (r, w1)"
    using r by (simp add: sweep_step)
  from held_facts(2) [OF h] Cons.IH [OF l] show ?case by (simp add: eq)
qed simp

lemma loop_backs_off:
  assumes "report_loop fs i (Some n) ro True s io w = Inr (s', rs, lost, w')"
    and "r \<in> set rs" and "map_option no_status (dr_outcome r) = Some Retryable"
  shows "ds_consecutive_retryable s' = (if \<exists>r' \<in> set rs. delivered r' then 1 else Suc (ds_consecutive_retryable s))
    \<and> ds_sweeps_until_retry s' = backoffSweeps (ds_consecutive_retryable s') (nc_max_retry_sweeps n)"
  using assms
proof (induction fs arbitrary: i s w rs lost)
  case (Cons f fs)
  from Cons.prems obtain q w1 rs1 lost1 where
    q: "deliverySweep (Some f) (Some n) s io (loop_pass (i = 0) ro True) w = Inr (q, w1)" and
    l: "report_loop fs (Suc i) (Some n) ro (\<not> failed q) (dr_state q) io w1 = Inr (s', rs1, lost1, w')" and
    eq: "rs = q # rs1"
    by (auto simp: report_loop_step split: sum.splits prod.splits)
  have at: "attempt_announcement f n s ro io w = Inr (q, w1)" using q by (simp add: sweep_step)
  obtain a ans where d: "dr_disposition q = Attempted" "dr_outcome q = Some ans"
    "dr_state q = recordOutcome s ans a (nc_max_retry_sweeps n) ro"
    using attempted_facts [OF at] by blast
  show ?case
  proof (cases "no_status ans = Delivered")
    case True
    then have "\<not> failed q" "delivered q" "ds_consecutive_retryable (dr_state q) = 0"
      using d by (auto simp: failed_def delivered_def attempted_to_def recordOutcome_def)
    then show ?thesis using Cons.IH [of "Suc i" "dr_state q" w1 rs1 lost1] l Cons.prems(2,3) d True by (auto simp: eq)
  next
    case False
    then have fails: "failed q" "\<not> delivered q" using d by (auto simp: failed_def delivered_def)
    have held: "ds_consecutive_retryable s' = ds_consecutive_retryable (dr_state q)"
      "ds_sweeps_until_retry s' = ds_sweeps_until_retry (dr_state q)" "\<forall>r \<in> set rs1. dr_outcome r = None"
      using held_loop_state [of fs i n ro "dr_state q" io w1 s' rs1 lost1 w'] l fails(1) by simp_all
    then have "r = q" using Cons.prems(2,3) eq by auto
    then have "no_status ans = Retryable" using Cons.prems(3) d(2) by simp
    moreover have "\<not> (\<exists>r' \<in> set rs. delivered r')" using held(3) fails(2) by (auto simp: eq delivered_def)
    ultimately show ?thesis using held d(3) by (simp add: recordOutcome_def Let_def)
  qed
qed simp


lemma sample_backs_off:
  obtains rep0 w r where
    "reportSweep [sample_notify_facts] (Some sample_notify_config) freshDeliveryState sample_notify_io 0 = Inr (rep0, w)"
    "sr_deliveries rep0 = [r]" "map_option no_status (dr_outcome r) = Some Retryable"
proof -
  let ?f = "sample_notify_facts\<lparr>af_backlog := None\<rparr>" and ?n = sample_notify_config
  obtain a where a: "composeAnnouncement ?f (nc_priority ?n) = Inr a"
    using compose_Inr [of ?f "nc_priority ?n"] sample_notify_range by (auto simp: backlog_in_range_def)
  obtain req where q: "renderRequest (io_stringify sample_notify_io) (io_env sample_notify_io) a ?n = Inr req"
    using render_composed [OF a] by blast
  have fresh: "backlogWindow freshDeliveryState = None" "ds_sweeps_until_retry freshDeliveryState = 0"
    by (simp_all add: backlogWindow_def freshDeliveryState_def)
  have "deliverAnnouncement a ?n sample_notify_io 0 = Inr ((statusOutcome 503 7)\<lparr>no_at := 1\<rparr>, 1)"
    using q by (simp add: deliverAnnouncement_def Let_def) (simp add: sample_notify_io_def)
  then obtain r where "attempt_announcement sample_notify_facts ?n freshDeliveryState
      (reporterUndelivered freshDeliveryState) sample_notify_io 0 = Inr (r, 1)"
    and r: "dr_outcome r = Some ((statusOutcome 503 7)\<lparr>no_at := 1\<rparr>)"
    using a q fresh(1) by (simp add: attempt_announcement_def)
  then have sweep: "reportSweep [sample_notify_facts] (Some ?n) freshDeliveryState sample_notify_io 0 =
      Inr (\<lparr>sr_state = dr_state r, sr_deliveries = [r], sr_reporterUndelivered = reporterUndelivered (dr_state r),
        sr_lost = lost_titles freshDeliveryState (dr_state r)\<rparr>, 1)"
    by (simp add: reportSweep_loop orderForDelivery_def Let_def report_loop_step sweep_step fresh(2) filter_empty_conv)
  have "map_option no_status (dr_outcome r) = Some Retryable" by (simp add: r statusOutcome_def)
  from that [OF sweep _ this] show thesis by simp
qed


section \<open>The accusation of the reporter\<close>

text \<open>The outcomes of a run of sweeps, in order, and those since the last delivery, the latest first.\<close>

definition statuses :: "delivery_result list \<Rightarrow> outcome_status list" where
  "statuses rs = concat (map (\<lambda>r. case dr_outcome r of None \<Rightarrow> [] | Some ans \<Rightarrow> [no_status ans]) rs)"

definition since_delivery :: "outcome_status list \<Rightarrow> outcome_status list" where
  "since_delivery os = takeWhile (\<lambda>t. t \<noteq> Delivered) (rev os)"

definition tracks :: "outcome_status list \<Rightarrow> delivery_state \<Rightarrow> bool" where
  "tracks os s \<longleftrightarrow> (ds_last_rejected_at s \<noteq> None \<longleftrightarrow> Rejected \<in> set (since_delivery os))
     \<and> ds_consecutive_retryable s = length (takeWhile (\<lambda>t. t = Retryable) (rev os))"

lemma ticked_down_tracks [simp]: "tracks os (ticked_down tick s) = tracks os s"
    "ds_last_rejected_at (ticked_down tick s) = ds_last_rejected_at s"
    "ds_consecutive_retryable (ticked_down tick s) = ds_consecutive_retryable s"
  by (simp_all add: ticked_down_def tracks_def)

lemma tracks_record: "tracks os s \<Longrightarrow> tracks (os @ [no_status ans]) (recordOutcome s ans a m ro)"
  by (cases "no_status ans") (auto simp: tracks_def since_delivery_def recordOutcome_def Let_def)

lemma step_tracks:
  assumes "deliverySweep (Some f) (Some n) s io (loop_pass tick ro may) w = Inr (r, w')" and "tracks os s"
  shows "tracks (os @ statuses [r]) (dr_state r)"
proof (cases may)
  case True
  with assms(1) have at: "attempt_announcement f n s ro io w = Inr (r, w')" by (simp add: sweep_step)
  with attempted_facts [OF at] tracks_record [OF assms(2)] show ?thesis by (auto simp: statuses_def)
next
  case False
  with assms(1) have h: "hold_announcement f n s (ds_sweeps_until_retry s > 0) (ticked_down tick s) io w = Inr (r, w')"
    by (simp add: sweep_step)
  with held_facts(2,3) [OF h] assms(2) show ?thesis by (auto simp: statuses_def tracks_def)
qed

lemma statuses_append [simp]: "statuses (rs @ rs') = statuses rs @ statuses rs'"
  by (simp add: statuses_def)

lemma loop_tracks:
  assumes "report_loop fs i (Some n) ro may s io w = Inr (s', rs, lost, w')" and "tracks os s"
  shows "tracks (os @ statuses rs) s'"
  using assms
proof (induction fs arbitrary: i may s w rs lost os)
  case Nil
  then show ?case by (simp add: statuses_def)
next
  case (Cons f fs)
  from Cons.prems obtain r w1 rs1 lost1 where
    r: "deliverySweep (Some f) (Some n) s io (loop_pass (i = 0) ro may) w = Inr (r, w1)" and
    l: "report_loop fs (i + 1) (Some n) ro (may \<and> \<not> failed r) (dr_state r) io w1 = Inr (s', rs1, lost1, w')" and
    eq: "rs = [r] @ rs1"
    by (auto simp: report_loop_step split: sum.splits prod.splits)
  show ?case using Cons.IH [OF l step_tracks [OF r Cons.prems(2)]] by (simp only: eq statuses_append append_assoc)
qed

lemma report_tracks:
  assumes "reportSweep fs (Some n) s io w = Inr (rep, w')" and "tracks os s"
  shows "tracks (os @ statuses (sr_deliveries rep)) (sr_state rep)"
proof (cases "fs = []")
  case True
  with assms show ?thesis by (auto simp: reportSweep_quiet Let_def silent_def statuses_def)
next
  case False
  with assms(1) obtain s' rs lost where
    l: "report_loop (orderForDelivery fs) 0 (Some n) (reporterUndelivered s) (ds_sweeps_until_retry s = 0) s io w = Inr (s', rs, lost, w')"
    and rep: "sr_state rep = s'" "sr_deliveries rep = rs"
    by (auto simp: reportSweep_loop split: sum.splits prod.splits)
  show ?thesis unfolding rep by (rule loop_tracks [OF l assms(2)])
qed

lemma sweeps_track:
  assumes "sweeps fss n s io w = Inr (s', rs, w')" and "tracks os s"
  shows "tracks (os @ statuses rs) s'"
  using assms
proof (induction fss arbitrary: s w rs os)
  case Nil
  then show ?case by (simp add: statuses_def)
next
  case (Cons fs fss)
  from Cons.prems obtain rep w1 rs1 where
    r: "reportSweep fs (Some n) s io w = Inr (rep, w1)" and
    l: "sweeps fss n (sr_state rep) io w1 = Inr (s', rs1, w')" and eq: "rs = sr_deliveries rep @ rs1"
    by (auto split: sum.splits prod.splits)
  show ?case using Cons.IH [OF l report_tracks [OF r Cons.prems(2)]] by (simp add: eq)
qed

lemma accused_iff:
  assumes "tracks os s"
  shows "reporterUndelivered s \<longleftrightarrow> Rejected \<in> set (since_delivery os) \<or> length (since_delivery os) \<ge> 2"
proof (cases "Rejected \<in> set (since_delivery os)")
  case True
  with assms show ?thesis by (simp add: tracks_def reporterUndelivered_def)
next
  case False
  have "Rejected \<notin> set (takeWhile (\<lambda>t. t \<noteq> Delivered) ts)
      \<Longrightarrow> takeWhile (\<lambda>t. t = Retryable) ts = takeWhile (\<lambda>t. t \<noteq> Delivered) ts" for ts
    by (induction ts) (auto split: if_splits, metis outcome_status.exhaust)
  with False assms show ?thesis by (simp add: tracks_def reporterUndelivered_def since_delivery_def)
qed

text \<open>
  After any run of sweeps from a fresh state, the state accuses the reporter exactly when, since
  the last announcement it delivered, one was rejected or two were not delivered.
\<close>

theorem reporter_accused_iff:
  assumes "sweeps fss n freshDeliveryState io w = Inr (s', rs, w')"
  shows "reporterUndelivered s' \<longleftrightarrow>
    Rejected \<in> set (since_delivery (statuses rs)) \<or> length (since_delivery (statuses rs)) \<ge> 2"
proof (rule accused_iff)
  have "tracks [] freshDeliveryState" by (simp add: tracks_def freshDeliveryState_def since_delivery_def)
  from sweeps_track [OF assms this] show "tracks (statuses rs) s'" by simp
qed

theorem reporter_accused_iff_witness:
  "\<exists>s' rs w'. sweeps [[], []] sample_notify_config freshDeliveryState sample_notify_io 0 = Inr (s', rs, w')
    \<and> (reporterUndelivered s' \<longleftrightarrow> Rejected \<in> set (since_delivery (statuses rs)) \<or> length (since_delivery (statuses rs)) \<ge> 2)"
proof -
  obtain s' rs w' where r: "sweeps [[], []] sample_notify_config freshDeliveryState sample_notify_io 0 = Inr (s', rs, w')"
    by (simp add: reportSweep_quiet Let_def)
  then show ?thesis using reporter_accused_iff [OF r] by blast
qed

end
