(* ===== verification/Dispatch_Request.thy ===== *)
theory Dispatch_Request
  imports Schema Paths
begin

text \<open>
  The request a collator writes for a fan-out (\<open>src/run/dispatch-request.ts\<close>): a container wrote it,
  so the path it is read from, its size, its shape, its sender and each of its targets is checked.
  The lemmas characterise what is accepted: a collator's own request, for the task it sits under,
  to distinct reviewers of its console and nobody else.
\<close>

section \<open>Rosters\<close>

definition DISPATCH_REQUEST_SCHEMA :: string where "DISPATCH_REQUEST_SCHEMA = ''pifleet.dispatchrequest/v1''"
definition DISPATCH_REQUEST_FILE :: string where "DISPATCH_REQUEST_FILE = ''dispatch-request.json''"
definition MAX_DISPATCH_REQUEST_ITEMS :: nat where "MAX_DISPATCH_REQUEST_ITEMS = 8"
definition MAX_DISPATCH_TEXT :: nat where "MAX_DISPATCH_TEXT = 32768"
definition MAX_DISPATCH_ID_CHARS :: nat where "MAX_DISPATCH_ID_CHARS = 64"
definition MAX_DISPATCH_SERVICES :: nat where "MAX_DISPATCH_SERVICES = 16"
definition MAX_DISPATCH_REQUEST_BYTES :: nat where "MAX_DISPATCH_REQUEST_BYTES = 4194304"

datatype services_rule = Services_required | Services_refused

record console_roster =
  cr_collators :: "worker_id list"
  cr_reviewers :: "worker_id list"
  cr_services :: services_rule

definition REVIEW_CONSOLE_ROSTER :: console_roster where
  "REVIEW_CONSOLE_ROSTER =
    \<lparr>cr_collators = [''col-1''], cr_reviewers = [''rev-arch-1'', ''rev-ctx-1'', ''rev-lang-1''],
     cr_services = Services_refused\<rparr>"

definition TRIAGE_CONSOLE_ROSTER :: console_roster where
  "TRIAGE_CONSOLE_ROSTER =
    \<lparr>cr_collators = [''tri-1''],
     cr_reviewers = [''obs-t1'', ''obs-t2'', ''obs-t3'', ''obs-td1'', ''obs-td2'', ''obs-tv1''],
     cr_services = Services_required\<rparr>"

text \<open>\<open>toLowerCase\<close>, of the characters a string of HOL has.\<close>

definition fold_case :: "string \<Rightarrow> string" where
  "fold_case s = map (\<lambda>c. let n = of_char c :: nat in
     if (65 \<le> n \<and> n \<le> 90) \<or> (0xC0 \<le> n \<and> n \<le> 0xDE \<and> n \<noteq> 0xD7) then char_of (n + 32) else c) s"

datatype roster_error = No_collators | No_reviewers | Twice worker_id | Case_twins worker_id worker_id

fun roster_twins :: "worker_id list \<Rightarrow> (string \<times> worker_id) list \<Rightarrow> roster_error option" where
  "roster_twins [] folded = None"
| "roster_twins (i # is) folded =
    (case map_of folded (fold_case i) of
       None \<Rightarrow> roster_twins is ((fold_case i, i) # folded)
     | Some first \<Rightarrow> Some (if first = i then Twice i else Case_twins first i))"

definition assertRoster :: "console_roster \<Rightarrow> roster_error option" where
  "assertRoster r =
    (if cr_collators r = [] then Some No_collators
     else if cr_reviewers r = [] then Some No_reviewers
     else roster_twins (cr_collators r @ cr_reviewers r) [])"

section \<open>The document\<close>

record request_item =
  ri_worker :: worker_id
  ri_title :: string
  ri_brief :: string
  ri_services :: "string list option"

record dispatch_request =
  dq_parent_task_id :: task_id
  dq_requests :: "request_item list"

text \<open>
  A key the item may not name (\<open>model\<close>, \<open>tools\<close>, \<open>deadline_s\<close>, \<open>deadline\<close>, \<open>acceptance\<close>) is refused
  as an unknown one is, with a message of its own.
\<close>

definition service_name :: "json \<Rightarrow> string option" where
  "service_name = string_where (\<lambda>s. length s \<le> MAX_DISPATCH_ID_CHARS \<and> SESSION_ID_RE s)"

definition dispatch_text :: "json \<Rightarrow> string option" where
  "dispatch_text = string_where (\<lambda>s. length s \<le> MAX_DISPATCH_TEXT)"

definition DispatchRequestItemSchema :: "json \<Rightarrow> request_item option" where
  "DispatchRequestItemSchema v = do {
     _ \<leftarrow> (if strict_keys [''worker'', ''title'', ''brief'', ''services''] v then Some () else None);
     w \<leftarrow> field v ''worker'' (string_where workerId);
     t \<leftarrow> field v ''title'' dispatch_text;
     b \<leftarrow> field v ''brief'' dispatch_text;
     s \<leftarrow> optional_field v ''services'' (array_of 0 MAX_DISPATCH_SERVICES service_name);
     Some \<lparr>ri_worker = w, ri_title = t, ri_brief = b, ri_services = s\<rparr> }"

definition DispatchRequestSchema :: "json \<Rightarrow> dispatch_request option" where
  "DispatchRequestSchema v = do {
     _ \<leftarrow> (if strict_keys [''schema'', ''parent_task_id'', ''requests''] v then Some () else None);
     _ \<leftarrow> field v ''schema'' (string_where (\<lambda>s. s = DISPATCH_REQUEST_SCHEMA));
     p \<leftarrow> field v ''parent_task_id'' (string_where (\<lambda>s. length s \<le> MAX_DISPATCH_ID_CHARS \<and> SESSION_ID_RE s));
     rs \<leftarrow> field v ''requests'' (array_of 1 MAX_DISPATCH_REQUEST_ITEMS DispatchRequestItemSchema);
     Some \<lparr>dq_parent_task_id = p, dq_requests = rs\<rparr> }"

section \<open>The checks\<close>

datatype dispatch_refusal =
    Not_a_regular_file | Too_large nat | Unreadable_request string | Unspellable_id string | Sender_not_collator
  | Not_json | Schema_violation | Parent_task_mismatch task_id | Collation_parent | Collator_target nat worker_id
  | Worker_not_in_console nat worker_id | Duplicate_target nat worker_id | Services_missing nat
  | Services_not_permitted nat | Observer_artifact_mismatch nat "string list"

datatype 'q dispatch_read = Request_missing | Request_refused dispatch_refusal | Request_ok 'q

definition checkIds :: "worker_id \<Rightarrow> task_id \<Rightarrow> dispatch_refusal option" where
  "checkIds sender taskId =
    (if \<not> spellable sender then Some (Unspellable_id sender)
     else if \<not> spellable taskId then Some (Unspellable_id taskId) else None)"

definition checkSender :: "worker_id \<Rightarrow> console_roster \<Rightarrow> dispatch_refusal option" where
  "checkSender sender r = (if sender \<in> set (cr_collators r) then None else Some Sender_not_collator)"

definition checkDepth :: "task_id \<Rightarrow> dispatch_refusal option" where
  "checkDepth taskId = (if isCollationTaskId taskId then Some Collation_parent else None)"

fun check_targets :: "console_roster \<Rightarrow> nat \<Rightarrow> worker_id list \<Rightarrow> request_item list \<Rightarrow> dispatch_refusal option" where
  "check_targets r i seen [] = None"
| "check_targets r i seen (e # es) =
    (let target = ri_worker e in
     if target \<in> set (cr_collators r) then Some (Collator_target (i + 1) target)
     else if target \<notin> set (cr_reviewers r) then Some (Worker_not_in_console (i + 1) target)
     else if target \<in> set seen then Some (Duplicate_target (i + 1) target)
     else check_targets r (i + 1) (target # seen) es)"

definition checkRoster :: "dispatch_request \<Rightarrow> console_roster \<Rightarrow> dispatch_refusal option" where
  "checkRoster q r = check_targets r 0 [] (dq_requests q)"

fun check_services :: "services_rule \<Rightarrow> nat \<Rightarrow> request_item list \<Rightarrow> dispatch_refusal option" where
  "check_services rule i [] = None"
| "check_services rule i (e # es) =
    (if rule = Services_required \<and> ri_services e = None then Some (Services_missing (i + 1))
     else if rule = Services_refused \<and> ri_services e \<noteq> None then Some (Services_not_permitted (i + 1))
     else check_services rule (i + 1) es)"

definition checkServices :: "dispatch_request \<Rightarrow> console_roster \<Rightarrow> dispatch_refusal option" where
  "checkServices q r = check_services (cr_services r) 0 (dq_requests q)"

definition OBSERVER_ARTIFACT_JSON_BY_WORKER :: "(worker_id \<times> string) list" where
  "OBSERVER_ARTIFACT_JSON_BY_WORKER =
    [(''obs-t1'', ''observer-ops.json''), (''obs-t2'', ''observer-ops.json''), (''obs-t3'', ''observer-ops.json''),
     (''obs-td1'', ''observer-docker-ops.json''), (''obs-td2'', ''observer-docker-ops.json''),
     (''obs-tv1'', ''observer-vm-ops.json'')]"

text \<open>
  The regular expression \<open>\bobserver-[a-z0-9-]+\.(?:json|md)\b\<close>: no unit of the class is a dot, so
  what is repeated is the longest run. A match is found at the start of a text, given the character
  before it.
\<close>

definition word_char :: "char \<Rightarrow> bool" where
  "word_char c \<longleftrightarrow> digit c \<or> c = CHR ''_'' \<or> (65 \<le> (of_char c :: nat) \<and> (of_char c :: nat) \<le> 90)
     \<or> (97 \<le> (of_char c :: nat) \<and> (of_char c :: nat) \<le> 122)"

definition artifact_char :: "char \<Rightarrow> bool" where
  "artifact_char c \<longleftrightarrow> digit c \<or> c = CHR ''-'' \<or> (97 \<le> (of_char c :: nat) \<and> (of_char c :: nat) \<le> 122)"

definition ends_word :: "string \<Rightarrow> bool" where "ends_word t \<longleftrightarrow> t = [] \<or> \<not> word_char (hd t)"

definition token_at :: "string \<Rightarrow> string option" where
  "token_at t =
    (if \<not> starts_with t ''observer-'' then None
     else let body = takeWhile artifact_char (drop 9 t); after = dropWhile artifact_char (drop 9 t) in
       if body = [] then None
       else if starts_with after ''.json'' \<and> ends_word (drop 5 after) then Some (''observer-'' @ body @ ''.json'')
       else if starts_with after ''.md'' \<and> ends_word (drop 3 after) then Some (''observer-'' @ body @ ''.md'')
       else None)"

lemma token_at_length: "token_at t = Some m \<Longrightarrow> 0 < length m \<and> length m \<le> length t"
proof -
  assume "token_at t = Some m"
  then obtain e where e: "starts_with t ''observer-''" "starts_with (dropWhile artifact_char (drop 9 t)) e"
    and m: "m = ''observer-'' @ takeWhile artifact_char (drop 9 t) @ e"
    by (auto simp: token_at_def Let_def split: if_splits)
  obtain u where t: "t = ''observer-'' @ u" using e(1) by (auto simp: starts_with_append)
  obtain v where "dropWhile artifact_char u = e @ v" using e(2) t by (auto simp: starts_with_append)
  then have "length u = length (takeWhile artifact_char u) + length (e @ v)"
    by (metis length_append takeWhile_dropWhile_id)
  with m t show ?thesis by simp
qed

text \<open>\<open>matchAll\<close>: the search goes on after a match, and one character on where there is none.\<close>

function tokens :: "bool \<Rightarrow> string \<Rightarrow> string list" where
  "tokens inword [] = []"
| "tokens inword (c # t) =
    (case (if inword then None else token_at (c # t)) of
       Some m \<Rightarrow> m # tokens True (drop (length m) (c # t))
     | None \<Rightarrow> tokens (word_char c) t)"
  by pat_completeness auto
termination
proof (relation "measure (\<lambda>(b, t). length t)", goal_cases)
  case (2 inword c t)
  then show ?case by simp
next
  case (3 inword c t m)
  then show ?case using token_at_length [of "c # t" m] by (auto split: if_splits)
qed auto

definition md_twin :: "string \<Rightarrow> string" where
  "md_twin json = take (length json - 5) json @ ''.md''"

definition foreign_artifacts :: "worker_id \<Rightarrow> string \<Rightarrow> string list" where
  "foreign_artifacts worker brief =
    (case map_of OBSERVER_ARTIFACT_JSON_BY_WORKER worker of None \<Rightarrow> []
     | Some correct \<Rightarrow> [n \<leftarrow> remdups (tokens False brief). n \<noteq> correct \<and> n \<noteq> md_twin correct])"

fun check_artifacts :: "nat \<Rightarrow> request_item list \<Rightarrow> dispatch_refusal option" where
  "check_artifacts i [] = None"
| "check_artifacts i (e # es) =
    (let wrong = foreign_artifacts (ri_worker e) (ri_brief e) in
     if wrong = [] then check_artifacts (i + 1) es else Some (Observer_artifact_mismatch (i + 1) wrong))"

definition checkObserverArtifacts :: "dispatch_request \<Rightarrow> console_roster \<Rightarrow> dispatch_refusal option" where
  "checkObserverArtifacts q r =
    (if cr_services r \<noteq> Services_required then None else check_artifacts 0 (dq_requests q))"

text \<open>The checks run in order, and the first refusal is the answer.\<close>

fun first_refusal :: "dispatch_refusal option list \<Rightarrow> dispatch_refusal option" where
  "first_refusal [] = None"
| "first_refusal (c # cs) = (case c of None \<Rightarrow> first_refusal cs | Some e \<Rightarrow> Some e)"

definition request_context :: "worker_id \<Rightarrow> task_id \<Rightarrow> console_roster \<Rightarrow> dispatch_refusal option" where
  "request_context sender taskId r = first_refusal [checkIds sender taskId, checkSender sender r, checkDepth taskId]"

definition request_checks :: "dispatch_request \<Rightarrow> task_id \<Rightarrow> console_roster \<Rightarrow> dispatch_refusal option" where
  "request_checks q taskId r = first_refusal
    [if dq_parent_task_id q \<noteq> taskId then Some (Parent_task_mismatch (dq_parent_task_id q)) else None,
     checkRoster q r, checkServices q r, checkObserverArtifacts q r]"

definition parseDispatchRequest ::
  "json option \<Rightarrow> worker_id \<Rightarrow> task_id \<Rightarrow> console_roster \<Rightarrow> roster_error + dispatch_request dispatch_read" where
  "parseDispatchRequest body sender taskId r =
    (case assertRoster r of Some e \<Rightarrow> Inl e
     | None \<Rightarrow> Inr
         (case request_context sender taskId r of Some e \<Rightarrow> Request_refused e
          | None \<Rightarrow>
              case body of None \<Rightarrow> Request_refused Not_json
              | Some v \<Rightarrow>
                  case DispatchRequestSchema v of None \<Rightarrow> Request_refused Schema_violation
                  | Some q \<Rightarrow>
                      case request_checks q taskId r of Some e \<Rightarrow> Request_refused e | None \<Rightarrow> Request_ok q))"

section \<open>Reading the file\<close>

definition dispatchRequestPath :: "host_path \<Rightarrow> worker_id \<Rightarrow> task_id \<Rightarrow> string + host_path" where
  "dispatchRequestPath runRoot sender taskId =
    (if \<not> spellable sender then Inl sender
     else if \<not> spellable taskId then Inl taskId
     else Inr (join_path (join_path (join_path (join_path runRoot ''outbox'') sender) taskId) DISPATCH_REQUEST_FILE))"

text \<open>
  What opening the file gives: an error code, or an open file with what \<open>fstat\<close> says of it (its
  size, where it is a regular file) and its reads, each of a position and a length.
\<close>

record 'b open_request =
  or_stat :: "string + nat option"
  or_read :: "nat \<Rightarrow> nat \<Rightarrow> string + 'b list"

text \<open>The read fills a buffer of one byte more than the cap; a read of no bytes is the end.\<close>

function fill_buffer :: "(nat \<Rightarrow> nat \<Rightarrow> string + 'b list) \<Rightarrow> nat \<Rightarrow> 'b list \<Rightarrow> string + 'b list" where
  "fill_buffer rd cap got =
    (if length got \<ge> cap then Inr got
     else case rd (length got) (cap - length got) of Inl e \<Rightarrow> Inl e
     | Inr bs \<Rightarrow>
         let new_bytes = take (cap - length got) bs in
         if new_bytes = [] then Inr got else fill_buffer rd cap (got @ new_bytes))"
  by auto
termination
proof (relation "measure (\<lambda>(rd, cap, got). cap - length got)", goal_cases)
  case (2 rd cap got bs new_bytes)
  then have "0 < length new_bytes" by simp
  with 2 show ?case by (simp add: diff_less_mono2)
qed simp

declare fill_buffer.simps [simp del]

definition read_open_request ::
  "('b list \<Rightarrow> json option) \<Rightarrow> 'b open_request \<Rightarrow> worker_id \<Rightarrow> task_id \<Rightarrow> console_roster
    \<Rightarrow> roster_error + dispatch_request dispatch_read" where
  "read_open_request parse h sender taskId r =
    (case or_stat h of
       Inl e \<Rightarrow> Inr (Request_refused (Unreadable_request e))
     | Inr None \<Rightarrow> Inr (Request_refused Not_a_regular_file)
     | Inr (Some n) \<Rightarrow>
         if n > MAX_DISPATCH_REQUEST_BYTES then Inr (Request_refused (Too_large n))
         else case checkSender sender r of Some e \<Rightarrow> Inr (Request_refused e)
         | None \<Rightarrow>
             case fill_buffer (or_read h) (MAX_DISPATCH_REQUEST_BYTES + 1) [] of
               Inl e \<Rightarrow> Inr (Request_refused (Unreadable_request e))
             | Inr bs \<Rightarrow>
                 if length bs > MAX_DISPATCH_REQUEST_BYTES then Inr (Request_refused (Too_large (length bs)))
                 else parseDispatchRequest (parse bs) sender taskId r)"

definition readDispatchRequest ::
  "('b list \<Rightarrow> json option) \<Rightarrow> (host_path \<Rightarrow> string + 'b open_request) \<Rightarrow> host_path \<Rightarrow> worker_id \<Rightarrow> task_id
    \<Rightarrow> console_roster \<Rightarrow> roster_error + dispatch_request dispatch_read" where
  "readDispatchRequest parse op runRoot sender taskId r =
    (case assertRoster r of Some e \<Rightarrow> Inl e
     | None \<Rightarrow>
         case checkIds sender taskId of Some e \<Rightarrow> Inr (Request_refused e)
         | None \<Rightarrow>
             case dispatchRequestPath runRoot sender taskId of Inl e \<Rightarrow> Inr (Request_refused (Unspellable_id e))
             | Inr path \<Rightarrow>
                 case op path of
                   Inl code \<Rightarrow> Inr
                     (if code = ''ENOENT'' then Request_missing
                      else if code = ''ELOOP'' \<or> code = ''EMLINK'' \<or> code = ''ENOTDIR'' then Request_refused Not_a_regular_file
                      else Request_refused (Unreadable_request code))
                 | Inr h \<Rightarrow> read_open_request parse h sender taskId r)"


section \<open>What is accepted\<close>

definition lawful_request :: "worker_id \<Rightarrow> task_id \<Rightarrow> console_roster \<Rightarrow> dispatch_request \<Rightarrow> bool" where
  "lawful_request sender taskId r q \<longleftrightarrow>
    spellable sender \<and> spellable taskId \<and> sender \<in> set (cr_collators r) \<and> \<not> isCollationTaskId taskId
    \<and> dq_parent_task_id q = taskId
    \<and> distinct (map ri_worker (dq_requests q))
    \<and> set (map ri_worker (dq_requests q)) \<subseteq> set (cr_reviewers r) - set (cr_collators r)
    \<and> list_all (\<lambda>e. ri_services e \<noteq> None \<longleftrightarrow> cr_services r = Services_required) (dq_requests q)
    \<and> (cr_services r = Services_required \<longrightarrow> list_all (\<lambda>e. foreign_artifacts (ri_worker e) (ri_brief e) = []) (dq_requests q))"

lemma check_targets_None:
  "check_targets r i seen es = None \<longleftrightarrow> distinct (map ri_worker es) \<and> set (map ri_worker es) \<inter> set seen = {}
     \<and> set (map ri_worker es) \<subseteq> set (cr_reviewers r) - set (cr_collators r)"
  by (induction r i seen es rule: check_targets.induct) (auto simp: Let_def)

lemma check_services_None:
  "check_services rule i es = None \<longleftrightarrow> list_all (\<lambda>e. ri_services e \<noteq> None \<longleftrightarrow> rule = Services_required) es"
  by (induction rule i es rule: check_services.induct) (auto, (metis services_rule.exhaust)+)

lemma check_artifacts_None:
  "check_artifacts i es = None \<longleftrightarrow> list_all (\<lambda>e. foreign_artifacts (ri_worker e) (ri_brief e) = []) es"
  by (induction i es rule: check_artifacts.induct) (auto simp: Let_def)

lemma first_refusal_None: "first_refusal cs = None \<longleftrightarrow> list_all (\<lambda>c. c = None) cs"
  by (induction cs) (auto split: option.splits)

lemma checks_None:
  "request_context sender taskId r = None \<and> request_checks q taskId r = None \<longleftrightarrow> lawful_request sender taskId r q"
  by (auto simp: request_context_def request_checks_def first_refusal_None checkIds_def checkSender_def checkDepth_def
      checkRoster_def checkServices_def checkObserverArtifacts_def check_targets_None check_services_None
      check_artifacts_None lawful_request_def simp del: first_refusal.simps split: if_splits)

lemma parse_ok_iff:
  "parseDispatchRequest body sender taskId r = Inr (Request_ok q) \<longleftrightarrow>
    assertRoster r = None \<and> (\<exists>v. body = Some v \<and> DispatchRequestSchema v = Some q) \<and> lawful_request sender taskId r q"
  using checks_None [of sender taskId r q]
  by (auto simp: parseDispatchRequest_def split: option.splits)

text \<open>
  C9: a request is accepted exactly when the roster is usable, the document is one of the schema, and
  it is lawful: a collator of the console asks, under its own task, which is no collation, for
  distinct reviewers of the console and for no collator, each with a list of services exactly on
  the console that needs one, and there each brief names no other observer's artifact.
\<close>

theorem request_accepted_iff:
  "parseDispatchRequest body sender taskId r = Inr (Request_ok q) \<longleftrightarrow>
    assertRoster r = None \<and> (\<exists>v. body = Some v \<and> DispatchRequestSchema v = Some q) \<and> lawful_request sender taskId r q"
  by (rule parse_ok_iff)

lemma fill_buffer_length: "length got \<le> cap \<Longrightarrow> fill_buffer rd cap got = Inr bs \<Longrightarrow> length bs \<le> cap"
proof (induction rd cap got rule: fill_buffer.induct)
  case (1 rd cap got)
  from "1.prems"(2) have "bs = got \<or> (\<exists>b. \<not> cap \<le> length got \<and> rd (length got) (cap - length got) = Inr b
      \<and> take (cap - length got) b \<noteq> [] \<and> fill_buffer rd cap (got @ take (cap - length got) b) = Inr bs)"
    unfolding fill_buffer.simps [of rd cap got] by (auto simp: Let_def split: if_splits sum.splits)
  then show ?case using "1.IH" "1.prems"(1) by fastforce
qed

lemma spellable_segment:
  assumes "spellable s" shows "plain_segment s"
proof -
  have no: "\<not> alphanumeric CHR ''/''" "\<not> alphanumeric CHR ''.''" by code_simp+
  have a: "s \<noteq> []" "alphanumeric (hd s)" "list_all (\<lambda>c. alphanumeric c \<or> c = CHR ''.'' \<or> c = CHR ''_'' \<or> c = CHR ''-'') s"
    using assms by (simp_all add: spellable_def SESSION_ID_RE_def)
  have "CHR ''/'' \<notin> set s" using a(3) no(1) by (auto simp: list_all_iff)
  moreover have "hd s \<noteq> CHR ''.''" using a(2) no(2) by metis
  ultimately show ?thesis using a(1) by (auto simp: plain_segment_def)
qed

lemma join_segment: "plain_segment s \<Longrightarrow> join_path dir s = dir @ [s]"
  using joined_plain_relative(2) [of "[s]" dir] by simp

lemma request_path:
  assumes "dispatchRequestPath runRoot sender taskId = Inr path"
  shows "path = runRoot @ [''outbox'', sender, taskId, DISPATCH_REQUEST_FILE]"
proof -
  have "plain_segment ''outbox''" "plain_segment DISPATCH_REQUEST_FILE"
    by (simp_all add: plain_segment_def DISPATCH_REQUEST_FILE_def)
  with assms show ?thesis
    by (auto simp: dispatchRequestPath_def join_segment spellable_segment split: if_splits)
qed

text \<open>Two opened files that cannot be told apart by their status and their first bytes.\<close>

definition same_start :: "'b open_request \<Rightarrow> 'b open_request \<Rightarrow> bool" where
  "same_start h h' \<longleftrightarrow> or_stat h = or_stat h'
    \<and> (\<forall>p n. p + n \<le> MAX_DISPATCH_REQUEST_BYTES + 1 \<longrightarrow> or_read h p n = or_read h' p n)"

lemma fill_buffer_cong:
  "(\<And>p n. p + n \<le> cap \<Longrightarrow> rd p n = rd' p n) \<Longrightarrow> fill_buffer rd cap got = fill_buffer rd' cap got"
proof (induction rd cap got rule: fill_buffer.induct)
  case (1 rd cap got)
  show ?case
  proof (cases "cap \<le> length got")
    case True
    then show ?thesis by (simp add: fill_buffer.simps)
  next
    case False
    then have eq: "rd (length got) (cap - length got) = rd' (length got) (cap - length got)" by (intro "1.prems") simp
    have IH: "fill_buffer rd cap (got @ take (cap - length got) bs) = fill_buffer rd' cap (got @ take (cap - length got) bs)"
      if "rd (length got) (cap - length got) = Inr bs" "take (cap - length got) bs \<noteq> []" for bs
      by (rule "1.IH" [OF False that(1) refl that(2) "1.prems"])
    show ?thesis
      unfolding fill_buffer.simps [of rd cap got] fill_buffer.simps [of rd' cap got] eq [symmetric]
      using IH by (auto simp: Let_def split: sum.splits)
  qed
qed

lemma read_open_cong:
  assumes "same_start h h'"
  shows "read_open_request parse h sender taskId r = read_open_request parse h' sender taskId r"
proof -
  have "fill_buffer (or_read h) (MAX_DISPATCH_REQUEST_BYTES + 1) [] = fill_buffer (or_read h') (MAX_DISPATCH_REQUEST_BYTES + 1) []"
    using assms by (intro fill_buffer_cong) (simp add: same_start_def)
  moreover have "or_stat h = or_stat h'" using assms by (simp add: same_start_def)
  ultimately show ?thesis by (simp only: read_open_request_def)
qed

definition request_file :: "host_path \<Rightarrow> worker_id \<Rightarrow> task_id \<Rightarrow> host_path" where
  "request_file runRoot sender taskId = runRoot @ [''outbox'', sender, taskId, DISPATCH_REQUEST_FILE]"

text \<open>
  C14: what reading a request answers, accepted or refused, depends on one file only, that of the
  sender's outbox and task, and of it on the status and the bytes up to one past the cap: no other
  path is opened and nothing further is read. A request that is accepted is no longer than the cap,
  is what these bytes parse to, and is lawful.
\<close>

theorem request_read_confined:
  assumes "op' (request_file runRoot sender taskId) = op (request_file runRoot sender taskId)
    \<or> (\<exists>h h'. op (request_file runRoot sender taskId) = Inr h \<and> op' (request_file runRoot sender taskId) = Inr h' \<and> same_start h h')"
  shows "readDispatchRequest parse op' runRoot sender taskId r = readDispatchRequest parse op runRoot sender taskId r
    \<and> (\<forall>q. readDispatchRequest parse op runRoot sender taskId r = Inr (Request_ok q) \<longrightarrow>
        (\<exists>h bs v. op (request_file runRoot sender taskId) = Inr h
          \<and> fill_buffer (or_read h) (MAX_DISPATCH_REQUEST_BYTES + 1) [] = Inr bs
          \<and> length bs \<le> MAX_DISPATCH_REQUEST_BYTES \<and> parse bs = Some v \<and> DispatchRequestSchema v = Some q
          \<and> lawful_request sender taskId r q))"
proof (intro conjI allI impI)
  have path: "dispatchRequestPath runRoot sender taskId = Inr p \<Longrightarrow> p = request_file runRoot sender taskId" for p
    by (simp add: request_path request_file_def)
  show "readDispatchRequest parse op' runRoot sender taskId r = readDispatchRequest parse op runRoot sender taskId r"
  proof (cases "dispatchRequestPath runRoot sender taskId")
    case (Inr p)
    have eq: "(case op' p of Inl code \<Rightarrow> f code | Inr h \<Rightarrow> read_open_request parse h sender taskId r) =
        (case op p of Inl code \<Rightarrow> f code | Inr h \<Rightarrow> read_open_request parse h sender taskId r)" for f
      using assms unfolding path [OF Inr] by (elim disjE exE conjE) (simp_all add: read_open_cong [symmetric])
    show ?thesis by (simp only: readDispatchRequest_def Inr sum.case eq)
  qed (simp only: readDispatchRequest_def sum.case)
  fix q assume ok: "readDispatchRequest parse op runRoot sender taskId r = Inr (Request_ok q)"
  obtain p h where p: "dispatchRequestPath runRoot sender taskId = Inr p" "op p = Inr h"
    and h: "read_open_request parse h sender taskId r = Inr (Request_ok q)"
    using ok by (auto simp: readDispatchRequest_def split: option.splits sum.splits if_splits)
  from h show "\<exists>h bs v. op (request_file runRoot sender taskId) = Inr h
          \<and> fill_buffer (or_read h) (MAX_DISPATCH_REQUEST_BYTES + 1) [] = Inr bs
          \<and> length bs \<le> MAX_DISPATCH_REQUEST_BYTES \<and> parse bs = Some v \<and> DispatchRequestSchema v = Some q
          \<and> lawful_request sender taskId r q"
    using path [OF p(1)] p(2)
    by (auto simp: read_open_request_def parse_ok_iff not_less split: sum.splits option.splits if_splits)
qed

definition sample_request_json :: json where
  "sample_request_json =
    JObj [(''schema'', JStr DISPATCH_REQUEST_SCHEMA), (''parent_task_id'', JStr ''T1''),
      (''requests'', JArr [JObj [(''worker'', JStr ''rev-arch-1''), (''title'', JStr ''t''), (''brief'', JStr ''b'')]])]"

definition sample_dispatch_request :: dispatch_request where
  "sample_dispatch_request =
    \<lparr>dq_parent_task_id = ''T1'',
     dq_requests = [\<lparr>ri_worker = ''rev-arch-1'', ri_title = ''t'', ri_brief = ''b'', ri_services = None\<rparr>]\<rparr>"

lemma sample_request_parses: "DispatchRequestSchema sample_request_json = Some sample_dispatch_request"
proof -
  have "workerId ''rev-arch-1''" "SESSION_ID_RE ''T1''" by code_simp+
  then show ?thesis
    by (simp add: DispatchRequestSchema_def DispatchRequestItemSchema_def sample_request_json_def field_def
        optional_field_def MAX_DISPATCH_REQUEST_ITEMS_def dispatch_text_def MAX_DISPATCH_TEXT_def
        MAX_DISPATCH_ID_CHARS_def sample_dispatch_request_def)
qed

lemma sample_request_checks:
  "assertRoster REVIEW_CONSOLE_ROSTER = None" "lawful_request ''col-1'' ''T1'' REVIEW_CONSOLE_ROSTER sample_dispatch_request"
proof -
  show "assertRoster REVIEW_CONSOLE_ROSTER = None" by code_simp
  have "spellable ''col-1''" "spellable ''T1''" "\<not> isCollationTaskId ''T1''" by code_simp+
  then show "lawful_request ''col-1'' ''T1'' REVIEW_CONSOLE_ROSTER sample_dispatch_request"
    by (simp add: lawful_request_def sample_dispatch_request_def REVIEW_CONSOLE_ROSTER_def)
qed

definition sample_opened :: "unit open_request" where
  "sample_opened = \<lparr>or_stat = Inr (Some 2), or_read = (\<lambda>p n. Inr (if p = 0 then [(), ()] else []))\<rparr>"

lemma sample_fill: "fill_buffer (or_read sample_opened) (MAX_DISPATCH_REQUEST_BYTES + 1) [] = Inr [(), ()]"
  by (simp add: sample_opened_def MAX_DISPATCH_REQUEST_BYTES_def fill_buffer.simps)

lemma sample_request_read:
  "readDispatchRequest (\<lambda>b. Some sample_request_json) (\<lambda>p. Inr sample_opened) [] ''col-1'' ''T1'' REVIEW_CONSOLE_ROSTER
      = Inr (Request_ok sample_dispatch_request)"
proof -
  have sp: "spellable ''col-1''" "spellable ''T1''" by code_simp+
  then have "checkIds ''col-1'' ''T1'' = None" "checkSender ''col-1'' REVIEW_CONSOLE_ROSTER = None"
    "\<exists>p. dispatchRequestPath [] ''col-1'' ''T1'' = Inr p"
    by (simp_all add: checkIds_def checkSender_def REVIEW_CONSOLE_ROSTER_def dispatchRequestPath_def)
  moreover have "or_stat sample_opened = Inr (Some 2)" by (simp add: sample_opened_def)
  ultimately show ?thesis
    using sample_request_checks sample_request_parses sample_fill
    by (auto simp: readDispatchRequest_def read_open_request_def parse_ok_iff MAX_DISPATCH_REQUEST_BYTES_def)
qed

theorem request_read_confined_witness:
  "readDispatchRequest (\<lambda>b. Some sample_request_json)
      (\<lambda>p. if p = request_file [] ''col-1'' ''T1'' then Inr sample_opened else Inl ''EACCES'') [] ''col-1'' ''T1'' REVIEW_CONSOLE_ROSTER
      = Inr (Request_ok sample_dispatch_request)
   \<and> lawful_request ''col-1'' ''T1'' REVIEW_CONSOLE_ROSTER sample_dispatch_request"
proof -
  let ?op = "\<lambda>p :: host_path. Inr sample_opened"
    and ?op' = "\<lambda>p. if p = request_file [] ''col-1'' ''T1'' then Inr sample_opened else Inl ''EACCES''"
  have "?op' (request_file [] ''col-1'' ''T1'') = ?op (request_file [] ''col-1'' ''T1'')" by simp
  note r = request_read_confined [where op = ?op and op' = ?op', OF disjI1, OF this,
      of "\<lambda>b. Some sample_request_json" REVIEW_CONSOLE_ROSTER]
  show ?thesis using r sample_request_read by auto
qed

end
