(* ===== verification/Relay.thy ===== *)
theory Relay
  imports Dispatch_Request Verdicts "HOL-Library.Multiset"
begin

text \<open>
  The fan-out of a review or a sweep (\<open>src/run/relay.ts\<close>): the seats of a console, the budget for
  what is inlined into the replies, and \<open>relayFanOut\<close>, which dispatches one child to every seat the
  request names, waits for them, harvests them, publishes the reports that came back and asks the
  collator to collate them. The transport is a record of operations on a world the theory knows
  nothing about; the ones the code starts together run here in the order it starts them in. The
  lemmas show which operations a fan-out makes and in which order, that every seat is accounted
  for, and how the budget is shared.
\<close>

section \<open>The seats\<close>

datatype seat_error =
    No_aspects | Illegal_worker string | Illegal_aspect string | Collation_aspect worker_id
  | Two_aspects worker_id | Shared_aspect string

fun check_seats :: "aspect_seat list \<Rightarrow> string list \<Rightarrow> string list \<Rightarrow> seat_error option" where
  "check_seats [] workers names = None"
| "check_seats (s # ss) workers names =
    (if \<not> spellable (seat_worker s) then Some (Illegal_worker (seat_worker s))
     else if \<not> spellable (seat_aspect s) then Some (Illegal_aspect (seat_aspect s))
     else if seat_aspect s = COLLATION_ASPECT then Some (Collation_aspect (seat_worker s))
     else if seat_worker s \<in> set workers then Some (Two_aspects (seat_worker s))
     else if seat_aspect s \<in> set names then Some (Shared_aspect (seat_aspect s))
     else check_seats ss (seat_worker s # workers) (seat_aspect s # names))"

definition resolveAspects :: "aspect_seat list option \<Rightarrow> seat_error + aspect_seat list" where
  "resolveAspects aspects =
    (let seats = (case aspects of None \<Rightarrow> REVIEW_CONSOLE_ASPECTS | Some ss \<Rightarrow> ss) in
     if seats = [] then Inl No_aspects
     else case check_seats seats [] [] of Some e \<Rightarrow> Inl e | None \<Rightarrow> Inr seats)"

section \<open>The budget of inlined artifacts\<close>

definition MAX_REPLY_ARTIFACT_BYTES :: int where "MAX_REPLY_ARTIFACT_BYTES = 65536"
definition MAX_REPLY_INLINE_BYTES :: int where "MAX_REPLY_INLINE_BYTES = 262144"

text \<open>
  The sizes are served from the smallest on, each with at most its share of what remains. A want
  is paired with its index, and \<open>sort_key\<close> keeps the order of the indices among equal wants.
\<close>

fun share_out :: "(int \<times> nat) list \<Rightarrow> int \<Rightarrow> int list \<Rightarrow> int list" where
  "share_out [] remaining granted = granted"
| "share_out ((w, i) # es) remaining granted =
    (let share = remaining div int (length es + 1); give = min w share in
     share_out es (remaining - give) (granted[i := give]))"

definition wants :: "int list \<Rightarrow> int \<Rightarrow> int list" where
  "wants sizes perArtifact = map (\<lambda>n. max 0 (min n perArtifact)) sizes"

definition planInlineBudget :: "int list \<Rightarrow> int \<Rightarrow> int \<Rightarrow> int list" where
  "planInlineBudget sizes perArtifact budget =
    (let want = wants sizes perArtifact in
     share_out (sort_key fst (zip want [0..<length want])) budget (replicate (length sizes) 0))"

section \<open>What a child reports\<close>

record relay_outbox_entry =
  oe_name :: string
  oe_kind :: string
  oe_bytes :: "int option"

datatype relay_outbox_listing = Unlistable | Empty_outbox | Unrecognised "relay_outbox_entry list" nat

record relay_unreadable =
  ru_path :: string
  ru_bytes :: int
  ru_code :: string
  ru_detail :: string

datatype relay_envelope_state =
    Envelope_present | Envelope_absent | Envelope_unreadable relay_unreadable
  | Envelope_refused "string option" | Envelope_unreadable_unspecified

datatype envelope_reading = Reading_ok | Reading_missing | Reading_unreadable | Reading_refused

definition relayEnvelopeState ::
  "relay_unreadable option \<Rightarrow> envelope_reading option \<Rightarrow> string option \<Rightarrow> relay_envelope_state option" where
  "relayEnvelopeState unreadableEnvelope envelopeRead envelopeRefusal =
    (case unreadableEnvelope of Some u \<Rightarrow> Some (Envelope_unreadable u)
     | None \<Rightarrow>
         case envelopeRead of
           Some Reading_missing \<Rightarrow> Some Envelope_absent
         | Some Reading_ok \<Rightarrow> Some Envelope_present
         | Some Reading_refused \<Rightarrow> Some (Envelope_refused envelopeRefusal)
         | Some Reading_unreadable \<Rightarrow> Some Envelope_unreadable_unspecified
         | None \<Rightarrow> None)"

record inlined_artifact =
  ia_path :: string
  ia_bytes :: int
  ia_included_bytes :: int
  ia_truncated :: bool
  ia_unreadable :: "string option"

text \<open>\<open>'p\<close> is what the code calls \<open>unknown\<close>: the reply, which it passes on and does not read.\<close>

record 'p relay_harvest =
  rh_verdict :: verdict
  rh_reply :: 'p
  rh_inlined :: "inlined_artifact list"
  rh_envelope :: "relay_envelope_state option"
  rh_outbox :: "relay_outbox_listing option"

text \<open>The notes on a lens that did not report: one constructor for each sentence.\<close>

datatype lens_note =
    No_note | Never_named | Never_landed string
  | Harvest_failure "string option" "relay_outbox_listing option"
  | Missing_lens verdict "relay_envelope_state option" "relay_outbox_listing option"

record relay_child =
  rc_worker :: worker_id
  rc_aspect :: string
  rc_taskId :: "task_id option"
  rc_verdict :: verdict
  rc_succeeded :: bool
  rc_issued :: bool
  rc_harvestFailed :: bool
  rc_inlined :: "inlined_artifact list"
  rc_envelope :: "relay_envelope_state option"
  rc_outbox :: "relay_outbox_listing option"
  rc_note :: lens_note

section \<open>The transport\<close>

record relay_task_ref =
  tr_worker :: worker_id
  tr_taskId :: task_id

record relay_coverage =
  cv_reported :: nat
  cv_dispatched :: nat

text \<open>What the brief of a collation says, a constructor for each of its sentences and lists.\<close>

datatype brief_line =
    Collate_from task_id | Lens_counts nat nat nat
  | Report_at string worker_id task_id
  | Missing_aspect string worker_id lens_note | Collating_without "string list"
  | Unreadable_lens string worker_id | Unharvested_lens string worker_id | Refused_lens string worker_id
  | Truncated_artifact string inlined_artifact | Unreadable_artifact string inlined_artifact
  | Partial_documents | Coverage_line nat nat | Status_advice

datatype dispatch_brief = Asked_brief string | Collation_brief "brief_line list"

record relay_dispatch = relay_task_ref +
  rd_title :: string
  rd_brief :: dispatch_brief

record 'p published_reply =
  pr_taskId :: task_id
  pr_worker :: worker_id
  pr_aspect :: string
  pr_reply :: 'p

text \<open>An operation of the transport may throw, with a message; a harvest may throw with what it saw of the outbox.\<close>

record ('r, 'p, 'w) relay_transport =
  rt_dispatch :: "'r \<Rightarrow> relay_dispatch \<Rightarrow> 'w \<Rightarrow> string option \<times> 'w"
  rt_awaitSettled :: "'r \<Rightarrow> relay_task_ref \<Rightarrow> 'w \<Rightarrow> string option \<times> 'w"
  rt_harvest :: "'r \<Rightarrow> relay_task_ref \<Rightarrow> 'w \<Rightarrow> (string \<times> relay_outbox_listing option + 'p relay_harvest) \<times> 'w"
  rt_publishReplies :: "'r \<Rightarrow> task_id \<Rightarrow> 'p published_reply list \<Rightarrow> 'w \<Rightarrow> string option \<times> 'w"

record ('r, 'p, 'w) relay_input =
  rl_request :: dispatch_request
  rl_sender :: worker_id
  rl_runs :: "worker_id \<Rightarrow> 'r option"
  rl_transport :: "('r, 'p, 'w) relay_transport"
  rl_aspects :: "aspect_seat list option"

section \<open>The fan-out\<close>

record planned =
  pl_seat :: aspect_seat
  pl_taskId :: task_id
  pl_title :: string
  pl_brief :: string

fun plan_children :: "task_id \<Rightarrow> request_item list \<Rightarrow> aspect_seat list \<Rightarrow> aspect_error + planned list" where
  "plan_children parent reqs [] = Inr []"
| "plan_children parent reqs (s # ss) =
    (case find (\<lambda>r. ri_worker r = seat_worker s) reqs of
       None \<Rightarrow> plan_children parent reqs ss
     | Some r \<Rightarrow>
         case childTaskId parent (seat_aspect s) of Inl e \<Rightarrow> Inl e
         | Inr i \<Rightarrow>
             map_sum id ((#) \<lparr>pl_seat = s, pl_taskId = i, pl_title = ri_title r, pl_brief = ri_brief r\<rparr>)
               (plan_children parent reqs ss))"

fun route :: "(worker_id \<Rightarrow> 'r option) \<Rightarrow> planned list \<Rightarrow> aspect_seat + (planned \<times> 'r) list" where
  "route runs [] = Inr []"
| "route runs (p # ps) =
    (case runs (seat_worker (pl_seat p)) of None \<Rightarrow> Inl (pl_seat p)
     | Some r \<Rightarrow> map_sum id ((#) (p, r)) (route runs ps))"

text \<open>\<open>Promise.allSettled\<close>: what each call gave.\<close>

fun all_settled :: "('a \<Rightarrow> 'w \<Rightarrow> 'b \<times> 'w) \<Rightarrow> 'a list \<Rightarrow> 'w \<Rightarrow> 'b list \<times> 'w" where
  "all_settled f [] w = ([], w)"
| "all_settled f (x # xs) w = (let (y, w1) = f x w; (ys, w2) = all_settled f xs w1 in (y # ys, w2))"

definition ref_of :: "planned \<Rightarrow> relay_task_ref" where
  "ref_of p = \<lparr>tr_worker = seat_worker (pl_seat p), tr_taskId = pl_taskId p\<rparr>"

definition dispatch_of :: "planned \<Rightarrow> relay_dispatch" where
  "dispatch_of p = \<lparr>tr_worker = seat_worker (pl_seat p), tr_taskId = pl_taskId p, rd_title = pl_title p,
     rd_brief = Asked_brief (pl_brief p)\<rparr>"

definition failed_dispatches :: "(planned \<times> 'r) list \<Rightarrow> string option list \<Rightarrow> (string \<times> string) list" where
  "failed_dispatches routed issued =
    concat (map (\<lambda>((p, r), e). case e of None \<Rightarrow> [] | Some m \<Rightarrow> [(seat_aspect (pl_seat p), m)]) (zip routed issued))"

definition landed_of :: "(planned \<times> 'r) list \<Rightarrow> string option list \<Rightarrow> (planned \<times> 'r) list" where
  "landed_of routed issued = map fst [(pr, e) \<leftarrow> zip routed issued. e = None]"

type_synonym 'p harvest_answer = "string \<times> relay_outbox_listing option + 'p relay_harvest"

definition harvest_of :: "(planned \<times> 'r) list \<Rightarrow> 'p harvest_answer list \<Rightarrow> string \<Rightarrow> 'p harvest_answer option" where
  "harvest_of landed harvests aspect =
    map_of (zip (map (\<lambda>(p, r). seat_aspect (pl_seat p)) landed) harvests) aspect"

definition blank_child :: "aspect_seat \<Rightarrow> task_id option \<Rightarrow> bool \<Rightarrow> bool \<Rightarrow> relay_outbox_listing option \<Rightarrow> lens_note \<Rightarrow> relay_child" where
  "blank_child seat i issued harvestFailed outbox note =
    \<lparr>rc_worker = seat_worker seat, rc_aspect = seat_aspect seat, rc_taskId = i, rc_verdict = Unknown,
     rc_succeeded = False, rc_issued = issued, rc_harvestFailed = harvestFailed, rc_inlined = [],
     rc_envelope = None, rc_outbox = outbox, rc_note = note\<rparr>"

definition child_of ::
  "planned list \<Rightarrow> (string \<times> string) list \<Rightarrow> (string \<Rightarrow> 'p harvest_answer option) \<Rightarrow> aspect_seat \<Rightarrow> relay_child" where
  "child_of plans failedDispatch harvested seat =
    (case find (\<lambda>p. seat_aspect (pl_seat p) = seat_aspect seat) plans of
       None \<Rightarrow> blank_child seat None False False None Never_named
     | Some plan \<Rightarrow>
         case map_of failedDispatch (seat_aspect seat) of
           Some m \<Rightarrow> blank_child seat (Some (pl_taskId plan)) False False None (Never_landed m)
         | None \<Rightarrow>
             case harvested (seat_aspect seat) of
               None \<Rightarrow> blank_child seat (Some (pl_taskId plan)) True True None (Harvest_failure None None)
             | Some (Inl (m, outbox)) \<Rightarrow>
                 blank_child seat (Some (pl_taskId plan)) True True outbox (Harvest_failure (Some m) outbox)
             | Some (Inr h) \<Rightarrow>
                 \<lparr>rc_worker = seat_worker seat, rc_aspect = seat_aspect seat, rc_taskId = Some (pl_taskId plan),
                  rc_verdict = rh_verdict h, rc_succeeded = (rh_verdict h = Success), rc_issued = True,
                  rc_harvestFailed = False, rc_inlined = rh_inlined h, rc_envelope = rh_envelope h,
                  rc_outbox = rh_outbox h,
                  rc_note = (if rh_verdict h = Success then No_note
                    else Missing_lens (rh_verdict h) (rh_envelope h) (rh_outbox h))\<rparr>)"

definition published_of ::
  "(string \<Rightarrow> 'p harvest_answer option) \<Rightarrow> relay_child \<Rightarrow> 'p published_reply list" where
  "published_of harvested c =
    (case (harvested (rc_aspect c), rc_taskId c) of
       (Some (Inr h), Some i) \<Rightarrow>
         [\<lparr>pr_taskId = i, pr_worker = rc_worker c, pr_aspect = rc_aspect c, pr_reply = rh_reply h\<rparr>]
     | _ \<Rightarrow> [])"

definition seat_of :: "relay_child \<Rightarrow> aspect_seat" where
  "seat_of c = \<lparr>seat_worker = rc_worker c, seat_aspect = rc_aspect c\<rparr>"

definition is_unreadable :: "relay_envelope_state option \<Rightarrow> bool" where
  "is_unreadable e = (case e of Some (Envelope_unreadable _) \<Rightarrow> True | Some Envelope_unreadable_unspecified \<Rightarrow> True | _ \<Rightarrow> False)"

definition is_refused :: "relay_envelope_state option \<Rightarrow> bool" where
  "is_refused e = (case e of Some (Envelope_refused _) \<Rightarrow> True | _ \<Rightarrow> False)"

definition collationBrief :: "task_id \<Rightarrow> relay_child list \<Rightarrow> relay_coverage \<Rightarrow> brief_line list" where
  "collationBrief parent children coverage =
    (let survived = filter rc_succeeded children; missing = [c \<leftarrow> children. \<not> rc_succeeded c];
         lens = (\<lambda>k c. k (rc_aspect c) (rc_worker c));
         cut = concat (map (\<lambda>c. map (Truncated_artifact (rc_aspect c)) (filter ia_truncated (rc_inlined c))) survived);
         unreadable = concat (map (\<lambda>c. map (Unreadable_artifact (rc_aspect c))
           [a \<leftarrow> rc_inlined c. ia_unreadable a \<noteq> None]) survived) in
     [Collate_from parent, Lens_counts (length children) (length survived) (length missing)]
     @ concat (map (\<lambda>c. case rc_taskId c of None \<Rightarrow> [] | Some i \<Rightarrow> [Report_at (rc_aspect c) (rc_worker c) i]) survived)
     @ (if missing = [] then []
        else map (\<lambda>c. Missing_aspect (rc_aspect c) (rc_worker c) (rc_note c)) missing
          @ [Collating_without (map rc_aspect missing)]
          @ map (lens Unreadable_lens) [c \<leftarrow> missing. is_unreadable (rc_envelope c)]
          @ map (lens Unharvested_lens) (filter rc_harvestFailed missing)
          @ map (lens Refused_lens) [c \<leftarrow> missing. is_refused (rc_envelope c)])
     @ (if cut = [] \<and> unreadable = [] then [] else cut @ unreadable @ [Partial_documents])
     @ [Coverage_line (cv_reported coverage) (cv_dispatched coverage), Status_advice])"

datatype relay_refusal = Underivable_id aspect_error | Collator_unresolved worker_id | Reviewer_unresolved aspect_seat

datatype relay_outcome =
    Refused relay_refusal
  | Not_collated "relay_child list"
  | None_landed "relay_child list"
  | Collated relay_dispatch relay_coverage "relay_child list" "aspect_seat list"
  | Collation_failed relay_dispatch relay_coverage "relay_child list" "aspect_seat list" string

definition collation_dispatch :: "worker_id \<Rightarrow> task_id \<Rightarrow> task_id \<Rightarrow> relay_child list \<Rightarrow> relay_coverage \<Rightarrow> relay_dispatch" where
  "collation_dispatch sender collationId parent children coverage =
    \<lparr>tr_worker = sender, tr_taskId = collationId, rd_title = ''Collate the review of '' @ parent,
     rd_brief = Collation_brief (collationBrief parent children coverage)\<rparr>"

definition coverage_of :: "relay_child list \<Rightarrow> relay_coverage" where
  "coverage_of children = \<lparr>cv_reported = length (filter rc_succeeded children), cv_dispatched = length children\<rparr>"

text \<open>From the children on: publish the reports, then ask for the collation.\<close>

definition collate ::
  "('r, 'p, 'w) relay_transport \<Rightarrow> 'r \<Rightarrow> worker_id \<Rightarrow> task_id \<Rightarrow> task_id \<Rightarrow> relay_child list
    \<Rightarrow> (string \<Rightarrow> 'p harvest_answer option) \<Rightarrow> 'w \<Rightarrow> (string + relay_outcome) \<times> 'w" where
  "collate t collatorRun sender collationId parent children harvested w =
    (let survived = filter rc_succeeded children;
         missing = map seat_of [c \<leftarrow> children. \<not> rc_succeeded c] in
     case rt_publishReplies t collatorRun collationId (concat (map (published_of harvested) survived)) w of
       (Some e, w1) \<Rightarrow> (Inl e, w1)
     | (None, w1) \<Rightarrow>
         let coverage = coverage_of children;
             collation = collation_dispatch sender collationId parent children coverage in
         case rt_dispatch t collatorRun collation w1 of
           (Some e, w2) \<Rightarrow> (Inr (Collation_failed collation coverage children missing e), w2)
         | (None, w2) \<Rightarrow> (Inr (Collated collation coverage children missing), w2))"

definition run_children ::
  "('r, 'p, 'w) relay_transport \<Rightarrow> 'r \<Rightarrow> worker_id \<Rightarrow> task_id \<Rightarrow> task_id \<Rightarrow> aspect_seat list \<Rightarrow> planned list
    \<Rightarrow> (planned \<times> 'r) list \<Rightarrow> 'w \<Rightarrow> (string + relay_outcome) \<times> 'w" where
  "run_children t collatorRun sender collationId parent seats plans routed w =
    (let (issued, w1) = all_settled (\<lambda>(p, r). rt_dispatch t r (dispatch_of p)) routed w;
         landed = landed_of routed issued;
         (_, w2) = all_settled (\<lambda>(p, r). rt_awaitSettled t r (ref_of p)) landed w1;
         (harvests, w3) = all_settled (\<lambda>(p, r). rt_harvest t r (ref_of p)) landed w2;
         harvested = harvest_of landed harvests;
         children = map (child_of plans (failed_dispatches routed issued) harvested) seats in
     if routed \<noteq> [] \<and> landed = [] then (Inr (None_landed children), w3)
     else if filter rc_succeeded children = [] then (Inr (Not_collated children), w3)
     else collate t collatorRun sender collationId parent children harvested w3)"

definition fanOut :: "('r, 'p, 'w) relay_input \<Rightarrow> aspect_seat list \<Rightarrow> 'w \<Rightarrow> (string + relay_outcome) \<times> 'w" where
  "fanOut inp seats w =
    (let parent = dq_parent_task_id (rl_request inp); sender = rl_sender inp in
     case collationTaskId parent of Inl e \<Rightarrow> (Inr (Refused (Underivable_id e)), w)
     | Inr collationId \<Rightarrow>
         case plan_children parent (dq_requests (rl_request inp)) seats of
           Inl e \<Rightarrow> (Inr (Refused (Underivable_id e)), w)
         | Inr plans \<Rightarrow>
             case rl_runs inp sender of None \<Rightarrow> (Inr (Refused (Collator_unresolved sender)), w)
             | Some collatorRun \<Rightarrow>
                 case route (rl_runs inp) plans of Inl seat \<Rightarrow> (Inr (Refused (Reviewer_unresolved seat)), w)
                 | Inr routed \<Rightarrow> run_children (rl_transport inp) collatorRun sender collationId parent seats plans routed w)"

definition relayFanOut :: "('r, 'p, 'w) relay_input \<Rightarrow> 'w \<Rightarrow> seat_error + ((string + relay_outcome) \<times> 'w)" where
  "relayFanOut inp w = map_sum id (\<lambda>seats. fanOut inp seats w) (resolveAspects (rl_aspects inp))"


section \<open>The shares of the budget\<close>

text \<open>What \<open>share_out\<close> gives, in the order it serves.\<close>

fun gives :: "int list \<Rightarrow> int \<Rightarrow> int list" where
  "gives [] r = []"
| "gives (w # ws) r = (let g = min w (r div int (length ws + 1)) in g # gives ws (r - g))"

lemma length_gives [simp]: "length (gives ws r) = length ws"
  by (induction ws r rule: gives.induct) (auto simp: Let_def)

lemma share_bounds:
  fixes r :: int assumes "0 \<le> r" shows "0 \<le> r div int (n + 1)" "r div int (n + 1) \<le> r"
proof -
  show "0 \<le> r div int (n + 1)" using assms by (simp add: pos_imp_zdiv_nonneg_iff)
  show "r div int (n + 1) \<le> r" using assms zdiv_mono2 [of r 1 "int (n + 1)"] by simp
qed

lemma div_times_le:
  fixes r n :: int shows "0 < n \<Longrightarrow> r div n * n \<le> r"
  using minus_mod_eq_div_mult [of r n] pos_mod_sign [of n r] by linarith

lemma gives_bounds:
  assumes "list_all (\<lambda>w. 0 \<le> w) ws" and "0 \<le> r"
  shows "sum_list (gives ws r) \<le> r \<and> list_all2 (\<lambda>g w. 0 \<le> g \<and> g \<le> w) (gives ws r) ws"
  using assms
proof (induction ws r rule: gives.induct)
  case (2 w ws r)
  let ?g = "min w (r div int (length ws + 1))"
  have g: "0 \<le> ?g" "?g \<le> r" using 2(2,3) share_bounds [of r "length ws"] by auto
  have "sum_list (gives ws (r - ?g)) \<le> r - ?g \<and> list_all2 (\<lambda>g w. 0 \<le> g \<and> g \<le> w) (gives ws (r - ?g)) ws"
    using 2(1) [OF refl] 2(2) g by (simp del: of_nat_add)
  then show ?case using g by (simp add: Let_def del: of_nat_add)
qed simp

lemma gives_small:
  assumes "sorted ws" and "list_all (\<lambda>w. 0 \<le> w) ws" and "0 \<le> r" and "k < length ws" and "ws ! k \<le> r div int (length ws)"
  shows "gives ws r ! k = ws ! k"
  using assms
proof (induction ws r arbitrary: k rule: gives.induct)
  case (2 w ws r)
  let ?n = "int (length ws + 1)" and ?q = "r div int (length ws + 1)"
  have le: "(w # ws) ! k \<le> ?q" using 2(6) by simp
  have "w \<le> (w # ws) ! k" using 2(2,5) by (cases k) auto
  with le have w: "w \<le> ?q" by simp
  then have g: "min w ?q = w" by simp
  show ?case
  proof (cases k)
    case 0
    then show ?thesis using g by (simp add: Let_def del: of_nat_add)
  next
    case (Suc j)
    with 2(5) have j: "j < length ws" by simp
    then have pos: "0 < int (length ws)" by (cases ws) auto
    have "?q * ?n \<le> r" by (rule div_times_le) simp
    then have "?q * int (length ws) \<le> r - w" using w by (simp add: algebra_simps)
    then have "?q \<le> (r - w) div int (length ws)" using zdiv_mono1 [OF _ pos] pos by fastforce
    moreover have "ws ! j \<le> ?q" using le Suc by simp
    moreover have "0 \<le> r - w"
      using w share_bounds(2) [of r "length ws"] 2(4) by linarith
    ultimately have "gives ws (r - w) ! j = ws ! j"
      using 2(1) [OF refl, of j] 2(2,3) j g by (simp del: of_nat_add)
    then show ?thesis using Suc g by (simp add: Let_def del: of_nat_add)
  qed
qed simp

lemma share_out_gives:
  assumes "distinct (map snd es)" and "set (map snd es) \<subseteq> {..<length granted}"
  shows "length (share_out es r granted) = length granted
    \<and> map (\<lambda>e. share_out es r granted ! snd e) es = gives (map fst es) r
    \<and> (\<forall>i. i \<notin> set (map snd es) \<longrightarrow> share_out es r granted ! i = granted ! i)"
  using assms
proof (induction es r granted rule: share_out.induct)
  case (2 w i es r granted)
  let ?g = "min w (r div int (length es + 1))"
  have IH: "length (share_out es (r - ?g) (granted[i := ?g])) = length granted"
    "map (\<lambda>e. share_out es (r - ?g) (granted[i := ?g]) ! snd e) es = gives (map fst es) (r - ?g)"
    "\<forall>j. j \<notin> set (map snd es) \<longrightarrow> share_out es (r - ?g) (granted[i := ?g]) ! j = granted[i := ?g] ! j"
    using 2(1) [OF refl refl] 2(2,3) by auto
  show ?case using IH 2(2,3) by (auto simp: Let_def simp del: of_nat_add)
qed simp

text \<open>
  C38: what is inlined never exceeds the budget, and no artifact is granted more than it wants. An
  artifact that wants no more than an equal share gets all of it, and where everything fits,
  everything is granted.
\<close>

theorem inline_budget_fair:
  fixes sizes per budget defines "want \<equiv> wants sizes per" and "granted \<equiv> planInlineBudget sizes per budget"
  assumes "0 \<le> budget"
  shows "length granted = length sizes \<and> sum_list granted \<le> budget
    \<and> list_all2 (\<lambda>g w. 0 \<le> g \<and> g \<le> w) granted want
    \<and> (\<forall>i < length sizes. want ! i \<le> budget div int (length sizes) \<longrightarrow> granted ! i = want ! i)"
proof -
  let ?n = "length sizes"
  define es where "es = sort_key fst (zip want [0..<?n])"
  have len: "length want = ?n" by (simp add: want_def wants_def)
  have me: "mset es = mset (zip want [0..<?n])" by (simp add: es_def)
  then have snds: "mset (map snd es) = mset [0..<?n]" "length es = ?n"
    using len by (metis map_snd_zip length_upt minus_nat.diff_0 mset_map) (metis mset_eq_length length_zip len length_upt minus_nat.diff_0 min.idem me)
  then have perm: "distinct (map snd es)" "set (map snd es) = {..<?n}"
    by (metis distinct_upt mset_eq_imp_distinct_iff) (metis atLeast0LessThan set_mset_mset set_upt snds(1))
  have ws: "sorted (map fst es)" by (simp add: es_def)
  have pairs: "want ! i = w" "i < ?n" if "(w, i) \<in> set es" for w i
    using that len by (auto simp: es_def set_zip)
  have nonneg: "list_all (\<lambda>w. 0 \<le> w) want" by (simp add: want_def wants_def list_all_iff)
  have nonneg': "list_all (\<lambda>w. 0 \<le> w) (map fst es)"
  proof -
    have "0 \<le> w" if "(w, i) \<in> set es" for w i
      using nonneg pairs [OF that] len by (metis list_all_length)
    then show ?thesis by (auto simp: list_all_iff)
  qed
  have g: "granted = share_out es budget (replicate ?n 0)"
    by (simp add: granted_def planInlineBudget_def Let_def want_def [symmetric] len es_def)
  have so: "length granted = ?n" "map (\<lambda>e. granted ! snd e) es = gives (map fst es) budget"
    using share_out_gives [of es "replicate ?n 0" budget] perm unfolding g by auto
  have at_pos: "granted ! snd (es ! k) = gives (map fst es) budget ! k" if "k < ?n" for k
    using arg_cong [OF so(2), of "\<lambda>xs. xs ! k"] that snds(2) by simp
  have want_pos: "want ! snd (es ! k) = fst (es ! k)" if "k < ?n" for k
    using pairs(1) [of "fst (es ! k)" "snd (es ! k)"] that snds(2) by simp
  have pos: "\<exists>k < ?n. snd (es ! k) = i" if "i < ?n" for i
    using that perm(2) snds(2) by (metis (no_types, lifting) imageE in_set_conv_nth length_map lessThan_iff nth_map)
  have gb: "sum_list (gives (map fst es) budget) \<le> budget"
    "list_all2 (\<lambda>g w. 0 \<le> g \<and> g \<le> w) (gives (map fst es) budget) (map fst es)"
    using gives_bounds [OF nonneg' assms(3)] by blast+
  have "sum_list granted = sum_list (map (\<lambda>i. granted ! i) [0..<?n])"
    using so(1) by (metis map_nth)
  also have "\<dots> = sum_list (map (\<lambda>i. granted ! i) (map snd es))"
    by (simp only: sum_mset_sum_list [symmetric] mset_map snds(1) [unfolded mset_map])
  finally have total: "sum_list granted \<le> budget" using gb(1) so(2) by (simp add: comp_def)
  have bounds: "0 \<le> granted ! i \<and> granted ! i \<le> want ! i" if "i < ?n" for i
  proof -
    obtain k where k: "k < ?n" "snd (es ! k) = i" using pos [OF \<open>i < ?n\<close>] by metis
    have "0 \<le> gives (map fst es) budget ! k \<and> gives (map fst es) budget ! k \<le> map fst es ! k"
      by (rule list_all2_nthD2 [OF gb(2)]) (use k(1) snds(2) in simp)
    moreover have "map fst es ! k = want ! i" using want_pos [OF k(1)] k snds(2) by simp
    ultimately show ?thesis using at_pos [OF k(1)] k(2) by metis
  qed
  have small: "granted ! i = want ! i" if "i < ?n" "want ! i \<le> budget div int ?n" for i
  proof -
    obtain k where k: "k < ?n" "snd (es ! k) = i" using pos [OF \<open>i < ?n\<close>] by metis
    have "gives (map fst es) budget ! k = map fst es ! k"
      by (rule gives_small [OF ws nonneg' assms(3)]) (use k that want_pos [of k] snds(2) in auto)
    then show ?thesis using at_pos [OF k(1)] want_pos [OF k(1)] k snds(2) by simp
  qed
  show ?thesis using total so(1) bounds small len by (auto simp: list_all2_conv_all_nth)
qed

theorem inline_budget_fair_witness:
  "sum_list (planInlineBudget [300000, 10, 300000, 0] MAX_REPLY_ARTIFACT_BYTES 1000) \<le> 1000
   \<and> planInlineBudget [300000, 10, 300000, 0] MAX_REPLY_ARTIFACT_BYTES 1000 ! 1 = 10"
proof -
  have "wants [300000, 10, 300000, 0] MAX_REPLY_ARTIFACT_BYTES ! 1 = 10"
    by (simp add: wants_def MAX_REPLY_ARTIFACT_BYTES_def)
  with inline_budget_fair [of 1000 "[300000, 10, 300000, 0]" MAX_REPLY_ARTIFACT_BYTES]
  show ?thesis by (auto dest: spec [where x = 1])
qed


section \<open>The operations a fan-out makes\<close>

datatype ('r, 'p) relay_event =
    Did_dispatch 'r relay_dispatch | Did_await 'r relay_task_ref | Did_harvest 'r relay_task_ref
  | Did_publish 'r task_id "'p published_reply list"

definition noting :: "'e \<Rightarrow> 'b \<times> 'w \<Rightarrow> 'e list \<Rightarrow> 'b \<times> ('w \<times> 'e list)" where
  "noting e r l = (fst r, (snd r, l @ [e]))"

text \<open>A transport that keeps a log of what it is asked.\<close>

definition watched :: "('r, 'p, 'w) relay_transport \<Rightarrow> ('r, 'p, 'w \<times> ('r, 'p) relay_event list) relay_transport" where
  "watched t =
    \<lparr>rt_dispatch = (\<lambda>r d (w, l). noting (Did_dispatch r d) (rt_dispatch t r d w) l),
     rt_awaitSettled = (\<lambda>r i (w, l). noting (Did_await r i) (rt_awaitSettled t r i w) l),
     rt_harvest = (\<lambda>r i (w, l). noting (Did_harvest r i) (rt_harvest t r i w) l),
     rt_publishReplies = (\<lambda>r i ps (w, l). noting (Did_publish r i ps) (rt_publishReplies t r i ps w) l)\<rparr>"

lemma all_settled_noting:
  assumes "\<And>x w l. f x (w, l) = noting (e x) (g x w) l"
  shows "all_settled f xs (w, l) = (fst (all_settled g xs w), (snd (all_settled g xs w), l @ map e xs))"
  by (induction xs arbitrary: w l) (auto simp: assms noting_def Let_def split: prod.splits)

lemma settle_dispatch:
  "all_settled (\<lambda>(p, r). rt_dispatch (watched t) r (dispatch_of p)) ps (w, l) =
    (fst (all_settled (\<lambda>(p, r). rt_dispatch t r (dispatch_of p)) ps w),
     (snd (all_settled (\<lambda>(p, r). rt_dispatch t r (dispatch_of p)) ps w), l @ map (\<lambda>(p, r). Did_dispatch r (dispatch_of p)) ps))"
  by (rule all_settled_noting) (simp add: watched_def split: prod.splits)

lemma settle_await:
  "all_settled (\<lambda>(p, r). rt_awaitSettled (watched t) r (ref_of p)) ps (w, l) =
    (fst (all_settled (\<lambda>(p, r). rt_awaitSettled t r (ref_of p)) ps w),
     (snd (all_settled (\<lambda>(p, r). rt_awaitSettled t r (ref_of p)) ps w), l @ map (\<lambda>(p, r). Did_await r (ref_of p)) ps))"
  by (rule all_settled_noting) (simp add: watched_def split: prod.splits)

lemma settle_harvest:
  "all_settled (\<lambda>(p, r). rt_harvest (watched t) r (ref_of p)) ps (w, l) =
    (fst (all_settled (\<lambda>(p, r). rt_harvest t r (ref_of p)) ps w),
     (snd (all_settled (\<lambda>(p, r). rt_harvest t r (ref_of p)) ps w), l @ map (\<lambda>(p, r). Did_harvest r (ref_of p)) ps))"
  by (rule all_settled_noting) (simp add: watched_def split: prod.splits)

lemmas settle_watched = settle_dispatch settle_await settle_harvest

text \<open>The operations that are left once the children have been harvested.\<close>

definition closing :: "'r \<Rightarrow> task_id \<Rightarrow> 'p published_reply list \<Rightarrow> string + relay_outcome \<Rightarrow> ('r, 'p) relay_event list" where
  "closing collatorRun collationId replies res =
    (case res of
       Inl e \<Rightarrow> [Did_publish collatorRun collationId replies]
     | Inr (Collated c _ _ _) \<Rightarrow> [Did_publish collatorRun collationId replies, Did_dispatch collatorRun c]
     | Inr (Collation_failed c _ _ _ _) \<Rightarrow> [Did_publish collatorRun collationId replies, Did_dispatch collatorRun c]
     | _ \<Rightarrow> [])"

lemma collate_watched:
  assumes "collate (watched t) collatorRun sender collationId parent children harvested (w, l) = (res, (w', l'))"
  shows "l' = l @ closing collatorRun collationId (concat (map (published_of harvested) (filter rc_succeeded children))) res"
  using assms by (auto simp: collate_def watched_def noting_def Let_def closing_def split: prod.splits option.splits)

lemma landed_subset: "set (landed_of routed issued) \<subseteq> set routed"
  by (auto simp: landed_of_def dest: set_zip_leftD)

lemma run_children_watched:
  assumes "run_children (watched t) collatorRun sender collationId parent seats plans routed (w, l) = (res, (w', l'))"
  shows "\<exists>landed replies. set landed \<subseteq> set routed \<and>
    l' = l @ map (\<lambda>(p, r). Did_dispatch r (dispatch_of p)) routed @ map (\<lambda>(p, r). Did_await r (ref_of p)) landed
      @ map (\<lambda>(p, r). Did_harvest r (ref_of p)) landed @ closing collatorRun collationId replies res"
proof -
  obtain issued w1 where i: "all_settled (\<lambda>(p, r). rt_dispatch t r (dispatch_of p)) routed w = (issued, w1)" by fastforce
  define landed where "landed = landed_of routed issued"
  obtain aw w2 where a: "all_settled (\<lambda>(p, r). rt_awaitSettled t r (ref_of p)) landed w1 = (aw, w2)" by fastforce
  obtain hs w3 where h: "all_settled (\<lambda>(p, r). rt_harvest t r (ref_of p)) landed w2 = (hs, w3)" by fastforce
  let ?l = "l @ map (\<lambda>(p, r). Did_dispatch r (dispatch_of p)) routed @ map (\<lambda>(p, r). Did_await r (ref_of p)) landed
      @ map (\<lambda>(p, r). Did_harvest r (ref_of p)) landed"
  let ?ch = "map (child_of plans (failed_dispatches routed issued) (harvest_of landed hs)) seats"
  from assms have r: "(if routed \<noteq> [] \<and> landed = [] then (Inr (None_landed ?ch), (w3, ?l))
      else if filter rc_succeeded ?ch = [] then (Inr (Not_collated ?ch), (w3, ?l))
      else collate (watched t) collatorRun sender collationId parent ?ch (harvest_of landed hs) (w3, ?l)) = (res, (w', l'))"
    by (simp only: run_children_def settle_watched i a h landed_def [symmetric] Let_def prod.case fst_conv snd_conv append_assoc)
  have "\<exists>replies. l' = ?l @ closing collatorRun collationId replies res"
    using r by (auto simp: closing_def dest!: collate_watched split: if_splits)
  then show ?thesis using landed_subset [of routed issued] landed_def by auto
qed

lemma run_children_not_refused [simp]:
  "run_children t c sd i p ss pl ro x \<noteq> (Inr (Refused e), y)"
  by (auto simp: run_children_def collate_def Let_def split: prod.splits option.splits)

text \<open>
  C16: a fan-out that is refused asks the transport for nothing at all. Every other one dispatches to
  all the seats the request names, then waits for those that landed, then harvests them; only then
  it publishes the replies, and asks for the collation last.
\<close>

theorem fan_out_order:
  assumes "rl_transport inp = watched t" and "fanOut inp seats (w, []) = (res, (w', evs))"
  shows "(\<exists>why. res = Inr (Refused why) \<and> evs = [] \<and> w' = w) \<or>
    (\<exists>plans routed landed collatorRun collationId replies.
      plan_children (dq_parent_task_id (rl_request inp)) (dq_requests (rl_request inp)) seats = Inr plans
      \<and> route (rl_runs inp) plans = Inr routed \<and> set landed \<subseteq> set routed
      \<and> rl_runs inp (rl_sender inp) = Some collatorRun
      \<and> collationTaskId (dq_parent_task_id (rl_request inp)) = Inr collationId
      \<and> evs = map (\<lambda>(p, r). Did_dispatch r (dispatch_of p)) routed @ map (\<lambda>(p, r). Did_await r (ref_of p)) landed
          @ map (\<lambda>(p, r). Did_harvest r (ref_of p)) landed @ closing collatorRun collationId replies res)"
proof (cases "\<exists>why. res = Inr (Refused why)")
  case True
  with assms show ?thesis by (auto simp: fanOut_def Let_def split: sum.splits option.splits)
next
  case False
  then obtain collationId plans collatorRun routed where
    r: "collationTaskId (dq_parent_task_id (rl_request inp)) = Inr collationId"
      "plan_children (dq_parent_task_id (rl_request inp)) (dq_requests (rl_request inp)) seats = Inr plans"
      "rl_runs inp (rl_sender inp) = Some collatorRun" "route (rl_runs inp) plans = Inr routed"
    and rc: "run_children (watched t) collatorRun (rl_sender inp) collationId (dq_parent_task_id (rl_request inp)) seats
        plans routed (w, []) = (res, (w', evs))"
    using assms by (auto simp: fanOut_def Let_def split: sum.splits option.splits)
  from run_children_watched [OF rc] r show ?thesis by auto
qed


section \<open>Every seat is accounted for\<close>

lemma map_sum_Inr: "map_sum id f x = Inr y \<longleftrightarrow> (\<exists>z. x = Inr z \<and> y = f z)"
  by (cases x) auto

lemma plan_children_ids:
  assumes "plan_children parent reqs seats = Inr plans" and "p \<in> set plans"
  shows "pl_seat p \<in> set seats \<and> childTaskId parent (seat_aspect (pl_seat p)) = Inr (pl_taskId p)
    \<and> (\<exists>r \<in> set reqs. ri_worker r = seat_worker (pl_seat p) \<and> pl_title p = ri_title r \<and> pl_brief p = ri_brief r)"
  using assms
proof (induction seats arbitrary: plans)
  case (Cons s ss)
  show ?case
  proof (cases "find (\<lambda>r. ri_worker r = seat_worker s) reqs")
    case None
    with Cons show ?thesis by auto
  next
    case (Some r)
    then have r: "r \<in> set reqs" "ri_worker r = seat_worker s" by (auto simp: find_Some_iff)
    from Some Cons.prems(1) obtain i ps where i: "childTaskId parent (seat_aspect s) = Inr i"
      "plan_children parent reqs ss = Inr ps" "plans = \<lparr>pl_seat = s, pl_taskId = i, pl_title = ri_title r, pl_brief = ri_brief r\<rparr> # ps"
      by (auto simp: map_sum_Inr split: sum.splits)
    with Cons.IH [OF i(2)] Cons.prems(2) r show ?thesis by auto
  qed
qed simp

lemma seat_of_child [simp]: "seat_of (child_of plans fd hv seat) = seat"
  by (simp add: child_of_def seat_of_def blank_child_def split: option.splits sum.splits)

lemma child_of_aspect [simp]: "rc_aspect (child_of plans fd hv seat) = seat_aspect seat"
  "rc_worker (child_of plans fd hv seat) = seat_worker seat"
  by (simp_all add: child_of_def blank_child_def split: option.splits sum.splits)

text \<open>What is true of the children of one fan-out.\<close>

definition children_of :: "task_id \<Rightarrow> request_item list \<Rightarrow> aspect_seat list \<Rightarrow> relay_child list \<Rightarrow> bool" where
  "children_of parent reqs seats children \<longleftrightarrow> map seat_of children = seats
     \<and> (\<forall>c \<in> set children. (rc_succeeded c \<longleftrightarrow> rc_verdict c = Success) \<and> (rc_succeeded c \<longrightarrow> rc_issued c)
         \<and> (rc_issued c \<longrightarrow> (\<exists>i. rc_taskId c = Some i \<and> childTaskId parent (rc_aspect c) = Inr i))
         \<and> (rc_succeeded c \<longleftrightarrow> rc_note c = No_note))"

lemma child_of_ok:
  assumes "plan_children parent reqs seats = Inr plans"
  shows "children_of parent reqs seats (map (child_of plans fd hv) seats)"
proof -
  have "map seat_of (map (child_of plans fd hv) seats) = seats" by (simp add: comp_def)
  moreover have "(rc_succeeded c \<longleftrightarrow> rc_verdict c = Success) \<and> (rc_succeeded c \<longrightarrow> rc_issued c)
         \<and> (rc_issued c \<longrightarrow> (\<exists>i. rc_taskId c = Some i \<and> childTaskId parent (rc_aspect c) = Inr i))
         \<and> (rc_succeeded c \<longleftrightarrow> rc_note c = No_note)" if "c = child_of plans fd hv seat" for c seat
  proof (cases "find (\<lambda>p. seat_aspect (pl_seat p) = seat_aspect seat) plans")
    case None
    with that show ?thesis by (simp add: child_of_def blank_child_def)
  next
    case (Some p)
    then have "p \<in> set plans" "seat_aspect (pl_seat p) = seat_aspect seat" by (auto simp: find_Some_iff)
    with plan_children_ids [OF assms] have "childTaskId parent (seat_aspect seat) = Inr (pl_taskId p)" by metis
    with Some that show ?thesis by (auto simp: child_of_def blank_child_def split: option.splits sum.splits)
  qed
  ultimately show ?thesis by (auto simp: children_of_def)
qed

fun outcome_children :: "relay_outcome \<Rightarrow> relay_child list" where
  "outcome_children (Refused why) = []"
| "outcome_children (Not_collated ch) = ch"
| "outcome_children (None_landed ch) = ch"
| "outcome_children (Collated c cov ch missing) = ch"
| "outcome_children (Collation_failed c cov ch missing e) = ch"

fun collation_of :: "relay_outcome \<Rightarrow> (relay_dispatch \<times> relay_coverage \<times> aspect_seat list) option" where
  "collation_of (Collated c cov ch missing) = Some (c, cov, missing)"
| "collation_of (Collation_failed c cov ch missing e) = Some (c, cov, missing)"
| "collation_of _ = None"

lemma run_children_outcome:
  fixes t :: "('r, 'p, 'w) relay_transport"
  assumes "run_children t collatorRun sender collationId parent seats plans routed w = (Inr oc, w')"
  shows "\<exists>fd (hv :: string \<Rightarrow> 'p harvest_answer option). outcome_children oc = map (child_of plans fd hv) seats
    \<and> (\<forall>c cov missing. collation_of oc = Some (c, cov, missing) \<longrightarrow>
         c = collation_dispatch sender collationId parent (outcome_children oc) cov
         \<and> cov = coverage_of (outcome_children oc) \<and> filter rc_succeeded (outcome_children oc) \<noteq> []
         \<and> missing = map seat_of [x \<leftarrow> outcome_children oc. \<not> rc_succeeded x])
    \<and> (collation_of oc = None \<longrightarrow> (\<exists>ch. oc = None_landed ch) \<or> filter rc_succeeded (outcome_children oc) = [])"
proof -
  obtain issued w1 where i: "all_settled (\<lambda>(p, r). rt_dispatch t r (dispatch_of p)) routed w = (issued, w1)" by fastforce
  define landed where "landed = landed_of routed issued"
  obtain aw w2 where a: "all_settled (\<lambda>(p, r). rt_awaitSettled t r (ref_of p)) landed w1 = (aw, w2)" by fastforce
  obtain hs w3 where h: "all_settled (\<lambda>(p, r). rt_harvest t r (ref_of p)) landed w2 = (hs, w3)" by fastforce
  define ch where "ch = map (child_of plans (failed_dispatches routed issued) (harvest_of landed hs)) seats"
  from assms have r: "(if routed \<noteq> [] \<and> landed = [] then (Inr (None_landed ch), w3)
      else if filter rc_succeeded ch = [] then (Inr (Not_collated ch), w3)
      else collate t collatorRun sender collationId parent ch (harvest_of landed hs) w3) = (Inr oc, w')"
    by (simp only: run_children_def i a h landed_def [symmetric] ch_def [symmetric] Let_def prod.case)
  have "outcome_children oc = ch
    \<and> (\<forall>c cov missing. collation_of oc = Some (c, cov, missing) \<longrightarrow>
         c = collation_dispatch sender collationId parent ch cov
         \<and> cov = coverage_of ch \<and> filter rc_succeeded ch \<noteq> [] \<and> missing = map seat_of [x \<leftarrow> ch. \<not> rc_succeeded x])
    \<and> (collation_of oc = None \<longrightarrow> (\<exists>ch. oc = None_landed ch) \<or> filter rc_succeeded ch = [])"
    using r by (auto simp: collate_def Let_def split: if_splits prod.splits option.splits)
  then show ?thesis using ch_def by metis
qed

text \<open>What the outcome says of the children and the collation.\<close>

lemma fan_out_outcome:
  fixes inp :: "('r, 'p, 'w) relay_input"
  assumes "fanOut inp seats w = (Inr oc, w')" and "\<nexists>why. oc = Refused why"
  shows "children_of (dq_parent_task_id (rl_request inp)) (dq_requests (rl_request inp)) seats (outcome_children oc)
    \<and> (case collation_of oc of
         None \<Rightarrow> (\<exists>ch. oc = None_landed ch) \<or> filter rc_succeeded (outcome_children oc) = []
       | Some (c, cov, missing) \<Rightarrow>
           tr_worker c = rl_sender inp \<and> collationTaskId (dq_parent_task_id (rl_request inp)) = Inr (tr_taskId c)
           \<and> cv_reported cov = length (filter rc_succeeded (outcome_children oc)) \<and> cv_reported cov > 0
           \<and> cv_dispatched cov = length seats
           \<and> missing = map seat_of [x \<leftarrow> outcome_children oc. \<not> rc_succeeded x]
           \<and> (\<exists>ls. rd_brief c = Collation_brief ls
               \<and> (\<forall>x \<in> set (outcome_children oc).
                    if rc_succeeded x then \<exists>i. rc_taskId x = Some i \<and> Report_at (rc_aspect x) (rc_worker x) i \<in> set ls
                    else Missing_aspect (rc_aspect x) (rc_worker x) (rc_note x) \<in> set ls)
               \<and> Coverage_line (cv_reported cov) (cv_dispatched cov) \<in> set ls))"
proof -
  let ?parent = "dq_parent_task_id (rl_request inp)" and ?ch = "outcome_children oc"
  obtain collationId plans collatorRun routed where
    r: "collationTaskId ?parent = Inr collationId" "plan_children ?parent (dq_requests (rl_request inp)) seats = Inr plans"
    and rc: "run_children (rl_transport inp) collatorRun (rl_sender inp) collationId ?parent seats plans routed w = (Inr oc, w')"
    using assms by (auto simp: fanOut_def Let_def split: sum.splits option.splits)
  from run_children_outcome [OF rc] obtain fd and hv :: "string \<Rightarrow> 'p harvest_answer option" where
    ch: "?ch = map (child_of plans fd hv) seats"
    and some: "\<forall>c cov missing. collation_of oc = Some (c, cov, missing) \<longrightarrow>
         c = collation_dispatch (rl_sender inp) collationId ?parent ?ch cov
         \<and> cov = coverage_of ?ch \<and> filter rc_succeeded ?ch \<noteq> [] \<and> missing = map seat_of [x \<leftarrow> ?ch. \<not> rc_succeeded x]"
    and none: "collation_of oc = None \<longrightarrow> (\<exists>ch. oc = None_landed ch) \<or> filter rc_succeeded ?ch = []"
    by (elim exE conjE) (erule (2) that)
  have kids: "children_of ?parent (dq_requests (rl_request inp)) seats ?ch"
    unfolding ch by (rule child_of_ok [OF r(2)])
  have ids: "\<exists>i. rc_taskId x = Some i" if "x \<in> set ?ch" "rc_succeeded x" for x
    using kids that unfolding children_of_def by blast
  show ?thesis
  proof (cases "collation_of oc")
    case None
    then show ?thesis using kids none by simp
  next
    case (Some col)
    obtain c cov missing where col: "col = (c, cov, missing)" by (cases col)
    note s = some [rule_format, OF Some [unfolded col]]
    let ?ls = "collationBrief ?parent ?ch cov"
    have brief: "if rc_succeeded x then \<exists>i. rc_taskId x = Some i \<and> Report_at (rc_aspect x) (rc_worker x) i \<in> set ?ls
        else Missing_aspect (rc_aspect x) (rc_worker x) (rc_note x) \<in> set ?ls" if "x \<in> set ?ch" for x
      using that ids [OF that] by (fastforce simp: collationBrief_def Let_def filter_empty_conv split: option.splits)
    have line: "Coverage_line (cv_reported cov) (cv_dispatched cov) \<in> set ?ls"
      by (simp add: collationBrief_def Let_def)
    have len: "length ?ch = length seats" by (simp add: ch)
    have c: "tr_worker c = rl_sender inp" "tr_taskId c = collationId" "rd_brief c = Collation_brief ?ls"
      using s by (simp_all add: collation_dispatch_def)
    have cov: "cv_reported cov = length (filter rc_succeeded ?ch)" "cv_dispatched cov = length seats"
      using s len by (simp_all add: coverage_of_def)
    have "cv_reported cov > 0" using s cov(1) by simp
    moreover have "\<exists>ls. rd_brief c = Collation_brief ls
        \<and> (\<forall>x \<in> set ?ch. if rc_succeeded x then \<exists>i. rc_taskId x = Some i \<and> Report_at (rc_aspect x) (rc_worker x) i \<in> set ls
                    else Missing_aspect (rc_aspect x) (rc_worker x) (rc_note x) \<in> set ls)
        \<and> Coverage_line (cv_reported cov) (cv_dispatched cov) \<in> set ls"
      using c(3) brief line by blast
    ultimately show ?thesis
      using kids s r(1) c(1,2) cov Some col by simp
  qed
qed


text \<open>What was published, call by call.\<close>

fun published :: "('r, 'p) relay_event list \<Rightarrow> 'p published_reply list list" where
  "published [] = []"
| "published (Did_publish r i ps # evs) = ps # published evs"
| "published (_ # evs) = published evs"

lemma published_append [simp]: "published (xs @ ys) = published xs @ published ys"
  by (induction xs rule: published.induct) auto

lemma published_phases [simp]:
  "published (map (\<lambda>(p, r). Did_dispatch r (f p)) ps) = []" "published (map (\<lambda>(p, r). Did_await r (g p)) ps) = []"
  "published (map (\<lambda>(p, r). Did_harvest r (g p)) ps) = []"
  by (induction ps) auto

text \<open>The answer kept for an aspect is that of a harvest of a plan of that aspect.\<close>

lemma harvest_of_answered:
  assumes "harvest_of landed (fst (all_settled (\<lambda>(p, r). rt_harvest t r (ref_of p)) landed w)) a = Some ans"
  shows "\<exists>p r w0. (p, r) \<in> set landed \<and> seat_aspect (pl_seat p) = a \<and> fst (rt_harvest t r (ref_of p) w0) = ans"
proof -
  let ?f = "\<lambda>(p, r). rt_harvest t r (ref_of p)"
  have "map_of (zip (map (\<lambda>(p, r). seat_aspect (pl_seat p)) xs) (fst (all_settled ?f xs w))) a = Some ans
      \<Longrightarrow> \<exists>x w0. x \<in> set xs \<and> seat_aspect (pl_seat (fst x)) = a \<and> fst (?f x w0) = ans" for xs w
  proof (induction xs arbitrary: w)
    case (Cons x xs)
    obtain y w1 where y: "?f x w = (y, w1)" by fastforce
    obtain ys w2 where ys: "all_settled ?f xs w1 = (ys, w2)" by fastforce
    show ?case
    proof (cases "seat_aspect (pl_seat (fst x)) = a")
      case True
      moreover have "y = ans" using True Cons.prems y ys by (cases x) auto
      ultimately show ?thesis using y by (metis fst_conv list.set_intros(1))
    next
      case False
      then have "map_of (zip (map (\<lambda>(p, r). seat_aspect (pl_seat p)) xs) (fst (all_settled ?f xs w1))) a = Some ans"
        using Cons.prems y ys by (cases x) auto
      from Cons.IH [OF this] obtain z w0 where "z \<in> set xs" "seat_aspect (pl_seat (fst z)) = a" "fst (?f z w0) = ans"
        by blast
      then show ?thesis by (intro exI [of _ z] exI [of _ w0]) simp
    qed
  qed simp
  from this [OF assms [unfolded harvest_of_def]] show ?thesis by auto
qed

lemma run_children_published:
  fixes t :: "('r, 'p, 'w) relay_transport"
  assumes "run_children (watched t) collatorRun sender collationId parent seats plans routed (w, l) = (Inr oc, (w', l'))"
  shows "\<exists>fd (hv :: string \<Rightarrow> 'p harvest_answer option). outcome_children oc = map (child_of plans fd hv) seats
    \<and> published l' = published l @ (if collation_of oc = None then []
        else [concat (map (published_of hv) (filter rc_succeeded (outcome_children oc)))])
    \<and> (\<forall>a ans. hv a = Some ans \<longrightarrow>
        (\<exists>p r w0. (p, r) \<in> set routed \<and> seat_aspect (pl_seat p) = a \<and> fst (rt_harvest t r (ref_of p) w0) = ans))"
proof -
  obtain issued w1 where i: "all_settled (\<lambda>(p, r). rt_dispatch t r (dispatch_of p)) routed w = (issued, w1)" by fastforce
  define landed where "landed = landed_of routed issued"
  obtain aw w2 where a: "all_settled (\<lambda>(p, r). rt_awaitSettled t r (ref_of p)) landed w1 = (aw, w2)" by fastforce
  obtain hs w3 where h: "all_settled (\<lambda>(p, r). rt_harvest t r (ref_of p)) landed w2 = (hs, w3)" by fastforce
  let ?l = "l @ map (\<lambda>(p, r). Did_dispatch r (dispatch_of p)) routed @ map (\<lambda>(p, r). Did_await r (ref_of p)) landed
      @ map (\<lambda>(p, r). Did_harvest r (ref_of p)) landed" and ?hv = "harvest_of landed hs"
  let ?ch = "map (child_of plans (failed_dispatches routed issued) ?hv) seats"
  from assms have r: "(if routed \<noteq> [] \<and> landed = [] then (Inr (None_landed ?ch), (w3, ?l))
      else if filter rc_succeeded ?ch = [] then (Inr (Not_collated ?ch), (w3, ?l))
      else collate (watched t) collatorRun sender collationId parent ?ch ?hv (w3, ?l)) = (Inr oc, (w', l'))"
    by (simp only: run_children_def settle_watched i a h landed_def [symmetric] Let_def prod.case fst_conv snd_conv append_assoc)
  have c: "outcome_children oc = ch \<and> collation_of oc \<noteq> None"
    if "collate (watched t) collatorRun sender collationId parent ch hv x = (Inr oc, y)" for ch hv x y
    using that by (auto simp: collate_def Let_def split: prod.splits option.splits)
  have pub: "published (closing collatorRun collationId replies (Inr oc)) = (if collation_of oc = None then [] else [replies])" for replies
    by (cases oc) (simp_all add: closing_def)
  have kids: "outcome_children oc = ?ch" using r c by (auto split: if_splits)
  have "published l' = published l @ (if collation_of oc = None then []
        else [concat (map (published_of ?hv) (filter rc_succeeded (outcome_children oc)))])"
    using r pub unfolding kids
    by (auto split: if_splits dest: c dest!: collate_watched)
  moreover have "\<exists>p r w0. (p, r) \<in> set routed \<and> seat_aspect (pl_seat p) = b \<and> fst (rt_harvest t r (ref_of p) w0) = ans"
    if "?hv b = Some ans" for b ans
    using harvest_of_answered [of landed t w2 b ans] that h landed_subset [of routed issued] unfolding landed_def by auto
  ultimately show ?thesis using kids by blast
qed

lemma published_succeeded:
  assumes "rc_succeeded (child_of plans fd hv seat)"
  shows "\<exists>h i. published_of hv (child_of plans fd hv seat) =
      [\<lparr>pr_taskId = i, pr_worker = seat_worker seat, pr_aspect = seat_aspect seat, pr_reply = rh_reply h\<rparr>]
    \<and> rc_taskId (child_of plans fd hv seat) = Some i \<and> hv (seat_aspect seat) = Some (Inr h) \<and> rh_verdict h = Success"
  using assms by (auto simp: child_of_def published_of_def blank_child_def split: option.splits sum.splits)

definition reply_head :: "'p published_reply \<Rightarrow> task_id option \<times> worker_id \<times> string" where
  "reply_head q = (Some (pr_taskId q), pr_worker q, pr_aspect q)"

definition child_head :: "relay_child \<Rightarrow> task_id option \<times> worker_id \<times> string" where
  "child_head c = (rc_taskId c, rc_worker c, rc_aspect c)"

lemma published_heads:
  "map reply_head (concat (map (published_of hv) (filter rc_succeeded (map (child_of plans fd hv) seats)))) =
   map child_head (filter rc_succeeded (map (child_of plans fd hv) seats))"
proof (induction seats)
  case (Cons seat seats)
  show ?case
  proof (cases "rc_succeeded (child_of plans fd hv seat)")
    case True
    have "rc_worker (child_of plans fd hv seat) = seat_worker seat" "rc_aspect (child_of plans fd hv seat) = seat_aspect seat"
      by (auto simp: child_of_def blank_child_def split: option.splits sum.splits)
    then show ?thesis using published_succeeded [OF True] Cons True by (auto simp: reply_head_def child_head_def)
  qed (use Cons in simp)
qed simp

lemma published_replies:
  assumes "q \<in> set (concat (map (published_of hv) (filter rc_succeeded (map (child_of plans fd hv) seats))))"
  shows "\<exists>h. hv (pr_aspect q) = Some (Inr h) \<and> rh_verdict h = Success \<and> pr_reply q = rh_reply h"
proof -
  obtain seat where "q \<in> set (published_of hv (child_of plans fd hv seat))" "rc_succeeded (child_of plans fd hv seat)"
    using assms by auto
  then show ?thesis using published_succeeded [of plans fd hv seat] by auto
qed

lemma route_runs: "route runs ps = Inr routed \<Longrightarrow> (p, r) \<in> set routed \<Longrightarrow> runs (seat_worker (pl_seat p)) = Some r"
  by (induction ps arbitrary: routed) (auto split: option.splits sum.splits simp: map_sum_def)

text \<open>
  C17: the outcome of a fan-out that was not refused has one child for each seat of the console, in
  order, the ones the request never named included. A child counts as a success exactly when its
  harvest says so, and then it was issued under the id derived for its seat. A collation is asked for
  exactly when some child succeeded; the coverage and the list of missing seats it is given are the
  true ones, and its brief names every report and every missing lens. Before it, the replies of the
  children that succeeded are published in one call, one for each of them in order, under its task,
  worker and lens, each as a harvest of that lens answered it; otherwise nothing is published.
\<close>

theorem fan_out_accounts_for_seats:
  fixes inp :: "('r, 'p, 'w \<times> ('r, 'p) relay_event list) relay_input"
  assumes "rl_transport inp = watched t" and "fanOut inp seats (w, []) = (Inr oc, (w', evs))" and "\<nexists>why. oc = Refused why"
  shows "children_of (dq_parent_task_id (rl_request inp)) (dq_requests (rl_request inp)) seats (outcome_children oc)
    \<and> (case collation_of oc of
         None \<Rightarrow> (\<exists>ch. oc = None_landed ch) \<or> filter rc_succeeded (outcome_children oc) = []
       | Some (c, cov, missing) \<Rightarrow>
           tr_worker c = rl_sender inp \<and> collationTaskId (dq_parent_task_id (rl_request inp)) = Inr (tr_taskId c)
           \<and> cv_reported cov = length (filter rc_succeeded (outcome_children oc)) \<and> cv_reported cov > 0
           \<and> cv_dispatched cov = length seats
           \<and> missing = map seat_of [x \<leftarrow> outcome_children oc. \<not> rc_succeeded x]
           \<and> (\<exists>ls. rd_brief c = Collation_brief ls
               \<and> (\<forall>x \<in> set (outcome_children oc).
                    if rc_succeeded x then \<exists>i. rc_taskId x = Some i \<and> Report_at (rc_aspect x) (rc_worker x) i \<in> set ls
                    else Missing_aspect (rc_aspect x) (rc_worker x) (rc_note x) \<in> set ls)
               \<and> Coverage_line (cv_reported cov) (cv_dispatched cov) \<in> set ls))
    \<and> (if collation_of oc = None then published evs = []
       else \<exists>replies. published evs = [replies]
         \<and> map reply_head replies = map child_head (filter rc_succeeded (outcome_children oc))
         \<and> (\<forall>q \<in> set replies. \<exists>p r h w0. seat_aspect (pl_seat p) = pr_aspect q \<and> rl_runs inp (seat_worker (pl_seat p)) = Some r
              \<and> fst (rt_harvest t r (ref_of p) w0) = Inr h \<and> rh_verdict h = Success \<and> pr_reply q = rh_reply h))"
proof -
  note outcome = fan_out_outcome [OF assms(2,3)]
  let ?parent = "dq_parent_task_id (rl_request inp)"
  obtain collationId plans collatorRun routed where
    rt: "route (rl_runs inp) plans = Inr routed"
    and rc: "run_children (watched t) collatorRun (rl_sender inp) collationId ?parent seats plans routed (w, []) = (Inr oc, (w', evs))"
    using assms by (auto simp: fanOut_def Let_def split: sum.splits option.splits)
  obtain fd and hv :: "string \<Rightarrow> 'p harvest_answer option" where
    ch: "outcome_children oc = map (child_of plans fd hv) seats"
    and pub: "published evs = (if collation_of oc = None then []
        else [concat (map (published_of hv) (filter rc_succeeded (outcome_children oc)))])"
    and hv: "\<forall>a ans. hv a = Some ans \<longrightarrow>
        (\<exists>p r w0. (p, r) \<in> set routed \<and> seat_aspect (pl_seat p) = a \<and> fst (rt_harvest t r (ref_of p) w0) = ans)"
    using run_children_published [OF rc] by auto
  let ?replies = "concat (map (published_of hv) (filter rc_succeeded (outcome_children oc)))"
  have heads: "map reply_head ?replies = map child_head (filter rc_succeeded (outcome_children oc))"
    unfolding ch by (rule published_heads)
  have replies: "\<exists>p r h w0. seat_aspect (pl_seat p) = pr_aspect q \<and> rl_runs inp (seat_worker (pl_seat p)) = Some r
      \<and> fst (rt_harvest t r (ref_of p) w0) = Inr h \<and> rh_verdict h = Success \<and> pr_reply q = rh_reply h"
    if q: "q \<in> set ?replies" for q
  proof -
    obtain h where "hv (pr_aspect q) = Some (Inr h)" "rh_verdict h = Success" "pr_reply q = rh_reply h"
      using published_replies q unfolding ch by blast
    moreover obtain p r w0 where "(p, r) \<in> set routed" "seat_aspect (pl_seat p) = pr_aspect q"
      "fst (rt_harvest t r (ref_of p) w0) = Inr h" using hv calculation(1) by blast
    ultimately show ?thesis using route_runs [OF rt] by blast
  qed
  show ?thesis using outcome pub heads replies by (simp only: if_splits) blast
qed

section \<open>A fan-out, evaluated\<close>

text \<open>Three reviewers: the second one's harvest fails and the third one's dispatch never lands.\<close>

definition sample_transport :: "(nat, nat, nat) relay_transport" where
  "sample_transport =
    \<lparr>rt_dispatch = (\<lambda>r d w. (if tr_worker d = ''rev-lang-1'' then Some ''gone'' else None, Suc w)),
     rt_awaitSettled = (\<lambda>r i w. (None, Suc w)),
     rt_harvest = (\<lambda>r i w. (if tr_worker i = ''rev-ctx-1'' then Inl (''torn'', Some Empty_outbox)
        else Inr \<lparr>rh_verdict = Success, rh_reply = r, rh_inlined = [], rh_envelope = Some Envelope_present, rh_outbox = None\<rparr>, Suc w)),
     rt_publishReplies = (\<lambda>r i ps w. (None, Suc w))\<rparr>"

definition sample_relay_input :: "('r, 'p, 'w) relay_transport \<Rightarrow> (nat \<Rightarrow> 'r) \<Rightarrow> ('r, 'p, 'w) relay_input" where
  "sample_relay_input t run =
    \<lparr>rl_request = \<lparr>dq_parent_task_id = ''T1'', dq_requests =
        map (\<lambda>w. \<lparr>ri_worker = w, ri_title = ''t'', ri_brief = ''b'', ri_services = None\<rparr>) [''rev-arch-1'', ''rev-ctx-1'', ''rev-lang-1'']\<rparr>,
     rl_sender = ''rev-1'', rl_runs = (\<lambda>w. Some (run 0)), rl_transport = t, rl_aspects = None\<rparr>"

lemma sample_outcome:
  "case fst (fanOut (sample_relay_input (watched sample_transport) (\<lambda>n. n)) REVIEW_CONSOLE_ASPECTS (0, [])) of
     Inr (Collated c cov ch m) \<Rightarrow> map rc_succeeded ch = [True, False, False] \<and> m = tl REVIEW_CONSOLE_ASPECTS
   | _ \<Rightarrow> False"
  by code_simp

theorem fan_out_accounts_for_seats_witness:
  "\<exists>c cov ch m w' evs replies.
      fanOut (sample_relay_input (watched sample_transport) (\<lambda>n. n)) REVIEW_CONSOLE_ASPECTS (0, []) = (Inr (Collated c cov ch m), (w', evs))
    \<and> map seat_of ch = REVIEW_CONSOLE_ASPECTS \<and> cv_reported cov = 1 \<and> cv_dispatched cov = 3
    \<and> m = tl REVIEW_CONSOLE_ASPECTS \<and> published evs = [replies] \<and> length replies = 1"
proof -
  let ?in = "sample_relay_input (watched sample_transport) (\<lambda>n. n)"
  have t: "rl_transport ?in = watched sample_transport" by (simp add: sample_relay_input_def)
  obtain c cov ch m w' evs where
    r: "fanOut ?in REVIEW_CONSOLE_ASPECTS (0, []) = (Inr (Collated c cov ch m), (w', evs))"
    and ch: "map rc_succeeded ch = [True, False, False]" "m = tl REVIEW_CONSOLE_ASPECTS"
    using sample_outcome
    by (cases "fanOut ?in REVIEW_CONSOLE_ASPECTS (0 :: nat, [])") (auto split: sum.splits relay_outcome.splits)
  have "length (filter rc_succeeded ch) = length (filter id (map rc_succeeded ch))" by (simp add: filter_map comp_def)
  then have len: "length (filter rc_succeeded ch) = 1" using ch by simp
  note all = fan_out_accounts_for_seats [OF t r, simplified]
  then obtain replies where p: "published evs = [replies]" "map reply_head replies = map child_head (filter rc_succeeded ch)"
    by auto
  have "length replies = 1" using arg_cong [OF p(2), of length] len by simp
  moreover have "map seat_of ch = REVIEW_CONSOLE_ASPECTS \<and> cv_reported cov = 1 \<and> cv_dispatched cov = 3"
    using all len by (auto simp: children_of_def REVIEW_CONSOLE_ASPECTS_def)
  ultimately show ?thesis using r ch(2) p(1) by blast
qed

lemma sample_watched_outcome:
  "case fst (fanOut (sample_relay_input (watched sample_transport) (\<lambda>n. n)) REVIEW_CONSOLE_ASPECTS (0, [])) of
     Inr (Refused why) \<Rightarrow> False | _ \<Rightarrow> True"
  by code_simp

theorem fan_out_order_witness:
  "\<exists>res w' evs landed routed collatorRun collationId replies.
     fanOut (sample_relay_input (watched sample_transport) (\<lambda>n. n)) REVIEW_CONSOLE_ASPECTS (0, []) = (res, (w', evs))
     \<and> evs = map (\<lambda>(p, r). Did_dispatch r (dispatch_of p)) routed @ map (\<lambda>(p, r). Did_await r (ref_of p)) landed
          @ map (\<lambda>(p, r). Did_harvest r (ref_of p)) landed @ closing collatorRun collationId replies res"
proof -
  let ?in = "sample_relay_input (watched sample_transport) (\<lambda>n. n)"
  obtain res w' evs where r: "fanOut ?in REVIEW_CONSOLE_ASPECTS (0, []) = (res, (w', evs))" by (metis prod.exhaust)
  have t: "rl_transport ?in = watched sample_transport" by (simp add: sample_relay_input_def)
  have no: "\<nexists>why. res = Inr (Refused why)" using sample_watched_outcome r by auto
  from fan_out_order [OF t r] no show ?thesis using r by blast
qed

end
