(* ===== verification/Relay_Transport.thy ===== *)
theory Relay_Transport
  imports Relay Js_Text Jsonl
begin

text \<open>
  The console's transport (\<open>consoleTransport\<close> of \<open>src/run/relay.ts\<close>): a dispatch that never types
  a brief into a pane, the wait for the record of a task, the harvest with its inlined artifacts,
  and where the run of each worker is looked up. What lies below them (the sockets, the launch
  records, the file system, the clock) is a record of effects on a world; whether a worker is live
  in a run is a function of the two.
\<close>

definition RELAY_SETTLE_POLL_MS :: int where "RELAY_SETTLE_POLL_MS = 100"
definition RELAY_SETTLE_DEADLINE_MS :: int where "RELAY_SETTLE_DEADLINE_MS = 1800000"
definition RELAY_CHILD_DEADLINE_MARGIN_MS :: int where "RELAY_CHILD_DEADLINE_MARGIN_MS = 300000"

text \<open>\<open>Math.floor((bound - margin) / 1000)\<close>; less than a second is a \<open>RangeError\<close>, with what was derived.\<close>

definition childDeadlineS :: "int \<Rightarrow> int + int" where
  "childDeadlineS settleDeadlineMs =
    (let seconds = (settleDeadlineMs - RELAY_CHILD_DEADLINE_MARGIN_MS) div 1000 in
     if seconds < 1 then Inl seconds else Inr seconds)"

datatype delivery_plane = Plane_rpc | Plane_staged | Plane_typed | Plane_unknown
datatype sent_via = Via_rpc | Via_pane | Via_staged

record send_outcome =
  so_accepted :: bool
  so_via :: sent_via
  so_reason :: "string option"
  so_error :: "string option"

record 'b harvest_view =
  hv_verdict :: verdict
  hv_artifacts :: "(string \<times> int) list"
  hv_unreadableEnvelope :: "relay_unreadable option"
  hv_envelopeRead :: "envelope_reading option"
  hv_envelopeRefusal :: "string option"
  hv_taskOutbox :: "relay_outbox_listing option"
  hv_bundle :: 'b

text \<open>An effect gives an answer or throws.\<close>

record ('r, 'b, 'w) relay_effects =
  fx_deliveryPlane :: "'r \<Rightarrow> worker_id \<Rightarrow> 'w \<Rightarrow> (string + delivery_plane) \<times> 'w"
  fx_sendTask :: "'r \<Rightarrow> relay_dispatch \<Rightarrow> int \<Rightarrow> 'w \<Rightarrow> (string + send_outcome) \<times> 'w"
  fx_readTaskRecord :: "'r \<Rightarrow> relay_task_ref \<Rightarrow> 'w \<Rightarrow> (string + bool) \<times> 'w"
  fx_harvestTask :: "'r \<Rightarrow> task_id \<Rightarrow> 'w \<Rightarrow> (string + 'b harvest_view) \<times> 'w"
  fx_listTaskOutbox :: "'r \<Rightarrow> relay_task_ref \<Rightarrow> 'w \<Rightarrow> (string + relay_outbox_listing) \<times> 'w"
  fx_readArtifact :: "'r \<Rightarrow> worker_id \<Rightarrow> string \<Rightarrow> int \<Rightarrow> 'w \<Rightarrow> (units \<times> string option) \<times> 'w"
  fx_now :: "'w \<Rightarrow> int \<times> 'w"
  fx_sleep :: "int \<Rightarrow> 'w \<Rightarrow> 'w"

section \<open>Dispatch\<close>

datatype dispatch_problem =
    Types_the_brief | Plane_not_known | Plane_unread string | Send_threw string | No_room_for_deadline int
  | Send_refused string string | Went_by_pane | Trigger_deferred string

definition send_problem :: "send_outcome \<Rightarrow> dispatch_problem option" where
  "send_problem out =
    (if \<not> so_accepted out then
       (let refusal = (case so_reason out of None \<Rightarrow> ''rejected'' | Some s \<Rightarrow> s) in
        Some (Send_refused refusal (case so_error out of None \<Rightarrow> refusal | Some e \<Rightarrow> e)))
     else if so_via out = Via_pane then Some Went_by_pane
     else case so_error out of None \<Rightarrow> None | Some e \<Rightarrow> Some (Trigger_deferred e))"

definition transport_dispatch ::
  "('r, 'b, 'w) relay_effects \<Rightarrow> int \<Rightarrow> 'r \<Rightarrow> relay_dispatch \<Rightarrow> 'w \<Rightarrow> dispatch_problem option \<times> 'w" where
  "transport_dispatch fx deadlineMs r d w =
    (case fx_deliveryPlane fx r (tr_worker d) w of
       (Inl e, w1) \<Rightarrow> (Some (Plane_unread e), w1)
     | (Inr plane, w1) \<Rightarrow>
         if plane = Plane_typed then (Some Types_the_brief, w1)
         else if plane = Plane_unknown then (Some Plane_not_known, w1)
         else case childDeadlineS deadlineMs of
           Inl s \<Rightarrow> (Some (No_room_for_deadline s), w1)
         | Inr deadlineS \<Rightarrow>
             case fx_sendTask fx r d deadlineS w1 of
               (Inl e, w2) \<Rightarrow> (Some (Send_threw e), w2)
             | (Inr out, w2) \<Rightarrow> (send_problem out, w2))"

section \<open>The wait for a record\<close>

datatype settled = Settled | Settle_timed_out int | Settle_threw string

partial_function (option) settle_loop ::
  "('r, 'b, 'w) relay_effects \<Rightarrow> int \<Rightarrow> int \<Rightarrow> int \<Rightarrow> 'r \<Rightarrow> relay_task_ref \<Rightarrow> 'w \<Rightarrow> (settled \<times> 'w) option" where
  "settle_loop fx deadlineMs pollMs started r i w =
    (case fx_readTaskRecord fx r i w of (record, w1) \<Rightarrow>
       (case record of
          Inl e \<Rightarrow> Some (Settle_threw e, w1)
        | Inr found \<Rightarrow>
            if found then Some (Settled, w1)
            else (case fx_now fx w1 of (t, w2) \<Rightarrow>
              if t - started \<ge> deadlineMs
              then Some (Settle_timed_out (fst (fx_now fx w2) - started), snd (fx_now fx w2))
              else settle_loop fx deadlineMs pollMs started r i (fx_sleep fx pollMs w2))))"

definition awaitSettled ::
  "('r, 'b, 'w) relay_effects \<Rightarrow> int \<Rightarrow> int \<Rightarrow> 'r \<Rightarrow> relay_task_ref \<Rightarrow> 'w \<Rightarrow> (settled \<times> 'w) option" where
  "awaitSettled fx deadlineMs pollMs r i w =
    (case fx_now fx w of (started, w1) \<Rightarrow> settle_loop fx deadlineMs pollMs started r i w1)"

section \<open>The harvest\<close>

definition inline_one ::
  "('r, 'b, 'w) relay_effects \<Rightarrow> 'r \<Rightarrow> worker_id \<Rightarrow> (string \<times> int) \<times> int \<Rightarrow> 'w \<Rightarrow> (inlined_artifact \<times> units) \<times> 'w" where
  "inline_one fx r worker a w =
    (case a of ((path, n), budget) \<Rightarrow>
       let ((content, unreadable), w1) = (if budget = 0 then (([], None), w) else fx_readArtifact fx r worker path budget w);
           included = (if unreadable = None then int (utf8_length content) else 0) in
       ((\<lparr>ia_path = path, ia_bytes = n, ia_included_bytes = included,
          ia_truncated = (unreadable = None \<and> included < n), ia_unreadable = unreadable\<rparr>, content), w1))"

fun inline_all ::
  "('r, 'b, 'w) relay_effects \<Rightarrow> 'r \<Rightarrow> worker_id \<Rightarrow> ((string \<times> int) \<times> int) list \<Rightarrow> 'w
    \<Rightarrow> (inlined_artifact \<times> units) list \<times> 'w" where
  "inline_all fx r worker [] w = ([], w)"
| "inline_all fx r worker (a # as) w =
    (let (x, w1) = inline_one fx r worker a w; (xs, w2) = inline_all fx r worker as w1 in (x # xs, w2))"

definition transport_harvest ::
  "('r, 'b, 'w) relay_effects \<Rightarrow> 'r \<Rightarrow> relay_task_ref \<Rightarrow> 'w
    \<Rightarrow> (string \<times> relay_outbox_listing option + ('b harvest_view \<times> (inlined_artifact \<times> units) list) relay_harvest) \<times> 'w" where
  "transport_harvest fx r i w =
    (case fx_harvestTask fx r (tr_taskId i) w of
       (Inl e, w1) \<Rightarrow>
         (case fx_listTaskOutbox fx r i w1 of
            (Inl _, w2) \<Rightarrow> (Inl (e, None), w2)
          | (Inr outbox, w2) \<Rightarrow> (Inl (e, Some outbox), w2))
     | (Inr bundle, w1) \<Rightarrow>
         let budgets = planInlineBudget (map snd (hv_artifacts bundle)) MAX_REPLY_ARTIFACT_BYTES MAX_REPLY_INLINE_BYTES;
             (inlined, w2) = inline_all fx r (tr_worker i) (zip (hv_artifacts bundle) budgets) w1 in
         (Inr \<lparr>rh_verdict = hv_verdict bundle, rh_reply = (bundle, inlined), rh_inlined = map fst inlined,
               rh_envelope = relayEnvelopeState (hv_unreadableEnvelope bundle) (hv_envelopeRead bundle) (hv_envelopeRefusal bundle),
               rh_outbox = hv_taskOutbox bundle\<rparr>, w2))"

section \<open>The run of each worker\<close>

record ('k, 'r) console_runs =
  cn_runs :: "('k \<times> 'r) list"
  cn_ambiguous :: "('k \<times> 'r list) list"

text \<open>\<open>Map.set\<close>: a worker that is named twice keeps its place.\<close>

fun own_runs ::
  "worker_id \<Rightarrow> 'r \<Rightarrow> ('r \<Rightarrow> worker_id \<Rightarrow> bool) \<Rightarrow> worker_id list \<Rightarrow> (worker_id \<times> 'r) list \<times> worker_id list" where
  "own_runs collator collatorRun hasWorker [] = ([], [])"
| "own_runs collator collatorRun hasWorker (k # ks) =
    (let (runs, unresolved) = own_runs collator collatorRun hasWorker ks in
     if k = collator \<or> hasWorker collatorRun k then ((k, collatorRun) # runs, unresolved) else (runs, k # unresolved))"

fun other_runs :: "('r \<Rightarrow> worker_id \<Rightarrow> bool) \<Rightarrow> 'r list \<Rightarrow> worker_id list \<Rightarrow> (worker_id, 'r) console_runs" where
  "other_runs hasWorker candidates [] = \<lparr>cn_runs = [], cn_ambiguous = []\<rparr>"
| "other_runs hasWorker candidates (k # ks) =
    (let m = other_runs hasWorker candidates ks in
     case [r \<leftarrow> candidates. hasWorker r k] of
       [] \<Rightarrow> m
     | [r] \<Rightarrow> m\<lparr>cn_runs := (k, r) # cn_runs m\<rparr>
     | rs \<Rightarrow> m\<lparr>cn_ambiguous := (k, rs) # cn_ambiguous m\<rparr>)"

definition resolveConsoleRuns ::
  "worker_id \<Rightarrow> 'r \<Rightarrow> worker_id list \<Rightarrow> 'r list \<Rightarrow> ('r \<Rightarrow> worker_id \<Rightarrow> bool) \<Rightarrow> (worker_id, 'r) console_runs" where
  "resolveConsoleRuns collator collatorRun workers candidates hasWorker =
    (let (runs, unresolved) = own_runs collator collatorRun hasWorker workers;
         m = (if unresolved = [] then \<lparr>cn_runs = [], cn_ambiguous = []\<rparr> else other_runs hasWorker candidates unresolved) in
     m\<lparr>cn_runs := js_map (runs @ cn_runs m), cn_ambiguous := js_map (cn_ambiguous m)\<rparr>)"

text \<open>\<open>PIFLEET_RELAY_RUNS\<close>: pairs of a worker and a run, with commas between them.\<close>

definition pin_of :: "string \<Rightarrow> (string \<times> string) list" where
  "pin_of pair =
    (let k = takeWhile (\<lambda>c. c \<noteq> CHR ''='') pair in
     if k = [] \<or> k = pair then []
     else let worker = trim_string k; runId = trim_string (drop (length k + 1) pair) in
       if worker \<noteq> '''' \<and> runId \<noteq> '''' then [(worker, runId)] else [])"

definition relayRunPins :: "string option \<Rightarrow> (string \<times> string) list option" where
  "relayRunPins raw =
    (case raw of None \<Rightarrow> None
     | Some s \<Rightarrow> if trim_string s = '''' then None else Some (js_map (concat (map pin_of (split_on CHR '','' s)))))"

fun pinned_runs ::
  "worker_id \<Rightarrow> 'r \<Rightarrow> (string \<times> string) list \<Rightarrow> (string \<Rightarrow> 'r) \<Rightarrow> ('r \<Rightarrow> worker_id \<Rightarrow> bool) \<Rightarrow> worker_id list
    \<Rightarrow> (worker_id \<times> 'r) list \<times> worker_id list" where
  "pinned_runs sender run pins runFor isLive [] = ([], [])"
| "pinned_runs sender run pins runFor isLive (k # ks) =
    (let (runs, decayed) = pinned_runs sender run pins runFor isLive ks in
     if k = sender then ((k, run) # runs, decayed)
     else case map_of pins k of None \<Rightarrow> (runs, decayed)
       | Some runId \<Rightarrow> if isLive (runFor runId) k then ((k, runFor runId) # runs, decayed) else (runs, k # decayed))"

definition consoleRunResolution ::
  "string option \<Rightarrow> (string \<Rightarrow> 'r) \<Rightarrow> string list \<Rightarrow> ('r \<Rightarrow> worker_id \<Rightarrow> bool) \<Rightarrow> worker_id \<Rightarrow> 'r \<Rightarrow> aspect_seat list
    \<Rightarrow> (worker_id, 'r) console_runs" where
  "consoleRunResolution pinned runFor runIds isLive sender run aspects =
    (let workers = sender # map seat_worker aspects;
         sweep = resolveConsoleRuns sender run workers (map runFor (rev runIds)) isLive in
     case relayRunPins pinned of None \<Rightarrow> sweep
     | Some pins \<Rightarrow>
         let (runs, decayed) = pinned_runs sender run pins runFor isLive workers in
         if decayed = [] then \<lparr>cn_runs = js_map runs, cn_ambiguous = []\<rparr> else sweep)"


section \<open>Dispatches land only where nothing is typed\<close>

lemma child_deadline_in_time:
  "childDeadlineS ms = Inr s \<Longrightarrow> 1 \<le> s \<and> s * 1000 + RELAY_CHILD_DEADLINE_MARGIN_MS \<le> ms"
  using div_times_le [of 1000 "ms - RELAY_CHILD_DEADLINE_MARGIN_MS"]
  by (auto simp: childDeadlineS_def Let_def split: if_splits)

lemma send_problem_None: "send_problem out = None \<longleftrightarrow> so_accepted out \<and> so_via out \<noteq> Via_pane \<and> so_error out = None"
  by (auto simp: send_problem_def Let_def split: option.splits)

text \<open>
  C18: a brief, which a container wrote, is never typed into a pane. Where the delivery plane of the
  worker is not known to be a socket or a staged drop, nothing is sent at all and the dispatch
  fails. Elsewhere it lands exactly when the child's deadline leaves the join its margin and the
  worker accepted it, by another way than its pane, with its turn triggered.
\<close>

theorem dispatch_lands_iff:
  "case fx_deliveryPlane fx r (tr_worker d) w of (plane, w1) \<Rightarrow>
     (if plane = Inr Plane_rpc \<or> plane = Inr Plane_staged then
        (fst (transport_dispatch fx ms r d w) = None \<longleftrightarrow>
          (\<exists>s out w2. childDeadlineS ms = Inr s \<and> s * 1000 + RELAY_CHILD_DEADLINE_MARGIN_MS \<le> ms
             \<and> fx_sendTask fx r d s w1 = (Inr out, w2)
             \<and> so_accepted out \<and> so_via out \<noteq> Via_pane \<and> so_error out = None))
      else \<exists>why. transport_dispatch fx ms r d w = (Some why, w1))"
proof -
  obtain plane w1 where p: "fx_deliveryPlane fx r (tr_worker d) w = (plane, w1)" by fastforce
  show ?thesis
  proof (cases "plane = Inr Plane_rpc \<or> plane = Inr Plane_staged")
    case False
    then show ?thesis
      using p by (cases plane; cases "case plane of Inr q \<Rightarrow> q | Inl _ \<Rightarrow> Plane_typed") (auto simp: transport_dispatch_def)
  next
    case True
    then show ?thesis
      using p child_deadline_in_time [of ms]
      by (auto simp: transport_dispatch_def send_problem_None split: sum.splits prod.splits)
  qed
qed

section \<open>The wait ends\<close>

text \<open>A clock the effects read: it never goes back, and a sleep takes at least as long as asked.\<close>

definition keeps_time :: "('r, 'b, 'w) relay_effects \<Rightarrow> ('w \<Rightarrow> int) \<Rightarrow> bool" where
  "keeps_time fx clk \<longleftrightarrow>
    (\<forall>w. fst (fx_now fx w) = clk w \<and> clk w \<le> clk (snd (fx_now fx w)))
    \<and> (\<forall>w ms. clk w + ms \<le> clk (fx_sleep fx ms w))
    \<and> (\<forall>r i w. clk w \<le> clk (snd (fx_readTaskRecord fx r i w)))"

lemma settle_loop_ends:
  assumes "keeps_time fx clk" and "0 < pollMs"
  shows "\<exists>a w'. settle_loop fx deadlineMs pollMs started r i w = Some (a, w')
    \<and> (\<forall>ms. a = Settle_timed_out ms \<longrightarrow> deadlineMs \<le> ms)"
proof (induction "nat (deadlineMs + started - clk w)" arbitrary: w rule: less_induct)
  case less
  obtain found w1 where f: "fx_readTaskRecord fx r i w = (found, w1)" by fastforce
  obtain t w2 where n: "fx_now fx w1 = (t, w2)" by fastforce
  obtain t' w3 where n': "fx_now fx w2 = (t', w3)" by fastforce
  have k: "clk w \<le> clk w1" "t = clk w1" "clk w1 \<le> clk w2" "t' = clk w2"
    "clk w2 + pollMs \<le> clk (fx_sleep fx pollMs w2)"
    using assms(1) f n n' unfolding keeps_time_def by (metis fst_conv snd_conv)+
  show ?case
  proof (cases "found = Inr False \<and> \<not> t - started \<ge> deadlineMs")
    case True
    then have "nat (deadlineMs + started - clk (fx_sleep fx pollMs w2)) < nat (deadlineMs + started - clk w)"
      using k assms(2) by linarith
    from less(1) [OF this] show ?thesis
      using True f n by (subst settle_loop.simps) auto
  next
    case False
    then show ?thesis
      using f n n' k by (subst settle_loop.simps) (auto split: sum.splits)
  qed
qed

text \<open>
  The wait for a task ends, with a clock that keeps time: with the record, with an error of the
  read, or with a timeout that is not reported before the bound.
\<close>

theorem settle_wait_ends:
  assumes "keeps_time fx clk" and "0 < pollMs"
  shows "\<exists>a w'. awaitSettled fx deadlineMs pollMs r i w = Some (a, w')
    \<and> (\<forall>ms. a = Settle_timed_out ms \<longrightarrow> deadlineMs \<le> ms)"
  using settle_loop_ends [OF assms] by (auto simp: awaitSettled_def split: prod.splits)

definition sample_effects :: "(nat, unit, int) relay_effects" where
  "sample_effects =
    \<lparr>fx_deliveryPlane = (\<lambda>r k w. (Inr Plane_staged, w)),
     fx_sendTask = (\<lambda>r d s w. (Inr \<lparr>so_accepted = True, so_via = Via_staged, so_reason = None, so_error = None\<rparr>, w)),
     fx_readTaskRecord = (\<lambda>r i w. (Inr (w > 1000), w + 1)),
     fx_harvestTask = (\<lambda>r i w. (Inl ''none'', w)), fx_listTaskOutbox = (\<lambda>r i w. (Inr Empty_outbox, w)),
     fx_readArtifact = (\<lambda>r k p n w. (([], None), w)), fx_now = (\<lambda>w. (w, w)), fx_sleep = (\<lambda>ms w. w + max 0 ms + 1)\<rparr>"

theorem settle_wait_ends_witness:
  "\<exists>a w'. awaitSettled sample_effects RELAY_SETTLE_DEADLINE_MS RELAY_SETTLE_POLL_MS 0 \<lparr>tr_worker = ''w'', tr_taskId = ''t''\<rparr> 0
      = Some (a, w')
    \<and> (\<forall>ms. a = Settle_timed_out ms \<longrightarrow> RELAY_SETTLE_DEADLINE_MS \<le> ms)"
  by (rule settle_wait_ends [where clk = "\<lambda>w. w"]) (auto simp: keeps_time_def sample_effects_def RELAY_SETTLE_POLL_MS_def max_def)

section \<open>A worker's run is never guessed\<close>

lemma own_runs_spec:
  "map_of (fst (own_runs collator run hasWorker ks)) k
      = (if k \<in> set ks \<and> (k = collator \<or> hasWorker run k) then Some run else None)"
  "snd (own_runs collator run hasWorker ks) = [k \<leftarrow> ks. \<not> (k = collator \<or> hasWorker run k)]"
  by (induction ks) (auto simp: Let_def split: prod.splits if_splits)

lemma own_runs_values: "(k, r) \<in> set (fst (own_runs collator run hasWorker ks)) \<Longrightarrow> r = run \<and> k \<in> set ks \<and> (k = collator \<or> hasWorker run k)"
  by (induction ks) (auto simp: Let_def split: prod.splits if_splits)

lemma other_runs_values:
  "(k, r) \<in> set (cn_runs (other_runs hasWorker cs ks)) \<longleftrightarrow> k \<in> set ks \<and> [r \<leftarrow> cs. hasWorker r k] = [r]"
  by (induction ks) (auto simp: Let_def split: list.splits)

lemma other_runs_ambiguous:
  "(k, rs) \<in> set (cn_ambiguous (other_runs hasWorker cs ks)) \<longleftrightarrow> k \<in> set ks \<and> rs = [r \<leftarrow> cs. hasWorker r k] \<and> 2 \<le> length rs"
  by (induction ks) (auto simp: Let_def split: list.splits)

lemma map_of_functional:
  assumes "\<And>r'. (k, r') \<in> set ps \<Longrightarrow> r' = r"
  shows "map_of ps k = (if (k, r) \<in> set ps then Some r else None)"
  using assms by (metis map_of_SomeD map_of_eq_None_iff not_None_eq option.simps(3) weak_map_of_SomeI)

text \<open>
  A worker's run is the collator's own where the worker is the collator or is live there, and
  elsewhere the one run of the fleet that holds it: a worker no run holds has none, and neither has
  one that several hold, which is reported as ambiguous with all of them.
\<close>

theorem run_never_guessed:
  fixes collator run ks cs hasWorker defines "m \<equiv> resolveConsoleRuns collator run ks cs hasWorker"
  shows "(map_of (cn_runs m) k = Some r \<longleftrightarrow> k \<in> set ks \<and>
      (if k = collator \<or> hasWorker run k then r = run else [r \<leftarrow> cs. hasWorker r k] = [r]))
    \<and> (k \<in> fst ` set (cn_ambiguous m) \<longleftrightarrow> k \<in> set ks \<and> \<not> (k = collator \<or> hasWorker run k)
        \<and> 2 \<le> length [r \<leftarrow> cs. hasWorker r k])"
proof -
  let ?un = "[k \<leftarrow> ks. \<not> (k = collator \<or> hasWorker run k)]"
  define ow where "ow = fst (own_runs collator run hasWorker ks)"
  define q where "q = (if ?un = [] then \<lparr>cn_runs = [], cn_ambiguous = []\<rparr> else other_runs hasWorker cs ?un)"
  have os: "own_runs collator run hasWorker ks = (ow, ?un)"
    using own_runs_spec(2) [of collator run hasWorker ks] by (simp add: ow_def prod_eq_iff)
  have m: "cn_runs m = js_map (ow @ cn_runs q)" "cn_ambiguous m = js_map (cn_ambiguous q)"
    unfolding m_def resolveConsoleRuns_def os by (simp_all add: q_def Let_def)
  have qr: "(k, r) \<in> set (cn_runs q) \<longleftrightarrow> k \<in> set ?un \<and> [r \<leftarrow> cs. hasWorker r k] = [r]" for k r
    unfolding q_def using other_runs_values [of k r hasWorker cs ?un] by (cases "?un = []") (simp_all del: set_filter)
  have qa: "(k, rs) \<in> set (cn_ambiguous q) \<longleftrightarrow> k \<in> set ?un \<and> rs = [r \<leftarrow> cs. hasWorker r k] \<and> 2 \<le> length rs" for k rs
    unfolding q_def using other_runs_ambiguous [of k rs hasWorker cs ?un] by (cases "?un = []") (simp_all del: set_filter)
  have ov: "(k, r) \<in> set ow \<longleftrightarrow> r = run \<and> k \<in> set ks \<and> (k = collator \<or> hasWorker run k)" for k r
    using own_runs_values [of k r collator run hasWorker ks] own_runs_spec(1) [of collator run hasWorker ks k]
    unfolding ow_def by (auto dest: map_of_SomeD)
  have one: "r' = r" if "(k, r) \<in> set (rev (ow @ cn_runs q))" "(k, r') \<in> set (rev (ow @ cn_runs q))" for r r'
    using that ov qr by auto
  have "map_of (cn_runs m) k = Some r \<longleftrightarrow> (k, r) \<in> set (ow @ cn_runs q)"
    unfolding m(1) js_map_lookup using one by (metis map_of_SomeD set_rev weak_map_of_SomeI)
  moreover have "k \<in> fst ` set (cn_ambiguous m) \<longleftrightarrow> k \<in> fst ` set (cn_ambiguous q)"
    unfolding m(2) js_map_keys ..
  moreover have "k \<in> fst ` set (cn_ambiguous q) \<longleftrightarrow> (\<exists>rs. (k, rs) \<in> set (cn_ambiguous q))" by force
  ultimately show ?thesis by (auto simp: ov qr qa)
qed

section \<open>A cut that is not reported\<close>

text \<open>
  What the read brings is counted in the bytes of its decoded text, and a byte that is no UTF-8 is
  decoded to a character of three bytes: a document cut at the budget can seem whole.
\<close>

lemma decode_invalid:
  "needed d = 0 \<Longrightarrow> bom_seen d \<Longrightarrow> snd (utf8_decode d (replicate n 255)) = replicate n 65533"
proof (induction n arbitrary: d)
  case (Suc n)
  have "utf8_step d 255 = ((utf8_idle d)\<lparr>bom_seen := True\<rparr>, [65533])"
    using Suc.prems by (simp add: utf8_step_def utf8_lead_def utf8_emit_def utf16_def)
  with Suc.IH [of "(utf8_idle d)\<lparr>bom_seen := True\<rparr>"] show ?case by (auto simp: utf8_idle_def split: prod.splits)
qed simp

lemma wide_length: "utf8_length (replicate n 65533) = 3 * n"
proof -
  have "list_all (\<lambda>c. 0x800 \<le> c \<and> \<not> high_surrogate c) t \<Longrightarrow> utf8_length t = 3 * length t" for t
    by (induction t rule: utf8_length.induct) (auto simp: unit_bytes_def)
  from this [of "replicate n 65533"] show ?thesis by (simp add: list_all_iff high_surrogate_def)
qed

lemma cut_not_reported:
  fixes fx :: "(nat, unit, nat) relay_effects"
  defines "fx \<equiv> \<lparr>fx_deliveryPlane = (\<lambda>r k w. (Inr Plane_staged, w)), fx_sendTask = (\<lambda>r d s w. (Inl '''', w)),
     fx_readTaskRecord = (\<lambda>r i w. (Inr True, w)), fx_harvestTask = (\<lambda>r i w. (Inl '''', w)),
     fx_listTaskOutbox = (\<lambda>r i w. (Inr Empty_outbox, w)),
     fx_readArtifact = (\<lambda>r k p n w.
       ((map unat (snd (utf8_decode (utf8_start\<lparr>bom_seen := True\<rparr>) (replicate (nat n) 255))), None), w)),
     fx_now = (\<lambda>w. (0, w)), fx_sleep = (\<lambda>ms w. w)\<rparr>"
  shows "ia_truncated (fst (fst (inline_one fx 0 ''k'' ((''report'', 100000), MAX_REPLY_ARTIFACT_BYTES) 0))) = False
    \<and> MAX_REPLY_ARTIFACT_BYTES < 100000"
proof -
  have "map unat (snd (utf8_decode (utf8_start\<lparr>bom_seen := True\<rparr>) (replicate 65536 255))) = replicate 65536 65533"
    by (subst decode_invalid) (simp_all add: utf8_start_def)
  then show ?thesis by (simp add: inline_one_def fx_def MAX_REPLY_ARTIFACT_BYTES_def wide_length)
qed

end
