(* ===== verification/Relay_Journal.thy ===== *)
theory Relay_Journal
  imports Dispatch_Request "HOL-Library.Multiset" "HOL-Library.List_Lexorder"
begin

text \<open>
  The journal of a relay (\<open>src/run/relay-journal.ts\<close>): one file for each sender and task, written once
  the fan-out of its request has happened, and read before every fan-out. The files are a map from
  paths to what reading them gives. The lemmas show that the digest of a request does not depend on
  the order of its keys, that two slots never share a file, and what a slot answers after a record.
\<close>

definition RELAY_JOURNAL_SCHEMA :: string where "RELAY_JOURNAL_SCHEMA = ''pifleet.relayjournal/v1''"

datatype stored = Absent_file | Failing_file string | Body string

type_synonym journal = "host_path \<Rightarrow> stored"

record journal_codec =
  jc_parse :: "string \<Rightarrow> json option"
  jc_stringify :: "json \<Rightarrow> string"
  jc_sha256 :: "string \<Rightarrow> string"

definition relayJournalDir :: "host_path \<Rightarrow> host_path" where
  "relayJournalDir runRoot = join_path runRoot ''relay''"

definition relayJournalSenderDir :: "host_path \<Rightarrow> worker_id \<Rightarrow> string + host_path" where
  "relayJournalSenderDir runRoot sender =
    (if \<not> spellable sender then Inl sender else Inr (join_path (relayJournalDir runRoot) sender))"

definition relayJournalPath :: "host_path \<Rightarrow> worker_id \<Rightarrow> task_id \<Rightarrow> string + host_path" where
  "relayJournalPath runRoot sender taskId =
    (case relayJournalSenderDir runRoot sender of Inl e \<Rightarrow> Inl e
     | Inr dir \<Rightarrow> if \<not> spellable taskId then Inl taskId else Inr (join_path dir (taskId @ ''.json'')))"

section \<open>The digest of a request\<close>

definition item_json :: "request_item \<Rightarrow> json" where
  "item_json e = JObj ([(''worker'', JStr (ri_worker e)), (''title'', JStr (ri_title e)), (''brief'', JStr (ri_brief e))]
     @ (case ri_services e of None \<Rightarrow> [] | Some ss \<Rightarrow> [(''services'', JArr (map JStr ss))]))"

definition request_json :: "dispatch_request \<Rightarrow> json" where
  "request_json q = JObj [(''schema'', JStr DISPATCH_REQUEST_SCHEMA), (''parent_task_id'', JStr (dq_parent_task_id q)),
     (''requests'', JArr (map item_json (dq_requests q)))]"

text \<open>\<open>prim\<close> is \<open>JSON.stringify\<close> of what is neither an array nor an object.\<close>

primrec canonicalJson :: "(json \<Rightarrow> string) \<Rightarrow> json \<Rightarrow> string" where
  "canonicalJson prim JNull = prim JNull"
| "canonicalJson prim (JBool b) = prim (JBool b)"
| "canonicalJson prim (JNum n) = prim (JNum n)"
| "canonicalJson prim (JStr s) = prim (JStr s)"
| "canonicalJson prim (JArr vs) = ''['' @ join_with '','' (map (canonicalJson prim) vs) @ '']''"
| "canonicalJson prim (JObj ps) =
    ''{'' @ join_with '','' (map (\<lambda>(k, t). prim (JStr k) @ '':'' @ t)
      (sort_key fst (map (map_prod id (canonicalJson prim)) ps))) @ ''}''"

definition requestDigest :: "journal_codec \<Rightarrow> dispatch_request \<Rightarrow> string" where
  "requestDigest c q = jc_sha256 c (canonicalJson (jc_stringify c) (request_json q))"

text \<open>Two documents that differ in the order of the keys of their objects only.\<close>

inductive same_document :: "json \<Rightarrow> json \<Rightarrow> bool" where
  same_refl: "same_document v v"
| same_array: "list_all2 same_document vs ws \<Longrightarrow> same_document (JArr vs) (JArr ws)"
| same_object: "distinct (map fst ps) \<Longrightarrow> list_all2 (rel_prod (=) same_document) ps qs \<Longrightarrow> mset qs = mset rs
    \<Longrightarrow> same_document (JObj ps) (JObj rs)"

lemma canonical_same: "same_document v w \<Longrightarrow> canonicalJson prim v = canonicalJson prim w"
proof (induction rule: same_document.induct)
  case (same_array vs ws)
  then have "map (canonicalJson prim) vs = map (canonicalJson prim) ws"
    by (induction vs ws rule: list_all2_induct) auto
  then show ?case by simp
next
  case (same_object ps qs rs)
  let ?f = "map_prod id (canonicalJson prim)"
  from same_object.IH have eq: "map ?f ps = map ?f qs"
    by (induction ps qs rule: list_all2_induct) auto
  have keys: "map fst (map ?f qs) = map fst ps" unfolding eq [symmetric] by (simp add: comp_def)
  have "mset (map ?f qs) = mset (map ?f rs)" using same_object.hyps(2) by simp
  moreover have "inj_on fst (set (map ?f qs))"
    using same_object.hyps(1) keys by (metis distinct_map)
  ultimately have "sort_key fst (map ?f qs) = sort_key fst (map ?f rs)"
    by (intro sort_key_inj_key_eq) auto
  then show ?case using eq by simp
qed simp

section \<open>Reading an entry\<close>

record relay_journal_entry =
  je_sender :: worker_id
  je_parent_task_id :: task_id
  je_request_sha256 :: string
  je_children :: "task_id list"
  je_dispatched_at :: string

definition entry_json :: "relay_journal_entry \<Rightarrow> json" where
  "entry_json e = JObj [(''schema'', JStr RELAY_JOURNAL_SCHEMA), (''sender'', JStr (je_sender e)),
     (''parent_task_id'', JStr (je_parent_task_id e)), (''request_sha256'', JStr (je_request_sha256 e)),
     (''children'', JArr (map JStr (je_children e))), (''dispatched_at'', JStr (je_dispatched_at e))]"

datatype journal_problem =
    Illegal_id string | Read_failure string | Entry_not_json | Entry_not_object | Entry_schema
  | Entry_elsewhere | Entry_without_digest

text \<open>An entry stays the value that was read: the code checks four of its fields and passes the rest on.\<close>

datatype journal_read = Entry_missing | Entry_ok json string | Entry_unreadable journal_problem

definition readJournalEntry :: "journal_codec \<Rightarrow> journal \<Rightarrow> host_path \<Rightarrow> worker_id \<Rightarrow> task_id \<Rightarrow> journal_read" where
  "readJournalEntry c files runRoot sender taskId =
    (case relayJournalPath runRoot sender taskId of Inl i \<Rightarrow> Entry_unreadable (Illegal_id i)
     | Inr path \<Rightarrow>
         case files path of Absent_file \<Rightarrow> Entry_missing
         | Failing_file e \<Rightarrow> Entry_unreadable (Read_failure e)
         | Body body \<Rightarrow>
             case jc_parse c body of None \<Rightarrow> Entry_unreadable Entry_not_json
             | Some v \<Rightarrow>
                 if \<not> (is_object v \<or> as_array (Some v) \<noteq> None) then Entry_unreadable Entry_not_object
                 else if jprop v ''schema'' \<noteq> Some (JStr RELAY_JOURNAL_SCHEMA) then Entry_unreadable Entry_schema
                 else if jprop v ''sender'' \<noteq> Some (JStr sender) \<or> jprop v ''parent_task_id'' \<noteq> Some (JStr taskId)
                 then Entry_unreadable Entry_elsewhere
                 else case as_string (jprop v ''request_sha256'') of
                   None \<Rightarrow> Entry_unreadable Entry_without_digest
                 | Some d \<Rightarrow> if d = '''' then Entry_unreadable Entry_without_digest else Entry_ok v d)"

datatype journal_verdict = Fresh | Done json | Rewritten json string | Journal_unreadable journal_problem

definition classifyRequest ::
  "journal_codec \<Rightarrow> journal \<Rightarrow> host_path \<Rightarrow> worker_id \<Rightarrow> task_id \<Rightarrow> dispatch_request \<Rightarrow> journal_verdict" where
  "classifyRequest c files runRoot sender taskId q =
    (case readJournalEntry c files runRoot sender taskId of
       Entry_missing \<Rightarrow> Fresh
     | Entry_unreadable e \<Rightarrow> Journal_unreadable e
     | Entry_ok v d \<Rightarrow> if d = requestDigest c q then Done v else Rewritten v (requestDigest c q))"

section \<open>Recording a dispatch\<close>

text \<open>
  The entry is written to a temporary file and renamed over its path. What the file system does
  with that is a parameter: it may fail before the entry stands, or after (the mode of the file, the
  sync of the directory).
\<close>

datatype write_fault = Fails_before string | Fails_after string

definition new_entry :: "journal_codec \<Rightarrow> worker_id \<Rightarrow> task_id \<Rightarrow> dispatch_request \<Rightarrow> task_id list \<Rightarrow> string \<Rightarrow> relay_journal_entry" where
  "new_entry c sender taskId q children now =
    \<lparr>je_sender = sender, je_parent_task_id = taskId, je_request_sha256 = requestDigest c q, je_children = children,
     je_dispatched_at = now\<rparr>"

definition recordDispatch ::
  "journal_codec \<Rightarrow> write_fault option \<Rightarrow> string \<Rightarrow> host_path \<Rightarrow> worker_id \<Rightarrow> task_id \<Rightarrow> dispatch_request \<Rightarrow> task_id list
    \<Rightarrow> journal \<Rightarrow> string option \<times> journal" where
  "recordDispatch c fault now runRoot sender taskId q children files =
    (case relayJournalPath runRoot sender taskId of Inl i \<Rightarrow> (Some i, files)
     | Inr path \<Rightarrow>
         let written = files(path := Body (jc_stringify c (entry_json (new_entry c sender taskId q children now)))) in
         case fault of None \<Rightarrow> (None, written)
         | Some (Fails_before e) \<Rightarrow> (Some e, files)
         | Some (Fails_after e) \<Rightarrow> (Some e, written))"

section \<open>The slots of the journal\<close>

lemma journal_path:
  assumes "relayJournalPath runRoot sender taskId = Inr path"
  shows "path = runRoot @ [''relay'', sender, taskId @ ''.json''] \<and> spellable sender \<and> spellable taskId"
proof -
  have sp: "spellable sender" "spellable taskId"
    using assms by (auto simp: relayJournalPath_def relayJournalSenderDir_def split: if_splits)
  have "plain_segment ''relay''" by (simp add: plain_segment_def)
  moreover have "plain_segment (taskId @ ''.json'')"
    using spellable_segment [OF sp(2)] by (cases taskId) (auto simp: plain_segment_def)
  ultimately show ?thesis
    using assms sp spellable_segment [OF sp(1)]
    by (simp add: relayJournalPath_def relayJournalSenderDir_def relayJournalDir_def join_segment)
qed

lemma journal_path_spellable:
  "spellable sender \<Longrightarrow> spellable taskId \<Longrightarrow> \<exists>path. relayJournalPath runRoot sender taskId = Inr path"
  by (simp add: relayJournalPath_def relayJournalSenderDir_def)

lemma journal_path_inj:
  assumes "relayJournalPath runRoot s t = Inr path" and "relayJournalPath runRoot s' t' = Inr path"
  shows "s = s' \<and> t = t'"
  using journal_path [OF assms(1)] journal_path [OF assms(2)] by simp

lemma fresh_iff:
  "classifyRequest c files runRoot sender taskId q = Fresh \<longleftrightarrow>
    (\<exists>path. relayJournalPath runRoot sender taskId = Inr path \<and> files path = Absent_file)"
  by (auto simp: classifyRequest_def readJournalEntry_def split: sum.splits stored.splits option.splits if_splits)

lemma entry_reads_back:
  assumes "je_request_sha256 e \<noteq> ''''"
  shows "is_object (entry_json e) \<and> jprop (entry_json e) ''schema'' = Some (JStr RELAY_JOURNAL_SCHEMA)
    \<and> jprop (entry_json e) ''sender'' = Some (JStr (je_sender e))
    \<and> jprop (entry_json e) ''parent_task_id'' = Some (JStr (je_parent_task_id e))
    \<and> jprop (entry_json e) ''request_sha256'' = Some (JStr (je_request_sha256 e))
    \<and> jprop (entry_json e) ''children'' = Some (JArr (map JStr (je_children e)))"
  by (simp add: entry_json_def)

text \<open>
  Once a dispatch is recorded, its slot answers every later request: done, with the children that
  were dispatched, where the digest is the recorded one, and rewritten, never fresh, where it is
  another. Every other slot answers as it did before.
\<close>

theorem journal_answers_recorded:
  assumes "recordDispatch c None now runRoot sender taskId q children files = (None, files')"
    and "jc_parse c (jc_stringify c (entry_json (new_entry c sender taskId q children now)))
      = Some (entry_json (new_entry c sender taskId q children now))"
    and "requestDigest c q \<noteq> ''''"
  shows "classifyRequest c files' runRoot sender taskId q'
      = (let e = entry_json (new_entry c sender taskId q children now) in
         if requestDigest c q' = requestDigest c q then Done e else Rewritten e (requestDigest c q'))
    \<and> jprop (entry_json (new_entry c sender taskId q children now)) ''children'' = Some (JArr (map JStr children))
    \<and> ((s, t) \<noteq> (sender, taskId) \<longrightarrow>
        classifyRequest c files' runRoot s t q' = classifyRequest c files runRoot s t q')"
proof -
  let ?e = "new_entry c sender taskId q children now"
  from assms(1) obtain path where path: "relayJournalPath runRoot sender taskId = Inr path"
    and files': "files' = files(path := Body (jc_stringify c (entry_json ?e)))"
    by (auto simp: recordDispatch_def Let_def split: sum.splits)
  have "readJournalEntry c files' runRoot sender taskId = Entry_ok (entry_json ?e) (requestDigest c q)"
    using entry_reads_back [of ?e] assms(2,3) path
    by (auto simp: readJournalEntry_def files' new_entry_def)
  moreover have "readJournalEntry c files' runRoot s t = readJournalEntry c files runRoot s t" if "(s, t) \<noteq> (sender, taskId)"
  proof (cases "relayJournalPath runRoot s t")
    case (Inr p)
    then have "p \<noteq> path" using journal_path_inj path that by blast
    then show ?thesis by (simp add: readJournalEntry_def Inr files')
  qed (simp add: readJournalEntry_def)
  ultimately show ?thesis
    using entry_reads_back [of ?e] assms(3) by (auto simp: classifyRequest_def Let_def new_entry_def)
qed

definition sample_journal_codec :: "json \<Rightarrow> journal_codec" where
  "sample_journal_codec v =
    \<lparr>jc_parse = (\<lambda>s. Some v), jc_stringify = (\<lambda>v. ''x''), jc_sha256 = (\<lambda>s. ''d'')\<rparr>"

definition sample_entry :: relay_journal_entry where
  "sample_entry = \<lparr>je_sender = ''col-1'', je_parent_task_id = ''T1'', je_request_sha256 = ''d'', je_children = [''T1-arch''],
     je_dispatched_at = ''now''\<rparr>"

theorem journal_answers_recorded_witness:
  "\<exists>files'. recordDispatch (sample_journal_codec (entry_json sample_entry)) None ''now'' [] ''col-1'' ''T1''
        sample_dispatch_request [''T1-arch''] (\<lambda>p. Absent_file) = (None, files')
    \<and> classifyRequest (sample_journal_codec (entry_json sample_entry)) files' [] ''col-1'' ''T1'' sample_dispatch_request
        = Done (entry_json sample_entry)"
proof -
  let ?c = "sample_journal_codec (entry_json sample_entry)"
  have sp: "spellable ''col-1''" "spellable ''T1''" by code_simp+
  then obtain path where "relayJournalPath [] ''col-1'' ''T1'' = Inr path" using journal_path_spellable by blast
  then obtain files' where r: "recordDispatch ?c None ''now'' [] ''col-1'' ''T1'' sample_dispatch_request [''T1-arch'']
      (\<lambda>p. Absent_file) = (None, files')"
    by (simp add: recordDispatch_def Let_def)
  have e: "new_entry ?c ''col-1'' ''T1'' sample_dispatch_request [''T1-arch''] ''now'' = sample_entry"
    by (simp add: new_entry_def sample_entry_def requestDigest_def sample_journal_codec_def)
  have d: "requestDigest ?c sample_dispatch_request \<noteq> ''''" by (simp add: requestDigest_def sample_journal_codec_def)
  have "jc_parse ?c (jc_stringify ?c (entry_json sample_entry)) = Some (entry_json sample_entry)"
    by (simp add: sample_journal_codec_def)
  from journal_answers_recorded [OF r _ d, unfolded e, OF this, of sample_dispatch_request, THEN conjunct1] r
  show ?thesis by (auto simp: Let_def)
qed

text \<open>
  The digest of a document is the digest of any other that differs from it in the order of the keys
  of its objects only.
\<close>

theorem digest_ignores_key_order:
  assumes "same_document v w"
  shows "jc_sha256 c (canonicalJson (jc_stringify c) v) = jc_sha256 c (canonicalJson (jc_stringify c) w)"
  using canonical_same [OF assms] by simp

theorem digest_ignores_key_order_witness:
  "canonicalJson (\<lambda>v. ''p'') (JObj [(''b'', JNull), (''a'', JArr [JObj [(''d'', JNull), (''c'', JBool True)]])])
   = canonicalJson (\<lambda>v. ''p'') (JObj [(''a'', JArr [JObj [(''c'', JBool True), (''d'', JNull)]]), (''b'', JNull)])"
proof -
  let ?x = "JObj [(''d'', JNull), (''c'', JBool True)]" and ?y = "JObj [(''c'', JBool True), (''d'', JNull)]"
  have "same_document ?x ?y"
    by (rule same_object [where qs = "[(''d'', JNull), (''c'', JBool True)]"]) (auto intro: same_refl)
  then have "same_document (JObj [(''b'', JNull), (''a'', JArr [?x])]) (JObj [(''a'', JArr [?y]), (''b'', JNull)])"
    by (intro same_object [where qs = "[(''b'', JNull), (''a'', JArr [?y])]"]) (auto intro: same_refl same_array)
  from digest_ignores_key_order [OF this, of "\<lparr>jc_parse = (\<lambda>s. None), jc_stringify = (\<lambda>v. ''p''), jc_sha256 = (\<lambda>s. s)\<rparr>"]
  show ?thesis by simp
qed
end
