(* ===== verification/Relay_Pass.thy ===== *)
theory Relay_Pass
  imports Relay_Transport Relay_Journal
begin

text \<open>
  The relay command (\<open>src/cli/commands/relay.ts\<close>) and what it runs for a request
  (\<open>makeConsoleFanOut\<close> of \<open>src/run/relay.ts\<close>): one pass over the inbox of a run reads the request a
  worker of the console may have left for each task, asks the journal whether it was acted on, fans
  it out and records it. The lemmas compose the passes with the journal and show what any sequence
  of them dispatches, whatever the workers write in between.
\<close>

section \<open>The fan-out of a console\<close>

datatype 'r fan_reason =
    Outcome_refused relay_refusal | Outcome_none_landed "relay_child list" | Runs_ambiguous "(worker_id \<times> 'r list) list"

text \<open>A dispatched request carries the children and, where the collation could not be delivered, why.\<close>

datatype 'r fan_out_result = Fan_dispatched "task_id list" "string option" | Fan_not_dispatched "'r fan_reason"

definition issued_children :: "relay_child list \<Rightarrow> task_id list" where
  "issued_children cs = concat (map (\<lambda>c. case rc_taskId c of None \<Rightarrow> [] | Some i \<Rightarrow> [i]) (filter rc_issued cs))"

definition toFanOutResult :: "relay_outcome \<Rightarrow> 'r fan_out_result" where
  "toFanOutResult outcome =
    (case outcome of
       Refused e \<Rightarrow> Fan_not_dispatched (Outcome_refused e)
     | None_landed cs \<Rightarrow> Fan_not_dispatched (Outcome_none_landed cs)
     | Collation_failed d cv cs ms e \<Rightarrow> Fan_dispatched (issued_children cs) (Some e)
     | Collated d cv cs ms \<Rightarrow> Fan_dispatched (issued_children cs) None
     | Not_collated cs \<Rightarrow> Fan_dispatched (issued_children cs) None)"

datatype fan_error = Bad_aspects seat_error | Transport_threw string

definition makeConsoleFanOut ::
  "(worker_id, 'r) console_runs \<Rightarrow> ('r, 'p, 'w) relay_transport \<Rightarrow> aspect_seat list option \<Rightarrow> worker_id \<Rightarrow> dispatch_request
    \<Rightarrow> 'w \<Rightarrow> (fan_error + 'r fan_out_result) \<times> 'w" where
  "makeConsoleFanOut m t aspects sender q w =
    (if cn_ambiguous m \<noteq> [] then (Inr (Fan_not_dispatched (Runs_ambiguous (cn_ambiguous m))), w)
     else case relayFanOut \<lparr>rl_request = q, rl_sender = sender, rl_runs = map_of (cn_runs m), rl_transport = t,
                            rl_aspects = aspects\<rparr> w of
       Inl e \<Rightarrow> (Inl (Bad_aspects e), w)
     | Inr (Inl e, w1) \<Rightarrow> (Inl (Transport_threw e), w1)
     | Inr (Inr outcome, w1) \<Rightarrow> (Inr (toFanOutResult outcome), w1))"

section \<open>The consoles\<close>

record console_spec =
  cs_name :: string
  cs_roster :: console_roster
  cs_aspects :: "aspect_seat list"

definition CONSOLES :: "console_spec list" where
  "CONSOLES =
    [\<lparr>cs_name = ''review'', cs_roster = REVIEW_CONSOLE_ROSTER, cs_aspects = REVIEW_CONSOLE_ASPECTS\<rparr>,
     \<lparr>cs_name = ''triage'', cs_roster = TRIAGE_CONSOLE_ROSTER, cs_aspects = TRIAGE_CONSOLE_ASPECTS\<rparr>]"

definition DEFAULT_CONSOLE :: string where "DEFAULT_CONSOLE = ''review''"

definition resolveConsole :: "string option \<Rightarrow> string + console_spec" where
  "resolveConsole name =
    (let wanted = (case name of None \<Rightarrow> DEFAULT_CONSOLE | Some n \<Rightarrow> n) in
     case find (\<lambda>c. cs_name c = wanted) CONSOLES of None \<Rightarrow> Inl wanted | Some spec \<Rightarrow> Inr spec)"

section \<open>A pass\<close>

datatype 'r pass_kind =
    P_dispatched "task_id list" "string option" | P_already_done json | P_rewritten json string
  | P_journal_unreadable journal_problem | P_refused dispatch_refusal | P_declined "'r fan_reason"

record 'r pass_outcome =
  po_worker :: worker_id
  po_task_id :: task_id
  po_kind :: "'r pass_kind"

text \<open>
  What the pass works with: the listing of the inbox (an error code, or the names), the parsed record
  of a task (\<open>None\<close> where reading or parsing it throws), the opening of a request, the fan-out, the
  outcome of writing the journal and the ledger. The records are read through the world, which a
  read may find changed.
\<close>

record ('b, 'r, 'w) pass_io =
  ps_inbox :: "'w \<Rightarrow> (string + string list) \<times> 'w"
  ps_envelope :: "task_id \<Rightarrow> 'w \<Rightarrow> json option \<times> 'w"
  ps_open :: "'w \<Rightarrow> host_path \<Rightarrow> string + 'b open_request"
  ps_parse :: "'b list \<Rightarrow> json option"
  ps_codec :: journal_codec
  ps_fanOut :: "worker_id \<Rightarrow> task_id \<Rightarrow> dispatch_request \<Rightarrow> 'w \<Rightarrow> (fan_error + 'r fan_out_result) \<times> 'w"
  ps_write :: "'w \<Rightarrow> write_fault option"
  ps_now :: "'w \<Rightarrow> string"
  ps_ledger :: "worker_id \<Rightarrow> task_id \<Rightarrow> task_id list \<Rightarrow> string \<Rightarrow> 'w \<Rightarrow> string option \<times> 'w"

record ('r, 'w) pass_state =
  pa_cache :: "task_id \<rightharpoonup> worker_id option"
  pa_journal :: journal
  pa_outcomes :: "'r pass_outcome list"
  pa_world :: 'w

datatype pass_error =
    Inbox_threw string | Roster_threw roster_error | Fan_out_threw fan_error | Journal_threw string | Ledger_threw string

definition inboxTaskIds :: "string + string list \<Rightarrow> string + task_id list" where
  "inboxTaskIds listing =
    (case listing of
       Inl code \<Rightarrow> if code = ''ENOENT'' then Inr [] else Inl code
     | Inr entries \<Rightarrow> Inr (map (\<lambda>e. take (length e - 5) e) (filter (\<lambda>e. ends_with e ''.json'') entries)))"

definition workerForTask ::
  "('b, 'r, 'w) pass_io \<Rightarrow> task_id \<Rightarrow> ('r, 'w) pass_state \<Rightarrow> worker_id option \<times> ('r, 'w) pass_state" where
  "workerForTask io taskId st =
    (case pa_cache st taskId of Some hit \<Rightarrow> (hit, st)
     | None \<Rightarrow>
         let (envelope, w1) = ps_envelope io taskId (pa_world st);
             worker = (case as_string (jprop_of envelope ''worker'') of
                 None \<Rightarrow> None | Some s \<Rightarrow> if s = '''' then None else Some s) in
         (worker, st\<lparr>pa_cache := (pa_cache st)(taskId \<mapsto> worker), pa_world := w1\<rparr>))"

definition push :: "worker_id \<Rightarrow> task_id \<Rightarrow> 'r pass_kind \<Rightarrow> ('r, 'w) pass_state \<Rightarrow> ('r, 'w) pass_state" where
  "push worker taskId k st =
    st\<lparr>pa_outcomes := pa_outcomes st @ [\<lparr>po_worker = worker, po_task_id = taskId, po_kind = k\<rparr>]\<rparr>"

text \<open>A fresh request: fan out, then record, then the ledger, then the outcome.\<close>

definition dispatch_fresh ::
  "('b, 'r, 'w) pass_io \<Rightarrow> host_path \<Rightarrow> worker_id \<Rightarrow> task_id \<Rightarrow> dispatch_request \<Rightarrow> ('r, 'w) pass_state
    \<Rightarrow> pass_error option \<times> ('r, 'w) pass_state" where
  "dispatch_fresh io runRoot worker taskId q st =
    (case ps_fanOut io worker taskId q (pa_world st) of
       (Inl e, w1) \<Rightarrow> (Some (Fan_out_threw e), st\<lparr>pa_world := w1\<rparr>)
     | (Inr (Fan_not_dispatched why), w1) \<Rightarrow> (None, push worker taskId (P_declined why) (st\<lparr>pa_world := w1\<rparr>))
     | (Inr (Fan_dispatched children reason), w1) \<Rightarrow>
         case recordDispatch (ps_codec io) (ps_write io w1) (ps_now io w1) runRoot worker taskId q children (pa_journal st) of
           (Some e, files) \<Rightarrow> (Some (Journal_threw e), st\<lparr>pa_journal := files, pa_world := w1\<rparr>)
         | (None, files) \<Rightarrow>
             let (failure, w2) = (case reason of None \<Rightarrow> (None, w1) | Some why \<Rightarrow> ps_ledger io worker taskId children why w1);
                 st2 = st\<lparr>pa_journal := files, pa_world := w2\<rparr> in
             case failure of Some e \<Rightarrow> (Some (Ledger_threw e), st2)
             | None \<Rightarrow> (None, push worker taskId (P_dispatched children reason) st2))"

definition pass_task ::
  "('b, 'r, 'w) pass_io \<Rightarrow> host_path \<Rightarrow> console_roster \<Rightarrow> task_id \<Rightarrow> ('r, 'w) pass_state
    \<Rightarrow> pass_error option \<times> ('r, 'w) pass_state" where
  "pass_task io runRoot roster taskId st0 =
    (case workerForTask io taskId st0 of
       (None, st) \<Rightarrow> (None, st)
     | (Some worker, st) \<Rightarrow>
         if worker \<notin> set (cr_collators roster) \<union> set (cr_reviewers roster) then (None, st)
         else case readDispatchRequest (ps_parse io) (ps_open io (pa_world st)) runRoot worker taskId roster of
           Inl e \<Rightarrow> (Some (Roster_threw e), st)
         | Inr Request_missing \<Rightarrow> (None, st)
         | Inr (Request_refused e) \<Rightarrow> (None, push worker taskId (P_refused e) st)
         | Inr (Request_ok q) \<Rightarrow>
             case classifyRequest (ps_codec io) (pa_journal st) runRoot worker taskId q of
               Done e \<Rightarrow> (None, push worker taskId (P_already_done e) st)
             | Rewritten e d \<Rightarrow> (None, push worker taskId (P_rewritten e d) st)
             | Journal_unreadable e \<Rightarrow> (None, push worker taskId (P_journal_unreadable e) st)
             | Fresh \<Rightarrow> dispatch_fresh io runRoot worker taskId q st)"

fun pass_tasks ::
  "('b, 'r, 'w) pass_io \<Rightarrow> host_path \<Rightarrow> console_roster \<Rightarrow> task_id list \<Rightarrow> ('r, 'w) pass_state
    \<Rightarrow> pass_error option \<times> ('r, 'w) pass_state" where
  "pass_tasks io runRoot roster [] st = (None, st)"
| "pass_tasks io runRoot roster (t # ts) st =
    (case pass_task io runRoot roster t st of
       (Some e, st') \<Rightarrow> (Some e, st')
     | (None, st') \<Rightarrow> pass_tasks io runRoot roster ts st')"

text \<open>A pass starts with no outcomes; the cache and the journal go on from the last one.\<close>

definition relayPass ::
  "('b, 'r, 'w) pass_io \<Rightarrow> host_path \<Rightarrow> console_roster \<Rightarrow> ('r, 'w) pass_state \<Rightarrow> pass_error option \<times> ('r, 'w) pass_state" where
  "relayPass io runRoot roster st =
    (let (listing, w1) = ps_inbox io (pa_world st); st1 = st\<lparr>pa_outcomes := [], pa_world := w1\<rparr> in
     case inboxTaskIds listing of Inl e \<Rightarrow> (Some (Inbox_threw e), st1)
     | Inr taskIds \<Rightarrow> pass_tasks io runRoot roster taskIds st1)"

section \<open>The loop of passes\<close>

definition RELAY_ABANDON_PASSES :: nat where "RELAY_ABANDON_PASSES = 5"

text \<open>\<open>ConsoleWatch.observe\<close>: the streak of passes without a live collator, and whether to give up.\<close>

definition observe_console :: "nat \<Rightarrow> bool \<Rightarrow> nat \<Rightarrow> bool \<times> nat" where
  "observe_console tolerance collatorIsLive consecutiveGone =
    (if collatorIsLive then (False, 0)
     else if consecutiveGone + 1 < tolerance then (False, consecutiveGone + 1)
     else (True, consecutiveGone + 1))"

text \<open>One round: a pass that throws is logged and nothing is observed; a live check may throw as well.\<close>

definition relay_round ::
  "('b, 'r, 'w) pass_io \<Rightarrow> ('w \<Rightarrow> (string + bool) \<times> 'w) \<Rightarrow> host_path \<Rightarrow> console_roster \<Rightarrow> nat \<times> ('r, 'w) pass_state
    \<Rightarrow> bool \<times> nat \<times> ('r, 'w) pass_state" where
  "relay_round io isLive runRoot roster s =
    (case s of (gone, st) \<Rightarrow>
       case relayPass io runRoot roster st of
         (Some e, st1) \<Rightarrow> (False, gone, st1)
       | (None, st1) \<Rightarrow>
           case isLive (pa_world st1) of
             (Inl e, w2) \<Rightarrow> (False, gone, st1\<lparr>pa_world := w2\<rparr>)
           | (Inr live, w2) \<Rightarrow>
               let (abandon, gone') = observe_console RELAY_ABANDON_PASSES live gone in
               (abandon, gone', st1\<lparr>pa_world := w2\<rparr>))"

text \<open>What is printed: an answer that nothing is left to do is printed once for each request.\<close>

fun worth_printing :: "(worker_id \<times> task_id) list \<Rightarrow> 'r pass_outcome list \<Rightarrow> 'r pass_outcome list \<times> (worker_id \<times> task_id) list" where
  "worth_printing quiet [] = ([], quiet)"
| "worth_printing quiet (p # ps) =
    (case po_kind p of
       P_already_done e \<Rightarrow>
         if (po_worker p, po_task_id p) \<in> set quiet then worth_printing quiet ps
         else apfst ((#) p) (worth_printing ((po_worker p, po_task_id p) # quiet) ps)
     | _ \<Rightarrow> apfst ((#) p) (worth_printing quiet ps))"

section \<open>A slot is dispatched once\<close>

text \<open>A fan-out that was asked for: its slot, and whether it answered that it dispatched.\<close>

datatype asked = Asked (asked_slot: "worker_id \<times> task_id") (asked_landed: bool)

fun landed_answer :: "fan_error + 'r fan_out_result \<Rightarrow> bool" where
  "landed_answer (Inr (Fan_dispatched _ _)) = True"
| "landed_answer _ = False"

text \<open>The same pass, with every fan-out it asks for noted beside the world.\<close>

definition noted :: "('b, 'r, 'w) pass_io \<Rightarrow> ('b, 'r, asked list \<times> 'w) pass_io" where
  "noted io =
    \<lparr>ps_inbox = (\<lambda>(cs, w). case ps_inbox io w of (a, w') \<Rightarrow> (a, cs, w')),
     ps_envelope = (\<lambda>t (cs, w). case ps_envelope io t w of (a, w') \<Rightarrow> (a, cs, w')),
     ps_open = (\<lambda>(cs, w). ps_open io w), ps_parse = ps_parse io, ps_codec = ps_codec io,
     ps_fanOut = (\<lambda>s t q (cs, w). case ps_fanOut io s t q w of (a, w') \<Rightarrow> (a, cs @ [Asked (s, t) (landed_answer a)], w')),
     ps_write = (\<lambda>(cs, w). ps_write io w), ps_now = (\<lambda>(cs, w). ps_now io w),
     ps_ledger = (\<lambda>s t i m (cs, w). case ps_ledger io s t i m w of (a, w') \<Rightarrow> (a, cs, w'))\<rparr>"

text \<open>Passes one after the other; before each of them the world may change in any way.\<close>

fun passes ::
  "('b, 'r, asked list \<times> 'w) pass_io \<Rightarrow> host_path \<Rightarrow> console_roster \<Rightarrow> ('w \<Rightarrow> 'w) list
    \<Rightarrow> ('r, asked list \<times> 'w) pass_state \<Rightarrow> ('r, asked list \<times> 'w) pass_state" where
  "passes io runRoot roster [] st = st"
| "passes io runRoot roster (env # envs) st =
    passes io runRoot roster envs
      (snd (relayPass io runRoot roster (st\<lparr>pa_world := map_prod id env (pa_world st)\<rparr>)))"

definition slot_taken :: "journal \<Rightarrow> host_path \<Rightarrow> worker_id \<times> task_id \<Rightarrow> bool" where
  "slot_taken files runRoot k \<longleftrightarrow> (\<exists>p. relayJournalPath runRoot (fst k) (snd k) = Inr p \<and> files p \<noteq> Absent_file)"

definition once :: "host_path \<Rightarrow> journal \<Rightarrow> asked list \<Rightarrow> bool" where
  "once runRoot files cs \<longleftrightarrow>
    sorted_wrt (\<lambda>a b. asked_landed a \<longrightarrow> asked_slot a \<noteq> asked_slot b) cs
    \<and> (\<forall>c \<in> set cs. asked_landed c \<longrightarrow> slot_taken files runRoot (asked_slot c))"

definition once_in :: "host_path \<Rightarrow> ('r, asked list \<times> 'w) pass_state \<Rightarrow> bool" where
  "once_in runRoot st \<longleftrightarrow> once runRoot (pa_journal st) (fst (pa_world st))"

lemma once_asked:
  assumes "once runRoot files cs" and "\<not> slot_taken files runRoot k"
    and "b \<longrightarrow> slot_taken files' runRoot k" and "\<And>k'. slot_taken files runRoot k' \<Longrightarrow> slot_taken files' runRoot k'"
  shows "once runRoot files' (cs @ [Asked k b])"
  using assms unfolding once_def by (auto simp: sorted_wrt_append)

lemma recorded_slot:
  assumes "recordDispatch c fault now runRoot s t q children files = (e, files')"
    and "\<And>m. fault \<noteq> Some (Fails_before m)" and "relayJournalPath runRoot s t = Inr p"
  shows "slot_taken files' runRoot (s, t)" and "slot_taken files runRoot k \<Longrightarrow> slot_taken files' runRoot k"
  using assms by (auto simp: recordDispatch_def slot_taken_def Let_def split: option.splits write_fault.splits if_splits)

lemma push_once [simp]: "once_in runRoot (push s t k st) = once_in runRoot st"
  by (simp add: push_def once_in_def)

lemma dispatch_fresh_once:
  assumes writes: "\<And>w m. ps_write io w \<noteq> Some (Fails_before m)" and inv: "once_in runRoot st"
    and fresh: "relayJournalPath runRoot s t = Inr p" "pa_journal st p = Absent_file"
  shows "once_in runRoot (snd (dispatch_fresh (noted io) runRoot s t q st))"
proof -
  obtain cs w where w: "pa_world st = (cs, w)" by fastforce
  obtain a w1 where f: "ps_fanOut io s t q w = (a, w1)" by fastforce
  have free: "\<not> slot_taken (pa_journal st) runRoot (s, t)" using fresh by (simp add: slot_taken_def)
  have inv': "once runRoot (pa_journal st) cs" using inv w by (simp add: once_in_def)
  note step = once_asked [OF inv' free]
  show ?thesis
  proof (cases a)
    case (Inl e)
    then show ?thesis using step [of False "pa_journal st"]
      by (simp add: dispatch_fresh_def noted_def w f once_in_def)
  next
    case (Inr r)
    show ?thesis
    proof (cases r)
      case (Fan_not_dispatched why)
      then show ?thesis using step [of False "pa_journal st"] Inr
        by (simp add: dispatch_fresh_def noted_def w f once_in_def push_def)
    next
      case (Fan_dispatched children reason)
      obtain e files where rec: "recordDispatch (ps_codec io) (ps_write io w1) (ps_now io w1) runRoot s t q children
          (pa_journal st) = (e, files)" by fastforce
      note taken = recorded_slot [OF rec writes fresh(1)]
      have "once runRoot files (cs @ [Asked (s, t) True])" using step [of True files] taken by blast
      then show ?thesis using Inr Fan_dispatched rec
        by (auto simp: dispatch_fresh_def noted_def w f once_in_def push_def Let_def split: option.splits prod.splits)
    qed
  qed
qed

lemma worker_once:
  "workerForTask (noted io) t st = (k, st') \<Longrightarrow> once_in runRoot st \<Longrightarrow> once_in runRoot st'"
  by (auto simp: workerForTask_def noted_def once_in_def Let_def split: option.splits prod.splits)

lemma pass_task_once:
  assumes writes: "\<And>w m. ps_write io w \<noteq> Some (Fails_before m)" and inv: "once_in runRoot st"
  shows "once_in runRoot (snd (pass_task (noted io) runRoot roster t st))"
proof -
  obtain k st1 where k: "workerForTask (noted io) t st = (k, st1)" by fastforce
  have inv1: "once_in runRoot st1" using worker_once [OF k inv] .
  have "once_in runRoot (snd (dispatch_fresh (noted io) runRoot s t q st1))"
    if "classifyRequest (ps_codec (noted io)) (pa_journal st1) runRoot s t q = Fresh" for s q
    using dispatch_fresh_once [OF writes inv1] that unfolding fresh_iff by blast
  then show ?thesis
    using inv1 k by (auto simp: pass_task_def split: option.splits sum.splits dispatch_read.splits journal_verdict.splits)
qed

lemma pass_tasks_once:
  assumes "\<And>w m. ps_write io w \<noteq> Some (Fails_before m)"
  shows "once_in runRoot st \<Longrightarrow> once_in runRoot (snd (pass_tasks (noted io) runRoot roster ts st))"
proof (induction ts arbitrary: st)
  case (Cons t ts)
  obtain e st' where p: "pass_task (noted io) runRoot roster t st = (e, st')" by fastforce
  from pass_task_once [OF assms Cons.prems, of roster t] p have "once_in runRoot st'" by simp
  with Cons.IH p show ?case by (cases e) simp_all
qed simp

lemma relayPass_once:
  assumes "\<And>w m. ps_write io w \<noteq> Some (Fails_before m)" and "once_in runRoot st"
  shows "once_in runRoot (snd (relayPass (noted io) runRoot roster st))"
proof -
  obtain cs w where w: "pa_world st = (cs, w)" by fastforce
  obtain l w1 where l: "ps_inbox io w = (l, w1)" by fastforce
  let ?st = "st\<lparr>pa_outcomes := [], pa_world := (cs, w1)\<rparr>"
  have inv: "once_in runRoot ?st" using assms(2) w by (simp add: once_in_def)
  have nl: "ps_inbox (noted io) (cs, w) = (l, cs, w1)" by (simp add: noted_def l)
  have eq: "relayPass (noted io) runRoot roster st =
      (case inboxTaskIds l of Inl e \<Rightarrow> (Some (Inbox_threw e), ?st) | Inr ts \<Rightarrow> pass_tasks (noted io) runRoot roster ts ?st)"
    using nl by (simp add: relayPass_def w Let_def)
  show ?thesis unfolding eq using inv pass_tasks_once [OF assms(1) inv] by (auto split: sum.splits)
qed

lemma passes_once:
  assumes "\<And>w m. ps_write io w \<noteq> Some (Fails_before m)"
  shows "once_in runRoot st \<Longrightarrow> once_in runRoot (passes (noted io) runRoot roster envs st)"
proof (induction envs arbitrary: st)
  case (Cons env envs)
  have "once_in runRoot (st\<lparr>pa_world := map_prod id env (pa_world st)\<rparr>)"
    using Cons.prems by (cases "pa_world st") (simp add: once_in_def)
  from relayPass_once [OF assms this] show ?case by (simp add: Cons.IH)
qed simp

text \<open>
  C1: as long as no write of the journal fails before its entry stands, over any number of passes,
  whatever the workers write to their outboxes and the world does in between, no fan-out is asked
  for a slot (a worker and a task) after one for that slot answered that it dispatched, so a slot is
  dispatched at most once. A write that fails before its entry stands lets the next pass ask again:
  the fan-out comes before the write.
\<close>

theorem slot_dispatched_once:
  assumes "\<And>w m. ps_write io w \<noteq> Some (Fails_before m)"
    and "fst (pa_world st) = []"
  shows "sorted_wrt (\<lambda>a b. asked_landed a \<longrightarrow> asked_slot a \<noteq> asked_slot b)
    (fst (pa_world (passes (noted io) runRoot roster envs st)))"
proof -
  have "once_in runRoot st" using assms(2) by (simp add: once_in_def once_def)
  from passes_once [OF assms(1) this] show ?thesis by (simp add: once_in_def once_def)
qed

definition sample_pass_io :: "(unit, unit, nat) pass_io" where
  "sample_pass_io =
    \<lparr>ps_inbox = (\<lambda>w. (Inr [''T1.json''], w)), ps_envelope = (\<lambda>t w. (Some (JObj [(''worker'', JStr ''col-1'')]), w)),
     ps_open = (\<lambda>w p. Inr sample_opened), ps_parse = (\<lambda>bs. Some sample_request_json),
     ps_codec = sample_journal_codec JNull,
     ps_fanOut = (\<lambda>s t q w. (Inr (Fan_dispatched [''T1-arch''] None), w + 1)),
     ps_write = (\<lambda>w. None), ps_now = (\<lambda>w. ''now''), ps_ledger = (\<lambda>s t i m w. (None, w))\<rparr>"

theorem slot_dispatched_once_witness:
  "sorted_wrt (\<lambda>a b. asked_landed a \<longrightarrow> asked_slot a \<noteq> asked_slot b)
    (fst (pa_world (passes (noted sample_pass_io) [] REVIEW_CONSOLE_ROSTER [Suc, id]
      \<lparr>pa_cache = Map.empty, pa_journal = (\<lambda>p. Absent_file), pa_outcomes = [], pa_world = ([], 0)\<rparr>)))"
  by (rule slot_dispatched_once) (simp_all add: sample_pass_io_def)

section \<open>Giving up a console\<close>

text \<open>The watch over a list of observations, from the first on: whether the last of them gives up.\<close>

fun watched_streak :: "bool list \<Rightarrow> nat" where
  "watched_streak [] = 0"
| "watched_streak (live # earlier) = snd (observe_console RELAY_ABANDON_PASSES live (watched_streak earlier))"

lemma watched_streak_dead: "watched_streak bs = length (takeWhile Not bs)"
  by (induction bs) (auto simp: observe_console_def)

text \<open>The actor gives up exactly when the collator was found gone in five passes in a row.\<close>

lemma gives_up_iff:
  "fst (observe_console RELAY_ABANDON_PASSES live (watched_streak earlier)) \<longleftrightarrow>
    RELAY_ABANDON_PASSES \<le> length (takeWhile Not (live # earlier))"
  by (auto simp: observe_console_def watched_streak_dead RELAY_ABANDON_PASSES_def)

end
