(* ===== verification/Console_Relay.thy ===== *)
theory Console_Relay
  imports Schema Pm_Integration
begin

text \<open>
  The record and the lock of a console's actor (\<open>src/run/console-relay.ts\<close>): whether the recorded
  process is the live actor of this console, and the lock that lets one starter at a time start
  one. The starters are processes that take one file operation at a time, in any interleaving. The
  lemmas give the lock taken by one starter alone, mutual exclusion while the holders live, and an
  interleaving of a takeover that ends with two holders.
\<close>

section \<open>The record\<close>

definition CONSOLE_NAMES :: "string list" where "CONSOLE_NAMES = [''review'', ''triage'']"

definition consoleStem :: "string \<Rightarrow> string + string" where
  "consoleStem console_name = (if console_name \<in> set CONSOLE_NAMES then Inr (console_name @ ''-relay'') else Inl console_name)"

definition IDENTITY_FORMAT :: string where "IDENTITY_FORMAT = ''utc1''"

definition isPinnedIdentity :: "string \<Rightarrow> bool" where
  "isPinnedIdentity s = starts_with s (IDENTITY_FORMAT @ '' '')"

record relay_record =
  rr_pid :: int
  rr_started :: string
  rr_console :: string
  rr_run_id :: string
  rr_pinned :: "string option"
  rr_workers :: "string list"
  rr_started_at :: string
  rr_log_path :: string

definition any_string :: "json \<Rightarrow> string option" where
  "any_string = string_where (\<lambda>s. True)"

fun nullable_string :: "json \<Rightarrow> string option option" where
  "nullable_string JNull = Some None"
| "nullable_string v = map_option Some (any_string v)"

fun string_array :: "json \<Rightarrow> string list option" where
  "string_array (JArr vs) = those (map any_string vs)"
| "string_array _ = None"

definition RelayRecordSchema :: "json \<Rightarrow> relay_record option" where
  "RelayRecordSchema v =
    do {
      _ \<leftarrow> field v ''schema'' (string_where (\<lambda>s. s = ''pifleet.consolerelay/v1''));
      pid \<leftarrow> field v ''pid'' positive_number;
      started \<leftarrow> field v ''started'' any_string;
      console_name \<leftarrow> default_field v ''console'' '''' any_string;
      run_id \<leftarrow> field v ''run_id'' any_string;
      pinned \<leftarrow> default_field v ''pinned'' None nullable_string;
      workers \<leftarrow> default_field v ''workers'' [] string_array;
      started_at \<leftarrow> field v ''started_at'' any_string;
      log_path \<leftarrow> field v ''log_path'' any_string;
      Some \<lparr>rr_pid = pid, rr_started = started, rr_console = console_name, rr_run_id = run_id, rr_pinned = pinned,
            rr_workers = workers, rr_started_at = started_at, rr_log_path = log_path\<rparr>
    }"

datatype identity_doubt = No_comparable_start | Start_unread string
datatype record_problem = Record_unread string | Not_a_relay_record

datatype relay_status =
    Relay_absent | Relay_stale relay_record | Relay_unreadable record_problem
  | Relay_unverifiable relay_record identity_doubt | Relay_live relay_record

text \<open>Reading the record as JSON gives an error (a code and a message) or a value; \<open>ps\<close> an error or a start time.\<close>

definition readRelayStatus ::
  "(string \<times> string) + json \<Rightarrow> (int \<Rightarrow> string + string option) \<Rightarrow> relay_status" where
  "readRelayStatus file_read processStartTime =
    (case file_read of
       Inl (code, message) \<Rightarrow> if code = ''ENOENT'' then Relay_absent else Relay_unreadable (Record_unread message)
     | Inr raw \<Rightarrow>
         case RelayRecordSchema raw of None \<Rightarrow> Relay_unreadable Not_a_relay_record
         | Some r \<Rightarrow>
             if \<not> isPinnedIdentity (rr_started r) then Relay_unverifiable r No_comparable_start
             else case processStartTime (rr_pid r) of
               Inl e \<Rightarrow> Relay_unverifiable r (Start_unread e)
             | Inr started \<Rightarrow> if started = Some (rr_started r) then Relay_live r else Relay_stale r)"

definition servesConsole :: "relay_record \<Rightarrow> string \<Rightarrow> string \<Rightarrow> string list \<Rightarrow> bool" where
  "servesConsole r name runId workers \<longleftrightarrow>
    rr_console r = name \<and> rr_run_id r = runId \<and> list_all (\<lambda>w. w \<in> set (rr_workers r)) workers"

datatype signalled = Signalled | Gone | Signal_refused

definition signalRelay :: "string option \<Rightarrow> signalled" where
  "signalRelay failure =
    (case failure of None \<Rightarrow> Signalled | Some code \<Rightarrow> if code = ''ESRCH'' then Gone else Signal_refused)"

section \<open>The lock\<close>

text \<open>
  Where a starter stands: at the claim that writes a temporary file (the first claim, or the one
  after a takeover), at the link of it, at the reading of the lock, at the start time of the holder
  it names, at the rename that moves it aside, or at an end.
\<close>

datatype starter =
    Claiming bool | Linking bool string | Reading_lock | Measuring int string | Sidelining
  | Holding | Lock_refused | Lock_threw | Lock_released

text \<open>The lock file and the start times of the processes that are there.\<close>

record lock_world =
  lw_file :: "string option"
  lw_started :: "int \<Rightarrow> string option"

definition NEWLINE :: string where "NEWLINE = [CHR 0x0A]"

definition lock_text :: "int \<Rightarrow> string option \<Rightarrow> string" where
  "lock_text pid started =
    decimal (nat pid) @ NEWLINE @ (case started of None \<Rightarrow> '''' | Some s \<Rightarrow> s) @ NEWLINE"

definition lock_holder :: "string \<Rightarrow> (int \<times> string) option" where
  "lock_holder content =
    (case split_on CHR 0x0A content of
       pidLine # ls \<Rightarrow>
         (case parse_int (trim_string pidLine) of
            None \<Rightarrow> None
          | Some pid \<Rightarrow>
              if pid > 0 then Some (pid, trim_string (case ls of [] \<Rightarrow> '''' | l # _ \<Rightarrow> l)) else None)
     | [] \<Rightarrow> None)"

definition read_lock :: "string \<Rightarrow> starter" where
  "read_lock content =
    (if trim_string content = '''' then Sidelining
     else case lock_holder content of None \<Rightarrow> Lock_refused | Some (pid, started) \<Rightarrow> Measuring pid started)"

definition judge_holder :: "string \<Rightarrow> string option \<Rightarrow> starter" where
  "judge_holder started live =
    (case live of None \<Rightarrow> Sidelining
     | Some l \<Rightarrow>
         if \<not> isPinnedIdentity started \<or> \<not> isPinnedIdentity l then Lock_refused
         else if started = l then Lock_refused else Sidelining)"

text \<open>
  One operation of the starter \<open>me\<close>. Where it fails the claim goes on without a start time, the
  writing and the link of its file throw, the release leaves the file, and the others refuse. A
  holder's next operation is its release.
\<close>

definition lock_step :: "int \<Rightarrow> bool \<Rightarrow> starter \<Rightarrow> lock_world \<Rightarrow> starter \<times> lock_world" where
  "lock_step me fails pc w =
    (case pc of
       Claiming first \<Rightarrow> (Linking first (lock_text me (if fails then None else lw_started w me)), w)
     | Linking first content \<Rightarrow>
         if fails then (Lock_threw, w)
         else (case lw_file w of
           None \<Rightarrow> (Holding, w\<lparr>lw_file := Some content\<rparr>)
         | Some _ \<Rightarrow> (if first then Reading_lock else Lock_refused, w))
     | Reading_lock \<Rightarrow>
         (case lw_file w of None \<Rightarrow> (Lock_refused, w)
          | Some content \<Rightarrow> (if fails then Lock_refused else read_lock content, w))
     | Measuring pid started \<Rightarrow> (if fails then Lock_refused else judge_holder started (lw_started w pid), w)
     | Sidelining \<Rightarrow>
         if fails \<or> lw_file w = None then (Lock_refused, w) else (Claiming False, w\<lparr>lw_file := None\<rparr>)
     | Holding \<Rightarrow> (Lock_released, if fails then w else w\<lparr>lw_file := None\<rparr>)
     | Lock_refused \<Rightarrow> (Lock_refused, w) | Lock_threw \<Rightarrow> (Lock_threw, w) | Lock_released \<Rightarrow> (Lock_released, w))"

text \<open>A starter on its own, up to its end.\<close>

fun acquireRelayLock :: "int \<Rightarrow> nat \<Rightarrow> starter \<Rightarrow> lock_world \<Rightarrow> starter \<times> lock_world" where
  "acquireRelayLock me 0 pc w = (pc, w)"
| "acquireRelayLock me (Suc n) pc w =
    (if pc \<in> {Holding, Lock_refused, Lock_threw} then (pc, w)
     else (case lock_step me False pc w of (pc', w') \<Rightarrow> acquireRelayLock me n pc' w'))"

section \<open>One starter alone\<close>

text \<open>A lock that nobody holds: it names nobody, or a process that is gone, or one that is another by now.\<close>

definition abandoned :: "(int \<Rightarrow> string option) \<Rightarrow> string \<Rightarrow> bool" where
  "abandoned procs content \<longleftrightarrow>
    trim_string content = ''''
    \<or> (\<exists>pid started. lock_holder content = Some (pid, started)
        \<and> (procs pid = None
           \<or> (\<exists>l. procs pid = Some l \<and> isPinnedIdentity started \<and> isPinnedIdentity l \<and> started \<noteq> l)))"

text \<open>
  A starter alone takes the lock exactly when there is none or nobody holds it, and then the lock
  names the starter; otherwise it is refused and the lock is left as it was.
\<close>

theorem lock_taken_iff:
  "acquireRelayLock me 8 (Claiming True) w =
    (if (case lw_file w of None \<Rightarrow> True | Some content \<Rightarrow> abandoned (lw_started w) content)
     then (Holding, w\<lparr>lw_file := Some (lock_text me (lw_started w me))\<rparr>)
     else (Lock_refused, w))"
proof (cases "lw_file w")
  case None
  then show ?thesis by (simp add: eval_nat_numeral lock_step_def)
next
  case (Some content)
  show ?thesis
  proof (cases "trim_string content = ''''")
    case True
    then show ?thesis using Some by (simp add: eval_nat_numeral lock_step_def read_lock_def abandoned_def)
  next
    case False
    note named = False
    show ?thesis
    proof (cases "lock_holder content")
      case None
      then show ?thesis using Some named by (simp add: eval_nat_numeral lock_step_def read_lock_def abandoned_def)
    next
      case (Some h)
      obtain pid started where h: "h = (pid, started)" by fastforce
      show ?thesis
        using Some named h \<open>lw_file w = _\<close>
        by (cases "lw_started w pid")
          (auto simp: eval_nat_numeral lock_step_def read_lock_def judge_holder_def abandoned_def)
    qed
  qed
qed

section \<open>Starters in any interleaving\<close>

fun lock_run :: "(int \<times> bool) list \<Rightarrow> (int \<Rightarrow> starter) \<times> lock_world \<Rightarrow> (int \<Rightarrow> starter) \<times> lock_world" where
  "lock_run [] s = s"
| "lock_run ((p, fails) # as) (pcs, w) =
    (case lock_step p fails (pcs p) w of (pc, w') \<Rightarrow> lock_run as (pcs(p := pc), w'))"

text \<open>What \<open>ps\<close> answers for a live process: a line without white space around it.\<close>

definition plain_line :: "string \<Rightarrow> bool" where
  "plain_line s \<longleftrightarrow> CHR 0x0A \<notin> set s \<and> trim_string s = s"

lemma trim_digits: "list_all digit s \<Longrightarrow> trim_string s = s"
proof -
  have *: "list_all digit t \<Longrightarrow> dropWhile space_char t = t" for t
    by (cases t) (auto simp: digit_def space_char_def)
  assume "list_all digit s"
  moreover from this have "list_all digit (rev s)" by (simp add: list_all_iff)
  ultimately show ?thesis by (simp add: trim_string_def *)
qed

lemma parse_decimal: "parse_int (decimal n) = Some (int n)"
proof -
  have d: "list_all digit (decimal n)" "decimal n \<noteq> []" using decimal_digits by auto
  then obtain c cs where c: "decimal n = c # cs" "digit c" by (cases "decimal n") auto
  have tw: "takeWhile digit (decimal n) = decimal n" using d(1) by (simp add: takeWhile_eq_all_conv list_all_iff)
  have "dropWhile space_char (decimal n) = decimal n" using c by (auto simp: digit_def space_char_def)
  moreover have "\<not> starts_with (decimal n) ''-''" "\<not> starts_with (decimal n) ''+''"
    using c by (auto simp: starts_with_def digit_def)
  ultimately show ?thesis using d(2) by (simp add: parse_int_def Let_def numeral_of_decimal tw)
qed

lemma holder_of_own_text:
  assumes "0 < p" and "\<And>s. so = Some s \<Longrightarrow> plain_line s"
  shows "lock_holder (lock_text p so) = Some (p, case so of None \<Rightarrow> '''' | Some s \<Rightarrow> s)"
    and "trim_string (lock_text p so) \<noteq> ''''"
proof -
  let ?s = "case so of None \<Rightarrow> '''' | Some s \<Rightarrow> s" and ?d = "decimal (nat p)"
  have s: "CHR 0x0A \<notin> set ?s" "trim_string ?s = ?s"
    using assms(2) by (auto simp: plain_line_def trim_string_def split: option.splits)
  have d: "list_all digit ?d" "?d \<noteq> []" using decimal_digits by auto
  then have nl: "CHR 0x0A \<notin> set ?d" by (auto simp: list_all_iff digit_def)
  have "split_on CHR 0x0A (join_with [CHR 0x0A] [?d, ?s, '''']) = [?d, ?s, '''']"
    by (rule split_join) (use s(1) nl in auto)
  then have "split_on CHR 0x0A (lock_text p so) = [?d, ?s, '''']" by (simp add: lock_text_def NEWLINE_def)
  then show "lock_holder (lock_text p so) = Some (p, ?s)"
    using assms(1) s(2) trim_digits [OF d(1)] by (simp add: lock_holder_def parse_decimal)
  obtain c cs where c: "?d = c # cs" "digit c" using d by (cases ?d) auto
  then have "\<not> space_char c" by (auto simp: digit_def space_char_def)
  then have "dropWhile space_char (lock_text p so) = lock_text p so" "c \<in> set (lock_text p so)"
    using c by (auto simp: lock_text_def)
  then show "trim_string (lock_text p so) \<noteq> ''''"
    using \<open>\<not> space_char c\<close> by (auto simp: trim_string_def dropWhile_eq_Nil_conv)
qed

text \<open>The states of the starters of a set none of which ends, while nobody took a lock over.\<close>

fun calm_pc :: "int set \<Rightarrow> (int \<Rightarrow> string option) \<Rightarrow> int \<Rightarrow> starter \<Rightarrow> bool" where
  "calm_pc P procs p (Claiming first) = first"
| "calm_pc P procs p (Linking first content) = (first \<and> content \<in> {lock_text p None, lock_text p (procs p)})"
| "calm_pc P procs p (Measuring q s) = (q \<in> P \<and> s \<in> {'''', the (procs q)})"
| "calm_pc P procs p Sidelining = False"
| "calm_pc P procs p _ = True"

definition calm_file :: "int set \<Rightarrow> (int \<Rightarrow> string option) \<Rightarrow> (int \<Rightarrow> starter) \<Rightarrow> string option \<Rightarrow> bool" where
  "calm_file P procs pcs content \<longleftrightarrow>
    (case content of
       None \<Rightarrow> \<forall>p \<in> P. pcs p \<noteq> Holding
     | Some c \<Rightarrow> \<exists>q \<in> P. c \<in> {lock_text q None, lock_text q (procs q)} \<and> (\<forall>p \<in> P. pcs p = Holding \<longrightarrow> p = q))"

definition calm :: "int set \<Rightarrow> (int \<Rightarrow> string option) \<Rightarrow> (int \<Rightarrow> starter) \<Rightarrow> lock_world \<Rightarrow> bool" where
  "calm P procs pcs w \<longleftrightarrow>
    lw_started w = procs \<and> (\<forall>p \<in> P. calm_pc P procs p (pcs p)) \<and> calm_file P procs pcs (lw_file w)"

lemma read_own_lock:
  assumes "0 < q" and "\<And>s. so = Some s \<Longrightarrow> plain_line s"
  shows "read_lock (lock_text q so) = Measuring q (case so of None \<Rightarrow> '''' | Some s \<Rightarrow> s)"
  using holder_of_own_text [of q so] assms by (simp add: read_lock_def)

lemma lock_step_started: "lock_step p fails pc0 w = (pc, w') \<Longrightarrow> lw_started w' = lw_started w"
  by (auto simp: lock_step_def split: starter.splits option.splits if_splits)

lemma calm_pc_step:
  assumes "calm P procs pcs w" and "p \<in> P" and live: "\<And>q. q \<in> P \<Longrightarrow> 0 < q \<and> (\<exists>s. procs q = Some s \<and> plain_line s)"
    and step: "lock_step p fails (pcs p) w = (pc, w')"
  shows "calm_pc P procs p pc"
proof -
  have now: "calm_pc P procs p (pcs p)" "lw_started w = procs" using assms(1,2) by (auto simp: calm_def)
  have judged: "judge_holder s (procs q) = Lock_refused" if "q \<in> P" "s \<in> {'''', the (procs q)}" for q s
    using that live [OF that(1)] by (auto simp: judge_holder_def isPinnedIdentity_def starts_with_def IDENTITY_FORMAT_def)
  have seen: "calm_pc P procs p (read_lock content)" if "lw_file w = Some content" for content
  proof -
    have "calm_file P procs pcs (Some content)" using assms(1) that by (simp add: calm_def)
    then obtain q where q: "q \<in> P" "content \<in> {lock_text q None, lock_text q (procs q)}"
      unfolding calm_file_def option.case by blast
    show ?thesis
      using q live [OF q(1)] read_own_lock [of q None] read_own_lock [of q "procs q"] by auto
  qed
  show ?thesis
  proof (cases "pcs p")
    case (Measuring q s)
    then show ?thesis using now step judged [of q s] by (auto simp: lock_step_def split: if_splits)
  next
    case Reading_lock
    then show ?thesis using step seen by (auto simp: lock_step_def split: option.splits if_splits)
  qed (use now step in \<open>auto simp: lock_step_def split: option.splits if_splits\<close>)
qed

lemma calm_file_step:
  assumes "calm P procs pcs w" and "p \<in> P" and step: "lock_step p fails (pcs p) w = (pc, w')" and "calm_pc P procs p pc"
  shows "calm_file P procs (pcs(p := pc)) (lw_file w')"
proof -
  have now: "calm_pc P procs p (pcs p)" and fl: "calm_file P procs pcs (lw_file w)" using assms(1,2) by (auto simp: calm_def)
  have same: ?thesis if "lw_file w' = lw_file w" "pc \<noteq> Holding"
    using fl that unfolding calm_file_def by (auto split: option.splits)
  show ?thesis
  proof (cases "pcs p")
    case (Linking first content)
    then show ?thesis
      using same fl now step \<open>p \<in> P\<close> by (auto simp: lock_step_def calm_file_def split: option.splits if_splits)
  next
    case Holding
    then have "pcs q \<noteq> Holding" if "q \<in> P" "q \<noteq> p" for q
      using fl that \<open>p \<in> P\<close> unfolding calm_file_def by (auto split: option.splits)
    then show ?thesis
      using same fl step Holding by (auto simp: lock_step_def calm_file_def split: option.splits if_splits)
  next
    case Sidelining
    with now show ?thesis by simp
  next
    case Reading_lock
    then have "lw_file w' = lw_file w" using step by (auto simp: lock_step_def split: option.splits)
    moreover have "pc \<noteq> Holding" using step Reading_lock
      by (auto simp: lock_step_def read_lock_def split: option.splits if_splits)
    ultimately show ?thesis by (rule same)
  next
    case (Measuring q s)
    then have "lw_file w' = lw_file w" using step by (auto simp: lock_step_def)
    moreover have "pc \<noteq> Holding" using step Measuring
      by (auto simp: lock_step_def judge_holder_def split: option.splits if_splits)
    ultimately show ?thesis by (rule same)
  qed (use same step in \<open>auto simp: lock_step_def\<close>)
qed

lemma calm_step:
  assumes "calm P procs pcs w" and "p \<in> P" and "\<And>q. q \<in> P \<Longrightarrow> 0 < q \<and> (\<exists>s. procs q = Some s \<and> plain_line s)"
    and "lock_step p fails (pcs p) w = (pc, w')"
  shows "calm P procs (pcs(p := pc)) w'"
  using calm_pc_step [OF assms] calm_file_step [OF assms(1,2,4)] lock_step_started [OF assms(4)] assms(1)
  by (simp add: calm_def)

lemma calm_run:
  assumes "\<And>q. q \<in> P \<Longrightarrow> 0 < q \<and> (\<exists>s. procs q = Some s \<and> plain_line s)"
  shows "calm P procs pcs w \<Longrightarrow> fst ` set as \<subseteq> P \<Longrightarrow> lock_run as (pcs, w) = (pcs', w') \<Longrightarrow> calm P procs pcs' w'"
proof (induction as arbitrary: pcs w)
  case (Cons a as)
  obtain p fails where a: "a = (p, fails)" by fastforce
  obtain pc v where st: "lock_step p fails (pcs p) w = (pc, v)" by fastforce
  have "calm P procs (pcs(p := pc)) v" using calm_step [OF Cons.prems(1) _ assms st] Cons.prems(2) a by simp
  from Cons.IH [OF this] show ?case using Cons.prems(2,3) a st by (simp del: fun_upd_apply)
qed simp

text \<open>
  C19: however the operations of any number of starters interleave, and whichever of them fail, two of
  them never hold the lock, when every starter lives on and at first there is no lock or that of one
  of them. A lock that a process left which is gone is another matter: see \<open>takeovers_race\<close> below.
\<close>

theorem one_holder:
  assumes "\<And>q. q \<in> P \<Longrightarrow> 0 < q \<and> (\<exists>s. lw_started w q = Some s \<and> plain_line s)"
    and "lw_file w = None \<or> (\<exists>h \<in> P. lw_file w = Some (lock_text h (lw_started w h)))"
    and "\<And>q. q \<in> P \<Longrightarrow> pcs q = Claiming True \<or> pcs q = Holding \<and> lw_file w = Some (lock_text q (lw_started w q))"
    and "fst ` set schedule \<subseteq> P"
    and "lock_run schedule (pcs, w) = (pcs', w')" and "p \<in> P" and "q \<in> P" and "pcs' p = Holding" and "pcs' q = Holding"
  shows "p = q"
proof -
  have one: "p = q" if "p \<in> P" "q \<in> P" "lock_text p (lw_started w p) = lock_text q (lw_started w q)" for p q
  proof -
    have "\<exists>t. lock_holder (lock_text r (lw_started w r)) = Some (r, t)" if "r \<in> P" for r
      using holder_of_own_text(1) [of r "lw_started w r"] assms(1) [OF that] by auto
    from this [OF that(1)] this [OF that(2)] show ?thesis unfolding that(3) by auto
  qed
  have "calm_pc P (lw_started w) q (pcs q)" if "q \<in> P" for q using assms(3) [OF that] by auto
  moreover have "calm_file P (lw_started w) pcs (lw_file w)"
    using assms(2)
  proof
    assume "lw_file w = None"
    moreover have "pcs q \<noteq> Holding" if "q \<in> P" for q using assms(3) [OF that] calculation by auto
    ultimately show ?thesis by (simp add: calm_file_def)
  next
    assume "\<exists>h \<in> P. lw_file w = Some (lock_text h (lw_started w h))"
    then obtain h where h: "h \<in> P" "lw_file w = Some (lock_text h (lw_started w h))" ..
    have "q = h" if q: "q \<in> P" "pcs q = Holding" for q
    proof -
      have "lw_file w = Some (lock_text q (lw_started w q))" using assms(3) [OF q(1)] q(2) by simp
      then have "lock_text q (lw_started w q) = lock_text h (lw_started w h)" unfolding h(2) by (rule option.inject [THEN iffD1, symmetric])
      then show "q = h" by (rule one [OF q(1) h(1)])
    qed
    then show ?thesis unfolding calm_file_def h(2) option.case using h(1) by blast
  qed
  ultimately have "calm P (lw_started w) pcs w" by (simp add: calm_def)
  from calm_run [OF assms(1) this assms(4,5)] show ?thesis
    using assms(6-9) by (auto simp: calm_def calm_file_def split: option.splits)
qed

definition sample_procs :: "int \<Rightarrow> string option" where
  "sample_procs p = (if p = 11 then Some ''utc1 a'' else if p = 22 then Some ''utc1 b'' else None)"

text \<open>Two starters, each one operation at a time: the first ends as the holder, the second as refused.\<close>

theorem one_holder_witness:
  "let s = fst (lock_run [(11, False), (22, False), (11, False), (22, False), (22, False), (22, False)]
      (\<lambda>p. Claiming True, \<lparr>lw_file = None, lw_started = sample_procs\<rparr>))
   in s 11 = Holding \<and> s 22 \<noteq> Holding"
proof -
  let ?as = "[(11, False), (22, False), (11, False), (22, False), (22, False), (22, False)]"
  let ?w = "\<lparr>lw_file = None, lw_started = sample_procs\<rparr>"
  obtain pcs' w' where e: "lock_run ?as (\<lambda>p. Claiming True, ?w) = (pcs', w')" by fastforce
  have "fst (lock_run ?as (\<lambda>p. Claiming True, ?w)) 11 = Holding"
    using read_own_lock [of 11 "Some ''utc1 a''"]
    by (simp add: lock_step_def sample_procs_def plain_line_def trim_string_def space_char_def)
  then have h: "pcs' 11 = Holding" using e by simp
  have sub: "fst ` set ?as \<subseteq> {11, 22::int}" by simp
  have live: "0 < q \<and> (\<exists>s. lw_started ?w q = Some s \<and> plain_line s)" if "q \<in> {11, 22}" for q
    using that by (auto simp: sample_procs_def plain_line_def trim_string_def space_char_def)
  have "(22::int) = 11" if "pcs' 22 = Holding"
    by (rule one_holder [OF live _ _ sub e _ _ that h]) simp_all
  then have "pcs' 22 \<noteq> Holding" by auto
  then show ?thesis using e h unfolding Let_def by (simp del: lock_run.simps)
qed

section \<open>Two takeovers\<close>

text \<open>
  Two starters read a lock that a process left which is gone. The first moves it aside and claims;
  the second, which has judged the old lock by then, moves the first one's aside and claims as well.
\<close>

lemma takeovers_race:
  "let s = lock_run ([(11, False), (11, False), (11, False), (11, False)] @ [(22, False), (22, False), (22, False), (22, False)]
        @ [(11, False), (11, False), (11, False)] @ [(22, False), (22, False), (22, False)])
        (\<lambda>p. Claiming True, \<lparr>lw_file = Some (lock_text 7 (Some ''utc1 x'')), lw_started = sample_procs\<rparr>)
   in fst s 11 = Holding \<and> fst s 22 = Holding"
proof -
  have h: "lock_holder (lock_text 7 (Some ''utc1 x'')) = Some (7, ''utc1 x'')"
    "trim_string (lock_text 7 (Some ''utc1 x'')) \<noteq> ''''"
    using holder_of_own_text [of 7 "Some ''utc1 x''"] by (auto simp: plain_line_def trim_string_def space_char_def)
  show ?thesis by (simp add: Let_def lock_step_def read_lock_def judge_holder_def h sample_procs_def)
qed

end
