(* ===== verification/Pm_State.thy ===== *)
theory Pm_State
  imports Schema Paths
begin

text \<open>
  The state file of the project manager (\<open>src/run/pm-state.ts\<close>): the document and its phases, the
  checks across their fields, how it is written and read back, and what may be said of a phase from
  the file and from the run tree. JSON and the file system are parameters. The lemmas give the
  ownership an accepted phase has, the round trip through the file, and when a phase is complete.
\<close>

section \<open>The document\<close>

definition PM_STATE_SCHEMA :: string where "PM_STATE_SCHEMA = ''pifleet.pmstate/v1''"

datatype pm_verdict_kind = K_void | K_no_collation | K_review_incomplete | K_approved | K_approved_with_dissent | K_changes_requested

definition PM_REVIEW_VERDICT_KINDS :: "(string \<times> pm_verdict_kind) list" where
  "PM_REVIEW_VERDICT_KINDS =
    [(''VOID'', K_void), (''NO_COLLATION'', K_no_collation), (''REVIEW_INCOMPLETE'', K_review_incomplete),
     (''APPROVED'', K_approved), (''APPROVED_WITH_DISSENT'', K_approved_with_dissent), (''CHANGES_REQUESTED'', K_changes_requested)]"

datatype pm_status = St_not_started | St_in_progress | St_paused | St_blocked | St_claimed_complete | St_abandoned

definition PM_RUN_STATUS_CLAIMS :: "(string \<times> pm_status) list" where
  "PM_RUN_STATUS_CLAIMS =
    [(''not_started'', St_not_started), (''in_progress'', St_in_progress), (''paused'', St_paused), (''blocked'', St_blocked),
     (''claimed_complete'', St_claimed_complete), (''abandoned'', St_abandoned)]"

datatype branch_model = Long_lived | Per_phase

definition branch_models :: "(string \<times> branch_model) list" where
  "branch_models = [(''long-lived'', Long_lived), (''per-phase'', Per_phase)]"

record partition_entry =
  pe_worker :: worker_id
  pe_round :: int
  pe_task_ids :: "task_id list"
  pe_files :: "string list"

record dispatch_row =
  dr_worker :: worker_id
  dr_task_id :: task_id
  dr_run_id :: string

record phase_review =
  pv_parent_task_id :: task_id
  pv_collate_task_id :: task_id
  pv_reported :: int
  pv_dispatched :: int
  pv_verdict :: pm_verdict_kind
  pv_iteration :: int

record pm_phase =
  ph_n :: int
  ph_slug :: string
  ph_name :: string
  ph_partition :: "partition_entry list"
  ph_dispatched :: "dispatch_row list"
  ph_integration :: "string option"
  ph_review :: "phase_review option"

record console_record =
  co_launched_from :: string
  co_workspace_id :: string

text \<open>What the document and the cursor a reader gets of it share: all but the completed phases.\<close>

record pm_intent =
  pm_srd_path :: string
  pm_repo_path :: string
  pm_base_branch :: string
  pm_baseline_commit :: string
  pm_branch_model :: branch_model
  pm_branch :: string
  pm_total_phases :: int
  pm_current_phase :: int
  pm_status :: pm_status
  pm_development :: "console_record option"
  pm_review :: "console_record option"
  pm_phases :: "pm_phase list"
  pm_answered_questions :: "(string \<times> string) list"
  pm_out_of_band_commits :: "(string \<times> string) list"
  pm_pr_policy :: string
  pm_srd_version :: string
  pm_baseline_suite :: string
  pm_review_at_end_of_each_phase :: bool
  pm_max_review_iterations :: int
  pm_parallel_engineers :: int
  pm_prior_run_state :: string
  pm_decisions :: "(string \<times> string) list"
  pm_measurements :: "(string \<times> string) list"
  pm_pause_point :: string
  pm_resume_from :: string
  pm_verified_at_pause :: string
  pm_review_round_status :: string
  pm_skill_install :: string

record pm_document = pm_intent +
  pm_completed_phases :: "int list"

record pm_cursor = pm_intent +
  cu_source_path :: host_path
  cu_claimed :: "int list"

section \<open>The fields\<close>

definition task_id_field :: "json \<Rightarrow> string option" where
  "task_id_field = string_where (\<lambda>s. length s \<le> MAX_RELAY_TASK_ID_CHARS \<and> SESSION_ID_RE s)"

definition worker_field :: "json \<Rightarrow> string option" where "worker_field = string_where workerId"

definition commitish :: "string \<Rightarrow> bool" where
  "commitish s \<longleftrightarrow> 7 \<le> length s \<and> length s \<le> 40 \<and> list_all hex_digit s"

definition repoRelativePath :: "json \<Rightarrow> string option" where
  "repoRelativePath = string_where (\<lambda>p. p \<noteq> '''' \<and> length p \<le> MAX_SHORT \<and> \<not> is_absolute p \<and> ''..'' \<notin> set (split_slash p))"

definition strict :: "string list \<Rightarrow> json \<Rightarrow> unit option" where
  "strict keys v = (if strict_keys keys v then Some () else None)"

fun nullable :: "(json \<Rightarrow> 'a option) \<Rightarrow> json \<Rightarrow> 'a option option" where
  "nullable f JNull = Some None"
| "nullable f v = map_option Some (f v)"

text \<open>\<open>z.record\<close>: every key and every value is one that is allowed.\<close>

fun text_record :: "(string \<Rightarrow> bool) \<Rightarrow> json \<Rightarrow> (string \<times> string) list option" where
  "text_record K (JObj ps) =
    those (map (\<lambda>(k, v). if K k then map_option (Pair k) (longText v) else None) ps)"
| "text_record K _ = None"

definition PmPartitionEntrySchema :: "json \<Rightarrow> partition_entry option" where
  "PmPartitionEntrySchema v =
    do {
      _ \<leftarrow> strict [''worker'', ''round'', ''task_ids'', ''files''] v;
      worker \<leftarrow> field v ''worker'' worker_field;
      round \<leftarrow> default_field v ''round'' 1 positive_number;
      task_ids \<leftarrow> field v ''task_ids'' (array_of 1 MAX_ITEMS task_id_field);
      paths \<leftarrow> field v ''files'' (array_of 1 MAX_ITEMS repoRelativePath);
      Some \<lparr>pe_worker = worker, pe_round = round, pe_task_ids = task_ids, pe_files = paths\<rparr>
    }"

definition PmDispatchRowSchema :: "json \<Rightarrow> dispatch_row option" where
  "PmDispatchRowSchema v =
    do {
      _ \<leftarrow> strict [''worker'', ''task_id'', ''run_id''] v;
      worker \<leftarrow> field v ''worker'' worker_field;
      task_id \<leftarrow> field v ''task_id'' task_id_field;
      run_id \<leftarrow> field v ''run_id'' shortStr;
      Some \<lparr>dr_worker = worker, dr_task_id = task_id, dr_run_id = run_id\<rparr>
    }"

definition PmIntegrationPointerSchema :: "json \<Rightarrow> string option" where
  "PmIntegrationPointerSchema v =
    do { _ \<leftarrow> strict [''record''] v; field v ''record'' repoRelativePath }"

definition coverage_schema :: "json \<Rightarrow> (int \<times> int) option" where
  "coverage_schema v =
    do {
      _ \<leftarrow> strict [''reported'', ''dispatched''] v;
      reported \<leftarrow> field v ''reported'' natural_number;
      dispatched \<leftarrow> field v ''dispatched'' natural_number;
      if reported > dispatched then None else Some (reported, dispatched)
    }"

definition PmPhaseReviewSchema :: "json \<Rightarrow> phase_review option" where
  "PmPhaseReviewSchema v =
    do {
      _ \<leftarrow> strict [''parent_task_id'', ''collate_task_id'', ''coverage'', ''verdict'', ''iteration''] v;
      parent \<leftarrow> field v ''parent_task_id'' task_id_field;
      collate \<leftarrow> field v ''collate_task_id'' task_id_field;
      coverage \<leftarrow> field v ''coverage'' coverage_schema;
      verdict \<leftarrow> field v ''verdict'' (enum_of PM_REVIEW_VERDICT_KINDS);
      iteration \<leftarrow> field v ''iteration'' natural_number;
      Some \<lparr>pv_parent_task_id = parent, pv_collate_task_id = collate, pv_reported = fst coverage,
            pv_dispatched = snd coverage, pv_verdict = verdict, pv_iteration = iteration\<rparr>
    }"

definition ConsoleRecordSchema :: "json \<Rightarrow> console_record option" where
  "ConsoleRecordSchema v =
    do {
      _ \<leftarrow> strict [''launched_from'', ''workspace_id''] v;
      launched \<leftarrow> field v ''launched_from'' shortStr;
      workspace \<leftarrow> field v ''workspace_id'' shortStr;
      Some \<lparr>co_launched_from = launched, co_workspace_id = workspace\<rparr>
    }"

definition consoles_schema :: "json \<Rightarrow> (console_record option \<times> console_record option) option" where
  "consoles_schema v =
    do {
      _ \<leftarrow> strict [''development'', ''review''] v;
      development \<leftarrow> default_field v ''development'' None (nullable ConsoleRecordSchema);
      review \<leftarrow> default_field v ''review'' None (nullable ConsoleRecordSchema);
      Some (development, review)
    }"

section \<open>The checks of a phase\<close>

datatype phase_issue =
    File_owned_twice string worker_id worker_id int | Task_assigned_twice task_id worker_id worker_id
  | Dispatch_unassigned task_id | Dispatch_elsewhere task_id worker_id worker_id | Wrong_record string string

text \<open>The owners seen so far, by the round and the file and by the task; the first owner stays.\<close>

type_synonym file_owners = "int \<times> string \<rightharpoonup> worker_id"
type_synonym task_owners = "task_id \<rightharpoonup> worker_id"

fun claim_files :: "partition_entry \<Rightarrow> string list \<Rightarrow> file_owners \<Rightarrow> phase_issue list \<times> file_owners" where
  "claim_files e [] own = ([], own)"
| "claim_files e (f # fs) own =
    (case own (pe_round e, f) of
       Some prior \<Rightarrow> apfst ((#) (File_owned_twice f prior (pe_worker e) (pe_round e))) (claim_files e fs own)
     | None \<Rightarrow> claim_files e fs (own((pe_round e, f) \<mapsto> pe_worker e)))"

fun claim_tasks :: "partition_entry \<Rightarrow> task_id list \<Rightarrow> task_owners \<Rightarrow> phase_issue list \<times> task_owners" where
  "claim_tasks e [] own = ([], own)"
| "claim_tasks e (t # ts) own =
    (case own t of
       Some prior \<Rightarrow> apfst ((#) (Task_assigned_twice t prior (pe_worker e))) (claim_tasks e ts own)
     | None \<Rightarrow> claim_tasks e ts (own(t \<mapsto> pe_worker e)))"

fun claim_entries ::
  "partition_entry list \<Rightarrow> file_owners \<Rightarrow> task_owners \<Rightarrow> phase_issue list \<times> task_owners" where
  "claim_entries [] fo to = ([], to)"
| "claim_entries (e # es) fo to =
    (let (is1, fo') = claim_files e (pe_files e) fo; (is2, to') = claim_tasks e (pe_task_ids e) to;
         (is3, to'') = claim_entries es fo' to' in
     (is1 @ is2 @ is3, to''))"

definition check_row :: "task_owners \<Rightarrow> dispatch_row \<Rightarrow> phase_issue list" where
  "check_row to r =
    (case to (dr_task_id r) of
       None \<Rightarrow> [Dispatch_unassigned (dr_task_id r)]
     | Some owner \<Rightarrow> if owner \<noteq> dr_worker r then [Dispatch_elsewhere (dr_task_id r) (dr_worker r) owner] else [])"

definition canonicalIntegrationRecordPath :: "int \<Rightarrow> string" where
  "canonicalIntegrationRecordPath n =
    ''.claude/project-manager/phase-'' @ decimal (nat n) @ ''/integration.json''"

definition phase_issues :: "pm_phase \<Rightarrow> phase_issue list" where
  "phase_issues p =
    (let (issues, to) = claim_entries (ph_partition p) Map.empty Map.empty in
     issues @ concat (map (check_row to) (ph_dispatched p))
     @ (case ph_integration p of None \<Rightarrow> []
        | Some r \<Rightarrow>
            let expected = canonicalIntegrationRecordPath (ph_n p) in
            if r \<noteq> expected then [Wrong_record r expected] else []))"

definition PmPhaseSchema :: "json \<Rightarrow> pm_phase option" where
  "PmPhaseSchema v =
    do {
      _ \<leftarrow> strict [''n'', ''slug'', ''name'', ''partition'', ''dispatched'', ''integration'', ''review''] v;
      n \<leftarrow> field v ''n'' natural_number;
      slug \<leftarrow> field v ''slug'' shortStr;
      name \<leftarrow> field v ''name'' shortStr;
      partition \<leftarrow> field v ''partition'' (array_of 0 MAX_ITEMS PmPartitionEntrySchema);
      dispatched \<leftarrow> default_field v ''dispatched'' [] (array_of 0 MAX_ITEMS PmDispatchRowSchema);
      integration \<leftarrow> default_field v ''integration'' None (nullable PmIntegrationPointerSchema);
      review \<leftarrow> default_field v ''review'' None (nullable PmPhaseReviewSchema);
      let p = \<lparr>ph_n = n, ph_slug = slug, ph_name = name, ph_partition = partition, ph_dispatched = dispatched,
               ph_integration = integration, ph_review = review\<rparr>;
      if phase_issues p = [] then Some p else None
    }"

section \<open>The checks of the document\<close>

datatype document_issue =
    Phase_twice int | Total_differs int nat | No_current_phase int | Completed_twice int | Completed_unknown int
  | Reached_without_partition int

fun repeated :: "int list \<Rightarrow> int list \<Rightarrow> int list" where
  "repeated seen [] = []"
| "repeated seen (n # ns) = (if n \<in> set seen then [n] else []) @ repeated (n # seen) ns"

fun completed_issues :: "int list \<Rightarrow> int list \<Rightarrow> int list \<Rightarrow> document_issue list" where
  "completed_issues phases seen [] = []"
| "completed_issues phases seen (n # ns) =
    (if n \<in> set seen then [Completed_twice n] else []) @ (if n \<notin> set phases then [Completed_unknown n] else [])
    @ completed_issues phases (n # seen) ns"

definition reached_issue :: "int list \<Rightarrow> pm_phase \<Rightarrow> document_issue list" where
  "reached_issue completed p =
    (if ph_partition p \<noteq> [] then []
     else if ph_n p \<notin> set completed \<and> ph_dispatched p = [] then []
     else [Reached_without_partition (ph_n p)])"

definition document_issues :: "pm_document \<Rightarrow> document_issue list" where
  "document_issues d =
    (let ns = map ph_n (pm_phases d) in
     map Phase_twice (repeated [] ns)
     @ (if pm_total_phases d \<noteq> int (length ns) then [Total_differs (pm_total_phases d) (length ns)] else [])
     @ (if pm_current_phase d \<notin> set ns then [No_current_phase (pm_current_phase d)] else [])
     @ completed_issues ns [] (pm_completed_phases d)
     @ concat (map (reached_issue (pm_completed_phases d)) (pm_phases d)))"

definition document_keys :: "string list" where
  "document_keys =
    [''schema'', ''srd_path'', ''repo_path'', ''base_branch'', ''baseline_commit'', ''branch_model'', ''branch'', ''total_phases'',
     ''current_phase'', ''completed_phases'', ''status'', ''consoles'', ''phases'', ''answered_questions'',
     ''out_of_band_commits'', ''pr_policy'', ''srd_version'', ''baseline_suite'', ''review_at_end_of_each_phase'',
     ''max_review_iterations'', ''parallel_engineers'', ''prior_run_state'', ''decisions'', ''measurements'',
     ''pause_point'', ''resume_from'', ''verified_at_pause'', ''review_round_status'', ''skill_install'']"

definition short_key :: "string \<Rightarrow> bool" where "short_key k \<longleftrightarrow> length k \<le> MAX_SHORT"

definition PmStateDocumentSchema :: "json \<Rightarrow> pm_document option" where
  "PmStateDocumentSchema v =
    do {
      _ \<leftarrow> strict document_keys v;
      _ \<leftarrow> field v ''schema'' (string_where (\<lambda>s. s = PM_STATE_SCHEMA));
      srd_path \<leftarrow> field v ''srd_path'' shortStr;
      repo_path \<leftarrow> field v ''repo_path'' shortStr;
      base_branch \<leftarrow> field v ''base_branch'' shortStr;
      baseline_commit \<leftarrow> field v ''baseline_commit'' (string_where commitish);
      branch_model \<leftarrow> field v ''branch_model'' (enum_of branch_models);
      branch \<leftarrow> field v ''branch'' shortStr;
      total_phases \<leftarrow> field v ''total_phases'' natural_number;
      current_phase \<leftarrow> field v ''current_phase'' natural_number;
      completed_phases \<leftarrow> default_field v ''completed_phases'' [] (array_of 0 MAX_ITEMS natural_number);
      status \<leftarrow> field v ''status'' (enum_of PM_RUN_STATUS_CLAIMS);
      consoles \<leftarrow> default_field v ''consoles'' (None, None) consoles_schema;
      phases \<leftarrow> field v ''phases'' (array_of 0 MAX_ITEMS PmPhaseSchema);
      answered_questions \<leftarrow> default_field v ''answered_questions'' [] (text_record short_key);
      out_of_band_commits \<leftarrow> default_field v ''out_of_band_commits'' [] (text_record commitish);
      pr_policy \<leftarrow> default_field v ''pr_policy'' '''' longText;
      srd_version \<leftarrow> default_field v ''srd_version'' '''' shortStr;
      baseline_suite \<leftarrow> default_field v ''baseline_suite'' '''' longText;
      review_at_end \<leftarrow> default_field v ''review_at_end_of_each_phase'' True boolean_of;
      max_review_iterations \<leftarrow> default_field v ''max_review_iterations'' 3 positive_number;
      parallel_engineers \<leftarrow> default_field v ''parallel_engineers'' 2 positive_number;
      prior_run_state \<leftarrow> default_field v ''prior_run_state'' '''' longText;
      decisions \<leftarrow> default_field v ''decisions'' [] (text_record short_key);
      measurements \<leftarrow> default_field v ''measurements'' [] (text_record short_key);
      pause_point \<leftarrow> default_field v ''pause_point'' '''' longText;
      resume_from \<leftarrow> default_field v ''resume_from'' '''' longText;
      verified_at_pause \<leftarrow> default_field v ''verified_at_pause'' '''' longText;
      review_round_status \<leftarrow> default_field v ''review_round_status'' '''' longText;
      skill_install \<leftarrow> default_field v ''skill_install'' '''' longText;
      let d = \<lparr>pm_srd_path = srd_path, pm_repo_path = repo_path, pm_base_branch = base_branch,
               pm_baseline_commit = baseline_commit, pm_branch_model = branch_model, pm_branch = branch,
               pm_total_phases = total_phases, pm_current_phase = current_phase,
               pm_status = status, pm_development = fst consoles, pm_review = snd consoles, pm_phases = phases,
               pm_answered_questions = answered_questions, pm_out_of_band_commits = out_of_band_commits,
               pm_pr_policy = pr_policy, pm_srd_version = srd_version, pm_baseline_suite = baseline_suite,
               pm_review_at_end_of_each_phase = review_at_end, pm_max_review_iterations = max_review_iterations,
               pm_parallel_engineers = parallel_engineers, pm_prior_run_state = prior_run_state, pm_decisions = decisions,
               pm_measurements = measurements, pm_pause_point = pause_point, pm_resume_from = resume_from,
               pm_verified_at_pause = verified_at_pause, pm_review_round_status = review_round_status,
               pm_skill_install = skill_install, pm_completed_phases = completed_phases\<rparr>;
      if document_issues d = [] then Some d else None
    }"

section \<open>Writing and reading the file\<close>

definition name_of :: "(string \<times> 'a) list \<Rightarrow> 'a \<Rightarrow> json" where
  "name_of names a = JStr (the (map_of (map (\<lambda>(k, x). (x, k)) names) a))"

definition partition_json :: "partition_entry \<Rightarrow> json" where
  "partition_json e = JObj [(''worker'', JStr (pe_worker e)), (''round'', JNum (js_int (pe_round e))),
     (''task_ids'', JArr (map JStr (pe_task_ids e))), (''files'', JArr (map JStr (pe_files e)))]"

definition row_json :: "dispatch_row \<Rightarrow> json" where
  "row_json r = JObj [(''worker'', JStr (dr_worker r)), (''task_id'', JStr (dr_task_id r)), (''run_id'', JStr (dr_run_id r))]"

definition review_json :: "phase_review \<Rightarrow> json" where
  "review_json r = JObj [(''parent_task_id'', JStr (pv_parent_task_id r)), (''collate_task_id'', JStr (pv_collate_task_id r)),
     (''coverage'', JObj [(''reported'', JNum (js_int (pv_reported r))), (''dispatched'', JNum (js_int (pv_dispatched r)))]),
     (''verdict'', name_of PM_REVIEW_VERDICT_KINDS (pv_verdict r)), (''iteration'', JNum (js_int (pv_iteration r)))]"

definition or_null :: "('a \<Rightarrow> json) \<Rightarrow> 'a option \<Rightarrow> json" where
  "or_null f x = (case x of None \<Rightarrow> JNull | Some y \<Rightarrow> f y)"

definition phase_json :: "pm_phase \<Rightarrow> json" where
  "phase_json p = JObj [(''n'', JNum (js_int (ph_n p))), (''slug'', JStr (ph_slug p)), (''name'', JStr (ph_name p)),
     (''partition'', JArr (map partition_json (ph_partition p))), (''dispatched'', JArr (map row_json (ph_dispatched p))),
     (''integration'', or_null (\<lambda>r. JObj [(''record'', JStr r)]) (ph_integration p)),
     (''review'', or_null review_json (ph_review p))]"

definition console_json :: "console_record \<Rightarrow> json" where
  "console_json c = JObj [(''launched_from'', JStr (co_launched_from c)), (''workspace_id'', JStr (co_workspace_id c))]"

definition texts_json :: "(string \<times> string) list \<Rightarrow> json" where
  "texts_json ps = JObj (map (\<lambda>(k, t). (k, JStr t)) ps)"

definition document_json :: "pm_document \<Rightarrow> json" where
  "document_json d = JObj
    [(''schema'', JStr PM_STATE_SCHEMA), (''srd_path'', JStr (pm_srd_path d)), (''repo_path'', JStr (pm_repo_path d)),
     (''base_branch'', JStr (pm_base_branch d)), (''baseline_commit'', JStr (pm_baseline_commit d)),
     (''branch_model'', name_of branch_models (pm_branch_model d)), (''branch'', JStr (pm_branch d)),
     (''total_phases'', JNum (js_int (pm_total_phases d))), (''current_phase'', JNum (js_int (pm_current_phase d))),
     (''completed_phases'', JArr (map (\<lambda>n. JNum (js_int n)) (pm_completed_phases d))),
     (''status'', name_of PM_RUN_STATUS_CLAIMS (pm_status d)),
     (''consoles'', JObj [(''development'', or_null console_json (pm_development d)), (''review'', or_null console_json (pm_review d))]),
     (''phases'', JArr (map phase_json (pm_phases d))), (''answered_questions'', texts_json (pm_answered_questions d)),
     (''out_of_band_commits'', texts_json (pm_out_of_band_commits d)), (''pr_policy'', JStr (pm_pr_policy d)),
     (''srd_version'', JStr (pm_srd_version d)), (''baseline_suite'', JStr (pm_baseline_suite d)),
     (''review_at_end_of_each_phase'', JBool (pm_review_at_end_of_each_phase d)),
     (''max_review_iterations'', JNum (js_int (pm_max_review_iterations d))),
     (''parallel_engineers'', JNum (js_int (pm_parallel_engineers d))), (''prior_run_state'', JStr (pm_prior_run_state d)),
     (''decisions'', texts_json (pm_decisions d)), (''measurements'', texts_json (pm_measurements d)),
     (''pause_point'', JStr (pm_pause_point d)), (''resume_from'', JStr (pm_resume_from d)),
     (''verified_at_pause'', JStr (pm_verified_at_pause d)), (''review_round_status'', JStr (pm_review_round_status d)),
     (''skill_install'', JStr (pm_skill_install d))]"

datatype git_entry = Git_missing | Git_directory | Git_file | Git_other

text \<open>The files: what \<open>lstat\<close> says of a path, and what reading it gives, an error or the text.\<close>

record pm_world =
  pw_lstat :: "host_path \<Rightarrow> git_entry"
  pw_read :: "host_path \<Rightarrow> string + string"

record json_codec =
  jk_parse :: "string \<Rightarrow> json option"
  jk_stringify :: "json \<Rightarrow> string"

datatype pm_error = Outside_repository | State_unreadable string | State_not_json | State_malformed | Write_failed string

definition assertRepositoryRoot :: "pm_world \<Rightarrow> host_path \<Rightarrow> bool" where
  "assertRepositoryRoot w root_dir \<longleftrightarrow> pw_lstat w (join_path root_dir ''.git'') \<in> {Git_directory, Git_file}"

definition pmStatePath :: "host_path \<Rightarrow> host_path" where
  "pmStatePath root_dir = join_path (join_path root_dir ''.claude'') ''project-manager-state.json''"

text \<open>\<open>fault\<close>: an error of the directory or of the write, with what the file is left with.\<close>

definition writePmState ::
  "json_codec \<Rightarrow> (string \<times> (string + string)) option \<Rightarrow> host_path \<Rightarrow> pm_document \<Rightarrow> pm_world \<Rightarrow> pm_error option \<times> pm_world" where
  "writePmState c fault root_dir d w =
    (if \<not> assertRepositoryRoot w root_dir then (Some Outside_repository, w)
     else case PmStateDocumentSchema (document_json d) of None \<Rightarrow> (Some State_malformed, w)
     | Some p \<Rightarrow>
         let path = pmStatePath root_dir in
         case fault of
           Some (e, left) \<Rightarrow> (Some (Write_failed e), w\<lparr>pw_read := (pw_read w)(path := left)\<rparr>)
         | None \<Rightarrow> (None, w\<lparr>pw_read := (pw_read w)(path := Inr (jk_stringify c (document_json p) @ [CHR 0x0A]))\<rparr>))"

definition cursor_of :: "host_path \<Rightarrow> pm_document \<Rightarrow> pm_cursor" where
  "cursor_of path d = pm_intent.extend (pm_intent.truncate d) (pm_cursor.fields path (pm_completed_phases d))"

definition readPmState :: "json_codec \<Rightarrow> pm_world \<Rightarrow> host_path \<Rightarrow> pm_error + pm_cursor" where
  "readPmState c w root_dir =
    (if \<not> assertRepositoryRoot w root_dir then Inl Outside_repository
     else case pw_read w (pmStatePath root_dir) of Inl e \<Rightarrow> Inl (State_unreadable e)
     | Inr raw \<Rightarrow>
         case jk_parse c raw of None \<Rightarrow> Inl State_not_json
         | Some v \<Rightarrow>
             case PmStateDocumentSchema v of None \<Rightarrow> Inl State_malformed
             | Some d \<Rightarrow> Inr (cursor_of (pmStatePath root_dir) d))"

definition document_of :: "pm_cursor \<Rightarrow> pm_document" where
  "document_of cu = pm_intent.extend (pm_intent.truncate cu) (pm_document.fields (cu_claimed cu))"

definition toPmStateDocument :: "pm_cursor \<Rightarrow> pm_document option" where
  "toPmStateDocument cu = PmStateDocumentSchema (document_json (document_of cu))"

section \<open>What may be said of a phase\<close>

datatype completion_claim = Never_started | Started_not_claimed | Claimed_unverified "task_id list"

datatype phase_resolution =
    Complete | Stale_file "task_id list" "task_id list" | Incomplete "task_id list" "task_id list" | No_partition

definition intendedTaskIds :: "pm_phase \<Rightarrow> task_id list" where
  "intendedTaskIds p = concat (map pe_task_ids (ph_partition p))"

definition phase_of :: "pm_cursor \<Rightarrow> int \<Rightarrow> pm_phase option" where
  "phase_of cu n = find (\<lambda>p. ph_n p = n) (pm_phases cu)"

text \<open>A number that names no phase is a \<open>RangeError\<close>.\<close>

definition phaseCompletionClaim :: "pm_cursor \<Rightarrow> int \<Rightarrow> completion_claim option" where
  "phaseCompletionClaim cu n =
    map_option (\<lambda>p.
      if n \<in> set (cu_claimed cu) then Claimed_unverified (intendedTaskIds p)
      else if ph_dispatched p \<noteq> [] \<or> pm_current_phase cu = n then Started_not_claimed
      else Never_started) (phase_of cu n)"

definition resolvePhaseCompletion :: "pm_cursor \<Rightarrow> int \<Rightarrow> task_id list \<Rightarrow> task_id list \<Rightarrow> phase_resolution option" where
  "resolvePhaseCompletion cu n withArtifacts merged =
    map_option (\<lambda>p.
      let intended = intendedTaskIds p;
          missingArtifacts = [i \<leftarrow> intended. i \<notin> set withArtifacts]; unmerged = [i \<leftarrow> intended. i \<notin> set merged] in
      if intended = [] then No_partition
      else if missingArtifacts = [] \<and> unmerged = [] then Complete
      else if n \<in> set (cu_claimed cu) then Stale_file missingArtifacts unmerged
      else Incomplete missingArtifacts unmerged) (phase_of cu n)"

section \<open>Owners\<close>

text \<open>
  A phase as it should be: each path of a round and each task is listed once, and dispatches go to the
  worker that lists the task.
\<close>

definition lawful_phase :: "pm_phase \<Rightarrow> bool" where
  "lawful_phase p \<longleftrightarrow>
    distinct (concat (map (\<lambda>e. map (Pair (pe_round e)) (pe_files e)) (ph_partition p)))
    \<and> distinct (concat (map pe_task_ids (ph_partition p)))
    \<and> list_all (\<lambda>r. list_ex (\<lambda>e. pe_worker e = dr_worker r \<and> dr_task_id r \<in> set (pe_task_ids e)) (ph_partition p))
        (ph_dispatched p)
    \<and> (case ph_integration p of None \<Rightarrow> True | Some r \<Rightarrow> r = canonicalIntegrationRecordPath (ph_n p))"

lemma claim_files_clean:
  "fst (claim_files e fs own) = [] \<longleftrightarrow> distinct fs \<and> (\<forall>f \<in> set fs. own (pe_round e, f) = None)"
proof (induction e fs own rule: claim_files.induct)
  case (2 e f fs own)
  show ?case
  proof (cases "own (pe_round e, f)")
    case None
    have "fst (claim_files e fs (own((pe_round e, f) \<mapsto> pe_worker e))) = [] \<longleftrightarrow>
        distinct fs \<and> (\<forall>g \<in> set fs. g \<noteq> f \<and> own (pe_round e, g) = None)"
      unfolding 2(1) [OF None] by auto
    then show ?thesis using None by (auto simp del: fun_upd_apply)
  qed simp
qed simp

lemma claim_files_owners:
  "fst (claim_files e fs own) = [] \<Longrightarrow>
    snd (claim_files e fs own) k = None \<longleftrightarrow> own k = None \<and> k \<notin> Pair (pe_round e) ` set fs"
  by (induction e fs own rule: claim_files.induct) (auto simp: apfst_def map_prod_def split: option.splits prod.splits if_splits)

lemma claim_tasks_clean:
  "fst (claim_tasks e ts own) = [] \<longleftrightarrow> distinct ts \<and> (\<forall>t \<in> set ts. own t = None)"
proof (induction e ts own rule: claim_tasks.induct)
  case (2 e t ts own)
  show ?case
  proof (cases "own t")
    case None
    have "fst (claim_tasks e ts (own(t \<mapsto> pe_worker e))) = [] \<longleftrightarrow> distinct ts \<and> (\<forall>u \<in> set ts. u \<noteq> t \<and> own u = None)"
      unfolding 2(1) [OF None] by auto
    then show ?thesis using None by (auto simp del: fun_upd_apply)
  qed simp
qed simp

lemma claim_tasks_owners:
  "fst (claim_tasks e ts own) = [] \<Longrightarrow> snd (claim_tasks e ts own) t = (if t \<in> set ts then Some (pe_worker e) else own t)"
  by (induction e ts own rule: claim_tasks.induct) (auto simp: apfst_def map_prod_def split: option.splits prod.splits if_splits)

lemma disjoint_images: "A \<inter> (\<Union>x \<in> S. f x ` g x) = {} \<longleftrightarrow> (\<forall>x \<in> S. \<forall>y \<in> g x. f x y \<notin> A)"
  by auto

lemma claim_entries_clean:
  "fst (claim_entries es fo to) = [] \<longleftrightarrow>
    distinct (concat (map (\<lambda>e. map (Pair (pe_round e)) (pe_files e)) es))
    \<and> (\<forall>e \<in> set es. \<forall>f \<in> set (pe_files e). fo (pe_round e, f) = None)
    \<and> distinct (concat (map pe_task_ids es)) \<and> (\<forall>e \<in> set es. \<forall>t \<in> set (pe_task_ids e). to t = None)"
proof (induction es fo to rule: claim_entries.induct)
  case (2 e es fo to)
  obtain is1 fo' where f: "claim_files e (pe_files e) fo = (is1, fo')" by fastforce
  obtain is2 to' where t: "claim_tasks e (pe_task_ids e) to = (is2, to')" by fastforce
  obtain is3 to'' where r: "claim_entries es fo' to' = (is3, to'')" by fastforce
  have c1: "is1 = [] \<longleftrightarrow> distinct (pe_files e) \<and> (\<forall>x \<in> set (pe_files e). fo (pe_round e, x) = None)"
    using claim_files_clean [of e "pe_files e" fo] f by simp
  have c2: "is2 = [] \<longleftrightarrow> distinct (pe_task_ids e) \<and> (\<forall>x \<in> set (pe_task_ids e). to x = None)"
    using claim_tasks_clean [of e "pe_task_ids e" to] t by simp
  have o1: "fo' k = None \<longleftrightarrow> fo k = None \<and> k \<notin> Pair (pe_round e) ` set (pe_files e)" if "is1 = []" for k
    using claim_files_owners [of e "pe_files e" fo k] f that by simp
  have o2: "to' k = None \<longleftrightarrow> to k = None \<and> k \<notin> set (pe_task_ids e)" if "is2 = []" for k
    using claim_tasks_owners [of e "pe_task_ids e" to k] t that by auto
  let ?A = "Pair (pe_round e) ` set (pe_files e)" and ?T = "set (pe_task_ids e)"
  have IH: "is3 = [] \<longleftrightarrow>
      distinct (concat (map (\<lambda>e. map (Pair (pe_round e)) (pe_files e)) es))
      \<and> (\<forall>e \<in> set es. \<forall>f \<in> set (pe_files e). fo' (pe_round e, f) = None)
      \<and> distinct (concat (map pe_task_ids es)) \<and> (\<forall>e \<in> set es. \<forall>t \<in> set (pe_task_ids e). to' t = None)"
    using 2 [OF f [symmetric] refl t [symmetric] refl] r by simp
  have d1: "?A \<inter> (\<Union>e' \<in> set es. Pair (pe_round e') ` set (pe_files e')) = {} \<longleftrightarrow>
      (\<forall>e' \<in> set es. \<forall>g \<in> set (pe_files e'). (pe_round e', g) \<notin> ?A)" by (rule disjoint_images)
  have d2: "?T \<inter> (\<Union>e' \<in> set es. set (pe_task_ids e')) = {} \<longleftrightarrow> (\<forall>e' \<in> set es. \<forall>t \<in> set (pe_task_ids e'). t \<notin> ?T)" by auto
  have inj: "distinct (map (Pair (pe_round e)) (pe_files e)) = distinct (pe_files e)" by (simp add: distinct_map inj_on_def)
  show ?case
  proof (cases "is1 = [] \<and> is2 = []")
    case True
    have "(\<forall>e' \<in> set es. \<forall>g \<in> set (pe_files e'). fo' (pe_round e', g) = None) \<longleftrightarrow>
        (\<forall>e' \<in> set es. \<forall>g \<in> set (pe_files e'). fo (pe_round e', g) = None)
        \<and> (\<forall>e' \<in> set es. \<forall>g \<in> set (pe_files e'). (pe_round e', g) \<notin> ?A)"
      using True o1 by (simp add: ball_conj_distrib)
    moreover have "(\<forall>e' \<in> set es. \<forall>t \<in> set (pe_task_ids e'). to' t = None) \<longleftrightarrow>
        (\<forall>e' \<in> set es. \<forall>t \<in> set (pe_task_ids e'). to t = None) \<and> (\<forall>e' \<in> set es. \<forall>t \<in> set (pe_task_ids e'). t \<notin> ?T)"
      using True o2 by (simp add: ball_conj_distrib)
    ultimately have IH': "is3 = [] \<longleftrightarrow>
        distinct (concat (map (\<lambda>e. map (Pair (pe_round e)) (pe_files e)) es))
        \<and> (\<forall>e' \<in> set es. \<forall>g \<in> set (pe_files e'). fo (pe_round e', g) = None)
        \<and> ?A \<inter> (\<Union>e' \<in> set es. Pair (pe_round e') ` set (pe_files e')) = {}
        \<and> distinct (concat (map pe_task_ids es)) \<and> (\<forall>e' \<in> set es. \<forall>t \<in> set (pe_task_ids e'). to t = None)
        \<and> ?T \<inter> (\<Union>e' \<in> set es. set (pe_task_ids e')) = {}"
      unfolding IH d1 d2 by auto
    have "fst (claim_entries (e # es) fo to) = [] \<longleftrightarrow> is3 = []" using f t r True by (simp add: Let_def)
    then show ?thesis unfolding IH' using c1 c2 inj True by auto
  next
    case False
    then have "fst (claim_entries (e # es) fo to) \<noteq> []" using f t r by (auto simp: Let_def)
    moreover have "\<not> (distinct (pe_files e) \<and> (\<forall>x \<in> set (pe_files e). fo (pe_round e, x) = None)
        \<and> distinct (pe_task_ids e) \<and> (\<forall>x \<in> set (pe_task_ids e). to x = None))"
      using False unfolding c1 c2 by blast
    ultimately show ?thesis using inj by auto
  qed
qed simp

lemma claim_entries_owners:
  "fst (claim_entries es fo to) = [] \<Longrightarrow>
    snd (claim_entries es fo to) t = Some w \<longleftrightarrow>
      to t = Some w \<or> (\<exists>e \<in> set es. pe_worker e = w \<and> t \<in> set (pe_task_ids e))"
proof (induction es fo to rule: claim_entries.induct)
  case (2 e es fo to)
  obtain is1 fo' where f: "claim_files e (pe_files e) fo = (is1, fo')" by fastforce
  obtain is2 to' where k: "claim_tasks e (pe_task_ids e) to = (is2, to')" by fastforce
  obtain is3 to'' where r: "claim_entries es fo' to' = (is3, to'')" by fastforce
  have clean: "is1 = []" "is2 = []" "is3 = []" using 2(2) f k r by (auto simp: Let_def)
  have "to t = None" if "t \<in> set (pe_task_ids e)"
    using claim_tasks_clean [of e "pe_task_ids e" to] k clean that by auto
  then show ?case
    using 2(1) [OF f [symmetric] refl k [symmetric] refl] claim_tasks_owners [of e "pe_task_ids e" to t] f k r clean
    by (auto simp: Let_def split: if_splits)
qed simp

text \<open>
  C35: a phase has no issue exactly when no path, as it is spelled, is listed twice in a round and no
  task is listed twice at all, by one worker or by two, every dispatch went to the worker the
  partition gives the task to, and the record of the integration is the one of the phase. Two
  spellings of one file are two paths to it.
\<close>

theorem phase_lawful_iff: "phase_issues p = [] \<longleftrightarrow> lawful_phase p"
proof -
  obtain iss to where e: "claim_entries (ph_partition p) Map.empty Map.empty = (iss, to)" by fastforce
  have own: "to t = Some w \<longleftrightarrow> (\<exists>e \<in> set (ph_partition p). pe_worker e = w \<and> t \<in> set (pe_task_ids e))" if "iss = []" for t w
    using claim_entries_owners [of "ph_partition p" Map.empty Map.empty t w] e that by simp
  have rows: "check_row to r = [] \<longleftrightarrow> to (dr_task_id r) = Some (dr_worker r)" for r
    by (auto simp: check_row_def split: option.splits)
  show ?thesis
    using claim_entries_clean [of "ph_partition p" Map.empty Map.empty] e own
    by (auto simp: phase_issues_def lawful_phase_def rows list_all_iff list_ex_iff Let_def split: option.splits)
qed

section \<open>The round trip\<close>

text \<open>A reading that gives back what was rendered, where it gives anything.\<close>

definition keeps :: "'a option \<Rightarrow> 'a \<Rightarrow> bool" where "keeps x a \<longleftrightarrow> x = None \<or> x = Some a"

named_theorems keeps

lemma keep_bind: "keeps x a \<Longrightarrow> keeps (g a) b \<Longrightarrow> keeps (Option.bind x g) b"
  by (auto simp: keeps_def)

lemma keep_strict: "keeps (strict ks v) ()" by (simp add: keeps_def strict_def)

lemma keep_field: "jprop v k = Some w \<Longrightarrow> keeps (f w) a \<Longrightarrow> keeps (field v k f) a"
  by (simp add: field_def)

lemma keep_default: "jprop v k = Some w \<Longrightarrow> keeps (f w) a \<Longrightarrow> keeps (default_field v k d f) a"
  by (simp add: default_field_def)

lemma keep_string [keeps]: "keeps (string_where P (JStr s)) s" by (simp add: keeps_def)

lemma keep_strings [keeps]:
  "keeps (shortStr (JStr s)) s" "keeps (longText (JStr s)) s" "keeps (task_id_field (JStr s)) s"
  "keeps (worker_field (JStr s)) s" "keeps (repoRelativePath (JStr s)) s"
  by (simp_all add: keeps_def shortStr_def longText_def task_id_field_def worker_field_def repoRelativePath_def)

lemma keep_numbers [keeps]:
  "keeps (natural_number (JNum (js_int i))) i" "keeps (positive_number (JNum (js_int i))) i" "keeps (boolean_of (JBool b)) b"
  by (auto simp: keeps_def natural_number_def positive_number_def)

lemma keep_verdict [keeps]: "keeps (enum_of PM_REVIEW_VERDICT_KINDS (name_of PM_REVIEW_VERDICT_KINDS a)) a"
  by (cases a) (simp_all add: keeps_def enum_of_def name_of_def PM_REVIEW_VERDICT_KINDS_def)

lemma keep_status [keeps]: "keeps (enum_of PM_RUN_STATUS_CLAIMS (name_of PM_RUN_STATUS_CLAIMS a)) a"
  by (cases a) (simp_all add: keeps_def enum_of_def name_of_def PM_RUN_STATUS_CLAIMS_def)

lemma keep_model [keeps]: "keeps (enum_of branch_models (name_of branch_models a)) a"
  by (cases a) (simp_all add: keeps_def enum_of_def name_of_def branch_models_def)

lemma keep_array [keeps]:
  assumes "\<And>x. keeps (f (r x)) x"
  shows "keeps (array_of a b f (JArr (map r xs))) xs"
proof -
  have "keeps (those (map f (map r xs))) xs"
  proof (induction xs)
    case (Cons x xs)
    then show ?case using assms [of x] by (auto simp: keeps_def)
  qed (simp add: keeps_def)
  then show ?thesis by (auto simp: keeps_def)
qed

lemma keep_nullable [keeps]:
  assumes "\<And>x. keeps (f (r x)) x" and "\<And>x. r x \<noteq> JNull"
  shows "keeps (nullable f (or_null r x)) x"
proof (cases x)
  case (Some y)
  have "nullable f (r y) = map_option Some (f (r y))" using assms(2) [of y] by (cases "r y") auto
  then show ?thesis using assms(1) [of y] Some by (auto simp: keeps_def or_null_def)
qed (simp add: keeps_def or_null_def)

lemma keep_texts [keeps]: "keeps (text_record K (texts_json ps)) ps"
proof -
  have "keeps (those (map (\<lambda>(k, v). if K k then map_option (Pair k) (longText v) else None) (map (\<lambda>(k, t). (k, JStr t)) ps))) ps"
    by (induction ps) (auto simp: keeps_def longText_def split: option.splits if_splits)
  then show ?thesis by (simp add: texts_json_def)
qed

lemmas keep_steps = keep_bind keep_strict keep_field keep_default

lemma keep_entry [keeps]: "keeps (PmPartitionEntrySchema (partition_json e)) e"
  unfolding PmPartitionEntrySchema_def partition_json_def
  by (rule keep_steps keeps | simp)+ (simp add: keeps_def)

lemma keep_row [keeps]: "keeps (PmDispatchRowSchema (row_json r)) r"
  unfolding PmDispatchRowSchema_def row_json_def
  by (rule keep_steps keeps | simp)+ (simp add: keeps_def)

lemma keep_pointer [keeps]: "keeps (PmIntegrationPointerSchema (JObj [(''record'', JStr r)])) r"
  unfolding PmIntegrationPointerSchema_def by (rule keep_steps keeps | simp)+

lemma keep_console [keeps]: "keeps (ConsoleRecordSchema (console_json c)) c"
  unfolding ConsoleRecordSchema_def console_json_def
  by (rule keep_steps keeps | simp)+ (simp add: keeps_def)

lemma keep_coverage [keeps]:
  "keeps (coverage_schema (JObj [(''reported'', JNum (js_int a)), (''dispatched'', JNum (js_int b))])) (a, b)"
  unfolding coverage_schema_def
  by (rule keep_steps keeps | simp)+ (simp add: keeps_def)

lemma keep_review [keeps]: "keeps (PmPhaseReviewSchema (review_json r)) r"
  unfolding PmPhaseReviewSchema_def review_json_def
  by (rule keep_steps keeps | simp)+ (simp add: keeps_def)

lemma not_null [simp]: "console_json c \<noteq> JNull" "review_json r \<noteq> JNull"
  by (simp_all add: console_json_def review_json_def)

lemma keep_phase [keeps]: "keeps (PmPhaseSchema (phase_json p)) p"
  unfolding PmPhaseSchema_def phase_json_def
  by (rule keep_steps keeps | simp)+ (simp add: keeps_def Let_def)

lemma keep_consoles [keeps]:
  "keeps (consoles_schema (JObj [(''development'', or_null console_json a), (''review'', or_null console_json b)])) (a, b)"
  unfolding consoles_schema_def
  by (rule keep_steps keeps | simp)+ (simp add: keeps_def)

lemma keep_document: "keeps (PmStateDocumentSchema (document_json d)) d"
  unfolding PmStateDocumentSchema_def document_json_def
  by (rule keep_steps keeps | simp)+ (simp add: keeps_def Let_def)

lemma cursor_document: "document_of (cursor_of path d) = d"
  by (cases d) (simp add: document_of_def cursor_of_def pm_intent.defs pm_cursor.defs pm_document.defs)

text \<open>
  C36: what is written is read back: a cursor with the fields of the document, whose completed phases
  are claims, and the document of that cursor is the one that was written. JSON is taken to be read
  back as it was printed.
\<close>

theorem state_file_roundtrip:
  assumes "writePmState c None root_dir d w = (None, w')"
    and "jk_parse c (jk_stringify c (document_json d) @ [CHR 0x0A]) = Some (document_json d)"
  shows "readPmState c w' root_dir = Inr (cursor_of (pmStatePath root_dir) d)
    \<and> toPmStateDocument (cursor_of (pmStatePath root_dir) d) = Some d"
proof -
  have ok: "assertRepositoryRoot w root_dir" "PmStateDocumentSchema (document_json d) = Some d"
    and w': "w' = w\<lparr>pw_read := (pw_read w)(pmStatePath root_dir := Inr (jk_stringify c (document_json d) @ [CHR 0x0A]))\<rparr>"
    using assms(1) keep_document [of d] by (auto simp: writePmState_def keeps_def Let_def split: option.splits if_splits)
  then have "assertRepositoryRoot w' root_dir" by (simp add: assertRepositoryRoot_def)
  then show ?thesis using ok(2) assms(2) by (simp add: readPmState_def toPmStateDocument_def cursor_document w')
qed

definition sample_phase :: pm_phase where
  "sample_phase = \<lparr>ph_n = 1, ph_slug = ''one'', ph_name = ''One'',
     ph_partition = [\<lparr>pe_worker = ''eng-1'', pe_round = 1, pe_task_ids = [''T1''], pe_files = [''src/a.ts'']\<rparr>],
     ph_dispatched = [\<lparr>dr_worker = ''eng-1'', dr_task_id = ''T1'', dr_run_id = ''r1''\<rparr>], ph_integration = None, ph_review = None\<rparr>"

definition sample_document :: pm_document where
  "sample_document =
    \<lparr>pm_srd_path = ''srd.md'', pm_repo_path = ''/repo'', pm_base_branch = ''main'', pm_baseline_commit = ''0123abc'',
     pm_branch_model = Long_lived, pm_branch = ''work'', pm_total_phases = 1, pm_current_phase = 1, pm_status = St_in_progress,
     pm_development = None, pm_review = None, pm_phases = [sample_phase], pm_answered_questions = [], pm_out_of_band_commits = [],
     pm_pr_policy = '''', pm_srd_version = '''', pm_baseline_suite = '''', pm_review_at_end_of_each_phase = True,
     pm_max_review_iterations = 3, pm_parallel_engineers = 2, pm_prior_run_state = '''', pm_decisions = [],
     pm_measurements = [], pm_pause_point = '''', pm_resume_from = '''', pm_verified_at_pause = '''',
     pm_review_round_status = '''', pm_skill_install = '''', pm_completed_phases = [1]\<rparr>"

definition sample_codec :: json_codec where
  "sample_codec = \<lparr>jk_parse = (\<lambda>s. Some (document_json sample_document)), jk_stringify = (\<lambda>v. ''x'')\<rparr>"

lemmas bounds = MAX_SHORT_def MAX_TEXT_def MAX_ITEMS_def MAX_RELAY_TASK_ID_CHARS_def max_safe_integer_def

lemma sample_ids: "workerId ''eng-1''" "SESSION_ID_RE ''T1''" by code_simp+

lemma sample_phase_accepted: "PmPhaseSchema (phase_json sample_phase) \<noteq> None"
  by (simp add: PmPhaseSchema_def phase_json_def sample_phase_def field_def default_field_def strict_def or_null_def
      natural_number_def positive_number_def shortStr_def bounds partition_json_def row_json_def PmPartitionEntrySchema_def
      PmDispatchRowSchema_def worker_field_def task_id_field_def repoRelativePath_def is_absolute_def sample_ids phase_issues_def
      check_row_def)

lemma sample_document_accepted: "PmStateDocumentSchema (document_json sample_document) = Some sample_document"
proof -
  have ph: "PmPhaseSchema (phase_json sample_phase) = Some sample_phase"
    using sample_phase_accepted keep_phase [of sample_phase] by (auto simp: keeps_def)
  have fields: "ph_n sample_phase = 1" "ph_partition sample_phase \<noteq> []" by (simp_all add: sample_phase_def)
  have "PmStateDocumentSchema (document_json sample_document) \<noteq> None"
    by (simp add: PmStateDocumentSchema_def document_json_def sample_document_def field_def default_field_def strict_def
        document_keys_def shortStr_def longText_def natural_number_def positive_number_def bounds ph commitish_def hex_digit_def
        enum_of_def name_of_def branch_models_def PM_RUN_STATUS_CLAIMS_def consoles_schema_def or_null_def texts_json_def
        document_issues_def reached_issue_def fields Let_def)
  then show ?thesis using keep_document [of sample_document] by (auto simp: keeps_def)
qed

theorem state_file_roundtrip_witness:
  "\<exists>w'. writePmState sample_codec None [''repo''] sample_document
        \<lparr>pw_lstat = (\<lambda>p. Git_directory), pw_read = (\<lambda>p. Inl ''ENOENT'')\<rparr> = (None, w')
    \<and> readPmState sample_codec w' [''repo''] = Inr (cursor_of (pmStatePath [''repo'']) sample_document)"
proof -
  let ?w = "\<lparr>pw_lstat = (\<lambda>p. Git_directory), pw_read = (\<lambda>p. Inl ''ENOENT'')\<rparr>"
  obtain w' where w': "writePmState sample_codec None [''repo''] sample_document ?w = (None, w')"
    by (simp add: writePmState_def assertRepositoryRoot_def sample_document_accepted Let_def)
  have "jk_parse sample_codec (jk_stringify sample_codec (document_json sample_document) @ [CHR 0x0A])
      = Some (document_json sample_document)" by (simp add: sample_codec_def)
  from state_file_roundtrip [OF w' this] w' show ?thesis by blast
qed

section \<open>The run tree decides\<close>

text \<open>
  A phase is complete exactly when its partition names tasks and the run tree shows an artifact and
  a landed branch for each of them: what the file claims, its status and its dispatches play no part.
  What is stale was claimed, and lists what is missing.
\<close>

theorem run_tree_decides:
  "(resolvePhaseCompletion cu n arts merged = Some Complete \<longleftrightarrow>
      (\<exists>p. phase_of cu n = Some p \<and> intendedTaskIds p \<noteq> [] \<and> set (intendedTaskIds p) \<subseteq> set arts \<inter> set merged))
   \<and> (resolvePhaseCompletion cu n arts merged = Some (Stale_file ms us) \<longleftrightarrow>
      n \<in> set (cu_claimed cu) \<and> (\<exists>p. phase_of cu n = Some p \<and> ms @ us \<noteq> []
        \<and> ms = [i \<leftarrow> intendedTaskIds p. i \<notin> set arts] \<and> us = [i \<leftarrow> intendedTaskIds p. i \<notin> set merged]))"
  by (cases "phase_of cu n") (auto simp: resolvePhaseCompletion_def Let_def filter_empty_conv)

section \<open>Two spellings of one file\<close>

text \<open>A path is compared as it is spelled: two workers may each own a spelling of the same file.\<close>

lemma two_spellings_two_owners:
  "phase_issues \<lparr>ph_n = 1, ph_slug = '''', ph_name = '''',
     ph_partition = [\<lparr>pe_worker = ''eng-1'', pe_round = 1, pe_task_ids = [''T1''], pe_files = [''src/a.ts'']\<rparr>,
       \<lparr>pe_worker = ''eng-2'', pe_round = 1, pe_task_ids = [''T2''], pe_files = [''./src/a.ts'']\<rparr>],
     ph_dispatched = [], ph_integration = None, ph_review = None\<rparr> = []
   \<and> repoRelativePath (JStr ''./src/a.ts'') = Some ''./src/a.ts''
   \<and> join_path [] ''./src/a.ts'' = join_path [] ''src/a.ts''"
  by code_simp

end
