(* ===== verification/Triage_Verdict.thy ===== *)
theory Triage_Verdict
  imports Triage_Partition Incident
begin

text \<open>
  What the host makes of a triage sweep (\<open>src/run/triage-verdict.ts\<close>): which artifacts of observers and
  which rows of the collated document count, the assessment of every declared service, the census,
  the test whether the inference endpoint is saturated, and the observations the incidents are
  advanced with. The lemmas say exactly when a service is found healthy, that the census accounts
  for every observer, and what an observation that clears an incident rests on.
\<close>

section \<open>The document and the artifacts\<close>

datatype observer_assessment = O_healthy | O_degraded | O_unhealthy | O_indeterminate
datatype channel_result = Answered | Unreachable | Forbidden | Not_attempted

record triage_row =
  tw_service :: string
  tw_assessment :: observer_assessment
  tw_coverage :: "(string \<times> channel_result) list"
  tw_selector :: "string option"
  tw_window :: "string option"
  tw_evidence_ref :: "string list"
  tw_observer :: "string option"
  tw_note :: "string option"
  tw_environment :: "string option"

record triage_document =
  td_worker :: worker_id
  td_sweep_id :: "string option"
  td_services :: "triage_row list"
  td_unaccounted :: "string list"

record observer_artifact =
  oa_worker :: worker_id
  oa_sweep_id :: "string option"
  oa_window_opened_at :: "string option"

record sweep_window =
  sw_default_window_s :: js_number
  sw_reserve_s :: js_number
  sw_dispatched_at :: string

record declared_environment =
  de_name :: string
  de_kind :: environment_kind
  de_services :: "string list"

record sweep_coverage =
  sc_declared :: "declared_environment list"
  sc_assignments :: "assignment list"
  sc_artifacts :: "observer_artifact list"
  sc_window :: sweep_window

section \<open>Evidence and echoes\<close>

definition named :: "string option \<Rightarrow> bool" where
  "named v = (case v of None \<Rightarrow> False | Some s \<Rightarrow> trim_string s \<noteq> '''')"

definition attempted :: "string \<times> channel_result \<Rightarrow> bool" where
  "attempted entry = (snd entry \<noteq> Not_attempted)"

datatype evidence_gap = Gap_coverage | Gap_selector | Gap_window | Gap_ledger

definition evidenceGaps :: "triage_row \<Rightarrow> evidence_gap list" where
  "evidenceGaps r =
    (if \<not> list_ex attempted (tw_coverage r) then [Gap_coverage] else [])
    @ (if \<not> named (tw_selector r) then [Gap_selector] else [])
    @ (if \<not> named (tw_window r) then [Gap_window] else [])
    @ (if \<not> list_ex (\<lambda>s. named (Some s)) (tw_evidence_ref r) then [Gap_ledger] else [])"

definition firstEvidenceRef :: "triage_row \<Rightarrow> string option" where
  "firstEvidenceRef r = map_option trim_string (find (\<lambda>s. named (Some s)) (tw_evidence_ref r))"

definition rowNote :: "triage_row \<Rightarrow> string option" where
  "rowNote r = (case tw_note r of None \<Rightarrow> None | Some n \<Rightarrow> if trim_string n = '''' then None else Some n)"

datatype echo = Echo_fresh | Echo_stale | Echo_absent

definition sweepIdEcho :: "string \<Rightarrow> string option \<Rightarrow> echo" where
  "sweepIdEcho dispatched echoed =
    (case echoed of None \<Rightarrow> Echo_absent
     | Some e \<Rightarrow> if e = '''' then Echo_absent else if e = dispatched then Echo_fresh else Echo_stale)"

datatype window_echo = Window_fresh | Window_absent | Window_out_of_range

text \<open>\<open>parse\<close> is \<open>Date.parse\<close>, with no number for what is no date; \<open>None\<close> is the \<open>RangeError\<close>.\<close>

definition windowEcho :: "(string \<Rightarrow> rat option) \<Rightarrow> sweep_window \<Rightarrow> string option \<Rightarrow> window_echo option" where
  "windowEcho parse policy openedAt =
    (case (parse (sw_dispatched_at policy), sw_default_window_s policy, sw_reserve_s policy) of
       (Some dispatched, Finite window_s, Finite reserve_s) \<Rightarrow>
         Some (case openedAt of None \<Rightarrow> Window_absent
           | Some t \<Rightarrow>
               if trim_string t = '''' then Window_absent
               else case parse t of None \<Rightarrow> Window_absent
               | Some opened \<Rightarrow>
                   let earliest = dispatched - (window_s + reserve_s) * 1000 in
                   if opened < earliest \<or> opened > dispatched then Window_out_of_range else Window_fresh)
     | _ \<Rightarrow> None)"

section \<open>Placing rows and assignments\<close>

definition environmentServiceKey :: "string \<Rightarrow> string \<Rightarrow> string" where
  "environmentServiceKey environment service = environment @ ''/'' @ service"

definition censusLabel :: "string \<Rightarrow> string \<Rightarrow> nat \<Rightarrow> string" where
  "censusLabel environment service declaredEnvironments =
    (if declaredEnvironments = 1 then service else environmentServiceKey environment service)"

definition resolveRowEnvironment :: "triage_row \<Rightarrow> declared_environment list \<Rightarrow> string option" where
  "resolveRowEnvironment r declared =
    (if named (tw_environment r) then tw_environment r
     else case declared of
       [e] \<Rightarrow> Some (de_name e)
     | _ \<Rightarrow>
         (case [e \<leftarrow> declared. tw_service r \<in> set (de_services e)] of [e] \<Rightarrow> Some (de_name e) | _ \<Rightarrow> None))"

definition resolveAssignmentEnvironment :: "assignment \<Rightarrow> declared_environment list \<Rightarrow> string option" where
  "resolveAssignmentEnvironment a declared =
    (case declared of
       [e] \<Rightarrow> Some (de_name e)
     | _ \<Rightarrow>
         (case seatKind (a_worker a) of None \<Rightarrow> None
          | Some kind \<Rightarrow> map_option de_name (find (\<lambda>e. de_kind e = kind) declared)))"

text \<open>A \<open>Set\<close>, in the order of insertion.\<close>

definition js_set :: "'a list \<Rightarrow> 'a list" where "js_set xs = rev (remdups (rev xs))"

lemma js_set_set [simp]: "set (js_set xs) = set xs" and js_set_distinct [simp]: "distinct (js_set xs)"
  by (simp_all add: js_set_def)

text \<open>The first assignment of a service counts; the last artifact of a worker does.\<close>

definition assigned_to :: "sweep_coverage \<Rightarrow> string \<Rightarrow> worker_id option" where
  "assigned_to cov key =
    map_of (concat (map (\<lambda>a.
      case resolveAssignmentEnvironment a (sc_declared cov) of None \<Rightarrow> []
      | Some e \<Rightarrow> map (\<lambda>s. (environmentServiceKey e s, a_worker a)) (a_services a)) (sc_assignments cov))) key"

definition dispatched_workers :: "sweep_coverage \<Rightarrow> worker_id list" where
  "dispatched_workers cov = js_set (map a_worker (sc_assignments cov))"

fun read_artifacts ::
  "(string \<Rightarrow> rat option) \<Rightarrow> string \<Rightarrow> sweep_window \<Rightarrow> worker_id set \<Rightarrow> observer_artifact list
    \<Rightarrow> ((worker_id \<times> echo \<times> window_echo) list \<times> worker_id list) option" where
  "read_artifacts parse sweep policy dispatched [] = Some ([], [])"
| "read_artifacts parse sweep policy dispatched (a # as) =
    (if oa_worker a \<notin> dispatched
     then map_option (apsnd ((#) (oa_worker a))) (read_artifacts parse sweep policy dispatched as)
     else Option.bind (windowEcho parse policy (oa_window_opened_at a)) (\<lambda>w.
       map_option (apfst ((#) (oa_worker a, sweepIdEcho sweep (oa_sweep_id a), w)))
         (read_artifacts parse sweep policy dispatched as)))"

text \<open>The rows that have an environment, in order, each with its key.\<close>

definition placed_rows :: "sweep_coverage \<Rightarrow> triage_row list \<Rightarrow> (string \<times> string \<times> triage_row) list" where
  "placed_rows cov rows =
    concat (map (\<lambda>r. case resolveRowEnvironment r (sc_declared cov) of None \<Rightarrow> []
      | Some e \<Rightarrow> [(environmentServiceKey e (tw_service r), e, r)]) rows)"

definition rows_at :: "sweep_coverage \<Rightarrow> triage_document \<Rightarrow> string \<Rightarrow> (string \<times> triage_row) list" where
  "rows_at cov doc key = map snd [p \<leftarrow> placed_rows cov (td_services doc). fst p = key]"

section \<open>The assessment of a service\<close>

datatype assessment_reason =
    R_observed | R_unevidenced_healthy | R_stale_replay | R_stale_window | R_no_artifact | R_unreported
  | R_duplicate_rows | R_unassigned

record service_assessment =
  sa_service :: string
  sa_environment :: string
  sa_assessment :: observer_assessment
  sa_reason :: assessment_reason
  sa_observer :: "worker_id option"
  sa_claimed :: "observer_assessment option"
  sa_gaps :: "evidence_gap list"
  sa_evidence_ref :: "string option"
  sa_note :: "string option"

definition blank_service :: "string \<Rightarrow> string \<Rightarrow> worker_id option \<Rightarrow> assessment_reason \<Rightarrow> service_assessment" where
  "blank_service service environment observer reason =
    \<lparr>sa_service = service, sa_environment = environment, sa_assessment = O_indeterminate, sa_reason = reason,
     sa_observer = observer, sa_claimed = None, sa_gaps = [], sa_evidence_ref = None, sa_note = None\<rparr>"

text \<open>The row that speaks for a service and the observer it was assigned to, or why there is none.\<close>

definition row_for ::
  "sweep_coverage \<Rightarrow> triage_document \<Rightarrow> (worker_id \<Rightarrow> (echo \<times> window_echo) option) \<Rightarrow> bool \<Rightarrow> string \<Rightarrow> string
    \<Rightarrow> worker_id option \<times> assessment_reason + worker_id \<times> triage_row" where
  "row_for cov doc echoes documentFresh environment service =
    (let key = environmentServiceKey environment service in
     case assigned_to cov key of None \<Rightarrow> Inl (None, R_unassigned)
     | Some observer \<Rightarrow>
         case echoes observer of None \<Rightarrow> Inl (Some observer, R_no_artifact)
         | Some (e, w) \<Rightarrow>
             if e \<noteq> Echo_fresh \<or> \<not> documentFresh then Inl (Some observer, R_stale_replay)
             else if w \<noteq> Window_fresh then Inl (Some observer, R_stale_window)
             else case rows_at cov doc key of
               [] \<Rightarrow> Inl (Some observer, R_unreported)
             | [(env, row)] \<Rightarrow> Inr (observer, row)
             | _ \<Rightarrow> Inl (Some observer, R_duplicate_rows))"

definition assess_row :: "string \<Rightarrow> string \<Rightarrow> worker_id \<Rightarrow> triage_row \<Rightarrow> service_assessment" where
  "assess_row service environment observer row =
    (let gaps = evidenceGaps row; gated = (tw_assessment row = O_healthy \<and> gaps \<noteq> []) in
     \<lparr>sa_service = service, sa_environment = environment,
      sa_assessment = (if gated then O_indeterminate else tw_assessment row),
      sa_reason = (if gated then R_unevidenced_healthy else R_observed), sa_observer = Some observer,
      sa_claimed = Some (tw_assessment row), sa_gaps = gaps, sa_evidence_ref = firstEvidenceRef row, sa_note = rowNote row\<rparr>)"

definition assess_service ::
  "sweep_coverage \<Rightarrow> triage_document \<Rightarrow> (worker_id \<Rightarrow> (echo \<times> window_echo) option) \<Rightarrow> bool \<Rightarrow> string \<times> string
    \<Rightarrow> service_assessment" where
  "assess_service cov doc echoes documentFresh es =
    (case row_for cov doc echoes documentFresh (fst es) (snd es) of
       Inl (observer, reason) \<Rightarrow> blank_service (snd es) (fst es) observer reason
     | Inr (observer, row) \<Rightarrow> assess_row (snd es) (fst es) observer row)"

section \<open>The assessment of a sweep\<close>

record sweep_census =
  ce_observers_total :: nat
  ce_observers_reported :: nat
  ce_observers_missing :: "worker_id list"
  ce_observers_stale :: "worker_id list"
  ce_observers_stale_window :: "worker_id list"
  ce_observers_unsolicited :: "worker_id list"
  ce_declared :: nat
  ce_counted :: nat
  ce_claimed_unaccounted :: "string list"
  ce_undeclared_rows :: "string list"
  ce_duplicate_rows :: "string list"
  ce_misattributed :: "string list"

record sweep_assessment =
  as_sweep_id :: string
  as_services :: "service_assessment list"
  as_census :: sweep_census
  as_stale_replay :: "worker_id list"
  as_stale_window :: "worker_id list"

definition declared_services :: "sweep_coverage \<Rightarrow> (string \<times> string) list" where
  "declared_services cov = concat (map (\<lambda>e. map (Pair (de_name e)) (de_services e)) (sc_declared cov))"

definition undeclared_labels :: "sweep_coverage \<Rightarrow> triage_document \<Rightarrow> string list" where
  "undeclared_labels cov doc =
    (let known = set (map (\<lambda>(e, s). environmentServiceKey e s) (declared_services cov)) in
     js_set (concat (map (\<lambda>r.
       case resolveRowEnvironment r (sc_declared cov) of None \<Rightarrow> [tw_service r]
       | Some e \<Rightarrow> if environmentServiceKey e (tw_service r) \<in> known then []
           else [censusLabel e (tw_service r) (length (sc_declared cov))]) (td_services doc))))"

definition duplicate_labels :: "sweep_coverage \<Rightarrow> triage_document \<Rightarrow> string list" where
  "duplicate_labels cov doc =
    concat (map (\<lambda>key.
      case rows_at cov doc key of
        (e, r) # _ # _ \<Rightarrow> [censusLabel e (tw_service r) (length (sc_declared cov))]
      | _ \<Rightarrow> []) (js_set (map fst (placed_rows cov (td_services doc)))))"

definition misattributed_label ::
  "sweep_coverage \<Rightarrow> triage_document \<Rightarrow> (worker_id \<Rightarrow> (echo \<times> window_echo) option) \<Rightarrow> bool \<Rightarrow> string \<times> string \<Rightarrow> string list" where
  "misattributed_label cov doc echoes documentFresh es =
    (case row_for cov doc echoes documentFresh (fst es) (snd es) of
       Inl _ \<Rightarrow> []
     | Inr (observer, row) \<Rightarrow>
         if named (tw_observer row) \<and> tw_observer row \<noteq> Some observer
         then [censusLabel (fst es) (snd es) (length (sc_declared cov))] else [])"

definition assessTriageSweep ::
  "(string \<Rightarrow> rat option) \<Rightarrow> string \<Rightarrow> sweep_coverage \<Rightarrow> triage_document \<Rightarrow> sweep_assessment option" where
  "assessTriageSweep parse sweepId cov doc =
    map_option (\<lambda>(echo_list, unsolicited).
      let dispatched = dispatched_workers cov;
          echoes = map_of (rev echo_list);
          documentFresh = (sweepIdEcho sweepId (td_sweep_id doc) = Echo_fresh);
          missing = [w \<leftarrow> dispatched. echoes w = None];
          stale = [w \<leftarrow> dispatched. case echoes w of Some (e, _) \<Rightarrow> e \<noteq> Echo_fresh | None \<Rightarrow> False];
          staleWindow = [w \<leftarrow> dispatched. case echoes w of Some (e, v) \<Rightarrow> e = Echo_fresh \<and> v \<noteq> Window_fresh | None \<Rightarrow> False];
          reported = length [w \<leftarrow> dispatched. echoes w = Some (Echo_fresh, Window_fresh)] in
      \<lparr>as_sweep_id = sweepId,
       as_services = map (assess_service cov doc echoes documentFresh) (declared_services cov),
       as_census =
         \<lparr>ce_observers_total = length dispatched, ce_observers_reported = reported, ce_observers_missing = missing,
          ce_observers_stale = stale, ce_observers_stale_window = staleWindow, ce_observers_unsolicited = unsolicited,
          ce_declared = length (td_services doc),
          ce_counted = length [es \<leftarrow> declared_services cov. \<not> isl (row_for cov doc echoes documentFresh (fst es) (snd es))],
          ce_claimed_unaccounted = td_unaccounted doc, ce_undeclared_rows = undeclared_labels cov doc,
          ce_duplicate_rows = duplicate_labels cov doc,
          ce_misattributed = concat (map (misattributed_label cov doc echoes documentFresh) (declared_services cov))\<rparr>,
       as_stale_replay = (if documentFresh then stale else td_worker doc # stale),
       as_stale_window = staleWindow\<rparr>)
     (read_artifacts parse sweepId (sc_window cov) (set (dispatched_workers cov)) (sc_artifacts cov))"

section \<open>Saturation and observations\<close>

datatype probe_failure = Prose | Model_not_found | Probe_unreachable | Probe_timeout | Malformed | Inconclusive
datatype saturation_verdict = Clear_endpoint | Uncorrelated | Saturated | Endpoint_down | Unconfirmed

definition SATURATION_MIN_MISSING :: nat where "SATURATION_MIN_MISSING = 2"

definition SATURATION_PAIR :: "saturation_verdict \<Rightarrow> bool option \<times> bool option" where
  "SATURATION_PAIR v =
    (case v of Clear_endpoint \<Rightarrow> (Some False, Some False) | Uncorrelated \<Rightarrow> (None, None)
     | Saturated \<Rightarrow> (Some True, None) | Endpoint_down \<Rightarrow> (None, Some True) | Unconfirmed \<Rightarrow> (None, None))"

definition inferenceSubject :: "string \<Rightarrow> string \<Rightarrow> string" where
  "inferenceSubject provider model = provider @ ''/'' @ model"

record 'p saturation_outcome =
  so_verdict :: saturation_verdict
  so_saturated :: "bool option"
  so_suppressed :: bool
  so_subject :: string
  so_correlated :: "worker_id list"
  so_probe :: "'p option"

text \<open>The probe acts on a world; its result is passed on, and only its failure is read.\<close>

definition saturationVerdict ::
  "sweep_assessment \<Rightarrow> string \<Rightarrow> ('p \<Rightarrow> probe_failure option) \<Rightarrow> ('w \<Rightarrow> 'p \<times> 'w) \<Rightarrow> 'w \<Rightarrow> 'p saturation_outcome \<times> 'w" where
  "saturationVerdict as subject failure probe w =
    (let correlated = ce_observers_missing (as_census as);
         settle = (\<lambda>v suppressed result. \<lparr>so_verdict = v, so_saturated = fst (SATURATION_PAIR v), so_suppressed = suppressed,
           so_subject = subject, so_correlated = correlated, so_probe = result\<rparr>) in
     if ce_observers_total (as_census as) = 0 then (settle Unconfirmed False None, w)
     else if correlated = [] then (settle Clear_endpoint False None, w)
     else if length correlated < SATURATION_MIN_MISSING then (settle Uncorrelated False None, w)
     else let (result, w1) = probe w in
       (if failure result = Some Probe_timeout then settle Saturated True (Some result)
        else if failure result = Some Probe_unreachable then settle Endpoint_down True (Some result)
        else settle Unconfirmed False (Some result), w1))"

definition serviceSignal :: "service_assessment \<Rightarrow> string \<Rightarrow> incident_signal" where
  "serviceSignal sa sweepRef =
    (case sa_assessment sa of
       O_indeterminate \<Rightarrow> Unobserved
     | O_healthy \<Rightarrow> (case sa_evidence_ref sa of None \<Rightarrow> Unobserved | Some r \<Rightarrow> Observed_clear r)
     | O_degraded \<Rightarrow> Issue Degraded (Some (case sa_evidence_ref sa of None \<Rightarrow> sweepRef | Some r \<Rightarrow> r))
     | O_unhealthy \<Rightarrow> Issue Unhealthy (Some (case sa_evidence_ref sa of None \<Rightarrow> sweepRef | Some r \<Rightarrow> r)))"

definition sweepObservations :: "sweep_assessment \<Rightarrow> bool \<Rightarrow> millis \<Rightarrow> string \<Rightarrow> observation list" where
  "sweepObservations as suppressed at_ms evidenceRef =
    map (\<lambda>sa. \<lparr>o_subject = Service (sa_environment sa) (sa_service sa), o_sweepId = as_sweep_id as, o_at = at_ms,
      o_signal = (if suppressed then Suppressed else serviceSignal sa evidenceRef)\<rparr>) (as_services as)"

section \<open>When a service is healthy\<close>

text \<open>
  What a healthy service rests on: the first assignment of it names an observer; the last artifact of
  that observer echoes this sweep and a window that opened in the bound before the dispatch; the
  document echoes this sweep; one row of it is placed at the service, says healthy, and names a
  channel that was tried, a selector, a window and evidence.
\<close>

definition row_key :: "sweep_coverage \<Rightarrow> triage_row \<Rightarrow> string option" where
  "row_key cov r = map_option (\<lambda>e. environmentServiceKey e (tw_service r)) (resolveRowEnvironment r (sc_declared cov))"

definition opened_in_time :: "(string \<Rightarrow> rat option) \<Rightarrow> sweep_window \<Rightarrow> string option \<Rightarrow> bool" where
  "opened_in_time parse policy openedAt \<longleftrightarrow>
    (\<exists>dispatched window_s reserve_s t opened. parse (sw_dispatched_at policy) = Some dispatched
      \<and> sw_default_window_s policy = Finite window_s \<and> sw_reserve_s policy = Finite reserve_s
      \<and> openedAt = Some t \<and> trim_string t \<noteq> '''' \<and> parse t = Some opened
      \<and> dispatched - (window_s + reserve_s) * 1000 \<le> opened \<and> opened \<le> dispatched)"

definition evidenced :: "triage_row \<Rightarrow> bool" where
  "evidenced r \<longleftrightarrow>
    (\<exists>e \<in> set (tw_coverage r). snd e \<noteq> Not_attempted) \<and> named (tw_selector r) \<and> named (tw_window r)
    \<and> (\<exists>s \<in> set (tw_evidence_ref r). trim_string s \<noteq> '''')"

definition shown_healthy ::
  "(string \<Rightarrow> rat option) \<Rightarrow> string \<Rightarrow> sweep_coverage \<Rightarrow> triage_document \<Rightarrow> string \<Rightarrow> string \<Rightarrow> triage_row \<Rightarrow> bool" where
  "shown_healthy parse sweepId cov doc environment service row \<longleftrightarrow>
    (let key = environmentServiceKey environment service in
     \<exists>observer a. assigned_to cov key = Some observer
       \<and> find (\<lambda>a. oa_worker a = observer) (rev (sc_artifacts cov)) = Some a
       \<and> sweepId \<noteq> '''' \<and> oa_sweep_id a = Some sweepId \<and> opened_in_time parse (sc_window cov) (oa_window_opened_at a)
       \<and> td_sweep_id doc = Some sweepId \<and> [r \<leftarrow> td_services doc. row_key cov r = Some key] = [row]
       \<and> tw_assessment row = O_healthy \<and> evidenced row)"

lemma sweepIdEcho_fresh: "sweepIdEcho sweepId e = Echo_fresh \<longleftrightarrow> sweepId \<noteq> '''' \<and> e = Some sweepId"
  by (auto simp: sweepIdEcho_def split: option.splits)

lemma windowEcho_fresh: "windowEcho parse policy t = Some Window_fresh \<longleftrightarrow> opened_in_time parse policy t"
  by (auto simp: windowEcho_def opened_in_time_def Let_def split: option.splits js_number.splits)

lemma evidenceGaps_none: "evidenceGaps r = [] \<longleftrightarrow> evidenced r"
  by (auto simp: evidenceGaps_def evidenced_def list_ex_iff attempted_def named_def)

lemma rows_at_filter: "map snd (rows_at cov doc key) = [r \<leftarrow> td_services doc. row_key cov r = Some key]"
proof -
  have "map snd (map snd [p \<leftarrow> placed_rows cov rs. fst p = key]) = [r \<leftarrow> rs. row_key cov r = Some key]" for rs
    by (induction rs) (auto simp: placed_rows_def row_key_def split: option.splits)
  then show ?thesis by (simp add: rows_at_def)
qed

lemma rows_at_one: "(\<exists>e. rows_at cov doc key = [(e, row)]) \<longleftrightarrow> [r \<leftarrow> td_services doc. row_key cov r = Some key] = [row]"
  unfolding rows_at_filter [symmetric] by (auto simp: map_eq_Cons_conv)

lemma find_appended: "find P (xs @ ys) = (case find P xs of None \<Rightarrow> find P ys | Some x \<Rightarrow> Some x)"
  by (induction xs) auto

lemma artifacts_read:
  assumes "read_artifacts parse sweepId policy dispatched as = Some (ps, us)" and "w \<in> dispatched"
  shows "map_of (rev ps) w = (case find (\<lambda>a. oa_worker a = w) (rev as) of None \<Rightarrow> None
      | Some a \<Rightarrow> Some (sweepIdEcho sweepId (oa_sweep_id a), the (windowEcho parse policy (oa_window_opened_at a))))
    \<and> (\<forall>a. find (\<lambda>a. oa_worker a = w) (rev as) = Some a \<longrightarrow> windowEcho parse policy (oa_window_opened_at a) \<noteq> None)"
  using assms(1)
proof (induction as arbitrary: ps us)
  case (Cons a as)
  show ?case
  proof (cases "oa_worker a \<in> dispatched")
    case False
    then obtain us' where "read_artifacts parse sweepId policy dispatched as = Some (ps, us')"
      using Cons.prems by auto
    from Cons.IH [OF this] False assms(2) show ?thesis by (auto simp: find_appended split: option.splits)
  next
    case True
    then obtain v ps' where v: "windowEcho parse policy (oa_window_opened_at a) = Some v"
      and r: "read_artifacts parse sweepId policy dispatched as = Some (ps', us)"
      and ps: "ps = (oa_worker a, sweepIdEcho sweepId (oa_sweep_id a), v) # ps'"
      using Cons.prems by (auto simp: Option.bind_eq_Some_conv)
    have "map_of (rev ps) w = (case map_of (rev ps') w of Some u \<Rightarrow> Some u
        | None \<Rightarrow> if w = oa_worker a then Some (sweepIdEcho sweepId (oa_sweep_id a), v) else None)"
      by (auto simp: ps map_add_def split: option.splits)
    with Cons.IH [OF r] v show ?thesis by (auto simp: find_appended split: option.splits)
  qed
qed simp

lemma assigned_dispatched: "assigned_to cov key = Some w \<Longrightarrow> w \<in> set (dispatched_workers cov)"
  unfolding assigned_to_def dispatched_workers_def
  by (auto dest!: map_of_SomeD split: option.splits)

lemma row_for_Inr:
  assumes "read_artifacts parse sweepId (sc_window cov) (set (dispatched_workers cov)) (sc_artifacts cov) = Some (ps, us)"
    and "documentFresh \<longleftrightarrow> sweepIdEcho sweepId (td_sweep_id doc) = Echo_fresh"
  shows "row_for cov doc (map_of (rev ps)) documentFresh environment service = Inr (observer, row) \<longleftrightarrow>
    (let key = environmentServiceKey environment service in
      assigned_to cov key = Some observer
      \<and> (\<exists>a. find (\<lambda>a. oa_worker a = observer) (rev (sc_artifacts cov)) = Some a
        \<and> sweepId \<noteq> '''' \<and> oa_sweep_id a = Some sweepId \<and> opened_in_time parse (sc_window cov) (oa_window_opened_at a))
      \<and> td_sweep_id doc = Some sweepId \<and> [r \<leftarrow> td_services doc. row_key cov r = Some key] = [row])"
proof (cases "assigned_to cov (environmentServiceKey environment service)")
  case (Some w)
  let ?key = "environmentServiceKey environment service"
  have art: "map_of (rev ps) w = Some (Echo_fresh, Window_fresh) \<longleftrightarrow>
      (\<exists>a. find (\<lambda>a. oa_worker a = w) (rev (sc_artifacts cov)) = Some a \<and> sweepId \<noteq> ''''
        \<and> oa_sweep_id a = Some sweepId \<and> opened_in_time parse (sc_window cov) (oa_window_opened_at a))"
    using artifacts_read [OF assms(1) assigned_dispatched [OF Some]]
    by (auto simp: sweepIdEcho_fresh windowEcho_fresh [symmetric] split: option.splits)
  have "row_for cov doc (map_of (rev ps)) documentFresh environment service = Inr (observer, row) \<longleftrightarrow>
      w = observer \<and> documentFresh \<and> map_of (rev ps) w = Some (Echo_fresh, Window_fresh) \<and> (\<exists>e. rows_at cov doc ?key = [(e, row)])"
    using Some by (auto simp: row_for_def Let_def split: option.splits list.splits)
  then show ?thesis
    unfolding art rows_at_one using Some assms(2) by (auto simp: Let_def sweepIdEcho_fresh)
qed (simp add: row_for_def Let_def)

lemma assessed:
  assumes "assessTriageSweep parse sweepId cov doc = Some a"
  obtains ps us documentFresh where
    "read_artifacts parse sweepId (sc_window cov) (set (dispatched_workers cov)) (sc_artifacts cov) = Some (ps, us)"
    "documentFresh \<longleftrightarrow> sweepIdEcho sweepId (td_sweep_id doc) = Echo_fresh"
    "as_services a = map (assess_service cov doc (map_of (rev ps)) documentFresh) (declared_services cov)"
  using assms by (auto simp: assessTriageSweep_def Let_def)

lemma assess_service_names [simp]:
  "sa_environment (assess_service cov doc echoes f es) = fst es" "sa_service (assess_service cov doc echoes f es) = snd es"
  by (auto simp: assess_service_def blank_service_def assess_row_def Let_def split: sum.splits)

lemma assess_service_healthy:
  assumes "sa_assessment (assess_service cov doc echoes f es) = O_healthy"
  obtains observer row where "row_for cov doc echoes f (fst es) (snd es) = Inr (observer, row)" "tw_assessment row = O_healthy"
    "evidenced row" "sa_evidence_ref (assess_service cov doc echoes f es) = firstEvidenceRef row"
proof (cases "row_for cov doc echoes f (fst es) (snd es)")
  case (Inl p)
  then show ?thesis using assms by (cases p) (simp add: assess_service_def blank_service_def)
next
  case (Inr p)
  obtain observer row where p: "p = (observer, row)" by fastforce
  show ?thesis
    by (rule that [of observer row])
      (use assms Inr p in \<open>auto simp: assess_service_def assess_row_def Let_def evidenceGaps_none [symmetric] split: if_splits\<close>)
qed

text \<open>
  C27: the assessment covers the declared services in order, one for each, and a service is found
  healthy exactly when a row shows it: the observer the service was assigned to left an artifact of
  this sweep that opened in its window, the document is of this sweep, and exactly one row of it
  stands at the service, which says healthy and names its evidence. Which observer the row itself
  names decides nothing.
\<close>

theorem healthy_iff_shown:
  assumes "assessTriageSweep parse sweepId cov doc = Some a"
  shows "map (\<lambda>sa. (sa_environment sa, sa_service sa)) (as_services a) = declared_services cov
    \<and> (\<forall>sa \<in> set (as_services a). sa_assessment sa = O_healthy \<longleftrightarrow>
        (\<exists>row. shown_healthy parse sweepId cov doc (sa_environment sa) (sa_service sa) row))"
proof -
  obtain ps us f where r: "read_artifacts parse sweepId (sc_window cov) (set (dispatched_workers cov)) (sc_artifacts cov) = Some (ps, us)"
    and f: "f \<longleftrightarrow> sweepIdEcho sweepId (td_sweep_id doc) = Echo_fresh"
    and as: "as_services a = map (assess_service cov doc (map_of (rev ps)) f) (declared_services cov)"
    using assessed [OF assms] .
  have iff: "sa_assessment (assess_service cov doc (map_of (rev ps)) f (e, s)) = O_healthy \<longleftrightarrow>
      (\<exists>row. shown_healthy parse sweepId cov doc e s row)" for e s
  proof
    assume "sa_assessment (assess_service cov doc (map_of (rev ps)) f (e, s)) = O_healthy"
    then obtain observer row where "row_for cov doc (map_of (rev ps)) f e s = Inr (observer, row)"
      "tw_assessment row = O_healthy" "evidenced row" by (rule assess_service_healthy) auto
    then show "\<exists>row. shown_healthy parse sweepId cov doc e s row"
      unfolding row_for_Inr [OF r f] shown_healthy_def Let_def by blast
  next
    assume "\<exists>row. shown_healthy parse sweepId cov doc e s row"
    then obtain observer row where "row_for cov doc (map_of (rev ps)) f e s = Inr (observer, row)"
      "tw_assessment row = O_healthy" "evidenced row"
      unfolding row_for_Inr [OF r f] shown_healthy_def Let_def by blast
    then show "sa_assessment (assess_service cov doc (map_of (rev ps)) f (e, s)) = O_healthy"
      by (simp add: assess_service_def assess_row_def Let_def evidenceGaps_none)
  qed
  then show ?thesis by (auto simp: as comp_def)
qed
text \<open>
  An observation that clears an incident speaks of a declared service in this sweep, with the
  inference endpoint not held for the cause, and cites the first evidence of the row that shows the
  service healthy.
\<close>

theorem clear_rests_on_evidence:
  assumes "assessTriageSweep parse sweepId cov doc = Some a"
    and "obs \<in> set (sweepObservations a suppressed at_ms sweepRef)" and "o_signal obs = Observed_clear x"
  shows "\<not> suppressed \<and> o_sweepId obs = sweepId \<and> o_at obs = at_ms
    \<and> (\<exists>e s row. (e, s) \<in> set (declared_services cov) \<and> o_subject obs = Service e s
      \<and> shown_healthy parse sweepId cov doc e s row \<and> firstEvidenceRef row = Some x)"
proof -
  obtain ps us f where r: "read_artifacts parse sweepId (sc_window cov) (set (dispatched_workers cov)) (sc_artifacts cov) = Some (ps, us)"
    and f: "f \<longleftrightarrow> sweepIdEcho sweepId (td_sweep_id doc) = Echo_fresh"
    and as: "as_services a = map (assess_service cov doc (map_of (rev ps)) f) (declared_services cov)"
    using assessed [OF assms(1)] .
  have sid: "as_sweep_id a = sweepId" using assms(1) by (auto simp: assessTriageSweep_def Let_def)
  from assms(2) as obtain e s where es: "(e, s) \<in> set (declared_services cov)"
    and o: "obs = \<lparr>o_subject = Service e s, o_sweepId = sweepId, o_at = at_ms,
      o_signal = (if suppressed then Suppressed else serviceSignal (assess_service cov doc (map_of (rev ps)) f (e, s)) sweepRef)\<rparr>"
    by (auto simp: sweepObservations_def sid)
  let ?sa = "assess_service cov doc (map_of (rev ps)) f (e, s)"
  have sup: "\<not> suppressed" and sig: "serviceSignal ?sa sweepRef = Observed_clear x" using assms(3) o by (auto split: if_splits)
  then have "sa_assessment ?sa = O_healthy" and x: "sa_evidence_ref ?sa = Some x"
    by (auto simp: serviceSignal_def split: observer_assessment.splits option.splits)
  then obtain observer row where row: "row_for cov doc (map_of (rev ps)) f e s = Inr (observer, row)"
      "tw_assessment row = O_healthy" "evidenced row" "sa_evidence_ref ?sa = firstEvidenceRef row"
    by (elim assess_service_healthy) auto
  then have "shown_healthy parse sweepId cov doc e s row"
    unfolding row_for_Inr [OF r f] shown_healthy_def Let_def by blast
  then show ?thesis using sup es o row(4) x by auto
qed

section \<open>The census\<close>

lemma length_filter_split: "length xs = length (filter P xs) + length (filter (\<lambda>x. \<not> P x) xs)"
  by (induction xs) auto

text \<open>
  Every observer that was asked is counted once: it reported in time, it is missing, it echoed
  another sweep, or its window is not in its bound; and every declared service is either counted or
  blank, with no claim taken from the document.
\<close>

theorem triage_census_accounts:
  assumes "assessTriageSweep parse sweepId cov doc = Some a"
  shows "ce_observers_total (as_census a) = ce_observers_reported (as_census a) + length (ce_observers_missing (as_census a))
      + length (ce_observers_stale (as_census a)) + length (ce_observers_stale_window (as_census a))
    \<and> distinct (ce_observers_missing (as_census a) @ ce_observers_stale (as_census a) @ ce_observers_stale_window (as_census a))
    \<and> length (as_services a) = ce_counted (as_census a) + length [sa \<leftarrow> as_services a. sa_claimed sa = None]"
proof -
  from assms obtain ps us where r: "read_artifacts parse sweepId (sc_window cov) (set (dispatched_workers cov)) (sc_artifacts cov) = Some (ps, us)"
    by (auto simp: assessTriageSweep_def)
  define f where "f \<longleftrightarrow> sweepIdEcho sweepId (td_sweep_id doc) = Echo_fresh"
  define ec where "ec = map_of (rev ps)"
  let ?D = "dispatched_workers cov"
  let ?mi = "\<lambda>w. ec w = None" and ?st = "\<lambda>w. case ec w of Some (e, _) \<Rightarrow> e \<noteq> Echo_fresh | None \<Rightarrow> False"
  let ?wi = "\<lambda>w. case ec w of Some (e, v) \<Rightarrow> e = Echo_fresh \<and> v \<noteq> Window_fresh | None \<Rightarrow> False"
  let ?ok = "\<lambda>w. ec w = Some (Echo_fresh, Window_fresh)"
  have a: "ce_observers_total (as_census a) = length ?D" "ce_observers_missing (as_census a) = filter ?mi ?D"
    "ce_observers_stale (as_census a) = filter ?st ?D" "ce_observers_stale_window (as_census a) = filter ?wi ?D"
    "ce_observers_reported (as_census a) = length (filter ?ok ?D)"
    "as_services a = map (assess_service cov doc ec f) (declared_services cov)"
    "ce_counted (as_census a) = length [es \<leftarrow> declared_services cov. \<not> isl (row_for cov doc ec f (fst es) (snd es))]"
    using assms r by (auto simp: assessTriageSweep_def Let_def f_def ec_def)
  have "length ws = length (filter ?ok ws) + length (filter ?mi ws) + length (filter ?st ws) + length (filter ?wi ws)" for ws
  proof (induction ws)
    case (Cons w ws)
    show ?case
    proof (cases "ec w")
      case None
      then show ?thesis using Cons by simp
    next
      case (Some p)
      then obtain e v where "ec w = Some (e, v)" by (cases p) auto
      then show ?thesis using Cons by (cases e; cases v) simp_all
    qed
  qed simp
  moreover have "distinct ?D" by (simp add: dispatched_workers_def)
  then have "distinct (filter ?mi ?D @ filter ?st ?D @ filter ?wi ?D)" by (auto split: option.splits)
  moreover have "(sa_claimed (assess_service cov doc ec f es) = None) = isl (row_for cov doc ec f (fst es) (snd es))" for es
    by (auto simp: assess_service_def blank_service_def assess_row_def Let_def split: sum.splits)
  then have "length (as_services a) = ce_counted (as_census a) + length [sa \<leftarrow> as_services a. sa_claimed sa = None]"
    unfolding a(6,7) using length_filter_split [of "declared_services cov" "\<lambda>es. isl (row_for cov doc ec f (fst es) (snd es))"]
    by (simp add: filter_map comp_def)
  ultimately show ?thesis unfolding a(1-5) by blast
qed

section \<open>A sweep of one service\<close>

definition sample_cov :: sweep_coverage where
  "sample_cov =
    \<lparr>sc_declared = [\<lparr>de_name = ''prod'', de_kind = K8s, de_services = [''auth'']\<rparr>],
     sc_assignments = [\<lparr>a_worker = ''obs-t1'', a_services = [''auth'']\<rparr>],
     sc_artifacts = [\<lparr>oa_worker = ''obs-t1'', oa_sweep_id = Some ''S1'', oa_window_opened_at = Some ''w''\<rparr>],
     sc_window = \<lparr>sw_default_window_s = Finite 60, sw_reserve_s = Finite 10, sw_dispatched_at = ''d''\<rparr>\<rparr>"

definition sample_doc :: triage_document where
  "sample_doc =
    \<lparr>td_worker = ''tri-1'', td_sweep_id = Some ''S1'',
     td_services = [\<lparr>tw_service = ''auth'', tw_assessment = O_healthy, tw_coverage = [(''metrics'', Answered)],
       tw_selector = Some ''app=auth'', tw_window = Some ''5m'', tw_evidence_ref = [''ledger#1''], tw_observer = None,
       tw_note = None, tw_environment = None\<rparr>],
     td_unaccounted = []\<rparr>"

definition sample_dates :: "string \<Rightarrow> rat option" where
  "sample_dates s = (if s = ''d'' then Some 100000 else if s = ''w'' then Some 90000 else None)"

lemma sample_declared: "declared_services sample_cov = [(''prod'', ''auth'')]"
  by (simp add: declared_services_def sample_cov_def)

lemma sample_runs:
  "map_option (\<lambda>a. (map sa_assessment (as_services a), sweepObservations a False 7 ''ref''))
      (assessTriageSweep sample_dates ''S1'' sample_cov sample_doc) =
    Some ([O_healthy],
      [\<lparr>o_subject = Service ''prod'' ''auth'', o_sweepId = ''S1'', o_at = 7, o_signal = Observed_clear ''ledger#1''\<rparr>])"
  by code_simp

lemma sample_assessed:
  obtains a where "assessTriageSweep sample_dates ''S1'' sample_cov sample_doc = Some a"
    "map sa_assessment (as_services a) = [O_healthy]"
    "sweepObservations a False 7 ''ref'' =
      [\<lparr>o_subject = Service ''prod'' ''auth'', o_sweepId = ''S1'', o_at = 7, o_signal = Observed_clear ''ledger#1''\<rparr>]"
proof -
  from sample_runs obtain a where "assessTriageSweep sample_dates ''S1'' sample_cov sample_doc = Some a"
    "(map sa_assessment (as_services a), sweepObservations a False 7 ''ref'') =
      ([O_healthy],
       [\<lparr>o_subject = Service ''prod'' ''auth'', o_sweepId = ''S1'', o_at = 7, o_signal = Observed_clear ''ledger#1''\<rparr>])"
    unfolding map_option_eq_Some by (elim exE conjE)
  then show thesis by (intro that [of a]) (simp_all only: prod.inject)
qed

theorem healthy_iff_shown_witness:
  "\<exists>row. shown_healthy sample_dates ''S1'' sample_cov sample_doc ''prod'' ''auth'' row"
proof -
  obtain a where a: "assessTriageSweep sample_dates ''S1'' sample_cov sample_doc = Some a"
    and h: "map sa_assessment (as_services a) = [O_healthy]" using sample_assessed by metis
  have m: "map (\<lambda>sa. (sa_environment sa, sa_service sa)) (as_services a) = [(''prod'', ''auth'')]"
    using conjunct1 [OF healthy_iff_shown [OF a]] unfolding sample_declared .
  then obtain sa where sa: "as_services a = [sa]" "sa_environment sa = ''prod''" "sa_service sa = ''auth''"
    by (auto simp: map_eq_Cons_conv)
  have "sa_assessment sa = O_healthy" using h by (simp add: sa(1))
  moreover have "sa \<in> set (as_services a)" by (simp add: sa(1))
  ultimately show ?thesis using bspec [OF conjunct2 [OF healthy_iff_shown [OF a]], of sa] unfolding sa(2,3) by blast
qed
theorem clear_rests_on_evidence_witness:
  "\<exists>e s row. (e, s) \<in> set (declared_services sample_cov) \<and> Service ''prod'' ''auth'' = Service e s
    \<and> shown_healthy sample_dates ''S1'' sample_cov sample_doc e s row \<and> firstEvidenceRef row = Some ''ledger#1''"
proof -
  obtain a where a: "assessTriageSweep sample_dates ''S1'' sample_cov sample_doc = Some a"
    and obs: "sweepObservations a False 7 ''ref'' =
      [\<lparr>o_subject = Service ''prod'' ''auth'', o_sweepId = ''S1'', o_at = 7, o_signal = Observed_clear ''ledger#1''\<rparr>]"
    using sample_assessed by metis
  have "\<lparr>o_subject = Service ''prod'' ''auth'', o_sweepId = ''S1'', o_at = 7, o_signal = Observed_clear ''ledger#1''\<rparr>
      \<in> set (sweepObservations a False 7 ''ref'')" unfolding obs by simp
  from clear_rests_on_evidence [OF a this] show ?thesis by simp
qed

theorem triage_census_accounts_witness:
  "\<exists>a. assessTriageSweep sample_dates ''S1'' sample_cov sample_doc = Some a
    \<and> length (as_services a) = ce_counted (as_census a) + length [sa \<leftarrow> as_services a. sa_claimed sa = None]"
  using sample_assessed triage_census_accounts by metis

end
