(* ===== verification/Triage_Pass.thy ===== *)
theory Triage_Pass
  imports Triage_Verdict Notify_Delivery
begin

text \<open>
  One tick of the triage console (\<open>src/run/triage-pass.ts\<close>): \<open>triagePass\<close> skips while a sweep is in
  flight, finishes one that was interrupted, or opens the next, and \<open>settle\<close> advances the records
  of the incidents and announces what changed. The driver of a sweep and the store of the records
  are records of operations on a world the theory knows nothing of; each of them may throw.
  The lemmas show what a pass asks of its driver, that the number of a sweep is never used twice,
  that the records follow the machine of theory Incident, and what a recovery rests on.
\<close>

section \<open>The driver and the store\<close>

record in_flight =
  if_sweepId :: string
  if_waitingOn :: string
  if_dispatchedAt :: "string option"

record expired_sweep =
  ex_sweepId :: string
  ex_waitingOn :: string
  ex_ageS :: int

record resumable_sweep =
  re_sweepId :: string
  re_dispatchedAt :: string

datatype sweep_open = Sweep_opened | Sweep_budget_exhausted string

record sweep_join =
  jn_artifacts :: "observer_artifact list"
  jn_blocked :: "worker_id list"
  jn_claimedSuccess :: "worker_id list"

record sweep_collation =
  cl_document :: "triage_document option"
  cl_evidenceRef :: string
  cl_staleCollators :: "worker_id list"

text \<open>An operation on the world: it throws, or it answers.\<close>

type_synonym ('a, 'x, 'w) act = "'w \<Rightarrow> ('x + 'a) \<times> 'w"

record ('x, 'w) sweep_driver =
  sd_inFlight :: "(in_flight option, 'x, 'w) act"
  sd_resumableSweep :: "(resumable_sweep option, 'x, 'w) act"
  sd_highestSweepNumber :: "(int, 'x, 'w) act"
  sd_runs :: "((worker_id \<times> string) list, 'x, 'w) act"
  sd_openSweep :: "string \<Rightarrow> string \<Rightarrow> (sweep_open, 'x, 'w) act"
  sd_readPartition :: "string \<Rightarrow> (assignment list, 'x, 'w) act"
  sd_dispatchObserver :: "string \<Rightarrow> assignment \<Rightarrow> (unit, 'x, 'w) act"
  sd_join :: "string \<Rightarrow> (sweep_join, 'x, 'w) act"
  sd_collate :: "string \<Rightarrow> (sweep_collation, 'x, 'w) act"

type_synonym record_read = "record_refusal + incident"

record ('x, 'w) incident_store =
  rs_load :: "incident_subject \<Rightarrow> (record_read, 'x, 'w) act"
  rs_save :: "incident \<Rightarrow> (unit, 'x, 'w) act"

record 'p saturation_memo =
  sm_result :: "'p option"
  sm_sweepId :: "string option"

definition freshSaturationMemo :: "'p saturation_memo" where
  "freshSaturationMemo = \<lparr>sm_result = None, sm_sweepId = None\<rparr>"

record triage_cursor =
  cu_runs :: "(worker_id \<times> string) list"
  cu_sweep_cursor :: int
  cu_consecutive_skips :: int

record triage_config = incident_policy +
  tc_cadence_s :: int
  tc_reserve_s :: int
  tc_max_consecutive_skips :: int

record ('p, 'x, 'w) pass_deps =
  pd_environment :: string
  pd_declared :: "declared_environment list"
  pd_default_window_s :: js_number
  pd_reserve_s :: js_number
  pd_config :: triage_config
  pd_notify :: "notify_config option"
  pd_provider :: string
  pd_model :: string
  pd_probe :: "'w \<Rightarrow> 'p \<times> 'w"
  pd_failure :: "'p \<Rightarrow> probe_failure option"
  pd_io :: "'w notify_io"
  pd_cursor :: triage_cursor
  pd_delivery :: delivery_state
  pd_memo :: "'p saturation_memo"
  pd_sweep :: "('x, 'w) sweep_driver"
  pd_records :: "('x, 'w) incident_store"
  pd_parse :: "string \<Rightarrow> rat option"

datatype pass_kind = Swept | Skipped | Pass_budget_exhausted | Pass_partition_refused

record 'p pass_outcome =
  oc_kind :: pass_kind
  oc_cursor :: triage_cursor
  oc_delivery :: delivery_state
  oc_memo :: "'p saturation_memo"
  oc_sweepId :: string
  oc_waitingOn :: "string option"
  oc_assessment :: "sweep_assessment option"
  oc_saturation :: "'p saturation_outcome option"
  oc_partition :: "partition_fault option"
  oc_dispatched :: "worker_id list"
  oc_notifications :: "notification list"
  oc_report :: sweep_report
  oc_written :: "incident list"
  oc_refused :: "(incident_subject \<times> record_refusal) list"
  oc_expired :: "expired_sweep option"

text \<open>What leaves a pass as an exception.\<close>

datatype miswired = Declares_nothing | Environment_undeclared | Environment_twice string | Kind_twice environment_kind

datatype 'x pass_error =
    Op_threw 'x | Pass_miswired miswired | Sweep_number sweep_error | Instant_out_of_range
  | Window_unusable | Record_of_other incident_error | Report_threw notify_error

definition attempt :: "('a, 'x, 'w) act \<Rightarrow> ('a, 'x pass_error, 'w) act" where
  "attempt m w = (case m w of (Inl e, w1) \<Rightarrow> (Inl (Op_threw e), w1) | (Inr a, w1) \<Rightarrow> (Inr a, w1))"

definition and_then :: "('a, 'e, 'w) act \<Rightarrow> ('a \<Rightarrow> ('b, 'e, 'w) act) \<Rightarrow> ('b, 'e, 'w) act" where
  "and_then m f w = (case m w of (Inl e, w1) \<Rightarrow> (Inl e, w1) | (Inr a, w1) \<Rightarrow> f a w1)"

definition either :: "'e + 'a \<Rightarrow> ('a, 'e, 'w) act" where
  "either r w = (r, w)"

section \<open>Small decisions\<close>

definition resumedCursor :: "int \<Rightarrow> int \<Rightarrow> int" where
  "resumedCursor recorded runTree = max recorded runTree"

definition TRIAGE_COLLATOR :: worker_id where "TRIAGE_COLLATOR = ''tri-1''"

definition silentDocument :: "string \<Rightarrow> triage_document" where
  "silentDocument sweepId =
    \<lparr>td_worker = TRIAGE_COLLATOR, td_sweep_id = Some sweepId, td_services = [], td_unaccounted = []\<rparr>"

text \<open>The probe of a pass and the memo, which it writes where it really asks.\<close>

definition memoized ::
  "'p saturation_memo \<Rightarrow> string \<Rightarrow> ('w \<Rightarrow> 'p \<times> 'w) \<Rightarrow> 'w \<times> 'p saturation_memo \<Rightarrow> 'p \<times> ('w \<times> 'p saturation_memo)" where
  "memoized memo sweepId probe = (\<lambda>(w, next).
    case sm_result memo of Some r \<Rightarrow> (r, w, next)
    | None \<Rightarrow> let (r, w1) = probe w in (r, w1, \<lparr>sm_result = Some r, sm_sweepId = Some sweepId\<rparr>))"

definition unreachableFrom :: "'p saturation_outcome option \<Rightarrow> bool option" where
  "unreachableFrom s = (case s of None \<Rightarrow> None | Some v \<Rightarrow> snd (SATURATION_PAIR (so_verdict v)))"

definition sweepDeadlineS :: "triage_config \<Rightarrow> int" where
  "sweepDeadlineS cfg = tc_cadence_s cfg - tc_reserve_s cfg"

definition sweepExpiryS :: "triage_config \<Rightarrow> int" where
  "sweepExpiryS cfg = max (tc_max_consecutive_skips cfg * tc_cadence_s cfg) (2 * sweepDeadlineS cfg)"

definition expiredSweep ::
  "(string \<Rightarrow> rat option) \<Rightarrow> in_flight option \<Rightarrow> triage_config \<Rightarrow> int \<Rightarrow> expired_sweep option" where
  "expiredSweep parse inFlight cfg at_ms =
    (case inFlight of None \<Rightarrow> None
     | Some f \<Rightarrow>
         case Option.bind (if_dispatchedAt f) parse of None \<Rightarrow> None
         | Some dispatched \<Rightarrow>
             let ageMs = of_int at_ms - dispatched in
             if ageMs < of_int (sweepExpiryS cfg * 1000) then None
             else Some \<lparr>ex_sweepId = if_sweepId f, ex_waitingOn = if_waitingOn f, ex_ageS = \<lfloor>ageMs / 1000\<rfloor>\<rparr>)"

definition twice :: "'a list \<Rightarrow> 'a option" where
  "twice xs = (case [i \<leftarrow> [0..<length xs]. xs ! i \<in> set (take i xs)] of [] \<Rightarrow> None | i # _ \<Rightarrow> Some (xs ! i))"

definition refuseMiswiredEnvironments :: "declared_environment list \<Rightarrow> string \<Rightarrow> miswired option" where
  "refuseMiswiredEnvironments declared environment =
    (if declared = [] then Some Declares_nothing
     else if \<not> list_ex (\<lambda>e. de_name e = environment) declared then Some Environment_undeclared
     else case twice (map de_name declared) of Some n \<Rightarrow> Some (Environment_twice n)
     | None \<Rightarrow> map_option Kind_twice (twice (map de_kind declared)))"

section \<open>What is announced of a change\<close>

definition assessment_of :: "issue_reason \<Rightarrow> assessment" where
  "assessment_of r =
    (case r of Coverage \<Rightarrow> A_coverage | Observed Unhealthy \<Rightarrow> A_unhealthy | Observed Degraded \<Rightarrow> A_degraded
     | Observed (Health h) \<Rightarrow>
         (case h of Observer_blocked \<Rightarrow> A_observer_blocked | Sweep_produced_nothing \<Rightarrow> A_sweep_produced_nothing
          | Sweeps_skipped \<Rightarrow> A_sweeps_skipped | Inference_saturated \<Rightarrow> A_inference_saturated
          | Inference_unreachable \<Rightarrow> A_inference_unreachable | Budget_exhausted \<Rightarrow> A_budget_exhausted
          | Reporter_undelivered \<Rightarrow> A_reporter_undelivered))"

definition transition_of :: "notification_kind \<Rightarrow> transition" where
  "transition_of k = (case k of Opened \<Rightarrow> A_opened | Recovered \<Rightarrow> A_recovered
     | Flapping_notice \<Rightarrow> A_flapping | Reminder \<Rightarrow> A_reminder)"

record announcement_extras =
  ax_evidence :: "string option"
  ax_backlog :: "notify_backlog option"
  ax_environment :: "string option option" \<comment> \<open>given, and then it may be null\<close>

definition announcementFacts :: "notification \<Rightarrow> announcement_extras \<Rightarrow> announcement_facts" where
  "announcementFacts n extras =
    (let environment = (case nt_subject n of
            Incident.Service e _ \<Rightarrow> Some e
          | Incident.Console_health scope _ \<Rightarrow> if scope = CONSOLE_SCOPE then None else Some scope) in
     \<lparr>af_kind = (case nt_subject n of Incident.Service _ _ \<Rightarrow> Notify.Service | _ \<Rightarrow> Notify.Console_health),
      af_scope = units (case nt_subject n of Incident.Service e _ \<Rightarrow> e | Incident.Console_health scope _ \<Rightarrow> scope),
      af_subject = units (case nt_subject n of Incident.Service _ s \<Rightarrow> s | Incident.Console_health _ h \<Rightarrow> health_name h),
      af_environment = map_option units (case ax_environment extras of None \<Rightarrow> environment | Some e \<Rightarrow> e),
      af_service = (case nt_subject n of Incident.Service _ s \<Rightarrow> Some (units s) | _ \<Rightarrow> None),
      af_assessment = assessment_of (nt_reason n), af_transition = transition_of (nt_kind n),
      af_first_seen = Some (nt_at n - nt_firingForMs n), af_sweep_count = nt_sweepCount n,
      af_evidence = map_option units (ax_evidence extras), af_evidence_ref = map_option units (nt_evidenceRef n),
      af_backlog = ax_backlog extras\<rparr>)"

definition extrasFor :: "notification \<Rightarrow> string \<Rightarrow> string \<Rightarrow> string option \<Rightarrow> announcement_extras \<times> string option" where
  "extrasFor n environment saturationSubject note =
    (case nt_subject n of
       Incident.Console_health _ Inference_saturated \<Rightarrow>
         (\<lparr>ax_evidence = None, ax_backlog = None, ax_environment = Some (Some environment)\<rparr>, Some saturationSubject)
     | _ \<Rightarrow> (\<lparr>ax_evidence = note, ax_backlog = None, ax_environment = None\<rparr>, None))"

section \<open>The end of a pass\<close>

record 'p settlement =
  st_at :: int
  st_runs :: "(worker_id \<times> string) list"
  st_kind :: pass_kind
  st_sweepId :: string
  st_waitingOn :: "string option"
  st_sweepCursor :: int
  st_consecutiveSkips :: int
  st_environments :: "environment_facts list"
  st_budgetExhausted :: bool
  st_evidenceRef :: string
  st_assessment :: "sweep_assessment option"
  st_saturation :: "'p saturation_outcome option"
  st_partition :: "partition_fault option"
  st_dispatched :: "worker_id list"
  st_serviceObservations :: "observation list"
  st_memo :: "'p saturation_memo"
  st_expired :: "expired_sweep option"

definition settlement_facts :: "('p, 'x, 'w) pass_deps \<Rightarrow> 'p settlement \<Rightarrow> sweep_facts" where
  "settlement_facts deps s =
    \<lparr>sf_evidenceRef = st_evidenceRef s, sf_environments = st_environments s,
     sf_consecutiveSkips = st_consecutiveSkips s, sf_maxConsecutiveSkips = tc_max_consecutive_skips (pd_config deps),
     sf_saturated = Option.bind (st_saturation s) so_saturated, sf_unreachable = unreachableFrom (st_saturation s),
     sf_budgetExhausted = st_budgetExhausted s, sf_reporterUndelivered = reporterUndelivered (pd_delivery deps)\<rparr>"

definition pass_observations :: "('p, 'x, 'w) pass_deps \<Rightarrow> 'p settlement \<Rightarrow> observation list" where
  "pass_observations deps s =
    st_serviceObservations s
    @ consoleHealthObservations (st_sweepId s) (st_at s) (Ran (settlement_facts deps s))"

record advances =
  av_notifications :: "notification list"
  av_written :: "incident list"
  av_refused :: "(incident_subject \<times> record_refusal) list"
  av_byKey :: "string \<Rightarrow> incident option"

text \<open>
  A record is written when the machine answers with another object than it was given, which it does
  for every signal but \<open>Suppressed\<close>.
\<close>

definition advance_one ::
  "('x, 'w) incident_store \<Rightarrow> incident_policy \<Rightarrow> observation \<Rightarrow> advances \<Rightarrow> (advances, 'x pass_error, 'w) act" where
  "advance_one store policy obs acc =
    and_then (attempt (rs_load store (o_subject obs))) (\<lambda>read.
      case read of
        Inl code \<Rightarrow> either (Inr (acc\<lparr>av_refused := av_refused acc @ [(o_subject obs, code)]\<rparr>))
      | Inr r \<Rightarrow>
          case advanceIncident r obs policy of Inl e \<Rightarrow> either (Inl (Record_of_other e))
          | Inr (r', new) \<Rightarrow>
              let noted = acc\<lparr>av_byKey := (av_byKey acc)(subjectKey (o_subject obs) \<mapsto> r'),
                              av_notifications := av_notifications acc @ new\<rparr> in
              if o_signal obs = Suppressed then either (Inr noted)
              else and_then (attempt (rs_save store r')) (\<lambda>_.
                either (Inr (noted\<lparr>av_written := av_written acc @ [r']\<rparr>))))"

fun advance_all ::
  "('x, 'w) incident_store \<Rightarrow> incident_policy \<Rightarrow> observation list \<Rightarrow> advances \<Rightarrow> (advances, 'x pass_error, 'w) act" where
  "advance_all store policy [] acc = either (Inr acc)"
| "advance_all store policy (obs # rest) acc =
    and_then (advance_one store policy obs acc) (advance_all store policy rest)"

text \<open>The announcements, each with the key of its subject; the last note of a service counts.\<close>

definition note_for :: "sweep_assessment option \<Rightarrow> incident_subject \<Rightarrow> string option" where
  "note_for assessed subject =
    (case subject of
       Incident.Service e s \<Rightarrow>
         Option.bind (map_of (rev (map (\<lambda>a. (environmentServiceKey (sa_environment a) (sa_service a), sa_note a))
           (case assessed of None \<Rightarrow> [] | Some a \<Rightarrow> as_services a))) (environmentServiceKey e s)) (\<lambda>note. note)
     | _ \<Rightarrow> None)"

definition announcement_pair ::
  "string \<Rightarrow> 'p settlement \<Rightarrow> notification \<Rightarrow> string \<times> announcement_facts" where
  "announcement_pair environment s n =
    (let (extras, subject) = extrasFor n environment (case st_saturation s of None \<Rightarrow> '''' | Some v \<Rightarrow> so_subject v)
           (note_for (st_assessment s) (nt_subject n));
         composed = announcementFacts n extras in
     (subjectKey (nt_subject n),
      case subject of None \<Rightarrow> composed | Some t \<Rightarrow> composed\<lparr>af_subject := units t\<rparr>))"

text \<open>\<open>orderForDelivery\<close> moves objects; here each takes the key it was composed under with it.\<close>

definition order_pairs :: "(string \<times> announcement_facts) list \<Rightarrow> (string \<times> announcement_facts) list" where
  "order_pairs ps =
    (let recovery = [p \<leftarrow> ps. isReporterRecovery (snd p)] in
     if recovery = [] then ps else recovery @ [p \<leftarrow> ps. \<not> isReporterRecovery (snd p)])"

lemma order_pairs_facts: "map snd (order_pairs ps) = orderForDelivery (map snd ps)"
  by (simp add: order_pairs_def orderForDelivery_def filter_map comp_def)

definition lost_delivery :: "delivery_result \<Rightarrow> bool" where
  "lost_delivery d \<longleftrightarrow> dr_announcement d \<noteq> None
    \<and> (dr_disposition d = Held
       \<or> dr_disposition d = Attempted \<and> map_option no_status (dr_outcome d) \<noteq> Some Delivered)"

text \<open>The text of a list of units below 256, as those of a title and of an instant are.\<close>

definition text_of :: "units \<Rightarrow> string" where "text_of u = map char_of u"

fun note_lost ::
  "('x, 'w) incident_store \<Rightarrow> (delivery_result \<times> string) list \<Rightarrow> advances \<Rightarrow> (advances, 'x pass_error, 'w) act" where
  "note_lost store [] acc = either (Inr acc)"
| "note_lost store ((d, key) # rest) acc =
    (case (dr_announcement d, av_byKey acc key) of
       (Some a, Some r) \<Rightarrow>
         if lost_delivery d then
           let updated = withUndelivered r [text_of (an_title a)] in
           and_then (attempt (rs_save store updated)) (\<lambda>_.
             note_lost store rest
               (acc\<lparr>av_written := av_written acc @ [updated], av_byKey := (av_byKey acc)(key \<mapsto> updated)\<rparr>))
         else note_lost store rest acc
     | _ \<Rightarrow> note_lost store rest acc)"

definition report_pass ::
  "announcement_facts list \<Rightarrow> ('p, 'x, 'w) pass_deps \<Rightarrow> (sweep_report, 'x pass_error, 'w) act" where
  "report_pass facts deps w =
    (case reportSweep facts (pd_notify deps) (pd_delivery deps) (pd_io deps) w of
       Inl e \<Rightarrow> (Inl (Report_threw e), w)
     | Inr (report, w1) \<Rightarrow> (Inr report, w1))"

definition settle :: "('p, 'x, 'w) pass_deps \<Rightarrow> 'p settlement \<Rightarrow> ('p pass_outcome, 'x pass_error, 'w) act" where
  "settle deps s =
    and_then (advance_all (pd_records deps) (incident_policy.truncate (pd_config deps)) (pass_observations deps s)
        \<lparr>av_notifications = [], av_written = [], av_refused = [], av_byKey = (\<lambda>_. None)\<rparr>) (\<lambda>acc.
      let pairs = map (announcement_pair (pd_environment deps) s) (av_notifications acc) in
      and_then (report_pass (map snd pairs) deps) (\<lambda>report.
      and_then (note_lost (pd_records deps) (zip (sr_deliveries report) (map fst (order_pairs pairs))) acc) (\<lambda>final.
      either (Inr
        \<lparr>oc_kind = st_kind s,
         oc_cursor = \<lparr>cu_runs = st_runs s, cu_sweep_cursor = st_sweepCursor s,
           cu_consecutive_skips = st_consecutiveSkips s\<rparr>,
         oc_delivery = sr_state report, oc_memo = st_memo s, oc_sweepId = st_sweepId s, oc_waitingOn = st_waitingOn s,
         oc_assessment = st_assessment s, oc_saturation = st_saturation s, oc_partition = st_partition s,
         oc_dispatched = st_dispatched s, oc_notifications = av_notifications acc, oc_report = report,
         oc_written = av_written final, oc_refused = av_refused acc, oc_expired = st_expired s\<rparr>))))"

section \<open>A pass\<close>

record completed_sweep =
  cs_at :: int
  cs_runs :: "(worker_id \<times> string) list"
  cs_sweepId :: string
  cs_dispatchedAt :: string
  cs_sweepCursor :: int
  cs_assignments :: "assignment list"
  cs_join :: sweep_join
  cs_dispatched :: "worker_id list"
  cs_refusedPartition :: "partition_fault option"
  cs_expired :: "expired_sweep option"

definition completed_coverage :: "('p, 'x, 'w) pass_deps \<Rightarrow> completed_sweep \<Rightarrow> sweep_coverage" where
  "completed_coverage deps s =
    \<lparr>sc_declared = pd_declared deps, sc_assignments = cs_assignments s, sc_artifacts = jn_artifacts (cs_join s),
     sc_window = \<lparr>sw_default_window_s = pd_default_window_s deps, sw_reserve_s = pd_reserve_s deps,
       sw_dispatched_at = cs_dispatchedAt s\<rparr>\<rparr>"

definition collation_of_sweep ::
  "('p, 'x, 'w) pass_deps \<Rightarrow> completed_sweep \<Rightarrow> (sweep_collation, 'x pass_error, 'w) act" where
  "collation_of_sweep deps s =
    (if jn_artifacts (cs_join s) \<noteq> [] then attempt (sd_collate (pd_sweep deps) (cs_sweepId s))
     else either (Inr \<lparr>cl_document = None, cl_evidenceRef = cs_sweepId s, cl_staleCollators = []\<rparr>))"

definition assess_completed ::
  "('p, 'x, 'w) pass_deps \<Rightarrow> completed_sweep \<Rightarrow> sweep_collation \<Rightarrow> 'x pass_error + sweep_assessment" where
  "assess_completed deps s coll =
    (case assessTriageSweep (pd_parse deps) (cs_sweepId s) (completed_coverage deps s)
            (case cl_document coll of None \<Rightarrow> silentDocument (cs_sweepId s) | Some d \<Rightarrow> d) of
       None \<Rightarrow> Inl Window_unusable
     | Some assessed \<Rightarrow> Inr (assessed\<lparr>as_stale_replay := as_stale_replay assessed @ cl_staleCollators coll\<rparr>))"

text \<open>The endpoint, and the memo of the next pass.\<close>

definition saturation_of ::
  "('p, 'x, 'w) pass_deps \<Rightarrow> string \<Rightarrow> sweep_assessment \<Rightarrow> ('p saturation_outcome \<times> 'p saturation_memo, 'e, 'w) act" where
  "saturation_of deps sweepId assessed w =
    (let (v, w1, taken) = saturationVerdict assessed (inferenceSubject (pd_provider deps) (pd_model deps))
           (pd_failure deps) (memoized (pd_memo deps) sweepId (pd_probe deps)) (w, pd_memo deps) in
     (Inr (v, if length (so_correlated v) \<ge> SATURATION_MIN_MISSING then taken else freshSaturationMemo), w1))"

definition completeSweep ::
  "('p, 'x, 'w) pass_deps \<Rightarrow> completed_sweep \<Rightarrow> ('p pass_outcome, 'x pass_error, 'w) act" where
  "completeSweep deps s =
    and_then (collation_of_sweep deps s) (\<lambda>coll.
    and_then (either (assess_completed deps s coll)) (\<lambda>assessed.
    and_then (saturation_of deps (cs_sweepId s) assessed) (\<lambda>(saturation, memo).
    settle deps
      \<lparr>st_at = cs_at s, st_runs = cs_runs s,
       st_kind = (if cs_refusedPartition s = None then Swept else Pass_partition_refused),
       st_sweepId = cs_sweepId s, st_waitingOn = None, st_sweepCursor = cs_sweepCursor s, st_consecutiveSkips = 0,
       st_environments = map (\<lambda>e. \<lparr>ef_environment = de_name e,
         ef_observerBlocked = (workersOfKind (de_kind e) (jn_blocked (cs_join s)) \<noteq> []),
         ef_collated = (cl_document coll \<noteq> None)\<rparr>) (pd_declared deps),
       st_budgetExhausted = False, st_evidenceRef = cl_evidenceRef coll, st_assessment = Some assessed,
       st_saturation = Some saturation, st_partition = cs_refusedPartition s, st_dispatched = cs_dispatched s,
       st_serviceObservations = sweepObservations assessed (so_suppressed saturation) (cs_at s) (cl_evidenceRef coll),
       st_memo = memo, st_expired = cs_expired s\<rparr>)))"

definition quiet_settlement ::
  "('p, 'x, 'w) pass_deps \<Rightarrow> int \<Rightarrow> (worker_id \<times> string) list \<Rightarrow> pass_kind \<Rightarrow> string \<Rightarrow> string option \<Rightarrow> int \<Rightarrow> int
    \<Rightarrow> string \<Rightarrow> expired_sweep option \<Rightarrow> 'p settlement" where
  "quiet_settlement deps at_ms runs kind sweepId waitingOn cursor skips evidenceRef expired =
    \<lparr>st_at = at_ms, st_runs = runs, st_kind = kind, st_sweepId = sweepId, st_waitingOn = waitingOn,
     st_sweepCursor = cursor, st_consecutiveSkips = skips, st_environments = [],
     st_budgetExhausted = (kind = Pass_budget_exhausted), st_evidenceRef = evidenceRef, st_assessment = None,
     st_saturation = None, st_partition = None, st_dispatched = [], st_serviceObservations = [],
     st_memo = pd_memo deps, st_expired = expired\<rparr>"

text \<open>The fan-out of the partition, and the join where it was sent.\<close>

definition fan_out_partition ::
  "('p, 'x, 'w) pass_deps \<Rightarrow> string \<Rightarrow> assignment list \<Rightarrow> (worker_id list + partition_fault, 'x pass_error, 'w) act" where
  "fan_out_partition deps sweepId as w =
    (case dispatchPartition (map (\<lambda>e. \<lparr>kg_kind = de_kind e, kg_services = de_services e\<rparr>) (pd_declared deps)) as
            (\<lambda>a w1. case sd_dispatchObserver (pd_sweep deps) sweepId a w1 of
               (Inl e, w2) \<Rightarrow> (w2, Inl e) | (Inr _, w2) \<Rightarrow> (w2, Inr (a_worker a))) w of
       (w1, Dispatched_all workers) \<Rightarrow> (Inr (Inl workers), w1)
     | (w1, Partition_fault f) \<Rightarrow> (Inr (Inr f), w1)
     | (w1, Dispatch_threw e) \<Rightarrow> (Inl (Op_threw e), w1))"

definition open_pass ::
  "('p, 'x, 'w) pass_deps \<Rightarrow> int \<Rightarrow> (worker_id \<times> string) list \<Rightarrow> int \<Rightarrow> expired_sweep option
    \<Rightarrow> ('p pass_outcome, 'x pass_error, 'w) act" where
  "open_pass deps at_ms runs highest expired =
    (let number = resumedCursor (cu_sweep_cursor (pd_cursor deps)) highest + 1 in
     and_then (either (case sweepTaskId (js_int number) of Inl e \<Rightarrow> Inl (Sweep_number e) | Inr s \<Rightarrow> Inr s)) (\<lambda>sweepId.
     and_then (either (case toISOString at_ms of None \<Rightarrow> Inl Instant_out_of_range | Some u \<Rightarrow> Inr (text_of u))) (\<lambda>dispatchedAt.
     and_then (attempt (sd_openSweep (pd_sweep deps) sweepId dispatchedAt)) (\<lambda>opened.
     case opened of
       Sweep_budget_exhausted reason \<Rightarrow>
         settle deps (quiet_settlement deps at_ms runs Pass_budget_exhausted sweepId None number
           (cu_consecutive_skips (pd_cursor deps)) sweepId expired)
     | Sweep_opened \<Rightarrow>
         and_then (attempt (sd_readPartition (pd_sweep deps) sweepId)) (\<lambda>as.
         and_then (fan_out_partition deps sweepId as) (\<lambda>fanOut.
         and_then (case fanOut of Inl _ \<Rightarrow> attempt (sd_join (pd_sweep deps) sweepId)
                   | Inr _ \<Rightarrow> either (Inr \<lparr>jn_artifacts = [], jn_blocked = [], jn_claimedSuccess = []\<rparr>)) (\<lambda>join.
         completeSweep deps
           \<lparr>cs_at = at_ms, cs_runs = runs, cs_sweepId = sweepId, cs_dispatchedAt = dispatchedAt,
            cs_sweepCursor = number, cs_assignments = (case fanOut of Inl _ \<Rightarrow> as | Inr _ \<Rightarrow> []), cs_join = join,
            cs_dispatched = (case fanOut of Inl workers \<Rightarrow> workers | Inr _ \<Rightarrow> []),
            cs_refusedPartition = (case fanOut of Inl _ \<Rightarrow> None | Inr f \<Rightarrow> Some f), cs_expired = expired\<rparr>)))))))"

text \<open>The sweep that was interrupted, where it left artifacts.\<close>

definition carried_sweep :: "('p, 'x, 'w) pass_deps \<Rightarrow> ((resumable_sweep \<times> sweep_join) option, 'x pass_error, 'w) act" where
  "carried_sweep deps =
    and_then (attempt (sd_resumableSweep (pd_sweep deps))) (\<lambda>resumable.
      case resumable of None \<Rightarrow> either (Inr None)
      | Some r \<Rightarrow> and_then (attempt (sd_join (pd_sweep deps) (re_sweepId r))) (\<lambda>carried.
          either (Inr (if jn_artifacts carried = [] then None else Some (r, carried)))))"

definition read_clock :: "('p, 'x, 'w) pass_deps \<Rightarrow> (int, 'e, 'w) act" where
  "read_clock deps w = (case io_now (pd_io deps) w of (t, w1) \<Rightarrow> (Inr t, w1))"

definition triagePass :: "('p, 'x, 'w) pass_deps \<Rightarrow> ('p pass_outcome, 'x pass_error, 'w) act" where
  "triagePass deps =
    and_then (either (case refuseMiswiredEnvironments (pd_declared deps) (pd_environment deps) of
        Some e \<Rightarrow> Inl (Pass_miswired e) | None \<Rightarrow> Inr ())) (\<lambda>_.
    and_then (read_clock deps) (\<lambda>at_ms.
    and_then (attempt (sd_runs (pd_sweep deps))) (\<lambda>runs.
    and_then (attempt (sd_inFlight (pd_sweep deps))) (\<lambda>inFlight.
    and_then (attempt (sd_highestSweepNumber (pd_sweep deps))) (\<lambda>highest.
    let expired = expiredSweep (pd_parse deps) inFlight (pd_config deps) at_ms;
        cursor = resumedCursor (cu_sweep_cursor (pd_cursor deps)) highest in
    case (inFlight, expired) of
      (Some f, None) \<Rightarrow>
        settle deps (quiet_settlement deps at_ms runs Skipped (if_sweepId f) (Some (if_waitingOn f)) cursor
          (cu_consecutive_skips (pd_cursor deps) + 1) (if_waitingOn f) None)
    | _ \<Rightarrow>
        and_then (carried_sweep deps) (\<lambda>carried.
          case carried of
            Some (r, join) \<Rightarrow>
              and_then (attempt (sd_readPartition (pd_sweep deps) (re_sweepId r))) (\<lambda>as.
              completeSweep deps
                \<lparr>cs_at = at_ms, cs_runs = runs, cs_sweepId = re_sweepId r, cs_dispatchedAt = re_dispatchedAt r,
                 cs_sweepCursor = cursor, cs_assignments = as, cs_join = join, cs_dispatched = [],
                 cs_refusedPartition = None, cs_expired = expired\<rparr>)
          | None \<Rightarrow> open_pass deps at_ms runs highest expired))))))"

section \<open>What the operations of a pass may touch\<close>

text \<open>An action stays within a relation of worlds, whether it answers or throws.\<close>

definition stays :: "('w \<Rightarrow> 'w \<Rightarrow> bool) \<Rightarrow> ('a, 'e, 'w) act \<Rightarrow> bool" where
  "stays R m \<longleftrightarrow> (\<forall>w. R w (snd (m w)))"

definition preorder_on_worlds :: "('w \<Rightarrow> 'w \<Rightarrow> bool) \<Rightarrow> bool" where
  "preorder_on_worlds R \<longleftrightarrow> reflp R \<and> transp R"

named_theorems stays_intros

lemma stays_either [stays_intros]: "preorder_on_worlds R \<Longrightarrow> stays R (either r)"
  by (simp add: stays_def either_def preorder_on_worlds_def reflpD)

lemma stays_attempt [stays_intros]: "stays R m \<Longrightarrow> stays R (attempt m)"
  unfolding stays_def attempt_def by (metis (no_types, lifting) case_prod_beta old.sum.simps(5,6) snd_conv sum.exhaust)

lemma stays_and_then [stays_intros]:
  assumes "preorder_on_worlds R" and "stays R m" and "\<And>a. stays R (f a)"
  shows "stays R (and_then m f)"
  unfolding stays_def
proof
  fix w
  obtain r w1 where m: "m w = (r, w1)" by fastforce
  then have "R w w1" using assms(2) unfolding stays_def by (metis snd_conv)
  moreover have "R w1 (snd (f a w1))" for a using assms(3) unfolding stays_def by blast
  ultimately show "R w (snd (and_then m f w))"
    using assms(1) by (cases r) (auto simp: and_then_def m preorder_on_worlds_def elim: transpE)
qed

definition store_within :: "('w \<Rightarrow> 'w \<Rightarrow> bool) \<Rightarrow> ('x, 'w) incident_store \<Rightarrow> bool" where
  "store_within R store \<longleftrightarrow> (\<forall>s. stays R (rs_load store s)) \<and> (\<forall>r. stays R (rs_save store r))"

definition io_within :: "('w \<Rightarrow> 'w \<Rightarrow> bool) \<Rightarrow> 'w notify_io \<Rightarrow> bool" where
  "io_within R io \<longleftrightarrow> (\<forall>w. R w (snd (io_now io w))) \<and> (\<forall>req w. R w (snd (io_send io req w)))"

lemma deliver_within:
  assumes "preorder_on_worlds R" and "io_within R io" and "deliverAnnouncement a n io w = Inr (ans, w')"
  shows "R w w'"
proof -
  obtain req where "renderRequest (io_stringify io) (io_env io) a n = Inr req"
    using assms(3) by (auto simp: deliverAnnouncement_def split: sum.splits)
  moreover obtain won w1 where s: "io_send io req w = (won, w1)" by fastforce
  moreover obtain t w2 where n: "io_now io w1 = (t, w2)" by fastforce
  ultimately have "w' = w2" using assms(3) by (simp add: deliverAnnouncement_def Let_def)
  moreover have "R w w1" "R w1 w2" using assms(2) s n unfolding io_within_def by (metis snd_conv)+
  ultimately show ?thesis using assms(1) by (auto simp: preorder_on_worlds_def elim: transpE)
qed

lemma delivery_within:
  assumes "preorder_on_worlds R" and "io_within R io" and "deliverySweep f n s io p w = Inr (r, w')"
  shows "R w w'"
proof -
  have refl: "R w w" using assms(1) by (simp add: preorder_on_worlds_def reflpD)
  have hold: "hold_announcement g m s wt tk io w = Inr (r, w') \<Longrightarrow> R w w'" for g m wt tk
    using assms(2) unfolding io_within_def
    by (auto simp: hold_announcement_def Let_def split: sum.splits prod.splits) (metis snd_conv)
  have att: "attempt_announcement g m s ro io w = Inr (r, w') \<Longrightarrow> R w w'" for g m ro
    by (auto simp: attempt_announcement_def split: sum.splits prod.splits intro: deliver_within [OF assms(1,2)])
  show ?thesis
    using assms(3) refl hold att
    by (cases n; cases f) (auto simp: deliverySweep_def Let_def split: if_splits)
qed

lemma loop_within:
  assumes "preorder_on_worlds R"
  shows "io_within R io \<Longrightarrow> report_loop fs i n ro may s io w = Inr (s', rs, ls, w') \<Longrightarrow> R w w'"
proof (induction fs i n ro may s io w arbitrary: s' rs ls w' rule: report_loop.induct)
  case (1 i notify reporterOpen mayAttempt s io w)
  then show ?case using assms(1) by (simp add: preorder_on_worlds_def reflpD report_loop.simps)
next
  case (2 f fs i notify reporterOpen mayAttempt s io w)
  obtain r w1 rs' ls' where 1: "deliverySweep (Some f) notify s io
        \<lparr>po_tick = Some (i = 0), po_reporterOpen = Some reporterOpen, po_attempt = Some mayAttempt\<rparr> w = Inr (r, w1)"
      "report_loop fs (i + 1) notify reporterOpen (mayAttempt \<and> \<not> failed r) (dr_state r) io w1 = Inr (s', rs', ls', w')"
    using 2(3) by (auto simp: report_loop.simps split: sum.splits prod.splits)
  have "R w w1" by (rule delivery_within [OF assms 2(2) 1(1)])
  moreover have "R w1 w'" using 2(1) [OF 1(1) refl 2(2) 1(2)] .
  ultimately show ?case using assms(1) by (auto simp: preorder_on_worlds_def elim: transpE)
qed

lemma report_within [stays_intros]:
  assumes "preorder_on_worlds R" and "io_within R (pd_io deps)"
  shows "stays R (report_pass facts deps)"
  unfolding stays_def
proof
  fix w
  have refl: "R w w" using assms(1) by (simp add: preorder_on_worlds_def reflpD)
  show "R w (snd (report_pass facts deps w))"
  proof (cases "reportSweep facts (pd_notify deps) (pd_delivery deps) (pd_io deps) w")
    case (Inl e)
    then show ?thesis using refl by (simp add: report_pass_def)
  next
    case (Inr p)
    obtain rep w1 where p: "p = (rep, w1)" by fastforce
    have "R w w1"
      using Inr delivery_within [OF assms] loop_within [OF assms] unfolding p
      by (auto simp: reportSweep_def Let_def split: if_splits sum.splits prod.splits)
    then show ?thesis using Inr p by (simp add: report_pass_def)
  qed
qed

lemma advance_all_within [stays_intros]:
  assumes "preorder_on_worlds R" and "store_within R store"
  shows "stays R (advance_all store policy obs acc)"
proof (induction obs arbitrary: acc)
  case (Cons ob obs)
  have "stays R (advance_one store policy ob acc)"
    using assms unfolding advance_one_def Let_def store_within_def
    by (auto intro!: stays_intros split: sum.splits prod.splits)
  then show ?case using Cons by (auto intro!: stays_intros assms)
qed (auto intro!: stays_intros assms)

lemma note_lost_within [stays_intros]:
  assumes "preorder_on_worlds R" and "store_within R store"
  shows "stays R (note_lost store ds acc)"
proof (induction ds arbitrary: acc)
  case (Cons d ds)
  then show ?case
    using assms unfolding store_within_def
    by (cases d) (auto intro!: stays_intros simp: Let_def split: option.splits)
qed (auto intro!: stays_intros assms)

lemma settle_within [stays_intros]:
  assumes "preorder_on_worlds R" and "store_within R (pd_records deps)" and "io_within R (pd_io deps)"
  shows "stays R (settle deps s)"
  unfolding settle_def Let_def by (intro stays_intros assms)

section \<open>What a pass asks for\<close>

datatype sweep_call = Sweep_dir string | Observer_sent string assignment | Collator_asked string

text \<open>
  A log of the world notes which sweep directories were made, which observers were sent and which
  collations were asked for. Only the three operations that do these add to it; a sweep that was
  refused or that failed to open may have left its directory.
\<close>

definition keeps_log :: "('w \<Rightarrow> sweep_call list) \<Rightarrow> 'w \<Rightarrow> 'w \<Rightarrow> bool" where
  "keeps_log calls w w' \<longleftrightarrow> calls w' = calls w"

definition logs_calls :: "('p, 'x, 'w) pass_deps \<Rightarrow> ('w \<Rightarrow> sweep_call list) \<Rightarrow> bool" where
  "logs_calls deps calls \<longleftrightarrow>
    (let d = pd_sweep deps; quiet = keeps_log calls in
     store_within quiet (pd_records deps) \<and> io_within quiet (pd_io deps) \<and> (\<forall>w. quiet w (snd (pd_probe deps w)))
     \<and> stays quiet (sd_inFlight d) \<and> stays quiet (sd_resumableSweep d) \<and> stays quiet (sd_highestSweepNumber d)
     \<and> stays quiet (sd_runs d) \<and> (\<forall>i. stays quiet (sd_readPartition d i)) \<and> (\<forall>i. stays quiet (sd_join d i))
     \<and> (\<forall>i a w. calls (snd (sd_dispatchObserver d i a w)) = calls w @ [Observer_sent i a])
     \<and> (\<forall>i w. calls (snd (sd_collate d i w)) = calls w @ [Collator_asked i])
     \<and> (\<forall>i t w. calls (snd (sd_openSweep d i t w)) = calls w @ [Sweep_dir i]
          \<or> calls (snd (sd_openSweep d i t w)) = calls w \<and> fst (sd_openSweep d i t w) \<noteq> Inr Sweep_opened))"

lemma keeps_log_preorder [simp]: "preorder_on_worlds (keeps_log calls)"
  by (auto simp: preorder_on_worlds_def keeps_log_def intro: reflpI transpI)

lemma stays_log: "stays (keeps_log calls) m \<Longrightarrow> calls (snd (m w)) = calls w"
  by (simp add: stays_def keeps_log_def)

text \<open>The log of two actions in a row.\<close>

definition adds :: "('w \<Rightarrow> sweep_call list) \<Rightarrow> ('a, 'e, 'w) act \<Rightarrow> sweep_call list set \<Rightarrow> bool" where
  "adds calls m news \<longleftrightarrow> (\<forall>w. \<exists>new \<in> news. calls (snd (m w)) = calls w @ new)"

lemma adds_quiet: "stays (keeps_log calls) m \<Longrightarrow> adds calls m {[]}"
  by (simp add: adds_def stays_log)

lemma adds_and_then:
  assumes "adds calls m news" and "\<And>a. adds calls (f a) later"
  shows "adds calls (and_then m f) (news \<union> {x @ y | x y. x \<in> news \<and> y \<in> later})"
  unfolding adds_def
proof
  fix w
  obtain r w1 where m: "m w = (r, w1)" by fastforce
  then obtain x where x: "x \<in> news" "calls w1 = calls w @ x" using assms(1) unfolding adds_def by (metis snd_conv)
  show "\<exists>new \<in> news \<union> {x @ y | x y. x \<in> news \<and> y \<in> later}. calls (snd (and_then m f w)) = calls w @ new"
  proof (cases r)
    case (Inl e)
    then show ?thesis using x by (auto simp: and_then_def m)
  next
    case (Inr a)
    then obtain y where "y \<in> later" "calls (snd (f a w1)) = calls w1 @ y" using assms(2) [of a] unfolding adds_def by metis
    then show ?thesis using x Inr by (auto simp: and_then_def m)
  qed
qed

lemma adds_mono: "adds calls m news \<Longrightarrow> news \<subseteq> later \<Longrightarrow> adds calls m later"
  unfolding adds_def by blast

lemma adds_after_quiet:
  assumes "stays (keeps_log calls) m" and "\<And>a. adds calls (f a) later" and "[] \<in> later"
  shows "adds calls (and_then m f) later"
  by (rule adds_mono [OF adds_and_then [OF adds_quiet [OF assms(1)] assms(2)]]) (use assms(3) in auto)

lemma memoized_world: "snd (memoized memo i probe (w, nx)) = (w1, nx1) \<Longrightarrow> w1 = w \<or> w1 = snd (probe w)"
  by (auto simp: memoized_def Let_def split: option.splits prod.splits)

lemma saturation_world:
  "snd (saturation_of deps i as w) = w \<or> snd (saturation_of deps i as w) = snd (pd_probe deps w)"
  using memoized_world [of "pd_memo deps" i "pd_probe deps" w "pd_memo deps"]
  by (auto simp: saturation_of_def saturationVerdict_def Let_def split: prod.splits if_splits)

lemma completeSweep_adds:
  assumes "logs_calls deps calls"
  shows "adds calls (completeSweep deps s) {[], [Collator_asked (cs_sweepId s)]}"
proof -
  have q: "store_within (keeps_log calls) (pd_records deps)" "io_within (keeps_log calls) (pd_io deps)"
    and p: "\<And>w. keeps_log calls w (snd (pd_probe deps w))"
    and c: "\<And>i w. calls (snd (sd_collate (pd_sweep deps) i w)) = calls w @ [Collator_asked i]"
    using assms by (auto simp: logs_calls_def Let_def)
  have "adds calls (attempt (sd_collate (pd_sweep deps) i)) {[Collator_asked i]}" for i
    using c [of i] by (auto simp: adds_def attempt_def split: prod.splits sum.splits) (metis snd_conv)+
  then have 1: "adds calls (collation_of_sweep deps s) {[], [Collator_asked (cs_sweepId s)]}"
    unfolding collation_of_sweep_def
    by (auto intro: adds_mono [OF adds_quiet [OF stays_either]] adds_mono)
  have 2: "stays (keeps_log calls) (saturation_of deps i as)" for i as
    unfolding stays_def using saturation_world [of deps i as] p by (metis keeps_log_def)
  have "stays (keeps_log calls) (and_then (either (assess_completed deps s coll)) (\<lambda>assessed.
      and_then (saturation_of deps (cs_sweepId s) assessed) (\<lambda>p. settle deps (g coll assessed p))))" for coll g
    by (intro stays_intros keeps_log_preorder 2 q)
  then have "adds calls (completeSweep deps s)
      ({[], [Collator_asked (cs_sweepId s)]} \<union> {x @ y | x y. x \<in> {[], [Collator_asked (cs_sweepId s)]} \<and> y \<in> {[]}})"
    unfolding completeSweep_def case_prod_beta by (intro adds_and_then 1 adds_quiet)
  then show ?thesis by (rule adds_mono) auto
qed

definition sends :: "string \<Rightarrow> sweep_call list set" where
  "sends i = {map (Observer_sent i) as @ c | as c. c = [] \<or> c = [Collator_asked i]}"

lemma sends_Nil [simp]: "[] \<in> sends i" and sends_collator: "[Collator_asked i] \<in> sends i"
  by (force simp: sends_def)+

lemma dispatch_all_calls:
  assumes "\<And>a w. calls (fst (f a w)) = calls w @ [Observer_sent i a]"
  shows "calls (fst (dispatch_all f as w)) = calls w @ map (Observer_sent i) as"
proof (induction as arbitrary: w)
  case (Cons a as)
  obtain w1 r where f: "f a w = (w1, r)" by fastforce
  obtain w2 rs where d: "dispatch_all f as w1 = (w2, rs)" by fastforce
  show ?case using assms [of a w] Cons [of w1] by (simp add: f d)
qed simp

lemma fan_out_adds:
  assumes "logs_calls deps calls"
  shows "adds calls (fan_out_partition deps i as) {[], map (Observer_sent i) as}"
  unfolding adds_def
proof
  fix w
  let ?f = "\<lambda>a w1. case sd_dispatchObserver (pd_sweep deps) i a w1 of (Inl e, w2) \<Rightarrow> (w2, Inl e) | (Inr _, w2) \<Rightarrow> (w2, Inr (a_worker a))"
  have "calls (snd (sd_dispatchObserver (pd_sweep deps) i a w)) = calls w @ [Observer_sent i a]" for a w
    using assms by (simp add: logs_calls_def Let_def)
  then have "calls (fst (?f a w)) = calls w @ [Observer_sent i a]" for a w
    by (cases "sd_dispatchObserver (pd_sweep deps) i a w"; cases "fst (sd_dispatchObserver (pd_sweep deps) i a w)")
       (simp_all, (metis snd_conv)+)
  from dispatch_all_calls [of calls ?f i as w, OF this]
  show "\<exists>new \<in> {[], map (Observer_sent i) as}. calls (snd (fan_out_partition deps i as w)) = calls w @ new"
    by (auto simp: fan_out_partition_def dispatchPartition_def Let_def split: prod.splits option.splits sum.splits)
qed

lemma sent_sweep_adds:
  assumes "logs_calls deps calls" and "\<And>fanOut j. cs_sweepId (g fanOut j) = i"
  shows "adds calls (and_then (fan_out_partition deps i as) (\<lambda>fanOut.
      and_then (case fanOut of Inl _ \<Rightarrow> attempt (sd_join (pd_sweep deps) i)
                | Inr _ \<Rightarrow> either (Inr \<lparr>jn_artifacts = [], jn_blocked = [], jn_claimedSuccess = []\<rparr>))
        (\<lambda>j. completeSweep deps (g fanOut j)))) (sends i)"
proof -
  have j: "stays (keeps_log calls) (sd_join (pd_sweep deps) i)" using assms(1) by (simp add: logs_calls_def Let_def)
  have "adds calls (and_then (case fanOut of Inl _ \<Rightarrow> attempt (sd_join (pd_sweep deps) i)
                | Inr _ \<Rightarrow> either (Inr \<lparr>jn_artifacts = [], jn_blocked = [], jn_claimedSuccess = []\<rparr>))
        (\<lambda>j. completeSweep deps (g fanOut j))) {[], [Collator_asked i]}" for fanOut
  proof (rule adds_after_quiet)
    show "adds calls (completeSweep deps (g fanOut a)) {[], [Collator_asked i]}" for a
      using completeSweep_adds [OF assms(1), of "g fanOut a"] unfolding assms(2) .
  qed (auto intro!: stays_intros j split: sum.splits)
  from adds_and_then [OF fan_out_adds [OF assms(1)] this] show ?thesis
    by (rule adds_mono) (force simp: sends_def)
qed

definition next_number :: "('p, 'x, 'w) pass_deps \<Rightarrow> int \<Rightarrow> int" where
  "next_number deps highest = max (cu_sweep_cursor (pd_cursor deps)) highest + 1"

lemma and_then_answer: "and_then (either (Inr a)) f = f a"
  by (simp add: fun_eq_iff and_then_def either_def)

lemma and_then_throw: "snd (and_then (either (Inl e)) f w) = w"
  by (simp add: and_then_def either_def)

lemma open_pass_adds:
  assumes "logs_calls deps calls"
  obtains "calls (snd (open_pass deps t runs highest ex w)) = calls w"
  | i c where "calls (snd (open_pass deps t runs highest ex w)) = calls w @ Sweep_dir i # c"
      "sweepTaskId (js_int (next_number deps highest)) = Inr i" "c \<in> sends i"
proof (cases "sweepTaskId (js_int (next_number deps highest))")
  case (Inl e)
  then have "calls (snd (open_pass deps t runs highest ex w)) = calls w"
    by (simp add: open_pass_def Let_def next_number_def resumedCursor_def and_then_throw)
  then show thesis by (rule that)
next
  case (Inr i)
  note number = this
  show thesis
  proof (cases "toISOString t")
    case None
    then have "calls (snd (open_pass deps t runs highest ex w)) = calls w" using number
      by (simp add: open_pass_def Let_def next_number_def resumedCursor_def and_then_throw and_then_answer)
    then show thesis by (rule that)
  next
    case (Some u)
    obtain r w1 where o: "sd_openSweep (pd_sweep deps) i (text_of u) w = (r, w1)" by fastforce
    have q: "store_within (keeps_log calls) (pd_records deps)" "io_within (keeps_log calls) (pd_io deps)"
      and p: "stays (keeps_log calls) (sd_readPartition (pd_sweep deps) i)"
      and l: "calls w1 = calls w @ [Sweep_dir i] \<or> calls w1 = calls w \<and> r \<noteq> Inr Sweep_opened"
      using assms o unfolding logs_calls_def Let_def by (blast, blast, blast, metis fst_conv snd_conv)
    show thesis
    proof (cases "r = Inr Sweep_opened")
      case True
      let ?rest = "and_then (attempt (sd_readPartition (pd_sweep deps) i)) (\<lambda>as.
         and_then (fan_out_partition deps i as) (\<lambda>fanOut.
         and_then (case fanOut of Inl _ \<Rightarrow> attempt (sd_join (pd_sweep deps) i)
                   | Inr _ \<Rightarrow> either (Inr \<lparr>jn_artifacts = [], jn_blocked = [], jn_claimedSuccess = []\<rparr>)) (\<lambda>join.
         completeSweep deps
           \<lparr>cs_at = t, cs_runs = runs, cs_sweepId = i, cs_dispatchedAt = text_of u,
            cs_sweepCursor = next_number deps highest, cs_assignments = (case fanOut of Inl _ \<Rightarrow> as | Inr _ \<Rightarrow> []), cs_join = join,
            cs_dispatched = (case fanOut of Inl workers \<Rightarrow> workers | Inr _ \<Rightarrow> []),
            cs_refusedPartition = (case fanOut of Inl _ \<Rightarrow> None | Inr f \<Rightarrow> Some f), cs_expired = ex\<rparr>)))"
      have "adds calls ?rest (sends i)"
        by (intro adds_after_quiet stays_intros sent_sweep_adds p assms) simp_all
      then obtain c where c: "c \<in> sends i" "calls (snd (?rest w1)) = calls w1 @ c" unfolding adds_def by blast
      have "open_pass deps t runs highest ex w = ?rest w1"
        using number Some o True
        by (simp add: open_pass_def Let_def next_number_def resumedCursor_def and_then_answer)
           (simp add: and_then_def attempt_def)
      then show thesis using c l True by (intro that(2) [of i c]) (simp_all add: number)
    next
      case False
      let ?quiet = "settle deps (quiet_settlement deps t runs Pass_budget_exhausted i None (next_number deps highest)
           (cu_consecutive_skips (pd_cursor deps)) i ex)"
      have "calls (snd (?quiet w1)) = calls w1" by (intro stays_log settle_within q) simp
      moreover have "snd (open_pass deps t runs highest ex w) = w1
          \<or> open_pass deps t runs highest ex w = ?quiet w1"
        using number Some o False
        by (cases r; cases "case r of Inr a \<Rightarrow> a | _ \<Rightarrow> Sweep_opened")
           (simp_all add: open_pass_def Let_def next_number_def resumedCursor_def and_then_answer,
            simp_all add: and_then_def attempt_def)
      ultimately have "calls (snd (open_pass deps t runs highest ex w)) = calls w1" by auto
      then show thesis using l that(1) that(2) [of i "[]"] number by auto
    qed
  qed
qed

lemma quiet_step:
  assumes "stays (keeps_log calls) m"
    and "\<And>a w1. m w = (Inr a, w1) \<Longrightarrow> calls w1 = calls w \<Longrightarrow> Q (snd (f a w1))"
    and "\<And>w1. calls w1 = calls w \<Longrightarrow> Q w1"
  shows "Q (snd (and_then m f w))"
proof -
  obtain r w1 where m: "m w = (r, w1)" by fastforce
  then have "calls w1 = calls w" using stays_log [OF assms(1), of w] by simp
  then show ?thesis using assms(2,3) m by (cases r) (simp_all add: and_then_def)
qed

lemma attempt_answer: "attempt m w = (Inr a, w1) \<Longrightarrow> m w = (Inr a, w1)"
  by (auto simp: attempt_def split: prod.splits sum.splits)

text \<open>What one pass adds to the log, by its three ways.\<close>

definition in_flight_now :: "('p, 'x, 'w) pass_deps \<Rightarrow> bool" where
  "in_flight_now deps \<longleftrightarrow>
    (\<exists>f. (\<forall>w. fst (sd_inFlight (pd_sweep deps) w) = Inr (Some f))
       \<and> (\<forall>w. expiredSweep (pd_parse deps) (Some f) (pd_config deps) (fst (io_now (pd_io deps) w)) = None))"

definition pass_calls ::
  "('p, 'x, 'w) pass_deps \<Rightarrow> ('w \<Rightarrow> sweep_call list) \<Rightarrow> 'w \<Rightarrow> 'w \<Rightarrow> bool" where
  "pass_calls deps calls w w' \<longleftrightarrow>
    calls w' = calls w
    \<or> \<not> in_flight_now deps \<and> (\<exists>i. calls w' = calls w @ [Collator_asked i])
    \<or> \<not> in_flight_now deps \<and> (\<exists>i c h w0. calls w' = calls w @ Sweep_dir i # c \<and> c \<in> sends i
        \<and> calls w0 = calls w \<and> fst (sd_highestSweepNumber (pd_sweep deps) w0) = Inr h
        \<and> sweepTaskId (js_int (next_number deps h)) = Inr i)"

lemma pass_calls_same: "calls w1 = calls w \<Longrightarrow> pass_calls deps calls w w1"
  by (simp add: pass_calls_def)

lemma triagePass_calls:
  assumes "logs_calls deps calls"
  shows "pass_calls deps calls w (snd (triagePass deps w))"
proof -
  let ?d = "pd_sweep deps" and ?Q = "pass_calls deps calls w"
  have q: "store_within (keeps_log calls) (pd_records deps)" "io_within (keeps_log calls) (pd_io deps)"
    and s: "stays (keeps_log calls) (sd_inFlight ?d)" "stays (keeps_log calls) (sd_resumableSweep ?d)"
      "stays (keeps_log calls) (sd_highestSweepNumber ?d)" "stays (keeps_log calls) (sd_runs ?d)"
      "\<And>i. stays (keeps_log calls) (sd_readPartition ?d i)" "\<And>i. stays (keeps_log calls) (sd_join ?d i)"
    using assms by (auto simp: logs_calls_def Let_def)
  have clock: "stays (keeps_log calls) (read_clock deps)"
    using q(2) by (auto simp: stays_def read_clock_def io_within_def split: prod.splits) (metis snd_conv)
  have carried: "stays (keeps_log calls) (carried_sweep deps)"
    unfolding carried_sweep_def by (auto intro!: stays_intros s split: option.splits)
  show ?thesis
    unfolding triagePass_def
  proof (rule quiet_step [where calls = calls], goal_cases)
    case 1
    show ?case by (intro stays_intros) simp
  next
    case (2 u w1)
    note 2 = this
    show ?case
    proof (rule quiet_step [OF clock], goal_cases)
      case (1 t w2)
      note clk = this
      show ?case
      proof (rule quiet_step [OF stays_attempt [OF s(4)]], goal_cases)
        case (1 runs w3)
        note runs = this
        show ?case
        proof (rule quiet_step [OF stays_attempt [OF s(1)]], goal_cases)
          case (1 fl w4)
          note fl = this
          show ?case
          proof (rule quiet_step [OF stays_attempt [OF s(3)]], goal_cases)
            case (1 h w5)
            note h = this
            have w5: "calls w5 = calls w" using 2 clk runs fl h by simp
            have w4: "calls w4 = calls w" "fst (sd_highestSweepNumber ?d w4) = Inr h"
              using 2 clk runs fl attempt_answer [OF h(1)] by simp_all
            let ?ex = "expiredSweep (pd_parse deps) fl (pd_config deps) t"
            show ?case
            proof (cases "fl \<noteq> None \<and> ?ex = None")
              case True
              then show ?thesis
                using stays_log [OF settle_within [OF keeps_log_preorder q]] w5 by (auto simp: Let_def pass_calls_same)
            next
              case False
              have idle: "\<not> in_flight_now deps"
                using False attempt_answer [OF fl(1)] clk(1) unfolding in_flight_now_def read_clock_def
                by (auto split: prod.splits) (metis fst_conv option.inject sum.inject(2) option.distinct(1))+
              have "?Q (snd (and_then (carried_sweep deps) (\<lambda>carried. case carried of
                  Some (r, j) \<Rightarrow> and_then (attempt (sd_readPartition ?d (re_sweepId r))) (\<lambda>as.
                    completeSweep deps (g r j as))
                | None \<Rightarrow> open_pass deps t runs h ?ex) w5))" for g
              proof (rule quiet_step [OF carried], goal_cases)
                case (1 c w6)
                then have w6: "calls w6 = calls w" using w5 by simp
                show ?case
                proof (cases c)
                  case None
                  show ?thesis
                    using idle w4 by (cases rule: open_pass_adds [OF assms, of t runs h ?ex w6])
                      (auto simp: None w6 pass_calls_def)
                next
                  case (Some p)
                  have "adds calls (and_then (attempt (sd_readPartition ?d (re_sweepId (fst p)))) (\<lambda>as.
                      completeSweep deps (g (fst p) (snd p) as))) {new. new = [] \<or> (\<exists>i. new = [Collator_asked i])}"
                    by (intro adds_after_quiet stays_intros s adds_mono [OF completeSweep_adds [OF assms]]) auto
                  then show ?thesis using idle w6
                    by (auto simp: Some case_prod_beta adds_def pass_calls_def dest!: spec [of _ w6])
                qed
              qed (simp add: w5 pass_calls_same)
              then show ?thesis using False by (cases fl; cases ?ex) (simp_all add: Let_def)
            qed
          qed (use 2 clk runs fl in \<open>simp add: pass_calls_same\<close>)
        qed (use 2 clk runs in \<open>simp add: pass_calls_same\<close>)
      qed (use 2 clk in \<open>simp add: pass_calls_same\<close>)
    qed (use 2 in \<open>simp add: pass_calls_same\<close>)
  qed (simp add: pass_calls_same)
qed

text \<open>
  A pass concerns one sweep. While a sweep that has not expired is in flight it asks for nothing;
  a sweep that was interrupted is collated and never sent out again; and a new one gets its
  directory before an observer is sent, with every call under its own id.
\<close>

theorem one_sweep_in_a_pass:
  assumes "logs_calls deps calls"
  shows "\<exists>new. calls (snd (triagePass deps w)) = calls w @ new
    \<and> (new = [] \<or> \<not> in_flight_now deps
        \<and> (\<exists>i. new = [Collator_asked i]
          \<or> (\<exists>as coll. new = Sweep_dir i # map (Observer_sent i) as @ coll \<and> (coll = [] \<or> coll = [Collator_asked i]))))"
  using triagePass_calls [OF assms, of w] by (auto simp: pass_calls_def sends_def)

fun dirs :: "sweep_call list \<Rightarrow> string list" where
  "dirs [] = []"
| "dirs (Sweep_dir i # cs) = i # dirs cs"
| "dirs (_ # cs) = dirs cs"

lemma dirs_append [simp]: "dirs (xs @ ys) = dirs xs @ dirs ys"
  by (induction xs rule: dirs.induct) auto

lemma dirs_sends: "c \<in> sends i \<Longrightarrow> dirs c = []"
proof -
  have "dirs (map (Observer_sent i) as) = []" for as by (induction as) auto
  then show "c \<in> sends i \<Longrightarrow> dirs c = []" by (auto simp: sends_def)
qed

text \<open>
  The number read from the run tree is at least that of every directory that was made in it.
\<close>

definition knows_dirs :: "('p, 'x, 'w) pass_deps \<Rightarrow> ('w \<Rightarrow> sweep_call list) \<Rightarrow> bool" where
  "knows_dirs deps calls \<longleftrightarrow>
    (\<forall>w h n i. fst (sd_highestSweepNumber (pd_sweep deps) w) = Inr h \<longrightarrow> i \<in> set (dirs (calls w))
      \<longrightarrow> sweepTaskId (js_int n) = Inr i \<longrightarrow> n \<le> h)"

fun run_passes :: "('p, 'x, 'w) pass_deps list \<Rightarrow> 'w \<Rightarrow> 'w" where
  "run_passes [] w = w"
| "run_passes (d # ds) w = run_passes ds (snd (triagePass d w))"

text \<open>
  The id of a sweep is never given twice, over any passes, answered or broken off, whatever
  their cursors say: the number of a new sweep is above the cursor and above the run tree.
\<close>

theorem sweep_ids_never_reused:
  assumes "\<forall>deps \<in> set passes. logs_calls deps calls \<and> knows_dirs deps calls" and "distinct (dirs (calls w))"
  shows "distinct (dirs (calls (run_passes passes w)))"
  using assms
proof (induction passes arbitrary: w)
  case (Cons d ds)
  have d: "logs_calls d calls" "knows_dirs d calls" using Cons.prems(1) by auto
  have "distinct (dirs (calls (snd (triagePass d w))))"
    using triagePass_calls [OF d(1), of w] unfolding pass_calls_def
  proof (elim disjE conjE exE)
    fix i c h w0
    assume a: "calls (snd (triagePass d w)) = calls w @ Sweep_dir i # c" "c \<in> sends i" "calls w0 = calls w"
      "fst (sd_highestSweepNumber (pd_sweep d) w0) = Inr h" "sweepTaskId (js_int (next_number d h)) = Inr i"
    have "i \<notin> set (dirs (calls w))"
    proof
      assume "i \<in> set (dirs (calls w))"
      then have "next_number d h \<le> h" using d(2) a(3-5) unfolding knows_dirs_def by metis
      then show False by (simp add: next_number_def)
    qed
    then show ?thesis using Cons.prems(2) a(1) dirs_sends [OF a(2)] by simp
  qed (use Cons.prems(2) in auto)
  then show ?case using Cons.IH Cons.prems(1) by simp
qed simp

section \<open>The records follow the machine\<close>

definition record_laws :: "('p, 'x, 'w) pass_deps \<Rightarrow> ('w \<Rightarrow> incident_subject \<Rightarrow> record_read) \<Rightarrow> bool" where
  "record_laws deps recs \<longleftrightarrow>
    (\<forall>s w. recs (snd (rs_load (pd_records deps) s w)) = recs w
      \<and> (\<forall>v. fst (rs_load (pd_records deps) s w) = Inr v \<longrightarrow> v = recs w s))
    \<and> (\<forall>r w. fst (rs_save (pd_records deps) r w) = Inr ()
      \<longrightarrow> recs (snd (rs_save (pd_records deps) r w)) = (recs w)(i_subject r := Inr r))
    \<and> io_within (\<lambda>w w'. recs w' = recs w) (pd_io deps)
    \<and> (\<forall>w s r. recs w s = Inr r \<longrightarrow> i_subject r = s \<and> SubjectSchema s)"

lemma loaded:
  assumes "record_laws deps recs" and "attempt (rs_load (pd_records deps) s) w = (Inr v, w')"
  shows "v = recs w s" and "recs w' = recs w"
  using assms(1) attempt_answer [OF assms(2)] unfolding record_laws_def by (metis fst_conv, metis snd_conv)

lemma saved:
  assumes "record_laws deps recs" and "attempt (rs_save (pd_records deps) r) w = (Inr u, w')"
  shows "recs w' = (recs w)(i_subject r := Inr r)"
  using assms(1) attempt_answer [OF assms(2)] unfolding record_laws_def by (cases u) (metis fst_conv snd_conv)

lemma recorded:
  assumes "record_laws deps recs" and "recs w s = Inr r"
  shows "i_subject r = s" and "SubjectSchema s"
  using assms unfolding record_laws_def by blast+

lemma and_then_Inr:
  assumes "and_then m f w = (Inr b, w')"
  obtains a w1 where "m w = (Inr a, w1)" "f a w1 = (Inr b, w')"
  using assms by (auto simp: and_then_def split: prod.splits sum.splits)

lemma either_Inr: "either r w = (Inr b, w') \<longleftrightarrow> r = Inr b \<and> w' = w"
  by (auto simp: either_def)

lemma sweep_subject:
  "i_subject (fst (incident_sweep p r obs)) = i_subject r"
  "n \<in> set (snd (incident_sweep p r obs)) \<Longrightarrow> nt_subject n = i_subject r"
  by (auto simp: advance_defs Let_def split: incident_signal.splits incident_state.splits if_splits option.splits)

lemma advance_sweep: "advanceIncident r obs p = Inr a \<Longrightarrow> incident_sweep p r obs = a"
  by (simp add: incident_sweep_def split: prod.splits)

text \<open>One observation: a record that cannot be read stays as it is, every other one takes its step.\<close>

lemma advance_one_step:
  assumes laws: "record_laws deps recs" and "advance_one (pd_records deps) p ob acc w = (Inr acc', w')"
  obtains (refused) c where "recs w (o_subject ob) = Inl c" "recs w' = recs w"
      "av_notifications acc' = av_notifications acc" "av_byKey acc' = av_byKey acc"
  | (stepped) r where "recs w (o_subject ob) = Inr r"
      "recs w' = (recs w)(o_subject ob := Inr (fst (incident_sweep p r ob)))"
      "av_notifications acc' = av_notifications acc @ snd (incident_sweep p r ob)"
      "av_byKey acc' = (av_byKey acc)(subjectKey (o_subject ob) \<mapsto> fst (incident_sweep p r ob))"
proof -
  obtain read w1 where l: "attempt (rs_load (pd_records deps) (o_subject ob)) w = (Inr read, w1)"
    and rest: "(case read of
        Inl code \<Rightarrow> either (Inr (acc\<lparr>av_refused := av_refused acc @ [(o_subject ob, code)]\<rparr>))
      | Inr r \<Rightarrow>
          case advanceIncident r ob p of Inl e \<Rightarrow> either (Inl (Record_of_other e))
          | Inr (r', new) \<Rightarrow>
              let noted = acc\<lparr>av_byKey := (av_byKey acc)(subjectKey (o_subject ob) \<mapsto> r'),
                              av_notifications := av_notifications acc @ new\<rparr> in
              if o_signal ob = Suppressed then either (Inr noted)
              else and_then (attempt (rs_save (pd_records deps) r')) (\<lambda>_.
                either (Inr (noted\<lparr>av_written := av_written acc @ [r']\<rparr>)))) w1 = (Inr acc', w')"
    using assms(2) unfolding advance_one_def by (rule and_then_Inr)
  note read = loaded [OF laws l]
  show thesis
  proof (cases read)
    case (Inl c)
    then show thesis using rest read by (intro refused [of c]) (auto simp: either_Inr)
  next
    case (Inr r)
    then have r: "recs w (o_subject ob) = Inr r" using read(1) by simp
    note sub = recorded(1) [OF laws r]
    obtain r' new where a: "advanceIncident r ob p = Inr (r', new)"
      using rest Inr by (auto simp: either_Inr split: sum.splits)
    have s: "incident_sweep p r ob = (r', new)" by (rule advance_sweep [OF a])
    have sub': "i_subject r' = o_subject ob" using sweep_subject(1) [of p r ob] s sub by simp
    show thesis
    proof (cases "o_signal ob = Suppressed")
      case True
      then have "r' = r" using a by (auto simp: advanceIncident_def Let_def split: if_splits)
      then show thesis using True rest Inr a s r read(2)
        by (intro stepped [OF r]) (auto simp: Let_def either_Inr fun_upd_idem)
    next
      case False
      obtain u w2 where sv: "attempt (rs_save (pd_records deps) r') w1 = (Inr u, w2)"
        and e: "acc' = acc\<lparr>av_byKey := (av_byKey acc)(subjectKey (o_subject ob) \<mapsto> r'),
            av_notifications := av_notifications acc @ new, av_written := av_written acc @ [r']\<rparr>" "w' = w2"
        using rest Inr a False by (auto simp: Let_def either_def elim!: and_then_Inr)
      show thesis using saved [OF laws sv] read(2) e s sub' by (intro stepped [OF r]) auto
    qed
  qed
qed

definition of_subject :: "incident_subject \<Rightarrow> notification list \<Rightarrow> notification list" where
  "of_subject s ns = [n \<leftarrow> ns. nt_subject n = s]"

text \<open>What a pass keeps by key is what the store holds of that subject.\<close>

definition book_ok :: "(incident_subject \<Rightarrow> record_read) \<Rightarrow> advances \<Rightarrow> bool" where
  "book_ok held acc \<longleftrightarrow>
    (\<forall>k r. av_byKey acc k = Some r \<longrightarrow> k = subjectKey (i_subject r) \<and> held (i_subject r) = Inr r)"

lemma book_ok_update:
  assumes "book_ok held acc" and "av_byKey acc' = (av_byKey acc)(subjectKey (i_subject r) \<mapsto> r)"
  shows "book_ok (held(i_subject r := Inr r)) acc'"
  unfolding book_ok_def
proof (intro allI impI)
  fix k q assume q: "av_byKey acc' k = Some q"
  show "k = subjectKey (i_subject q) \<and> (held(i_subject r := Inr r)) (i_subject q) = Inr q"
  proof (cases "k = subjectKey (i_subject r)")
    case True
    then show ?thesis using q assms(2) by simp
  next
    case False
    then have "k = subjectKey (i_subject q)" "held (i_subject q) = Inr q"
      using q assms unfolding book_ok_def by auto
    then show ?thesis using False by auto
  qed
qed

definition follows_machine ::
  "incident_policy \<Rightarrow> observation list \<Rightarrow> (incident_subject \<Rightarrow> record_read) \<Rightarrow> notification list
    \<Rightarrow> (incident_subject \<Rightarrow> record_read) \<Rightarrow> notification list \<Rightarrow> bool" where
  "follows_machine p obs held ns held' ns' \<longleftrightarrow>
    (\<forall>s. case held s of
       Inl c \<Rightarrow> held' s = Inl c \<and> of_subject s ns' = of_subject s ns
     | Inr r \<Rightarrow> held' s = Inr (fst (incident_run p r [ob \<leftarrow> obs. o_subject ob = s]))
         \<and> of_subject s ns' = of_subject s ns @ snd (incident_run p r [ob \<leftarrow> obs. o_subject ob = s]))"

declare incident_run_Nil [simp]

lemma follows_refl: "follows_machine p [] held ns held ns"
  by (simp add: follows_machine_def split: sum.split)

lemma of_subject_sweep:
  "i_subject r = t \<Longrightarrow> of_subject s (snd (incident_sweep p r ob)) = (if t = s then snd (incident_sweep p r ob) else [])"
  using sweep_subject(2) [of _ p r ob] by (auto simp: of_subject_def filter_id_conv filter_empty_conv)

lemma of_subject_append [simp]: "of_subject s (xs @ ys) = of_subject s xs @ of_subject s ys"
  by (simp add: of_subject_def)

lemma advance_one_follows:
  assumes "record_laws deps recs" and "advance_one (pd_records deps) p ob acc w = (Inr acc', w')" and "book_ok (recs w) acc"
  shows "book_ok (recs w') acc' \<and> follows_machine p [ob] (recs w) (av_notifications acc) (recs w') (av_notifications acc')"
  using assms(1,2)
proof (cases rule: advance_one_step)
  case (refused c)
  then show ?thesis using assms(3)
    by (auto simp: book_ok_def follows_machine_def split: sum.splits)
next
  case (stepped r)
  note sub = recorded(1) [OF assms(1) stepped(1)]
  have "book_ok (recs w') acc'"
    using book_ok_update [OF assms(3), of acc' "fst (incident_sweep p r ob)"] stepped(2,4)
    by (simp add: sub sweep_subject(1))
  moreover have "case recs w s of
       Inl c \<Rightarrow> recs w' s = Inl c \<and> of_subject s (av_notifications acc') = of_subject s (av_notifications acc)
     | Inr r \<Rightarrow> recs w' s = Inr (fst (incident_run p r [x \<leftarrow> [ob]. o_subject x = s]))
         \<and> of_subject s (av_notifications acc') = of_subject s (av_notifications acc) @ snd (incident_run p r [x \<leftarrow> [ob]. o_subject x = s])" for s
    using stepped(1) of_subject_sweep [OF sub, of s p ob]
    by (cases "s = o_subject ob") (auto simp: stepped(2,3) incident_run_Cons split: sum.splits)
  ultimately show ?thesis by (simp only: follows_machine_def) simp
qed

lemma follows_trans:
  assumes "follows_machine p [ob] held ns held1 ns1" and "follows_machine p obs held1 ns1 held2 ns2"
  shows "follows_machine p (ob # obs) held ns held2 ns2"
  unfolding follows_machine_def
proof
  fix s
  have a: "case held s of Inl c \<Rightarrow> held1 s = Inl c \<and> of_subject s ns1 = of_subject s ns
     | Inr r \<Rightarrow> held1 s = Inr (fst (incident_run p r [x \<leftarrow> [ob]. o_subject x = s]))
         \<and> of_subject s ns1 = of_subject s ns @ snd (incident_run p r [x \<leftarrow> [ob]. o_subject x = s])"
    and b: "case held1 s of Inl c \<Rightarrow> held2 s = Inl c \<and> of_subject s ns2 = of_subject s ns1
     | Inr r \<Rightarrow> held2 s = Inr (fst (incident_run p r [x \<leftarrow> obs. o_subject x = s]))
         \<and> of_subject s ns2 = of_subject s ns1 @ snd (incident_run p r [x \<leftarrow> obs. o_subject x = s])"
    using assms unfolding follows_machine_def by blast+
  show "case held s of Inl c \<Rightarrow> held2 s = Inl c \<and> of_subject s ns2 = of_subject s ns
     | Inr r \<Rightarrow> held2 s = Inr (fst (incident_run p r [x \<leftarrow> ob # obs. o_subject x = s]))
         \<and> of_subject s ns2 = of_subject s ns @ snd (incident_run p r [x \<leftarrow> ob # obs. o_subject x = s])"
    using a b by (cases "held s"; cases "o_subject ob = s") (simp_all add: incident_run_Cons)
qed

lemma advance_all_follows:
  assumes "record_laws deps recs"
  shows "advance_all (pd_records deps) p obs acc w = (Inr acc', w') \<Longrightarrow> book_ok (recs w) acc \<Longrightarrow>
    book_ok (recs w') acc' \<and> follows_machine p obs (recs w) (av_notifications acc) (recs w') (av_notifications acc')"
proof (induction obs arbitrary: acc w)
  case Nil
  then show ?case by (simp add: either_Inr follows_refl)
next
  case (Cons ob obs)
  obtain acc1 w1 where 1: "advance_one (pd_records deps) p ob acc w = (Inr acc1, w1)"
    and 2: "advance_all (pd_records deps) p obs acc1 w1 = (Inr acc', w')"
    using Cons.prems(1) by (auto elim!: and_then_Inr)
  note a = advance_one_follows [OF assms 1 Cons.prems(2)]
  from Cons.IH [OF 2 conjunct1 [OF a]] show ?case using follows_trans a by blast
qed

text \<open>Two records that differ in their backlog only.\<close>

definition but_backlog :: "incident \<Rightarrow> incident" where "but_backlog r = r\<lparr>i_undelivered := []\<rparr>"

lemma but_backlog_same [simp]: "but_backlog (withUndelivered r es) = but_backlog r" "i_subject (withUndelivered r es) = i_subject r"
  by (simp_all add: but_backlog_def withUndelivered_def Let_def)

definition same_records :: "(incident_subject \<Rightarrow> record_read) \<Rightarrow> (incident_subject \<Rightarrow> record_read) \<Rightarrow> bool" where
  "same_records held held' \<longleftrightarrow> (\<forall>s. map_sum id but_backlog (held' s) = map_sum id but_backlog (held s))"

lemma note_lost_keeps:
  assumes "record_laws deps recs"
  shows "note_lost (pd_records deps) ds acc w = (Inr acc', w') \<Longrightarrow> book_ok (recs w) acc \<Longrightarrow> same_records (recs w) (recs w')"
proof (induction ds arbitrary: acc w)
  case Nil
  then show ?case by (simp add: either_Inr same_records_def)
next
  case (Cons dk ds)
  obtain d key where dk: "dk = (d, key)" by fastforce
  consider (skip) "note_lost (pd_records deps) ds acc w = (Inr acc', w')"
    | (lost) a r where "dr_announcement d = Some a" "av_byKey acc key = Some r" "lost_delivery d"
    using Cons.prems(1) unfolding dk by (auto split: option.splits if_splits)
  then show ?case
  proof cases
    case skip
    then show ?thesis using Cons.IH Cons.prems(2) by blast
  next
    case lost
    let ?r = "withUndelivered r [text_of (an_title a)]"
    obtain u w1 where s: "attempt (rs_save (pd_records deps) ?r) w = (Inr u, w1)"
      and rest: "note_lost (pd_records deps) ds
        (acc\<lparr>av_written := av_written acc @ [?r], av_byKey := (av_byKey acc)(key \<mapsto> ?r)\<rparr>) w1 = (Inr acc', w')"
      using Cons.prems(1) lost unfolding dk by (auto simp: Let_def elim!: and_then_Inr)
    have k: "key = subjectKey (i_subject r)" "recs w (i_subject r) = Inr r"
      using Cons.prems(2) lost(2) by (auto simp: book_ok_def)
    have w1: "recs w1 = (recs w)(i_subject r := Inr ?r)" using saved [OF assms s] by simp
    have "book_ok (recs w1) (acc\<lparr>av_written := av_written acc @ [?r], av_byKey := (av_byKey acc)(key \<mapsto> ?r)\<rparr>)"
      unfolding w1 using book_ok_update [OF Cons.prems(2), of _ ?r] k(1) by simp
    from Cons.IH [OF rest this] have "same_records (recs w1) (recs w')" .
    moreover have "same_records (recs w) (recs w1)" using k by (simp add: same_records_def w1)
    ultimately show ?thesis by (simp add: same_records_def)
  qed
qed

lemma report_keeps:
  assumes "record_laws deps recs" and "report_pass facts deps w = (Inr report, w')"
  shows "recs w' = recs w"
proof -
  let ?R = "\<lambda>w w'. recs w' = recs w"
  have "stays ?R (report_pass facts deps)"
    using assms(1) by (intro report_within) (auto simp: preorder_on_worlds_def record_laws_def intro: reflpI transpI)
  then show ?thesis using assms(2) unfolding stays_def by (metis snd_conv)
qed

text \<open>
  The end of a pass takes each record through the machine. Where the record of a subject could be
  read, it ends where the machine ends on the observations of the pass about that subject, in
  order, but for its backlog, and what the pass announces of the subject is what the machine said;
  a reader who replays that over the old state has the new one. A record that could not be read
  stays, and nothing is announced of it.
\<close>

theorem settle_follows_machine:
  assumes "record_laws deps recs" and "settle deps s w = (Inr out, w')"
  shows "case recs w subject of
      Inl c \<Rightarrow> recs w' subject = Inl c \<and> of_subject subject (oc_notifications out) = []
    | Inr r \<Rightarrow> \<exists>r' new r''.
        incident_run (incident_policy.truncate (pd_config deps)) r [ob \<leftarrow> pass_observations deps s. o_subject ob = subject] = (r', new)
        \<and> recs w' subject = Inr r'' \<and> but_backlog r'' = but_backlog r' \<and> of_subject subject (oc_notifications out) = new
        \<and> replay announce (announced_state (i_state r)) new = Some (announced_state (i_state r''))"
proof -
  let ?p = "incident_policy.truncate (pd_config deps)" and ?obs = "pass_observations deps s"
  let ?acc = "\<lparr>av_notifications = [], av_written = [], av_refused = [], av_byKey = (\<lambda>_. None)\<rparr>"
  obtain acc w1 where a: "advance_all (pd_records deps) ?p ?obs ?acc w = (Inr acc, w1)"
    and rest: "(let pairs = map (announcement_pair (pd_environment deps) s) (av_notifications acc) in
      and_then (report_pass (map snd pairs) deps) (\<lambda>report.
      and_then (note_lost (pd_records deps) (zip (sr_deliveries report) (map fst (order_pairs pairs))) acc) (\<lambda>final.
      either (Inr
        \<lparr>oc_kind = st_kind s,
         oc_cursor = \<lparr>cu_runs = st_runs s, cu_sweep_cursor = st_sweepCursor s,
           cu_consecutive_skips = st_consecutiveSkips s\<rparr>,
         oc_delivery = sr_state report, oc_memo = st_memo s, oc_sweepId = st_sweepId s, oc_waitingOn = st_waitingOn s,
         oc_assessment = st_assessment s, oc_saturation = st_saturation s, oc_partition = st_partition s,
         oc_dispatched = st_dispatched s, oc_notifications = av_notifications acc, oc_report = report,
         oc_written = av_written final, oc_refused = av_refused acc, oc_expired = st_expired s\<rparr>)))) w1 = (Inr out, w')"
    using assms(2) unfolding settle_def by (rule and_then_Inr)
  obtain report w2 where r: "report_pass (map snd (map (announcement_pair (pd_environment deps) s) (av_notifications acc))) deps w1
      = (Inr report, w2)"
    and rest: "and_then (note_lost (pd_records deps) (zip (sr_deliveries report)
        (map fst (order_pairs (map (announcement_pair (pd_environment deps) s) (av_notifications acc))))) acc) (\<lambda>final.
      either (Inr
        \<lparr>oc_kind = st_kind s,
         oc_cursor = \<lparr>cu_runs = st_runs s, cu_sweep_cursor = st_sweepCursor s,
           cu_consecutive_skips = st_consecutiveSkips s\<rparr>,
         oc_delivery = sr_state report, oc_memo = st_memo s, oc_sweepId = st_sweepId s, oc_waitingOn = st_waitingOn s,
         oc_assessment = st_assessment s, oc_saturation = st_saturation s, oc_partition = st_partition s,
         oc_dispatched = st_dispatched s, oc_notifications = av_notifications acc, oc_report = report,
         oc_written = av_written final, oc_refused = av_refused acc, oc_expired = st_expired s\<rparr>)) w2 = (Inr out, w')"
    using rest unfolding Let_def by (rule and_then_Inr)
  obtain final where n: "note_lost (pd_records deps) (zip (sr_deliveries report)
        (map fst (order_pairs (map (announcement_pair (pd_environment deps) s) (av_notifications acc))))) acc w2 = (Inr final, w')"
    and ns: "oc_notifications out = av_notifications acc"
    using rest by (elim and_then_Inr) (auto simp: either_Inr)
  have "book_ok (recs w) ?acc" by (simp add: book_ok_def)
  from advance_all_follows [OF assms(1) a this] have b: "book_ok (recs w1) acc"
    and f: "follows_machine ?p ?obs (recs w) [] (recs w1) (av_notifications acc)" by simp_all
  have w2: "recs w2 = recs w1" by (rule report_keeps [OF assms(1) r])
  from note_lost_keeps [OF assms(1) n] b w2 have same: "same_records (recs w1) (recs w')" by simp
  have f': "case recs w subject of
       Inl c \<Rightarrow> recs w1 subject = Inl c \<and> of_subject subject (av_notifications acc) = of_subject subject []
     | Inr r \<Rightarrow> recs w1 subject = Inr (fst (incident_run ?p r [ob \<leftarrow> ?obs. o_subject ob = subject]))
         \<and> of_subject subject (av_notifications acc) = of_subject subject [] @ snd (incident_run ?p r [ob \<leftarrow> ?obs. o_subject ob = subject])"
    using f unfolding follows_machine_def by blast
  have same': "map_sum id but_backlog (recs w' subject) = map_sum id but_backlog (recs w1 subject)"
    using same by (simp add: same_records_def)
  show ?thesis
  proof (cases "recs w subject")
    case (Inl c)
    then have "recs w' subject = Inl c" using f' same' by (cases "recs w' subject") auto
    then show ?thesis using Inl f' ns by (simp add: of_subject_def)
  next
    case (Inr r)
    obtain r' new where run: "incident_run ?p r [ob \<leftarrow> ?obs. o_subject ob = subject] = (r', new)" by (metis surj_pair)
    then have w1: "recs w1 subject = Inr r'" and new: "of_subject subject (oc_notifications out) = new"
      using f' Inr ns by (simp_all add: of_subject_def)
    obtain r'' where r'': "recs w' subject = Inr r''" "but_backlog r'' = but_backlog r'"
      using same' w1 by (cases "recs w' subject") auto
    have "i_state r'' = i_state r'" using r''(2) by (metis but_backlog_def incident.select_convs(2) incident.simps incident.ext_inject incident.surjective incident.update_convs)
    moreover have "replay announce (announced_state (i_state r)) new = Some (announced_state (i_state r'))"
      using incidents.run_read [of r ?p "[ob \<leftarrow> ?obs. o_subject ob = subject]"] run by (simp add: incident_run_def)
    ultimately show ?thesis using Inr run r'' new by simp
  qed
qed

section \<open>What a recovery rests on\<close>

definition answers :: "('a \<Rightarrow> bool) \<Rightarrow> ('a, 'e, 'w) act \<Rightarrow> bool" where
  "answers P m \<longleftrightarrow> (\<forall>w a w'. m w = (Inr a, w') \<longrightarrow> P a)"

lemma answers_and_then: "(\<And>a. answers P (f a)) \<Longrightarrow> answers P (and_then m f)"
  unfolding answers_def by (blast elim: and_then_Inr)

lemma answers_after:
  assumes "\<And>w a w'. m w = (Inr a, w') \<Longrightarrow> answers P (f a)"
  shows "answers P (and_then m f)"
  using assms unfolding answers_def by (blast elim: and_then_Inr)

definition recoveries :: "(notification \<Rightarrow> string \<Rightarrow> string \<Rightarrow> bool) \<Rightarrow> 'p pass_outcome \<Rightarrow> bool" where
  "recoveries P out \<longleftrightarrow>
    (\<forall>n e s. n \<in> set (oc_notifications out) \<longrightarrow> nt_kind n = Recovered \<longrightarrow> nt_subject n = Incident.Service e s \<longrightarrow> P n e s)"

lemma health_subject: "ob \<in> set (consoleHealthObservations i t f) \<Longrightarrow> o_subject ob \<noteq> Incident.Service e s"
  by (auto simp: consoleHealthObservations_def console_signals_def environment_signals_def skip_signals_def
      endpoint_signals_def Let_def split: if_splits option.splits console_facts.splits)

definition cleared_by :: "observation list \<Rightarrow> notification \<Rightarrow> string \<Rightarrow> string \<Rightarrow> bool" where
  "cleared_by obs n e s \<longleftrightarrow>
    (\<exists>ob \<in> set obs. \<exists>ref. o_subject ob = Incident.Service e s \<and> o_signal ob = Observed_clear ref
      \<and> nt_evidenceRef n = Some ref \<and> nt_sweepId n = o_sweepId ob)"

lemma settle_recoveries:
  assumes "record_laws deps recs"
  shows "answers (recoveries (cleared_by (st_serviceObservations s))) (settle deps s)"
  unfolding answers_def recoveries_def
proof (intro allI impI)
  fix w out w' n e svc
  assume run: "settle deps s w = (Inr out, w')" and n: "n \<in> set (oc_notifications out)" "nt_kind n = Recovered"
    and sub: "nt_subject n = Incident.Service e svc"
  let ?s = "Incident.Service e svc" and ?p = "incident_policy.truncate (pd_config deps)"
  have mem: "n \<in> set (of_subject ?s (oc_notifications out))" using n sub by (simp add: of_subject_def)
  note f = settle_follows_machine [OF assms run, of ?s]
  obtain r where r: "recs w ?s = Inr r" using f mem by (cases "recs w ?s") auto
  then have "n \<in> set (snd (incident_run ?p r [ob \<leftarrow> pass_observations deps s. o_subject ob = ?s]))" using f mem by auto
  from recovery_needs_evidence [OF this n(2)] obtain ob ref where ob: "ob \<in> set (pass_observations deps s)" "o_subject ob = ?s"
    "o_signal ob = Observed_clear ref" "nt_evidenceRef n = Some ref" "nt_sweepId n = o_sweepId ob" by auto
  then have "ob \<in> set (st_serviceObservations s)" using health_subject by (auto simp: pass_observations_def)
  then show "cleared_by (st_serviceObservations s) n e svc" using ob unfolding cleared_by_def by blast
qed

definition rests_on_row :: "('p, 'x, 'w) pass_deps \<Rightarrow> notification \<Rightarrow> string \<Rightarrow> string \<Rightarrow> bool" where
  "rests_on_row deps n e s \<longleftrightarrow>
    (\<exists>cov doc row. sc_declared cov = pd_declared deps \<and> (e, s) \<in> set (declared_services cov)
      \<and> shown_healthy (pd_parse deps) (nt_sweepId n) cov doc e s row \<and> nt_evidenceRef n = firstEvidenceRef row)"

lemma answers_mono: "answers P m \<Longrightarrow> (\<And>a. P a \<Longrightarrow> Q a) \<Longrightarrow> answers Q m"
  by (simp add: answers_def)

lemma sweepObservations_stale: "sweepObservations (a\<lparr>as_stale_replay := x\<rparr>) = sweepObservations a"
  by (simp add: fun_eq_iff sweepObservations_def)

lemma settle_rests_on_row:
  assumes "record_laws deps recs" and "assess_completed deps s coll = Inr assessed"
    and "st_serviceObservations st = sweepObservations assessed hushed t ref"
  shows "answers (recoveries (rests_on_row deps)) (settle deps st)"
proof -
  obtain a doc where a: "assessTriageSweep (pd_parse deps) (cs_sweepId s) (completed_coverage deps s) doc = Some a"
    and as: "assessed = a\<lparr>as_stale_replay := as_stale_replay a @ cl_staleCollators coll\<rparr>"
    using assms(2) by (auto simp: assess_completed_def split: option.splits)
  have "rests_on_row deps n e svc" if c: "cleared_by (st_serviceObservations st) n e svc" for n e svc
  proof -
    obtain ob x where ob: "ob \<in> set (sweepObservations a hushed t ref)" "o_subject ob = Incident.Service e svc"
      "o_signal ob = Observed_clear x" "nt_evidenceRef n = Some x" "nt_sweepId n = o_sweepId ob"
      using c unfolding cleared_by_def assms(3) as sweepObservations_stale by blast
    from clear_rests_on_evidence [OF a ob(1,3)] ob(2,4,5) show ?thesis
      unfolding rests_on_row_def by (intro exI [of _ "completed_coverage deps s"] exI [of _ doc]) (auto simp: completed_coverage_def)
  qed
  then show ?thesis
    by (intro answers_mono [OF settle_recoveries [OF assms(1)]]) (simp add: recoveries_def)
qed

lemma completeSweep_recoveries:
  assumes "record_laws deps recs"
  shows "answers (recoveries (rests_on_row deps)) (completeSweep deps s)"
  unfolding completeSweep_def case_prod_beta
  by (rule answers_and_then, rule answers_after, rule answers_and_then, rule settle_rests_on_row [OF assms])
    (auto simp: either_Inr)

lemma quiet_recoveries:
  assumes "record_laws deps recs"
  shows "answers (recoveries (rests_on_row deps)) (settle deps (quiet_settlement deps t runs k i wo c sk ev ex))"
  by (rule answers_mono [OF settle_recoveries [OF assms]]) (simp add: recoveries_def cleared_by_def quiet_settlement_def)

text \<open>
  A recovery of a service that a pass announces rests on a row: a document of the sweep the
  announcement names shows the service healthy, under the observer it was assigned to, and the
  announcement cites the first evidence of that row. A pass that skipped, was refused its budget or
  read nothing announces none.
\<close>

theorem recovery_rests_on_row:
  assumes "record_laws deps recs" and "triagePass deps w = (Inr out, w')" and "n \<in> set (oc_notifications out)"
    and "nt_kind n = Recovered" and "nt_subject n = Incident.Service e s"
  shows "rests_on_row deps n e s"
proof -
  have "answers (recoveries (rests_on_row deps)) (open_pass deps t runs h ex)" for t runs h ex
    unfolding open_pass_def Let_def
    by (intro answers_and_then)
      (auto split: sweep_open.split intro!: answers_and_then quiet_recoveries [OF assms(1)] completeSweep_recoveries [OF assms(1)])
  then have "answers (recoveries (rests_on_row deps)) (triagePass deps)"
    unfolding triagePass_def Let_def
    by (auto split: option.split prod.split intro!: answers_and_then quiet_recoveries [OF assms(1)] completeSweep_recoveries [OF assms(1)])
  then show ?thesis using assms(2-5) unfolding answers_def recoveries_def by blast
qed

end
