(* ===== verification/Fresh_Dispatch.thy ===== *)
theory Fresh_Dispatch
  imports Wire "HOL-Library.Sublist"
begin

text \<open>
  Recreating a worker before it is given a task (\<open>src/run/fresh-dispatch.ts\<close>), with the reading of
  \<open>status --all --json\<close> it rests on (\<open>src/run/status-runs.ts\<close>). \<open>JSON.parse\<close> is a parameter and the side
  effects are a record of operations on a world, each of which may throw. The lemmas show what a
  recreate does and in which order: nothing is stopped before a status that shows the worker at
  rest, and a task goes only to a living run that was not there before.
\<close>

section \<open>The status document\<close>

datatype activity_problem = Unreadable_status | No_runs_array

definition runs_of :: "(string \<Rightarrow> json option) \<Rightarrow> string \<Rightarrow> activity_problem + json list" where
  "runs_of parse text =
    (case parse text of
       None \<Rightarrow> Inl Unreadable_status
     | Some doc \<Rightarrow> (case as_array (jprop doc ''runs'') of None \<Rightarrow> Inl No_runs_array | Some runs \<Rightarrow> Inr runs))"

definition run_name :: "json \<Rightarrow> string option" where
  "run_name run = (case as_string (jprop run ''run_id'') of None \<Rightarrow> None | Some i \<Rightarrow> if i = '''' then None else Some i)"

record worker_activity =
  wa_runId :: string
  wa_phase :: string
  wa_taskId :: "string option"
  wa_stagedTaskId :: "string option"
  wa_alive :: bool

definition activity_of :: "string \<Rightarrow> json \<Rightarrow> worker_activity" where
  "activity_of runId w =
    \<lparr>wa_runId = runId,
     wa_phase = (case as_string (jprop w ''phase'') of None \<Rightarrow> ''unknown'' | Some p \<Rightarrow> p),
     wa_taskId = as_string (jprop w ''task_id''),
     wa_stagedTaskId = as_string (jprop w ''staged_task_id''),
     wa_alive = (jprop w ''alive'' = Some (JBool True))\<rparr>"

definition run_activity :: "string \<Rightarrow> json \<Rightarrow> worker_activity list" where
  "run_activity worker run =
    (case run_name run of
       None \<Rightarrow> []
     | Some i \<Rightarrow> map (activity_of i) [w \<leftarrow> items (jprop run ''workers''). jprop w ''id'' = Some (JStr worker)])"

definition workerActivity ::
  "(string \<Rightarrow> json option) \<Rightarrow> string \<Rightarrow> string \<Rightarrow> activity_problem + worker_activity list" where
  "workerActivity parse statusJson worker =
    map_sum id (\<lambda>runs. concat (map (run_activity worker) runs)) (runs_of parse statusJson)"

definition settledEnough :: "worker_activity \<Rightarrow> bool" where
  "settledEnough a \<longleftrightarrow>
    (if wa_taskId a \<noteq> None then False else if wa_stagedTaskId a \<noteq> None then False else wa_phase a = ''idle'')"

text \<open>The runs that hold one of the workers, each once; an unreadable status names none.\<close>

definition holds_any :: "string set \<Rightarrow> json \<Rightarrow> bool" where
  "holds_any workers run \<longleftrightarrow>
    list_ex (\<lambda>w. case as_string (jprop w ''id'') of None \<Rightarrow> False | Some i \<Rightarrow> i \<in> workers) (items (jprop run ''workers''))"

fun holding_runs :: "string set \<Rightarrow> json list \<Rightarrow> string list \<Rightarrow> string list" where
  "holding_runs workers [] out = out"
| "holding_runs workers (run # runs) out =
    (case run_name run of
       None \<Rightarrow> holding_runs workers runs out
     | Some i \<Rightarrow>
         if i \<in> set out then holding_runs workers runs out
         else holding_runs workers runs (if holds_any workers run then out @ [i] else out))"

definition runsHoldingAny :: "(string \<Rightarrow> json option) \<Rightarrow> string \<Rightarrow> string set \<Rightarrow> string list" where
  "runsHoldingAny parse statusJson workers =
    (if workers = {} then []
     else (case runs_of parse statusJson of Inl e \<Rightarrow> [] | Inr runs \<Rightarrow> holding_runs workers runs []))"

section \<open>The pins of a console\<close>

record console_run_pins =
  rp_pins :: "(string \<times> string) list"
  rp_missing :: "string list"
  rp_ambiguous :: "(string \<times> string list) list"

definition pin_entry :: "string \<Rightarrow> json \<Rightarrow> (string \<rightharpoonup> string list) \<Rightarrow> (string \<rightharpoonup> string list)" where
  "pin_entry runId w holders =
    (case as_string (jprop w ''id'') of
       None \<Rightarrow> holders
     | Some i \<Rightarrow>
         (case holders i of
            None \<Rightarrow> holders
          | Some held \<Rightarrow>
              if jprop w ''alive'' \<noteq> Some (JBool True) then holders
              else if runId \<in> set held then holders
              else holders(i \<mapsto> held @ [runId])))"

definition pin_run :: "json \<Rightarrow> (string \<rightharpoonup> string list) \<Rightarrow> (string \<rightharpoonup> string list)" where
  "pin_run run holders =
    (case run_name run of None \<Rightarrow> holders | Some i \<Rightarrow> fold (pin_entry i) (items (jprop run ''workers'')) holders)"

definition consoleRunPins :: "(string \<Rightarrow> json option) \<Rightarrow> string \<Rightarrow> string list \<Rightarrow> console_run_pins" where
  "consoleRunPins parse statusJson workers =
    (let runs = (case runs_of parse statusJson of Inl e \<Rightarrow> [] | Inr runs \<Rightarrow> runs);
         holders = fold pin_run runs (\<lambda>w. if w \<in> set workers then Some [] else None);
         held = (\<lambda>w. case holders w of None \<Rightarrow> [] | Some h \<Rightarrow> h) in
     \<lparr>rp_pins = js_map [(w, hd (held w)). w \<leftarrow> workers, length (held w) = 1],
      rp_missing = [w \<leftarrow> workers. held w = []],
      rp_ambiguous = js_map [(w, held w). w \<leftarrow> workers, length (held w) > 1]\<rparr>)"

definition relayRunPinValue :: "console_run_pins \<Rightarrow> string list \<Rightarrow> string option" where
  "relayRunPinValue m workers =
    (if length (rp_pins m) \<noteq> length workers then None
     else Some (join_with '','' (map (\<lambda>w. w @ ''='' @ (case map_of (rp_pins m) w of None \<Rightarrow> ''undefined'' | Some r \<Rightarrow> r)) workers)))"

section \<open>Recreate, then dispatch\<close>

type_synonym ('x, 'a, 'w) dep = "'w \<Rightarrow> ('x + 'a) \<times> 'w"

datatype dispatch_problem = No_output | Stdout_no_json string | Stdout_no_object string | Not_accepted "json option" string

definition dispatchProblem :: "(string \<Rightarrow> json option) \<Rightarrow> string \<Rightarrow> dispatch_problem option" where
  "dispatchProblem parse stdout =
    (let text = trim_string stdout in
     if text = '''' then Some No_output
     else case parse text of
       None \<Rightarrow> Some (Stdout_no_json (take 200 text))
     | Some v \<Rightarrow>
         if \<not> is_object v then Some (Stdout_no_object (take 200 text))
         else if jprop v ''accepted'' \<noteq> Some (JBool True) then Some (Not_accepted (jprop v ''accepted'') (take 200 text))
         else None)"

record ('x, 'w) fresh_dispatch_deps =
  fd_status :: "('x, string, 'w) dep"
  fd_quiesce :: "('x, unit, 'w) dep option"
  fd_down :: "string \<Rightarrow> ('x, unit, 'w) dep"
  fd_restartPane :: "('x, unit, 'w) dep"
  fd_dispatch :: "string \<Rightarrow> ('x, string, 'w) dep"
  fd_sleep :: "rat \<Rightarrow> ('x, unit, 'w) dep"
  fd_now :: "'w \<Rightarrow> rat \<times> 'w"

record fresh_dispatch_options =
  fo_worker :: string
  fo_settleTimeoutMs :: "rat option"
  fo_readyTimeoutMs :: "rat option"
  fo_pollMs :: "rat option"

record fresh_dispatch_result =
  fr_settleWaitMs :: rat
  fr_stopped :: "string list"
  fr_runId :: string
  fr_dispatched :: string

datatype 'x fresh_fault =
    Dep_threw 'x
  | No_activity activity_problem
  | Still_busy string "worker_activity list"
  | Not_back string rat
  | Not_landed string string dispatch_problem

definition DEFAULT_SETTLE_MS :: rat where "DEFAULT_SETTLE_MS = 20 * 60000"
definition DEFAULT_READY_MS :: rat where "DEFAULT_READY_MS = 3 * 60000"
definition DEFAULT_POLL_MS :: rat where "DEFAULT_POLL_MS = 3000"

definition given :: "'a \<Rightarrow> 'a option \<Rightarrow> 'a" where
  "given d x = (case x of None \<Rightarrow> d | Some v \<Rightarrow> v)"

definition busy_in :: "worker_activity list \<Rightarrow> worker_activity list" where
  "busy_in acts = [a \<leftarrow> acts. \<not> settledEnough a]"

text \<open>The wait until the worker holds nothing; it ends with the status that shows it.\<close>

partial_function (option) settle_wait ::
  "(string \<Rightarrow> json option) \<Rightarrow> ('x, 'w) fresh_dispatch_deps \<Rightarrow> string \<Rightarrow> rat \<Rightarrow> rat \<Rightarrow> rat \<Rightarrow> 'w
    \<Rightarrow> (('x fresh_fault + string) \<times> 'w) option" where
  "settle_wait parse deps worker timeout poll started w =
    (case fd_status deps w of (seen, w1) \<Rightarrow>
      (case seen of
         Inl e \<Rightarrow> Some (Inl (Dep_threw e), w1)
       | Inr text \<Rightarrow>
           (case workerActivity parse text worker of
              Inl p \<Rightarrow> Some (Inl (No_activity p), w1)
            | Inr acts \<Rightarrow>
                if busy_in acts = [] then Some (Inr text, w1)
                else (case fd_now deps w1 of (t, w2) \<Rightarrow>
                  if t - started \<ge> timeout then Some (Inl (Still_busy worker (busy_in acts)), w2)
                  else (case fd_sleep deps poll w2 of (slept, w3) \<Rightarrow>
                    (case slept of
                       Inl e \<Rightarrow> Some (Inl (Dep_threw e), w3)
                     | Inr u \<Rightarrow> settle_wait parse deps worker timeout poll started w3))))))"

definition quiet_relay :: "('x, unit, 'w) dep option \<Rightarrow> ('x, unit, 'w) dep" where
  "quiet_relay q w = (case q of None \<Rightarrow> (Inr (), w) | Some f \<Rightarrow> f w)"

fun down_all :: "(string \<Rightarrow> ('x, unit, 'w) dep) \<Rightarrow> string list \<Rightarrow> ('x, unit, 'w) dep" where
  "down_all down [] w = (Inr (), w)"
| "down_all down (r # rs) w =
    (case down r w of (Inl e, w1) \<Rightarrow> (Inl e, w1) | (Inr u, w1) \<Rightarrow> down_all down rs w1)"

definition fresh_in :: "string list \<Rightarrow> worker_activity list \<Rightarrow> worker_activity option" where
  "fresh_in previous seen = find (\<lambda>a. wa_runId a \<notin> set previous \<and> wa_alive a) seen"

text \<open>The wait for a living run that was not there before; a status that cannot be read shows none.\<close>

definition seen_in :: "(string \<Rightarrow> json option) \<Rightarrow> string \<Rightarrow> 'x + string \<Rightarrow> worker_activity list" where
  "seen_in parse worker status =
    (case status of
       Inl e \<Rightarrow> []
     | Inr text \<Rightarrow> (case workerActivity parse text worker of Inl p \<Rightarrow> [] | Inr acts \<Rightarrow> acts))"

partial_function (option) fresh_wait ::
  "(string \<Rightarrow> json option) \<Rightarrow> ('x, 'w) fresh_dispatch_deps \<Rightarrow> string \<Rightarrow> string list \<Rightarrow> rat \<Rightarrow> rat \<Rightarrow> rat \<Rightarrow> 'w
    \<Rightarrow> (('x fresh_fault + string) \<times> 'w) option" where
  "fresh_wait parse deps worker previous readyTimeout poll readyBy w =
    (case fd_sleep deps poll w of (slept, w1) \<Rightarrow>
      (case slept of
         Inl e \<Rightarrow> Some (Inl (Dep_threw e), w1)
       | Inr u \<Rightarrow>
           (case fd_status deps w1 of (status, w2) \<Rightarrow>
             (case fresh_in previous (seen_in parse worker status) of
                Some a \<Rightarrow> Some (Inr (wa_runId a), w2)
              | None \<Rightarrow>
                  (case fd_now deps w2 of (t, w3) \<Rightarrow>
                     if t \<ge> readyBy then Some (Inl (Not_back worker readyTimeout), w3)
                     else fresh_wait parse deps worker previous readyTimeout poll readyBy w3)))))"

text \<open>Quiesce the relay, stop the runs, respawn the pane.\<close>

definition teardown ::
  "('x, unit, 'w) dep option \<Rightarrow> (string \<Rightarrow> ('x, unit, 'w) dep) \<Rightarrow> ('x, 'p, 'w) dep \<Rightarrow> string list \<Rightarrow> ('x, 'p, 'w) dep" where
  "teardown quiesce down restart runs w =
    (case quiet_relay quiesce w of
       (Inl e, w1) \<Rightarrow> (Inl e, w1)
     | (Inr u, w1) \<Rightarrow>
         (case down_all down runs w1 of (Inl e, w2) \<Rightarrow> (Inl e, w2) | (Inr u, w2) \<Rightarrow> restart w2))"

definition dispatch_into ::
  "(string \<Rightarrow> json option) \<Rightarrow> ('x, 'w) fresh_dispatch_deps \<Rightarrow> string \<Rightarrow> rat \<Rightarrow> string list \<Rightarrow> string \<Rightarrow> 'w
    \<Rightarrow> ('x fresh_fault + fresh_dispatch_result) \<times> 'w" where
  "dispatch_into parse deps worker settleWaitMs previous run w =
    (case fd_dispatch deps run w of
       (Inl e, w1) \<Rightarrow> (Inl (Dep_threw e), w1)
     | (Inr dispatched, w1) \<Rightarrow>
         (case dispatchProblem parse dispatched of
            Some p \<Rightarrow> (Inl (Not_landed worker run p), w1)
          | None \<Rightarrow> (Inr \<lparr>fr_settleWaitMs = settleWaitMs, fr_stopped = previous, fr_runId = run, fr_dispatched = dispatched\<rparr>, w1)))"

definition recreateThenDispatch ::
  "(string \<Rightarrow> json option) \<Rightarrow> ('x, 'w) fresh_dispatch_deps \<Rightarrow> fresh_dispatch_options \<Rightarrow> 'w
    \<Rightarrow> (('x fresh_fault + fresh_dispatch_result) \<times> 'w) option" where
  "recreateThenDispatch parse deps opts w =
    (let settleTimeout = given DEFAULT_SETTLE_MS (fo_settleTimeoutMs opts);
         readyTimeout = given DEFAULT_READY_MS (fo_readyTimeoutMs opts);
         poll = given DEFAULT_POLL_MS (fo_pollMs opts);
         worker = fo_worker opts;
         (started, w0) = fd_now deps w in
     case settle_wait parse deps worker settleTimeout poll started w0 of
       None \<Rightarrow> None
     | Some (Inl e, w1) \<Rightarrow> Some (Inl e, w1)
     | Some (Inr statusJson, w1) \<Rightarrow>
         let (settled, w2) = fd_now deps w1;
             previous = runsHoldingAny parse statusJson {worker} in
         case teardown (fd_quiesce deps) (fd_down deps) (fd_restartPane deps) previous w2 of
           (Inl e, w3) \<Rightarrow> Some (Inl (Dep_threw e), w3)
         | (Inr u, w3) \<Rightarrow>
             let (t, w4) = fd_now deps w3 in
             case fresh_wait parse deps worker previous readyTimeout poll (t + readyTimeout) w4 of
               None \<Rightarrow> None
             | Some (Inl e, w5) \<Rightarrow> Some (Inl e, w5)
             | Some (Inr run, w5) \<Rightarrow> Some (dispatch_into parse deps worker (settled - started) previous run w5))"

section \<open>The bare restart\<close>

record ('x, 'p, 'w) console_restart_deps =
  cr_plan :: "('x, unit, 'w) dep"
  cr_status :: "('x, string, 'w) dep"
  cr_quiesce :: "('x, unit, 'w) dep option"
  cr_down :: "string \<Rightarrow> ('x, unit, 'w) dep"
  cr_restartPane :: "('x, 'p, 'w) dep"

definition resolveThenRestart ::
  "(string \<Rightarrow> json option) \<Rightarrow> ('x, 'p, 'w) console_restart_deps \<Rightarrow> string \<Rightarrow> ('x, string list \<times> 'p, 'w) dep" where
  "resolveThenRestart parse deps worker w =
    (case cr_plan deps w of
       (Inl e, w1) \<Rightarrow> (Inl e, w1)
     | (Inr u, w1) \<Rightarrow>
         (case quiet_relay (cr_quiesce deps) w1 of
            (Inl e, w2) \<Rightarrow> (Inl e, w2)
          | (Inr u, w2) \<Rightarrow>
              (case cr_status deps w2 of
                 (Inl e, w3) \<Rightarrow> (Inl e, w3)
               | (Inr statusJson, w3) \<Rightarrow>
                   let stopped = runsHoldingAny parse statusJson {worker} in
                   case down_all (cr_down deps) stopped w3 of
                     (Inl e, w4) \<Rightarrow> (Inl e, w4)
                   | (Inr u, w4) \<Rightarrow>
                       (case cr_restartPane deps w4 of (Inl e, w5) \<Rightarrow> (Inl e, w5) | (Inr pane, w5) \<Rightarrow> (Inr (stopped, pane), w5)))))"

section \<open>Which runs are named\<close>

lemma run_name_nonempty: "run_name run = Some i \<Longrightarrow> i \<noteq> ''''"
  by (auto simp: run_name_def split: option.splits if_splits)

lemma holding_runs_exact:
  "distinct out \<Longrightarrow> distinct (holding_runs ws runs out) \<and>
    set (holding_runs ws runs out) = set out \<union> {i. \<exists>run \<in> set runs. run_name run = Some i \<and> holds_any ws run}"
proof (induction ws runs out rule: holding_runs.induct)
  case (2 ws run runs out)
  show ?case
  proof (cases "run_name run")
    case None
    then show ?thesis using 2 by auto
  next
    case (Some i)
    show ?thesis
    proof (cases "i \<in> set out")
      case True
      then show ?thesis using 2(2) [OF Some True 2(4)] Some by auto
    next
      case False
      then show ?thesis using 2(3) [OF Some False] 2(4) Some by auto
    qed
  qed
qed simp

lemma holds_worker: "holds_any {worker} run \<longleftrightarrow> (\<exists>w \<in> set (items (jprop run ''workers'')). jprop w ''id'' = Some (JStr worker))"
proof -
  have "(case as_string v of None \<Rightarrow> False | Some i \<Rightarrow> i \<in> {worker}) \<longleftrightarrow> v = Some (JStr worker)" for v
    by (cases v rule: as_string.cases) auto
  then show ?thesis by (simp add: holds_any_def list_ex_iff)
qed

text \<open>The runs a recreate stops are those whose activity of the worker it waited for.\<close>

lemma stopped_runs_exact:
  assumes "workerActivity parse text worker = Inr acts"
  shows "distinct (runsHoldingAny parse text {worker})"
    and "set (runsHoldingAny parse text {worker}) = wa_runId ` set acts"
proof -
  obtain runs where r: "runs_of parse text = Inr runs" and acts: "acts = concat (map (run_activity worker) runs)"
    using assms by (cases "runs_of parse text") (auto simp: workerActivity_def)
  have h: "runsHoldingAny parse text {worker} = holding_runs {worker} runs []" by (simp add: runsHoldingAny_def r)
  show "distinct (runsHoldingAny parse text {worker})" using holding_runs_exact [of "[]"] by (simp add: h)
  have "wa_runId ` set (run_activity worker run) = {i. run_name run = Some i \<and> holds_any {worker} run}" for run
    unfolding holds_worker
    by (cases "run_name run") (auto simp: run_activity_def activity_of_def image_image)
  then show "set (runsHoldingAny parse text {worker}) = wa_runId ` set acts"
    using holding_runs_exact [of "[]" "{worker}" runs] unfolding h acts by (simp add: image_UN) blast
qed

text \<open>A worker is held by the runs that list it as alive.\<close>

definition held_live :: "json list \<Rightarrow> string \<Rightarrow> string set" where
  "held_live runs worker =
    {i. \<exists>run \<in> set runs. run_name run = Some i \<and>
      (\<exists>w \<in> set (items (jprop run ''workers'')). jprop w ''id'' = Some (JStr worker) \<and> jprop w ''alive'' = Some (JBool True))}"

definition holders_ok :: "string set \<Rightarrow> (string \<Rightarrow> string set) \<Rightarrow> (string \<rightharpoonup> string list) \<Rightarrow> bool" where
  "holders_ok ws held m \<longleftrightarrow>
    (\<forall>w. m w = None \<longleftrightarrow> w \<notin> ws) \<and> (\<forall>w hs. m w = Some hs \<longrightarrow> distinct hs \<and> set hs = held w)"

lemma holders_eq: "holders_ok ws held m \<Longrightarrow> (\<And>x. held x = held' x) \<Longrightarrow> holders_ok ws held' m"
  by (simp add: holders_ok_def)

lemma pin_entry_ok:
  assumes "holders_ok ws held m"
  shows "holders_ok ws (\<lambda>x. held x \<union> (if jprop e ''id'' = Some (JStr x) \<and> jprop e ''alive'' = Some (JBool True) then {i} else {}))
    (pin_entry i e m)"
proof (cases "as_string (jprop e ''id'')")
  case None
  then have "jprop e ''id'' \<noteq> Some (JStr x)" for x by auto
  then show ?thesis using assms None by (simp add: pin_entry_def)
next
  case (Some x)
  then have e: "jprop e ''id'' = Some (JStr y) \<longleftrightarrow> y = x" for y by auto
  show ?thesis
  proof (cases "m x")
    case None
    then have "pin_entry i e m = m" using Some by (simp add: pin_entry_def)
    moreover have "m w = Some hs \<Longrightarrow> w \<noteq> x" for w hs using None by auto
    ultimately show ?thesis using assms by (simp add: holders_ok_def e)
  next
    fix hs assume "m x = Some hs"
    then have "pin_entry i e m = (if jprop e ''alive'' = Some (JBool True) \<and> i \<notin> set hs then m(x \<mapsto> hs @ [i]) else m)"
      using Some by (simp add: pin_entry_def)
    moreover have "x \<in> ws" using assms \<open>m x = Some hs\<close> unfolding holders_ok_def by (metis option.distinct(1))
    ultimately show ?thesis using assms \<open>m x = Some hs\<close> unfolding holders_ok_def e by (auto split: if_splits)
  qed
qed

lemma pin_entries_ok:
  "holders_ok ws held m \<Longrightarrow>
    holders_ok ws (\<lambda>x. held x \<union> {k. k = i \<and> (\<exists>e \<in> set es. jprop e ''id'' = Some (JStr x) \<and> jprop e ''alive'' = Some (JBool True))})
      (fold (pin_entry i) es m)"
proof (induction es arbitrary: held m)
  case (Cons e es)
  from Cons.IH [OF pin_entry_ok [OF Cons.prems, of e i]] show ?case
    unfolding fold.simps comp_apply by (rule holders_eq) auto
qed simp

lemma pin_runs_ok:
  "holders_ok ws held m \<Longrightarrow> holders_ok ws (\<lambda>x. held x \<union> held_live runs x) (fold pin_run runs m)"
proof (induction runs arbitrary: held m)
  case (Cons run runs)
  have "holders_ok ws (\<lambda>x. held x \<union> held_live [run] x) (pin_run run m)"
  proof (cases "run_name run")
    case None
    then show ?thesis using Cons.prems by (simp add: pin_run_def held_live_def)
  next
    case (Some i)
    from pin_entries_ok [OF Cons.prems, of i "items (jprop run ''workers'')"] show ?thesis
      unfolding pin_run_def Some option.case by (rule holders_eq) (auto simp: held_live_def Some)
  qed
  from Cons.IH [OF this] show ?case
    unfolding fold.simps comp_apply by (rule holders_eq) (auto simp: held_live_def)
qed (simp add: held_live_def)

lemma js_map_card: "length (js_map ps) = card (fst ` set ps)"
  using distinct_card [OF js_map_distinct [of ps]] js_map_keys [of ps] by simp

lemma keys_of_pins: "fst ` set [(w, g w). w \<leftarrow> ws, P w] = {w \<in> set ws. P w}"
  by (induction ws) auto

text \<open>
  A console's pins are spelled out exactly when no worker is named twice and each of them is alive in
  exactly one run, and then they name that run.
\<close>

theorem relay_pins_complete:
  assumes "runs_of parse text = Inr runs"
  shows "relayRunPinValue (consoleRunPins parse text workers) workers =
    (if distinct workers \<and> (\<forall>w \<in> set workers. \<exists>r. held_live runs w = {r})
     then Some (join_with '','' (map (\<lambda>w. w @ ''='' @ the_elem (held_live runs w)) workers)) else None)"
proof -
  let ?m0 = "\<lambda>w. if w \<in> set workers then Some [] else None"
  let ?m = "fold pin_run runs ?m0"
  have "holders_ok (set workers) (\<lambda>x. {} \<union> held_live runs x) ?m"
    by (rule pin_runs_ok) (simp add: holders_ok_def)
  then have ok: "\<exists>hs. ?m w = Some hs \<and> distinct hs \<and> set hs = held_live runs w" if "w \<in> set workers" for w
    using that unfolding holders_ok_def by (cases "?m w") auto
  define h where "h = (\<lambda>w. case ?m w of None \<Rightarrow> [] | Some hs \<Rightarrow> hs)"
  have h: "distinct (h w)" "set (h w) = held_live runs w" if w: "w \<in> set workers" for w
  proof -
    obtain hs where hs: "?m w = Some hs" "distinct hs" "set hs = held_live runs w" using ok [OF w] by blast
    have "h w = hs" unfolding h_def using hs(1) by simp
    with hs(2,3) show "distinct (h w)" "set (h w) = held_live runs w" by simp_all
  qed
  have one: "length (h w) = 1 \<longleftrightarrow> (\<exists>r. held_live runs w = {r})" if "w \<in> set workers" for w
    using h [OF that] by (metis card_1_singleton_iff distinct_card One_nat_def)
  let ?ps = "[(w, hd (h w)). w \<leftarrow> workers, length (h w) = 1]"
  have pins: "rp_pins (consoleRunPins parse text workers) = js_map ?ps"
    unfolding consoleRunPins_def Let_def assms sum.case h_def by simp
  have keys: "fst ` set ?ps = {w \<in> set workers. length (h w) = 1}"
    by (rule keys_of_pins)
  have len: "length (js_map ?ps) = card {w \<in> set workers. length (h w) = 1}"
    by (simp only: js_map_card keys)
  have full: "length (js_map ?ps) = length workers \<longleftrightarrow> distinct workers \<and> (\<forall>w \<in> set workers. length (h w) = 1)"
  proof
    assume a: "length (js_map ?ps) = length workers"
    have "card {w \<in> set workers. length (h w) = 1} \<le> card (set workers)" by (intro card_mono) auto
    moreover have "card (set workers) \<le> length workers" by (rule card_length)
    ultimately have "card (set workers) = length workers" "card {w \<in> set workers. length (h w) = 1} = card (set workers)"
      using a len by linarith+
    then show "distinct workers \<and> (\<forall>w \<in> set workers. length (h w) = 1)"
      using card_subset_eq [of "set workers" "{w \<in> set workers. length (h w) = 1}"] by (auto intro: card_distinct)
  next
    assume a: "distinct workers \<and> (\<forall>w \<in> set workers. length (h w) = 1)"
    then have "{w \<in> set workers. length (h w) = 1} = set workers" by auto
    then show "length (js_map ?ps) = length workers" using a len by (simp add: distinct_card)
  qed
  show ?thesis
  proof (cases "distinct workers \<and> (\<forall>w \<in> set workers. length (h w) = 1)")
    case True
    have ps: "?ps = map (\<lambda>w. (w, hd (h w))) workers" using True by (induction workers) auto
    have "map_of (js_map ?ps) w = Some (hd (h w))" if "w \<in> set workers" for w
      using that True by (simp only: js_map_lookup ps rev_map) (simp add: map_of_map_restrict restrict_map_def)
    moreover have "the_elem (held_live runs w) = hd (h w)" if "w \<in> set workers" for w
    proof -
      have "length (h w) = Suc 0" using True that by simp
      then obtain r where "h w = [r]" by (auto simp: length_Suc_conv)
      with h(2) [OF that, symmetric] show ?thesis by simp
    qed
    ultimately show ?thesis using True full one
      by (simp add: relayRunPinValue_def pins cong: map_cong)
  next
    case False
    then show ?thesis using full one by (auto simp: relayRunPinValue_def pins)
  qed
qed

section \<open>What a recreate does, in order\<close>

text \<open>The operations with a log beside the world: every one that is made, with what a status answered.\<close>

datatype 'x fresh_event = Planned | Looked "'x + string" | Quiesced | Stopped string | Respawned | Sent string

definition logging :: "('x + 'a \<Rightarrow> 'e) \<Rightarrow> ('x, 'a, 'w) dep \<Rightarrow> ('x, 'a, 'w \<times> 'e list) dep" where
  "logging event f w = (let (r, v) = f (fst w) in (r, (v, snd w @ [event r])))"

definition observed :: "('x, 'w) fresh_dispatch_deps \<Rightarrow> ('x, 'w \<times> 'x fresh_event list) fresh_dispatch_deps" where
  "observed deps =
    \<lparr>fd_status = logging Looked (fd_status deps),
     fd_quiesce = map_option (logging (\<lambda>r. Quiesced)) (fd_quiesce deps),
     fd_down = (\<lambda>run. logging (\<lambda>r. Stopped run) (fd_down deps run)),
     fd_restartPane = logging (\<lambda>r. Respawned) (fd_restartPane deps),
     fd_dispatch = (\<lambda>run. logging (\<lambda>r. Sent run) (fd_dispatch deps run)),
     fd_sleep = (\<lambda>ms w. let (r, v) = fd_sleep deps ms (fst w) in (r, (v, snd w))),
     fd_now = (\<lambda>w. let (t, v) = fd_now deps (fst w) in (t, (v, snd w)))\<rparr>"

definition at_rest :: "(string \<Rightarrow> json option) \<Rightarrow> string \<Rightarrow> string \<Rightarrow> bool" where
  "at_rest parse worker text \<longleftrightarrow>
    (\<exists>acts. workerActivity parse text worker = Inr acts \<and> (\<forall>a \<in> set acts. wa_taskId a = None \<and> wa_stagedTaskId a = None \<and> wa_phase a = ''idle''))"

lemma busy_none: "busy_in acts = [] \<longleftrightarrow> (\<forall>a \<in> set acts. wa_taskId a = None \<and> wa_stagedTaskId a = None \<and> wa_phase a = ''idle'')"
  by (auto simp: busy_in_def filter_empty_conv settledEnough_def)

definition looked_at :: "('x + string) list \<Rightarrow> 'w \<times> 'x fresh_event list \<Rightarrow> 'w \<times> 'x fresh_event list \<Rightarrow> bool" where
  "looked_at looks w w' \<longleftrightarrow> snd w' = snd w @ map Looked looks"

lemma looked_more: "looked_at [r] w v \<Longrightarrow> looked_at looks v w' \<Longrightarrow> looked_at (r # looks) w w'"
  by (simp add: looked_at_def)

lemma observed_steps:
  "fd_status (observed deps) w = (r, w') \<Longrightarrow> looked_at [r] w w'"
  "fd_sleep (observed deps) ms w = (u, w') \<Longrightarrow> snd w' = snd w"
  "fd_now (observed deps) w = (t, w') \<Longrightarrow> snd w' = snd w"
  by (auto simp: observed_def logging_def looked_at_def split: prod.splits)

lemma settle_wait_looks:
  assumes run: "settle_wait parse (observed deps) worker timeout poll started w = Some (r, w')"
  shows "\<exists>looks. looked_at looks w w'
    \<and> (\<forall>text. r = Inr text \<longrightarrow> (\<exists>before. looks = before @ [Inr text]) \<and> at_rest parse worker text)"
proof -
  define P where "P parse' deps' worker' (timeout' :: rat) (poll' :: rat) (started' :: rat) w y \<longleftrightarrow>
      (deps' = observed deps \<longrightarrow> (\<exists>looks. looked_at looks w (snd y)
        \<and> (\<forall>text. fst y = Inr text \<longrightarrow> (\<exists>before. looks = before @ [Inr text]) \<and> at_rest parse' worker' text)))"
    for parse' :: "string \<Rightarrow> json option" and deps' worker' timeout' poll' started' w
      and y :: "('a fresh_fault + string) \<times> 'b \<times> 'a fresh_event list"
  have "P parse (observed deps) worker timeout poll started w (r, w')"
  proof (rule settle_wait.raw_induct [where P = P, OF _ run], goal_cases)
    case (1 rec parse' deps' worker' timeout' poll' started' w y)
    show ?case
      unfolding P_def
    proof
      assume deps': "deps' = observed deps"
      obtain seen w1 where s: "fd_status (observed deps) w = (seen, w1)" by (metis surj_pair)
      note look = observed_steps(1) [OF s]
      consider (stop) e where "y = (Inl e, w1)"
        | (rest) s where "seen = Inr s" "y = (Inr s, w1)" "at_rest parse' worker' s"
        | (slow) e t w2 where "fd_now (observed deps) w1 = (t, w2)" "y = (Inl e, w2)"
        | (slept) e t w2 w3 where "fd_now (observed deps) w1 = (t, w2)" "fd_sleep (observed deps) poll' w2 = (Inl e, w3)"
            "y = (Inl (Dep_threw e), w3)"
        | (again) t w2 u w3 where "fd_now (observed deps) w1 = (t, w2)" "fd_sleep (observed deps) poll' w2 = (u, w3)"
            "rec parse' (observed deps) worker' timeout' poll' started' w3 = Some y"
        using 1(2) s unfolding deps'
        by (auto simp: at_rest_def busy_none [symmetric] split: sum.splits if_splits prod.splits)
      then show "\<exists>looks. looked_at looks w (snd y)
        \<and> (\<forall>text. fst y = Inr text \<longrightarrow> (\<exists>before. looks = before @ [Inr text]) \<and> at_rest parse' worker' text)"
      proof cases
        case stop
        then show ?thesis using look by auto
      next
        case rest
        then show ?thesis using look by (intro exI [of _ "[seen]"]) auto
      next
        case slow
        then show ?thesis using look observed_steps(3) [OF slow(1)] by (intro exI [of _ "[seen]"]) (auto simp: looked_at_def)
      next
        case slept
        then show ?thesis using look observed_steps(2) [OF slept(2)] observed_steps(3) [OF slept(1)]
          by (intro exI [of _ "[seen]"]) (auto simp: looked_at_def)
      next
        case again
        have "P parse' (observed deps) worker' timeout' poll' started' w3 y" using 1(1) again(3) .
        then obtain looks where l: "looked_at looks w3 (snd y)"
          "\<forall>text. fst y = Inr text \<longrightarrow> (\<exists>before. looks = before @ [Inr text]) \<and> at_rest parse' worker' text"
          unfolding P_def by blast
        have "looked_at looks w1 (snd y)"
          using l(1) observed_steps(2) [OF again(2)] observed_steps(3) [OF again(1)] by (simp add: looked_at_def)
        from looked_more [OF look this] show ?thesis using l(2)
          by (intro exI [of _ "seen # looks"]) (auto intro: exI [of _ "seen # _"])
      qed
    qed
  qed
  then show ?thesis by (simp add: P_def)
qed

lemma fresh_wait_looks:
  assumes run: "fresh_wait parse (observed deps) worker previous readyTimeout poll readyBy w = Some (r, w')"
  shows "\<exists>polls. looked_at polls w w'
    \<and> (\<forall>i. r = Inr i \<longrightarrow> (\<exists>before text acts a. polls = before @ [Inr text] \<and> workerActivity parse text worker = Inr acts
        \<and> a \<in> set acts \<and> wa_alive a \<and> wa_runId a = i \<and> i \<notin> set previous))
    \<and> (\<forall>k b. r \<noteq> Inl (Still_busy k b))"
proof -
  define Q where "Q parse' worker' previous' (r :: 'a fresh_fault + string) (polls :: ('a + string) list) \<longleftrightarrow>
      (\<forall>i. r = Inr i \<longrightarrow> (\<exists>before text acts a. polls = before @ [Inr text] \<and> workerActivity parse' text worker' = Inr acts
        \<and> a \<in> set acts \<and> wa_alive a \<and> wa_runId a = i \<and> i \<notin> set previous'))
      \<and> (\<forall>k b. r \<noteq> Inl (Still_busy k b))"
    for parse' :: "string \<Rightarrow> json option" and worker' previous' r polls
  have longer: "Q parse' worker' previous' r polls \<Longrightarrow> Q parse' worker' previous' r (s # polls)" for parse' worker' previous' r polls s
    unfolding Q_def by (metis append_Cons)
  define P where "P parse' deps' worker' previous' (readyTimeout' :: rat) (poll' :: rat) (readyBy' :: rat) w y \<longleftrightarrow>
      (deps' = observed deps \<longrightarrow> (\<exists>polls. looked_at polls w (snd y) \<and> Q parse' worker' previous' (fst y) polls))"
    for parse' deps' worker' previous' readyTimeout' poll' readyBy' w
      and y :: "('a fresh_fault + string) \<times> 'b \<times> 'a fresh_event list"
  have "P parse (observed deps) worker previous readyTimeout poll readyBy w (r, w')"
  proof (rule fresh_wait.raw_induct [where P = P, OF _ run], goal_cases)
    case (1 rec parse' deps' worker' previous' readyTimeout' poll' readyBy' w y)
    show ?case
      unfolding P_def
    proof
      assume deps': "deps' = observed deps"
      obtain slept w1 where z: "fd_sleep (observed deps) poll' w = (slept, w1)" by (metis surj_pair)
      obtain status w2 where s: "fd_status (observed deps) w1 = (status, w2)" by (metis surj_pair)
      obtain t w3 where n: "fd_now (observed deps) w2 = (t, w3)" by (metis surj_pair)
      have look: "looked_at [status] w w2" "looked_at [status] w w3" "looked_at [] w w1"
        using observed_steps(1) [OF s] observed_steps(2) [OF z] observed_steps(3) [OF n] by (simp_all add: looked_at_def)
      show "\<exists>polls. looked_at polls w (snd y) \<and> Q parse' worker' previous' (fst y) polls"
      proof (cases slept)
        case (Inl e)
        then have "y = (Inl (Dep_threw e), w1)" using 1(2) z by (simp add: deps')
        then show ?thesis using look(3) by (intro exI [of _ "[]"]) (simp add: Q_def)
      next
        case (Inr u)
        note step = 1(2) [unfolded deps' z prod.case Inr sum.case s n]
        show ?thesis
        proof (cases "fresh_in previous' (seen_in parse' worker' status)")
          case None
          show ?thesis
          proof (cases "t \<ge> readyBy'")
            case True
            then have "y = (Inl (Not_back worker' readyTimeout'), w3)" using step None by simp
            then show ?thesis using look(2) by (intro exI [of _ "[status]"]) (simp add: Q_def)
          next
            case False
            then have "rec parse' (observed deps) worker' previous' readyTimeout' poll' readyBy' w3 = Some y"
              using step None by simp
            from 1(1) [OF this] obtain polls where "looked_at polls w3 (snd y)" "Q parse' worker' previous' (fst y) polls"
              unfolding P_def by blast
            then show ?thesis using looked_more [OF look(2)] longer by blast
          qed
        next
          case (Some a)
          then have y: "y = (Inr (wa_runId a), w2)" using step by simp
          obtain s acts where "status = Inr s" "workerActivity parse' s worker' = Inr acts" "seen_in parse' worker' status = acts"
            using Some by (auto simp: fresh_in_def seen_in_def split: sum.splits)
          moreover have "a \<in> set (seen_in parse' worker' status)" "wa_runId a \<notin> set previous'" "wa_alive a"
            using Some by (auto simp: fresh_in_def find_Some_iff)
          ultimately show ?thesis using look(1) y by (intro exI [of _ "[status]"]) (simp add: Q_def, blast)
        qed
      qed
    qed
  qed
  then show ?thesis by (simp add: P_def Q_def)
qed

lemma down_all_observed:
  "down_all (\<lambda>run. logging (\<lambda>r. Stopped run) (down run)) runs w = (r, w') \<Longrightarrow>
    \<exists>made. prefix made runs \<and> snd w' = snd w @ map Stopped made \<and> (\<forall>u. r = Inr u \<longrightarrow> made = runs)"
proof (induction runs arbitrary: w)
  case (Cons run runs)
  obtain x v where d: "down run (fst w) = (x, v)" by (metis surj_pair)
  show ?case
  proof (cases x)
    case (Inl e)
    then show ?thesis using Cons.prems d by (intro exI [of _ "[run]"]) (auto simp: logging_def)
  next
    case (Inr u)
    then have "down_all (\<lambda>run. logging (\<lambda>r. Stopped run) (down run)) runs (v, snd w @ [Stopped run]) = (r, w')"
      using Cons.prems d by (simp add: logging_def [of _ _ w])
    from Cons.IH [OF this] obtain made where "prefix made runs" "snd w' = snd w @ Stopped run # map Stopped made"
      "\<forall>u. r = Inr u \<longrightarrow> made = runs" by auto
    then show ?thesis by (intro exI [of _ "run # made"]) auto
  qed
qed simp

definition planned :: "bool \<Rightarrow> string list \<Rightarrow> 'x fresh_event list" where
  "planned quiesces runs = (if quiesces then [Quiesced] else []) @ map Stopped runs @ [Respawned]"

lemma quiet_observed:
  assumes "quiet_relay (map_option (logging (\<lambda>r. Quiesced)) q) w = (r, w')"
  shows "snd w' = snd w @ (if q = None then [] else [Quiesced])"
  using assms by (cases q) (auto simp: quiet_relay_def logging_def split: prod.splits)

lemma teardown_observed:
  assumes "teardown (fd_quiesce (observed deps)) (fd_down (observed deps)) (fd_restartPane (observed deps)) runs w = (r, w')"
  shows "\<exists>made. snd w' = snd w @ made \<and> prefix made (planned (fd_quiesce deps \<noteq> None) runs)
    \<and> (\<forall>u. r = Inr u \<longrightarrow> made = planned (fd_quiesce deps \<noteq> None) runs)"
proof -
  let ?q = "if fd_quiesce deps = None then [] else [Quiesced]"
  obtain x w1 where q: "quiet_relay (map_option (logging (\<lambda>r. Quiesced)) (fd_quiesce deps)) w = (x, w1)" by (metis surj_pair)
  note q' = quiet_observed [OF q]
  have run: "(case x of Inl e \<Rightarrow> (Inl e, w1) | Inr u \<Rightarrow>
      (case down_all (\<lambda>run. logging (\<lambda>r. Stopped run) (fd_down deps run)) runs w1 of
         (Inl e, w2) \<Rightarrow> (Inl e, w2) | (Inr u, w2) \<Rightarrow> logging (\<lambda>r. Respawned) (fd_restartPane deps) w2)) = (r, w')"
    using assms unfolding teardown_def observed_def fresh_dispatch_deps.simps q by simp
  show ?thesis
  proof (cases x)
    case (Inl e)
    then show ?thesis using run q' by (intro exI [of _ ?q]) (auto simp: planned_def)
  next
    case (Inr u)
    obtain y w2 where d: "down_all (\<lambda>run. logging (\<lambda>r. Stopped run) (fd_down deps run)) runs w1 = (y, w2)" by (metis surj_pair)
    from down_all_observed [OF d] obtain made where m: "prefix made runs" "snd w2 = snd w1 @ map Stopped made"
      "\<forall>u. y = Inr u \<longrightarrow> made = runs" by blast
    show ?thesis
    proof (cases y)
      case (Inl e)
      have "prefix (?q @ map Stopped made) (planned (fd_quiesce deps \<noteq> None) runs)"
        using m(1) by (auto simp: planned_def prefix_def)
      then show ?thesis using run Inl \<open>x = Inr u\<close> d m(2) q' by (intro exI [of _ "?q @ map Stopped made"]) auto
    next
      case (Inr v)
      then have "snd w' = snd w @ planned (fd_quiesce deps \<noteq> None) runs"
        using run \<open>x = Inr u\<close> d m(2,3) q' by (auto simp: logging_def planned_def split: prod.splits)
      then show ?thesis by blast
    qed
  qed
qed

text \<open>
  However a recreate ends, its operations come in one order. First statuses are read. If nothing
  else is done it ends with an error. Otherwise the last of them showed the worker at rest in every
  run, and then the relay is quiesced, exactly the runs of the worker are stopped, each once, and
  the pane is respawned, up to the first of these that throws. After all of it statuses are read
  again, and a task is sent at most once, last, and only into a run that the status just read shows
  alive and that is not one of those stopped. The recreate succeeds only when the answer to that says
  it was accepted, and a worker that is still busy has had nothing of this done to it.
\<close>

theorem recreate_in_order:
  assumes "recreateThenDispatch parse (observed deps) opts (w, []) = Some (res, (w', evs))"
  shows "(\<exists>looks e. evs = map Looked looks \<and> res = Inl e)
    \<or> (\<exists>looks seen made. evs = map Looked (looks @ [Inr seen]) @ made \<and> at_rest parse (fo_worker opts) seen
        \<and> (\<forall>k b. res \<noteq> Inl (Still_busy k b))
        \<and> (let runs = runsHoldingAny parse seen {fo_worker opts}; plan = planned (fd_quiesce deps \<noteq> None) runs in
            (prefix made plan \<and> (\<exists>e. res = Inl e))
            \<or> (\<exists>polls e. made = plan @ map Looked polls \<and> res = Inl e)
            \<or> (\<exists>polls now acts a. made = plan @ map Looked (polls @ [Inr now]) @ [Sent (wa_runId a)]
                \<and> workerActivity parse now (fo_worker opts) = Inr acts \<and> a \<in> set acts \<and> wa_alive a \<and> wa_runId a \<notin> set runs
                \<and> (\<forall>r. res = Inr r \<longrightarrow> fr_runId r = wa_runId a \<and> fr_stopped r = runs
                    \<and> dispatchProblem parse (fr_dispatched r) = None))))"
proof -
  let ?d = "observed deps" and ?k = "fo_worker opts"
  let ?st = "given DEFAULT_SETTLE_MS (fo_settleTimeoutMs opts)" and ?rt = "given DEFAULT_READY_MS (fo_readyTimeoutMs opts)"
  let ?poll = "given DEFAULT_POLL_MS (fo_pollMs opts)"
  obtain started w0 where n0: "fd_now ?d (w, []) = (started, w0)" by (metis surj_pair)
  obtain x w1 where s: "settle_wait parse ?d ?k ?st ?poll started w0 = Some (x, w1)"
    using assms n0 by (auto simp: recreateThenDispatch_def Let_def split: option.splits)
  obtain looks where looks: "looked_at looks w0 w1"
    "\<forall>seen. x = Inr seen \<longrightarrow> (\<exists>before. looks = before @ [Inr seen]) \<and> at_rest parse ?k seen"
    using settle_wait_looks [OF s] by blast
  have l1: "snd w1 = map Looked looks" using looks(1) observed_steps(3) [OF n0] by (simp add: looked_at_def)
  note run = assms [unfolded recreateThenDispatch_def Let_def n0 prod.case s option.case]
  show ?thesis
  proof (cases x)
    case (Inl e)
    then show ?thesis using run l1 by auto
  next
    case (Inr seen)
    then obtain before where before: "looks = before @ [Inr seen]" and rest: "at_rest parse ?k seen" using looks(2) by blast
    let ?runs = "runsHoldingAny parse seen {?k}"
    let ?plan = "planned (fd_quiesce deps \<noteq> None) ?runs"
    obtain t1 w2 where n1: "fd_now ?d w1 = (t1, w2)" by (metis surj_pair)
    obtain y w3 where td: "teardown (fd_quiesce ?d) (fd_down ?d) (fd_restartPane ?d) ?runs w2 = (y, w3)" by (metis surj_pair)
    obtain made where made: "snd w3 = snd w2 @ made" "prefix made ?plan" "\<forall>u. y = Inr u \<longrightarrow> made = ?plan"
      using teardown_observed [OF td] by blast
    have l3: "snd w3 = map Looked (before @ [Inr seen]) @ made"
      using made(1) l1 observed_steps(3) [OF n1] before by simp
    note run1 = run [unfolded Inr sum.case n1 prod.case td]
    show ?thesis
    proof (cases y)
      case (Inl e)
      then have "res = Inl (Dep_threw e)" "evs = snd w3" using run1 by auto
      then show ?thesis
        using l3 rest made(2) by (intro disjI2 exI [of _ before] exI [of _ seen] exI [of _ made]) (simp add: Let_def)
    next
      case (Inr u)
      obtain t2 w4 where n2: "fd_now ?d w3 = (t2, w4)" by (metis surj_pair)
      obtain z w5 where f: "fresh_wait parse ?d ?k ?runs ?rt ?poll (t2 + ?rt) w4 = Some (z, w5)"
        using run1 Inr n2 by (auto split: option.splits)
      from fresh_wait_looks [OF f] obtain polls where polls: "looked_at polls w4 w5"
        and found: "\<forall>i. z = Inr i \<longrightarrow> (\<exists>before now acts a. polls = before @ [Inr now] \<and> workerActivity parse now ?k = Inr acts
          \<and> a \<in> set acts \<and> wa_alive a \<and> wa_runId a = i \<and> i \<notin> set ?runs)" and nb: "\<forall>k b. z \<noteq> Inl (Still_busy k b)"
        by (elim exE conjE) (rule that)
      have l5: "snd w5 = map Looked (before @ [Inr seen]) @ ?plan @ map Looked polls"
        using polls l3 made(3) Inr observed_steps(3) [OF n2] by (simp add: looked_at_def)
      note run2 = run1 [unfolded Inr sum.case n2 prod.case f option.case]
      show ?thesis
      proof (cases z)
        case (Inl e)
        then have "res = Inl e" "evs = snd w5" using run2 by auto
        moreover have "\<forall>k b. res \<noteq> Inl (Still_busy k b)" using nb Inl calculation(1) by simp
        ultimately show ?thesis
          using l5 rest by (intro disjI2 exI [of _ before] exI [of _ seen] exI [of _ "?plan @ map Looked polls"])
            (simp add: Let_def, blast)
      next
        case (Inr i)
        from found Inr obtain polls' now acts a where a: "polls = polls' @ [Inr now]" "workerActivity parse now ?k = Inr acts"
          "a \<in> set acts" "wa_alive a" "wa_runId a = i" "i \<notin> set ?runs" by blast
        have sent: "dispatch_into parse ?d ?k (t1 - started) ?runs i w5 = (res, (w', evs))" using run2 Inr by simp
        then have "evs = snd w5 @ [Sent i]"
          by (auto simp: dispatch_into_def observed_def logging_def split: prod.splits sum.splits option.splits)
        moreover have "\<forall>r. res = Inr r \<longrightarrow> fr_runId r = i \<and> fr_stopped r = ?runs \<and> dispatchProblem parse (fr_dispatched r) = None"
          and "\<forall>k b. res \<noteq> Inl (Still_busy k b)"
          using sent by (auto simp: dispatch_into_def split: prod.splits sum.splits option.splits)
        ultimately show ?thesis
          using l5 rest a by (intro disjI2 exI [of _ before] exI [of _ seen] exI [of _ "?plan @ map Looked polls @ [Sent i]"])
            (simp add: Let_def, blast)
      qed
    qed
  qed
qed

section \<open>A bare restart, in order\<close>

definition observed_restart ::
  "('x, 'p, 'w) console_restart_deps \<Rightarrow> ('x, 'p, 'w \<times> 'x fresh_event list) console_restart_deps" where
  "observed_restart deps =
    \<lparr>cr_plan = logging (\<lambda>r. Planned) (cr_plan deps), cr_status = logging Looked (cr_status deps),
     cr_quiesce = map_option (logging (\<lambda>r. Quiesced)) (cr_quiesce deps),
     cr_down = (\<lambda>run. logging (\<lambda>r. Stopped run) (cr_down deps run)),
     cr_restartPane = logging (\<lambda>r. Respawned) (cr_restartPane deps)\<rparr>"

text \<open>
  A bare restart resolves the pane, quiesces the relay, reads one status, stops exactly the runs of
  the worker that it shows and respawns the pane, in this order, up to the first that throws; it
  succeeds only when all of them were done.
\<close>

theorem restart_in_order:
  assumes "resolveThenRestart parse (observed_restart deps) worker (w, []) = (res, (w', evs))"
  shows "\<exists>seen. let runs = (case seen of Inl e \<Rightarrow> [] | Inr s \<Rightarrow> runsHoldingAny parse s {worker});
        plan = Planned # (if cr_quiesce deps = None then [] else [Quiesced]) @ Looked seen # map Stopped runs @ [Respawned] in
      prefix evs plan \<and> (\<forall>r. res = Inr r \<longrightarrow> evs = plan \<and> fst r = runs \<and> \<not> isl seen)"
proof -
  let ?d = "observed_restart deps" and ?q = "if cr_quiesce deps = None then [] else [Quiesced]"
  obtain x w1 where p: "cr_plan deps w = (x, w1)" by (metis surj_pair)
  have p': "cr_plan ?d (w, []) = (x, (w1, [Planned]))" using p by (simp add: observed_restart_def logging_def)
  note run = assms [unfolded resolveThenRestart_def p' prod.case]
  show ?thesis
  proof (cases x)
    case (Inl e)
    then show ?thesis using run by (auto simp: Let_def)
  next
    case (Inr u)
    obtain y w2 where q: "quiet_relay (cr_quiesce ?d) (w1, [Planned]) = (y, w2)" by (metis surj_pair)
    have q': "snd w2 = Planned # ?q"
      using quiet_observed [of "cr_quiesce deps" "(w1, [Planned])" y w2] q by (simp add: observed_restart_def)
    note run1 = run [unfolded Inr sum.case q prod.case]
    show ?thesis
    proof (cases y)
      case (Inl e)
      then show ?thesis using run1 q' by (auto simp: Let_def)
    next
      case (Inr v)
      obtain seen w3 where s: "cr_status ?d w2 = (seen, w3)" by (metis surj_pair)
      have s': "snd w3 = Planned # ?q @ [Looked seen]"
        using s q' by (auto simp: observed_restart_def logging_def split: prod.splits)
      note run2 = run1 [unfolded Inr sum.case s prod.case]
      show ?thesis
      proof (cases seen)
        case (Inl e)
        then have "evs = snd w3" "res = Inl e" using run2 by auto
        then show ?thesis using s' by (intro exI [of _ seen]) (auto simp: Let_def)
      next
        case (Inr st)
        let ?runs = "runsHoldingAny parse st {worker}"
        obtain z w4 where d: "down_all (cr_down ?d) ?runs w3 = (z, w4)" by (metis surj_pair)
        obtain made where m: "prefix made ?runs" "snd w4 = snd w3 @ map Stopped made" "\<forall>u. z = Inr u \<longrightarrow> made = ?runs"
          using down_all_observed [OF d [unfolded observed_restart_def console_restart_deps.simps]] by blast
        note run3 = run2 [unfolded Inr sum.case Let_def d prod.case]
        show ?thesis
        proof (cases z)
          case (Inl e)
          then have "evs = snd w4" "res = Inl e" using run3 by auto
          then show ?thesis using s' m(1,2) Inr by (intro exI [of _ seen]) (auto simp: Let_def prefix_def)
        next
          case (Inr v')
          obtain pane w5 where r: "cr_restartPane deps (fst w4) = (pane, w5)" by (metis surj_pair)
          have "cr_restartPane ?d w4 = (pane, (w5, snd w4 @ [Respawned]))"
            using r by (simp add: observed_restart_def logging_def)
          then have "evs = snd w4 @ [Respawned]" "\<forall>r. res = Inr r \<longrightarrow> fst r = ?runs"
            using run3 Inr by (auto split: sum.splits)
          then show ?thesis using s' m \<open>seen = Inr st\<close> Inr by (intro exI [of _ seen]) (auto simp: Let_def)
        qed
      qed
    qed
  qed
qed

section \<open>A recreate ends\<close>

definition waits_move :: "('x, 'w) fresh_dispatch_deps \<Rightarrow> ('w \<Rightarrow> rat) \<Rightarrow> bool" where
  "waits_move deps clk \<longleftrightarrow>
    (\<forall>w. fst (fd_now deps w) = clk w \<and> clk w \<le> clk (snd (fd_now deps w)))
    \<and> (\<forall>ms w. clk w + ms \<le> clk (snd (fd_sleep deps ms w)))
    \<and> (\<forall>w. clk w \<le> clk (snd (fd_status deps w)))"

lemma settle_wait_returns:
  assumes "waits_move deps clk" and "0 < poll"
  shows "timeout + started - clk w \<le> of_nat n * poll \<Longrightarrow> \<exists>r. settle_wait parse deps worker timeout poll started w = Some r"
proof (induction n arbitrary: w)
  case (0 w)
  obtain seen w1 where s: "fd_status deps w = (seen, w1)" by (metis surj_pair)
  obtain t w2 where n: "fd_now deps w1 = (t, w2)" by (metis surj_pair)
  have "clk w \<le> clk w1" "t = clk w1" using assms(1) s n unfolding waits_move_def by (metis fst_conv snd_conv)+
  then have "t - started \<ge> timeout" using 0 by simp
  then show ?case by (subst settle_wait.simps) (auto simp: s n split: sum.splits)
next
  case (Suc n w)
  obtain seen w1 where s: "fd_status deps w = (seen, w1)" by (metis surj_pair)
  obtain t w2 where n: "fd_now deps w1 = (t, w2)" by (metis surj_pair)
  obtain u w3 where z: "fd_sleep deps poll w2 = (u, w3)" by (metis surj_pair)
  have "clk w \<le> clk w1" "clk w1 \<le> clk w2" "clk w2 + poll \<le> clk w3"
    using assms(1) s n z unfolding waits_move_def by (metis fst_conv snd_conv)+
  then have "timeout + started - clk w3 \<le> of_nat n * poll" using Suc.prems by (simp add: algebra_simps)
  from Suc.IH [OF this] show ?case by (subst settle_wait.simps) (auto simp: s n z split: sum.splits)
qed

lemma fresh_wait_returns:
  assumes "waits_move deps clk" and "0 < poll"
  shows "readyBy - clk w \<le> of_nat n * poll \<Longrightarrow> \<exists>r. fresh_wait parse deps worker previous ready poll readyBy w = Some r"
proof (induction n arbitrary: w)
  case (0 w)
  obtain u w1 where z: "fd_sleep deps poll w = (u, w1)" by (metis surj_pair)
  obtain seen w2 where s: "fd_status deps w1 = (seen, w2)" by (metis surj_pair)
  obtain t w3 where n: "fd_now deps w2 = (t, w3)" by (metis surj_pair)
  have "clk w + poll \<le> clk w1" "clk w1 \<le> clk w2" "t = clk w2"
    using assms(1) s n z unfolding waits_move_def by (metis fst_conv snd_conv)+
  then have "t \<ge> readyBy" using 0 assms(2) by simp
  then show ?case by (subst fresh_wait.simps) (auto simp: s n z split: sum.splits option.splits)
next
  case (Suc n w)
  obtain u w1 where z: "fd_sleep deps poll w = (u, w1)" by (metis surj_pair)
  obtain seen w2 where s: "fd_status deps w1 = (seen, w2)" by (metis surj_pair)
  obtain t w3 where n: "fd_now deps w2 = (t, w3)" by (metis surj_pair)
  have "clk w + poll \<le> clk w1" "clk w1 \<le> clk w2" "clk w2 \<le> clk w3"
    using assms(1) s n z unfolding waits_move_def by (metis fst_conv snd_conv)+
  then have "readyBy - clk w3 \<le> of_nat n * poll" using Suc.prems by (simp add: algebra_simps)
  from Suc.IH [OF this] show ?case
    by (subst fresh_wait.simps) (auto simp: s n z split: sum.splits option.splits)
qed

text \<open>With a clock that moves while the code sleeps and a positive polling interval a recreate ends.\<close>

theorem recreate_returns:
  assumes "waits_move deps clk" and "0 < given DEFAULT_POLL_MS (fo_pollMs opts)"
  shows "\<exists>r. recreateThenDispatch parse deps opts w = Some r"
proof -
  let ?poll = "given DEFAULT_POLL_MS (fo_pollMs opts)"
  have enough: "\<exists>n. x \<le> of_nat n * ?poll" for x :: rat
    using ex_less_of_nat_mult [OF assms(2), of x] by (auto intro: less_imp_le)
  have "\<exists>r. settle_wait parse deps worker timeout ?poll started v = Some r" for worker timeout started v
    using enough settle_wait_returns [OF assms] by blast
  moreover have "\<exists>r. fresh_wait parse deps worker previous ready ?poll readyBy v = Some r" for worker previous ready readyBy v
    using enough fresh_wait_returns [OF assms] by blast
  ultimately show ?thesis
    unfolding recreateThenDispatch_def Let_def
    by (auto split: option.split sum.split prod.split) (metis option.distinct(1))+
qed

end
