(* ===== verification/Pm_Guards.thy ===== *)
theory Pm_Guards
  imports Fresh_Dispatch Schema
begin

text \<open>
  The two refusals of the project manager's loop (\<open>src/run/pm-guards.ts\<close>): whether a dispatch
  started, which only the status of the fleet can say, and whether a tester's clone holds what the
  phase merged. \<open>JSON.parse\<close> and the answers of git are parameters. The lemmas give the exact
  condition of each answer.
\<close>

section \<open>Did the dispatch start?\<close>

record status_row =
  sr_id :: string
  sr_phase :: "string option"
  sr_task_id :: "string option"
  sr_staged_task_id :: "string option"

text \<open>\<open>z.string().nullable().optional()\<close>: a value that is absent or null reads as none.\<close>

fun nullish_string :: "json \<Rightarrow> string option option" where
  "nullish_string (JStr s) = Some (Some s)"
| "nullish_string JNull = Some None"
| "nullish_string _ = None"

definition StatusWorkerRowSchema :: "json \<Rightarrow> status_row option" where
  "StatusWorkerRowSchema v =
    (case v of
       JObj _ \<Rightarrow>
         (case (field v ''id'' (string_where (\<lambda>s. s \<noteq> '''')), default_field v ''phase'' None nullish_string,
             default_field v ''task_id'' None nullish_string, default_field v ''staged_task_id'' None nullish_string) of
            (Some i, Some p, Some t, Some s) \<Rightarrow>
              Some \<lparr>sr_id = i, sr_phase = p, sr_task_id = t, sr_staged_task_id = s\<rparr>
          | _ \<Rightarrow> None)
     | _ \<Rightarrow> None)"

fun all_rows :: "json \<Rightarrow> status_row list option" where
  "all_rows (JArr vs) = those (map StatusWorkerRowSchema vs)"
| "all_rows _ = None"

definition StatusSnapshotSchema :: "json \<Rightarrow> status_row list option" where
  "StatusSnapshotSchema v =
    (case v of
       JObj _ \<Rightarrow>
         (case optional_field v ''run_id'' (string_where (\<lambda>s. True)) of
            None \<Rightarrow> None
          | Some run_id \<Rightarrow> field v ''workers'' all_rows)
     | _ \<Rightarrow> None)"

record confirm_dispatch_input =
  cd_worker :: string
  cd_taskId :: string
  cd_dispatchStdout :: string
  cd_statusJson :: string

datatype unconfirmed =
    Status_unread
  | Not_listed "string list"
  | Shows_other "string option" "string option" "string option"

datatype dispatch_confirmation =
    Started "string option"
  | Staged "string option"
  | Refused_dispatch dispatch_problem
  | Unconfirmed unconfirmed

text \<open>The second copy of the judgement; \<open>dispatch_arms_agree\<close> below compares it with the first.\<close>

definition dispatch_problem_here :: "(string \<Rightarrow> json option) \<Rightarrow> string \<Rightarrow> dispatch_problem option" where
  "dispatch_problem_here parse stdout =
    (let text = trim_string stdout in
     if text = '''' then Some No_output
     else (case parse text of
             None \<Rightarrow> Some (Stdout_no_json (take 200 text))
           | Some parsed \<Rightarrow>
               if \<not> is_object parsed then Some (Stdout_no_object (take 200 text))
               else (let accepted = jprop parsed ''accepted'' in
                     if accepted \<noteq> Some (JBool True) then Some (Not_accepted accepted (take 200 text)) else None)))"

definition confirmDispatchStarted ::
  "(string \<Rightarrow> json option) \<Rightarrow> confirm_dispatch_input \<Rightarrow> dispatch_confirmation" where
  "confirmDispatchStarted parse inp =
    (case dispatch_problem_here parse (cd_dispatchStdout inp) of
       Some p \<Rightarrow> Refused_dispatch p
     | None \<Rightarrow>
         (case Option.bind (parse (trim_string (cd_statusJson inp))) StatusSnapshotSchema of
            None \<Rightarrow> Unconfirmed Status_unread
          | Some workers \<Rightarrow>
              (case find (\<lambda>w. sr_id w = cd_worker inp) workers of
                 None \<Rightarrow> Unconfirmed (Not_listed (map sr_id workers))
               | Some row \<Rightarrow>
                   if sr_task_id row = Some (cd_taskId inp) then Started (sr_phase row)
                   else if sr_staged_task_id row = Some (cd_taskId inp) then Staged (sr_phase row)
                   else Unconfirmed (Shows_other (sr_phase row) (sr_task_id row) (sr_staged_task_id row)))))"

definition counts_as_started :: "dispatch_confirmation \<Rightarrow> bool" where
  "counts_as_started c = (case c of Started p \<Rightarrow> True | _ \<Rightarrow> False)"

section \<open>Does the clone hold the merge?\<close>

record tester_clone_input =
  tc_worker :: string
  tc_cloneBaseSha :: string
  tc_mergeCommits :: "string list"

datatype tester_clone_verdict = Clone_fresh | Clone_stale "string list"

definition testerCloneCoversMerge :: "tester_clone_input \<Rightarrow> (string \<Rightarrow> bool) \<Rightarrow> tester_clone_verdict" where
  "testerCloneCoversMerge inp contains =
    (let missing = [c \<leftarrow> tc_mergeCommits inp. \<not> contains c] in if missing = [] then Clone_fresh else Clone_stale missing)"

section \<open>What the answers mean\<close>

lemma dispatch_arms_agree: "dispatch_problem_here = dispatchProblem"
  by (intro ext) (simp add: dispatch_problem_here_def dispatchProblem_def Let_def split: option.splits)

definition shows_row :: "(string \<Rightarrow> json option) \<Rightarrow> confirm_dispatch_input \<Rightarrow> status_row \<Rightarrow> bool" where
  "shows_row parse inp row \<longleftrightarrow>
    (\<exists>v rows. parse (trim_string (cd_statusJson inp)) = Some v \<and> StatusSnapshotSchema v = Some rows
      \<and> find (\<lambda>w. sr_id w = cd_worker inp) rows = Some row)"

definition accepted_by :: "(string \<Rightarrow> json option) \<Rightarrow> string \<Rightarrow> bool" where
  "accepted_by parse stdout \<longleftrightarrow>
    trim_string stdout \<noteq> '''' \<and> (\<exists>v. parse (trim_string stdout) = Some v \<and> jprop v ''accepted'' = Some (JBool True))"

lemma accepted_iff: "dispatch_problem_here parse stdout = None \<longleftrightarrow> accepted_by parse stdout"
  by (auto simp: dispatch_problem_here_def accepted_by_def Let_def jprop_no_object split: option.splits)

text \<open>
  A dispatch counts as started exactly when its output says it was accepted and the first row of the
  worker in a status that can be read holds its task. An envelope that is only staged does not count,
  and without the status nothing the output says makes a start.
\<close>

theorem dispatch_started_iff:
  "counts_as_started (confirmDispatchStarted parse inp) \<longleftrightarrow>
    accepted_by parse (cd_dispatchStdout inp) \<and> (\<exists>row. shows_row parse inp row \<and> sr_task_id row = Some (cd_taskId inp))"
  unfolding accepted_iff [symmetric] confirmDispatchStarted_def counts_as_started_def shows_row_def
  by (auto split: option.splits Option.bind_split dispatch_confirmation.splits)

theorem dispatch_staged_iff:
  "(\<exists>p. confirmDispatchStarted parse inp = Staged p) \<longleftrightarrow>
    accepted_by parse (cd_dispatchStdout inp)
    \<and> (\<exists>row. shows_row parse inp row \<and> sr_task_id row \<noteq> Some (cd_taskId inp) \<and> sr_staged_task_id row = Some (cd_taskId inp))"
  unfolding accepted_iff [symmetric] confirmDispatchStarted_def shows_row_def
  by (auto split: option.splits Option.bind_split)

theorem dispatch_refused_iff:
  "(\<exists>p. confirmDispatchStarted parse inp = Refused_dispatch p) \<longleftrightarrow> \<not> accepted_by parse (cd_dispatchStdout inp)"
  unfolding accepted_iff [symmetric] confirmDispatchStarted_def
  by (auto split: option.splits Option.bind_split)

text \<open>A tester is refused exactly for the merges its clone lacks, all of them, in their order.\<close>

theorem tester_clone_exact:
  "testerCloneCoversMerge inp contains = Clone_fresh \<longleftrightarrow> (\<forall>c \<in> set (tc_mergeCommits inp). contains c)"
  "testerCloneCoversMerge inp contains = Clone_stale missing \<longleftrightarrow>
    missing = filter (Not \<circ> contains) (tc_mergeCommits inp) \<and> missing \<noteq> []"
  by (auto simp: testerCloneCoversMerge_def Let_def filter_empty_conv comp_def)

text \<open>A staged envelope is accepted and has not started, whatever the heading of the comment says.\<close>

lemma staged_is_no_start:
  "let parse = (\<lambda>s. if s = ''d'' then Some (JObj [(''accepted'', JBool True)])
        else Some (JObj [(''workers'', JArr [JObj [(''id'', JStr ''e1''), (''phase'', JStr ''idle''), (''staged_task_id'', JStr ''T1'')]])]));
      c = confirmDispatchStarted parse
        \<lparr>cd_worker = ''e1'', cd_taskId = ''T1'', cd_dispatchStdout = ''d'', cd_statusJson = ''s''\<rparr>
   in c = Staged (Some ''idle'') \<and> \<not> counts_as_started c"
  by code_simp

end
