(* ===== verification/Spec2Isabelle.thy ===== *)
theory Spec2Isabelle
  imports Epoch Incident Kill_Ladder Adjudicate Schedule_Calls Schedule_Budget Detectors Completion Reaper
    Triage_Partition Pm_Review Pm_Integration Harvest Notify_Delivery Relay_Pass Console_Relay Pm_State Triage_Pass Pm_Guards
begin

text \<open>
  A verification development for \<open>pifleet\<close>, the agent-fleet orchestrator of this repository: a host
  process starts coding agents in containers, dispatches tasks to them, watches and stops them,
  harvests what they leave behind, grades it, and reports. The host trusts nothing an agent
  writes. The theories model the modules under \<open>src/\<close> that decide something: what is dispatched, to
  whom and when; when a turn is over; what may be signalled or removed; what of an outbox is
  believed; what verdict a task earns; what is merged and what is announced. Each theory names the
  file it models in its first lines and keeps the names of its functions.

  \<^bold>\<open>The parts and how they meet.\<close>

  \<^item> Scheduling. \<open>Task_List\<close> validates a task file (\<open>orchestrate/tasklist.ts\<close>), \<open>Task_Graph\<close> is the graph
    of \<open>orchestrate/graph.ts\<close>, \<open>Graph_Sweep\<close> and \<open>Topo_Order\<close> its meaning and its order. \<open>Scheduler\<close> is the
    loop of \<open>orchestrate/scheduler.ts\<close>, one definition per block of the function, over a record of
    operations on a world (\<open>SchedulerIO\<close>); \<open>Schedule_Steps\<close>, \<open>Schedule_Calls\<close>, \<open>Schedule_Budget\<close> and
    \<open>Schedule_Runs\<close> hold its invariants, the calls seen from outside, its use of the budget, and whole
    runs. \<open>Task_Board\<close> is the board the scheduler is a client of, as a locale that the graph
    interprets. \<open>Budget\<close> is \<open>safety/budget.ts\<close> with the stall policy of \<open>safety/stall.ts\<close>.
  \<^item> A worker's turn. \<open>Epoch\<close> is the fencing of \<open>rpc/epoch.ts\<close>, \<open>Completion\<close> the end of a turn
    (\<open>rpc/completion.ts\<close>, \<open>supervisor/ui-requests.ts\<close>), \<open>Detectors\<close> the loops and silences the supervisor
    looks for (\<open>supervisor/tool-loop.ts\<close>, \<open>prose-loop.ts\<close>, \<open>prose-detector.ts\<close>, \<open>tui.ts\<close>), \<open>Transcript\<close> the
    session file (\<open>harvest/transcript.ts\<close>), \<open>Jsonl\<close> and \<open>Tail_Reader\<close> the streams all of them read
    (\<open>util/jsonl.ts\<close>).
  \<^item> Stopping. \<open>Kill_Ladder\<close> is \<open>safety/kill.ts\<close>, \<open>Reaper\<close> is \<open>safety/reaper.ts\<close>; the process table, the
    signals and the containers are records of operations.
  \<^item> Harvest. \<open>Paths\<close> has the containment test, \<open>Outbox\<close> the files of a task and its result envelope
    (\<open>harvest/outbox.ts\<close>), \<open>Secret_Sweep\<close> the search for secrets and their redaction
    (\<open>harvest/observer-target-artifacts.ts\<close>), \<open>Ticket_Ops\<close> the documents of the ticket console
    (\<open>contracts.ts\<close>), \<open>Body_Scan\<close> and \<open>Reconcile\<close> the reconciliation of claims with the outbox
    (\<open>harvest/reconcile.ts\<close>), \<open>Collation\<close> and \<open>Collation_Census\<close> the collation of a review
    (\<open>run/collation.ts\<close>, \<open>harvest/collation-census.ts\<close>), \<open>Adjudicate\<close> the grading
    (\<open>harvest/adjudicate.ts\<close>), \<open>Harvest\<close> the whole (\<open>harvest/index.ts\<close>). \<open>Verdicts\<close> has the verdicts, their
    order and their exit codes (\<open>contracts.ts\<close>), and the locale of a cap on a verdict.
  \<^item> The review and the triage console. \<open>Task_Ids\<close> derives task ids and seats (\<open>run/task-ids.ts\<close>),
    \<open>Dispatch_Request\<close> reads what a collator asks for (\<open>run/dispatch-request.ts\<close>), \<open>Relay\<close> fans it out,
    \<open>Relay_Transport\<close> carries the dispatches (\<open>run/relay.ts\<close>), \<open>Relay_Journal\<close> records them
    (\<open>run/relay-journal.ts\<close>), \<open>Relay_Pass\<close> is the command that composes the four
    (\<open>cli/commands/relay.ts\<close>), \<open>Console_Relay\<close> the record and the lock of its process
    (\<open>run/console-relay.ts\<close>). \<open>Triage_Partition\<close> checks the partition of a sweep
    (\<open>run/triage-partition.ts\<close>), \<open>Triage_Verdict\<close> assesses what came of it
    (\<open>run/triage-verdict.ts\<close>), \<open>Incident\<close> is the machine of an incident (\<open>run/triage-incident.ts\<close>),
    \<open>Notify\<close> and \<open>Notify_Delivery\<close> what is announced of it (\<open>run/triage-notify.ts\<close>), and
    \<open>Triage_Pass\<close> the tick that composes the five (\<open>run/triage-pass.ts\<close>).
  \<^item> The project manager. \<open>Pm_State\<close> is its state file (\<open>run/pm-state.ts\<close>), \<open>Pm_Review\<close> the verdict of a
    review (\<open>run/pm-verdict.ts\<close>), \<open>Pm_Integration\<close> the merge of a worker's branch
    (\<open>run/pm-integration.ts\<close>), \<open>Pm_Guards\<close> what it refuses between a dispatch and its result
    (\<open>run/pm-guards.ts\<close>), \<open>Fresh_Dispatch\<close> the restart of a worker before a dispatch
    (\<open>run/fresh-dispatch.ts\<close>, \<open>run/status-runs.ts\<close>).
  \<^item> Shared. \<open>Fleet_Prelude\<close> has the idioms of the language the source leans on (an object used as a
    map, safe integers, numbers that may be no number) and the locales of a machine with an
    invariant; \<open>Wire\<close> has JSON values and strings, \<open>Schema\<close> the validators of fields, \<open>Js_Text\<close> texts as
    lists of UTF-16 units.

  \<^bold>\<open>How state and operations are modelled.\<close> A class or a snapshot is a record, a tagged union a
  datatype, a method a function from the state to the state and an answer. What throws gives a sum
  or an option, and a refusal is a value; the sentences that explain refusals to people are
  constructors and not strings, except where the text is what is proved about (\<open>Notify\<close>). Effects
  are explicit: an operation on the outside takes a world of any type and gives it back, so a
  theorem holds for every behaviour of the outside that its hypotheses allow. What the code starts
  together (\<open>Promise.all\<close>, \<open>Promise.allSettled\<close>) runs in the order it is started in.

  \<^bold>\<open>What the lemmas show.\<close> For a machine: an invariant of every state it reaches and what its outputs
  mean (\<open>Epoch\<close>, \<open>Budget\<close>, \<open>Incident\<close>, \<open>Graph_Sweep\<close>, \<open>Schedule_Steps\<close>, \<open>Console_Relay\<close>, \<open>Relay_Pass\<close>,
  \<open>Triage_Pass\<close>). For a decision: exactly when each answer is given (\<open>Adjudicate\<close>, \<open>Harvest\<close>, \<open>Completion\<close>, \<open>Pm_Review\<close>,
  \<open>Dispatch_Request\<close>, \<open>Relay_Transport\<close>, \<open>Pm_Guards\<close>). For a parser or a scan: that it agrees with a plain
  description of what it should accept or find (\<open>Jsonl\<close>, \<open>Tail_Reader\<close>, \<open>Secret_Sweep\<close>, \<open>Body_Scan\<close>,
  \<open>Pm_State\<close>, \<open>Transcript\<close>). For what acts on the host: which operations it makes, in which order and
  after which checks, through a log beside the world (\<open>Kill_Ladder\<close>, \<open>Reaper\<close>, \<open>Pm_Integration\<close>,
  \<open>Relay\<close>, \<open>Schedule_Calls\<close>, \<open>Fresh_Dispatch\<close>). Findings, where the code does not do what it or its comments say, are
  lemmas with a concrete input.

  \<^bold>\<open>Loops.\<close> The loops of the scheduler, of the kill ladder, of the wait for a record and of a recreate
  may not end when the clock does not move; they are partial functions into an option and their
  termination is proved for a clock that goes on (\<open>steady_clock\<close>, \<open>moving_clock\<close>, \<open>keeps_time\<close>,
  \<open>waits_move\<close>). The starter of a lock
  takes at most eight operations, which is the fuel of \<open>acquireRelayLock\<close>. All other loops are total.

  \<^bold>\<open>What is taken as given.\<close> \<open>JSON.parse\<close>, \<open>JSON.stringify\<close> and digests are parameters, with the round
  trip as a hypothesis where a theorem needs it. Git, \<open>ps\<close>, signals, containers, sockets and the
  file system are parameters; \<open>realpath\<close> answers resolved paths. The ids of one object are distinct.
  Of the calls the scheduler makes only \<open>dispatch\<close> may throw. Strings are lists of the 256 characters
  of HOL where the code only compares, splits and measures ASCII; where other characters matter
  they are UTF-16 units. Numbers are integers or rationals where the code checks that they are
  finite, and \<open>js_number\<close> where it does not.

  \<^bold>\<open>Not modelled.\<close> The process around these parts: the supervisor's event loop
  (\<open>supervisor/index.ts\<close>), the commands that only parse options and print, the terminal back ends, the
  container commands, the configuration loader, the monitor's views, and the network side of
  \<open>security/\<close>. They are inputs and outputs of the parts above, or call them; \<open>PROJECT.json\<close> lists each
  with its reason. In the modelled files, what is left out is named in the same place.
\<close>

end
